(* ===== verification/Prelude.thy ===== *)
theory Prelude
  imports Main "HOL-Library.Word"
begin

text \<open>
  Shared vocabulary of the development: the machine integer types of the C sources, the ways a C
  call can fail to return a value, the sequencing of fallible calls, and the lemmas on lists and
  words that every component uses.

  A C function that always returns is a HOL function. A C function that may read outside an
  object, call \<open>abort\<close> or \<open>exit\<close>, or loop for ever returns a value of
  \<open>'a outcome\<close>: \<open>Inr v\<close> when it returns \<open>v\<close>, and \<open>Inl f\<close> with the
  fault otherwise.
\<close>

unbundle bit_operations_syntax

section \<open>Integers and bytes\<close>

type_synonym u8 = "8 word"
type_synonym u32 = "32 word"
type_synonym u64 = "64 word"
type_synonym bytes = "8 word list"

text \<open>A C string literal as its bytes, without the terminating NUL.\<close>

definition c_lit :: "string \<Rightarrow> bytes" where
  "c_lit s = map of_char s"

definition ascii :: "char \<Rightarrow> u8" where
  "ascii c = of_char c"

section \<open>Faults and outcomes\<close>

datatype fault =
    Out_of_bounds            \<comment> \<open>an access outside the object a pointer points into\<close>
  | Unwritten                \<comment> \<open>a read of an output outside the bytes written to it\<close>
  | Null_deref               \<comment> \<open>an access through a null pointer\<close>
  | Overlap                  \<comment> \<open>\<open>memcpy\<close> between ranges that overlap\<close>
  | Bad_shift                \<comment> \<open>a shift by at least the width of the shifted type\<close>
  | Int_overflow           \<comment> \<open>a signed computation outside the range of its type\<close>
  | Report_abort string      \<comment> \<open>\<open>chk_report_abort\<close> with this check\<close>
  | Exit_code int            \<comment> \<open>\<open>exit\<close> with this status\<close>
  | Hang                     \<comment> \<open>a loop that never ends\<close>

type_synonym 'a outcome = "fault + 'a"

definition andthen :: "'a outcome \<Rightarrow> ('a \<Rightarrow> 'b outcome) \<Rightarrow> 'b outcome" where
  "andthen m k = (case m of Inl f \<Rightarrow> Inl f | Inr x \<Rightarrow> k x)"

lemma andthen_simps [simp]:
  "andthen (Inl f) k = Inl f"
  "andthen (Inr x) k = k x"
  by (simp_all add: andthen_def)

lemma andthen_eq_Inr:
  "andthen m k = Inr y \<longleftrightarrow> (\<exists>x. m = Inr x \<and> k x = Inr y)"
  by (cases m) auto

lemma andthen_cong [fundef_cong]:
  "m = m' \<Longrightarrow> (\<And>x. m' = Inr x \<Longrightarrow> k x = k' x) \<Longrightarrow> andthen m k = andthen m' k'"
  by (cases m') auto

lemma andthen_assoc: "andthen (andthen m k) l = andthen m (\<lambda>x. andthen (k x) l)"
  by (cases m) auto

text \<open>A read through a pointer: the object is a list, the offset a number.\<close>

definition load :: "'a list \<Rightarrow> nat \<Rightarrow> 'a outcome" where
  "load xs i = (if i < length xs then Inr (xs ! i) else Inl Out_of_bounds)"

lemma load_in [simp]: "i < length xs \<Longrightarrow> load xs i = Inr (xs ! i)"
  by (simp add: load_def)

lemma load_out: "\<not> i < length xs \<Longrightarrow> load xs i = Inl Out_of_bounds"
  by (simp add: load_def)

lemma load_eq_Inr: "load xs i = Inr y \<longleftrightarrow> i < length xs \<and> xs ! i = y"
  by (auto simp: load_def)

lemma load_drop:
  assumes "drop p mem = b # r" shows "load mem p = Inr b"
proof -
  have "p < length mem" using assms by (cases "p < length mem") auto
  then show ?thesis using assms Cons_nth_drop_Suc [of p mem] by simp
qed

lemma drop_record:
  assumes "drop p mem = a @ b" shows "drop (p + length a) mem = b"
  using arg_cong [OF assms, of "drop (length a)"] by (simp add: add.commute)

text \<open>\<open>memcpy(dst, src, n)\<close> as a read of \<open>n\<close> cells from offset \<open>i\<close>.\<close>

definition load_n :: "'a list \<Rightarrow> nat \<Rightarrow> nat \<Rightarrow> 'a list outcome" where
  "load_n xs i n = (if i + n \<le> length xs then Inr (take n (drop i xs)) else Inl Out_of_bounds)"

lemma load_n_in [simp]: "i + n \<le> length xs \<Longrightarrow> load_n xs i n = Inr (take n (drop i xs))"
  by (simp add: load_n_def)

text \<open>\<open>memcpy\<close> into a buffer at offset \<open>i\<close>.\<close>

definition store_n :: "'a list \<Rightarrow> nat \<Rightarrow> 'a list \<Rightarrow> 'a list outcome" where
  "store_n xs i ys =
     (if i + length ys \<le> length xs then Inr (take i xs @ ys @ drop (i + length ys) xs)
      else Inl Out_of_bounds)"

lemma store_n_length: "store_n xs i ys = Inr zs \<Longrightarrow> length zs = length xs"
  by (auto simp: store_n_def split: if_splits)

text \<open>The pattern \<open>return(xc ? ... : ...)\<close>, and \<open>if(xc) { ... }\<close>.\<close>

definition xc_get :: "'c option \<Rightarrow> ('c \<Rightarrow> 'a) \<Rightarrow> 'a \<Rightarrow> 'a" where
  "xc_get ctx g d = (case ctx of None \<Rightarrow> d | Some xc \<Rightarrow> g xc)"

lemma xc_get_simps [simp]: "xc_get None g d = d" "xc_get (Some xc) g d = g xc"
  by (simp_all add: xc_get_def)

definition xc_set :: "'c option \<Rightarrow> ('c \<Rightarrow> 'c outcome) \<Rightarrow> 'c option outcome" where
  "xc_set ctx g = (case ctx of None \<Rightarrow> Inr None | Some xc \<Rightarrow> andthen (g xc) (\<lambda>xc'. Inr (Some xc')))"

lemma xc_set_simps [simp]:
  "xc_set None g = Inr None"
  "xc_set (Some xc) g = andthen (g xc) (\<lambda>xc'. Inr (Some xc'))"
  by (simp_all add: xc_set_def)

section \<open>Words\<close>

lemma unat_lt_exp:
  fixes w :: "'a::len word"
  shows "unat w < 2 ^ LENGTH('a)"
  by (rule unsigned_less)

lemma unat_u8: "unat (b :: u8) < 256"
  using unat_lt_exp [of b] by simp

lemma unat_u32: "unat (w :: u32) < 4294967296"
  using unat_lt_exp [of w] by simp

lemma unat_u64: "unat (w :: u64) < 18446744073709551616"
  using unat_lt_exp [of w] by simp

lemma unat_drop_bit_7:
  fixes v :: "'a::len word"
  shows "unat (drop_bit 7 v) = unat v div 128"
  by (subst unat_drop_bit_eq) (simp add: drop_bit_eq_div)

lemma drop_bit_7_eq_0_iff:
  fixes v :: "'a::len word"
  shows "drop_bit 7 v = 0 \<longleftrightarrow> unat v < 128"
proof -
  have "drop_bit 7 v = 0 \<longleftrightarrow> unat (drop_bit 7 v) = 0"
    by (simp only: unat_eq_zero)
  then show ?thesis by (simp add: unat_drop_bit_7 div_eq_0_iff)
qed

lemma drop_bit_7_less:
  fixes v :: "'a::len word"
  assumes "drop_bit 7 v \<noteq> 0"
  shows "unat (drop_bit 7 v) < unat v"
  using assms by (simp add: drop_bit_7_eq_0_iff unat_drop_bit_7)

text \<open>A fact about all bytes, from the 256 values.\<close>

lemma byte_all:
  assumes "\<forall>n \<in> set [0..<256]. P (word_of_nat n :: u8)"
  shows "P b"
proof -
  have "unat b \<in> set [0..<256]" using unat_u8 [of b] by simp
  with assms have "P (word_of_nat (unat b))" by (rule bspec)
  then show ?thesis by simp
qed

lemma byte_high_bit_iff:
  fixes b :: u8
  shows "b AND 0x80 \<noteq> 0 \<longleftrightarrow> 128 \<le> unat b"
proof -
  have u: "unat b < 256" by (rule unat_u8)
  have "b AND 0x80 \<noteq> 0 \<longleftrightarrow> bit b 7"
    using bit_iff_and_push_bit_not_eq_0 [of b 7] by simp
  also have "\<dots> \<longleftrightarrow> bit (unat b) 7"
    by (simp add: bit_unsigned_iff)
  also have "\<dots> \<longleftrightarrow> odd (unat b div 128)"
    by (simp add: bit_iff_odd)
  also have "\<dots> \<longleftrightarrow> 128 \<le> unat b"
  proof (cases "128 \<le> unat b")
    case True
    then have "unat b div 128 = (unat b - 128) div 128 + 1"
      by (simp add: le_div_geq)
    with u True show ?thesis by simp
  next
    case False
    then show ?thesis by simp
  qed
  finally show ?thesis .
qed

lemma byte_low7:
  fixes b :: u8
  shows "unat (b AND 0x7f) = unat b mod 128"
proof -
  have u: "unat b < 256" by (rule unat_u8)
  have "b AND 0x7f = take_bit 7 b" by (simp add: take_bit_eq_mask mask_eq_exp_minus_1)
  then show ?thesis by (simp add: unsigned_take_bit_eq) (simp add: take_bit_eq_mod)
qed
end
