(* ===== verification/Stdio.thy ===== *)
theory Stdio
  imports Prelude
begin

text \<open>
  The part of C's \<open>stdio\<close> the sources use. A stream is its bytes, its position and its
  end-of-file flag; buffering is not visible, since the sources flush a stream before they map
  its file. The wrappers \<open>fstFread\<close>, \<open>fstFwrite\<close>, \<open>fstFtruncate\<close> and
  \<open>fstWriterUint64\<close>/\<open>fstReaderUint64\<close> of \<open>fstapi.c\<close> follow.
\<close>

section \<open>Streams\<close>

record cfile =
  f_data :: bytes
  f_pos :: nat
  f_eof :: bool

definition new_file :: cfile where
  "new_file = \<lparr>f_data = [], f_pos = 0, f_eof = False\<rparr>"

text \<open>Bytes stored at an offset; a gap between the old end and the offset reads as zeros.\<close>

definition overlay :: "bytes \<Rightarrow> nat \<Rightarrow> bytes \<Rightarrow> bytes" where
  "overlay d p bs = take p (d @ replicate (p - length d) 0) @ bs @ drop (p + length bs) d"

definition fwrite_bytes :: "bytes \<Rightarrow> cfile \<Rightarrow> cfile" where
  "fwrite_bytes bs f =
     (if bs = [] then f
      else f\<lparr>f_data := overlay (f_data f) (f_pos f) bs, f_pos := f_pos f + length bs\<rparr>)"

definition fputc :: "u8 \<Rightarrow> cfile \<Rightarrow> cfile" where
  "fputc b f = fwrite_bytes [b] f"

text \<open>\<open>fgetc\<close> returns an \<open>int\<close>: the byte, or \<open>-1\<close> at the end of the file.\<close>

definition fgetc :: "cfile \<Rightarrow> int \<times> cfile" where
  "fgetc f =
     (if f_pos f < length (f_data f)
      then (uint (f_data f ! f_pos f), f\<lparr>f_pos := Suc (f_pos f)\<rparr>)
      else (-1, f\<lparr>f_eof := True\<rparr>))"

definition fread_bytes :: "nat \<Rightarrow> cfile \<Rightarrow> bytes \<times> cfile" where
  "fread_bytes n f =
     (let bs = take n (drop (f_pos f) (f_data f))
      in (bs, f\<lparr>f_pos := f_pos f + length bs, f_eof := f_eof f \<or> length bs < n\<rparr>))"

definition ftello :: "cfile \<Rightarrow> nat" where
  "ftello f = f_pos f"

datatype whence = SEEK_SET | SEEK_CUR | SEEK_END

definition fseeko :: "cfile \<Rightarrow> int \<Rightarrow> whence \<Rightarrow> int \<times> cfile" where
  "fseeko f offset w =
     (let base = (case w of SEEK_SET \<Rightarrow> 0 | SEEK_CUR \<Rightarrow> int (f_pos f)
                  | SEEK_END \<Rightarrow> int (length (f_data f)))
      in if base + offset < 0 then (-1, f)
         else (0, f\<lparr>f_pos := nat (base + offset), f_eof := False\<rparr>))"

definition ftruncate :: "nat \<Rightarrow> cfile \<Rightarrow> cfile" where
  "ftruncate n f =
     f\<lparr>f_data := take n (f_data f) @ replicate (n - length (f_data f)) 0\<rparr>"

section \<open>Wrappers of the sources\<close>

text \<open>\<open>fstFread(buf, n, 1, fp)\<close>: the bytes read, and 1 when all \<open>n\<close> were there.\<close>

definition fstFread :: "nat \<Rightarrow> cfile \<Rightarrow> bytes \<times> nat \<times> cfile" where
  "fstFread n f = (let (bs, f') = fread_bytes n f in (bs, if length bs = n then 1 else 0, f'))"

definition fstFwrite :: "bytes \<Rightarrow> cfile \<Rightarrow> cfile" where
  "fstFwrite bs f = fwrite_bytes bs f"

definition fstFtruncate :: "cfile \<Rightarrow> nat \<Rightarrow> cfile" where
  "fstFtruncate f len = ftruncate len f"

text \<open>The loop \<open>for(i=7;i>=0;i--) { buf[i] = v & 0xff; v >>= 8; }\<close>, from the last cell down.\<close>

primrec be_loop :: "nat \<Rightarrow> u64 \<Rightarrow> bytes" where
  "be_loop 0 v = []"
| "be_loop (Suc n) v = be_loop n (drop_bit 8 v) @ [ucast (v AND 0xff)]"

definition fstWriterUint64 :: "u64 \<Rightarrow> cfile \<Rightarrow> cfile" where
  "fstWriterUint64 v handle = fstFwrite (be_loop 8 v) handle"

text \<open>
  The reader's loop \<open>val <<= 8; val |= buf[i]\<close>. \<open>buf\<close> is an uninitialised local
  array: after a short read its tail still holds what was on the stack, \<open>junk\<close>.
\<close>

definition fstReaderUint64 :: "bytes \<Rightarrow> cfile \<Rightarrow> u64 \<times> cfile" where
  "fstReaderUint64 junk f =
     (let (bs, _, f') = fstFread 8 f;
          buf = take 8 (bs @ drop (length bs) junk)
      in (foldl (\<lambda>val b. push_bit 8 val OR ucast b) 0 buf, f'))"

text \<open>The size of the buffers for \<open>gzread\<close> and \<open>gzwrite\<close>.\<close>

definition FST_GZIO_LEN :: nat where
  "FST_GZIO_LEN = 32768"

section \<open>Lemmas\<close>

lemma length_overlay:
  "length (overlay d p bs) = max (length d) (p + length bs)"
  by (simp add: overlay_def)

lemma overlay_end [simp]: "overlay d (length d) bs = d @ bs"
  by (simp add: overlay_def)

lemma overlay_in:
  "p + length bs \<le> length d \<Longrightarrow> overlay d p bs = take p d @ bs @ drop (p + length bs) d"
  by (simp add: overlay_def)

lemma overlay_nth_before: "i < p \<Longrightarrow> i < length d \<Longrightarrow> overlay d p bs ! i = d ! i"
  by (simp add: overlay_def nth_append)

lemma overlay_read_back:
  "take (length bs) (drop p (overlay d p bs)) = bs"
  by (simp add: overlay_def)

lemma overlay_take_before:
  "q \<le> p \<Longrightarrow> q \<le> length d \<Longrightarrow> take q (overlay d p bs) = take q d"
  by (simp add: overlay_def min_def)

lemma overlay_drop_after:
  "p + length bs \<le> q \<Longrightarrow> p \<le> length d \<Longrightarrow> drop q (overlay d p bs) = drop q d"
  by (simp add: overlay_def min_def)

text \<open>Writes at the end of a stream append.\<close>

definition at_end :: "cfile \<Rightarrow> bool" where
  "at_end f \<longleftrightarrow> f_pos f = length (f_data f)"

lemma at_end_new_file [simp]: "at_end new_file"
  by (simp add: at_end_def new_file_def)

lemma fwrite_at_end:
  "at_end f \<Longrightarrow> f_data (fwrite_bytes bs f) = f_data f @ bs"
  "at_end f \<Longrightarrow> at_end (fwrite_bytes bs f)"
  by (auto simp: at_end_def fwrite_bytes_def)

lemma fputc_at_end:
  "at_end f \<Longrightarrow> f_data (fputc b f) = f_data f @ [b]"
  "at_end f \<Longrightarrow> at_end (fputc b f)"
  by (auto simp: fputc_def fwrite_at_end)

lemma fstFwrite_at_end:
  "at_end f \<Longrightarrow> f_data (fstFwrite bs f) = f_data f @ bs"
  "at_end f \<Longrightarrow> at_end (fstFwrite bs f)"
  by (auto simp: fstFwrite_def fwrite_at_end)

lemmas append_simps = fwrite_at_end fputc_at_end fstFwrite_at_end

lemma length_be_loop [simp]: "length (be_loop n v) = n"
  by (induction n arbitrary: v) auto

lemma be_loop_fold:
  "n \<le> 8 \<Longrightarrow> foldl (\<lambda>val b. push_bit 8 val OR ucast b) 0 (be_loop n v) = take_bit (8 * n) v"
proof (induction n arbitrary: v)
  case 0
  then show ?case by simp
next
  case (Suc n)
  then have IH: "foldl (\<lambda>val b. push_bit 8 val OR ucast b) 0 (be_loop n (drop_bit 8 v))
    = take_bit (8 * n) (drop_bit 8 v)" by simp
  have "push_bit 8 (take_bit (8 * n) (drop_bit 8 v)) OR ucast (ucast (v AND 0xff) :: u8)
    = take_bit (8 * Suc n) v"
  proof (rule bit_word_eqI)
    fix k
    assume "k < LENGTH(64)"
    have "v AND 0xff = take_bit 8 v"
      by (simp add: take_bit_eq_mask mask_eq_exp_minus_1)
    then show "bit (push_bit 8 (take_bit (8 * n) (drop_bit 8 v)) OR ucast (ucast (v AND 0xff) :: u8)) k
      = bit (take_bit (8 * Suc n) v) k"
      using \<open>k < LENGTH(64)\<close> by (cases "k < 8") (auto simp: bit_simps)
  qed
  with IH show ?case by simp
qed

text \<open>What \<open>fstWriterUint64\<close> wrote, \<open>fstReaderUint64\<close> reads.\<close>

lemma fstReaderUint64_of_bytes:
  assumes "take 8 (drop (f_pos f) (f_data f)) = be_loop 8 v"
  shows "fstReaderUint64 junk f = (v, f\<lparr>f_pos := f_pos f + 8\<rparr>)"
proof -
  have "length (take 8 (drop (f_pos f) (f_data f))) = 8"
    by (simp only: assms length_be_loop)
  with assms show ?thesis
    using be_loop_fold [of 8 v] take_bit_length_eq [of v]
    by (simp add: fstReaderUint64_def fstFread_def fread_bytes_def Let_def)
qed

lemma fstWriterUint64_at_end:
  "at_end f \<Longrightarrow> f_data (fstWriterUint64 v f) = f_data f @ be_loop 8 v"
  "at_end f \<Longrightarrow> at_end (fstWriterUint64 v f)"
  by (auto simp: fstWriterUint64_def fstFwrite_at_end)

end
