(* ===== verification/Reader_Context.thy ===== *)
theory Reader_Context
  imports Stdio
begin

text \<open>
  The reader's context \<open>struct fstReaderContext\<close> of \<open>fstapi.c\<close> (lines 3330 to 3433) and the
  operations that need nothing but the context: the attribute getters and setters, the flat scope
  names (push, pop, reset), the process mask with one bit per handle, and the self-buffered
  output \<open>fstWritex\<close>.
\<close>

section \<open>The context\<close>

text \<open>
  A pointer the code only passes on is an address. \<open>curr_hier\<close> is the linked list from the
  innermost scope outwards. \<open>writex_fd\<close> is the descriptor as the bytes written to it.
\<close>

type_synonym addr = u64

record fstCurrHier =
  user_info :: addr
  ch_len :: int

record fstReaderContext =
  xc_f :: cfile
  xc_fh :: "cfile option"
  start_time :: u64
  end_time :: u64
  mem_used_by_writer :: u64
  scope_count :: u64
  var_count :: u64
  maxhandle :: u32
  num_alias :: u64
  vc_section_count :: u64
  signal_lens :: "u32 list"
  signal_typs :: bytes
  process_mask :: bytes
  longest_signal_value_len :: u32
  temp_signal_value_buf :: bytes
  timescale :: "8 word"
  filetype :: u8
  use_vcd_extensions :: bool
  double_endian_match :: bool
  native_doubles_for_cb :: bool
  contains_geom_section :: bool
  contains_hier_section :: bool
  contains_hier_section_lz4duo :: bool
  contains_hier_section_lz4 :: bool
  limit_range_valid :: bool
  version :: bytes
  date :: bytes
  timezero :: u64
  hier_pos :: nat
  num_blackouts :: u32
  blackout_times :: "u64 list option"
  blackout_activity :: "bytes option"
  limit_range_start :: u64
  limit_range_end :: u64
  curr_hier :: "fstCurrHier list"
  current_handle :: u32
  curr_flat_hier_nam :: "bytes option"
  flat_hier_alloc_len :: int
  do_rewind :: bool
  fseek_failed :: bool
  writex_pos :: nat
  writex_fd :: bytes
  writex_buf :: bytes

section \<open>Getters and setters\<close>

type_synonym rctx = "fstReaderContext option"

definition fstReaderGetTimescale :: "rctx \<Rightarrow> 8 word" where
  "fstReaderGetTimescale ctx = xc_get ctx timescale 0"

definition fstReaderGetStartTime :: "rctx \<Rightarrow> u64" where
  "fstReaderGetStartTime ctx = xc_get ctx start_time 0"

definition fstReaderGetEndTime :: "rctx \<Rightarrow> u64" where
  "fstReaderGetEndTime ctx = xc_get ctx end_time 0"

definition fstReaderGetMemoryUsedByWriter :: "rctx \<Rightarrow> u64" where
  "fstReaderGetMemoryUsedByWriter ctx = xc_get ctx mem_used_by_writer 0"

definition fstReaderGetScopeCount :: "rctx \<Rightarrow> u64" where
  "fstReaderGetScopeCount ctx = xc_get ctx scope_count 0"

definition fstReaderGetVarCount :: "rctx \<Rightarrow> u64" where
  "fstReaderGetVarCount ctx = xc_get ctx var_count 0"

definition fstReaderGetMaxHandle :: "rctx \<Rightarrow> u32" where
  "fstReaderGetMaxHandle ctx = xc_get ctx maxhandle 0"

definition fstReaderGetAliasCount :: "rctx \<Rightarrow> u64" where
  "fstReaderGetAliasCount ctx = xc_get ctx num_alias 0"

definition fstReaderGetValueChangeSectionCount :: "rctx \<Rightarrow> u64" where
  "fstReaderGetValueChangeSectionCount ctx = xc_get ctx vc_section_count 0"

definition fstReaderGetDoubleEndianMatchState :: "rctx \<Rightarrow> int" where
  "fstReaderGetDoubleEndianMatchState ctx = xc_get ctx (\<lambda>xc. of_bool (double_endian_match xc)) 0"

definition fstReaderGetVersionString :: "rctx \<Rightarrow> bytes option" where
  "fstReaderGetVersionString ctx = xc_get ctx (\<lambda>xc. Some (version xc)) None"

definition fstReaderGetDateString :: "rctx \<Rightarrow> bytes option" where
  "fstReaderGetDateString ctx = xc_get ctx (\<lambda>xc. Some (date xc)) None"

text \<open>\<open>FST_FT_VERILOG\<close> is 0.\<close>

definition fstReaderGetFileType :: "rctx \<Rightarrow> int" where
  "fstReaderGetFileType ctx = xc_get ctx (\<lambda>xc. uint (filetype xc)) 0"

definition fstReaderGetTimezero :: "rctx \<Rightarrow> u64" where
  "fstReaderGetTimezero ctx = xc_get ctx timezero 0"

definition fstReaderGetNumberDumpActivityChanges :: "rctx \<Rightarrow> u32" where
  "fstReaderGetNumberDumpActivityChanges ctx = xc_get ctx num_blackouts 0"

definition fstReaderGetDumpActivityChangeTime :: "rctx \<Rightarrow> u32 \<Rightarrow> u64 outcome" where
  "fstReaderGetDumpActivityChangeTime ctx idx =
     (case ctx of None \<Rightarrow> Inr 0
      | Some xc \<Rightarrow>
        (case blackout_times xc of None \<Rightarrow> Inr 0
         | Some bt \<Rightarrow> if idx < num_blackouts xc then load bt (unat idx) else Inr 0))"

definition fstReaderGetDumpActivityChangeValue :: "rctx \<Rightarrow> u32 \<Rightarrow> u8 outcome" where
  "fstReaderGetDumpActivityChangeValue ctx idx =
     (case ctx of None \<Rightarrow> Inr 0
      | Some xc \<Rightarrow>
        (case blackout_activity xc of None \<Rightarrow> Inr 0
         | Some ba \<Rightarrow> if idx < num_blackouts xc then load ba (unat idx) else Inr 0))"

definition fstReaderSetLimitTimeRange :: "rctx \<Rightarrow> u64 \<Rightarrow> u64 \<Rightarrow> rctx" where
  "fstReaderSetLimitTimeRange ctx st en =
     map_option (\<lambda>xc. xc\<lparr>limit_range_valid := True, limit_range_start := st, limit_range_end := en\<rparr>) ctx"

definition fstReaderSetUnlimitedTimeRange :: "rctx \<Rightarrow> rctx" where
  "fstReaderSetUnlimitedTimeRange ctx = map_option (\<lambda>xc. xc\<lparr>limit_range_valid := False\<rparr>) ctx"

definition fstReaderSetVcdExtensions :: "rctx \<Rightarrow> int \<Rightarrow> rctx" where
  "fstReaderSetVcdExtensions ctx enable =
     map_option (\<lambda>xc. xc\<lparr>use_vcd_extensions := enable \<noteq> 0\<rparr>) ctx"

definition fstReaderIterBlocksSetNativeDoublesOnCallback :: "rctx \<Rightarrow> int \<Rightarrow> rctx" where
  "fstReaderIterBlocksSetNativeDoublesOnCallback ctx enable =
     map_option (\<lambda>xc. xc\<lparr>native_doubles_for_cb := enable \<noteq> 0\<rparr>) ctx"

definition fstReaderGetFseekFailed :: "rctx \<Rightarrow> int" where
  "fstReaderGetFseekFailed ctx = xc_get ctx (\<lambda>xc. of_bool (fseek_failed xc)) 0"

text \<open>\<open>fstReaderFseeko\<close> on one of the context's streams: the code, the stream, the context.\<close>

definition fstReaderFseeko ::
    "fstReaderContext \<Rightarrow> cfile \<Rightarrow> int \<Rightarrow> whence \<Rightarrow> int \<times> cfile \<times> fstReaderContext" where
  "fstReaderFseeko xc stream offset w =
     (let (rc, stream') = fseeko stream offset w
      in (rc, stream', if rc < 0 then xc\<lparr>fseek_failed := True\<rparr> else xc))"

section \<open>The process mask\<close>

definition fstReaderGetFacProcessMask :: "rctx \<Rightarrow> u32 \<Rightarrow> int outcome" where
  "fstReaderGetFacProcessMask ctx facidx =
     (case ctx of None \<Rightarrow> Inr 0
      | Some xc \<Rightarrow>
        let facidx = facidx - 1
        in if facidx < maxhandle xc
           then andthen (load (process_mask xc) (unat (facidx div 8)))
                  (\<lambda>b. Inr (of_bool (b AND push_bit (unat (facidx AND 7)) 1 \<noteq> 0)))
           else Inr 0)"

definition mask_update :: "(u8 \<Rightarrow> nat \<Rightarrow> u8) \<Rightarrow> rctx \<Rightarrow> u32 \<Rightarrow> rctx outcome" where
  "mask_update g ctx facidx =
     xc_set ctx (\<lambda>xc.
       let facidx = facidx - 1
       in if facidx < maxhandle xc
          then let idx = unat (facidx div 8); bitpos = unat (facidx AND 7)
               in andthen (load (process_mask xc) idx)
                    (\<lambda>b. Inr (xc\<lparr>process_mask := (process_mask xc)[idx := g b bitpos]\<rparr>))
          else Inr xc)"

definition fstReaderSetFacProcessMask :: "rctx \<Rightarrow> u32 \<Rightarrow> rctx outcome" where
  "fstReaderSetFacProcessMask = mask_update (\<lambda>b bitpos. b OR push_bit bitpos 1)"

definition fstReaderClrFacProcessMask :: "rctx \<Rightarrow> u32 \<Rightarrow> rctx outcome" where
  "fstReaderClrFacProcessMask = mask_update (\<lambda>b bitpos. b AND NOT (push_bit bitpos 1))"

definition mask_memset :: "u8 \<Rightarrow> rctx \<Rightarrow> rctx outcome" where
  "mask_memset v ctx =
     xc_set ctx (\<lambda>xc.
       andthen (store_n (process_mask xc) 0 (replicate (unat ((maxhandle xc + 7) div 8)) v))
         (\<lambda>pm. Inr (xc\<lparr>process_mask := pm\<rparr>)))"

definition fstReaderSetFacProcessMaskAll :: "rctx \<Rightarrow> rctx outcome" where
  "fstReaderSetFacProcessMaskAll = mask_memset 0xff"

definition fstReaderClrFacProcessMaskAll :: "rctx \<Rightarrow> rctx outcome" where
  "fstReaderClrFacProcessMaskAll = mask_memset 0"

section \<open>Scope names\<close>

text \<open>A C string in a buffer: the bytes before the first NUL.\<close>

definition cstr :: "bytes \<Rightarrow> bytes" where
  "cstr buf = takeWhile (\<lambda>b. b \<noteq> 0) buf"

text \<open>\<open>strcpy(buf + i, s)\<close> into a buffer of \<open>sz\<close> bytes, of which \<open>buf\<close> are initialised.\<close>

definition strcpy_at :: "nat \<Rightarrow> bytes \<Rightarrow> nat \<Rightarrow> bytes \<Rightarrow> bytes outcome" where
  "strcpy_at sz buf i s =
     (if i \<le> length buf \<and> i + length s + 1 \<le> sz
      then Inr (take i buf @ s @ [0] @ drop (i + length s + 1) buf) else Inl Out_of_bounds)"

definition fstReaderGetCurrentFlatScope :: "rctx \<Rightarrow> bytes option" where
  "fstReaderGetCurrentFlatScope ctx =
     xc_get ctx (\<lambda>xc. Some (case curr_flat_hier_nam xc of None \<Rightarrow> [] | Some b \<Rightarrow> cstr b)) None"

definition fstReaderGetCurrentScopeUserInfo :: "rctx \<Rightarrow> addr" where
  "fstReaderGetCurrentScopeUserInfo ctx =
     xc_get ctx (\<lambda>xc. case curr_hier xc of [] \<Rightarrow> 0 | cur # _ \<Rightarrow> user_info cur) 0"

definition fstReaderGetCurrentScopeLen :: "rctx \<Rightarrow> int" where
  "fstReaderGetCurrentScopeLen ctx =
     xc_get ctx (\<lambda>xc. case curr_hier xc of [] \<Rightarrow> 0 | cur # _ \<Rightarrow> ch_len cur) 0"

text \<open>The string returned, null when there is no scope to leave, and the context.\<close>

definition fstReaderPopScope :: "rctx \<Rightarrow> (bytes option \<times> rctx) outcome" where
  "fstReaderPopScope ctx =
     (case ctx of None \<Rightarrow> Inr (None, None)
      | Some xc \<Rightarrow>
        (case curr_hier xc of [] \<Rightarrow> Inr (None, Some xc)
         | cur # prev \<Rightarrow>
           (case curr_flat_hier_nam xc of None \<Rightarrow> Inl Null_deref
            | Some buf \<Rightarrow>
              let i = (case prev of [] \<Rightarrow> 0 | p # _ \<Rightarrow> nat (ch_len p))
              in if i < length buf
                 then let buf' = buf[i := 0]
                      in Inr (Some (cstr buf'),
                              Some (xc\<lparr>curr_flat_hier_nam := Some buf', curr_hier := prev\<rparr>))
                 else Inl Out_of_bounds)))"

text \<open>\<open>while(fstReaderPopScope(xc));\<close>\<close>

function fstReaderResetScope :: "rctx \<Rightarrow> rctx outcome" where
  "fstReaderResetScope ctx =
     andthen (fstReaderPopScope ctx) (\<lambda>(s, ctx').
       if s \<noteq> None then fstReaderResetScope ctx' else Inr ctx')"
  by pat_completeness auto
termination
  by (relation "measure (\<lambda>ctx. case ctx of None \<Rightarrow> 0 | Some xc \<Rightarrow> length (curr_hier xc))")
    (auto simp: fstReaderPopScope_def Let_def split: option.splits list.splits if_splits)

declare fstReaderResetScope.simps [simp del]

text \<open>
  \<open>flat_hier_alloc_len\<close> is zero from \<open>calloc\<close> and never assigned, so the buffer is reallocated
  to the exact size on every push. The \<open>int\<close> arithmetic is checked.
\<close>

definition fstReaderPushScope :: "rctx \<Rightarrow> bytes \<Rightarrow> addr \<Rightarrow> (bytes option \<times> rctx) outcome" where
  "fstReaderPushScope ctx nam ui =
     (case ctx of None \<Rightarrow> Inr (None, None)
      | Some xc \<Rightarrow>
        let chl = (case curr_hier xc of [] \<Rightarrow> 0 | cur # _ \<Rightarrow> ch_len cur);
            len = chl + 1 + int (length nam)
        in if 2 ^ 31 - 1 \<le> len then Inl Int_overflow
           else
             let old = (case curr_flat_hier_nam xc of None \<Rightarrow> [] | Some b \<Rightarrow> b);
                 sz = (if flat_hier_alloc_len xc \<le> len then nat (len + 1) else length old);
                 buf = take sz old
             in andthen
                  (if chl \<noteq> 0
                   then andthen (load buf (nat chl)) (\<lambda>_.
                        andthen (strcpy_at sz (buf[nat chl := 46]) (nat chl + 1) nam) (\<lambda>b. Inr (b, len)))
                   else andthen (strcpy_at sz buf 0 nam) (\<lambda>b. Inr (b, len - 1)))
                  (\<lambda>(buf', len').
                     Inr (Some (cstr buf'),
                          Some (xc\<lparr>curr_flat_hier_nam := Some buf',
                                   curr_hier := \<lparr>user_info = ui, ch_len = len'\<rparr> # curr_hier xc\<rparr>))))"

definition fstReaderDeallocateScopeData :: "fstReaderContext \<Rightarrow> fstReaderContext" where
  "fstReaderDeallocateScopeData xc = xc\<lparr>curr_flat_hier_nam := None, curr_hier := []\<rparr>"

section \<open>Buffered output\<close>

definition FST_WRITEX_MAX :: nat where
  "FST_WRITEX_MAX = 65536"

text \<open>\<open>fstWritex(xc, NULL, 0)\<close>: \<open>write\<close> is taken to write all it is given.\<close>

definition writex_flush :: "fstReaderContext \<Rightarrow> fstReaderContext" where
  "writex_flush xc =
     (if writex_pos xc \<noteq> 0
      then xc\<lparr>writex_fd := writex_fd xc @ take (writex_pos xc) (writex_buf xc), writex_pos := 0\<rparr>
      else xc)"

definition fstWritex :: "fstReaderContext \<Rightarrow> bytes \<Rightarrow> fstReaderContext outcome" where
  "fstWritex xc s =
     (if s = [] then Inr (writex_flush xc)
      else if length s < FST_WRITEX_MAX
      then let xc = (if FST_WRITEX_MAX \<le> writex_pos xc + length s then writex_flush xc else xc)
           in andthen (store_n (writex_buf xc) (writex_pos xc) s)
                (\<lambda>buf. Inr (xc\<lparr>writex_buf := buf, writex_pos := writex_pos xc + length s\<rparr>))
      else let xc = writex_flush xc in Inr (xc\<lparr>writex_fd := writex_fd xc @ s\<rparr>))"

section \<open>Flags per handle: the contract of the mask\<close>

text \<open>A run of one operation over several handles.\<close>

fun for_each :: "('c \<Rightarrow> 'h \<Rightarrow> 'c outcome) \<Rightarrow> 'c \<Rightarrow> 'h list \<Rightarrow> 'c outcome" where
  "for_each op c [] = Inr c"
| "for_each op c (h # hs) = andthen (op c h) (\<lambda>c'. for_each op c' hs)"

locale handle_flags =
  fixes ok :: "'c \<Rightarrow> bool"
    and valid :: "'c \<Rightarrow> 'h \<Rightarrow> bool"
    and get :: "'c \<Rightarrow> 'h \<Rightarrow> int outcome"
    and set_flag clr_flag :: "'c \<Rightarrow> 'h \<Rightarrow> 'c outcome"
  assumes set_flag: "ok c \<Longrightarrow> \<exists>c'. set_flag c h = Inr c' \<and> ok c' \<and> valid c' = valid c
      \<and> (\<forall>k. get c' k = (if k = h \<and> valid c h then Inr 1 else get c k))"
    and clr_flag: "ok c \<Longrightarrow> \<exists>c'. clr_flag c h = Inr c' \<and> ok c' \<and> valid c' = valid c
      \<and> (\<forall>k. get c' k = (if k = h \<and> valid c h then Inr 0 else get c k))"
begin

lemma set_each:
  "ok c \<Longrightarrow> \<exists>c'. for_each set_flag c hs = Inr c' \<and> ok c' \<and> valid c' = valid c
    \<and> (\<forall>k. get c' k = (if k \<in> set hs \<and> valid c k then Inr 1 else get c k))"
proof (induction hs arbitrary: c)
  case (Cons h hs)
  obtain c1 where c1: "set_flag c h = Inr c1" "ok c1" "valid c1 = valid c"
    "\<forall>k. get c1 k = (if k = h \<and> valid c h then Inr 1 else get c k)"
    using set_flag [OF Cons.prems] by blast
  from Cons.IH [OF c1(2)] c1 show ?case by auto
qed auto

lemma clr_each:
  "ok c \<Longrightarrow> \<exists>c'. for_each clr_flag c hs = Inr c' \<and> ok c' \<and> valid c' = valid c
    \<and> (\<forall>k. get c' k = (if k \<in> set hs \<and> valid c k then Inr 0 else get c k))"
proof (induction hs arbitrary: c)
  case (Cons h hs)
  obtain c1 where c1: "clr_flag c h = Inr c1" "ok c1" "valid c1 = valid c"
    "\<forall>k. get c1 k = (if k = h \<and> valid c h then Inr 0 else get c k)"
    using clr_flag [OF Cons.prems] by blast
  from Cons.IH [OF c1(2)] c1 show ?case by auto
qed auto

end

text \<open>The mask as \<open>calloc(1, (maxhandle+7)/8)\<close> allocates it.\<close>

definition mask_ok :: "rctx \<Rightarrow> bool" where
  "mask_ok ctx = (case ctx of None \<Rightarrow> False
     | Some xc \<Rightarrow> unat (maxhandle xc) + 7 < 2 ^ 32
         \<and> length (process_mask xc) = (unat (maxhandle xc) + 7) div 8)"

definition mask_valid :: "rctx \<Rightarrow> u32 \<Rightarrow> bool" where
  "mask_valid ctx h = (case ctx of None \<Rightarrow> False | Some xc \<Rightarrow> h - 1 < maxhandle xc)"

definition mask_bit :: "bytes \<Rightarrow> u32 \<Rightarrow> bool" where
  "mask_bit pm i \<longleftrightarrow> bit (pm ! unat (i div 8)) (unat (i AND 7))"

lemma unat_and_7: "unat ((i :: u32) AND 7) = unat i mod 8"
proof -
  have "i AND 7 = take_bit 3 i" by (simp add: take_bit_eq_mask mask_eq_exp_minus_1)
  moreover have "unat (take_bit 3 i) = unat i mod 8"
    by (subst unsigned_take_bit_eq) (simp add: take_bit_eq_mod)
  ultimately show ?thesis by (simp only:)
qed

lemma unat_div_8: "unat ((i :: u32) div 8) = unat i div 8"
  by (simp add: unat_div_distrib)

lemma mask_index_inj: "unat (i div 8) = unat (k div 8) \<Longrightarrow> unat (i AND 7) = unat (k AND 7) \<Longrightarrow> (i :: u32) = k"
  by (metis div_mult_mod_eq unat_and_7 unat_div_8 word_unat_eq_iff)

lemma and_push_1: "(b :: u8) AND 2 ^ n \<noteq> 0 \<longleftrightarrow> bit b n"
  using bit_iff_and_push_bit_not_eq_0 [of b n] by simp

lemma bit_set_flag:
  "n < 8 \<Longrightarrow> bit ((b :: u8) OR push_bit n 1) m \<longleftrightarrow> m < 8 \<and> (if m = n then True else bit b m)"
  by (auto simp: bit_or_iff bit_exp_iff possible_bit_word dest: bit_imp_le_length)

lemma bit_clr_flag:
  "n < 8 \<Longrightarrow> bit ((b :: u8) AND NOT (push_bit n 1)) m \<longleftrightarrow> m < 8 \<and> (if m = n then False else bit b m)"
  by (auto simp: bit_and_iff bit_not_iff bit_exp_iff possible_bit_word dest: bit_imp_le_length)

lemma mask_get_eq:
  assumes "mask_ok (Some xc)"
  shows "fstReaderGetFacProcessMask (Some xc) h
    = Inr (of_bool (mask_valid (Some xc) h \<and> mask_bit (process_mask xc) (h - 1)))"
proof (cases "h - 1 < maxhandle xc")
  case True
  then have "unat (h - 1) div 8 < length (process_mask xc)"
    using assms by (auto simp: mask_ok_def word_less_nat_alt)
  then show ?thesis
    using True by (simp add: fstReaderGetFacProcessMask_def mask_valid_def mask_bit_def unat_div_8 and_push_1 Let_def)
qed (simp add: fstReaderGetFacProcessMask_def mask_valid_def)

lemma mask_update_spec:
  assumes ok: "mask_ok ctx"
    and g: "\<And>b n m. n < 8 \<Longrightarrow> bit (g b n) m \<longleftrightarrow> m < 8 \<and> (if m = n then v else bit b m)"
  shows "\<exists>c'. mask_update g ctx h = Inr c' \<and> mask_ok c' \<and> mask_valid c' = mask_valid ctx
    \<and> (\<forall>k. fstReaderGetFacProcessMask c' k
        = (if k = h \<and> mask_valid ctx h then Inr (of_bool v) else fstReaderGetFacProcessMask ctx k))"
proof -
  obtain xc where xc: "ctx = Some xc" using ok by (auto simp: mask_ok_def split: option.splits)
  show ?thesis
  proof (cases "h - 1 < maxhandle xc")
    case False
    then show ?thesis
      using ok by (simp add: xc mask_update_def mask_valid_def)
  next
    case True
    let ?i = "unat ((h - 1) div 8)" and ?n = "unat ((h - 1) AND 7)"
    have i: "?i < length (process_mask xc)"
      using ok True by (auto simp: xc mask_ok_def word_less_nat_alt unat_div_8)
    have n: "?n < 8" by (simp add: unat_and_7)
    let ?xc = "xc\<lparr>process_mask := (process_mask xc)[?i := g (process_mask xc ! ?i) ?n]\<rparr>"
    have ok': "mask_ok (Some ?xc)" using ok by (simp add: xc mask_ok_def)
    have val: "mask_valid (Some ?xc) = mask_valid ctx" by (auto simp: xc mask_valid_def)
    have bits: "mask_bit (process_mask ?xc) (k - 1)
        = (if k = h then v else mask_bit (process_mask xc) (k - 1))" for k
    proof (cases "k = h")
      case True
      then show ?thesis using i n g [OF n] by (simp add: mask_bit_def)
    next
      case False
      then have "unat ((k - 1) div 8) = ?i \<Longrightarrow> unat ((k - 1) AND 7) \<noteq> ?n"
        using mask_index_inj [of "k - 1" "h - 1"] by auto
      moreover have "unat ((k - 1) AND 7) < 8" by (simp add: unat_and_7)
      ultimately show ?thesis
        using False i g [OF n] by (cases "unat ((k - 1) div 8) = ?i") (auto simp: mask_bit_def)
    qed
    have "mask_update g ctx h = Inr (Some ?xc)"
      using True i by (simp add: xc mask_update_def Let_def)
    moreover have "\<forall>k. fstReaderGetFacProcessMask (Some ?xc) k
        = (if k = h \<and> mask_valid ctx h then Inr (of_bool v) else fstReaderGetFacProcessMask ctx k)"
      using ok unfolding mask_get_eq [OF ok'] val bits by (auto simp: mask_get_eq xc)
    ultimately show ?thesis using ok' val by blast
  qed
qed

interpretation pm: handle_flags mask_ok mask_valid fstReaderGetFacProcessMask
  fstReaderSetFacProcessMask fstReaderClrFacProcessMask
proof unfold_locales
  fix c :: rctx and h :: u32
  assume "mask_ok c"
  note upd = mask_update_spec [OF this, of _ _ h]
  from upd [OF bit_set_flag] upd [OF bit_clr_flag]
  show "\<exists>c'. fstReaderSetFacProcessMask c h = Inr c' \<and> mask_ok c' \<and> mask_valid c' = mask_valid c
      \<and> (\<forall>k. fstReaderGetFacProcessMask c' k
          = (if k = h \<and> mask_valid c h then Inr 1 else fstReaderGetFacProcessMask c k))"
    "\<exists>c'. fstReaderClrFacProcessMask c h = Inr c' \<and> mask_ok c' \<and> mask_valid c' = mask_valid c
      \<and> (\<forall>k. fstReaderGetFacProcessMask c' k
          = (if k = h \<and> mask_valid c h then Inr 0 else fstReaderGetFacProcessMask c k))"
    unfolding fstReaderSetFacProcessMask_def fstReaderClrFacProcessMask_def
    by (simp_all only: of_bool_eq)
qed

section \<open>Scope names against a stack of names\<close>

text \<open>The specification: the names joined with dots; an empty prefix takes no dot.\<close>

primrec scope_path :: "bytes list \<Rightarrow> bytes" where
  "scope_path [] = []"
| "scope_path (n # ns) = (if scope_path ns = [] then n else scope_path ns @ [46] @ n)"

primrec scope_lens :: "bytes list \<Rightarrow> int list" where
  "scope_lens [] = []"
| "scope_lens (n # ns) = int (length (scope_path (n # ns))) # scope_lens ns"

text \<open>
  The context holds the stack: every saved length is that of the path up to there, and the buffer
  starts with the path and a NUL.
\<close>

definition scope_rel :: "fstReaderContext \<Rightarrow> bytes list \<Rightarrow> bool" where
  "scope_rel xc ns \<longleftrightarrow>
     map ch_len (curr_hier xc) = scope_lens ns \<and> flat_hier_alloc_len xc = 0
     \<and> (\<forall>n \<in> set ns. 0 \<notin> set n)
     \<and> (case curr_flat_hier_nam xc of None \<Rightarrow> ns = []
        | Some buf \<Rightarrow> \<exists>r. buf = scope_path ns @ 0 # r)"

datatype scope_op = Push bytes addr | Pop

fun scope_step :: "rctx \<Rightarrow> scope_op \<Rightarrow> (bytes option \<times> rctx) outcome" where
  "scope_step ctx (Push nam ui) = fstReaderPushScope ctx nam ui"
| "scope_step ctx Pop = fstReaderPopScope ctx"

fun scope_spec :: "bytes list \<Rightarrow> scope_op \<Rightarrow> bytes option \<times> bytes list" where
  "scope_spec ns (Push nam ui) = (Some (scope_path (nam # ns)), nam # ns)"
| "scope_spec [] Pop = (None, [])"
| "scope_spec (n # ns) Pop = (Some (scope_path ns), ns)"

fun scope_run :: "rctx \<Rightarrow> scope_op list \<Rightarrow> (bytes option list \<times> rctx) outcome" where
  "scope_run ctx [] = Inr ([], ctx)"
| "scope_run ctx (p # ps) =
     andthen (scope_step ctx p) (\<lambda>(r, ctx'). andthen (scope_run ctx' ps) (\<lambda>(rs, ctx''). Inr (r # rs, ctx'')))"

fun scope_spec_run :: "bytes list \<Rightarrow> scope_op list \<Rightarrow> bytes option list \<times> bytes list" where
  "scope_spec_run ns [] = ([], ns)"
| "scope_spec_run ns (p # ps) =
     (let (r, ns') = scope_spec ns p; (rs, ns'') = scope_spec_run ns' ps in (r # rs, ns''))"

lemma cstr_prefix: "0 \<notin> set s \<Longrightarrow> cstr (s @ 0 # r) = s"
  unfolding cstr_def by (subst takeWhile_append2) auto

lemma scope_path_no_nul: "\<forall>n \<in> set ns. 0 \<notin> set n \<Longrightarrow> 0 \<notin> set (scope_path ns)"
  by (induction ns) auto

lemma scope_path_tail: "\<exists>s. scope_path (n # ns) = scope_path ns @ s"
  by auto

lemma scope_rel_head:
  "scope_rel xc ns \<Longrightarrow>
    (case curr_hier xc of [] \<Rightarrow> 0 | cur # _ \<Rightarrow> ch_len cur) = int (length (scope_path ns))"
  by (cases ns) (auto simp: scope_rel_def split: list.splits)

lemma pop_scope_rel:
  assumes "scope_rel xc (n # ns)"
  shows "\<exists>xc'. fstReaderPopScope (Some xc) = Inr (Some (scope_path ns), Some xc') \<and> scope_rel xc' ns"
proof -
  obtain buf r where buf: "curr_flat_hier_nam xc = Some buf" "buf = scope_path (n # ns) @ 0 # r"
    using assms by (auto simp: scope_rel_def split: option.splits)
  obtain cur prev where ch: "curr_hier xc = cur # prev" "map ch_len prev = scope_lens ns"
    using assms by (auto simp: scope_rel_def)
  have nn: "0 \<notin> set (scope_path ns)" "\<forall>n \<in> set ns. 0 \<notin> set n"
    using assms scope_path_no_nul [of ns] by (auto simp: scope_rel_def)
  obtain s where s: "scope_path (n # ns) = scope_path ns @ s" using scope_path_tail by blast
  have i: "(case prev of [] \<Rightarrow> 0 | p # _ \<Rightarrow> nat (ch_len p)) = length (scope_path ns)"
    using ch(2) by (cases ns) auto
  obtain t where t: "buf[length (scope_path ns) := 0] = scope_path ns @ 0 # t"
    using buf(2) s by (cases s) (auto simp: list_update_append)
  have lt: "length (scope_path ns) < length buf" using buf(2) s by simp
  show ?thesis
    using assms ch nn t lt
    by (simp add: fstReaderPopScope_def buf(1) i Let_def cstr_prefix)
      (auto simp: scope_rel_def)
qed

lemma push_scope_rel:
  assumes rel: "scope_rel xc ns" and nam: "0 \<notin> set nam"
    and small: "length (scope_path ns) + 1 + length nam < 2 ^ 31 - 1"
  shows "\<exists>xc'. fstReaderPushScope (Some xc) nam ui = Inr (Some (scope_path (nam # ns)), Some xc')
    \<and> scope_rel xc' (nam # ns)"
proof -
  let ?l = "length (scope_path ns)"
  define old where "old = (case curr_flat_hier_nam xc of None \<Rightarrow> [] | Some b \<Rightarrow> b)"
  define sz where "sz = ?l + 1 + length nam + 1"
  have hd: "(case curr_hier xc of [] \<Rightarrow> 0 | cur # _ \<Rightarrow> ch_len cur) = int ?l"
    using rel by (rule scope_rel_head)
  have nn: "0 \<notin> set (scope_path (nam # ns))" "\<forall>n \<in> set (nam # ns). 0 \<notin> set n"
    using rel nam scope_path_no_nul [of "nam # ns"] by (auto simp: scope_rel_def)
  have old: "?l \<noteq> 0 \<Longrightarrow> \<exists>r. old = scope_path ns @ 0 # r"
    using rel by (auto simp: scope_rel_def old_def split: option.splits)
  have szeq: "(if flat_hier_alloc_len xc \<le> int ?l + 1 + int (length nam)
      then nat (int ?l + 1 + int (length nam) + 1) else length old) = sz"
    using rel by (simp add: scope_rel_def sz_def)
  have ovf: "\<not> 2 ^ 31 - 1 \<le> int ?l + 1 + int (length nam)"
    using small by simp
  define wr where "wr = (if int ?l \<noteq> 0
     then andthen (load (take sz old) (nat (int ?l))) (\<lambda>_.
          andthen (strcpy_at sz ((take sz old)[nat (int ?l) := 46]) (nat (int ?l) + 1) nam)
            (\<lambda>b. Inr (b, int ?l + 1 + int (length nam))))
     else andthen (strcpy_at sz (take sz old) 0 nam)
            (\<lambda>b. Inr (b, int ?l + 1 + int (length nam) - 1)))"
  have call: "fstReaderPushScope (Some xc) nam ui =
    andthen wr (\<lambda>(buf', len'). Inr (Some (cstr buf'),
          Some (xc\<lparr>curr_flat_hier_nam := Some buf',
                   curr_hier := \<lparr>user_info = ui, ch_len = len'\<rparr> # curr_hier xc\<rparr>)))"
    unfolding fstReaderPushScope_def option.case Let_def hd szeq [unfolded old_def] wr_def old_def
    using ovf by (simp only: if_False)
  have "\<exists>r. wr = Inr (scope_path (nam # ns) @ 0 # r, int (length (scope_path (nam # ns))))"
  proof (cases "?l = 0")
    case True
    then show ?thesis by (simp add: wr_def strcpy_at_def sz_def)
  next
    case False
    obtain r where r: "old = scope_path ns @ 0 # r" using old False by blast
    then show ?thesis
      using False by (simp add: wr_def strcpy_at_def sz_def list_update_append take_Cons')
  qed
  then obtain r where wr: "wr = Inr (scope_path (nam # ns) @ 0 # r, int (length (scope_path (nam # ns))))"
    by blast
  show ?thesis
    unfolding call wr using rel nn
    by (simp del: scope_path.simps add: cstr_prefix) (simp del: scope_path.simps add: scope_rel_def)
qed

fun ops_len :: "scope_op list \<Rightarrow> nat" where
  "ops_len [] = 0"
| "ops_len (Push nam ui # ps) = length nam + 1 + ops_len ps"
| "ops_len (Pop # ps) = ops_len ps"

fun op_ok :: "scope_op \<Rightarrow> bool" where
  "op_ok (Push nam ui) = (0 \<notin> set nam)"
| "op_ok Pop = True"

lemma scope_step_rel:
  assumes "scope_rel xc ns" and "op_ok p" and "length (scope_path ns) + ops_len [p] < 2 ^ 31 - 1"
  shows "\<exists>xc'. scope_step (Some xc) p = Inr (fst (scope_spec ns p), Some xc')
    \<and> scope_rel xc' (snd (scope_spec ns p))
    \<and> length (scope_path (snd (scope_spec ns p))) \<le> length (scope_path ns) + ops_len [p]"
proof (cases p)
  case (Push nam ui)
  then show ?thesis using push_scope_rel [of xc ns nam ui] assms by (auto simp del: scope_path.simps) simp
next
  case Pop
  show ?thesis
  proof (cases ns)
    case Nil
    then show ?thesis using assms(1) Pop by (simp add: scope_rel_def fstReaderPopScope_def)
  next
    case (Cons n ns')
    then show ?thesis
      using pop_scope_rel [of xc n ns'] assms(1) Pop by (auto simp del: scope_path.simps) simp
  qed
qed

lemma scope_run_rel:
  assumes "scope_rel xc ns" and "\<forall>p \<in> set ps. op_ok p"
    and "length (scope_path ns) + ops_len ps < 2 ^ 31 - 1"
  shows "\<exists>xc'. scope_run (Some xc) ps = Inr (fst (scope_spec_run ns ps), Some xc')
    \<and> scope_rel xc' (snd (scope_spec_run ns ps))"
  using assms
proof (induction ps arbitrary: xc ns)
  case (Cons p ps)
  have len: "ops_len (p # ps) = ops_len [p] + ops_len ps" by (cases p) auto
  obtain xc1 where 1: "scope_step (Some xc) p = Inr (fst (scope_spec ns p), Some xc1)"
    "scope_rel xc1 (snd (scope_spec ns p))"
    "length (scope_path (snd (scope_spec ns p))) \<le> length (scope_path ns) + ops_len [p]"
    using scope_step_rel [of xc ns p] Cons.prems len by auto
  obtain xc2 where 2: "scope_run (Some xc1) ps = Inr (fst (scope_spec_run (snd (scope_spec ns p)) ps), Some xc2)"
    "scope_rel xc2 (snd (scope_spec_run (snd (scope_spec ns p)) ps))"
    using Cons.IH [OF 1(2)] Cons.prems len 1(3) by auto
  then show ?case using 1 by (auto split: prod.split)
qed simp

lemma reset_scope_rel:
  assumes "scope_rel xc ns"
  shows "\<exists>xc'. fstReaderResetScope (Some xc) = Inr (Some xc') \<and> scope_rel xc' []"
  using assms
proof (induction ns arbitrary: xc)
  case Nil
  then have "curr_hier xc = []" by (simp add: scope_rel_def)
  with Nil show ?case
    by (subst fstReaderResetScope.simps) (simp add: fstReaderPopScope_def)
next
  case (Cons n ns)
  obtain xc1 where "fstReaderPopScope (Some xc) = Inr (Some (scope_path ns), Some xc1)" "scope_rel xc1 ns"
    using pop_scope_rel [OF Cons.prems] by blast
  then show ?case
    using Cons.IH [of xc1] by (subst fstReaderResetScope.simps) simp
qed

section \<open>Buffered output is output\<close>

definition writex_ok :: "fstReaderContext \<Rightarrow> bool" where
  "writex_ok xc \<longleftrightarrow> writex_pos xc < FST_WRITEX_MAX \<and> length (writex_buf xc) = FST_WRITEX_MAX"

definition writex_out :: "fstReaderContext \<Rightarrow> bytes" where
  "writex_out xc = writex_fd xc @ take (writex_pos xc) (writex_buf xc)"

lemma writex_flush_out:
  "writex_ok xc \<Longrightarrow> writex_ok (writex_flush xc)"
  "writex_out (writex_flush xc) = writex_out xc"
  "writex_pos (writex_flush xc) = 0"
  "writex_fd (writex_flush xc) = writex_out xc"
  by (auto simp: writex_flush_def writex_ok_def writex_out_def FST_WRITEX_MAX_def)

lemma fstWritex_out:
  assumes "writex_ok xc"
  shows "\<exists>xc'. fstWritex xc s = Inr xc' \<and> writex_ok xc' \<and> writex_out xc' = writex_out xc @ s"
proof (cases "s = []")
  case True
  with assms show ?thesis by (simp add: fstWritex_def writex_flush_out)
next
  case False
  show ?thesis
  proof (cases "length s < FST_WRITEX_MAX")
    case True
    define xc1 where "xc1 = (if FST_WRITEX_MAX \<le> writex_pos xc + length s then writex_flush xc else xc)"
    have 1: "writex_ok xc1" "writex_out xc1 = writex_out xc" "writex_pos xc1 + length s < FST_WRITEX_MAX"
      using assms True by (auto simp: xc1_def writex_flush_out)
    then have st: "store_n (writex_buf xc1) (writex_pos xc1) s
      = Inr (take (writex_pos xc1) (writex_buf xc1) @ s @ drop (writex_pos xc1 + length s) (writex_buf xc1))"
      by (simp add: store_n_def writex_ok_def)
    have "fstWritex xc s = andthen (store_n (writex_buf xc1) (writex_pos xc1) s)
        (\<lambda>buf. Inr (xc1\<lparr>writex_buf := buf, writex_pos := writex_pos xc1 + length s\<rparr>))"
      using False True by (simp add: fstWritex_def xc1_def Let_def)
    with st 1 show ?thesis by (simp add: writex_ok_def writex_out_def)
  next
    case long: False
    with False assms show ?thesis
      by (simp add: fstWritex_def Let_def writex_flush_out writex_out_def writex_ok_def)
        (auto simp: writex_flush_def FST_WRITEX_MAX_def)
  qed
qed

fun writex_all :: "fstReaderContext \<Rightarrow> bytes list \<Rightarrow> fstReaderContext outcome" where
  "writex_all xc [] = Inr xc"
| "writex_all xc (s # ss) = andthen (fstWritex xc s) (\<lambda>xc'. writex_all xc' ss)"

lemma writex_all_out:
  "writex_ok xc \<Longrightarrow> \<exists>xc'. writex_all xc ss = Inr xc' \<and> writex_ok xc' \<and> writex_out xc' = writex_out xc @ concat ss"
proof (induction ss arbitrary: xc)
  case (Cons s ss)
  then show ?case using fstWritex_out [OF Cons.prems, of s] by force
qed simp

section \<open>Properties\<close>

text \<open>
  C22. The process mask keeps one flag per handle: after clearing all, setting the handles of one
  list and clearing those of a second, \<open>fstReaderGetFacProcessMask\<close> answers 1 exactly for the
  handles in range that are in the first list and not in the second, and 0 for every other handle,
  handle 0 included.
\<close>

theorem process_mask_flags:
  assumes "mask_ok (Some xc)"
  shows "\<exists>c0 c1 c2. fstReaderClrFacProcessMaskAll (Some xc) = Inr c0
    \<and> for_each fstReaderSetFacProcessMask c0 hs = Inr c1
    \<and> for_each fstReaderClrFacProcessMask c1 ks = Inr c2
    \<and> (\<forall>h. fstReaderGetFacProcessMask c2 h
         = Inr (of_bool (1 \<le> h \<and> h \<le> maxhandle xc \<and> h \<in> set hs \<and> h \<notin> set ks)))"
proof -
  let ?n = "unat ((maxhandle xc + 7) div 8)"
  let ?xc = "xc\<lparr>process_mask := replicate ?n 0\<rparr>"
  have n: "?n = length (process_mask xc)"
    using assms by (simp add: mask_ok_def unat_div_distrib unat_word_ariths)
  have c0: "fstReaderClrFacProcessMaskAll (Some xc) = Inr (Some ?xc)"
    using n by (simp add: fstReaderClrFacProcessMaskAll_def mask_memset_def store_n_def)
  have ok0: "mask_ok (Some ?xc)" using assms n by (simp add: mask_ok_def)
  have val: "mask_valid (Some ?xc) h \<longleftrightarrow> 1 \<le> h \<and> h \<le> maxhandle xc" for h
  proof (cases "h = 0")
    case False
    then have "unat (h - 1) = unat h - 1" "0 < unat h" by (simp_all add: unat_minus_one unat_gt_0)
    then show ?thesis by (auto simp: mask_valid_def word_less_nat_alt word_le_nat_alt)
  next
    case True
    then show ?thesis
      using word_n1_ge [of "maxhandle xc"] by (simp add: mask_valid_def not_less)
  qed
  have g0: "fstReaderGetFacProcessMask (Some ?xc) h = Inr 0" for h
  proof (cases "mask_valid (Some ?xc) h")
    case True
    then have "unat ((h - 1) div 8) < ?n"
      using ok0 by (auto simp: mask_ok_def mask_valid_def word_less_nat_alt unat_div_8)
    then show ?thesis unfolding mask_get_eq [OF ok0] by (simp add: mask_bit_def)
  qed (simp add: mask_get_eq [OF ok0])
  obtain c1 where c1: "for_each fstReaderSetFacProcessMask (Some ?xc) hs = Inr c1" "mask_ok c1"
    "mask_valid c1 = mask_valid (Some ?xc)"
    "\<forall>k. fstReaderGetFacProcessMask c1 k = (if k \<in> set hs \<and> mask_valid (Some ?xc) k then Inr 1 else Inr 0)"
    using pm.set_each [OF ok0, of hs] g0 by auto
  obtain c2 where c2: "for_each fstReaderClrFacProcessMask c1 ks = Inr c2"
    "\<forall>k. fstReaderGetFacProcessMask c2 k
       = (if k \<in> set ks \<and> mask_valid c1 k then Inr 0 else fstReaderGetFacProcessMask c1 k)"
    using pm.clr_each [OF c1(2), of ks] by auto
  show ?thesis
    by (intro exI conjI allI, rule c0, rule c1(1), rule c2(1))
      (simp only: c2(2) c1(3,4) val, auto)
qed

text \<open>A context with nothing in it, for concrete runs.\<close>

definition reader_zero :: fstReaderContext where
  "reader_zero = \<lparr>xc_f = new_file, xc_fh = None, start_time = 0, end_time = 0, mem_used_by_writer = 0,
     scope_count = 0, var_count = 0, maxhandle = 0, num_alias = 0, vc_section_count = 0,
     signal_lens = [], signal_typs = [], process_mask = [], longest_signal_value_len = 0,
     temp_signal_value_buf = [], timescale = 0, filetype = 0, use_vcd_extensions = False,
     double_endian_match = False, native_doubles_for_cb = False, contains_geom_section = False,
     contains_hier_section = False, contains_hier_section_lz4duo = False,
     contains_hier_section_lz4 = False, limit_range_valid = False, version = [], date = [],
     timezero = 0, hier_pos = 0, num_blackouts = 0, blackout_times = None,
     blackout_activity = None, limit_range_start = 0, limit_range_end = 0, curr_hier = [],
     current_handle = 0, curr_flat_hier_nam = None, flat_hier_alloc_len = 0, do_rewind = False,
     fseek_failed = False, writex_pos = 0, writex_fd = [],
     writex_buf = replicate FST_WRITEX_MAX 0\<rparr>"

lemma process_mask_flags_witness:
  "\<exists>c0 c1 c2. fstReaderClrFacProcessMaskAll (Some (reader_zero\<lparr>maxhandle := 12, process_mask := [9, 9]\<rparr>)) = Inr c0
    \<and> for_each fstReaderSetFacProcessMask c0 [3, 12, 40] = Inr c1
    \<and> for_each fstReaderClrFacProcessMask c1 [3] = Inr c2
    \<and> fstReaderGetFacProcessMask c2 12 = Inr 1 \<and> fstReaderGetFacProcessMask c2 3 = Inr 0
    \<and> fstReaderGetFacProcessMask c2 40 = Inr 0"
proof -
  have "mask_ok (Some (reader_zero\<lparr>maxhandle := 12, process_mask := [9, 9]\<rparr>))"
    by (simp add: mask_ok_def)
  from process_mask_flags [OF this, of "[3, 12, 40]" "[3]"] obtain c0 c1 c2 where c:
    "fstReaderClrFacProcessMaskAll (Some (reader_zero\<lparr>maxhandle := 12, process_mask := [9, 9]\<rparr>)) = Inr c0"
    "for_each fstReaderSetFacProcessMask c0 [3, 12, 40] = Inr c1"
    "for_each fstReaderClrFacProcessMask c1 [3] = Inr c2"
    "\<forall>h. fstReaderGetFacProcessMask c2 h
      = Inr (of_bool (1 \<le> h \<and> h \<le> 12 \<and> h \<in> set [3, 12, 40] \<and> h \<notin> set [3]))"
    by (auto simp del: for_each.simps)
  show ?thesis by (intro exI conjI, rule c(1), rule c(2), rule c(3)) (simp_all add: c(4))
qed

text \<open>
  C17. Flat scope names: any sequence of pushes and pops on a context without scopes returns, at
  every step, the dotted path of the stack of names (null for a pop of nothing), never writes
  outside the name buffer, and keeps every saved length equal to the length of its path; the bound
  is the one of the \<open>int\<close> length.
\<close>

theorem scope_names_refine:
  assumes "curr_hier xc = []" and "curr_flat_hier_nam xc = None" and "flat_hier_alloc_len xc = 0"
    and "\<forall>p \<in> set ps. op_ok p" and "ops_len ps < 2 ^ 31 - 1"
  shows "\<exists>xc'. scope_run (Some xc) ps = Inr (fst (scope_spec_run [] ps), Some xc')
    \<and> map ch_len (curr_hier xc') = scope_lens (snd (scope_spec_run [] ps))
    \<and> fstReaderGetCurrentFlatScope (Some xc') = Some (scope_path (snd (scope_spec_run [] ps)))"
proof -
  have "scope_rel xc []" using assms(1-3) by (simp add: scope_rel_def)
  from scope_run_rel [OF this assms(4)] assms(5) obtain xc' where
    xc': "scope_run (Some xc) ps = Inr (fst (scope_spec_run [] ps), Some xc')"
    "scope_rel xc' (snd (scope_spec_run [] ps))" by auto
  then have "fstReaderGetCurrentFlatScope (Some xc') = Some (scope_path (snd (scope_spec_run [] ps)))"
    using scope_path_no_nul
    by (auto simp: fstReaderGetCurrentFlatScope_def scope_rel_def cstr_prefix split: option.splits)
  then show ?thesis using xc' by (auto simp: scope_rel_def)
qed

lemma scope_names_refine_witness:
  "\<exists>xc'. scope_run (Some reader_zero) [Push [97] 0, Push [98, 99] 0, Pop, Push [100] 0, Pop, Pop, Pop]
     = Inr ([Some [97], Some [97, 46, 98, 99], Some [97], Some [97, 46, 100], Some [97], Some [], None], Some xc')"
  using scope_names_refine
    [of reader_zero "[Push [97] 0, Push [98, 99] 0, Pop, Push [100] 0, Pop, Pop, Pop]"]
  by (auto simp: reader_zero_def)

text \<open>
  C27. The self-buffered output loses and reorders nothing: whatever the sizes of the pieces given
  to \<open>fstWritex\<close>, also pieces larger than its buffer, after the final flush the descriptor has
  received their concatenation, and no copy leaves the buffer.
\<close>

theorem writex_concat:
  assumes "writex_pos xc = 0" and "length (writex_buf xc) = FST_WRITEX_MAX"
  shows "\<exists>xc1 xc2. writex_all xc ss = Inr xc1 \<and> fstWritex xc1 [] = Inr xc2
    \<and> writex_fd xc2 = writex_fd xc @ concat ss \<and> writex_pos xc2 = 0"
proof -
  have "writex_ok xc" using assms by (simp add: writex_ok_def FST_WRITEX_MAX_def)
  from writex_all_out [OF this, of ss] assms show ?thesis
    by (auto simp: fstWritex_def writex_flush_out) (simp add: writex_out_def)
qed

lemma writex_concat_witness:
  "\<exists>xc1 xc2. writex_all reader_zero [[1, 2], replicate FST_WRITEX_MAX 3, [4]] = Inr xc1
    \<and> fstWritex xc1 [] = Inr xc2 \<and> writex_fd xc2 = [1, 2] @ replicate FST_WRITEX_MAX 3 @ [4]"
  using writex_concat [of reader_zero "[[1, 2], replicate FST_WRITEX_MAX 3, [4]]"]
  by (auto simp: reader_zero_def)

end
