(* ===== verification/Vcd_Id.thy ===== *)
theory Vcd_Id
  imports Prelude
begin

text \<open>
  VCD identifier codes (\<open>fstapi.c\<close>, \<open>fstVcdID\<close> and \<open>fstVcdIDForFwrite\<close>): a handle written
  in bijective base 94 over the printable characters, low digit first.
\<close>

section \<open>The two functions\<close>

lemma vcd_step_less: "v \<noteq> 0 \<Longrightarrow> unat ((v - 1) div 94 :: u32) < unat v"
proof -
  assume "v \<noteq> 0"
  then have "unat (v - 1) = unat v - 1" by (simp add: unat_minus_one)
  moreover have "0 < unat v" using \<open>v \<noteq> 0\<close> by (simp add: unat_gt_0)
  ultimately show ?thesis by (simp add: unat_div_distrib)
qed

text \<open>
  \<open>while(value) { value--; *(pnt++) = (char)('!' + value % 94); value = value / 94; }\<close>
\<close>

function vcd_digits :: "u32 \<Rightarrow> bytes" where
  "vcd_digits v =
     (if v \<noteq> 0 then (33 + ucast ((v - 1) mod 94)) # vcd_digits ((v - 1) div 94) else [])"
  by pat_completeness auto
termination
  by (relation "measure unat") (auto intro: vcd_step_less)

declare vcd_digits.simps [simp del]

text \<open>The buffer after the call: the digits and the terminating NUL, over what was there.\<close>

definition fstVcdID :: "bytes \<Rightarrow> u32 \<Rightarrow> bytes outcome" where
  "fstVcdID buf v = store_n buf 0 (vcd_digits v @ [0])"

text \<open>The same loop with a counter, without the NUL.\<close>

fun vcd_digits_fwrite :: "u32 \<Rightarrow> nat \<Rightarrow> bytes" where
  "vcd_digits_fwrite v 0 = []"
| "vcd_digits_fwrite v (Suc room) =
     (if v \<noteq> 0
      then (33 + ucast ((v - 1) mod 94)) # vcd_digits_fwrite ((v - 1) div 94) room else [])"

definition fstVcdIDForFwrite :: "bytes \<Rightarrow> u32 \<Rightarrow> (bytes \<times> nat) outcome" where
  "fstVcdIDForFwrite buf v =
     (let ds = vcd_digits_fwrite v 14
      in andthen (store_n buf 0 ds) (\<lambda>buf'. Inr (buf', length ds)))"

section \<open>Lemmas\<close>

text \<open>The number a list of digits stands for.\<close>

primrec vcd_val :: "bytes \<Rightarrow> nat" where
  "vcd_val [] = 0"
| "vcd_val (b # bs) = (unat b - 33) + 1 + 94 * vcd_val bs"

lemma vcd_digits_0 [simp]: "vcd_digits 0 = []"
  by (simp add: vcd_digits.simps [of 0])

lemma vcd_digit:
  "unat (33 + ucast (w mod 94 :: u32) :: u8) = 33 + unat w mod 94"
proof -
  have "unat (ucast (w mod 94) :: u8) = unat w mod 94"
    by (simp add: unsigned_ucast_eq unat_mod_distrib take_bit_eq_mod)
  then show ?thesis by (simp add: unat_word_ariths)
qed

lemma vcd_digits_val: "vcd_val (vcd_digits v) = unat v"
proof (induction v rule: vcd_digits.induct)
  case (1 v)
  show ?case
  proof (cases "v = 0")
    case False
    then have u: "unat (v - 1) = unat v - 1" "0 < unat v"
      by (simp_all add: unat_minus_one unat_gt_0)
    have "vcd_val (vcd_digits v)
      = (unat v - 1) mod 94 + 1 + 94 * ((unat v - 1) div 94)"
      using 1 [OF False] False
      by (simp add: vcd_digits.simps [of v] vcd_digit u unat_div_distrib)
    also have "\<dots> = (unat v - 1) + 1" by simp
    finally show ?thesis using u by simp
  qed (simp add: vcd_digits.simps [of v])
qed

lemma vcd_digits_length_pow: "v \<noteq> 0 \<Longrightarrow> 94 ^ (length (vcd_digits v) - 1) \<le> unat v"
proof (induction v rule: vcd_digits.induct)
  case (1 v)
  let ?w = "(v - 1) div 94"
  have u: "unat (v - 1) = unat v - 1" "0 < unat v"
    using "1.prems" by (simp_all add: unat_minus_one unat_gt_0)
  show ?case
  proof (cases "?w = 0")
    case True
    then show ?thesis using u "1.prems" by (simp add: vcd_digits.simps [of v])
  next
    case False
    then have "vcd_digits ?w \<noteq> []" by (simp add: vcd_digits.simps [of ?w])
    then have "length (vcd_digits v) - 1 = Suc (length (vcd_digits ?w) - 1)"
      using "1.prems" by (simp add: vcd_digits.simps [of v])
    moreover have "94 ^ (length (vcd_digits ?w) - 1) \<le> unat ?w"
      using "1.IH" "1.prems" False by blast
    moreover have "94 * unat ?w \<le> unat v - 1" using u by (simp add: unat_div_distrib)
    ultimately show ?thesis by simp
  qed
qed

lemma length_vcd_digits: "length (vcd_digits v) \<le> 5"
proof (rule ccontr)
  assume "\<not> length (vcd_digits v) \<le> 5"
  then have l: "5 \<le> length (vcd_digits v) - 1" and "v \<noteq> 0"
    by auto
  have "(94 :: nat) ^ 5 \<le> 94 ^ (length (vcd_digits v) - 1)"
    using l by (rule power_increasing) simp
  also have "\<dots> \<le> unat v" using \<open>v \<noteq> 0\<close> by (rule vcd_digits_length_pow)
  finally show False using unat_u32 [of v] by simp
qed

lemma vcd_digits_range: "b \<in> set (vcd_digits v) \<Longrightarrow> 33 \<le> unat b \<and> unat b \<le> 126"
proof (induction v rule: vcd_digits.induct)
  case (1 v)
  have "unat (v - 1) mod 94 < 94" by simp
  with 1 show ?case
    by (cases "v = 0") (auto simp: vcd_digits.simps [of v] vcd_digit)
qed

lemma vcd_digits_fwrite_eq: "length (vcd_digits v) \<le> room \<Longrightarrow> vcd_digits_fwrite v room = vcd_digits v"
proof (induction v room rule: vcd_digits_fwrite.induct)
  case (1 v)
  then show ?case by simp
next
  case (2 v room)
  then show ?case by (cases "v = 0") (simp_all add: vcd_digits.simps [of v])
qed

section \<open>Properties\<close>

text \<open>
  C26. Both identifier routines write the same text: at most five printable characters whatever the
  handle, never empty for a legal handle, so six bytes of buffer are enough; and no two handles
  share an identifier.
\<close>

theorem vcd_id_unique:
  "\<exists>ds. (\<forall>buf. 6 \<le> length buf \<longrightarrow>
            fstVcdID buf v = Inr (ds @ 0 # drop (length ds + 1) buf)
          \<and> fstVcdIDForFwrite buf v = Inr (ds @ drop (length ds) buf, length ds))
     \<and> length ds \<le> 5 \<and> (v \<noteq> 0 \<longrightarrow> ds \<noteq> []) \<and> (\<forall>b \<in> set ds. 33 \<le> unat b \<and> unat b \<le> 126)
     \<and> (\<forall>v'. vcd_digits v' = ds \<longrightarrow> v' = v)"
proof (intro exI [of _ "vcd_digits v"] conjI allI impI ballI)
  fix buf :: bytes
  assume "6 \<le> length buf"
  then show "fstVcdID buf v = Inr (vcd_digits v @ 0 # drop (length (vcd_digits v) + 1) buf)"
    "fstVcdIDForFwrite buf v = Inr (vcd_digits v @ drop (length (vcd_digits v)) buf, length (vcd_digits v))"
    using length_vcd_digits [of v]
    by (simp_all add: fstVcdID_def fstVcdIDForFwrite_def vcd_digits_fwrite_eq store_n_def Let_def)
next
  show "length (vcd_digits v) \<le> 5" by (rule length_vcd_digits)
next
  assume "v \<noteq> 0"
  then show "vcd_digits v \<noteq> []" by (simp add: vcd_digits.simps [of v])
next
  fix b assume "b \<in> set (vcd_digits v)"
  then show "33 \<le> unat b" "unat b \<le> 126" using vcd_digits_range by auto
next
  fix v' assume "vcd_digits v' = vcd_digits v"
  then have "unat v' = unat v" by (metis vcd_digits_val)
  then show "v' = v" by (simp add: word_unat_eq_iff)
qed

lemma vcd_id_unique_witness:
  "\<exists>ds. fstVcdID (replicate 16 7) 95 = Inr (ds @ 0 # replicate (15 - length ds) 7) \<and> length ds \<le> 5"
proof -
  obtain ds where "\<forall>buf. 6 \<le> length buf \<longrightarrow> fstVcdID buf 95 = Inr (ds @ 0 # drop (length ds + 1) buf)"
    "length ds \<le> 5"
    using vcd_id_unique [of 95] by blast
  then show ?thesis by (intro exI [of _ ds]) simp
qed

end
