(* ===== verification/Escape.thy ===== *)
theory Escape
  imports Prelude
begin

text \<open>
  The escape functions of \<open>fstapi.c\<close> (lines 6956 to 7127): arbitrary bytes to printable
  text without blanks and back. \<open>fstUtilityEscToBin\<close> may decode a buffer onto itself; the
  aliasing of source and destination is part of the model.
\<close>

section \<open>Encoding\<close>

text \<open>The letter after the backslash, for the eleven bytes the \<open>switch\<close> lists.\<close>

definition esc_letter :: "u8 \<Rightarrow> u8 option" where
  "esc_letter b =
     (if b = 7 then Some (ascii CHR ''a'')
      else if b = 8 then Some (ascii CHR ''b'')
      else if b = 12 then Some (ascii CHR ''f'')
      else if b = 10 then Some (ascii CHR ''n'')
      else if b = 13 then Some (ascii CHR ''r'')
      else if b = 9 then Some (ascii CHR ''t'')
      else if b = 11 then Some (ascii CHR ''v'')
      else if b = 39 then Some 39
      else if b = 34 then Some 34
      else if b = 92 then Some 92
      else if b = 63 then Some 63
      else None)"

definition esc_one :: "u8 \<Rightarrow> bytes" where
  "esc_one b =
     (case esc_letter b of
        Some e \<Rightarrow> [92, e]
      | None \<Rightarrow>
          if b > 32 \<and> b \<le> 126 then [b]
          else (let v1 = b AND 63; v2 = v1 AND 7
                in [92, b div 64 + 48, v1 div 8 + 48, v2 + 48]))"

definition esc_one_len :: "u8 \<Rightarrow> nat" where
  "esc_one_len b =
     (case esc_letter b of
        Some e \<Rightarrow> 2
      | None \<Rightarrow> if b > 32 \<and> b \<le> 126 then 1 else 4)"

text \<open>
  The loop of \<open>fstUtilityBinToEscConvertedLen\<close>, with \<open>k\<close> rounds to go. \<open>dlen\<close>
  is an \<open>int\<close>: a sum that leaves its range is the undefined behaviour of signed overflow.
\<close>

fun conv_len :: "bytes \<Rightarrow> nat \<Rightarrow> int \<Rightarrow> int outcome" where
  "conv_len src 0 dlen = Inr dlen"
| "conv_len [] (Suc k) dlen = Inl Out_of_bounds"
| "conv_len (b # src) (Suc k) dlen =
     (if dlen + int (esc_one_len b) < 2 ^ 31 then conv_len src k (dlen + int (esc_one_len b))
      else Inl Int_overflow)"

definition fstUtilityBinToEscConvertedLen :: "bytes \<Rightarrow> int \<Rightarrow> int outcome" where
  "fstUtilityBinToEscConvertedLen s len = conv_len s (nat len) 0"

text \<open>
  The bytes written from \<open>d\<close> on. The returned \<open>int\<close> is \<open>dst - d\<close>, their number,
  while that number is below \<open>2 ^ 31\<close>; a caller that sized \<open>d\<close> with
  \<open>fstUtilityBinToEscConvertedLen\<close> above has then already left defined behaviour.
\<close>

definition fstUtilityBinToEsc :: "bytes \<Rightarrow> nat \<Rightarrow> bytes outcome" where
  "fstUtilityBinToEsc s len = andthen (load_n s 0 len) (\<lambda>src. Inr (concat (map esc_one src)))"

section \<open>Decoding\<close>

definition toupper :: "u8 \<Rightarrow> u8" where
  "toupper c = (if 97 \<le> c \<and> c \<le> 122 then c - 32 else c)"

definition hex_digit :: "u8 \<Rightarrow> u8" where
  "hex_digit c = (let v = toupper c in if 65 \<le> v \<and> v \<le> 70 then v - 65 + 10 else v - 48)"

text \<open>
  One round of the loop on the source from \<open>src[i]\<close> on: the byte stored and how far \<open>i\<close>
  moves, \<open>i++\<close> of the \<open>for\<close> included.
\<close>

definition esc_at :: "bytes \<Rightarrow> (u8 \<times> nat) outcome" where
  "esc_at src =
     (case src of
        [] \<Rightarrow> Inl Out_of_bounds
      | c # p \<Rightarrow>
          if c \<noteq> 92 then Inr (c, 1)
          else (case p of
                  [] \<Rightarrow> Inl Out_of_bounds
                | e # q \<Rightarrow>
                    if e = ascii CHR ''a'' then Inr (7, 2)
                    else if e = ascii CHR ''b'' then Inr (8, 2)
                    else if e = ascii CHR ''f'' then Inr (12, 2)
                    else if e = ascii CHR ''n'' then Inr (10, 2)
                    else if e = ascii CHR ''r'' then Inr (13, 2)
                    else if e = ascii CHR ''t'' then Inr (9, 2)
                    else if e = ascii CHR ''v'' then Inr (11, 2)
                    else if e = 39 then Inr (39, 2)
                    else if e = 34 then Inr (34, 2)
                    else if e = 92 then Inr (92, 2)
                    else if e = 63 then Inr (63, 2)
                    else if e = ascii CHR ''x'' then
                      (case q of
                         h # l # _ \<Rightarrow> Inr (hex_digit h * 16 + hex_digit l, 4)
                       | _ \<Rightarrow> Inl Out_of_bounds)
                    else if 48 \<le> e \<and> e \<le> 55 then
                      (case q of
                         d1 # d2 # _ \<Rightarrow> Inr ((e - 48) * 64 + (d1 - 48) * 8 + (d2 - 48), 4)
                       | _ \<Rightarrow> Inl Out_of_bounds)
                    else Inr (e, 2)))"

lemma esc_at_moves: "esc_at src = Inr (v, k) \<Longrightarrow> 0 < k"
  by (auto simp: esc_at_def split: list.splits if_splits)

text \<open>
  The loop. \<open>src = None\<close> is the call with a null destination, where the source is the
  destination itself and every round reads what the earlier rounds have left there.
\<close>

function esc_loop :: "bytes option \<Rightarrow> bytes \<Rightarrow> nat \<Rightarrow> nat \<Rightarrow> nat \<Rightarrow> (bytes \<times> nat) outcome" where
  "esc_loop src d len i dst =
     (if i < len
      then andthen (esc_at (drop i (case src of None \<Rightarrow> d | Some s \<Rightarrow> s)))
             (\<lambda>(v, k). if dst < length d then esc_loop src (d[dst := v]) len (i + k) (Suc dst)
                       else Inl Out_of_bounds)
      else Inr (d, dst))"
  by pat_completeness auto
termination
  by (relation "measure (\<lambda>(src, d, len, i, dst). len - i)") (auto dest: esc_at_moves)

declare esc_loop.simps [simp del]

definition fstUtilityEscToBin :: "bytes option \<Rightarrow> bytes \<Rightarrow> nat \<Rightarrow> (bytes \<times> nat) outcome" where
  "fstUtilityEscToBin d s len =
     (case d of None \<Rightarrow> esc_loop None s len 0 0 | Some buf \<Rightarrow> esc_loop (Some s) buf len 0 0)"

section \<open>Lemmas\<close>

lemmas ascii_eval = ascii_def of_char_def

lemma length_esc_one: "length (esc_one b) = esc_one_len b"
  by (simp add: esc_one_def esc_one_len_def Let_def split: option.split)

lemma esc_one_len_bounds: "0 < esc_one_len b" "esc_one_len b \<le> 4"
  by (auto simp: esc_one_len_def split: option.split)

lemma unat_octal_parts:
  fixes b :: u8
  shows "unat (b div 64) = unat b div 64"
    and "unat ((b AND 63) div 8) = unat b mod 64 div 8"
    and "unat ((b AND 63) AND 7) = unat b mod 8"
proof -
  show "unat (b div 64) = unat b div 64" by (simp add: unat_div_distrib)
  have m: "b AND 63 = take_bit 6 b" by (simp add: take_bit_eq_mask mask_eq_exp_minus_1)
  have "unat (take_bit 6 b) = unat b mod 64"
    by (subst unsigned_take_bit_eq) (simp add: take_bit_eq_mod)
  then show "unat ((b AND 63) div 8) = unat b mod 64 div 8"
    by (simp only: unat_div_distrib m) simp
  have "(b AND 63) AND 7 = take_bit 3 b"
    by (rule bit_word_eqI) (simp add: take_bit_eq_mask mask_eq_exp_minus_1 and.assoc)
  moreover have "unat (take_bit 3 b) = unat b mod 8"
    by (subst unsigned_take_bit_eq) (simp add: take_bit_eq_mod)
  ultimately show "unat ((b AND 63) AND 7) = unat b mod 8" by (simp only:)
qed

lemma octal_sum:
  fixes b :: u8
  shows "b div 64 * 64 + (b AND 63) div 8 * 8 + ((b AND 63) AND 7) = b"
proof -
  have "unat b div 64 * 64 + unat b mod 64 div 8 * 8 + unat b mod 8 = unat b"
  proof -
    have "unat b mod 8 = unat b mod 64 mod 8" by (simp add: mod_mod_cancel)
    then show ?thesis using div_mult_mod_eq [of "unat b" 64] div_mult_mod_eq [of "unat b mod 64" 8] by linarith
  qed
  then have "of_nat (unat b div 64 * 64 + unat b mod 64 div 8 * 8 + unat b mod 8) = b" by simp
  then show ?thesis
    by (simp only: of_nat_add of_nat_mult flip: unat_octal_parts) simp
qed

lemma octal_digits:
  fixes b :: u8
  shows "b div 64 \<le> 3" and "(b AND 63) div 8 \<le> 7" and "(b AND 63) AND 7 \<le> 7"
  using unat_u8 [of b] by (simp_all only: word_le_nat_alt unat_octal_parts) simp_all

lemma ascii_letters [simp]:
  "ascii CHR ''a'' = 97" "ascii CHR ''b'' = 98" "ascii CHR ''f'' = 102" "ascii CHR ''n'' = 110"
  "ascii CHR ''r'' = 114" "ascii CHR ''t'' = 116" "ascii CHR ''v'' = 118" "ascii CHR ''x'' = 120"
  by (simp_all add: ascii_eval)

lemma word_le_3_cases:
  fixes t :: u8
  assumes "t \<le> 3"
  shows "t = 0 \<or> t = 1 \<or> t = 2 \<or> t = 3"
proof -
  from assms have "unat t \<le> 3" by (simp add: word_le_nat_alt)
  then have "unat t = unat (0 :: u8) \<or> unat t = unat (1 :: u8) \<or> unat t = unat (2 :: u8) \<or> unat t = unat (3 :: u8)"
    by auto
  then show ?thesis by (simp only: word_unat_eq_iff)
qed

lemma esc_letter_cases:
  "esc_letter b = Some e \<Longrightarrow> esc_at (92 # e # rest) = Inr (b, 2)"
  by (auto simp: esc_letter_def esc_at_def split: if_splits)

lemma esc_at_octal:
  assumes "p \<le> 3"
  shows "esc_at (92 # (p + 48) # (q + 48) # (r + 48) # rest) = Inr (p * 64 + q * 8 + r, 4)"
  using word_le_3_cases [OF assms] by (elim disjE) (simp_all add: esc_at_def)

lemma esc_at_esc_one: "esc_at (esc_one b @ rest) = Inr (b, esc_one_len b)"
proof (cases "esc_letter b")
  case (Some e)
  then show ?thesis by (simp add: esc_one_def esc_one_len_def esc_letter_cases)
next
  case None
  show ?thesis
  proof (cases "b > 32 \<and> b \<le> 126")
    case True
    with None have "b \<noteq> 92" by (auto simp: esc_letter_def)
    with None True show ?thesis by (simp add: esc_one_def esc_one_len_def esc_at_def)
  next
    case False
    then have "esc_one b = [92, b div 64 + 48, (b AND 63) div 8 + 48, ((b AND 63) AND 7) + 48]"
      unfolding esc_one_def Let_def using None by (simp only: option.case if_False)
    then have "esc_at (esc_one b @ rest) = Inr (b, 4)"
      by (simp only: append.simps esc_at_octal [OF octal_digits(1)] octal_sum)
    with None False show ?thesis by (auto simp: esc_one_len_def)
  qed
qed

lemma esc_one_graphic: "x \<in> set (esc_one b) \<Longrightarrow> 32 < x \<and> x \<le> 126"
proof -
  assume x: "x \<in> set (esc_one b)"
  show ?thesis
  proof (cases "esc_letter b")
    case (Some e)
    with x show ?thesis by (auto simp: esc_one_def esc_letter_def split: if_splits)
  next
    case None
    have d: "32 < y + 48 \<and> y + 48 \<le> 126" if "y \<le> 7" for y :: u8
      using that by (simp add: word_le_nat_alt word_less_nat_alt unat_word_ariths)
    have "b div 64 \<le> 7" using octal_digits(1) [of b] by (rule order_trans) simp
    note digits = d [OF this] d [OF octal_digits(2) [of b]] d [OF octal_digits(3) [of b]]
    show ?thesis
    proof (cases "b > 32 \<and> b \<le> 126")
      case True
      with None x show ?thesis by (simp add: esc_one_def)
    next
      case False
      then have "esc_one b = [92, b div 64 + 48, (b AND 63) div 8 + 48, ((b AND 63) AND 7) + 48]"
        unfolding esc_one_def Let_def using None by (simp only: option.case if_False)
      with x have "x = 92 \<or> x = b div 64 + 48 \<or> x = (b AND 63) div 8 + 48 \<or> x = ((b AND 63) AND 7) + 48"
        by (simp only: list.set insert_iff empty_iff) blast
      then show ?thesis using digits by (elim disjE) (simp_all only:, simp)
    qed
  qed
qed

text \<open>Decoding what was encoded, with the two pointers anywhere and possibly in one buffer.\<close>

definition esc :: "bytes \<Rightarrow> bytes" where
  "esc s = concat (map esc_one s)"

lemma esc_simps [simp]: "esc [] = []" "esc (b # s) = esc_one b @ esc s"
  by (simp_all add: esc_def)

lemma length_esc_ge: "length s \<le> length (esc s)"
proof (induction s)
  case (Cons b s)
  then show ?case using esc_one_len_bounds(1) [of b] by (simp add: length_esc_one)
qed simp

lemma esc_loop_apart:
  assumes "drop i src = esc s @ post" and "i + length (esc s) = len" and "dst + length s \<le> length d"
  shows "esc_loop (Some src) d len i dst
    = Inr (take dst d @ s @ drop (dst + length s) d, dst + length s)"
  using assms
proof (induction s arbitrary: i dst d)
  case Nil
  then show ?case by (simp add: esc_loop.simps)
next
  case (Cons b s)
  have pos: "0 < esc_one_len b" by (rule esc_one_len_bounds)
  have dr: "drop (i + length (esc_one b)) src = esc s @ post"
    using Cons.prems(1) by (simp add: add.commute [of i] flip: drop_drop)
  have "esc_loop (Some src) d len i dst
    = esc_loop (Some src) (d[dst := b]) len (i + esc_one_len b) (Suc dst)"
    using Cons.prems pos
    by (subst esc_loop.simps) (simp add: esc_at_esc_one length_esc_one)
  also have "\<dots> = Inr (take (Suc dst) (d[dst := b]) @ s @ drop (Suc dst + length s) (d[dst := b]),
      Suc dst + length s)"
    using Cons.prems dr by (intro Cons.IH) (auto simp: length_esc_one)
  also have "take (Suc dst) (d[dst := b]) = take dst d @ [b]"
    using Cons.prems(3) by (simp add: take_Suc_conv_app_nth take_update_cancel)
  finally show ?case by simp
qed

lemma esc_loop_onto:
  assumes "drop i d = esc s @ post" and "i + length (esc s) = len" and "dst \<le> i"
  shows "\<exists>rest. esc_loop None d len i dst = Inr (take dst d @ s @ rest, dst + length s)
    \<and> length (take dst d @ s @ rest) = length d"
  using assms
proof (induction s arbitrary: i dst d)
  case Nil
  then show ?case by (auto simp: esc_loop.simps intro!: exI [of _ "drop dst d"])
next
  case (Cons b s)
  have pos: "0 < esc_one_len b" by (rule esc_one_len_bounds)
  have lt: "i < length d"
    using Cons.prems(1) pos by (cases "i < length d") (auto simp flip: length_esc_one)
  have dr: "drop (i + length (esc_one b)) d = esc s @ post"
    using Cons.prems(1) by (simp add: add.commute [of i] flip: drop_drop)
  then have dr': "drop (i + length (esc_one b)) (d[dst := b]) = esc s @ post"
    using pos Cons.prems(3) by (simp add: length_esc_one)
  have step: "esc_loop None d len i dst
    = esc_loop None (d[dst := b]) len (i + esc_one_len b) (Suc dst)"
    using Cons.prems pos lt
    by (subst esc_loop.simps) (simp add: esc_at_esc_one length_esc_one)
  have tk: "take (Suc dst) (d[dst := b]) = take dst d @ [b]"
    using Cons.prems(3) lt by (simp add: take_Suc_conv_app_nth take_update_cancel)
  obtain rest where "esc_loop None (d[dst := b]) len (i + length (esc_one b)) (Suc dst)
      = Inr (take (Suc dst) (d[dst := b]) @ s @ rest, Suc dst + length s)"
    "length (take (Suc dst) (d[dst := b]) @ s @ rest) = length d"
    using Cons.IH [OF dr', of "Suc dst"] Cons.prems pos by (auto simp: length_esc_one)
  then show ?case
    unfolding step tk by (intro exI [of _ rest]) (simp add: length_esc_one)
qed

lemma fstUtilityBinToEsc_eq:
  "fstUtilityBinToEsc s n = (if n \<le> length s then Inr (esc (take n s)) else Inl Out_of_bounds)"
  by (simp add: fstUtilityBinToEsc_def load_n_def esc_def)

lemma esc_graphic: "x \<in> set (esc s) \<Longrightarrow> 32 < x \<and> x \<le> 126"
  by (induction s) (auto dest: esc_one_graphic)

lemma esc_append: "esc (s @ t) = esc s @ esc t"
  by (simp add: esc_def)

lemma fstUtilityEscToBin_onto:
  "\<exists>out. fstUtilityEscToBin None (esc s @ post) (length (esc s)) = Inr (out, length s)
     \<and> take (length s) out = s \<and> length out = length (esc s @ post)"
  using esc_loop_onto [of 0 "esc s @ post" s post "length (esc s)" 0]
  by (auto simp: fstUtilityEscToBin_def)

lemma length_esc_sum: "length (esc t) = sum_list (map esc_one_len t)"
  by (induction t) (simp_all add: length_esc_one)

lemma conv_len_sum:
  assumes "n \<le> length s" and "0 \<le> dlen" and "dlen < 2 ^ 31"
  shows "conv_len s n dlen
    = (if dlen + int (length (esc (take n s))) < 2 ^ 31
       then Inr (dlen + int (length (esc (take n s)))) else Inl Int_overflow)"
  using assms by (induction s n dlen rule: conv_len.induct) (auto simp: length_esc_one add.assoc)

section \<open>Properties\<close>

text \<open>
  C20. Decoding what \<open>fstUtilityBinToEsc\<close> wrote gives the original bytes back: into a
  destination that has room for them, and also in place, over the escaped text itself.
\<close>

theorem escape_roundtrip:
  assumes "fstUtilityBinToEsc s n = Inr e"
  shows "(n \<le> length d \<longrightarrow>
           fstUtilityEscToBin (Some d) e (length e) = Inr (take n s @ drop n d, n))
    \<and> (\<exists>out. fstUtilityEscToBin None (e @ post) (length e) = Inr (out, n)
           \<and> take n out = take n s \<and> length out = length (e @ post))"
proof -
  from assms have e: "e = esc (take n s)" and n: "n \<le> length s"
    by (auto simp: fstUtilityBinToEsc_eq split: if_splits)
  have "n \<le> length d \<longrightarrow>
      fstUtilityEscToBin (Some d) e (length e) = Inr (take n s @ drop n d, n)"
    using n esc_loop_apart [of 0 e "take n s" "[]" "length e" 0 d]
    by (simp add: fstUtilityEscToBin_def e)
  moreover have "\<exists>out. fstUtilityEscToBin None (e @ post) (length e) = Inr (out, n)
      \<and> take n out = take n s \<and> length out = length (e @ post)"
    using n fstUtilityEscToBin_onto [of "take n s" post] by (simp add: e)
  ultimately show ?thesis ..
qed

lemma escape_roundtrip_witness:
  "fstUtilityBinToEsc [0, 65, 10, 255] 4 = Inr (esc [0, 65, 10, 255])
   \<and> fstUtilityEscToBin (Some (replicate 6 7)) (esc [0, 65, 10, 255]) (length (esc [0, 65, 10, 255]))
       = Inr ([0, 65, 10, 255, 7, 7], 4)"
proof -
  have e: "fstUtilityBinToEsc [0, 65, 10, 255] 4 = Inr (esc [0, 65, 10, 255])"
    by (simp add: fstUtilityBinToEsc_eq)
  from escape_roundtrip [OF e, of "replicate 6 7" "[]"] e show ?thesis
    by (simp add: numeral_eq_Suc)
qed

text \<open>
  C25. For every source and every count of bytes, \<open>fstUtilityBinToEscConvertedLen\<close> returns
  exactly the number of bytes \<open>fstUtilityBinToEsc\<close> writes as long as that number is an
  \<open>int\<close>, and from \<open>2 ^ 31\<close> bytes of output on (for instance \<open>2 ^ 29\<close> unprintable
  bytes of input) its sum overflows and no length is announced. The output is at most four times
  the input, and every byte of it is a visible ASCII character: no blank, no NUL, nothing above 126.
\<close>

theorem escape_length_and_alphabet:
  assumes "fstUtilityBinToEsc s n = Inr e"
  shows "fstUtilityBinToEscConvertedLen s (int n)
      = (if length e < 2 ^ 31 then Inr (int (length e)) else Inl Int_overflow)
    \<and> length e \<le> 4 * n
    \<and> (\<forall>x \<in> set e. 32 < x \<and> x \<le> 126)"
proof -
  from assms have e: "e = esc (take n s)" and n: "n \<le> length s"
    by (auto simp: fstUtilityBinToEsc_eq split: if_splits)
  have "sum_list (map esc_one_len t) \<le> 4 * length t" for t
    by (induction t) (use esc_one_len_bounds(2) in \<open>auto intro!: add_mono\<close>)
  from this [of "take n s"] have "length e \<le> 4 * n"
    using n by (simp add: e length_esc_sum)
  moreover have "fstUtilityBinToEscConvertedLen s (int n)
      = (if length e < 2 ^ 31 then Inr (int (length e)) else Inl Int_overflow)"
    using conv_len_sum [OF n, of 0] by (simp add: fstUtilityBinToEscConvertedLen_def e)
  ultimately show ?thesis by (auto simp: e dest: esc_graphic)
qed

lemma escape_length_and_alphabet_witness:
  "fstUtilityBinToEscConvertedLen [32, 65, 0] 3 = Inr (int (length (esc [32, 65, 0])))
   \<and> length (esc [32, 65, 0]) = 9"
proof -
  have l: "length (esc [32, 65, 0]) = 9" by code_simp
  from l show ?thesis
    using escape_length_and_alphabet [of "[32, 65, 0]" 3 "esc [32, 65, 0]"]
    by (simp add: fstUtilityBinToEsc_eq)
qed

end
