(* ===== verification/Enum_Table.thy ===== *)
theory Enum_Table
  imports Escape
begin

text \<open>
  Enumeration tables: the string \<open>fstWriterCreateEnumTable\<close> builds (\<open>fstapi.c\<close> lines
  2821 to 2909) and its parser \<open>fstUtilityExtractEnumTableFromString\<close> (lines 7132 to 7206),
  with \<open>fstUtilityFreeEnumTable\<close> left out, since it only releases memory.
\<close>

section \<open>Decimal numbers\<close>

text \<open>\<open>snprintf\<close> with \<open>PRIu32\<close>, and \<open>atoi\<close>.\<close>

definition dec_digit :: "nat \<Rightarrow> u8" where
  "dec_digit k = of_nat (48 + k)"

fun dec_str :: "nat \<Rightarrow> bytes" where
  "dec_str n = (if n < 10 then [dec_digit n] else dec_str (n div 10) @ [dec_digit (n mod 10)])"

declare dec_str.simps [simp del]

definition is_digit :: "u8 \<Rightarrow> bool" where
  "is_digit b \<longleftrightarrow> 48 \<le> b \<and> b \<le> 57"

definition is_space :: "u8 \<Rightarrow> bool" where
  "is_space b \<longleftrightarrow> b = 32 \<or> (9 \<le> b \<and> b \<le> 13)"

definition digits_val :: "bytes \<Rightarrow> nat" where
  "digits_val bs = foldl (\<lambda>acc b. 10 * acc + (unat b - 48)) 0 bs"

definition atoi :: "bytes \<Rightarrow> int outcome" where
  "atoi s =
     (let p = dropWhile is_space s;
          (neg, q) = (case p of [] \<Rightarrow> (False, p)
                      | b # r \<Rightarrow> if b = 45 then (True, r) else if b = 43 then (False, r) else (False, p));
          n = int (digits_val (takeWhile is_digit q));
          v = (if neg then - n else n)
      in if - (2 ^ 31) \<le> v \<and> v < 2 ^ 31 then Inr v else Inl Int_overflow)"

section \<open>Building the attribute string\<close>

text \<open>One value, left-filled with \<open>'0'\<close> to \<open>min_valbits\<close> characters, then escaped.\<close>

definition enum_val :: "nat \<Rightarrow> bytes \<Rightarrow> bytes" where
  "enum_val min_valbits v =
     (if min_valbits > 0 \<and> length v < min_valbits
      then replicate (min_valbits - length v) 48 else []) @ esc v"

definition enum_val_len :: "nat \<Rightarrow> bytes \<Rightarrow> nat" where
  "enum_val_len min_valbits v =
     sum_list (map esc_one_len v) +
     (if min_valbits > 0 \<and> length v < min_valbits then min_valbits - length v else 0)"

text \<open>
  \<open>total_len\<close>, the size of the allocation, and the bytes stored into it. \<open>attr_str[pos-1] = 0\<close>
  ends the string at the last blank, so the attribute name is all but the last byte.
\<close>

definition enum_total_len :: "bytes \<Rightarrow> nat \<Rightarrow> nat \<Rightarrow> bytes list \<Rightarrow> bytes list \<Rightarrow> nat" where
  "enum_total_len name elem_count min_valbits lits vals =
     length name + 1 + length (dec_str elem_count) + 1
       + sum_list (map (\<lambda>l. sum_list (map esc_one_len l)) lits) + elem_count
       + sum_list (map (enum_val_len min_valbits) vals) + elem_count"

definition enum_bytes :: "bytes \<Rightarrow> nat \<Rightarrow> nat \<Rightarrow> bytes list \<Rightarrow> bytes list \<Rightarrow> bytes" where
  "enum_bytes name elem_count min_valbits lits vals =
     name @ [32] @ dec_str elem_count @ [32]
       @ concat (map (\<lambda>l. esc l @ [32]) lits)
       @ concat (map (\<lambda>v. enum_val min_valbits v @ [32]) vals)"

definition enum_attr_str ::
    "bytes \<Rightarrow> u32 \<Rightarrow> nat \<Rightarrow> bytes list \<Rightarrow> bytes list \<Rightarrow> bytes outcome" where
  "enum_attr_str name elem_count min_valbits literal_arr val_arr =
     andthen (load_n literal_arr 0 (unat elem_count)) (\<lambda>lits.
     andthen (load_n val_arr 0 (unat elem_count)) (\<lambda>vals.
       let bs = enum_bytes name (unat elem_count) min_valbits lits vals;
           total_len = enum_total_len name (unat elem_count) min_valbits lits vals
       in if 2 ^ 31 \<le> total_len then Inl Int_overflow
          else if length bs \<le> total_len then Inr (butlast bs) else Inl Out_of_bounds))"

section \<open>Parsing it\<close>

record fstETab =
  et_name :: bytes
  et_elem_count :: u32
  et_literal_arr :: "bytes list"
  et_val_arr :: "bytes list"

text \<open>The part of a C string behind the first blank, if it has one.\<close>

definition after_blank :: "bytes \<Rightarrow> bytes option" where
  "after_blank s =
     (case dropWhile (\<lambda>b. b \<noteq> 32) s of [] \<Rightarrow> None | _ # q \<Rightarrow> Some q)"

text \<open>
  The text from one word on is cut at the next blank, which is overwritten with NUL, and the word
  is decoded in place: the buffer handed to \<open>fstUtilityEscToBin\<close> is the word, its NUL and
  whatever follows. \<open>None\<close> stands for the null pointer \<open>strchr\<close> returns.
\<close>

definition enum_word :: "bytes \<Rightarrow> (bytes \<times> bytes option) outcome" where
  "enum_word p =
     (let piece = takeWhile (\<lambda>b. b \<noteq> 32) p;
          sp2 = after_blank p;
          buf = piece @ [0] @ (case sp2 of None \<Rightarrow> [] | Some q \<Rightarrow> q @ [0])
      in andthen (fstUtilityEscToBin None buf (length piece))
           (\<lambda>(out, newlen). Inr (take newlen out, sp2)))"

text \<open>The literals: a missing blank means a store through a null pointer.\<close>

fun enum_literals :: "nat \<Rightarrow> bytes option \<Rightarrow> (bytes list \<times> bytes option) outcome" where
  "enum_literals 0 sp = Inr ([], sp)"
| "enum_literals (Suc n) None = Inl Null_deref"
| "enum_literals (Suc n) (Some p) =
     (if after_blank p = None then Inl Null_deref
      else andthen (enum_word p) (\<lambda>(l, sp2).
           andthen (enum_literals n sp2) (\<lambda>(ls, sp'). Inr (l # ls, sp'))))"

text \<open>The values: the last word may end at the end of the string.\<close>

fun enum_values :: "nat \<Rightarrow> bytes option \<Rightarrow> bytes list outcome" where
  "enum_values 0 sp = Inr []"
| "enum_values (Suc n) None = Inl Null_deref"
| "enum_values (Suc n) (Some p) =
     andthen (enum_word p) (\<lambda>(v, sp2).
       andthen (enum_values n sp2) (\<lambda>vs. Inr (v # vs)))"

definition fstUtilityExtractEnumTableFromString :: "bytes option \<Rightarrow> fstETab option outcome" where
  "fstUtilityExtractEnumTableFromString s_opt =
     (case s_opt of None \<Rightarrow> Inr None
      | Some s \<Rightarrow>
        (case after_blank s of None \<Rightarrow> Inl Null_deref
         | Some csp \<Rightarrow>
           andthen (atoi csp) (\<lambda>cnt.
             let num_spaces = length (filter (\<lambda>b. b = 32) csp) in
             if 2 * cnt < - (2 ^ 31) \<or> 2 ^ 31 \<le> 2 * cnt then Inl Int_overflow
             else if int num_spaces = 2 * cnt then
               andthen (enum_literals (nat cnt) (after_blank csp)) (\<lambda>(lits, sp).
               andthen (enum_values (nat cnt) sp) (\<lambda>vals.
                 Inr (Some \<lparr>et_name = takeWhile (\<lambda>b. b \<noteq> 32) s, et_elem_count = of_int cnt,
                            et_literal_arr = lits, et_val_arr = vals\<rparr>)))
             else Inr None)))"

section \<open>Lemmas\<close>

lemma unat_dec_digit: "k < 10 \<Longrightarrow> unat (dec_digit k) = 48 + k"
  unfolding dec_digit_def by (rule of_nat_inverse) simp_all

lemma is_digit_dec_digit: "k < 10 \<Longrightarrow> is_digit (dec_digit k)"
  by (simp add: is_digit_def word_le_nat_alt unat_dec_digit)

lemma dec_str_digits: "b \<in> set (dec_str n) \<Longrightarrow> is_digit b"
proof (induction n rule: dec_str.induct)
  case (1 n)
  then show ?case
    by (cases "n < 10") (auto simp: dec_str.simps [of n] is_digit_dec_digit)
qed

lemma dec_str_not_Nil [simp]: "dec_str n \<noteq> []"
  by (simp add: dec_str.simps [of n])

lemma digits_val_dec_str: "digits_val (dec_str n) = n"
proof (induction n rule: dec_str.induct)
  case (1 n)
  then show ?case
    by (cases "n < 10") (auto simp: dec_str.simps [of n] digits_val_def unat_dec_digit)
qed

lemma digit_not_space: "is_digit b \<Longrightarrow> \<not> is_space b \<and> b \<noteq> 45 \<and> b \<noteq> 43 \<and> b \<noteq> 32"
  by (auto simp: is_digit_def is_space_def word_le_nat_alt)

lemma atoi_dec_str:
  assumes "n < 2 ^ 31"
  shows "atoi (dec_str n @ 32 # rest) = Inr (int n)"
proof -
  obtain b bs where d: "dec_str n = b # bs" using dec_str_not_Nil [of n] by (cases "dec_str n") auto
  have b: "is_digit b" using dec_str_digits [of b n] d by simp
  have "takeWhile is_digit (dec_str n @ 32 # rest) = dec_str n"
    using dec_str_digits [of _ n] by (simp add: takeWhile_append2 is_digit_def [of 32])
  then show ?thesis
    using d b digit_not_space [OF b] digits_val_dec_str [of n] assms
    by (simp add: atoi_def Let_def)
qed

text \<open>A value with the zeros in front of it that \<open>min_valbits\<close> asks for.\<close>

definition pad_val :: "nat \<Rightarrow> bytes \<Rightarrow> bytes" where
  "pad_val m v = replicate (m - length v) 48 @ v"

lemma esc_zeros: "esc (replicate k 48) = replicate k 48"
  by (induction k) (simp_all add: esc_one_def esc_letter_def)

lemma enum_val_eq: "enum_val m v = esc (pad_val m v)"
  by (simp add: enum_val_def pad_val_def esc_append esc_zeros)

lemma length_esc: "length (esc s) = sum_list (map esc_one_len s)"
  by (induction s) (simp_all add: length_esc_one)

lemma length_enum_val: "length (enum_val m v) = enum_val_len m v"
  by (simp add: enum_val_def enum_val_len_def length_esc)

lemma length_enum_bytes:
  assumes "length lits = n" and "length vals = n"
  shows "length (enum_bytes nm n m lits vals) = enum_total_len nm n m lits vals"
proof -
  have l: "length (concat (map (\<lambda>x. f x @ [32]) xs)) = sum_list (map (\<lambda>x. length (f x)) xs) + length xs"
    for f :: "bytes \<Rightarrow> bytes" and xs
    by (induction xs) simp_all
  show ?thesis
    using assms by (simp add: enum_bytes_def enum_total_len_def l length_esc length_enum_val)
qed

lemma esc_no_blank: "x \<in> set (esc s) \<Longrightarrow> x \<noteq> 32"
  using esc_graphic by force

lemma after_blank_append:
  "32 \<notin> set s \<Longrightarrow> after_blank (s @ 32 # q) = Some q"
  by (subst after_blank_def) (subst dropWhile_append2, auto)

lemma after_blank_None: "32 \<notin> set s \<Longrightarrow> after_blank s = None"
proof -
  assume "32 \<notin> set s"
  then have "dropWhile (\<lambda>b. b \<noteq> 32) s = []" by (auto simp: dropWhile_eq_Nil_conv)
  then show ?thesis by (simp only: after_blank_def list.case)
qed

lemma enum_word_more: "enum_word (esc v @ 32 # q) = Inr (v, Some q)"
proof -
  have tw: "takeWhile (\<lambda>b. b \<noteq> 32) (esc v @ 32 # q) = esc v"
    by (subst takeWhile_append2) (auto dest: esc_no_blank)
  have ab: "after_blank (esc v @ 32 # q) = Some q"
    by (rule after_blank_append) (auto dest: esc_no_blank)
  show ?thesis
    using fstUtilityEscToBin_onto [of v "0 # q @ [0]"]
    by (auto simp: enum_word_def tw ab)
qed

lemma enum_word_last: "enum_word (esc v) = Inr (v, None)"
proof -
  have tw: "takeWhile (\<lambda>b. b \<noteq> 32) (esc v) = esc v"
    by (simp add: takeWhile_eq_all_conv) (blast dest: esc_no_blank)
  have ab: "after_blank (esc v) = None"
    by (rule after_blank_None) (auto dest: esc_no_blank)
  show ?thesis
    using fstUtilityEscToBin_onto [of v "[0]"]
    by (auto simp: enum_word_def tw ab)
qed

lemma enum_literals_esc:
  "enum_literals (length ls) (Some (concat (map (\<lambda>l. esc l @ [32]) ls) @ q)) = Inr (ls, Some q)"
proof (induction ls)
  case (Cons l ls)
  have "after_blank (esc l @ 32 # q') = Some q'" for q'
    by (rule after_blank_append) (auto dest: esc_no_blank)
  with Cons show ?case by (simp add: enum_word_more)
qed simp

lemma enum_values_esc:
  "vs \<noteq> [] \<Longrightarrow> enum_values (length vs) (Some (butlast (concat (map (\<lambda>v. esc v @ [32]) vs)))) = Inr vs"
proof (induction vs)
  case (Cons v vs)
  show ?case
  proof (cases vs)
    case Nil
    then show ?thesis by (simp add: butlast_append enum_word_last)
  next
    case (Cons w ws)
    then have "butlast (concat (map (\<lambda>v. esc v @ [32]) (v # vs)))
      = esc v @ 32 # butlast (concat (map (\<lambda>v. esc v @ [32]) vs))"
      by (simp add: butlast_append)
    with Cons.IH Cons show ?thesis by (simp add: enum_word_more)
  qed
qed simp

lemma count_blanks: 
  "length (filter (\<lambda>b. b = 32) (concat (map (\<lambda>l. esc l @ [32]) ls))) = length ls"
proof (induction ls)
  case (Cons l ls)
  have "filter (\<lambda>b. b = 32) (esc l) = []"
    by (auto simp: filter_empty_conv dest: esc_no_blank)
  with Cons show ?case by simp
qed simp

lemma count_blanks_butlast:
  assumes "ls \<noteq> []"
  shows "length (filter (\<lambda>b. b = 32) (butlast (concat (map (\<lambda>l. esc l @ [32]) ls)))) = length ls - 1"
proof -
  let ?t = "concat (map (\<lambda>l. esc l @ [32]) ls)"
  obtain ls' l where "ls = ls' @ [l]" using assms by (cases ls rule: rev_cases) auto
  then have "?t = butlast ?t @ [32]" by (simp add: butlast_append)
  then have "length (filter (\<lambda>b. b = 32) ?t) = length (filter (\<lambda>b. b = 32) (butlast ?t @ [32]))"
    by (rule arg_cong)
  then show ?thesis by (simp only: count_blanks filter_append) simp
qed

lemma dec_str_no_blank: "32 \<notin> set (dec_str n)"
  using dec_str_digits [of 32 n] by (auto simp: is_digit_def)

text \<open>The string without its last blank, in the shape the parser meets it.\<close>

lemma butlast_enum_bytes:
  assumes "vals \<noteq> []"
  shows "butlast (enum_bytes nm n m lits vals) =
    nm @ 32 # dec_str n @ 32 # concat (map (\<lambda>l. esc l @ [32]) lits)
      @ butlast (concat (map (\<lambda>v. esc v @ [32]) (map (pad_val m) vals)))"
proof -
  have "concat (map (\<lambda>v. esc v @ [32]) (map (pad_val m) vals)) \<noteq> []"
    using assms by (cases vals) auto
  then show ?thesis
    by (simp add: enum_bytes_def butlast_append enum_val_eq comp_def)
qed

section \<open>Properties\<close>

text \<open>
  C19. What \<open>fstWriterCreateEnumTable\<close> hands to the hierarchy,
  \<open>fstUtilityExtractEnumTableFromString\<close> takes apart again: the name, the number of
  elements, every literal byte for byte, and every value, filled on the left to the width asked
  for. The buffer allocated is exactly as long as what is stored into it.
\<close>

theorem enum_table_roundtrip:
  assumes "length lits = unat n" and "length vals = unat n" and "0 < n" and "n < 2 ^ 30"
    and "32 \<notin> set nm" and "enum_total_len nm (unat n) m lits vals < 2 ^ 31"
  shows "\<exists>s. enum_attr_str nm n m lits vals = Inr s
    \<and> length s + 1 = enum_total_len nm (unat n) m lits vals
    \<and> fstUtilityExtractEnumTableFromString (Some s)
        = Inr (Some \<lparr>et_name = nm, et_elem_count = n, et_literal_arr = lits, et_val_arr = map (pad_val m) vals\<rparr>)"
proof -
  let ?bs = "enum_bytes nm (unat n) m lits vals"
  let ?v = "butlast (concat (map (\<lambda>v. esc v @ [32]) (map (pad_val m) vals)))"
  let ?csp = "dec_str (unat n) @ 32 # concat (map (\<lambda>l. esc l @ [32]) lits) @ ?v"
  have n0: "0 < unat n" using assms(3) by (simp add: word_less_nat_alt)
  have n30: "unat n < 2 ^ 30" using assms(4) by (simp add: word_less_nat_alt)
  have ne: "vals \<noteq> []" using n0 assms(2) by auto
  have sh: "butlast ?bs = nm @ 32 # ?csp" by (rule butlast_enum_bytes [OF ne])
  have len: "length ?bs = enum_total_len nm (unat n) m lits vals"
    using assms(1,2) by (rule length_enum_bytes)
  have str: "enum_attr_str nm n m lits vals = Inr (butlast ?bs)"
    using assms(1,2,6) len by (simp add: enum_attr_str_def)
  have blanks: "length (filter (\<lambda>b. b = 32) ?csp) = 2 * unat n"
  proof -
    have "filter (\<lambda>b. b = 32) (dec_str (unat n)) = []"
      by (auto simp: filter_empty_conv dec_str_no_blank)
    moreover have "length (filter (\<lambda>b. b = 32) ?v) = unat n - 1"
      using count_blanks_butlast [of "map (pad_val m) vals"] ne assms(2) by simp
    ultimately show ?thesis using count_blanks [of lits] assms(1) n0 by simp
  qed
  have at: "atoi ?csp = Inr (int (unat n))"
    using n30 by (intro atoi_dec_str) simp
  have ab: "after_blank (nm @ 32 # ?csp) = Some ?csp"
    "after_blank ?csp = Some (concat (map (\<lambda>l. esc l @ [32]) lits) @ ?v)"
    using assms(5) dec_str_no_blank by (simp_all only: after_blank_append not_False_eq_True)
  have lits: "enum_literals (unat n) (Some (concat (map (\<lambda>l. esc l @ [32]) lits) @ ?v)) = Inr (lits, Some ?v)"
    using enum_literals_esc [of lits ?v] assms(1) by simp
  have vals: "enum_values (unat n) (Some ?v) = Inr (map (pad_val m) vals)"
    using enum_values_esc [of "map (pad_val m) vals"] ne assms(2) by simp
  have nm: "takeWhile (\<lambda>b. b \<noteq> 32) (nm @ 32 # ?csp) = nm"
    using assms(5) by (subst takeWhile_append2) auto
  have range: "\<not> (2 * int k < - (2 ^ 31) \<or> 2 ^ 31 \<le> 2 * int k)" if "k < 2 ^ 30" for k :: nat
    using that by simp
  have cnt: "int (2 * unat n) = 2 * int (unat n)" "of_int (int (unat n)) = n"
    by simp_all
  have "fstUtilityExtractEnumTableFromString (Some (nm @ 32 # ?csp))
      = Inr (Some \<lparr>et_name = nm, et_elem_count = n, et_literal_arr = lits, et_val_arr = map (pad_val m) vals\<rparr>)"
    unfolding fstUtilityExtractEnumTableFromString_def option.case ab at andthen_simps Let_def blanks nm
    by (simp only: range [OF n30] if_False cnt refl if_True nat_int lits vals prod.case andthen_simps)
  moreover have "0 < length ?bs" unfolding len by (simp add: enum_total_len_def)
  then have "length (butlast ?bs) + 1 = enum_total_len nm (unat n) m lits vals"
    by (simp only: length_butlast len)
  ultimately show ?thesis unfolding sh using str [unfolded sh] by blast
qed

lemma enum_table_roundtrip_witness:
  "\<exists>s. enum_attr_str [101] 2 3 [[65], [32, 66]] [[48], [49, 48, 49]] = Inr s
    \<and> fstUtilityExtractEnumTableFromString (Some s)
        = Inr (Some \<lparr>et_name = [101], et_elem_count = 2, et_literal_arr = [[65], [32, 66]],
                     et_val_arr = [[48, 48, 48], [49, 48, 49]]\<rparr>)"
proof -
  have "enum_total_len [101] (unat (2 :: u32)) 3 [[65], [32, 66]] [[48], [49, 48, 49]] < 2 ^ 31"
    by (simp add: enum_total_len_def enum_val_len_def esc_one_len_def esc_letter_def dec_str.simps)
  moreover have "map (pad_val 3) [[48], [49, 48, 49]] = [[48, 48, 48], [49, 48, 49]]"
    by (simp add: pad_val_def numeral_eq_Suc)
  ultimately show ?thesis
    using enum_table_roundtrip [of "[[65], [32, 66]]" 2 "[[48], [49, 48, 49]]" "[101]" 3] by auto
qed

end
