(* ===== verification/Jenkins.thy ===== *)
theory Jenkins
  imports Prelude
begin

text \<open>
  The hash table of \<open>fstapi.c\<close> (lines 6766 to 7001): Jenkins' \<open>mix\<close> and \<open>j_hash\<close>,
  the insert-or-find operation \<open>JenkinsIns\<close> with its move-to-front chains, and
  \<open>JenkinsFree\<close>. The locale \<open>dictionary\<close> is the contract its two clients rely on
  (sharing of identical value change chains, numbering of source paths), proved for any table that
  keeps it and interpreted on this one.
\<close>

section \<open>The hash function\<close>

text \<open>
  The macro is three groups of three steps that differ in the shift distances only.
\<close>

definition mix_round :: "nat \<Rightarrow> nat \<Rightarrow> nat \<Rightarrow> u32 \<times> u32 \<times> u32 \<Rightarrow> u32 \<times> u32 \<times> u32" where
  "mix_round i j k = (\<lambda>(a, b, c).
     let a = (a - b - c) XOR drop_bit i c;
         b = (b - c - a) XOR push_bit j a;
         c = (c - a - b) XOR drop_bit k b
     in (a, b, c))"

definition mix :: "u32 \<times> u32 \<times> u32 \<Rightarrow> u32 \<times> u32 \<times> u32" where
  "mix s = mix_round 3 10 15 (mix_round 12 16 5 (mix_round 13 8 13 s))"

text \<open>\<open>k[0] +((uint32_t)k[1]<<8) +((uint32_t)k[2]<<16) +((uint32_t)k[3]<<24)\<close>, and the cases
  of the final \<open>switch\<close>, which add the bytes that are there.\<close>

definition k_at :: "bytes \<Rightarrow> nat \<Rightarrow> u32" where
  "k_at k i = (if i < length k then ucast (k ! i) else 0)"

definition k_word :: "bytes \<Rightarrow> nat \<Rightarrow> u32" where
  "k_word k i = k_at k i + push_bit 8 (k_at k (i + 1))
     + push_bit 16 (k_at k (i + 2)) + push_bit 24 (k_at k (i + 3))"

fun j_hash_loop :: "bytes \<Rightarrow> u32 \<times> u32 \<times> u32 \<Rightarrow> bytes \<times> u32 \<times> u32 \<times> u32" where
  "j_hash_loop k (a, b, c) =
     (if 12 \<le> length k
      then j_hash_loop (drop 12 k) (mix (a + k_word k 0, b + k_word k 4, c + k_word k 8))
      else (k, a, b, c))"

declare j_hash_loop.simps [simp del]

definition j_hash :: "bytes \<Rightarrow> u32 \<Rightarrow> u32" where
  "j_hash key initval =
     (let (k, a, b, c) = j_hash_loop key (0x9e3779b9, 0x9e3779b9, initval);
          c = c + of_nat (length key);
          c = c + push_bit 24 (k_at k 10) + push_bit 16 (k_at k 9) + push_bit 8 (k_at k 8);
          b = b + k_word k 4;
          a = a + k_word k 0;
          (_, _, c) = mix (a, b, c)
      in c)"

section \<open>The table\<close>

record 'p collchain_t =
  jc_payload :: 'p
  jc_fullhash :: u32
  jc_len :: u32
  jc_mem :: bytes

text \<open>
  \<open>*base\<close> is null before the first call; then it is an array of \<open>hashmask + 1\<close> chains. The
  size is computed in 32 bits, so a mask of all ones allocates nothing.
\<close>

type_synonym 'p jtable = "'p collchain_t list list option"

definition chain_hit :: "u32 \<Rightarrow> bytes \<Rightarrow> 'p collchain_t \<Rightarrow> bool" where
  "chain_hit hf m e \<longleftrightarrow> jc_fullhash e = hf \<and> jc_len e = of_nat (length m) \<and> jc_mem e = m"

text \<open>The search: the entries passed over, the one found, and the rest of the chain.\<close>

fun chain_find ::
    "u32 \<Rightarrow> bytes \<Rightarrow> 'p collchain_t list
      \<Rightarrow> ('p collchain_t list \<times> 'p collchain_t \<times> 'p collchain_t list) option" where
  "chain_find hf m [] = None"
| "chain_find hf m (e # es) =
     (if chain_hit hf m e then Some ([], e, es)
      else (case chain_find hf m es of None \<Rightarrow> None
            | Some (pre, x, post) \<Rightarrow> Some (e # pre, x, post)))"

text \<open>
  \<open>JenkinsIns(base, mem, length, hashmask)\<close>. The pointer it returns is the payload of the entry
  that now heads chain \<open>h\<close>; the result is the table and \<open>h\<close>. A fresh payload is
  \<open>null\<close>, the zero of \<open>calloc\<close>.
\<close>

definition JenkinsIns ::
    "'p \<Rightarrow> 'p jtable \<Rightarrow> bytes \<Rightarrow> u32 \<Rightarrow> ('p jtable \<times> nat) outcome" where
  "JenkinsIns null base m hashmask =
     (let ar = (case base of None \<Rightarrow> replicate (unat (hashmask + 1)) [] | Some ar \<Rightarrow> ar);
          hf = j_hash m (of_nat (length m));
          h = unat (hf AND hashmask)
      in andthen (load ar h) (\<lambda>chain.
           case chain_find hf m chain of
             Some (pre, x, post) \<Rightarrow> Inr (Some (ar[h := x # pre @ post]), h)
           | None \<Rightarrow>
               Inr (Some (ar[h := \<lparr>jc_payload = null, jc_fullhash = hf,
                                   jc_len = of_nat (length m), jc_mem = m\<rparr> # chain]), h)))"

text \<open>Reading and writing through the pointer \<open>JenkinsIns\<close> returned.\<close>

definition jpayload :: "'p jtable \<Rightarrow> nat \<Rightarrow> 'p outcome" where
  "jpayload base h =
     (case base of None \<Rightarrow> Inl Null_deref
      | Some ar \<Rightarrow> andthen (load ar h) (\<lambda>chain.
          case chain of [] \<Rightarrow> Inl Null_deref | e # _ \<Rightarrow> Inr (jc_payload e)))"

definition jset_payload :: "'p \<Rightarrow> 'p jtable \<Rightarrow> nat \<Rightarrow> 'p jtable outcome" where
  "jset_payload p base h =
     (case base of None \<Rightarrow> Inl Null_deref
      | Some ar \<Rightarrow> andthen (load ar h) (\<lambda>chain.
          case chain of [] \<Rightarrow> Inl Null_deref
          | e # es \<Rightarrow> Inr (Some (ar[h := e\<lparr>jc_payload := p\<rparr> # es]))))"

text \<open>\<open>JenkinsFree\<close> releases every chain; its loop \<open>for(h=0;h<=hashmask;h++)\<close> does not end
  when the mask is the largest \<open>uint32_t\<close>.\<close>

definition JenkinsFree :: "'p jtable \<Rightarrow> u32 \<Rightarrow> 'p jtable outcome" where
  "JenkinsFree base hashmask =
     (case base of None \<Rightarrow> Inr None
      | Some ar \<Rightarrow>
         if length ar < unat hashmask + 1 then Inl Out_of_bounds
         else if hashmask = -1 then Inl Hang else Inr None)"

text \<open>
  How both clients use it: \<open>pv = JudyHSIns(...); if(*pv) use *pv; else *pv = p;\<close>. The result is
  the payload found, if any, and the table.
\<close>

definition find_or_set ::
    "u32 \<Rightarrow> u32 jtable \<Rightarrow> bytes \<Rightarrow> u32 \<Rightarrow> (u32 option \<times> u32 jtable) outcome" where
  "find_or_set hashmask base m p =
     andthen (JenkinsIns 0 base m hashmask) (\<lambda>(base1, h).
     andthen (jpayload base1 h) (\<lambda>old.
       if old \<noteq> 0 then Inr (Some old, base1)
       else andthen (jset_payload p base1 h) (\<lambda>base2. Inr (None, base2))))"

text \<open>\<open>hashmask |= hashmask >> 1\<close> up to 16, the mask of the flush.\<close>

definition flush_hashmask :: "u32 \<Rightarrow> u32" where
  "flush_hashmask n =
     (let h = n; h = h OR drop_bit 1 h; h = h OR drop_bit 2 h; h = h OR drop_bit 4 h;
          h = h OR drop_bit 8 h; h = h OR drop_bit 16 h in h)"

section \<open>Invariant and abstraction\<close>

text \<open>Every entry sits in the chain its hash selects, and no chain holds a key twice.\<close>

definition jent_ok :: "u32 \<Rightarrow> nat \<Rightarrow> 'p collchain_t \<Rightarrow> bool" where
  "jent_ok hashmask h e \<longleftrightarrow>
     jc_len e = of_nat (length (jc_mem e)) \<and> jc_fullhash e = j_hash (jc_mem e) (jc_len e)
     \<and> h = unat (jc_fullhash e AND hashmask)"

definition jtable_ok :: "u32 \<Rightarrow> 'p jtable \<Rightarrow> bool" where
  "jtable_ok hashmask base \<longleftrightarrow> hashmask \<noteq> -1 \<and>
     (case base of None \<Rightarrow> True
      | Some ar \<Rightarrow> length ar = unat hashmask + 1
          \<and> (\<forall>h < length ar. (\<forall>e \<in> set (ar ! h). jent_ok hashmask h e) \<and> distinct (map jc_mem (ar ! h))))"

definition jslot :: "u32 \<Rightarrow> bytes \<Rightarrow> nat" where
  "jslot hashmask m = unat (j_hash m (of_nat (length m)) AND hashmask)"

definition jmap :: "u32 \<Rightarrow> 'p jtable \<Rightarrow> bytes \<Rightarrow> 'p option" where
  "jmap hashmask base m =
     (case base of None \<Rightarrow> None
      | Some ar \<Rightarrow> map_of (map (\<lambda>e. (jc_mem e, jc_payload e)) (ar ! jslot hashmask m)) m)"

section \<open>The contract of the clients\<close>

text \<open>A run of lookups that bind what they do not find.\<close>

fun dict_run ::
    "('t \<Rightarrow> 'k \<Rightarrow> 'v \<Rightarrow> ('v option \<times> 't) outcome) \<Rightarrow> 't \<Rightarrow> ('k \<times> 'v) list
      \<Rightarrow> ('v option list \<times> 't) outcome" where
  "dict_run ins t [] = Inr ([], t)"
| "dict_run ins t ((m, v) # ms) =
     andthen (ins t m v) (\<lambda>(old, t1).
     andthen (dict_run ins t1 ms) (\<lambda>(rs, t2). Inr (old # rs, t2)))"

locale dictionary =
  fixes ok :: "'t \<Rightarrow> bool"
    and good :: "'v \<Rightarrow> bool"
    and look :: "'t \<Rightarrow> 'k \<Rightarrow> 'v option"
    and ins :: "'t \<Rightarrow> 'k \<Rightarrow> 'v \<Rightarrow> ('v option \<times> 't) outcome"
  assumes ins: "ok t \<Longrightarrow> good v \<Longrightarrow> \<exists>t'. ins t m v = Inr (look t m, t') \<and> ok t'
      \<and> look t' = (if look t m = None then (look t)(m \<mapsto> v) else look t)"
begin

lemma run:
  assumes "ok t" and "\<forall>(m, v) \<in> set ms. good v"
  shows "\<exists>rs t'. dict_run ins t ms = Inr (rs, t') \<and> ok t' \<and> length rs = length ms
    \<and> look t' = map_of ms ++ look t
    \<and> (\<forall>i < length ms. rs ! i = (map_of (take i ms) ++ look t) (fst (ms ! i)))"
  using assms
proof (induction ms arbitrary: t)
  case Nil
  then show ?case by simp
next
  case (Cons mv ms)
  obtain m v where mv: "mv = (m, v)" by (cases mv)
  obtain t1 where t1: "ins t m v = Inr (look t m, t1)" "ok t1"
    "look t1 = (if look t m = None then (look t)(m \<mapsto> v) else look t)"
    using ins [of t v m] Cons.prems mv by auto
  have add: "map_of xs ++ look t1 = map_of (mv # xs) ++ look t" for xs
    using t1(3) by (auto simp: mv map_add_def fun_eq_iff split: option.splits)
  obtain rs t2 where t2: "dict_run ins t1 ms = Inr (rs, t2)" "ok t2" "length rs = length ms"
    "look t2 = map_of ms ++ look t1"
    "\<forall>i < length ms. rs ! i = (map_of (take i ms) ++ look t1) (fst (ms ! i))"
    using Cons.IH [OF t1(2)] Cons.prems by auto
  have "(look t m # rs) ! i = (map_of (take i (mv # ms)) ++ look t) (fst ((mv # ms) ! i))"
    if "i < length (mv # ms)" for i
    using that t2(5) by (cases i) (simp_all add: mv add [unfolded mv])
  then show ?case
    using t1(1) t2 by (simp add: mv add [unfolded mv] fun_upd_def)
qed

text \<open>Two positions get the same answer or binding exactly when their keys agree.\<close>

lemma run_answers:
  assumes "ok t" and "\<forall>(m, v) \<in> set ms. good v" and "dict_run ins t ms = Inr (rs, t')"
    and "i < length ms" and "look t (fst (ms ! i)) = None"
  shows "rs ! i = map_of (take i ms) (fst (ms ! i))"
  using run [OF assms(1,2)] assms(3-5) by (auto simp: map_add_def)

end

section \<open>Lemmas\<close>

lemma unat_and_le: "unat ((x :: u32) AND y) \<le> unat y"
  using word_and_le1 [of x y] by (simp add: word_le_nat_alt)

lemma chain_find_Some:
  "chain_find hf m es = Some (pre, x, post) \<Longrightarrow> es = pre @ x # post \<and> chain_hit hf m x"
  by (induction es arbitrary: pre) (auto split: if_splits option.splits)

lemma chain_find_None:
  "chain_find hf m es = None \<Longrightarrow> e \<in> set es \<Longrightarrow> \<not> chain_hit hf m e"
  by (induction es) (auto split: if_splits option.splits)

abbreviation jpairs :: "'p collchain_t list \<Rightarrow> (bytes \<times> 'p) list" where
  "jpairs es \<equiv> map (\<lambda>e. (jc_mem e, jc_payload e)) es"

lemma map_of_front:
  assumes "distinct (map jc_mem (pre @ x # post))"
  shows "map_of (jpairs (x # pre @ post)) = map_of (jpairs (pre @ x # post))"
proof (rule iffD2 [OF map_of_inject_set])
  show "distinct (map fst (jpairs (x # pre @ post)))" "distinct (map fst (jpairs (pre @ x # post)))"
    using assms by (auto simp: comp_def)
qed auto

lemma jslot_bound: "hashmask \<noteq> -1 \<Longrightarrow> jslot hashmask m < unat hashmask + 1"
  using unat_and_le [of "j_hash m (of_nat (length m))" hashmask] by (simp add: jslot_def)

lemma unat_succ_mask: "hashmask \<noteq> -1 \<Longrightarrow> unat (hashmask + 1 :: u32) = unat hashmask + 1"
  by (metis Suc_eq_plus1 add.commute eq_neg_iff_add_eq_0 unatSuc)

lemma jent_ok_slot: "jent_ok hashmask h e \<Longrightarrow> h = jslot hashmask (jc_mem e)"
  by (auto simp: jent_ok_def jslot_def)

lemma jent_ok_hit:
  "jent_ok hashmask h e \<Longrightarrow> chain_hit (j_hash m (of_nat (length m))) m e \<longleftrightarrow> jc_mem e = m"
  by (auto simp: jent_ok_def chain_hit_def)

text \<open>One call: the chain at the key's slot is replaced by one that starts with the key.\<close>

lemma JenkinsIns_spec:
  assumes ok: "jtable_ok hashmask base"
  shows "\<exists>ar e es. JenkinsIns null base m hashmask = Inr (Some (ar[jslot hashmask m := e # es]), jslot hashmask m)
    \<and> jslot hashmask m < length ar \<and> length ar = unat hashmask + 1 \<and> jc_mem e = m
    \<and> (\<forall>h < length ar. (\<forall>x \<in> set (ar ! h). jent_ok hashmask h x) \<and> distinct (map jc_mem (ar ! h)))
    \<and> (\<forall>x \<in> set (e # es). jent_ok hashmask (jslot hashmask m) x) \<and> distinct (map jc_mem (e # es))
    \<and> jc_payload e = (case jmap hashmask base m of None \<Rightarrow> null | Some p \<Rightarrow> p)
    \<and> jmap hashmask base = (\<lambda>k. map_of (jpairs (ar ! jslot hashmask k)) k)
    \<and> (\<forall>k. k \<noteq> m \<longrightarrow> map_of (jpairs (e # es)) k = map_of (jpairs (ar ! jslot hashmask m)) k)"
proof -
  let ?h = "jslot hashmask m" and ?hf = "j_hash m (of_nat (length m))"
  define ar where "ar = (case base of None \<Rightarrow> replicate (unat (hashmask + 1)) [] | Some ar \<Rightarrow> ar)"
  have nm: "hashmask \<noteq> -1" using ok by (simp add: jtable_ok_def)
  have jc_len: "length ar = unat hashmask + 1"
    using ok unat_succ_mask [OF nm] by (auto simp: ar_def jtable_ok_def split: option.splits)
  have h: "?h < length ar" using jslot_bound [OF nm] jc_len by simp
  have inv: "\<forall>h < length ar. (\<forall>x \<in> set (ar ! h). jent_ok hashmask h x) \<and> distinct (map jc_mem (ar ! h))"
    using ok by (auto simp: ar_def jtable_ok_def split: option.splits)
  have jm: "jmap hashmask base = (\<lambda>k. map_of (jpairs (ar ! jslot hashmask k)) k)"
    using jslot_bound [OF nm] unat_succ_mask [OF nm]
    by (auto simp: jmap_def ar_def fun_eq_iff simp del: replicate_Suc split: option.splits)
  have call: "JenkinsIns null base m hashmask =
      (case chain_find ?hf m (ar ! ?h) of
         Some (pre, x, post) \<Rightarrow> Inr (Some (ar[?h := x # pre @ post]), ?h)
       | None \<Rightarrow> Inr (Some (ar[?h := \<lparr>jc_payload = null, jc_fullhash = ?hf,
                                   jc_len = of_nat (length m), jc_mem = m\<rparr> # ar ! ?h]), ?h))"
    unfolding JenkinsIns_def Let_def jslot_def [symmetric] ar_def [symmetric] load_in [OF h] andthen_simps ..
  have entry: "\<And>x. x \<in> set (ar ! ?h) \<Longrightarrow> jent_ok hashmask ?h x" "distinct (map jc_mem (ar ! ?h))"
    using inv h by auto
  show ?thesis
  proof (cases "chain_find ?hf m (ar ! ?h)")
    case None
    let ?e = "\<lparr>jc_payload = null, jc_fullhash = ?hf, jc_len = of_nat (length m), jc_mem = m\<rparr>"
    have new: "jc_mem x \<noteq> m" if "x \<in> set (ar ! ?h)" for x
      using chain_find_None [OF None that] jent_ok_hit [OF entry(1) [OF that]] by blast
    have "jmap hashmask base m = None"
      using new by (force simp: jm map_of_eq_None_iff)
    moreover have "jent_ok hashmask ?h ?e" by (simp add: jent_ok_def jslot_def)
    ultimately show ?thesis
      using call None jc_len inv h jm new entry
      by (intro exI [of _ ar] exI [of _ ?e] exI [of _ "ar ! ?h"]) auto
  next
    case (Some r)
    obtain pre x post where r: "r = (pre, x, post)" by (cases r)
    have x: "ar ! ?h = pre @ x # post" "chain_hit ?hf m x"
      using chain_find_Some Some r by blast+
    have m: "jc_mem x = m" using x(2) by (simp add: chain_hit_def)
    have front: "map_of (jpairs (x # pre @ post)) = map_of (jpairs (ar ! ?h))"
      using map_of_front [of pre x post] entry(2) x(1) by simp
    have dist: "distinct (map jc_mem (x # pre @ post))" using entry(2) x(1) by auto
    have ents: "\<forall>y \<in> set (x # pre @ post). jent_ok hashmask ?h y" using entry(1) x(1) by auto
    have "jmap hashmask base m = map_of (jpairs (x # pre @ post)) m" by (simp only: jm front)
    also have "\<dots> = Some (jc_payload x)" using m by simp
    finally have "jc_payload x = (case jmap hashmask base m of None \<Rightarrow> null | Some p \<Rightarrow> p)" by simp
    then show ?thesis
      using call Some r jc_len inv h jm m front dist ents
      by (intro exI [of _ ar] exI [of _ x] exI [of _ "pre @ post"]) (simp only: option.case prod.case, blast)
  qed
qed

lemma jent_ok_payload [simp]: "jent_ok hashmask h (e\<lparr>jc_payload := v\<rparr>) \<longleftrightarrow> jent_ok hashmask h e"
  by (simp add: jent_ok_def)

text \<open>The table as a map, with no null payload in it.\<close>

definition jdict_ok :: "u32 \<Rightarrow> u32 jtable \<Rightarrow> bool" where
  "jdict_ok hashmask base \<longleftrightarrow> jtable_ok hashmask base \<and> (\<forall>k v. jmap hashmask base k = Some v \<longrightarrow> v \<noteq> 0)"

lemma jmap_update:
  assumes "jslot hashmask m < length ar"
  shows "jmap hashmask (Some (ar[jslot hashmask m := es])) k
    = (if jslot hashmask k = jslot hashmask m then map_of (jpairs es) k
       else map_of (jpairs (ar ! jslot hashmask k)) k)"
  using assms by (auto simp: jmap_def)

lemma find_or_set_spec:
  assumes "jdict_ok hashmask base" and "p \<noteq> 0"
  shows "\<exists>base'. find_or_set hashmask base m p = Inr (jmap hashmask base m, base')
    \<and> jdict_ok hashmask base'
    \<and> jmap hashmask base' = (if jmap hashmask base m = None then (jmap hashmask base)(m \<mapsto> p)
                          else jmap hashmask base)"
proof -
  let ?h = "jslot hashmask m"
  have ok: "jtable_ok hashmask base" using assms(1) by (simp add: jdict_ok_def)
  obtain ar e es where call: "JenkinsIns 0 base m hashmask = Inr (Some (ar[?h := e # es]), ?h)"
    and h: "?h < length ar" and jc_len: "length ar = unat hashmask + 1" and m: "jc_mem e = m"
    and inv: "\<forall>h < length ar. (\<forall>x \<in> set (ar ! h). jent_ok hashmask h x) \<and> distinct (map jc_mem (ar ! h))"
    and ents: "\<forall>x \<in> set (e # es). jent_ok hashmask ?h x" and dist: "distinct (map jc_mem (e # es))"
    and pay: "jc_payload e = (case jmap hashmask base m of None \<Rightarrow> 0 | Some p \<Rightarrow> p)"
    and jm: "jmap hashmask base = (\<lambda>k. map_of (jpairs (ar ! jslot hashmask k)) k)"
    and other: "\<forall>k. k \<noteq> m \<longrightarrow> map_of (jpairs (e # es)) k = map_of (jpairs (ar ! ?h)) k"
    using JenkinsIns_spec [OF ok, of 0 m] by blast
  have good: "jtable_ok hashmask (Some (ar[?h := e\<lparr>jc_payload := v\<rparr> # es]))" for v
    using ok inv ents dist h jc_len
    by (auto simp: jtable_ok_def nth_list_update)
  have map: "jmap hashmask (Some (ar[?h := e\<lparr>jc_payload := v\<rparr> # es])) = (jmap hashmask base)(m \<mapsto> v)" for v
  proof
    fix k
    show "jmap hashmask (Some (ar[?h := e\<lparr>jc_payload := v\<rparr> # es])) k = ((jmap hashmask base)(m \<mapsto> v)) k"
      using other m by (cases "k = m") (auto simp: jmap_update [OF h] jm)
  qed
  show ?thesis
  proof (cases "jmap hashmask base m")
    case None
    have "find_or_set hashmask base m p = Inr (None, Some (ar[?h := e\<lparr>jc_payload := p\<rparr> # es]))"
      using None pay h by (simp add: find_or_set_def call jpayload_def jset_payload_def)
    then show ?thesis
      using None good [of p] map [of p] assms by (auto simp: jdict_ok_def)
  next
    case (Some v)
    have v: "v \<noteq> 0" "jc_payload e = v" using Some assms(1) pay by (auto simp: jdict_ok_def)
    have "find_or_set hashmask base m p = Inr (Some v, Some (ar[?h := e # es]))"
      using v h by (simp add: find_or_set_def call jpayload_def)
    moreover have same: "e\<lparr>jc_payload := v\<rparr> = e" using v(2) by simp
    moreover have "jmap hashmask (Some (ar[?h := e # es])) = jmap hashmask base"
      using map [of v] Some unfolding same by (simp add: fun_upd_idem)
    ultimately show ?thesis
      using Some good [of v] assms(1) by (simp add: jdict_ok_def)
  qed
qed

interpretation jd: dictionary "jdict_ok hashmask" "\<lambda>v. v \<noteq> 0" "jmap hashmask" "find_or_set hashmask"
  for hashmask
  by unfold_locales (rule find_or_set_spec)

lemma jdict_ok_empty: "hashmask \<noteq> -1 \<Longrightarrow> jdict_ok hashmask None"
  by (simp add: jdict_ok_def jtable_ok_def jmap_def)

lemma jmap_empty: "jmap hashmask None = Map.empty"
  by (simp add: jmap_def fun_eq_iff)

text \<open>Each step can be undone.\<close>

lemma inj_mix_round: "inj (mix_round i j k)"
proof (rule injI)
  fix s t :: "u32 \<times> u32 \<times> u32"
  assume "mix_round i j k s = mix_round i j k t"
  moreover obtain a b c a' b' c' where st: "s = (a, b, c)" "t = (a', b', c')"
    by (cases s, cases t)
  ultimately have eq: "mix_round i j k (a, b, c) = mix_round i j k (a', b', c')" by simp
  define a1 where "a1 = (a - b - c) XOR drop_bit i c"
  define b1 where "b1 = (b - c - a1) XOR push_bit j a1"
  define a2 where "a2 = (a' - b' - c') XOR drop_bit i c'"
  define b2 where "b2 = (b' - c' - a2) XOR push_bit j a2"
  have xor: "(x :: u32) XOR y = x' XOR y \<Longrightarrow> x = x'" for x x' y
    by (metis xor.assoc xor.right_neutral xor_self_eq)
  have "mix_round i j k (a, b, c) = (a1, b1, (c - a1 - b1) XOR drop_bit k b1)"
    "mix_round i j k (a', b', c') = (a2, b2, (c' - a2 - b2) XOR drop_bit k b2)"
    by (simp_all only: mix_round_def Let_def prod.case a1_def b1_def a2_def b2_def)
  then have all: "a1 = a2 \<and> b1 = b2 \<and> (c - a1 - b1) XOR drop_bit k b1 = (c' - a2 - b2) XOR drop_bit k b2"
    using eq by (metis prod.inject)
  then have 1: "a1 = a2" "b1 = b2" and c: "(c - a1 - b1) XOR drop_bit k b1 = (c' - a1 - b1) XOR drop_bit k b1"
    by auto
  from xor [OF c] have c': "c = c'" by simp
  have "b - c - a1 = b' - c' - a1" by (rule xor [of _ "push_bit j a1"]) (use 1 b1_def b2_def in metis)
  then have b': "b = b'" using c' by simp
  have "a - b - c = a' - b' - c'" by (rule xor [of _ "drop_bit i c"]) (use 1 a1_def a2_def c' in metis)
  then show "s = t" using st b' c' by simp
qed

section \<open>Properties\<close>

text \<open>
  C16. A run of insertions into an empty hash table behaves as a dictionary that keeps the first
  binding of each key, whatever collides in the chains and however often hits are moved to the
  front: call number \<open>i\<close> finds the value bound by the first earlier call with the same
  bytes, and no value when there was none.
\<close>

theorem jenkins_first_binding:
  assumes "hashmask \<noteq> -1" and "\<forall>(m, v) \<in> set ms. v \<noteq> 0"
  shows "\<exists>rs t. dict_run (find_or_set hashmask) None ms = Inr (rs, t) \<and> length rs = length ms
    \<and> (\<forall>i < length ms. rs ! i = map_of (take i ms) (fst (ms ! i)))"
  using jd.run [OF jdict_ok_empty [OF assms(1)], of ms] assms(2) by (auto simp: jmap_empty)

lemma jenkins_first_binding_witness:
  "\<exists>t. dict_run (find_or_set 1) None [([65], 1), ([66], 2), ([65], 3)] = Inr ([None, None, Some 1], t)"
proof -
  let ?ms = "[([65], 1), ([66], 2), ([65], 3)] :: (bytes \<times> u32) list"
  have "\<exists>rs t. dict_run (find_or_set 1) None ?ms = Inr (rs, t) \<and> length rs = length ?ms
      \<and> (\<forall>i < length ?ms. rs ! i = map_of (take i ?ms) (fst (?ms ! i)))"
    by (rule jenkins_first_binding) simp_all
  then obtain rs t where rs: "dict_run (find_or_set 1) None ?ms = Inr (rs, t)" "length rs = 3"
    "\<forall>i < 3. rs ! i = map_of (take i ?ms) (fst (?ms ! i))"
    by (auto simp del: dict_run.simps)
  have "rs = [rs ! 0, rs ! 1, rs ! 2]"
    using rs(2) by (intro nth_equalityI) (auto simp: less_Suc_eq numeral_eq_Suc)
  also have "\<dots> = [None, None, Some 1]" using rs(3) by (simp add: numeral_eq_Suc)
  finally show ?thesis using rs(1) by simp
qed

text \<open>
  \<open>mix\<close> is reversible, as its comment claims: no two states of the hash are merged.
\<close>

theorem mix_inj: "inj mix"
proof -
  have "mix = mix_round 3 10 15 \<circ> mix_round 12 16 5 \<circ> mix_round 13 8 13"
    by (simp add: mix_def fun_eq_iff)
  then show ?thesis by (metis inj_compose inj_mix_round)
qed

end
