(* ===== verification/Varint.thy ===== *)
theory Varint
  imports Stdio
begin

text \<open>
  The regular and variable-length integer access functions of \<open>fstapi.c\<close> (lines 374 to 729):
  the writer's loops, the reader's loops on memory and on streams, the signed varints, and the
  proof that each reader inverts each writer. The locale \<open>codec\<close> is the contract the other
  components use: a decoder that returns the encoded value and the number of bytes to skip.
\<close>

section \<open>Unsigned varints: the loops\<close>

text \<open>
  \<open>while((nxt = v>>7)) { *(pnt++) = ((unsigned char)v) | 0x80; v = nxt; } *(pnt++) = v\<close>,
  the loop that seven functions of the writer share, at any width.
\<close>

function varint :: "'a::len word \<Rightarrow> bytes" where
  "varint v =
     (let nxt = drop_bit 7 v
      in if nxt \<noteq> 0 then (ucast v OR 0x80) # varint nxt else [ucast v])"
  by pat_completeness auto
termination
  by (relation "measure unat") (auto intro: drop_bit_7_less)

declare varint.simps [simp del]

text \<open>
  The reader's first loop \<open>while(*mem & 0x80) mem++\<close>, as the offset of the byte it stops at.
\<close>

fun varint_scan :: "bytes \<Rightarrow> nat outcome" where
  "varint_scan [] = Inl Out_of_bounds"
| "varint_scan (b # mem) =
     (if b AND 0x80 \<noteq> 0 then andthen (varint_scan mem) (\<lambda>i. Inr (Suc i)) else Inr 0)"

text \<open>
  The reader's second loop, from that byte back to the first:
  \<open>rc <<= 7; rc |= (*mem & 0x7f); if(mem == mem_orig) break; mem--;\<close>.
\<close>

fun varint_back :: "bytes \<Rightarrow> nat \<Rightarrow> 'a::len word \<Rightarrow> 'a word" where
  "varint_back mem 0 rc = push_bit 7 rc OR ucast (mem ! 0 AND 0x7f)"
| "varint_back mem (Suc i) rc =
     varint_back mem i (push_bit 7 rc OR ucast (mem ! Suc i AND 0x7f))"

section \<open>The functions on memory\<close>

definition fstGetVarint32 :: "bytes \<Rightarrow> (u32 \<times> nat) outcome" where
  "fstGetVarint32 mem =
     andthen (varint_scan mem) (\<lambda>i. Inr (varint_back mem i 0, i + 1))"

definition fstGetVarint32Length :: "bytes \<Rightarrow> nat outcome" where
  "fstGetVarint32Length mem = andthen (varint_scan mem) (\<lambda>i. Inr (i + 1))"

definition fstGetVarint32NoSkip :: "bytes \<Rightarrow> u32 outcome" where
  "fstGetVarint32NoSkip mem =
     andthen (varint_scan mem) (\<lambda>i. Inr (varint_back mem i 0))"

definition fstGetVarint64 :: "bytes \<Rightarrow> (u64 \<times> nat) outcome" where
  "fstGetVarint64 mem =
     andthen (varint_scan mem) (\<lambda>i. Inr (varint_back mem i 0, i + 1))"

text \<open>
  \<open>fstCopyVarint32ToLeft\<close> counts the bytes first and then writes them before \<open>pnt\<close>: the
  bytes from \<open>pnt\<close> on are the argument \<open>right\<close>, and the result is the memory from the
  returned pointer on.
\<close>

function varint_count :: "u32 \<Rightarrow> nat \<Rightarrow> nat" where
  "varint_count nxt cnt =
     (let nxt' = drop_bit 7 nxt in if nxt' \<noteq> 0 then varint_count nxt' (cnt + 1) else cnt)"
  by pat_completeness auto
termination
  by (relation "measure (\<lambda>(nxt, cnt). unat nxt)") (auto intro: drop_bit_7_less)

declare varint_count.simps [simp del]

primrec varint_fill :: "nat \<Rightarrow> u32 \<Rightarrow> bytes" where
  "varint_fill 0 v = [ucast v]"
| "varint_fill (Suc cnt) v = (ucast v OR 0x80) # varint_fill cnt (drop_bit 7 v)"

definition fstCopyVarint32ToLeft :: "bytes \<Rightarrow> u32 \<Rightarrow> bytes" where
  "fstCopyVarint32ToLeft right v = (let cnt = varint_count v 1 in varint_fill (cnt - 1) v @ right)"

text \<open>\<open>fstCopyVarint64ToRight\<close> appends to the bytes before \<open>pnt\<close>.\<close>

definition fstCopyVarint64ToRight :: "bytes \<Rightarrow> u64 \<Rightarrow> bytes" where
  "fstCopyVarint64ToRight left v = left @ varint v"

section \<open>The functions on streams\<close>

text \<open>
  The loop \<open>do { ch = fgetc(f); *(mem++) = ch; } while((ch & 0x80) && (--chk_len))\<close> and the
  check behind it. At the end of the file \<open>fgetc\<close> returns -1, whose bit 7 is set.
\<close>

fun varint_read :: "nat \<Rightarrow> cfile \<Rightarrow> (bytes \<times> cfile) outcome" where
  "varint_read 0 f = Inl (Report_abort ''TALOS-2023-1783'')"
| "varint_read (Suc chk_len) f =
     (let (c, f1) = fgetc f; b = word_of_int c
      in if c AND 0x80 \<noteq> 0
         then andthen (varint_read chk_len f1) (\<lambda>(bs, f2). Inr (b # bs, f2))
         else Inr ([b], f1))"

definition fstReaderVarint32 :: "cfile \<Rightarrow> (u32 \<times> cfile) outcome" where
  "fstReaderVarint32 f =
     andthen (varint_read 5 f) (\<lambda>(buf, f'). Inr (varint_back buf (length buf - 1) 0, f'))"

definition fstReaderVarint32WithSkip :: "cfile \<Rightarrow> (u32 \<times> nat \<times> cfile) outcome" where
  "fstReaderVarint32WithSkip f =
     andthen (varint_read 5 f)
       (\<lambda>(buf, f'). Inr (varint_back buf (length buf - 1) 0, length buf, f'))"

definition fstReaderVarint64 :: "cfile \<Rightarrow> (u64 \<times> cfile) outcome" where
  "fstReaderVarint64 f =
     andthen (varint_read 16 f) (\<lambda>(buf, f'). Inr (varint_back buf (length buf - 1) 0, f'))"

text \<open>\<open>fstWriterVarint\<close> fills a local array of ten bytes and returns the number written.\<close>

definition fstWriterVarint :: "u64 \<Rightarrow> cfile \<Rightarrow> (nat \<times> cfile) outcome" where
  "fstWriterVarint v handle =
     (let buf = varint v; len = length buf
      in if len \<le> 10 then Inr (len, fstFwrite buf handle) else Inl Out_of_bounds)"

section \<open>Signed varints\<close>

text \<open>
  The arithmetic shift \<open>v >>= 7\<close> of an \<open>int64_t\<close> is \<open>signed_drop_bit 7\<close>.
\<close>

definition svarint_done :: "u64 \<Rightarrow> u8 \<Rightarrow> bool" where
  "svarint_done v byt \<longleftrightarrow> (v = 0 \<and> byt AND 0x40 = 0) \<or> (v = -1 \<and> byt AND 0x40 \<noteq> 0)"

lemma bit_byte_0x40: "(b :: u8) AND 0x40 \<noteq> 0 \<longleftrightarrow> bit b 6"
  using bit_iff_and_push_bit_not_eq_0 [of b 6] by simp

text \<open>The masks of the byte loops, bit by bit.\<close>

lemma bit_0x80 [simp]: "bit (0x80 :: u8) n \<longleftrightarrow> n = 7"
  using bit_exp_iff [of 7 n, where 'a = u8] by (auto simp: possible_bit_word)

lemma bit_0x7f [simp]: "bit (0x7f :: u8) n \<longleftrightarrow> n < 7"
  using bit_mask_iff [of 7 n, where 'a = u8] by (auto simp: mask_eq_exp_minus_1 possible_bit_word)

declare bit_numeral_word_iff [simp del]

lemma svarint_done_iff:
  "svarint_done (signed_drop_bit 7 v) (ucast v OR 0x80)
     \<longleftrightarrow> (\<forall>i. 7 \<le> i \<and> i < 64 \<longrightarrow> bit v i = bit v 6)"
proof -
  have 0: "signed_drop_bit 7 v = 0 \<longleftrightarrow> (\<forall>i. 7 \<le> i \<and> i < 64 \<longrightarrow> \<not> bit v i)"
  proof
    assume eq: "signed_drop_bit 7 v = 0"
    show "\<forall>i. 7 \<le> i \<and> i < 64 \<longrightarrow> \<not> bit v i"
    proof (intro allI impI)
      fix i :: nat
      assume "7 \<le> i \<and> i < 64"
      moreover have "\<not> bit (signed_drop_bit 7 v) (i - 7)" by (simp add: eq)
      ultimately show "\<not> bit v i" by (auto simp: bit_signed_drop_bit_iff split: if_splits)
    qed
  next
    assume "\<forall>i. 7 \<le> i \<and> i < 64 \<longrightarrow> \<not> bit v i"
    then show "signed_drop_bit 7 v = 0"
      by (intro bit_word_eqI) (auto simp: bit_signed_drop_bit_iff)
  qed
  have 1: "signed_drop_bit 7 v = -1 \<longleftrightarrow> (\<forall>i. 7 \<le> i \<and> i < 64 \<longrightarrow> bit v i)"
  proof
    assume eq: "signed_drop_bit 7 v = -1"
    show "\<forall>i. 7 \<le> i \<and> i < 64 \<longrightarrow> bit v i"
    proof (intro allI impI)
      fix i :: nat
      assume "7 \<le> i \<and> i < 64"
      moreover from this have "bit (signed_drop_bit 7 v) (i - 7)" by (simp add: eq less_imp_diff_less)
      ultimately show "bit v i" by (auto simp: bit_signed_drop_bit_iff split: if_splits)
    qed
  next
    assume "\<forall>i. 7 \<le> i \<and> i < 64 \<longrightarrow> bit v i"
    then show "signed_drop_bit 7 v = -1"
      by (intro bit_word_eqI) (auto simp: bit_signed_drop_bit_iff)
  qed
  have b: "(ucast v OR 0x80 :: u8) AND 0x40 \<noteq> 0 \<longleftrightarrow> bit v 6"
    by (simp only: bit_byte_0x40) (simp add: bit_simps bit_0x80)
  show ?thesis
    using b by (auto simp: svarint_done_def 0 1)
qed

function svarint :: "u64 \<Rightarrow> bytes" where
  "svarint v =
     (let byt = ucast v OR 0x80; v' = signed_drop_bit 7 v
      in if svarint_done v' byt then [byt AND 0x7f] else byt # svarint v')"
  by pat_completeness auto
termination
proof (relation "measure (\<lambda>v. nat (if 0 \<le> sint v then sint v else -1 - sint v))", simp, clarify)
  fix v :: u64
  assume nd: "\<not> svarint_done (signed_drop_bit 7 v) (ucast v OR 0x80)"
  have "v \<noteq> 0" using nd by (auto simp: svarint_done_iff)
  moreover have "v \<noteq> -1" using nd by (auto simp: svarint_done_iff)
  ultimately have "sint v \<noteq> 0" "sint v \<noteq> -1"
    by (metis sint_0 signed_word_eqI, metis sint_n1 signed_word_eqI)
  moreover have "sint (signed_drop_bit 7 v) = sint v div 128"
    by (subst sint_signed_drop_bit_eq) (simp add: drop_bit_eq_div)
  ultimately show "(signed_drop_bit 7 v, v)
      \<in> measure (\<lambda>v. nat (if 0 \<le> sint v then sint v else -1 - sint v))"
    by (auto simp: nat_less_iff) (presburger+)?
qed

declare svarint.simps [simp del]

text \<open>\<open>fstWriterSVarint\<close> fills a local array of fifteen bytes.\<close>

definition fstWriterSVarint :: "u64 \<Rightarrow> cfile \<Rightarrow> (nat \<times> cfile) outcome" where
  "fstWriterSVarint v handle =
     (let buf = svarint v; len = length buf
      in if len \<le> 15 then Inr (len, fstFwrite buf handle) else Inl Out_of_bounds)"

text \<open>
  The loop of \<open>fstGetSVarint64\<close>; its result is \<open>rc\<close>, \<open>shift\<close>, the last byte and the
  number of bytes read. A shift by 64 or more has no meaning in C.
\<close>

fun svarint_loop :: "bytes \<Rightarrow> nat \<Rightarrow> u64 \<Rightarrow> (u64 \<times> nat \<times> u8 \<times> nat) outcome" where
  "svarint_loop [] shift rc = Inl Out_of_bounds"
| "svarint_loop (byt # mem) shift rc =
     (if 64 \<le> shift then Inl Bad_shift
      else let rc' = rc OR push_bit shift (ucast (byt AND 0x7f)); shift' = shift + 7
           in if byt AND 0x80 \<noteq> 0
              then andthen (svarint_loop mem shift' rc') (\<lambda>(r, sh, b, n). Inr (r, sh, b, Suc n))
              else Inr (rc', shift', byt, 1))"

definition fstGetSVarint64 :: "bytes \<Rightarrow> (u64 \<times> nat) outcome" where
  "fstGetSVarint64 mem =
     andthen (svarint_loop mem 0 0)
       (\<lambda>(rc, shift, byt, skiplen).
          Inr (if shift < 64 \<and> byt AND 0x40 \<noteq> 0 then rc OR - push_bit shift 1 else rc, skiplen))"

section \<open>What the loops compute\<close>

text \<open>The number a list of varint bytes stands for: seven bits per byte, the low ones first.\<close>

primrec varint_val :: "bytes \<Rightarrow> nat" where
  "varint_val [] = 0"
| "varint_val (b # bs) = unat b mod 128 + 128 * varint_val bs"

lemma varint_val_append:
  "varint_val (xs @ ys) = varint_val xs + 128 ^ length xs * varint_val ys"
  by (induction xs) (simp_all add: algebra_simps)

lemma push_or_low7:
  fixes rc :: "'a::len word"
  assumes "7 \<le> LENGTH('a)"
  shows "push_bit 7 rc OR ucast (b AND 0x7f :: u8) = rc * 128 + of_nat (unat b mod 128)"
proof -
  have "b AND 0x7f = take_bit 7 b"
    by (simp add: take_bit_eq_mask mask_eq_exp_minus_1)
  then have "push_bit 7 rc OR ucast (b AND 0x7f) = push_bit 7 rc + (ucast (b AND 0x7f) :: 'a word)"
    by (subst disjunctive_add) (auto simp: bit_simps)
  moreover have "push_bit 7 rc = rc * 128"
    by (simp add: push_bit_eq_mult)
  moreover have "(ucast (b AND 0x7f) :: 'a word) = of_nat (unat (b AND 0x7f))"
    by simp
  ultimately show ?thesis by (simp only: byte_low7)
qed

lemma varint_back_eq:
  fixes rc :: "'a::len word"
  assumes "7 \<le> LENGTH('a)" and "i < length mem"
  shows "varint_back mem i rc = rc * 128 ^ Suc i + of_nat (varint_val (take (Suc i) mem))"
  using assms(2)
proof (induction i arbitrary: rc)
  case 0
  then have "take (Suc 0) mem = [mem ! 0]" by (cases mem) auto
  then show ?case by (simp add: push_or_low7 [OF assms(1)])
next
  case (Suc i)
  let ?m = "of_nat (unat (mem ! Suc i) mod 128) :: 'a word"
  have "varint_back mem (Suc i) rc = varint_back mem i (rc * 128 + ?m)"
    by (simp add: push_or_low7 [OF assms(1)])
  also have "\<dots> = (rc * 128 + ?m) * 128 ^ Suc i + of_nat (varint_val (take (Suc i) mem))"
    using Suc by simp
  also have "\<dots> = rc * 128 ^ Suc (Suc i) + of_nat (varint_val (take (Suc (Suc i)) mem))"
    using Suc.prems
    by (simp add: take_Suc_conv_app_nth [of "Suc i"] varint_val_append algebra_simps)
  finally show ?case .
qed

lemma varint_back_0:
  assumes "7 \<le> LENGTH('a)" and "i < length mem"
  shows "(varint_back mem i 0 :: 'a::len word) = of_nat (varint_val (take (Suc i) mem))"
  using varint_back_eq [OF assms, of 0] by simp

text \<open>The bytes of a varint: all but the last have bit 7 set, and they stand for the value.\<close>

lemma low7_or_high:
  fixes v :: "'a::len word"
  assumes "8 \<le> LENGTH('a)"
  shows "unat (ucast v OR 0x80 :: u8) mod 128 = unat v mod 128"
    and "(ucast v OR 0x80 :: u8) AND 0x80 \<noteq> 0"
proof -
  have "(ucast v OR 0x80 :: u8) AND 0x7f = take_bit 7 (ucast v)"
    by (rule bit_word_eqI)
      (auto simp: bit_simps take_bit_eq_mask mask_eq_exp_minus_1 less_Suc_eq numeral_eq_Suc)
  then have "unat ((ucast v OR 0x80 :: u8) AND 0x7f) = unat (take_bit 7 (ucast v :: u8))"
    by simp
  also have "\<dots> = take_bit 7 (unat (ucast v :: u8))"
    by (simp only: unsigned_take_bit_eq)
  also have "unat (ucast v :: u8) = unat v mod 256"
    by (simp add: unsigned_ucast_eq take_bit_eq_mod)
  also have "take_bit 7 (unat v mod 256) = unat v mod 128"
    by (simp add: take_bit_eq_mod mod_mod_cancel)
  finally show "unat (ucast v OR 0x80 :: u8) mod 128 = unat v mod 128"
    by (simp only: byte_low7)
  have "bit ((ucast v OR 0x80 :: u8) AND 0x80) 7"
    by (simp add: bit_simps)
  then show "(ucast v OR 0x80 :: u8) AND 0x80 \<noteq> 0" by auto
qed

lemma varint_induct [case_names step]:
  assumes "\<And>v :: 'a::len word. (128 \<le> unat v \<Longrightarrow> P (drop_bit 7 v)) \<Longrightarrow> P v"
  shows "P v"
proof (induction v rule: varint.induct)
  case (1 v)
  show ?case
    by (rule assms) (use 1 in \<open>simp add: drop_bit_7_eq_0_iff not_less\<close>)
qed

lemma varint_unfold:
  "varint v = (if unat v < 128 then [ucast v] else (ucast v OR 0x80) # varint (drop_bit 7 v))"
  by (simp add: varint.simps [of v] Let_def drop_bit_7_eq_0_iff)

lemma varint_not_Nil [simp]: "varint v \<noteq> []"
  by (simp add: varint_unfold [of v])

lemma ucast_small:
  fixes v :: "'a::len word"
  assumes "unat v < 128"
  shows "unat (ucast v :: u8) = unat v" and "(ucast v :: u8) AND 0x80 = 0"
proof -
  show *: "unat (ucast v :: u8) = unat v"
    using assms by (simp add: unsigned_ucast_eq take_bit_eq_mod)
  show "(ucast v :: u8) AND 0x80 = 0"
    using byte_high_bit_iff [of "ucast v"] * assms by auto
qed

lemma varint_val_varint:
  fixes v :: "'a::len word"
  assumes "8 \<le> LENGTH('a)"
  shows "varint_val (varint v) = unat v"
proof (induction v rule: varint_induct)
  case (step v)
  show ?case
  proof (cases "unat v < 128")
    case True
    then show ?thesis by (simp add: varint_unfold [of v] ucast_small)
  next
    case False
    then have "varint_val (varint (drop_bit 7 v)) = unat v div 128"
      using step by (simp add: unat_drop_bit_7)
    with False show ?thesis
      by (simp add: varint_unfold [of v] low7_or_high [OF assms])
  qed
qed

lemma varint_scan_varint:
  fixes v :: "'a::len word"
  assumes "8 \<le> LENGTH('a)"
  shows "varint_scan (varint v @ rest) = Inr (length (varint v) - 1)"
proof (induction v rule: varint_induct)
  case (step v)
  show ?case
  proof (cases "unat v < 128")
    case True
    then show ?thesis by (simp add: varint_unfold [of v] ucast_small)
  next
    case False
    then have "varint_scan (varint (drop_bit 7 v) @ rest) = Inr (length (varint (drop_bit 7 v)) - 1)"
      using step by simp
    with False show ?thesis
      by (simp add: varint_unfold [of v] low7_or_high [OF assms] Suc_diff_Suc)
  qed
qed

lemma length_varint_le:
  fixes v :: "'a::len word"
  assumes "unat v < 128 ^ n" and "0 < n"
  shows "length (varint v) \<le> n"
  using assms
proof (induction n arbitrary: v)
  case 0
  then show ?case by simp
next
  case (Suc n)
  show ?case
  proof (cases "unat v < 128")
    case True
    then show ?thesis by (simp add: varint_unfold [of v])
  next
    case False
    then have "0 < n" using Suc.prems by (cases n) auto
    moreover have "unat (drop_bit 7 v) < 128 ^ n"
      using Suc.prems by (simp add: unat_drop_bit_7 less_mult_imp_div_less mult.commute)
    ultimately have "length (varint (drop_bit 7 v)) \<le> n"
      using Suc.IH by blast
    with False show ?thesis by (simp add: varint_unfold [of v])
  qed
qed

lemma length_varint_32: "length (varint (v :: u32)) \<le> 5"
  by (rule length_varint_le) (use unat_u32 [of v] in simp_all)

lemma length_varint_64: "length (varint (v :: u64)) \<le> 10"
  by (rule length_varint_le) (use unat_u64 [of v] in simp_all)

text \<open>
  Reading a varint at any width: the low bits of the value, and the right number of bytes.
\<close>

lemma varint_back_varint:
  fixes v :: "'a::len word"
  assumes "8 \<le> LENGTH('a)" and "7 \<le> LENGTH('b)"
  shows "(varint_back (varint v @ rest) (length (varint v) - 1) 0 :: 'b::len word) = ucast v"
proof -
  have len: "Suc (length (varint v) - 1) = length (varint v)"
    by (simp add: Suc_diff_Suc)
  then have "length (varint v) - 1 < length (varint v @ rest)"
    by (simp only: length_append Suc_le_eq [symmetric])
  from varint_back_0 [OF assms(2) this]
  have "(varint_back (varint v @ rest) (length (varint v) - 1) 0 :: 'b word)
    = of_nat (varint_val (varint v))"
    by (simp only: len) simp
  then show ?thesis
    by (simp add: varint_val_varint [OF assms(1)])
qed

lemma fstGetVarint32_varint:
  fixes v :: "'a::len word"
  assumes "8 \<le> LENGTH('a)"
  shows "fstGetVarint32 (varint v @ rest) = Inr (ucast v, length (varint v))"
  using varint_back_varint [OF assms, where 'b = 32, of v rest]
  by (simp add: fstGetVarint32_def varint_scan_varint assms)

lemma fstGetVarint64_varint:
  fixes v :: "'a::len word"
  assumes "8 \<le> LENGTH('a)"
  shows "fstGetVarint64 (varint v @ rest) = Inr (ucast v, length (varint v))"
  using varint_back_varint [OF assms, where 'b = 64, of v rest]
  by (simp add: fstGetVarint64_def varint_scan_varint assms)

section \<open>Reading from a stream\<close>

lemma fgetc_next:
  "drop (f_pos f) (f_data f) = b # rest \<Longrightarrow> fgetc f = (uint b, f\<lparr>f_pos := Suc (f_pos f)\<rparr>)"
  by (auto simp: fgetc_def nth_via_drop dest: arg_cong [of _ _ length] split: if_splits)

lemma drop_Suc_pos:
  "drop n xs = b # rest \<Longrightarrow> drop (Suc n) xs = rest"
  by (metis drop_Suc list.sel(3) tl_drop)

lemma uint_high_bit: "uint (b :: u8) AND 0x80 \<noteq> 0 \<longleftrightarrow> b AND 0x80 \<noteq> 0"
proof -
  have "uint (b AND 0x80) = uint b AND 0x80" by (simp add: uint_and)
  then show ?thesis by (metis uint_0_iff)
qed

lemma varint_read_varint:
  fixes v :: "'a::len word"
  assumes "8 \<le> LENGTH('a)"
    and "drop (f_pos f) (f_data f) = varint v @ rest" and "length (varint v) \<le> n"
  shows "varint_read n f = Inr (varint v, f\<lparr>f_pos := f_pos f + length (varint v)\<rparr>)"
  using assms(2,3)
proof (induction v arbitrary: f n rule: varint_induct)
  case (step v)
  obtain m where n: "n = Suc m" using step.prems(2) varint_not_Nil [of v] by (cases n) auto
  show ?case
  proof (cases "unat v < 128")
    case True
    then have "drop (f_pos f) (f_data f) = ucast v # rest"
      using step.prems(1) by (simp add: varint_unfold [of v])
    with True show ?thesis
      by (simp add: n fgetc_next varint_unfold [of v] uint_high_bit ucast_small)
  next
    case False
    then have d: "drop (f_pos f) (f_data f) = (ucast v OR 0x80) # varint (drop_bit 7 v) @ rest"
      using step.prems(1) by (simp add: varint_unfold [of v])
    have "varint_read m (f\<lparr>f_pos := Suc (f_pos f)\<rparr>)
      = Inr (varint (drop_bit 7 v), f\<lparr>f_pos := Suc (f_pos f) + length (varint (drop_bit 7 v))\<rparr>)"
      using False step.prems(2) step.IH [of "f\<lparr>f_pos := Suc (f_pos f)\<rparr>" m] drop_Suc_pos [OF d]
      by (simp add: n varint_unfold [of v])
    with False show ?thesis
      by (simp add: n fgetc_next [OF d] varint_unfold [of v] uint_high_bit low7_or_high [OF assms(1)])
  qed
qed

lemma fstReaderVarint64_varint:
  fixes v :: u64
  assumes "drop (f_pos f) (f_data f) = varint v @ rest"
  shows "fstReaderVarint64 f = Inr (v, f\<lparr>f_pos := f_pos f + length (varint v)\<rparr>)"
proof -
  have "length (varint v) \<le> 16" using length_varint_64 [of v] by simp
  then have "varint_read 16 f = Inr (varint v, f\<lparr>f_pos := f_pos f + length (varint v)\<rparr>)"
    using assms by (intro varint_read_varint) auto
  then show ?thesis
    using varint_back_varint [of v "[]", where 'b = 64] by (simp add: fstReaderVarint64_def)
qed

lemma fstReaderVarint32_varint:
  fixes v :: u32
  assumes "drop (f_pos f) (f_data f) = varint v @ rest"
  shows "fstReaderVarint32 f = Inr (v, f\<lparr>f_pos := f_pos f + length (varint v)\<rparr>)"
    and "fstReaderVarint32WithSkip f
      = Inr (v, length (varint v), f\<lparr>f_pos := f_pos f + length (varint v)\<rparr>)"
proof -
  have "varint_read 5 f = Inr (varint v, f\<lparr>f_pos := f_pos f + length (varint v)\<rparr>)"
    using assms length_varint_32 [of v] by (intro varint_read_varint) auto
  then show "fstReaderVarint32 f = Inr (v, f\<lparr>f_pos := f_pos f + length (varint v)\<rparr>)"
    and "fstReaderVarint32WithSkip f
      = Inr (v, length (varint v), f\<lparr>f_pos := f_pos f + length (varint v)\<rparr>)"
    using varint_back_varint [of v "[]", where 'b = 32]
    by (simp_all add: fstReaderVarint32_def fstReaderVarint32WithSkip_def)
qed

text \<open>The bytes depend on the number only, not on the width of the C type.\<close>

lemma varint_cong_unat:
  fixes v :: "'a::len word" and w :: "'b::len word"
  assumes "unat v = unat w"
  shows "varint v = varint w"
  using assms
proof (induction v arbitrary: w rule: varint_induct)
  case (step v)
  have "(ucast v :: u8) = ucast w"
    using step.prems by (metis of_nat_unat)
  moreover have "unat (drop_bit 7 v) = unat (drop_bit 7 w)"
    using step.prems by (simp add: unat_drop_bit_7)
  ultimately show ?case
    using step by (simp add: varint_unfold [of v] varint_unfold [of w])
qed

lemma varint_ucast_32_64: "varint (ucast (v :: u32) :: u64) = varint v"
proof (rule varint_cong_unat)
  show "unat (ucast v :: u64) = unat v"
    using unat_u32 [of v] by (simp add: unsigned_ucast_eq take_bit_nat_eq_self_iff)
qed

text \<open>\<open>fstCopyVarint32ToLeft\<close> builds the same bytes, in front of what is there.\<close>

lemma varint_count_eq: "varint_count v c = c + length (varint v) - 1"
proof (induction v arbitrary: c rule: varint_induct)
  case (step v)
  then show ?case
    by (auto simp: varint_count.simps [of v] varint_unfold [of v] Let_def drop_bit_7_eq_0_iff not_less Suc_diff_Suc)
qed

lemma varint_fill_eq: "varint_fill (length (varint v) - 1) v = varint v"
proof (induction v rule: varint_induct)
  case (step v)
  show ?case
  proof (cases "unat v < 128")
    case True
    then show ?thesis by (simp add: varint_unfold [of v])
  next
    case False
    obtain k where k: "length (varint (drop_bit 7 v)) = Suc k"
      using varint_not_Nil [of "drop_bit 7 v"] by (cases "varint (drop_bit 7 v)") auto
    with False step show ?thesis by (simp add: varint_unfold [of v])
  qed
qed

lemma fstCopyVarint32ToLeft_eq: "fstCopyVarint32ToLeft right v = varint v @ right"
  using varint_fill_eq [of v] by (simp add: fstCopyVarint32ToLeft_def varint_count_eq)

section \<open>Signed varints: the reader inverts the writer\<close>

lemma svarint_loop_svarint:
  assumes "s < 64" and "\<forall>i < 64. 63 - s \<le> i \<longrightarrow> bit v i = bit v 63"
  shows "\<exists>rc' sh byt. svarint_loop (svarint v @ rest) s rc = Inr (rc', sh, byt, length (svarint v))
    \<and> (if sh < 64 \<and> byt AND 0x40 \<noteq> 0 then rc' OR - push_bit sh 1 else rc') = rc OR push_bit s v"
  using assms
proof (induction v arbitrary: s rc rule: svarint.induct)
  case (1 v)
  let ?byt = "ucast v OR 0x80 :: u8" and ?v' = "signed_drop_bit 7 v"
  show ?case
  proof (cases "svarint_done ?v' ?byt")
    case True
    then have sign: "\<And>i. 7 \<le> i \<Longrightarrow> i < 64 \<Longrightarrow> bit v i = bit v 6"
      by (simp add: svarint_done_iff)
    let ?b = "?byt AND 0x7f"
    have "\<not> bit (?b AND 0x80) n" for n by (auto simp: bit_and_iff bit_or_iff bit_0x80 bit_0x7f)
    then have h: "?b AND 0x80 = 0" by (metis bit_eqI bit_0_eq bot_apply bot_bool_def)
    have b6: "?b AND 0x40 \<noteq> 0 \<longleftrightarrow> bit v 6"
      by (simp only: bit_byte_0x40) (simp add: bit_simps bit_0x80 bit_0x7f)
    have m: "- push_bit sh (1 :: u64) = NOT (mask sh)" for sh
      by (simp add: minus_exp_eq_not_mask push_bit_eq_mult)
    have eq: "(if s + 7 < 64 \<and> ?b AND 0x40 \<noteq> 0 then (rc OR push_bit s (ucast (?b AND 0x7f))) OR - push_bit (s + 7) 1
        else rc OR push_bit s (ucast (?b AND 0x7f))) = rc OR push_bit s v"
      unfolding m b6
    proof (rule bit_word_eqI)
      fix i
      assume i: "i < LENGTH(64)"
      show "bit (if s + 7 < 64 \<and> bit v 6 then (rc OR push_bit s (ucast (?b AND 0x7f))) OR NOT (mask (s + 7))
          else rc OR push_bit s (ucast (?b AND 0x7f))) i = bit (rc OR push_bit s v) i"
        using i sign [of "i - s"]
        by (cases "i < s + 7") (auto simp: bit_simps bit_0x7f bit_0x80)
    qed
    have loop: "svarint_loop (svarint v @ rest) s rc
      = Inr (rc OR push_bit s (ucast (?b AND 0x7f)), s + 7, ?b, length (svarint v))"
      using True h "1.prems"(1) by (simp add: svarint.simps [of v] Let_def)
    show ?thesis by (intro exI conjI, rule loop, rule eq)
  next
    case False
    then obtain j where j: "7 \<le> j" "j < 64" "bit v j \<noteq> bit v 6"
      by (auto simp: svarint_done_iff)
    have s7: "s + 7 < 64"
    proof (rule ccontr)
      assume "\<not> s + 7 < 64"
      then have "63 - s \<le> 6" by simp
      then show False
        using j "1.prems"(2)[rule_format, of j] "1.prems"(2)[rule_format, of 6] by simp
    qed
    have "\<forall>i < 64. 63 - (s + 7) \<le> i \<longrightarrow> bit ?v' i = bit ?v' 63"
    proof (intro allI impI)
      fix i :: nat
      assume i: "i < 64" "63 - (s + 7) \<le> i"
      have "bit ?v' i = bit v 63"
      proof (cases "57 \<le> i")
        case True
        with i show ?thesis by (simp add: bit_signed_drop_bit_iff)
      next
        case False
        then have "bit ?v' i = bit v (7 + i)" by (simp add: bit_signed_drop_bit_iff)
        also have "\<dots> = bit v 63"
          using "1.prems"(2) [rule_format, of "7 + i"] False i by simp
        finally show ?thesis .
      qed
      then show "bit ?v' i = bit ?v' 63" by (simp add: bit_signed_drop_bit_iff)
    qed
    from "1.IH" [OF refl refl False s7 this, of "rc OR push_bit s (ucast (?byt AND 0x7f))"]
    obtain rc' sh byt where IH:
      "svarint_loop (svarint ?v' @ rest) (s + 7) (rc OR push_bit s (ucast (?byt AND 0x7f)))
        = Inr (rc', sh, byt, length (svarint ?v'))"
      "(if sh < 64 \<and> byt AND 0x40 \<noteq> 0 then rc' OR - push_bit sh 1 else rc')
        = (rc OR push_bit s (ucast (?byt AND 0x7f))) OR push_bit (s + 7) ?v'" by blast
    have "(rc OR push_bit s (ucast (?byt AND 0x7f))) OR push_bit (s + 7) ?v' = rc OR push_bit s v"
    proof (rule bit_word_eqI)
      fix n
      assume n: "n < LENGTH(64)"
      show "bit ((rc OR push_bit s (ucast (?byt AND 0x7f))) OR push_bit (s + 7) ?v') n
        = bit (rc OR push_bit s v) n"
      proof (cases "s + 7 \<le> n")
        case True
        then have "7 + (n - (s + 7)) = n - s" by simp
        with True n show ?thesis by (auto simp: bit_simps bit_signed_drop_bit_iff)
      next
        case False
        with n show ?thesis by (auto simp: bit_simps)
      qed
    qed
    moreover have "?byt AND 0x80 \<noteq> 0"
      by (rule low7_or_high) simp
    ultimately show ?thesis
      using False "1.prems"(1) IH by (simp add: svarint.simps [of v] Let_def)
  qed
qed

lemma svarint_loop_start:
  "\<exists>rc' sh byt. svarint_loop (svarint v @ rest) 0 0 = Inr (rc', sh, byt, length (svarint v))
    \<and> (if sh < 64 \<and> byt AND 0x40 \<noteq> 0 then rc' OR - push_bit sh 1 else rc') = v"
proof -
  have "\<forall>i < 64. 63 - 0 \<le> i \<longrightarrow> bit v i = bit v 63"
  proof (intro allI impI)
    fix i :: nat
    assume "i < 64" "63 - 0 \<le> i"
    then have "i = 63" by simp
    then show "bit v i = bit v 63" by simp
  qed
  from svarint_loop_svarint [OF _ this, of rest 0] show ?thesis by simp
qed

lemma fstGetSVarint64_svarint:
  "fstGetSVarint64 (svarint v @ rest) = Inr (v, length (svarint v))"
  using svarint_loop_start [of v rest] by (auto simp: fstGetSVarint64_def)

text \<open>Every shift the reader does is below the width, so at most ten bytes are read.\<close>

lemma svarint_loop_shift:
  "svarint_loop mem shift rc = Inr (r, sh, b, n)
    \<Longrightarrow> 0 < n \<and> sh = shift + 7 * n \<and> sh < 71 \<and> n \<le> length mem"
proof (induction mem shift rc arbitrary: r sh b n rule: svarint_loop.induct)
  case (1 shift rc)
  then show ?case by simp
next
  case (2 byt mem shift rc)
  show ?case
  proof (cases "byt AND 0x80 \<noteq> 0")
    case True
    with "2.prems" obtain m where m:
      "svarint_loop mem (shift + 7) (rc OR push_bit shift (ucast (byt AND 0x7f))) = Inr (r, sh, b, m)"
      "n = Suc m" "\<not> 64 \<le> shift"
      by (auto simp: Let_def andthen_eq_Inr split: if_splits)
    from "2.IH" [OF m(3) refl refl True m(1)] m show ?thesis by simp
  next
    case False
    with "2.prems" show ?thesis by (auto simp: Let_def split: if_splits)
  qed
qed

lemma length_svarint: "length (svarint v) \<le> 10"
proof -
  obtain rc' sh byt where "svarint_loop (svarint v @ []) 0 0 = Inr (rc', sh, byt, length (svarint v))"
    using svarint_loop_start [of v "[]"] by blast
  then have "7 * length (svarint v) < 71"
    using svarint_loop_shift by fastforce
  then show ?thesis by simp
qed

section \<open>The codec contract\<close>

text \<open>
  The loops over several encoded numbers, \<open>for(i=0;i<n;i++) { val = get(pnt, &skiplen);
  pnt += skiplen; ... }\<close>, at any decoder.
\<close>

fun dec_seq :: "(bytes \<Rightarrow> ('a \<times> nat) outcome) \<Rightarrow> nat \<Rightarrow> bytes \<Rightarrow> 'a list outcome" where
  "dec_seq get 0 pnt = Inr []"
| "dec_seq get (Suc n) pnt =
     andthen (get pnt) (\<lambda>(v, skiplen).
       andthen (dec_seq get n (drop skiplen pnt)) (\<lambda>vs. Inr (v # vs)))"

locale codec =
  fixes enc :: "'a \<Rightarrow> bytes"
    and get :: "bytes \<Rightarrow> ('a \<times> nat) outcome"
  assumes get_enc: "get (enc v @ rest) = Inr (v, length (enc v))"
begin

lemma enc_prefix_free:
  assumes "enc u @ r = enc v @ s"
  shows "u = v \<and> r = s"
proof -
  have "get (enc u @ r) = get (enc v @ s)" using assms by simp
  then have "u = v" by (simp add: get_enc)
  with assms show ?thesis by simp
qed

lemma enc_inj: "enc u = enc v \<longleftrightarrow> u = v"
  using enc_prefix_free [of u "[]" v "[]"] by auto

lemma dec_seq_enc:
  "dec_seq get (length vs) (concat (map enc vs) @ rest) = Inr vs"
  by (induction vs) (simp_all add: get_enc)

end

interpretation v32: codec "varint :: u32 \<Rightarrow> bytes" fstGetVarint32
  by unfold_locales (simp add: fstGetVarint32_varint)

interpretation v64: codec "varint :: u64 \<Rightarrow> bytes" fstGetVarint64
  by unfold_locales (simp add: fstGetVarint64_varint)

interpretation s64: codec svarint fstGetSVarint64
  by unfold_locales (rule fstGetSVarint64_svarint)

text \<open>The same contract on streams: a reader that stops right behind the encoding.\<close>

locale stream_codec =
  fixes enc :: "'a \<Rightarrow> bytes"
    and get :: "cfile \<Rightarrow> ('a \<times> cfile) outcome"
  assumes get_enc: "drop (f_pos f) (f_data f) = enc v @ rest
    \<Longrightarrow> get f = Inr (v, f\<lparr>f_pos := f_pos f + length (enc v)\<rparr>)"
begin

lemma get_written:
  assumes "f' = fstFwrite (enc v) f" and "enc v \<noteq> []"
  shows "get (f'\<lparr>f_pos := f_pos f\<rparr>) = Inr (v, f')"
proof -
  have d: "drop (f_pos f) (f_data f') = enc v @ drop (f_pos f + length (enc v)) (f_data f)"
    using assms by (simp add: fstFwrite_def fwrite_bytes_def overlay_def)
  have "get (f'\<lparr>f_pos := f_pos f\<rparr>) = Inr (v, f'\<lparr>f_pos := f_pos f + length (enc v)\<rparr>)"
    using get_enc [of "f'\<lparr>f_pos := f_pos f\<rparr>"] d by simp
  then show ?thesis using assms by (simp add: fstFwrite_def fwrite_bytes_def)
qed

end

interpretation f32: stream_codec "varint :: u32 \<Rightarrow> bytes" fstReaderVarint32
  by unfold_locales (rule fstReaderVarint32_varint)

interpretation f64: stream_codec "varint :: u64 \<Rightarrow> bytes" fstReaderVarint64
  by unfold_locales (rule fstReaderVarint64_varint)

interpretation fu64: stream_codec "be_loop 8" "\<lambda>f. Inr (fstReaderUint64 junk f)" for junk
  by unfold_locales (simp add: fstReaderUint64_of_bytes)

lemma fstWriterVarint_eq:
  "fstWriterVarint v f = Inr (length (varint v), fstFwrite (varint v) f)"
  using length_varint_64 [of v] by (simp add: fstWriterVarint_def Let_def)

lemma fstWriterVarint_at_end:
  assumes "at_end f"
  shows "\<exists>f'. fstWriterVarint v f = Inr (length (varint v), f')
    \<and> f_data f' = f_data f @ varint v \<and> at_end f'"
  using assms by (simp add: fstWriterVarint_eq fstFwrite_at_end)

lemma fstWriterSVarint_eq:
  "fstWriterSVarint v f = Inr (length (svarint v), fstFwrite (svarint v) f)"
  using length_svarint [of v] by (simp add: fstWriterSVarint_def Let_def)

section \<open>Properties\<close>

text \<open>
  C21. A number written with \<open>fstWriterVarint\<close> fits the ten bytes of its buffer, and
  \<open>fstReaderVarint64\<close> started at the same place returns it and stops right behind it,
  whatever the file held there and wherever the write was.
\<close>

theorem varint_stream_roundtrip:
  "\<exists>len f'. fstWriterVarint v f = Inr (len, f') \<and> len \<le> 10
     \<and> fstReaderVarint64 (f'\<lparr>f_pos := f_pos f\<rparr>) = Inr (v, f')"
  using f64.get_written [of _ v f] length_varint_64 [of v] by (simp add: fstWriterVarint_eq)

text \<open>
  C23. The optimised \<open>fstCopyVarint32ToLeft\<close>, which computes the length first and writes in
  front of the pointer, puts down the bytes of the plain loop, and \<open>fstGetVarint32\<close>
  recovers the number and the number of bytes to skip.
\<close>

theorem copy_to_left_equiv:
  "fstCopyVarint32ToLeft right v = fstCopyVarint64ToRight [] (ucast v) @ right
   \<and> (\<exists>n \<le> 5. fstGetVarint32 (fstCopyVarint32ToLeft right v) = Inr (v, n)
        \<and> drop n (fstCopyVarint32ToLeft right v) = right)"
  using length_varint_32 [of v]
  by (simp add: fstCopyVarint64ToRight_def varint_ucast_32_64 fstCopyVarint32ToLeft_eq v32.get_enc)

text \<open>
  C24. Every 64-bit signed number survives \<open>fstWriterSVarint\<close> and \<open>fstGetSVarint64\<close>; the
  writer uses at most ten of the fifteen bytes of its buffer and the reader never shifts by 64
  or more.
\<close>

theorem svarint_roundtrip:
  "\<exists>len. fstWriterSVarint v f = Inr (len, fstFwrite (svarint v) f) \<and> len \<le> 10
     \<and> fstGetSVarint64 (svarint v @ rest) = Inr (v, len)"
  using length_svarint [of v] by (simp add: fstWriterSVarint_eq s64.get_enc)

end
