(* ===== verification/Writer_Context.thy ===== *)
theory Writer_Context
  imports Enum_Table Jenkins Varint
begin

text \<open>
  The writer's context \<open>struct fstWriterContext\<close> of \<open>fstapi.c\<close> (lines 747 to 840), its creation
  with the 330 bytes of the file header, and the operations that set header fields and options.
  The header is also given as an abstract record with its encoding, and every operation that
  patches the file in place is shown to change its field of that record and nothing else.
\<close>

section \<open>The context\<close>

text \<open>
  The two files that are mapped with \<open>MAP_SHARED\<close> are given by their contents, \<open>valpos\<close> as the
  32-bit cells the code stores in it; the flag beside each says whether the pointer to the mapping
  (\<open>valpos_mem\<close>, \<open>curval_mem\<close>) is set. \<open>vchg_mem\<close> holds the bytes used so far of a buffer of
  \<open>vchg_alloc_siz\<close> bytes. The chain of blackouts is the list from its head. Offsets in files are
  numbers.
\<close>

record fstWriterContext =
  handle :: cfile
  hier_handle :: cfile
  geom_handle :: cfile
  tchn_handle :: cfile
  valpos :: "u32 list"
  valpos_mapped :: bool
  curval :: bytes
  curval_mapped :: bool
  vchg_mem :: bytes
  vchg_siz :: u32
  vchg_alloc_siz :: u32
  outval_alloc_siz :: u32
  hier_file_len :: nat
  filename :: bytes
  maxhandle :: u32
  numsigs :: u32
  maxvalpos :: u32
  vc_emitted :: bool
  is_initial_time :: bool
  fourpack :: bool
  fastpack :: bool
  timezero :: u64
  section_header_truncpos :: nat
  tchn_cnt :: u32
  tchn_idx :: u32
  curtime :: u64
  firsttime :: u64
  secnum :: u32
  section_start :: nat
  numscopes :: u32
  nan :: bytes
  blackout_head :: "(u64 \<times> bool) list"
  num_blackouts :: u32
  dump_size_limit :: u64
  filetype :: u8
  compress_hier :: bool
  repack_on_close :: bool
  skip_writing_section_hdr :: bool
  size_limit_locked :: bool
  section_header_only :: bool
  flush_context_pending :: bool
  parallel_enabled :: bool
  parallel_was_enabled :: bool
  already_in_flush :: bool
  already_in_close :: bool
  fst_orig_break_size :: u64
  fst_orig_break_add_size :: u64
  fst_break_size :: u64
  fst_break_add_size :: u64
  fst_huge_break_size :: u64
  next_huge_break :: u32
  path_array :: "u32 jtable"
  path_array_count :: u32
  fseek_failed :: bool
  max_enumhandle :: u32

type_synonym wctx = "fstWriterContext option"

text \<open>The context \<open>calloc\<close> returns: all zeros, null pointers, closed files.\<close>

definition writer_zero :: fstWriterContext where
  "writer_zero = \<lparr>handle = new_file, hier_handle = new_file, geom_handle = new_file,
     tchn_handle = new_file, valpos = [], valpos_mapped = False, curval = [],
     curval_mapped = False, vchg_mem = [], vchg_siz = 0, vchg_alloc_siz = 0,
     outval_alloc_siz = 0, hier_file_len = 0, filename = [], maxhandle = 0, numsigs = 0,
     maxvalpos = 0, vc_emitted = False, is_initial_time = False, fourpack = False,
     fastpack = False, timezero = 0, section_header_truncpos = 0, tchn_cnt = 0, tchn_idx = 0,
     curtime = 0, firsttime = 0, secnum = 0, section_start = 0, numscopes = 0, nan = [],
     blackout_head = [], num_blackouts = 0, dump_size_limit = 0, filetype = 0,
     compress_hier = False, repack_on_close = False, skip_writing_section_hdr = False,
     size_limit_locked = False, section_header_only = False, flush_context_pending = False,
     parallel_enabled = False, parallel_was_enabled = False, already_in_flush = False,
     already_in_close = False, fst_orig_break_size = 0, fst_orig_break_add_size = 0,
     fst_break_size = 0, fst_break_add_size = 0, fst_huge_break_size = 0, next_huge_break = 0,
     path_array = None, path_array_count = 0, fseek_failed = False, max_enumhandle = 0\<rparr>"

section \<open>Constants\<close>

definition FST_BREAK_SIZE :: u64 where "FST_BREAK_SIZE = 2 ^ 27"
definition FST_BREAK_ADD_SIZE :: u64 where "FST_BREAK_ADD_SIZE = 2 ^ 22"
definition FST_BREAK_SIZE_MAX :: u64 where "FST_BREAK_SIZE_MAX = 2 ^ 31"
definition FST_ACTIVATE_HUGE_BREAK :: u32 where "FST_ACTIVATE_HUGE_BREAK = 1000000"
definition FST_ACTIVATE_HUGE_INC :: u32 where "FST_ACTIVATE_HUGE_INC = 1000000"

text \<open>Block tags, and the offsets in the header as the chain of macros computes them.\<close>

abbreviation (input) FST_BL_HDR :: u8 where "FST_BL_HDR \<equiv> 0"
abbreviation (input) FST_BL_BLACKOUT :: u8 where "FST_BL_BLACKOUT \<equiv> 2"
abbreviation (input) FST_BL_GEOM :: u8 where "FST_BL_GEOM \<equiv> 3"
abbreviation (input) FST_BL_HIER :: u8 where "FST_BL_HIER \<equiv> 4"
abbreviation (input) FST_BL_HIER_LZ4 :: u8 where "FST_BL_HIER_LZ4 \<equiv> 6"
abbreviation (input) FST_BL_HIER_LZ4DUO :: u8 where "FST_BL_HIER_LZ4DUO \<equiv> 7"
abbreviation (input) FST_BL_VCDATA_DYN_ALIAS2 :: u8 where "FST_BL_VCDATA_DYN_ALIAS2 \<equiv> 8"
abbreviation (input) FST_BL_ZWRAPPER :: u8 where "FST_BL_ZWRAPPER \<equiv> 254"
abbreviation (input) FST_BL_SKIP :: u8 where "FST_BL_SKIP \<equiv> 255"

definition FST_HDR_OFFS_START_TIME :: nat where "FST_HDR_OFFS_START_TIME = 9"
definition FST_HDR_OFFS_NUM_SCOPES :: nat where "FST_HDR_OFFS_NUM_SCOPES = 41"
definition FST_HDR_OFFS_TIMESCALE :: nat where "FST_HDR_OFFS_TIMESCALE = 73"
definition FST_HDR_OFFS_SIM_VERSION :: nat where "FST_HDR_OFFS_SIM_VERSION = 74"
definition FST_HDR_OFFS_DATE :: nat where "FST_HDR_OFFS_DATE = 202"
definition FST_HDR_OFFS_FILETYPE :: nat where "FST_HDR_OFFS_FILETYPE = 321"
definition FST_HDR_OFFS_TIMEZERO :: nat where "FST_HDR_OFFS_TIMEZERO = 322"
definition FST_HDR_LENGTH :: nat where "FST_HDR_LENGTH = 330"

lemmas hdr_offs = FST_HDR_OFFS_START_TIME_def FST_HDR_OFFS_NUM_SCOPES_def FST_HDR_OFFS_TIMESCALE_def
  FST_HDR_OFFS_SIM_VERSION_def FST_HDR_OFFS_DATE_def FST_HDR_OFFS_FILETYPE_def
  FST_HDR_OFFS_TIMEZERO_def FST_HDR_LENGTH_def

definition FST_HDR_SIM_VERSION_SIZE :: nat where "FST_HDR_SIM_VERSION_SIZE = 128"
definition FST_HDR_DATE_SIZE :: nat where "FST_HDR_DATE_SIZE = 119"

text \<open>The doubles 2.7182818284590452354 and NaN as a little-endian host stores them.\<close>

definition FST_DOUBLE_ENDTEST :: bytes where
  "FST_DOUBLE_ENDTEST = [0x69, 0x57, 0x14, 0x8B, 0x0A, 0xBF, 0x05, 0x40]"

definition double_nan :: bytes where
  "double_nan = [0, 0, 0, 0, 0, 0, 0xF8, 0x7F]"

section \<open>The header\<close>

text \<open>\<open>fstWriterFseeko\<close> on the main file.\<close>

definition fstWriterFseeko :: "int \<Rightarrow> whence \<Rightarrow> fstWriterContext \<Rightarrow> fstWriterContext" where
  "fstWriterFseeko offset w xc =
     (let (rc, h) = fseeko (handle xc) offset w
      in (if rc < 0 then xc\<lparr>handle := h, fseek_failed := True\<rparr> else xc\<lparr>handle := h\<rparr>))"

definition on_handle :: "(cfile \<Rightarrow> cfile) \<Rightarrow> fstWriterContext \<Rightarrow> fstWriterContext" where
  "on_handle g xc = xc\<lparr>handle := g (handle xc)\<rparr>"

text \<open>\<open>memset(s, 0, n); memcpy(s, str, min(len, n))\<close>.\<close>

definition zero_padded :: "nat \<Rightarrow> bytes \<Rightarrow> bytes" where
  "zero_padded n s = take n s @ replicate (n - length s) 0"

definition fstWriterEmitHdrBytes :: "bytes \<Rightarrow> fstWriterContext \<Rightarrow> fstWriterContext" where
  "fstWriterEmitHdrBytes walltime xc =
     on_handle
       (\<lambda>h. fstWriterUint64 (timezero xc)
         (fputc (filetype xc)
         (fstFwrite (zero_padded FST_HDR_DATE_SIZE walltime)
         (fstFwrite (zero_padded FST_HDR_SIM_VERSION_SIZE (c_lit ''fstWriter''))
         (fputc (-9)
         (fstWriterUint64 0
         (fstWriterUint64 0
         (fstWriterUint64 0
         (fstWriterUint64 0
         (fstWriterUint64 (fst_break_size xc)
         (fstFwrite FST_DOUBLE_ENDTEST
         (fstWriterUint64 0
         (fstWriterUint64 0
         (fstWriterUint64 329
         (fputc FST_BL_HDR h)))))))))))))))
       xc"

text \<open>
  \<open>fstDetermineBreakSize\<close>: the lines \<open>fgets\<close> reads from \<open>/proc/meminfo\<close>, if it opens.
  \<open>atol\<close> is taken on numbers a \<open>long\<close> holds.
\<close>

fun huge_break_of :: "bytes list \<Rightarrow> u64 option" where
  "huge_break_of [] = None"
| "huge_break_of (s # ls) =
     (if take 9 s = c_lit ''MemTotal:''
      then let v = of_nat (digits_val (takeWhile is_digit (dropWhile is_space (drop 10 s)))) * 1024 div 8
           in if v > FST_BREAK_SIZE
              then Some (if v > FST_BREAK_SIZE_MAX then FST_BREAK_SIZE_MAX else v)
              else huge_break_of ls
      else huge_break_of ls)"

definition fstDetermineBreakSize :: "bytes list option \<Rightarrow> fstWriterContext \<Rightarrow> fstWriterContext" where
  "fstDetermineBreakSize meminfo xc =
     (let huge = (case meminfo of None \<Rightarrow> FST_BREAK_SIZE
                  | Some ls \<Rightarrow> (case huge_break_of ls of None \<Rightarrow> FST_BREAK_SIZE | Some v \<Rightarrow> v))
      in xc\<lparr>fst_huge_break_size := huge, fst_break_size := FST_BREAK_SIZE,
           fst_orig_break_size := FST_BREAK_SIZE, fst_break_add_size := FST_BREAK_ADD_SIZE,
           fst_orig_break_add_size := FST_BREAK_ADD_SIZE, next_huge_break := FST_ACTIVATE_HUGE_BREAK\<rparr>)"

text \<open>
  \<open>fstWriterCreate\<close>. \<open>opened\<close> says whether the main file opens and \<open>rest_ok\<close> whether the five
  others do and the buffer is there. What is outside the program is an argument: \<open>walltime\<close>, the
  text of \<open>asctime\<close>, and the lines of \<open>/proc/meminfo\<close>.
\<close>

definition fstWriterCreate ::
    "bool \<Rightarrow> bool \<Rightarrow> bytes list option \<Rightarrow> bytes \<Rightarrow> bytes option \<Rightarrow> int \<Rightarrow> wctx" where
  "fstWriterCreate opened rest_ok meminfo walltime nam use_compressed_hier =
     (let xc = fstDetermineBreakSize meminfo
                 (writer_zero\<lparr>compress_hier := odd use_compressed_hier\<rparr>)
      in case nam of None \<Rightarrow> None
         | Some n \<Rightarrow>
           if \<not> opened then None
           else let xc = xc\<lparr>vchg_alloc_siz := ucast (fst_break_size xc + fst_break_add_size xc)\<rparr>
                in if rest_ok
                   then Some (fstWriterEmitHdrBytes walltime
                                (xc\<lparr>filename := n, is_initial_time := True\<rparr>)\<lparr>nan := double_nan\<rparr>)
                   else None)"

section \<open>Header fields and options\<close>

text \<open>
  The pattern of all of them: remember the position, seek to the field, write it, seek back.
\<close>

definition patch :: "nat \<Rightarrow> (cfile \<Rightarrow> cfile) \<Rightarrow> fstWriterContext \<Rightarrow> fstWriterContext" where
  "patch offset wr xc =
     (let fpos = ftello (handle xc);
          xc = fstWriterFseeko (int offset) SEEK_SET xc;
          xc = on_handle wr xc
      in fstWriterFseeko (int fpos) SEEK_SET xc)"

definition fstWriterSetDate :: "wctx \<Rightarrow> bytes \<Rightarrow> wctx" where
  "fstWriterSetDate ctx dat =
     map_option (patch FST_HDR_OFFS_DATE (fstFwrite (zero_padded FST_HDR_DATE_SIZE dat))) ctx"

definition fstWriterSetVersion :: "wctx \<Rightarrow> bytes option \<Rightarrow> wctx" where
  "fstWriterSetVersion ctx vers =
     (case vers of None \<Rightarrow> ctx
      | Some v \<Rightarrow>
        map_option (patch FST_HDR_OFFS_SIM_VERSION
          (fstFwrite (zero_padded FST_HDR_SIM_VERSION_SIZE v))) ctx)"

text \<open>\<open>FST_FT_MAX\<close> is 3.\<close>

definition fstWriterSetFileType :: "wctx \<Rightarrow> u32 \<Rightarrow> wctx" where
  "fstWriterSetFileType ctx ft =
     map_option (\<lambda>xc.
       if ft \<le> 3
       then let xc = xc\<lparr>filetype := ucast ft\<rparr> in patch FST_HDR_OFFS_FILETYPE (fputc (filetype xc)) xc
       else xc) ctx"

definition fstWriterSetTimescale :: "wctx \<Rightarrow> int \<Rightarrow> wctx" where
  "fstWriterSetTimescale ctx ts =
     map_option (patch FST_HDR_OFFS_TIMESCALE (fputc (word_of_int ts AND 255))) ctx"

text \<open>The first letter of the string that names a unit decides.\<close>

definition unit_exp :: "u8 \<Rightarrow> int option" where
  "unit_exp b =
     (if b = ascii CHR ''m'' then Some (-3) else if b = ascii CHR ''u'' then Some (-6)
      else if b = ascii CHR ''n'' then Some (-9) else if b = ascii CHR ''p'' then Some (-12)
      else if b = ascii CHR ''f'' then Some (-15) else if b = ascii CHR ''a'' then Some (-18)
      else if b = ascii CHR ''z'' then Some (-21) else if b = ascii CHR ''s'' then Some 0
      else None)"

fun seconds_exp_of :: "bytes \<Rightarrow> int" where
  "seconds_exp_of [] = -9"
| "seconds_exp_of (b # s) = (case unit_exp b of Some e \<Rightarrow> e | None \<Rightarrow> seconds_exp_of s)"

definition fstWriterSetTimescaleFromString :: "wctx \<Rightarrow> bytes option \<Rightarrow> wctx outcome" where
  "fstWriterSetTimescaleFromString ctx s_opt =
     (case s_opt of None \<Rightarrow> Inr ctx
      | Some s \<Rightarrow>
        if ctx = None then Inr ctx
        else andthen (atoi s) (\<lambda>tv.
          let e = seconds_exp_of s;
              e = (if tv = 10 then e + 1 else if tv = 100 then e + 2 else e)
          in Inr (fstWriterSetTimescale ctx e)))"

definition fstWriterSetTimezero :: "wctx \<Rightarrow> u64 \<Rightarrow> wctx" where
  "fstWriterSetTimezero ctx tim =
     map_option (\<lambda>xc. patch FST_HDR_OFFS_TIMEZERO (fstWriterUint64 tim) (xc\<lparr>timezero := tim\<rparr>)) ctx"

text \<open>\<open>FST_WR_PT_ZLIB\<close> is 0 and \<open>FST_WR_PT_LZ4\<close> is 2.\<close>

definition fstWriterSetPackType :: "wctx \<Rightarrow> u32 \<Rightarrow> wctx" where
  "fstWriterSetPackType ctx typ =
     map_option (\<lambda>xc. xc\<lparr>fastpack := typ \<noteq> 0, fourpack := typ = 2\<rparr>) ctx"

definition fstWriterSetRepackOnClose :: "wctx \<Rightarrow> int \<Rightarrow> wctx" where
  "fstWriterSetRepackOnClose ctx enable = map_option (\<lambda>xc. xc\<lparr>repack_on_close := enable \<noteq> 0\<rparr>) ctx"

text \<open>The build has no \<open>FST_WRITER_PARALLEL\<close>: asking for it ends the process.\<close>

definition fstWriterSetParallelMode :: "wctx \<Rightarrow> int \<Rightarrow> wctx outcome" where
  "fstWriterSetParallelMode ctx enable =
     xc_set ctx (\<lambda>xc.
       let xc = xc\<lparr>parallel_was_enabled := parallel_was_enabled xc \<or> parallel_enabled xc,
                   parallel_enabled := enable \<noteq> 0\<rparr>
       in if parallel_enabled xc then Inl (Exit_code 255) else Inr xc)"

definition fstWriterSetDumpSizeLimit :: "wctx \<Rightarrow> u64 \<Rightarrow> wctx" where
  "fstWriterSetDumpSizeLimit ctx numbytes = map_option (\<lambda>xc. xc\<lparr>dump_size_limit := numbytes\<rparr>) ctx"

definition fstWriterGetDumpSizeLimitReached :: "wctx \<Rightarrow> int" where
  "fstWriterGetDumpSizeLimitReached ctx = xc_get ctx (\<lambda>xc. of_bool (size_limit_locked xc)) 0"

definition fstWriterGetFseekFailed :: "wctx \<Rightarrow> int" where
  "fstWriterGetFseekFailed ctx = xc_get ctx (\<lambda>xc. of_bool (fseek_failed xc)) 0"

text \<open>The header rewrite that \<open>fstWriterCreateMmaps\<close> and \<open>fstWriterClose\<close> share.\<close>

definition update_header_counts :: "fstWriterContext \<Rightarrow> fstWriterContext" where
  "update_header_counts xc =
     (let xc = fstWriterFseeko (int FST_HDR_OFFS_START_TIME) SEEK_SET xc;
          xc = on_handle (\<lambda>h. fstWriterUint64 (curtime xc) (fstWriterUint64 (firsttime xc) h)) xc;
          xc = fstWriterFseeko (int FST_HDR_OFFS_NUM_SCOPES) SEEK_SET xc
      in on_handle (\<lambda>h.
           fstWriterUint64 (ucast (secnum xc)) (fstWriterUint64 (ucast (maxhandle xc))
             (fstWriterUint64 (ucast (numsigs xc)) (fstWriterUint64 (ucast (numscopes xc)) h)))) xc)"

text \<open>Both maps are made when they are missing and not empty; \<open>mmap\<close> is taken to succeed.\<close>

definition fstWriterCreateMmaps :: "fstWriterContext \<Rightarrow> fstWriterContext" where
  "fstWriterCreateMmaps xc =
     (let curpos = ftello (handle xc);
          xc = update_header_counts xc;
          xc = fstWriterFseeko (int curpos) SEEK_SET xc;
          xc = (if \<not> valpos_mapped xc \<and> maxhandle xc \<noteq> 0 then xc\<lparr>valpos_mapped := True\<rparr> else xc)
      in (if \<not> curval_mapped xc \<and> maxvalpos xc \<noteq> 0 then xc\<lparr>curval_mapped := True\<rparr> else xc))"

definition fstDestroyMmaps :: "fstWriterContext \<Rightarrow> fstWriterContext" where
  "fstDestroyMmaps xc = xc\<lparr>valpos_mapped := False, curval_mapped := False\<rparr>"

section \<open>The header as a record\<close>

record hdr =
  h_start :: u64
  h_end :: u64
  h_mem :: u64
  h_scopes :: u64
  h_vars :: u64
  h_maxhandle :: u64
  h_sections :: u64
  h_timescale :: u8
  h_version :: bytes
  h_date :: bytes
  h_filetype :: u8
  h_timezero :: u64

definition hdr_encode :: "hdr \<Rightarrow> bytes" where
  "hdr_encode h =
     [FST_BL_HDR] @ be_loop 8 329 @ be_loop 8 (h_start h) @ be_loop 8 (h_end h)
     @ FST_DOUBLE_ENDTEST @ be_loop 8 (h_mem h) @ be_loop 8 (h_scopes h) @ be_loop 8 (h_vars h)
     @ be_loop 8 (h_maxhandle h) @ be_loop 8 (h_sections h) @ [h_timescale h]
     @ zero_padded FST_HDR_SIM_VERSION_SIZE (h_version h) @ zero_padded FST_HDR_DATE_SIZE (h_date h)
     @ [h_filetype h] @ be_loop 8 (h_timezero h)"

text \<open>The file starts with this header, and is at this position.\<close>

definition hdr_is :: "fstWriterContext \<Rightarrow> hdr \<Rightarrow> bytes \<Rightarrow> nat \<Rightarrow> bool" where
  "hdr_is xc h rest pos \<longleftrightarrow> f_data (handle xc) = hdr_encode h @ rest \<and> f_pos (handle xc) = pos"

lemma length_zero_padded [simp]: "length (zero_padded n s) = n"
  by (simp add: zero_padded_def)

lemma length_endtest [simp]: "length FST_DOUBLE_ENDTEST = 8"
  by (simp add: FST_DOUBLE_ENDTEST_def)

lemmas hdr_sizes = FST_HDR_SIM_VERSION_SIZE_def FST_HDR_DATE_SIZE_def

lemma length_hdr_encode [simp]: "length (hdr_encode h) = 330"
  by (simp add: hdr_encode_def hdr_sizes)

text \<open>One in-place write.\<close>

lemma patch_fields:
  assumes "bs \<noteq> []" and "f_data (handle xc) = A @ B @ C" and "length A = offset" and "length B = length bs"
  shows "patch offset (fstFwrite bs) xc
    = xc\<lparr>handle := (handle xc)\<lparr>f_data := A @ bs @ C, f_eof := False\<rparr>\<rparr>"
  using assms
  by (simp add: patch_def fstWriterFseeko_def fseeko_def on_handle_def fstFwrite_def fwrite_bytes_def
      ftello_def overlay_in)

lemma patch_fputc: "patch offset (fputc b) xc = patch offset (fstFwrite [b]) xc"
  by (simp add: patch_def fputc_def fstFwrite_def [abs_def] fputc_def [abs_def])

lemma patch_Uint64: "patch offset (fstWriterUint64 v) xc = patch offset (fstFwrite (be_loop 8 v)) xc"
  by (simp add: patch_def fstWriterUint64_def [abs_def])

lemma patch_hdr:
  assumes "hdr_is xc h rest pos" and "bs \<noteq> []"
    and "hdr_encode h = A @ B @ C" and "hdr_encode h' = A @ bs @ C"
    and "length A = offset" and "length B = length bs"
  shows "hdr_is (patch offset (fstFwrite bs) xc) h' rest pos"
proof -
  have d: "f_data (handle xc) = A @ B @ (C @ rest)" using assms(1,3) by (simp add: hdr_is_def)
  show ?thesis
    unfolding patch_fields [OF assms(2) d assms(5,6)]
    using assms(1,4) by (simp add: hdr_is_def)
qed

text \<open>The header in front of a field and behind it.\<close>

lemma patch_date:
  "hdr_is xc h rest pos \<Longrightarrow>
    hdr_is (patch FST_HDR_OFFS_DATE (fstFwrite (zero_padded FST_HDR_DATE_SIZE dat)) xc)
      (h\<lparr>h_date := dat\<rparr>) rest pos"
  by (rule patch_hdr [where A = "[FST_BL_HDR] @ be_loop 8 329 @ be_loop 8 (h_start h) @ be_loop 8 (h_end h)
     @ FST_DOUBLE_ENDTEST @ be_loop 8 (h_mem h) @ be_loop 8 (h_scopes h) @ be_loop 8 (h_vars h)
     @ be_loop 8 (h_maxhandle h) @ be_loop 8 (h_sections h) @ [h_timescale h]
     @ zero_padded FST_HDR_SIM_VERSION_SIZE (h_version h)"
     and B = "zero_padded FST_HDR_DATE_SIZE (h_date h)" and C = "[h_filetype h] @ be_loop 8 (h_timezero h)"])
    (auto simp: hdr_encode_def hdr_sizes hdr_offs zero_padded_def)

lemma patch_version:
  "hdr_is xc h rest pos \<Longrightarrow>
    hdr_is (patch FST_HDR_OFFS_SIM_VERSION (fstFwrite (zero_padded FST_HDR_SIM_VERSION_SIZE v)) xc)
      (h\<lparr>h_version := v\<rparr>) rest pos"
  by (rule patch_hdr [where A = "[FST_BL_HDR] @ be_loop 8 329 @ be_loop 8 (h_start h) @ be_loop 8 (h_end h)
     @ FST_DOUBLE_ENDTEST @ be_loop 8 (h_mem h) @ be_loop 8 (h_scopes h) @ be_loop 8 (h_vars h)
     @ be_loop 8 (h_maxhandle h) @ be_loop 8 (h_sections h) @ [h_timescale h]"
     and B = "zero_padded FST_HDR_SIM_VERSION_SIZE (h_version h)"
     and C = "zero_padded FST_HDR_DATE_SIZE (h_date h) @ [h_filetype h] @ be_loop 8 (h_timezero h)"])
    (auto simp: hdr_encode_def hdr_sizes hdr_offs zero_padded_def)

lemma patch_timescale:
  "hdr_is xc h rest pos \<Longrightarrow>
    hdr_is (patch FST_HDR_OFFS_TIMESCALE (fputc b) xc) (h\<lparr>h_timescale := b\<rparr>) rest pos"
  unfolding patch_fputc
  by (rule patch_hdr [where A = "[FST_BL_HDR] @ be_loop 8 329 @ be_loop 8 (h_start h) @ be_loop 8 (h_end h)
     @ FST_DOUBLE_ENDTEST @ be_loop 8 (h_mem h) @ be_loop 8 (h_scopes h) @ be_loop 8 (h_vars h)
     @ be_loop 8 (h_maxhandle h) @ be_loop 8 (h_sections h)"
     and B = "[h_timescale h]"
     and C = "zero_padded FST_HDR_SIM_VERSION_SIZE (h_version h) @ zero_padded FST_HDR_DATE_SIZE (h_date h)
        @ [h_filetype h] @ be_loop 8 (h_timezero h)"])
    (auto simp: hdr_encode_def hdr_offs)

lemma patch_filetype:
  "hdr_is xc h rest pos \<Longrightarrow>
    hdr_is (patch FST_HDR_OFFS_FILETYPE (fputc b) xc) (h\<lparr>h_filetype := b\<rparr>) rest pos"
  unfolding patch_fputc
  by (rule patch_hdr [where A = "[FST_BL_HDR] @ be_loop 8 329 @ be_loop 8 (h_start h) @ be_loop 8 (h_end h)
     @ FST_DOUBLE_ENDTEST @ be_loop 8 (h_mem h) @ be_loop 8 (h_scopes h) @ be_loop 8 (h_vars h)
     @ be_loop 8 (h_maxhandle h) @ be_loop 8 (h_sections h) @ [h_timescale h]
     @ zero_padded FST_HDR_SIM_VERSION_SIZE (h_version h) @ zero_padded FST_HDR_DATE_SIZE (h_date h)"
     and B = "[h_filetype h]" and C = "be_loop 8 (h_timezero h)"])
    (auto simp: hdr_encode_def hdr_sizes hdr_offs)

lemma be_loop_8_not_Nil: "be_loop 8 v \<noteq> []"
  using length_be_loop [of 8 v] by (metis list.size(3) zero_neq_numeral)

lemma patch_timezero:
  "hdr_is xc h rest pos \<Longrightarrow>
    hdr_is (patch FST_HDR_OFFS_TIMEZERO (fstWriterUint64 t) xc) (h\<lparr>h_timezero := t\<rparr>) rest pos"
  unfolding patch_Uint64
  by (rule patch_hdr [where A = "[FST_BL_HDR] @ be_loop 8 329 @ be_loop 8 (h_start h) @ be_loop 8 (h_end h)
     @ FST_DOUBLE_ENDTEST @ be_loop 8 (h_mem h) @ be_loop 8 (h_scopes h) @ be_loop 8 (h_vars h)
     @ be_loop 8 (h_maxhandle h) @ be_loop 8 (h_sections h) @ [h_timescale h]
     @ zero_padded FST_HDR_SIM_VERSION_SIZE (h_version h) @ zero_padded FST_HDR_DATE_SIZE (h_date h)
     @ [h_filetype h]"
     and B = "be_loop 8 (h_timezero h)" and C = "[]"])
    (auto simp: hdr_encode_def hdr_sizes hdr_offs be_loop_8_not_Nil simp del: be_loop.simps)

lemma hdr_is_filetype [simp]:
  "hdr_is (xc\<lparr>filetype := b\<rparr>) h rest pos \<longleftrightarrow> hdr_is xc h rest pos"
  "hdr_is (xc\<lparr>timezero := t\<rparr>) h rest pos \<longleftrightarrow> hdr_is xc h rest pos"
  by (simp_all add: hdr_is_def)

text \<open>Two writes in a row are one write.\<close>

lemma overlay_overlay:
  "overlay (overlay d p bs) (p + length bs) cs = overlay d p (bs @ cs)"
  by (auto simp: overlay_def min_def ac_simps)

lemma fstFwrite_twice: "fstFwrite cs (fstFwrite bs f) = fstFwrite (bs @ cs) f"
  by (auto simp: fstFwrite_def fwrite_bytes_def overlay_overlay add.assoc)

text \<open>The counts are rewritten in two groups, which frame the endian test and the memory field.\<close>

definition hdr_counts :: "fstWriterContext \<Rightarrow> hdr \<Rightarrow> hdr" where
  "hdr_counts xc h =
     h\<lparr>h_start := firsttime xc, h_end := curtime xc, h_scopes := ucast (numscopes xc),
       h_vars := ucast (numsigs xc), h_maxhandle := ucast (maxhandle xc), h_sections := ucast (secnum xc)\<rparr>"

lemma seek_write:
  assumes "bs \<noteq> []" and "f_data (handle xc) = A @ B @ C" and "length A = offset" and "length B = length bs"
  shows "on_handle (fstFwrite bs) (fstWriterFseeko (int offset) SEEK_SET xc)
    = xc\<lparr>handle := \<lparr>f_data = A @ bs @ C, f_pos = offset + length bs, f_eof = False\<rparr>\<rparr>"
  using assms
  by (simp add: fstWriterFseeko_def fseeko_def on_handle_def fstFwrite_def fwrite_bytes_def overlay_in)

lemma update_header_counts_hdr:
  assumes "hdr_is xc h rest pos"
  shows "update_header_counts xc = xc\<lparr>handle :=
    \<lparr>f_data = hdr_encode (hdr_counts xc h) @ rest, f_pos = 73, f_eof = False\<rparr>\<rparr>"
proof -
  define xc1 where "xc1 = on_handle (fstFwrite (be_loop 8 (firsttime xc) @ be_loop 8 (curtime xc)))
    (fstWriterFseeko (int FST_HDR_OFFS_START_TIME) SEEK_SET xc)"
  let ?tail1 = "FST_DOUBLE_ENDTEST @ be_loop 8 (h_mem h)"
  let ?tail2 = "[h_timescale h] @ zero_padded FST_HDR_SIM_VERSION_SIZE (h_version h)
     @ zero_padded FST_HDR_DATE_SIZE (h_date h) @ [h_filetype h] @ be_loop 8 (h_timezero h) @ rest"
  let ?counts = "be_loop 8 (h_scopes h) @ be_loop 8 (h_vars h) @ be_loop 8 (h_maxhandle h) @ be_loop 8 (h_sections h)"
  let ?start = "[FST_BL_HDR] @ be_loop 8 329"
  have 1: "xc1 = xc\<lparr>handle := \<lparr>f_data = ?start @ (be_loop 8 (firsttime xc) @ be_loop 8 (curtime xc))
      @ ?tail1 @ ?counts @ ?tail2, f_pos = 25, f_eof = False\<rparr>\<rparr>"
    unfolding xc1_def
    by (subst seek_write [where A = ?start and B = "be_loop 8 (h_start h) @ be_loop 8 (h_end h)"
          and C = "?tail1 @ ?counts @ ?tail2"])
      (use assms in \<open>auto simp: hdr_is_def hdr_encode_def be_loop_8_not_Nil hdr_offs simp del: be_loop.simps\<close>)
  have "update_header_counts xc = on_handle (fstFwrite (be_loop 8 (ucast (numscopes xc))
      @ be_loop 8 (ucast (numsigs xc)) @ be_loop 8 (ucast (maxhandle xc)) @ be_loop 8 (ucast (secnum xc))))
    (fstWriterFseeko (int FST_HDR_OFFS_NUM_SCOPES) SEEK_SET xc1)"
    unfolding update_header_counts_def Let_def fstWriterUint64_def fstFwrite_twice xc1_def
    by (simp add: fstWriterFseeko_def on_handle_def fseeko_def Let_def)
  also have "\<dots> = xc1\<lparr>handle := \<lparr>f_data = (?start @ (be_loop 8 (firsttime xc) @ be_loop 8 (curtime xc)) @ ?tail1)
      @ (be_loop 8 (ucast (numscopes xc)) @ be_loop 8 (ucast (numsigs xc)) @ be_loop 8 (ucast (maxhandle xc))
         @ be_loop 8 (ucast (secnum xc))) @ ?tail2, f_pos = 73, f_eof = False\<rparr>\<rparr>"
    by (subst seek_write [where A = "?start @ (be_loop 8 (firsttime xc) @ be_loop 8 (curtime xc)) @ ?tail1"
          and B = ?counts and C = ?tail2])
      (auto simp: 1 be_loop_8_not_Nil hdr_offs simp del: be_loop.simps)
  finally show ?thesis
    by (simp add: 1 hdr_encode_def hdr_counts_def del: be_loop.simps)
qed

lemma fstWriterCreateMmaps_hdr:
  assumes "hdr_is xc h rest pos"
  shows "fstWriterCreateMmaps xc = xc\<lparr>
      handle := \<lparr>f_data = hdr_encode (hdr_counts xc h) @ rest, f_pos = pos, f_eof = False\<rparr>,
      valpos_mapped := valpos_mapped xc \<or> maxhandle xc \<noteq> 0,
      curval_mapped := curval_mapped xc \<or> maxvalpos xc \<noteq> 0\<rparr>"
  using assms
  by (cases "valpos_mapped xc"; cases "curval_mapped xc"; cases "maxhandle xc = 0"; cases "maxvalpos xc = 0")
    (simp_all add: fstWriterCreateMmaps_def update_header_counts_hdr [OF assms] fstWriterFseeko_def
      fseeko_def ftello_def hdr_is_def Let_def)

text \<open>The header operations, as one type, and what each means for the record.\<close>

datatype hdr_op =
    Set_date bytes | Set_version bytes | Set_filetype u32 | Set_timescale int
  | Set_timescale_string bytes | Set_timezero u64

fun hdr_step :: "wctx \<Rightarrow> hdr_op \<Rightarrow> wctx outcome" where
  "hdr_step ctx (Set_date d) = Inr (fstWriterSetDate ctx d)"
| "hdr_step ctx (Set_version v) = Inr (fstWriterSetVersion ctx (Some v))"
| "hdr_step ctx (Set_filetype t) = Inr (fstWriterSetFileType ctx t)"
| "hdr_step ctx (Set_timescale e) = Inr (fstWriterSetTimescale ctx e)"
| "hdr_step ctx (Set_timescale_string s) = fstWriterSetTimescaleFromString ctx (Some s)"
| "hdr_step ctx (Set_timezero t) = Inr (fstWriterSetTimezero ctx t)"

definition timescale_exp :: "bytes \<Rightarrow> int" where
  "timescale_exp s =
     (let tv = (case atoi s of Inr n \<Rightarrow> n | Inl _ \<Rightarrow> 0)
      in seconds_exp_of s + (if tv = 10 then 1 else if tv = 100 then 2 else 0))"

fun hdr_spec :: "hdr \<Rightarrow> hdr_op \<Rightarrow> hdr" where
  "hdr_spec h (Set_date d) = h\<lparr>h_date := d\<rparr>"
| "hdr_spec h (Set_version v) = h\<lparr>h_version := v\<rparr>"
| "hdr_spec h (Set_filetype t) = (if t \<le> 3 then h\<lparr>h_filetype := ucast t\<rparr> else h)"
| "hdr_spec h (Set_timescale e) = h\<lparr>h_timescale := word_of_int e\<rparr>"
| "hdr_spec h (Set_timescale_string s) = h\<lparr>h_timescale := word_of_int (timescale_exp s)\<rparr>"
| "hdr_spec h (Set_timezero t) = h\<lparr>h_timezero := t\<rparr>"

fun hdr_op_ok :: "hdr_op \<Rightarrow> bool" where
  "hdr_op_ok (Set_timescale_string s) \<longleftrightarrow> (\<exists>n. atoi s = Inr n)"
| "hdr_op_ok _ \<longleftrightarrow> True"

fun hdr_run :: "wctx \<Rightarrow> hdr_op list \<Rightarrow> wctx outcome" where
  "hdr_run ctx [] = Inr ctx"
| "hdr_run ctx (p # ps) = andthen (hdr_step ctx p) (\<lambda>ctx'. hdr_run ctx' ps)"

lemma and_255: "(w :: u8) AND 255 = w"
proof -
  have m: "(255 :: u8) = -1" by simp
  show ?thesis by (simp only: m and.right_neutral)
qed

lemma SetTimescale_hdr:
  assumes "hdr_is xc h rest pos"
  shows "\<exists>xc'. fstWriterSetTimescale (Some xc) e = Some xc'
    \<and> hdr_is xc' (h\<lparr>h_timescale := word_of_int e\<rparr>) rest pos"
  using patch_timescale [OF assms, of "word_of_int e"]
  by (simp add: fstWriterSetTimescale_def and_255)

lemma hdr_step_spec:
  assumes "hdr_is xc h rest pos" and "hdr_op_ok p"
  shows "\<exists>xc'. hdr_step (Some xc) p = Inr (Some xc') \<and> hdr_is xc' (hdr_spec h p) rest pos"
proof (cases p)
  case (Set_timescale_string s)
  then obtain n where n: "atoi s = Inr n" using assms(2) by auto
  have "hdr_step (Some xc) p = Inr (fstWriterSetTimescale (Some xc) (timescale_exp s))"
    using n by (simp add: Set_timescale_string fstWriterSetTimescaleFromString_def timescale_exp_def Let_def)
  then show ?thesis
    using SetTimescale_hdr [OF assms(1), of "timescale_exp s"] Set_timescale_string by auto
next
  case (Set_timescale e)
  then show ?thesis using SetTimescale_hdr [OF assms(1), of e] by auto
next
  case (Set_filetype t)
  then show ?thesis
    using assms(1) patch_filetype [of "xc\<lparr>filetype := ucast t\<rparr>" h rest pos "ucast t"]
    by (simp add: fstWriterSetFileType_def Let_def)
qed (use assms(1) patch_date patch_version patch_timezero [of "xc\<lparr>timezero := t\<rparr>" for t] in
      \<open>simp_all add: fstWriterSetDate_def fstWriterSetVersion_def fstWriterSetTimezero_def\<close>)

lemma hdr_run_spec:
  assumes "hdr_is xc h rest pos" and "\<forall>p \<in> set ps. hdr_op_ok p"
  shows "\<exists>xc'. hdr_run (Some xc) ps = Inr (Some xc') \<and> hdr_is xc' (foldl hdr_spec h ps) rest pos"
  using assms
proof (induction ps arbitrary: xc h)
  case (Cons p ps)
  then show ?case using hdr_step_spec [OF Cons.prems(1), of p] by fastforce
qed auto

text \<open>The header \<open>fstWriterCreate\<close> writes.\<close>

definition initial_hdr :: "bytes \<Rightarrow> hdr" where
  "initial_hdr walltime =
     \<lparr>h_start = 0, h_end = 0, h_mem = FST_BREAK_SIZE, h_scopes = 0, h_vars = 0, h_maxhandle = 0,
      h_sections = 0, h_timescale = -9, h_version = c_lit ''fstWriter'', h_date = walltime,
      h_filetype = 0, h_timezero = 0\<rparr>"

lemma EmitHdrBytes_hdr:
  assumes "f_data (handle xc) = []" and "f_pos (handle xc) = 0" and "fst_break_size xc = FST_BREAK_SIZE"
    and "filetype xc = 0" and "timezero xc = 0"
  shows "hdr_is (fstWriterEmitHdrBytes walltime xc) (initial_hdr walltime) [] 330"
proof -
  have "fstWriterEmitHdrBytes walltime xc
    = on_handle (fstFwrite (hdr_encode (initial_hdr walltime))) xc"
    unfolding fstWriterEmitHdrBytes_def fputc_def fstFwrite_def [symmetric] fstWriterUint64_def fstFwrite_twice
    by (simp only: assms hdr_encode_def initial_hdr_def hdr.select_convs append_assoc)
  then show ?thesis
    using assms(1,2) length_hdr_encode [of "initial_hdr walltime"]
    by (auto simp: hdr_is_def on_handle_def fstFwrite_def fwrite_bytes_def overlay_def simp del: length_hdr_encode)
qed

lemma Create_hdr:
  "\<exists>xc. fstWriterCreate True True meminfo walltime (Some n) u = Some xc
    \<and> hdr_is xc (initial_hdr walltime) [] 330"
proof -
  define xc0 where "xc0 = fstDetermineBreakSize meminfo (writer_zero\<lparr>compress_hier := odd u\<rparr>)"
  define xc1 where "xc1 = xc0\<lparr>vchg_alloc_siz := ucast (fst_break_size xc0 + fst_break_add_size xc0),
    filename := n, is_initial_time := True\<rparr>"
  have "hdr_is (fstWriterEmitHdrBytes walltime xc1) (initial_hdr walltime) [] 330"
    by (rule EmitHdrBytes_hdr)
      (simp_all add: xc1_def xc0_def fstDetermineBreakSize_def writer_zero_def new_file_def Let_def)
  moreover have "fstWriterCreate True True meminfo walltime (Some n) u
    = Some ((fstWriterEmitHdrBytes walltime xc1)\<lparr>nan := double_nan\<rparr>)"
    by (simp only: fstWriterCreate_def Let_def option.case not_True_eq_False if_False if_True xc0_def xc1_def)
  ultimately show ?thesis by (simp add: hdr_is_def)
qed

lemma huge_break_bounds:
  "huge_break_of ls = Some v \<Longrightarrow> FST_BREAK_SIZE < v \<and> v \<le> FST_BREAK_SIZE_MAX"
  by (induction ls)
    (auto simp: Let_def FST_BREAK_SIZE_def FST_BREAK_SIZE_MAX_def not_less split: if_splits)

section \<open>Properties\<close>

text \<open>
  C15. The file header: \<open>fstWriterCreate\<close> writes exactly 330 bytes, and after any sequence of
  date, version, file type, timescale and timezero settings the file still holds exactly the
  encoding of the header record with each field as last set, in the layout of the offset macros;
  the position stays at the end of the header, and no other byte changes.
\<close>

theorem header_setters_refine:
  assumes "\<forall>p \<in> set ps. hdr_op_ok p"
  shows "\<exists>xc xc'. fstWriterCreate True True meminfo walltime (Some n) u = Some xc
    \<and> hdr_run (Some xc) ps = Inr (Some xc')
    \<and> f_data (handle xc') = hdr_encode (foldl hdr_spec (initial_hdr walltime) ps)
    \<and> length (f_data (handle xc')) = FST_HDR_LENGTH \<and> f_pos (handle xc') = FST_HDR_LENGTH"
proof -
  obtain xc where 1: "fstWriterCreate True True meminfo walltime (Some n) u = Some xc"
    "hdr_is xc (initial_hdr walltime) [] 330"
    using Create_hdr by blast
  obtain xc' where "hdr_run (Some xc) ps = Inr (Some xc')"
    "hdr_is xc' (foldl hdr_spec (initial_hdr walltime) ps) [] 330"
    using hdr_run_spec [OF 1(2) assms] by blast
  with 1(1) show ?thesis by (auto simp: hdr_is_def hdr_offs)
qed

lemma atoi_100ps: "atoi [49, 48, 48, 112, 115] = Inr 100"
  by (simp add: atoi_def is_space_def is_digit_def digits_val_def)

lemma header_setters_refine_witness:
  "\<exists>xc xc'. fstWriterCreate True True None [84, 104, 117] (Some [97]) 1 = Some xc
    \<and> hdr_run (Some xc) [Set_timescale_string [49, 48, 48, 112, 115], Set_filetype 9, Set_timezero 5] = Inr (Some xc')
    \<and> f_data (handle xc') = hdr_encode ((initial_hdr [84, 104, 117])\<lparr>h_timescale := -10, h_timezero := 5\<rparr>)"
proof -
  let ?ps = "[Set_timescale_string [49, 48, 48, 112, 115], Set_filetype 9, Set_timezero 5]"
  have "\<forall>p \<in> set ?ps. hdr_op_ok p" by (simp add: atoi_100ps)
  from header_setters_refine [OF this, of None "[84, 104, 117]" "[97]" 1]
  have "\<exists>xc xc'. fstWriterCreate True True None [84, 104, 117] (Some [97]) 1 = Some xc
    \<and> hdr_run (Some xc) ?ps = Inr (Some xc')
    \<and> f_data (handle xc') = hdr_encode (foldl hdr_spec (initial_hdr [84, 104, 117]) ?ps)"
    by blast
  moreover have "foldl hdr_spec (initial_hdr [84, 104, 117]) ?ps
    = (initial_hdr [84, 104, 117])\<lparr>h_timescale := -10, h_timezero := 5\<rparr>"
    by (simp add: timescale_exp_def atoi_100ps unit_exp_def ascii_eval)
  ultimately show ?thesis by (simp only:)
qed

text \<open>
  The intermediate header: \<open>fstWriterCreateMmaps\<close> rewrites the start and end times and the
  scope, variable, handle and section counts and nothing else, returns to the position it came
  from, and afterwards both maps are there unless there is nothing to map.
\<close>

theorem intermediate_header:
  assumes "f_data (handle xc) = hdr_encode h @ rest"
  shows "f_data (handle (fstWriterCreateMmaps xc)) = hdr_encode (h\<lparr>h_start := firsttime xc,
        h_end := curtime xc, h_scopes := ucast (numscopes xc), h_vars := ucast (numsigs xc),
        h_maxhandle := ucast (maxhandle xc), h_sections := ucast (secnum xc)\<rparr>) @ rest
    \<and> f_pos (handle (fstWriterCreateMmaps xc)) = f_pos (handle xc)
    \<and> valpos_mapped (fstWriterCreateMmaps xc) = (valpos_mapped xc \<or> maxhandle xc \<noteq> 0)
    \<and> curval_mapped (fstWriterCreateMmaps xc) = (curval_mapped xc \<or> maxvalpos xc \<noteq> 0)"
proof -
  have "hdr_is xc h rest (f_pos (handle xc))" using assms by (simp add: hdr_is_def)
  from fstWriterCreateMmaps_hdr [OF this] show ?thesis by (simp add: hdr_counts_def)
qed

lemma intermediate_header_witness:
  "f_data (handle (fstWriterCreateMmaps (writer_zero\<lparr>handle := \<lparr>f_data = hdr_encode (initial_hdr []) @ [255],
      f_pos = 331, f_eof = False\<rparr>, numsigs := 3, maxhandle := 2, curtime := 7\<rparr>)))
    = hdr_encode ((initial_hdr [])\<lparr>h_end := 7, h_vars := 3, h_maxhandle := 2\<rparr>) @ [255]"
  using intermediate_header [of "writer_zero\<lparr>handle := \<lparr>f_data = hdr_encode (initial_hdr []) @ [255],
      f_pos = 331, f_eof = False\<rparr>, numsigs := 3, maxhandle := 2, curtime := 7\<rparr>" "initial_hdr []" "[255]"]
  by (simp add: writer_zero_def initial_hdr_def)

end
