(* ===== verification/Value_Change.thy ===== *)
theory Value_Change
  imports Writer_Context
begin

text \<open>
  Emission of values (\<open>fstapi.c\<close>, lines 860 to 911, 1220 to 1266 and 2929 to 3290): the value
  change records in \<open>vchg_mem\<close>, which form one backward chain per handle, the variants for binary
  vectors and for values of variable length, the section header and the dump activity marks.
\<close>

section \<open>Records in the value change buffer\<close>

text \<open>\<open>memcpy\<close> of a \<open>uint32_t\<close> to memory and \<open>fstGetUint32\<close> back, on a little-endian host.\<close>

definition le32 :: "u32 \<Rightarrow> bytes" where
  "le32 v = [ucast v, ucast (drop_bit 8 v), ucast (drop_bit 16 v), ucast (drop_bit 24 v)]"

definition fstGetUint32 :: "bytes \<Rightarrow> u32 outcome" where
  "fstGetUint32 mem =
     (case mem of
        b0 # b1 # b2 # b3 # _ \<Rightarrow>
          Inr (ucast b0 OR push_bit 8 (ucast b1) OR push_bit 16 (ucast b2) OR push_bit 24 (ucast b3))
      | _ \<Rightarrow> Inl Out_of_bounds)"

text \<open>What is written at \<open>vchg_mem + vchg_siz\<close> must lie inside the allocation.\<close>

definition vchg_put :: "bytes \<Rightarrow> fstWriterContext \<Rightarrow> (u32 \<times> fstWriterContext) outcome" where
  "vchg_put r xc =
     (if unat (vchg_siz xc) + length r \<le> unat (vchg_alloc_siz xc)
      then Inr (of_nat (length r), xc\<lparr>vchg_mem := take (unat (vchg_siz xc)) (vchg_mem xc) @ r\<rparr>)
      else Inl Out_of_bounds)"

definition fstWriterUint32WithVarint32 ::
    "u32 \<Rightarrow> u32 \<Rightarrow> bytes \<Rightarrow> u32 \<Rightarrow> fstWriterContext \<Rightarrow> (u32 \<times> fstWriterContext) outcome" where
  "fstWriterUint32WithVarint32 u v dbuf siz xc =
     andthen (load_n dbuf 0 (unat siz)) (\<lambda>d. vchg_put (le32 u @ varint v @ d) xc)"

definition fstWriterUint32WithVarint32AndLength ::
    "u32 \<Rightarrow> u32 \<Rightarrow> bytes \<Rightarrow> u32 \<Rightarrow> fstWriterContext \<Rightarrow> (u32 \<times> fstWriterContext) outcome" where
  "fstWriterUint32WithVarint32AndLength u v dbuf siz xc =
     andthen (load_n dbuf 0 (unat siz)) (\<lambda>d. vchg_put (le32 u @ varint v @ varint siz @ d) xc)"

section \<open>Emitting values\<close>

text \<open>\<open>if(!xc->valpos_mem) { xc->vc_emitted = 1; fstWriterCreateMmaps(xc); }\<close>\<close>

definition emit_maps :: "fstWriterContext \<Rightarrow> fstWriterContext" where
  "emit_maps xc = (if valpos_mapped xc then xc else fstWriterCreateMmaps (xc\<lparr>vc_emitted := True\<rparr>))"

text \<open>The cell \<open>vm4ip[k]\<close>; \<open>4*handle\<close> is computed in 32 bits.\<close>

definition vm4ip :: "fstWriterContext \<Rightarrow> u32 \<Rightarrow> nat \<Rightarrow> u32 outcome" where
  "vm4ip xc h k =
     (if valpos_mapped xc then load (valpos xc) (unat (4 * h) + k) else Inl Null_deref)"

text \<open>The buffer is enlarged when the record may not fit; \<open>realloc\<close> is taken to succeed.\<close>

definition vchg_grow :: "u32 \<Rightarrow> u32 \<Rightarrow> fstWriterContext \<Rightarrow> fstWriterContext" where
  "vchg_grow need extra xc =
     (if vchg_siz xc + need > vchg_alloc_siz xc
      then xc\<lparr>vchg_alloc_siz := vchg_alloc_siz xc + (ucast (fst_break_add_size xc) + extra)\<rparr>
      else xc)"

text \<open>The tail both emitters share: \<open>vchg_siz += ...; vm4ip[3] = tchn_idx; vm4ip[2] = fpos\<close>.\<close>

definition vchg_link :: "u32 \<Rightarrow> u32 \<Rightarrow> u32 \<Rightarrow> fstWriterContext \<Rightarrow> fstWriterContext" where
  "vchg_link h fpos n xc =
     xc\<lparr>vchg_siz := vchg_siz xc + n,
        valpos := (valpos xc)[unat (4 * h) + 3 := tchn_idx xc, unat (4 * h) + 2 := fpos]\<rparr>"

definition fstWriterEmitValueChange :: "wctx \<Rightarrow> u32 \<Rightarrow> bytes \<Rightarrow> wctx outcome" where
  "fstWriterEmitValueChange ctx h val =
     xc_set ctx (\<lambda>xc.
       if h \<le> maxhandle xc
       then let xc = emit_maps xc; h = h - 1
            in andthen (vm4ip xc h 1) (\<lambda>n.
               if n \<noteq> 0
               then if \<not> is_initial_time xc
                    then let fpos = vchg_siz xc; xc = vchg_grow (n + 10) n xc
                         in andthen (vm4ip xc h 2) (\<lambda>prev.
                            andthen (vm4ip xc h 3) (\<lambda>last.
                            andthen (fstWriterUint32WithVarint32 prev (tchn_idx xc - last) val n xc)
                              (\<lambda>(k, xc). Inr (vchg_link h fpos k xc))))
                    else andthen (vm4ip xc h 0) (\<lambda>offs.
                         andthen (load_n val 0 (unat n)) (\<lambda>d.
                           if \<not> curval_mapped xc then Inl Null_deref
                           else andthen (store_n (curval xc) (unat offs) d)
                                  (\<lambda>cv. Inr (xc\<lparr>curval := cv\<rparr>))))
               else Inr xc)
       else Inr xc)"

definition fstWriterEmitVariableLengthValueChange :: "wctx \<Rightarrow> u32 \<Rightarrow> bytes \<Rightarrow> u32 \<Rightarrow> wctx outcome" where
  "fstWriterEmitVariableLengthValueChange ctx h val n =
     xc_set ctx (\<lambda>xc.
       if h \<le> maxhandle xc
       then let xc = emit_maps xc; h = h - 1
            in andthen (vm4ip xc h 1) (\<lambda>l.
               if l = 0
               then let fpos = vchg_siz xc; xc = vchg_grow (n + 10 + 5) (n + 5) xc
                    in andthen (vm4ip xc h 2) (\<lambda>prev.
                       andthen (vm4ip xc h 3) (\<lambda>last.
                       andthen (fstWriterUint32WithVarint32AndLength prev (tchn_idx xc - last) val n xc)
                         (\<lambda>(k, xc). Inr (vchg_link h fpos k xc))))
               else Inr xc)
       else Inr xc)"

section \<open>Binary vectors\<close>

text \<open>\<open>'0' + ((val >> (bits - i - 1)) & 1)\<close> for \<open>i\<close> from 0: the most significant bit first.\<close>

definition bit_char :: "'a::len word \<Rightarrow> nat \<Rightarrow> u8" where
  "bit_char v k = 48 + ucast (drop_bit k v AND 1)"

definition bits_msb :: "nat \<Rightarrow> 'a::len word \<Rightarrow> bytes" where
  "bits_msb n v = map (\<lambda>i. bit_char v (n - i - 1)) [0..<n]"

text \<open>A shift by the width of the type or more has no meaning: with \<open>n\<close> bits the largest shift is
  \<open>n - 1\<close>.\<close>

definition bits_checked :: "nat \<Rightarrow> 'a::len word \<Rightarrow> bytes outcome" where
  "bits_checked n v = (if n \<le> LENGTH('a) then Inr (bits_msb n v) else Inl Bad_shift)"

text \<open>
  \<open>buf\<close> is a local array: \<open>stack\<close> stands for the 32 or 64 bytes it holds before the loop.
\<close>

definition fstWriterEmitValueChange32 :: "bytes \<Rightarrow> wctx \<Rightarrow> u32 \<Rightarrow> u32 \<Rightarrow> u32 \<Rightarrow> wctx outcome" where
  "fstWriterEmitValueChange32 stack ctx h bits val =
     andthen (bits_checked (unat bits) val) (\<lambda>s.
     andthen (store_n (take 32 stack) 0 s) (\<lambda>buf. fstWriterEmitValueChange ctx h buf))"

definition fstWriterEmitValueChange64 :: "bytes \<Rightarrow> wctx \<Rightarrow> u32 \<Rightarrow> u32 \<Rightarrow> u64 \<Rightarrow> wctx outcome" where
  "fstWriterEmitValueChange64 stack ctx h bits val =
     andthen (bits_checked (unat bits) val) (\<lambda>s.
     andthen (store_n (take 64 stack) 0 s) (\<lambda>buf. fstWriterEmitValueChange ctx h buf))"

text \<open>The words from index \<open>w - 1\<close> down to 0, \<open>n\<close> bits each.\<close>

fun vec_words :: "nat \<Rightarrow> u32 list \<Rightarrow> nat \<Rightarrow> bytes outcome" where
  "vec_words n val 0 = Inr []"
| "vec_words n val (Suc w) =
     andthen (load val w) (\<lambda>v. andthen (bits_checked n v) (\<lambda>s.
     andthen (vec_words n val w) (\<lambda>r. Inr (s @ r))))"

text \<open>
  \<open>heap\<close> is what \<open>outval_mem\<close> holds after the \<open>realloc\<close>, \<open>outval_alloc_siz\<close> bytes. The word
  above the full ones is read whether or not it has bits to contribute.
\<close>

definition emit_vec ::
    "nat \<Rightarrow> nat \<Rightarrow> bytes \<Rightarrow> fstWriterContext \<Rightarrow> u32 \<Rightarrow> u32 \<Rightarrow> u32 list \<Rightarrow> wctx outcome" where
  "emit_vec n br heap xc h bits val =
     (let bq = unat bits div n;
          xc = (if bits > outval_alloc_siz xc then xc\<lparr>outval_alloc_siz := bits * 2 + 1\<rparr> else xc)
      in andthen (load val bq) (\<lambda>v.
         andthen (bits_checked br v) (\<lambda>s.
         andthen (vec_words n val bq) (\<lambda>r.
         andthen (store_n (take (unat (outval_alloc_siz xc)) heap) 0 (s @ r)) (\<lambda>mem.
           fstWriterEmitValueChange (Some xc) h mem)))))"

definition fstWriterEmitValueChangeVec32 ::
    "bytes \<Rightarrow> bytes \<Rightarrow> wctx \<Rightarrow> u32 \<Rightarrow> u32 \<Rightarrow> u32 list \<Rightarrow> wctx outcome" where
  "fstWriterEmitValueChangeVec32 stack heap ctx h bits val =
     (if bits \<le> 32 then andthen (load val 0) (\<lambda>v. fstWriterEmitValueChange32 stack ctx h bits v)
      else case ctx of None \<Rightarrow> Inr None
           | Some xc \<Rightarrow> emit_vec 32 (unat bits mod 32) heap xc h bits val)"

text \<open>The local \<open>v\<close> of the 64-bit variant is a \<open>uint32_t\<close>.\<close>

definition fstWriterEmitValueChangeVec64 ::
    "bytes \<Rightarrow> bytes \<Rightarrow> wctx \<Rightarrow> u32 \<Rightarrow> u32 \<Rightarrow> u64 list \<Rightarrow> wctx outcome" where
  "fstWriterEmitValueChangeVec64 stack heap ctx h bits val =
     (if bits \<le> 64 then andthen (load val 0) (\<lambda>v. fstWriterEmitValueChange64 stack ctx h bits v)
      else case ctx of None \<Rightarrow> Inr None
           | Some xc \<Rightarrow> emit_vec 64 (unat bits mod 64) heap xc h bits (map ucast val))"

section \<open>Section header and dump activity\<close>

text \<open>
  \<open>compress2\<close> is an argument: the compressed bytes, or \<open>None\<close> for a return code other than
  \<open>Z_OK\<close>.
\<close>

definition fstWriterEmitSectionHeader ::
    "(nat \<Rightarrow> bytes \<Rightarrow> bytes option) \<Rightarrow> fstWriterContext \<Rightarrow> fstWriterContext outcome" where
  "fstWriterEmitSectionHeader compress2 xc =
     (let siz = unat (maxvalpos xc)
      in andthen (if siz = 0 then Inr []
                  else if curval_mapped xc then load_n (curval xc) 0 siz else Inl Null_deref) (\<lambda>mem.
         let packed = (case compress2 4 mem of
                         Some d \<Rightarrow> if length d < siz then Some d else None
                       | None \<Rightarrow> None);
             data = (case packed of Some d \<Rightarrow> d | None \<Rightarrow> mem);
             xc = on_handle (fputc FST_BL_SKIP) xc;
             xc = xc\<lparr>section_start := ftello (handle xc), section_header_only := True\<rparr>;
             xc = on_handle (\<lambda>h. fstWriterUint64 0 (fstWriterUint64 (curtime xc)
                    (fstWriterUint64 (if is_initial_time xc then firsttime xc else curtime xc)
                      (fstWriterUint64 0 h)))) xc
         in andthen (fstWriterVarint (ucast (maxvalpos xc)) (handle xc)) (\<lambda>(_, h).
            andthen (fstWriterVarint (of_nat (length data)) h) (\<lambda>(_, h).
            andthen (fstWriterVarint (ucast (maxhandle xc)) h) (\<lambda>(_, h).
              Inr (xc\<lparr>handle := fstFwrite data h\<rparr>))))))"

definition fstWriterEmitDumpActive :: "wctx \<Rightarrow> int \<Rightarrow> wctx" where
  "fstWriterEmitDumpActive ctx enable =
     map_option (\<lambda>xc. xc\<lparr>num_blackouts := num_blackouts xc + 1,
                        blackout_head := blackout_head xc @ [(curtime xc, enable \<noteq> 0)]\<rparr>) ctx"

section \<open>Chains\<close>

lemma length_le32 [simp]: "length (le32 v) = 4"
  by (simp add: le32_def)

lemma fstGetUint32_le32: "fstGetUint32 (le32 v @ r) = Inr v"
proof -
  have "(ucast (ucast v :: u8) :: u32) OR push_bit 8 (ucast (ucast (drop_bit 8 v) :: u8))
      OR push_bit 16 (ucast (ucast (drop_bit 16 v) :: u8)) OR push_bit 24 (ucast (ucast (drop_bit 24 v) :: u8)) = v"
    (is "?a = v")
  proof (rule bit_word_eqI)
    fix i
    assume "i < LENGTH(32)"
    then have "i < 8 \<or> (8 \<le> i \<and> i < 16) \<or> (16 \<le> i \<and> i < 24) \<or> (24 \<le> i \<and> i < 32)" by auto
    then show "bit ?a i = bit v i"
      by (elim disjE) (auto simp: bit_or_iff bit_push_bit_iff bit_ucast_iff bit_drop_bit_eq)
  qed
  then show ?thesis by (simp add: fstGetUint32_def le32_def)
qed

text \<open>
  The payload of a record: the value, behind its length when the handle has none of its own.
\<close>

definition rec_payload :: "u32 \<Rightarrow> bytes \<Rightarrow> bytes" where
  "rec_payload n v = (if n = 0 then varint (of_nat (length v) :: u32) @ v else v)"

definition val_ok :: "u32 \<Rightarrow> bytes \<Rightarrow> bool" where
  "val_ok n v \<longleftrightarrow> (if n = 0 then length v < 2 ^ 32 else length v = unat n)"

text \<open>
  The chain that starts at an offset of the buffer and goes back to 0 holds these records, the
  newest first: the difference of time indices, and the value. Each record ends before the one that
  points to it starts, the first before \<open>e\<close>.
\<close>

fun chain_ok :: "bytes \<Rightarrow> u32 \<Rightarrow> nat \<Rightarrow> u32 \<Rightarrow> (u32 \<times> bytes) list \<Rightarrow> bool" where
  "chain_ok mem n e offs [] \<longleftrightarrow> offs = 0"
| "chain_ok mem n e offs ((d, v) # cs) \<longleftrightarrow> offs \<noteq> 0 \<and> val_ok n v
     \<and> (\<exists>prev. take (length (le32 prev @ varint d @ rec_payload n v)) (drop (unat offs) mem)
            = le32 prev @ varint d @ rec_payload n v
          \<and> unat offs + length (le32 prev @ varint d @ rec_payload n v) \<le> e
          \<and> chain_ok mem n (unat offs) prev cs)"

lemma take_drop_append:
  assumes "take (length r) (drop k mem) = r" and "r \<noteq> []"
  shows "k + length r \<le> length mem" and "take (length r) (drop k (mem @ s)) = r"
proof -
  have "length (take (length r) (drop k mem)) = length r" by (simp only: assms(1))
  then have l: "length r \<le> length mem - k" by simp
  moreover have "0 < length r" using assms(2) by simp
  ultimately show k: "k + length r \<le> length mem" by linarith
  then show "take (length r) (drop k (mem @ s)) = r" using assms(1) l by simp
qed

lemma chain_ok_append: "chain_ok mem n e offs cs \<Longrightarrow> chain_ok (mem @ s) n e offs cs"
proof (induction cs arbitrary: e offs)
  case (Cons c cs)
  obtain d v where c: "c = (d, v)" by (cases c)
  obtain prev where p: "offs \<noteq> 0" "val_ok n v"
    "take (length (le32 prev @ varint d @ rec_payload n v)) (drop (unat offs) mem) = le32 prev @ varint d @ rec_payload n v"
    "unat offs + length (le32 prev @ varint d @ rec_payload n v) \<le> e" "chain_ok mem n (unat offs) prev cs"
    using Cons.prems unfolding c chain_ok.simps by blast
  have "le32 prev @ varint d @ rec_payload n v \<noteq> []" by (simp add: le32_def)
  from take_drop_append(2) [OF p(3) this] show ?case
    using p(1,2,4) Cons.IH [OF p(5)] unfolding c chain_ok.simps by blast
qed simp

lemma chain_ok_mono: "chain_ok mem n e offs cs \<Longrightarrow> e \<le> e' \<Longrightarrow> chain_ok mem n e' offs cs"
proof (cases cs)
  case (Cons c cs')
  obtain d v where c: "c = (d, v)" by (cases c)
  assume "chain_ok mem n e offs cs" "e \<le> e'"
  then show ?thesis unfolding Cons c chain_ok.simps by (meson order_trans)
qed simp

text \<open>
  The history of a handle: values with the time index they were emitted at, the newest first.
\<close>

fun deltas :: "(u32 \<times> bytes) list \<Rightarrow> (u32 \<times> bytes) list" where
  "deltas [] = []"
| "deltas ((t, v) # hs) = (t - (case hs of [] \<Rightarrow> 0 | (t', _) # _ \<Rightarrow> t'), v) # deltas hs"

definition last_idx :: "(u32 \<times> bytes) list \<Rightarrow> u32" where
  "last_idx hs = (case hs of [] \<Rightarrow> 0 | (t, _) # _ \<Rightarrow> t)"

lemma deltas_Cons: "deltas ((t, v) # hs) = (t - last_idx hs, v) # deltas hs"
  by (simp add: last_idx_def)

text \<open>The cells and the buffer hold the history \<open>G\<close>.\<close>

definition vc_rel :: "fstWriterContext \<Rightarrow> (nat \<Rightarrow> (u32 \<times> bytes) list) \<Rightarrow> bool" where
  "vc_rel xc G \<longleftrightarrow>
     length (valpos xc) = 4 * unat (maxhandle xc) \<and> 4 * unat (maxhandle xc) < 2 ^ 32
     \<and> length (vchg_mem xc) = unat (vchg_siz xc) \<and> vchg_siz xc \<noteq> 0
     \<and> vchg_siz xc \<le> vchg_alloc_siz xc
     \<and> (\<forall>i < unat (maxhandle xc).
          chain_ok (vchg_mem xc) (valpos xc ! (4 * i + 1)) (length (vchg_mem xc))
            (valpos xc ! (4 * i + 2)) (deltas (G i))
          \<and> valpos xc ! (4 * i + 3) = last_idx (G i))"

text \<open>
  What can be appended without leaving 32 bits: the buffer is enlarged only when it is nearly full,
  by \<open>fst_break_add_size\<close> and the value.
\<close>

definition grow_ok :: "fstWriterContext \<Rightarrow> nat \<Rightarrow> bool" where
  "grow_ok xc n \<longleftrightarrow>
     unat (vchg_siz xc) + unat (fst_break_add_size xc) + (2 * n + 20) < 2 ^ 32
     \<and> 15 \<le> unat (fst_break_add_size xc)"

lemma handle_index:
  assumes "1 \<le> h" and "h \<le> m" and "4 * unat m < 2 ^ 32"
  shows "unat (4 * (h - 1) :: u32) = 4 * (unat h - 1)" and "unat h - 1 < unat m"
proof -
  have h: "1 \<le> unat h" "unat h \<le> unat m" using assms(1,2) by (simp_all add: word_le_nat_alt)
  have "h \<noteq> 0" using h(1) by auto
  then have m1: "unat (h - 1) = unat h - 1" by (simp add: unat_minus_one)
  have "unat (4 * w) = 4 * unat w mod 2 ^ 32" for w :: u32
    by (simp add: unat_word_ariths)
  from this [of "h - 1"] have "unat (4 * (h - 1)) = (4 * (unat h - 1)) mod 2 ^ 32"
    by (simp only: m1)
  also have "\<dots> = 4 * (unat h - 1)" using h assms(3) by (intro mod_less) auto
  finally show "unat (4 * (h - 1) :: u32) = 4 * (unat h - 1)" .
  show "unat h - 1 < unat m" using h by auto
qed

lemma vchg_link_rel:
  assumes rel: "vc_rel xc G" and i: "i < unat (maxhandle xc)" and hi: "unat (4 * h) = 4 * i"
    and n: "valpos xc ! (4 * i + 1) = n" and v: "val_ok n v"
    and r: "r = le32 (valpos xc ! (4 * i + 2)) @ varint (tchn_idx xc - valpos xc ! (4 * i + 3)) @ rec_payload n v"
    and room: "unat (vchg_siz xc) + length r \<le> unat (vchg_alloc_siz xc)"
  shows "vc_rel (vchg_link h (vchg_siz xc) (of_nat (length r))
      (xc\<lparr>vchg_mem := take (unat (vchg_siz xc)) (vchg_mem xc) @ r\<rparr>))
    (G(i := (tchn_idx xc, v) # G i))" (is "vc_rel ?xc _")
proof -
  let ?siz = "unat (vchg_siz xc)"
  have m: "length (vchg_mem xc) = ?siz" "vchg_siz xc \<noteq> 0" "vchg_siz xc \<le> vchg_alloc_siz xc"
    "length (valpos xc) = 4 * unat (maxhandle xc)"
    using rel by (auto simp: vc_rel_def)
  have "?siz + length r < 2 ^ 32" using room unat_u32 [of "vchg_alloc_siz xc"] by simp
  then have siz': "unat (vchg_siz xc + of_nat (length r)) = ?siz + length r"
    by (simp add: unat_word_ariths unat_of_nat)
  have len4: "4 * i + 3 < length (valpos xc)" using i m(4) by simp
  have pos: "valpos ?xc ! (4 * i + 2) = vchg_siz xc" "valpos ?xc ! (4 * i + 3) = tchn_idx xc"
    using len4 by (simp_all add: vchg_link_def hi)
  have other: "valpos ?xc ! j = valpos xc ! j" if "j \<noteq> 4 * i + 2" "j \<noteq> 4 * i + 3" for j
    using that by (simp add: vchg_link_def hi)
  have mem: "vchg_mem ?xc = vchg_mem xc @ r" using m(1) by (simp add: vchg_link_def)
  have chains: "chain_ok (vchg_mem ?xc) (valpos ?xc ! (4 * j + 1)) (length (vchg_mem ?xc))
      (valpos ?xc ! (4 * j + 2)) (deltas ((G(i := (tchn_idx xc, v) # G i)) j))
    \<and> valpos ?xc ! (4 * j + 3) = last_idx ((G(i := (tchn_idx xc, v) # G i)) j)"
    if j: "j < unat (maxhandle xc)" for j
  proof (cases "j = i")
    case True
    have old: "chain_ok (vchg_mem xc) n ?siz (valpos xc ! (4 * i + 2)) (deltas (G i))"
      "valpos xc ! (4 * i + 3) = last_idx (G i)"
      using rel i n m(1) by (auto simp: vc_rel_def)
    have rr: "r = le32 (valpos xc ! (4 * i + 2)) @ varint (tchn_idx xc - last_idx (G i)) @ rec_payload n v"
      by (simp add: r old(2))
    have "take (length r) (drop ?siz (vchg_mem ?xc)) = r" unfolding mem using m(1) by simp
    moreover have "?siz + length r \<le> length (vchg_mem ?xc)" unfolding mem using m(1) by simp
    moreover have "chain_ok (vchg_mem ?xc) n ?siz (valpos xc ! (4 * i + 2)) (deltas (G i))"
      unfolding mem by (rule chain_ok_append [OF old(1)])
    ultimately have "chain_ok (vchg_mem ?xc) n (length (vchg_mem ?xc)) (vchg_siz xc)
        ((tchn_idx xc - last_idx (G i), v) # deltas (G i))"
      using m(2) v unfolding chain_ok.simps rr by blast
    then show ?thesis
      using True pos other [of "4 * i + 1"] n by (simp add: deltas_Cons last_idx_def del: deltas.simps)
  next
    case False
    then have "4 * j + 1 \<noteq> 4 * i + 2 \<and> 4 * j + 1 \<noteq> 4 * i + 3 \<and> 4 * j + 2 \<noteq> 4 * i + 2
      \<and> 4 * j + 2 \<noteq> 4 * i + 3 \<and> 4 * j + 3 \<noteq> 4 * i + 2 \<and> 4 * j + 3 \<noteq> 4 * i + 3"
      by presburger
    then have e: "valpos ?xc ! (4 * j + 1) = valpos xc ! (4 * j + 1)"
      "valpos ?xc ! (4 * j + 2) = valpos xc ! (4 * j + 2)"
      "valpos ?xc ! (4 * j + 3) = valpos xc ! (4 * j + 3)"
      by (simp_all only: other not_False_eq_True)
    have g: "(G(i := (tchn_idx xc, v) # G i)) j = G j" using False by simp
    have "length (vchg_mem xc) \<le> length (vchg_mem xc @ r)" by simp
    then show ?thesis
      unfolding mem e g using rel j chain_ok_append chain_ok_mono by (auto simp: vc_rel_def)
  qed
  have frame: "maxhandle ?xc = maxhandle xc" "vchg_siz ?xc = vchg_siz xc + of_nat (length r)"
    "vchg_alloc_siz ?xc = vchg_alloc_siz xc" "length (valpos ?xc) = length (valpos xc)"
    by (simp_all add: vchg_link_def)
  have "vchg_siz xc + of_nat (length r) \<noteq> 0" using siz' m(2) by (metis add_is_0 unat_0 unat_eq_zero)
  moreover have "vchg_siz xc + of_nat (length r) \<le> vchg_alloc_siz xc"
    using siz' room by (simp add: word_le_nat_alt)
  moreover have "length (vchg_mem ?xc) = unat (vchg_siz ?xc)"
    unfolding mem frame siz' using m(1) by simp
  moreover have "4 * unat (maxhandle xc) < 2 ^ 32" using rel by (simp add: vc_rel_def)
  ultimately show ?thesis
    using chains m(4) unfolding vc_rel_def frame by blast
qed

text \<open>The frame of an emission: everything but the cells and the buffer.\<close>

definition same_setup :: "fstWriterContext \<Rightarrow> fstWriterContext \<Rightarrow> bool" where
  "same_setup xc xc' \<longleftrightarrow> maxhandle xc' = maxhandle xc \<and> tchn_idx xc' = tchn_idx xc
     \<and> valpos_mapped xc' = valpos_mapped xc \<and> is_initial_time xc' = is_initial_time xc
     \<and> fst_break_add_size xc' = fst_break_add_size xc
     \<and> curval xc' = curval xc \<and> handle xc' = handle xc \<and> hier_handle xc' = hier_handle xc
     \<and> (\<forall>i. valpos xc' ! (4 * i + 1) = valpos xc ! (4 * i + 1) \<and> valpos xc' ! (4 * i) = valpos xc ! (4 * i))"

lemma vchg_grow_rel:
  "vc_rel xc G \<Longrightarrow> vchg_alloc_siz xc \<le> vchg_alloc_siz (vchg_grow need extra xc) \<Longrightarrow>
    vc_rel (vchg_grow need extra xc) G"
  by (auto simp: vc_rel_def vchg_grow_def Let_def)

lemma vchg_grow_room:
  assumes "unat (vchg_siz xc) + unat need + unat (fst_break_add_size xc) + unat extra < 2 ^ 32"
    and "unat need \<le> unat (fst_break_add_size xc) + unat extra" and "vchg_siz xc \<le> vchg_alloc_siz xc"
  shows "unat (vchg_siz xc) + unat need \<le> unat (vchg_alloc_siz (vchg_grow need extra xc))"
    and "vchg_alloc_siz xc \<le> vchg_alloc_siz (vchg_grow need extra xc)"
proof -
  have s: "unat (vchg_siz xc + need) = unat (vchg_siz xc) + unat need"
    using assms(1) by (simp add: unat_word_ariths)
  have u: "unat (ucast (fst_break_add_size xc) :: u32) = unat (fst_break_add_size xc)"
    using assms(1) by (simp add: unsigned_ucast_eq take_bit_nat_eq_self_iff)
  have a: "unat (vchg_alloc_siz xc + (ucast (fst_break_add_size xc) + extra))
    = unat (vchg_alloc_siz xc) + (unat (fst_break_add_size xc) + unat extra)"
    if "vchg_siz xc + need > vchg_alloc_siz xc"
    using assms(1) that s by (simp add: unat_word_ariths u word_less_nat_alt)
  show "unat (vchg_siz xc) + unat need \<le> unat (vchg_alloc_siz (vchg_grow need extra xc))"
    "vchg_alloc_siz xc \<le> vchg_alloc_siz (vchg_grow need extra xc)"
    using s a assms(2,3) by (auto simp: vchg_grow_def word_le_nat_alt word_less_nat_alt)
qed

lemma vchg_grow_frame [simp]:
  "vchg_siz (vchg_grow need extra xc) = vchg_siz xc" "vchg_mem (vchg_grow need extra xc) = vchg_mem xc"
  "valpos (vchg_grow need extra xc) = valpos xc" "tchn_idx (vchg_grow need extra xc) = tchn_idx xc"
  "maxhandle (vchg_grow need extra xc) = maxhandle xc"
  "valpos_mapped (vchg_grow need extra xc) = valpos_mapped xc"
  by (simp_all add: vchg_grow_def)

lemma same_setup_link:
  assumes "unat (4 * h) = 4 * i"
  shows "same_setup xc (vchg_link h fpos k ((vchg_grow need extra xc)\<lparr>vchg_mem := m\<rparr>))"
proof -
  have a: "4 * i + 2 \<noteq> 4 * j + 1" "4 * i + 3 \<noteq> 4 * j + 1" "4 * i + 2 \<noteq> 4 * j" "4 * i + 3 \<noteq> 4 * j" for j
    by presburger+
  have e: "(valpos xc)[4 * i + 3 := x, 4 * i + 2 := y] ! (4 * j + 1) = valpos xc ! (4 * j + 1)"
    "(valpos xc)[4 * i + 3 := x, 4 * i + 2 := y] ! (4 * j) = valpos xc ! (4 * j)" for x y j
    by (simp_all only: nth_list_update_neq [OF a(1)] nth_list_update_neq [OF a(2)]
        nth_list_update_neq [OF a(3)] nth_list_update_neq [OF a(4)])
  have "valpos (vchg_link h fpos k ((vchg_grow need extra xc)\<lparr>vchg_mem := m\<rparr>))
    = (valpos xc)[4 * i + 3 := tchn_idx xc, 4 * i + 2 := fpos]"
    by (simp add: vchg_link_def assms)
  then show ?thesis
    unfolding same_setup_def using e by (simp only:) (simp add: vchg_link_def vchg_grow_def)
qed

text \<open>A value of a handle with a width.\<close>

lemma EmitValueChange_rel:
  assumes rel: "vc_rel xc G" and map: "valpos_mapped xc" and later: "\<not> is_initial_time xc"
    and h: "1 \<le> h" "h \<le> maxhandle xc" and n: "n = valpos xc ! (4 * (unat h - 1) + 1)" "n \<noteq> 0"
    and val: "unat n \<le> length val" and grow: "grow_ok xc (unat n)"
  shows "\<exists>xc'. fstWriterEmitValueChange (Some xc) h val = Inr (Some xc') \<and> same_setup xc xc'
    \<and> vc_rel xc' (G(unat h - 1 := (tchn_idx xc, take (unat n) val) # G (unat h - 1)))
    \<and> unat (vchg_siz xc') \<le> unat (vchg_siz xc) + unat n + 14"
proof -
  let ?i = "unat h - 1" and ?xg = "vchg_grow (n + 10) n xc"
  have m4: "4 * unat (maxhandle xc) < 2 ^ 32" "length (valpos xc) = 4 * unat (maxhandle xc)"
    "vchg_siz xc \<le> vchg_alloc_siz xc"
    using rel by (auto simp: vc_rel_def)
  note ix = handle_index [OF h m4(1)]
  have cell: "vm4ip xc (h - 1) k = Inr (valpos xc ! (4 * ?i + k))"
    "vm4ip ?xg (h - 1) k = Inr (valpos xc ! (4 * ?i + k))" if "k < 4" for k
    using map m4(2) ix that by (simp_all add: vm4ip_def)
  have c: "vm4ip xc (h - 1) 1 = Inr n" "vm4ip ?xg (h - 1) 2 = Inr (valpos xc ! (4 * ?i + 2))"
    "vm4ip ?xg (h - 1) 3 = Inr (valpos xc ! (4 * ?i + 3))"
    using cell(1) [of 1] cell(2) [of 2] cell(2) [of 3] n(1) by simp_all
  have g: "unat (vchg_siz xc) + unat (fst_break_add_size xc) + (2 * unat n + 20) < 2 ^ 32"
    "15 \<le> unat (fst_break_add_size xc)"
    using grow by (auto simp: grow_ok_def)
  have need: "unat (n + 10) = unat n + 10" using g(1) by (simp add: unat_word_ariths)
  have room: "unat (vchg_siz xc) + (unat n + 10) \<le> unat (vchg_alloc_siz ?xg)"
    "vchg_alloc_siz xc \<le> vchg_alloc_siz ?xg"
    using vchg_grow_room [of xc "n + 10" n] g need m4(3) by simp_all
  define r where "r = le32 (valpos xc ! (4 * ?i + 2)) @ varint (tchn_idx xc - valpos xc ! (4 * ?i + 3))
    @ rec_payload n (take (unat n) val)"
  have lr: "unat (vchg_siz xc) + length r \<le> unat (vchg_alloc_siz ?xg)"
    using room(1) val n(2) length_varint_32 [of "tchn_idx xc - valpos xc ! (4 * ?i + 3)"]
    by (simp add: r_def rec_payload_def)
  have put: "fstWriterUint32WithVarint32 (valpos xc ! (4 * ?i + 2)) (tchn_idx xc - valpos xc ! (4 * ?i + 3)) val n ?xg
    = Inr (of_nat (length r), ?xg\<lparr>vchg_mem := take (unat (vchg_siz xc)) (vchg_mem xc) @ r\<rparr>)"
    using lr val n(2) by (simp add: fstWriterUint32WithVarint32_def vchg_put_def r_def rec_payload_def)
  let ?res = "vchg_link (h - 1) (vchg_siz xc) (of_nat (length r))
      (?xg\<lparr>vchg_mem := take (unat (vchg_siz xc)) (vchg_mem xc) @ r\<rparr>)"
  have call: "fstWriterEmitValueChange (Some xc) h val = Inr (Some ?res)"
    using h(2) map later n(2) put c
    by (simp add: fstWriterEmitValueChange_def emit_maps_def Let_def)
  have "val_ok n (take (unat n) val)" using val n(2) by (simp add: val_ok_def)
  then have "vc_rel ?res (G(?i := (tchn_idx xc, take (unat n) val) # G ?i))"
    using vchg_link_rel [of ?xg G ?i "h - 1" n "take (unat n) val" r] vchg_grow_rel [OF rel room(2)]
      ix n(1) lr by (simp add: r_def)
  moreover have "unat (vchg_siz ?res) \<le> unat (vchg_siz xc) + unat n + 14"
    using lr room(1) val n(2) length_varint_32 [of "tchn_idx xc - valpos xc ! (4 * ?i + 3)"] g(1)
    by (simp add: vchg_link_def unat_word_ariths unat_of_nat r_def rec_payload_def)
  ultimately show ?thesis using call same_setup_link [OF ix(1)] by blast
qed

text \<open>A value of variable length.\<close>

lemma EmitVariableLength_rel:
  assumes rel: "vc_rel xc G" and map: "valpos_mapped xc"
    and h: "1 \<le> h" "h \<le> maxhandle xc" and z: "valpos xc ! (4 * (unat h - 1) + 1) = 0"
    and val: "unat n \<le> length val" and grow: "grow_ok xc (unat n)"
  shows "\<exists>xc'. fstWriterEmitVariableLengthValueChange (Some xc) h val n = Inr (Some xc') \<and> same_setup xc xc'
    \<and> vc_rel xc' (G(unat h - 1 := (tchn_idx xc, take (unat n) val) # G (unat h - 1)))
    \<and> unat (vchg_siz xc') \<le> unat (vchg_siz xc) + unat n + 14"
proof -
  let ?i = "unat h - 1" and ?xg = "vchg_grow (n + 10 + 5) (n + 5) xc"
  have m4: "4 * unat (maxhandle xc) < 2 ^ 32" "length (valpos xc) = 4 * unat (maxhandle xc)"
    "vchg_siz xc \<le> vchg_alloc_siz xc"
    using rel by (auto simp: vc_rel_def)
  note ix = handle_index [OF h m4(1)]
  have cell: "vm4ip xc (h - 1) k = Inr (valpos xc ! (4 * ?i + k))"
    "vm4ip ?xg (h - 1) k = Inr (valpos xc ! (4 * ?i + k))" if "k < 4" for k
    using map m4(2) ix that by (simp_all add: vm4ip_def)
  have c: "vm4ip xc (h - 1) 1 = Inr 0" "vm4ip ?xg (h - 1) 2 = Inr (valpos xc ! (4 * ?i + 2))"
    "vm4ip ?xg (h - 1) 3 = Inr (valpos xc ! (4 * ?i + 3))"
    using cell(1) [of 1] cell(2) [of 2] cell(2) [of 3] z by simp_all
  have g: "unat (vchg_siz xc) + unat (fst_break_add_size xc) + (2 * unat n + 20) < 2 ^ 32"
    "15 \<le> unat (fst_break_add_size xc)"
    using grow by (auto simp: grow_ok_def)
  have need: "unat (n + 10 + 5) = unat n + 15" "unat (n + 5) = unat n + 5"
    using g(1) by (simp_all add: unat_word_ariths)
  have room: "unat (vchg_siz xc) + (unat n + 15) \<le> unat (vchg_alloc_siz ?xg)"
    "vchg_alloc_siz xc \<le> vchg_alloc_siz ?xg"
    using vchg_grow_room [of xc "n + 10 + 5" "n + 5"] g need m4(3) by simp_all
  define r where "r = le32 (valpos xc ! (4 * ?i + 2)) @ varint (tchn_idx xc - valpos xc ! (4 * ?i + 3))
    @ rec_payload 0 (take (unat n) val)"
  have pay: "rec_payload 0 (take (unat n) val) = varint n @ take (unat n) val"
    using val by (simp add: rec_payload_def min_def)
  have lr: "unat (vchg_siz xc) + length r \<le> unat (vchg_alloc_siz ?xg)"
    using room(1) val length_varint_32 [of "tchn_idx xc - valpos xc ! (4 * ?i + 3)"] length_varint_32 [of n]
    by (simp add: r_def pay)
  have put: "fstWriterUint32WithVarint32AndLength (valpos xc ! (4 * ?i + 2))
      (tchn_idx xc - valpos xc ! (4 * ?i + 3)) val n ?xg
    = Inr (of_nat (length r), ?xg\<lparr>vchg_mem := take (unat (vchg_siz xc)) (vchg_mem xc) @ r\<rparr>)"
    using lr val by (simp add: fstWriterUint32WithVarint32AndLength_def vchg_put_def r_def pay)
  let ?res = "vchg_link (h - 1) (vchg_siz xc) (of_nat (length r))
      (?xg\<lparr>vchg_mem := take (unat (vchg_siz xc)) (vchg_mem xc) @ r\<rparr>)"
  have call: "fstWriterEmitVariableLengthValueChange (Some xc) h val n = Inr (Some ?res)"
    using h(2) map put c
    by (simp add: fstWriterEmitVariableLengthValueChange_def emit_maps_def Let_def)
  have "val_ok 0 (take (unat n) val)" using val unat_u32 [of n] by (simp add: val_ok_def)
  then have "vc_rel ?res (G(?i := (tchn_idx xc, take (unat n) val) # G ?i))"
    using vchg_link_rel [of ?xg G ?i "h - 1" 0 "take (unat n) val" r] vchg_grow_rel [OF rel room(2)]
      ix z lr by (simp add: r_def)
  moreover have "unat (vchg_siz ?res) \<le> unat (vchg_siz xc) + unat n + 14"
    using room(1) val length_varint_32 [of "tchn_idx xc - valpos xc ! (4 * ?i + 3)"]
      length_varint_32 [of n] g(1)
    by (simp add: vchg_link_def unat_word_ariths unat_of_nat r_def pay)
  ultimately show ?thesis using call same_setup_link [OF ix(1)] by blast
qed

section \<open>Runs of emissions\<close>

datatype vc_op = Emit u32 bytes | Emit_var u32 bytes u32

fun vc_step :: "wctx \<Rightarrow> vc_op \<Rightarrow> wctx outcome" where
  "vc_step ctx (Emit h val) = fstWriterEmitValueChange ctx h val"
| "vc_step ctx (Emit_var h val n) = fstWriterEmitVariableLengthValueChange ctx h val n"

fun vc_run :: "wctx \<Rightarrow> vc_op list \<Rightarrow> wctx outcome" where
  "vc_run ctx [] = Inr ctx"
| "vc_run ctx (p # ps) = andthen (vc_step ctx p) (\<lambda>ctx'. vc_run ctx' ps)"

text \<open>
  The specification over the widths \<open>L\<close> of the handles: an emission adds to the history of its
  handle, unless the handle does not exist or is of the other kind.
\<close>

fun vc_spec :: "u32 list \<Rightarrow> u32 \<Rightarrow> (nat \<Rightarrow> (u32 \<times> bytes) list) \<Rightarrow> vc_op \<Rightarrow> (nat \<Rightarrow> (u32 \<times> bytes) list)" where
  "vc_spec L t G (Emit h val) =
     (let i = unat h - 1
      in if i < length L \<and> L ! i \<noteq> 0 then G(i := (t, take (unat (L ! i)) val) # G i) else G)"
| "vc_spec L t G (Emit_var h val n) =
     (let i = unat h - 1
      in if i < length L \<and> L ! i = 0 then G(i := (t, take (unat n) val) # G i) else G)"

text \<open>The caller's side: a handle is at least 1, and the value is as long as it is said to be.\<close>

fun vc_op_ok :: "u32 list \<Rightarrow> vc_op \<Rightarrow> bool" where
  "vc_op_ok L (Emit h val) \<longleftrightarrow> 1 \<le> h \<and> (unat h \<le> length L \<longrightarrow> unat (L ! (unat h - 1)) \<le> length val)"
| "vc_op_ok L (Emit_var h val n) \<longleftrightarrow> 1 \<le> h \<and> unat n \<le> length val"

fun vc_cost :: "u32 list \<Rightarrow> vc_op \<Rightarrow> nat" where
  "vc_cost L (Emit h val) = (if unat h \<le> length L then 2 * unat (L ! (unat h - 1)) else 0) + 20"
| "vc_cost L (Emit_var h val n) = 2 * unat n + 20"

definition widths :: "fstWriterContext \<Rightarrow> u32 list" where
  "widths xc = map (\<lambda>i. valpos xc ! (4 * i + 1)) [0..<unat (maxhandle xc)]"

lemma widths_setup: "same_setup xc xc' \<Longrightarrow> widths xc' = widths xc"
  by (simp add: widths_def same_setup_def)

lemma same_setup_refl [simp]: "same_setup xc xc"
  by (simp add: same_setup_def)

lemma same_setup_trans: "same_setup a b \<Longrightarrow> same_setup b c \<Longrightarrow> same_setup a c"
  by (simp add: same_setup_def)

lemma length_widths [simp]: "length (widths xc) = unat (maxhandle xc)"
  by (simp add: widths_def)

lemma nth_widths: "i < unat (maxhandle xc) \<Longrightarrow> widths xc ! i = valpos xc ! (4 * i + 1)"
  by (simp add: widths_def)

lemma vc_step_ignored:
  assumes rel: "vc_rel xc G" and map: "valpos_mapped xc" and h: "1 \<le> h"
  shows "maxhandle xc < h \<Longrightarrow> fstWriterEmitValueChange (Some xc) h val = Inr (Some xc)"
    and "maxhandle xc < h \<Longrightarrow> fstWriterEmitVariableLengthValueChange (Some xc) h val n = Inr (Some xc)"
    and "h \<le> maxhandle xc \<Longrightarrow> valpos xc ! (4 * (unat h - 1) + 1) = 0 \<Longrightarrow>
      fstWriterEmitValueChange (Some xc) h val = Inr (Some xc)"
    and "h \<le> maxhandle xc \<Longrightarrow> valpos xc ! (4 * (unat h - 1) + 1) \<noteq> 0 \<Longrightarrow>
      fstWriterEmitVariableLengthValueChange (Some xc) h val n = Inr (Some xc)"
proof -
  have m4: "4 * unat (maxhandle xc) < 2 ^ 32" "length (valpos xc) = 4 * unat (maxhandle xc)"
    using rel by (auto simp: vc_rel_def)
  have cell: "vm4ip xc (h - 1) 1 = Inr (valpos xc ! (4 * (unat h - 1) + 1))" if "h \<le> maxhandle xc"
    using map m4(2) handle_index [OF h that m4(1)] by (simp add: vm4ip_def)
  show "maxhandle xc < h \<Longrightarrow> fstWriterEmitValueChange (Some xc) h val = Inr (Some xc)"
    "maxhandle xc < h \<Longrightarrow> fstWriterEmitVariableLengthValueChange (Some xc) h val n = Inr (Some xc)"
    by (simp_all add: fstWriterEmitValueChange_def fstWriterEmitVariableLengthValueChange_def not_le [symmetric])
  show "h \<le> maxhandle xc \<Longrightarrow> valpos xc ! (4 * (unat h - 1) + 1) = 0 \<Longrightarrow>
      fstWriterEmitValueChange (Some xc) h val = Inr (Some xc)"
    using cell map by (simp add: fstWriterEmitValueChange_def emit_maps_def Let_def)
  show "h \<le> maxhandle xc \<Longrightarrow> valpos xc ! (4 * (unat h - 1) + 1) \<noteq> 0 \<Longrightarrow>
      fstWriterEmitVariableLengthValueChange (Some xc) h val n = Inr (Some xc)"
    using cell map by (simp add: fstWriterEmitVariableLengthValueChange_def emit_maps_def Let_def)
qed

lemma vc_step_rel:
  assumes rel: "vc_rel xc G" and map: "valpos_mapped xc" and later: "\<not> is_initial_time xc"
    and ok: "vc_op_ok (widths xc) p"
    and room: "unat (vchg_siz xc) + unat (fst_break_add_size xc) + vc_cost (widths xc) p < 2 ^ 32"
    and add: "15 \<le> unat (fst_break_add_size xc)"
  shows "\<exists>xc'. vc_step (Some xc) p = Inr (Some xc') \<and> same_setup xc xc'
    \<and> vc_rel xc' (vc_spec (widths xc) (tchn_idx xc) G p)
    \<and> unat (vchg_siz xc') \<le> unat (vchg_siz xc) + vc_cost (widths xc) p"
proof (cases p)
  case (Emit h val)
  have h1: "1 \<le> h" using ok Emit by simp
  have m4: "4 * unat (maxhandle xc) < 2 ^ 32" using rel by (auto simp: vc_rel_def)
  show ?thesis
  proof (cases "h \<le> maxhandle xc")
    case False
    then have "\<not> unat h - 1 < unat (maxhandle xc)" by (simp add: word_le_nat_alt)
    then show ?thesis
      using Emit vc_step_ignored(1) [OF rel map h1] False rel by (simp add: Let_def not_le)
  next
    case True
    have i: "unat h - 1 < unat (maxhandle xc)" by (rule handle_index(2) [OF h1 True m4])
    define n where "n = valpos xc ! (4 * (unat h - 1) + 1)"
    have w: "widths xc ! (unat h - 1) = n" using nth_widths [OF i] by (simp add: n_def)
    have le: "unat h \<le> unat (maxhandle xc)" using True by (simp add: word_le_nat_alt)
    show ?thesis
    proof (cases "n = 0")
      case zero: True
      then show ?thesis
        using Emit vc_step_ignored(3) [OF rel map h1 True] rel i w by (simp add: Let_def n_def)
    next
      case False
      have val: "unat n \<le> length val" using ok Emit w le by simp
      have grow: "grow_ok xc (unat n)" using room Emit w le add by (simp add: grow_ok_def)
      obtain xc' where "fstWriterEmitValueChange (Some xc) h val = Inr (Some xc')" "same_setup xc xc'"
        "vc_rel xc' (G(unat h - 1 := (tchn_idx xc, take (unat n) val) # G (unat h - 1)))"
        "unat (vchg_siz xc') \<le> unat (vchg_siz xc) + unat n + 14"
        using EmitValueChange_rel [OF rel map later h1 True n_def False val grow] by blast
      then show ?thesis using Emit i w False le by (auto simp: Let_def)
    qed
  qed
next
  case (Emit_var h val n)
  have h1: "1 \<le> h" using ok Emit_var by simp
  have m4: "4 * unat (maxhandle xc) < 2 ^ 32" using rel by (auto simp: vc_rel_def)
  show ?thesis
  proof (cases "h \<le> maxhandle xc")
    case False
    then have "\<not> unat h - 1 < unat (maxhandle xc)" by (simp add: word_le_nat_alt)
    then show ?thesis
      using Emit_var vc_step_ignored(2) [OF rel map h1] False rel by (simp add: Let_def not_le)
  next
    case True
    have i: "unat h - 1 < unat (maxhandle xc)" by (rule handle_index(2) [OF h1 True m4])
    have w: "widths xc ! (unat h - 1) = valpos xc ! (4 * (unat h - 1) + 1)" using nth_widths [OF i] .
    show ?thesis
    proof (cases "valpos xc ! (4 * (unat h - 1) + 1) = 0")
      case False
      then show ?thesis
        using Emit_var vc_step_ignored(4) [OF rel map h1 True] rel w by (simp add: Let_def)
    next
      case zero: True
      have val: "unat n \<le> length val" using ok Emit_var by simp
      have grow: "grow_ok xc (unat n)" using room Emit_var add by (simp add: grow_ok_def)
      obtain xc' where "fstWriterEmitVariableLengthValueChange (Some xc) h val n = Inr (Some xc')" "same_setup xc xc'"
        "vc_rel xc' (G(unat h - 1 := (tchn_idx xc, take (unat n) val) # G (unat h - 1)))"
        "unat (vchg_siz xc') \<le> unat (vchg_siz xc) + unat n + 14"
        using EmitVariableLength_rel [OF rel map h1 True zero val grow] by blast
      then show ?thesis using Emit_var i w zero by (auto simp: Let_def)
    qed
  qed
qed

lemma vc_run_rel:
  assumes "vc_rel xc G" and "valpos_mapped xc" and "\<not> is_initial_time xc"
    and "\<forall>p \<in> set ps. vc_op_ok (widths xc) p"
    and "unat (vchg_siz xc) + unat (fst_break_add_size xc) + sum_list (map (vc_cost (widths xc)) ps) < 2 ^ 32"
    and "15 \<le> unat (fst_break_add_size xc)"
  shows "\<exists>xc'. vc_run (Some xc) ps = Inr (Some xc') \<and> same_setup xc xc'
    \<and> vc_rel xc' (foldl (vc_spec (widths xc) (tchn_idx xc)) G ps)"
  using assms
proof (induction ps arbitrary: xc G)
  case Nil
  then show ?case by simp
next
  case (Cons p ps)
  obtain xc1 where 1: "vc_step (Some xc) p = Inr (Some xc1)" "same_setup xc xc1"
    "vc_rel xc1 (vc_spec (widths xc) (tchn_idx xc) G p)"
    "unat (vchg_siz xc1) \<le> unat (vchg_siz xc) + vc_cost (widths xc) p"
    using vc_step_rel [OF Cons.prems(1-3), of p] Cons.prems(4-6) by auto
  have s: "widths xc1 = widths xc" "tchn_idx xc1 = tchn_idx xc" "valpos_mapped xc1" "\<not> is_initial_time xc1"
    "fst_break_add_size xc1 = fst_break_add_size xc"
    using 1(2) widths_setup [OF 1(2)] Cons.prems(2,3) by (simp_all add: same_setup_def)
  obtain xc2 where 2: "vc_run (Some xc1) ps = Inr (Some xc2)" "same_setup xc1 xc2"
    "vc_rel xc2 (foldl (vc_spec (widths xc) (tchn_idx xc)) (vc_spec (widths xc) (tchn_idx xc) G p) ps)"
    using Cons.IH [OF 1(3) s(3,4)] Cons.prems(4-6) 1(4) s(1,2,5) by auto
  then show ?case using 1(1,2) same_setup_trans by auto
qed


section \<open>Vectors of words\<close>

lemma length_bits_msb [simp]: "length (bits_msb n v) = n"
  by (simp add: bits_msb_def)

lemma bit_char_bit: "bit_char v k = (if bit v k then 49 else 48)"
proof -
  have "drop_bit k v AND 1 = of_bool (bit v k)"
    by (simp add: and_one_eq bit_iff_odd_drop_bit odd_iff_mod_2_eq_one)
  then show ?thesis by (simp add: bit_char_def)
qed

lemma nth_bits_msb: "p < n \<Longrightarrow> bits_msb n v ! p = (if bit v (n - 1 - p) then 49 else 48)"
  by (simp add: bits_msb_def bit_char_bit)

text \<open>Bit \<open>k\<close> of a vector whose least significant word comes first, as the character printed.\<close>

definition vec_digit :: "nat \<Rightarrow> 'a::len word list \<Rightarrow> nat \<Rightarrow> u8" where
  "vec_digit n val k = (if bit (val ! (k div n)) (k mod n) then 49 else 48)"

lemma vec_digit_word:
  assumes "k < n" shows "vec_digit n val (n * w + k) = (if bit (val ! w) k then 49 else 48)"
  using assms by (simp add: vec_digit_def)

lemma vec_words_32:
  "w \<le> length val \<Longrightarrow> \<exists>s. vec_words 32 val w = Inr s \<and> length s = 32 * w
    \<and> (\<forall>p < 32 * w. s ! p = vec_digit 32 val (32 * w - 1 - p))"
proof (induction w)
  case (Suc w)
  then obtain s where s: "vec_words 32 val w = Inr s" "length s = 32 * w"
    "\<forall>p < 32 * w. s ! p = vec_digit 32 val (32 * w - 1 - p)" by auto
  have "(bits_msb 32 (val ! w) @ s) ! p = vec_digit 32 val (32 * Suc w - 1 - p)" if p: "p < 32 * Suc w" for p
  proof (cases "p < 32")
    case True
    then have "32 * Suc w - 1 - p = 32 * w + (31 - p)" by simp
    then show ?thesis
      using True vec_digit_word [of "31 - p" 32 val w] by (simp add: nth_append nth_bits_msb)
  next
    case False
    then have "32 * Suc w - 1 - p = 32 * w - 1 - (p - 32)" by simp
    then show ?thesis using False p s by (simp add: nth_append)
  qed
  then show ?case using s Suc.prems by (simp add: bits_checked_def)
qed simp

lemma vec_words_64_faults:
  "0 < w \<Longrightarrow> vec_words 64 (val :: u32 list) w \<in> {Inl Bad_shift, Inl Out_of_bounds}"
  by (cases w) (auto simp: load_def bits_checked_def)

section \<open>Properties\<close>

text \<open>
  C10. Value changes are kept: any sequence of emissions at one time index runs without a fault,
  leaves the buffer within its allocation, and leaves for every handle a chain of records, through
  the back pointers, that holds exactly the values emitted for that handle, the newest first, each
  with its distance in time indices from the one before it. An emission for a handle that does not
  exist, or of the other kind of width, changes nothing.
\<close>

theorem value_change_history:
  assumes "vc_rel xc G" and "valpos_mapped xc" and "\<not> is_initial_time xc"
    and "\<forall>p \<in> set ps. vc_op_ok (widths xc) p"
    and "unat (vchg_siz xc) + unat (fst_break_add_size xc) + sum_list (map (vc_cost (widths xc)) ps) < 2 ^ 32"
    and "15 \<le> unat (fst_break_add_size xc)"
  shows "\<exists>xc'. vc_run (Some xc) ps = Inr (Some xc')
    \<and> length (vchg_mem xc') = unat (vchg_siz xc') \<and> vchg_siz xc' \<le> vchg_alloc_siz xc'
    \<and> widths xc' = widths xc \<and> curval xc' = curval xc \<and> handle xc' = handle xc
    \<and> (\<forall>i < unat (maxhandle xc).
         let hist = foldl (vc_spec (widths xc) (tchn_idx xc)) G ps i
         in chain_ok (vchg_mem xc') (widths xc ! i) (length (vchg_mem xc')) (valpos xc' ! (4 * i + 2))
              (deltas hist)
           \<and> valpos xc' ! (4 * i + 3) = last_idx hist)"
proof -
  obtain xc' where 1: "vc_run (Some xc) ps = Inr (Some xc')" "same_setup xc xc'"
    "vc_rel xc' (foldl (vc_spec (widths xc) (tchn_idx xc)) G ps)"
    using vc_run_rel [OF assms] by blast
  then show ?thesis
    using widths_setup [OF 1(2)] nth_widths [of _ xc]
    by (auto simp: vc_rel_def same_setup_def Let_def)
qed

text \<open>Two handles, of one and of variable width, in a fresh section.\<close>

definition demo_section :: fstWriterContext where
  "demo_section = writer_zero\<lparr>valpos := [0, 1, 0, 0, 1, 0, 0, 0], valpos_mapped := True, maxhandle := 2,
     vchg_mem := [33], vchg_siz := 1, vchg_alloc_siz := 100, tchn_idx := 1, fst_break_add_size := 50\<rparr>"

lemma demo_section_rel: "vc_rel demo_section (\<lambda>_. [])"
  by (auto simp: vc_rel_def demo_section_def writer_zero_def last_idx_def dest: less_2_cases)

lemma value_change_history_witness:
  "\<exists>xc'. vc_run (Some demo_section) [Emit 1 [49], Emit_var 2 [104, 105] 2, Emit 1 [48]] = Inr (Some xc')
    \<and> chain_ok (vchg_mem xc') 1 (length (vchg_mem xc')) (valpos xc' ! (4 * 0 + 2)) [(0, [48]), (1, [49])]
    \<and> chain_ok (vchg_mem xc') 0 (length (vchg_mem xc')) (valpos xc' ! (4 * 1 + 2)) [(1, [104, 105])]"
proof -
  let ?ps = "[Emit 1 [49], Emit_var 2 [104, 105] 2, Emit 1 [48]]"
  have w: "widths demo_section = [1, 0]"
    by (simp add: widths_def demo_section_def writer_zero_def upt_rec)
  have m2: "unat (maxhandle demo_section) = 2" "tchn_idx demo_section = 1"
    by (simp_all add: demo_section_def writer_zero_def)
  define hist where "hist = foldl (vc_spec [1, 0] 1) (\<lambda>_. []) ?ps"
  have hist: "deltas (hist 0) = [(0, [48]), (1, [49])]" "deltas (hist 1) = [(1, [104, 105])]"
    by (simp_all add: hist_def)
  have pre: "valpos_mapped demo_section" "\<not> is_initial_time demo_section"
    "\<forall>p \<in> set ?ps. vc_op_ok (widths demo_section) p"
    "unat (vchg_siz demo_section) + unat (fst_break_add_size demo_section)
      + sum_list (map (vc_cost (widths demo_section)) ?ps) < 2 ^ 32" "15 \<le> unat (fst_break_add_size demo_section)"
    by (simp_all add: w) (simp_all add: demo_section_def writer_zero_def)
  obtain xc' where x: "vc_run (Some demo_section) ?ps = Inr (Some xc')"
    "\<forall>i < 2. chain_ok (vchg_mem xc') ([1, 0] ! i) (length (vchg_mem xc')) (valpos xc' ! (4 * i + 2)) (deltas (hist i))
      \<and> valpos xc' ! (4 * i + 3) = last_idx (hist i)"
    using value_change_history [OF demo_section_rel pre, unfolded w m2 Let_def, folded hist_def]
    by (elim exE conjE) (rule that)
  have "0 < (2 :: nat)" "1 < (2 :: nat)" by simp_all
  with x(2) have "chain_ok (vchg_mem xc') ([1, 0] ! 0) (length (vchg_mem xc')) (valpos xc' ! (4 * 0 + 2)) (deltas (hist 0))"
    "chain_ok (vchg_mem xc') ([1, 0] ! 1) (length (vchg_mem xc')) (valpos xc' ! (4 * 1 + 2)) (deltas (hist 1))"
    by blast+
  with x(1) show ?thesis unfolding hist by (intro exI [of _ xc']) (simp del: chain_ok.simps)
qed

text \<open>
  A vector of 32-bit words is emitted most significant bit first: when the array holds the
  word above the full ones, the bytes handed to \<open>fstWriterEmitValueChange\<close> start with one digit
  per bit, digit \<open>p\<close> being bit \<open>bits - 1 - p\<close> of the vector whose word 0 is the least
  significant.
\<close>

theorem vec32_msb_first:
  assumes "unat bits < 2 ^ 31" and "val \<noteq> []" and "32 < unat bits \<longrightarrow> unat bits div 32 < length val"
    and "32 \<le> length stack" and "2 * unat bits + 1 \<le> length heap"
  shows "\<exists>buf xc'. fstWriterEmitValueChangeVec32 stack heap (Some xc) h bits val
      = fstWriterEmitValueChange (Some xc') h buf
    \<and> unat bits \<le> length buf \<and> (\<forall>p < unat bits. buf ! p = vec_digit 32 val (unat bits - 1 - p))
    \<and> (\<exists>a. xc' = xc\<lparr>outval_alloc_siz := a\<rparr>)"
proof (cases "bits \<le> 32")
  case True
  then have b: "unat bits \<le> 32" by (simp add: word_le_nat_alt)
  let ?buf = "bits_msb (unat bits) (val ! 0) @ drop (unat bits) (take 32 stack)"
  have "fstWriterEmitValueChangeVec32 stack heap (Some xc) h bits val = fstWriterEmitValueChange (Some xc) h ?buf"
    using True b assms(2,4)
    by (simp add: fstWriterEmitValueChangeVec32_def fstWriterEmitValueChange32_def bits_checked_def store_n_def
        min_def)
  moreover have "?buf ! p = vec_digit 32 val (unat bits - 1 - p)" if "p < unat bits" for p
    using that b vec_digit_word [of "unat bits - 1 - p" 32 val 0] by (simp add: nth_append nth_bits_msb)
  ultimately show ?thesis
    by (intro exI [of _ ?buf] exI [of _ xc]) (auto intro: exI [of _ "outval_alloc_siz xc"])
next
  case False
  then have b: "32 < unat bits" by (simp add: word_le_nat_alt)
  define q where "q = unat bits div 32"
  define m where "m = unat bits mod 32"
  have qm: "unat bits = 32 * q + m" "m < 32" by (simp_all add: q_def m_def)
  obtain s where s: "vec_words 32 val q = Inr s" "length s = 32 * q"
    "\<forall>p < 32 * q. s ! p = vec_digit 32 val (32 * q - 1 - p)"
    using vec_words_32 [of q val] assms(3) b by (auto simp: q_def)
  define xc' where "xc' = (if bits > outval_alloc_siz xc then xc\<lparr>outval_alloc_siz := bits * 2 + 1\<rparr> else xc)"
  have "unat (bits * 2 + 1) = 2 * unat bits + 1" using assms(1) by (simp add: unat_word_ariths)
  then have a: "unat bits \<le> min (unat (outval_alloc_siz xc')) (length heap)"
    using assms(5) by (auto simp: xc'_def word_less_nat_alt not_less)
  let ?d = "bits_msb m (val ! q) @ s"
  let ?buf = "?d @ drop (m + 32 * q) (take (unat (outval_alloc_siz xc')) heap)"
  have "fstWriterEmitValueChangeVec32 stack heap (Some xc) h bits val = fstWriterEmitValueChange (Some xc') h ?buf"
    using False b a s(1,2) qm assms(3)
    by (auto simp: fstWriterEmitValueChangeVec32_def emit_vec_def Let_def xc'_def [symmetric] q_def [symmetric]
        m_def [symmetric] bits_checked_def store_n_def)
  moreover have "?buf ! p = vec_digit 32 val (unat bits - 1 - p)" if p: "p < unat bits" for p
  proof (cases "p < m")
    case True
    then have "unat bits - 1 - p = 32 * q + (m - 1 - p)" using qm by simp
    then show ?thesis
      using True qm vec_digit_word [of "m - 1 - p" 32 val q] by (simp add: nth_append nth_bits_msb)
  next
    case False
    then have "unat bits - 1 - p = 32 * q - 1 - (p - m)" "p - m < 32 * q" using qm p by simp_all
    then show ?thesis using False s by (simp add: nth_append)
  qed
  moreover have "\<exists>a. xc' = xc\<lparr>outval_alloc_siz := a\<rparr>"
    by (auto simp: xc'_def intro: exI [of _ "outval_alloc_siz xc"])
  ultimately show ?thesis using s(2) qm by (intro exI [of _ ?buf] exI [of _ xc']) auto
qed

lemma vec32_msb_first_witness:
  "\<exists>buf xc'. fstWriterEmitValueChangeVec32 (replicate 32 0) (replicate 100 0) (Some writer_zero) 1 34 [5, 2]
      = fstWriterEmitValueChange (Some xc') 1 buf
    \<and> buf ! 0 = 49 \<and> buf ! 1 = 48 \<and> buf ! 31 = 49 \<and> buf ! 32 = 48 \<and> buf ! 33 = 49"
proof -
  have u: "unat (34 :: u32) = 34" by simp
  have pre: "unat (34 :: u32) < 2 ^ 31" "[5, 2] \<noteq> []"
    "32 < unat (34 :: u32) \<longrightarrow> unat (34 :: u32) div 32 < length [5, 2 :: u32]"
    "32 \<le> length (replicate 32 (0 :: u8))" "2 * unat (34 :: u32) + 1 \<le> length (replicate 100 (0 :: u8))"
    by simp_all
  obtain buf xc' where b: "fstWriterEmitValueChangeVec32 (replicate 32 0) (replicate 100 0) (Some writer_zero) 1 34 [5, 2]
      = fstWriterEmitValueChange (Some xc') 1 buf"
    "\<forall>p < 34. buf ! p = vec_digit 32 [5, 2 :: u32] (34 - 1 - p)"
    using vec32_msb_first [OF pre, unfolded u, of writer_zero 1] by (elim exE conjE) (rule that)
  have "buf ! 0 = 49" "buf ! 1 = 48" "buf ! 31 = 49" "buf ! 32 = 48" "buf ! 33 = 49"
    using b(2) by (simp_all add: vec_digit_def)
  with b(1) show ?thesis by blast
qed

text \<open>
  A vector that fills its words is read past its end: with more than 32 bits, a multiple of
  32, and an array of exactly that many words, \<open>fstWriterEmitValueChangeVec32\<close> reads one word
  beyond the array, whatever the context.
\<close>

theorem vec32_reads_past_full_vector:
  assumes "32 < bits" and "unat bits = 32 * length val"
  shows "fstWriterEmitValueChangeVec32 stack heap (Some xc) h bits val = Inl Out_of_bounds"
proof -
  have "\<not> bits \<le> 32" using assms(1) by (simp add: not_le)
  then show ?thesis
    using assms(2) by (simp add: fstWriterEmitValueChangeVec32_def emit_vec_def Let_def load_def)
qed

lemma vec32_reads_past_full_vector_witness:
  "fstWriterEmitValueChangeVec32 [] [] (Some writer_zero) 1 64 [1, 2] = Inl Out_of_bounds"
  by (rule vec32_reads_past_full_vector) simp_all

text \<open>
  Vectors of 64-bit words beyond one word cannot be emitted: each word goes through a 32-bit
  variable that is then shifted by up to 63, so every call with more than 64 bits has a shift
  without meaning, or a read outside the array before it.
\<close>

theorem vec64_never_defined:
  assumes "64 < bits"
  shows "fstWriterEmitValueChangeVec64 stack heap (Some xc) h bits val \<in> {Inl Bad_shift, Inl Out_of_bounds}"
proof -
  have b: "\<not> bits \<le> 64" "64 < unat bits" using assms by (simp_all add: not_le word_less_nat_alt)
  then have "0 < unat bits div 64" by simp
  from vec_words_64_faults [OF this, of "map ucast val"]
  show ?thesis
    using b(1) by (auto simp: fstWriterEmitValueChangeVec64_def emit_vec_def Let_def load_def bits_checked_def)
qed

lemma vec64_never_defined_witness:
  "fstWriterEmitValueChangeVec64 [] [] (Some writer_zero) 1 128 [1, 2, 3] \<in> {Inl Bad_shift, Inl Out_of_bounds}"
  by (rule vec64_never_defined) simp

text \<open>
  Handle 0 passes the range check and is used: \<open>handle <= maxhandle\<close> holds for it, and the
  decrement wraps around to a cell outside \<open>valpos\<close>.
\<close>

theorem handle_zero_out_of_bounds:
  assumes "valpos_mapped xc" and "length (valpos xc) = 4 * unat (maxhandle xc)"
    and "4 * unat (maxhandle xc) < 2 ^ 32 - 4"
  shows "fstWriterEmitValueChange (Some xc) 0 val = Inl Out_of_bounds
    \<and> fstWriterEmitVariableLengthValueChange (Some xc) 0 val n = Inl Out_of_bounds"
proof -
  have "vm4ip xc (0 - 1) 1 = Inl Out_of_bounds"
    using assms by (simp add: vm4ip_def load_def)
  then show ?thesis
    using assms(1)
    by (simp add: fstWriterEmitValueChange_def fstWriterEmitVariableLengthValueChange_def emit_maps_def
        Let_def)
qed

lemma handle_zero_out_of_bounds_witness:
  "fstWriterEmitValueChange (Some demo_section) 0 [49] = Inl Out_of_bounds"
  using handle_zero_out_of_bounds [of demo_section "[49]"]
  by (simp add: demo_section_def writer_zero_def)

end
