(* ===== verification/Flush.thy ===== *)
theory Flush
  imports Value_Change
begin

text \<open>
  Writing a value change block (\<open>fstapi.c\<close>, lines 1275 to 1808, 1916 to 1926 and 3211 to 3263):
  \<open>fstWriterFlushContextPrivate\<close> turns the backward chain of each handle into one forward run of
  packed records, compresses it, shares equal runs between handles, writes the index of runs, the
  time table and the block trailer; \<open>fstWriterEmitTimeChange\<close> starts the first section and decides
  when to flush. The parallel writer is compiled out.
\<close>

section \<open>The scratch pad\<close>

text \<open>
  \<open>scratchpad\<close> has \<open>vchg_siz\<close> bytes and is filled from its end: the argument \<open>sp\<close> is what is there
  from \<open>scratchpnt\<close> on, \<open>cap\<close> the size of the allocation.
\<close>

definition scratch_put :: "nat \<Rightarrow> bytes \<Rightarrow> bytes \<Rightarrow> bytes outcome" where
  "scratch_put cap d sp = (if length d + length sp \<le> cap then Inr (d @ sp) else Inl Out_of_bounds)"

definition scratch_varint :: "nat \<Rightarrow> u32 \<Rightarrow> bytes \<Rightarrow> bytes outcome" where
  "scratch_varint cap v sp =
     (let sp' = fstCopyVarint32ToLeft sp v
      in if length sp' \<le> cap then Inr sp' else Inl Out_of_bounds)"

section \<open>Chains\<close>

text \<open>One record of a one-bit handle: \<open>FST_RCV_X\<close> to \<open>FST_RCV_D\<close> are \<open>1 | (k << 1)\<close>.\<close>

definition rcv_1bit :: "u8 \<Rightarrow> u32 \<Rightarrow> u32" where
  "rcv_1bit val time_delta =
     (if val = ascii CHR ''0'' \<or> val = ascii CHR ''1''
      then push_bit 1 (ucast (val AND 1)) OR push_bit 2 time_delta
      else (1 OR push_bit 1
              (if val = ascii CHR ''x'' \<or> val = ascii CHR ''X'' then 0
               else if val = ascii CHR ''z'' \<or> val = ascii CHR ''Z'' then 1
               else if val = ascii CHR ''h'' \<or> val = ascii CHR ''H'' then 2
               else if val = ascii CHR ''u'' \<or> val = ascii CHR ''U'' then 3
               else if val = ascii CHR ''w'' \<or> val = ascii CHR ''W'' then 4
               else if val = ascii CHR ''l'' \<or> val = ascii CHR ''L'' then 5 else 6))
           OR push_bit 4 time_delta)"

text \<open>
  The loops \<open>while(offs)\<close>. Each round adds at least a byte to the scratch pad, so a chain with more
  than \<open>vchg_siz\<close> records overruns it before the first argument, \<open>vchg_siz + 1\<close>, is used up.
\<close>

primrec chain_1bit :: "nat \<Rightarrow> nat \<Rightarrow> bytes \<Rightarrow> u32 \<Rightarrow> bytes \<Rightarrow> bytes outcome" where
  "chain_1bit 0 cap mem offs sp = Inl Hang"
| "chain_1bit (Suc k) cap mem offs sp =
     (if offs = 0 then Inr sp
      else andthen (fstGetUint32 (drop (unat offs) mem)) (\<lambda>next_offs.
           let p = unat (offs + 4)
           in andthen (fstGetVarint32 (drop p mem)) (\<lambda>(time_delta, wrlen).
              andthen (load mem (p + wrlen)) (\<lambda>val.
              andthen (scratch_varint cap (rcv_1bit val time_delta) sp)
                (\<lambda>sp. chain_1bit k cap mem next_offs sp)))))"

primrec chain_var :: "nat \<Rightarrow> nat \<Rightarrow> bytes \<Rightarrow> u32 \<Rightarrow> bytes \<Rightarrow> bytes outcome" where
  "chain_var 0 cap mem offs sp = Inl Hang"
| "chain_var (Suc k) cap mem offs sp =
     (if offs = 0 then Inr sp
      else andthen (fstGetUint32 (drop (unat offs) mem)) (\<lambda>next_offs.
           let p = unat (offs + 4)
           in andthen (fstGetVarint32 (drop p mem)) (\<lambda>(time_delta, w1).
              andthen (fstGetVarint32 (drop (p + w1) mem)) (\<lambda>(record_len, w2).
              andthen (load_n mem (p + w1 + w2) (unat record_len)) (\<lambda>d.
              andthen (scratch_put cap d sp) (\<lambda>sp.
              andthen (scratch_varint cap record_len sp) (\<lambda>sp.
              andthen (scratch_varint cap (push_bit 1 time_delta) sp)
                (\<lambda>sp. chain_var k cap mem next_offs sp))))))))"

definition is_binary :: "bytes \<Rightarrow> bool" where
  "is_binary d \<longleftrightarrow> list_all (\<lambda>b. b = ascii CHR ''0'' \<or> b = ascii CHR ''1'') d"

text \<open>
  The unrolled loop that packs eight digits to a byte. Byte \<open>g\<close> takes the digits from \<open>8*g\<close> on, \<open>m\<close>
  of them, the last first, digit \<open>k\<close> to bit \<open>7 - k\<close>; the \<open>switch\<close> enters the last byte with
  what is left over, and the bytes are stored from the last to the first.
\<close>

definition pack_byte :: "bytes \<Rightarrow> nat \<Rightarrow> nat \<Rightarrow> u8" where
  "pack_byte pnt g m = foldl (\<lambda>acc k. acc OR push_bit (7 - k) (pnt ! (8 * g + k) AND 1)) 0 (rev [0..<m])"

primrec pack_groups :: "nat \<Rightarrow> nat \<Rightarrow> bytes \<Rightarrow> bytes" where
  "pack_groups 0 m pnt = []"
| "pack_groups (Suc g) m pnt = pack_groups g 8 pnt @ [pack_byte pnt g m]"

definition pack_bits :: "u32 \<Rightarrow> bytes \<Rightarrow> bytes" where
  "pack_bits n pnt =
     pack_groups (unat ((n + 7) AND NOT 7) div 8) (if n AND 7 = 0 then 8 else unat (n AND 7)) pnt"

primrec chain_vec :: "u32 \<Rightarrow> nat \<Rightarrow> nat \<Rightarrow> bytes \<Rightarrow> u32 \<Rightarrow> bytes \<Rightarrow> bytes outcome" where
  "chain_vec n 0 cap mem offs sp = Inl Hang"
| "chain_vec n (Suc k) cap mem offs sp =
     (if offs = 0 then Inr sp
      else andthen (fstGetUint32 (drop (unat offs) mem)) (\<lambda>next_offs.
           let p = unat (offs + 4)
           in andthen (fstGetVarint32 (drop p mem)) (\<lambda>(time_delta, wrlen).
              andthen (load_n mem (p + wrlen) (unat n)) (\<lambda>pnt.
              andthen (if is_binary pnt
                       then andthen (scratch_put cap (pack_bits n pnt) sp)
                              (\<lambda>sp. scratch_varint cap (push_bit 1 time_delta) sp)
                       else andthen (scratch_put cap pnt sp)
                              (\<lambda>sp. scratch_varint cap (push_bit 1 time_delta OR 1) sp))
                (\<lambda>sp. chain_vec n k cap mem next_offs sp)))))"

definition flush_chain :: "u32 \<Rightarrow> u32 \<Rightarrow> fstWriterContext \<Rightarrow> bytes outcome" where
  "flush_chain n offs xc =
     (let cap = unat (vchg_siz xc); k = Suc cap; mem = vchg_mem xc
      in if n \<le> 1 then (if n = 1 then chain_1bit k cap mem offs [] else chain_var k cap mem offs [])
         else chain_vec n k cap mem offs [])"

text \<open>The last value of a handle with a width goes to \<open>curval_mem\<close>.\<close>

definition flush_checkpoint :: "u32 \<Rightarrow> u32 \<Rightarrow> u32 \<Rightarrow> fstWriterContext \<Rightarrow> fstWriterContext outcome" where
  "flush_checkpoint pos n offs xc =
     (if n = 0 then Inr xc
      else let p = unat (offs + 4)
           in andthen (fstGetVarint32Length (drop p (vchg_mem xc))) (\<lambda>wrlen.
              andthen (load_n (vchg_mem xc) (p + wrlen) (unat n)) (\<lambda>d.
                if \<not> curval_mapped xc then Inl Null_deref
                else andthen (store_n (curval xc) (unat pos) d) (\<lambda>cv. Inr (xc\<lparr>curval := cv\<rparr>)))))"

section \<open>Packing and sharing\<close>

text \<open>
  The compressors are arguments: \<open>compress2\<close> as in the section header, and the results of
  \<open>LZ4_compress_default\<close> and \<open>fastlz_compress\<close>.
\<close>

record packers =
  compress2 :: "nat \<Rightarrow> bytes \<Rightarrow> bytes option"
  LZ4_compress_default :: "bytes \<Rightarrow> bytes"
  fastlz_compress :: "bytes \<Rightarrow> bytes"

text \<open>
  What is stored for a run: the bytes, and the number in front of them, the uncompressed length or
  0 for bytes stored as they are. \<open>compress2\<close> may use as many bytes as it is given.
\<close>

definition pack_chain :: "packers \<Rightarrow> fstWriterContext \<Rightarrow> bytes \<Rightarrow> bytes \<times> u32" where
  "pack_chain pk xc run =
     (if length run > 32
      then if \<not> fastpack xc
           then (case compress2 pk 4 run of Some d \<Rightarrow> (d, of_nat (length run)) | None \<Rightarrow> (run, 0))
           else let d = (if fourpack xc then LZ4_compress_default pk run else fastlz_compress pk run)
                in if length d < length run then (d, of_nat (length run)) else (run, 0)
      else (run, 0))"

text \<open>\<open>fpos\<close>, the table behind \<open>PJHSArray\<close> and \<open>unc_memreq\<close> go around with the context.\<close>

record flush_state =
  fl_xc :: fstWriterContext
  fl_fpos :: u64
  fl_hash :: "u32 jtable"
  fl_memreq :: u64

definition set_vm4ip :: "u32 \<Rightarrow> nat \<Rightarrow> u32 \<Rightarrow> fstWriterContext \<Rightarrow> fstWriterContext" where
  "set_vm4ip i k v xc = xc\<lparr>valpos := (valpos xc)[unat (4 * i) + k := v]\<rparr>"

definition flush_store :: "u32 \<Rightarrow> u32 \<Rightarrow> bytes \<Rightarrow> u32 \<Rightarrow> flush_state \<Rightarrow> flush_state outcome" where
  "flush_store hashmask i d header st =
     andthen (find_or_set hashmask (fl_hash st) d (i + 1)) (\<lambda>(pv, hash).
       case pv of
         Some pvi \<Rightarrow> Inr (st\<lparr>fl_hash := hash, fl_xc := set_vm4ip i 2 (- pvi) (fl_xc st)\<rparr>)
       | None \<Rightarrow>
           andthen (fstWriterVarint (ucast header) (handle (fl_xc st))) (\<lambda>(k, h).
             Inr (st\<lparr>fl_hash := hash, fl_xc := (fl_xc st)\<lparr>handle := fstFwrite d h\<rparr>,
                     fl_fpos := fl_fpos st + of_nat k + of_nat (length d)\<rparr>)))"

text \<open>One round of the loop over the handles.\<close>

definition flush_handle :: "packers \<Rightarrow> u32 \<Rightarrow> u32 \<Rightarrow> flush_state \<Rightarrow> flush_state outcome" where
  "flush_handle pk hashmask i st =
     (let xc = fl_xc st
      in andthen (vm4ip xc i 2) (\<lambda>offs.
         if offs = 0 then Inr st
         else andthen (vm4ip xc i 0) (\<lambda>pos.
              andthen (vm4ip xc i 1) (\<lambda>n.
              let xc = set_vm4ip i 2 (ucast (fl_fpos st)) xc
              in andthen (flush_checkpoint pos n offs xc) (\<lambda>xc.
                 andthen (flush_chain n offs xc) (\<lambda>run.
                 let (d, header) = pack_chain pk xc run
                 in flush_store hashmask i d header
                      (st\<lparr>fl_xc := xc, fl_memreq := fl_memreq st + of_nat (length run)\<rparr>)))))))"

primrec flush_handles :: "packers \<Rightarrow> u32 \<Rightarrow> nat list \<Rightarrow> flush_state \<Rightarrow> flush_state outcome" where
  "flush_handles pk hashmask [] st = Inr st"
| "flush_handles pk hashmask (i # is) st =
     andthen (flush_handle pk hashmask (of_nat i) st) (flush_handles pk hashmask is)"

section \<open>The index of runs\<close>

text \<open>
  \<open>zerocnt << 1\<close> is computed in an \<open>int\<close>. The cells are cleared on the way; \<open>prev_alias\<close> and
  \<open>prevpos\<close> are the last of each kind that was written.
\<close>

definition emit_zeros :: "nat \<Rightarrow> fstWriterContext \<Rightarrow> fstWriterContext outcome" where
  "emit_zeros zerocnt xc =
     (if zerocnt = 0 then Inr xc
      else if zerocnt < 2 ^ 30
      then andthen (fstWriterVarint (of_nat (2 * zerocnt)) (handle xc)) (\<lambda>(_, h). Inr (xc\<lparr>handle := h\<rparr>))
      else Inl Int_overflow)"

definition emit_svarint :: "u64 \<Rightarrow> fstWriterContext \<Rightarrow> fstWriterContext outcome" where
  "emit_svarint v xc = andthen (fstWriterSVarint v (handle xc)) (\<lambda>(_, h). Inr (xc\<lparr>handle := h\<rparr>))"

text \<open>The value written for a cell: \<open>(int64_t)(int32_t)\<close> of an alias, shifted, the same alias as 0,
  and the distance of a position, shifted in 32 bits.\<close>

definition index_word :: "u32 \<Rightarrow> u32 \<Rightarrow> u32 \<Rightarrow> u64" where
  "index_word v prev_alias prevpos =
     (if v AND 0x80000000 \<noteq> 0
      then if v \<noteq> prev_alias then push_bit 1 (scast v) OR 1 else 1
      else ucast (push_bit 1 (v - prevpos) OR 1))"

primrec flush_index ::
    "nat list \<Rightarrow> u32 \<Rightarrow> u32 \<Rightarrow> nat \<Rightarrow> fstWriterContext \<Rightarrow> fstWriterContext outcome" where
  "flush_index [] prev_alias prevpos zerocnt xc = emit_zeros zerocnt xc"
| "flush_index (i # is) prev_alias prevpos zerocnt xc =
     andthen (vm4ip xc (of_nat i) 2) (\<lambda>v.
       if v = 0 then flush_index is prev_alias prevpos (zerocnt + 1) xc
       else andthen (emit_zeros zerocnt xc) (\<lambda>xc.
            andthen (emit_svarint (index_word v prev_alias prevpos) xc) (\<lambda>xc.
            let xc = set_vm4ip (of_nat i) 3 0 (set_vm4ip (of_nat i) 2 0 xc)
            in if v AND 0x80000000 \<noteq> 0 then flush_index is v prevpos 0 xc
               else flush_index is prev_alias v 0 xc)))"

section \<open>The end of a block\<close>

text \<open>
  The time table: what \<open>tchn_handle\<close> holds before its position, compressed when that is shorter,
  with both lengths and the number of items. \<open>mmap\<close> is taken to succeed.
\<close>

definition flush_times :: "packers \<Rightarrow> fstWriterContext \<Rightarrow> fstWriterContext" where
  "flush_times pk xc =
     (let tlen = ftello (tchn_handle xc);
          tmem = take tlen (f_data (tchn_handle xc));
          packed = (case compress2 pk 9 tmem of
                      Some d \<Rightarrow> if length d < tlen then d else tmem
                    | None \<Rightarrow> tmem);
          xc = on_handle (\<lambda>h. fstWriterUint64 (ucast (tchn_cnt xc)) (fstWriterUint64 (of_nat (length packed))
                 (fstWriterUint64 (of_nat tlen) (fstFwrite packed h)))) xc
      in xc\<lparr>tchn_cnt := 0, tchn_idx := 0,
           tchn_handle := fstFtruncate (snd (fseeko (tchn_handle xc) 0 SEEK_SET)) 0\<rparr>)"

text \<open>The fields of the section header that were left open, and the tag of a finished block.\<close>

definition flush_trailer :: "u64 \<Rightarrow> fstWriterContext \<Rightarrow> fstWriterContext" where
  "flush_trailer memreq xc =
     (let endpos = ftello (handle xc);
          xc = fstWriterFseeko (int (section_start xc)) SEEK_SET xc;
          xc = on_handle (fstWriterUint64 (of_nat (endpos - section_start xc))) xc;
          xc = fstWriterFseeko 8 SEEK_CUR xc;
          xc = on_handle (\<lambda>h. fstWriterUint64 memreq (fstWriterUint64 (curtime xc) h)) xc;
          xc = fstWriterFseeko (int (section_start xc) - 1) SEEK_SET xc;
          xc = on_handle (fputc FST_BL_VCDATA_DYN_ALIAS2) xc;
          xc = fstWriterFseeko (int endpos) SEEK_SET xc;
          xc = xc\<lparr>section_header_truncpos := endpos\<rparr>
      in if dump_size_limit xc \<noteq> 0 \<and> sint (dump_size_limit xc) \<le> int endpos
         then xc\<lparr>skip_writing_section_hdr := True, size_limit_locked := True, is_initial_time := True\<rparr>
         else xc)"

text \<open>\<open>fstWriterFlushContextPrivate\<close>.\<close>

definition fstWriterFlushContextPrivate :: "packers \<Rightarrow> fstWriterContext \<Rightarrow> fstWriterContext outcome" where
  "fstWriterFlushContextPrivate pk xc =
     (if vchg_siz xc \<le> 1 \<or> already_in_flush xc then Inr xc
      else let is = [0..<unat (maxhandle xc)];
               xc = xc\<lparr>already_in_flush := True, section_header_only := False\<rparr>
           in andthen (fstWriterVarint (ucast (maxhandle xc)) (handle xc)) (\<lambda>(_, h).
              let xc = xc\<lparr>handle := fputc (if fourpack xc then ascii CHR ''4''
                                  else if fastpack xc then ascii CHR ''F'' else ascii CHR ''Z'') h\<rparr>;
                  hashmask = flush_hashmask (maxhandle xc)
              in andthen (flush_handles pk hashmask is
                            \<lparr>fl_xc = xc, fl_fpos = 1, fl_hash = None, fl_memreq = 0\<rparr>) (\<lambda>st.
                 andthen (JenkinsFree (fl_hash st) hashmask) (\<lambda>_.
                 let xc = fl_xc st; indxpos = ftello (handle xc);
                     xc = xc\<lparr>secnum := secnum xc + 1\<rparr>
                 in andthen (flush_index is 0 0 0 xc) (\<lambda>xc.
                    let xc = xc\<lparr>vchg_mem := [33], vchg_siz := 1\<rparr>;
                        endpos = ftello (handle xc);
                        xc = on_handle (fstWriterUint64 (of_nat (endpos - indxpos))) xc;
                        xc = flush_trailer (fl_memreq st) (flush_times pk xc)
                    in andthen (if skip_writing_section_hdr xc then Inr xc
                                else fstWriterEmitSectionHeader (compress2 pk) xc) (\<lambda>xc.
                       Inr (xc\<lparr>already_in_flush := False\<rparr>)))))))"

section \<open>Time changes\<close>

definition fstWriterFlushContext :: "wctx \<Rightarrow> wctx" where
  "fstWriterFlushContext ctx =
     map_option (\<lambda>xc. if tchn_idx xc > 1 then xc\<lparr>flush_context_pending := True\<rparr> else xc) ctx"

text \<open>The cells 2 and 3 of the handles below \<open>n\<close> are cleared; a null pointer is used if there are any.\<close>

definition clear_cells :: "fstWriterContext \<Rightarrow> fstWriterContext outcome" where
  "clear_cells xc =
     (if maxhandle xc = 0 then Inr xc
      else if \<not> valpos_mapped xc then Inl Null_deref
      else if length (valpos xc) < 4 * unat (maxhandle xc) then Inl Out_of_bounds
      else Inr (xc\<lparr>valpos := foldl (\<lambda>vs i. vs[4 * i + 2 := 0, 4 * i + 3 := 0]) (valpos xc)
                               [0..<unat (maxhandle xc)]\<rparr>))"

definition emit_time :: "u64 \<Rightarrow> fstWriterContext \<Rightarrow> fstWriterContext outcome" where
  "emit_time v xc =
     andthen (fstWriterVarint v (tchn_handle xc)) (\<lambda>(_, h).
       Inr (xc\<lparr>tchn_handle := h, tchn_cnt := tchn_cnt xc + 1\<rparr>))"

text \<open>The first time change opens the first section.\<close>

definition first_time :: "packers \<Rightarrow> u64 \<Rightarrow> fstWriterContext \<Rightarrow> fstWriterContext outcome" where
  "first_time pk tim xc =
     (let xc = (if valpos_mapped xc then xc else fstWriterCreateMmaps xc);
          xc = xc\<lparr>firsttime := if vc_emitted xc then 0 else tim, curtime := 0, vchg_mem := [33], vchg_siz := 1\<rparr>
      in andthen (fstWriterEmitSectionHeader (compress2 pk) xc) (\<lambda>xc.
         andthen (clear_cells xc) (\<lambda>xc. Inr (xc\<lparr>is_initial_time := False\<rparr>))))"

definition fstWriterEmitTimeChange :: "packers \<Rightarrow> wctx \<Rightarrow> u64 \<Rightarrow> wctx outcome" where
  "fstWriterEmitTimeChange pk ctx tim =
     xc_set ctx (\<lambda>xc.
       if is_initial_time xc \<and> size_limit_locked xc then Inr xc
       else andthen
              (if is_initial_time xc then first_time pk tim xc
               else andthen (if fst_break_size xc \<le> ucast (vchg_siz xc) \<or> flush_context_pending xc
                             then andthen (fstWriterFlushContextPrivate pk (xc\<lparr>flush_context_pending := False\<rparr>))
                                    (\<lambda>xc. emit_time (curtime xc) xc)
                             else Inr xc)
                      (\<lambda>xc. Inr (xc\<lparr>tchn_idx := tchn_idx xc + 1\<rparr>)))
              (\<lambda>xc. andthen (emit_time (tim - curtime xc) xc) (\<lambda>xc. Inr (xc\<lparr>curtime := tim\<rparr>))))"

section \<open>Lemmas\<close>

lemma digit_bit: "drop_bit k (w :: 'a::len word) AND 1 = of_bool (bit w k)"
  by (simp add: and_one_eq bit_iff_odd_drop_bit odd_iff_mod_2_eq_one)

lemma and_1_bit: "(w :: 'a::len word) AND 1 = of_bool (bit w 0)"
  using digit_bit [of 0 w] by simp

end
