(* ===== verification/Chain_Codec.thy ===== *)
theory Chain_Codec
  imports Flush
begin

text \<open>
  The packed records of a value change block. The first part states what the chain loops of the
  flush put down for a history, and that the scratch pad is always large enough; the second part
  holds the reader's decoding of a record (\<open>fstReaderIterBlocks2\<close>, lines 5750 to 6110 of
  \<open>fstapi.c\<close>) and shows that it recovers the time distance and the value.
\<close>

section \<open>What the flush writes for one record\<close>

definition enc_rec :: "u32 \<Rightarrow> u32 \<times> bytes \<Rightarrow> bytes" where
  "enc_rec n c =
     (let (d, v) = c
      in if n = 0 then varint (push_bit 1 d) @ varint (of_nat (length v) :: u32) @ v
         else if n = 1 then varint (rcv_1bit (hd v) d)
         else if is_binary v then varint (push_bit 1 d) @ pack_bits n v
         else varint (push_bit 1 d OR 1) @ v)"

definition enc_run :: "u32 \<Rightarrow> (u32 \<times> bytes) list \<Rightarrow> bytes" where
  "enc_run n cs = concat (map (enc_rec n) cs)"

lemma enc_run_simps [simp]:
  "enc_run n [] = []" "enc_run n (c # cs) = enc_rec n c @ enc_run n cs"
  "enc_run n (cs @ ds) = enc_run n cs @ enc_run n ds"
  by (simp_all add: enc_run_def)

lemma length_pack_groups [simp]: "length (pack_groups g m pnt) = g"
  by (induction g arbitrary: m) auto

text \<open>The number of bytes and the digits of the last one.\<close>

lemma pack_bits_sizes:
  fixes n :: u32
  assumes "unat n + 7 < 2 ^ 32"
  shows "unat ((n + 7) AND NOT 7) div 8 = (unat n + 7) div 8" and "unat (n AND 7) = unat n mod 8"
proof -
  have m: "(7 :: u32) = mask 3" by (simp add: mask_eq_exp_minus_1)
  have "n AND 7 = take_bit 3 n" by (simp add: take_bit_eq_mask mask_eq_exp_minus_1)
  then have "unat (n AND 7) = unat (take_bit 3 n)" by (rule arg_cong)
  also have "\<dots> = unat n mod 8" by (subst unsigned_take_bit_eq) (simp add: take_bit_eq_mod)
  finally show "unat (n AND 7) = unat n mod 8" .
  have d: "unat (drop_bit 3 w) = unat w div 8" for w :: u32
    by (subst unat_drop_bit_eq) (simp add: drop_bit_eq_div)
  have "drop_bit 3 ((n + 7) AND NOT 7) = drop_bit 3 (n + 7)"
    unfolding m by (rule bit_word_eqI) (auto simp: bit_simps dest: bit_imp_le_length)
  from arg_cong [OF this, of unat] have "unat ((n + 7) AND NOT 7) div 8 = unat (n + 7) div 8"
    by (simp only: d)
  moreover have "unat (n + 7) = unat n + 7" using assms by (simp add: unat_word_ariths)
  ultimately show "unat ((n + 7) AND NOT 7) div 8 = (unat n + 7) div 8" by (simp only:)
qed

lemma length_pack_bits: "unat n + 7 < 2 ^ 32 \<Longrightarrow> length (pack_bits n v) = (unat n + 7) div 8"
  by (simp only: pack_bits_def pack_bits_sizes length_pack_groups)

text \<open>A packed record is never longer than its record in the chain.\<close>

lemma length_varint_pos: "1 \<le> length (varint v)"
  by (subst varint.simps) (simp add: Let_def)

lemma length_enc_rec:
  assumes "val_ok n v" and "unat n + 7 < 2 ^ 32"
  shows "length (enc_rec n (d, v)) \<le> length (le32 prev @ varint d @ rec_payload n v)"
proof -
  have v: "length (varint (w :: u32)) \<le> 5" for w by (rule length_varint_32)
  have p: "1 \<le> length (varint d)" by (rule length_varint_pos)
  have "unat n = 0 \<Longrightarrow> n = 0" "unat n = 1 \<Longrightarrow> n = 1"
    using word_unat_eq_iff [of n 0] word_unat_eq_iff [of n 1] by simp_all
  then consider "n = 0" | "n = 1" | "1 < unat n" by linarith
  then show ?thesis
  proof cases
    case 1
    then show ?thesis using v [of "push_bit 1 d"] p by (simp add: enc_rec_def rec_payload_def)
  next
    case 2
    then show ?thesis
      using v [of "rcv_1bit (hd v) d"] p assms(1) by (simp add: enc_rec_def rec_payload_def val_ok_def)
  next
    case 3
    then have n: "n \<noteq> 0" "n \<noteq> 1" by auto
    have "(unat n + 7) div 8 \<le> unat n" using 3 by simp
    then show ?thesis
      using v [of "push_bit 1 d"] v [of "push_bit 1 d OR 1"] p assms n length_pack_bits [OF assms(2), of v]
      by (simp add: enc_rec_def rec_payload_def val_ok_def)
  qed
qed

section \<open>The loops over a chain\<close>

lemma chain_ok_step:
  assumes "chain_ok mem n e offs ((d, v) # cs)" and "length mem < 2 ^ 32"
  obtains prev rest where "offs \<noteq> 0" "val_ok n v"
    "drop (unat offs) mem = le32 prev @ varint d @ rec_payload n v @ rest"
    "unat (offs + 4) = unat offs + 4"
    "unat offs + length (le32 prev @ varint d @ rec_payload n v) \<le> e"
    "chain_ok mem n (unat offs) prev cs"
proof -
  obtain prev where p: "offs \<noteq> 0" "val_ok n v"
    "take (length (le32 prev @ varint d @ rec_payload n v)) (drop (unat offs) mem) = le32 prev @ varint d @ rec_payload n v"
    "unat offs + length (le32 prev @ varint d @ rec_payload n v) \<le> e" "chain_ok mem n (unat offs) prev cs"
    using assms(1) unfolding chain_ok.simps by blast
  define r where "r = le32 prev @ varint d @ rec_payload n v"
  have "r \<noteq> []" by (simp add: r_def le32_def)
  with take_drop_append(1) [of r "unat offs" mem] p(3) have l: "unat offs + length r \<le> length mem"
    by (simp add: r_def)
  have "drop (unat offs) mem = r @ drop (length r) (drop (unat offs) mem)"
    using append_take_drop_id [of "length r" "drop (unat offs) mem"] p(3) by (simp only: r_def)
  then have "drop (unat offs) mem = le32 prev @ varint d @ rec_payload n v @ drop (length r) (drop (unat offs) mem)"
    by (simp add: r_def)
  moreover have "unat (offs + 4) = unat offs + 4"
    using l assms(2) by (simp add: unat_word_ariths r_def)
  ultimately show ?thesis using p that by blast
qed

lemma chain_ok_length: "chain_ok mem n e offs cs \<Longrightarrow> length cs \<le> e"
proof (induction cs arbitrary: e offs)
  case (Cons c cs)
  obtain d v where c: "c = (d, v)" by (cases c)
  show ?case using Cons.prems Cons.IH unfolding c chain_ok.simps by fastforce
qed simp

text \<open>The first reads of a round.\<close>

lemma record_reads:
  assumes "drop (unat offs) mem = le32 prev @ varint d @ pay @ rest" and "unat (offs + 4) = unat offs + 4"
  shows "fstGetUint32 (drop (unat offs) mem) = Inr prev"
    and "fstGetVarint32 (drop (unat (offs + 4)) mem) = Inr (d, length (varint d))"
    and "drop (unat (offs + 4) + length (varint d)) mem = pay @ rest"
proof -
  show "fstGetUint32 (drop (unat offs) mem) = Inr prev"
    unfolding assms(1) by (rule fstGetUint32_le32)
  have d4: "drop (unat (offs + 4)) mem = varint d @ pay @ rest"
    unfolding assms(2) using drop_record [OF assms(1)] by simp
  show "fstGetVarint32 (drop (unat (offs + 4)) mem) = Inr (d, length (varint d))"
    unfolding d4 by (rule v32.get_enc)
  show "drop (unat (offs + 4) + length (varint d)) mem = pay @ rest"
    by (rule drop_record [OF d4])
qed

lemma load_n_drop:
  assumes "drop q mem = a @ d @ r" and "a \<noteq> []"
  shows "load_n mem (q + length a) (length d) = Inr d"
proof -
  have "length (drop q mem) = length a + length d + length r" by (simp only: assms(1) length_append add.assoc)
  then have "length mem - q = length a + length d + length r" by (simp only: length_drop)
  moreover have "0 < length a" using assms(2) by (simp only: length_greater_0_conv not_False_eq_True)
  ultimately have "q + length a + length d \<le> length mem" by linarith
  then show ?thesis using drop_record [OF assms(1)] by (simp add: load_n_def)
qed

lemma scratch_varint_eq:
  "length (varint v) + length sp \<le> cap \<Longrightarrow> scratch_varint cap v sp = Inr (varint v @ sp)"
  by (simp add: scratch_varint_def fstCopyVarint32ToLeft_eq Let_def)

text \<open>Each loop writes the packed records, the oldest first, in front of what is there.\<close>

lemma chain_1bit_run:
  assumes "chain_ok mem 1 e offs cs" and "length mem < 2 ^ 32" and "length cs < k" and "e + length sp \<le> cap"
  shows "chain_1bit k cap mem offs sp = Inr (enc_run 1 (rev cs) @ sp)"
  using assms(1,3,4)
proof (induction cs arbitrary: k e offs sp)
  case Nil
  then show ?case by (cases k) auto
next
  case (Cons c cs)
  obtain d v where c: "c = (d, v)" by (cases c)
  obtain k' where k: "k = Suc k'" using Cons.prems(2) by (cases k) auto
  obtain prev rest where r: "offs \<noteq> 0" "val_ok 1 v"
    "drop (unat offs) mem = le32 prev @ varint d @ rec_payload 1 v @ rest" "unat (offs + 4) = unat offs + 4"
    "unat offs + length (le32 prev @ varint d @ rec_payload 1 v) \<le> e" "chain_ok mem 1 (unat offs) prev cs"
    using chain_ok_step [OF Cons.prems(1) [unfolded c] assms(2)] .
  note reads = record_reads [OF r(3,4)]
  obtain b where v: "v = [b]" using r(2) by (auto simp: val_ok_def length_Suc_conv)
  have "drop (unat (offs + 4) + length (varint d)) mem = b # rest"
    using reads(3) by (simp add: rec_payload_def v)
  then have val: "load mem (unat (offs + 4) + length (varint d)) = Inr b" by (rule load_drop)
  have enc: "enc_rec 1 c = varint (rcv_1bit b d)" by (simp add: enc_rec_def c v)
  have fit: "unat offs + length (enc_rec 1 c @ sp) \<le> cap"
    using length_enc_rec [OF r(2), of d prev] r(5) Cons.prems(3) c by simp
  then have "scratch_varint cap (rcv_1bit b d) sp = Inr (enc_rec 1 c @ sp)"
    unfolding enc by (intro scratch_varint_eq) simp
  moreover have "chain_1bit k' cap mem prev (enc_rec 1 c @ sp) = Inr (enc_run 1 (rev cs) @ enc_rec 1 c @ sp)"
    using Cons.IH [OF r(6) _ fit] Cons.prems(2) k by simp
  ultimately show ?case
    using r(1) reads(1,2) val by (simp add: k Let_def)
qed

lemma chain_var_run:
  assumes "chain_ok mem 0 e offs cs" and "length mem < 2 ^ 32" and "length cs < k" and "e + length sp \<le> cap"
  shows "chain_var k cap mem offs sp = Inr (enc_run 0 (rev cs) @ sp)"
  using assms(1,3,4)
proof (induction cs arbitrary: k e offs sp)
  case Nil
  then show ?case by (cases k) auto
next
  case (Cons c cs)
  obtain d v where c: "c = (d, v)" by (cases c)
  obtain k' where k: "k = Suc k'" using Cons.prems(2) by (cases k) auto
  obtain prev rest where r: "offs \<noteq> 0" "val_ok 0 v"
    "drop (unat offs) mem = le32 prev @ varint d @ rec_payload 0 v @ rest" "unat (offs + 4) = unat offs + 4"
    "unat offs + length (le32 prev @ varint d @ rec_payload 0 v) \<le> e" "chain_ok mem 0 (unat offs) prev cs"
    using chain_ok_step [OF Cons.prems(1) [unfolded c] assms(2)] .
  note reads = record_reads [OF r(3,4)]
  let ?n = "of_nat (length v) :: u32"
  let ?p = "unat (offs + 4) + length (varint d)"
  have n: "unat ?n = length v" using r(2) by (simp add: val_ok_def of_nat_inverse)
  have d: "drop ?p mem = varint ?n @ v @ rest" using reads(3) by (simp add: rec_payload_def)
  then have len: "fstGetVarint32 (drop ?p mem) = Inr (?n, length (varint ?n))" by (simp only: v32.get_enc)
  have "varint ?n \<noteq> []" using length_varint_pos [of ?n] by auto
  then have pay: "load_n mem (?p + length (varint ?n)) (unat ?n) = Inr v"
    unfolding n by (rule load_n_drop [OF d])
  have enc: "enc_rec 0 c = varint (push_bit 1 d) @ varint ?n @ v" by (simp add: enc_rec_def c)
  have fit: "unat offs + length (enc_rec 0 c @ sp) \<le> cap"
    using length_enc_rec [OF r(2), of d prev] r(5) Cons.prems(3) c by simp
  have put: "scratch_put cap v sp = Inr (v @ sp)" using fit by (simp add: scratch_put_def enc)
  have put2: "scratch_varint cap ?n (v @ sp) = Inr (varint ?n @ v @ sp)"
    using fit by (intro scratch_varint_eq) (simp add: enc)
  have put3: "scratch_varint cap (push_bit 1 d) (varint ?n @ v @ sp) = Inr (enc_rec 0 c @ sp)"
    using fit scratch_varint_eq [of "push_bit 1 d" "varint ?n @ v @ sp" cap] by (simp add: enc)
  have "chain_var k' cap mem prev (enc_rec 0 c @ sp) = Inr (enc_run 0 (rev cs) @ enc_rec 0 c @ sp)"
    using Cons.IH [OF r(6) _ fit] Cons.prems(2) k by simp
  then show ?case
    using r(1) reads(1,2) len pay put put2 put3 by (simp add: k Let_def)
qed

lemma chain_vec_run:
  assumes "chain_ok mem n e offs cs" and "length mem < 2 ^ 32" and "length cs < k" and "e + length sp \<le> cap"
    and n: "1 < unat n" "unat n + 7 < 2 ^ 32"
  shows "chain_vec n k cap mem offs sp = Inr (enc_run n (rev cs) @ sp)"
  using assms(1,3,4)
proof (induction cs arbitrary: k e offs sp)
  case Nil
  then show ?case by (cases k) auto
next
  case (Cons c cs)
  obtain d v where c: "c = (d, v)" by (cases c)
  obtain k' where k: "k = Suc k'" using Cons.prems(2) by (cases k) auto
  obtain prev rest where r: "offs \<noteq> 0" "val_ok n v"
    "drop (unat offs) mem = le32 prev @ varint d @ rec_payload n v @ rest" "unat (offs + 4) = unat offs + 4"
    "unat offs + length (le32 prev @ varint d @ rec_payload n v) \<le> e" "chain_ok mem n (unat offs) prev cs"
    using chain_ok_step [OF Cons.prems(1) [unfolded c] assms(2)] .
  note reads = record_reads [OF r(3,4)]
  have n01: "n \<noteq> 0" "n \<noteq> 1" using n(1) by auto
  have lv: "unat n = length v" using r(2) n01 by (simp add: val_ok_def)
  have d4: "drop (unat (offs + 4)) mem = varint d @ v @ rest"
    using drop_record [OF r(3)] n01 by (simp add: rec_payload_def r(4))
  have "varint d \<noteq> []" using length_varint_pos [of d] by auto
  then have pay: "load_n mem (unat (offs + 4) + length (varint d)) (unat n) = Inr v"
    unfolding lv by (rule load_n_drop [OF d4])
  have enc: "enc_rec n c = (if is_binary v then varint (push_bit 1 d) @ pack_bits n v
      else varint (push_bit 1 d OR 1) @ v)"
    using n01 by (simp add: enc_rec_def c)
  have fit: "unat offs + length (enc_rec n c @ sp) \<le> cap"
    using length_enc_rec [OF r(2) n(2), of d prev] r(5) Cons.prems(3) c by simp
  have put: "(if is_binary v
      then andthen (scratch_put cap (pack_bits n v) sp) (\<lambda>sp. scratch_varint cap (push_bit 1 d) sp)
      else andthen (scratch_put cap v sp) (\<lambda>sp. scratch_varint cap (push_bit 1 d OR 1) sp))
    = Inr (enc_rec n c @ sp)"
    using fit scratch_varint_eq [of "push_bit 1 d" "pack_bits n v @ sp" cap]
      scratch_varint_eq [of "push_bit 1 d OR 1" "v @ sp" cap]
    by (simp add: enc scratch_put_def split: if_splits)
  have "chain_vec n k' cap mem prev (enc_rec n c @ sp) = Inr (enc_run n (rev cs) @ enc_rec n c @ sp)"
    using Cons.IH [OF r(6) _ fit] Cons.prems(2) k by simp
  then show ?case
    using r(1) reads(1,2) pay put by (simp add: k Let_def)
qed

lemma flush_chain_run:
  assumes "chain_ok (vchg_mem xc) n (length (vchg_mem xc)) offs cs"
    and "length (vchg_mem xc) = unat (vchg_siz xc)" and "unat n + 7 < 2 ^ 32"
  shows "flush_chain n offs xc = Inr (enc_run n (rev cs))"
proof -
  have m: "length (vchg_mem xc) < 2 ^ 32" using assms(2) unat_u32 [of "vchg_siz xc"] by simp
  have k: "length cs < Suc (unat (vchg_siz xc))" using chain_ok_length [OF assms(1)] assms(2) by simp
  have z: "length (vchg_mem xc) + length [] \<le> unat (vchg_siz xc)" by (simp add: assms(2))
  have "unat n = 0 \<Longrightarrow> n = 0" "unat n = 1 \<Longrightarrow> n = 1"
    using word_unat_eq_iff [of n 0] word_unat_eq_iff [of n 1] by simp_all
  then consider "n = 0" | "n = 1" | "1 < unat n" by linarith
  then show ?thesis
  proof cases
    case 1
    show ?thesis using chain_var_run [OF assms(1) [unfolded 1] m k z] by (simp add: flush_chain_def 1 Let_def)
  next
    case 2
    show ?thesis using chain_1bit_run [OF assms(1) [unfolded 2] m k z] by (simp add: flush_chain_def 2 Let_def)
  next
    case 3
    then have "\<not> n \<le> 1" by (simp add: word_le_nat_alt)
    then show ?thesis
      using chain_vec_run [OF assms(1) m k z 3 assms(3)] by (simp add: flush_chain_def Let_def)
  qed
qed

section \<open>Reading a record\<close>

text \<open>\<open>FST_RCV_STR\<close> is \<open>"xzhuwl-?"\<close>.\<close>

definition FST_RCV_STR :: bytes where
  "FST_RCV_STR = c_lit ''xzhuwl-?''"

text \<open>The time distance: \<open>shcnt = 2 << (vli & 1)\<close> for one bit, \<open>vli >> 1\<close> otherwise.\<close>

definition rec_delta :: "u32 \<Rightarrow> u32 \<Rightarrow> u32" where
  "rec_delta n vli = (if n = 1 then drop_bit (unat (push_bit (unat (vli AND 1)) 2 :: u32)) vli else drop_bit 1 vli)"

definition rec_char :: "u32 \<Rightarrow> u8" where
  "rec_char vli =
     (if vli AND 1 = 0 then ucast (drop_bit 1 vli AND 1) OR 48
      else FST_RCV_STR ! unat (drop_bit 1 vli AND 7))"

text \<open>The digits of a packed vector: \<open>((vdata[j/8] >> (7 - (j & 7))) & 1) | '0'\<close>.\<close>

definition rec_digits :: "nat \<Rightarrow> bytes \<Rightarrow> bytes outcome" where
  "rec_digits len vdata =
     (if (len + 7) div 8 \<le> length vdata
      then Inr (map (\<lambda>j. (drop_bit (7 - j mod 8) (vdata ! (j div 8)) AND 1) OR 48) [0..<len])
      else Inl Out_of_bounds)"

text \<open>
  One record of handle width \<open>n\<close> at the front of the memory: the value handed on, and the number
  of bytes the record takes. The callers read the distance from \<open>vli\<close> on their own.
\<close>

definition rec_value :: "u32 \<Rightarrow> bytes \<Rightarrow> (bytes \<times> nat) outcome" where
  "rec_value n mem =
     andthen (fstGetVarint32 mem) (\<lambda>(vli, skiplen).
       if n = 1 then Inr ([rec_char vli], skiplen)
       else if n = 0
       then andthen (fstGetVarint32 (drop skiplen mem)) (\<lambda>(len, skiplen2).
            andthen (load_n mem (skiplen + skiplen2) (unat len)) (\<lambda>vdata.
              Inr (vdata, skiplen + skiplen2 + unat len)))
       else if vli AND 1 = 0
       then andthen (rec_digits (unat n) (drop skiplen mem)) (\<lambda>vdata.
              Inr (vdata, skiplen + ((unat n - 1) div 8 + 1)))
       else andthen (load_n mem skiplen (unat n)) (\<lambda>vdata. Inr (vdata, skiplen + unat n)))"

text \<open>
  The characters of one bit that the format tells apart: the letters lose their case, everything
  else becomes \<open>-\<close>.
\<close>

definition norm_1bit :: "u8 \<Rightarrow> u8" where
  "norm_1bit b =
     (if b \<in> set (c_lit ''01xzhuwl'') then b
      else if b \<in> set (c_lit ''XZHUWL'') then b + 32 else ascii CHR ''-'')"

definition norm_val :: "u32 \<Rightarrow> bytes \<Rightarrow> bytes" where
  "norm_val n v = (if n = 1 then map norm_1bit v else v)"

text \<open>The distances a record has room for.\<close>

definition delta_ok :: "u32 \<Rightarrow> u32 \<Rightarrow> bool" where
  "delta_ok n d \<longleftrightarrow> unat d < (if n = 1 then 2 ^ 28 else 2 ^ 31)"

section \<open>A record read back\<close>

lemma take_bit_small: "unat (a :: u32) < 2 ^ s \<Longrightarrow> take_bit s a = a"
  by (simp add: word_unat_eq_iff unsigned_take_bit_eq take_bit_nat_eq_self_iff)

lemma low_or_high:
  fixes a d :: u32
  assumes a: "unat a < 2 ^ s" and d: "unat d < 2 ^ (32 - s)" and s: "s \<le> 32"
  shows "drop_bit s (a OR push_bit s d) = d" and "take_bit s (a OR push_bit s d) = a"
proof -
  have bd: "bit d i \<Longrightarrow> i < 32 - s" for i
    using take_bit_small [OF d] by (metis bit_take_bit_iff)
  have ba: "bit a i \<Longrightarrow> i < s" for i
    using take_bit_small [OF a] by (metis bit_take_bit_iff)
  show "drop_bit s (a OR push_bit s d) = d"
    by (rule bit_word_eqI) (auto simp: bit_simps dest: ba bd)
  show "take_bit s (a OR push_bit s d) = a"
    by (rule bit_word_eqI) (auto simp: bit_simps dest: ba)
qed

lemma drop_1_take: "drop_bit 1 (w :: u32) AND 1 = drop_bit 1 (take_bit 2 w)"
  "drop_bit 1 w AND 7 = drop_bit 1 (take_bit 4 w)" "w AND 1 = take_bit 2 w AND 1" "w AND 1 = take_bit 4 w AND 1"
proof -
  have m: "(7 :: u32) = mask 3" by (simp add: mask_eq_exp_minus_1)
  have o: "(1 :: u32) = mask 1" by (simp add: mask_eq_exp_minus_1)
  show "drop_bit 1 (w :: u32) AND 1 = drop_bit 1 (take_bit 2 w)"
    unfolding o take_bit_eq_mask [symmetric]
    by (rule bit_word_eqI) (auto simp: bit_simps bit_iff_odd_drop_bit [of w "Suc 0"])
  show "drop_bit 1 w AND 7 = drop_bit 1 (take_bit 4 w)"
    unfolding m take_bit_eq_mask [symmetric] by (rule bit_word_eqI) (auto simp: bit_simps)
  show "w AND 1 = take_bit 2 w AND 1" "w AND 1 = take_bit 4 w AND 1"
    unfolding o take_bit_eq_mask [symmetric] by (rule bit_word_eqI, auto simp: bit_simps)+
qed

lemma rcv_1bit_read:
  assumes "unat d < 2 ^ 28"
  shows "rec_delta 1 (rcv_1bit b d) = d" and "rec_char (rcv_1bit b d) = norm_1bit b"
proof -
  have two: "rec_delta 1 w = d \<and> rec_char w = ucast (drop_bit 1 a AND 1) OR 48"
    if w: "w = a OR push_bit 2 d" and a: "a \<in> {0, 2}" for a w
  proof -
    have "unat a < 2 ^ 2" using a by auto
    then have r: "drop_bit 2 w = d" "take_bit 2 w = a"
      using low_or_high [of a 2 d] assms by (simp_all add: w)
    have "w AND 1 = 0" using drop_1_take(3) [of w] a by (auto simp: r(2))
    then show ?thesis
      using r a drop_1_take(1) [of w] by (auto simp: rec_delta_def rec_char_def)
  qed
  have four: "rec_delta 1 w = d \<and> rec_char w = FST_RCV_STR ! k"
    if w: "w = (1 OR push_bit 1 (of_nat k)) OR push_bit 4 d" and k: "k \<in> set [0..<7]" for k w
  proof -
    let ?a = "1 OR push_bit 1 (of_nat k) :: u32"
    have a: "unat ?a < 2 ^ 4 \<and> ?a AND 1 = 1 \<and> unat (drop_bit 1 ?a) = k"
      using k by (auto simp: upt_rec)
    then have r: "drop_bit 4 w = d" "take_bit 4 w = ?a"
      using low_or_high [of ?a 4 d] assms by (simp_all add: w)
    have "w AND 1 = 1" using drop_1_take(4) [of w] a by (simp only: r(2))
    moreover have "unat (drop_bit 1 w AND 7) = k" using drop_1_take(2) [of w] a by (simp only: r(2))
    ultimately show ?thesis using r(1) by (simp add: rec_delta_def rec_char_def)
  qed
  have "rec_delta 1 (rcv_1bit b d) = d \<and> rec_char (rcv_1bit b d) = norm_1bit b"
  proof (cases "b = 48 \<or> b = 49")
    case True
    define a where "a = (if b = 48 then 0 else 2 :: u32)"
    have "rcv_1bit b d = a OR push_bit 2 d" "a \<in> {0, 2}" using True by (auto simp: rcv_1bit_def a_def ascii_eval)
    from two [OF this] show ?thesis using True by (auto simp: a_def norm_1bit_def c_lit_def ascii_eval)
  next
    case False
    define k where "k = (if b = 120 \<or> b = 88 then 0 else if b = 122 \<or> b = 90 then 1
        else if b = 104 \<or> b = 72 then 2 else if b = 117 \<or> b = 85 then 3 else if b = 119 \<or> b = 87 then 4
        else if b = 108 \<or> b = 76 then 5 else 6 :: nat)"
    have "rcv_1bit b d = (1 OR push_bit 1 (of_nat k)) OR push_bit 4 d"
      using False by (simp add: rcv_1bit_def k_def ascii_eval)
    moreover have "k \<in> set [0..<7]" by (simp add: k_def)
    ultimately have "rec_delta 1 (rcv_1bit b d) = d \<and> rec_char (rcv_1bit b d) = FST_RCV_STR ! k" by (rule four)
    moreover have "FST_RCV_STR ! k = norm_1bit b"
      using False by (simp add: k_def norm_1bit_def FST_RCV_STR_def c_lit_def ascii_eval)
    ultimately show ?thesis by simp
  qed
  then show "rec_delta 1 (rcv_1bit b d) = d" "rec_char (rcv_1bit b d) = norm_1bit b" by simp_all
qed

text \<open>Packed digits.\<close>

lemma bit_pack_fold:
  "m \<le> 8 \<Longrightarrow> bit (foldl (\<lambda>acc k. acc OR push_bit (7 - k) (ds k AND 1)) acc (rev [0..<m]) :: u8) b
    \<longleftrightarrow> bit acc b \<or> b < 8 \<and> 7 - b < m \<and> bit (ds (7 - b)) 0"
proof (induction m arbitrary: acc)
  case (Suc m)
  let ?x = "push_bit (7 - m) (ds m AND 1)"
  have x: "bit ?x b \<longleftrightarrow> b = 7 - m \<and> bit (ds m) 0"
    using Suc.prems by (auto simp: bit_simps)
  have IH: "bit (foldl (\<lambda>acc k. acc OR push_bit (7 - k) (ds k AND 1)) (acc OR ?x) (rev [0..<m])) b
    \<longleftrightarrow> bit (acc OR ?x) b \<or> b < 8 \<and> 7 - b < m \<and> bit (ds (7 - b)) 0"
    using Suc by simp
  have step: "foldl (\<lambda>acc k. acc OR push_bit (7 - k) (ds k AND 1)) acc (rev [0..<Suc m])
    = foldl (\<lambda>acc k. acc OR push_bit (7 - k) (ds k AND 1)) (acc OR ?x) (rev [0..<m])"
    by simp
  show ?case
  proof (cases "b = 7 - m")
    case True
    then have "b < 8" "7 - b = m" using Suc.prems by auto
    then show ?thesis unfolding step IH bit_or_iff x using True by auto
  next
    case False
    then have "b < 8 \<and> 7 - b < Suc m \<longleftrightarrow> b < 8 \<and> 7 - b < m" using Suc.prems by auto
    then show ?thesis unfolding step IH bit_or_iff x using False by auto
  qed
qed simp

lemma bit_pack_byte:
  "m \<le> 8 \<Longrightarrow> bit (pack_byte pnt g m) b \<longleftrightarrow> b < 8 \<and> 7 - b < m \<and> bit (pnt ! (8 * g + (7 - b))) 0"
  using bit_pack_fold [of m "\<lambda>k. pnt ! (8 * g + k)" 0 b] by (simp add: pack_byte_def)

lemma nth_pack_groups:
  "i < g \<Longrightarrow> pack_groups g m pnt ! i = pack_byte pnt i (if i = g - 1 then m else 8)"
  by (induction g arbitrary: m) (auto simp: nth_append less_Suc_eq)

lemma digit_of_bit:
  assumes "b = ascii CHR ''0'' \<or> b = ascii CHR ''1''"
  shows "of_bool (bit b 0) OR 48 = (b :: u8)"
  using assms by (auto simp: ascii_eval)

lemma last_digits:
  fixes j N :: nat
  assumes "j < N" and "j div 8 = (N + 7) div 8 - 1" and "N mod 8 \<noteq> 0"
  shows "j mod 8 < N mod 8"
proof -
  define q r where "q = N div 8" and "r = N mod 8 - 1"
  have N: "N = 8 * q + r + 1" "r < 8" using assms(3) by (simp_all add: q_def r_def)
  then have "(N + 7) div 8 = q + 1" by simp
  then have "j div 8 = q" using assms(2) by simp
  moreover have "j = 8 * (j div 8) + j mod 8" by simp
  moreover have "N mod 8 = r + 1" using assms(3) by (simp add: r_def)
  ultimately show ?thesis using N assms(1) by linarith
qed

lemma rec_digits_pack_bits:
  assumes "length v = unat n" and "is_binary v" and "1 < unat n" and "unat n + 7 < 2 ^ 32"
  shows "rec_digits (unat n) (pack_bits n v @ rest) = Inr v"
proof -
  let ?g = "(unat n + 7) div 8"
  define m where "m = (if n AND 7 = 0 then 8 else unat n mod 8)"
  have z: "n AND 7 = 0 \<longleftrightarrow> unat n mod 8 = 0"
    using pack_bits_sizes(2) [OF assms(4)] unat_eq_zero [of "n AND 7"] by simp
  have pb: "pack_bits n v = pack_groups ?g m v"
    using pack_bits_sizes [OF assms(4)] by (simp add: pack_bits_def m_def)
  have digit: "(drop_bit (7 - j mod 8) (pack_bits n v ! (j div 8)) AND 1) OR 48 = v ! j" if j: "j < unat n" for j
  proof -
    have i: "j div 8 < ?g" using j by (simp add: div_less_iff_less_mult)
    define q where "q = (if j div 8 = ?g - 1 then m else 8)"
    have "j mod 8 < m" if "j div 8 = ?g - 1"
      using last_digits [OF j that] z by (auto simp: m_def)
    then have q: "q \<le> 8" "j mod 8 < q" using mod_less_divisor [of 8 "unat n"] by (auto simp: q_def m_def)
    have "bit (pack_byte v (j div 8) q) (7 - j mod 8) \<longleftrightarrow> bit (v ! j) 0"
      using q(2) by (simp add: bit_pack_byte [OF q(1)]) linarith
    then have "drop_bit (7 - j mod 8) (pack_bits n v ! (j div 8)) AND 1 = of_bool (bit (v ! j) 0)"
      using nth_pack_groups [OF i, of m v] by (simp only: digit_bit pb q_def)
    moreover have "v ! j = ascii CHR ''0'' \<or> v ! j = ascii CHR ''1''"
      using assms(1,2) j by (auto simp: is_binary_def list_all_length)
    ultimately show ?thesis using digit_of_bit [of "v ! j"] by simp
  qed
  have "j < unat n \<Longrightarrow> j div 8 < ?g" for j by (simp add: div_less_iff_less_mult)
  then have "(pack_bits n v @ rest) ! (j div 8) = pack_bits n v ! (j div 8)" if "j < unat n" for j
    using that length_pack_bits [OF assms(4), of v] by (simp add: nth_append)
  then have "map (\<lambda>j. (drop_bit (7 - j mod 8) ((pack_bits n v @ rest) ! (j div 8)) AND 1) OR 48) [0..<unat n] = v"
    using digit assms(1) by (intro nth_equalityI) auto
  then show ?thesis
    using length_pack_bits [OF assms(4), of v] by (simp add: rec_digits_def)
qed

text \<open>The number in front of a record.\<close>

definition rec_head :: "u32 \<Rightarrow> u32 \<times> bytes \<Rightarrow> u32" where
  "rec_head n c =
     (let (d, v) = c
      in if n = 0 then push_bit 1 d else if n = 1 then rcv_1bit (hd v) d
         else if is_binary v then push_bit 1 d else push_bit 1 d OR 1)"

lemma enc_rec_head: "\<exists>body. enc_rec n c = varint (rec_head n c) @ body"
  by (cases c) (simp add: enc_rec_def rec_head_def)

lemma low_bit_1: "push_bit 1 (d :: u32) AND 1 = 0" "(push_bit 1 (d :: u32) OR 1) AND 1 = 1"
  using digit_bit [of 0 "push_bit 1 d"] digit_bit [of 0 "push_bit 1 d OR 1"]
  by (simp_all only: drop_bit_0 bit_push_bit_iff bit_or_iff) (simp_all add: bit_simps)

lemma rec_delta_head:
  assumes "delta_ok n d"
  shows "rec_delta n (rec_head n (d, v)) = d"
proof (cases "n = 1")
  case True
  then show ?thesis using assms rcv_1bit_read(1) [of d "hd v"] by (simp add: rec_head_def delta_ok_def)
next
  case False
  then have "unat d < 2 ^ (32 - 1)" using assms by (simp add: delta_ok_def)
  then have "drop_bit 1 (push_bit 1 d) = d" "drop_bit 1 (push_bit 1 d OR 1) = d"
    using low_or_high(1) [of 0 1 d] low_or_high(1) [of 1 1 d] by (simp_all add: or.commute)
  then show ?thesis using False by (simp add: rec_head_def rec_delta_def)
qed

lemma rec_value_enc:
  assumes "val_ok n v" and "delta_ok n d" and "unat n + 7 < 2 ^ 32"
  shows "rec_value n (enc_rec n (d, v) @ rest) = Inr (norm_val n v, length (enc_rec n (d, v)))"
proof -
  have "unat n = 0 \<Longrightarrow> n = 0" "unat n = 1 \<Longrightarrow> n = 1"
    using word_unat_eq_iff [of n 0] word_unat_eq_iff [of n 1] by simp_all
  then consider "n = 0" | "n = 1" | "1 < unat n" by linarith
  then show ?thesis
  proof cases
    case 1
    let ?l = "of_nat (length v) :: u32" and ?w = "push_bit 1 d"
    have l: "unat ?l = length v" using assms(1) 1 by (simp add: val_ok_def of_nat_inverse)
    have "fstGetVarint32 (varint ?w @ varint ?l @ v @ rest) = Inr (?w, length (varint ?w))"
      "fstGetVarint32 (varint ?l @ v @ rest) = Inr (?l, length (varint ?l))" by (rule v32.get_enc)+
    then show ?thesis using 1 l by (simp add: rec_value_def enc_rec_def norm_val_def load_n_def)
  next
    case 2
    then obtain b where v: "v = [b]" using assms(1) by (auto simp: val_ok_def length_Suc_conv)
    have "fstGetVarint32 (varint (rcv_1bit b d) @ rest) = Inr (rcv_1bit b d, length (varint (rcv_1bit b d)))"
      by (rule v32.get_enc)
    then show ?thesis
      using 2 v rcv_1bit_read(2) [of d b] assms(2) by (simp add: rec_value_def enc_rec_def norm_val_def delta_ok_def)
  next
    case 3
    then have n: "n \<noteq> 0" "n \<noteq> 1" by auto
    have l: "length v = unat n" using assms(1) n by (simp add: val_ok_def)
    show ?thesis
    proof (cases "is_binary v")
      case True
      let ?w = "push_bit 1 d"
      have h: "fstGetVarint32 (varint ?w @ pack_bits n v @ rest) = Inr (?w, length (varint ?w))"
        by (rule v32.get_enc)
      have "(unat n - 1) div 8 + 1 = (unat n + 7) div 8" using 3 by simp
      then have k: "length (pack_bits n v) = (unat n - 1) div 8 + 1" using length_pack_bits [OF assms(3)] by simp
      have dg: "rec_digits (unat n) (pack_bits n v @ rest) = Inr v"
        by (rule rec_digits_pack_bits [OF l True 3 assms(3)])
      show ?thesis
        using n True h low_bit_1(1) [of d] dg k by (simp add: rec_value_def enc_rec_def norm_val_def)
    next
      case False
      let ?w = "push_bit 1 d OR 1"
      have h: "fstGetVarint32 (varint ?w @ v @ rest) = Inr (?w, length (varint ?w))"
        by (rule v32.get_enc)
      show ?thesis
        using n False h low_bit_1(2) [of d] l by (simp add: rec_value_def enc_rec_def norm_val_def load_n_def)
    qed
  qed
qed

section \<open>Properties\<close>

text \<open>
  C12. The scratch pad always suffices: for a chain of any width the flush writes the packed records
  of the whole history, the oldest first, without leaving the \<open>vchg_siz\<close> bytes of
  \<open>scratchpad\<close> and without running round a loop.
\<close>

theorem flush_chain_history:
  assumes "chain_ok (vchg_mem xc) n (length (vchg_mem xc)) offs cs"
    and "length (vchg_mem xc) = unat (vchg_siz xc)" and "unat n + 7 < 2 ^ 32"
  shows "flush_chain n offs xc = Inr (enc_run n (rev cs)) \<and> length (enc_run n (rev cs)) \<le> unat (vchg_siz xc)"
proof -
  have r: "flush_chain n offs xc = Inr (enc_run n (rev cs))" by (rule flush_chain_run [OF assms])
  have "chain_ok mem n e offs cs \<Longrightarrow> length (enc_run n (rev cs)) \<le> e" for mem e offs
  proof (induction cs arbitrary: e offs)
    case (Cons c cs)
    obtain d v where c: "c = (d, v)" by (cases c)
    obtain prev where p: "val_ok n v" "unat offs + length (le32 prev @ varint d @ rec_payload n v) \<le> e"
      "chain_ok mem n (unat offs) prev cs"
      using Cons.prems unfolding c chain_ok.simps by blast
    then show ?case
      using Cons.IH [OF p(3)] length_enc_rec [OF p(1) assms(3), of d prev] by (simp add: c)
  qed simp
  from this [OF assms(1)] r show ?thesis by (simp add: assms(2))
qed

lemma flush_chain_history_witness:
  "flush_chain 8 1 (writer_zero\<lparr>vchg_siz := 14, vchg_mem := [33, 0, 0, 0, 0, 3, 48, 49, 48, 48, 48, 48, 48, 49]\<rparr>)
    = Inr (enc_run 8 [(3, [48, 49, 48, 48, 48, 48, 48, 49])])"
proof -
  let ?xc = "writer_zero\<lparr>vchg_siz := 14, vchg_mem := [33, 0, 0, 0, 0, 3, 48, 49, 48, 48, 48, 48, 48, 49]\<rparr>"
  have "varint (3 :: u32) = [3]" by (simp add: varint_unfold)
  then have "chain_ok (vchg_mem ?xc) 8 (length (vchg_mem ?xc)) 1 [(3, [48, 49, 48, 48, 48, 48, 48, 49])]"
    by (simp add: rec_payload_def val_ok_def le32_def)
  then show ?thesis
    using flush_chain_history [of ?xc 8 1 "[(3, [48, 49, 48, 48, 48, 48, 48, 49])]"] by simp
qed

text \<open>
  C18. A packed record is read back: from the bytes the flush writes for a change, whatever follows
  them, the reader's \<open>vli\<close> gives the time distance, and its decoding gives the value and the
  number of bytes to skip, for every width. Vectors and values of variable length are unchanged; a
  one-bit value comes back as one of the nine characters the format has.
\<close>

theorem record_roundtrip:
  assumes "val_ok n v" and "delta_ok n d" and "unat n + 7 < 2 ^ 32"
  shows "\<exists>vli. fstGetVarint32NoSkip (enc_rec n (d, v) @ rest) = Inr vli \<and> rec_delta n vli = d
    \<and> rec_value n (enc_rec n (d, v) @ rest) = Inr (norm_val n v, length (enc_rec n (d, v)))"
proof -
  obtain body where "enc_rec n (d, v) = varint (rec_head n (d, v)) @ body" using enc_rec_head by blast
  then have "fstGetVarint32 (enc_rec n (d, v) @ rest) = Inr (rec_head n (d, v), length (varint (rec_head n (d, v))))"
    using v32.get_enc [of "rec_head n (d, v)" "body @ rest"] by simp
  then have "fstGetVarint32NoSkip (enc_rec n (d, v) @ rest) = Inr (rec_head n (d, v))"
    by (auto simp: fstGetVarint32_def fstGetVarint32NoSkip_def andthen_eq_Inr)
  then show ?thesis using rec_delta_head [OF assms(2)] rec_value_enc [OF assms] by blast
qed

lemma record_roundtrip_witness:
  "\<exists>vli. fstGetVarint32NoSkip (enc_rec 1 (5, [88]) @ [7]) = Inr vli \<and> rec_delta 1 vli = 5
    \<and> rec_value 1 (enc_rec 1 (5, [88]) @ [7]) = Inr ([120], length (enc_rec 1 (5, [88])))"
  using record_roundtrip [of 1 "[88]" 5 "[7]"]
  by (simp add: val_ok_def delta_ok_def norm_val_def norm_1bit_def c_lit_def ascii_eval)

text \<open>
  C29. The time distance of a one-bit change other than 0 or 1 has 28 bits: from \<open>2 ^ 28\<close> time
  indices on, \<open>time_delta << 4\<close> loses its top bits and the reader finds another distance.
\<close>

theorem one_bit_delta_truncated:
  assumes "2 ^ 28 \<le> unat d" and "b \<noteq> 48" and "b \<noteq> 49"
  shows "rec_delta 1 (rcv_1bit b d) = take_bit 28 d \<and> rec_delta 1 (rcv_1bit b d) \<noteq> d"
proof -
  let ?d = "take_bit 28 d"
  have "push_bit 4 d = push_bit 4 ?d" by (rule bit_word_eqI) (auto simp: bit_simps)
  then have e: "rcv_1bit b d = rcv_1bit b ?d" using assms(2,3) by (simp add: rcv_1bit_def ascii_eval)
  have lt: "unat ?d < 2 ^ 28" by (subst unsigned_take_bit_eq) (rule take_bit_nat_less_exp)
  have "rec_delta 1 (rcv_1bit b d) = ?d" unfolding e by (rule rcv_1bit_read(1) [OF lt])
  moreover have "?d \<noteq> d" using lt assms(1) by auto
  ultimately show ?thesis by simp
qed

lemma one_bit_delta_truncated_witness: "rec_delta 1 (rcv_1bit 120 0x10000001) = 1"
  using one_bit_delta_truncated [of "0x10000001" 120] by simp

end
