(* ===== verification/Chain_Index.thy ===== *)
theory Chain_Index
  imports Flush
begin

text \<open>
  The index of runs as the reader takes it apart (\<open>fstReaderIterBlocks2\<close>, lines 5477 to 5643 of
  \<open>fstapi.c\<close>): the table of positions and lengths of the runs of a block, in the three encodings
  the format has known, and the pass that resolves the shared runs. The index the flush writes is
  shown to come back as the cells it was made from.
\<close>

section \<open>Tables\<close>

text \<open>
  \<open>chain_table\<close> and \<open>chain_table_lengths\<close> have \<open>vc_maxhandle_largest + 1\<close> cells. They, and the
  variable \<open>pidx\<close>, keep their contents from one block to the next.
\<close>

record chain_idx =
  ci_table :: "u64 list"
  ci_lens :: "u32 list"
  ci_idx :: u32
  ci_pidx :: u32
  ci_pval :: u64
  ci_alias :: u32

definition set_cell :: "'a list \<Rightarrow> nat \<Rightarrow> 'a \<Rightarrow> 'a list outcome" where
  "set_cell xs i v = (if i < length xs then Inr (xs[i := v]) else Inl Out_of_bounds)"

lemma set_cell_in [simp]: "i < length xs \<Longrightarrow> set_cell xs i v = Inr (xs[i := v])"
  by (simp add: set_cell_def)

text \<open>A run of its own, at the distance \<open>d\<close> behind the last one.\<close>

definition ci_position :: "u64 \<Rightarrow> chain_idx \<Rightarrow> chain_idx outcome" where
  "ci_position d st =
     (let idx = ci_idx st; pidx = ci_pidx st; pval = ci_pval st + d
      in andthen (set_cell (ci_table st) (unat idx) pval) (\<lambda>table.
         andthen (if idx \<noteq> 0
                  then andthen (load table (unat pidx)) (\<lambda>q. set_cell (ci_lens st) (unat pidx) (ucast (pval - q)))
                  else Inr (ci_lens st)) (\<lambda>lens.
           Inr (st\<lparr>ci_table := table, ci_lens := lens, ci_pval := pval, ci_pidx := idx, ci_idx := idx + 1\<rparr>))))"

text \<open>A run shared with another handle: a negative number in the table of lengths.\<close>

definition ci_shared :: "u32 \<Rightarrow> chain_idx \<Rightarrow> chain_idx outcome" where
  "ci_shared v st =
     andthen (set_cell (ci_table st) (unat (ci_idx st)) 0) (\<lambda>table.
     andthen (set_cell (ci_lens st) (unat (ci_idx st)) v) (\<lambda>lens.
       Inr (st\<lparr>ci_table := table, ci_lens := lens, ci_idx := ci_idx st + 1\<rparr>)))"

text \<open>\<open>loopcnt\<close> handles without a run. The check is in 32 bits, against a 64-bit number.\<close>

definition ci_zeros :: "u64 \<Rightarrow> u32 \<Rightarrow> chain_idx \<Rightarrow> chain_idx outcome" where
  "ci_zeros vc_maxhandle loopcnt st =
     (if ucast (ci_idx st + loopcnt - 1) > vc_maxhandle then Inl (Report_abort ''TALOS-2023-1789'')
      else andthen (store_n (ci_table st) (unat (ci_idx st)) (replicate (unat loopcnt) 0)) (\<lambda>table.
             Inr (st\<lparr>ci_table := table, ci_idx := ci_idx st + loopcnt\<rparr>)))"

text \<open>One item for \<open>FST_BL_VCDATA_DYN_ALIAS2\<close>, and one for the two older tags.\<close>

definition ci_item2 :: "u64 \<Rightarrow> bytes \<Rightarrow> chain_idx \<Rightarrow> (nat \<times> chain_idx) outcome" where
  "ci_item2 vc_maxhandle pnt st =
     andthen (load pnt 0) (\<lambda>b.
       if b AND 1 \<noteq> 0
       then andthen (fstGetSVarint64 pnt) (\<lambda>(w, skiplen).
            let shval = signed_drop_bit 1 w
            in andthen (if sint shval > 0 then ci_position shval st
                        else if sint shval < 0
                        then ci_shared (ucast shval) (st\<lparr>ci_alias := ucast shval\<rparr>)
                        else ci_shared (ci_alias st) st) (\<lambda>st. Inr (skiplen, st)))
       else andthen (fstGetVarint32 pnt) (\<lambda>(val, skiplen).
            andthen (ci_zeros vc_maxhandle (drop_bit 1 val) st) (\<lambda>st. Inr (skiplen, st))))"

definition ci_item1 :: "u64 \<Rightarrow> bytes \<Rightarrow> chain_idx \<Rightarrow> (nat \<times> chain_idx) outcome" where
  "ci_item1 vc_maxhandle pnt st =
     andthen (fstGetVarint32 pnt) (\<lambda>(val, skiplen).
       if val = 0
       then andthen (fstGetVarint32 (drop skiplen pnt)) (\<lambda>(val, skiplen2).
            andthen (ci_shared (- val) st) (\<lambda>st. Inr (skiplen + skiplen2, st)))
       else if val AND 1 \<noteq> 0
       then andthen (ci_position (ucast (drop_bit 1 val)) st) (\<lambda>st. Inr (skiplen, st))
       else andthen (ci_zeros vc_maxhandle (drop_bit 1 val) st) (\<lambda>st. Inr (skiplen, st)))"

text \<open>
  The loop \<open>do { ... } while (pnt != (chain_cmem + chain_clen))\<close>: \<open>pnt\<close> is what is left of
  \<open>chain_cmem\<close>. Every item takes a byte at least, so as many rounds as there are bytes suffice.
\<close>

primrec ci_loop :: "(bytes \<Rightarrow> chain_idx \<Rightarrow> (nat \<times> chain_idx) outcome) \<Rightarrow> nat \<Rightarrow> bytes \<Rightarrow> chain_idx \<Rightarrow>
    chain_idx outcome" where
  "ci_loop item 0 pnt st = Inl Hang"
| "ci_loop item (Suc k) pnt st =
     andthen (item pnt st) (\<lambda>(skiplen, st).
       if drop skiplen pnt = [] then Inr st else ci_loop item k (drop skiplen pnt) st)"

text \<open>The end of the last run, and the pass over the shared ones. \<open>-v32\<close> is computed in an \<open>int32_t\<close>.\<close>

definition ci_resolve :: "chain_idx \<Rightarrow> nat \<Rightarrow> chain_idx outcome" where
  "ci_resolve st i =
     andthen (load (ci_lens st) i) (\<lambda>l.
     andthen (load (ci_table st) i) (\<lambda>t.
       if sint l < 0 \<and> t = 0
       then if l = 0x80000000 then Inl Int_overflow
            else let j = unat (- l - 1)
                 in if j < i
                    then Inr (st\<lparr>ci_table := (ci_table st)[i := ci_table st ! j],
                                 ci_lens := (ci_lens st)[i := ci_lens st ! j]\<rparr>)
                    else Inr st
       else Inr st))"

primrec ci_resolve_all :: "nat list \<Rightarrow> chain_idx \<Rightarrow> chain_idx outcome" where
  "ci_resolve_all [] st = Inr st"
| "ci_resolve_all (i # is) st = andthen (ci_resolve st i) (ci_resolve_all is)"

definition ci_finish :: "u64 \<Rightarrow> chain_idx \<Rightarrow> chain_idx outcome" where
  "ci_finish vc_len st =
     (let idx = unat (ci_idx st); pidx = unat (ci_pidx st)
      in andthen (set_cell (ci_table st) idx vc_len) (\<lambda>table.
         andthen (load table pidx) (\<lambda>q.
         andthen (set_cell (ci_lens st) pidx (ucast (vc_len - q))) (\<lambda>lens.
           ci_resolve_all [0..<idx] (st\<lparr>ci_table := table, ci_lens := lens\<rparr>)))))"

text \<open>
  The whole for one block: the tables grow when the block has more handles than any before (the
  largest number so far is one less than their length), the counters start over, \<open>pidx\<close> does not.
  \<open>vc_len\<close> is \<open>indx_pos - vc_start\<close>. Without tables the caller gives the block up: \<open>None\<close>.
\<close>

definition ci_alloc :: "u64 \<Rightarrow> chain_idx \<Rightarrow> chain_idx outcome" where
  "ci_alloc vc_maxhandle st =
     (if vc_maxhandle > of_nat (length (ci_table st) - 1)
      then if vc_maxhandle + 1 = 0 \<or> (vc_maxhandle + 1) * 8 div 8 \<noteq> vc_maxhandle + 1
           then Inl (Report_abort ''TALOS-2023-1798'')
           else Inr (st\<lparr>ci_table := replicate (unat (vc_maxhandle + 1)) 0,
                        ci_lens := replicate (unat (vc_maxhandle + 1)) 0\<rparr>)
      else Inr st)"

definition chain_index ::
    "bool \<Rightarrow> u64 \<Rightarrow> u64 \<Rightarrow> bytes \<Rightarrow> chain_idx \<Rightarrow> chain_idx option outcome" where
  "chain_index dyn_alias2 vc_maxhandle vc_len chain_cmem st =
     andthen (ci_alloc vc_maxhandle st) (\<lambda>st.
       if ci_table st = [] then Inr None
       else andthen (ci_loop (if dyn_alias2 then ci_item2 vc_maxhandle else ci_item1 vc_maxhandle)
                      (length chain_cmem) chain_cmem (st\<lparr>ci_idx := 0, ci_pval := 0, ci_alias := 0\<rparr>)) (\<lambda>st.
            andthen (ci_finish vc_len st) (\<lambda>st. Inr (Some st))))"

definition no_tables :: chain_idx where
  "no_tables = \<lparr>ci_table = [], ci_lens = [], ci_idx = 0, ci_pidx = 0, ci_pval = 0, ci_alias = 0\<rparr>"

section \<open>What the flush writes\<close>

text \<open>The bytes of the index for the cells from some handle on.\<close>

definition zeros_enc :: "nat \<Rightarrow> bytes" where
  "zeros_enc z = (if z = 0 then [] else varint (of_nat (2 * z) :: u64))"

primrec idx_enc :: "u32 list \<Rightarrow> u32 \<Rightarrow> u32 \<Rightarrow> nat \<Rightarrow> bytes" where
  "idx_enc [] pa pp z = zeros_enc z"
| "idx_enc (v # vs) pa pp z =
     (if v = 0 then idx_enc vs pa pp (z + 1)
      else zeros_enc z @ svarint (index_word v pa pp)
        @ (if v AND 0x80000000 \<noteq> 0 then idx_enc vs v pp 0 else idx_enc vs pa v 0))"

definition is_alias :: "u32 \<Rightarrow> bool" where
  "is_alias v \<longleftrightarrow> 2 ^ 31 \<le> unat v"

lemma is_alias_code [code]: "is_alias v \<longleftrightarrow> 0x80000000 \<le> v"
  by (simp add: is_alias_def word_le_nat_alt)

lemma high_bit_31:
  "bit (v :: u32) 31 \<longleftrightarrow> is_alias v" "sint v < 0 \<longleftrightarrow> is_alias v" "v AND 0x80000000 \<noteq> 0 \<longleftrightarrow> is_alias v"
proof -
  have "bit v 31 \<longleftrightarrow> bit (unat v) 31" by (simp add: bit_unsigned_iff)
  also have "\<dots> \<longleftrightarrow> odd (unat v div 2 ^ 31)" by (simp only: bit_iff_odd)
  also have "\<dots> \<longleftrightarrow> 2 ^ 31 \<le> unat v"
  proof (cases "2 ^ 31 \<le> unat v")
    case True
    then have "unat v div 2 ^ 31 = (unat v - 2 ^ 31) div 2 ^ 31 + 1" by (simp add: le_div_geq)
    with unat_u32 [of v] True show ?thesis by simp
  next
    case False
    then show ?thesis by simp
  qed
  finally show b: "bit v 31 \<longleftrightarrow> is_alias v" by (simp add: is_alias_def)
  show "sint v < 0 \<longleftrightarrow> is_alias v" using bit_last_iff [of v] b by simp
  show "v AND 0x80000000 \<noteq> 0 \<longleftrightarrow> is_alias v" using bit_iff_and_push_bit_not_eq_0 [of v 31] b by simp
qed

lemma hd_svarint: "bit (hd (svarint v)) 0 \<longleftrightarrow> bit v 0" "svarint v \<noteq> []"
  by (subst svarint.simps, simp add: Let_def bit_simps)+

lemma hd_varint: "bit (hd (varint v)) 0 \<longleftrightarrow> bit (v :: 'a::len word) 0" "varint v \<noteq> []"
  by (subst varint.simps, simp add: Let_def bit_simps)+

lemma index_word_odd: "bit (index_word v pa pp) 0"
  by (simp add: index_word_def bit_simps)

lemma index_word_same: "is_alias v \<Longrightarrow> index_word v v pp = 1"
  by (simp add: index_word_def high_bit_31)

lemma signed_half:
  fixes x :: u64
  assumes "bit x 63 = bit x 62"
  shows "signed_drop_bit 1 (push_bit 1 x OR 1) = x"
proof (rule bit_word_eqI)
  fix n
  assume n: "n < LENGTH(64)"
  consider "n < 63" | "n = 63" using n by fastforce
  then show "bit (signed_drop_bit 1 (push_bit 1 x OR 1)) n = bit x n"
  proof cases
    case 1
    then show ?thesis
      by (simp only: bit_signed_drop_bit_iff bit_or_iff bit_push_bit_iff bit_1_iff) auto
  next
    case 2
    then show ?thesis
      using assms by (simp only: bit_signed_drop_bit_iff bit_or_iff bit_push_bit_iff bit_1_iff) auto
  qed
qed

lemma index_word_alias:
  assumes "is_alias v" and "v \<noteq> pa"
  shows "ucast (signed_drop_bit 1 (index_word v pa pp)) = v" and "sint (signed_drop_bit 1 (index_word v pa pp)) < 0"
proof -
  have w: "index_word v pa pp = push_bit 1 (scast v) OR 1"
    using assms by (simp add: index_word_def high_bit_31)
  have hb: "bit (scast v :: u64) 63" "bit (scast v :: u64) 62"
    using high_bit_31(1) [of v] assms(1) by (simp_all add: bit_simps)
  then have d: "signed_drop_bit 1 (index_word v pa pp) = scast v"
    unfolding w by (intro signed_half) simp
  show "ucast (signed_drop_bit 1 (index_word v pa pp)) = v"
  proof (unfold d, rule bit_word_eqI)
    fix n
    assume "n < LENGTH(32)"
    then consider "n < 31" | "n = 31" by fastforce
    then show "bit (ucast (scast v :: u64) :: u32) n = bit v n" by cases (auto simp: bit_simps min_def)
  qed
  show "sint (signed_drop_bit 1 (index_word v pa pp)) < 0"
    unfolding d using bit_last_iff [of "scast v :: u64"] hb(1) by simp
qed

lemma unat_ucast_64: "unat (ucast (v :: u32) :: u64) = unat v"
  using unat_u32 [of v] by (simp add: unsigned_ucast_eq take_bit_nat_eq_self_iff)

lemma ucast_32_64_32: "ucast (ucast (v :: u32) :: u64) = v"
  by (rule bit_word_eqI) (auto simp: bit_simps)

lemma ucast_diff:
  fixes v p :: u32
  assumes "p \<le> v"
  shows "(ucast v :: u64) - ucast p = ucast (v - p)"
proof -
  have "unat ((ucast v :: u64) - ucast p) = unat v - unat p"
    using assms unat_sub [of "ucast p :: u64" "ucast v"] by (simp add: word_le_nat_alt unat_ucast_64)
  moreover have "unat (ucast (v - p) :: u64) = unat v - unat p"
    using assms by (simp add: unat_ucast_64 unat_sub)
  ultimately show ?thesis by (simp add: word_unat_eq_iff)
qed

lemma index_word_position:
  assumes "\<not> is_alias v" and "pp < v"
  shows "signed_drop_bit 1 (index_word v pa pp) = ucast (v - pp)" and "sint (ucast (v - pp) :: u64) > 0"
proof -
  have u: "unat (v - pp) = unat v - unat pp" using assms(2) by (simp add: unat_sub)
  have lt: "unat (v - pp) < 2 ^ 31" using assms(1) by (simp add: u is_alias_def)
  then have nb: "\<not> bit (v - pp) 31" using high_bit_31(1) [of "v - pp"] by (simp add: is_alias_def)
  have w: "index_word v pa pp = push_bit 1 (ucast (v - pp)) OR 1"
  proof (rule bit_word_eqI)
    fix n
    assume n: "n < LENGTH(64)"
    have e: "index_word v pa pp = ucast (push_bit 1 (v - pp) OR 1)"
      using assms(1) by (simp add: index_word_def high_bit_31)
    show "bit (index_word v pa pp) n = bit (push_bit 1 (ucast (v - pp)) OR 1 :: u64) n"
      unfolding e using n nb bit_imp_le_length [of "v - pp" 31] bit_imp_le_length [of "v - pp" "n - 1"]
      by (simp only: bit_ucast_iff bit_or_iff bit_push_bit_iff bit_1_iff) (cases "n = 32"; auto)
  qed
  show "signed_drop_bit 1 (index_word v pa pp) = ucast (v - pp)"
    unfolding w using bit_imp_le_length [of "v - pp" 63] bit_imp_le_length [of "v - pp" 62]
    by (intro signed_half) (auto simp: bit_ucast_iff)
  have "\<not> sint (ucast (v - pp) :: u64) < 0" 
    using bit_last_iff [of "ucast (v - pp) :: u64"] bit_imp_le_length [of "v - pp" 63]
    by (auto simp: bit_ucast_iff)
  moreover have "(ucast (v - pp) :: u64) \<noteq> 0"
  proof
    assume "(ucast (v - pp) :: u64) = 0"
    then have "unat (v - pp) = 0" using unat_ucast_64 [of "v - pp"] by simp
    with u assms(2) show False by (simp add: word_less_nat_alt)
  qed
  ultimately show "sint (ucast (v - pp) :: u64) > 0"
    by (metis linorder_neqE_linordered_idom signed_word_eqI sint_0)
qed

section \<open>The loop on the index of the flush\<close>

text \<open>
  The cells a flush can leave: 0 for no run, a position that grows from one run to the next, or the
  negated number of an earlier handle with a run of its own.
\<close>

definition own_run :: "u32 \<Rightarrow> bool" where
  "own_run v \<longleftrightarrow> v \<noteq> 0 \<and> \<not> is_alias v"

fun cells_ok :: "u32 list \<Rightarrow> u32 \<Rightarrow> u32 list \<Rightarrow> bool" where
  "cells_ok pre pp [] \<longleftrightarrow> True"
| "cells_ok pre pp (v # vs) \<longleftrightarrow>
     (if v = 0 then True
      else if is_alias v then unat (- v) - 1 < length pre \<and> own_run (pre ! (unat (- v) - 1)) \<and> v \<noteq> 0x80000000
      else pp < v)
     \<and> cells_ok (pre @ [v]) (if own_run v then v else pp) vs"

text \<open>The first run of its own in a list of cells.\<close>

fun next_run :: "u32 list \<Rightarrow> u32 option" where
  "next_run [] = None"
| "next_run (v # vs) = (if own_run v then Some v else next_run vs)"

lemma next_run_append: "next_run (xs @ ys) = (case next_run xs of Some q \<Rightarrow> Some q | None \<Rightarrow> next_run ys)"
  by (induction xs) auto

lemma next_run_None: "next_run xs = None \<longleftrightarrow> (\<forall>v \<in> set xs. \<not> own_run v)"
  by (induction xs) auto

text \<open>
  The state of the loop after the cells \<open>pre\<close>, the last \<open>z\<close> of them zeros that are not yet read,
  from fresh tables.
\<close>

definition ci_rel :: "u32 list \<Rightarrow> nat \<Rightarrow> u32 \<Rightarrow> u32 \<Rightarrow> chain_idx \<Rightarrow> bool" where
  "ci_rel pre z pa pp st \<longleftrightarrow>
     length pre < length (ci_table st) \<and> length (ci_lens st) = length (ci_table st)
     \<and> length (ci_table st) < 2 ^ 32 \<and> z \<le> length pre
     \<and> (\<forall>t < length pre. length pre - z \<le> t \<longrightarrow> pre ! t = 0)
     \<and> ci_idx st = of_nat (length pre - z) \<and> ci_pval st = ucast pp \<and> ci_alias st = pa
     \<and> (\<forall>t < length pre - z. ci_table st ! t = (if own_run (pre ! t) then ucast (pre ! t) else 0))
     \<and> (\<forall>t < length pre - z. is_alias (pre ! t) \<longrightarrow> ci_lens st ! t = pre ! t)
     \<and> (\<forall>t < length pre - z. pre ! t = 0 \<longrightarrow> \<not> is_alias (ci_lens st ! t))
     \<and> (\<forall>t < length (ci_table st). length pre - z \<le> t \<longrightarrow> ci_lens st ! t = 0 \<and> ci_table st ! t = 0)
     \<and> (\<forall>t < length pre - z. own_run (pre ! t) \<and> t \<noteq> unat (ci_pidx st) \<longrightarrow>
          (\<exists>q. next_run (drop (Suc t) pre) = Some q \<and> ci_lens st ! t = q - pre ! t))
     \<and> (if next_run pre = None then pp = 0 \<and> ci_pidx st = 0 \<and> (\<forall>t < length pre. pre ! t = 0)
        else unat (ci_pidx st) < length pre - z \<and> own_run pp \<and> pre ! unat (ci_pidx st) = pp
          \<and> next_run (drop (Suc (unat (ci_pidx st))) pre) = None)"

lemma ci_relD:
  assumes "ci_rel pre z pa pp st"
  shows "length pre < length (ci_table st)" "length (ci_lens st) = length (ci_table st)"
    "length (ci_table st) < 2 ^ 32" "z \<le> length pre" "unat (ci_idx st) = length pre - z"
    "ci_pval st = ucast pp" "ci_alias st = pa"
  using assms by (auto simp: ci_rel_def of_nat_inverse)

lemma ci_rel_zero:
  assumes "ci_rel pre z pa pp st" and "Suc (length pre) < length (ci_table st)"
  shows "ci_rel (pre @ [0]) (Suc z) pa pp st"
proof -
  have n: "next_run (drop (Suc t) (pre @ [0])) = next_run (drop (Suc t) pre)" if "t < length pre" for t
    using that by (simp add: next_run_append own_run_def split: option.splits)
  have n0: "next_run (pre @ [0]) = next_run pre" by (simp add: next_run_append own_run_def split: option.splits)
  show ?thesis
    using assms n unfolding ci_rel_def n0
    by (simp add: nth_append) (intro conjI impI allI; (force simp: nth_append not_less_eq_eq less_Suc_eq)?)
qed

text \<open>The zeros that were held back.\<close>

lemma ci_zeros_rel:
  assumes rel: "ci_rel pre z pa pp st" and z: "0 < z" and vm: "length (ci_table st) \<le> unat vm + 1"
  shows "\<exists>st'. ci_zeros vm (of_nat z) st = Inr st' \<and> ci_rel pre 0 pa pp st'
    \<and> length (ci_table st') = length (ci_table st)"
proof -
  note D = ci_relD [OF rel]
  have zs: "unat (of_nat z :: u32) = z" using D(1,3,4) by (simp add: of_nat_inverse)
  have "ci_idx st = of_nat (length pre - z)" using rel by (simp add: ci_rel_def)
  then have "ci_idx st + of_nat z = of_nat (length pre)" using D(4) by (simp flip: of_nat_add)
  then have i: "ci_idx st + of_nat z - 1 = of_nat (length pre - 1)" "ci_idx st + of_nat z = of_nat (length pre)"
    using z D(4) by (simp_all add: of_nat_diff)
  have "unat (of_nat (length pre - 1) :: u32) = length pre - 1" using D(1,3) by (simp add: of_nat_inverse)
  then have ok: "\<not> ucast (ci_idx st + of_nat z - 1) > vm"
    unfolding i(1) word_less_nat_alt not_less unat_ucast_64 using D(1) vm by linarith
  have same: "take (length pre - z) (ci_table st) @ replicate z 0 @ drop (length pre) (ci_table st) = ci_table st"
  proof (rule nth_equalityI)
    show "length (take (length pre - z) (ci_table st) @ replicate z 0 @ drop (length pre) (ci_table st))
      = length (ci_table st)"
      using D(1,4) by simp
  next
    fix t
    assume "t < length (take (length pre - z) (ci_table st) @ replicate z 0 @ drop (length pre) (ci_table st))"
    then have t: "t < length (ci_table st)" using D(1,4) by simp
    have "length pre - z \<le> t \<Longrightarrow> ci_table st ! t = 0" using rel t by (simp add: ci_rel_def)
    then show "(take (length pre - z) (ci_table st) @ replicate z 0 @ drop (length pre) (ci_table st)) ! t
      = ci_table st ! t"
      using D(1,4) t by (auto simp: nth_append)
  qed
  have "store_n (ci_table st) (unat (ci_idx st)) (replicate (unat (of_nat z :: u32)) 0) = Inr (ci_table st)"
    using same D(1,4) by (simp add: store_n_def D(5) zs)
  then have "ci_zeros vm (of_nat z) st = Inr (st\<lparr>ci_idx := of_nat (length pre)\<rparr>)"
    using ok i(2) by (simp add: ci_zeros_def)
  moreover have "ci_rel pre 0 pa pp (st\<lparr>ci_idx := of_nat (length pre)\<rparr>)"
  proof -
    have p0: "pre ! t = 0" "\<not> is_alias (ci_lens st ! t)" "ci_table st ! t = 0"
      if "t < length pre" "\<not> t < length pre - z" for t
      using rel that D(1) by (auto simp: ci_rel_def is_alias_def)
    have na: "\<not> is_alias 0" "\<not> own_run 0" by (simp_all add: is_alias_def own_run_def)
    show ?thesis
      unfolding ci_rel_def
    proof (intro conjI allI impI, goal_cases)
      case (9 t) then show ?case using rel p0 na by (cases "t < length pre - z") (auto simp: ci_rel_def)
    next
      case (10 t) then show ?case using rel p0 na by (cases "t < length pre - z") (auto simp: ci_rel_def)
    next
      case (11 t) then show ?case using rel p0 na by (cases "t < length pre - z") (auto simp: ci_rel_def)
    next
      case (14 t) then show ?case using rel p0 na by (cases "t < length pre - z") (auto simp: ci_rel_def)
    next
      case 15
      show ?case using rel D(4) by (auto simp: ci_rel_def split: if_splits)
    qed (use rel in \<open>auto simp: ci_rel_def\<close>)
  qed
  ultimately show ?thesis by auto
qed

text \<open>A run of its own.\<close>

lemma ci_position_rel:
  assumes rel: "ci_rel pre 0 pa pp st" and v: "own_run v" "pp < v" and m: "Suc (length pre) < length (ci_table st)"
  shows "\<exists>st'. ci_position (ucast (v - pp)) st = Inr st' \<and> ci_rel (pre @ [v]) 0 pa v st'
    \<and> length (ci_table st') = length (ci_table st)"
proof -
  note D = ci_relD [OF rel]
  let ?i = "length pre" and ?p = "unat (ci_pidx st)"
  have idx: "unat (ci_idx st) = ?i" "unat (ci_idx st + 1) = Suc ?i" "ci_idx st + 1 = of_nat (Suc ?i)"
    using rel m D(3,5) by (simp_all add: ci_rel_def unat_word_ariths)
  have pval: "ci_pval st + ucast (v - pp) = ucast v"
    using v(2) ucast_diff [of pp v] by (simp add: D(6) less_imp_le algebra_simps flip: ucast_diff)
  define table where "table = (ci_table st)[?i := ucast v]"
  define lens where "lens = (if ?i = 0 then ci_lens st else (ci_lens st)[?p := v - pp])"
  have i0: "ci_idx st \<noteq> 0 \<longleftrightarrow> ?i \<noteq> 0" using idx(1) unat_eq_zero [of "ci_idx st"] by simp
  have p: "?i \<noteq> 0 \<Longrightarrow> ?p < ?i \<and> ci_table st ! ?p = ucast pp"
    using rel by (cases "next_run pre") (auto simp: ci_rel_def)
  have call: "ci_position (ucast (v - pp)) st = Inr (st\<lparr>ci_table := table, ci_lens := lens, ci_pval := ucast v,
      ci_pidx := ci_idx st, ci_idx := ci_idx st + 1\<rparr>)" (is "_ = Inr ?st")
  proof (cases "?i = 0")
    case True
    then show ?thesis using D(1) i0 by (simp add: ci_position_def Let_def idx(1) pval table_def lens_def)
  next
    case False
    have "ucast ((ucast v :: u64) - ucast pp) = v - pp"
      using v(2) by (simp add: ucast_diff less_imp_le ucast_32_64_32)
    then show ?thesis
      using D(1,2) i0 p False by (simp add: ci_position_def Let_def idx(1) pval table_def lens_def)
  qed
  have nr: "next_run (drop (Suc t) (pre @ [v])) = (case next_run (drop (Suc t) pre) of Some q \<Rightarrow> Some q | None \<Rightarrow> Some v)"
    if "t < ?i" for t
    using that v(1) by (cases "next_run (drop (Suc t) pre)") (simp_all add: next_run_append)
  have nr0: "next_run (pre @ [v]) \<noteq> None" using v(1) by (simp add: next_run_append split: option.splits)
  have na: "\<not> is_alias v" "v \<noteq> 0" using v(1) by (simp_all add: own_run_def)
  have small: "\<not> is_alias (v - pp)" using na(1) v(2) by (auto simp: is_alias_def unat_sub)
  have lens_other: "t \<noteq> ?p \<Longrightarrow> lens ! t = ci_lens st ! t" for t by (simp add: lens_def)
  have lens_p: "?i \<noteq> 0 \<Longrightarrow> lens ! ?p = v - pp" using p D(1,2) by (simp add: lens_def)
  have "ci_rel (pre @ [v]) 0 pa v ?st"
    unfolding ci_rel_def
  proof (intro conjI allI impI, goal_cases)
    case 6 then show ?case by (simp add: idx(3))
  next
    case (9 t) then show ?case
      using rel D(1) v(1) by (cases "t = ?i") (auto simp: ci_rel_def nth_append table_def)
  next
    case (10 t)
    then have t: "t < ?i" "is_alias (pre ! t)" using na by (auto simp: nth_append less_Suc_eq split: if_splits)
    then have "t \<noteq> ?p"
      using rel by (cases "next_run pre") (auto simp: ci_rel_def own_run_def is_alias_def)
    then show ?case using rel t by (simp add: ci_rel_def nth_append lens_other)
  next
    case (11 t)
    then have t: "t < ?i" "pre ! t = 0" using na by (auto simp: nth_append less_Suc_eq split: if_splits)
    have "?i \<noteq> 0" using t(1) by linarith
    then have "t = ?p \<Longrightarrow> \<not> is_alias (lens ! t)" using small lens_p by simp
    then show ?case using t rel lens_other by (cases "t = ?p") (auto simp: ci_rel_def)
  next
    case (12 t)
    then have "t \<noteq> ?p \<or> ?i = 0" using p by (cases "?i = 0") simp_all
    then show ?case using 12 rel lens_other [of t] by (auto simp: ci_rel_def table_def lens_def)
  next
    case (13 t)
    then show ?case using rel m by (auto simp: ci_rel_def table_def)
  next
    case (14 t)
    then have t: "t < ?i" "own_run (pre ! t)" by (auto simp: nth_append less_Suc_eq idx(1) split: if_splits)
    show ?case
    proof (cases "t = ?p")
      case True
      have "next_run pre \<noteq> None" using t next_run_None [of pre] by auto
      then have "next_run (drop (Suc t) pre) = None" "pre ! t = pp" using rel True by (auto simp: ci_rel_def)
      moreover have "lens ! t = v - pp" using lens_p t(1) True by (cases "?i = 0") simp_all
      ultimately show ?thesis using nr [OF t(1)] t by (simp add: nth_append)
    next
      case False
      then have "\<exists>q. next_run (drop (Suc t) pre) = Some q \<and> ci_lens st ! t = q - pre ! t"
        using rel t by (auto simp: ci_rel_def)
      then show ?thesis using nr [OF t(1)] lens_other [OF False] t(1) by (auto simp: nth_append)
    qed
  next
    case 15
    show ?case using nr0 v(1) by (cases "next_run (pre @ [v])") (simp_all add: idx(1))
  qed (use rel m D in \<open>auto simp: ci_rel_def table_def lens_def\<close>)
  moreover have "length (ci_table ?st) = length (ci_table st)" by (simp add: table_def)
  ultimately show ?thesis using call by blast
qed

text \<open>A shared run.\<close>

lemma ci_shared_rel:
  assumes rel: "ci_rel pre 0 pa pp st" and v: "is_alias v" "next_run pre \<noteq> None"
    and m: "Suc (length pre) < length (ci_table st)"
  shows "\<exists>st'. ci_shared v (st\<lparr>ci_alias := v\<rparr>) = Inr st' \<and> ci_rel (pre @ [v]) 0 v pp st'
    \<and> length (ci_table st') = length (ci_table st)"
proof -
  note D = ci_relD [OF rel]
  let ?i = "length pre" and ?p = "unat (ci_pidx st)"
  have idx: "unat (ci_idx st) = ?i" "unat (ci_idx st + 1) = Suc ?i" "ci_idx st + 1 = of_nat (Suc ?i)"
    using rel m D(3,5) by (simp_all add: ci_rel_def unat_word_ariths)
  define table where "table = (ci_table st)[?i := 0]"
  define lens where "lens = (ci_lens st)[?i := v]"
  have call: "ci_shared v (st\<lparr>ci_alias := v\<rparr>) = Inr (st\<lparr>ci_alias := v, ci_table := table, ci_lens := lens,
      ci_idx := ci_idx st + 1\<rparr>)" (is "_ = Inr ?st")
    using D(1,2) by (simp add: ci_shared_def idx(1) table_def lens_def)
  have p: "?p < ?i" using rel v(2) by (auto simp: ci_rel_def)
  have na: "\<not> own_run v" "v \<noteq> 0" using v(1) by (auto simp: own_run_def is_alias_def)
  have nr: "next_run (drop (Suc t) (pre @ [v])) = next_run (drop (Suc t) pre)" if "t < ?i" for t
    using that na(1) by (simp add: next_run_append split: option.splits)
  have nr0: "next_run (pre @ [v]) = next_run pre" using na(1) by (simp add: next_run_append split: option.splits)
  have "ci_rel (pre @ [v]) 0 v pp ?st"
    unfolding ci_rel_def nr0
  proof (intro conjI allI impI, goal_cases)
    case 6 then show ?case by (simp add: idx(3))
  next
    case (9 t) then show ?case
      using rel D(1) na by (cases "t = ?i") (auto simp: ci_rel_def nth_append table_def)
  next
    case (10 t) then show ?case
      using rel D(1,2) by (cases "t = ?i") (auto simp: ci_rel_def nth_append lens_def)
  next
    case (11 t) then show ?case
      using rel na by (cases "t = ?i") (auto simp: ci_rel_def nth_append lens_def)
  next
    case (14 t)
    then have t: "t < ?i" "own_run (pre ! t)" "t \<noteq> ?p"
      using na(1) by (auto simp: nth_append less_Suc_eq split: if_splits)
    then have "\<exists>q. next_run (drop (Suc t) pre) = Some q \<and> ci_lens st ! t = q - pre ! t"
      using rel by (auto simp: ci_rel_def)
    then show ?case using nr [OF t(1)] t(1) by (auto simp: nth_append lens_def)
  next
    case 15
    show ?case using rel v(2) p nr [OF p] by (auto simp: ci_rel_def nth_append)
  qed (use rel m D in \<open>auto simp: ci_rel_def table_def lens_def\<close>)
  moreover have "length (ci_table ?st) = length (ci_table st)" by (simp add: table_def)
  ultimately show ?thesis using call by blast
qed

text \<open>The items.\<close>

lemma bit_0_unat: "bit (w :: u32) 0 \<longleftrightarrow> odd (unat w)"
proof -
  have "bit (unat w) 0 \<longleftrightarrow> bit w 0" by (simp add: bit_unsigned_iff)
  then show ?thesis by (simp only: bit_0)
qed

lemma ci_item2_zeros:
  assumes "0 < z" and "z < 2 ^ 30"
  shows "ci_item2 vm (zeros_enc z @ rest) st
    = andthen (ci_zeros vm (of_nat z) st) (\<lambda>st. Inr (length (zeros_enc z), st))"
proof -
  let ?w = "of_nat (2 * z) :: u32"
  have u: "unat ?w = 2 * z" by (rule of_nat_inverse [OF refl]) (use assms(2) in simp)
  have u64: "unat (of_nat (2 * z) :: u64) = 2 * z" by (rule of_nat_inverse [OF refl]) (use assms(2) in simp)
  have "ucast ?w = (of_nat (2 * z) :: u64)" by (simp only: word_unat_eq_iff unat_ucast_64 u u64)
  then have e: "zeros_enc z = varint ?w" using assms(1) varint_ucast_32_64 [of ?w] by (simp only: zeros_enc_def) simp
  have "\<not> bit ?w 0" unfolding bit_0_unat u by simp
  then have b: "\<not> bit (hd (varint ?w)) 0" using hd_varint(1) [of ?w] by blast
  have l: "load (varint ?w @ rest) 0 = Inr (hd (varint ?w))"
    using hd_varint(2) [of ?w] by (cases "varint ?w") auto
  have g: "fstGetVarint32 (varint ?w @ rest) = Inr (?w, length (varint ?w))" by (rule v32.get_enc)
  have uz: "unat (of_nat z :: u32) = z" by (rule of_nat_inverse [OF refl]) (use assms(2) in simp)
  have "drop_bit 1 ?w = of_nat z"
    by (simp only: word_unat_eq_iff unat_drop_bit_eq u uz) (simp add: drop_bit_eq_div)
  then show ?thesis
    unfolding e using b l g by (simp only: ci_item2_def andthen_simps and_1_bit) simp
qed

lemma ci_item2_odd:
  assumes "bit w 0"
  shows "ci_item2 vm (svarint w @ rest) st =
     (let shval = signed_drop_bit 1 w
      in andthen (if sint shval > 0 then ci_position shval st
                  else if sint shval < 0
                  then ci_shared (ucast shval) (st\<lparr>ci_alias := ucast shval\<rparr>)
                  else ci_shared (ci_alias st) st) (\<lambda>st. Inr (length (svarint w), st)))"
proof -
  have l: "load (svarint w @ rest) 0 = Inr (hd (svarint w))"
    using hd_svarint(2) [of w] by (cases "svarint w") auto
  have b: "bit (hd (svarint w)) 0" using assms by (simp only: hd_svarint)
  have g: "fstGetSVarint64 (svarint w @ rest) = Inr (w, length (svarint w))" by (rule s64.get_enc)
  show ?thesis using l b g by (simp only: ci_item2_def andthen_simps and_1_bit) simp
qed

lemmas ci_item2_run = ci_item2_odd [OF index_word_odd]

lemma ci_loop_step:
  assumes "item (a @ b) st = Inr (length a, st')" and "a \<noteq> []" and "length (a @ b) \<le> k"
  shows "ci_loop item k (a @ b) st = (if b = [] then Inr st' else ci_loop item (k - 1) b st')"
    and "length b \<le> k - 1"
proof -
  obtain j where k: "k = Suc j" using assms(2,3) by (cases k) auto
  show "ci_loop item k (a @ b) st = (if b = [] then Inr st' else ci_loop item (k - 1) b st')"
    by (simp add: k assms(1))
  have "length a \<ge> 1" using assms(2) by (cases a) auto
  then show "length b \<le> k - 1" using assms(3) by simp
qed

text \<open>The rest of a loop: nothing, when no bytes are left.\<close>

definition ci_rest :: "u64 \<Rightarrow> bytes \<Rightarrow> chain_idx \<Rightarrow> chain_idx \<Rightarrow> bool" where
  "ci_rest vm b st st' \<longleftrightarrow>
     (\<forall>k. length b \<le> k \<longrightarrow> (if b = [] then st' = st else ci_loop (ci_item2 vm) k b st = Inr st'))"

lemma ci_rest_step:
  assumes "ci_item2 vm (a @ b) st = Inr (length a, st1)" and "a \<noteq> []" and "ci_rest vm b st1 st'"
  shows "ci_rest vm (a @ b) st st'"
  using ci_loop_step [where item = "ci_item2 vm" and a = a and b = b and st = st and st' = st1] assms
  by (auto simp: ci_rest_def)

lemma ci_rest_zeros:
  assumes rel: "ci_rel pre z pa pp st" and vm: "length (ci_table st) \<le> unat vm + 1" and z: "z < 2 ^ 30"
    and tail: "\<And>st1. ci_rel pre 0 pa pp st1 \<Longrightarrow> length (ci_table st1) = length (ci_table st) \<Longrightarrow>
      \<exists>st'. ci_rest vm b st1 st' \<and> Q st'"
  shows "\<exists>st'. ci_rest vm (zeros_enc z @ b) st st' \<and> Q st'"
proof (cases "z = 0")
  case True
  then show ?thesis using tail [of st] rel by (simp add: zeros_enc_def)
next
  case False
  then obtain st1 where 1: "ci_zeros vm (of_nat z) st = Inr st1" "ci_rel pre 0 pa pp st1"
    "length (ci_table st1) = length (ci_table st)"
    using ci_zeros_rel [OF rel _ vm] by auto
  obtain st' where 2: "ci_rest vm b st1 st'" "Q st'" using tail [OF 1(2,3)] by blast
  have "ci_item2 vm (zeros_enc z @ b) st = Inr (length (zeros_enc z), st1)"
    using ci_item2_zeros [of z vm b st] False z 1(1) by simp
  moreover have "zeros_enc z \<noteq> []" using False by (simp add: zeros_enc_def hd_varint(2))
  ultimately show ?thesis using ci_rest_step 2 by blast
qed

lemma ci_loop_rel:
  assumes "ci_rel pre z pa pp st" and "cells_ok pre pp vs"
    and "length (pre @ vs) < length (ci_table st)" and "length (ci_table st) \<le> unat vm + 1"
    and "length (pre @ vs) < 2 ^ 30"
  shows "\<exists>st'. ci_rest vm (idx_enc vs pa pp z) st st'
    \<and> (\<exists>pa' pp'. ci_rel (pre @ vs) 0 pa' pp' st') \<and> length (ci_table st') = length (ci_table st)"
  using assms
proof (induction vs arbitrary: pre z pa pp st)
  case Nil
  have z: "z < 2 ^ 30" using ci_relD(4) [OF Nil.prems(1)] Nil.prems(5) by simp
  have "\<exists>st'. ci_rest vm (zeros_enc z @ []) st st'
    \<and> ((\<exists>pa' pp'. ci_rel pre 0 pa' pp' st') \<and> length (ci_table st') = length (ci_table st))"
    by (rule ci_rest_zeros [OF Nil.prems(1,4) z]) (auto simp: ci_rest_def)
  then show ?case by simp
next
  case (Cons v vs)
  have len: "length ((pre @ [v]) @ vs) < length (ci_table st)" "length ((pre @ [v]) @ vs) < 2 ^ 30"
    "Suc (length pre) < length (ci_table st)"
    using Cons.prems(3,5) by simp_all
  have z: "z < 2 ^ 30" using ci_relD(4) [OF Cons.prems(1)] Cons.prems(5) by simp
  show ?case
  proof (cases "v = 0")
    case True
    have rel: "ci_rel (pre @ [v]) (Suc z) pa pp st" unfolding True by (rule ci_rel_zero [OF Cons.prems(1) len(3)])
    have ok: "cells_ok (pre @ [v]) pp vs" using Cons.prems(2) True by (simp add: own_run_def)
    show ?thesis using Cons.IH [OF rel ok len(1) Cons.prems(4) len(2)] True by simp
  next
    case False
    let ?e = "svarint (index_word v pa pp)"
    define pa' where "pa' = (if is_alias v then v else pa)"
    define pp' where "pp' = (if is_alias v then pp else v)"
    let ?b = "idx_enc vs pa' pp' 0"
    have ok: "cells_ok (pre @ [v]) pp' vs"
      using Cons.prems(2) False by (auto simp: own_run_def pp'_def split: if_splits)
    have enc: "idx_enc (v # vs) pa pp z = zeros_enc z @ ?e @ ?b"
      using False by (simp add: high_bit_31 pa'_def pp'_def)
    have one: "\<exists>st2. ci_item2 vm (?e @ ?b) st1 = Inr (length ?e, st2) \<and> ci_rel (pre @ [v]) 0 pa' pp' st2
        \<and> length (ci_table st2) = length (ci_table st1)"
      if rel1: "ci_rel pre 0 pa pp st1" and l1: "length (ci_table st1) = length (ci_table st)" for st1
    proof (cases "is_alias v")
      case True
      have nn: "next_run pre \<noteq> None"
        using Cons.prems(2) True False next_run_None [of pre] by auto
      have m1: "Suc (length pre) < length (ci_table st1)" using len(3) l1 by simp
      obtain st2 where 2: "ci_shared v (st1\<lparr>ci_alias := v\<rparr>) = Inr st2" "ci_rel (pre @ [v]) 0 v pp st2"
        "length (ci_table st2) = length (ci_table st1)"
        using ci_shared_rel [OF rel1 True nn m1] by blast
      show ?thesis
      proof (cases "v = pa")
        case same: True
        have a: "ci_alias st1 = v" using ci_relD(7) [OF rel1] same by simp
        then have "st1\<lparr>ci_alias := v\<rparr> = st1" by (cases st1) simp
        then have "ci_shared v st1 = Inr st2" using 2(1) by simp
        moreover have "signed_drop_bit 1 (1 :: u64) = 0"
          by (rule bit_word_eqI) (auto simp: bit_simps split: if_splits)
        ultimately show ?thesis
          using 2(2,3) True same index_word_same [OF True] a ci_item2_run [of vm v pa pp ?b st1]
          by (simp add: Let_def pa'_def pp'_def)
      next
        case new: False
        show ?thesis
          using 2 True index_word_alias [OF True new, of pp] by (simp add: ci_item2_run Let_def pa'_def pp'_def)
      qed
    next
      case na: False
      have lt: "pp < v" using Cons.prems(2) False na by simp
      have own: "own_run v" using na False by (simp add: own_run_def)
      have m1: "Suc (length pre) < length (ci_table st1)" using len(3) l1 by simp
      show ?thesis
        using ci_position_rel [OF rel1 own lt m1] index_word_position(1) [OF na lt, of pa] index_word_position(2) [OF na lt] na
        by (auto simp: ci_item2_run Let_def pa'_def pp'_def)
    qed
    have "\<exists>st'. ci_rest vm (zeros_enc z @ ?e @ ?b) st st'
      \<and> ((\<exists>pa' pp'. ci_rel (pre @ v # vs) 0 pa' pp' st') \<and> length (ci_table st') = length (ci_table st))"
    proof (rule ci_rest_zeros [OF Cons.prems(1,4) z])
      fix st1
      assume 1: "ci_rel pre 0 pa pp st1" "length (ci_table st1) = length (ci_table st)"
      obtain st2 where 2: "ci_item2 vm (?e @ ?b) st1 = Inr (length ?e, st2)" "ci_rel (pre @ [v]) 0 pa' pp' st2"
        "length (ci_table st2) = length (ci_table st1)"
        using one [OF 1] by blast
      obtain st' where 3: "ci_rest vm ?b st2 st'" "\<exists>pa' pp'. ci_rel ((pre @ [v]) @ vs) 0 pa' pp' st'"
        "length (ci_table st') = length (ci_table st2)"
        using Cons.IH [OF 2(2) ok] len Cons.prems(4) 1(2) 2(3) by (simp only:) blast
      have "ci_rest vm (?e @ ?b) st1 st'" by (rule ci_rest_step [OF 2(1) hd_svarint(2) 3(1)])
      then show "\<exists>st'. ci_rest vm (?e @ ?b) st1 st'
          \<and> ((\<exists>pa' pp'. ci_rel (pre @ v # vs) 0 pa' pp' st') \<and> length (ci_table st') = length (ci_table st))"
        using 3 2(3) 1(2) by auto
    qed
    then show ?thesis unfolding enc .
  qed
qed

section \<open>The resolved tables\<close>

text \<open>Where the run of a handle is, and how long it is.\<close>

definition owner :: "u32 list \<Rightarrow> nat \<Rightarrow> nat" where
  "owner cells t = (if is_alias (cells ! t) then unat (- (cells ! t)) - 1 else t)"

definition run_end :: "u32 list \<Rightarrow> u32 \<Rightarrow> nat \<Rightarrow> u32" where
  "run_end cells vc_len t =
     (case next_run (drop (Suc t) cells) of Some q \<Rightarrow> q | None \<Rightarrow> vc_len)"

definition tables_of :: "u32 list \<Rightarrow> u32 \<Rightarrow> chain_idx \<Rightarrow> bool" where
  "tables_of cells vc_len st \<longleftrightarrow>
     unat (ci_idx st) = length cells
     \<and> length cells \<le> length (ci_table st) \<and> length cells \<le> length (ci_lens st)
     \<and> (\<forall>t < length cells.
          if cells ! t = 0 then ci_table st ! t = 0
          else ci_table st ! t = ucast (cells ! owner cells t)
            \<and> ci_lens st ! t = run_end cells vc_len (owner cells t) - cells ! owner cells t)"

lemma cells_ok_alias:
  assumes "cells_ok pre pp vs" and "t < length vs" and "is_alias (vs ! t)"
  shows "unat (- (vs ! t)) - 1 < length pre + t \<and> own_run ((pre @ vs) ! (unat (- (vs ! t)) - 1))
    \<and> vs ! t \<noteq> 0x80000000"
  using assms
proof (induction vs arbitrary: pre pp t)
  case (Cons v vs)
  show ?case
  proof (cases t)
    case 0
    have "v \<noteq> 0" using Cons.prems(3) 0 by (auto simp: is_alias_def)
    then show ?thesis using Cons.prems 0 by (auto simp: nth_append)
  next
    case (Suc t')
    then show ?thesis using Cons.IH [of "pre @ [v]" _ t'] Cons.prems by auto
  qed
qed simp

lemma cells_ok_ownerD:
  assumes "cells_ok [] pp cells" and "t < length cells" and "cells ! t \<noteq> 0"
  shows "owner cells t \<le> t" and "own_run (cells ! owner cells t)"
    and "is_alias (cells ! t) \<Longrightarrow> owner cells t < t"
  using cells_ok_alias [OF assms(1,2)] assms(3) by (auto simp: owner_def own_run_def)

text \<open>After some handles are resolved.\<close>

definition resolved :: "u32 list \<Rightarrow> u32 \<Rightarrow> nat \<Rightarrow> chain_idx \<Rightarrow> bool" where
  "resolved cells vc_len i st \<longleftrightarrow>
     length cells \<le> length (ci_table st) \<and> length (ci_lens st) = length (ci_table st)
     \<and> (\<forall>t < length cells.
          (cells ! t = 0 \<longrightarrow> ci_table st ! t = 0 \<and> \<not> is_alias (ci_lens st ! t))
          \<and> (own_run (cells ! t) \<or> cells ! t \<noteq> 0 \<and> t < i \<longrightarrow>
               ci_table st ! t = ucast (cells ! owner cells t)
               \<and> ci_lens st ! t = run_end cells vc_len (owner cells t) - cells ! owner cells t)
          \<and> (is_alias (cells ! t) \<and> i \<le> t \<longrightarrow> ci_table st ! t = 0 \<and> ci_lens st ! t = cells ! t))"

lemma ci_resolve_rel:
  assumes ok: "cells_ok [] pp cells" and r: "resolved cells vc_len i st" and i: "i < length cells"
  shows "\<exists>st'. ci_resolve st i = Inr st' \<and> resolved cells vc_len (Suc i) st' \<and> ci_idx st' = ci_idx st"
proof -
  have len: "i < length (ci_table st)" "i < length (ci_lens st)" using r i by (auto simp: resolved_def)
  consider "cells ! i = 0" | "own_run (cells ! i)" | "is_alias (cells ! i)" by (auto simp: own_run_def)
  then show ?thesis
  proof cases
    case 1
    then have "ci_resolve st i = Inr st" using r i len by (simp add: ci_resolve_def resolved_def high_bit_31)
    moreover have "resolved cells vc_len (Suc i) st"
      using r 1 by (auto simp: resolved_def less_Suc_eq_le is_alias_def Suc_le_eq le_less)
    ultimately show ?thesis by blast
  next
    case 2
    then have "owner cells i = i" by (simp add: owner_def own_run_def)
    then have "ci_table st ! i = ucast (cells ! i)" using r i 2 by (simp add: resolved_def)
    moreover have "(ucast (cells ! i) :: u64) \<noteq> 0"
    proof
      assume "(ucast (cells ! i) :: u64) = 0"
      then have "unat (cells ! i) = 0" using unat_ucast_64 [of "cells ! i"] by simp
      then have "cells ! i = 0" by (simp only: unat_eq_zero)
      then show False using 2 by (simp add: own_run_def)
    qed
    ultimately have "ci_resolve st i = Inr st" using len by (simp add: ci_resolve_def)
    moreover have "resolved cells vc_len (Suc i) st"
      using r 2 by (auto simp: resolved_def less_Suc_eq_le own_run_def Suc_le_eq le_less)
    ultimately show ?thesis by blast
  next
    case 3
    let ?v = "cells ! i" and ?j = "owner cells i"
    have v0: "?v \<noteq> 0" using 3 by (auto simp: is_alias_def)
    have a: "unat (- ?v) - 1 < i" "own_run (cells ! ?j)" "?v \<noteq> 0x80000000" "?j < i"
      using cells_ok_alias [OF ok i 3] cells_ok_ownerD [OF ok i v0] 3 by simp_all
    have cell: "ci_table st ! i = 0" "ci_lens st ! i = ?v" using r i 3 by (auto simp: resolved_def)
    have j: "unat (- ?v - 1) = ?j" using 3 v0 by (simp add: owner_def unat_minus_one)
    have jr: "ci_table st ! ?j = ucast (cells ! ?j)" "ci_lens st ! ?j = run_end cells vc_len ?j - cells ! ?j"
      using r a(2,4) i by (auto simp: resolved_def owner_def own_run_def)
    have call: "ci_resolve st i = Inr (st\<lparr>ci_table := (ci_table st)[i := ci_table st ! ?j],
        ci_lens := (ci_lens st)[i := ci_lens st ! ?j]\<rparr>)" (is "_ = Inr ?st")
      using len cell 3 a(3,4) j by (simp add: ci_resolve_def high_bit_31 Let_def)
    have "resolved cells vc_len (Suc i) ?st"
      unfolding resolved_def
    proof (intro conjI allI impI, goal_cases)
      case (3 t) then show ?case using r v0 len by (auto simp: resolved_def nth_list_update)
    next
      case (4 t) then show ?case using r v0 len by (auto simp: resolved_def nth_list_update)
    next
      case (5 t) then show ?case using r jr len by (auto simp: resolved_def nth_list_update less_Suc_eq)
    next
      case (6 t) then show ?case using r jr len by (auto simp: resolved_def nth_list_update less_Suc_eq)
    qed (use r in \<open>auto simp: resolved_def nth_list_update\<close>)
    then show ?thesis using call by auto
  qed
qed

lemma ci_resolve_all_rel:
  assumes "cells_ok [] pp cells" and "resolved cells vc_len i st" and "i + n = length cells"
  shows "\<exists>st'. ci_resolve_all [i..<i + n] st = Inr st' \<and> resolved cells vc_len (length cells) st'
    \<and> ci_idx st' = ci_idx st"
  using assms(2,3)
proof (induction n arbitrary: i st)
  case (Suc n)
  have "i < length cells" using Suc.prems(2) by simp
  then obtain st1 where 1: "ci_resolve st i = Inr st1" "resolved cells vc_len (Suc i) st1" "ci_idx st1 = ci_idx st"
    using ci_resolve_rel [OF assms(1) Suc.prems(1)] by blast
  have u: "[i..<i + Suc n] = i # [Suc i..<Suc i + n]" by (simp add: upt_conv_Cons del: upt_Suc)
  show ?case unfolding u using 1 Suc.IH [OF 1(2)] Suc.prems(2) by (auto simp del: upt_Suc)
qed auto

lemma ci_finish_rel:
  assumes rel: "ci_rel cells 0 pa pp st" and ok: "cells_ok [] 0 cells"
    and vl: "\<not> is_alias vl" "pp \<le> vl"
  shows "\<exists>st'. ci_finish (ucast vl) st = Inr st' \<and> tables_of cells vl st'"
proof -
  note D = ci_relD [OF rel]
  let ?m = "length cells" and ?p = "unat (ci_pidx st)"
  have p: "?p < length (ci_table st)" "?p \<noteq> ?m \<or> ?m = 0"
    using rel D(1) by (auto simp: ci_rel_def split: if_splits)
  define table where "table = (ci_table st)[?m := ucast vl]"
  define lens where "lens = (ci_lens st)[?p := ucast (ucast vl - table ! ?p)]"
  let ?st = "st\<lparr>ci_table := table, ci_lens := lens\<rparr>"
  have call: "ci_finish (ucast vl) st = ci_resolve_all [0..<?m] ?st"
    using D(1,2) p(1) by (simp add: ci_finish_def Let_def D(5) table_def lens_def)
  have tab: "t < ?m \<Longrightarrow> table ! t = (if own_run (cells ! t) then ucast (cells ! t) else 0)" for t
    using rel by (simp add: ci_rel_def table_def)
  have len_p: "lens ! ?p = vl - cells ! ?p" if "own_run (cells ! ?p)" "?p < ?m"
  proof -
    have "next_run cells \<noteq> None" using that next_run_None [of cells] by auto
    then have pp: "cells ! ?p = pp" using rel by (auto simp: ci_rel_def)
    have "table ! ?p = ucast pp" using tab [OF that(2)] that(1) pp by simp
    then have "lens ! ?p = ucast ((ucast vl :: u64) - ucast pp)" using p(1) D(2) by (simp add: lens_def)
    then show ?thesis using vl(2) pp by (simp add: ucast_diff ucast_32_64_32)
  qed
  have len_0: "\<not> is_alias (lens ! t)" if "t < ?m" "cells ! t = 0" for t
  proof (cases "t = ?p")
    case True
    then have "table ! ?p = 0" using tab [OF that(1)] that(2) by (simp add: own_run_def)
    then show ?thesis using True p(1) D(2) vl(1) by (simp add: lens_def ucast_32_64_32)
  next
    case False
    then show ?thesis using rel that by (simp add: ci_rel_def lens_def)
  qed
  have "resolved cells vl 0 ?st"
    unfolding resolved_def
  proof (intro conjI allI impI, goal_cases)
    case (3 t) then show ?case using tab by (simp add: own_run_def)
  next
    case (4 t) then show ?case using len_0 by simp
  next
    case (5 t)
    then have "own_run (cells ! t)" by simp
    then show ?case using tab 5 by (simp add: owner_def own_run_def)
  next
    case (6 t)
    then have o: "own_run (cells ! t)" by simp
    then have ow: "owner cells t = t" by (simp add: owner_def own_run_def)
    show ?case
    proof (cases "t = ?p")
      case True
      have "next_run cells \<noteq> None" using o 6 next_run_None [of cells] by auto
      then have "next_run (drop (Suc t) cells) = None" using rel True by (auto simp: ci_rel_def)
      moreover have "lens ! t = vl - cells ! t" using len_p o 6 True by simp
      ultimately show ?thesis unfolding ow run_end_def by (simp add: True)
    next
      case False
      then have "\<exists>q. next_run (drop (Suc t) cells) = Some q \<and> ci_lens st ! t = q - cells ! t"
        using rel 6 o by (auto simp: ci_rel_def)
      then show ?thesis using False by (auto simp: ow run_end_def lens_def)
    qed
  next
    case (7 t) then show ?case using tab by (simp add: own_run_def)
  next
    case (8 t)
    have "next_run cells \<noteq> None"
      using cells_ok_alias [OF ok, of t] 8 next_run_None [of cells] by auto
    then have "own_run (cells ! ?p)" using rel by (auto simp: ci_rel_def)
    then have "t \<noteq> ?p" using 8 by (auto simp: own_run_def)
    then show ?case using rel 8 by (simp add: ci_rel_def lens_def)
  qed (use D in \<open>auto simp: table_def lens_def\<close>)
  then obtain st' where st': "ci_resolve_all [0..<?m] ?st = Inr st'" "resolved cells vl ?m st'" "ci_idx st' = ci_idx ?st"
    using ci_resolve_all_rel [OF ok, of vl 0 ?st ?m] by auto
  have "tables_of cells vl st'"
    using st'(2,3) D(5) by (auto simp: tables_of_def resolved_def)
  then show ?thesis using call st'(1) by auto
qed

lemma idx_enc_not_Nil: "cells \<noteq> [] \<or> z \<noteq> 0 \<Longrightarrow> idx_enc cells pa pp z \<noteq> []"
  by (induction cells arbitrary: pa pp z) (auto simp: zeros_enc_def hd_varint(2) hd_svarint(2))

lemma chain_index_rel:
  assumes ok: "cells_ok [] 0 cells" and m: "cells \<noteq> []" "length cells = unat vm" "length cells < 2 ^ 30"
    and vl: "\<not> is_alias vl" "\<forall>v \<in> set cells. own_run v \<longrightarrow> v \<le> vl"
  shows "\<exists>st. chain_index True vm (ucast vl) (idx_enc cells 0 0 0) no_tables = Inr (Some st) \<and> tables_of cells vl st"
proof -
  let ?L = "unat vm + 1"
  have vm1: "unat (vm + 1) = ?L" using m(2,3) by (simp add: unat_word_ariths)
  have "unat ((vm + 1) * 8 div 8) = ?L" using m(2,3) by (simp add: unat_word_ariths unat_div)
  then have v8: "(vm + 1) * 8 div 8 = vm + 1" using vm1 by (simp add: word_unat_eq_iff)
  have vm0: "vm + 1 \<noteq> 0" "0 < vm" using vm1 m(1,2) by (auto simp: word_gt_0)
  define st0 where "st0 = no_tables\<lparr>ci_table := replicate ?L 0, ci_lens := replicate ?L 0\<rparr>"
  have alloc: "ci_alloc vm no_tables = Inr st0"
    using vm0 v8 vm1 by (simp add: ci_alloc_def no_tables_def st0_def)
  have st0: "st0\<lparr>ci_idx := 0, ci_pval := 0, ci_alias := 0\<rparr> = st0" "ci_table st0 \<noteq> []" "length (ci_table st0) = ?L"
    by (simp_all add: st0_def no_tables_def)
  have rel: "ci_rel [] 0 0 0 st0"
    using m(2,3) by (simp add: ci_rel_def st0_def no_tables_def is_alias_def del: replicate_Suc)
  obtain st1 pa pp where 1: "ci_rest vm (idx_enc cells 0 0 0) st0 st1" "ci_rel cells 0 pa pp st1"
    using ci_loop_rel [OF rel ok, of vm] m(2,3) st0(3) by auto
  have loop: "ci_loop (ci_item2 vm) (length (idx_enc cells 0 0 0)) (idx_enc cells 0 0 0) st0 = Inr st1"
    using 1(1) idx_enc_not_Nil [of cells 0 0 0] m(1) by (simp add: ci_rest_def)
  have "pp \<le> vl"
  proof (cases "next_run cells")
    case None
    then show ?thesis using 1(2) by (simp add: ci_rel_def)
  next
    case (Some q)
    then have "own_run pp \<and> pp \<in> set cells" using 1(2) by (auto simp: ci_rel_def)
    then show ?thesis using vl(2) by blast
  qed
  then obtain st2 where "ci_finish (ucast vl) st1 = Inr st2" "tables_of cells vl st2"
    using ci_finish_rel [OF 1(2) ok vl(1)] by blast
  then show ?thesis using alloc st0 loop by (simp add: chain_index_def)
qed

section \<open>An index with too many entries\<close>

text \<open>
  The entries of an index as any file may hold them: an odd signed number, which is the entry of one
  handle (a run of its own, or one shared with another handle, by number or repeated), and a number of handles
  without a run.
\<close>

datatype idx_entry = One_handle u64 | No_runs nat

primrec entry_bytes :: "idx_entry \<Rightarrow> bytes" where
  "entry_bytes (One_handle v) = svarint (push_bit 1 v OR 1)"
| "entry_bytes (No_runs z) = zeros_enc z"

primrec entry_handles :: "idx_entry \<Rightarrow> nat" where
  "entry_handles (One_handle v) = 1"
| "entry_handles (No_runs z) = z"

definition handles_of :: "idx_entry list \<Rightarrow> nat" where
  "handles_of es = sum_list (map entry_handles es)"

definition entry_ok :: "idx_entry \<Rightarrow> bool" where
  "entry_ok e \<longleftrightarrow> 0 < entry_handles e \<and> entry_handles e < 2 ^ 30"

lemma handles_of_simps [simp]: "handles_of [] = 0" "handles_of (e # es) = entry_handles e + handles_of es"
  by (simp_all add: handles_of_def)

lemma entry_bytes_not_Nil: "entry_ok e \<Longrightarrow> entry_bytes e \<noteq> []"
  by (cases e) (auto simp: entry_ok_def zeros_enc_def hd_varint(2) hd_svarint(2))

text \<open>The state behind the entries of \<open>n\<close> handles, with tables of \<open>m + 1\<close> cells.\<close>

definition ci_at :: "nat \<Rightarrow> nat \<Rightarrow> chain_idx \<Rightarrow> bool" where
  "ci_at m n st \<longleftrightarrow> length (ci_table st) = m + 1 \<and> length (ci_lens st) = m + 1
     \<and> ci_idx st = of_nat n \<and> unat (ci_pidx st) \<le> m"

lemma ci_at_position:
  assumes "ci_at m n st" and "n \<le> m + 1" and "m < 2 ^ 30"
  shows "if n \<le> m then \<exists>st'. ci_position d st = Inr st' \<and> ci_at m (n + 1) st'
         else ci_position d st = Inl Out_of_bounds"
proof -
  have u: "unat (of_nat n :: u32) = n" by (rule of_nat_inverse [OF refl]) (use assms(2,3) in simp)
  show ?thesis
    using assms u by (auto simp: ci_at_def ci_position_def Let_def set_cell_def add.commute)
qed

lemma ci_at_shared:
  assumes "ci_at m n st" and "n \<le> m + 1" and "m < 2 ^ 30"
  shows "if n \<le> m then \<exists>st'. ci_shared v st = Inr st' \<and> ci_at m (n + 1) st'
         else ci_shared v st = Inl Out_of_bounds"
proof -
  have u: "unat (of_nat n :: u32) = n" by (rule of_nat_inverse [OF refl]) (use assms(2,3) in simp)
  show ?thesis
    using assms u by (auto simp: ci_at_def ci_shared_def Let_def set_cell_def add.commute)
qed

lemma ci_at_zeros:
  assumes "ci_at m n st" and "n \<le> m + 1" and "m < 2 ^ 30" and "0 < z" "z < 2 ^ 30"
  shows "if n + z \<le> m + 1 then \<exists>st'. ci_zeros (of_nat m) (of_nat z) st = Inr st' \<and> ci_at m (n + z) st'
         else ci_zeros (of_nat m) (of_nat z) st = Inl (Report_abort ''TALOS-2023-1789'')"
proof -
  have u: "unat (of_nat n :: u32) = n" "unat (of_nat z :: u32) = z"
    by (rule of_nat_inverse [OF refl], use assms(2,3,5) in simp)+
  have i: "ci_idx st + of_nat z - 1 = of_nat (n + z - 1)"
    using assms(1,4) by (simp add: ci_at_def of_nat_diff)
  have l: "unat (of_nat (n + z - 1) :: u32) = n + z - 1" "unat (of_nat m :: u64) = m"
    by (rule of_nat_inverse [OF refl], use assms(2,3,5) in simp)+
  have c: "ucast (ci_idx st + of_nat z - 1) > (of_nat m :: u64) \<longleftrightarrow> m < n + z - 1"
    by (simp only: i word_less_nat_alt unat_ucast_64 l)
  show ?thesis
  proof (cases "n + z \<le> m + 1")
    case True
    then have "\<not> m < n + z - 1" by simp
    then have "ci_zeros (of_nat m) (of_nat z) st = Inr (st\<lparr>ci_table := take n (ci_table st) @ replicate z 0
        @ drop (n + z) (ci_table st), ci_idx := ci_idx st + of_nat z\<rparr>)"
      using True assms(1) u by (simp only: ci_zeros_def c if_False) (simp add: store_n_def ci_at_def)
    with True assms(1) show ?thesis by (auto simp: ci_at_def)
  next
    case False
    then have "m < n + z - 1" using assms(4) by simp
    with False show ?thesis by (simp only: ci_zeros_def c if_True if_False)
  qed
qed

lemma ci_at_entry:
  assumes "ci_at m n st" and "n \<le> m + 1" and "m < 2 ^ 30" and "entry_ok e"
  shows "if n + entry_handles e \<le> m + 1
         then \<exists>st'. ci_item2 (of_nat m) (entry_bytes e @ rest) st = Inr (length (entry_bytes e), st')
                \<and> ci_at m (n + entry_handles e) st'
         else ci_item2 (of_nat m) (entry_bytes e @ rest) st
                = Inl (case e of One_handle v \<Rightarrow> Out_of_bounds
                       | No_runs z \<Rightarrow> Report_abort ''TALOS-2023-1789'')"
proof (cases e)
  case (No_runs z)
  then show ?thesis
    using ci_at_zeros [OF assms(1-3), of z] ci_item2_zeros [of z "of_nat m" rest st] assms(4)
    by (auto simp: entry_ok_def)
next
  case (One_handle v)
  have "bit (push_bit 1 v OR 1) 0" by (simp add: bit_simps)
  note item = ci_item2_odd [OF this, of "of_nat m" rest st]
  have a: "ci_at m n (st\<lparr>ci_alias := x\<rparr>)" for x using assms(1) by (simp add: ci_at_def)
  show ?thesis
    unfolding One_handle entry_bytes.simps item Let_def
    using ci_at_position [OF assms(1-3), of "signed_drop_bit 1 (push_bit 1 v OR 1)"]
      ci_at_shared [OF a assms(2,3), of "ucast (signed_drop_bit 1 (push_bit 1 v OR 1))" "ucast (signed_drop_bit 1 (push_bit 1 v OR 1))"]
      ci_at_shared [OF assms(1-3), of "ci_alias st"]
    by (cases "n \<le> m") auto
qed

lemma ci_loop_entries:
  assumes "ci_at m n st" and "n + handles_of es \<le> m + 1" and "m < 2 ^ 30" and "\<forall>e \<in> set es. entry_ok e"
    and "length (concat (map entry_bytes es) @ b) \<le> k"
  shows "\<exists>st' k'. ci_at m (n + handles_of es) st' \<and> length b \<le> k'
    \<and> (if es \<noteq> [] \<and> b = [] then ci_loop (ci_item2 (of_nat m)) k (concat (map entry_bytes es) @ b) st = Inr st'
       else ci_loop (ci_item2 (of_nat m)) k (concat (map entry_bytes es) @ b) st = ci_loop (ci_item2 (of_nat m)) k' b st')"
  using assms
proof (induction es arbitrary: n st k)
  case (Cons e es)
  let ?b = "concat (map entry_bytes es) @ b"
  have ok: "entry_ok e" using Cons.prems(4) by simp
  obtain st1 where 1: "ci_item2 (of_nat m) (entry_bytes e @ ?b) st = Inr (length (entry_bytes e), st1)"
    "ci_at m (n + entry_handles e) st1"
    using ci_at_entry [OF Cons.prems(1) _ Cons.prems(3) ok, of ?b] Cons.prems(2) by auto
  have len: "length (entry_bytes e @ ?b) \<le> k" using Cons.prems(5) by simp
  note step = ci_loop_step [where item = "ci_item2 (of_nat m)" and a = "entry_bytes e" and b = ?b,
    OF 1(1) entry_bytes_not_Nil [OF ok] len]
  have "?b = [] \<longleftrightarrow> es = [] \<and> b = []"
    using Cons.prems(4) entry_bytes_not_Nil by (cases es) auto
  with Cons.IH [OF 1(2) _ Cons.prems(3) _ step(2)] Cons.prems(2,4) step(1) 1(2) show ?case
    by (cases "es = [] \<and> b = []") (auto simp: add.assoc split: if_splits)
qed auto

lemma chain_index_fresh:
  assumes "0 < m" and "m < 2 ^ 30"
  shows "\<exists>st0. ci_at m 0 st0
    \<and> chain_index True (of_nat m) vc_len cmem no_tables
      = andthen (ci_loop (ci_item2 (of_nat m)) (length cmem) cmem st0) (\<lambda>st. andthen (ci_finish vc_len st) (\<lambda>st. Inr (Some st)))"
proof -
  let ?vm = "of_nat m :: u64"
  have m: "unat ?vm = m" by (rule of_nat_inverse [OF refl]) (use assms in simp)
  have vm1: "unat (?vm + 1) = m + 1" using assms m by (simp add: unat_word_ariths)
  have "unat ((?vm + 1) * 8 div 8) = m + 1" using assms m by (simp add: unat_word_ariths unat_div)
  then have v8: "(?vm + 1) * 8 div 8 = ?vm + 1" using vm1 by (simp add: word_unat_eq_iff)
  have vm0: "?vm + 1 \<noteq> 0" "0 < ?vm" using vm1 m assms by (auto simp: word_less_nat_alt)
  define st0 where "st0 = no_tables\<lparr>ci_table := replicate (m + 1) 0, ci_lens := replicate (m + 1) 0\<rparr>"
  have alloc: "ci_alloc ?vm no_tables = Inr st0"
    using vm0 v8 vm1 by (simp add: ci_alloc_def no_tables_def st0_def)
  have st0: "st0\<lparr>ci_idx := 0, ci_pval := 0, ci_alias := 0\<rparr> = st0" "ci_table st0 \<noteq> []" "ci_at m 0 st0"
    by (simp_all add: st0_def no_tables_def ci_at_def)
  then show ?thesis using alloc by (auto simp: chain_index_def intro!: exI [of _ st0])
qed

section \<open>The index the flush writes\<close>

text \<open>The cells of the handles in \<open>valpos\<close>, and what is left of them.\<close>

definition run_cells :: "nat list \<Rightarrow> fstWriterContext \<Rightarrow> u32 list" where
  "run_cells is xc = map (\<lambda>i. valpos xc ! (4 * i + 2)) is"

definition cells_room :: "nat list \<Rightarrow> fstWriterContext \<Rightarrow> bool" where
  "cells_room is xc \<longleftrightarrow> valpos_mapped xc \<and> distinct is
     \<and> (\<forall>i \<in> set is. 4 * i + 3 < length (valpos xc) \<and> 4 * i + 3 < 2 ^ 32)"

definition cleared :: "nat list \<Rightarrow> u32 list \<Rightarrow> u32 list" where
  "cleared is vs = foldl (\<lambda>vs i. if vs ! (4 * i + 2) = 0 then vs else vs[4 * i + 2 := 0, 4 * i + 3 := 0]) vs is"

lemma cell_index: "4 * i + 3 < 2 ^ 32 \<Longrightarrow> unat (4 * of_nat i :: u32) = 4 * i"
  by (simp add: unat_word_ariths unat_of_nat mod_mult_right_eq)

lemma emit_zeros_eq:
  "z < 2 ^ 30 \<Longrightarrow> emit_zeros z xc = Inr (xc\<lparr>handle := fstFwrite (zeros_enc z) (handle xc)\<rparr>)"
  by (simp add: emit_zeros_def zeros_enc_def fstWriterVarint_eq fstFwrite_def fwrite_bytes_def)

lemma emit_svarint_eq: "emit_svarint w xc = Inr (xc\<lparr>handle := fstFwrite (svarint w) (handle xc)\<rparr>)"
  by (simp add: emit_svarint_def fstWriterSVarint_eq)

lemma flush_index_eq:
  assumes "cells_room is xc" and "z + length is < 2 ^ 30"
  shows "flush_index is pa pp z xc = Inr (xc\<lparr>handle := fstFwrite (idx_enc (run_cells is xc) pa pp z) (handle xc),
    valpos := cleared is (valpos xc)\<rparr>)"
  using assms
proof (induction "is" arbitrary: pa pp z xc)
  case Nil
  then show ?case by (simp add: emit_zeros_eq run_cells_def cleared_def)
next
  case (Cons i "is")
  define v where "v = valpos xc ! (4 * i + 2)"
  have r: "valpos_mapped xc" "4 * i + 3 < length (valpos xc)" "4 * i + 3 < 2 ^ 32" "i \<notin> set is"
    "cells_room is xc"
    using Cons.prems(1) by (auto simp: cells_room_def)
  have i4: "unat (4 * of_nat i :: u32) = 4 * i" by (rule cell_index [OF r(3)])
  have cell: "vm4ip xc (of_nat i) 2 = Inr v" using r(1,2) i4 by (simp add: vm4ip_def v_def)
  show ?case
  proof (cases "v = 0")
    case True
    then show ?thesis
      using Cons.IH [OF r(5), of "z + 1"] Cons.prems(2) cell
      by (simp add: run_cells_def cleared_def v_def)
  next
    case False
    define xc1 where "xc1 = xc\<lparr>handle := fstFwrite (zeros_enc z @ svarint (index_word v pa pp)) (handle xc),
      valpos := (valpos xc)[4 * i + 2 := 0, 4 * i + 3 := 0]\<rparr>"
    have nth: "valpos xc1 ! (4 * j + 2) = valpos xc ! (4 * j + 2)" if "j \<in> set is" for j
    proof -
      have "4 * j + 2 \<noteq> 4 * i + 2" "4 * j + 2 \<noteq> 4 * i + 3" using that r(4) by (auto, presburger)
      then show ?thesis by (simp add: xc1_def)
    qed
    have rc: "run_cells is xc1 = run_cells is xc" using nth by (simp add: run_cells_def)
    have room: "cells_room is xc1" using r(5) by (simp add: cells_room_def xc1_def)
    have z: "z < 2 ^ 30" "0 + length is < 2 ^ 30" using Cons.prems(2) by simp_all
    have step: "set_vm4ip (of_nat i) 3 0 (set_vm4ip (of_nat i) 2 0
        (xc\<lparr>handle := fstFwrite (svarint (index_word v pa pp)) (fstFwrite (zeros_enc z) (handle xc))\<rparr>)) = xc1"
      by (simp add: set_vm4ip_def i4 xc1_def fstFwrite_twice)
    have "flush_index (i # is) pa pp z xc = (if is_alias v then flush_index is v pp 0 xc1 else flush_index is pa v 0 xc1)"
      using False cell step by (simp add: emit_zeros_eq [OF z(1)] emit_svarint_eq high_bit_31 Let_def)
    moreover have "run_cells (i # is) xc = v # run_cells is xc" by (simp add: run_cells_def v_def)
    moreover have "cleared (i # is) (valpos xc) = cleared is (valpos xc1)"
      using False by (simp add: cleared_def v_def xc1_def)
    moreover have "fstFwrite d (handle xc1) = fstFwrite (zeros_enc z @ svarint (index_word v pa pp) @ d) (handle xc)" for d
      by (simp add: xc1_def fstFwrite_twice)
    moreover have "xc1\<lparr>handle := h, valpos := w\<rparr> = xc\<lparr>handle := h, valpos := w\<rparr>" for h w
      by (simp add: xc1_def)
    ultimately show ?thesis
      using False Cons.IH [OF room z(2)] by (simp add: rc high_bit_31)
  qed
qed

section \<open>Properties\<close>

text \<open>
  C11. The index of a block survives: from cells as a flush leaves them, \<open>flush_index\<close> appends bytes
  from which the reader, with fresh tables, rebuilds for every handle where its run starts and how
  long it is; handles without a run get 0, and a handle that shares a run gets the place and the
  length of the handle that owns it. The cells of the handles with a run are cleared.
\<close>

theorem index_roundtrip:
  assumes "cells_room [0..<m] xc" and "0 < m" and "m < 2 ^ 30" and "at_end (handle xc)"
    and "cells_ok [] 0 (run_cells [0..<m] xc)"
    and "\<not> is_alias vc_len" and "\<forall>v \<in> set (run_cells [0..<m] xc). own_run v \<longrightarrow> v \<le> vc_len"
  shows "\<exists>xc' cmem st. flush_index [0..<m] 0 0 0 xc = Inr xc'
    \<and> f_data (handle xc') = f_data (handle xc) @ cmem \<and> at_end (handle xc')
    \<and> chain_index True (of_nat m) (ucast vc_len) cmem no_tables = Inr (Some st)
    \<and> tables_of (run_cells [0..<m] xc) vc_len st"
proof -
  let ?cells = "run_cells [0..<m] xc"
  have l: "length ?cells = m" by (simp add: run_cells_def)
  have "unat (of_nat m :: u64) = m" by (rule of_nat_inverse [OF refl]) (use assms(3) in simp)
  then have "\<exists>st. chain_index True (of_nat m) (ucast vc_len) (idx_enc ?cells 0 0 0) no_tables = Inr (Some st)
      \<and> tables_of ?cells vc_len st"
    using assms(2,3) l by (intro chain_index_rel [OF assms(5) _ _ _ assms(6,7)]) auto
  moreover have "0 + length [0..<m] < 2 ^ 30" using assms(3) by simp
  ultimately show ?thesis
    using flush_index_eq [OF assms(1)] fstFwrite_at_end [OF assms(4)] by auto
qed

text \<open>Five handles: a run of two bytes, one that shares it, none, another run, one that shares that.\<close>

definition demo_runs :: fstWriterContext where
  "demo_runs = writer_zero\<lparr>valpos := [0, 1, 1, 0, 1, 1, -1, 0, 2, 1, 0, 0, 3, 1, 3, 0, 4, 1, -4, 0],
     valpos_mapped := True, maxhandle := 5\<rparr>"

lemma index_roundtrip_witness:
  "\<exists>xc' cmem st. flush_index [0..<5] 0 0 0 demo_runs = Inr xc' \<and> f_data (handle xc') = cmem
    \<and> chain_index True 5 12 cmem no_tables = Inr (Some st) \<and> tables_of [1, -1, 0, 3, -4] 12 st"
proof -
  have up: "[0..<5] = [0, 1, 2, 3, 4 :: nat]" by (simp add: upt_rec)
  have c: "run_cells [0..<5] demo_runs = [1, -1, 0, 3, -4]"
    by (simp add: run_cells_def up demo_runs_def)
  have f: "f_data (handle demo_runs) = []" "at_end (handle demo_runs)"
    by (simp_all add: demo_runs_def writer_zero_def new_file_def at_end_def)
  have room: "cells_room [0..<5] demo_runs" by (simp add: cells_room_def up demo_runs_def)
  have ok: "cells_ok [] 0 [1, -1, 0, 3, -4]" by code_simp
  have le: "\<forall>v \<in> set [1, -1, 0, 3, -4 :: u32]. own_run v \<longrightarrow> v \<le> 12" by code_simp
  have na: "\<not> is_alias 12" by (simp add: is_alias_def)
  have m: "0 < (5 :: nat)" "(5 :: nat) < 2 ^ 30" by simp_all
  have "\<exists>xc' cmem st. flush_index [0..<5] 0 0 0 demo_runs = Inr xc' \<and> f_data (handle xc') = f_data (handle demo_runs) @ cmem
    \<and> at_end (handle xc') \<and> chain_index True (of_nat 5) (ucast (12 :: u32)) cmem no_tables = Inr (Some st)
    \<and> tables_of [1, -1, 0, 3, -4] 12 st"
    using index_roundtrip [OF room m f(2), of 12] ok le na unfolding c by blast
  moreover have "(ucast (12 :: u32) :: u64) = 12" "(of_nat 5 :: u64) = 5" by simp_all
  ultimately show ?thesis unfolding f(1) append_Nil by metis
qed

text \<open>
  C30. The reader's \<open>pidx\<close> is not reset between blocks, and gives a handle the changes of another: in
  the first of two blocks the handles 0 and 4 change, in the second only handle 1. Reading the
  second, the distance to its first run is filed under the stale \<open>pidx\<close> 4 as a negative length,
  which the last pass takes for a shared run, so that handle 4, which has no run, gets the run of
  handle 1. With fresh tables the same index is read correctly.
\<close>

theorem stale_pidx_invents_changes:
  "\<exists>st1 st2 st3. chain_index True 5 8 (idx_enc [1, 0, 0, 0, 3] 0 0 0) no_tables = Inr (Some st1)
    \<and> chain_index True 5 8 (idx_enc [0, 1, 0, 0, 0] 0 0 0) st1 = Inr (Some st2)
    \<and> ci_table st2 ! 1 = 1 \<and> ci_table st2 ! 4 = 1 \<and> ci_lens st2 ! 4 = ci_lens st2 ! 1
    \<and> chain_index True 5 8 (idx_enc [0, 1, 0, 0, 0] 0 0 0) no_tables = Inr (Some st3)
    \<and> ci_table st3 ! 4 = 0"
proof -
  have e1: "idx_enc [1, 0, 0, 0, 3] 0 0 0 = [3, 6, 5]" by code_simp
  have e2: "idx_enc [0, 1, 0, 0, 0] 0 0 0 = [2, 3, 6]" by code_simp
  have 1: "chain_index True 5 8 [3, 6, 5] no_tables = Inr (Some \<lparr>ci_table = [1, 0, 0, 0, 3, 8],
      ci_lens = [2, 0, 0, 0, 5, 0], ci_idx = 5, ci_pidx = 4, ci_pval = 3, ci_alias = 0\<rparr>)"
    by code_simp
  have 2: "chain_index True 5 8 [2, 3, 6] \<lparr>ci_table = [1, 0, 0, 0, 3, 8],
      ci_lens = [2, 0, 0, 0, 5, 0], ci_idx = 5, ci_pidx = 4, ci_pval = 3, ci_alias = 0\<rparr>
    = Inr (Some \<lparr>ci_table = [0, 1, 0, 0, 1, 8], ci_lens = [2, 7, 0, 0, 7, 0],
        ci_idx = 5, ci_pidx = 1, ci_pval = 1, ci_alias = 0\<rparr>)"
    by code_simp
  have 3: "chain_index True 5 8 [2, 3, 6] no_tables = Inr (Some \<lparr>ci_table = [0, 1, 0, 0, 0, 8],
      ci_lens = [1, 7, 0, 0, 0, 0], ci_idx = 5, ci_pidx = 1, ci_pval = 1, ci_alias = 0\<rparr>)"
    by code_simp
  with 1 2 show ?thesis unfolding e1 e2 by auto
qed

text \<open>
  C31. The pass over the index does not bound its own table. Take any index whose first entries are those of at
  most \<open>vc_maxhandle + 1\<close> handles, the cells of the table, and whose next entry goes beyond. When that entry is
  a run, of its own or shared, it is stored behind the end of the table; when it is a number of handles
  without a run, the check stops the program. And an index of exactly \<open>vc_maxhandle + 1\<close> handles, where one
  cell must stay free for the end of the last run, passes every check and has that end stored behind the table.
\<close>

theorem index_overruns_table:
  assumes "0 < m" and "m < 2 ^ 30" and "\<forall>e' \<in> set (es @ [e]). entry_ok e'" and "handles_of es \<le> m + 1"
  shows "(m + 1 < handles_of es + entry_handles e \<longrightarrow>
      chain_index True (of_nat m) vc_len (concat (map entry_bytes (es @ [e])) @ rest) no_tables
        = Inl (case e of One_handle v \<Rightarrow> Out_of_bounds | No_runs z \<Rightarrow> Report_abort ''TALOS-2023-1789''))
    \<and> (handles_of es = m + 1 \<longrightarrow>
      chain_index True (of_nat m) vc_len (concat (map entry_bytes es)) no_tables = Inl Out_of_bounds)"
proof (intro conjI impI)
  assume over: "m + 1 < handles_of es + entry_handles e"
  let ?b = "entry_bytes e @ rest" and ?cmem = "concat (map entry_bytes es) @ entry_bytes e @ rest"
  obtain st0 where 0: "ci_at m 0 st0" "chain_index True (of_nat m) vc_len ?cmem no_tables
      = andthen (ci_loop (ci_item2 (of_nat m)) (length ?cmem) ?cmem st0) (\<lambda>st. andthen (ci_finish vc_len st) (\<lambda>st. Inr (Some st)))"
    using chain_index_fresh [OF assms(1,2)] by blast
  have ne: "entry_bytes e \<noteq> []" using assms(3) entry_bytes_not_Nil by simp
  then obtain st k where 1: "ci_at m (handles_of es) st" "length ?b \<le> k"
      "ci_loop (ci_item2 (of_nat m)) (length ?cmem) ?cmem st0 = ci_loop (ci_item2 (of_nat m)) k ?b st"
    using ci_loop_entries [OF 0(1) _ assms(2), of es ?b "length ?cmem"] assms(3,4) by auto
  obtain j where "k = Suc j" using 1(2) ne by (cases k) auto
  then show "chain_index True (of_nat m) vc_len (concat (map entry_bytes (es @ [e])) @ rest) no_tables
      = Inl (case e of One_handle v \<Rightarrow> Out_of_bounds | No_runs z \<Rightarrow> Report_abort ''TALOS-2023-1789'')"
    using ci_at_entry [OF 1(1) assms(4,2), of e rest] over assms(3) 0(2) 1(3) by simp
next
  assume full: "handles_of es = m + 1"
  let ?cmem = "concat (map entry_bytes es)"
  obtain st0 where 0: "ci_at m 0 st0" "chain_index True (of_nat m) vc_len ?cmem no_tables
      = andthen (ci_loop (ci_item2 (of_nat m)) (length ?cmem) ?cmem st0) (\<lambda>st. andthen (ci_finish vc_len st) (\<lambda>st. Inr (Some st)))"
    using chain_index_fresh [OF assms(1,2)] by blast
  have "es \<noteq> []" using full by auto
  then obtain st where 1: "ci_at m (m + 1) st" "ci_loop (ci_item2 (of_nat m)) (length ?cmem) ?cmem st0 = Inr st"
    using ci_loop_entries [OF 0(1) _ assms(2), of es "[]" "length ?cmem"] assms(3) full by auto
  have "unat (of_nat (m + 1) :: u32) = m + 1" by (rule of_nat_inverse [OF refl]) (use assms(2) in simp)
  then have "ci_finish vc_len st = Inl Out_of_bounds"
    using 1(1) by (simp add: ci_finish_def ci_at_def Let_def set_cell_def)
  then show "chain_index True (of_nat m) vc_len ?cmem no_tables = Inl Out_of_bounds"
    using 0(2) 1(2) by simp
qed

text \<open>One handle and the byte 3, a run one byte behind the last: three of them, and two of them.\<close>

lemma index_overruns_table_witness:
  "chain_index True 1 7 ([3, 3, 3] @ [4, 9]) no_tables = Inl Out_of_bounds
   \<and> chain_index True 1 7 ([3, 8] @ [4, 9]) no_tables = Inl (Report_abort ''TALOS-2023-1789'')
   \<and> chain_index True 1 7 [3, 3] no_tables = Inl Out_of_bounds"
proof -
  have b: "entry_bytes (One_handle 1) = [3]" "entry_bytes (No_runs 4) = [8]" by code_simp+
  have ok: "entry_ok (One_handle 1)" "entry_ok (No_runs 4)" by (simp_all add: entry_ok_def)
  show ?thesis
    using index_overruns_table [of 1 "[One_handle 1, One_handle 1]" "One_handle 1" 7 "[4, 9]"]
      index_overruns_table [of 1 "[One_handle 1]" "No_runs 4" 7 "[4, 9]"] ok
    by (simp add: b del: entry_bytes.simps)
qed

end
