(* ===== verification/Traversal.thy ===== *)
theory Traversal
  imports Reader_Context Vcd_Id Escape Chain_Codec Chain_Index
begin

text \<open>
  The part of \<open>fstReaderIterBlocks2\<close> (\<open>fstapi.c\<close>, lines 5645 to 6112) that turns the runs of a
  block into calls and text: the runs of the wanted handles are fetched into \<open>mem_for_traversal\<close>,
  each handle is queued under the time index of its next change, and the queues are emptied in the
  order of the time indices. A queue is a linked list through \<open>scatterptr\<close>, with its head in
  \<open>tc_head\<close>; links are handles, 0 ends a list.
\<close>

section \<open>State\<close>

text \<open>
  The decompressors are libraries: what they leave in the destination, and their result.
  \<open>malloc_bytes n\<close> is what \<open>n\<close> bytes fresh from \<open>malloc\<close> contain.
\<close>

record unpackers =
  uncompress :: "bytes \<Rightarrow> nat \<Rightarrow> bytes \<times> bool"
  LZ4_decompress_safe_partial :: "bytes \<Rightarrow> nat \<Rightarrow> bytes \<times> int"
  fastlz_decompress :: "bytes \<Rightarrow> nat \<Rightarrow> bytes"
  malloc_bytes :: "nat \<Rightarrow> bytes"

text \<open>
  The call-backs that are not null, whether there is a file to write to, and \<open>printf\<close>'s text of a
  double under \<open>%.16g\<close>, given its bytes. The calls made are kept in order: the time, the handle
  and the bytes the pointer designates, without a terminating NUL.
\<close>

record sinks =
  sk_cb :: bool
  sk_varlen :: bool
  sk_fv :: bool
  sk_fmt :: "bytes \<Rightarrow> bytes"

datatype event = Change u64 u32 bytes | Change_varlen u64 u32 bytes

record trav =
  tr_xc :: fstReaderContext
  tr_mem :: bytes
  tr_offs :: u32
  tr_mc :: bytes
  tr_scatter :: "u32 list"
  tr_head :: "u32 list"
  tr_left :: "u32 list"
  tr_tc :: "u32 list"
  tr_events :: "event list"

abbreviation (input) FST_VT_VCD_REAL :: u8 where "FST_VT_VCD_REAL \<equiv> 3"
abbreviation (input) FST_VT_VCD_PORT :: u8 where "FST_VT_VCD_PORT \<equiv> 18"

section \<open>Queues\<close>

text \<open>
  The handle \<open>idx\<close> is put at the head of the queue of its next change, \<open>tdelta\<close> indices after
  \<open>now\<close>.
\<close>

definition queue :: "u32 \<Rightarrow> u32 \<Rightarrow> trav \<Rightarrow> trav outcome" where
  "queue idx now tr =
     andthen (load (signal_lens (tr_xc tr)) (unat idx)) (\<lambda>n.
     andthen (load (tr_head tr) (unat idx)) (\<lambda>hp.
     andthen (fstGetVarint32NoSkip (drop (unat hp) (tr_mem tr))) (\<lambda>vli.
     let at = rec_delta n vli + now
     in if at \<ge> of_nat (length (tr_tc tr)) then Inl (Report_abort ''TALOS-2023-1791'')
        else andthen (load (tr_tc tr) (unat at)) (\<lambda>h.
             andthen (set_cell (tr_scatter tr) (unat idx) h) (\<lambda>sc.
             andthen (set_cell (tr_tc tr) (unat at) (idx + 1)) (\<lambda>tc.
               Inr (tr\<lparr>tr_scatter := sc, tr_tc := tc\<rparr>)))))))"

text \<open>After a change of \<open>skiplen\<close> bytes: the handle leaves the queue, and joins a later one.\<close>

definition advance :: "u32 \<Rightarrow> u32 \<Rightarrow> u32 \<Rightarrow> trav \<Rightarrow> trav outcome" where
  "advance i idx skiplen tr =
     andthen (load (tr_head tr) (unat idx)) (\<lambda>hp.
     andthen (load (tr_left tr) (unat idx)) (\<lambda>left.
     andthen (load (tr_scatter tr) (unat idx)) (\<lambda>next.
     andthen (set_cell (tr_tc tr) (unat i) next) (\<lambda>tc.
     let tr = tr\<lparr>tr_head := (tr_head tr)[unat idx := hp + skiplen],
                  tr_left := (tr_left tr)[unat idx := left - skiplen],
                  tr_tc := tc, tr_scatter := (tr_scatter tr)[unat idx := 0]\<rparr>
     in if left - skiplen \<noteq> 0 then queue idx i tr else Inr tr))))"

section \<open>Fetching the runs\<close>

definition seek_f :: "int \<Rightarrow> whence \<Rightarrow> fstReaderContext \<Rightarrow> fstReaderContext" where
  "seek_f offset w xc = (let (_, f, xc') = fstReaderFseeko xc (xc_f xc) offset w in xc'\<lparr>xc_f := f\<rparr>)"

definition read_f :: "nat \<Rightarrow> fstReaderContext \<Rightarrow> bytes \<times> fstReaderContext" where
  "read_f n xc = (let (bs, _, f) = fstFread n (xc_f xc) in (bs, xc\<lparr>xc_f := f\<rparr>))"

text \<open>\<open>packtype\<close> is \<open>4\<close>, \<open>F\<close> or anything else; the result of \<open>fastlz_decompress\<close> is not looked at.\<close>

definition unpack_run :: "unpackers \<Rightarrow> int \<Rightarrow> bytes \<Rightarrow> nat \<Rightarrow> bytes \<times> bool" where
  "unpack_run up packtype mc destlen =
     (if packtype = uint (ascii CHR ''4'')
      then let (out, rc) = LZ4_decompress_safe_partial up mc destlen in (out, rc = int destlen)
      else if packtype = uint (ascii CHR ''F'') then (fastlz_decompress up mc destlen, True)
      else uncompress up mc destlen)"

text \<open>A compressed run of \<open>clen\<close> bytes, as the index counts them, number in front included.\<close>

definition load_packed :: "unpackers \<Rightarrow> int \<Rightarrow> u32 \<Rightarrow> u32 \<Rightarrow> u32 \<Rightarrow> trav \<Rightarrow> trav outcome" where
  "load_packed up packtype i val clen tr =
     (if unat (tr_offs tr) \<ge> length (tr_mem tr) then Inl (Report_abort ''TALOS-2023-1785'')
      else let mc = (if length (tr_mc tr) < unat clen then malloc_bytes up (unat clen) else tr_mc tr);
               (bs, xc) = read_f (unat clen) (tr_xc tr);
               mc = bs @ drop (length bs) mc;
               (out, ok) = unpack_run up packtype (take (unat clen) mc) (unat val)
           in andthen (store_n (tr_mem tr) (unat (tr_offs tr)) out) (\<lambda>mem.
              if \<not> ok then Inl (Exit_code 255)
              else andthen (set_cell (tr_head tr) (unat i) (tr_offs tr)) (\<lambda>hd.
                   andthen (set_cell (tr_left tr) (unat i) val) (\<lambda>left.
                     Inr (tr\<lparr>tr_xc := xc, tr_mem := mem, tr_mc := mc, tr_head := hd, tr_left := left,
                              tr_offs := tr_offs tr + val\<rparr>)))))"

text \<open>A run stored as it is. The \<open>int\<close> \<open>destlen\<close> becomes a \<open>size_t\<close> in the call of \<open>fstFread\<close>.\<close>

definition load_plain :: "u32 \<Rightarrow> u32 \<Rightarrow> trav \<Rightarrow> trav outcome" where
  "load_plain i destlen tr =
     (if unat (tr_offs tr) \<ge> length (tr_mem tr) then Inl (Report_abort ''TALOS-2023-1785'')
      else let (bs, xc) = read_f (unat (scast destlen :: u64)) (tr_xc tr)
           in andthen (store_n (tr_mem tr) (unat (tr_offs tr)) bs) (\<lambda>mem.
              andthen (set_cell (tr_head tr) (unat i) (tr_offs tr)) (\<lambda>hd.
              andthen (set_cell (tr_left tr) (unat i) destlen) (\<lambda>left.
                Inr (tr\<lparr>tr_xc := xc, tr_mem := mem, tr_head := hd, tr_left := left,
                         tr_offs := tr_offs tr + destlen\<rparr>)))))"

definition load_run :: "unpackers \<Rightarrow> nat \<Rightarrow> int \<Rightarrow> chain_idx \<Rightarrow> u32 \<Rightarrow> trav \<Rightarrow> trav outcome" where
  "load_run up vc_start packtype ci i tr =
     andthen (load (ci_table ci) (unat i)) (\<lambda>offs.
     if offs = 0 then Inr tr
     else andthen (load (process_mask (tr_xc tr)) (unat (i div 8))) (\<lambda>b.
          if b AND push_bit (unat (i AND 7)) 1 = 0 then Inr tr
          else let xc = seek_f (sint (of_nat vc_start + offs)) SEEK_SET (tr_xc tr)
               in andthen (fstReaderVarint32WithSkip (xc_f xc)) (\<lambda>(val, skiplen, f).
                  andthen (load (ci_lens ci) (unat i)) (\<lambda>clen.
                  let tr = tr\<lparr>tr_xc := xc\<lparr>xc_f := f\<rparr>\<rparr>
                  in andthen (if val \<noteq> 0 then load_packed up packtype i val clen tr
                              else load_plain i (clen - of_nat skiplen) tr) (queue i 0)))))"

primrec load_runs :: "unpackers \<Rightarrow> nat \<Rightarrow> int \<Rightarrow> chain_idx \<Rightarrow> nat list \<Rightarrow> trav \<Rightarrow> trav outcome" where
  "load_runs up vc_start packtype ci [] tr = Inr tr"
| "load_runs up vc_start packtype ci (i # is) tr =
     andthen (load_run up vc_start packtype ci (of_nat i) tr) (load_runs up vc_start packtype ci is)"

section \<open>Handing on a value\<close>

definition put :: "bytes \<Rightarrow> trav \<Rightarrow> trav outcome" where
  "put s tr = andthen (fstWritex (tr_xc tr) s) (\<lambda>xc. Inr (tr\<lparr>tr_xc := xc\<rparr>))"

definition call :: "event \<Rightarrow> trav \<Rightarrow> trav" where
  "call e tr = tr\<lparr>tr_events := tr_events tr @ [e]\<rparr>"

definition set_buf :: "bytes \<Rightarrow> trav \<Rightarrow> trav outcome" where
  "set_buf s tr =
     andthen (store_n (temp_signal_value_buf (tr_xc tr)) 0 s) (\<lambda>buf.
       Inr (tr\<lparr>tr_xc := (tr_xc tr)\<lparr>temp_signal_value_buf := buf\<rparr>\<rparr>))"

text \<open>The 16 bytes of \<open>vcd_id\<close>: a character, the identifier and a line feed.\<close>

definition vcd_line :: "u8 \<Rightarrow> u32 \<Rightarrow> bytes outcome" where
  "vcd_line c idx =
     andthen (fstVcdIDForFwrite (replicate 15 0) (idx + 1)) (\<lambda>(buf, n). Inr (c # take n buf @ [10]))"

definition put_line :: "u8 \<Rightarrow> u32 \<Rightarrow> trav \<Rightarrow> trav outcome" where
  "put_line c idx tr = andthen (vcd_line c idx) (\<lambda>s. put s tr)"

text \<open>One bit.\<close>

definition trav_1bit :: "sinks \<Rightarrow> u64 \<Rightarrow> u32 \<Rightarrow> u32 \<Rightarrow> trav \<Rightarrow> trav outcome" where
  "trav_1bit sk t idx vli tr =
     (let val = rec_char vli
      in if sk_cb sk
         then andthen (set_buf [val, 0] tr) (\<lambda>tr. Inr (call (Change t (idx + 1) [val]) tr))
         else if sk_fv sk then put_line val idx tr else Inr tr)"

text \<open>
  A value of variable length: with bit 0 of \<open>vli\<close> set it is skipped. The escaped text goes
  through a buffer of \<open>len*4 + 1\<close> bytes, a 32-bit product.
\<close>

definition trav_varlen :: "sinks \<Rightarrow> u64 \<Rightarrow> u32 \<Rightarrow> nat \<Rightarrow> trav \<Rightarrow> (u32 \<times> trav) outcome" where
  "trav_varlen sk t idx hp tr =
     andthen (fstGetVarint32 (drop hp (tr_mem tr))) (\<lambda>(vli, skiplen).
     andthen (fstGetVarint32 (drop (hp + skiplen) (tr_mem tr))) (\<lambda>(len, skiplen2).
     let vdata = drop (hp + skiplen + skiplen2) (tr_mem tr)
     in andthen
          (if vli AND 1 \<noteq> 0 then Inr tr
           else if sk_varlen sk
           then andthen (load_n vdata 0 (unat len)) (\<lambda>v. Inr (call (Change_varlen t (idx + 1) v) tr))
           else if sk_fv sk
           then andthen (put (c_lit ''s'') tr) (\<lambda>tr.
                andthen (fstUtilityBinToEsc vdata (unat len)) (\<lambda>vesc.
                if length vesc > unat (len * 4 + 1) then Inl Out_of_bounds
                else andthen (put vesc tr) (put_line 32 idx)))
           else Inr tr)
          (\<lambda>tr. Inr (of_nat (skiplen + skiplen2) + len, tr))))"

text \<open>A vector of \<open>n\<close> digits at \<open>vdata\<close>, packed or not: how many bytes it takes.\<close>

definition ch_bp :: "u8 \<Rightarrow> u8" where
  "ch_bp typ = (if typ \<noteq> FST_VT_VCD_PORT then ascii CHR ''b'' else ascii CHR ''p'')"

definition trav_vector :: "sinks \<Rightarrow> u64 \<Rightarrow> u32 \<Rightarrow> u8 \<Rightarrow> u32 \<Rightarrow> u32 \<Rightarrow> nat \<Rightarrow> trav \<Rightarrow> (u32 \<times> trav) outcome" where
  "trav_vector sk t idx typ n vli vdata tr =
     (if n > longest_signal_value_len (tr_xc tr) then Inl (Report_abort ''TALOS-2023-1797'')
      else if vli AND 1 = 0
      then andthen (rec_digits (unat n) (drop vdata (tr_mem tr))) (\<lambda>v.
           andthen (set_buf (v @ [0]) tr) (\<lambda>tr.
           andthen (if sk_cb sk then Inr (call (Change t (idx + 1) v) tr)
                    else if sk_fv sk then andthen (put [ch_bp typ] tr) (put v)
                    else Inr tr) (\<lambda>tr.
             Inr ((n - 1) div 8 + 1, tr))))
      else andthen
             (if sk_cb sk
              then andthen (load_n (tr_mem tr) vdata (unat n)) (\<lambda>v.
                   andthen (set_buf (v @ [0]) tr) (\<lambda>tr. Inr (call (Change t (idx + 1) v) tr)))
              else if sk_fv sk
              then andthen (put [ch_bp typ] tr) (\<lambda>tr.
                   if vdata + unat n > length (tr_mem tr) then Inl (Report_abort ''TALOS-2023-1793'')
                   else andthen (load_n (tr_mem tr) vdata (unat n)) (\<lambda>v. put v tr))
              else Inr tr) (\<lambda>tr. Inr (n, tr)))"

text \<open>
  A double, eight bytes in the byte order of the file. In the rare form with bit 0 of \<open>vli\<close> clear
  the bytes are the digits of one packed byte.
\<close>

definition snprintf_buf :: "nat \<Rightarrow> bytes \<Rightarrow> bytes" where
  "snprintf_buf n s = (if n = 0 then [] else take (n - 1) s @ [0])"

definition trav_double :: "sinks \<Rightarrow> u64 \<Rightarrow> u32 \<Rightarrow> bytes \<Rightarrow> trav \<Rightarrow> trav outcome" where
  "trav_double sk t idx srcdata tr =
     (let xc = tr_xc tr; d = (if double_endian_match xc then srcdata else rev srcdata)
      in if sk_cb sk
         then if native_doubles_for_cb xc then Inr (call (Change t (idx + 1) d) tr)
              else andthen (set_buf (snprintf_buf (unat (longest_signal_value_len xc + 1)) (sk_fmt sk d)) tr) (\<lambda>tr.
                     Inr (call (Change t (idx + 1) (cstr (temp_signal_value_buf (tr_xc tr)))) tr))
         else let s = c_lit ''r'' @ sk_fmt sk d
              in if length s < 32 then put s tr else Inl Out_of_bounds)"

definition trav_real :: "sinks \<Rightarrow> u64 \<Rightarrow> u32 \<Rightarrow> u32 \<Rightarrow> u32 \<Rightarrow> nat \<Rightarrow> trav \<Rightarrow> (u32 \<times> trav) outcome" where
  "trav_real sk t idx n vli vdata tr =
     (if vli AND 1 = 0
      then andthen (rec_digits 8 (drop vdata (tr_mem tr))) (\<lambda>buf.
           andthen (if sk_cb sk \<or> sk_fv sk then trav_double sk t idx buf tr else Inr tr) (\<lambda>tr. Inr (1, tr)))
      else andthen (if sk_cb sk \<or> sk_fv sk
                    then andthen (load_n (tr_mem tr) vdata 8) (\<lambda>v. trav_double sk t idx v tr)
                    else Inr tr) (\<lambda>tr. Inr (n, tr)))"

section \<open>Emptying the queues\<close>

text \<open>One round of \<open>while(tc_head[i])\<close>, for the handle \<open>idx = tc_head[i] - 1\<close> at time \<open>t\<close>.\<close>

definition trav_one :: "sinks \<Rightarrow> u64 \<Rightarrow> u32 \<Rightarrow> u32 \<Rightarrow> trav \<Rightarrow> trav outcome" where
  "trav_one sk t i idx tr =
     andthen (load (tr_head tr) (unat idx)) (\<lambda>hp.
     andthen (fstGetVarint32 (drop (unat hp) (tr_mem tr))) (\<lambda>(vli, skiplen).
     andthen (load (signal_lens (tr_xc tr)) (unat idx)) (\<lambda>n.
     if n = 1 then andthen (trav_1bit sk t idx vli tr) (advance i idx (of_nat skiplen))
     else if n = 0
     then andthen (trav_varlen sk t idx (unat hp) tr) (\<lambda>(skip, tr). advance i idx skip tr)
     else andthen (load (signal_typs (tr_xc tr)) (unat idx)) (\<lambda>typ.
          andthen (if typ \<noteq> FST_VT_VCD_REAL then trav_vector sk t idx typ n vli (unat hp + skiplen) tr
                   else trav_real sk t idx n vli (unat hp + skiplen) tr) (\<lambda>(len, tr).
          andthen (if sk_fv sk then put_line 32 idx tr else Inr tr)
            (advance i idx (of_nat skiplen + len)))))))"

text \<open>The loop need not end: \<open>None\<close> is a run for ever.\<close>

partial_function (option) trav_while :: "sinks \<Rightarrow> u64 \<Rightarrow> u32 \<Rightarrow> trav \<Rightarrow> trav outcome option" where
  "trav_while sk t i tr =
     (case load (tr_tc tr) (unat i) of
        Inl e \<Rightarrow> Some (Inl e)
      | Inr h \<Rightarrow>
          if h = 0 then Some (Inr tr)
          else (case trav_one sk t i (h - 1) tr of
                  Inl e \<Rightarrow> Some (Inl e)
                | Inr tr' \<Rightarrow> trav_while sk t i tr'))"


text \<open>
  The line with a new time: \<open>$end\<close> after the values of \<open>$dumpvars\<close>, the time, \<open>$dumpvars\<close>
  after the first one; then \<open>$dumpon\<close> or \<open>$dumpoff\<close> at the next change of dump activity.
\<close>

record vcd_state =
  previous_time :: u64
  cur_blackout :: u32
  dumpvars_state :: nat

fun dec_digits :: "nat \<Rightarrow> bytes" where
  "dec_digits n = (if n < 10 then [48 + of_nat n] else dec_digits (n div 10) @ [48 + of_nat (n mod 10)])"

declare dec_digits.simps [simp del]

definition vcd_stamp :: "u64 \<Rightarrow> vcd_state \<Rightarrow> trav \<Rightarrow> (vcd_state \<times> trav) outcome" where
  "vcd_stamp t vs tr =
     (let s0 = (if dumpvars_state vs = 1 then c_lit ''$end'' @ [10] else []);
          d0 = (if dumpvars_state vs = 1 then 2 else dumpvars_state vs);
          s1 = c_lit ''#'' @ dec_digits (unat t) @ [10];
          s2 = (if d0 = 0 then c_lit ''$dumpvars'' @ [10] else []);
          d1 = (if d0 = 0 then 1 else d0);
          opt = (\<lambda>s tr. if s = [] then Inr tr else put s tr)
      in andthen (opt s0 tr) (\<lambda>tr. andthen (put s1 tr) (\<lambda>tr. andthen (opt s2 tr) (\<lambda>tr.
           Inr (vs\<lparr>dumpvars_state := d1\<rparr>, tr)))))"

definition vcd_activity :: "u64 \<Rightarrow> vcd_state \<Rightarrow> trav \<Rightarrow> (vcd_state \<times> trav) outcome" where
  "vcd_activity t vs tr =
     (let xc = tr_xc tr; n = fstReaderContext.num_blackouts xc; cur = cur_blackout vs
      in if n \<noteq> 0 \<and> cur \<noteq> n
         then (case blackout_times xc of
                 None \<Rightarrow> Inl Null_deref
               | Some ts \<Rightarrow>
                   andthen (load ts (unat cur)) (\<lambda>bt.
                   if t \<noteq> bt then Inr (vs, tr)
                   else (case blackout_activity xc of
                           None \<Rightarrow> Inl Null_deref
                         | Some acts \<Rightarrow>
                             andthen (load acts (unat cur)) (\<lambda>a.
                             andthen (put (c_lit ''$dump'' @ (if a \<noteq> 0 then c_lit ''on'' else c_lit ''off'')
                               @ c_lit '' $end'' @ [10]) tr) (\<lambda>tr.
                               Inr (vs\<lparr>cur_blackout := cur + 1\<rparr>, tr))))))
         else Inr (vs, tr))"

text \<open>At a new time index: \<open>None\<close> breaks off, past the end of the wanted range.\<close>

definition trav_stamp :: "sinks \<Rightarrow> u64 \<Rightarrow> vcd_state \<Rightarrow> trav \<Rightarrow> (vcd_state \<times> trav) option outcome" where
  "trav_stamp sk t vs tr =
     (if sk_fv sk \<and> t \<noteq> previous_time vs
      then if limit_range_valid (tr_xc tr) \<and> t > limit_range_end (tr_xc tr) then Inr None
           else andthen (vcd_stamp t vs tr) (\<lambda>(vs, tr).
                andthen (vcd_activity t vs tr) (\<lambda>(vs, tr). Inr (Some (vs\<lparr>previous_time := t\<rparr>, tr))))
      else Inr (Some (vs, tr)))"

text \<open>The loop over the time indices.\<close>

primrec trav_times ::
    "sinks \<Rightarrow> u64 list \<Rightarrow> nat list \<Rightarrow> vcd_state \<Rightarrow> trav \<Rightarrow> (vcd_state \<times> trav) outcome option" where
  "trav_times sk tt [] vs tr = Some (Inr (vs, tr))"
| "trav_times sk tt (i # is) vs tr =
     (case andthen (load tt i) (\<lambda>t. andthen (trav_stamp sk t vs tr) (\<lambda>r. Inr (t, r))) of
        Inl e \<Rightarrow> Some (Inl e)
      | Inr (_, None) \<Rightarrow> Some (Inr (vs, tr))
      | Inr (t, Some (vs, tr)) \<Rightarrow>
          (case trav_while sk t (of_nat i) tr of
             None \<Rightarrow> None
           | Some (Inl e) \<Rightarrow> Some (Inl e)
           | Some (Inr tr) \<Rightarrow> trav_times sk tt is vs tr))"

text \<open>Packers that store everything as it is, for examples.\<close>

definition plain_packers :: packers where
  "plain_packers = \<lparr>compress2 = \<lambda>_ _. None, LZ4_compress_default = \<lambda>s. s, fastlz_compress = \<lambda>s. s\<rparr>"

definition plain_unpackers :: unpackers where
  "plain_unpackers = \<lparr>uncompress = \<lambda>s n. (s, False), LZ4_decompress_safe_partial = \<lambda>s n. (s, -1),
     fastlz_decompress = \<lambda>s n. s, malloc_bytes = \<lambda>n. replicate n 0\<rparr>"

definition plain_sinks :: sinks where
  "plain_sinks = \<lparr>sk_cb = True, sk_varlen = True, sk_fv = False, sk_fmt = \<lambda>_. [49]\<rparr>"

section \<open>The queues as lists\<close>

fun linked :: "u32 list \<Rightarrow> u32 \<Rightarrow> nat list \<Rightarrow> bool" where
  "linked sc h [] \<longleftrightarrow> h = 0"
| "linked sc h (x # xs) \<longleftrightarrow> h = of_nat (Suc x) \<and> x < length sc \<and> linked sc (sc ! x) xs"

definition queues :: "u32 list \<Rightarrow> u32 list \<Rightarrow> (nat \<Rightarrow> nat option) \<Rightarrow> bool" where
  "queues tc sc Q \<longleftrightarrow> (\<forall>j < length tc. \<exists>xs. linked sc (tc ! j) xs \<and> distinct xs \<and> set xs = {x. Q x = Some j})"

lemma linked_update: "x \<notin> set xs \<Longrightarrow> linked (sc[x := v]) h xs = linked sc h xs"
  by (induction sc h xs rule: linked.induct) auto

lemma linked_0: "linked sc 0 xs \<Longrightarrow> length sc < 2 ^ 32 - 1 \<Longrightarrow> xs = []"
  by (cases xs) (auto simp: word_unat_eq_iff unsigned_of_nat take_bit_nat_eq_self simp del: of_nat_Suc)

lemma queues_push:
  assumes "queues tc sc Q" and "Q x = None" and "j < length tc" and "x < length sc"
  shows "queues (tc[j := of_nat (Suc x)]) (sc[x := tc ! j]) (Q(x \<mapsto> j))"
  unfolding queues_def
proof (intro allI impI, goal_cases)
  case (1 k)
  then have k: "k < length tc" by simp
  obtain xs where xs: "linked sc (tc ! k) xs" "distinct xs" "set xs = {y. Q y = Some k}"
    using assms(1) k by (auto simp: queues_def)
  have x: "x \<notin> set xs" using xs(3) assms(2) by simp
  show ?case
  proof (cases "k = j")
    case True
    then have "linked (sc[x := tc ! j]) (of_nat (Suc x)) (x # xs)"
      using xs(1) x assms(4) by (simp add: linked_update)
    moreover have "set (x # xs) = {y. (Q(x \<mapsto> j)) y = Some k}" using xs(3) True by auto
    ultimately show ?thesis using xs(2) x True assms(3) by (intro exI [of _ "x # xs"]) (use assms(4) xs(1) in \<open>simp add: linked_update\<close>)
  next
    case False
    have "set xs = {y. (Q(x \<mapsto> j)) y = Some k}" using xs(3) False assms(2) by auto
    then show ?thesis using xs(1,2) x False by (intro exI [of _ xs]) (simp add: linked_update)
  qed
qed

lemma queues_pop:
  assumes "queues tc sc Q" and "j < length tc" and "tc ! j \<noteq> 0"
  obtains x where "tc ! j = of_nat (Suc x)" "Q x = Some j" "x < length sc"
    "queues (tc[j := sc ! x]) (sc[x := 0]) (Q(x := None))"
proof -
  obtain ys where ys: "linked sc (tc ! j) ys" "distinct ys" "set ys = {y. Q y = Some j}"
    using assms(1,2) by (auto simp: queues_def)
  obtain x xs where e: "ys = x # xs" using ys(1) assms(3) by (cases ys) auto
  have x: "tc ! j = of_nat (Suc x)" "x < length sc" "linked sc (sc ! x) xs" "x \<notin> set xs" "Q x = Some j"
    using ys unfolding e by auto
  have "queues (tc[j := sc ! x]) (sc[x := 0]) (Q(x := None))"
    unfolding queues_def
  proof (intro allI impI, goal_cases)
    case (1 k)
    then have k: "k < length tc" by simp
    show ?case
    proof (cases "k = j")
      case True
      have "set xs = {y. (Q(x := None)) y = Some k}" using ys(2,3) True unfolding e by auto
      then show ?thesis
        using x(3,4) ys(2) True assms(2) by (intro exI [of _ xs]) (simp add: linked_update e)
    next
      case False
      obtain zs where zs: "linked sc (tc ! k) zs" "distinct zs" "set zs = {y. Q y = Some k}"
        using assms(1) k by (auto simp: queues_def)
      have "x \<notin> set zs" "set zs = {y. (Q(x := None)) y = Some k}" using zs(3) x(5) False by auto
      then show ?thesis using zs False by (intro exI [of _ zs]) (simp add: linked_update)
    qed
  qed
  then show ?thesis using that x by blast
qed

lemma queues_empty:
  assumes "queues tc sc Q" and "j < length tc" and "length sc < 2 ^ 32 - 1" and "tc ! j = 0"
  shows "Q x \<noteq> Some j"
proof
  assume "Q x = Some j"
  obtain xs where xs: "linked sc (tc ! j) xs" "set xs = {y. Q y = Some j}"
    using assms(1,2) by (auto simp: queues_def)
  then have "xs = []" using linked_0 assms(3,4) by auto
  then show False using xs(2) \<open>Q x = Some j\<close> by auto
qed

lemma queues_fresh: "queues (replicate n 0) sc (\<lambda>_. None)"
  by (auto simp: queues_def intro: exI [of _ "[]"])

end
