(* ===== verification/Traversal_Order.thy ===== *)
theory Traversal_Order
  imports Traversal
begin

text \<open>
  Emptying the queues hands on every change once, those of a handle in their order and all of them
  in the order of the time indices, and the loops over the queues end.
\<close>

section \<open>What is left of the runs\<close>

text \<open>The changes of a handle with their time indices, counted from \<open>b\<close>.\<close>

type_synonym changes = "(u32 \<times> bytes) list"

fun at_times :: "nat \<Rightarrow> changes \<Rightarrow> (nat \<times> bytes) list" where
  "at_times b [] = []"
| "at_times b ((d, v) # cs) = (b + unat d, v) # at_times (b + unat d) cs"

definition due :: "nat \<Rightarrow> changes \<Rightarrow> nat option" where
  "due b cs = (case cs of [] \<Rightarrow> None | (d, v) # _ \<Rightarrow> Some (b + unat d))"

lemma due_simps [simp]: "due b [] = None" "due b ((d, v) # cs) = Some (b + unat d)"
  by (simp_all add: due_def)

definition recs_ok :: "u32 \<Rightarrow> changes \<Rightarrow> bool" where
  "recs_ok n cs \<longleftrightarrow> unat n + 7 < 2 ^ 32 \<and> (\<forall>(d, v) \<in> set cs. val_ok n v \<and> delta_ok n d \<and> length v < 2 ^ 30)"

definition run_at :: "bytes \<Rightarrow> u32 \<Rightarrow> u32 \<Rightarrow> u32 \<Rightarrow> changes \<Rightarrow> bool" where
  "run_at mem n hp left cs \<longleftrightarrow>
     recs_ok n cs \<and> (\<exists>rest. drop (unat hp) mem = enc_run n cs @ rest) \<and> unat left = length (enc_run n cs)"

text \<open>
  \<open>pend x\<close> is what handle \<open>x\<close> still has to hand on, from time index \<open>base x\<close> on; \<open>Q x\<close> says where
  it is queued.
\<close>

definition trav_inv :: "(nat \<Rightarrow> nat) \<Rightarrow> (nat \<Rightarrow> changes) \<Rightarrow> (nat \<Rightarrow> nat option) \<Rightarrow> trav \<Rightarrow> bool" where
  "trav_inv base pend Q tr \<longleftrightarrow>
     (let lens = signal_lens (tr_xc tr); L = length lens
      in L < 2 ^ 32 - 1 \<and> length (tr_scatter tr) = L \<and> length (tr_head tr) = L \<and> length (tr_left tr) = L
         \<and> length (tr_mem tr) < 2 ^ 32 \<and> length (tr_tc tr) < 2 ^ 32
         \<and> (\<forall>x < L. run_at (tr_mem tr) (lens ! x) (tr_head tr ! x) (tr_left tr ! x) (pend x)
              \<and> (\<forall>(t, v) \<in> set (at_times (base x) (pend x)). t < length (tr_tc tr)))
         \<and> (\<forall>x \<ge> L. pend x = [])
         \<and> queues (tr_tc tr) (tr_scatter tr) Q)"

definition trav_rel :: "(nat \<Rightarrow> nat) \<Rightarrow> (nat \<Rightarrow> changes) \<Rightarrow> trav \<Rightarrow> bool" where
  "trav_rel base pend tr \<longleftrightarrow> trav_inv base pend (\<lambda>x. due (base x) (pend x)) tr"

lemma enc_rec_reads:
  "fstGetVarint32 (enc_rec n c @ rest) = Inr (rec_head n c, length (varint (rec_head n c)))"
  "fstGetVarint32NoSkip (enc_rec n c @ rest) = Inr (rec_head n c)"
proof -
  obtain body where "enc_rec n c = varint (rec_head n c) @ body" using enc_rec_head by blast
  then show 1: "fstGetVarint32 (enc_rec n c @ rest) = Inr (rec_head n c, length (varint (rec_head n c)))"
    using v32.get_enc [of "rec_head n c" "body @ rest"] by simp
  then show "fstGetVarint32NoSkip (enc_rec n c @ rest) = Inr (rec_head n c)"
    by (auto simp: fstGetVarint32_def fstGetVarint32NoSkip_def andthen_eq_Inr)
qed

lemma length_enc_rec_pos: "0 < length (enc_rec n c)"
  using enc_rec_head [of n c] length_varint_pos [of "rec_head n c"] by auto

lemma unat_of_nat_32: "n < 2 ^ 32 \<Longrightarrow> unat (of_nat n :: u32) = n"
  by (rule of_nat_inverse [OF refl]) simp

lemma eq_of_unat: "unat (w :: 'a::len word) = k \<Longrightarrow> w = of_nat k"
  by auto

lemma queue_rel:
  assumes inv: "trav_inv base pend Q tr" and x: "x < length (signal_lens (tr_xc tr))"
    and Q: "Q x = None" and p: "pend x = (d, v) # cs"
  shows "\<exists>sc tc. queue (of_nat x) (of_nat (base x)) tr = Inr (tr\<lparr>tr_scatter := sc, tr_tc := tc\<rparr>)
    \<and> length tc = length (tr_tc tr)
    \<and> trav_inv base pend (Q(x \<mapsto> base x + unat d)) (tr\<lparr>tr_scatter := sc, tr_tc := tc\<rparr>)"
proof -
  let ?n = "signal_lens (tr_xc tr) ! x" and ?j = "base x + unat d"
  have L: "length (signal_lens (tr_xc tr)) < 2 ^ 32 - 1" "length (tr_scatter tr) = length (signal_lens (tr_xc tr))"
    "length (tr_head tr) = length (signal_lens (tr_xc tr))" "length (tr_tc tr) < 2 ^ 32"
    and run: "run_at (tr_mem tr) ?n (tr_head tr ! x) (tr_left tr ! x) ((d, v) # cs)" and j: "?j < length (tr_tc tr)"
    using inv x p by (auto simp: trav_inv_def Let_def)
  have ux: "unat (of_nat x :: u32) = x" using unat_of_nat_32 [of x] x L(1) by simp
  obtain rest where m: "drop (unat (tr_head tr ! x)) (tr_mem tr) = enc_rec ?n (d, v) @ rest" and ok: "delta_ok ?n d"
    using run by (auto simp: run_at_def recs_ok_def)
  have vli: "fstGetVarint32NoSkip (drop (unat (tr_head tr ! x)) (tr_mem tr)) = Inr (rec_head ?n (d, v))"
    unfolding m by (rule enc_rec_reads(2))
  have dl: "rec_delta ?n (rec_head ?n (d, v)) = d" by (rule rec_delta_head [OF ok])
  have bx: "unat (of_nat (base x) :: u32) = base x" using unat_of_nat_32 [of "base x"] j L(4) by simp
  have at: "unat (d + of_nat (base x)) = ?j" using j L(4) bx by (simp add: unat_word_ariths)
  have "\<not> of_nat (length (tr_tc tr)) \<le> d + of_nat (base x)"
    using j L(4) unat_of_nat_32 [of "length (tr_tc tr)"] by (simp add: word_le_nat_alt at)
  then have call: "queue (of_nat x) (of_nat (base x)) tr
    = Inr (tr\<lparr>tr_scatter := (tr_scatter tr)[x := tr_tc tr ! ?j], tr_tc := (tr_tc tr)[?j := of_nat (Suc x)]\<rparr>)"
    using x L j ux at vli dl by (simp add: queue_def Let_def add.commute)
  have "queues ((tr_tc tr)[?j := of_nat (Suc x)]) ((tr_scatter tr)[x := tr_tc tr ! ?j]) (Q(x \<mapsto> ?j))"
    by (rule queues_push) (use inv Q j x L in \<open>auto simp: trav_inv_def Let_def\<close>)
  then have "trav_inv base pend (Q(x \<mapsto> ?j))
      (tr\<lparr>tr_scatter := (tr_scatter tr)[x := tr_tc tr ! ?j], tr_tc := (tr_tc tr)[?j := of_nat (Suc x)]\<rparr>)"
    using inv unfolding trav_inv_def Let_def by simp
  then show ?thesis using call by (intro exI conjI) auto
qed

text \<open>The handle at the head of queue \<open>i\<close> moves on by one record.\<close>

lemma run_at_tail:
  assumes "run_at mem n hp left (c # cs)" and "length mem < 2 ^ 32"
  defines "k \<equiv> of_nat (length (enc_rec n c))"
  shows "run_at mem n (hp + k) (left - k) cs" and "left - k = 0 \<longleftrightarrow> cs = []"
proof -
  obtain rest where m: "drop (unat hp) mem = enc_rec n c @ enc_run n cs @ rest"
    and l: "unat left = length (enc_rec n c) + length (enc_run n cs)" and ok: "recs_ok n (c # cs)"
    using assms(1) by (auto simp: run_at_def)
  have "length (enc_rec n c) \<le> length (drop (unat hp) mem)" unfolding m by simp
  then have h: "unat hp + length (enc_rec n c) \<le> length mem" using length_enc_rec_pos [of n c] unfolding length_drop by linarith
  then have k: "unat k = length (enc_rec n c)" unfolding k_def by (intro unat_of_nat_32) (use assms(2) in simp)
  have hk: "unat (hp + k) = unat hp + length (enc_rec n c)" using h k assms(2) by (simp add: unat_word_ariths)
  have "k \<le> left" using l k by (simp add: word_le_nat_alt)
  then have lk: "unat (left - k) = length (enc_run n cs)" using l k by (simp add: unat_sub)
  have "drop (unat (hp + k)) mem = enc_run n cs @ rest" unfolding hk using drop_record [OF m] by simp
  then show "run_at mem n (hp + k) (left - k) cs"
    using ok lk unfolding run_at_def recs_ok_def by auto
  have "cs \<noteq> [] \<Longrightarrow> 0 < length (enc_run n cs)" using length_enc_rec_pos [of n] by (cases cs) auto
  then show "left - k = 0 \<longleftrightarrow> cs = []" using lk by (metis enc_run_simps(1) less_irrefl list.size(3) unat_0 unat_eq_zero)
qed

lemma queue_head:
  assumes "trav_rel base pend tr" and "i < length (tr_tc tr)" and "tr_tc tr ! i \<noteq> 0"
  obtains x d v cs where "tr_tc tr ! i = of_nat (Suc x)" "x < length (signal_lens (tr_xc tr))"
    "pend x = (d, v) # cs" "base x + unat d = i"
    "run_at (tr_mem tr) (signal_lens (tr_xc tr) ! x) (tr_head tr ! x) (tr_left tr ! x) ((d, v) # cs)"
    "queues ((tr_tc tr)[i := tr_scatter tr ! x]) ((tr_scatter tr)[x := 0]) ((\<lambda>x. due (base x) (pend x))(x := None))"
proof -
  have L: "length (tr_scatter tr) = length (signal_lens (tr_xc tr))"
    and q: "queues (tr_tc tr) (tr_scatter tr) (\<lambda>x. due (base x) (pend x))"
    using assms(1) by (auto simp: trav_rel_def trav_inv_def Let_def)
  obtain x where x: "tr_tc tr ! i = of_nat (Suc x)" "due (base x) (pend x) = Some i" "x < length (tr_scatter tr)"
    "queues ((tr_tc tr)[i := tr_scatter tr ! x]) ((tr_scatter tr)[x := 0]) ((\<lambda>x. due (base x) (pend x))(x := None))"
    by (rule queues_pop [OF q assms(2,3)])
  obtain d v cs where p: "pend x = (d, v) # cs" "base x + unat d = i"
    using x(2) by (auto simp: due_def split: list.splits)
  have "run_at (tr_mem tr) (signal_lens (tr_xc tr) ! x) (tr_head tr ! x) (tr_left tr ! x) ((d, v) # cs)"
    using assms(1) x(3) L p(1) by (auto simp: trav_rel_def trav_inv_def Let_def)
  then show ?thesis using x(3) L by (intro that [OF x(1) _ p _ x(4)]) simp_all
qed

lemma advance_rel:
  assumes rel: "trav_rel base pend tr" and i: "i < length (tr_tc tr)" "tr_tc tr ! i = of_nat (Suc x)"
    and x: "x < length (signal_lens (tr_xc tr))" and p: "pend x = (d, v) # cs"
  shows "\<exists>tr'. advance (of_nat i) (of_nat x) (of_nat (length (enc_rec (signal_lens (tr_xc tr) ! x) (d, v)))) tr = Inr tr'
      \<and> trav_rel (base(x := i)) (pend(x := cs)) tr' \<and> tr_xc tr' = tr_xc tr \<and> tr_events tr' = tr_events tr
      \<and> length (tr_tc tr') = length (tr_tc tr)"
proof -
  have inv: "trav_inv base pend (\<lambda>x. due (base x) (pend x)) tr" using rel by (simp add: trav_rel_def)
  let ?lens = "signal_lens (tr_xc tr)" and ?Q = "\<lambda>x. due (base x) (pend x)"
  have L: "length ?lens < 2 ^ 32 - 1" "length (tr_scatter tr) = length ?lens" "length (tr_head tr) = length ?lens"
    "length (tr_left tr) = length ?lens" "length (tr_mem tr) < 2 ^ 32" "length (tr_tc tr) < 2 ^ 32"
    using inv by (auto simp: trav_inv_def Let_def)
  have sx: "unat (of_nat (Suc x) :: u32) = Suc x" by (rule unat_of_nat_32) (use x L(1) in simp)
  then have "(of_nat (Suc x) :: u32) \<noteq> 0" by (metis Suc_neq_Zero unat_0)
  then have nz: "tr_tc tr ! i \<noteq> 0" using i(2) by simp
  obtain y d' v' cs' where y: "tr_tc tr ! i = of_nat (Suc y)" "y < length ?lens"
    "pend y = (d', v') # cs'" "base y + unat d' = i"
    "run_at (tr_mem tr) (?lens ! y) (tr_head tr ! y) (tr_left tr ! y) ((d', v') # cs')"
    "queues ((tr_tc tr)[i := tr_scatter tr ! y]) ((tr_scatter tr)[y := 0]) (?Q(y := None))"
    by (rule queue_head [OF rel i(1) nz])
  have "unat (of_nat (Suc y) :: u32) = Suc y" by (rule unat_of_nat_32) (use y(2) L(1) in simp)
  then have "Suc y = Suc x" using arg_cong [OF trans [OF y(1) [symmetric] i(2)], of unat] sx by (simp only:)
  then have "y = x" by simp
  note y' = y(3-6) [unfolded this]
  have di: "base x + unat d = i" and q: "queues ((tr_tc tr)[i := tr_scatter tr ! x]) ((tr_scatter tr)[x := 0]) (?Q(x := None))"
    and run: "run_at (tr_mem tr) (?lens ! x) (tr_head tr ! x) (tr_left tr ! x) ((d, v) # cs)"
    using y' p by simp_all
  let ?n = "?lens ! x"
  let ?k = "of_nat (length (enc_rec ?n (d, v))) :: u32"
  have ts: "\<forall>(t, v) \<in> set (at_times (base x) ((d, v) # cs)). t < length (tr_tc tr)"
    using inv x p by (auto simp: trav_inv_def Let_def)
  note tl = run_at_tail [OF run L(5)]
  have ux: "unat (of_nat x :: u32) = x" and ui: "unat (of_nat i :: u32) = i"
    using unat_of_nat_32 [of x] unat_of_nat_32 [of i] x L i(1) by simp_all
  define tr1 where "tr1 = tr\<lparr>tr_head := (tr_head tr)[x := tr_head tr ! x + ?k], tr_left := (tr_left tr)[x := tr_left tr ! x - ?k],
    tr_tc := (tr_tc tr)[i := tr_scatter tr ! x], tr_scatter := (tr_scatter tr)[x := 0]\<rparr>"
  have call: "advance (of_nat i) (of_nat x) ?k tr = (if cs \<noteq> [] then queue (of_nat x) (of_nat i) tr1 else Inr tr1)"
    using x L i(1) ux ui tl(2) by (simp add: advance_def Let_def tr1_def)
  have t1: "tr_xc tr1 = tr_xc tr" "tr_events tr1 = tr_events tr" "length (tr_tc tr1) = length (tr_tc tr)" by (simp_all add: tr1_def)
  have inv1: "trav_inv (base(x := i)) (pend(x := cs)) (?Q(x := None)) tr1"
    using inv x q L tl(1) ts di p by (auto simp: trav_inv_def Let_def tr1_def nth_list_update)
  show ?thesis
  proof (cases cs)
    case Nil
    have "(?Q(x := None)) = (\<lambda>y. due ((base(x := i)) y) ((pend(x := cs)) y))" using Nil by auto
    then show ?thesis using inv1 call Nil t1 unfolding trav_rel_def by simp
  next
    case (Cons c cs')
    obtain d' v' where c: "c = (d', v')" by (cases c)
    have e: "(?Q(x := None))(x \<mapsto> (base(x := i)) x + unat d') = (\<lambda>y. due ((base(x := i)) y) ((pend(x := cs)) y))"
      using Cons c by auto
    obtain sc tc where "queue (of_nat x) (of_nat ((base(x := i)) x)) tr1 = Inr (tr1\<lparr>tr_scatter := sc, tr_tc := tc\<rparr>)"
      "length tc = length (tr_tc tr1)"
      "trav_inv (base(x := i)) (pend(x := cs)) ((?Q(x := None))(x \<mapsto> (base(x := i)) x + unat d')) (tr1\<lparr>tr_scatter := sc, tr_tc := tc\<rparr>)"
      using queue_rel [OF inv1, of x d' v' cs'] x L t1 Cons c by auto
    then show ?thesis using call Cons t1 unfolding trav_rel_def e by simp
  qed
qed

section \<open>What is handed on\<close>

text \<open>The part of the context that handing on a value leaves alone.\<close>

definition fixed_part :: "fstReaderContext \<Rightarrow> fstReaderContext" where
  "fixed_part xc = xc\<lparr>temp_signal_value_buf := [], writex_pos := 0, writex_fd := [], writex_buf := []\<rparr>"

definition emits :: "event list \<Rightarrow> bytes \<Rightarrow> trav \<Rightarrow> trav \<Rightarrow> bool" where
  "emits es s tr tr' \<longleftrightarrow>
     tr' = tr\<lparr>tr_xc := tr_xc tr', tr_events := tr_events tr @ es\<rparr> \<and> fixed_part (tr_xc tr') = fixed_part (tr_xc tr)
     \<and> length (temp_signal_value_buf (tr_xc tr')) = length (temp_signal_value_buf (tr_xc tr))
     \<and> writex_ok (tr_xc tr') \<and> writex_out (tr_xc tr') = writex_out (tr_xc tr) @ s"

lemma ctx_eqD:
  assumes "fixed_part xc' = fixed_part xc"
  shows "signal_lens xc' = signal_lens xc" and "signal_typs xc' = signal_typs xc"
    and "longest_signal_value_len xc' = longest_signal_value_len xc"
    and "double_endian_match xc' = double_endian_match xc"
    and "native_doubles_for_cb xc' = native_doubles_for_cb xc"
    and "limit_range_valid xc' = limit_range_valid xc" and "limit_range_end xc' = limit_range_end xc"
    and "fstReaderContext.num_blackouts xc' = fstReaderContext.num_blackouts xc"
    and "blackout_times xc' = blackout_times xc" and "blackout_activity xc' = blackout_activity xc"
    and "process_mask xc' = process_mask xc"
  using assms by (cases xc; cases xc'; simp add: fixed_part_def)+

lemma emits_refl: "writex_ok (tr_xc tr) \<Longrightarrow> emits [] [] tr tr"
  by (simp add: emits_def)

lemma emits_trans:
  assumes "emits es s tr tr1" and "emits es' s' tr1 tr2"
  shows "emits (es @ es') (s @ s') tr tr2"
proof -
  have 1: "tr1 = tr\<lparr>tr_xc := tr_xc tr1, tr_events := tr_events tr @ es\<rparr>"
    and 2: "tr2 = tr1\<lparr>tr_xc := tr_xc tr2, tr_events := tr_events tr1 @ es'\<rparr>"
    using assms unfolding emits_def by blast+
  have "tr_events tr1 = tr_events tr @ es" by (subst 1) simp
  then have "tr2 = tr\<lparr>tr_xc := tr_xc tr2, tr_events := tr_events tr @ (es @ es')\<rparr>"
    using 2 by (subst (asm) 1) simp
  then show ?thesis using assms by (simp add: emits_def)
qed

lemma ctx_writex:
  assumes "fstWritex xc s = Inr xc'"
  shows "fixed_part xc' = fixed_part xc" and "temp_signal_value_buf xc' = temp_signal_value_buf xc"
  using assms
  by (auto simp: fstWritex_def writex_flush_def fixed_part_def Let_def andthen_eq_Inr split: if_splits)

lemma put_emits:
  assumes "writex_ok (tr_xc tr)"
  shows "\<exists>tr'. put s tr = Inr tr' \<and> emits [] s tr tr'"
proof -
  obtain xc where "fstWritex (tr_xc tr) s = Inr xc" "writex_ok xc" "writex_out xc = writex_out (tr_xc tr) @ s"
    using fstWritex_out [OF assms] by blast
  then show ?thesis using ctx_writex [of "tr_xc tr" s xc] by (simp add: put_def emits_def)
qed

lemma set_buf_emits:
  assumes "writex_ok (tr_xc tr)" and "length s \<le> length (temp_signal_value_buf (tr_xc tr))"
  shows "\<exists>tr' r. set_buf s tr = Inr tr' \<and> emits [] [] tr tr' \<and> temp_signal_value_buf (tr_xc tr') = s @ r"
  using assms by (simp add: set_buf_def store_n_def emits_def fixed_part_def writex_ok_def writex_out_def)

lemma call_emits: "writex_ok (tr_xc tr) \<Longrightarrow> emits [e] [] tr (call e tr)"
  by (simp add: call_def emits_def)

lemma emits_ok: "emits es s tr tr' \<Longrightarrow> writex_ok (tr_xc tr')"
  by (simp add: emits_def)

lemma emits_frame:
  assumes "emits es s tr tr'"
  shows "tr_mem tr' = tr_mem tr" and "tr_head tr' = tr_head tr" and "tr_left tr' = tr_left tr"
    and "tr_scatter tr' = tr_scatter tr" and "tr_tc tr' = tr_tc tr" and "tr_events tr' = tr_events tr @ es"
    and "fixed_part (tr_xc tr') = fixed_part (tr_xc tr)"
proof -
  have 1: "tr' = tr\<lparr>tr_xc := tr_xc tr', tr_events := tr_events tr @ es\<rparr>"
    using assms unfolding emits_def by blast
  show "tr_mem tr' = tr_mem tr" "tr_head tr' = tr_head tr" "tr_left tr' = tr_left tr"
    "tr_scatter tr' = tr_scatter tr" "tr_tc tr' = tr_tc tr" "tr_events tr' = tr_events tr @ es"
    by (subst 1, simp)+
  show "fixed_part (tr_xc tr') = fixed_part (tr_xc tr)" using assms by (simp add: emits_def)
qed

lemma vcd_line_eq: "vcd_line c idx = Inr (c # vcd_digits (idx + 1) @ [10])"
proof -
  have l: "length (vcd_digits (idx + 1)) \<le> 14" using length_vcd_digits [of "idx + 1"] by simp
  then show ?thesis by (simp add: vcd_line_def fstVcdIDForFwrite_def vcd_digits_fwrite_eq store_n_def Let_def)
qed

lemma put_line_emits:
  "writex_ok (tr_xc tr) \<Longrightarrow> \<exists>tr'. put_line c idx tr = Inr tr' \<and> emits [] (c # vcd_digits (idx + 1) @ [10]) tr tr'"
  using put_emits [of tr "c # vcd_digits (idx + 1) @ [10]"] by (simp add: put_line_def vcd_line_eq)


text \<open>The calls and the text a change of handle \<open>x\<close> to \<open>v\<close> gives at time \<open>t\<close>.\<close>

definition vcd_value :: "u8 \<Rightarrow> nat \<Rightarrow> bytes" where
  "vcd_value c x = c # vcd_digits (of_nat (Suc x)) @ [10]"

definition double_of :: "fstReaderContext \<Rightarrow> bytes \<Rightarrow> bytes" where
  "double_of xc v = (if double_endian_match xc then v else rev v)"

definition show_events :: "sinks \<Rightarrow> fstReaderContext \<Rightarrow> u64 \<Rightarrow> nat \<Rightarrow> bytes \<Rightarrow> event list" where
  "show_events sk xc t x v =
     (let n = signal_lens xc ! x; h = of_nat (Suc x)
      in if n = 0 then if sk_varlen sk then [Change_varlen t h v] else []
         else if \<not> sk_cb sk then []
         else if n = 1 \<or> signal_typs xc ! x \<noteq> FST_VT_VCD_REAL then [Change t h (norm_val n v)]
         else [Change t h (if native_doubles_for_cb xc then double_of xc v
                           else take (unat (longest_signal_value_len xc)) (sk_fmt sk (double_of xc v)))])"

definition show_text :: "sinks \<Rightarrow> fstReaderContext \<Rightarrow> nat \<Rightarrow> bytes \<Rightarrow> bytes" where
  "show_text sk xc x v =
     (let n = signal_lens xc ! x
      in if \<not> sk_fv sk then []
         else if n = 0 then if sk_varlen sk then [] else c_lit ''s'' @ esc v @ vcd_value 32 x
         else if n = 1 then if sk_cb sk then [] else vcd_value (norm_1bit (hd v)) x
         else (if sk_cb sk then []
               else if signal_typs xc ! x \<noteq> FST_VT_VCD_REAL then ch_bp (signal_typs xc ! x) # v
               else c_lit ''r'' @ sk_fmt sk (double_of xc v)) @ vcd_value 32 x)"

text \<open>
  The context as \<open>fstReaderInit\<close> sets it up: the buffer holds the longest value and a NUL, a real
  has eight bytes. \<open>printf\<close>'s text of a double under \<open>%.16g\<close> has at most 24 characters.
\<close>

definition ctx_ok :: "sinks \<Rightarrow> fstReaderContext \<Rightarrow> bool" where
  "ctx_ok sk xc \<longleftrightarrow>
     2 \<le> length (temp_signal_value_buf xc)
     \<and> unat (longest_signal_value_len xc) + 1 \<le> length (temp_signal_value_buf xc)
     \<and> unat (longest_signal_value_len xc) + 1 < 2 ^ 32
     \<and> length (signal_typs xc) = length (signal_lens xc)
     \<and> (\<forall>x < length (signal_lens xc). signal_lens xc ! x \<noteq> 0 \<and> signal_lens xc ! x \<noteq> 1 \<longrightarrow>
          signal_lens xc ! x \<le> longest_signal_value_len xc
          \<and> (signal_typs xc ! x = FST_VT_VCD_REAL \<longrightarrow> signal_lens xc ! x = 8))
     \<and> (\<forall>d. length (sk_fmt sk d) < 31 \<and> 0 \<notin> set (sk_fmt sk d))"

lemma emits_keep:
  assumes "emits es s tr tr'"
  shows "trav_rel base pend tr \<Longrightarrow> trav_rel base pend tr'"
    and "ctx_ok sk (tr_xc tr) \<Longrightarrow> ctx_ok sk (tr_xc tr')"
    and "show_events sk (tr_xc tr') = show_events sk (tr_xc tr)"
    and "show_text sk (tr_xc tr') = show_text sk (tr_xc tr)"
proof -
  note f = emits_frame [OF assms] and c = ctx_eqD [OF emits_frame(7) [OF assms]]
  have "length (temp_signal_value_buf (tr_xc tr')) = length (temp_signal_value_buf (tr_xc tr))"
    using assms by (simp add: emits_def)
  then show "ctx_ok sk (tr_xc tr) \<Longrightarrow> ctx_ok sk (tr_xc tr')" by (simp add: ctx_ok_def c)
  show "trav_rel base pend tr \<Longrightarrow> trav_rel base pend tr'"
    unfolding trav_rel_def trav_inv_def f c .
  show "show_events sk (tr_xc tr') = show_events sk (tr_xc tr)"
    by (intro ext) (simp only: show_events_def double_of_def c)
  show "show_text sk (tr_xc tr') = show_text sk (tr_xc tr)"
    by (intro ext) (simp only: show_text_def double_of_def c)
qed

lemma suc_of_nat: "(of_nat x :: u32) + 1 = of_nat (Suc x)"
  by simp

text \<open>One bit.\<close>

lemma trav_1bit_emits:
  assumes "writex_ok (tr_xc tr)" and "ctx_ok sk (tr_xc tr)"
  shows "\<exists>tr'. trav_1bit sk t (of_nat x) vli tr = Inr tr'
    \<and> emits (if sk_cb sk then [Change t (of_nat (Suc x)) [rec_char vli]] else [])
        (if sk_fv sk \<and> \<not> sk_cb sk then vcd_value (rec_char vli) x else []) tr tr'"
proof (cases "sk_cb sk")
  case True
  have "length [rec_char vli, 0] \<le> length (temp_signal_value_buf (tr_xc tr))" using assms(2) by (simp add: ctx_ok_def)
  from set_buf_emits [OF assms(1) this] obtain tr1 where
    1: "set_buf [rec_char vli, 0] tr = Inr tr1" "emits [] [] tr tr1" by blast
  from emits_trans [OF 1(2) call_emits [OF emits_ok [OF 1(2)]]] show ?thesis
    using True 1(1) by (simp add: trav_1bit_def suc_of_nat)
next
  case False
  then show ?thesis
    using put_line_emits [OF assms(1), of "rec_char vli" "of_nat x"] emits_refl [OF assms(1)]
    by (simp add: trav_1bit_def vcd_value_def suc_of_nat)
qed

text \<open>Variable length.\<close>

lemma trav_varlen_emits:
  assumes "writex_ok (tr_xc tr)"
    and m: "drop hp (tr_mem tr) = varint (push_bit 1 (d :: u32)) @ varint (of_nat (length v) :: u32) @ v @ rest"
    and v: "length v < 2 ^ 30"
  shows "\<exists>tr'. trav_varlen sk t (of_nat x) hp tr
      = Inr (of_nat (length (varint (push_bit 1 d) @ varint (of_nat (length v) :: u32) @ v)), tr')
    \<and> emits (if sk_varlen sk then [Change_varlen t (of_nat (Suc x)) v] else [])
        (if sk_fv sk \<and> \<not> sk_varlen sk then c_lit ''s'' @ esc v @ vcd_value 32 x else []) tr tr'"
proof -
  let ?w = "push_bit 1 d" and ?l = "of_nat (length v) :: u32"
  have 1: "fstGetVarint32 (drop hp (tr_mem tr)) = Inr (?w, length (varint ?w))"
    unfolding m by (rule v32.get_enc)
  have d2: "drop (hp + length (varint ?w)) (tr_mem tr) = varint ?l @ v @ rest" by (rule drop_record [OF m])
  have 2: "fstGetVarint32 (drop (hp + length (varint ?w)) (tr_mem tr)) = Inr (?l, length (varint ?l))"
    unfolding d2 by (rule v32.get_enc)
  have d3: "drop (hp + length (varint ?w) + length (varint ?l)) (tr_mem tr) = v @ rest" by (rule drop_record [OF d2])
  have l: "unat ?l = length v" using unat_of_nat_32 [of "length v"] v by simp
  have l4: "unat (?l * 4 + 1) = 4 * length v + 1" using l v by (simp add: unat_word_ariths)
  have le: "length (esc v) \<le> 4 * length v" by (induction v) (auto simp: esc_def esc_one_def Let_def split: option.splits)
  have e: "fstUtilityBinToEsc (v @ rest) (length v) = Inr (esc v)" by (simp add: fstUtilityBinToEsc_eq)
  have ld: "load_n (v @ rest) 0 (length v) = Inr v" by (simp add: load_n_def)
  consider "sk_varlen sk" | "\<not> sk_varlen sk" "sk_fv sk" | "\<not> sk_varlen sk" "\<not> sk_fv sk" by blast
  then show ?thesis
  proof cases
    case 1
    then show ?thesis
      using call_emits [OF assms(1)] \<open>fstGetVarint32 (drop hp (tr_mem tr)) = _\<close> 2 d3 l low_bit_1(1) [of d] ld
      by (simp add: trav_varlen_def Let_def suc_of_nat add.assoc)
  next
    case c: 2
    obtain tr1 where p1: "put (c_lit ''s'') tr = Inr tr1" "emits [] (c_lit ''s'') tr tr1" using put_emits [OF assms(1)] by blast
    obtain tr2 where p2: "put (esc v) tr1 = Inr tr2" "emits [] (esc v) tr1 tr2" using put_emits [OF emits_ok [OF p1(2)]] by blast
    obtain tr3 where p3: "put_line 32 (of_nat x) tr2 = Inr tr3" "emits [] (vcd_value 32 x) tr2 tr3"
      using put_line_emits [OF emits_ok [OF p2(2)], of 32 "of_nat x"] by (auto simp: vcd_value_def suc_of_nat)
    have "emits [] (c_lit ''s'' @ esc v @ vcd_value 32 x) tr tr3"
      using emits_trans [OF p1(2) emits_trans [OF p2(2) p3(2)]] by simp
    then show ?thesis
      using c p1(1) p2(1) p3(1) 1 2 d3 l l4 le e low_bit_1(1) [of d]
      by (simp add: trav_varlen_def Let_def suc_of_nat add.assoc)
  next
    case 3
    then show ?thesis
      using emits_refl [OF assms(1)] 1 2 d3 l low_bit_1(1) [of d]
      by (simp add: trav_varlen_def Let_def add.assoc)
  qed
qed


text \<open>Vectors and reals: the bytes behind the number, packed or not.\<close>

lemma vector_body:
  assumes n: "n \<noteq> 0" "n \<noteq> 1" and v: "val_ok n v" "unat n + 7 < 2 ^ 32"
    and m: "drop hp mem = enc_rec n (d, v) @ rest"
  defines "k \<equiv> length (varint (rec_head n (d, v)))"
  obtains "is_binary v" "rec_head n (d, v) AND 1 = 0" "rec_digits (unat n) (drop (hp + k) mem) = Inr v"
      "of_nat k + ((n - 1) div 8 + 1) = of_nat (length (enc_rec n (d, v)))"
  | "\<not> is_binary v" "rec_head n (d, v) AND 1 \<noteq> 0" "drop (hp + k) mem = v @ rest" "length v = unat n"
      "of_nat k + n = of_nat (length (enc_rec n (d, v)))" "hp + k + unat n \<le> length mem"
proof -
  have "unat n \<noteq> 0" "unat n \<noteq> 1" using n word_unat_eq_iff [of n 0] word_unat_eq_iff [of n 1] by simp_all
  then have un: "1 < unat n" by linarith
  have lv: "length v = unat n" using v(1) n by (simp add: val_ok_def)
  show ?thesis
  proof (cases "is_binary v")
    case True
    have e: "enc_rec n (d, v) = varint (rec_head n (d, v)) @ pack_bits n v" and h: "rec_head n (d, v) AND 1 = 0"
      using n True low_bit_1(1) [of d] by (simp_all add: enc_rec_def rec_head_def)
    have "drop hp mem = varint (rec_head n (d, v)) @ pack_bits n v @ rest" using m unfolding e by simp
    then have "drop (hp + k) mem = pack_bits n v @ rest" unfolding k_def by (rule drop_record)
    then have dg: "rec_digits (unat n) (drop (hp + k) mem) = Inr v"
      using rec_digits_pack_bits [OF lv True un v(2)] by simp
    have "unat (n - 1) = unat n - 1" using un by (simp add: unat_sub word_le_nat_alt)
    then have "unat ((n - 1) div 8 + 1) = (unat n - 1) div 8 + 1"
      using v(2) by (simp add: unat_word_ariths unat_div)
    also have "\<dots> = (unat n + 7) div 8" using un by simp
    also have "\<dots> = unat (of_nat ((unat n + 7) div 8) :: u32)"
      by (rule unat_of_nat_32 [symmetric]) (use v(2) in simp)
    finally have "(n - 1) div 8 + 1 = of_nat ((unat n + 7) div 8)" by (simp only: word_unat_eq_iff)
    then have "of_nat k + ((n - 1) div 8 + 1) = of_nat (length (enc_rec n (d, v)))"
      using length_pack_bits [OF v(2), of v] by (simp add: e k_def)
    then show ?thesis using that(1) True h dg by blast
  next
    case False
    have e: "enc_rec n (d, v) = varint (rec_head n (d, v)) @ v" and h: "rec_head n (d, v) AND 1 = 1"
      using n False low_bit_1(2) [of d] by (simp_all add: enc_rec_def rec_head_def)
    have "drop hp mem = varint (rec_head n (d, v)) @ v @ rest" using m unfolding e by simp
    then have dv: "drop (hp + k) mem = v @ rest" unfolding k_def by (rule drop_record)
    have "0 < length v" using lv un by simp
    then have "hp + k + unat n \<le> length mem" using arg_cong [OF dv, of length] lv by simp
    then show ?thesis using that(2) False h dv lv by (simp add: e k_def)
  qed
qed

lemma text_emits:
  assumes "writex_ok (tr_xc tr)"
  shows "\<exists>tr'. andthen (put a tr) (put b) = Inr tr' \<and> emits [] (a @ b) tr tr'"
proof -
  obtain tr1 where 1: "put a tr = Inr tr1" "emits [] a tr tr1" using put_emits [OF assms] by blast
  obtain tr2 where 2: "put b tr1 = Inr tr2" "emits [] b tr1 tr2" using put_emits [OF emits_ok [OF 1(2)]] by blast
  from emits_trans [OF 1(2) 2(2)] 1(1) 2(1) show ?thesis by simp
qed

lemma buf_call_emits:
  assumes "writex_ok (tr_xc tr)" and "length s \<le> length (temp_signal_value_buf (tr_xc tr))"
  shows "\<exists>tr'. andthen (set_buf s tr) (\<lambda>tr. Inr (call e tr)) = Inr tr' \<and> emits [e] [] tr tr'"
proof -
  obtain tr1 where 1: "set_buf s tr = Inr tr1" "emits [] [] tr tr1" using set_buf_emits [OF assms] by blast
  from emits_trans [OF 1(2) call_emits [OF emits_ok [OF 1(2)]]] 1(1) show ?thesis by simp
qed

lemma trav_vector_emits:
  assumes w: "writex_ok (tr_xc tr)" and c: "ctx_ok sk (tr_xc tr)" and n: "n \<noteq> 0" "n \<noteq> 1"
    and le: "n \<le> longest_signal_value_len (tr_xc tr)"
    and v: "val_ok n v" "unat n + 7 < 2 ^ 32" and m: "drop hp (tr_mem tr) = enc_rec n (d, v) @ rest"
  shows "\<exists>len tr'. trav_vector sk t (of_nat x) typ n (rec_head n (d, v)) (hp + length (varint (rec_head n (d, v)))) tr
      = Inr (len, tr')
    \<and> of_nat (length (varint (rec_head n (d, v)))) + len = of_nat (length (enc_rec n (d, v)))
    \<and> emits (if sk_cb sk then [Change t (of_nat (Suc x)) v] else [])
        (if sk_fv sk \<and> \<not> sk_cb sk then ch_bp typ # v else []) tr tr'"
proof -
  let ?k = "length (varint (rec_head n (d, v)))"
  have lv: "length v = unat n" using v(1) n by (simp add: val_ok_def)
  have room: "length (v @ [0]) \<le> length (temp_signal_value_buf (tr_xc tr))"
    using c le lv by (simp add: ctx_ok_def word_le_nat_alt)
  have nle: "\<not> longest_signal_value_len (tr_xc tr) < n" using le by simp
  have pick: "\<exists>tr'. (if sk_cb sk then Inr (call (Change t (of_nat (Suc x)) v) tr1)
          else if sk_fv sk then andthen (put [ch_bp typ] tr1) (put v) else Inr tr1) = Inr tr'
      \<and> emits (if sk_cb sk then [Change t (of_nat (Suc x)) v] else [])
          (if sk_fv sk \<and> \<not> sk_cb sk then ch_bp typ # v else []) tr1 tr'" if "writex_ok (tr_xc tr1)" for tr1
    using call_emits [OF that] text_emits [OF that, of "[ch_bp typ]" v] emits_refl [OF that] by simp
  from n v m show ?thesis
  proof (cases rule: vector_body)
    case 1
    obtain tr1 where t1: "set_buf (v @ [0]) tr = Inr tr1" "emits [] [] tr tr1" using set_buf_emits [OF w room] by blast
    obtain tr2 where t2: "(if sk_cb sk then Inr (call (Change t (of_nat (Suc x)) v) tr1)
          else if sk_fv sk then andthen (put [ch_bp typ] tr1) (put v) else Inr tr1) = Inr tr2"
      "emits (if sk_cb sk then [Change t (of_nat (Suc x)) v] else [])
          (if sk_fv sk \<and> \<not> sk_cb sk then ch_bp typ # v else []) tr1 tr2"
      using pick [OF emits_ok [OF t1(2)]] by blast
    have "trav_vector sk t (of_nat x) typ n (rec_head n (d, v)) (hp + ?k) tr = Inr ((n - 1) div 8 + 1, tr2)"
      unfolding trav_vector_def suc_of_nat using 1(2,3) nle t1(1) t2(1) by simp
    then show ?thesis using 1(4) emits_trans [OF t1(2) t2(2)] by simp
  next
    case 2
    have ld: "load_n (tr_mem tr) (hp + ?k) (unat n) = Inr v"
      using 2(3,4,6) by (simp add: load_n_def)
    have "\<exists>tr'. trav_vector sk t (of_nat x) typ n (rec_head n (d, v)) (hp + ?k) tr = Inr (n, tr')
      \<and> emits (if sk_cb sk then [Change t (of_nat (Suc x)) v] else [])
          (if sk_fv sk \<and> \<not> sk_cb sk then ch_bp typ # v else []) tr tr'"
    proof (cases "sk_cb sk")
      case True
      then show ?thesis
        using buf_call_emits [OF w room, of "Change t (of_nat (Suc x)) v"] 2(2) nle ld
        unfolding trav_vector_def suc_of_nat by auto
    next
      case False
      obtain tr1 where t1: "put [ch_bp typ] tr = Inr tr1" "emits [] [ch_bp typ] tr tr1" using put_emits [OF w] by blast
      have mem: "tr_mem tr1 = tr_mem tr" by (rule emits_frame(1) [OF t1(2)])
      obtain tr2 where t2: "put v tr1 = Inr tr2" "emits [] v tr1 tr2" using put_emits [OF emits_ok [OF t1(2)]] by blast
      show ?thesis
        using False 2(2,6) nle ld t1(1) t2(1) mem emits_trans [OF t1(2) t2(2)] emits_refl [OF w]
        unfolding trav_vector_def by auto
    qed
    then show ?thesis using 2(5) by blast
  qed
qed

lemma trav_double_emits:
  assumes w: "writex_ok (tr_xc tr)" and c: "ctx_ok sk (tr_xc tr)"
  shows "\<exists>tr'. (if sk_cb sk \<or> sk_fv sk then trav_double sk t (of_nat x) v tr else Inr tr) = Inr tr'
    \<and> emits (if sk_cb sk then [Change t (of_nat (Suc x))
          (if native_doubles_for_cb (tr_xc tr) then double_of (tr_xc tr) v
           else take (unat (longest_signal_value_len (tr_xc tr))) (sk_fmt sk (double_of (tr_xc tr) v)))] else [])
        (if sk_fv sk \<and> \<not> sk_cb sk then c_lit ''r'' @ sk_fmt sk (double_of (tr_xc tr) v) else []) tr tr'"
proof -
  let ?l = "longest_signal_value_len (tr_xc tr)" and ?f = "sk_fmt sk (double_of (tr_xc tr) v)"
  have f: "length ?f < 31" "0 \<notin> set ?f" and l: "unat (?l + 1) = unat ?l + 1"
    "unat ?l + 1 \<le> length (temp_signal_value_buf (tr_xc tr))"
    using c by (auto simp: ctx_ok_def unat_word_ariths)
  have sp: "snprintf_buf (unat (?l + 1)) ?f = take (unat ?l) ?f @ [0]" by (simp add: snprintf_buf_def l)
  have room: "length (snprintf_buf (unat (?l + 1)) ?f) \<le> length (temp_signal_value_buf (tr_xc tr))"
    unfolding sp using l(2) by simp
  obtain tr1 r where t1: "set_buf (snprintf_buf (unat (?l + 1)) ?f) tr = Inr tr1" "emits [] [] tr tr1"
    "temp_signal_value_buf (tr_xc tr1) = snprintf_buf (unat (?l + 1)) ?f @ r"
    using set_buf_emits [OF w room] by blast
  have "0 \<notin> set (take (unat ?l) ?f)" using f(2) by (meson in_set_takeD)
  then have cs: "cstr (temp_signal_value_buf (tr_xc tr1)) = take (unat ?l) ?f"
    unfolding t1(3) sp using cstr_prefix [of "take (unat ?l) ?f" r] by simp
  have d: "trav_double sk t (of_nat x) v tr = (if sk_cb sk
         then if native_doubles_for_cb (tr_xc tr) then Inr (call (Change t (of_nat (Suc x)) (double_of (tr_xc tr) v)) tr)
              else Inr (call (Change t (of_nat (Suc x)) (take (unat ?l) ?f)) tr1)
         else put (c_lit ''r'' @ ?f) tr)"
  proof -
    have "length (c_lit ''r'' @ ?f) < 32" using f(1) by (simp add: c_lit_def)
    then show ?thesis using t1(1) cs by (simp only: trav_double_def Let_def double_of_def [symmetric] suc_of_nat) simp
  qed
  from emits_trans [OF t1(2) call_emits [OF emits_ok [OF t1(2)]]] d show ?thesis
    using call_emits [OF w] put_emits [OF w, of "c_lit ''r'' @ ?f"] emits_refl [OF w] by simp
qed

lemma trav_real_emits:
  assumes w: "writex_ok (tr_xc tr)" and c: "ctx_ok sk (tr_xc tr)" and n: "n = 8"
    and v: "val_ok n v" and m: "drop hp (tr_mem tr) = enc_rec n (d, v) @ rest"
  shows "\<exists>len tr'. trav_real sk t (of_nat x) n (rec_head n (d, v)) (hp + length (varint (rec_head n (d, v)))) tr
      = Inr (len, tr')
    \<and> of_nat (length (varint (rec_head n (d, v)))) + len = of_nat (length (enc_rec n (d, v)))
    \<and> emits (if sk_cb sk then [Change t (of_nat (Suc x))
          (if native_doubles_for_cb (tr_xc tr) then double_of (tr_xc tr) v
           else take (unat (longest_signal_value_len (tr_xc tr))) (sk_fmt sk (double_of (tr_xc tr) v)))] else [])
        (if sk_fv sk \<and> \<not> sk_cb sk then c_lit ''r'' @ sk_fmt sk (double_of (tr_xc tr) v) else []) tr tr'"
proof -
  let ?k = "length (varint (rec_head n (d, v)))"
  obtain tr1 where t1: "(if sk_cb sk \<or> sk_fv sk then trav_double sk t (of_nat x) v tr else Inr tr) = Inr tr1"
    "emits (if sk_cb sk then [Change t (of_nat (Suc x))
          (if native_doubles_for_cb (tr_xc tr) then double_of (tr_xc tr) v
           else take (unat (longest_signal_value_len (tr_xc tr))) (sk_fmt sk (double_of (tr_xc tr) v)))] else [])
        (if sk_fv sk \<and> \<not> sk_cb sk then c_lit ''r'' @ sk_fmt sk (double_of (tr_xc tr) v) else []) tr tr1"
    using trav_double_emits [OF w c] by blast
  have n': "n \<noteq> 0" "n \<noteq> 1" "unat n = 8" "unat n + 7 < 2 ^ 32" using n by simp_all
  from n'(1,2) v n'(4) m show ?thesis
  proof (cases rule: vector_body)
    case 1
    have "(n - 1) div 8 + 1 = 1" unfolding n by simp
    moreover have "trav_real sk t (of_nat x) n (rec_head n (d, v)) (hp + ?k) tr = Inr (1, tr1)"
      using 1(2,3) n'(3) t1(1) by (simp add: trav_real_def)
    ultimately show ?thesis using 1(4) t1(2) by (metis (no_types, lifting))
  next
    case 2
    have "load_n (tr_mem tr) (hp + ?k) 8 = Inr v"
      using 2(3,4,6) n'(3) by (simp add: load_n_def)
    then have "trav_real sk t (of_nat x) n (rec_head n (d, v)) (hp + ?k) tr = Inr (n, tr1)"
      using 2(2) t1(1) by (cases "sk_cb sk \<or> sk_fv sk") (simp_all add: trav_real_def)
    then show ?thesis using 2(5) t1(2) by blast
  qed
qed


section \<open>One round, one queue, all queues\<close>

definition hands :: "event list \<Rightarrow> bytes \<Rightarrow> trav \<Rightarrow> trav \<Rightarrow> bool" where
  "hands es s tr tr' \<longleftrightarrow>
     tr_events tr' = tr_events tr @ es \<and> fixed_part (tr_xc tr') = fixed_part (tr_xc tr)
     \<and> length (temp_signal_value_buf (tr_xc tr')) = length (temp_signal_value_buf (tr_xc tr))
     \<and> writex_ok (tr_xc tr') \<and> writex_out (tr_xc tr') = writex_out (tr_xc tr) @ s
     \<and> length (tr_tc tr') = length (tr_tc tr)"

lemma hands_refl: "writex_ok (tr_xc tr) \<Longrightarrow> hands [] [] tr tr"
  by (simp add: hands_def)

lemma hands_trans: "hands es s tr tr1 \<Longrightarrow> hands es' s' tr1 tr2 \<Longrightarrow> hands (es @ es') (s @ s') tr tr2"
  by (simp add: hands_def)

lemma emits_hands:
  assumes "emits es s tr tr'"
  shows "hands es s tr tr'"
proof -
  have "length (temp_signal_value_buf (tr_xc tr')) = length (temp_signal_value_buf (tr_xc tr))"
    "writex_ok (tr_xc tr')" "writex_out (tr_xc tr') = writex_out (tr_xc tr) @ s"
    using assms unfolding emits_def by blast+
  then show ?thesis using emits_frame [OF assms] by (simp add: hands_def)
qed

lemma hands_keep:
  assumes "hands es s tr tr'"
  shows "ctx_ok sk (tr_xc tr) \<Longrightarrow> ctx_ok sk (tr_xc tr')" and "writex_ok (tr_xc tr')"
    and "show_events sk (tr_xc tr') = show_events sk (tr_xc tr)"
    and "show_text sk (tr_xc tr') = show_text sk (tr_xc tr)"
    and "length (signal_lens (tr_xc tr')) = length (signal_lens (tr_xc tr))"
proof -
  have "fixed_part (tr_xc tr') = fixed_part (tr_xc tr)" using assms by (simp add: hands_def)
  note c = ctx_eqD [OF this]
  show "ctx_ok sk (tr_xc tr) \<Longrightarrow> ctx_ok sk (tr_xc tr')" using assms by (simp add: ctx_ok_def hands_def c)
  show "writex_ok (tr_xc tr')" using assms by (simp add: hands_def)
  show "show_events sk (tr_xc tr') = show_events sk (tr_xc tr)"
    by (intro ext) (simp only: show_events_def double_of_def c)
  show "show_text sk (tr_xc tr') = show_text sk (tr_xc tr)"
    by (intro ext) (simp only: show_text_def double_of_def c)
  show "length (signal_lens (tr_xc tr')) = length (signal_lens (tr_xc tr))" by (simp only: c)
qed

lemma trav_one_rel:
  assumes rel: "trav_rel base pend tr" and w: "writex_ok (tr_xc tr)" and c: "ctx_ok sk (tr_xc tr)"
    and i: "i < length (tr_tc tr)" "tr_tc tr ! i = of_nat (Suc x)"
    and x: "x < length (signal_lens (tr_xc tr))" and p: "pend x = (d, v) # cs"
  shows "\<exists>tr'. trav_one sk t (of_nat i) (of_nat x) tr = Inr tr'
    \<and> hands (show_events sk (tr_xc tr) t x v) (show_text sk (tr_xc tr) x v) tr tr'
    \<and> trav_rel (base(x := i)) (pend(x := cs)) tr'"
proof -
  let ?xc = "tr_xc tr"
  let ?n = "signal_lens ?xc ! x" and ?hp = "tr_head tr ! x" and ?c = "(d, v)"
  let ?h = "rec_head ?n ?c"
  let ?k = "length (varint ?h)" and ?es = "show_events sk ?xc t x v" and ?s = "show_text sk ?xc x v"
  have L: "x < length (tr_head tr)" "unat (of_nat x :: u32) = x"
    and run: "run_at (tr_mem tr) ?n ?hp (tr_left tr ! x) (?c # cs)"
    using rel x p unat_of_nat_32 [of x] by (auto simp: trav_rel_def trav_inv_def Let_def)
  have v: "val_ok ?n v" "delta_ok ?n d" "length v < 2 ^ 30" "unat ?n + 7 < 2 ^ 32"
    using run by (auto simp: run_at_def recs_ok_def)
  obtain rest where m: "drop (unat ?hp) (tr_mem tr) = enc_rec ?n ?c @ rest"
    using run by (auto simp: run_at_def)
  have rd: "fstGetVarint32 (drop (unat ?hp) (tr_mem tr)) = Inr (?h, ?k)" unfolding m by (rule enc_rec_reads(1))
  have go: "\<exists>tr'. advance (of_nat i) (of_nat x) (of_nat (length (enc_rec ?n ?c))) tr1 = Inr tr'
      \<and> hands ?es ?s tr tr' \<and> trav_rel (base(x := i)) (pend(x := cs)) tr'" if e: "emits ?es ?s tr tr1" for tr1
  proof -
    have tc: "tr_tc tr1 = tr_tc tr" by (rule emits_frame(5) [OF e])
    have lens: "signal_lens (tr_xc tr1) = signal_lens ?xc" by (rule ctx_eqD(1) [OF emits_frame(7) [OF e]])
    from advance_rel [OF emits_keep(1) [OF e rel], of i x d v cs]
    obtain tr' where "advance (of_nat i) (of_nat x) (of_nat (length (enc_rec ?n ?c))) tr1 = Inr tr'"
      "trav_rel (base(x := i)) (pend(x := cs)) tr'" "tr_xc tr' = tr_xc tr1" "tr_events tr' = tr_events tr1"
      "length (tr_tc tr') = length (tr_tc tr1)"
      using i x p unfolding tc lens by blast
    then show ?thesis using emits_hands [OF e] by (auto simp: hands_def)
  qed
  have ty: "x < length (signal_typs ?xc)" using c x by (simp add: ctx_ok_def)
  consider "?n = 1" | "?n = 0" | "?n \<noteq> 0" "?n \<noteq> 1" by blast
  then show ?thesis
  proof cases
    case 1
    obtain b where b: "v = [b]" using v(1) 1 by (auto simp: val_ok_def length_Suc_conv)
    have ch: "rec_char ?h = norm_1bit b"
      using 1 b v(2) rcv_1bit_read(2) [of d b] by (simp add: rec_head_def delta_ok_def)
    have e: "?es = (if sk_cb sk then [Change t (of_nat (Suc x)) [rec_char ?h]] else [])"
      "?s = (if sk_fv sk \<and> \<not> sk_cb sk then vcd_value (rec_char ?h) x else [])"
      unfolding ch by (simp_all add: show_events_def show_text_def norm_val_def 1 b)
    obtain tr1 where t1: "trav_1bit sk t (of_nat x) ?h tr = Inr tr1" "emits ?es ?s tr tr1"
      using trav_1bit_emits [OF w c, of t x ?h] unfolding e [symmetric] by blast
    have "enc_rec ?n ?c = varint ?h" using 1 by (simp add: enc_rec_def rec_head_def)
    then show ?thesis using go [OF t1(2)] L x 1 rd t1(1) by (simp add: trav_one_def)
  next
    case 2
    have m': "drop (unat ?hp) (tr_mem tr) = varint (push_bit 1 d) @ varint (of_nat (length v) :: u32) @ v @ rest"
      using m 2 by (simp add: enc_rec_def)
    have e: "?es = (if sk_varlen sk then [Change_varlen t (of_nat (Suc x)) v] else [])"
      "?s = (if sk_fv sk \<and> \<not> sk_varlen sk then c_lit ''s'' @ esc v @ vcd_value 32 x else [])"
      by (simp_all add: show_events_def show_text_def 2)
    obtain tr1 where t1: "trav_varlen sk t (of_nat x) (unat ?hp) tr
        = Inr (of_nat (length (varint (push_bit 1 d) @ varint (of_nat (length v) :: u32) @ v)), tr1)" "emits ?es ?s tr tr1"
      using trav_varlen_emits [OF w m' v(3), of sk t x] unfolding e [symmetric] by blast
    have "enc_rec ?n ?c = varint (push_bit 1 d) @ varint (of_nat (length v) :: u32) @ v" using 2 by (simp add: enc_rec_def)
    then have "trav_one sk t (of_nat i) (of_nat x) tr
      = advance (of_nat i) (of_nat x) (of_nat (length (enc_rec ?n ?c))) tr1"
      using L x 2 rd t1(1) by (simp only: trav_one_def) simp
    then show ?thesis using go [OF t1(2)] by simp
  next
    case 3
    let ?ty = "signal_typs ?xc ! x"
    let ?vw = "if ?ty \<noteq> FST_VT_VCD_REAL then trav_vector sk t (of_nat x) ?ty ?n ?h (unat ?hp + ?k) tr
      else trav_real sk t (of_nat x) ?n ?h (unat ?hp + ?k) tr"
    let ?text = "if sk_fv sk \<and> \<not> sk_cb sk then if ?ty \<noteq> FST_VT_VCD_REAL then ch_bp ?ty # v
      else c_lit ''r'' @ sk_fmt sk (double_of ?xc v) else []"
    have le: "?n \<le> longest_signal_value_len ?xc" and r8: "?ty = FST_VT_VCD_REAL \<Longrightarrow> ?n = 8"
      using c x 3 by (simp_all add: ctx_ok_def)
    have "\<exists>len tr1. ?vw = Inr (len, tr1) \<and> of_nat ?k + len = of_nat (length (enc_rec ?n ?c)) \<and> emits ?es ?text tr tr1"
    proof (cases "?ty = FST_VT_VCD_REAL")
      case True
      have e: "?es = (if sk_cb sk then [Change t (of_nat (Suc x)) (if native_doubles_for_cb ?xc then double_of ?xc v
           else take (unat (longest_signal_value_len ?xc)) (sk_fmt sk (double_of ?xc v)))] else [])"
        "?text = (if sk_fv sk \<and> \<not> sk_cb sk then c_lit ''r'' @ sk_fmt sk (double_of ?xc v) else [])"
        "?vw = trav_real sk t (of_nat x) ?n ?h (unat ?hp + ?k) tr"
        using 3 True by (simp_all add: show_events_def)
      show ?thesis unfolding e by (rule trav_real_emits [OF w c r8 [OF True] v(1) m])
    next
      case False
      have e: "?es = (if sk_cb sk then [Change t (of_nat (Suc x)) v] else [])"
        "?text = (if sk_fv sk \<and> \<not> sk_cb sk then ch_bp ?ty # v else [])"
        "?vw = trav_vector sk t (of_nat x) ?ty ?n ?h (unat ?hp + ?k) tr"
        using 3 False by (simp_all add: show_events_def norm_val_def)
      show ?thesis unfolding e by (rule trav_vector_emits [OF w c 3 le v(1,4) m])
    qed
    then obtain len tr1 where t1: "?vw = Inr (len, tr1)"
      "of_nat ?k + len = of_nat (length (enc_rec ?n ?c))" "emits ?es ?text tr tr1" by blast
    obtain tr2 where t2: "(if sk_fv sk then put_line 32 (of_nat x) tr1 else Inr tr1) = Inr tr2"
      "emits [] (if sk_fv sk then vcd_value 32 x else []) tr1 tr2"
      using put_line_emits [OF emits_ok [OF t1(3)], of 32 "of_nat x"] emits_refl [OF emits_ok [OF t1(3)]]
      unfolding vcd_value_def suc_of_nat by (cases "sk_fv sk") auto
    have "?s = ?text @ (if sk_fv sk then vcd_value 32 x else [])"
      using 3 by (simp add: show_text_def Let_def)
    then have e: "emits ?es ?s tr tr2" using emits_trans [OF t1(3) t2(2)] by simp
    have "trav_one sk t (of_nat i) (of_nat x) tr
      = advance (of_nat i) (of_nat x) (of_nat (length (enc_rec ?n ?c))) tr2"
      using L x 3 rd ty t1(1) t2(1) unfolding trav_one_def t1(2) [symmetric] by simp
    then show ?thesis using go [OF e] by simp
  qed
qed


text \<open>
  A log holds the changes in the order they are handed on: the time index, the handle and the value.
\<close>

type_synonym log = "(nat \<times> nat \<times> bytes) list"

definition log_for :: "nat \<Rightarrow> log \<Rightarrow> (nat \<times> bytes) list" where
  "log_for x log = map (\<lambda>(i, y, v). (i, v)) (filter (\<lambda>(i, y, v). y = x) log)"

lemma log_for_simps [simp]:
  "log_for x [] = []"
  "log_for x ((i, y, v) # log) = (if y = x then (i, v) # log_for x log else log_for x log)"
  "log_for x (log @ log') = log_for x log @ log_for x log'"
  by (simp_all add: log_for_def)

definition log_events :: "sinks \<Rightarrow> fstReaderContext \<Rightarrow> u64 list \<Rightarrow> log \<Rightarrow> event list" where
  "log_events sk xc tt log = concat (map (\<lambda>(i, x, v). show_events sk xc (tt ! i) x v) log)"

definition log_text :: "sinks \<Rightarrow> fstReaderContext \<Rightarrow> log \<Rightarrow> bytes" where
  "log_text sk xc log = concat (map (\<lambda>(i, x, v). show_text sk xc x v) log)"

lemma log_simps [simp]:
  "log_events sk xc tt [] = []" "log_text sk xc [] = []"
  "log_events sk xc tt ((i, x, v) # log) = show_events sk xc (tt ! i) x v @ log_events sk xc tt log"
  "log_text sk xc ((i, x, v) # log) = show_text sk xc x v @ log_text sk xc log"
  "log_events sk xc tt (log @ log') = log_events sk xc tt log @ log_events sk xc tt log'"
  "log_text sk xc (log @ log') = log_text sk xc log @ log_text sk xc log'"
  by (simp_all add: log_events_def log_text_def)

lemma trav_while_rel:
  assumes "trav_rel base pend tr" and "writex_ok (tr_xc tr)" and "ctx_ok sk (tr_xc tr)" and "i < length (tr_tc tr)"
    and "\<forall>x j. due (base x) (pend x) = Some j \<longrightarrow> i \<le> j"
  shows "\<exists>log base' pend' tr'. trav_while sk (tt ! i) (of_nat i) tr = Some (Inr tr') \<and> trav_rel base' pend' tr'
    \<and> (\<forall>x j. due (base' x) (pend' x) = Some j \<longrightarrow> i < j) \<and> (\<forall>e \<in> set log. fst e = i)
    \<and> (\<forall>x. at_times (base x) (pend x) = log_for x log @ at_times (base' x) (pend' x))
    \<and> hands (log_events sk (tr_xc tr) tt log) (log_text sk (tr_xc tr) log) tr tr'"
  using assms
proof (induction "\<Sum>x < length (signal_lens (tr_xc tr)). length (pend x)" arbitrary: base pend tr rule: less_induct)
  case less
  let ?L = "length (signal_lens (tr_xc tr))"
  have L: "?L < 2 ^ 32 - 1" "length (tr_scatter tr) = ?L" "length (tr_tc tr) < 2 ^ 32"
    and q: "queues (tr_tc tr) (tr_scatter tr) (\<lambda>x. due (base x) (pend x))"
    using less.prems(1) by (auto simp: trav_rel_def trav_inv_def Let_def)
  have ui: "unat (of_nat i :: u32) = i" using unat_of_nat_32 [of i] less.prems(4) L(3) by simp
  show ?case
  proof (cases "tr_tc tr ! i = 0")
    case True
    have "due (base x) (pend x) \<noteq> Some i" for x
      using queues_empty [OF q less.prems(4) _ True, of x] L by simp
    then have "\<forall>x j. due (base x) (pend x) = Some j \<longrightarrow> i < j" using less.prems(5) by (metis le_neq_implies_less)
    moreover have "trav_while sk (tt ! i) (of_nat i) tr = Some (Inr tr)"
      using True ui less.prems(4) by (simp add: trav_while.simps)
    ultimately show ?thesis
      using less.prems(1) hands_refl [OF less.prems(2)] by (intro exI [of _ "[]"] exI [of _ base] exI [of _ pend]) auto
  next
    case False
    obtain x d v cs where x: "tr_tc tr ! i = of_nat (Suc x)" "x < ?L" "pend x = (d, v) # cs" "base x + unat d = i"
      by (rule queue_head [OF less.prems(1,4) False])
    obtain tr1 where t1: "trav_one sk (tt ! i) (of_nat i) (of_nat x) tr = Inr tr1"
      "hands (show_events sk (tr_xc tr) (tt ! i) x v) (show_text sk (tr_xc tr) x v) tr tr1"
      "trav_rel (base(x := i)) (pend(x := cs)) tr1"
      using trav_one_rel [OF less.prems(1-4) x(1-3)] by blast
    note k = hands_keep [OF t1(2)]
    have tc: "length (tr_tc tr1) = length (tr_tc tr)" using t1(2) by (simp add: hands_def)
    have "(\<Sum>y < ?L. length ((pend(x := cs)) y)) < (\<Sum>y < ?L. length (pend y))"
      using x(2,3) by (intro sum_strict_mono_ex1) auto
    then have meas: "(\<Sum>y < length (signal_lens (tr_xc tr1)). length ((pend(x := cs)) y)) < (\<Sum>y < ?L. length (pend y))"
      unfolding k(5) .
    have due: "\<forall>y j. due ((base(x := i)) y) ((pend(x := cs)) y) = Some j \<longrightarrow> i \<le> j"
      using less.prems(5) by (auto simp: due_def split: list.splits)
    obtain log base' pend' tr' where r: "trav_while sk (tt ! i) (of_nat i) tr1 = Some (Inr tr')" "trav_rel base' pend' tr'"
      "\<forall>x j. due (base' x) (pend' x) = Some j \<longrightarrow> i < j" "\<forall>e \<in> set log. fst e = i"
      "\<forall>y. at_times ((base(x := i)) y) ((pend(x := cs)) y) = log_for y log @ at_times (base' y) (pend' y)"
      "hands (log_events sk (tr_xc tr1) tt log) (log_text sk (tr_xc tr1) log) tr1 tr'"
      using less.hyps [OF meas t1(3) k(2) k(1) [OF less.prems(3)] _ due] less.prems(4) tc by auto
    have "h = of_nat (Suc x) \<Longrightarrow> h - 1 = of_nat x" for h :: u32 by simp
    with x(1) False have "trav_while sk (tt ! i) (of_nat i) tr = Some (Inr tr')"
      using t1(1) r(1) ui less.prems(4) by (subst trav_while.simps) simp
    moreover have "hands (log_events sk (tr_xc tr) tt ((i, x, v) # log)) (log_text sk (tr_xc tr) ((i, x, v) # log)) tr tr'"
      using hands_trans [OF t1(2) r(6)] by (simp add: log_events_def log_text_def k(3,4))
    moreover have "at_times (base y) (pend y) = log_for y ((i, x, v) # log) @ at_times (base' y) (pend' y)" for y
      using r(5) [rule_format, of y] x(3,4) by (auto split: if_splits)
    moreover have "\<forall>e \<in> set ((i, x, v) # log). fst e = i" using r(4) by simp
    ultimately show ?thesis using r(2,3) by blast
  qed
qed

text \<open>The text in front of a new time, and the text of all the changes.\<close>

definition stamp_text :: "u64 \<Rightarrow> vcd_state \<Rightarrow> bytes" where
  "stamp_text t vs = (if dumpvars_state vs = 1 then c_lit ''$end'' @ [10] else [])
     @ c_lit ''#'' @ dec_digits (unat t) @ [10] @ (if dumpvars_state vs = 0 then c_lit ''$dumpvars'' @ [10] else [])"

definition stamp_next :: "u64 \<Rightarrow> vcd_state \<Rightarrow> vcd_state" where
  "stamp_next t vs = vs\<lparr>previous_time := t, dumpvars_state := (if dumpvars_state vs = 0 then 1
     else if dumpvars_state vs = 1 then 2 else dumpvars_state vs)\<rparr>"

primrec vcd_text :: "sinks \<Rightarrow> fstReaderContext \<Rightarrow> u64 list \<Rightarrow> nat list \<Rightarrow> vcd_state \<Rightarrow> log \<Rightarrow> bytes" where
  "vcd_text sk xc tt [] vs log = []"
| "vcd_text sk xc tt (i # is) vs log =
     (let new = sk_fv sk \<and> tt ! i \<noteq> previous_time vs
      in (if new then stamp_text (tt ! i) vs else [])
         @ log_text sk xc (filter (\<lambda>e. fst e = i) log)
         @ vcd_text sk xc tt is (if new then stamp_next (tt ! i) vs else vs) log)"

text \<open>No wanted range that cuts off output, and no changes of dump activity.\<close>

definition plain_range :: "fstReaderContext \<Rightarrow> bool" where
  "plain_range xc \<longleftrightarrow> \<not> limit_range_valid xc \<and> fstReaderContext.num_blackouts xc = 0"

lemma opt_put_emits:
  assumes "writex_ok (tr_xc tr)"
  shows "\<exists>tr'. (if s = [] then Inr tr else put s tr) = Inr tr' \<and> emits [] s tr tr'"
  using put_emits [OF assms, of s] emits_refl [OF assms] by auto

lemma vcd_stamp_emits:
  assumes "writex_ok (tr_xc tr)"
  shows "\<exists>tr'. vcd_stamp t vs tr = Inr ((stamp_next t vs)\<lparr>previous_time := previous_time vs\<rparr>, tr') \<and> emits [] (stamp_text t vs) tr tr'"
proof -
  let ?s0 = "if dumpvars_state vs = 1 then c_lit ''$end'' @ [10] else []" and ?s1 = "c_lit ''#'' @ dec_digits (unat t) @ [10]"
    and ?s2 = "if dumpvars_state vs = 0 then c_lit ''$dumpvars'' @ [10] else []"
  obtain tr1 where 1: "(if ?s0 = [] then Inr tr else put ?s0 tr) = Inr tr1" "emits [] ?s0 tr tr1"
    using opt_put_emits [OF assms] by blast
  obtain tr2 where 2: "put ?s1 tr1 = Inr tr2" "emits [] ?s1 tr1 tr2" using put_emits [OF emits_ok [OF 1(2)]] by blast
  obtain tr3 where 3: "(if ?s2 = [] then Inr tr2 else put ?s2 tr2) = Inr tr3" "emits [] ?s2 tr2 tr3"
    using opt_put_emits [OF emits_ok [OF 2(2)]] by blast
  have "emits [] (stamp_text t vs) tr tr3"
    using emits_trans [OF 1(2) emits_trans [OF 2(2) 3(2)]] unfolding stamp_text_def append_assoc by simp
  moreover have "vcd_stamp t vs tr = Inr ((stamp_next t vs)\<lparr>previous_time := previous_time vs\<rparr>, tr3)"
  proof -
    have "(if (if dumpvars_state vs = 1 then 2 else dumpvars_state vs) = 0 then a else b)
      = (if dumpvars_state vs = 0 then a else b)" for a b :: bytes by simp
    then show ?thesis
      using 1(1) 2(1) 3(1) by (simp add: vcd_stamp_def stamp_next_def split: if_splits)
  qed
  ultimately show ?thesis by blast
qed

lemma trav_stamp_emits:
  assumes "writex_ok (tr_xc tr)" and "plain_range (tr_xc tr)"
  shows "\<exists>tr'. trav_stamp sk t vs tr
      = Inr (Some (if sk_fv sk \<and> t \<noteq> previous_time vs then stamp_next t vs else vs, tr'))
    \<and> emits [] (if sk_fv sk \<and> t \<noteq> previous_time vs then stamp_text t vs else []) tr tr'"
proof (cases "sk_fv sk \<and> t \<noteq> previous_time vs")
  case True
  obtain tr' where 1: "vcd_stamp t vs tr = Inr ((stamp_next t vs)\<lparr>previous_time := previous_time vs\<rparr>, tr')"
    "emits [] (stamp_text t vs) tr tr'" using vcd_stamp_emits [OF assms(1)] by blast
  have "plain_range (tr_xc tr')"
    using assms(2) ctx_eqD(6,8) [OF emits_frame(7) [OF 1(2)]] by (simp add: plain_range_def)
  then have "vcd_activity t vs' tr' = Inr (vs', tr')" for vs' by (simp add: vcd_activity_def plain_range_def)
  then show ?thesis
    using True 1 assms(2) by (simp add: trav_stamp_def plain_range_def stamp_next_def)
next
  case False
  then show ?thesis using emits_refl [OF assms(1)] by (auto simp: trav_stamp_def)
qed


lemma vcd_text_cong:
  "(\<And>i. i \<in> set is \<Longrightarrow> filter (\<lambda>e. fst e = i) l = filter (\<lambda>e. fst e = i) l') \<Longrightarrow> vcd_text sk xc tt is vs l = vcd_text sk xc tt is vs l'"
  by (induction "is" arbitrary: vs) (auto simp: Let_def)

lemma at_times_due: "due b cs = Some j \<Longrightarrow> \<exists>v. (j, v) \<in> set (at_times b cs)"
  by (cases cs) (auto simp: due_def split: prod.splits)

lemma trav_times_rel:
  assumes "trav_rel base pend tr" and "writex_ok (tr_xc tr)" and "ctx_ok sk (tr_xc tr)" and "plain_range (tr_xc tr)"
    and "i + m = length (tr_tc tr)" and "length tt = length (tr_tc tr)"
    and "\<forall>x j. due (base x) (pend x) = Some j \<longrightarrow> i \<le> j"
  shows "\<exists>log vs' tr'. trav_times sk tt [i..<i + m] vs tr = Some (Inr (vs', tr')) \<and> sorted (map fst log)
    \<and> (\<forall>e \<in> set log. i \<le> fst e) \<and> (\<forall>x. at_times (base x) (pend x) = log_for x log)
    \<and> hands (log_events sk (tr_xc tr) tt log) (vcd_text sk (tr_xc tr) tt [i..<i + m] vs log) tr tr'"
  using assms
proof (induction m arbitrary: i base pend tr vs)
  case 0
  have "pend x = []" for x
  proof (rule ccontr)
    assume ne: "pend x \<noteq> []"
    then obtain j where j: "due (base x) (pend x) = Some j" by (auto simp: due_def neq_Nil_conv)
    then obtain v where v: "(j, v) \<in> set (at_times (base x) (pend x))" using at_times_due by blast
    have "x < length (signal_lens (tr_xc tr))"
      using 0(1) ne by (auto simp: trav_rel_def trav_inv_def Let_def not_le [symmetric])
    then have "j < length (tr_tc tr)" using 0(1) v by (auto simp: trav_rel_def trav_inv_def Let_def)
    then show False using 0(5,7) j by fastforce
  qed
  then show ?case using hands_refl [OF 0(2)] by (intro exI [of _ "[]"]) simp
next
  case (Suc m)
  have u: "[i..<i + Suc m] = i # [Suc i..<Suc i + m]" by (simp add: upt_conv_Cons del: upt_Suc)
  have i: "i < length tt" "i < length (tr_tc tr)" using Suc.prems(5,6) by simp_all
  define new where "new \<longleftrightarrow> sk_fv sk \<and> tt ! i \<noteq> previous_time vs"
  define vs1 where "vs1 = (if new then stamp_next (tt ! i) vs else vs)"
  obtain tr1 where 1: "trav_stamp sk (tt ! i) vs tr = Inr (Some (vs1, tr1))"
    "emits [] (if new then stamp_text (tt ! i) vs else []) tr tr1"
    using trav_stamp_emits [OF Suc.prems(2,4), of sk "tt ! i" vs] unfolding vs1_def new_def by blast
  note k1 = hands_keep [OF emits_hands [OF 1(2)]] and f1 = emits_frame [OF 1(2)]
  obtain l1 b2 p2 tr2 where 2: "trav_while sk (tt ! i) (of_nat i) tr1 = Some (Inr tr2)" "trav_rel b2 p2 tr2"
    "\<forall>x j. due (b2 x) (p2 x) = Some j \<longrightarrow> i < j" "\<forall>e \<in> set l1. fst e = i"
    "\<forall>x. at_times (base x) (pend x) = log_for x l1 @ at_times (b2 x) (p2 x)"
    "hands (log_events sk (tr_xc tr1) tt l1) (log_text sk (tr_xc tr1) l1) tr1 tr2"
    using trav_while_rel [OF emits_keep(1) [OF 1(2) Suc.prems(1)] k1(2) k1(1) [OF Suc.prems(3)] _ Suc.prems(7), of tt]
      i(2) f1(5) by auto
  note k2 = hands_keep [OF 2(6)]
  have l2: "length (tr_tc tr2) = length (tr_tc tr)" "fixed_part (tr_xc tr2) = fixed_part (tr_xc tr)"
    using 2(6) f1(5,7) by (simp_all add: hands_def)
  have pr: "plain_range (tr_xc tr2)" using Suc.prems(4) ctx_eqD(6,8) [OF l2(2)] by (simp add: plain_range_def)
  have "Suc i + m = length (tr_tc tr2)" "length tt = length (tr_tc tr2)" using Suc.prems(5,6) l2(1) by simp_all
  from Suc.IH [OF 2(2) k2(2) k2(1) [OF k1(1) [OF Suc.prems(3)]] pr this, of vs1] 2(3)
  obtain l3 vs3 tr3 where 3: "trav_times sk tt [Suc i..<Suc i + m] vs1 tr2 = Some (Inr (vs3, tr3))" "sorted (map fst l3)"
    "\<forall>e \<in> set l3. Suc i \<le> fst e" "\<forall>x. at_times (b2 x) (p2 x) = log_for x l3"
    "hands (log_events sk (tr_xc tr2) tt l3) (vcd_text sk (tr_xc tr2) tt [Suc i..<Suc i + m] vs1 l3) tr2 tr3"
    by (auto simp: Suc_le_eq)
  have sh: "show_events sk (tr_xc tr2) = show_events sk (tr_xc tr)" "show_text sk (tr_xc tr2) = show_text sk (tr_xc tr)"
    "show_events sk (tr_xc tr1) = show_events sk (tr_xc tr)" "show_text sk (tr_xc tr1) = show_text sk (tr_xc tr)"
    using k1(3,4) k2(3,4) by simp_all
  have lg: "log_events sk (tr_xc tr2) = log_events sk (tr_xc tr)" "log_text sk (tr_xc tr2) = log_text sk (tr_xc tr)"
    "log_events sk (tr_xc tr1) = log_events sk (tr_xc tr)" "log_text sk (tr_xc tr1) = log_text sk (tr_xc tr)"
    by (intro ext, simp only: log_events_def log_text_def sh)+
  have vt: "vcd_text sk (tr_xc tr2) tt is w l = vcd_text sk (tr_xc tr) tt is w l" for "is" w l
    by (induction "is" arbitrary: w) (simp_all only: vcd_text.simps lg)
  have fi: "filter (\<lambda>e. fst e = i) (l1 @ l3) = l1"
  proof -
    have "filter (\<lambda>e. fst e = i) l3 = []" using 3(3) by (auto simp: filter_empty_conv)
    then show ?thesis using 2(4) by simp
  qed
  have "vcd_text sk (tr_xc tr) tt [Suc i..<Suc i + m] vs1 (l1 @ l3) = vcd_text sk (tr_xc tr) tt [Suc i..<Suc i + m] vs1 l3"
    by (rule vcd_text_cong) (use 2(4) in \<open>auto simp: filter_empty_conv simp del: upt_Suc\<close>)
  then have vtx: "vcd_text sk (tr_xc tr) tt [i..<i + Suc m] vs (l1 @ l3)
    = (if new then stamp_text (tt ! i) vs else []) @ log_text sk (tr_xc tr) l1
      @ vcd_text sk (tr_xc tr) tt [Suc i..<Suc i + m] vs1 l3"
    unfolding u vcd_text.simps fi vs1_def new_def Let_def by simp
  have "hands (log_events sk (tr_xc tr) tt (l1 @ l3)) (vcd_text sk (tr_xc tr) tt [i..<i + Suc m] vs (l1 @ l3)) tr tr3"
    using hands_trans [OF emits_hands [OF 1(2)] hands_trans [OF 2(6) 3(5)]] unfolding vtx lg vt by simp
  moreover have "trav_times sk tt [i..<i + Suc m] vs tr = Some (Inr (vs3, tr3))"
    using i(1) 1(1) 2(1) 3(1) unfolding u by (simp del: upt_Suc)
  moreover have "sorted (map fst (l1 @ l3))"
  proof -
    have "map fst l1 = map (\<lambda>_. i) l1" using 2(4) by simp
    then have "sorted (map fst l1)" by (simp add: map_replicate_const)
    then show ?thesis using 2(4) 3(2,3) by (fastforce simp: sorted_append)
  qed
  moreover have "\<forall>e \<in> set (l1 @ l3). i \<le> fst e" using 2(4) 3(3) by fastforce
  moreover have "\<forall>x. at_times (base x) (pend x) = log_for x (l1 @ l3)" using 2(5) 3(4) by simp
  ultimately show ?case by blast
qed


section \<open>Runs of a damaged file\<close>

lemma sint_small:
  "n < 2 ^ 31 \<Longrightarrow> sint (of_nat n :: u32) = int n" "n < 2 ^ 63 \<Longrightarrow> sint (of_nat n :: u64) = int n"
  by (simp_all add: signed_of_nat signed_take_bit_int_eq_self)

lemma scast_pos: "n < 2 ^ 31 \<Longrightarrow> unat (scast (of_nat n :: u32) :: u64) = n"
proof -
  assume n: "n < 2 ^ 31"
  have "(scast (of_nat n :: u32) :: u64) = of_int (sint (of_nat n :: u32))" by (rule scast_eq)
  then have "(scast (of_nat n :: u32) :: u64) = of_nat n" unfolding sint_small(1) [OF n] by simp
  moreover have "unat (of_nat n :: u64) = n" by (rule of_nat_inverse [OF refl]) (use n in simp)
  ultimately show ?thesis by simp
qed

lemma trav_while_stuck:
  assumes "load (tr_tc tr) (unat i) = Inr h" and "h \<noteq> 0" and "trav_one sk t i (h - 1) tr = Inr tr"
  shows "trav_while sk t i tr = None"
proof (rule ccontr)
  assume "trav_while sk t i tr \<noteq> None"
  then obtain r where r: "trav_while sk t i tr = Some r" by auto
  have "\<not> (sk = sk \<and> t = t \<and> i = i \<and> tr = tr)"
  proof (rule trav_while.raw_induct [where P = "\<lambda>sk' t' i' tr' y. \<not> (sk' = sk \<and> t' = t \<and> i' = i \<and> tr' = tr)", OF _ r])
    fix f sk' t' i' tr' y
    assume ih: "\<And>sk' t' i' tr' y. f sk' t' i' tr' = Some y \<Longrightarrow> \<not> (sk' = sk \<and> t' = t \<and> i' = i \<and> tr' = tr)"
      and s: "(case load (tr_tc tr') (unat i') of Inl e \<Rightarrow> Some (Inl e)
        | Inr h \<Rightarrow> if h = 0 then Some (Inr tr')
            else case trav_one sk' t' i' (h - 1) tr' of Inl e \<Rightarrow> Some (Inl e) | Inr tr' \<Rightarrow> f sk' t' i' tr') = Some y"
    show "\<not> (sk' = sk \<and> t' = t \<and> i' = i \<and> tr' = tr)"
    proof
      assume e: "sk' = sk \<and> t' = t \<and> i' = i \<and> tr' = tr"
      then have "f sk t i tr = Some y" using s assms by simp
      from ih [OF this] show False by simp
    qed
  qed
  then show False by simp
qed

text \<open>
  C32. A damaged value of variable length keeps the reader in its loop for ever: when the value is
  marked as not to be shown, and its length is \<open>2 ^ 32 - 6\<close>, the 32-bit sum of its parts is 0, so
  that neither \<open>headptr\<close> nor \<open>length_remaining\<close> moves and the handle joins the same queue again.
\<close>

theorem zero_skip_never_ends:
  assumes "i < length (tr_tc tr)" and "length (tr_tc tr) < 2 ^ 32" and "tr_tc tr ! i = of_nat (Suc x)"
    and "x < 2 ^ 32 - 1" and "x < length (signal_lens (tr_xc tr))" and "signal_lens (tr_xc tr) ! x = 0"
    and "x < length (tr_head tr)" and "x < length (tr_left tr)" and "x < length (tr_scatter tr)" and "tr_left tr ! x \<noteq> 0"
    and "drop (unat (tr_head tr ! x)) (tr_mem tr) = [1, 250, 255, 255, 255, 15] @ rest"
  shows "trav_while sk t (of_nat i) tr = None"
proof -
  have ux: "unat (of_nat x :: u32) = x" "unat (of_nat (Suc x) :: u32) = Suc x" and ui: "unat (of_nat i :: u32) = i"
    using unat_of_nat_32 [of x] unat_of_nat_32 [of "Suc x"] unat_of_nat_32 [of i] assms(1,2,4) by simp_all
  have nz: "(of_nat (Suc x) :: u32) \<noteq> 0" using ux(2) by (metis Suc_neq_Zero unat_0)
  let ?hp = "unat (tr_head tr ! x)"
  have v: "varint (1 :: u32) = [1]" "varint (0xFFFFFFFA :: u32) = [250, 255, 255, 255, 15]" by code_simp+
  have m: "drop ?hp (tr_mem tr) = varint (1 :: u32) @ varint (0xFFFFFFFA :: u32) @ rest" unfolding v using assms(11) by simp
  have r1: "fstGetVarint32 (drop ?hp (tr_mem tr)) = Inr (1, 1)" unfolding m using v32.get_enc [of 1] by (simp add: v)
  then have r1': "fstGetVarint32NoSkip (drop ?hp (tr_mem tr)) = Inr 1"
    by (auto simp: fstGetVarint32_def fstGetVarint32NoSkip_def andthen_eq_Inr)
  have "drop (?hp + 1) (tr_mem tr) = varint (0xFFFFFFFA :: u32) @ rest" using drop_record [OF m] by (simp add: v)
  then have r2: "fstGetVarint32 (drop (?hp + 1) (tr_mem tr)) = Inr (0xFFFFFFFA, 5)"
    using v32.get_enc [of "0xFFFFFFFA"] by (simp add: v)
  have var: "trav_varlen sk t (of_nat x) ?hp tr = Inr (0, tr)" using r1 r2 by (simp add: trav_varlen_def)
  have d0: "rec_delta 0 1 = 0" by (simp add: rec_delta_def)
  have le: "\<not> of_nat (length (tr_tc tr)) \<le> (of_nat i :: u32)"
    using ui unat_of_nat_32 [OF assms(2)] assms(1) by (simp add: word_le_nat_alt)
  define tr1 where "tr1 = tr\<lparr>tr_head := (tr_head tr)[x := tr_head tr ! x], tr_left := (tr_left tr)[x := tr_left tr ! x],
    tr_tc := (tr_tc tr)[i := tr_scatter tr ! x], tr_scatter := (tr_scatter tr)[x := 0]\<rparr>"
  have q: "queue (of_nat x) (of_nat i) tr1 = Inr (tr1\<lparr>tr_scatter := (tr_scatter tr1)[x := tr_tc tr1 ! i],
      tr_tc := (tr_tc tr1)[i := of_nat (Suc x)]\<rparr>)"
    using assms ux ui r1' d0 le by (simp add: queue_def tr1_def add.commute)
  have same: "tr1\<lparr>tr_scatter := (tr_scatter tr1)[x := tr_tc tr1 ! i], tr_tc := (tr_tc tr1)[i := of_nat (Suc x)]\<rparr> = tr"
  proof -
    have "(tr_tc tr)[i := of_nat (Suc x)] = tr_tc tr" unfolding assms(3) [symmetric] by simp
    then show ?thesis using assms(1,9) by (simp add: tr1_def)
  qed
  have "advance (of_nat i) (of_nat x) 0 tr = Inr tr"
    using assms ux ui q [unfolded same] by (simp add: advance_def tr1_def)
  then have one: "trav_one sk t (of_nat i) (of_nat x) tr = Inr tr"
    using assms(5-7) ux r1 var by (simp add: trav_one_def)
  have "(of_nat (Suc x) :: u32) - 1 = of_nat x" by simp
  then show ?thesis
    using trav_while_stuck [of tr "of_nat i" "of_nat (Suc x)" sk t] nz one assms(1,3) ui by simp
qed

lemma zero_skip_never_ends_witness:
  "trav_while plain_sinks 5 0 \<lparr>tr_xc = reader_zero\<lparr>signal_lens := [0]\<rparr>, tr_mem = [1, 250, 255, 255, 255, 15], tr_offs = 6, tr_mc = [],
     tr_scatter = [0], tr_head = [0], tr_left = [6], tr_tc = [1], tr_events = []\<rparr> = None"
  using zero_skip_never_ends [of 0 "\<lparr>tr_xc = reader_zero\<lparr>signal_lens := [0]\<rparr>, tr_mem = [1, 250, 255, 255, 255, 15],
     tr_offs = 6, tr_mc = [], tr_scatter = [0], tr_head = [0], tr_left = [6], tr_tc = [1], tr_events = []\<rparr>" 0 "[]" plain_sinks 5]
  by simp

text \<open>
  The check in front of a run looks at its start only: a run that begins inside
  \<open>mem_for_traversal\<close> and is longer than the rest of it is read past its end.
\<close>

theorem run_start_check_only:
  assumes "unat (tr_offs tr) < length (tr_mem tr)" and "unat destlen < 2 ^ 31"
    and "length (tr_mem tr) < unat (tr_offs tr) + unat destlen"
    and "f_pos (xc_f (tr_xc tr)) + unat destlen \<le> length (f_data (xc_f (tr_xc tr)))"
  shows "load_plain i destlen tr = Inl Out_of_bounds"
proof -
  let ?xc = "tr_xc tr" and ?n = "unat destlen"
  have n: "unat (scast destlen :: u64) = ?n"
    using scast_pos [OF assms(2)] by simp
  obtain bs xc where r: "read_f ?n ?xc = (bs, xc)" by fastforce
  then have "bs = take ?n (drop (f_pos (xc_f ?xc)) (f_data (xc_f ?xc)))"
    by (simp add: read_f_def fstFread_def fread_bytes_def Let_def)
  then have "length bs = ?n" using assms(4) by simp
  then have "store_n (tr_mem tr) (unat (tr_offs tr)) bs = Inl Out_of_bounds" using assms(3) by (simp add: store_n_def)
  then show ?thesis using assms(1) n r by (simp add: load_plain_def)
qed

lemma run_start_check_only_witness:
  "load_plain 0 4 \<lparr>tr_xc = reader_zero\<lparr>xc_f := \<lparr>f_data = [1, 2, 3, 4], f_pos = 0, f_eof = False\<rparr>\<rparr>, tr_mem = [0, 0],
     tr_offs = 0, tr_mc = [], tr_scatter = [0], tr_head = [0], tr_left = [0], tr_tc = [0], tr_events = []\<rparr> = Inl Out_of_bounds"
  by (rule run_start_check_only) simp_all

end
