(* ===== verification/Block.thy ===== *)
theory Block
  imports Chain_Codec Chain_Index
begin

text \<open>
  A value change block as a whole: what the loop of the flush over the handles leaves in the file,
  in the cells and in \<open>curval_mem\<close> (\<open>fstapi.c\<close>, lines 1331 to 1619), and how the reader fetches the
  run of a handle from it (\<open>fstReaderIterBlocks2\<close>, lines 5638 to 5736). Runs that are stored with
  the same bytes share one copy.
\<close>

section \<open>The layout of a block\<close>

text \<open>
  What each handle has to store, bytes and number in front, gives the bytes written and the cells;
  \<open>H\<close> maps stored bytes to the number of their first owner, \<open>p\<close> is the position.
\<close>

fun layout :: "(bytes \<times> u32) option list \<Rightarrow> nat \<Rightarrow> (bytes \<Rightarrow> u32 option) \<Rightarrow> nat \<Rightarrow> bytes \<times> u32 list" where
  "layout [] i H p = ([], [])"
| "layout (None # xs) i H p = (let (out, cs) = layout xs (Suc i) H p in (out, 0 # cs))"
| "layout (Some (d, h) # xs) i H p =
     (case H d of
        Some j \<Rightarrow> let (out, cs) = layout xs (Suc i) H p in (out, - j # cs)
      | None \<Rightarrow>
          let blk = varint h @ d;
              (out, cs) = layout xs (Suc i) (H(d \<mapsto> of_nat (Suc i))) (p + length blk)
          in (blk @ out, of_nat p # cs))"

lemma length_layout: "length (snd (layout xs i H p)) = length xs"
  by (induction xs i H p rule: layout.induct) (auto simp: Let_def case_prod_beta simp del: fun_upd_apply split: option.splits)

text \<open>The last value of a handle, in place.\<close>

definition checkpointed :: "u32 \<Rightarrow> u32 \<Rightarrow> (u32 \<times> bytes) list \<Rightarrow> bytes \<Rightarrow> bytes" where
  "checkpointed pos n hist cv =
     (case hist of
        [] \<Rightarrow> cv
      | (_, v) # _ \<Rightarrow> if n = 0 then cv else take (unat pos) cv @ v @ drop (unat pos + unat n) cv)"

definition run_of :: "u32 \<Rightarrow> (u32 \<times> bytes) list \<Rightarrow> bytes" where
  "run_of n hist = enc_run n (rev (deltas hist))"

definition item_of :: "packers \<Rightarrow> fstWriterContext \<Rightarrow> u32 \<Rightarrow> (u32 \<times> bytes) list \<Rightarrow> (bytes \<times> u32) option" where
  "item_of pk xc n hist = (if hist = [] then None else Some (pack_chain pk xc (run_of n hist)))"

lemma pack_chain_cong:
  "fastpack xc = fastpack xc' \<Longrightarrow> fourpack xc = fourpack xc' \<Longrightarrow> pack_chain pk xc run = pack_chain pk xc' run"
  by (simp only: pack_chain_def)

lemma deltas_Nil_iff [simp]: "deltas hist = [] \<longleftrightarrow> hist = []"
  by (cases hist rule: deltas.cases) auto

lemma chain_ok_Nil_iff: "chain_ok mem n e offs cs \<Longrightarrow> offs = 0 \<longleftrightarrow> cs = []"
  by (cases "(mem, n, e, offs, cs)" rule: chain_ok.cases) auto

lemma flush_checkpoint_eq:
  assumes ok: "chain_ok (vchg_mem xc) n (length (vchg_mem xc)) offs (deltas hist)" and h: "hist \<noteq> []"
    and m: "length (vchg_mem xc) < 2 ^ 32"
    and cv: "n \<noteq> 0 \<longrightarrow> curval_mapped xc \<and> unat pos + unat n \<le> length (curval xc)"
  shows "flush_checkpoint pos n offs xc = Inr (xc\<lparr>curval := checkpointed pos n hist (curval xc)\<rparr>)"
proof (cases "n = 0")
  case True
  then show ?thesis by (cases hist) (auto simp: flush_checkpoint_def checkpointed_def)
next
  case False
  obtain t v hs where hist: "hist = (t, v) # hs" using h by (cases hist) auto
  obtain prev rest where r: "val_ok n v" "drop (unat offs) (vchg_mem xc)
      = le32 prev @ varint (t - last_idx hs) @ rec_payload n v @ rest" "unat (offs + 4) = unat offs + 4"
    using chain_ok_step [OF ok [unfolded hist deltas_Cons] m] by metis
  note reads = record_reads [OF r(2,3)]
  have lv: "length v = unat n" using r(1) False by (simp add: val_ok_def)
  have len: "fstGetVarint32Length (drop (unat (offs + 4)) (vchg_mem xc)) = Inr (length (varint (t - last_idx hs)))"
    using reads(2) by (auto simp: fstGetVarint32_def fstGetVarint32Length_def andthen_eq_Inr)
  have d4: "drop (unat (offs + 4)) (vchg_mem xc) = varint (t - last_idx hs) @ v @ rest"
    using drop_record [OF r(2)] False by (simp add: rec_payload_def r(3))
  have "varint (t - last_idx hs) \<noteq> []" by (rule hd_varint(2))
  then have pay: "load_n (vchg_mem xc) (unat (offs + 4) + length (varint (t - last_idx hs))) (unat n) = Inr v"
    unfolding lv [symmetric] by (rule load_n_drop [OF d4])
  show ?thesis
    using False len pay cv by (simp add: flush_checkpoint_def checkpointed_def hist Let_def store_n_def lv)
qed

text \<open>What a handle needs for its round.\<close>

definition handle_ok :: "fstWriterContext \<Rightarrow> nat \<Rightarrow> (u32 \<times> bytes) list \<Rightarrow> bool" where
  "handle_ok xc i hist \<longleftrightarrow>
     4 * i + 3 < length (valpos xc) \<and> 4 * i + 3 < 2 ^ 32 \<and> unat (valpos xc ! (4 * i + 1)) + 7 < 2 ^ 32
     \<and> chain_ok (vchg_mem xc) (valpos xc ! (4 * i + 1)) (length (vchg_mem xc)) (valpos xc ! (4 * i + 2)) (deltas hist)
     \<and> (valpos xc ! (4 * i + 1) \<noteq> 0 \<longrightarrow> curval_mapped xc
          \<and> unat (valpos xc ! (4 * i)) + unat (valpos xc ! (4 * i + 1)) \<le> length (curval xc))"

lemma ucast_of_nat_64_32: "(ucast (of_nat n :: u64) :: u32) = of_nat n"
  by (simp add: word_unat_eq_iff unsigned_ucast_eq unsigned_of_nat)

text \<open>One round.\<close>

lemma flush_store_eq:
  assumes "jdict_ok hm (fl_hash st)" and "i + 1 \<noteq> 0"
  shows "\<exists>hash. flush_store hm i d h st = Inr (case jmap hm (fl_hash st) d of
      Some j \<Rightarrow> st\<lparr>fl_hash := hash, fl_xc := set_vm4ip i 2 (- j) (fl_xc st)\<rparr>
    | None \<Rightarrow> st\<lparr>fl_hash := hash, fl_xc := (fl_xc st)\<lparr>handle := fstFwrite (varint h @ d) (handle (fl_xc st))\<rparr>,
                fl_fpos := fl_fpos st + of_nat (length (varint h @ d))\<rparr>)
    \<and> jdict_ok hm hash
    \<and> jmap hm hash = (if jmap hm (fl_hash st) d = None then (jmap hm (fl_hash st))(d \<mapsto> i + 1)
                     else jmap hm (fl_hash st))"
proof -
  obtain hash where "find_or_set hm (fl_hash st) d (i + 1) = Inr (jmap hm (fl_hash st) d, hash)" "jdict_ok hm hash"
    "jmap hm hash = (if jmap hm (fl_hash st) d = None then (jmap hm (fl_hash st))(d \<mapsto> i + 1)
                     else jmap hm (fl_hash st))"
    using find_or_set_spec [OF assms(1), of "i + 1" d] assms(2) by auto
  then show ?thesis
    by (intro exI [of _ hash])
      (simp add: flush_store_def fstWriterVarint_eq varint_ucast_32_64 fstFwrite_twice add.assoc split: option.split)
qed

text \<open>The loop.\<close>

definition flush_rel ::
    "u32 \<Rightarrow> fstWriterContext \<Rightarrow> (nat \<Rightarrow> (u32 \<times> bytes) list) \<Rightarrow> nat \<Rightarrow> bytes \<Rightarrow> u32 list
      \<Rightarrow> (bytes \<Rightarrow> u32 option) \<Rightarrow> flush_state \<Rightarrow> bool" where
  "flush_rel hm xc0 G i out cs H st \<longleftrightarrow>
     jdict_ok hm (fl_hash st) \<and> jmap hm (fl_hash st) = H \<and> fl_fpos st = of_nat (1 + length out)
     \<and> length cs = i
     \<and> fl_xc st = xc0\<lparr>handle := fstFwrite out (handle xc0), curval := curval (fl_xc st), valpos := valpos (fl_xc st)\<rparr>
     \<and> curval (fl_xc st) = foldl (\<lambda>cv t. checkpointed (valpos xc0 ! (4 * t)) (valpos xc0 ! (4 * t + 1)) (G t) cv)
         (curval xc0) [0..<i]
     \<and> length (curval (fl_xc st)) = length (curval xc0) \<and> length (valpos (fl_xc st)) = length (valpos xc0)
     \<and> (\<forall>t < i. valpos (fl_xc st) ! (4 * t + 2) = cs ! t)
     \<and> (\<forall>j. (\<forall>t < i. j \<noteq> 4 * t + 2) \<longrightarrow> valpos (fl_xc st) ! j = valpos xc0 ! j)
     \<and> fl_memreq st = of_nat (sum_list (map (\<lambda>t. length (run_of (valpos xc0 ! (4 * t + 1)) (G t))) [0..<i]))"

lemma run_of_Nil [simp]: "run_of n [] = []"
  by (simp add: run_of_def)

lemma checkpointed_Nil [simp]: "checkpointed pos n [] cv = cv"
  by (simp add: checkpointed_def)

lemma cell_index_neq: "i \<noteq> (t :: nat) \<Longrightarrow> 4 * i + 2 \<noteq> 4 * t + 2"
  "4 * i \<noteq> 4 * t + (2 :: nat)" "4 * i + 1 \<noteq> 4 * t + (2 :: nat)" "4 * i + 3 \<noteq> 4 * t + (2 :: nat)"
  by (auto, presburger+)

lemma flush_handle_rel:
  assumes rel: "flush_rel hm xc0 G i out cs H st" and ok: "handle_ok xc0 i (G i)"
    and map: "valpos_mapped xc0" and mem: "length (vchg_mem xc0) = unat (vchg_siz xc0)"
    and item: "item_of pk xc0 (valpos xc0 ! (4 * i + 1)) (G i) = it"
  shows "\<exists>st' out' c H'. flush_handle pk hm (of_nat i) st = Inr st'
    \<and> flush_rel hm xc0 G (Suc i) (out @ out') (cs @ [c]) H' st'
    \<and> (out', c, H') = (case it of None \<Rightarrow> ([], 0, H)
        | Some (d, h) \<Rightarrow> (case H d of Some j \<Rightarrow> ([], - j, H)
            | None \<Rightarrow> (varint h @ d, of_nat (1 + length out), H(d \<mapsto> of_nat (Suc i)))))"
proof -
  let ?xc = "fl_xc st"
  define pos where "pos = valpos xc0 ! (4 * i)"
  define n where "n = valpos xc0 ! (4 * i + 1)"
  define offs where "offs = valpos xc0 ! (4 * i + 2)"
  have ok': "4 * i + 3 < length (valpos xc0)" "4 * i + 3 < 2 ^ 32" "unat n + 7 < 2 ^ 32"
    "chain_ok (vchg_mem xc0) n (length (vchg_mem xc0)) offs (deltas (G i))"
    "n \<noteq> 0 \<longrightarrow> curval_mapped xc0 \<and> unat pos + unat n \<le> length (curval xc0)"
    using ok by (simp_all add: handle_ok_def pos_def n_def offs_def)
  have r: "jdict_ok hm (fl_hash st)" "jmap hm (fl_hash st) = H" "fl_fpos st = of_nat (1 + length out)" "length cs = i"
    "?xc = xc0\<lparr>handle := fstFwrite out (handle xc0), curval := curval ?xc, valpos := valpos ?xc\<rparr>"
    "length (curval ?xc) = length (curval xc0)" "length (valpos ?xc) = length (valpos xc0)"
    "\<forall>t < i. valpos ?xc ! (4 * t + 2) = cs ! t"
    "\<forall>j. (\<forall>t < i. j \<noteq> 4 * t + 2) \<longrightarrow> valpos ?xc ! j = valpos xc0 ! j"
    using rel unfolding flush_rel_def by blast+
  have memreq: "fl_memreq st = of_nat (sum_list (map (\<lambda>t. length (run_of (valpos xc0 ! (4 * t + 1)) (G t))) [0..<i]))"
    and cvi: "curval ?xc = foldl (\<lambda>cv t. checkpointed (valpos xc0 ! (4 * t)) (valpos xc0 ! (4 * t + 1)) (G t) cv)
      (curval xc0) [0..<i]"
    using rel unfolding flush_rel_def by blast+
  have cells: "valpos ?xc ! (4 * i) = pos" "valpos ?xc ! (4 * i + 1) = n" "valpos ?xc ! (4 * i + 2) = offs"
    using r(9) cell_index_neq by (simp_all add: pos_def n_def offs_def)
  have i4: "unat (4 * of_nat i :: u32) = 4 * i" by (rule cell_index [OF ok'(2)])
  have frame: "valpos_mapped ?xc" "vchg_mem ?xc = vchg_mem xc0" "vchg_siz ?xc = vchg_siz xc0"
    "curval_mapped ?xc = curval_mapped xc0" "fastpack ?xc = fastpack xc0" "fourpack ?xc = fourpack xc0"
    "handle ?xc = fstFwrite out (handle xc0)"
    using map by (subst r(5), simp)+
  have vm: "vm4ip ?xc (of_nat i) 2 = Inr offs" "vm4ip ?xc (of_nat i) 0 = Inr pos" "vm4ip ?xc (of_nat i) 1 = Inr n"
    using frame(1) ok'(1) r(7) cells by (simp_all add: vm4ip_def i4)
  show ?thesis
  proof (cases "offs = 0")
    case True
    then have g: "G i = []" using chain_ok_Nil_iff [OF ok'(4)] by simp
    then have it: "it = None" using item by (simp add: item_of_def)
    have "flush_rel hm xc0 G (Suc i) out (cs @ [0]) H st"
      unfolding flush_rel_def
    proof (intro conjI allI impI, goal_cases)
      case 5
      show ?case by (rule r(5))
    next
      case 6
      show ?case using cvi by (simp add: g)
    next
      case (9 t)
      then show ?case using r(4,8) cells(3) True by (cases "t = i") (auto simp: nth_append)
    next
      case (10 j)
      then show ?case using r(9) by auto
    next
      case 11
      show ?case using memreq by (simp add: g)
    qed (use r in auto)
    then show ?thesis
      using vm(1) True it by (intro exI [of _ st] exI [of _ "[]"] exI [of _ 0] exI [of _ H]) (simp add: flush_handle_def Let_def)
  next
    case False
    then have g: "G i \<noteq> []" using chain_ok_Nil_iff [OF ok'(4)] by simp
    define xc1 where "xc1 = set_vm4ip (of_nat i) 2 (ucast (fl_fpos st)) ?xc"
    define run where "run = run_of n (G i)"
    define cv where "cv = checkpointed pos n (G i) (curval ?xc)"
    obtain d h where pc: "pack_chain pk xc0 run = (d, h)" by (cases "pack_chain pk xc0 run")
    have it: "it = Some (d, h)" using item g pc by (simp add: item_of_def n_def run_def)
    have x1: "vchg_mem xc1 = vchg_mem xc0" "vchg_siz xc1 = vchg_siz xc0" "curval xc1 = curval ?xc"
      "curval_mapped xc1 = curval_mapped xc0" "fastpack xc1 = fastpack xc0" "fourpack xc1 = fourpack xc0"
      using frame by (simp_all add: xc1_def set_vm4ip_def)
    have m32: "length (vchg_mem xc0) < 2 ^ 32" using mem unat_u32 [of "vchg_siz xc0"] by simp
    have chk: "flush_checkpoint pos n offs xc1 = Inr (xc1\<lparr>curval := cv\<rparr>)"
      using flush_checkpoint_eq [of xc1 n offs "G i" pos] ok'(4,5) g m32 r(6) by (simp add: x1 cv_def)
    have chain: "flush_chain n offs (xc1\<lparr>curval := cv\<rparr>) = Inr run"
      using flush_chain_run [of "xc1\<lparr>curval := cv\<rparr>" n offs "deltas (G i)"] ok'(3,4) mem
      by (simp add: x1 run_def run_of_def)
    have pack: "pack_chain pk (xc1\<lparr>curval := cv\<rparr>) run = (d, h)"
      using pack_chain_cong [of "xc1\<lparr>curval := cv\<rparr>" xc0 pk run] pc by (simp add: x1)
    let ?st1 = "st\<lparr>fl_xc := xc1\<lparr>curval := cv\<rparr>, fl_memreq := fl_memreq st + of_nat (length run)\<rparr>"
    have call: "flush_handle pk hm (of_nat i) st = flush_store hm (of_nat i) d h ?st1"
      using False vm chk chain pack by (simp add: flush_handle_def Let_def xc1_def)
    have len_cv: "length cv = length (curval xc0)"
    proof (cases "G i")
      case Nil
      then show ?thesis using g by simp
    next
      case (Cons tv hs)
      obtain t v where tv: "tv = (t, v)" by (cases tv)
      have "n \<noteq> 0 \<Longrightarrow> length v = unat n"
        using ok'(4) Cons tv by (auto simp: val_ok_def deltas_Cons simp del: deltas.simps)
      then show ?thesis using Cons tv r(6) ok'(5) by (auto simp: cv_def checkpointed_def)
    qed
    have final: "flush_rel hm xc0 G (Suc i) (out @ out') (cs @ [c]) H' st'"
      if "jdict_ok hm (fl_hash st')" "jmap hm (fl_hash st') = H'" "fl_fpos st' = of_nat (1 + length (out @ out'))"
        "fl_memreq st' = fl_memreq ?st1"
        "fl_xc st' = xc0\<lparr>handle := fstFwrite (out @ out') (handle xc0), curval := cv, valpos := (valpos ?xc)[4 * i + 2 := c]\<rparr>"
      for st' out' c H'
      unfolding flush_rel_def
    proof (intro conjI allI impI, goal_cases)
      case 6
      show ?case using cvi by (simp add: that(5) cv_def pos_def n_def)
    next
      case (9 t)
      then show ?case using r(4,7,8) ok'(1) cell_index_neq(1) [of i t]
        by (cases "t = i") (auto simp: that(5) nth_append)
    next
      case (10 j)
      then have "j \<noteq> 4 * i + 2" "\<forall>t < i. j \<noteq> 4 * t + 2" using less_Suc_eq by blast+
      then show ?case using r(9) by (simp add: that(5))
    next
      case 11
      show ?case using memreq by (simp add: that(4) run_def n_def)
    qed (use that r(4,6,7) len_cv in \<open>auto simp: that(5)\<close>)
    have valpos1: "(valpos ?xc)[4 * i + 2 := x, 4 * i + 2 := y] = (valpos ?xc)[4 * i + 2 := y]" for x y
      by simp
    have "unat (of_nat i + 1 :: u32) \<noteq> 0" using ok'(2) by (simp add: unat_word_ariths unat_of_nat)
    then have i1: "of_nat i + 1 \<noteq> (0 :: u32)" by auto
    have hash1: "jdict_ok hm (fl_hash ?st1)" "jmap hm (fl_hash ?st1) = H" using r(1,2) by simp_all
    obtain hash where st: "flush_store hm (of_nat i) d h ?st1 = Inr (case H d of
        Some j \<Rightarrow> ?st1\<lparr>fl_hash := hash, fl_xc := set_vm4ip (of_nat i) 2 (- j) (fl_xc ?st1)\<rparr>
      | None \<Rightarrow> ?st1\<lparr>fl_hash := hash, fl_xc := (fl_xc ?st1)\<lparr>handle := fstFwrite (varint h @ d) (handle (fl_xc ?st1))\<rparr>,
                  fl_fpos := fl_fpos ?st1 + of_nat (length (varint h @ d))\<rparr>)"
      "jdict_ok hm hash" "jmap hm hash = (if H d = None then H(d \<mapsto> of_nat i + 1) else H)"
      using flush_store_eq [OF hash1(1) i1, of d h] unfolding hash1(2) by blast
    have x1': "xc1 = xc0\<lparr>handle := fstFwrite out (handle xc0), curval := curval ?xc,
        valpos := (valpos ?xc)[4 * i + 2 := ucast (fl_fpos st)]\<rparr>"
      unfolding xc1_def set_vm4ip_def i4 by (subst r(5)) simp
    show ?thesis
    proof (cases "H d")
      case None
      have pos: "ucast (1 + of_nat (length out) :: u64) = (1 + of_nat (length out) :: u32)"
        using ucast_of_nat_64_32 [of "Suc (length out)"] by simp
      show ?thesis
        unfolding call st(1) it option.case None
        by (intro exI conjI, rule refl, rule final)
          (simp_all add: st(2,3) None r(3) x1' fstFwrite_twice pos add.commute)
    next
      case (Some j)
      show ?thesis
        unfolding call st(1) it option.case Some
        by (intro exI conjI, rule refl, rule final)
          (simp_all add: st(2,3) Some r(3) x1' set_vm4ip_def i4 add.commute)
    qed
  qed
qed

lemma flush_handles_rel:
  assumes "flush_rel hm xc0 G i out cs H st" and "\<forall>t. i \<le> t \<and> t < i + n \<longrightarrow> handle_ok xc0 t (G t)"
    and "valpos_mapped xc0" and "length (vchg_mem xc0) = unat (vchg_siz xc0)"
    and "layout (map (\<lambda>t. item_of pk xc0 (valpos xc0 ! (4 * t + 1)) (G t)) [i..<i + n]) i H (1 + length out)
      = (out', cs')"
  shows "\<exists>st' H'. flush_handles pk hm [i..<i + n] st = Inr st'
    \<and> flush_rel hm xc0 G (i + n) (out @ out') (cs @ cs') H' st'"
  using assms(1,2,5)
proof (induction n arbitrary: i out cs H st out' cs')
  case 0
  then show ?case by auto
next
  case (Suc n)
  define it where "it = item_of pk xc0 (valpos xc0 ! (4 * i + 1)) (G i)"
  define f where "f = map (\<lambda>t. item_of pk xc0 (valpos xc0 ! (4 * t + 1)) (G t)) [Suc i..<Suc i + n]"
  have u: "[i..<i + Suc n] = i # [Suc i..<Suc i + n]" by (simp add: upt_conv_Cons del: upt_Suc)
  have ok: "handle_ok xc0 i (G i)" using Suc.prems(2) by simp
  obtain st1 o1 c H1 where 1: "flush_handle pk hm (of_nat i) st = Inr st1"
    "flush_rel hm xc0 G (Suc i) (out @ o1) (cs @ [c]) H1 st1"
    "(o1, c, H1) = (case it of None \<Rightarrow> ([], 0, H)
        | Some (d, h) \<Rightarrow> (case H d of Some j \<Rightarrow> ([], - j, H)
            | None \<Rightarrow> (varint h @ d, of_nat (1 + length out), H(d \<mapsto> of_nat (Suc i)))))"
    using flush_handle_rel [OF Suc.prems(1) ok assms(3,4), of pk it] it_def by blast
  have lay: "layout (it # f) i H (1 + length out) = (out', cs')"
    using Suc.prems(3) unfolding u by (simp add: it_def f_def)
  obtain o2 c2 where 2: "layout f (Suc i) H1 (1 + length (out @ o1)) = (o2, c2)" "out' = o1 @ o2" "cs' = c # c2"
    using lay 1(3) by (auto simp: Let_def add.assoc simp del: fun_upd_apply split: option.splits prod.splits)
  have oks: "\<forall>t. Suc i \<le> t \<and> t < Suc i + n \<longrightarrow> handle_ok xc0 t (G t)" using Suc.prems(2) by simp
  from Suc.IH [OF 1(2) oks 2(1) [unfolded f_def]] show ?case
    unfolding u using 1(1) 2(2,3) by auto
qed

section \<open>Finding a run in the layout\<close>

definition owners_ok :: "(bytes \<Rightarrow> u32 option) \<Rightarrow> nat \<Rightarrow> bool" where
  "owners_ok H i \<longleftrightarrow> (\<forall>d j. H d = Some j \<longrightarrow> 0 < unat j \<and> unat j \<le> i)"

lemma owners_ok_upd:
  assumes "owners_ok H i" and "Suc i < 2 ^ 31"
  shows "owners_ok (H(d \<mapsto> of_nat (Suc i))) (Suc i)"
proof -
  have "unat (of_nat (Suc i) :: u32) = Suc i" by (rule of_nat_inverse [OF refl]) (use assms(2) in simp)
  then show ?thesis using assms(1) by (auto simp: owners_ok_def simp del: of_nat_Suc intro: le_SucI)
qed

lemma owners_ok_mono: "owners_ok H i \<Longrightarrow> owners_ok H (Suc i)"
  by (auto simp: owners_ok_def intro: le_SucI)

lemma alias_cell:
  assumes "owners_ok H i" and "i < 2 ^ 31" and "H d = Some j"
  shows "is_alias (- j)" and "\<not> own_run (- j)" and "- j \<noteq> 0" and "- j \<noteq> 0x80000000"
proof -
  have b: "0 < unat j" "unat j \<le> i" using assms(1,3) by (auto simp: owners_ok_def)
  then have "unat j < 2 ^ 31" using assms(2) by linarith
  moreover have "unat (- j) = 2 ^ 32 - unat j"
    using b(1) unat_sub_if' [of 0 j] by simp
  ultimately have u: "2 ^ 31 < unat (- j)" by simp
  then show a: "is_alias (- j)" by (simp add: is_alias_def)
  then show "\<not> own_run (- j)" by (simp add: own_run_def)
  show "- j \<noteq> 0" "- j \<noteq> 0x80000000" using u by auto
qed

lemma own_cell:
  assumes "0 < p" and "p < 2 ^ 31"
  shows "own_run (of_nat p)" and "unat (of_nat p :: u32) = p" and "\<not> is_alias (of_nat p)"
    and "of_nat p \<noteq> (0 :: u32)"
proof -
  show u: "unat (of_nat p :: u32) = p" by (rule of_nat_inverse [OF refl]) (use assms(2) in simp)
  then show "\<not> is_alias (of_nat p)" using assms(2) by (simp only: is_alias_def not_le)
  moreover show "of_nat p \<noteq> (0 :: u32)" using u assms(1) by (metis less_numeral_extra(3) unat_0)
  ultimately show "own_run (of_nat p)" by (simp add: own_run_def)
qed

lemma owners_nth:
  assumes "owners_ok H (length pre)" and "\<forall>d j. H d = Some j \<longrightarrow> own_run (pre ! (unat j - 1))"
  shows "\<forall>d j. H d = Some j \<longrightarrow> own_run ((pre @ [c]) ! (unat j - 1))"
proof (intro allI impI)
  fix d j assume h: "H d = Some j"
  have "0 < unat j" "unat j \<le> length pre" using assms(1) h by (auto simp: owners_ok_def)
  then have "unat j - 1 < length pre" by linarith
  then show "own_run ((pre @ [c]) ! (unat j - 1))" using assms(2) h by (simp add: nth_append)
qed

lemma layout_cells_ok:
  assumes "layout xs i H p = (out, cs)" and "owners_ok H i" and "length pre = i"
    and "\<forall>d j. H d = Some j \<longrightarrow> own_run (pre ! (unat j - 1))"
    and "unat pp < p" and "p + length out < 2 ^ 31" and "i + length xs < 2 ^ 31"
  shows "cells_ok pre pp cs"
  using assms
proof (induction xs i H p arbitrary: out cs pre pp rule: layout.induct)
  case (2 xs i H p)
  obtain o2 c2 where l: "layout xs (Suc i) H p = (o2, c2)" "out = o2" "cs = 0 # c2"
    using 2(2) by (auto split: prod.splits)
  have "cells_ok (pre @ [0]) pp c2"
    by (rule 2(1) [OF l(1) owners_ok_mono [OF 2(3)] _ owners_nth]) (use 2(3-8) l(2) in auto)
  then show ?case by (simp add: l(3) own_run_def)
next
  case (3 d h xs i H p)
  show ?case
  proof (cases "H d")
    case (Some j)
    obtain o2 c2 where l: "layout xs (Suc i) H p = (o2, c2)" "out = o2" "cs = - j # c2"
      using 3(3) Some by (auto split: prod.splits)
    have "i < 2 ^ 31" using 3(9) by simp
    note a = alias_cell [OF 3(4) this Some]
    have j: "0 < unat j" "unat j \<le> i" "own_run (pre ! (unat j - 1))" using 3(4,6) Some by (auto simp: owners_ok_def)
    have "cells_ok (pre @ [- j]) pp c2"
      by (rule 3(2) [OF Some l(1) owners_ok_mono [OF 3(4)] _ owners_nth]) (use 3(4-9) l(2) in auto)
    then show ?thesis using a j 3(5) by (auto simp: l(3))
  next
    case None
    let ?blk = "varint h @ d"
    obtain o2 c2 where l: "layout xs (Suc i) (H(d \<mapsto> of_nat (Suc i))) (p + length ?blk) = (o2, c2)"
      "out = ?blk @ o2" "cs = of_nat p # c2"
      using 3(3) None by (auto simp: Let_def simp del: fun_upd_apply of_nat_Suc split: prod.splits)
    have p: "0 < p" "p < 2 ^ 31" using 3(7,8) by simp_all
    have i: "Suc i < 2 ^ 31" using 3(9) by simp
    have si: "unat (of_nat (Suc i) :: u32) = Suc i" by (rule of_nat_inverse [OF refl]) (use i in simp)
    note o = own_cell [OF p]
    have pp: "pp < of_nat p" using 3(7) o(2) by (simp add: word_less_nat_alt)
    have blk: "0 < length ?blk" using length_varint_pos [of h] by simp
    have "cells_ok (pre @ [of_nat p]) (of_nat p) c2"
    proof (rule 3(1) [OF None refl l(1) owners_ok_upd [OF 3(4) i]])
      show "\<forall>d' j. (H(d \<mapsto> of_nat (Suc i))) d' = Some j \<longrightarrow> own_run ((pre @ [of_nat p]) ! (unat j - 1))"
        using owners_nth [of H pre "of_nat p"] 3(4-6) o(1) si by (simp add: nth_append del: of_nat_Suc)
    qed (use 3(5,8,9) l(2) o(2) blk in auto)
    then show ?thesis using o pp by (simp add: l(3))
  qed
qed simp

lemma layout_next:
  assumes "layout xs i H p = (out, cs)" and "owners_ok H i" and "0 < p" and "p + length out < 2 ^ 31"
    and "i + length xs < 2 ^ 31"
  shows "case next_run cs of Some q \<Rightarrow> q = of_nat p | None \<Rightarrow> out = []"
  using assms
proof (induction xs i H p arbitrary: out cs rule: layout.induct)
  case (2 xs i H p)
  obtain o2 c2 where l: "layout xs (Suc i) H p = (o2, c2)" "out = o2" "cs = 0 # c2"
    using 2(2) by (auto split: prod.splits)
  show ?case using 2(1) [OF l(1) owners_ok_mono [OF 2(3)]] 2(4-6) l(2,3) by (cases "next_run c2") (simp_all add: own_run_def)
next
  case (3 d h xs i H p)
  show ?case
  proof (cases "H d")
    case (Some j)
    obtain o2 c2 where l: "layout xs (Suc i) H p = (o2, c2)" "out = o2" "cs = - j # c2"
      using 3(3) Some by (auto split: prod.splits)
    have "i < 2 ^ 31" using 3(7) by simp
    note a = alias_cell [OF 3(4) this Some]
    show ?thesis using 3(2) [OF Some l(1) owners_ok_mono [OF 3(4)]] 3(5-7) l(2,3) a(2) by (cases "next_run c2") simp_all
  next
    case None
    have "p < 2 ^ 31" using 3(6) by simp
    note o = own_cell [OF 3(5) this]
    show ?thesis using 3(3) None o(1) by (auto simp: Let_def simp del: fun_upd_apply of_nat_Suc split: prod.splits)
  qed
qed simp


text \<open>
  The run of a handle: the cell of its owner is the offset of a number and of bytes that the handle
  itself has to store, and the run ends where the next one starts.
\<close>

definition placed :: "bytes \<Rightarrow> nat \<Rightarrow> u32 list \<Rightarrow> u32 \<Rightarrow> nat \<Rightarrow> bytes \<Rightarrow> u32 \<Rightarrow> bool" where
  "placed out p cells vl s d h \<longleftrightarrow>
     own_run (cells ! s) \<and> p \<le> unat (cells ! s)
     \<and> (\<exists>rest. drop (unat (cells ! s) - p) out = varint h @ d @ rest)
     \<and> run_end cells vl s = of_nat (unat (cells ! s) + length (varint h @ d))"

lemma placed_later:
  assumes "placed out (p + length blk) cells vl s d h"
  shows "placed (blk @ out) p cells vl s d h"
proof -
  obtain k where "unat (cells ! s) = p + length blk + k" using assms by (auto simp: placed_def le_iff_add)
  then show ?thesis using assms by (simp add: placed_def)
qed

definition located ::
    "(bytes \<times> u32) option list \<Rightarrow> nat \<Rightarrow> (bytes \<Rightarrow> u32 option) \<Rightarrow> nat \<Rightarrow> bytes \<Rightarrow> u32 list \<Rightarrow> nat \<Rightarrow> bytes \<Rightarrow> bool" where
  "located xs i H p out cells t d \<longleftrightarrow> cells ! (i + t) \<noteq> 0
     \<and> (case H d of
          Some j \<Rightarrow> owner cells (i + t) = unat j - 1
        | None \<Rightarrow> \<exists>s h'. s \<le> t \<and> xs ! s = Some (d, h') \<and> owner cells (i + t) = i + s
            \<and> placed out p cells (of_nat (p + length out)) (i + s) d h')"

lemma located_Cons:
  assumes "located xs (Suc i) H p out cells t d"
  shows "located (x # xs) i H p out cells (Suc t) d"
proof (cases "H d")
  case None
  then obtain s h' where "s \<le> t" "xs ! s = Some (d, h')" "owner cells (i + Suc t) = i + Suc s"
    "placed out p cells (of_nat (p + length out)) (i + Suc s) d h'"
    using assms by (auto simp: located_def)
  then have "Suc s \<le> Suc t" "(x # xs) ! Suc s = Some (d, h')" by simp_all
  then show ?thesis
    using assms None \<open>owner cells (i + Suc t) = i + Suc s\<close> \<open>placed out p cells _ (i + Suc s) d h'\<close>
    unfolding located_def by auto
qed (use assms in \<open>auto simp: located_def\<close>)

lemma located_new:
  assumes "located xs (Suc i) (H(d0 \<mapsto> of_nat (Suc i))) (p + length blk) out cells t d"
    and "placed (blk @ out) p cells (of_nat (p + length (blk @ out))) i d0 h0"
    and "Suc i < 2 ^ 31" and "H d0 = None"
  shows "located (Some (d0, h0) # xs) i H p (blk @ out) cells (Suc t) d"
proof (cases "d = d0")
  case True
  have "unat (of_nat (Suc i) :: u32) = Suc i" by (rule of_nat_inverse [OF refl]) (use assms(3) in simp)
  then have "owner cells (i + Suc t) = i" "cells ! (i + Suc t) \<noteq> 0"
    using assms(1) True by (simp_all add: located_def del: of_nat_Suc)
  then show ?thesis
    using assms(2,4) True unfolding located_def by (auto intro!: exI [of _ 0] exI [of _ h0])
next
  case False
  show ?thesis
  proof (cases "H d")
    case None
    then obtain s h' where s: "s \<le> t" "xs ! s = Some (d, h')" "owner cells (i + Suc t) = i + Suc s"
      "placed out (p + length blk) cells (of_nat (p + length blk + length out)) (i + Suc s) d h'"
      using assms(1) False by (auto simp: located_def)
    from placed_later [OF s(4)] have "placed (blk @ out) p cells (of_nat (p + length (blk @ out))) (i + Suc s) d h'"
      by (simp add: add.assoc)
    then have "\<exists>s h'. s \<le> Suc t \<and> (Some (d0, h0) # xs) ! s = Some (d, h') \<and> owner cells (i + Suc t) = i + s
        \<and> placed (blk @ out) p cells (of_nat (p + length (blk @ out))) (i + s) d h'"
      using s(1-3) by (intro exI [of _ "Suc s"] exI [of _ h']) simp
    then show ?thesis using None assms(1) False by (simp add: located_def)
  qed (use assms(1) False in \<open>auto simp: located_def\<close>)
qed

lemma layout_located:
  assumes "layout xs i H p = (out, cs)" and "owners_ok H i" and "length pre = i" and "0 < p"
    and "p + length out < 2 ^ 31" and "i + length xs < 2 ^ 31"
    and "t < length xs" and "xs ! t = Some (d, h)"
  shows "located xs i H p out (pre @ cs) t d"
  using assms
proof (induction xs i H p arbitrary: out cs pre t rule: layout.induct)
  case (2 xs i H p)
  obtain o2 c2 where l: "layout xs (Suc i) H p = (o2, c2)" "out = o2" "cs = 0 # c2"
    using 2(2) by (auto split: prod.splits)
  obtain t' where t: "t = Suc t'" using 2(9) by (cases t) auto
  have "located xs (Suc i) H p out ((pre @ [0]) @ c2) t' d"
    unfolding l(2) by (rule 2(1) [OF l(1) owners_ok_mono [OF 2(3)]]) (use 2(4-9) l(2) t in auto)
  from located_Cons [OF this] show ?case by (simp add: l(3) t)
next
  case (3 d0 h0 xs i H p)
  show ?case
  proof (cases "H d0")
    case (Some j)
    obtain o2 c2 where l: "layout xs (Suc i) H p = (o2, c2)" "out = o2" "cs = - j # c2"
      using 3(3) Some by (auto split: prod.splits)
    have "i < 2 ^ 31" using 3(8) by simp
    note a = alias_cell [OF 3(4) this Some]
    show ?thesis
    proof (cases t)
      case 0
      then have "d = d0" using 3(10) by simp
      then show ?thesis using Some a 0 3(5) by (simp add: located_def owner_def l(3) nth_append)
    next
      case (Suc t')
      have "located xs (Suc i) H p out ((pre @ [- j]) @ c2) t' d"
        unfolding l(2) by (rule 3(2) [OF Some l(1) owners_ok_mono [OF 3(4)]]) (use 3(5-10) l(2) Suc in auto)
      from located_Cons [OF this] show ?thesis by (simp add: l(3) Suc)
    qed
  next
    case None
    let ?blk = "varint h0 @ d0"
    obtain o2 c2 where l: "layout xs (Suc i) (H(d0 \<mapsto> of_nat (Suc i))) (p + length ?blk) = (o2, c2)"
      "out = ?blk @ o2" "cs = of_nat p # c2"
      using 3(3) None by (auto simp: Let_def simp del: fun_upd_apply of_nat_Suc split: prod.splits)
    have p: "0 < p" "p < 2 ^ 31" using 3(6,7) by simp_all
    have i: "Suc i < 2 ^ 31" using 3(8,9) by simp
    note o = own_cell [OF p] and up = owners_ok_upd [OF 3(4) i]
    have pb: "0 < p + length ?blk" "p + length ?blk + length o2 < 2 ^ 31" "Suc i + length xs < 2 ^ 31"
      using 3(6-8) l(2) by simp_all
    have "case next_run c2 of Some q \<Rightarrow> q = of_nat (p + length ?blk) | None \<Rightarrow> o2 = []"
      by (rule layout_next [OF l(1) up pb])
    then have "run_end (pre @ cs) (of_nat (p + length out)) i = of_nat (p + length ?blk)"
      using 3(5) unfolding run_end_def l(2,3) by (cases "next_run c2") simp_all
    moreover have cell: "(pre @ cs) ! i = of_nat p" using 3(5) by (simp add: l(3) nth_append)
    ultimately have here: "placed out p (pre @ cs) (of_nat (p + length out)) i d0 h0"
      using o unfolding placed_def cell l(2) by simp
    show ?thesis
    proof (cases t)
      case 0
      then have "d = d0" using 3(10) by simp
      then show ?thesis
        using None o 0 3(5) here by (auto simp: located_def owner_def l(3) intro!: exI [of _ h0])
    next
      case (Suc t')
      have "located xs (Suc i) (H(d0 \<mapsto> of_nat (Suc i))) (p + length ?blk) o2 ((pre @ [of_nat p]) @ c2) t' d"
        by (rule 3(1) [OF None refl l(1) up]) (use 3(5,9,10) pb l(2) Suc in auto)
      then have "located (Some (d0, h0) # xs) i H p (?blk @ o2) ((pre @ [of_nat p]) @ c2) (Suc t') d"
        by (rule located_new) (use here None i in \<open>simp_all add: l(2,3)\<close>)
      then show ?thesis by (simp add: l(2,3) Suc)
    qed
  qed
qed simp

end
