(* ===== verification/Block_Load.thy ===== *)
theory Block_Load
  imports Traversal_Order Block
begin

text \<open>
  Fetching the runs of a block (\<open>fstapi.c\<close>, lines 5645 to 5736): each wanted run arrives in the
  memory of the traversal, and its handle in the queue of its first change.
\<close>

section \<open>One run\<close>

text \<open>
  What a decompressor owes: the run, from the stored bytes. It is given as many bytes too many as
  the number in front takes, the first ones of whatever follows in the file.
\<close>

definition stored_as :: "unpackers \<Rightarrow> int \<Rightarrow> bytes \<Rightarrow> bytes \<Rightarrow> u32 \<Rightarrow> bool" where
  "stored_as up packtype run d h \<longleftrightarrow>
     (if h = 0 then d = run
      else unat h = length run
        \<and> (\<forall>junk. length junk = length (varint h) \<longrightarrow> unpack_run up packtype (d @ junk) (length run) = (run, True)))"

definition same_file :: "trav \<Rightarrow> trav \<Rightarrow> bool" where
  "same_file tr tr' \<longleftrightarrow>
     (\<exists>f. tr_xc tr' = (tr_xc tr)\<lparr>xc_f := f\<rparr> \<and> f_data f = f_data (xc_f (tr_xc tr)))
     \<and> length (tr_mem tr') = length (tr_mem tr) \<and> length (tr_tc tr') = length (tr_tc tr)
     \<and> tr_events tr' = tr_events tr"

lemma same_file_refl: "same_file tr tr"
  by (simp add: same_file_def) (metis fstReaderContext.surjective fstReaderContext.update_convs(1))

lemma same_file_trans: "same_file tr tr1 \<Longrightarrow> same_file tr1 tr2 \<Longrightarrow> same_file tr tr2"
  by (auto simp: same_file_def)

definition fetched :: "nat \<Rightarrow> bytes \<Rightarrow> trav \<Rightarrow> trav \<Rightarrow> bool" where
  "fetched x run tr tr' \<longleftrightarrow>
     same_file tr tr'
     \<and> tr_mem tr' = take (unat (tr_offs tr)) (tr_mem tr) @ run @ drop (unat (tr_offs tr) + length run) (tr_mem tr)
     \<and> tr_head tr' = (tr_head tr)[x := tr_offs tr] \<and> tr_left tr' = (tr_left tr)[x := of_nat (length run)]
     \<and> tr_offs tr' = tr_offs tr + of_nat (length run) \<and> tr_tc tr' = tr_tc tr \<and> tr_scatter tr' = tr_scatter tr"

lemma read_f_eq:
  assumes "drop (f_pos (xc_f xc)) (f_data (xc_f xc)) = a @ rest" and "length a = n"
  shows "read_f n xc = (a, xc\<lparr>xc_f := (xc_f xc)\<lparr>f_pos := f_pos (xc_f xc) + n\<rparr>\<rparr>)"
proof -
  have "take n (drop (f_pos (xc_f xc)) (f_data (xc_f xc))) = a" using assms by simp
  then show ?thesis using assms(2) by (simp add: read_f_def fstFread_def fread_bytes_def Let_def)
qed

lemma file_moved:
  "\<exists>f. xc\<lparr>xc_f := (xc_f xc)\<lparr>f_pos := p\<rparr>\<rparr> = xc\<lparr>xc_f := f\<rparr> \<and> f_data f = f_data (xc_f xc)"
  by (rule exI [of _ "(xc_f xc)\<lparr>f_pos := p\<rparr>"]) simp

text \<open>The number in front has been read; the stored bytes follow.\<close>

lemma load_value:
  assumes st: "stored_as up packtype run d h" and run: "0 < length run"
    and pos: "drop (f_pos (xc_f (tr_xc tr))) (f_data (xc_f (tr_xc tr))) = d @ rest" "length (varint h) \<le> length rest"
    and d: "length (varint h @ d) < 2 ^ 31"
    and room: "unat (tr_offs tr) + length run \<le> length (tr_mem tr)" "length (tr_mem tr) < 2 ^ 32"
    and x: "x < length (tr_head tr)" "x < length (tr_left tr)" "x < 2 ^ 32"
  shows "\<exists>tr'. (if h \<noteq> 0 then load_packed up packtype (of_nat x) h (of_nat (length (varint h @ d))) tr
      else load_plain (of_nat x) (of_nat (length (varint h @ d)) - of_nat (length (varint h))) tr) = Inr tr'
    \<and> fetched x run tr tr'"
proof -
  have ux: "unat (of_nat x :: u32) = x" by (rule unat_of_nat_32 [OF x(3)])
  have go: "\<not> length (tr_mem tr) \<le> unat (tr_offs tr)" using room(1) run by linarith
  have sm: "store_n (tr_mem tr) (unat (tr_offs tr)) run
    = Inr (take (unat (tr_offs tr)) (tr_mem tr) @ run @ drop (unat (tr_offs tr) + length run) (tr_mem tr))"
    using room(1) by (simp add: store_n_def)
  show ?thesis
  proof (cases "h = 0")
    case True
    then have dr: "d = run" using st by (simp add: stored_as_def)
    have n: "of_nat (length (varint h @ d)) - of_nat (length (varint h)) = (of_nat (length run) :: u32)" by (simp add: dr)
    have "unat (scast (of_nat (length run) :: u32) :: u64) = length run" by (rule scast_pos) (use d dr in simp)
    then have rd: "read_f (unat (scast (of_nat (length run) :: u32) :: u64)) (tr_xc tr)
      = (run, (tr_xc tr)\<lparr>xc_f := (xc_f (tr_xc tr))\<lparr>f_pos := f_pos (xc_f (tr_xc tr)) + length run\<rparr>\<rparr>)"
      using read_f_eq [OF pos(1)] dr by simp
    show ?thesis
      using True go rd sm x(1,2) ux room(1) unfolding n
      by (simp add: load_plain_def fetched_def same_file_def file_moved)
  next
    case False
    then have h: "unat h = length run"
      and up: "\<And>junk. length junk = length (varint h) \<Longrightarrow> unpack_run up packtype (d @ junk) (length run) = (run, True)"
      using st by (auto simp: stored_as_def)
    let ?n = "length (varint h @ d)" and ?junk = "take (length (varint h)) rest"
    have un: "unat (of_nat ?n :: u32) = ?n" by (rule unat_of_nat_32) (use d in simp)
    have "drop (f_pos (xc_f (tr_xc tr))) (f_data (xc_f (tr_xc tr))) = (d @ ?junk) @ drop (length (varint h)) rest"
      using pos(1) by simp
    moreover have "length (d @ ?junk) = ?n" using pos(2) by simp
    ultimately have rd: "read_f ?n (tr_xc tr)
      = (d @ ?junk, (tr_xc tr)\<lparr>xc_f := (xc_f (tr_xc tr))\<lparr>f_pos := f_pos (xc_f (tr_xc tr)) + ?n\<rparr>\<rparr>)"
      by (rule read_f_eq)
    have tk: "take ?n ((d @ ?junk) @ r) = d @ ?junk" for r using pos(2) by simp
    have uj: "unpack_run up packtype (d @ ?junk) (length run) = (run, True)" using pos(2) by (intro up) simp
    have hr: "of_nat (length run) = h" unfolding h [symmetric] by simp
    show ?thesis
      using False go sm x(1,2) ux room(1) hr
      by (simp only: load_packed_def Let_def un rd tk h uj prod.case if_True if_False simp_thms)
        (simp add: fetched_def same_file_def file_moved)
  qed
qed


section \<open>All runs\<close>

text \<open>
  While runs are fetched, each lies below \<open>traversal_mem_offs\<close>.
\<close>

definition load_inv :: "(nat \<Rightarrow> changes) \<Rightarrow> trav \<Rightarrow> bool" where
  "load_inv pend tr \<longleftrightarrow> trav_rel (\<lambda>_. 0) pend tr
     \<and> (\<forall>x < length (signal_lens (tr_xc tr)). pend x \<noteq> [] \<longrightarrow>
          unat (tr_head tr ! x) + unat (tr_left tr ! x) \<le> unat (tr_offs tr))"

text \<open>Where the run of a handle is in the file, and how the tables name it.\<close>

definition stored_at :: "unpackers \<Rightarrow> bytes \<Rightarrow> nat \<Rightarrow> int \<Rightarrow> chain_idx \<Rightarrow> nat \<Rightarrow> bytes \<Rightarrow> bool" where
  "stored_at up data vc_start packtype ci x run \<longleftrightarrow>
     x < length (ci_table ci) \<and> x < length (ci_lens ci) \<and> ci_table ci ! x \<noteq> 0
     \<and> vc_start + unat (ci_table ci ! x) < 2 ^ 63
     \<and> (\<exists>d h rest. stored_as up packtype run d h
          \<and> drop (vc_start + unat (ci_table ci ! x)) data = varint h @ d @ rest \<and> 5 \<le> length rest
          \<and> length (varint h @ d) < 2 ^ 31 \<and> ci_lens ci ! x = of_nat (length (varint h @ d)))"

definition wanted :: "fstReaderContext \<Rightarrow> nat \<Rightarrow> bool" where
  "wanted xc x \<longleftrightarrow> mask_bit (process_mask xc) (of_nat x)"

lemma same_fileD:
  assumes "same_file tr tr'"
  shows "signal_lens (tr_xc tr') = signal_lens (tr_xc tr)" and "process_mask (tr_xc tr') = process_mask (tr_xc tr)"
    and "f_data (xc_f (tr_xc tr')) = f_data (xc_f (tr_xc tr))" and "length (tr_mem tr') = length (tr_mem tr)"
    and "length (tr_tc tr') = length (tr_tc tr)" and "tr_events tr' = tr_events tr"
    and "wanted (tr_xc tr') = wanted (tr_xc tr)"
  using assms by (auto simp: same_file_def wanted_def)

lemma run_at_below:
  assumes "run_at mem n hp left cs" and "unat hp + unat left \<le> p" and "p \<le> length mem"
  shows "run_at (take p mem @ run @ r) n hp left cs"
proof -
  obtain rest where m: "drop (unat hp) mem = enc_run n cs @ rest" and l: "unat left = length (enc_run n cs)" and ok: "recs_ok n cs"
    using assms(1) by (auto simp: run_at_def)
  have "drop (unat hp) (take p mem) = take (p - unat hp) (enc_run n cs @ rest)" unfolding m [symmetric] by (rule drop_take)
  also have "\<dots> = enc_run n cs @ take (p - unat hp - length (enc_run n cs)) rest" using assms(2) l by simp
  finally have "drop (unat hp) (take p mem @ run @ r)
    = enc_run n cs @ take (p - unat hp - length (enc_run n cs)) rest @ drop (unat hp - length (take p mem)) (run @ r)"
    by simp
  then show ?thesis using ok l unfolding run_at_def by blast
qed

lemma load_run_rel:
  assumes inv: "load_inv pend tr" and x: "x < length (signal_lens (tr_xc tr))" "pend x = []"
    and at: "stored_at up (f_data (xc_f (tr_xc tr))) vc_start packtype ci x (enc_run (signal_lens (tr_xc tr) ! x) cs)"
    and m: "x div 8 < length (process_mask (tr_xc tr))" "wanted (tr_xc tr) x"
    and cs: "cs \<noteq> []" "recs_ok (signal_lens (tr_xc tr) ! x) cs" "\<forall>(t, v) \<in> set (at_times 0 cs). t < length (tr_tc tr)"
    and room: "unat (tr_offs tr) + length (enc_run (signal_lens (tr_xc tr) ! x) cs) \<le> length (tr_mem tr)"
  shows "\<exists>tr'. load_run up vc_start packtype ci (of_nat x) tr = Inr tr' \<and> load_inv (pend(x := cs)) tr'
    \<and> same_file tr tr' \<and> unat (tr_offs tr') = unat (tr_offs tr) + length (enc_run (signal_lens (tr_xc tr) ! x) cs)"
proof -
  let ?n = "signal_lens (tr_xc tr) ! x" let ?run = "enc_run ?n cs" and ?xc = "tr_xc tr"
  have L: "length (signal_lens ?xc) < 2 ^ 32 - 1" "length (tr_scatter tr) = length (signal_lens ?xc)"
    "length (tr_head tr) = length (signal_lens ?xc)" "length (tr_left tr) = length (signal_lens ?xc)"
    "length (tr_mem tr) < 2 ^ 32" "length (tr_tc tr) < 2 ^ 32"
    using inv by (auto simp: load_inv_def trav_rel_def trav_inv_def Let_def)
  have ux: "unat (of_nat x :: u32) = x" by (rule unat_of_nat_32) (use x L(1) in simp)
  let ?offs = "ci_table ci ! x"
  obtain d h rest where s: "x < length (ci_table ci)" "x < length (ci_lens ci)" "?offs \<noteq> 0" "vc_start + unat ?offs < 2 ^ 63"
    "stored_as up packtype ?run d h" "drop (vc_start + unat ?offs) (f_data (xc_f ?xc)) = varint h @ d @ rest" "5 \<le> length rest"
    "length (varint h @ d) < 2 ^ 31" "ci_lens ci ! x = of_nat (length (varint h @ d))"
    using at by (auto simp: stored_at_def)
  define k where "k = vc_start + unat ?offs"
  define f where "f = (xc_f ?xc)\<lparr>f_pos := k, f_eof := False\<rparr>"
  have "of_nat vc_start + ?offs = of_nat k" by (simp add: k_def)
  then have si: "sint (of_nat vc_start + ?offs) = int k" using sint_small(2) [of k] s(4) by (simp add: k_def)
  have seek: "seek_f (sint (of_nat vc_start + ?offs)) SEEK_SET ?xc = ?xc\<lparr>xc_f := f\<rparr>"
    unfolding si by (simp add: seek_f_def fstReaderFseeko_def fseeko_def f_def Let_def)
  define f1 where "f1 = f\<lparr>f_pos := f_pos f + length (varint h)\<rparr>"
  have fd: "drop (f_pos f) (f_data f) = varint h @ d @ rest" using s(6) by (simp add: f_def k_def)
  then have rv: "fstReaderVarint32WithSkip f = Inr (h, length (varint h), f1)"
    using fstReaderVarint32_varint(2) by (simp add: f1_def)
  define tr1 where "tr1 = tr\<lparr>tr_xc := ?xc\<lparr>xc_f := f1\<rparr>\<rparr>"
  have p1: "drop (f_pos (xc_f (tr_xc tr1))) (f_data (xc_f (tr_xc tr1))) = d @ rest"
    using drop_record [OF fd] by (simp add: tr1_def f1_def)
  have sf1: "same_file tr tr1" by (auto simp: same_file_def tr1_def f1_def f_def)
  have bit: "process_mask ?xc ! (x div 8) AND push_bit (x mod 8) 1 \<noteq> 0"
  proof -
    have "bit (process_mask ?xc ! (x div 8)) (x mod 8)"
      using m(2) by (simp add: wanted_def mask_bit_def unat_div_8 unat_and_7 ux)
    moreover have "x mod 8 < 8" by simp
    ultimately show ?thesis by (simp add: bit_iff_and_push_bit_not_eq_0)
  qed
  have "0 < length ?run" using cs(1) length_enc_rec_pos [of ?n] by (cases cs) auto
  moreover have "length (varint h) \<le> length rest" using length_varint_32 [of h] s(7) by simp
  moreover have "unat (tr_offs tr1) + length ?run \<le> length (tr_mem tr1)" "length (tr_mem tr1) < 2 ^ 32"
    "x < length (tr_head tr1)" "x < length (tr_left tr1)" "x < 2 ^ 32"
    using room L x by (simp_all add: tr1_def)
  ultimately obtain tr2 where 2: "(if h \<noteq> 0 then load_packed up packtype (of_nat x) h (of_nat (length (varint h @ d))) tr1
      else load_plain (of_nat x) (of_nat (length (varint h @ d)) - of_nat (length (varint h))) tr1) = Inr tr2" "fetched x ?run tr1 tr2"
    using load_value [OF s(5) _ p1 _ s(8)] by blast
  define clen where "clen = (of_nat (length (varint h @ d)) :: u32)"
  have cl: "ci_lens ci ! x = clen" using s(9) by (simp only: clen_def)
  have call: "load_run up vc_start packtype ci (of_nat x) tr = queue (of_nat x) 0 tr2"
    using s(1-3) m(1) ux bit seek rv cl 2(1) [folded clen_def]
    by (cases "h = 0") (simp_all add: load_run_def unat_div_8 unat_and_7 Let_def flip: tr1_def)
  note sf2 = same_file_trans [OF sf1 conjunct1 [OF 2(2) [unfolded fetched_def]]]
  note D = same_fileD [OF sf2]
  have t2: "tr_mem tr2 = take (unat (tr_offs tr)) (tr_mem tr) @ ?run @ drop (unat (tr_offs tr) + length ?run) (tr_mem tr)"
    "tr_head tr2 = (tr_head tr)[x := tr_offs tr]" "tr_left tr2 = (tr_left tr)[x := of_nat (length ?run)]"
    "tr_offs tr2 = tr_offs tr + of_nat (length ?run)" "tr_tc tr2 = tr_tc tr" "tr_scatter tr2 = tr_scatter tr"
    using 2(2) by (simp_all add: fetched_def tr1_def)
  have uo: "unat (tr_offs tr2) = unat (tr_offs tr) + length ?run"
    using room L(5) unat_of_nat_32 [of "length ?run"] by (simp add: t2(4) unat_word_ariths)
  have ur: "unat (of_nat (length ?run) :: u32) = length ?run" by (rule unat_of_nat_32) (use room L(5) in linarith)
  have rel: "trav_inv (\<lambda>_. 0) pend (\<lambda>y. due 0 (pend y)) tr"
    and below: "\<And>y. y < length (signal_lens ?xc) \<Longrightarrow> pend y \<noteq> [] \<Longrightarrow> unat (tr_head tr ! y) + unat (tr_left tr ! y) \<le> unat (tr_offs tr)"
    using inv by (auto simp: load_inv_def trav_rel_def)
  have keep: "run_at (tr_mem tr2) (signal_lens ?xc ! y) (tr_head tr2 ! y) (tr_left tr2 ! y) ((pend(x := cs)) y)"
    if y: "y < length (signal_lens ?xc)" for y
  proof (cases "y = x")
    case True
    have "unat (tr_offs tr) \<le> length (tr_mem tr)" using room by linarith
    then have "drop (unat (tr_offs tr)) (tr_mem tr2) = ?run @ drop (unat (tr_offs tr) + length ?run) (tr_mem tr)"
      by (simp add: t2(1))
    then show ?thesis using True cs(2) ur y L by (auto simp: run_at_def t2(2,3))
  next
    case False
    have ra: "run_at (tr_mem tr) (signal_lens ?xc ! y) (tr_head tr ! y) (tr_left tr ! y) (pend y)"
      using rel y by (auto simp: trav_inv_def Let_def)
    have "run_at (tr_mem tr2) (signal_lens ?xc ! y) (tr_head tr ! y) (tr_left tr ! y) (pend y)"
    proof (cases "pend y")
      case Nil
      then show ?thesis using ra by (simp add: run_at_def)
    next
      case (Cons c r)
      then show ?thesis unfolding t2(1) using room by (intro run_at_below [OF ra below [OF y]]) auto
    qed
    then show ?thesis using False by (simp add: t2(2,3))
  qed
  have mid: "trav_inv (\<lambda>_. 0) (pend(x := cs)) (\<lambda>y. due 0 (pend y)) tr2"
    using rel keep cs(3) x L D unfolding trav_inv_def Let_def t2(5,6) by (auto simp: t2(2,3))
  obtain d0 v0 cs' where c0: "cs = (d0, v0) # cs'" using cs(1) by (cases cs) auto
  have q: "(\<lambda>y. due 0 (pend y)) x = None" "(pend(x := cs)) x = (d0, v0) # cs'"
    and x2: "x < length (signal_lens (tr_xc tr2))" using x(2) c0 x(1) D(1) by simp_all
  obtain sc tc where 3: "queue (of_nat x) 0 tr2 = Inr (tr2\<lparr>tr_scatter := sc, tr_tc := tc\<rparr>)" "length tc = length (tr_tc tr2)"
    "trav_inv (\<lambda>_. 0) (pend(x := cs)) ((\<lambda>y. due 0 (pend y))(x \<mapsto> unat d0)) (tr2\<lparr>tr_scatter := sc, tr_tc := tc\<rparr>)"
    using queue_rel [OF mid x2 q] unfolding semiring_1_class.of_nat_0 add_0 by blast
  have "(\<lambda>y. due 0 (pend y))(x \<mapsto> unat d0) = (\<lambda>y. due 0 ((pend(x := cs)) y))" using c0 by auto
  then have "trav_rel (\<lambda>_. 0) (pend(x := cs)) (tr2\<lparr>tr_scatter := sc, tr_tc := tc\<rparr>)" using 3(3) by (simp add: trav_rel_def)
  moreover have "unat (tr_head tr2 ! y) + unat (tr_left tr2 ! y) \<le> unat (tr_offs tr2)"
    if "y < length (signal_lens ?xc)" "(pend(x := cs)) y \<noteq> []" for y
    using below [OF that(1)] that x(1) L uo ur by (cases "y = x") (auto simp: t2(2,3))
  ultimately have "load_inv (pend(x := cs)) (tr2\<lparr>tr_scatter := sc, tr_tc := tc\<rparr>)"
    using D(1) by (simp add: load_inv_def)
  moreover have "same_file tr (tr2\<lparr>tr_scatter := sc, tr_tc := tc\<rparr>)"
    using sf2 3(2) by (simp add: same_file_def)
  ultimately show ?thesis unfolding call 3(1) using uo by auto
qed


text \<open>The tables and the file hold, for each of the handles, its run, or nothing.\<close>

definition block_holds ::
    "unpackers \<Rightarrow> bytes \<Rightarrow> nat \<Rightarrow> int \<Rightarrow> chain_idx \<Rightarrow> u32 list \<Rightarrow> nat \<Rightarrow> (nat \<Rightarrow> changes) \<Rightarrow> nat \<Rightarrow> bool" where
  "block_holds up data vc_start packtype ci lens nt R x \<longleftrightarrow>
     (if R x = [] then x < length (ci_table ci) \<and> ci_table ci ! x = 0
      else stored_at up data vc_start packtype ci x (enc_run (lens ! x) (R x)) \<and> recs_ok (lens ! x) (R x)
        \<and> (\<forall>(t, v) \<in> set (at_times 0 (R x)). t < nt))"

definition masked :: "fstReaderContext \<Rightarrow> nat set \<Rightarrow> (nat \<Rightarrow> changes) \<Rightarrow> nat \<Rightarrow> changes" where
  "masked xc S R x = (if x \<in> S \<and> wanted xc x then R x else [])"

lemma load_run_skip:
  assumes "x < 2 ^ 32" and "x < length (ci_table ci)" and "x div 8 < length (process_mask (tr_xc tr))"
    and "ci_table ci ! x = 0 \<or> \<not> wanted (tr_xc tr) x"
  shows "load_run up vc_start packtype ci (of_nat x) tr = Inr tr"
proof -
  have ux: "unat (of_nat x :: u32) = x" by (rule unat_of_nat_32 [OF assms(1)])
  have "wanted (tr_xc tr) x \<longleftrightarrow> process_mask (tr_xc tr) ! (x div 8) AND push_bit (x mod 8) 1 \<noteq> 0"
  proof -
    have "x mod 8 < 8" by simp
    then show ?thesis by (simp add: wanted_def mask_bit_def unat_div_8 unat_and_7 ux bit_iff_and_push_bit_not_eq_0)
  qed
  then show ?thesis using assms(2-4) ux by (auto simp: load_run_def unat_div_8 unat_and_7)
qed

lemma load_runs_rel:
  assumes "load_inv (masked (tr_xc tr) S R) tr" and "distinct is" and "set is \<inter> S = {}"
    and "\<forall>x \<in> set is. x < length (signal_lens (tr_xc tr)) \<and> x div 8 < length (process_mask (tr_xc tr))
      \<and> block_holds up (f_data (xc_f (tr_xc tr))) vc_start packtype ci (signal_lens (tr_xc tr)) (length (tr_tc tr)) R x"
    and "unat (tr_offs tr) + (\<Sum>x \<leftarrow> is. length (enc_run (signal_lens (tr_xc tr) ! x) (R x))) \<le> length (tr_mem tr)"
  shows "\<exists>tr'. load_runs up vc_start packtype ci is tr = Inr tr'
    \<and> load_inv (masked (tr_xc tr) (S \<union> set is) R) tr' \<and> same_file tr tr'"
  using assms
proof (induction "is" arbitrary: S tr)
  case Nil
  then show ?case using same_file_refl by simp
next
  case (Cons x "is")
  let ?xc = "tr_xc tr"
  have L: "length (signal_lens ?xc) < 2 ^ 32 - 1"
    using Cons.prems(1) by (auto simp: load_inv_def trav_rel_def trav_inv_def Let_def)
  have x: "x < length (signal_lens ?xc)" "x div 8 < length (process_mask ?xc)" "x \<notin> S" "x \<notin> set is"
    "block_holds up (f_data (xc_f ?xc)) vc_start packtype ci (signal_lens ?xc) (length (tr_tc tr)) R x"
    using Cons.prems(2,3,4) by auto
  have x32: "x < 2 ^ 32" using x(1) L by simp
  obtain tr1 where 1: "load_run up vc_start packtype ci (of_nat x) tr = Inr tr1"
    "load_inv (masked ?xc (insert x S) R) tr1" "same_file tr tr1"
    "unat (tr_offs tr1) \<le> unat (tr_offs tr) + length (enc_run (signal_lens ?xc ! x) (R x))"
  proof (cases "R x \<noteq> [] \<and> wanted ?xc x")
    case True
    have e: "(masked ?xc S R)(x := R x) = masked ?xc (insert x S) R" using True by (auto simp: masked_def)
    have "masked ?xc S R x = []" using x(3) by (simp add: masked_def)
    from load_run_rel [OF Cons.prems(1) x(1) this, of up vc_start packtype ci "R x"]
    show ?thesis using that True x(2,5) Cons.prems(5) unfolding e block_holds_def by fastforce
  next
    case False
    have "x < length (ci_table ci)" using x(5) by (auto simp: block_holds_def stored_at_def split: if_splits)
    moreover have "ci_table ci ! x = 0 \<or> \<not> wanted ?xc x" using x(5) False by (auto simp: block_holds_def)
    ultimately have "load_run up vc_start packtype ci (of_nat x) tr = Inr tr" using load_run_skip [OF x32 _ x(2)] by blast
    moreover have "masked ?xc (insert x S) R = masked ?xc S R" using False by (auto simp: masked_def)
    ultimately show ?thesis using that Cons.prems(1) same_file_refl by simp
  qed
  note D = same_fileD [OF 1(3)]
  have m: "masked (tr_xc tr1) = masked ?xc" by (intro ext) (simp add: masked_def D(7))
  have "\<exists>tr'. load_runs up vc_start packtype ci is tr1 = Inr tr'
    \<and> load_inv (masked (tr_xc tr1) (insert x S \<union> set is) R) tr' \<and> same_file tr1 tr'"
    using Cons.prems(2-5) x(3,4) 1(2,4) by (intro Cons.IH) (auto simp: m D)
  then show ?case using 1(1) same_file_trans [OF 1(3)] unfolding m by auto
qed


section \<open>The layout of the flush, fetched\<close>

lemma layout_None: "layout xs i H p = (out, cs) \<Longrightarrow> t < length xs \<Longrightarrow> xs ! t = None \<Longrightarrow> cs ! t = 0"
proof (induction xs i H p arbitrary: out cs t rule: layout.induct)
  case (2 xs i H p)
  then show ?case by (cases t) (auto split: prod.splits)
next
  case (3 d h xs i H p)
  then show ?case
    by (cases t) (auto simp: Let_def simp del: fun_upd_apply of_nat_Suc split: prod.splits option.splits)
qed simp

text \<open>
  Sharing goes by the stored bytes alone: a run that is stored as it is must not have the bytes of
  another one that is stored compressed.
\<close>

definition headers_agree :: "(bytes \<times> u32) option list \<Rightarrow> bool" where
  "headers_agree xs \<longleftrightarrow> (\<forall>d h h'. Some (d, h) \<in> set xs \<and> Some (d, h') \<in> set xs \<longrightarrow> h = h')"

lemma layout_stored_at:
  assumes lay: "layout xs 0 (\<lambda>_. None) 1 = (out, cs)" and b: "1 + length out < 2 ^ 31" "length xs < 2 ^ 31"
    and tab: "tables_of cs (of_nat (1 + length out)) ci" and agree: "headers_agree xs"
    and data: "drop vc_start data = pt # out @ tail" "5 \<le> length tail" "vc_start + 1 + length out < 2 ^ 63"
    and x: "x < length xs" "xs ! x = Some (d, h)" and st: "stored_as up packtype run d h"
  shows "stored_at up data vc_start packtype ci x run"
proof -
  have lc: "length cs = length xs" using length_layout [of xs 0 "\<lambda>_. None" 1] lay by simp
  have "located xs 0 (\<lambda>_. None) 1 out ([] @ cs) x d"
    by (rule layout_located [OF lay]) (use b x in \<open>auto simp: owners_ok_def\<close>)
  note loc = this [unfolded located_def option.case append_Nil add_0]
  note nz = conjunct1 [OF loc]
  from conjunct2 [OF loc] obtain s h' where s: "s \<le> x" "xs ! s = Some (d, h')" "owner cs x = s"
    "placed out 1 cs (of_nat (1 + length out)) s d h'" by (elim exE conjE) (rule that)
  have "Some (d, h') \<in> set xs" "Some (d, h) \<in> set xs"
    using nth_mem [of s xs] nth_mem [OF x(1)] s(1,2) x by simp_all
  then have "h' = h" using agree unfolding headers_agree_def by blast
  note s' = s(4) [unfolded this]
  define q where "q = unat (cs ! s)"
  obtain r where q: "own_run (cs ! s)" "1 \<le> q" "drop (q - 1) out = varint h @ d @ r"
    and re: "run_end cs (of_nat (1 + length out)) s = of_nat (q + length (varint h @ d))"
    using s' by (auto simp: placed_def q_def)
  have cq: "cs ! s = of_nat q" by (simp add: q_def)
  have qo: "q - 1 + length (varint h @ d) \<le> length out"
    using arg_cong [OF q(3), of length] length_varint_pos [of h] unfolding length_drop length_append by linarith
  have t: "x < length (ci_table ci)" "x < length (ci_lens ci)" "ci_table ci ! x = ucast (cs ! s)"
    "ci_lens ci ! x = run_end cs (of_nat (1 + length out)) s - cs ! s"
    using tab x(1) lc nz s(3) by (auto simp: tables_of_def)
  have ut: "unat (ci_table ci ! x) = q" by (simp add: t(3) q_def unat_ucast_64)
  have lens: "ci_lens ci ! x = of_nat (length (varint h @ d))" unfolding t(4) re cq by simp
  have "q - 1 + (vc_start + 1) = vc_start + q" using q(2) by simp
  then have "drop (vc_start + q) data = drop (q - 1) (drop (vc_start + 1) data)" by (simp add: add.commute)
  also have "\<dots> = drop (q - 1) (out @ tail)" using drop_record [of vc_start data "[pt]" "out @ tail"] data(1) by simp
  also have "\<dots> = varint h @ d @ r @ tail" using q(3) qo by simp
  finally have "drop (vc_start + unat (ci_table ci ! x)) data = varint h @ d @ r @ tail" by (simp only: ut)
  moreover have "ci_table ci ! x \<noteq> 0" using ut q(2) by auto
  moreover have "vc_start + unat (ci_table ci ! x) < 2 ^ 63" using ut q(2) qo data(3) length_varint_pos [of h] by simp
  moreover have "length (varint h @ d) < 2 ^ 31" using qo b(1) by simp
  ultimately show ?thesis
    using t(1,2) lens st data(2) unfolding stored_at_def by (intro conjI exI [of _ d] exI [of _ h] exI [of _ "r @ tail"]) auto
qed

end
