(* ===== verification/Block_Roundtrip.thy ===== *)
theory Block_Roundtrip
  imports Block_Load
begin

text \<open>
  A value change block from end to end: the runs and the index the flush writes
  (\<open>fstWriterFlushContextPrivate\<close>) give back, in the loops of \<open>fstReaderIterBlocks2\<close>, the history of
  every wanted handle.
\<close>

section \<open>Histories and runs\<close>

text \<open>A history is kept newest first, with time indices that do not decrease.\<close>

fun hist_ok :: "(u32 \<times> bytes) list \<Rightarrow> bool" where
  "hist_ok [] \<longleftrightarrow> True"
| "hist_ok ((t, v) # hs) \<longleftrightarrow> last_idx hs \<le> t \<and> hist_ok hs"

definition shown_of :: "(u32 \<times> bytes) list \<Rightarrow> (nat \<times> bytes) list" where
  "shown_of hist = map (\<lambda>(t, v). (unat t, v)) (rev hist)"

definition sum_from :: "nat \<Rightarrow> changes \<Rightarrow> nat" where
  "sum_from b cs = b + (\<Sum>(d, v) \<leftarrow> cs. unat d)"

lemma at_times_append: "at_times b (cs @ ds) = at_times b cs @ at_times (sum_from b cs) ds"
  by (induction b cs rule: at_times.induct) (auto simp: sum_from_def add.assoc)

lemma at_times_deltas:
  "hist_ok hist \<Longrightarrow> at_times 0 (rev (deltas hist)) = shown_of hist \<and> sum_from 0 (rev (deltas hist)) = unat (last_idx hist)"
proof (induction hist rule: deltas.induct)
  case 1
  then show ?case by (simp add: shown_of_def sum_from_def last_idx_def)
next
  case (2 t v hs)
  have ih: "at_times 0 (rev (deltas hs)) = shown_of hs" "sum_from 0 (rev (deltas hs)) = unat (last_idx hs)"
    using 2 by simp_all
  have le: "last_idx hs \<le> t" using 2(2) by simp
  then have u: "unat (last_idx hs) + unat (t - last_idx hs) = unat t" by (simp add: unat_sub word_le_nat_alt)
  have "at_times 0 (rev (deltas ((t, v) # hs))) = shown_of hs @ at_times (unat (last_idx hs)) [(t - last_idx hs, v)]"
    unfolding deltas_Cons rev.simps at_times_append ih ..
  also have "\<dots> = shown_of ((t, v) # hs)" using u by (simp add: shown_of_def)
  finally have "at_times 0 (rev (deltas ((t, v) # hs))) = shown_of ((t, v) # hs)" .
  moreover have "sum_from 0 (rev (deltas ((t, v) # hs))) = sum_from 0 (rev (deltas hs)) + unat (t - last_idx hs)"
    unfolding deltas_Cons by (simp add: sum_from_def)
  ultimately show ?case using ih(2) u by (simp add: last_idx_def)
qed

lemma deltas_le: "hist_ok hist \<Longrightarrow> (d, v) \<in> set (deltas hist) \<Longrightarrow> \<exists>t. (t, v) \<in> set hist \<and> d \<le> t"
proof (induction hist rule: deltas.induct)
  case (2 t v' hs)
  then have "unat (t - last_idx hs) \<le> unat t" by (simp add: unat_sub word_le_nat_alt)
  then have "t - last_idx hs \<le> t" by (simp add: word_le_nat_alt)
  then show ?case using 2 unfolding deltas_Cons by auto
qed simp

lemma chain_ok_values:
  assumes "chain_ok mem n e offs cs" and "(d, v) \<in> set cs"
  shows "val_ok n v \<and> length v \<le> length mem"
  using assms
proof (induction cs arbitrary: e offs)
  case (Cons c cs)
  obtain d' v' where c: "c = (d', v')" by (cases c)
  obtain prev where p: "val_ok n v'"
    "take (length (le32 prev @ varint d' @ rec_payload n v')) (drop (unat offs) mem) = le32 prev @ varint d' @ rec_payload n v'"
    "chain_ok mem n (unat offs) prev cs"
    using Cons.prems(1) unfolding c chain_ok.simps by blast
  have "le32 prev @ varint d' @ rec_payload n v' \<noteq> []" by (simp add: le32_def)
  from take_drop_append(1) [OF p(2) this]
  have "length (rec_payload n v') \<le> length mem" by simp
  moreover have "length v' \<le> length (rec_payload n v')" by (simp add: rec_payload_def)
  ultimately show ?case using Cons.IH [OF p(3)] Cons.prems(2) p(1) by (auto simp: c)
qed simp

text \<open>Every time index of a history has a place in the time table, and the reader can tell the distances.\<close>

definition hist_fits :: "nat \<Rightarrow> (u32 \<times> bytes) list \<Rightarrow> bool" where
  "hist_fits nt hist \<longleftrightarrow> hist_ok hist \<and> (\<forall>(t, v) \<in> set hist. unat t < nt)"

lemma hist_recs_ok:
  assumes ch: "chain_ok mem n e offs (deltas hist)" and h: "hist_fits nt hist" and b: "nt \<le> 2 ^ 28" "length mem < 2 ^ 30"
    and n: "unat n + 7 < 2 ^ 32"
  shows "recs_ok n (rev (deltas hist))" and "\<forall>(t, v) \<in> set (at_times 0 (rev (deltas hist))). t < nt"
proof -
  have "val_ok n v \<and> delta_ok n d \<and> length v < 2 ^ 30" if dv: "(d, v) \<in> set (deltas hist)" for d v
  proof -
    obtain t where "(t, v) \<in> set hist" "d \<le> t" using deltas_le [OF _ dv] h by (auto simp: hist_fits_def)
    then have "unat d < 2 ^ 28" using h b(1) by (fastforce simp: hist_fits_def word_le_nat_alt)
    then show ?thesis using chain_ok_values [OF ch dv] b(2) by (auto simp: delta_ok_def)
  qed
  then show "recs_ok n (rev (deltas hist))" using n by (auto simp: recs_ok_def)
  show "\<forall>(t, v) \<in> set (at_times 0 (rev (deltas hist))). t < nt"
    using h at_times_deltas [of hist] by (auto simp: hist_fits_def shown_of_def)
qed

lemma layout_cells_le:
  "layout xs i H p = (out, cs) \<Longrightarrow> owners_ok H i \<Longrightarrow> p + length out < 2 ^ 31 \<Longrightarrow> i + length xs < 2 ^ 31
    \<Longrightarrow> v \<in> set cs \<Longrightarrow> own_run v \<Longrightarrow> unat v \<le> p + length out"
proof (induction xs i H p arbitrary: out cs rule: layout.induct)
  case (2 xs i H p)
  then show ?case using owners_ok_mono by (fastforce simp: own_run_def split: prod.splits)
next
  case (3 d h xs i H p)
  show ?case
  proof (cases "H d")
    case (Some j)
    obtain o2 c2 where l: "layout xs (Suc i) H p = (o2, c2)" "out = o2" "cs = - j # c2"
      using 3(3) Some by (auto split: prod.splits)
    have "i < 2 ^ 31" using 3(6) by simp
    then have "v \<noteq> - j" using alias_cell(2) [OF 3(4) _ Some] 3(8) by blast
    then show ?thesis using 3(2) [OF Some l(1) owners_ok_mono [OF 3(4)]] 3(5-8) l(2,3) by auto
  next
    case None
    let ?blk = "varint h @ d"
    obtain o2 c2 where l: "layout xs (Suc i) (H(d \<mapsto> of_nat (Suc i))) (p + length ?blk) = (o2, c2)"
      "out = ?blk @ o2" "cs = of_nat p # c2"
      using 3(3) None by (auto simp: Let_def simp del: fun_upd_apply of_nat_Suc split: prod.splits)
    have i: "Suc i < 2 ^ 31" and up: "unat (of_nat p :: u32) = p"
      using 3(5,6) unat_of_nat_32 [of p] by simp_all
    have "v \<in> set c2 \<Longrightarrow> unat v \<le> p + length ?blk + length o2"
      by (rule 3(1) [OF None refl l(1) owners_ok_upd [OF 3(4) i] _ _ _ 3(8)]) (use 3(5,6) l(2) in simp_all)
    then show ?thesis using 3(7) up l(2,3) by auto
  qed
qed simp

section \<open>The flush and the loops of the reader\<close>

definition items_of :: "packers \<Rightarrow> fstWriterContext \<Rightarrow> (nat \<Rightarrow> (u32 \<times> bytes) list) \<Rightarrow> nat \<Rightarrow> (bytes \<times> u32) option list" where
  "items_of pk xc G m = map (\<lambda>t. item_of pk xc (valpos xc ! (4 * t + 1)) (G t)) [0..<m]"

definition flush_start :: "fstWriterContext \<Rightarrow> flush_state" where
  "flush_start xc = \<lparr>fl_xc = xc, fl_fpos = 1, fl_hash = None, fl_memreq = 0\<rparr>"

text \<open>The flush leaves the layout of the runs, then an index from which the reader finds them.\<close>

lemma flush_runs_index:
  assumes h: "\<forall>t < m. handle_ok xc t (G t)" and w: "valpos_mapped xc" "length (vchg_mem xc) = unat (vchg_siz xc)"
    and m: "0 < m" "m < 2 ^ 30" and e: "at_end (handle xc)" and hm: "hm \<noteq> -1"
    and lay: "layout (items_of pk xc G m) 0 (\<lambda>_. None) 1 = (out, cs)" and b: "1 + length out < 2 ^ 31"
  shows "\<exists>st xc2 ci. flush_handles pk hm [0..<m] (flush_start xc) = Inr st
    \<and> f_data (handle (fl_xc st)) = f_data (handle xc) @ out \<and> at_end (handle (fl_xc st))
    \<and> flush_index [0..<m] 0 0 0 (fl_xc st) = Inr xc2 \<and> at_end (handle xc2)
    \<and> f_data (handle xc2) = f_data (handle xc) @ out @ idx_enc cs 0 0 0
    \<and> chain_index True (of_nat m) (ucast (of_nat (1 + length out) :: u32)) (idx_enc cs 0 0 0) no_tables = Inr (Some ci)
    \<and> tables_of cs (of_nat (1 + length out)) ci \<and> length cs = m"
proof -
  have rel0: "flush_rel hm xc G 0 [] [] (\<lambda>_. None) (flush_start xc)"
    using jdict_ok_empty [OF hm] by (simp add: flush_rel_def flush_start_def jmap_empty fstFwrite_def fwrite_bytes_def)
  have "layout (map (\<lambda>t. item_of pk xc (valpos xc ! (4 * t + 1)) (G t)) [0..<0 + m]) 0 (\<lambda>_. None) (1 + length ([] :: bytes)) = (out, cs)"
    using lay by (simp add: items_of_def)
  from flush_handles_rel [OF rel0 _ w this] h obtain st H where
    st: "flush_handles pk hm [0..<m] (flush_start xc) = Inr st" "flush_rel hm xc G m out cs H st" by auto
  have f: "handle (fl_xc st) = fstFwrite out (handle xc)" "valpos_mapped (fl_xc st)" "length cs = m"
    "length (valpos (fl_xc st)) = length (valpos xc)" "\<forall>t < m. valpos (fl_xc st) ! (4 * t + 2) = cs ! t"
  proof -
    have x: "fl_xc st = xc\<lparr>handle := fstFwrite out (handle xc), curval := curval (fl_xc st), valpos := valpos (fl_xc st)\<rparr>"
      using st(2) unfolding flush_rel_def by blast
    show "handle (fl_xc st) = fstFwrite out (handle xc)" by (subst x) simp
    show "valpos_mapped (fl_xc st)" by (subst x) (simp add: w)
    show "length cs = m" "length (valpos (fl_xc st)) = length (valpos xc)" "\<forall>t < m. valpos (fl_xc st) ! (4 * t + 2) = cs ! t"
      using st(2) unfolding flush_rel_def by blast+
  qed
  have li: "length (items_of pk xc G m) = m" by (simp add: items_of_def)
  have ow: "owners_ok (\<lambda>_. None) 0" by (simp add: owners_ok_def)
  have cells: "run_cells [0..<m] (fl_xc st) = cs"
    using f(3,5) by (intro nth_equalityI) (simp_all add: run_cells_def)
  have room: "cells_room [0..<m] (fl_xc st)"
    using h f(2,4) by (auto simp: cells_room_def handle_ok_def)
  have ok: "cells_ok [] 0 cs"
    by (rule layout_cells_ok [OF lay ow]) (use b m li in simp_all)
  have vl: "unat (of_nat (1 + length out) :: u32) = 1 + length out" by (rule unat_of_nat_32) (use b in simp)
  have na: "\<not> is_alias (of_nat (1 + length out))" unfolding is_alias_def vl using b by simp
  have le: "\<forall>v \<in> set cs. own_run v \<longrightarrow> v \<le> of_nat (1 + length out)"
  proof (intro ballI impI)
    fix v assume "v \<in> set cs" "own_run v"
    from layout_cells_le [OF lay ow b _ this] have "unat v \<le> 1 + length out" using m li by simp
    then show "v \<le> of_nat (1 + length out)" unfolding word_le_nat_alt vl .
  qed
  have z: "0 + length [0..<m] < 2 ^ 30" using m by simp
  define xc2 where "xc2 = (fl_xc st)\<lparr>handle := fstFwrite (idx_enc cs 0 0 0) (handle (fl_xc st)),
    valpos := cleared [0..<m] (valpos (fl_xc st))\<rparr>"
  have idx: "flush_index [0..<m] 0 0 0 (fl_xc st) = Inr xc2"
    using flush_index_eq [OF room z] unfolding cells xc2_def .
  have um: "unat (of_nat m :: u64) = m" by (rule of_nat_inverse [OF refl]) (use m in simp)
  have "cs \<noteq> []" "length cs = unat (of_nat m :: u64)" "length cs < 2 ^ 30" using f(3) m um by auto
  from chain_index_rel [OF ok this na le] obtain ci where
    ci: "chain_index True (of_nat m) (ucast (of_nat (1 + length out) :: u32)) (idx_enc cs 0 0 0) no_tables = Inr (Some ci)"
    "tables_of cs (of_nat (1 + length out)) ci" by blast
  have e1: "at_end (handle (fl_xc st))" "f_data (handle (fl_xc st)) = f_data (handle xc) @ out"
    unfolding f(1) using fstFwrite_at_end [OF e] by simp_all
  then have e2: "at_end (handle xc2)" "f_data (handle xc2) = f_data (handle xc) @ out @ idx_enc cs 0 0 0"
    using fstFwrite_at_end [OF e1(1)] by (simp_all add: xc2_def)
  show ?thesis using st(1) e1 idx e2 ci f(3) by blast
qed


text \<open>The reader before a block: empty queues, nothing left of an earlier block.\<close>

definition trav_fresh :: "nat \<Rightarrow> trav \<Rightarrow> bool" where
  "trav_fresh nt tr \<longleftrightarrow>
     (let L = length (signal_lens (tr_xc tr))
      in L < 2 ^ 32 - 1 \<and> (\<forall>x < L. unat (signal_lens (tr_xc tr) ! x) + 7 < 2 ^ 32)
         \<and> length (tr_scatter tr) = L \<and> length (tr_head tr) = L \<and> tr_left tr = replicate L 0
         \<and> tr_tc tr = replicate nt 0 \<and> nt < 2 ^ 32 \<and> tr_offs tr = 0 \<and> length (tr_mem tr) < 2 ^ 32)"

lemma trav_fresh_inv: "trav_fresh nt tr \<Longrightarrow> load_inv (\<lambda>_. []) tr"
  by (auto simp: trav_fresh_def load_inv_def trav_rel_def trav_inv_def Let_def run_at_def recs_ok_def queues_fresh)

definition reader_ready :: "sinks \<Rightarrow> fstWriterContext \<Rightarrow> nat \<Rightarrow> fstReaderContext \<Rightarrow> bool" where
  "reader_ready sk xw m xc \<longleftrightarrow> ctx_ok sk xc \<and> writex_ok xc \<and> plain_range xc
     \<and> m \<le> length (signal_lens xc) \<and> m \<le> 8 * length (process_mask xc)
     \<and> (\<forall>t < m. signal_lens xc ! t = valpos xw ! (4 * t + 1))"

text \<open>Fetching and emptying, over a file that holds the runs and tables that name them.\<close>

lemma block_delivers:
  assumes fresh: "trav_fresh (length tt) tr" and rd: "reader_ready sk xw m (tr_xc tr)"
    and b: "\<forall>x < m. block_holds up (f_data (xc_f (tr_xc tr))) vc_start packtype ci (signal_lens (tr_xc tr)) (length tt) R x"
    and mem: "(\<Sum>x \<leftarrow> [0..<m]. length (enc_run (signal_lens (tr_xc tr) ! x) (R x))) \<le> length (tr_mem tr)"
  shows "\<exists>tr1 log vs' tr'. load_runs up vc_start packtype ci [0..<m] tr = Inr tr1
    \<and> trav_times sk tt [0..<length tt] vs tr1 = Some (Inr (vs', tr')) \<and> sorted (map fst log)
    \<and> (\<forall>x. log_for x log = (if x < m \<and> wanted (tr_xc tr) x then at_times 0 (R x) else []))
    \<and> tr_events tr' = tr_events tr @ log_events sk (tr_xc tr) tt log
    \<and> writex_out (tr_xc tr') = writex_out (tr_xc tr) @ vcd_text sk (tr_xc tr) tt [0..<length tt] vs log"
proof -
  have tc: "length (tr_tc tr) = length tt" and offs: "tr_offs tr = 0" using fresh by (auto simp: trav_fresh_def Let_def)
  have "masked (tr_xc tr) {} R = (\<lambda>_. [])" by (auto simp: masked_def)
  then have "load_inv (masked (tr_xc tr) {} R) tr" using trav_fresh_inv [OF fresh] by simp
  moreover have "\<forall>x \<in> set [0..<m]. x < length (signal_lens (tr_xc tr)) \<and> x div 8 < length (process_mask (tr_xc tr))
      \<and> block_holds up (f_data (xc_f (tr_xc tr))) vc_start packtype ci (signal_lens (tr_xc tr)) (length (tr_tc tr)) R x"
    using rd b tc by (auto simp: reader_ready_def)
  ultimately obtain tr1 where 1: "load_runs up vc_start packtype ci [0..<m] tr = Inr tr1"
    "load_inv (masked (tr_xc tr) ({} \<union> set [0..<m]) R) tr1" "same_file tr tr1"
    using load_runs_rel [of tr "{}" R "[0..<m]" up vc_start packtype ci] mem offs by auto
  obtain f where xc1: "tr_xc tr1 = (tr_xc tr)\<lparr>xc_f := f\<rparr>" using 1(3) by (auto simp: same_file_def)
  have k: "ctx_ok sk (tr_xc tr1)" "writex_ok (tr_xc tr1)" "plain_range (tr_xc tr1)"
    "writex_out (tr_xc tr1) = writex_out (tr_xc tr)"
    using rd unfolding xc1 by (simp_all add: reader_ready_def ctx_ok_def writex_ok_def plain_range_def writex_out_def)
  have sh: "show_events sk (tr_xc tr1) = show_events sk (tr_xc tr)" "show_text sk (tr_xc tr1) = show_text sk (tr_xc tr)"
  proof -
    have c: "signal_lens (tr_xc tr1) = signal_lens (tr_xc tr)" "signal_typs (tr_xc tr1) = signal_typs (tr_xc tr)"
      "longest_signal_value_len (tr_xc tr1) = longest_signal_value_len (tr_xc tr)"
      "native_doubles_for_cb (tr_xc tr1) = native_doubles_for_cb (tr_xc tr)" "double_of (tr_xc tr1) = double_of (tr_xc tr)"
      unfolding xc1 by (simp_all add: fun_eq_iff double_of_def)
    show "show_events sk (tr_xc tr1) = show_events sk (tr_xc tr)" "show_text sk (tr_xc tr1) = show_text sk (tr_xc tr)"
      by (intro ext, simp only: show_events_def show_text_def c)+
  qed
  then have lg: "log_events sk (tr_xc tr1) = log_events sk (tr_xc tr)" "log_text sk (tr_xc tr1) = log_text sk (tr_xc tr)"
    by (intro ext, simp only: log_events_def log_text_def)+
  then have vt: "vcd_text sk (tr_xc tr1) tt is w l = vcd_text sk (tr_xc tr) tt is w l" for "is" w l
    by (induction "is" arbitrary: w) (simp_all only: vcd_text.simps)
  have rel: "trav_rel (\<lambda>_. 0) (masked (tr_xc tr) {0..<m} R) tr1" using 1(2) by (simp add: load_inv_def)
  have tc1: "0 + length tt = length (tr_tc tr1)" "length tt = length (tr_tc tr1)"
    using same_fileD(5) [OF 1(3)] tc by simp_all
  obtain log vs' tr' where 2: "trav_times sk tt [0..<0 + length tt] vs tr1 = Some (Inr (vs', tr'))" "sorted (map fst log)"
    "\<forall>x. at_times 0 (masked (tr_xc tr) {0..<m} R x) = log_for x log"
    "hands (log_events sk (tr_xc tr1) tt log) (vcd_text sk (tr_xc tr1) tt [0..<0 + length tt] vs log) tr1 tr'"
    using trav_times_rel [OF rel k(2,1,3) tc1, of vs] by auto
  have "log_for x log = (if x < m \<and> wanted (tr_xc tr) x then at_times 0 (R x) else [])" for x
    using 2(3) [rule_format, of x, symmetric] by (simp add: masked_def)
  then show ?thesis
    using 1(1) 2(1,2,4) k(4) same_fileD(6) [OF 1(3)] unfolding hands_def lg vt by fastforce
qed

lemma layout_block_holds:
  assumes h: "\<forall>t < m. handle_ok xw t (G t)" and fits: "\<forall>t < m. hist_fits nt (G t)"
    and nt: "nt \<le> 2 ^ 28" "length (vchg_mem xw) < 2 ^ 30"
    and lay: "layout (items_of pk xw G m) 0 (\<lambda>_. None) 1 = (out, cs)" and b: "1 + length out < 2 ^ 31" "m < 2 ^ 31"
    and tab: "tables_of cs (of_nat (1 + length out)) ci" and agree: "headers_agree (items_of pk xw G m)"
    and data: "drop vc_start data = pt # out @ tail" "5 \<le> length tail" "vc_start + 1 + length out < 2 ^ 63"
    and st: "\<forall>t < m. G t \<noteq> [] \<longrightarrow> (case pack_chain pk xw (run_of (valpos xw ! (4 * t + 1)) (G t)) of (d, hn) \<Rightarrow>
      stored_as up packtype (run_of (valpos xw ! (4 * t + 1)) (G t)) d hn)"
    and lens: "\<forall>t < m. lens ! t = valpos xw ! (4 * t + 1)" and x: "x < m"
  shows "block_holds up data vc_start packtype ci lens nt (\<lambda>t. rev (deltas (G t))) x"
proof -
  let ?n = "valpos xw ! (4 * x + 1)" and ?xs = "items_of pk xw G m"
  have xs: "length ?xs = m" "?xs ! x = item_of pk xw ?n (G x)" using x by (simp_all add: items_of_def)
  have lc: "length cs = m" using length_layout [of ?xs 0 "\<lambda>_. None" 1] lay xs(1) by simp
  have ho: "chain_ok (vchg_mem xw) ?n (length (vchg_mem xw)) (valpos xw ! (4 * x + 2)) (deltas (G x))" "unat ?n + 7 < 2 ^ 32"
    using h x by (auto simp: handle_ok_def)
  have hf: "hist_fits nt (G x)" using fits x by simp
  show ?thesis
  proof (cases "G x = []")
    case True
    then have "?xs ! x = None" using xs(2) by (simp add: item_of_def)
    then have "cs ! x = 0" using layout_None [OF lay] x xs(1) by simp
    then show ?thesis using True tab x lc by (simp add: block_holds_def tables_of_def)
  next
    case False
    obtain d hn where pc: "pack_chain pk xw (run_of ?n (G x)) = (d, hn)" by fastforce
    have "stored_at up data vc_start packtype ci x (run_of ?n (G x))"
      by (rule layout_stored_at [OF lay b(1) _ tab agree data, of x d hn])
        (use b x xs st pc False in \<open>auto simp: item_of_def\<close>)
    then show ?thesis
      using False hist_recs_ok [OF ho(1) hf nt ho(2)] lens x by (simp add: block_holds_def run_of_def)
  qed
qed


section \<open>Properties\<close>

definition writer_ready :: "nat \<Rightarrow> fstWriterContext \<Rightarrow> nat \<Rightarrow> (nat \<Rightarrow> (u32 \<times> bytes) list) \<Rightarrow> bool" where
  "writer_ready nt xw m G \<longleftrightarrow>
     (\<forall>t < m. handle_ok xw t (G t) \<and> hist_fits nt (G t))
     \<and> valpos_mapped xw \<and> length (vchg_mem xw) = unat (vchg_siz xw) \<and> length (vchg_mem xw) < 2 ^ 30
     \<and> 0 < m \<and> m < 2 ^ 30 \<and> nt \<le> 2 ^ 28 \<and> at_end (handle xw)"

definition packs_back :: "unpackers \<Rightarrow> int \<Rightarrow> packers \<Rightarrow> fstWriterContext \<Rightarrow> nat \<Rightarrow> (nat \<Rightarrow> (u32 \<times> bytes) list) \<Rightarrow> bool" where
  "packs_back up packtype pk xw m G \<longleftrightarrow>
     headers_agree (items_of pk xw G m)
     \<and> (\<forall>t < m. G t \<noteq> [] \<longrightarrow> (case pack_chain pk xw (run_of (valpos xw ! (4 * t + 1)) (G t)) of (d, hn) \<Rightarrow>
          stored_as up packtype (run_of (valpos xw ! (4 * t + 1)) (G t)) d hn))"

definition block_runs :: "packers \<Rightarrow> fstWriterContext \<Rightarrow> (nat \<Rightarrow> (u32 \<times> bytes) list) \<Rightarrow> nat \<Rightarrow> bytes" where
  "block_runs pk xw G m = fst (layout (items_of pk xw G m) 0 (\<lambda>_. None) 1)"

definition block_index :: "packers \<Rightarrow> fstWriterContext \<Rightarrow> (nat \<Rightarrow> (u32 \<times> bytes) list) \<Rightarrow> nat \<Rightarrow> bytes" where
  "block_index pk xw G m = idx_enc (snd (layout (items_of pk xw G m) 0 (\<lambda>_. None) 1)) 0 0 0"

text \<open>
  C2. A block is read as it was written. The writer's chains hold the histories \<open>G\<close> of its
  handles. Its loops over the handles and over the index put down the runs and the index of the
  block; from a file that holds them, whatever comes before and after, the reader's index pass
  returns tables, its loading loop fetches the runs, and its loop over the time indices ends, having
  handed on, in the order of the time indices, for each wanted handle exactly its history in its
  order, and nothing for the others. The calls made and the text written are those of that log.
  The decompressor is taken to undo the compressor, and no run stored as it is may have the bytes of
  another one stored compressed.
\<close>

theorem block_roundtrip:
  assumes "writer_ready (length tt) xw m G" and "hm \<noteq> -1" and "packs_back up (uint pt) pk xw m G"
    and "1 + length (block_runs pk xw G m) < 2 ^ 31" and "f_data (handle xw) = pre @ [pt]" and "length pre < 2 ^ 62"
    and "trav_fresh (length tt) tr" and "reader_ready sk xw m (tr_xc tr)"
    and "f_data (xc_f (tr_xc tr)) = pre @ [pt] @ block_runs pk xw G m @ block_index pk xw G m @ tail" and "5 \<le> length tail"
    and "(\<Sum>t \<leftarrow> [0..<m]. length (run_of (valpos xw ! (4 * t + 1)) (G t))) \<le> length (tr_mem tr)"
  shows "\<exists>st xw2 ci tr1 log vs' tr'. flush_handles pk hm [0..<m] (flush_start xw) = Inr st
    \<and> flush_index [0..<m] 0 0 0 (fl_xc st) = Inr xw2
    \<and> f_data (handle xw2) = pre @ [pt] @ block_runs pk xw G m @ block_index pk xw G m
    \<and> chain_index True (of_nat m) (ucast (of_nat (1 + length (block_runs pk xw G m)) :: u32))
        (block_index pk xw G m) no_tables = Inr (Some ci)
    \<and> load_runs up (length pre) (uint pt) ci [0..<m] tr = Inr tr1
    \<and> trav_times sk tt [0..<length tt] vs tr1 = Some (Inr (vs', tr')) \<and> sorted (map fst log)
    \<and> (\<forall>x. log_for x log = (if x < m \<and> wanted (tr_xc tr) x then shown_of (G x) else []))
    \<and> tr_events tr' = tr_events tr @ log_events sk (tr_xc tr) tt log
    \<and> writex_out (tr_xc tr') = writex_out (tr_xc tr) @ vcd_text sk (tr_xc tr) tt [0..<length tt] vs log"
proof -
  obtain out cs where lay: "layout (items_of pk xw G m) 0 (\<lambda>_. None) 1 = (out, cs)" by fastforce
  then have br: "block_runs pk xw G m = out" "block_index pk xw G m = idx_enc cs 0 0 0"
    by (simp_all add: block_runs_def block_index_def)
  have w: "\<forall>t < m. handle_ok xw t (G t)" "\<forall>t < m. hist_fits (length tt) (G t)" "valpos_mapped xw"
    "length (vchg_mem xw) = unat (vchg_siz xw)" "length (vchg_mem xw) < 2 ^ 30" "0 < m" "m < 2 ^ 30"
    "length tt \<le> 2 ^ 28" "at_end (handle xw)"
    using assms(1) by (auto simp: writer_ready_def)
  have b: "1 + length out < 2 ^ 31" using assms(4) by (simp add: br)
  have b': "length pre + 1 + length out < 2 ^ 63" "m < 2 ^ 31" using b assms(6) w(7) by simp_all
  obtain st xw2 ci where 1: "flush_handles pk hm [0..<m] (flush_start xw) = Inr st"
    "flush_index [0..<m] 0 0 0 (fl_xc st) = Inr xw2" "f_data (handle xw2) = f_data (handle xw) @ out @ idx_enc cs 0 0 0"
    "chain_index True (of_nat m) (ucast (of_nat (1 + length out) :: u32)) (idx_enc cs 0 0 0) no_tables = Inr (Some ci)"
    "tables_of cs (of_nat (1 + length out)) ci"
    using flush_runs_index [OF w(1,3,4,6,7,9) assms(2) lay b] by blast
  let ?R = "\<lambda>t. rev (deltas (G t))" and ?data = "f_data (xc_f (tr_xc tr))"
  have dr: "drop (length pre) ?data = pt # out @ idx_enc cs 0 0 0 @ tail" using assms(9) by (simp add: br)
  have tl: "5 \<le> length (idx_enc cs 0 0 0 @ tail)" using assms(10) by simp
  have lens: "\<forall>t < m. signal_lens (tr_xc tr) ! t = valpos xw ! (4 * t + 1)" using assms(8) by (simp add: reader_ready_def)
  note pk = conjunct1 [OF assms(3) [unfolded packs_back_def]] conjunct2 [OF assms(3) [unfolded packs_back_def]]
  have bh: "\<forall>x < m. block_holds up ?data (length pre) (uint pt) ci (signal_lens (tr_xc tr)) (length tt) ?R x"
    by (intro allI impI layout_block_holds [OF w(1,2,8,5) lay b b'(2) 1(5) pk(1) dr tl b'(1) pk(2) lens])
  have "(\<Sum>x \<leftarrow> [0..<m]. length (enc_run (signal_lens (tr_xc tr) ! x) (?R x)))
    = (\<Sum>t \<leftarrow> [0..<m]. length (run_of (valpos xw ! (4 * t + 1)) (G t)))"
    using lens by (intro arg_cong [of _ _ sum_list]) (simp add: run_of_def)
  with assms(11) have "(\<Sum>x \<leftarrow> [0..<m]. length (enc_run (signal_lens (tr_xc tr) ! x) (?R x))) \<le> length (tr_mem tr)" by simp
  from block_delivers [OF assms(7,8) bh this, of vs] obtain tr1 log vs' tr' where
    2: "load_runs up (length pre) (uint pt) ci [0..<m] tr = Inr tr1"
    "trav_times sk tt [0..<length tt] vs tr1 = Some (Inr (vs', tr'))" "sorted (map fst log)"
    "\<forall>x. log_for x log = (if x < m \<and> wanted (tr_xc tr) x then at_times 0 (?R x) else [])"
    "tr_events tr' = tr_events tr @ log_events sk (tr_xc tr) tt log"
    "writex_out (tr_xc tr') = writex_out (tr_xc tr) @ vcd_text sk (tr_xc tr) tt [0..<length tt] vs log" by blast
  have f2: "f_data (handle xw2) = pre @ [pt] @ out @ idx_enc cs 0 0 0" using 1(3) assms(5) by simp
  have lf: "\<forall>x. log_for x log = (if x < m \<and> wanted (tr_xc tr) x then shown_of (G x) else [])"
  proof
    fix x
    have "x < m \<Longrightarrow> at_times 0 (?R x) = shown_of (G x)" using w(2) at_times_deltas by (simp add: hist_fits_def)
    then show "log_for x log = (if x < m \<and> wanted (tr_xc tr) x then shown_of (G x) else [])" using 2(4) by simp
  qed
  show ?thesis
    unfolding br by (intro exI conjI) (rule 1(1) 1(2) f2 1(4) 2(1) 2(2) 2(3) lf 2(5) 2(6))+
qed


text \<open>Two bits that change at the first time index to the same value, and so share their run.\<close>

definition demo_block_writer :: fstWriterContext where
  "demo_block_writer = writer_zero\<lparr>vchg_mem := [33, 0, 0, 0, 0, 0, 49, 0, 0, 0, 0, 0, 49], vchg_siz := 13,
     valpos := [0, 1, 1, 0, 1, 1, 7, 0], valpos_mapped := True, curval := [120, 120], curval_mapped := True,
     maxhandle := 2, handle := \<lparr>f_data = [90], f_pos = 1, f_eof = False\<rparr>\<rparr>"

definition demo_block_reader :: fstReaderContext where
  "demo_block_reader = reader_zero\<lparr>signal_lens := [1, 1], signal_typs := [16, 16], process_mask := [3],
     longest_signal_value_len := 1, temp_signal_value_buf := [0, 0],
     xc_f := \<lparr>f_data = [90, 0, 2, 3, 127, 0, 0, 0, 0, 0, 0, 0, 2], f_pos = 0, f_eof = False\<rparr>\<rparr>"

definition demo_trav :: trav where
  "demo_trav = \<lparr>tr_xc = demo_block_reader, tr_mem = [0, 0], tr_offs = 0, tr_mc = [], tr_scatter = [0, 0],
     tr_head = [0, 0], tr_left = [0, 0], tr_tc = [0], tr_events = []\<rparr>"

abbreviation (input) demo_hist :: "nat \<Rightarrow> (u32 \<times> bytes) list" where "demo_hist \<equiv> \<lambda>_. [(0, [49])]"

lemma demo_writer_ready: "writer_ready (length [7 :: u64]) demo_block_writer 2 demo_hist"
proof -
  have "varint (0 :: u32) = [0]" by (simp add: varint_unfold)
  then have h: "handle_ok demo_block_writer t (demo_hist t)" if "t < 2" for t
    using that by (cases t) (auto simp: handle_ok_def demo_block_writer_def rec_payload_def val_ok_def le32_def less_Suc_eq)
  then show ?thesis
    by (simp add: writer_ready_def hist_fits_def last_idx_def demo_block_writer_def writer_zero_def at_end_def)
qed

lemma demo_items: "items_of plain_packers demo_block_writer demo_hist 2 = [Some ([2], 0), Some ([2], 0)]"
proof -
  have "[0..<2] = [0, 1 :: nat]" by (simp add: upt_rec)
  moreover have "run_of 1 [(0, [49])] = [2]" by code_simp
  ultimately show ?thesis
    by (simp add: items_of_def item_of_def demo_block_writer_def pack_chain_def)
qed

lemma demo_layout:
  "block_runs plain_packers demo_block_writer demo_hist 2 = [0, 2]"
  "block_index plain_packers demo_block_writer demo_hist 2 = idx_enc [1, -1] 0 0 0"
  by (simp_all add: block_runs_def block_index_def demo_items varint_unfold)

lemma demo_packs_back: "packs_back plain_unpackers (uint (90 :: u8)) plain_packers demo_block_writer 2 demo_hist"
proof -
  have "run_of 1 [(0, [49])] = [2]" by code_simp
  moreover have "valpos demo_block_writer = [0, 1, 1, 0, 1, 1, 7, 0]" by (simp add: demo_block_writer_def)
  ultimately show ?thesis
    by (auto simp: packs_back_def demo_items headers_agree_def pack_chain_def stored_as_def less_2_cases_iff)
qed

lemma block_roundtrip_witness:
  "\<exists>st xw2 ci tr1 log vs' tr'. flush_handles plain_packers 7 [0..<2] (flush_start demo_block_writer) = Inr st
    \<and> flush_index [0..<2] 0 0 0 (fl_xc st) = Inr xw2
    \<and> load_runs plain_unpackers 0 90 ci [0..<2] demo_trav = Inr tr1
    \<and> trav_times plain_sinks [7] [0..<1] (\<lparr>previous_time = -1, cur_blackout = 0, dumpvars_state = 0\<rparr>) tr1 = Some (Inr (vs', tr'))
    \<and> log_for 0 log = [(0, [49])] \<and> log_for 1 log = [(0, [49])]
    \<and> tr_events tr' = log_events plain_sinks demo_block_reader [7] log"
proof -
  let ?vs = "\<lparr>previous_time = -1, cur_blackout = 0, dumpvars_state = 0\<rparr>"
  have f: "f_data (handle demo_block_writer) = [] @ [90]" by (simp add: demo_block_writer_def)
  have fr: "trav_fresh (length [7 :: u64]) demo_trav"
    by (auto simp: trav_fresh_def demo_trav_def demo_block_reader_def less_Suc_eq)
  have rd: "reader_ready plain_sinks demo_block_writer 2 (tr_xc demo_trav)"
  proof -
    have "ctx_ok plain_sinks demo_block_reader"
      by (auto simp: demo_block_reader_def plain_sinks_def ctx_ok_def reader_zero_def less_Suc_eq)
    moreover have "writex_ok demo_block_reader" "plain_range demo_block_reader"
      by (simp_all add: demo_block_reader_def writex_ok_def plain_range_def reader_zero_def FST_WRITEX_MAX_def)
    moreover have "\<forall>t < 2. signal_lens demo_block_reader ! t = valpos demo_block_writer ! (4 * t + 1)"
      by (auto simp: demo_block_reader_def demo_block_writer_def less_2_cases_iff)
    moreover have "2 \<le> length (signal_lens demo_block_reader)" "2 \<le> 8 * length (process_mask demo_block_reader)"
      by (simp_all add: demo_block_reader_def)
    ultimately show ?thesis by (simp add: reader_ready_def demo_trav_def)
  qed
  have ix: "idx_enc [1, -1] 0 0 0 = [3, 127]" by code_simp
  have d: "f_data (xc_f (tr_xc demo_trav)) = [] @ [90] @ block_runs plain_packers demo_block_writer demo_hist 2
      @ block_index plain_packers demo_block_writer demo_hist 2 @ [0, 0, 0, 0, 0, 0, 0, 2]"
    unfolding demo_layout ix by (simp add: demo_trav_def demo_block_reader_def)
  have r: "run_of 1 [(0, [49])] = [2]" by code_simp
  have up: "[0..<2] = [0, 1 :: nat]" by (simp add: upt_rec)
  have sm: "(\<Sum>t \<leftarrow> [0..<2]. length (run_of (valpos demo_block_writer ! (4 * t + 1)) (demo_hist t))) \<le> length (tr_mem demo_trav)"
    by (simp add: up demo_block_writer_def r demo_trav_def)
  have b: "1 + length (block_runs plain_packers demo_block_writer demo_hist 2) < 2 ^ 31" by (simp add: demo_layout)
  have wn: "wanted (tr_xc demo_trav) 0" "wanted (tr_xc demo_trav) 1"
    by (simp_all add: demo_trav_def demo_block_reader_def wanted_def mask_bit_def unat_div_8 unat_and_7)
  have ev: "tr_events demo_trav = []" "tr_xc demo_trav = demo_block_reader" by (simp_all add: demo_trav_def)
  have sh: "shown_of [(0, [49])] = [(0, [49])]" by (simp add: shown_of_def)
  have "(7 :: u32) \<noteq> -1" by simp
  from block_roundtrip [OF demo_writer_ready this demo_packs_back b f _ fr rd d _ sm, of ?vs]
  obtain st xw2 ci tr1 log vs' tr' where c:
    "flush_handles plain_packers 7 [0..<2] (flush_start demo_block_writer) = Inr st"
    "flush_index [0..<2] 0 0 0 (fl_xc st) = Inr xw2"
    "load_runs plain_unpackers (length ([] :: bytes)) (uint (90 :: u8)) ci [0..<2] demo_trav = Inr tr1"
    "trav_times plain_sinks [7] [0..<length [7 :: u64]] ?vs tr1 = Some (Inr (vs', tr'))"
    "\<forall>x. log_for x log = (if x < 2 \<and> wanted (tr_xc demo_trav) x then shown_of (demo_hist x) else [])"
    "tr_events tr' = tr_events demo_trav @ log_events plain_sinks (tr_xc demo_trav) [7] log" by auto
  have e: "length ([] :: bytes) = 0" "uint (90 :: u8) = 90" "length [7 :: u64] = 1" by simp_all
  have l: "log_for 0 log = [(0, [49])]" "log_for 1 log = [(0, [49])]" using c(5) wn sh by simp_all
  show ?thesis
    by (intro exI conjI) (rule c(1) c(2) c(3) [unfolded e] c(4) [unfolded e] l c(6) [unfolded ev append_Nil])+
qed

end
