(* ===== verification/FastLZ.thy ===== *)
theory FastLZ
  imports Prelude
begin

text \<open>
  \<open>fastlz.c\<close>: the compressor and the decompressor, at their two levels, with the choice of the level.
  The source includes itself twice with \<open>FASTLZ_LEVEL\<close> 1 and 2; here the level is an argument. Pointers
  into the input are offsets, the output is the list of the bytes behind \<open>output\<close> so far, and every
  read of the input or of the output is checked against what is there. Lengths are \<open>int\<close> in the source
  and stay below \<open>2 ^ 31\<close>; counters that could wrap are machine words.

  \<open>FastLZ_Roundtrip\<close> gives the meaning of a stream as a list of tokens and relates both routines to it.
\<close>

section \<open>Constants\<close>

definition MAX_COPY :: nat where "MAX_COPY = 32"
definition MAX_LEN :: nat where "MAX_LEN = 264"
definition MAX_DISTANCE :: "nat \<Rightarrow> nat" where "MAX_DISTANCE level = (if level = 1 then 8192 else 8191)"
definition MAX_FARDISTANCE :: nat where "MAX_FARDISTANCE = 65535 + 8191 - 1"
definition HASH_SIZE :: nat where "HASH_SIZE = 8192"

section \<open>The compressor\<close>

definition FASTLZ_READU16 :: "bytes \<Rightarrow> nat \<Rightarrow> u32 outcome" where
  "FASTLZ_READU16 s p =
     andthen (load s p) (\<lambda>a. andthen (load s (p + 1)) (\<lambda>b. Inr (ucast a OR push_bit 8 (ucast b))))"

definition HASH_FUNCTION :: "bytes \<Rightarrow> nat \<Rightarrow> nat outcome" where
  "HASH_FUNCTION s p =
     andthen (FASTLZ_READU16 s p) (\<lambda>v. andthen (FASTLZ_READU16 s (p + 1)) (\<lambda>w.
       Inr (unat ((v XOR (w XOR drop_bit 3 v)) AND 8191))))"

text \<open>\<open>*ref++ == *ip++\<close>, so many times, up to the first difference.\<close>

primrec flz_same :: "bytes \<Rightarrow> nat \<Rightarrow> nat \<Rightarrow> nat \<Rightarrow> bool outcome" where
  "flz_same s 0 ref ip = Inr True"
| "flz_same s (Suc n) ref ip =
     andthen (load s ref) (\<lambda>a. andthen (load s ip) (\<lambda>b.
       if a \<noteq> b then Inr False else flz_same s n (ref + 1) (ip + 1)))"

text \<open>
  A match for the bytes at \<open>anchor\<close>: its distance and how many bytes are known to agree. A run is
  looked for at level 2 only, and is found before the table is looked at.
\<close>

definition flz_run :: "bytes \<Rightarrow> nat \<Rightarrow> bool outcome" where
  "flz_run s ip =
     andthen (load s ip) (\<lambda>a. andthen (load s (ip - 1)) (\<lambda>b.
       if a \<noteq> b then Inr False
       else andthen (FASTLZ_READU16 s (ip - 1)) (\<lambda>v. andthen (FASTLZ_READU16 s (ip + 1)) (\<lambda>w. Inr (v = w)))))"

definition flz_far :: "nat \<Rightarrow> nat" where
  "flz_far level = (if level = 1 then MAX_DISTANCE 1 else MAX_FARDISTANCE)"

definition flz_find ::
    "nat \<Rightarrow> bytes \<Rightarrow> nat \<Rightarrow> nat list \<Rightarrow> ((nat \<times> nat) option \<times> nat list) outcome" where
  "flz_find level s anchor htab =
     andthen (if level = 2 then flz_run s anchor else Inr False) (\<lambda>run.
       if run then Inr (Some (1, 3), htab)
       else andthen (HASH_FUNCTION s anchor) (\<lambda>hval. andthen (load htab hval) (\<lambda>ref.
            let distance = anchor - ref; htab = htab[hval := anchor]
            in if distance = 0 \<or> distance \<ge> flz_far level then Inr (None, htab)
               else andthen (flz_same s 3 ref anchor) (\<lambda>same.
                    if \<not> same then Inr (None, htab)
                    else if level = 2 \<and> distance \<ge> MAX_DISTANCE level
                    then andthen (flz_same s 2 (ref + 3) (anchor + 3)) (\<lambda>same.
                         Inr (if same then Some (distance, 5) else None, htab))
                    else Inr (Some (distance, 3), htab)))))"

text \<open>How far the match goes: where \<open>ip\<close> stands when the comparison stops.\<close>

function flz_run_end :: "bytes \<Rightarrow> u8 \<Rightarrow> nat \<Rightarrow> nat \<Rightarrow> nat \<Rightarrow> nat outcome" where
  "flz_run_end s x ip_bound ref ip =
     (if ip < ip_bound
      then andthen (load s ref) (\<lambda>a. if a \<noteq> x then Inr ip else flz_run_end s x ip_bound (ref + 1) (ip + 1))
      else Inr ip)"
  by pat_completeness auto
termination
  by (relation "measure (\<lambda>(s, x, ip_bound, ref, ip). ip_bound - ip)") auto

primrec flz_unrolled :: "bytes \<Rightarrow> nat \<Rightarrow> nat \<Rightarrow> nat \<Rightarrow> (bool \<times> nat) outcome" where
  "flz_unrolled s 0 ref ip = Inr (False, ip)"
| "flz_unrolled s (Suc n) ref ip =
     andthen (load s ref) (\<lambda>a. andthen (load s ip) (\<lambda>b.
       if a \<noteq> b then Inr (True, ip + 1) else flz_unrolled s n (ref + 1) (ip + 1)))"

function flz_compare :: "bytes \<Rightarrow> nat \<Rightarrow> nat \<Rightarrow> nat \<Rightarrow> nat outcome" where
  "flz_compare s ip_bound ref ip =
     (if ip < ip_bound
      then andthen (load s ref) (\<lambda>a. andthen (load s ip) (\<lambda>b.
             if a \<noteq> b then Inr (ip + 1) else flz_compare s ip_bound (ref + 1) (ip + 1)))
      else Inr ip)"
  by pat_completeness auto
termination
  by (relation "measure (\<lambda>(s, ip_bound, ref, ip). ip_bound - ip)") auto

declare flz_run_end.simps [simp del] flz_compare.simps [simp del]

definition flz_extend :: "bytes \<Rightarrow> nat \<Rightarrow> nat \<Rightarrow> nat \<Rightarrow> nat outcome" where
  "flz_extend s anchor distance len =
     (let ip = anchor + len; ref = ip - distance; ip_bound = length s - 2
      in if distance = 1 then andthen (load s (ip - 1)) (\<lambda>x. flz_run_end s x ip_bound ref ip)
         else andthen (flz_unrolled s 8 ref ip) (\<lambda>(stop, ip).
              if stop then Inr ip else flz_compare s ip_bound (ref + 8) ip))"

text \<open>The bytes of a match; \<open>distance\<close> is biased here, 0 for a run.\<close>

function flz_255s :: "nat \<Rightarrow> bytes" where
  "flz_255s len = (if len \<ge> 255 then 255 # flz_255s (len - 255) else [of_nat len])"
  by pat_completeness auto
termination
  by (relation "measure id") auto

function flz_match1 :: "nat \<Rightarrow> nat \<Rightarrow> bytes" where
  "flz_match1 distance len =
     (if len > MAX_LEN - 2
      then [of_nat (7 * 32 + distance div 256), of_nat (MAX_LEN - 2 - 7 - 2), of_nat (distance mod 256)]
           @ flz_match1 distance (len - (MAX_LEN - 2))
      else if len < 7 then [of_nat (len * 32 + distance div 256), of_nat (distance mod 256)]
      else [of_nat (7 * 32 + distance div 256), of_nat (len - 7), of_nat (distance mod 256)])"
  by pat_completeness auto
termination
  by (relation "measure (\<lambda>(distance, len). len)") (auto simp: MAX_LEN_def)

declare flz_255s.simps [simp del] flz_match1.simps [simp del]

definition flz_match2 :: "nat \<Rightarrow> nat \<Rightarrow> bytes" where
  "flz_match2 distance len =
     (if distance < MAX_DISTANCE 2
      then if len < 7 then [of_nat (len * 32 + distance div 256), of_nat (distance mod 256)]
           else [of_nat (7 * 32 + distance div 256)] @ flz_255s (len - 7) @ [of_nat (distance mod 256)]
      else let distance = distance - MAX_DISTANCE 2
           in if len < 7 then [of_nat (len * 32 + 31), 255, of_nat (distance div 256), of_nat (distance mod 256)]
              else [of_nat (7 * 32 + 31)] @ flz_255s (len - 7)
                   @ [255, of_nat (distance div 256), of_nat (distance mod 256)])"

definition flz_match :: "nat \<Rightarrow> nat \<Rightarrow> nat \<Rightarrow> bytes" where
  "flz_match level = (if level = 1 then flz_match1 else flz_match2)"

record flz =
  z_ip :: nat
  z_op :: bytes
  z_htab :: "nat list"
  z_copy :: nat

text \<open>The count in front of the literals, or nothing where there are none.\<close>

definition flz_close :: "nat \<Rightarrow> bytes \<Rightarrow> bytes" where
  "flz_close copy op = (if copy > 0 then op[length op - copy - 1 := of_nat (copy - 1)] else butlast op)"

definition flz_literal :: "bytes \<Rightarrow> flz \<Rightarrow> flz outcome" where
  "flz_literal s z =
     andthen (load s (z_ip z)) (\<lambda>b.
       let z = z\<lparr>z_ip := z_ip z + 1, z_op := z_op z @ [b], z_copy := z_copy z + 1\<rparr>
       in Inr (if z_copy z = MAX_COPY then z\<lparr>z_copy := 0, z_op := z_op z @ [of_nat (MAX_COPY - 1)]\<rparr> else z))"

definition flz_hash_step :: "bytes \<Rightarrow> flz \<Rightarrow> flz outcome" where
  "flz_hash_step s z =
     andthen (HASH_FUNCTION s (z_ip z)) (\<lambda>hval.
       Inr (z\<lparr>z_htab := (z_htab z)[hval := z_ip z], z_ip := z_ip z + 1\<rparr>))"

text \<open>One round of the main loop.\<close>

definition flz_step :: "nat \<Rightarrow> bytes \<Rightarrow> flz \<Rightarrow> flz outcome" where
  "flz_step level s z =
     andthen (flz_find level s (z_ip z) (z_htab z)) (\<lambda>(m, htab).
       case m of
         None \<Rightarrow> flz_literal s (z\<lparr>z_htab := htab\<rparr>)
       | Some (distance, len) \<Rightarrow>
           andthen (flz_extend s (z_ip z) distance len) (\<lambda>ip.
             let op = flz_close (z_copy z) (z_op z);
                 len = ip - 3 - z_ip z;
                 z = z\<lparr>z_ip := ip - 3, z_op := op @ flz_match level (distance - 1) len, z_htab := htab, z_copy := 0\<rparr>
             in andthen (flz_hash_step s z) (\<lambda>z. andthen (flz_hash_step s z) (\<lambda>z.
                  Inr (z\<lparr>z_op := z_op z @ [of_nat (MAX_COPY - 1)]\<rparr>)))))"

lemma flz_find_len: "flz_find level s a htab = Inr (Some (d, len), h) \<Longrightarrow> len = 3 \<or> len = 5"
  by (auto simp: flz_find_def andthen_eq_Inr Let_def split: if_splits)

lemma flz_run_end_le: "flz_run_end s x b ref ip = Inr ip' \<Longrightarrow> ip \<le> ip'"
proof (induction s x b ref ip rule: flz_run_end.induct)
  case (1 s x b ref ip)
  then show ?case
    by (auto simp: flz_run_end.simps [of s x b ref ip] andthen_eq_Inr split: if_splits dest: Suc_leD)
qed

lemma flz_compare_le: "flz_compare s b ref ip = Inr ip' \<Longrightarrow> ip \<le> ip'"
proof (induction s b ref ip rule: flz_compare.induct)
  case (1 s b ref ip)
  then show ?case
    by (auto simp: flz_compare.simps [of s b ref ip] andthen_eq_Inr split: if_splits dest: Suc_leD)
qed

lemma flz_unrolled_le: "flz_unrolled s n ref ip = Inr (stop, ip') \<Longrightarrow> ip \<le> ip'"
  by (induction n arbitrary: ref ip) (auto simp: andthen_eq_Inr split: if_splits dest: Suc_leD)

lemma flz_extend_le: "flz_extend s a d len = Inr ip \<Longrightarrow> a + len \<le> ip"
  by (auto simp: flz_extend_def andthen_eq_Inr Let_def split: if_splits prod.splits
      dest!: flz_run_end_le flz_unrolled_le flz_compare_le)

lemma flz_step_advances: "flz_step level s z = Inr z' \<Longrightarrow> z_ip z < z_ip z'"
  by (auto simp: flz_step_def flz_literal_def flz_hash_step_def andthen_eq_Inr Let_def split: option.splits if_splits
      dest!: flz_find_len flz_extend_le)

function flz_loop :: "nat \<Rightarrow> bytes \<Rightarrow> flz \<Rightarrow> flz outcome" where
  "flz_loop level s z =
     (if z_ip z < length s - 12 then andthen (flz_step level s z) (flz_loop level s) else Inr z)"
  by pat_completeness auto
termination
  by (relation "measure (\<lambda>(level, s, z). length s - z_ip z)") (auto dest: flz_step_advances)

function flz_rest :: "bytes \<Rightarrow> flz \<Rightarrow> flz outcome" where
  "flz_rest s z = (if z_ip z \<le> length s - 1 then andthen (flz_literal s z) (flz_rest s) else Inr z)"
  by pat_completeness auto
termination
  by (relation "measure (\<lambda>(s, z). length s - z_ip z)")
    (auto simp: flz_literal_def andthen_eq_Inr load_eq_Inr Let_def split: if_splits)

declare flz_loop.simps [simp del] flz_rest.simps [simp del]

definition FASTLZ_COMPRESSOR :: "nat \<Rightarrow> bytes \<Rightarrow> bytes outcome" where
  "FASTLZ_COMPRESSOR level s =
     (if length s < 4
      then Inr (if s = [] then [] else of_nat (length s - 1) # s)
      else andthen (flz_loop level s
               \<lparr>z_ip = 2, z_op = [of_nat (MAX_COPY - 1), s ! 0, s ! 1], z_htab = replicate HASH_SIZE 0, z_copy = 2\<rparr>)
           (\<lambda>z. andthen (flz_rest s z) (\<lambda>z.
             let op = flz_close (z_copy z) (z_op z)
             in Inr (if level = 2 then (hd op OR 32) # tl op else op))))"

definition fastlz_compress_c :: "bytes \<Rightarrow> bytes outcome" where
  "fastlz_compress_c s = FASTLZ_COMPRESSOR (if length s < 65536 then 1 else 2) s"

definition fastlz_compress_level :: "nat \<Rightarrow> bytes \<Rightarrow> bytes outcome" where
  "fastlz_compress_level level s = (if level = 1 \<or> level = 2 then FASTLZ_COMPRESSOR level s else Inr [])"

section \<open>The decompressor\<close>

text \<open>
  A read through \<open>ref\<close>, a pointer computed backwards from the end of the output: its offset is an
  integer, and may lie before the output or behind what has been written.
\<close>

definition load_written :: "bytes \<Rightarrow> int \<Rightarrow> u8 outcome" where
  "load_written out p = (if 0 \<le> p \<and> p < int (length out) then Inr (out ! nat p) else Inl Unwritten)"

text \<open>
  The copy of a match, byte by byte from offset \<open>p\<close> of the output to its end, and the variant without
  \<open>FASTLZ_STRICT_ALIGN\<close>, three bytes, one more for an odd count, and the rest two bytes at a time.
\<close>

primrec flz_copy :: "nat \<Rightarrow> int \<Rightarrow> bytes \<Rightarrow> bytes outcome" where
  "flz_copy 0 p out = Inr out"
| "flz_copy (Suc n) p out = andthen (load_written out p) (\<lambda>b. flz_copy n (p + 1) (out @ [b]))"

primrec flz_copy16 :: "nat \<Rightarrow> int \<Rightarrow> bytes \<Rightarrow> bytes outcome" where
  "flz_copy16 0 p out = Inr out"
| "flz_copy16 (Suc n) p out =
     andthen (load_written out p) (\<lambda>a. andthen (load_written out (p + 1)) (\<lambda>b.
       flz_copy16 n (p + 2) (out @ [a, b])))"

definition flz_copy_ref :: "bool \<Rightarrow> nat \<Rightarrow> int \<Rightarrow> bytes \<Rightarrow> bytes outcome" where
  "flz_copy_ref strict len p out =
     andthen (flz_copy 3 p out) (\<lambda>out.
       if strict then flz_copy len (p + 3) out
       else let k = len mod 2
            in andthen (flz_copy k (p + 3) out) (flz_copy16 (len div 2) (p + 3 + int k)))"

text \<open>The length and the distance of a match behind its first byte, and where they end.\<close>

function flz_more :: "bytes \<Rightarrow> u32 \<Rightarrow> nat \<Rightarrow> (u32 \<times> nat) outcome" where
  "flz_more s len ip =
     andthen (load s ip) (\<lambda>code.
       let len = len + ucast code
       in if code = 255 then flz_more s len (ip + 1) else Inr (len, ip + 1))"
  by pat_completeness auto
termination
  by (relation "measure (\<lambda>(s, len, ip). length s - ip)") (auto simp: load_eq_Inr)

declare flz_more.simps [simp del]

definition flz_header :: "nat \<Rightarrow> bytes \<Rightarrow> nat \<Rightarrow> nat \<Rightarrow> (u32 \<times> nat \<times> nat) outcome" where
  "flz_header level s ctrl ip =
     (let len = of_nat (ctrl div 32 - 1); ofs = (ctrl mod 32) * 256
      in if level = 1
         then andthen (if len = 6 then andthen (load s ip) (\<lambda>b. Inr (len + ucast b, ip + 1)) else Inr (len, ip)) (\<lambda>(len, ip).
              andthen (load s ip) (\<lambda>code. Inr (len, ofs + unat code, ip + 1)))
         else andthen (if len = 6 then flz_more s len ip else Inr (len, ip)) (\<lambda>(len, ip).
              andthen (load s ip) (\<lambda>code.
                if code = 255 \<and> ofs = 31 * 256
                then andthen (load s (ip + 1)) (\<lambda>h. andthen (load s (ip + 2)) (\<lambda>l.
                     Inr (len, unat h * 256 + unat l + MAX_DISTANCE 2, ip + 3)))
                else Inr (len, ofs + unat code, ip + 1))))"

text \<open>
  The main loop: what is returned, and what is in the output then. The next control byte is read
  before the match is copied.
\<close>

definition flz_next :: "bytes \<Rightarrow> nat \<Rightarrow> nat option" where
  "flz_next s ip = (if ip < length s then Some (unat (s ! ip)) else None)"

lemma flz_more_le: "flz_more s len ip = Inr (len', ip') \<Longrightarrow> ip < ip'"
proof (induction s len ip rule: flz_more.induct)
  case (1 s len ip)
  from 1(2) obtain code where code: "load s ip = Inr code"
    by (auto simp: flz_more.simps [of s len ip] andthen_eq_Inr)
  show ?case
  proof (cases "code = 255")
    case True
    then have "flz_more s (len + ucast code) (ip + 1) = Inr (len', ip')"
      using 1(2) code by (simp add: flz_more.simps [of s len ip])
    from 1(1) [OF code refl True this] show ?thesis by simp
  next
    case False
    then show ?thesis using 1(2) code by (simp add: flz_more.simps [of s len ip])
  qed
qed

lemma flz_header_le: "flz_header level s ctrl ip = Inr (len, d, ip') \<Longrightarrow> ip < ip'"
  by (auto simp: flz_header_def andthen_eq_Inr Let_def split: if_splits dest!: flz_more_le)

lemma flz_next_Some: "flz_next s ip = Some c \<longleftrightarrow> ip < length s \<and> c = unat (s ! ip)"
  by (auto simp: flz_next_def)

function flz_decode ::
    "bool \<Rightarrow> nat \<Rightarrow> bytes \<Rightarrow> nat \<Rightarrow> nat \<Rightarrow> nat \<Rightarrow> bytes \<Rightarrow> nat outcome \<times> bytes" where
  "flz_decode strict level s maxout ctrl ip out =
     (if ctrl \<ge> 32
      then (case flz_header level s ctrl ip of
              Inl e \<Rightarrow> (Inl e, out)
            | Inr (len, dist, ip) \<Rightarrow>
                if length out + unat len + 3 > maxout then (Inr 0, out)
                else if length out < dist + 1 then (Inr 0, out)
                else (case (if dist = 0
                            then andthen (load_written out (int (length out) - 1))
                                   (\<lambda>b. Inr (out @ replicate (unat len + 3) b))
                            else flz_copy_ref strict (unat len) (int (length out) - int dist - 1) out) of
                        Inl e \<Rightarrow> (Inl e, out)
                      | Inr out \<Rightarrow>
                          (case flz_next s ip of
                             None \<Rightarrow> (Inr (length out), out)
                           | Some ctrl \<Rightarrow> flz_decode strict level s maxout ctrl (ip + 1) out)))
      else if length out + (ctrl + 1) > maxout then (Inr 0, out)
      else if ip + (ctrl + 1) > length s then (Inr 0, out)
      else let out = out @ take (ctrl + 1) (drop ip s); ip = ip + (ctrl + 1)
           in (case flz_next s ip of
                 None \<Rightarrow> (Inr (length out), out)
               | Some ctrl \<Rightarrow> flz_decode strict level s maxout ctrl (ip + 1) out))"
  by pat_completeness auto

termination
  by (relation "measure (\<lambda>(strict, level, s, maxout, ctrl, ip, out). length s - ip)")
    (auto simp: flz_next_Some dest!: flz_header_le)

declare flz_decode.simps [simp del]

definition FASTLZ_DECOMPRESSOR :: "bool \<Rightarrow> nat \<Rightarrow> bytes \<Rightarrow> nat \<Rightarrow> nat outcome \<times> bytes" where
  "FASTLZ_DECOMPRESSOR strict level s maxout =
     (case load s 0 of Inl e \<Rightarrow> (Inl e, [])
      | Inr c \<Rightarrow> flz_decode strict level s maxout (unat (c AND 31)) 1 [])"

definition fastlz_decompress_c :: "bool \<Rightarrow> bytes \<Rightarrow> nat \<Rightarrow> nat outcome \<times> bytes" where
  "fastlz_decompress_c strict s maxout =
     (case load s 0 of Inl e \<Rightarrow> (Inl e, [])
      | Inr c \<Rightarrow>
          let level = unat c div 32 + 1
          in if level = 1 \<or> level = 2 then FASTLZ_DECOMPRESSOR strict level s maxout else (Inr 0, []))"

end
