(* ===== verification/FastLZ_Roundtrip.thy ===== *)
theory FastLZ_Roundtrip
  imports FastLZ
begin

text \<open>
  FastLZ in both directions: a stream is a list of tokens, literals and copies; the decompressor runs
  the tokens, the compressor's output is such a stream for its input, at every moment of its loop.
\<close>

section \<open>Copies\<close>

text \<open>What a match means: \<open>n\<close> bytes, each the one \<open>d + 1\<close> places before.\<close>

primrec flz_back :: "nat \<Rightarrow> nat \<Rightarrow> bytes \<Rightarrow> bytes" where
  "flz_back d 0 out = out"
| "flz_back d (Suc n) out = flz_back d n (out @ [out ! (length out - d - 1)])"

lemma length_flz_back [simp]: "length (flz_back d n out) = length out + n"
  by (induction n arbitrary: out) auto

lemma flz_back_add: "flz_back d (m + n) out = flz_back d n (flz_back d m out)"
  by (induction m arbitrary: out) auto

lemma flz_back_0: "out \<noteq> [] \<Longrightarrow> flz_back 0 n out = out @ replicate n (out ! (length out - 1))"
  by (induction n arbitrary: out) (auto simp: nth_append)

lemma flz_back_take:
  "d < a \<Longrightarrow> a + n \<le> length s \<Longrightarrow> \<forall>i < n. s ! (a + i) = s ! (a + i - d - 1) \<Longrightarrow> flz_back d n (take a s) = take (a + n) s"
proof (induction n arbitrary: a)
  case (Suc n)
  have "take a s ! (a - d - 1) = s ! (a - d - 1)" using Suc.prems(1) by simp
  also have "\<dots> = s ! a" using Suc.prems(3) by (auto dest: spec [of _ 0])
  finally have "take a s @ [take a s ! (a - d - 1)] = take (Suc a) s"
    using Suc.prems(2) by (simp add: take_Suc_conv_app_nth)
  moreover have "\<forall>i < n. s ! (Suc a + i) = s ! (Suc a + i - d - 1)" using Suc.prems(3) by (auto dest: spec [of _ "Suc _"])
  ultimately show ?case using Suc.IH [of "Suc a"] Suc.prems by (simp add: min_def)
qed simp

lemma load_written_in: "d < length out \<Longrightarrow> load_written out (int (length out) - int d - 1) = Inr (out ! (length out - d - 1))"
  by (simp add: load_written_def nat_diff_distrib' of_nat_diff flip: of_nat_Suc diff_diff_eq)

lemma flz_copy_back: "d < length out \<Longrightarrow> flz_copy n (int (length out) - int d - 1) out = Inr (flz_back d n out)"
proof (induction n arbitrary: out)
  case (Suc n)
  let ?out = "out @ [out ! (length out - d - 1)]"
  have p: "int (length out) - int d - 1 + 1 = int (length ?out) - int d - 1" by simp
  have "flz_copy n (int (length ?out) - int d - 1) ?out = Inr (flz_back d n ?out)"
    by (rule Suc.IH) (use Suc.prems in simp)
  then show ?case
    unfolding flz_copy.simps load_written_in [OF Suc.prems] andthen_simps p flz_back.simps .
qed simp

lemma flz_copy16_back: "0 < d \<Longrightarrow> d < length out \<Longrightarrow> flz_copy16 n (int (length out) - int d - 1) out = Inr (flz_back d (2 * n) out)"
proof (induction n arbitrary: out)
  case (Suc n)
  let ?p = "int (length out) - int d - 1" and ?out = "out @ [out ! (length out - d - 1), out ! (length out - d)]"
  have p1: "?p + 1 = int (length out) - int (d - 1) - 1" using Suc.prems by simp
  have w: "load_written out (?p + 1) = Inr (out ! (length out - d))"
    unfolding p1 by (subst load_written_in) (use Suc.prems in simp_all)
  have p2: "?p + 2 = int (length ?out) - int d - 1" by simp
  have b: "flz_back d (2 * Suc n) out = flz_back d (2 * n) ?out"
    using Suc.prems by (simp add: nth_append)
  have "flz_copy16 n (int (length ?out) - int d - 1) ?out = Inr (flz_back d (2 * n) ?out)"
    by (rule Suc.IH) (use Suc.prems in simp_all)
  then show ?case
    unfolding flz_copy16.simps load_written_in [OF Suc.prems(2)] w andthen_simps p2 b .
qed simp

lemma flz_copy_ref_back:
  assumes "0 < d" and "d < length out"
  shows "flz_copy_ref strict len (int (length out) - int d - 1) out = Inr (flz_back d (len + 3) out)"
proof -
  have 3: "flz_copy 3 (int (length out) - int d - 1) out = Inr (flz_back d 3 out)" by (rule flz_copy_back [OF assms(2)])
  have p: "int (length out) - int d - 1 + 3 = int (length (flz_back d 3 out)) - int d - 1" by simp
  have add: "flz_back d (len + 3) out = flz_back d len (flz_back d 3 out)" by (metis add.commute flz_back_add)
  show ?thesis
  proof (cases strict)
    case True
    then show ?thesis
      unfolding flz_copy_ref_def 3 andthen_simps p add
      using flz_copy_back [of d "flz_back d 3 out" len] assms(2) by simp
  next
    case False
    let ?k = "len mod 2" and ?out = "flz_back d 3 out"
    have k: "flz_copy ?k (int (length ?out) - int d - 1) ?out = Inr (flz_back d ?k ?out)"
      by (rule flz_copy_back) (use assms(2) in simp)
    have pk: "int (length ?out) - int d - 1 + int ?k = int (length (flz_back d ?k ?out)) - int d - 1" by simp
    have "flz_copy16 (len div 2) (int (length (flz_back d ?k ?out)) - int d - 1) (flz_back d ?k ?out)
      = Inr (flz_back d (2 * (len div 2)) (flz_back d ?k ?out))"
      by (rule flz_copy16_back) (use assms in simp_all)
    moreover have "flz_back d (2 * (len div 2)) (flz_back d ?k ?out) = flz_back d len ?out"
      using flz_back_add [of d ?k "2 * (len div 2)" ?out] by simp
    ultimately show ?thesis
      unfolding flz_copy_ref_def 3 andthen_simps p Let_def k pk add using False by (simp del: length_flz_back)
  qed
qed

section \<open>Streams as tokens\<close>

text \<open>
  A stream is a sequence of literals and copies. The distance of a copy is biased by one and its
  length by two, as in the source.
\<close>

datatype flz_tok = Lits bytes | Copy nat nat

primrec tok_bytes :: "nat \<Rightarrow> flz_tok \<Rightarrow> bytes" where
  "tok_bytes level (Lits bs) = of_nat (length bs - 1) # bs"
| "tok_bytes level (Copy d len) = flz_match level d len"

primrec tok_run :: "flz_tok \<Rightarrow> bytes \<Rightarrow> bytes" where
  "tok_run (Lits bs) out = out @ bs"
| "tok_run (Copy d len) out = flz_back d (len + 2) out"

primrec tok_ok :: "nat \<Rightarrow> nat \<Rightarrow> flz_tok \<Rightarrow> bool" where
  "tok_ok level n (Lits bs) \<longleftrightarrow> 1 \<le> length bs \<and> length bs \<le> 32"
| "tok_ok level n (Copy d len) \<longleftrightarrow> 1 \<le> len \<and> d < n \<and> d < (if level = 1 then 8192 else 8191 + 65536)"

primrec toks_ok :: "nat \<Rightarrow> flz_tok list \<Rightarrow> bytes \<Rightarrow> bool" where
  "toks_ok level [] out \<longleftrightarrow> True"
| "toks_ok level (t # ts) out \<longleftrightarrow> tok_ok level (length out) t \<and> toks_ok level ts (tok_run t out)"

definition toks_run :: "flz_tok list \<Rightarrow> bytes \<Rightarrow> bytes" where
  "toks_run ts out = fold tok_run ts out"

definition toks_bytes :: "nat \<Rightarrow> flz_tok list \<Rightarrow> bytes" where
  "toks_bytes level ts = concat (map (tok_bytes level) ts)"

lemma toks_run_simps [simp]:
  "toks_run [] out = out" "toks_run (t # ts) out = toks_run ts (tok_run t out)"
  "toks_run (ts @ us) out = toks_run us (toks_run ts out)"
  by (simp_all add: toks_run_def)

lemma toks_bytes_simps [simp]:
  "toks_bytes level [] = []" "toks_bytes level (t # ts) = tok_bytes level t @ toks_bytes level ts"
  "toks_bytes level (ts @ us) = toks_bytes level ts @ toks_bytes level us"
  by (simp_all add: toks_bytes_def)

lemma toks_ok_append [simp]: "toks_ok level (ts @ us) out \<longleftrightarrow> toks_ok level ts out \<and> toks_ok level us (toks_run ts out)"
  by (induction ts arbitrary: out) auto

lemma length_tok_run: "length out \<le> length (tok_run t out)"
  by (cases t) auto

lemma length_toks_run: "length out \<le> length (toks_run ts out)"
  by (induction ts arbitrary: out) (auto intro: order_trans [OF length_tok_run])

section \<open>Decoding a stream\<close>

text \<open>What happens at a place where a control byte is due.\<close>

definition flz_cont :: "bool \<Rightarrow> nat \<Rightarrow> bytes \<Rightarrow> nat \<Rightarrow> nat \<Rightarrow> bytes \<Rightarrow> nat outcome \<times> bytes" where
  "flz_cont strict level s maxout ip out =
     (case flz_next s ip of None \<Rightarrow> (Inr (length out), out)
      | Some ctrl \<Rightarrow> flz_decode strict level s maxout ctrl (ip + 1) out)"

lemma flz_cont_Cons: "drop ip s = c # r \<Longrightarrow> flz_cont strict level s maxout ip out = flz_decode strict level s maxout (unat c) (ip + 1) out"
proof -
  assume d: "drop ip s = c # r"
  then have "ip < length s" by (metis drop_all leI list.distinct(1))
  with d show ?thesis by (simp add: flz_cont_def flz_next_def Cons_nth_drop_Suc [symmetric])
qed

lemma decode_lits:
  assumes "drop ip s = bs @ r" and "1 \<le> length bs" "length bs \<le> 32" and "length out + length bs \<le> maxout"
  shows "flz_decode strict level s maxout (length bs - 1) ip out = flz_cont strict level s maxout (ip + length bs) (out @ bs)"
proof -
  have "ip + length bs \<le> length s"
    using arg_cong [OF assms(1), of length] assms(2) by simp
  moreover obtain k where "length bs = Suc k" using assms(2) by (cases "length bs") auto
  ultimately show ?thesis
    using assms by (subst flz_decode.simps) (simp add: flz_cont_def Let_def)
qed

lemma decode_match:
  assumes "flz_header level s ctrl ip = Inr (of_nat (len - 1), d, ip')" and "32 \<le> ctrl" and "1 \<le> len" "len < 2 ^ 31"
    and "d < length out" and "length out + len + 2 \<le> maxout"
  shows "flz_decode strict level s maxout ctrl ip out = flz_cont strict level s maxout ip' (flz_back d (len + 2) out)"
proof -
  have u: "unat (of_nat (len - 1) :: u32) = len - 1" using assms(4) by (simp add: of_nat_inverse)
  have l3: "len - 1 + 3 = len + 2" using assms(3) by simp
  have c: "(if d = 0 then andthen (load_written out (int (length out) - 1)) (\<lambda>b. Inr (out @ replicate (unat (of_nat (len - 1) :: u32) + 3) b))
      else flz_copy_ref strict (unat (of_nat (len - 1) :: u32)) (int (length out) - int d - 1) out) = Inr (flz_back d (len + 2) out)"
  proof (cases "d = 0")
    case True
    have ne: "out \<noteq> []" using assms(5) by auto
    show ?thesis
      unfolding u l3 True flz_back_0 [OF ne] using ne load_written_in [of 0 out] by simp
  next
    case False
    then show ?thesis using flz_copy_ref_back [of d out strict "len - 1"] assms(5) by (simp only: u l3) simp
  qed
  show ?thesis
    unfolding flz_decode.simps [of strict level s maxout ctrl ip out] assms(1) sum.case prod.case c flz_cont_def
    using assms(2,3,5,6) u by (simp del: flz_back.simps add: add.commute)
qed


text \<open>The header of a match, level by level.\<close>

lemma unat_byte: "n < 256 \<Longrightarrow> unat (of_nat n :: u8) = n"
  by (simp add: of_nat_inverse)

lemma of_nat_6: "n < 2 ^ 32 \<Longrightarrow> (of_nat n :: u32) = 6 \<longleftrightarrow> n = 6"
proof
  assume "n < 2 ^ 32" and "(of_nat n :: u32) = 6"
  then show "n = 6" using of_nat_inverse [of n "of_nat n :: u32"] by simp
qed simp

lemma ctrl_split: "d div 256 < 32 \<Longrightarrow> (len * 32 + d div 256) div 32 = len \<and> (len * 32 + d div 256) mod 32 = (d div 256 :: nat)"
  by simp

lemma ucast_byte_32: "n < 256 \<Longrightarrow> (ucast (of_nat n :: u8) :: u32) = of_nat n"
proof -
  assume "n < 256"
  have "(ucast (of_nat n :: u8) :: u32) = of_nat (unat (of_nat n :: u8))" by (rule of_nat_unat [symmetric])
  then show ?thesis by (simp only: unat_byte [OF \<open>n < 256\<close>])
qed

lemma header1_short:
  assumes "drop ip s = of_nat (d mod 256) # r" and "1 \<le> len" "len < 7" and "d < 8192"
  shows "flz_header 1 s (len * 32 + d div 256) ip = Inr (of_nat (len - 1), d, ip + 1)"
proof -
  have c: "(len * 32 + d div 256) div 32 = len" "(len * 32 + d div 256) mod 32 = d div 256"
    "d div 256 mod 32 = d div 256"
    using ctrl_split [of d len] assms(4) by auto
  have "(of_nat (len - 1) :: u32) \<noteq> 6"
    using assms(3) by (subst of_nat_6) auto
  then show ?thesis
    using load_drop [OF assms(1)] by (simp add: flz_header_def Let_def c unat_byte)
qed

lemma header1_long:
  assumes "drop ip s = of_nat (len - 7) # of_nat (d mod 256) # r" and "7 \<le> len" "len \<le> 262" and "d < 8192"
  shows "flz_header 1 s (7 * 32 + d div 256) ip = Inr (of_nat (len - 1), d, ip + 2)"
proof -
  have c: "(224 + d div 256) div 32 = 7" "(224 + d div 256) mod 32 = d div 256"
    using ctrl_split [of d 7] assms(4) by auto
  have l: "load s ip = Inr (of_nat (len - 7))" "load s (ip + 1) = Inr (of_nat (d mod 256))"
    using load_drop [OF assms(1)] load_drop [of "ip + 1" s] drop_record [of ip s "[of_nat (len - 7)]"] assms(1) by simp_all
  have "(6 :: u32) + ucast (of_nat (len - 7) :: u8) = of_nat 6 + of_nat (len - 7)"
    using assms(3) by (subst ucast_byte_32) simp_all
  also have "\<dots> = of_nat (len - 1)" using assms(2) by (simp flip: of_nat_add)
  finally show ?thesis
    using l by (simp add: flz_header_def Let_def c unat_byte)
qed

lemma cont_match1:
  "drop ip s = flz_match1 d len @ r \<Longrightarrow> 1 \<le> len \<Longrightarrow> len < 2 ^ 31 \<Longrightarrow> d < 8192 \<Longrightarrow> d < length out
    \<Longrightarrow> length out + len + 2 \<le> maxout
    \<Longrightarrow> flz_cont strict 1 s maxout ip out = flz_cont strict 1 s maxout (ip + length (flz_match1 d len)) (flz_back d (len + 2) out)"
proof (induction d len arbitrary: ip out rule: flz_match1.induct)
  case (1 d len)
  have hi: "unat (of_nat (n * 32 + d div 256) :: u8) = n * 32 + d div 256" if "n < 8" for n
    by (rule unat_byte) (use that 1(5) in auto)
  show ?case
  proof (cases "len > MAX_LEN - 2")
    case True
    let ?h = "[of_nat (7 * 32 + d div 256), of_nat (MAX_LEN - 2 - 7 - 2), of_nat (d mod 256)] :: bytes"
    let ?rest = "flz_match1 d (len - (MAX_LEN - 2))"
    have m: "flz_match1 d len = ?h @ ?rest" using True by (simp add: flz_match1.simps [of d len])
    have dr: "drop ip s = of_nat (7 * 32 + d div 256) # of_nat (260 - 7) # of_nat (d mod 256) # ?rest @ r"
      using 1(2) by (simp add: m MAX_LEN_def)
    have dr1: "drop (ip + 1) s = of_nat (260 - 7) # of_nat (d mod 256) # ?rest @ r"
      using drop_record [of ip s "[of_nat (7 * 32 + d div 256)]"] dr by simp
    have l3: "length ?h = 3" by simp
    have "drop ip s = ?h @ ?rest @ r" using 1(2) unfolding m by (simp only: append_assoc)
    from drop_record [OF this] have dr3: "drop (ip + 3) s = ?rest @ r" unfolding l3 .
    have "flz_header 1 s (7 * 32 + d div 256) (ip + 1) = Inr (of_nat (260 - 1), d, ip + 1 + 2)"
      by (rule header1_long [OF dr1]) (use 1(5) in simp_all)
    then have "flz_decode strict 1 s maxout (7 * 32 + d div 256) (ip + 1) out
      = flz_cont strict 1 s maxout (ip + 1 + 2) (flz_back d (260 + 2) out)"
      by (rule decode_match) (use 1(6,7) True in \<open>simp_all add: MAX_LEN_def\<close>)
    moreover have "ip + 1 + 2 = ip + 3" "(260 :: nat) + 2 = 262" by simp_all
    ultimately have "flz_decode strict 1 s maxout (7 * 32 + d div 256) (ip + 1) out
      = flz_cont strict 1 s maxout (ip + 3) (flz_back d 262 out)" by (simp only:)
    then have "flz_cont strict 1 s maxout ip out = flz_cont strict 1 s maxout (ip + 3) (flz_back d 262 out)"
      using flz_cont_Cons [OF dr] hi [of 7] by simp
    also have "\<dots> = flz_cont strict 1 s maxout (ip + 3 + length ?rest) (flz_back d (len - (MAX_LEN - 2) + 2) (flz_back d 262 out))"
      by (rule 1(1) [OF True dr3]) (use 1(3-7) True in \<open>simp_all add: MAX_LEN_def\<close>)
    also have "flz_back d (len - (MAX_LEN - 2) + 2) (flz_back d 262 out) = flz_back d (len + 2) out"
      using True by (subst flz_back_add [symmetric]) (simp add: MAX_LEN_def)
    also have "ip + 3 + length ?rest = ip + length (flz_match1 d len)" by (simp add: m)
    finally show ?thesis .
  next
    case False
    show ?thesis
    proof (cases "len < 7")
      case short: True
      have m: "flz_match1 d len = [of_nat (len * 32 + d div 256), of_nat (d mod 256)]"
        using False short by (simp add: flz_match1.simps [of d len])
      have dr: "drop ip s = of_nat (len * 32 + d div 256) # of_nat (d mod 256) # r" using 1(2) m by simp
      have dr1: "drop (ip + 1) s = of_nat (d mod 256) # r"
        using drop_record [of ip s "[of_nat (len * 32 + d div 256)]"] dr by simp
      from header1_short [OF dr1 1(3) short 1(5)]
      have "flz_decode strict 1 s maxout (len * 32 + d div 256) (ip + 1) out
        = flz_cont strict 1 s maxout (ip + 1 + 1) (flz_back d (len + 2) out)"
        by (rule decode_match) (use 1(3-7) in simp_all)
      then show ?thesis using flz_cont_Cons [OF dr] hi [of len] short by (simp add: m del: flz_back.simps)
    next
      case long: False
      have m: "flz_match1 d len = [of_nat (7 * 32 + d div 256), of_nat (len - 7), of_nat (d mod 256)]"
        using False long by (simp add: flz_match1.simps [of d len])
      have dr: "drop ip s = of_nat (7 * 32 + d div 256) # of_nat (len - 7) # of_nat (d mod 256) # r" using 1(2) m by simp
      have dr1: "drop (ip + 1) s = of_nat (len - 7) # of_nat (d mod 256) # r"
        using drop_record [of ip s "[of_nat (7 * 32 + d div 256)]"] dr by simp
      have "flz_header 1 s (7 * 32 + d div 256) (ip + 1) = Inr (of_nat (len - 1), d, ip + 1 + 2)"
        by (rule header1_long [OF dr1]) (use 1(5) False long in \<open>simp_all add: MAX_LEN_def\<close>)
      then have "flz_decode strict 1 s maxout (7 * 32 + d div 256) (ip + 1) out
        = flz_cont strict 1 s maxout (ip + 1 + 2) (flz_back d (len + 2) out)"
        by (rule decode_match) (use 1(3-7) in simp_all)
      then show ?thesis using flz_cont_Cons [OF dr] hi [of 7] by (simp add: m del: flz_back.simps)
    qed
  qed
qed


lemma more_255s: "drop ip s = flz_255s k @ r \<Longrightarrow> flz_more s len ip = Inr (len + of_nat k, ip + length (flz_255s k))"
proof (induction k arbitrary: ip len rule: flz_255s.induct)
  case (1 k)
  show ?case
  proof (cases "k \<ge> 255")
    case True
    have e: "flz_255s k = 255 # flz_255s (k - 255)" using True by (simp add: flz_255s.simps [of k])
    have d1: "drop (ip + 1) s = flz_255s (k - 255) @ r" using drop_record [of ip s "[255]"] 1(2) e by simp
    have l: "load s ip = Inr 255" using 1(2) e by (intro load_drop) simp
    have "len + ucast (255 :: u8) + of_nat (k - 255) = len + (of_nat 255 + of_nat (k - 255))" by simp
    also have "\<dots> = len + of_nat k" using True by (simp flip: of_nat_add)
    finally show ?thesis
      using 1(1) [OF True d1, of "len + ucast (255 :: u8)"] l by (simp add: flz_more.simps [of s len ip] e)
  next
    case False
    have e: "flz_255s k = [of_nat k]" using False by (simp add: flz_255s.simps [of k])
    have l: "load s ip = Inr (of_nat k)" using 1(2) e by (intro load_drop) simp
    have "(of_nat k :: u8) \<noteq> 255"
    proof
      assume "(of_nat k :: u8) = 255"
      then have "unat (of_nat k :: u8) = 255" by simp
      then show False using False unat_byte [of k] by simp
    qed
    then show ?thesis using l e False by (simp add: flz_more.simps [of s len ip] ucast_byte_32)
  qed
qed

definition len_bytes :: "nat \<Rightarrow> bytes" where
  "len_bytes len = (if len < 7 then [] else flz_255s (len - 7))"

lemma header2_len:
  assumes "drop ip s = len_bytes len @ r" and "1 \<le> len" and "len < 2 ^ 31"
  shows "(if (of_nat (min len 7 - 1) :: u32) = 6 then flz_more s (of_nat (min len 7 - 1)) ip
      else Inr (of_nat (min len 7 - 1), ip)) = Inr (of_nat (len - 1), ip + length (len_bytes len))"
proof (cases "len < 7")
  case True
  then have "(of_nat (len - 1) :: u32) \<noteq> 6" by (subst of_nat_6) auto
  then show ?thesis using True by (simp add: len_bytes_def min_def)
next
  case False
  have "(6 :: u32) + of_nat (len - 7) = of_nat 6 + of_nat (len - 7)" by simp
  also have "\<dots> = of_nat (len - 1)" using False by (simp flip: of_nat_add)
  finally show ?thesis
    using False more_255s [of ip s "len - 7" r 6] assms(1) by (simp add: len_bytes_def min_def)
qed

lemma flz_match2_eq:
  "flz_match2 d len = of_nat (min len 7 * 32 + (if d < 8191 then d div 256 else 31)) # len_bytes len
     @ (if d < 8191 then [of_nat (d mod 256)]
        else [255, of_nat ((d - 8191) div 256), of_nat ((d - 8191) mod 256)])"
  by (auto simp: flz_match2_def len_bytes_def MAX_DISTANCE_def Let_def min_def)

lemma header2:
  assumes dr: "drop ip s = len_bytes len @ (if d < 8191 then [of_nat (d mod 256)]
        else [255, of_nat ((d - 8191) div 256), of_nat ((d - 8191) mod 256)]) @ r"
    and len: "1 \<le> len" "len < 2 ^ 31" and d: "d < 8191 + 65536"
  shows "flz_header 2 s (min len 7 * 32 + (if d < 8191 then d div 256 else 31)) ip
    = Inr (of_nat (len - 1), d, ip + length (len_bytes len) + (if d < 8191 then 1 else 3))"
proof -
  let ?hi = "if d < 8191 then d div 256 else 31" and ?ip = "ip + length (len_bytes len)"
  have hi: "?hi < 32" by auto
  have c: "(min len 7 * 32 + ?hi) div 32 = min len 7" "(min len 7 * 32 + ?hi) mod 32 = ?hi"
    using hi by auto
  note hl = header2_len [OF dr len]
  have rest: "drop ?ip s = (if d < 8191 then [of_nat (d mod 256)]
        else [255, of_nat ((d - 8191) div 256), of_nat ((d - 8191) mod 256)]) @ r"
    by (rule drop_record [OF dr])
  show ?thesis
  proof (cases "d < 8191")
    case True
    have l: "load s ?ip = Inr (of_nat (d mod 256))" using rest True by (intro load_drop) simp
    have "\<not> ((of_nat (d mod 256) :: u8) = 255 \<and> d div 256 = 31)"
    proof
      assume a: "(of_nat (d mod 256) :: u8) = 255 \<and> d div 256 = 31"
      then have "unat (of_nat (d mod 256) :: u8) = 255" by simp
      then have "d mod 256 = 255" by (simp add: unat_byte)
      then show False using a True div_mult_mod_eq [of d 256] by simp
    qed
    then show ?thesis
      unfolding flz_header_def c Let_def hl andthen_simps prod.case using l True by (auto simp: unat_byte)
  next
    case False
    let ?e = "d - 8191"
    have r3: "drop ?ip s = 255 # of_nat (?e div 256) # of_nat (?e mod 256) # r" using rest False by simp
    have l: "load s ?ip = Inr 255" "load s (?ip + 1) = Inr (of_nat (?e div 256))" "load s (?ip + 2) = Inr (of_nat (?e mod 256))"
    proof -
      show "load s ?ip = Inr 255" by (rule load_drop [OF r3])
      have "drop (?ip + 1) s = of_nat (?e div 256) # of_nat (?e mod 256) # r" using drop_record [of ?ip s "[255]"] r3 by simp
      then show "load s (?ip + 1) = Inr (of_nat (?e div 256))" by (rule load_drop)
      have "drop (?ip + length ([255, of_nat (?e div 256)] :: bytes)) s = of_nat (?e mod 256) # r"
        by (rule drop_record) (simp add: r3)
      then have "drop (?ip + 2) s = of_nat (?e mod 256) # r" by (simp add: numeral_2_eq_2)
      then show "load s (?ip + 2) = Inr (of_nat (?e mod 256))" by (rule load_drop)
    qed
    have e: "unat (of_nat (?e div 256) :: u8) = ?e div 256" "unat (of_nat (?e mod 256) :: u8) = ?e mod 256"
      using d by (auto intro!: unat_byte)
    have "?e div 256 * 256 + ?e mod 256 + 8191 = d" using False by simp
    then show ?thesis
      unfolding flz_header_def c Let_def hl andthen_simps prod.case using l False e by (simp add: MAX_DISTANCE_def)
  qed
qed

lemma cont_match2:
  assumes dr: "drop ip s = flz_match2 d len @ r" and len: "1 \<le> len" "len < 2 ^ 31" and d: "d < 8191 + 65536" "d < length out"
    and room: "length out + len + 2 \<le> maxout"
  shows "flz_cont strict 2 s maxout ip out = flz_cont strict 2 s maxout (ip + length (flz_match2 d len)) (flz_back d (len + 2) out)"
proof -
  let ?hi = "if d < 8191 then d div 256 else 31"
  let ?tail = "if d < 8191 then [of_nat (d mod 256)] else [255, of_nat ((d - 8191) div 256), of_nat ((d - 8191) mod 256)] :: bytes"
  have dr0: "drop ip s = of_nat (min len 7 * 32 + ?hi) # len_bytes len @ ?tail @ r"
    using dr by (simp only: flz_match2_eq append_Cons append_assoc)
  have dr1: "drop (ip + 1) s = len_bytes len @ ?tail @ r"
    using drop_record [of ip s "[of_nat (min len 7 * 32 + ?hi)]"] dr0 by simp
  have hi: "?hi < 32" by auto
  then have u: "unat (of_nat (min len 7 * 32 + ?hi) :: u8) = min len 7 * 32 + ?hi" by (intro unat_byte) auto
  have "32 \<le> min len 7 * 32 + ?hi" using len(1) by auto
  with header2 [OF dr1 len d(1)]
  have "flz_decode strict 2 s maxout (min len 7 * 32 + ?hi) (ip + 1) out
    = flz_cont strict 2 s maxout (ip + 1 + length (len_bytes len) + (if d < 8191 then 1 else 3)) (flz_back d (len + 2) out)"
    by (rule decode_match) (use len d room in simp_all)
  moreover have "ip + 1 + length (len_bytes len) + (if d < 8191 then 1 else 3) = ip + length (flz_match2 d len)"
    by (simp add: flz_match2_eq)
  ultimately show ?thesis unfolding flz_cont_Cons [OF dr0] u by (simp only:)
qed


lemma cont_tok:
  assumes "drop ip s = tok_bytes level t @ r" and "tok_ok level (length out) t" and "length (tok_run t out) \<le> maxout"
    and "maxout < 2 ^ 31" and "level = 1 \<or> level = 2"
  shows "flz_cont strict level s maxout ip out = flz_cont strict level s maxout (ip + length (tok_bytes level t)) (tok_run t out)"
proof (cases t)
  case (Lits bs)
  have dr: "drop ip s = of_nat (length bs - 1) # bs @ r" using assms(1) Lits by simp
  have dr1: "drop (ip + 1) s = bs @ r" using drop_record [of ip s "[of_nat (length bs - 1)]"] dr by simp
  have u: "unat (of_nat (length bs - 1) :: u8) = length bs - 1"
    using assms(2) Lits by (intro unat_byte) auto
  have "flz_decode strict level s maxout (length bs - 1) (ip + 1) out
    = flz_cont strict level s maxout (ip + 1 + length bs) (out @ bs)"
    by (rule decode_lits [OF dr1]) (use assms(2,3) Lits in simp_all)
  then show ?thesis unfolding flz_cont_Cons [OF dr] u using Lits by simp
next
  case (Copy d len)
  then show ?thesis
    using assms cont_match1 [of ip s d len r out maxout strict] cont_match2 [of ip s d len r out maxout strict]
    by (auto simp: flz_match_def simp del: flz_back.simps)
qed

lemma cont_toks:
  "drop ip s = toks_bytes level ts @ r \<Longrightarrow> toks_ok level ts out \<Longrightarrow> length (toks_run ts out) \<le> maxout
    \<Longrightarrow> maxout < 2 ^ 31 \<Longrightarrow> level = 1 \<or> level = 2
    \<Longrightarrow> flz_cont strict level s maxout ip out = flz_cont strict level s maxout (ip + length (toks_bytes level ts)) (toks_run ts out)"
proof (induction ts arbitrary: ip out)
  case (Cons t ts)
  have dr: "drop ip s = tok_bytes level t @ toks_bytes level ts @ r" using Cons.prems(1) by simp
  have "length (tok_run t out) \<le> maxout" using length_toks_run [of "tok_run t out" ts] Cons.prems(3) by simp
  then have 1: "flz_cont strict level s maxout ip out = flz_cont strict level s maxout (ip + length (tok_bytes level t)) (tok_run t out)"
    using cont_tok [OF dr] Cons.prems by simp
  from Cons.IH [OF drop_record [OF dr]] Cons.prems have
    "flz_cont strict level s maxout (ip + length (tok_bytes level t)) (tok_run t out)
      = flz_cont strict level s maxout (ip + length (tok_bytes level t) + length (toks_bytes level ts)) (toks_run ts (tok_run t out))"
    by simp
  with 1 show ?case by (simp add: add.assoc)
qed simp

text \<open>When the output is full the rest of the input changes nothing any more.\<close>

lemma cont_full: "length out = maxout \<Longrightarrow> snd (flz_cont strict level s maxout ip out) = out"
  by (auto simp: flz_cont_def flz_decode.simps split: option.split sum.split)

lemma cont_end: "length s \<le> ip \<Longrightarrow> flz_cont strict level s maxout ip out = (Inr (length out), out)"
  by (simp add: flz_cont_def flz_next_def)

text \<open>A stream starts with literals, and its first byte tells the level.\<close>

definition stream :: "nat \<Rightarrow> bytes \<Rightarrow> flz_tok list \<Rightarrow> bytes" where
  "stream level bs ts =
     (of_nat (length bs - 1) OR (if level = 2 then 32 else 0)) # bs @ toks_bytes level ts"

lemma first_byte:
  assumes "n < 32"
  shows "unat ((of_nat n OR (if level = (2 :: nat) then 32 else 0) :: u8) AND 31) = n"
    and "unat (of_nat n OR (if level = (2 :: nat) then 32 else 0) :: u8) div 32 = (if level = 2 then 1 else 0)"
proof -
  have "\<forall>n \<in> set [0..<32]. unat ((of_nat n OR 32 :: u8) AND 31) = n \<and> unat ((of_nat n :: u8) AND 31) = n
      \<and> unat (of_nat n OR 32 :: u8) div 32 = 1 \<and> unat (of_nat n :: u8) div 32 = 0"
    by (simp add: upt_rec)
  then have n: "unat ((of_nat n OR 32 :: u8) AND 31) = n \<and> unat ((of_nat n :: u8) AND 31) = n
      \<and> unat (of_nat n OR 32 :: u8) div 32 = 1 \<and> unat (of_nat n :: u8) div 32 = 0"
    by (rule bspec) (use assms in simp)
  show "unat ((of_nat n OR (if level = (2 :: nat) then 32 else 0) :: u8) AND 31) = n"
    "unat (of_nat n OR (if level = (2 :: nat) then 32 else 0) :: u8) div 32 = (if level = 2 then 1 else 0)"
    using n by (cases "level = 2"; simp)+
qed

lemma decompress_stream:
  assumes ok: "1 \<le> length bs" "length bs \<le> 32" "toks_ok level ts bs" and level: "level = 1 \<or> level = 2"
    and out: "toks_run ts bs = x" and n: "length x \<le> maxout" "maxout < 2 ^ 31"
  shows "snd (fastlz_decompress_c strict (stream level bs ts @ junk) (length x)) = x"
    and "fastlz_decompress_c strict (stream level bs ts) maxout = (Inr (length x), x)"
proof -
  have dec: "fastlz_decompress_c strict (stream level bs ts @ r) maxout
    = flz_cont strict level (stream level bs ts @ r) maxout (length (stream level bs ts)) x"
    if n: "length x \<le> maxout" "maxout < 2 ^ 31" for r maxout
  proof -
    let ?s = "stream level bs ts @ r"
    let ?c = "of_nat (length bs - 1) OR (if level = 2 then 32 else 0) :: u8"
    have l32: "length bs - 1 < 32" using ok by simp
    have s: "?s = ?c # bs @ toks_bytes level ts @ r" by (simp add: stream_def)
    have d1: "drop 1 ?s = bs @ toks_bytes level ts @ r" by (simp add: s)
    have "fastlz_decompress_c strict ?s maxout = flz_decode strict level ?s maxout (length bs - 1) 1 []"
      using level first_byte [OF l32, of level]
      by (auto simp: fastlz_decompress_c_def FASTLZ_DECOMPRESSOR_def s Let_def numeral_2_eq_2)
    also have "\<dots> = flz_cont strict level ?s maxout (1 + length bs) bs"
      using decode_lits [OF d1 ok(1,2), of "[]" maxout strict level] out n length_toks_run [of bs ts] by simp
    also have "\<dots> = flz_cont strict level ?s maxout (1 + length bs + length (toks_bytes level ts)) (toks_run ts bs)"
      by (rule cont_toks [OF drop_record [OF d1] ok(3)]) (use out n level in simp_all)
    finally show ?thesis by (simp add: out) (simp add: stream_def)
  qed
  show "snd (fastlz_decompress_c strict (stream level bs ts @ junk) (length x)) = x"
    using dec [of "length x"] n cont_full [OF refl] by simp
  show "fastlz_decompress_c strict (stream level bs ts) maxout = (Inr (length x), x)"
    using dec [OF n, of "[]"] by (simp add: cont_end)
qed


section \<open>What the compressor finds\<close>

text \<open>The bytes from \<open>a\<close> on agree with those \<open>d\<close> places before, for \<open>n\<close> bytes.\<close>

definition agree :: "bytes \<Rightarrow> nat \<Rightarrow> nat \<Rightarrow> nat \<Rightarrow> bool" where
  "agree s a d n \<longleftrightarrow> (\<forall>i < n. s ! (a + i) = s ! (a + i - d))"

lemma READU16_in: "p + 1 < length s \<Longrightarrow> FASTLZ_READU16 s p = Inr (ucast (s ! p) OR push_bit 8 (ucast (s ! (p + 1))))"
  by (simp add: FASTLZ_READU16_def)

lemma u16_inj:
  assumes "(ucast (a :: u8) OR push_bit 8 (ucast (b :: u8)) :: u32) = ucast a' OR push_bit 8 (ucast b')"
  shows "a = a'" and "b = b'"
proof -
  have bits: "bit (ucast a OR push_bit 8 (ucast b) :: u32) i = bit (ucast a' OR push_bit 8 (ucast b') :: u32) i" for i
    by (simp only: assms)
  show "a = a'"
  proof (rule bit_word_eqI)
    fix i assume "i < LENGTH(8)"
    then show "bit a i = bit a' i" using bits [of i] by (simp add: bit_simps)
  qed
  show "b = b'"
  proof (rule bit_word_eqI)
    fix i assume "i < LENGTH(8)"
    then show "bit b i = bit b' i" using bits [of "i + 8"] by (auto simp: bit_simps dest: bit_imp_le_length)
  qed
qed

lemma HASH_in: "p + 2 < length s \<Longrightarrow> \<exists>h. HASH_FUNCTION s p = Inr h \<and> h < 8192"
proof -
  assume p: "p + 2 < length s"
  have "unat ((w :: u32) AND 8191) < 8192" for w
  proof -
    have "w AND 8191 = take_bit 13 w" by (simp add: take_bit_eq_mask mask_eq_exp_minus_1)
    then show ?thesis by (simp add: unsigned_take_bit_eq) (simp add: take_bit_eq_mod)
  qed
  then show ?thesis using p by (auto simp: HASH_FUNCTION_def READU16_in)
qed

lemma same_in:
  "ref + n \<le> length s \<Longrightarrow> ip + n \<le> length s \<Longrightarrow> flz_same s n ref ip = Inr (\<forall>i < n. s ! (ref + i) = s ! (ip + i))"
proof (induction n arbitrary: ref ip)
  case (Suc n)
  have "(\<forall>i < Suc n. s ! (ref + i) = s ! (ip + i)) \<longleftrightarrow> s ! ref = s ! ip \<and> (\<forall>i < n. s ! (ref + 1 + i) = s ! (ip + 1 + i))"
    by (auto simp: less_Suc_eq_0_disj)
  then show ?case using Suc.IH [of "ref + 1" "ip + 1"] Suc.prems by simp
qed simp

lemma run_in:
  assumes "1 \<le> ip" and "ip + 2 < length s"
  shows "\<exists>r. flz_run s ip = Inr r \<and> (r \<longrightarrow> agree s ip 1 3)"
proof -
  have "agree s ip 1 3" if "s ! ip = s ! (ip - 1)" and w: "(ucast (s ! (ip - 1)) OR push_bit 8 (ucast (s ! ip)) :: u32)
      = ucast (s ! (ip + 1)) OR push_bit 8 (ucast (s ! (ip + 2)))"
    using u16_inj [OF w] that(1) by (auto simp: agree_def less_Suc_eq numeral_3_eq_3)
  then show ?thesis using assms by (auto simp: flz_run_def READU16_in)
qed

definition table_ok :: "nat \<Rightarrow> nat list \<Rightarrow> bool" where
  "table_ok a htab \<longleftrightarrow> length htab = 8192 \<and> (\<forall>r \<in> set htab. r \<le> a)"

lemma table_ok_update: "table_ok a htab \<Longrightarrow> a \<le> b \<Longrightarrow> table_ok b (htab[h := b])"
  by (auto simp: table_ok_def dest!: set_update_subset_insert [THEN subsetD] intro: order_trans)

lemma table_ok_mono: "table_ok a htab \<Longrightarrow> a \<le> b \<Longrightarrow> table_ok b htab"
  by (auto simp: table_ok_def intro: order_trans)

text \<open>What a match has to satisfy.\<close>

definition found :: "nat \<Rightarrow> bytes \<Rightarrow> nat \<Rightarrow> nat \<Rightarrow> nat \<Rightarrow> bool" where
  "found level s a d len \<longleftrightarrow>
     1 \<le> d \<and> d \<le> a \<and> d < flz_far level \<and> agree s a d len \<and> len = (if level = 2 \<and> 8191 \<le> d then 5 else 3)"

lemma find_in:
  assumes "2 \<le> a" and "a + 12 < length s" and t: "table_ok a htab"
  shows "\<exists>m htab'. flz_find level s a htab = Inr (m, htab') \<and> table_ok a htab'
    \<and> (case m of None \<Rightarrow> True | Some (d, len) \<Rightarrow> found level s a d len)"
proof -
  obtain run where run: "(if level = 2 then flz_run s a else Inr False) = Inr run" "run \<longrightarrow> agree s a 1 3"
    using run_in [of a s] assms(1,2) by (cases "level = 2") auto
  obtain h where h: "HASH_FUNCTION s a = Inr h" "h < 8192" using HASH_in [of a s] assms(2) by auto
  have hl: "h < length htab" using h(2) t by (simp add: table_ok_def)
  let ?ref = "htab ! h" and ?htab = "htab[h := a]"
  have ra: "?ref \<le> a" using t hl by (simp add: table_ok_def)
  have t': "table_ok a ?htab" by (rule table_ok_update [OF t]) simp
  have s3: "flz_same s 3 ?ref a = Inr (agree s a (a - ?ref) 3)"
    using same_in [of ?ref 3 s a] assms(2) ra by (auto simp: agree_def add.commute)
  have s2: "flz_same s 2 (?ref + 3) (a + 3) = Inr (\<forall>i < 2. s ! (?ref + 3 + i) = s ! (a + 3 + i))"
    by (rule same_in) (use assms(2) ra in simp_all)
  have a5: "agree s a (a - ?ref) 5" if "agree s a (a - ?ref) 3" "\<forall>i < 2. s ! (?ref + 3 + i) = s ! (a + 3 + i)"
    using that ra by (auto simp: agree_def less_Suc_eq numeral_eq_Suc add.commute)
  show ?thesis
  proof (cases run)
    case True
    then show ?thesis
      using run t assms(1) by (auto simp: flz_find_def found_def flz_far_def MAX_DISTANCE_def MAX_FARDISTANCE_def)
  next
    case False
    then show ?thesis
      using run h hl t' ra a5
      by (auto simp: flz_find_def Let_def s3 s2 found_def MAX_DISTANCE_def)
  qed
qed


lemma agree_mono: "agree s a d n \<Longrightarrow> m \<le> n \<Longrightarrow> agree s a d m"
  by (simp add: agree_def)

lemma agree_Suc: "agree s a d (ip - a) \<Longrightarrow> a \<le> ip \<Longrightarrow> s ! (ip - d) = s ! ip \<Longrightarrow> agree s a d (Suc ip - a)"
  by (auto simp: agree_def Suc_diff_le less_Suc_eq)

lemma unrolled_in:
  "a \<le> ip \<Longrightarrow> d \<le> ip \<Longrightarrow> ip + n \<le> length s \<Longrightarrow> agree s a d (ip - a)
    \<Longrightarrow> \<exists>stop ip'. flz_unrolled s n (ip - d) ip = Inr (stop, ip')
      \<and> (if stop then ip < ip' \<and> ip' \<le> ip + n \<and> agree s a d (ip' - 1 - a) else ip' = ip + n \<and> agree s a d (ip' - a))"
proof (induction n arbitrary: ip)
  case 0
  then show ?case by (intro exI [of _ False]) auto
next
  case (Suc n)
  show ?case
  proof (cases "s ! (ip - d) = s ! ip")
    case True
    have "ip - d + 1 = ip + 1 - d" using Suc.prems(2) by simp
    moreover have "agree s a d (ip + 1 - a)" using agree_Suc [OF Suc.prems(4,1) True] by simp
    ultimately obtain stop ip' where "flz_unrolled s n (ip - d + 1) (ip + 1) = Inr (stop, ip')"
      "if stop then ip + 1 < ip' \<and> ip' \<le> ip + 1 + n \<and> agree s a d (ip' - 1 - a) else ip' = ip + 1 + n \<and> agree s a d (ip' - a)"
      using Suc.IH [of "ip + 1"] Suc.prems by auto
    then show ?thesis using True Suc.prems by (auto split: if_splits)
  next
    case False
    then show ?thesis using Suc.prems by auto
  qed
qed

lemma compare_in:
  "a \<le> ip \<Longrightarrow> d \<le> ip \<Longrightarrow> b \<le> length s \<Longrightarrow> agree s a d (ip - a)
    \<Longrightarrow> \<exists>ip'. flz_compare s b (ip - d) ip = Inr ip' \<and> ip \<le> ip' \<and> ip' \<le> max ip b \<and> agree s a d (ip' - 1 - a)"
proof (induction "b - ip" arbitrary: ip)
  case 0
  then show ?case by (auto simp: flz_compare.simps [of s b] intro: agree_mono)
next
  case (Suc k)
  then have lt: "ip < b" and k: "k = b - (ip + 1)" by simp_all
  show ?case
  proof (cases "s ! (ip - d) = s ! ip")
    case True
    have "ip - d + 1 = ip + 1 - d" using Suc.prems(2) by simp
    moreover have "agree s a d (ip + 1 - a)" using agree_Suc [OF Suc.prems(4,1) True] by simp
    ultimately obtain ip' where "flz_compare s b (ip - d + 1) (ip + 1) = Inr ip'" "ip + 1 \<le> ip'" "ip' \<le> max (ip + 1) b"
      "agree s a d (ip' - 1 - a)"
      using Suc.hyps(1) [OF k] Suc.prems lt by auto
    then show ?thesis using True lt Suc.prems by (auto simp: flz_compare.simps [of s b "ip - d"])
  next
    case False
    then show ?thesis using lt Suc.prems by (auto simp: flz_compare.simps [of s b "ip - d"])
  qed
qed

lemma run_end_step: "ip < b \<Longrightarrow> ref < length s \<Longrightarrow> s ! ref = x \<Longrightarrow> flz_run_end s x b ref ip = flz_run_end s x b (ref + 1) (ip + 1)"
  by (subst flz_run_end.simps) simp

lemma run_end_stop: "\<not> (ip < b \<and> s ! ref = x) \<Longrightarrow> ref < length s \<Longrightarrow> flz_run_end s x b ref ip = Inr ip"
  by (subst flz_run_end.simps) auto

lemma run_end_in:
  "a < ip \<Longrightarrow> b \<le> length s \<Longrightarrow> \<forall>j. a \<le> j + 1 \<and> j < ip - 1 \<longrightarrow> s ! j = x
    \<Longrightarrow> \<exists>ip'. flz_run_end s x b (ip - 1) ip = Inr ip' \<and> ip \<le> ip' \<and> ip' \<le> max ip b
      \<and> (\<forall>j. a \<le> j + 1 \<and> j < ip' - 1 \<longrightarrow> s ! j = x)"
proof (induction "b - ip" arbitrary: ip)
  case 0
  then show ?case by (auto simp: flz_run_end.simps [of s x b])
next
  case (Suc k)
  then have lt: "ip < b" and k: "k = b - (ip + 1)" by simp_all
  show ?case
  proof (cases "s ! (ip - 1) = x")
    case True
    have "\<forall>j. a \<le> j + 1 \<and> j < ip + 1 - 1 \<longrightarrow> s ! j = x"
    proof (intro allI impI)
      fix j assume j: "a \<le> j + 1 \<and> j < ip + 1 - 1"
      then show "s ! j = x" using Suc.prems(3) True by (cases "j = ip - 1") auto
    qed
    then obtain ip' where "flz_run_end s x b (ip + 1 - 1) (ip + 1) = Inr ip'" "ip + 1 \<le> ip'" "ip' \<le> max (ip + 1) b"
      "\<forall>j. a \<le> j + 1 \<and> j < ip' - 1 \<longrightarrow> s ! j = x"
      using Suc.hyps(1) [OF k] Suc.prems lt by auto
    moreover have "ip - 1 + 1 = ip + 1 - 1" using Suc.prems(1) by simp
    then have "flz_run_end s x b (ip - 1) ip = flz_run_end s x b (ip + 1 - 1) (ip + 1)"
      using run_end_step [of ip b "ip - 1" s x] True lt Suc.prems(2) by simp
    ultimately show ?thesis using lt by (intro exI [of _ ip']) auto
  next
    case False
    then have "flz_run_end s x b (ip - 1) ip = Inr ip" using lt Suc.prems(2) by (intro run_end_stop) auto
    then show ?thesis using Suc.prems by (intro exI [of _ ip]) auto
  qed
qed

lemma extend_in:
  assumes f: "found level s a d len" and "2 \<le> a" and l: "a + 12 < length s"
  shows "\<exists>ip. flz_extend s a d len = Inr ip \<and> a + len < ip \<and> ip \<le> length s \<and> (len = 3 \<longrightarrow> ip < length s)
    \<and> agree s a d (ip - 1 - a)"
proof -
  have d: "1 \<le> d" "d \<le> a" "agree s a d len" "len = 3 \<or> len = 5" using f by (auto simp: found_def split: if_splits)
  let ?b = "length s - 2" and ?ip = "a + len"
  show ?thesis
  proof (cases "d = 1")
    case True
    then have len: "len = 3" using f by (auto simp: found_def)
    have same: "s ! a = s ! (a - 1)" "s ! (a + 1) = s ! a" "s ! (a + 2) = s ! (a + 1)"
      using d(3) unfolding agree_def True len by (auto dest: spec [of _ 0] spec [of _ 1] spec [of _ 2])
    let ?x = "s ! (a + 2)"
    have eq: "\<forall>j. a \<le> j + 1 \<and> j < a + 4 - 1 \<longrightarrow> s ! j = ?x"
    proof (intro allI impI)
      fix j assume "a \<le> j + 1 \<and> j < a + 4 - 1"
      then have "j = a - 1 \<or> j = a \<or> j = a + 1 \<or> j = a + 2" using assms(2) by arith
      then show "s ! j = ?x" using same by auto
    qed
    have "a < a + 4" "?b \<le> length s" by simp_all
    from run_end_in [OF this eq] obtain ip where ip: "flz_run_end s ?x ?b (a + 4 - 1) (a + 4) = Inr ip" "a + 4 \<le> ip" "ip \<le> max (a + 4) ?b"
      "\<forall>j. a \<le> j + 1 \<and> j < ip - 1 \<longrightarrow> s ! j = ?x"
      by blast
    have "flz_run_end s ?x ?b (a + 2) (a + 3) = flz_run_end s ?x ?b (a + 2 + 1) (a + 3 + 1)"
      by (rule run_end_step) (use l in auto)
    also have "a + 2 + 1 = a + 4 - 1" by simp
    also have "a + 3 + 1 = a + 4" by simp
    finally have step: "flz_run_end s ?x ?b (a + 2) (a + 3) = Inr ip" using ip(1) by (simp only:)
    have ipl: "ip < length s" using ip(3) l by simp
    have "agree s a 1 (ip - 1 - a)"
    proof (unfold agree_def, intro allI impI)
      fix i assume "i < ip - 1 - a"
      then have "s ! (a + i) = ?x" "s ! (a + i - 1) = ?x"
        using ip(4) [rule_format, of "a + i"] ip(4) [rule_format, of "a + i - 1"] assms(2) by simp_all
      then show "s ! (a + i) = s ! (a + i - 1)" by simp
    qed
    moreover have "flz_extend s a d len = Inr ip"
    proof -
      have "load s (a + 3 - 1) = Inr ?x" "a + 3 - 1 = a + 2" using l by simp_all
      then show ?thesis using step unfolding flz_extend_def True len Let_def by simp
    qed
    ultimately show ?thesis using True len ip(2) ipl by (intro exI [of _ ip]) auto
  next
    case False
    have ag: "agree s a d (?ip - a)" using d(3) by simp
    have lb: "?ip + 8 \<le> length s" using d(4) l by auto
    obtain stop ip1 where u: "flz_unrolled s 8 (?ip - d) ?ip = Inr (stop, ip1)"
      "if stop then ?ip < ip1 \<and> ip1 \<le> ?ip + 8 \<and> agree s a d (ip1 - 1 - a) else ip1 = ?ip + 8 \<and> agree s a d (ip1 - a)"
      using unrolled_in [OF _ _ lb ag] d(2) by auto
    show ?thesis
    proof (cases stop)
      case True
      then show ?thesis using u lb l False by (intro exI [of _ ip1]) (auto simp: flz_extend_def Let_def)
    next
      case ns: False
      then have i1: "ip1 = ?ip + 8" "agree s a d (ip1 - a)" using u(2) by auto
      obtain ip2 where c: "flz_compare s ?b (ip1 - d) ip1 = Inr ip2" "ip1 \<le> ip2" "ip2 \<le> max ip1 ?b" "agree s a d (ip2 - 1 - a)"
        using compare_in [of a ip1 d ?b s] i1 d(2) by auto
      have "?ip - d + 8 = ip1 - d" using i1(1) d(2) by simp
      then show ?thesis
        using u(1) ns c i1(1) lb l False by (intro exI [of _ ip2]) (auto simp: flz_extend_def Let_def)
    qed
  qed
qed


section \<open>The invariant of the compressor\<close>

text \<open>
  The output is a stream of tokens for what is behind, then the place of a count and the literals
  gathered since.
\<close>

definition flz_out :: "nat \<Rightarrow> bytes \<Rightarrow> nat \<Rightarrow> flz_tok list \<Rightarrow> bytes \<Rightarrow> bool" where
  "flz_out level s ip ts lits \<longleftrightarrow>
     toks_ok level ts [] \<and> toks_run ts [] @ lits = take ip s \<and> length lits < 32 \<and> ip \<le> length s
     \<and> (case ts of [] \<Rightarrow> lits \<noteq> [] | t # _ \<Rightarrow> (\<exists>bs. t = Lits bs))
     \<and> length (toks_bytes level ts) \<le> ip - length lits + (ip - length lits) div 32"

definition flz_inv :: "nat \<Rightarrow> bytes \<Rightarrow> flz \<Rightarrow> bool" where
  "flz_inv level s z \<longleftrightarrow> 2 \<le> z_ip z \<and> table_ok (z_ip z) (z_htab z)
     \<and> (\<exists>ts lits. z_op z = toks_bytes level ts @ 31 # lits \<and> z_copy z = length lits \<and> flz_out level s (z_ip z) ts lits)"

definition closed_toks :: "flz_tok list \<Rightarrow> bytes \<Rightarrow> flz_tok list" where
  "closed_toks ts lits = ts @ (if lits = [] then [] else [Lits lits])"

lemma flz_close_eq: "flz_close (length lits) (toks_bytes level ts @ 31 # lits) = toks_bytes level (closed_toks ts lits)"
proof (cases "lits = []")
  case True
  then show ?thesis by (simp add: flz_close_def closed_toks_def butlast_append)
next
  case False
  have "length (toks_bytes level ts @ 31 # lits) - length lits - 1 = length (toks_bytes level ts)" by simp
  then show ?thesis using False by (simp add: flz_close_def closed_toks_def)
qed

lemma length_255s: "length (flz_255s k) \<le> k + 1"
proof (induction k rule: flz_255s.induct)
  case (1 k)
  then show ?case by (cases "k \<ge> 255") (simp_all add: flz_255s.simps [of k])
qed

lemma length_match1: "1 \<le> len \<Longrightarrow> length (flz_match1 d len) \<le> len + 1"
proof (induction d len rule: flz_match1.induct)
  case (1 d len)
  show ?case
  proof (cases "len > MAX_LEN - 2")
    case True
    then have "1 \<le> len - (MAX_LEN - 2)" by simp
    from 1(1) [OF True this] True show ?thesis by (simp add: flz_match1.simps [of d len] MAX_LEN_def)
  next
    case False
    then show ?thesis using 1(2) by (simp add: flz_match1.simps [of d len])
  qed
qed

lemma length_match:
  assumes "1 \<le> len" and "level = 1 \<or> level = 2" and "level = 2 \<and> 8191 \<le> d \<longrightarrow> 3 \<le> len"
  shows "length (flz_match level d len) \<le> len + 1"
  using assms length_match1 [of len d] length_255s [of "len - 7"]
  by (auto simp: flz_match_def flz_match2_eq len_bytes_def)

lemma closed_toks_size:
  assumes "flz_out level s ip ts lits"
  shows "length (toks_bytes level (closed_toks ts lits)) \<le> ip + ip div 32 + 1"
    and "length (toks_bytes level (closed_toks ts lits)) \<le> ip + (ip - length lits) div 32 + 1"
proof -
  have l: "length lits \<le> ip" "length (toks_bytes level ts) \<le> ip - length lits + (ip - length lits) div 32"
    using assms arg_cong [of _ _ length] by (auto simp: flz_out_def dest: arg_cong [of _ _ length])
  show "length (toks_bytes level (closed_toks ts lits)) \<le> ip + (ip - length lits) div 32 + 1"
    using l by (auto simp: closed_toks_def)
  moreover have "(ip - length lits) div 32 \<le> ip div 32" by (rule div_le_mono) simp
  ultimately show "length (toks_bytes level (closed_toks ts lits)) \<le> ip + ip div 32 + 1" by linarith
qed

lemma closed_toks_out:
  assumes "flz_out level s ip ts lits"
  shows "toks_ok level (closed_toks ts lits) []" and "toks_run (closed_toks ts lits) [] = take ip s"
    and "\<exists>bs us. closed_toks ts lits = Lits bs # us"
proof -
  have "lits \<noteq> [] \<Longrightarrow> 1 \<le> length lits" by (cases lits) auto
  then show "toks_ok level (closed_toks ts lits) []" and "toks_run (closed_toks ts lits) [] = take ip s"
    using assms by (auto simp: flz_out_def closed_toks_def)
  show "\<exists>bs us. closed_toks ts lits = Lits bs # us"
    using assms by (auto simp: flz_out_def closed_toks_def split: list.splits)
qed

lemma literal_inv:
  assumes inv: "flz_inv level s z" and lt: "z_ip z < length s"
  shows "\<exists>z'. flz_literal s z = Inr z' \<and> flz_inv level s z' \<and> z_ip z' = z_ip z + 1"
proof -
  obtain ts lits where z: "z_op z = toks_bytes level ts @ 31 # lits" "z_copy z = length lits" "flz_out level s (z_ip z) ts lits"
    using inv by (auto simp: flz_inv_def)
  let ?b = "s ! z_ip z"
  have t: "table_ok (z_ip z + 1) (z_htab z)" using inv by (auto simp: flz_inv_def intro: table_ok_mono)
  have run: "toks_run ts [] @ lits @ [?b] = take (z_ip z + 1) s"
    using z(3) lt by (simp add: flz_out_def take_Suc_conv_app_nth)
  let ?z1 = "z\<lparr>z_ip := z_ip z + 1, z_op := z_op z @ [?b], z_copy := z_copy z + 1\<rparr>"
  let ?z2 = "if length lits + 1 = 32 then ?z1\<lparr>z_copy := 0, z_op := z_op ?z1 @ [31]\<rparr> else ?z1"
  have f: "flz_literal s z = Inr ?z2"
    using lt by (simp add: flz_literal_def MAX_COPY_def z(2) Let_def)
  have "flz_inv level s ?z2"
  proof (cases "length lits + 1 = 32")
    case True
    have "flz_out level s (z_ip z + 1) (ts @ [Lits (lits @ [?b])]) []"
      using z(3) run lt True by (auto simp: flz_out_def split: list.splits)
    moreover have "toks_bytes level ts @ 31 # lits @ [?b] @ [31] = toks_bytes level (ts @ [Lits (lits @ [?b])]) @ [31]"
      using True by simp
    ultimately show ?thesis
      using True inv t z(1) unfolding flz_inv_def
      by (auto intro!: exI [of _ "ts @ [Lits (lits @ [?b])]"] exI [of _ "[] :: bytes"])
  next
    case False
    have "flz_out level s (z_ip z + 1) ts (lits @ [?b])"
      using z(3) run lt False by (auto simp: flz_out_def split: list.splits)
    then show ?thesis
      using False inv t z(1,2) unfolding flz_inv_def
      by (auto intro!: exI [of _ ts] exI [of _ "lits @ [?b]"])
  qed
  then show ?thesis using f by (intro exI [of _ ?z2]) auto
qed

lemma hash_step_in:
  "z_ip z + 2 < length s \<Longrightarrow> table_ok (z_ip z) (z_htab z) \<Longrightarrow>
    \<exists>h. flz_hash_step s z = Inr (z\<lparr>z_htab := h, z_ip := z_ip z + 1\<rparr>) \<and> table_ok (z_ip z + 1) h"
proof -
  assume "z_ip z + 2 < length s" and t: "table_ok (z_ip z) (z_htab z)"
  then obtain h where "HASH_FUNCTION s (z_ip z) = Inr h" using HASH_in [of "z_ip z" s] by blast
  moreover have "table_ok (z_ip z + 1) ((z_htab z)[h := z_ip z])"
    by (rule table_ok_mono [OF table_ok_update [OF t]]) simp_all
  ultimately show ?thesis by (intro exI [of _ "(z_htab z)[h := z_ip z]"]) (simp add: flz_hash_step_def)
qed

lemma hash_step_out:
  "z_ip z + 2 = length s \<Longrightarrow> flz_hash_step s z = Inl Out_of_bounds"
  by (simp add: flz_hash_step_def HASH_FUNCTION_def FASTLZ_READU16_def load_out)

lemma match_out:
  assumes z: "flz_out level s a ts lits" and f: "found level s a d len" and a: "2 \<le> a" and level: "level = 1 \<or> level = 2"
    and ip: "a + len < ip" "ip \<le> length s" "agree s a d (ip - 1 - a)"
  shows "flz_out level s (ip - 1) (closed_toks ts lits @ [Copy (d - 1) (ip - 3 - a)]) []"
proof -
  let ?us = "closed_toks ts lits"
  note c = closed_toks_out [OF z]
  have d: "1 \<le> d" "d \<le> a" "d < flz_far level" "3 \<le> len" using f by (auto simp: found_def)
  have al: "length (take a s) = a" using z by (simp add: flz_out_def)
  have "d - 1 < (if level = 1 then 8192 else 8191 + 65536)"
    using d level by (auto simp: flz_far_def MAX_DISTANCE_def MAX_FARDISTANCE_def)
  then have ok: "tok_ok level (length (take a s)) (Copy (d - 1) (ip - 3 - a))" using d ip(1) al by auto
  have n: "ip - 3 - a + 2 = ip - 1 - a" "a + (ip - 1 - a) = ip - 1" using d(4) ip(1) by auto
  have "flz_back (d - 1) (ip - 1 - a) (take a s) = take (a + (ip - 1 - a)) s"
  proof (rule flz_back_take)
    show "\<forall>i < ip - 1 - a. s ! (a + i) = s ! (a + i - (d - 1) - 1)"
      using ip(3) d(1) by (simp add: agree_def)
  qed (use d ip n in auto)
  then have "tok_run (Copy (d - 1) (ip - 3 - a)) (take a s) = take (ip - 1) s"
    by (simp only: tok_run.simps n)
  moreover have "length (toks_bytes level (?us @ [Copy (d - 1) (ip - 3 - a)])) \<le> ip - 1 + (ip - 1) div 32"
  proof -
    have "8191 \<le> d - 1 \<and> level = 2 \<longrightarrow> 3 \<le> ip - 3 - a"
      using f ip(1) by (auto simp: found_def split: if_splits)
    then have "length (flz_match level (d - 1) (ip - 3 - a)) \<le> ip - 3 - a + 1"
      using level d(4) ip(1) by (intro length_match) auto
    moreover have "a div 32 \<le> (ip - 1) div 32" by (rule div_le_mono) (use ip(1) in simp)
    moreover have "length (toks_bytes level (?us @ [Copy (d - 1) (ip - 3 - a)]))
      = length (toks_bytes level ?us) + length (flz_match level (d - 1) (ip - 3 - a))" by simp
    ultimately show ?thesis using closed_toks_size(1) [OF z] d(4) ip(1) by linarith
  qed
  ultimately show ?thesis
    using c ok ip(2) by (auto simp: flz_out_def simp del: tok_run.simps tok_ok.simps)
qed

lemma step_in:
  assumes inv: "flz_inv level s z" and l: "z_ip z + 12 < length s" and level: "level = 1 \<or> level = 2"
  shows "(\<exists>z'. flz_step level s z = Inr z' \<and> flz_inv level s z') \<or> level = 2 \<and> flz_step level s z = Inl Out_of_bounds"
proof -
  let ?a = "z_ip z"
  have a: "2 \<le> ?a" "table_ok ?a (z_htab z)" using inv by (auto simp: flz_inv_def)
  obtain m htab where m: "flz_find level s ?a (z_htab z) = Inr (m, htab)" "table_ok ?a htab"
    "case m of None \<Rightarrow> True | Some (d, len) \<Rightarrow> found level s ?a d len"
    using find_in [OF a(1) l a(2)] by blast
  show ?thesis
  proof (cases m)
    case None
    have "flz_inv level s (z\<lparr>z_htab := htab\<rparr>)" using inv m(2) by (auto simp: flz_inv_def)
    from literal_inv [OF this] l show ?thesis using m(1) None by (auto simp: flz_step_def)
  next
    case (Some p)
    obtain d len where p: "p = (d, len)" by fastforce
    have f: "found level s ?a d len" using m(3) Some p by simp
    obtain ip where ip: "flz_extend s ?a d len = Inr ip" "?a + len < ip" "ip \<le> length s" "len = 3 \<longrightarrow> ip < length s"
      "agree s ?a d (ip - 1 - ?a)"
      using extend_in [OF f a(1) l] by blast
    have l3: "3 \<le> len" "len = 3 \<or> level = 2" using f by (auto simp: found_def)
    obtain ts lits where z: "z_op z = toks_bytes level ts @ 31 # lits" "z_copy z = length lits" "flz_out level s ?a ts lits"
      using inv by (auto simp: flz_inv_def)
    let ?ts = "closed_toks ts lits @ [Copy (d - 1) (ip - 3 - ?a)]"
    let ?z1 = "z\<lparr>z_ip := ip - 3, z_op := toks_bytes level ?ts, z_htab := htab, z_copy := 0\<rparr>"
    have st: "flz_step level s z = andthen (flz_hash_step s ?z1) (\<lambda>z. andthen (flz_hash_step s z) (\<lambda>z.
                  Inr (z\<lparr>z_op := z_op z @ [31]\<rparr>)))"
      using m(1) Some p ip(1) by (simp add: flz_step_def z(1,2) flz_close_eq Let_def MAX_COPY_def)
    have "table_ok (ip - 3) htab" using m(2) by (rule table_ok_mono) (use ip(2) l3 in simp)
    moreover have i3: "ip - 3 + 2 < length s" "ip - 3 + 1 = ip - 2" using ip(2,3) l3 by auto
    ultimately obtain h1 where h1: "flz_hash_step s ?z1 = Inr (?z1\<lparr>z_htab := h1, z_ip := ip - 2\<rparr>)" "table_ok (ip - 2) h1"
      using hash_step_in [of ?z1 s] by auto
    let ?z2 = "?z1\<lparr>z_htab := h1, z_ip := ip - 2\<rparr>"
    show ?thesis
    proof (cases "ip < length s")
      case True
      then have "z_ip ?z2 + 2 < length s" "ip - 2 + 1 = ip - 1" using ip(2) l3 by auto
      with hash_step_in [of ?z2 s] h1(2) obtain h2 where
        h2: "flz_hash_step s ?z2 = Inr (?z2\<lparr>z_htab := h2, z_ip := ip - 1\<rparr>)" "table_ok (ip - 1) h2" by auto
      let ?z3 = "z\<lparr>z_ip := ip - 1, z_op := toks_bytes level ?ts @ [31], z_htab := h2, z_copy := 0\<rparr>"
      have "flz_out level s (ip - 1) ?ts []" by (rule match_out [OF z(3) f a(1) level ip(2,3,5)])
      then have "flz_inv level s ?z3"
        unfolding flz_inv_def using h2(2) ip(2) a(1)
        by (intro conjI exI [of _ ?ts] exI [of _ "[] :: bytes"]) simp_all
      moreover have "flz_step level s z = Inr ?z3" unfolding st h1 andthen_simps h2 by simp
      ultimately show ?thesis by blast
    next
      case False
      then have "ip = length s" "level = 2" using ip(3,4) l3 by auto
      moreover have "flz_hash_step s ?z2 = Inl Out_of_bounds"
        by (rule hash_step_out) (use \<open>ip = length s\<close> l in simp)
      ultimately show ?thesis unfolding st h1 andthen_simps by simp
    qed
  qed
qed


lemma loop_in:
  "flz_inv level s z \<Longrightarrow> level = 1 \<or> level = 2 \<Longrightarrow>
    (\<exists>z'. flz_loop level s z = Inr z' \<and> flz_inv level s z') \<or> level = 2 \<and> flz_loop level s z = Inl Out_of_bounds"
proof (induction level s z rule: flz_loop.induct)
  case (1 level s z)
  show ?case
  proof (cases "z_ip z < length s - 12")
    case True
    then have "z_ip z + 12 < length s" by simp
    from step_in [OF 1(2) this 1(3)] 1(1) [OF True] 1(3) True show ?thesis
      by (auto simp: flz_loop.simps [of level s z])
  next
    case False
    then show ?thesis using 1(2) by (simp add: flz_loop.simps [of level s z])
  qed
qed

lemma rest_in:
  "flz_inv level s z \<Longrightarrow> s \<noteq> [] \<Longrightarrow> \<exists>z'. flz_rest s z = Inr z' \<and> flz_inv level s z' \<and> z_ip z' = length s"
proof (induction s z rule: flz_rest.induct)
  case (1 s z)
  show ?case
  proof (cases "z_ip z \<le> length s - 1")
    case True
    then have "z_ip z < length s" using 1(3) by (cases s) auto
    from literal_inv [OF 1(2) this] 1(1) [OF True] 1(3) True show ?thesis
      by (auto simp: flz_rest.simps [of s z])
  next
    case False
    moreover have "z_ip z \<le> length s" using 1(2) by (auto simp: flz_inv_def flz_out_def)
    ultimately show ?thesis using 1(2) by (auto simp: flz_rest.simps [of s z])
  qed
qed

text \<open>What the compressor leaves is a stream of tokens that gives the input back.\<close>

definition packs :: "nat \<Rightarrow> bytes \<Rightarrow> bytes \<Rightarrow> bool" where
  "packs level s z \<longleftrightarrow> (\<exists>bs ts. z = stream level bs ts \<and> 1 \<le> length bs \<and> length bs \<le> 32 \<and> toks_ok level ts bs
     \<and> toks_run ts bs = s) \<and> length z \<le> length s + length s div 32 + 1"

lemma compressor_packs:
  assumes "s \<noteq> []" and level: "level = 1 \<or> level = 2"
  shows "(\<exists>z. FASTLZ_COMPRESSOR level s = Inr z \<and> (packs level s z \<or> packs 1 s z))
    \<or> level = 2 \<and> FASTLZ_COMPRESSOR level s = Inl Out_of_bounds"
proof (cases "length s < 4")
  case True
  then have "packs 1 s (of_nat (length s - 1) # s)"
    using assms(1) by (auto simp: packs_def stream_def Suc_le_eq intro!: exI [of _ s] exI [of _ "[] :: flz_tok list"])
  then show ?thesis using True assms(1) by (simp add: FASTLZ_COMPRESSOR_def)
next
  case False
  let ?z0 = "\<lparr>z_ip = 2, z_op = [of_nat (MAX_COPY - 1), s ! 0, s ! 1], z_htab = replicate HASH_SIZE 0, z_copy = 2\<rparr>"
  have t2: "take 2 s = [s ! 0, s ! 1]" using False by (cases s; cases "tl s") auto
  have "flz_out level s 2 [] [s ! 0, s ! 1]" using False t2 by (simp add: flz_out_def)
  then have i0: "flz_inv level s ?z0"
    unfolding flz_inv_def
    by (intro conjI exI [of _ "[] :: flz_tok list"] exI [of _ "[s ! 0, s ! 1]"])
      (simp_all add: table_ok_def HASH_SIZE_def MAX_COPY_def)
  show ?thesis
  proof (cases "\<exists>z1. flz_loop level s ?z0 = Inr z1 \<and> flz_inv level s z1")
    case True
    then obtain z1 where z1: "flz_loop level s ?z0 = Inr z1" "flz_inv level s z1" by blast
    obtain z2 where z2: "flz_rest s z1 = Inr z2" "flz_inv level s z2" "z_ip z2 = length s"
      using rest_in [OF z1(2) assms(1)] by blast
    obtain ts lits where o: "z_op z2 = toks_bytes level ts @ 31 # lits" "z_copy z2 = length lits" "flz_out level s (length s) ts lits"
      using z2(2,3) by (auto simp: flz_inv_def)
    note c = closed_toks_out [OF o(3)]
    obtain bs us where cs: "closed_toks ts lits = Lits bs # us" using c(3) by blast
    let ?op = "toks_bytes level (closed_toks ts lits)"
    have op: "flz_close (z_copy z2) (z_op z2) = ?op" by (simp add: o(1,2) flz_close_eq)
    have st: "(if level = 2 then (hd ?op OR 32) # tl ?op else ?op) = stream level bs us" by (simp add: cs stream_def)
    have "FASTLZ_COMPRESSOR level s = Inr (stream level bs us)"
      using False assms(1) z1(1) z2(1) st by (cases "level = 2") (simp_all add: FASTLZ_COMPRESSOR_def op Let_def)
    moreover have "length (stream level bs us) = length ?op" by (simp add: cs stream_def)
    then have "packs level s (stream level bs us)"
      unfolding packs_def using c(1,2) closed_toks_size(1) [OF o(3)] cs
      by (intro conjI exI [of _ bs] exI [of _ us]) auto
    ultimately show ?thesis by blast
  next
    case False
    then show ?thesis using loop_in [OF i0 level] \<open>\<not> length s < 4\<close> by (auto simp: FASTLZ_COMPRESSOR_def)
  qed
qed

lemma packs_decompress:
  assumes "packs level s z" and "level = 1 \<or> level = 2" and "length s \<le> maxout" and "maxout < 2 ^ 31"
  shows "snd (fastlz_decompress_c strict (z @ junk) (length s)) = s"
    and "fastlz_decompress_c strict z maxout = (Inr (length s), s)"
proof -
  obtain bs ts where z: "z = stream level bs ts" "1 \<le> length bs" "length bs \<le> 32" "toks_ok level ts bs" "toks_run ts bs = s"
    using assms(1) by (auto simp: packs_def)
  note d = decompress_stream [OF z(2,3,4) assms(2) z(5) assms(3,4), folded z(1)]
  show "snd (fastlz_decompress_c strict (z @ junk) (length s)) = s"
    and "fastlz_decompress_c strict z maxout = (Inr (length s), s)"
    by (rule d)+
qed

section \<open>The decompressor on any input\<close>

lemma more_fault: "flz_more s len ip = Inl e \<Longrightarrow> e = Out_of_bounds"
proof (induction s len ip rule: flz_more.induct)
  case (1 s len ip)
  show ?case
  proof (cases "load s ip")
    case (Inl e')
    then show ?thesis using 1(2) by (auto simp: flz_more.simps [of s len ip] load_def split: if_splits)
  next
    case (Inr code)
    then show ?thesis
      using 1 by (cases "code = 255") (auto simp: flz_more.simps [of s len ip])
  qed
qed

lemma andthen_eq_Inl: "andthen m k = Inl e \<longleftrightarrow> m = Inl e \<or> (\<exists>x. m = Inr x \<and> k x = Inl e)"
  by (cases m) auto

lemma load_eq_Inl: "load s i = Inl e \<longleftrightarrow> e = Out_of_bounds \<and> \<not> i < length s"
  by (auto simp: load_def)

lemma header_fault: "flz_header level s ctrl ip = Inl e \<Longrightarrow> e = Out_of_bounds"
  by (auto simp: flz_header_def Let_def andthen_eq_Inl load_eq_Inl dest: more_fault split: if_splits)

lemma decode_bounds:
  "length out \<le> maxout \<Longrightarrow> flz_decode strict level s maxout ctrl ip out = (r, out')
    \<Longrightarrow> length out' \<le> maxout \<and> (r = Inr (length out') \<or> r = Inr 0 \<or> r = Inl Out_of_bounds)"
proof (induction strict level s maxout ctrl ip out arbitrary: r out' rule: flz_decode.induct)
  case (1 strict level s maxout ctrl ip out)
  note eq = flz_decode.simps [of strict level s maxout ctrl ip out]
  show ?case
  proof (cases "ctrl \<ge> 32")
    case c: True
    show ?thesis
    proof (cases "flz_header level s ctrl ip")
      case (Inl e)
      then show ?thesis using 1(3,4) c header_fault [OF Inl] by (auto simp: eq)
    next
      case (Inr t)
      obtain len d ip' where t: "t = (len, d, ip')" by (cases t) auto
      show ?thesis
      proof (cases "length out + unat len + 3 > maxout \<or> length out < d + 1")
        case True
        then show ?thesis using 1(3,4) c Inr t by (auto simp: eq split: if_splits)
      next
        case False
        let ?copy = "if d = 0 then andthen (load_written out (int (length out) - 1)) (\<lambda>b. Inr (out @ replicate (unat len + 3) b))
                            else flz_copy_ref strict (unat len) (int (length out) - int d - 1) out"
        obtain o' where o: "?copy = Inr o'" "length o' \<le> maxout"
        proof (cases "d = 0")
          case True
          then have "0 < length out" using False by auto
          from load_written_in [OF this] show ?thesis using True False by (intro that [of "out @ replicate (unat len + 3) (out ! (length out - 1))"]) auto
        next
          case d: False
          then show ?thesis
            using that [of "flz_back d (unat len + 3) out"] flz_copy_ref_back [of d out strict "unat len"] False
            by (auto simp del: flz_back.simps)
        qed
        show ?thesis
        proof (cases "flz_next s ip'")
          case None
          then show ?thesis using 1(4) c Inr t False o by (auto simp: eq)
        next
          case (Some c')
          then have "flz_decode strict level s maxout c' (ip' + 1) o' = (r, out')"
            using 1(4) c Inr t False o(1) by (simp add: eq)
          from 1(1) [OF c Inr [unfolded t] refl refl _ _ o(1) Some o(2) this] show ?thesis using False by auto
        qed
      qed
    qed
  next
    case c: False
    show ?thesis
    proof (cases "length out + (ctrl + 1) > maxout \<or> ip + (ctrl + 1) > length s")
      case True
      then show ?thesis using 1(3,4) c by (auto simp: eq split: if_splits)
    next
      case False
      let ?o = "out @ take (ctrl + 1) (drop ip s)" and ?ip = "ip + (ctrl + 1)"
      have l: "length ?o \<le> maxout" using False by (auto simp: min_def)
      show ?thesis
      proof (cases "flz_next s ?ip")
        case None
        then show ?thesis using 1(4) c False l by (auto simp: eq Let_def)
      next
        case (Some c')
        then have d: "flz_decode strict level s maxout c' (?ip + 1) ?o = (r, out')"
          using 1(4) c False by (simp add: eq Let_def)
        show ?thesis using 1(2) [OF c _ _ refl refl Some l d] False by auto
      qed
    qed
  qed
qed


section \<open>One byte too far\<close>

text \<open>
  At level 2 a far match starts with five bytes and not three. The eight comparisons behind it are
  safe, the two updates of the table then read one byte past the input when the match ends there.
  \<open>far_tail\<close> is such an input: a piece of 13 bytes, zeros, and the piece again.
\<close>

definition far_piece :: bytes where
  "far_piece = [10, 11, 12, 13, 14, 15, 16, 17, 18, 19, 20, 21, 22]"

definition far_tail :: "nat \<Rightarrow> bytes" where
  "far_tail n = [1, 2] @ far_piece @ replicate n 0 @ far_piece"


lemma step_literal:
  assumes "2 \<le> z_ip z" "z_ip z + 12 < length s" and ne: "s ! z_ip z \<noteq> s ! (z_ip z - 1)" "s ! z_ip z \<noteq> s ! 0"
    and h: "HASH_FUNCTION s (z_ip z) = Inr h" "h < length (z_htab z)" "z_htab z ! h = 0" and c: "z_copy z < 31"
  shows "flz_step 2 s z = Inr (z\<lparr>z_ip := z_ip z + 1, z_op := z_op z @ [s ! z_ip z],
    z_htab := (z_htab z)[h := z_ip z], z_copy := z_copy z + 1\<rparr>)"
proof -
  have r: "flz_run s (z_ip z) = Inr False" using assms by (simp add: flz_run_def)
  have "flz_same s 3 0 (z_ip z) = Inr (\<forall>i < 3. s ! (0 + i) = s ! (z_ip z + i))"
    by (rule same_in) (use assms(2) in simp_all)
  moreover have "\<not> (\<forall>i < 3. s ! (0 + i) = s ! (z_ip z + i))"
  proof
    assume "\<forall>i < 3. s ! (0 + i) = s ! (z_ip z + i)"
    then have "s ! (0 + 0) = s ! (z_ip z + 0)" by (rule allE [where x = 0]) simp
    then show False using ne(2) by simp
  qed
  ultimately have "flz_same s 3 0 (z_ip z) = Inr False" by simp
  then have "flz_find 2 s (z_ip z) (z_htab z) = Inr (None, (z_htab z)[h := z_ip z])"
    using assms r by (simp add: flz_find_def Let_def)
  then show ?thesis
    using assms(2) c by (simp add: flz_step_def flz_literal_def MAX_COPY_def Let_def)
qed

lemma loop_literals:
  "length hs = k \<Longrightarrow> 2 \<le> z_ip z \<Longrightarrow> z_ip z + k + 12 \<le> length s \<Longrightarrow> z_copy z + k < 32 \<Longrightarrow> length (z_htab z) = 8192
    \<Longrightarrow> \<forall>j < k. s ! (z_ip z + j) \<noteq> s ! (z_ip z + j - 1) \<and> s ! (z_ip z + j) \<noteq> s ! 0
        \<and> HASH_FUNCTION s (z_ip z + j) = Inr (hs ! j)
    \<Longrightarrow> distinct hs \<Longrightarrow> \<forall>h \<in> set hs. h < 8192 \<and> z_htab z ! h = 0
    \<Longrightarrow> \<exists>z'. flz_loop 2 s z = flz_loop 2 s z' \<and> z_ip z' = z_ip z + k \<and> length (z_htab z') = 8192
      \<and> (\<forall>j < k. z_htab z' ! (hs ! j) = z_ip z + j)
      \<and> (\<forall>h < 8192. h \<notin> set hs \<longrightarrow> z_htab z' ! h = z_htab z ! h) \<and> z_copy z' = z_copy z + k"
proof (induction k arbitrary: z hs)
  case 0
  then show ?case by (intro exI [of _ z]) auto
next
  case (Suc k)
  obtain h hs' where hs: "hs = h # hs'" using Suc.prems(1) by (cases hs) auto
  let ?z = "z\<lparr>z_ip := z_ip z + 1, z_op := z_op z @ [s ! z_ip z], z_htab := (z_htab z)[h := z_ip z], z_copy := z_copy z + 1\<rparr>"
  have st: "flz_step 2 s z = Inr ?z"
    by (rule step_literal) (use Suc.prems Suc.prems(6) [rule_format, of 0] in \<open>simp_all add: hs\<close>)
  then have l: "flz_loop 2 s z = flz_loop 2 s ?z"
  proof -
    have "z_ip z < length s - 12" using Suc.prems(3) by arith
    then show ?thesis using st by (subst flz_loop.simps) simp
  qed
  have js: "\<forall>j < k. s ! (z_ip ?z + j) \<noteq> s ! (z_ip ?z + j - 1) \<and> s ! (z_ip ?z + j) \<noteq> s ! 0
        \<and> HASH_FUNCTION s (z_ip ?z + j) = Inr (hs' ! j)"
    using Suc.prems(6) by (auto simp: hs dest: spec [of _ "Suc _"])
  obtain z' where z': "flz_loop 2 s ?z = flz_loop 2 s z'" "z_ip z' = z_ip z + 1 + k" "length (z_htab z') = 8192"
    "\<forall>j < k. z_htab z' ! (hs' ! j) = z_ip z + 1 + j"
    "\<forall>g < 8192. g \<notin> set hs' \<longrightarrow> z_htab z' ! g = z_htab ?z ! g" "z_copy z' = z_copy z + 1 + k"
  proof -
    have hz: "\<forall>g \<in> set hs'. g < 8192 \<and> z_htab ?z ! g = 0"
    proof
      fix g assume g: "g \<in> set hs'"
      then have "g \<noteq> h" using Suc.prems(7) by (auto simp: hs)
      then show "g < 8192 \<and> z_htab ?z ! g = 0" using g Suc.prems(8) by (simp add: hs)
    qed
    have pre: "length hs' = k" "2 \<le> z_ip ?z" "z_ip ?z + k + 12 \<le> length s" "z_copy ?z + k < 32" "length (z_htab ?z) = 8192"
      "distinct hs'"
      using Suc.prems by (simp_all add: hs)
    from Suc.IH [OF pre(1-5) js pre(6) hz] show ?thesis using that by auto
  qed
  have "\<forall>j < Suc k. z_htab z' ! (hs ! j) = z_ip z + j"
  proof (intro allI impI)
    fix j assume "j < Suc k"
    then show "z_htab z' ! (hs ! j) = z_ip z + j"
      using z'(4,5) Suc.prems(5,7,8) by (cases j) (auto simp: hs)
  qed
  then show ?case using l z' Suc.prems(5,8) by (intro exI [of _ z']) (auto simp: hs)
qed

lemma run_end_exact:
  "ref \<le> e \<Longrightarrow> e + 1 \<le> b \<Longrightarrow> e < length s \<Longrightarrow> \<forall>j. ref \<le> j \<and> j < e \<longrightarrow> s ! j = x \<Longrightarrow> s ! e \<noteq> x
    \<Longrightarrow> flz_run_end s x b ref (ref + 1) = Inr (e + 1)"
proof (induction "e - ref" arbitrary: ref)
  case 0
  then show ?case by (simp add: run_end_stop)
next
  case (Suc k)
  then have "s ! ref = x" "ref < length s" "ref + 1 < b" by auto
  then have "flz_run_end s x b ref (ref + 1) = flz_run_end s x b (ref + 1) (ref + 1 + 1)"
    by (intro run_end_step)
  also have "\<dots> = Inr (e + 1)" by (rule Suc.hyps(1)) (use Suc in auto)
  finally show ?case .
qed

lemma unrolled_all:
  "ref + n \<le> length s \<Longrightarrow> ip + n \<le> length s \<Longrightarrow> \<forall>i < n. s ! (ref + i) = s ! (ip + i)
    \<Longrightarrow> flz_unrolled s n ref ip = Inr (False, ip + n)"
proof (induction n arbitrary: ref ip)
  case (Suc n)
  have "s ! ref = s ! ip" using Suc.prems(3) by (auto dest: spec [of _ 0])
  moreover have "\<forall>i < n. s ! (ref + 1 + i) = s ! (ip + 1 + i)" using Suc.prems(3) by (auto dest: spec [of _ "Suc _"])
  ultimately show ?case using Suc.IH [of "ref + 1" "ip + 1"] Suc.prems by simp
qed simp

text \<open>The two ends of the input.\<close>

lemma far_tail_nth:
  "far_tail n ! 0 = 1" "far_tail n ! 1 = 2" "i < 13 \<Longrightarrow> far_tail n ! (2 + i) = far_piece ! i"
  "i < n \<Longrightarrow> far_tail n ! (15 + i) = 0" "i < 13 \<Longrightarrow> far_tail n ! (15 + n + i) = far_piece ! i"
  "length (far_tail n) = n + 28"
proof -
  have l: "length far_piece = 13" by (simp add: far_piece_def)
  have t: "far_tail n = ([1, 2] @ far_piece) @ replicate n 0 @ far_piece" by (simp add: far_tail_def)
  show "far_tail n ! 0 = 1" "far_tail n ! 1 = 2" "length (far_tail n) = n + 28" by (simp_all add: far_tail_def l)
  show "i < 13 \<Longrightarrow> far_tail n ! (2 + i) = far_piece ! i" unfolding t by (simp add: nth_append l)
  show "i < n \<Longrightarrow> far_tail n ! (15 + i) = 0" unfolding t by (simp add: nth_append l del: append_assoc)
  show "i < 13 \<Longrightarrow> far_tail n ! (15 + n + i) = far_piece ! i" unfolding t by (simp add: nth_append l del: append_assoc)
qed


lemma HASH_values:
  assumes "p + 2 < length s" and "s ! p = a" "s ! (p + 1) = b" "s ! (p + 2) = c"
  shows "HASH_FUNCTION s p = Inr (unat (((ucast a OR push_bit 8 (ucast b) :: u32)
    XOR ((ucast b OR push_bit 8 (ucast c)) XOR drop_bit 3 (ucast a OR push_bit 8 (ucast b)))) AND 8191))"
  using assms by (simp add: HASH_FUNCTION_def READU16_in)

lemma far_tail_step1:
  assumes n: "8191 \<le> n" and z0: "z0 = \<lparr>z_ip = 2, z_op = [of_nat (MAX_COPY - 1), far_tail n ! 0, far_tail n ! 1],
      z_htab = replicate HASH_SIZE 0, z_copy = 2\<rparr>"
  shows "\<exists>z1. flz_loop 2 (far_tail n) z0 = flz_loop 2 (far_tail n) z1 \<and> z_ip z1 = 16
    \<and> z_htab z1 ! 1632 = 2 \<and> length (z_htab z1) = 8192"
proof -
  let ?s = "far_tail n"
  let ?hs = "[1632, 134, 672, 194, 7904, 798, 291, 833, 1379, 901, 419, 5313, 20, 0] :: nat list"
  have v: "?s ! 0 = 1" "?s ! Suc 0 = 2" "?s ! 2 = 10" "?s ! 3 = 11" "?s ! 4 = 12" "?s ! 5 = 13" "?s ! 6 = 14" "?s ! 7 = 15"
    "?s ! 8 = 16" "?s ! 9 = 17" "?s ! 10 = 18" "?s ! 11 = 19" "?s ! 12 = 20" "?s ! 13 = 21" "?s ! 14 = 22"
    "?s ! 15 = 0" "?s ! 16 = 0" "?s ! 17 = 0" "length ?s = n + 28"
    using n by (simp_all add: far_tail_def far_piece_def nth_append)
  have all14: "(\<forall>j < 14. P j) \<longleftrightarrow> P 0 \<and> P 1 \<and> P 2 \<and> P 3 \<and> P 4 \<and> P 5 \<and> P 6 \<and> P 7 \<and> P 8 \<and> P 9 \<and> P 10 \<and> P 11 \<and> P 12 \<and> P 13"
    for P :: "nat \<Rightarrow> bool"
  proof -
    have "(\<forall>j < 14. P j) \<longleftrightarrow> (\<forall>j \<in> set [0..<14]. P j)" by auto
    also have "[0..<14] = [0, 1, 2, 3, 4, 5, 6, 7, 8, 9, 10, 11, 12, 13]" by (simp add: upt_rec)
    finally show ?thesis by simp
  qed
  have js: "\<forall>j < 14. ?s ! (z_ip z0 + j) \<noteq> ?s ! (z_ip z0 + j - 1) \<and> ?s ! (z_ip z0 + j) \<noteq> ?s ! 0
        \<and> HASH_FUNCTION ?s (z_ip z0 + j) = Inr (?hs ! j)"
    unfolding all14 by (simp add: z0 v HASH_values)
  have hs: "\<forall>h \<in> set ?hs. h < 8192 \<and> z_htab z0 ! h = 0" by (simp add: z0 HASH_SIZE_def)
  have "\<exists>z'. flz_loop 2 ?s z0 = flz_loop 2 ?s z' \<and> z_ip z' = z_ip z0 + 14 \<and> length (z_htab z') = 8192
      \<and> (\<forall>j < 14. z_htab z' ! (?hs ! j) = z_ip z0 + j)
      \<and> (\<forall>h < 8192. h \<notin> set ?hs \<longrightarrow> z_htab z' ! h = z_htab z0 ! h) \<and> z_copy z' = z_copy z0 + 14"
    by (rule loop_literals [OF _ _ _ _ _ js _ hs]) (simp_all add: z0 v HASH_SIZE_def)
  then show ?thesis unfolding all14 by (auto simp: z0)
qed


lemma far_tail_step2:
  assumes n: "8191 \<le> n" and z: "z_ip z = 16" "length (z_htab z) = 8192" "z_htab z ! 1632 = 2"
  shows "\<exists>z2. flz_loop 2 (far_tail n) z = flz_loop 2 (far_tail n) z2 \<and> z_ip z2 = n + 15
    \<and> z_htab z2 ! 1632 = 2 \<and> length (z_htab z2) = 8192"
proof -
  let ?s = "far_tail n" and ?b = "length (far_tail n) - 2"
  have v: "?s ! 15 = 0" "?s ! 16 = 0" "?s ! 17 = 0" "?s ! 18 = 0" "length ?s = n + 28"
    using n by (simp_all add: far_tail_def far_piece_def nth_append)
  have zs: "\<forall>j. 18 \<le> j \<and> j < n + 15 \<longrightarrow> ?s ! j = 0"
  proof (intro allI impI)
    fix j assume "18 \<le> j \<and> j < n + 15"
    then have "15 + (j - 15) = j" "j - 15 < n" by arith+
    then show "?s ! j = 0" using far_tail_nth(4) [of "j - 15" n] by (simp only:)
  qed
  have e: "?s ! (n + 13) = 0" "?s ! (n + 14) = 0" "?s ! (n + 15) = 10" "?s ! (n + 16) = 11"
    using zs n far_tail_nth(5) [of 0 n] far_tail_nth(5) [of 1 n] by (simp_all add: far_piece_def add.commute)
  have e0: "?s ! (n + 15) \<noteq> 0" unfolding e(3) by simp
  have run: "flz_run ?s 16 = Inr True" by (simp add: flz_run_def READU16_in v)
  have f: "flz_find 2 ?s 16 (z_htab z) = Inr (Some (1, 3), z_htab z)" by (simp add: flz_find_def run)
  have "flz_run_end ?s 0 ?b 18 (18 + 1) = Inr (n + 15 + 1)"
    by (rule run_end_exact) (use n zs e0 v in simp_all)
  then have x: "flz_extend ?s 16 1 3 = Inr (n + 16)" by (simp add: flz_extend_def v Let_def)
  have at: "n + 13 + 1 = n + 14" "n + 13 + 2 = n + 15" "n + 14 + 1 = n + 15" "n + 14 + 2 = n + 16" by simp_all
  have h13: "HASH_FUNCTION ?s (n + 13) = Inr 2560"
    using HASH_values [of "n + 13" ?s 0 0 10, unfolded at, OF _ e(1,2,3)] v by simp
  have h14: "HASH_FUNCTION ?s (n + 14) = Inr 74"
    using HASH_values [of "n + 14" ?s 0 10 11, unfolded at, OF _ e(2,3,4)] v by simp
  let ?z1 = "z\<lparr>z_ip := 13 + n, z_op := flz_close (z_copy z) (z_op z) @ flz_match 2 0 (n - 3), z_htab := z_htab z, z_copy := 0\<rparr>"
  let ?z2 = "?z1\<lparr>z_htab := (z_htab z)[2560 := 13 + n], z_ip := 14 + n\<rparr>"
  let ?z3 = "?z2\<lparr>z_htab := (z_htab z)[2560 := 13 + n, 74 := 14 + n], z_ip := 15 + n\<rparr>"
  have st: "flz_step 2 ?s z = andthen (flz_hash_step ?s ?z1) (\<lambda>z. andthen (flz_hash_step ?s z) (\<lambda>z.
                  Inr (z\<lparr>z_op := z_op z @ [of_nat (MAX_COPY - 1)]\<rparr>)))"
    using x by (simp add: flz_step_def z(1) f Let_def)
  have h1: "flz_hash_step ?s ?z1 = Inr ?z2" by (simp add: flz_hash_step_def h13 [unfolded add.commute [of n]])
  have h2: "flz_hash_step ?s ?z2 = Inr ?z3" by (simp add: flz_hash_step_def h14 [unfolded add.commute [of n]])
  let ?z4 = "?z3\<lparr>z_op := z_op ?z3 @ [of_nat (MAX_COPY - 1)]\<rparr>"
  have "flz_step 2 ?s z = Inr ?z4" unfolding st h1 andthen_simps h2 by simp
  then have "flz_loop 2 ?s z = flz_loop 2 ?s ?z4" using z(1) v n by (subst flz_loop.simps) simp
  then show ?thesis using z(2,3) by (intro exI [of _ ?z4]) simp
qed

lemma far_tail_step3:
  assumes n: "8191 \<le> n" "n < 73000" and z: "z_ip z = n + 15" "length (z_htab z) = 8192" "z_htab z ! 1632 = 2"
  shows "flz_loop 2 (far_tail n) z = Inl Out_of_bounds"
proof -
  let ?s = "far_tail n" and ?a = "n + 15"
  have len: "length ?s = n + 28" by (rule far_tail_nth)
  have pc: "?s ! (?a + i) = far_piece ! i" "?s ! (2 + i) = far_piece ! i" if "i < 13" for i
    using far_tail_nth(3,5) [OF that, of n] by (simp_all add: add.commute)
  have same: "?s ! (2 + i) = ?s ! (?a + i)" if "i < 13" for i using pc that by simp
  have p: "?s ! ?a = 10" "?s ! (?a + 1) = 11" "?s ! (?a + 2) = 12" "?s ! (?a - 1) = 0"
    using pc(1) [of 0] pc(1) [of 1] pc(1) [of 2] far_tail_nth(4) [of "n - 1" n] n(1)
    by (simp_all add: far_piece_def)
  have run: "flz_run ?s ?a = Inr False" using p len by (simp add: flz_run_def)
  have h: "HASH_FUNCTION ?s ?a = Inr 1632" using HASH_values [of ?a ?s 10 11 12] p len by simp
  have s3: "flz_same ?s 3 2 ?a = Inr True"
    by (subst same_in) (use len same n in auto)
  have s2: "flz_same ?s 2 (2 + 3) (?a + 3) = Inr True"
    by (subst same_in) (use len same [of "3 + _"] n in \<open>auto simp: add.assoc\<close>)
  have s2': "flz_same ?s 2 5 (18 + n) = Inr True" using s2 by (simp add: add.commute)
  have f: "flz_find 2 ?s ?a (z_htab z) = Inr (Some (n + 13, 5), (z_htab z)[1632 := ?a])"
    using n by (simp add: flz_find_def run h z s3 s2' Let_def flz_far_def MAX_FARDISTANCE_def MAX_DISTANCE_def)
  have u: "flz_unrolled ?s 8 7 (?a + 5) = Inr (False, ?a + 5 + 8)"
    by (rule unrolled_all) (use len same [of "5 + _"] n in \<open>auto simp: add.assoc\<close>)
  have x: "flz_extend ?s ?a (n + 13) 5 = Inr (n + 28)"
    using u by (simp add: flz_extend_def Let_def flz_compare.simps len)
  have "flz_step 2 ?s z = Inl Out_of_bounds"
  proof -
    obtain h1 where h1: "HASH_FUNCTION ?s (25 + n) = Inr h1" using HASH_in [of "25 + n" ?s] len by auto
    have h2: "HASH_FUNCTION ?s (26 + n) = Inl Out_of_bounds"
      by (simp add: HASH_FUNCTION_def FASTLZ_READU16_def load_out len)
    show ?thesis
      using h1 h2 by (simp add: flz_step_def z(1) f x Let_def flz_hash_step_def)
  qed
  then show ?thesis using z(1) len by (simp add: flz_loop.simps [of 2 ?s z])
qed

section \<open>Properties\<close>

text \<open>
  C6. FastLZ: below 64 KiB \<open>fastlz_compress\<close> always ends and stays inside its input; whenever it ends, and
  at either level, the result is at most a 32nd and one byte longer than the input, and
  \<open>fastlz_decompress\<close> gives the input back with its length, with either way of copying. With bytes
  behind the stream, which the reader of a block does hand over, the output is the same, whatever is
  returned.
\<close>

theorem fastlz_roundtrip:
  assumes "s \<noteq> []" and "length s < 2 ^ 31"
  shows "(length s < 65536 \<longrightarrow> (\<exists>z. fastlz_compress_c s = Inr z))
    \<and> (\<forall>z. fastlz_compress_c s = Inr z \<or> fastlz_compress_level 1 s = Inr z \<or> fastlz_compress_level 2 s = Inr z
        \<longrightarrow> length z \<le> length s + length s div 32 + 1
          \<and> fastlz_decompress_c strict z (length s) = (Inr (length s), s)
          \<and> snd (fastlz_decompress_c strict (z @ junk) (length s)) = s)"
proof -
  have level: "(1 :: nat) = 1 \<or> (1 :: nat) = 2" "(2 :: nat) = 1 \<or> (2 :: nat) = 2" by simp_all
  have gives: "length z \<le> length s + length s div 32 + 1
          \<and> fastlz_decompress_c strict z (length s) = (Inr (length s), s)
          \<and> snd (fastlz_decompress_c strict (z @ junk) (length s)) = s" if "packs 1 s z \<or> packs 2 s z" for z
  proof -
    have "packs level s z \<Longrightarrow> level = 1 \<or> level = 2 \<Longrightarrow> ?thesis" for level
      using packs_decompress [of level s z, OF _ _ order_refl assms(2)] by (simp add: packs_def)
    from this [of 1] this [of 2] that show ?thesis by blast
  qed
  have one: "\<exists>z. FASTLZ_COMPRESSOR 1 s = Inr z \<and> packs 1 s z"
    using compressor_packs [OF assms(1) level(1)] by auto
  have two: "packs 1 s z \<or> packs 2 s z" if "FASTLZ_COMPRESSOR 2 s = Inr z" for z
    using compressor_packs [OF assms(1) level(2)] that by auto
  show ?thesis
  proof (intro conjI impI allI)
    show "\<exists>z. fastlz_compress_c s = Inr z" if "length s < 65536" using one that by (auto simp: fastlz_compress_c_def)
    fix z
    assume "fastlz_compress_c s = Inr z \<or> fastlz_compress_level 1 s = Inr z \<or> fastlz_compress_level 2 s = Inr z"
    then have "packs 1 s z \<or> packs 2 s z"
      using one two by (auto simp: fastlz_compress_c_def fastlz_compress_level_def split: if_splits)
    from gives [OF this] show "length z \<le> length s + length s div 32 + 1"
      "fastlz_decompress_c strict z (length s) = (Inr (length s), s)"
      "snd (fastlz_decompress_c strict (z @ junk) (length s)) = s" by blast+
  qed
qed

lemma fastlz_roundtrip_witness:
  "\<exists>z. fastlz_compress_c (replicate 40 97 @ [1, 2, 3]) = Inr z \<and> length z \<le> 45
    \<and> fastlz_decompress_c False z 43 = (Inr 43, replicate 40 97 @ [1, 2, 3])
    \<and> snd (fastlz_decompress_c False (z @ [7]) 43) = replicate 40 97 @ [1, 2, 3]"
proof -
  let ?s = "replicate 40 97 @ [1, 2, 3] :: bytes"
  have "?s \<noteq> []" "length ?s < 2 ^ 31" "length ?s = 43" by simp_all
  with fastlz_roundtrip [of ?s False "[7]"] show ?thesis by auto
qed

text \<open>
  C35. The decompressor on any input, damaged or not: it never puts more than \<open>maxout\<close> bytes into the
  output, and no copy reads the output before its first byte or behind its last written one: \<open>Unwritten\<close>,
  the fault of such a read, is not among the results, whatever distance a damaged match announces. It
  returns the number of bytes put there, or 0, or reads its input past the end, the only accesses with the
  fault \<open>Out_of_bounds\<close>. The last happens: a match cut off behind its first byte is read on.
\<close>

theorem fastlz_decompress_safe:
  "length (snd (fastlz_decompress_c strict s maxout)) \<le> maxout
    \<and> fst (fastlz_decompress_c strict s maxout)
      \<in> {Inr (length (snd (fastlz_decompress_c strict s maxout))), Inr 0, Inl Out_of_bounds}
    \<and> fastlz_decompress_c strict [0, b, 32] (Suc maxout) = (Inl Out_of_bounds, [b])"
proof -
  have "length (snd (fastlz_decompress_c strict s maxout)) \<le> maxout
    \<and> fst (fastlz_decompress_c strict s maxout)
      \<in> {Inr (length (snd (fastlz_decompress_c strict s maxout))), Inr 0, Inl Out_of_bounds}"
  proof (cases s)
    case (Cons c cs)
    have "length o' \<le> maxout \<and> (r = Inr (length o') \<or> r = Inr 0 \<or> r = Inl Out_of_bounds)"
      if "flz_decode strict level s maxout (unat (c AND 31)) 1 [] = (r, o')" for level r o'
      using decode_bounds [OF _ that] by simp
    then show ?thesis
      by (cases "flz_decode strict (unat c div 32 + 1) s maxout (unat (c AND 31)) 1 []")
        (auto simp: fastlz_decompress_c_def FASTLZ_DECOMPRESSOR_def Cons Let_def)
  qed (simp add: fastlz_decompress_c_def load_def)
  moreover have "fastlz_decompress_c strict [0, b, 32] (Suc maxout) = (Inl Out_of_bounds, [b])"
    by (simp add: fastlz_decompress_c_def FASTLZ_DECOMPRESSOR_def flz_decode.simps flz_next_def flz_header_def load_out)
  ultimately show ?thesis by blast
qed

text \<open>
  At level 2 \<open>fastlz_compress\<close> can read one byte past its input: for a far match that ends with the
  input, the second update of the table after it takes its last byte from behind the end.
\<close>

theorem fastlz_compress_reads_past:
  assumes "65536 \<le> length (far_tail n)" and "n < 73000"
  shows "fastlz_compress_c (far_tail n) = Inl Out_of_bounds"
proof -
  let ?s = "far_tail n"
  let ?z0 = "\<lparr>z_ip = 2, z_op = [of_nat (MAX_COPY - 1), ?s ! 0, ?s ! 1], z_htab = replicate HASH_SIZE 0, z_copy = 2\<rparr>"
  have n: "8191 \<le> n" using assms by (simp add: far_tail_nth)
  obtain z1 where z1: "flz_loop 2 ?s ?z0 = flz_loop 2 ?s z1" "z_ip z1 = 16" "length (z_htab z1) = 8192" "z_htab z1 ! 1632 = 2"
    using far_tail_step1 [OF n refl] by blast
  obtain z2 where z2: "flz_loop 2 ?s z1 = flz_loop 2 ?s z2" "z_ip z2 = n + 15" "length (z_htab z2) = 8192" "z_htab z2 ! 1632 = 2"
    using far_tail_step2 [OF n z1(2,3,4)] by blast
  have "flz_loop 2 ?s ?z0 = Inl Out_of_bounds"
    unfolding z1(1) z2(1) by (rule far_tail_step3 [OF n assms(2) z2(2,3,4)])
  then show ?thesis using assms(1) by (simp add: fastlz_compress_c_def FASTLZ_COMPRESSOR_def)
qed

lemma fastlz_compress_reads_past_witness: "fastlz_compress_c (far_tail 65536) = Inl Out_of_bounds"
  by (rule fastlz_compress_reads_past) (simp_all add: far_tail_nth)

end
