(* ===== verification/Block_FastLZ.thy ===== *)
theory Block_FastLZ
  imports Block_Roundtrip FastLZ_Roundtrip
begin

text \<open>
  FastLZ inside a block: with the compressor and the decompressor of \<open>fastlz.c\<close> in the places of the
  two arguments, what the round trip of a block asks of them holds.
\<close>

text \<open>A run stored as it is and another one stored compressed do not have the same bytes.\<close>

definition no_clash :: "packers \<Rightarrow> fstWriterContext \<Rightarrow> nat \<Rightarrow> (nat \<Rightarrow> (u32 \<times> bytes) list) \<Rightarrow> bool" where
  "no_clash pk xw m G \<longleftrightarrow>
     (\<forall>t < m. \<forall>u < m. G t \<noteq> [] \<and> G u \<noteq> []
        \<and> snd (pack_chain pk xw (run_of (valpos xw ! (4 * t + 1)) (G t))) = 0
        \<and> snd (pack_chain pk xw (run_of (valpos xw ! (4 * u + 1)) (G u))) \<noteq> 0
      \<longrightarrow> fst (pack_chain pk xw (run_of (valpos xw ! (4 * t + 1)) (G t)))
        \<noteq> fst (pack_chain pk xw (run_of (valpos xw ! (4 * u + 1)) (G u))))"

text \<open>What is left to show of a compressor: runs come back, and equal bytes stand for runs of one length.\<close>

lemma packs_backI:
  assumes "no_clash pk xw m G"
    and stored: "\<And>t. t < m \<Longrightarrow> case pack_chain pk xw (run_of (valpos xw ! (4 * t + 1)) (G t)) of (d, h) \<Rightarrow>
      stored_as up packtype (run_of (valpos xw ! (4 * t + 1)) (G t)) d h"
    and same: "\<And>t t' d h h'. t < m \<Longrightarrow> t' < m \<Longrightarrow> pack_chain pk xw (run_of (valpos xw ! (4 * t + 1)) (G t)) = (d, h)
      \<Longrightarrow> pack_chain pk xw (run_of (valpos xw ! (4 * t' + 1)) (G t')) = (d, h') \<Longrightarrow> h \<noteq> 0 \<Longrightarrow> h' \<noteq> 0 \<Longrightarrow> h = h'"
  shows "packs_back up packtype pk xw m G"
proof -
  let ?run = "\<lambda>t. run_of (valpos xw ! (4 * t + 1)) (G t)"
  have "headers_agree (items_of pk xw G m)"
    unfolding headers_agree_def
  proof (intro allI impI)
    fix d h h'
    assume "Some (d, h) \<in> set (items_of pk xw G m) \<and> Some (d, h') \<in> set (items_of pk xw G m)"
    then obtain t t' where t: "t < m" "G t \<noteq> []" "pack_chain pk xw (?run t) = (d, h)"
      "t' < m" "G t' \<noteq> []" "pack_chain pk xw (?run t') = (d, h')"
      by (auto simp: items_of_def item_of_def split: if_splits)
    show "h = h'"
    proof (cases "h = 0 \<or> h' = 0")
      case True
      then show ?thesis using t assms(1) unfolding no_clash_def by (metis fst_conv snd_conv)
    next
      case False
      then show ?thesis using same [OF t(1,4,3,6)] by simp
    qed
  qed
  then show ?thesis using stored by (auto simp: packs_back_def)
qed

definition uses_fastlz :: "bool \<Rightarrow> packers \<Rightarrow> unpackers \<Rightarrow> bool" where
  "uses_fastlz strict pk up \<longleftrightarrow>
     (\<forall>s z. fastlz_compress_c s = Inr z \<longrightarrow> fastlz_compress pk s = z)
     \<and> (\<forall>s n. fastlz_decompress up s n = snd (fastlz_decompress_c strict s n))"

lemma fastlz_short:
  assumes "s \<noteq> []" and "length s < 65536"
  obtains z where "fastlz_compress_c s = Inr z" and "\<And>junk. snd (fastlz_decompress_c strict (z @ junk) (length s)) = s"
  using compressor_packs [OF assms(1), of 1] packs_decompress(1) [of 1 s _ "length s"] assms(2) by (auto simp: fastlz_compress_c_def)

lemma fastlz_stored:
  assumes u: "uses_fastlz strict pk up" and p: "fastpack xw" "\<not> fourpack xw" and r: "length run < 65536"
    and pc: "pack_chain pk xw run = (d, h)"
  shows "stored_as up (uint (ascii CHR ''F'')) run d h"
proof -
  have ur: "unat (of_nat (length run) :: u32) = length run" using r by (simp add: unat_of_nat_32)
  show ?thesis
  proof (cases "length run > 32 \<and> length (fastlz_compress pk run) < length run")
    case True
    then have h: "d = fastlz_compress pk run" "h = of_nat (length run)" using pc p by (auto simp: pack_chain_def Let_def)
    have h0: "h \<noteq> 0"
    proof
      assume "h = 0"
      then have "length run = 0" using ur by (simp add: h(2))
      then show False using True by simp
    qed
    have "run \<noteq> []" using True by auto
    then obtain z where "fastlz_compress_c run = Inr z" "\<And>junk. snd (fastlz_decompress_c strict (z @ junk) (length run)) = run"
      using fastlz_short [OF _ r] by blast
    then show ?thesis
      using u ur h0 h(2) by (auto simp: h(1) stored_as_def unpack_run_def uses_fastlz_def ascii_def)
  next
    case False
    then have "d = run" "h = 0" using pc p by (auto simp: pack_chain_def Let_def split: if_splits)
    then show ?thesis by (simp add: stored_as_def)
  qed
qed

lemma fastlz_same_bytes:
  assumes u: "uses_fastlz strict pk up" and p: "fastpack xw" "\<not> fourpack xw" and r: "length r1 < 65536" "length r2 < 65536"
    and pc: "pack_chain pk xw r1 = (d, h1)" "pack_chain pk xw r2 = (d, h2)" and nz: "h1 \<noteq> 0" "h2 \<noteq> 0"
  shows "h1 = h2"
proof -
  have e: "length r > 32" "d = fastlz_compress pk r" "h = of_nat (length r)" if "pack_chain pk xw r = (d, h)" "h \<noteq> 0" for r h
    using that p by (auto simp: pack_chain_def Let_def split: if_splits)
  have packed: "\<exists>z. fastlz_compress_c r = Inr z \<and> packs 1 r z \<and> d = z" if "pack_chain pk xw r = (d, h)" "h \<noteq> 0" "length r < 65536" for r h
  proof -
    have "r \<noteq> []" using e(1) [OF that(1,2)] by auto
    then show ?thesis using compressor_packs [of r 1] that(3) e(2) [OF that(1,2)] u by (auto simp: fastlz_compress_c_def uses_fastlz_def)
  qed
  obtain z where z: "packs 1 r1 z" "packs 1 r2 z"
    using packed [OF pc(1) nz(1) r(1)] packed [OF pc(2) nz(2) r(2)] by auto
  have "fastlz_decompress_c strict z 65536 = (Inr (length r1), r1)" "fastlz_decompress_c strict z 65536 = (Inr (length r2), r2)"
    using packs_decompress(2) [OF z(1), of 65536] packs_decompress(2) [OF z(2), of 65536] r by simp_all
  then have "r1 = r2" by simp
  then show ?thesis using e(3) [OF pc(1) nz(1)] e(3) [OF pc(2) nz(2)] by simp
qed


section \<open>Properties\<close>

text \<open>
  C40. In a block packed with FastLZ the round trip of blocks asks nothing of the compressor: when the
  two arguments are the modelled \<open>fastlz_compress\<close> and the memory the modelled \<open>fastlz_decompress\<close> leaves,
  and no run has 64 KiB, every stored run is unpacked as it was, though the reader hands over bytes
  behind the stream.
\<close>

theorem fastlz_packs_back:
  assumes "uses_fastlz strict pk up" and "fastpack xw" and "\<not> fourpack xw" and "no_clash pk xw m G"
    and small: "\<forall>t < m. length (run_of (valpos xw ! (4 * t + 1)) (G t)) < 65536"
  shows "packs_back up (uint (ascii CHR ''F'')) pk xw m G"
proof (rule packs_backI [OF assms(4)])
  show "case pack_chain pk xw (run_of (valpos xw ! (4 * t + 1)) (G t)) of (d, h) \<Rightarrow>
      stored_as up (uint (ascii CHR ''F'')) (run_of (valpos xw ! (4 * t + 1)) (G t)) d h" if "t < m" for t
    using fastlz_stored [OF assms(1-3)] small that by (auto split: prod.split)
qed (use fastlz_same_bytes [OF assms(1-3)] small in blast)

definition fastlz_demo_packers :: packers where
  "fastlz_demo_packers = plain_packers\<lparr>fastlz_compress := \<lambda>s. (case fastlz_compress_c s of Inl _ \<Rightarrow> [] | Inr z \<Rightarrow> z)\<rparr>"

definition fastlz_demo_unpackers :: unpackers where
  "fastlz_demo_unpackers = plain_unpackers\<lparr>fastlz_decompress := \<lambda>s n. snd (fastlz_decompress_c True s n)\<rparr>"

lemma fastlz_packs_back_witness:
  "packs_back fastlz_demo_unpackers (uint (ascii CHR ''F'')) fastlz_demo_packers
    (demo_block_writer\<lparr>fastpack := True, fourpack := False\<rparr>) 2 (\<lambda>_. [(0, [49])])"
proof (rule fastlz_packs_back)
  show "uses_fastlz True fastlz_demo_packers fastlz_demo_unpackers"
    by (simp add: uses_fastlz_def fastlz_demo_packers_def fastlz_demo_unpackers_def)
  have r: "run_of 1 [(0, [49])] = [2]" by code_simp
  have v: "valpos (demo_block_writer\<lparr>fastpack := True, fourpack := False\<rparr>) = [0, 1, 1, 0, 1, 1, 7, 0]"
    by (simp add: demo_block_writer_def)
  show "no_clash fastlz_demo_packers (demo_block_writer\<lparr>fastpack := True, fourpack := False\<rparr>) 2 (\<lambda>_. [(0, [49])])"
    using r by (auto simp: no_clash_def v pack_chain_def less_2_cases_iff)
  show "\<forall>t<2. length (run_of (valpos (demo_block_writer\<lparr>fastpack := True, fourpack := False\<rparr>) ! (4 * t + 1)) [(0, [49])]) < 65536"
    using r by (auto simp: v less_2_cases_iff)
qed simp_all

end
