(* ===== verification/LZ4_Decompress.thy ===== *)
theory LZ4_Decompress
  imports Prelude
begin

text \<open>
  The decompressor of \<open>lz4.c\<close> as \<open>fstapi.c\<close> calls it: \<open>LZ4_decompress_safe_partial\<close>, which is
  \<open>LZ4_decompress_generic\<close> with \<open>partial_decode\<close> and \<open>noDict\<close>, on a 64-bit little-endian machine with
  \<open>LZ4_FAST_DEC_LOOP\<close>. Pointers into the input and into the output are offsets; every access is checked
  against the input as it was handed over and against the output buffer, and \<open>memcpy\<close> faults on ranges
  that overlap. The branches of other instances (dictionaries, \<open>decode_full_block\<close>) are left out, as are
  the checks for an address that wraps around, which cannot happen for an input below \<open>2 ^ 31\<close> bytes.
\<close>

section \<open>Memory\<close>

text \<open>\<open>memcpy\<close> into \<open>dst\<close> at \<open>d\<close>, from the input or, without one, from \<open>dst\<close> itself.\<close>

definition LZ4_memcpy :: "bytes option \<Rightarrow> bytes \<Rightarrow> nat \<Rightarrow> nat \<Rightarrow> nat \<Rightarrow> bytes outcome" where
  "LZ4_memcpy src dst d s n =
     (case src of
        Some src \<Rightarrow> andthen (load_n src s n) (store_n dst d)
      | None \<Rightarrow> if n \<noteq> 0 \<and> s < d + n \<and> d < s + n then Inl Overlap else andthen (load_n dst s n) (store_n dst d))"

definition LZ4_readLE16 :: "bytes \<Rightarrow> nat \<Rightarrow> nat outcome" where
  "LZ4_readLE16 src p = andthen (load_n src p 2) (\<lambda>w. Inr (unat (w ! 0) + 256 * unat (w ! 1)))"

text \<open>Copies that go on past their end \<open>e\<close>, by up to 7 and up to 31 bytes.\<close>

function LZ4_wildCopy8 :: "bytes option \<Rightarrow> bytes \<Rightarrow> nat \<Rightarrow> nat \<Rightarrow> nat \<Rightarrow> bytes outcome" where
  "LZ4_wildCopy8 src dst d s e =
     andthen (LZ4_memcpy src dst d s 8) (\<lambda>dst.
       if d + 8 < e then LZ4_wildCopy8 src dst (d + 8) (s + 8) e else Inr dst)"
  by pat_completeness auto
termination
  by (relation "measure (\<lambda>(src, dst, d, s, e). e - d)") auto

function LZ4_wildCopy32 :: "bytes option \<Rightarrow> bytes \<Rightarrow> nat \<Rightarrow> nat \<Rightarrow> nat \<Rightarrow> bytes outcome" where
  "LZ4_wildCopy32 src dst d s e =
     andthen (LZ4_memcpy src dst d s 16) (\<lambda>dst. andthen (LZ4_memcpy src dst (d + 16) (s + 16) 16) (\<lambda>dst.
       if d + 32 < e then LZ4_wildCopy32 src dst (d + 32) (s + 32) e else Inr dst))"
  by pat_completeness auto
termination
  by (relation "measure (\<lambda>(src, dst, d, s, e). e - d)") auto

text \<open>\<open>*op++ = *match++\<close>, \<open>n\<close> times.\<close>

primrec byte_copy :: "nat \<Rightarrow> nat \<Rightarrow> nat \<Rightarrow> bytes \<Rightarrow> bytes outcome" where
  "byte_copy 0 d s dst = Inr dst"
| "byte_copy (Suc n) d s dst =
     andthen (load dst s) (\<lambda>b. andthen (store_n dst d [b]) (byte_copy n (d + 1) (s + 1)))"

definition inc32table :: "nat list" where "inc32table = [0, 1, 2, 1, 0, 4, 4, 4]"
definition dec64table :: "int list" where "dec64table = [0, 0, 0, -1, -4, 1, 2, 3]"

text \<open>The first eight bytes of a match, and where the match goes on, at a distance of at least eight.\<close>

definition first_eight :: "bytes \<Rightarrow> nat \<Rightarrow> nat \<Rightarrow> nat \<Rightarrow> (bytes \<times> nat) outcome" where
  "first_eight dst d s offset =
     (if offset < 8
      then andthen (store_n dst d [0, 0, 0, 0]) (\<lambda>dst.
           andthen (byte_copy 4 d s dst) (\<lambda>dst.
           let s = s + inc32table ! offset
           in andthen (LZ4_memcpy None dst (d + 4) s 4) (\<lambda>dst.
              Inr (dst, nat (int s - dec64table ! offset)))))
      else andthen (LZ4_memcpy None dst d s 8) (\<lambda>dst. Inr (dst, s + 8)))"

definition LZ4_memcpy_using_offset_base :: "bytes \<Rightarrow> nat \<Rightarrow> nat \<Rightarrow> nat \<Rightarrow> nat \<Rightarrow> bytes outcome" where
  "LZ4_memcpy_using_offset_base dst d s e offset =
     andthen (first_eight dst d s offset) (\<lambda>(dst, s). LZ4_wildCopy8 None dst (d + 8) s e)"

function fill_pattern :: "bytes \<Rightarrow> bytes \<Rightarrow> nat \<Rightarrow> nat \<Rightarrow> bytes outcome" where
  "fill_pattern v dst d e =
     (if d < e then andthen (store_n dst d v) (\<lambda>dst. fill_pattern v dst (d + 8) e) else Inr dst)"
  by pat_completeness auto
termination
  by (relation "measure (\<lambda>(v, dst, d, e). e - d)") auto

declare LZ4_wildCopy8.simps [simp del] LZ4_wildCopy32.simps [simp del] fill_pattern.simps [simp del]

definition LZ4_memcpy_using_offset :: "bytes \<Rightarrow> nat \<Rightarrow> nat \<Rightarrow> nat \<Rightarrow> nat \<Rightarrow> bytes outcome" where
  "LZ4_memcpy_using_offset dst d s e offset =
     (let pattern = (\<lambda>v. andthen (store_n dst d v) (\<lambda>dst. fill_pattern v dst (d + 8) e))
      in if offset = 1 then andthen (load dst s) (\<lambda>b. pattern (replicate 8 b))
         else if offset = 2 then andthen (load_n dst s 2) (\<lambda>w. pattern (w @ w @ w @ w))
         else if offset = 4 then andthen (load_n dst s 4) (\<lambda>w. pattern (w @ w))
         else LZ4_memcpy_using_offset_base dst d s e offset)"

section \<open>Lengths\<close>

text \<open>The bytes that are added to a length of 15: the sum, or nothing for \<open>rvl_error\<close>, and \<open>ip\<close>.\<close>

function read_more :: "bytes \<Rightarrow> int \<Rightarrow> nat \<Rightarrow> nat \<Rightarrow> (nat option \<times> nat) outcome" where
  "read_more src ilimit len ip =
     andthen (load src ip) (\<lambda>s.
       let len = len + unat s; ip = ip + 1
       in if int ip > ilimit then Inr (None, ip)
          else if s = 255 then read_more src ilimit len ip
          else Inr (Some len, ip))"
  by pat_completeness auto
termination
  by (relation "measure (\<lambda>(src, ilimit, len, ip). length src - ip)") (auto simp: load_eq_Inr)

declare read_more.simps [simp del]

definition read_variable_length :: "bytes \<Rightarrow> nat \<Rightarrow> int \<Rightarrow> bool \<Rightarrow> (nat option \<times> nat) outcome" where
  "read_variable_length src ip ilimit initial_check =
     (if initial_check \<and> int ip \<ge> ilimit then Inr (None, ip) else read_more src ilimit 0 ip)"

section \<open>Decoding\<close>

record dec =
  d_ip :: nat
  d_op :: nat
  d_mem :: bytes

text \<open>
  Where the control goes: to the next sequence, to one of the labels \<open>safe_literal_copy\<close>, with the
  token and the count of literals, and \<open>safe_match_copy\<close>, with the offset and the length, or to the end.
\<close>

datatype goes =
    Next dec
  | Safe_literals dec nat nat
  | Safe_match dec nat nat
  | Finished dec
  | Output_error dec

text \<open>Behind the token: the number of literals, when \<open>read_variable_length\<close> does not fail.\<close>

definition literal_length :: "bytes \<Rightarrow> nat \<Rightarrow> dec \<Rightarrow> (nat option \<times> dec) outcome" where
  "literal_length src token st =
     (if token div 16 = 15
      then andthen (read_variable_length src (d_ip st) (int (length src) - 15) True) (\<lambda>(addl, ip).
           Inr (map_option (\<lambda>n. 15 + n) addl, st\<lparr>d_ip := ip\<rparr>))
      else Inr (Some (token div 16), st))"

text \<open>Behind the offset: the length of the match.\<close>

definition match_length :: "bytes \<Rightarrow> nat \<Rightarrow> dec \<Rightarrow> (nat option \<times> dec) outcome" where
  "match_length src token st =
     (if token mod 16 = 15
      then andthen (read_variable_length src (d_ip st) (int (length src) - 4) False) (\<lambda>(addl, ip).
           Inr (map_option (\<lambda>n. 15 + n + 4) addl, st\<lparr>d_ip := ip\<rparr>))
      else Inr (Some (token mod 16 + 4), st))"

subsection \<open>The fast loop\<close>

definition fast_literals :: "bytes \<Rightarrow> nat \<Rightarrow> nat \<Rightarrow> dec \<Rightarrow> goes outcome" where
  "fast_literals src oend token st =
     andthen (literal_length src token st) (\<lambda>(n, st). case n of
       None \<Rightarrow> Inr (Output_error st)
     | Some n \<Rightarrow>
         if token div 16 = 15
         then if d_op st + n + 32 > oend \<or> d_ip st + n + 32 > length src then Inr (Safe_literals st token n)
              else andthen (LZ4_wildCopy32 (Some src) (d_mem st) (d_op st) (d_ip st) (d_op st + n)) (\<lambda>mem.
                   Inr (Next (st\<lparr>d_ip := d_ip st + n, d_op := d_op st + n, d_mem := mem\<rparr>)))
         else if d_ip st + 17 \<le> length src
              then andthen (LZ4_memcpy (Some src) (d_mem st) (d_op st) (d_ip st) 16) (\<lambda>mem.
                   Inr (Next (st\<lparr>d_ip := d_ip st + n, d_op := d_op st + n, d_mem := mem\<rparr>)))
              else Inr (Safe_literals st token n))"

definition fast_copy :: "nat \<Rightarrow> nat \<Rightarrow> dec \<Rightarrow> goes outcome" where
  "fast_copy offset n st =
     (if offset > d_op st then Inr (Output_error st)
      else let match = d_op st - offset; cpy = d_op st + n
           in andthen (if offset < 16 then LZ4_memcpy_using_offset (d_mem st) (d_op st) match cpy offset
                       else LZ4_wildCopy32 None (d_mem st) (d_op st) match cpy)
                (\<lambda>mem. Inr (Next (st\<lparr>d_op := cpy, d_mem := mem\<rparr>))))"

text \<open>Eighteen bytes, for a match of four to eighteen.\<close>

definition copy_eighteen :: "nat \<Rightarrow> dec \<Rightarrow> bytes outcome" where
  "copy_eighteen offset st =
     (let op = d_op st; match = op - offset
      in andthen (LZ4_memcpy None (d_mem st) op match 8) (\<lambda>mem.
         andthen (LZ4_memcpy None mem (op + 8) (match + 8) 8) (\<lambda>mem.
         LZ4_memcpy None mem (op + 16) (match + 16) 2)))"

definition fast_match :: "bytes \<Rightarrow> nat \<Rightarrow> nat \<Rightarrow> dec \<Rightarrow> goes outcome" where
  "fast_match src oend token st =
     andthen (LZ4_readLE16 src (d_ip st)) (\<lambda>offset.
     andthen (match_length src token (st\<lparr>d_ip := d_ip st + 2\<rparr>)) (\<lambda>(n, st). case n of
       None \<Rightarrow> Inr (Output_error st)
     | Some n \<Rightarrow>
         if d_op st + n + 64 \<ge> oend then Inr (Safe_match st offset n)
         else if token mod 16 \<noteq> 15 \<and> offset \<le> d_op st \<and> offset \<ge> 8
              then andthen (copy_eighteen offset st) (\<lambda>mem. Inr (Next (st\<lparr>d_op := d_op st + n, d_mem := mem\<rparr>)))
              else fast_copy offset n st))"

definition fast_step :: "bytes \<Rightarrow> nat \<Rightarrow> dec \<Rightarrow> goes outcome" where
  "fast_step src oend st =
     andthen (load src (d_ip st)) (\<lambda>token.
     andthen (fast_literals src oend (unat token) (st\<lparr>d_ip := d_ip st + 1\<rparr>)) (\<lambda>g. case g of
       Next st \<Rightarrow> fast_match src oend (unat token) st
     | _ \<Rightarrow> Inr g))"

subsection \<open>The safe loop\<close>

text \<open>From \<open>safe_match_copy\<close> on.\<close>

definition safe_match :: "nat \<Rightarrow> nat \<Rightarrow> nat \<Rightarrow> dec \<Rightarrow> goes outcome" where
  "safe_match oend offset n st =
     (let op = d_op st; match = op - offset; cpy = op + n
      in if offset > op then Inr (Output_error st)
         else if cpy + 12 > oend
         then let mlen = min n (oend - op)
              in andthen (if match + mlen > op then byte_copy mlen op match (d_mem st)
                          else LZ4_memcpy None (d_mem st) op match mlen) (\<lambda>mem.
                 let st = st\<lparr>d_op := op + mlen, d_mem := mem\<rparr>
                 in Inr (if op + mlen = oend then Finished st else Next st))
         else andthen (first_eight (d_mem st) op match offset) (\<lambda>(mem, match).
              andthen (LZ4_memcpy None mem (op + 8) match 8) (\<lambda>mem.
              andthen (if n > 16 then LZ4_wildCopy8 None mem (op + 16) (match + 8) cpy else Inr mem) (\<lambda>mem.
              Inr (Next (st\<lparr>d_op := cpy, d_mem := mem\<rparr>))))))"

text \<open>From \<open>_copy_match\<close> on.\<close>

definition copy_match :: "bytes \<Rightarrow> nat \<Rightarrow> nat \<Rightarrow> nat \<Rightarrow> dec \<Rightarrow> goes outcome" where
  "copy_match src oend token offset st =
     andthen (match_length src token st) (\<lambda>(n, st). case n of
       None \<Rightarrow> Inr (Output_error st)
     | Some n \<Rightarrow> safe_match oend offset n st)"

text \<open>From \<open>safe_literal_copy\<close> on.\<close>

definition safe_literals :: "bytes \<Rightarrow> nat \<Rightarrow> nat \<Rightarrow> nat \<Rightarrow> dec \<Rightarrow> goes outcome" where
  "safe_literals src oend token n st =
     (let op = d_op st; ip = d_ip st; cpy = op + n; iend = length src;
          rest = (\<lambda>st. andthen (LZ4_readLE16 src (d_ip st)) (\<lambda>offset.
                    copy_match src oend token offset (st\<lparr>d_ip := d_ip st + 2\<rparr>)))
      in if cpy + 12 > oend \<or> ip + n + 8 > iend
         then let n = (if ip + n > iend then iend - ip else n); cpy = op + n;
                  n = (if cpy > oend then oend - op else n); cpy = (if cpy > oend then oend else cpy)
              in andthen (LZ4_memcpy (Some src) (d_mem st) op ip n) (\<lambda>mem.
                 let st = st\<lparr>d_ip := ip + n, d_op := op + n, d_mem := mem\<rparr>
                 in if cpy = oend \<or> ip + n + 2 \<ge> iend then Inr (Finished st) else rest st)
         else andthen (LZ4_wildCopy8 (Some src) (d_mem st) op ip cpy) (\<lambda>mem.
              rest (st\<lparr>d_ip := ip + n, d_op := cpy, d_mem := mem\<rparr>)))"

definition safe_step :: "bytes \<Rightarrow> nat \<Rightarrow> dec \<Rightarrow> goes outcome" where
  "safe_step src oend st =
     andthen (load src (d_ip st)) (\<lambda>token.
     let token = unat token; st = st\<lparr>d_ip := d_ip st + 1\<rparr>; n = token div 16
     in if n \<noteq> 15 \<and> d_ip st + 16 < length src \<and> d_op st + 32 \<le> oend
        then andthen (LZ4_memcpy (Some src) (d_mem st) (d_op st) (d_ip st) 16) (\<lambda>mem.
             andthen (LZ4_readLE16 src (d_ip st + n)) (\<lambda>offset.
             let st = st\<lparr>d_ip := d_ip st + n + 2, d_op := d_op st + n, d_mem := mem\<rparr>
             in if token mod 16 \<noteq> 15 \<and> offset \<ge> 8 \<and> offset \<le> d_op st
                then andthen (copy_eighteen offset st) (\<lambda>mem.
                     Inr (Next (st\<lparr>d_op := d_op st + (token mod 16 + 4), d_mem := mem\<rparr>)))
                else copy_match src oend token offset st))
        else andthen (literal_length src token st) (\<lambda>(n, st). case n of
               None \<Rightarrow> Inr (Output_error st)
             | Some n \<Rightarrow> safe_literals src oend token n st))"

subsection \<open>The loops\<close>

lemma read_more_le: "read_more src ilimit len ip = Inr (n, ip') \<Longrightarrow> ip \<le> ip'"
proof (induction src ilimit len ip rule: read_more.induct)
  case (1 src ilimit len ip)
  then show ?case
    by (auto simp: read_more.simps [of src ilimit len ip] andthen_eq_Inr Let_def split: if_splits dest: Suc_leD)
qed

lemma read_variable_length_le: "read_variable_length src ip ilimit c = Inr (n, ip') \<Longrightarrow> ip \<le> ip'"
  by (auto simp: read_variable_length_def split: if_splits dest: read_more_le)

lemma literal_length_le: "literal_length src token st = Inr (n, st') \<Longrightarrow> d_ip st \<le> d_ip st'"
  by (auto simp: literal_length_def andthen_eq_Inr split: if_splits dest: read_variable_length_le)

lemma match_length_le: "match_length src token st = Inr (n, st') \<Longrightarrow> d_ip st \<le> d_ip st'"
  by (auto simp: match_length_def andthen_eq_Inr split: if_splits dest: read_variable_length_le)

lemma safe_match_ip: "safe_match oend offset n st = Inr (Next st') \<Longrightarrow> d_ip st' = d_ip st"
  by (auto simp: safe_match_def andthen_eq_Inr Let_def split: if_splits prod.splits)

lemma copy_match_ip: "copy_match src oend token offset st = Inr (Next st') \<Longrightarrow> d_ip st \<le> d_ip st'"
  by (auto simp: copy_match_def andthen_eq_Inr split: option.splits dest!: match_length_le safe_match_ip)

lemma safe_literals_ip: "safe_literals src oend token n st = Inr (Next st') \<Longrightarrow> d_ip st \<le> d_ip st'"
  by (auto simp: safe_literals_def andthen_eq_Inr Let_def split: if_splits dest!: copy_match_ip)

lemma fast_match_ip: "fast_match src oend token st = Inr (Next st') \<Longrightarrow> d_ip st \<le> d_ip st'"
  by (auto simp: fast_match_def fast_copy_def andthen_eq_Inr Let_def split: if_splits option.splits dest!: match_length_le)

lemma fast_literals_ip: "fast_literals src oend token st = Inr (Next st') \<Longrightarrow> d_ip st \<le> d_ip st'"
  by (auto simp: fast_literals_def andthen_eq_Inr split: if_splits option.splits dest!: literal_length_le)

lemma goes_Next: "(case g of Next st \<Rightarrow> f st | _ \<Rightarrow> Inr g) = Inr (Next st') \<longleftrightarrow> (\<exists>st. g = Next st \<and> f st = Inr (Next st'))"
  by (cases g) auto

lemma fast_step_ip: "fast_step src oend st = Inr (Next st') \<Longrightarrow> d_ip st < d_ip st' \<and> d_ip st < length src"
  by (auto simp: fast_step_def andthen_eq_Inr load_eq_Inr goes_Next dest!: fast_match_ip fast_literals_ip)

lemma safe_step_ip: "safe_step src oend st = Inr (Next st') \<Longrightarrow> d_ip st < d_ip st' \<and> d_ip st < length src"
  by (auto simp: safe_step_def andthen_eq_Inr load_eq_Inr Let_def split: if_splits option.splits
      dest!: copy_match_ip safe_literals_ip literal_length_le)

text \<open>Each loop ends with the first step that does not go on to the next sequence.\<close>

function fast_loop :: "bytes \<Rightarrow> nat \<Rightarrow> dec \<Rightarrow> goes outcome" where
  "fast_loop src oend st =
     andthen (fast_step src oend st) (\<lambda>g. case g of Next st \<Rightarrow> fast_loop src oend st | _ \<Rightarrow> Inr g)"
  by pat_completeness auto
termination
  by (relation "measure (\<lambda>(src, oend, st). length src - d_ip st)") (auto dest!: fast_step_ip)

function safe_loop :: "bytes \<Rightarrow> nat \<Rightarrow> dec \<Rightarrow> goes outcome" where
  "safe_loop src oend st =
     andthen (safe_step src oend st) (\<lambda>g. case g of Next st \<Rightarrow> safe_loop src oend st | _ \<Rightarrow> Inr g)"
  by pat_completeness auto
termination
  by (relation "measure (\<lambda>(src, oend, st). length src - d_ip st)") (auto dest!: safe_step_ip)

declare fast_loop.simps [simp del] safe_loop.simps [simp del]

text \<open>The fast loop leaves into the middle of the safe one.\<close>

definition resume :: "bytes \<Rightarrow> nat \<Rightarrow> goes \<Rightarrow> goes outcome" where
  "resume src oend g =
     andthen (case g of
                Safe_literals st token n \<Rightarrow> safe_literals src oend token n st
              | Safe_match st offset n \<Rightarrow> safe_match oend offset n st
              | _ \<Rightarrow> Inr g) (\<lambda>g.
       case g of Next st \<Rightarrow> safe_loop src oend st | _ \<Rightarrow> Inr g)"

text \<open>What is returned, and the output buffer.\<close>

definition LZ4_decompress_generic :: "bytes \<Rightarrow> bytes \<Rightarrow> int \<Rightarrow> (int \<times> bytes) outcome" where
  "LZ4_decompress_generic src dst outputSize =
     (let oend = nat outputSize; st = \<lparr>d_ip = 0, d_op = 0, d_mem = dst\<rparr>
      in if outputSize < 0 then Inr (-1, dst)
         else if outputSize = 0 then Inr (0, dst)
         else if src = [] then Inr (-1, dst)
         else andthen (if oend < 64 then safe_loop src oend st
                       else andthen (fast_loop src oend st) (resume src oend)) (\<lambda>g.
              case g of
                Finished st \<Rightarrow> Inr (int (d_op st), d_mem st)
              | Output_error st \<Rightarrow> Inr (- int (d_ip st) - 1, d_mem st)
              | _ \<Rightarrow> Inl Hang))"

definition LZ4_decompress_safe_partial_c :: "bytes \<Rightarrow> bytes \<Rightarrow> int \<Rightarrow> int \<Rightarrow> (int \<times> bytes) outcome" where
  "LZ4_decompress_safe_partial_c src dst targetOutputSize dstCapacity =
     LZ4_decompress_generic src dst (min targetOutputSize dstCapacity)"

end
