(* ===== verification/LZ4_Copy.thy ===== *)
theory LZ4_Copy
  imports LZ4_Decompress
begin

text \<open>
  The copies of the LZ4 decompressor, the ones that write past their end included: what they leave in
  the buffer is a repetition of the bytes before it, and none of them leaves the buffer.
\<close>

section \<open>A buffer with a repetition\<close>

text \<open>
  \<open>dst\<close> is \<open>dst0\<close> up to \<open>d\<close> and repeats from there on, for \<open>m\<close> bytes, the last \<open>n\<close> bytes before \<open>d\<close>.
  Nothing is said of the bytes of a match at distance 0, a distance that no compressor writes.
\<close>

definition filled :: "bytes \<Rightarrow> nat \<Rightarrow> nat \<Rightarrow> nat \<Rightarrow> bytes \<Rightarrow> bool" where
  "filled dst0 d n m dst \<longleftrightarrow> length dst = length dst0 \<and> take d dst = take d dst0
     \<and> (0 < n \<longrightarrow> (\<forall>i < m. dst ! (d + i) = dst0 ! (d - n + i mod n)))"

lemma filled_start [simp]: "filled dst0 d n 0 dst0"
  by (simp add: filled_def)

lemma filled_length: "filled dst0 d n m dst \<Longrightarrow> length dst = length dst0"
  by (simp add: filled_def)

lemma filled_less: "filled dst0 d n m dst \<Longrightarrow> k \<le> m \<Longrightarrow> filled dst0 d n k dst"
  by (simp add: filled_def)

lemma store_n_nth:
  assumes "p + length v \<le> length dst"
  obtains dst' where "store_n dst p v = Inr dst'" "length dst' = length dst"
    "\<And>i. i < length dst \<Longrightarrow> dst' ! i = (if p \<le> i \<and> i < p + length v then v ! (i - p) else dst ! i)"
proof -
  have "(take p dst @ v @ drop (p + length v) dst) ! i = (if p \<le> i \<and> i < p + length v then v ! (i - p) else dst ! i)"
    if "i < length dst" for i
    using assms that by (auto simp: nth_append)
  then show ?thesis using that assms by (simp add: store_n_def)
qed

lemma filled_store:
  assumes f: "filled dst0 d n m dst" and room: "d + m + length v \<le> length dst0"
    and v: "0 < n \<Longrightarrow> \<forall>j < length v. v ! j = dst0 ! (d - n + (m + j) mod n)"
  obtains dst' where "store_n dst (d + m) v = Inr dst'" "filled dst0 d n (m + length v) dst'"
proof -
  have l: "length dst = length dst0" using f by (rule filled_length)
  obtain dst' where s: "store_n dst (d + m) v = Inr dst'" "length dst' = length dst"
    "\<And>i. i < length dst \<Longrightarrow> dst' ! i = (if d + m \<le> i \<and> i < d + m + length v then v ! (i - (d + m)) else dst ! i)"
    by (rule store_n_nth [of "d + m" v dst]) (use room l in auto)
  have "take d dst' = take d dst" by (rule nth_equalityI) (use s(2,3) room l in auto)
  then have t: "take d dst' = take d dst0" using f by (simp add: filled_def)
  have "dst' ! (d + i) = dst0 ! (d - n + i mod n)" if n: "0 < n" and i: "i < m + length v" for i
  proof (cases "i < m")
    case True
    then show ?thesis using s(3) [of "d + i"] f n room l by (simp add: filled_def)
  next
    case False
    then have "dst' ! (d + i) = v ! (i - m)" using s(3) [of "d + i"] i room l by (simp add: add.commute [of d])
    also have "\<dots> = dst0 ! (d - n + (m + (i - m)) mod n)" using v [OF n] i False by simp
    finally show ?thesis using False by simp
  qed
  then have "filled dst0 d n (m + length v) dst'" using t s(2) l by (simp add: filled_def)
  with s(1) show ?thesis by (rule that)
qed

text \<open>What is at a distance that is a multiple of the period.\<close>

lemma filled_behind:
  assumes f: "filled dst0 d n m dst" and n: "0 < n" "n \<le> d" "d \<le> length dst0"
    and D: "n dvd D" "D \<le> m + n" and j: "j < D" "0 < D"
  shows "dst ! (d + m + j - D) = dst0 ! (d - n + (m + j) mod n)"
proof (cases "D \<le> m + j")
  case True
  have "\<forall>i < m. dst ! (d + i) = dst0 ! (d - n + i mod n)" using f n by (simp add: filled_def)
  then have "m + j - D < m \<longrightarrow> dst ! (d + (m + j - D)) = dst0 ! (d - n + (m + j - D) mod n)" by (rule spec)
  moreover have "m + j - D < m" using j True by linarith
  ultimately have "dst ! (d + (m + j - D)) = dst0 ! (d - n + (m + j - D) mod n)" by (rule mp)
  also have "(m + j - D) mod n = (m + j) mod n"
    using True D(1) by (metis mod_mult_self2 le_add_diff_inverse2 dvdE mult.commute)
  finally have e: "dst ! (d + (m + j - D)) = dst0 ! (d - n + (m + j) mod n)" .
  have "d + m + j - D = d + (m + j - D)" using True by simp
  then show ?thesis using e by (simp only:)
next
  case False
  define r where "r = n + (m + j) - D"
  have r: "r < n" "r + D = n + (m + j)" using False D(2) by (auto simp: r_def)
  have "(m + j) mod n = (r + D) mod n" using r(2) by simp
  also have "\<dots> = r" using D(1) r(1) by (metis mod_less mod_add_right_eq dvd_imp_mod_0 add_0_right)
  finally have e: "(m + j) mod n = r" .
  have p: "d + m + j - D = d - n + r" "d - n + r < d" using r n False D(2) by auto
  have "take d dst ! (d - n + r) = take d dst0 ! (d - n + r)" using f by (simp add: filled_def)
  then show ?thesis using p n(3) f by (simp add: e filled_def)
qed

lemma filled_memcpy:
  assumes f: "filled dst0 d n m dst" and n: "n \<le> d" and room: "d + m + k \<le> length dst0"
    and D: "0 < n \<Longrightarrow> n dvd D \<and> D \<le> m + n" "k \<le> D" "D \<le> d + m"
  obtains dst' where "LZ4_memcpy None dst (d + m) (d + m - D) k = Inr dst'" "filled dst0 d n (m + k) dst'"
proof -
  have l: "length dst = length dst0" using f by (rule filled_length)
  define v where "v = take k (drop (d + m - D) dst)"
  have k: "length v = k" using room D l by (simp add: v_def)
  have "\<forall>j < length v. v ! j = dst0 ! (d - n + (m + j) mod n)" if "0 < n"
  proof (intro allI impI)
    fix j assume "j < length v"
    then have j: "j < k" by (simp add: k)
    have "v ! j = dst ! (d + m - D + j)" using j room D l by (simp add: v_def)
    also have "d + m - D + j = d + m + j - D" using D(3) by simp
    also have "dst ! (d + m + j - D) = dst0 ! (d - n + (m + j) mod n)"
      by (rule filled_behind [OF f that n]) (use room D that j in simp_all)
    finally show "v ! j = dst0 ! (d - n + (m + j) mod n)" .
  qed
  from filled_store [OF f _ this] room k
  obtain dst' where s: "store_n dst (d + m) v = Inr dst'" "filled dst0 d n (m + k) dst'" by auto
  have "\<not> (d + m - D < d + m + k \<and> d + m < d + m - D + k \<and> k \<noteq> 0)" using D by auto
  moreover have "load_n dst (d + m - D) k = Inr v" using room D l by (simp add: v_def load_n_def)
  ultimately have "LZ4_memcpy None dst (d + m) (d + m - D) k = Inr dst'" using s(1) by (auto simp: LZ4_memcpy_def)
  then show ?thesis using s(2) by (rule that)
qed

lemma filled_byte_copy:
  assumes f: "filled dst0 d n m dst" and n: "n \<le> d" and room: "d + m + k \<le> length dst0"
  shows "\<exists>dst'. byte_copy k (d + m) (d + m - n) dst = Inr dst' \<and> filled dst0 d n (m + k) dst'"
  using f room
proof (induction k arbitrary: m dst)
  case (Suc k)
  have l: "length dst = length dst0" using Suc.prems(1) by (rule filled_length)
  have ld: "load dst (d + m - n) = Inr (dst ! (d + m - n))" using Suc.prems(2) l by (simp add: load_def)
  have "\<forall>j < length [dst ! (d + m - n)]. [dst ! (d + m - n)] ! j = dst0 ! (d - n + (m + j) mod n)" if "0 < n"
    using filled_behind [OF Suc.prems(1) that n, of n 0] that Suc.prems(2) n by simp
  from filled_store [OF Suc.prems(1) _ this] Suc.prems(2)
  obtain dst1 where 1: "store_n dst (d + m) [dst ! (d + m - n)] = Inr dst1" "filled dst0 d n (m + 1) dst1" by auto
  have "d + (m + 1) - n = d + m - n + 1" using n by simp
  then show ?case using Suc.IH [OF 1(2)] Suc.prems(2) 1(1) ld by simp
qed simp

section \<open>The copies of a match\<close>

lemma filled_wildCopy8:
  assumes "filled dst0 d n m dst" and "n \<le> d" and D: "0 < n \<Longrightarrow> n dvd D \<and> D \<le> m + n" "8 \<le> D" "D \<le> d + m"
    and "d + m + 8 \<le> length dst0" "e + 7 \<le> length dst0"
  shows "\<exists>dst' k. LZ4_wildCopy8 None dst (d + m) (d + m - D) e = Inr dst' \<and> filled dst0 d n k dst' \<and> e \<le> d + k \<and> m + 8 \<le> k"
  using assms
proof (induction "e - (d + m)" arbitrary: m dst rule: less_induct)
  case less
  obtain dst1 where 1: "LZ4_memcpy None dst (d + m) (d + m - D) 8 = Inr dst1" "filled dst0 d n (m + 8) dst1"
    by (rule filled_memcpy [OF less.prems(1,2), of 8 D]) (use less.prems in auto)
  show ?case
  proof (cases "d + m + 8 < e")
    case True
    have "d + (m + 8) - D = d + m - D + 8" using less.prems by simp
    moreover have "\<exists>dst' k. LZ4_wildCopy8 None dst1 (d + (m + 8)) (d + (m + 8) - D) e = Inr dst'
        \<and> filled dst0 d n k dst' \<and> e \<le> d + k \<and> m + 8 + 8 \<le> k"
      by (rule less.hyps) (use True less.prems 1(2) in auto)
    ultimately obtain dst' k where "LZ4_wildCopy8 None dst1 (d + (m + 8)) (d + m - D + 8) e = Inr dst'" "filled dst0 d n k dst'"
      "e \<le> d + k" "m + 8 + 8 \<le> k"
      by (simp only:) blast
    moreover have "d + (m + 8) = d + m + 8" by simp
    ultimately show ?thesis using 1(1) True by (intro exI [of _ dst'] exI [of _ k]) (simp add: LZ4_wildCopy8.simps [of _ dst])
  next
    case False
    then show ?thesis using 1 by (auto simp: LZ4_wildCopy8.simps [of _ dst])
  qed
qed

lemma filled_wildCopy32:
  assumes "filled dst0 d n m dst" and "n \<le> d" and D: "0 < n \<Longrightarrow> n dvd D \<and> D \<le> m + n" "16 \<le> D" "D \<le> d + m"
    and "d + m + 32 \<le> length dst0" "e + 31 \<le> length dst0"
  shows "\<exists>dst' k. LZ4_wildCopy32 None dst (d + m) (d + m - D) e = Inr dst' \<and> filled dst0 d n k dst' \<and> e \<le> d + k"
  using assms
proof (induction "e - (d + m)" arbitrary: m dst rule: less_induct)
  case less
  obtain dst1 where 1: "LZ4_memcpy None dst (d + m) (d + m - D) 16 = Inr dst1" "filled dst0 d n (m + 16) dst1"
    by (rule filled_memcpy [OF less.prems(1,2), of 16 D]) (use less.prems in auto)
  obtain dst2 where 2: "LZ4_memcpy None dst1 (d + (m + 16)) (d + (m + 16) - D) 16 = Inr dst2" "filled dst0 d n (m + 16 + 16) dst2"
    by (rule filled_memcpy [OF 1(2) less.prems(2), of 16 D]) (use less.prems in auto)
  have 3: "filled dst0 d n (m + 32) dst2" using 2(2) by (simp add: add.assoc)
  have e: "d + (m + 16) - D = d + m - D + 16" "d + (m + 32) - D = d + m - D + 32" using less.prems by simp_all
  show ?case
  proof (cases "d + m + 32 < e")
    case True
    have "\<exists>dst' k. LZ4_wildCopy32 None dst2 (d + (m + 32)) (d + (m + 32) - D) e = Inr dst'
        \<and> filled dst0 d n k dst' \<and> e \<le> d + k"
      by (rule less.hyps) (use True less.prems 3 in auto)
    then show ?thesis
      using 1(1) 2(1) True by (simp add: LZ4_wildCopy32.simps [of _ dst] add.assoc e)
  next
    case False
    then show ?thesis using 1(1) 2(1) 3 by (auto simp: LZ4_wildCopy32.simps [of _ dst] add.assoc e)
  qed
qed

text \<open>The tables lead to a distance of at least eight that is a multiple of the offset.\<close>

definition reach :: "nat \<Rightarrow> nat" where
  "reach n = nat (8 + int n - int (inc32table ! n) + dec64table ! n)"

lemma tables:
  assumes "n < 8"
  shows "inc32table ! n \<le> n" "0 < n \<Longrightarrow> n dvd 4 + n - inc32table ! n" "8 \<le> reach n" "reach n \<le> 8 + n" "0 < n \<Longrightarrow> n dvd reach n"
    "8 + int n - int (inc32table ! n) + dec64table ! n = int (reach n)"
proof -
  define P where "P n \<longleftrightarrow> inc32table ! n \<le> n \<and> (0 < n \<longrightarrow> (4 + n - inc32table ! n) mod n = 0) \<and> 8 \<le> reach n \<and> reach n \<le> 8 + n
      \<and> (0 < n \<longrightarrow> reach n mod n = 0) \<and> 8 + int n - int (inc32table ! n) + dec64table ! n = int (reach n)" for n
  have "list_all P [0, 1, 2, 3, 4, 5, 6, 7]" unfolding P_def by code_simp
  moreover have "n = 0 \<or> n = 1 \<or> n = 2 \<or> n = 3 \<or> n = 4 \<or> n = 5 \<or> n = 6 \<or> n = 7" using assms by linarith
  ultimately have "P n" by auto
  then show "inc32table ! n \<le> n" "0 < n \<Longrightarrow> n dvd 4 + n - inc32table ! n" "8 \<le> reach n" "reach n \<le> 8 + n" "0 < n \<Longrightarrow> n dvd reach n"
    "8 + int n - int (inc32table ! n) + dec64table ! n = int (reach n)"
    unfolding P_def by (simp_all only: dvd_eq_mod_eq_0)
qed

lemma filled_first_eight:
  assumes n: "n \<le> d" and room: "d + 8 \<le> length dst0"
  shows "\<exists>dst D. first_eight dst0 d (d - n) n = Inr (dst, d + 8 - D) \<and> filled dst0 d n 8 dst \<and> 8 \<le> D \<and> D \<le> d + 8
    \<and> (0 < n \<longrightarrow> n dvd D \<and> D \<le> 8 + n)"
proof (cases "n < 8")
  case True
  note t = tables [OF True]
  obtain dst1 where 1: "store_n dst0 d [0, 0, 0, 0] = Inr dst1" "length dst1 = length dst0"
    "\<And>i. i < length dst0 \<Longrightarrow> dst1 ! i = (if d \<le> i \<and> i < d + length [0, 0, 0, 0 :: u8] then [0, 0, 0, 0] ! (i - d) else dst0 ! i)"
    by (rule store_n_nth [of d "[0, 0, 0, 0]" dst0]) (use room in simp_all)
  have "take d dst1 = take d dst0" by (rule nth_equalityI) (use 1(2,3) room in auto)
  then have "filled dst0 d n 0 dst1" using 1(2) by (simp add: filled_def)
  from filled_byte_copy [OF this n, of 4] room
  obtain dst2 where 2: "byte_copy 4 d (d - n) dst1 = Inr dst2" "filled dst0 d n 4 dst2" by auto
  let ?D = "4 + n - inc32table ! n"
  obtain dst3 where 3: "LZ4_memcpy None dst2 (d + 4) (d + 4 - ?D) 4 = Inr dst3" "filled dst0 d n (4 + 4) dst3"
    by (rule filled_memcpy [OF 2(2) n, of 4 ?D]) (use t(1,2) room n in auto)
  have s: "d + 4 - ?D = d - n + inc32table ! n" using t(1) n by simp
  have "nat (int (d - n + inc32table ! n) - dec64table ! n) = d + 8 - reach n"
    using t(4,6) n by (simp add: of_nat_diff)
  then have "first_eight dst0 d (d - n) n = Inr (dst3, d + 8 - reach n)"
    using True 1(1) 2(1) 3(1) by (simp add: first_eight_def Let_def s)
  then show ?thesis using 3(2) t n by (intro exI [of _ dst3] exI [of _ "reach n"]) simp
next
  case False
  obtain dst1 where 1: "LZ4_memcpy None dst0 (d + 0) (d + 0 - n) 8 = Inr dst1" "filled dst0 d n (0 + 8) dst1"
    by (rule filled_memcpy [OF filled_start n, where k = 8 and D = n]) (use False n room in auto)
  then show ?thesis using False n by (intro exI [of _ dst1] exI [of _ n]) (simp add: first_eight_def)
qed

lemma filled_pattern:
  assumes "filled dst0 d n m dst" and "length v = 8" "\<forall>j < 8. v ! j = dst0 ! (d - n + j mod n)" and "n dvd 8" "n dvd m"
    and "e + 7 \<le> length dst0"
  shows "\<exists>dst' k. fill_pattern v dst (d + m) e = Inr dst' \<and> filled dst0 d n k dst' \<and> e \<le> d + k \<and> m \<le> k"
  using assms
proof (induction "e - (d + m)" arbitrary: m dst rule: less_induct)
  case less
  show ?case
  proof (cases "d + m < e")
    case True
    have "(m + j) mod n = j mod n" for j using less.prems(5) by (metis add.commute dvd_imp_mod_0 mod_add_right_eq add_0_right)
    then obtain dst1 where 1: "store_n dst (d + m) v = Inr dst1" "filled dst0 d n (m + 8) dst1"
      using filled_store [OF less.prems(1), where v = v] less.prems(2,3,6) True by auto
    have "\<exists>dst' k. fill_pattern v dst1 (d + (m + 8)) e = Inr dst' \<and> filled dst0 d n k dst' \<and> e \<le> d + k \<and> m + 8 \<le> k"
      by (rule less.hyps) (use True less.prems 1(2) in auto)
    then obtain dst' k where 2: "fill_pattern v dst1 (d + (m + 8)) e = Inr dst'" "filled dst0 d n k dst'" "e \<le> d + k" "m + 8 \<le> k" by blast
    have p: "d + (m + 8) = d + m + 8" by simp
    show ?thesis
      using 1(1) 2(1) [unfolded p] 2(2-4) True by (intro exI [of _ dst'] exI [of _ k]) (simp add: fill_pattern.simps [of v dst])
  next
    case False
    then show ?thesis using less.prems(1) by (auto simp: fill_pattern.simps [of v dst])
  qed
qed

lemma filled_from_pattern:
  assumes n: "n \<le> d" "0 < n" and v: "length v = 8" "\<forall>j < 8. v ! j = dst0 ! (d - n + j mod n)" "n dvd 8"
    and room: "d + 16 \<le> length dst0" "e + 7 \<le> length dst0"
  shows "\<exists>dst k. andthen (store_n dst0 d v) (\<lambda>dst. fill_pattern v dst (d + 8) e) = Inr dst \<and> filled dst0 d n k dst \<and> e \<le> d + k"
proof -
  obtain dst1 where 1: "store_n dst0 d v = Inr dst1" "filled dst0 d n 8 dst1"
    using filled_store [OF filled_start [of dst0 d n], where v = v] v room by auto
  then show ?thesis using filled_pattern [OF 1(2) v(1,2,3,3) room(2)] by auto
qed

lemma filled_using_offset:
  assumes n: "n \<le> d" and room: "d + 16 \<le> length dst0" "e + 7 \<le> length dst0"
  shows "\<exists>dst k. LZ4_memcpy_using_offset dst0 d (d - n) e n = Inr dst \<and> filled dst0 d n k dst \<and> e \<le> d + k"
proof -
  have eight: "(\<forall>j < 8. P j) \<longleftrightarrow> P 0 \<and> P 1 \<and> P 2 \<and> P 3 \<and> P 4 \<and> P 5 \<and> P 6 \<and> P (7 :: nat)" for P
  proof -
    have "j < 8 \<longleftrightarrow> j = 0 \<or> j = 1 \<or> j = 2 \<or> j = 3 \<or> j = 4 \<or> j = 5 \<or> j = 6 \<or> j = (7 :: nat)" for j by presburger
    then show ?thesis by (simp only:) blast
  qed
  consider "n = 1" | "n = 2" | "n = 4" | "n \<noteq> 1" "n \<noteq> 2" "n \<noteq> 4" by blast
  then show ?thesis
  proof cases
    case 1
    then have "\<exists>dst k. andthen (store_n dst0 d (replicate 8 (dst0 ! (d - n)))) (\<lambda>dst. fill_pattern (replicate 8 (dst0 ! (d - n))) dst (d + 8) e) = Inr dst
        \<and> filled dst0 d n k dst \<and> e \<le> d + k"
      by (intro filled_from_pattern) (use n room in auto)
    then show ?thesis using 1 n room by (simp add: LZ4_memcpy_using_offset_def Let_def)
  next
    case 2
    define w where "w = take 2 (drop (d - n) dst0)"
    have w: "length w = 2" "w ! 0 = dst0 ! (d - 2)" "w ! 1 = dst0 ! (d - 2 + 1)" using 2 n room by (auto simp: w_def numeral_2_eq_2)
    have "\<forall>j < 8. (w @ w @ w @ w) ! j = dst0 ! (d - n + j mod n)"
      unfolding eight using w 2 n by (simp add: nth_append)
    then have "\<exists>dst k. andthen (store_n dst0 d (w @ w @ w @ w)) (\<lambda>dst. fill_pattern (w @ w @ w @ w) dst (d + 8) e) = Inr dst
        \<and> filled dst0 d n k dst \<and> e \<le> d + k"
      by (intro filled_from_pattern) (use 2 n room w in auto)
    then show ?thesis using 2 n room by (simp add: LZ4_memcpy_using_offset_def Let_def w_def)
  next
    case 3
    define w where "w = take 4 (drop (d - n) dst0)"
    have w: "length w = 4" "\<And>i. i < 4 \<Longrightarrow> w ! i = dst0 ! (d - 4 + i)" using 3 n room by (auto simp: w_def)
    obtain c where c: "d = 4 + c" using n 3 le_Suc_ex by blast
    have "\<forall>j < 8. (w @ w) ! j = dst0 ! (d - n + j mod n)"
      unfolding eight using w unfolding 3 c by (simp add: nth_append add.commute [of c])
    then have "\<exists>dst k. andthen (store_n dst0 d (w @ w)) (\<lambda>dst. fill_pattern (w @ w) dst (d + 8) e) = Inr dst
        \<and> filled dst0 d n k dst \<and> e \<le> d + k"
      by (intro filled_from_pattern) (use 3 n room w in auto)
    then show ?thesis using 3 n room by (simp add: LZ4_memcpy_using_offset_def Let_def w_def)
  next
    case 4
    obtain dst1 D where 1: "first_eight dst0 d (d - n) n = Inr (dst1, d + 8 - D)" "filled dst0 d n 8 dst1" "8 \<le> D" "D \<le> d + 8"
      "0 < n \<longrightarrow> n dvd D \<and> D \<le> 8 + n"
      using filled_first_eight [OF n, of dst0] room by auto
    have "\<exists>dst' k. LZ4_wildCopy8 None dst1 (d + 8) (d + 8 - D) e = Inr dst' \<and> filled dst0 d n k dst' \<and> e \<le> d + k \<and> 8 + 8 \<le> k"
      by (rule filled_wildCopy8 [OF 1(2) n]) (use 1 room in auto)
    then show ?thesis using 4 1(1) by (auto simp: LZ4_memcpy_using_offset_def LZ4_memcpy_using_offset_base_def Let_def)
  qed
qed

end
