(* ===== verification/LZ4_Reference.thy ===== *)
theory LZ4_Reference
  imports LZ4_Copy
begin

text \<open>
  A reference decoder for LZ4, which appends byte by byte and has one way of copying, and what the copies
  of matches and of literals in the code leave in memory, against it.
\<close>

section \<open>The reference decoder\<close>

text \<open>\<open>m\<close> bytes, each the one \<open>n\<close> places before. At distance 0 the code leaves what it likes.\<close>

primrec lz_match :: "nat \<Rightarrow> nat \<Rightarrow> u8 option list \<Rightarrow> u8 option list" where
  "lz_match n 0 out = out"
| "lz_match n (Suc m) out = lz_match n m (out @ [if n = 0 then None else out ! (length out - n)])"

text \<open>A count of four bits, with the bytes behind it when it is 15.\<close>

definition long_count :: "bytes \<Rightarrow> nat \<Rightarrow> nat \<Rightarrow> int \<Rightarrow> bool \<Rightarrow> (nat option \<times> nat) outcome" where
  "long_count src k ip ilimit c =
     (if k = 15 then andthen (read_variable_length src ip ilimit c) (\<lambda>(a, ip). Inr (map_option (\<lambda>a. 15 + a) a, ip))
      else Inr (Some k, ip))"

datatype ref_next = Ref_next nat "u8 option list" | Ref_end int "u8 option list"

text \<open>
  Decoding ends when the output is full, with one exception that the reference has to share: the short
  cut for small sequences, with room for 32 bytes, does not look. When it takes all of them, 14
  literals and a match of 18 bytes, the next token is still read. \<open>on\<close> says that this is so.
\<close>

definition ref_match :: "nat \<Rightarrow> bool \<Rightarrow> nat \<Rightarrow> nat \<Rightarrow> nat \<Rightarrow> u8 option list \<Rightarrow> ref_next" where
  "ref_match cap on offset m ip out =
     (if offset > length out then Ref_end (- int ip - 1) out
      else let out = lz_match offset (min m (cap - length out)) out
           in if length out = cap \<and> \<not> on then Ref_end (int cap) out else Ref_next ip out)"

definition ref_tail :: "bytes \<Rightarrow> nat \<Rightarrow> bool \<Rightarrow> nat \<Rightarrow> nat \<Rightarrow> nat \<Rightarrow> u8 option list \<Rightarrow> ref_next outcome" where
  "ref_tail src cap on token offset ip out =
     andthen (long_count src (token mod 16) ip (int (length src) - 4) False) (\<lambda>(m, ip). case m of
       None \<Rightarrow> Inr (Ref_end (- int ip - 1) out)
     | Some m \<Rightarrow> Inr (ref_match cap (on \<and> token mod 16 = 14 \<and> 8 \<le> offset) offset (m + 4) ip out))"

definition ref_literals :: "bytes \<Rightarrow> nat \<Rightarrow> nat \<Rightarrow> nat \<Rightarrow> nat \<Rightarrow> u8 option list \<Rightarrow> ref_next outcome" where
  "ref_literals src cap token k ip out =
     (let on = (k = 14 \<and> ip + 16 < length src \<and> length out + 32 = cap);
          k = min (min k (length src - ip)) (cap - length out); out = out @ map Some (take k (drop ip src)); ip = ip + k
      in if length out = cap \<or> ip + 2 \<ge> length src then Inr (Ref_end (int (length out)) out)
         else andthen (LZ4_readLE16 src ip) (\<lambda>offset. ref_tail src cap on token offset (ip + 2) out))"

definition ref_step :: "bytes \<Rightarrow> nat \<Rightarrow> nat \<Rightarrow> u8 option list \<Rightarrow> ref_next outcome" where
  "ref_step src cap ip out =
     andthen (load src ip) (\<lambda>token.
     andthen (long_count src (unat token div 16) (ip + 1) (int (length src) - 15) True) (\<lambda>(k, ip). case k of
       None \<Rightarrow> Inr (Ref_end (- int ip - 1) out)
     | Some k \<Rightarrow> ref_literals src cap (unat token) k ip out))"

lemma long_count_le: "long_count src k ip ilimit c = Inr (n, ip') \<Longrightarrow> ip \<le> ip'"
  by (auto simp: long_count_def andthen_eq_Inr split: if_splits dest: read_variable_length_le)

lemma ref_tail_ip: "ref_tail src cap on token offset ip out = Inr (Ref_next ip' out') \<Longrightarrow> ip \<le> ip'"
  by (auto simp: ref_tail_def ref_match_def andthen_eq_Inr Let_def split: if_splits option.splits dest: long_count_le)

lemma ref_literals_ip: "ref_literals src cap token k ip out = Inr (Ref_next ip' out') \<Longrightarrow> ip \<le> ip'"
  by (auto simp: ref_literals_def andthen_eq_Inr Let_def split: if_splits dest!: ref_tail_ip)

lemma ref_step_ip: "ref_step src cap ip out = Inr (Ref_next ip' out') \<Longrightarrow> ip < ip' \<and> ip < length src"
  by (auto simp: ref_step_def andthen_eq_Inr load_eq_Inr split: option.splits dest!: long_count_le ref_literals_ip)

function ref_loop :: "bytes \<Rightarrow> nat \<Rightarrow> nat \<Rightarrow> u8 option list \<Rightarrow> (int \<times> u8 option list) outcome" where
  "ref_loop src cap ip out =
     andthen (ref_step src cap ip out) (\<lambda>r. case r of
       Ref_next ip out \<Rightarrow> ref_loop src cap ip out
     | Ref_end c out \<Rightarrow> Inr (c, out))"
  by pat_completeness auto
termination
  by (relation "measure (\<lambda>(src, cap, ip, out). length src - ip)") (auto dest!: ref_step_ip)

declare ref_loop.simps [simp del]

definition lz4_reference :: "bytes \<Rightarrow> nat \<Rightarrow> (int \<times> u8 option list) outcome" where
  "lz4_reference src cap =
     (if cap = 0 then Inr (0, []) else if src = [] then Inr (-1, []) else ref_loop src cap 0 [])"

section \<open>Copies against the reference\<close>

definition agrees :: "u8 option list \<Rightarrow> bytes \<Rightarrow> bool" where
  "agrees out dst \<longleftrightarrow> length out \<le> length dst \<and> (\<forall>i < length out. \<forall>b. out ! i = Some b \<longrightarrow> dst ! i = b)"

lemma lz_match_snoc: "lz_match n (Suc m) out = lz_match n m out @ [if n = 0 then None else lz_match n m out ! (length out + m - n)]"
proof (induction m arbitrary: out)
  case (Suc m)
  have "lz_match n (Suc (Suc m)) out = lz_match n (Suc m) (out @ [if n = 0 then None else out ! (length out - n)])" by simp
  also note Suc.IH
  finally show ?case by simp
qed simp

lemma length_lz_match [simp]: "length (lz_match n m out) = length out + m"
  by (induction m arbitrary: out) auto

lemma lz_match_before: "i < length out \<Longrightarrow> lz_match n m out ! i = out ! i"
  by (induction m arbitrary: out) (auto simp: nth_append)

lemma lz_match_nth:
  assumes "i < m" and "n \<le> length out"
  shows "lz_match n m out ! (length out + i) = (if n = 0 then None else out ! (length out - n + i mod n))"
  using assms(1)
proof (induction m arbitrary: i)
  case (Suc m)
  show ?case
  proof (cases "i < m")
    case True
    then show ?thesis using Suc.IH [OF True] unfolding lz_match_snoc by (simp add: nth_append)
  next
    case False
    then have [simp]: "i = m" using Suc.prems by simp
    have "lz_match n m out ! (length out + m - n) = out ! (length out - n + m mod n)" if "0 < n"
    proof (cases "m < n")
      case True
      then show ?thesis using assms(2) lz_match_before [of "length out + m - n" out n m] by simp
    next
      case False
      then have "length out + m - n = length out + (m - n)" by simp
      then show ?thesis using Suc.IH [of "m - n"] that False by (simp add: mod_if [of m n])
    qed
    then show ?thesis unfolding lz_match_snoc by (simp add: nth_append)
  qed
qed simp

lemma agrees_match:
  assumes "agrees out dst0" and f: "filled dst0 (length out) n m dst" and n: "n \<le> length out" and room: "length out + m \<le> length dst0"
  shows "agrees (lz_match n m out) dst"
  unfolding agrees_def
proof (intro conjI allI impI)
  show "length (lz_match n m out) \<le> length dst" using room filled_length [OF f] by simp
  fix i b assume i: "i < length (lz_match n m out)" and b: "lz_match n m out ! i = Some b"
  have same: "dst ! j = dst0 ! j" if "j < length out" for j
  proof -
    have "take (length out) dst ! j = take (length out) dst0 ! j" using f by (simp add: filled_def)
    then show ?thesis using that by simp
  qed
  show "dst ! i = b"
  proof (cases "i < length out")
    case True
    then show ?thesis using b assms(1) same by (simp add: lz_match_before agrees_def)
  next
    case False
    then obtain j where j: "i = length out + j" "j < m" using i by (metis add_less_cancel_left le_Suc_ex length_lz_match not_less)
    then have "0 < n" "out ! (length out - n + j mod n) = Some b" using b n by (auto simp: lz_match_nth split: if_splits)
    moreover have "length out - n + j mod n < length out" using \<open>0 < n\<close> n by (simp add: less_diff_conv2 add.commute)
    ultimately show ?thesis using f j assms(1) by (simp add: filled_def agrees_def)
  qed
qed

text \<open>Literals: \<open>m\<close> bytes of the input from \<open>s\<close> on.\<close>

definition wrote :: "bytes \<Rightarrow> nat \<Rightarrow> bytes \<Rightarrow> nat \<Rightarrow> nat \<Rightarrow> bytes \<Rightarrow> bool" where
  "wrote src s dst0 d m dst \<longleftrightarrow> length dst = length dst0 \<and> take d dst = take d dst0 \<and> (\<forall>i < m. dst ! (d + i) = src ! (s + i))"

lemma wrote_memcpy:
  assumes w: "wrote src s dst0 d m dst" and room: "d + m + k \<le> length dst0" "s + m + k \<le> length src"
  obtains dst' where "LZ4_memcpy (Some src) dst (d + m) (s + m) k = Inr dst'" "wrote src s dst0 d (m + k) dst'"
proof -
  define v where "v = take k (drop (s + m) src)"
  have k: "length v = k" using room(2) by (simp add: v_def)
  have l: "length dst = length dst0" using w by (simp add: wrote_def)
  obtain dst' where s: "store_n dst (d + m) v = Inr dst'" "length dst' = length dst"
    "\<And>i. i < length dst \<Longrightarrow> dst' ! i = (if d + m \<le> i \<and> i < d + m + length v then v ! (i - (d + m)) else dst ! i)"
    by (rule store_n_nth [of "d + m" v dst]) (use room k l in auto)
  have "take d dst' = take d dst" by (rule nth_equalityI) (use s(2,3) room l in auto)
  moreover have "dst' ! (d + i) = src ! (s + i)" if "i < m + k" for i
    using s(3) [of "d + i"] that w room l k by (auto simp: wrote_def v_def)
  ultimately have "wrote src s dst0 d (m + k) dst'" using w s(2) by (simp add: wrote_def)
  moreover have "LZ4_memcpy (Some src) dst (d + m) (s + m) k = Inr dst'"
    using s(1) room(2) by (simp add: LZ4_memcpy_def v_def)
  ultimately show ?thesis using that by blast
qed

lemma wrote_start [simp]: "wrote src s dst0 d 0 dst0"
  by (simp add: wrote_def)

lemma wrote_less: "wrote src s dst0 d m dst \<Longrightarrow> k \<le> m \<Longrightarrow> wrote src s dst0 d k dst"
  by (simp add: wrote_def)

lemma wrote_wildCopy8:
  assumes "wrote src s dst0 d m dst" and "d + m + 8 \<le> length dst0" "e + 7 \<le> length dst0"
    and "s + m + 8 \<le> length src" "s + (e - d) + 7 \<le> length src"
  shows "\<exists>dst' k. LZ4_wildCopy8 (Some src) dst (d + m) (s + m) e = Inr dst' \<and> wrote src s dst0 d k dst' \<and> e \<le> d + k"
  using assms
proof (induction "e - (d + m)" arbitrary: m dst rule: less_induct)
  case less
  obtain dst1 where 1: "LZ4_memcpy (Some src) dst (d + m) (s + m) 8 = Inr dst1" "wrote src s dst0 d (m + 8) dst1"
    by (rule wrote_memcpy [OF less.prems(1), of 8]) (use less.prems in auto)
  show ?case
  proof (cases "d + m + 8 < e")
    case True
    have "\<exists>dst' k. LZ4_wildCopy8 (Some src) dst1 (d + (m + 8)) (s + (m + 8)) e = Inr dst' \<and> wrote src s dst0 d k dst' \<and> e \<le> d + k"
      by (rule less.hyps) (use True less.prems 1(2) in auto)
    then show ?thesis using 1(1) True by (simp add: LZ4_wildCopy8.simps [of _ dst] add.assoc)
  next
    case False
    then show ?thesis using 1 by (auto simp: LZ4_wildCopy8.simps [of _ dst])
  qed
qed

lemma wrote_wildCopy32:
  assumes "wrote src s dst0 d m dst" and "d + m + 32 \<le> length dst0" "e + 31 \<le> length dst0"
    and "s + m + 32 \<le> length src" "s + (e - d) + 31 \<le> length src"
  shows "\<exists>dst' k. LZ4_wildCopy32 (Some src) dst (d + m) (s + m) e = Inr dst' \<and> wrote src s dst0 d k dst' \<and> e \<le> d + k"
  using assms
proof (induction "e - (d + m)" arbitrary: m dst rule: less_induct)
  case less
  obtain dst1 where 1: "LZ4_memcpy (Some src) dst (d + m) (s + m) 16 = Inr dst1" "wrote src s dst0 d (m + 16) dst1"
    by (rule wrote_memcpy [OF less.prems(1), of 16]) (use less.prems in auto)
  obtain dst2 where 2: "LZ4_memcpy (Some src) dst1 (d + (m + 16)) (s + (m + 16)) 16 = Inr dst2" "wrote src s dst0 d (m + 16 + 16) dst2"
    by (rule wrote_memcpy [OF 1(2), of 16]) (use less.prems in auto)
  have 3: "wrote src s dst0 d (m + 32) dst2" using 2(2) by (simp add: add.assoc)
  show ?case
  proof (cases "d + m + 32 < e")
    case True
    have "\<exists>dst' k. LZ4_wildCopy32 (Some src) dst2 (d + (m + 32)) (s + (m + 32)) e = Inr dst' \<and> wrote src s dst0 d k dst' \<and> e \<le> d + k"
      by (rule less.hyps) (use True less.prems 3 in auto)
    then show ?thesis using 1(1) 2(1) True by (simp add: LZ4_wildCopy32.simps [of _ dst] add.assoc)
  next
    case False
    then show ?thesis using 1(1) 2(1) 3 by (auto simp: LZ4_wildCopy32.simps [of _ dst] add.assoc)
  qed
qed

lemma agrees_literals:
  assumes a: "agrees out dst0" and w: "wrote src s dst0 (length out) m dst" and room: "s + m \<le> length src" "length out + m \<le> length dst0"
  shows "agrees (out @ map Some (take m (drop s src))) dst"
  unfolding agrees_def
proof (intro conjI allI impI)
  show "length (out @ map Some (take m (drop s src))) \<le> length dst" using w room by (simp add: wrote_def)
  fix i b assume i: "i < length (out @ map Some (take m (drop s src)))" and b: "(out @ map Some (take m (drop s src))) ! i = Some b"
  show "dst ! i = b"
  proof (cases "i < length out")
    case True
    have "take (length out) dst ! i = take (length out) dst0 ! i" using w by (simp add: wrote_def)
    then show ?thesis using True a b by (simp add: nth_append agrees_def)
  next
    case False
    then obtain j where j: "i = length out + j" "j < m" using i room by (metis add_less_cancel_left le_Suc_ex length_append length_map length_take min.strict_boundedE not_less)
    then show ?thesis using w b room by (simp add: nth_append wrote_def)
  qed
qed

end
