(* ===== verification/LZ4_Safe.thy ===== *)
theory LZ4_Safe
  imports LZ4_Reference
begin

text \<open>
  The decompressor of LZ4 step by step against the reference decoder, for every input and every size of
  the output.
\<close>

section \<open>Counts\<close>

lemma read_more_ok:
  "ip < length src \<Longrightarrow> ilimit < int (length src) \<Longrightarrow>
    \<exists>r ip'. read_more src ilimit k ip = Inr (r, ip') \<and> (r \<noteq> None \<longrightarrow> int ip' \<le> ilimit)"
proof (induction src ilimit k ip rule: read_more.induct)
  case (1 src ilimit k ip)
  have s: "load src ip = Inr (src ! ip)" using 1(2) by simp
  show ?case
  proof (cases "\<not> ilimit < int (ip + 1) \<and> src ! ip = 255")
    case True
    then have "ip + 1 < length src" using 1(3) by linarith
    then show ?thesis
      using 1(1) [OF s refl refl _ _ _ 1(3)] True s by (simp add: read_more.simps [of src ilimit k ip])
  next
    case False
    then show ?thesis using s by (auto simp: read_more.simps [of src ilimit k ip] Let_def)
  qed
qed

lemma long_count_ok:
  assumes "k = 15 \<and> \<not> c \<Longrightarrow> ip < length src" and "ilimit < int (length src)"
  shows "\<exists>r ip'. long_count src k ip ilimit c = Inr (r, ip') \<and> (r \<noteq> None \<longrightarrow> ip' = ip \<and> k \<noteq> 15 \<or> int ip' \<le> ilimit)"
proof (cases "k = 15 \<and> \<not> (c \<and> ilimit \<le> int ip)")
  case True
  then have "ip < length src" using assms by (cases c) auto
  then show ?thesis
    using read_more_ok [of ip src ilimit 0] assms(2) True by (auto simp: long_count_def read_variable_length_def)
next
  case False
  then show ?thesis by (auto simp: long_count_def read_variable_length_def)
qed

lemma literal_length_eq:
  "literal_length src token st
    = andthen (long_count src (token div 16) (d_ip st) (int (length src) - 15) True) (\<lambda>(k, ip). Inr (k, st\<lparr>d_ip := ip\<rparr>))"
  by (auto simp: literal_length_def long_count_def andthen_assoc intro!: andthen_cong split: prod.split)

lemma match_length_eq:
  "match_length src token st
    = andthen (long_count src (token mod 16) (d_ip st) (int (length src) - 4) False)
        (\<lambda>(k, ip). Inr (map_option (\<lambda>k. k + 4) k, st\<lparr>d_ip := ip\<rparr>))"
  by (auto simp: match_length_def long_count_def andthen_assoc option.map_comp comp_def intro!: andthen_cong split: prod.split)

section \<open>A state and what the reference has\<close>

definition holds :: "nat \<Rightarrow> dec \<Rightarrow> u8 option list \<Rightarrow> bool" where
  "holds cap st out \<longleftrightarrow> length (d_mem st) = cap \<and> d_op st = length out \<and> agrees out (d_mem st)"

primrec matches :: "bytes \<Rightarrow> nat \<Rightarrow> goes \<Rightarrow> ref_next outcome \<Rightarrow> bool" where
  "matches src cap (Next st) r \<longleftrightarrow>
     (\<exists>out. r = Inr (Ref_next (d_ip st) out) \<and> holds cap st out \<and> d_ip st < length src)"
| "matches src cap (Finished st) r \<longleftrightarrow> (\<exists>out. r = Inr (Ref_end (int (length out)) out) \<and> holds cap st out)"
| "matches src cap (Output_error st) r \<longleftrightarrow> (\<exists>out. r = Inr (Ref_end (- int (d_ip st) - 1) out) \<and> holds cap st out)"
| "matches src cap (Safe_literals st token k) r \<longleftrightarrow> False"
| "matches src cap (Safe_match st offset m) r \<longleftrightarrow> False"

lemma holds_ip [simp]: "holds cap (st\<lparr>d_ip := i\<rparr>) out \<longleftrightarrow> holds cap st out"
  by (simp add: holds_def)

lemma holds_match:
  assumes h: "holds cap st out" and f: "filled (d_mem st) (length out) n k mem" "m \<le> k" and n: "n \<le> length out" and room: "length out + m \<le> cap"
  shows "holds cap (st\<lparr>d_op := length out + m, d_mem := mem\<rparr>) (lz_match n m out)"
  using agrees_match [OF _ filled_less [OF f] n] h room filled_length [OF f(1)] by (simp add: holds_def)

lemma holds_literals:
  assumes h: "holds cap st out" and w: "wrote src (d_ip st) (d_mem st) (length out) k mem" "m \<le> k"
    and room: "d_ip st + m \<le> length src" "length out + m \<le> cap"
  shows "holds cap (st\<lparr>d_ip := i, d_op := length out + m, d_mem := mem\<rparr>) (out @ map Some (take m (drop (d_ip st) src)))"
  using agrees_literals [OF _ wrote_less [OF w] room(1)] h room w(1) by (simp add: holds_def wrote_def)

lemma min_min: "k \<le> a \<Longrightarrow> k \<le> b \<Longrightarrow> min (min k a) b = (k :: nat)"
  by simp

section \<open>The safe loop\<close>

lemma safe_match_ok:
  assumes h: "holds cap st out" and ip: "d_ip st < length src" "length out < cap" and m: "4 \<le> m" and on: "on \<Longrightarrow> length out < offset"
  shows "\<exists>g. safe_match cap offset m st = Inr g \<and> matches src cap g (Inr (ref_match cap on offset m (d_ip st) out))"
proof (cases "offset > length out")
  case True
  then show ?thesis using h by (auto simp: safe_match_def ref_match_def holds_def Let_def)
next
  case False
  then have n: "offset \<le> length out" and off: "\<not> on" using on by auto
  have op: "d_op st = length out" "length (d_mem st) = cap" using h by (simp_all add: holds_def)
  show ?thesis
  proof (cases "length out + m + 12 > cap")
    case True
    let ?k = "min m (cap - length out)"
    have room: "length out + ?k \<le> cap" using ip(2) by simp
    have "\<exists>mem. (if length out - offset + ?k > length out then byte_copy ?k (length out) (length out - offset) (d_mem st)
        else LZ4_memcpy None (d_mem st) (length out) (length out - offset) ?k) = Inr mem \<and> filled (d_mem st) (length out) offset ?k mem"
    proof (cases "length out - offset + ?k > length out")
      case True
      then show ?thesis using filled_byte_copy [OF filled_start n, of ?k "d_mem st"] room op(2) by auto
    next
      case False
      obtain mem where "LZ4_memcpy None (d_mem st) (length out + 0) (length out + 0 - offset) ?k = Inr mem"
        "filled (d_mem st) (length out) offset (0 + ?k) mem"
        by (rule filled_memcpy [OF filled_start n, where k = ?k and D = offset]) (use False room op(2) n in auto)
      then show ?thesis using False by simp
    qed
    then obtain mem where mem: "(if length out - offset + ?k > length out then byte_copy ?k (length out) (length out - offset) (d_mem st)
        else LZ4_memcpy None (d_mem st) (length out) (length out - offset) ?k) = Inr mem" "filled (d_mem st) (length out) offset ?k mem" by blast
    have h': "holds cap (st\<lparr>d_op := length out + ?k, d_mem := mem\<rparr>) (lz_match offset ?k out)"
      by (rule holds_match [OF h mem(2) order_refl n room])
    have e: "safe_match cap offset m st = Inr (if length out + ?k = cap then Finished (st\<lparr>d_op := length out + ?k, d_mem := mem\<rparr>)
        else Next (st\<lparr>d_op := length out + ?k, d_mem := mem\<rparr>))"
      using True n mem(1) by (simp add: safe_match_def Let_def op)
    have "matches src cap (if length out + ?k = cap then Finished (st\<lparr>d_op := length out + ?k, d_mem := mem\<rparr>)
        else Next (st\<lparr>d_op := length out + ?k, d_mem := mem\<rparr>)) (Inr (ref_match cap on offset m (d_ip st) out))"
      using h' n ip room off by (auto simp: ref_match_def Let_def)
    then show ?thesis using e by blast
  next
    case False
    obtain mem1 D where 1: "first_eight (d_mem st) (length out) (length out - offset) offset = Inr (mem1, length out + 8 - D)"
      "filled (d_mem st) (length out) offset 8 mem1" "8 \<le> D" "D \<le> length out + 8" "0 < offset \<longrightarrow> offset dvd D \<and> D \<le> 8 + offset"
      using filled_first_eight [OF n, of "d_mem st"] False m op(2) by auto
    obtain mem2 where 2: "LZ4_memcpy None mem1 (length out + 8) (length out + 8 - D) 8 = Inr mem2" "filled (d_mem st) (length out) offset (8 + 8) mem2"
      by (rule filled_memcpy [OF 1(2) n, where k = 8 and D = D]) (use 1 False m op(2) in auto)
    have "\<exists>mem3 k. (if m > 16 then LZ4_wildCopy8 None mem2 (length out + 16) (length out + 8 - D + 8) (length out + m) else Inr mem2) = Inr mem3
        \<and> filled (d_mem st) (length out) offset k mem3 \<and> m \<le> k"
    proof (cases "m > 16")
      case True
      have "\<exists>mem3 k. LZ4_wildCopy8 None mem2 (length out + 16) (length out + 16 - D) (length out + m) = Inr mem3
          \<and> filled (d_mem st) (length out) offset k mem3 \<and> length out + m \<le> length out + k \<and> 16 + 8 \<le> k"
        by (rule filled_wildCopy8) (use 1 2(2) n True False op(2) in auto)
      moreover have "length out + 16 - D = length out + 8 - D + 8" using 1(4) by simp
      ultimately show ?thesis using True by auto
    next
      case False
      then show ?thesis using 2(2) by auto
    qed
    then obtain mem3 k where 3: "(if m > 16 then LZ4_wildCopy8 None mem2 (length out + 16) (length out + 8 - D + 8) (length out + m) else Inr mem2) = Inr mem3"
      "filled (d_mem st) (length out) offset k mem3" "m \<le> k" by blast
    have room: "length out + m \<le> cap" using False by simp
    have h': "holds cap (st\<lparr>d_op := length out + m, d_mem := mem3\<rparr>) (lz_match offset m out)"
      by (rule holds_match [OF h 3(2,3) n room])
    have e: "safe_match cap offset m st = Inr (Next (st\<lparr>d_op := length out + m, d_mem := mem3\<rparr>))"
      using False n 1(1) 2(1) 3(1) by (simp add: safe_match_def Let_def op)
    moreover have "min m (cap - length out) = m" using False by simp
    ultimately show ?thesis using h' n ip False off by (auto simp: ref_match_def Let_def)
  qed
qed

lemma copy_match_ok:
  assumes h: "holds cap st out" and ip: "d_ip st < length src" "length out < cap"
    and on: "on \<Longrightarrow> token mod 16 = 14 \<Longrightarrow> 8 \<le> offset \<Longrightarrow> length out < offset"
  shows "\<exists>g. copy_match src cap token offset st = Inr g \<and> matches src cap g (ref_tail src cap on token offset (d_ip st) out)"
proof -
  obtain r i where r: "long_count src (token mod 16) (d_ip st) (int (length src) - 4) False = Inr (r, i)"
    "r \<noteq> None \<longrightarrow> i = d_ip st \<and> token mod 16 \<noteq> 15 \<or> int i \<le> int (length src) - 4"
    using long_count_ok [of "token mod 16" False "d_ip st" src "int (length src) - 4"] ip(1) by auto
  show ?thesis
  proof (cases r)
    case None
    then show ?thesis using h by (auto simp: copy_match_def match_length_eq ref_tail_def r(1))
  next
    case (Some m)
    have "i < length src" using r(2) Some ip(1) by auto
    then show ?thesis
      using safe_match_ok [of cap "st\<lparr>d_ip := i\<rparr>" out src "m + 4" "on \<and> token mod 16 = 14 \<and> 8 \<le> offset" offset] h ip(2) Some on
      by (simp add: copy_match_def match_length_eq ref_tail_def r(1))
  qed
qed

lemma LZ4_readLE16_ok: "p + 2 \<le> length src \<Longrightarrow> \<exists>v. LZ4_readLE16 src p = Inr v"
  by (simp add: LZ4_readLE16_def)

lemma safe_literals_ok:
  assumes h: "holds cap st out" and ip: "d_ip st \<le> length src"
    and long: "\<not> (k \<le> 14 \<and> d_ip st + 16 < length src \<and> length out + 32 \<le> cap)"
  shows "\<exists>g. safe_literals src cap token k st = Inr g \<and> matches src cap g (ref_literals src cap token k (d_ip st) out)"
proof -
  let ?ip = "d_ip st" and ?op = "length out"
  have op: "d_op st = ?op" "length (d_mem st) = cap" "?op \<le> cap" using h by (auto simp: holds_def agrees_def)
  have on: "(k = 14 \<and> ?ip + 16 < length src \<and> ?op + 32 = cap) \<longleftrightarrow> False" using long by auto
  have rest: "\<exists>g. andthen (LZ4_readLE16 src (d_ip st')) (\<lambda>offset. copy_match src cap token offset (st'\<lparr>d_ip := d_ip st' + 2\<rparr>)) = Inr g
      \<and> matches src cap g (andthen (LZ4_readLE16 src (d_ip st')) (\<lambda>offset. ref_tail src cap False token offset (d_ip st' + 2) out'))"
    if q: "holds cap st' out'" "d_ip st' + 2 < length src" "length out' < cap" for st' out'
  proof -
    obtain v where "LZ4_readLE16 src (d_ip st') = Inr v" using LZ4_readLE16_ok [of "d_ip st'" src] q(2) by auto
    then show ?thesis using copy_match_ok [where st = "st'\<lparr>d_ip := d_ip st' + 2\<rparr>" and out = out' and on = False and token = token and offset = v, of cap src] q by simp
  qed
  show ?thesis
  proof (cases "?op + k + 12 > cap \<or> ?ip + k + 8 > length src")
    case True
    define n where "n = min (min k (length src - ?ip)) (cap - ?op)"
    have n: "?ip + n \<le> length src" "?op + n \<le> cap" using ip op(3) by (auto simp: n_def)
    obtain mem where mem: "LZ4_memcpy (Some src) (d_mem st) (?op + 0) (?ip + 0) n = Inr mem" "wrote src ?ip (d_mem st) ?op (0 + n) mem"
      by (rule wrote_memcpy [OF wrote_start [of src ?ip "d_mem st" ?op], where k = n]) (use n op(2) in auto)
    define st' where "st' = st\<lparr>d_ip := ?ip + n, d_op := ?op + n, d_mem := mem\<rparr>"
    let ?out = "out @ map Some (take n (drop ?ip src))"
    have h': "holds cap st' ?out" unfolding st'_def by (rule holds_literals [OF h]) (use mem(2) n in auto)
    have len: "length ?out = ?op + n" using n by simp
    have c: "(if (if ?ip + k > length src then length src - ?ip else k) + ?op > cap then cap - ?op else (if ?ip + k > length src then length src - ?ip else k)) = n"
      using ip op(3) by (auto simp: n_def)
    have cpy: "((if ?op + (if ?ip + k > length src then length src - ?ip else k) > cap then cap else ?op + (if ?ip + k > length src then length src - ?ip else k)) = cap)
        \<longleftrightarrow> ?op + n = cap" using ip op(3) by (auto simp: n_def)
    have e: "safe_literals src cap token k st = (if ?op + n = cap \<or> ?ip + n + 2 \<ge> length src then Inr (Finished st')
        else andthen (LZ4_readLE16 src (d_ip st')) (\<lambda>offset. copy_match src cap token offset (st'\<lparr>d_ip := d_ip st' + 2\<rparr>)))"
      using True mem(1) unfolding safe_literals_def Let_def op(1) c [unfolded add.commute [of _ ?op]] cpy by (simp add: st'_def)
    have r: "ref_literals src cap token k ?ip out = (if ?op + n = cap \<or> ?ip + n + 2 \<ge> length src then Inr (Ref_end (int (length ?out)) ?out)
        else andthen (LZ4_readLE16 src (?ip + n)) (\<lambda>offset. ref_tail src cap False token offset (?ip + n + 2) ?out))"
      unfolding ref_literals_def Let_def on n_def [symmetric] len ..
    have i: "d_ip st' = ?ip + n" by (simp add: st'_def)
    show ?thesis
    proof (cases "?op + n = cap \<or> ?ip + n + 2 \<ge> length src")
      case True
      then show ?thesis using h' unfolding e r by auto
    next
      case False
      then show ?thesis using rest [OF h'] n(2) unfolding e r i len by (simp add: add.assoc)
    qed
  next
    case False
    have "\<exists>mem n. LZ4_wildCopy8 (Some src) (d_mem st) (?op + 0) (?ip + 0) (?op + k) = Inr mem \<and> wrote src ?ip (d_mem st) ?op n mem \<and> ?op + k \<le> ?op + n"
      by (rule wrote_wildCopy8 [OF wrote_start]) (use False op(2) in auto)
    then obtain mem n where mem: "LZ4_wildCopy8 (Some src) (d_mem st) ?op ?ip (?op + k) = Inr mem" "wrote src ?ip (d_mem st) ?op n mem" "k \<le> n" by auto
    define st' where "st' = st\<lparr>d_ip := ?ip + k, d_op := ?op + k, d_mem := mem\<rparr>"
    let ?out = "out @ map Some (take k (drop ?ip src))"
    have h': "holds cap st' ?out" unfolding st'_def by (rule holds_literals [OF h mem(2,3)]) (use False in auto)
    have k: "min (min k (length src - ?ip)) (cap - ?op) = k" by (rule min_min) (use False in auto)
    have "k \<le> length src - ?ip" using False by linarith
    then have len: "length ?out = ?op + k" by (simp add: min_absorb2)
    have e: "safe_literals src cap token k st = andthen (LZ4_readLE16 src (d_ip st')) (\<lambda>offset. copy_match src cap token offset (st'\<lparr>d_ip := d_ip st' + 2\<rparr>))"
      using False mem(1) by (simp add: safe_literals_def Let_def op(1) st'_def)
    have r: "ref_literals src cap token k ?ip out = andthen (LZ4_readLE16 src (?ip + k)) (\<lambda>offset. ref_tail src cap False token offset (?ip + k + 2) ?out)"
      using False unfolding ref_literals_def Let_def on k len by simp
    have i: "d_ip st' = ?ip + k" by (simp add: st'_def)
    show ?thesis using rest [OF h'] False unfolding e r i len by (simp add: add.assoc)
  qed
qed

text \<open>The copy of eighteen bytes.\<close>

lemma copy_eighteen_ok:
  assumes h: "holds cap st out" and n: "8 \<le> n" "n \<le> length out" and m: "m \<le> 18" "length out + 18 \<le> cap"
  shows "\<exists>mem. copy_eighteen n st = Inr mem \<and> holds cap (st\<lparr>d_op := length out + m, d_mem := mem\<rparr>) (lz_match n m out)"
proof -
  let ?op = "length out"
  have op: "d_op st = ?op" "length (d_mem st) = cap" using h by (simp_all add: holds_def)
  obtain mem1 where 1: "LZ4_memcpy None (d_mem st) (?op + 0) (?op + 0 - n) 8 = Inr mem1" "filled (d_mem st) ?op n (0 + 8) mem1"
    by (rule filled_memcpy [OF filled_start [of "d_mem st" ?op n] n(2), where k = 8 and D = n]) (use n m op(2) in auto)
  obtain mem2 where 2: "LZ4_memcpy None mem1 (?op + (0 + 8)) (?op + (0 + 8) - n) 8 = Inr mem2" "filled (d_mem st) ?op n (0 + 8 + 8) mem2"
    by (rule filled_memcpy [OF 1(2) n(2), where k = 8 and D = n]) (use n m op(2) in auto)
  obtain mem3 where 3: "LZ4_memcpy None mem2 (?op + (0 + 8 + 8)) (?op + (0 + 8 + 8) - n) 2 = Inr mem3" "filled (d_mem st) ?op n (0 + 8 + 8 + 2) mem3"
    by (rule filled_memcpy [OF 2(2) n(2), where k = 2 and D = n]) (use n m op(2) in auto)
  have e: "?op + (0 + 8) - n = ?op - n + 8" "?op + (0 + 8 + 8) - n = ?op - n + 16" using n(2) by simp_all
  have "copy_eighteen n st = Inr mem3"
    using 1(1) 2(1) 3(1) unfolding e by (simp add: copy_eighteen_def Let_def op(1))
  then show ?thesis using holds_match [OF h 3(2) _ n(2), of m] m by auto
qed

lemma safe_step_ok:
  assumes h: "holds cap st out" and ip: "d_ip st < length src"
  shows "\<exists>g. safe_step src cap st = Inr g \<and> matches src cap g (ref_step src cap (d_ip st) out)"
proof -
  let ?t = "unat (src ! d_ip st)" and ?ip = "d_ip st + 1" and ?op = "length out"
  have op: "d_op st = ?op" "length (d_mem st) = cap" using h by (simp_all add: holds_def)
  let ?k = "?t div 16" let ?on = "?k = 14 \<and> ?ip + 16 < length src \<and> ?op + 32 = cap"
  show ?thesis
  proof (cases "?k \<noteq> 15 \<and> ?ip + 16 < length src \<and> ?op + 32 \<le> cap")
    case True
    have "?k < 16" using unat_u8 [of "src ! d_ip st"] by simp
    then have k: "?k \<le> 14" using True by linarith
    obtain mem where mem: "LZ4_memcpy (Some src) (d_mem st) (?op + 0) (?ip + 0) 16 = Inr mem" "wrote src ?ip (d_mem st) ?op (0 + 16) mem"
      by (rule wrote_memcpy [OF wrote_start [of src ?ip "d_mem st" ?op], where k = 16]) (use True op(2) in auto)
    let ?out = "out @ map Some (take ?k (drop ?ip src))"
    let ?s0 = "st\<lparr>d_ip := ?ip\<rparr>"
    define st' where "st' = st\<lparr>d_ip := ?ip + ?k + 2, d_op := ?op + ?k, d_mem := mem\<rparr>"
    have "holds cap (?s0\<lparr>d_ip := ?ip + ?k + 2, d_op := ?op + ?k, d_mem := mem\<rparr>) (out @ map Some (take ?k (drop (d_ip ?s0) src)))"
      by (rule holds_literals [of cap ?s0 out src 16]) (use h mem(2) k True in auto)
    then have h': "holds cap st' ?out" by (simp add: st'_def)
    have "?k \<le> length src - ?ip" using True k by linarith
    then have len: "length ?out = ?op + ?k" by (simp add: min_absorb2)
    obtain v where v: "LZ4_readLE16 src (?ip + ?k) = Inr v" using LZ4_readLE16_ok [of "?ip + ?k" src] True k by auto
    have km: "min (min ?k (length src - ?ip)) (cap - ?op) = ?k" by (rule min_min) (use True k in auto)
    have "long_count src ?k ?ip (int (length src) - 15) True = Inr (Some ?k, ?ip)" using True by (simp add: long_count_def)
    then have "ref_step src cap (d_ip st) out = ref_literals src cap ?t ?k ?ip out" using ip by (simp add: ref_step_def)
    also have "\<dots> = ref_tail src cap ?on ?t v (?ip + ?k + 2) ?out"
      using True k unfolding ref_literals_def Let_def km len v andthen_simps by simp
    finally have r: "ref_step src cap (d_ip st) out = ref_tail src cap ?on ?t v (?ip + ?k + 2) ?out" .
    have i: "d_ip st' = ?ip + ?k + 2" by (simp add: st'_def)
    have e: "safe_step src cap st = (if ?t mod 16 \<noteq> 15 \<and> v \<ge> 8 \<and> v \<le> ?op + ?k
        then andthen (copy_eighteen v st') (\<lambda>mem. Inr (Next (st'\<lparr>d_op := ?op + ?k + (?t mod 16 + 4), d_mem := mem\<rparr>)))
        else copy_match src cap ?t v st')"
      using True mem(1) ip v by (simp add: safe_step_def Let_def op(1) st'_def)
    show ?thesis
    proof (cases "?t mod 16 \<noteq> 15 \<and> v \<ge> 8 \<and> v \<le> ?op + ?k")
      case m: True
      have "?t mod 16 < 16" by simp
      then have t18: "?t mod 16 + 4 \<le> 18" using m by linarith
      then obtain mem' where c: "copy_eighteen v st' = Inr mem'"
        "holds cap (st'\<lparr>d_op := length ?out + (?t mod 16 + 4), d_mem := mem'\<rparr>) (lz_match v (?t mod 16 + 4) ?out)"
        using copy_eighteen_ok [OF h', of v "?t mod 16 + 4"] m True k len by auto
      have mm: "min (?t mod 16 + 4) (cap - length ?out) = ?t mod 16 + 4"
        unfolding len by (rule min_absorb1) (use t18 True k in linarith)
      have "?op + ?k + (?t mod 16 + 4) = cap \<longrightarrow> ?on \<and> ?t mod 16 = 14" using t18 True k by linarith
      then have full: "length (lz_match v (?t mod 16 + 4) ?out) = cap \<and> \<not> (?on \<and> ?t mod 16 = 14 \<and> 8 \<le> v) \<longleftrightarrow> False"
        using m by (simp only: length_lz_match len) blast
      have "\<not> v > length ?out" using m unfolding len by simp
      then have "ref_match cap (?on \<and> ?t mod 16 = 14 \<and> 8 \<le> v) v (?t mod 16 + 4) (?ip + ?k + 2) ?out
          = Ref_next (?ip + ?k + 2) (lz_match v (?t mod 16 + 4) ?out)"
        unfolding ref_match_def Let_def mm full by simp
      moreover have "ref_step src cap (d_ip st) out = Inr (ref_match cap (?on \<and> ?t mod 16 = 14 \<and> 8 \<le> v) v (?t mod 16 + 4) (?ip + ?k + 2) ?out)"
        unfolding r ref_tail_def using m by (simp add: long_count_def)
      ultimately have rs: "ref_step src cap (d_ip st) out = Inr (Ref_next (?ip + ?k + 2) (lz_match v (?t mod 16 + 4) ?out))" by simp
      have "?ip + ?k + 2 < length src" using True k by linarith
      then have "matches src cap (Next (st'\<lparr>d_op := ?op + ?k + (?t mod 16 + 4), d_mem := mem'\<rparr>)) (ref_step src cap (d_ip st) out)"
        unfolding rs matches.simps using c(2) [unfolded len] by (simp add: i)
      moreover have "safe_step src cap st = Inr (Next (st'\<lparr>d_op := ?op + ?k + (?t mod 16 + 4), d_mem := mem'\<rparr>))"
        unfolding e c(1) using m by simp
      ultimately show ?thesis by blast
    next
      case False
      have "d_ip st' < length src" "length ?out < cap" using True k len i by auto
      have "\<exists>g. copy_match src cap ?t v st' = Inr g \<and> matches src cap g (ref_tail src cap ?on ?t v (d_ip st') ?out)"
        by (rule copy_match_ok [OF h' \<open>d_ip st' < length src\<close> \<open>length ?out < cap\<close>]) (use False in \<open>unfold len, auto\<close>)
      then show ?thesis unfolding e r i if_not_P [OF False] .
    qed
  next
    case False
    obtain r i where lc: "long_count src ?k ?ip (int (length src) - 15) True = Inr (r, i)"
      "r \<noteq> None \<longrightarrow> i = ?ip \<and> ?k \<noteq> 15 \<or> int i \<le> int (length src) - 15"
      using long_count_ok [of ?k True ?ip src "int (length src) - 15"] by auto
    have e: "safe_step src cap st = (case r of None \<Rightarrow> Inr (Output_error (st\<lparr>d_ip := i\<rparr>))
        | Some k \<Rightarrow> safe_literals src cap ?t k (st\<lparr>d_ip := i\<rparr>))"
      using False ip lc(1) by (auto simp: safe_step_def Let_def op(1) literal_length_eq)
    have rs: "ref_step src cap (d_ip st) out = (case r of None \<Rightarrow> Inr (Ref_end (- int i - 1) out)
        | Some k \<Rightarrow> ref_literals src cap ?t k i out)"
      using ip lc(1) by (simp add: ref_step_def)
    show ?thesis
    proof (cases r)
      case None
      then show ?thesis using h unfolding e rs by auto
    next
      case (Some k)
      have "i \<le> length src" using lc(2) Some ip by auto
      moreover have "\<not> (k \<le> 14 \<and> i + 16 < length src \<and> ?op + 32 \<le> cap)"
        using lc(1) False Some by (auto simp: long_count_def andthen_eq_Inr split: if_splits)
      ultimately show ?thesis
        using safe_literals_ok [where st = "st\<lparr>d_ip := i\<rparr>" and k = k and token = ?t, of cap out src] h Some unfolding e rs by simp
    qed
  qed
qed

text \<open>A loop is a match for the loop of the reference.\<close>

primrec ends :: "nat \<Rightarrow> goes \<Rightarrow> (int \<times> u8 option list) outcome \<Rightarrow> bool" where
  "ends cap (Next st) r \<longleftrightarrow> False"
| "ends cap (Safe_literals st token k) r \<longleftrightarrow> False"
| "ends cap (Safe_match st offset m) r \<longleftrightarrow> False"
| "ends cap (Finished st) r \<longleftrightarrow> (\<exists>out. r = Inr (int (length out), out) \<and> holds cap st out)"
| "ends cap (Output_error st) r \<longleftrightarrow> (\<exists>out. r = Inr (- int (d_ip st) - 1, out) \<and> holds cap st out)"

lemma safe_loop_ok:
  "holds cap st out \<Longrightarrow> d_ip st < length src \<Longrightarrow>
    \<exists>g. safe_loop src cap st = Inr g \<and> ends cap g (ref_loop src cap (d_ip st) out)"
proof (induction src cap st arbitrary: out rule: safe_loop.induct)
  case (1 src cap st)
  obtain g where g: "safe_step src cap st = Inr g" "matches src cap g (ref_step src cap (d_ip st) out)"
    using safe_step_ok [OF 1(2,3)] by blast
  show ?case
  proof (cases g)
    case (Next st')
    then obtain out' where "ref_step src cap (d_ip st) out = Inr (Ref_next (d_ip st') out')" "holds cap st' out'" "d_ip st' < length src"
      using g(2) by auto
    then show ?thesis
      using 1(1) [OF g(1) Next, of out'] g(1) Next
      by (simp add: safe_loop.simps [of src cap st] ref_loop.simps [of src cap "d_ip st" out])
  qed (use g in \<open>auto simp: safe_loop.simps [of src cap st] ref_loop.simps [of src cap "d_ip st" out]\<close>)
qed

section \<open>The fast loop\<close>

text \<open>The fast loop may leave into the safe one; when it goes on there is room for 64 bytes.\<close>

definition leaves :: "bytes \<Rightarrow> nat \<Rightarrow> goes \<Rightarrow> ref_next outcome \<Rightarrow> bool" where
  "leaves src cap g r \<longleftrightarrow> (case g of
     Next st \<Rightarrow> matches src cap g r \<and> d_op st + 64 \<le> cap
   | Safe_literals st token k \<Rightarrow>
       \<exists>out. r = ref_literals src cap token k (d_ip st) out \<and> holds cap st out \<and> d_ip st \<le> length src
         \<and> \<not> (k \<le> 14 \<and> d_ip st + 16 < length src \<and> length out + 32 \<le> cap)
   | Safe_match st offset m \<Rightarrow>
       \<exists>out. r = Inr (ref_match cap False offset m (d_ip st) out) \<and> holds cap st out \<and> d_ip st < length src \<and> length out < cap \<and> 4 \<le> m
   | _ \<Rightarrow> matches src cap g r)"

lemma leaves_simps [simp]:
  "leaves src cap (Next st) r \<longleftrightarrow> matches src cap (Next st) r \<and> d_op st + 64 \<le> cap"
  "leaves src cap (Safe_literals st token k) r \<longleftrightarrow>
     (\<exists>out. r = ref_literals src cap token k (d_ip st) out \<and> holds cap st out \<and> d_ip st \<le> length src
        \<and> \<not> (k \<le> 14 \<and> d_ip st + 16 < length src \<and> length out + 32 \<le> cap))"
  "leaves src cap (Safe_match st offset m) r \<longleftrightarrow>
     (\<exists>out. r = Inr (ref_match cap False offset m (d_ip st) out) \<and> holds cap st out \<and> d_ip st < length src \<and> length out < cap \<and> 4 \<le> m)"
  "leaves src cap (Finished st) r \<longleftrightarrow> matches src cap (Finished st) r"
  "leaves src cap (Output_error st) r \<longleftrightarrow> matches src cap (Output_error st) r"
  by (simp_all add: leaves_def)

lemma fast_copy_ok:
  assumes h: "holds cap st out" and ip: "d_ip st < length src" and m: "length out + m + 64 < cap"
  shows "\<exists>g. fast_copy offset m st = Inr g \<and> leaves src cap g (Inr (ref_match cap False offset m (d_ip st) out))"
proof (cases "offset > length out")
  case True
  then show ?thesis using h by (auto simp: fast_copy_def ref_match_def holds_def Let_def)
next
  case False
  then have n: "offset \<le> length out" by simp
  have op: "d_op st = length out" "length (d_mem st) = cap" using h by (simp_all add: holds_def)
  have "\<exists>mem k. (if offset < 16 then LZ4_memcpy_using_offset (d_mem st) (length out) (length out - offset) (length out + m) offset
      else LZ4_wildCopy32 None (d_mem st) (length out) (length out - offset) (length out + m)) = Inr mem
      \<and> filled (d_mem st) (length out) offset k mem \<and> length out + m \<le> length out + k"
  proof (cases "offset < 16")
    case True
    then show ?thesis using filled_using_offset [OF n, of "d_mem st" "length out + m"] m op(2) by auto
  next
    case False
    have "\<exists>mem k. LZ4_wildCopy32 None (d_mem st) (length out + 0) (length out + 0 - offset) (length out + m) = Inr mem
      \<and> filled (d_mem st) (length out) offset k mem \<and> length out + m \<le> length out + k"
      by (rule filled_wildCopy32 [OF filled_start [of "d_mem st" "length out" offset] n]) (use False m op(2) n in auto)
    then show ?thesis using False by simp
  qed
  then obtain mem k where mem: "(if offset < 16 then LZ4_memcpy_using_offset (d_mem st) (length out) (length out - offset) (length out + m) offset
      else LZ4_wildCopy32 None (d_mem st) (length out) (length out - offset) (length out + m)) = Inr mem"
      "filled (d_mem st) (length out) offset k mem" "m \<le> k" by auto
  have h': "holds cap (st\<lparr>d_op := length out + m, d_mem := mem\<rparr>) (lz_match offset m out)"
    by (rule holds_match [OF h mem(2,3) n]) (use m in simp)
  have e: "fast_copy offset m st = Inr (Next (st\<lparr>d_op := length out + m, d_mem := mem\<rparr>))"
    unfolding fast_copy_def Let_def op(1) mem(1) using n by simp
  have "min m (cap - length out) = m" using m by simp
  then show ?thesis using e h' n ip m by (auto simp: ref_match_def Let_def)
qed

lemma fast_match_ok:
  assumes h: "holds cap st out" and ip: "d_ip st + 2 < length src" "length out < cap"
  shows "\<exists>g. fast_match src cap token st = Inr g
    \<and> leaves src cap g (andthen (LZ4_readLE16 src (d_ip st)) (\<lambda>offset. ref_tail src cap False token offset (d_ip st + 2) out))"
proof -
  obtain v where v: "LZ4_readLE16 src (d_ip st) = Inr v" using LZ4_readLE16_ok [of "d_ip st" src] ip(1) by auto
  let ?ip = "d_ip st + 2"
  have op: "d_op st = length out" using h by (simp add: holds_def)
  obtain r i where r: "long_count src (token mod 16) ?ip (int (length src) - 4) False = Inr (r, i)"
    "r \<noteq> None \<longrightarrow> i = ?ip \<and> token mod 16 \<noteq> 15 \<or> int i \<le> int (length src) - 4"
    using long_count_ok [of "token mod 16" False ?ip src "int (length src) - 4"] ip(1) by auto
  have t: "andthen (LZ4_readLE16 src (d_ip st)) (\<lambda>offset. ref_tail src cap False token offset ?ip out)
      = Inr (case r of None \<Rightarrow> Ref_end (- int i - 1) out | Some m \<Rightarrow> ref_match cap False v (m + 4) i out)"
    unfolding v andthen_simps ref_tail_def r(1) prod.case by (cases r) simp_all
  have ml: "match_length src token (st\<lparr>d_ip := ?ip\<rparr>) = Inr (map_option (\<lambda>k. k + 4) r, st\<lparr>d_ip := i\<rparr>)"
    using r(1) by (simp add: match_length_eq)
  show ?thesis
  proof (cases r)
    case None
    then show ?thesis using h unfolding t by (auto simp: fast_match_def v ml [simplified])
  next
    case (Some m)
    have i: "i < length src" using r(2) Some ip(1) by auto
    let ?s = "st\<lparr>d_ip := i\<rparr>"
    have hs: "holds cap ?s out" using h by simp
    have f: "fast_match src cap token st = (if length out + (m + 4) + 64 \<ge> cap then Inr (Safe_match ?s v (m + 4))
        else if token mod 16 \<noteq> 15 \<and> v \<le> length out \<and> v \<ge> 8
             then andthen (copy_eighteen v ?s) (\<lambda>mem. Inr (Next (?s\<lparr>d_op := length out + (m + 4), d_mem := mem\<rparr>)))
             else fast_copy v (m + 4) ?s)"
      unfolding fast_match_def v andthen_simps ml prod.case Some option.map option.case by (simp add: op)
    consider "length out + (m + 4) + 64 \<ge> cap"
      | "length out + (m + 4) + 64 < cap" "token mod 16 \<noteq> 15" "v \<le> length out" "v \<ge> 8"
      | "length out + (m + 4) + 64 < cap" "\<not> (token mod 16 \<noteq> 15 \<and> v \<le> length out \<and> v \<ge> 8)" by linarith
    then show ?thesis
    proof cases
      case 1
      then show ?thesis using hs i ip(2) unfolding f t by (auto simp: Some)
    next
      case 2
      have "m = token mod 16" using r(1) Some 2(2) by (simp add: long_count_def)
      then have "m + 4 \<le> 18" using 2(2) by linarith
      then obtain mem where c: "copy_eighteen v ?s = Inr mem" "holds cap (?s\<lparr>d_op := length out + (m + 4), d_mem := mem\<rparr>) (lz_match v (m + 4) out)"
        using copy_eighteen_ok [OF hs 2(4,3), of "m + 4"] 2(1) by auto
      have "min (m + 4) (cap - length out) = m + 4" using 2(1) by simp
      then show ?thesis using c 2 i unfolding f t by (auto simp: Some ref_match_def Let_def)
    next
      case 3
      then show ?thesis using fast_copy_ok [OF hs, of src "m + 4" v] i unfolding f t by (auto simp: Some)
    qed
  qed
qed

lemma ref_literals_go:
  assumes "length out + k < cap" "ip + k + 2 < length src" "\<not> (k = 14 \<and> length out + 32 = cap)"
  shows "ref_literals src cap token k ip out
    = andthen (LZ4_readLE16 src (ip + k)) (\<lambda>offset. ref_tail src cap False token offset (ip + k + 2) (out @ map Some (take k (drop ip src))))"
proof -
  have k: "min (min k (length src - ip)) (cap - length out) = k" by (rule min_min) (use assms in auto)
  have on: "(k = 14 \<and> ip + 16 < length src \<and> length out + 32 = cap) \<longleftrightarrow> False" using assms(3) by auto
  have "k \<le> length src - ip" using assms(2) by linarith
  then have len: "length (out @ map Some (take k (drop ip src))) = length out + k" by (simp add: min_absorb2)
  show ?thesis using assms unfolding ref_literals_def Let_def on k len by simp
qed

text \<open>Behind literals that the fast loop has copied.\<close>

lemma fast_rest_ok:
  assumes h: "holds cap st out" and w: "wrote src (d_ip st) (d_mem st) (length out) n mem" "k \<le> n"
    and room: "length out + k + 32 \<le> cap" "d_ip st + k + 2 < length src" "\<not> (k = 14 \<and> length out + 32 = cap)"
  shows "\<exists>g. fast_match src cap token (st\<lparr>d_ip := d_ip st + k, d_op := length out + k, d_mem := mem\<rparr>) = Inr g
    \<and> leaves src cap g (ref_literals src cap token k (d_ip st) out)"
proof -
  let ?st = "st\<lparr>d_ip := d_ip st + k, d_op := length out + k, d_mem := mem\<rparr>" and ?out = "out @ map Some (take k (drop (d_ip st) src))"
  have "holds cap ?st ?out" by (rule holds_literals [OF h w]) (use room in auto)
  moreover have "length ?out < cap" using room by simp
  ultimately show ?thesis
    using fast_match_ok [of cap ?st ?out src token] ref_literals_go [of out k cap "d_ip st" src token] room by simp
qed

lemma fast_step_ok:
  assumes h: "holds cap st out" and ip: "d_ip st < length src" and room: "length out + 64 \<le> cap"
  shows "\<exists>g. fast_step src cap st = Inr g \<and> leaves src cap g (ref_step src cap (d_ip st) out)"
proof -
  let ?t = "unat (src ! d_ip st)" and ?op = "length out" let ?k = "?t div 16"
  have op: "d_op st = ?op" "length (d_mem st) = cap" using h by (simp_all add: holds_def)
  obtain r i where lc: "long_count src ?k (d_ip st + 1) (int (length src) - 15) True = Inr (r, i)"
    "r \<noteq> None \<longrightarrow> i = d_ip st + 1 \<and> ?k \<noteq> 15 \<or> int i \<le> int (length src) - 15"
    using long_count_ok [of ?k True "d_ip st + 1" src "int (length src) - 15"] by auto
  let ?s = "st\<lparr>d_ip := i\<rparr>"
  have hs: "holds cap ?s out" using h by simp
  have rs: "ref_step src cap (d_ip st) out = (case r of None \<Rightarrow> Inr (Ref_end (- int i - 1) out)
      | Some k \<Rightarrow> ref_literals src cap ?t k i out)"
    using ip lc(1) by (simp add: ref_step_def)
  have ll: "literal_length src ?t (st\<lparr>d_ip := d_ip st + 1\<rparr>) = Inr (r, ?s)" using lc(1) by (simp add: literal_length_eq)
  have ld: "load src (d_ip st) = Inr (src ! d_ip st)" using ip by simp
  show ?thesis
  proof (cases r)
    case None
    then show ?thesis using h unfolding rs fast_step_def ld andthen_simps fast_literals_def ll prod.case by auto
  next
    case (Some k)
    have i: "i \<le> length src" using lc(2) Some ip by auto
    have rk: "ref_step src cap (d_ip st) out = ref_literals src cap ?t k i out" unfolding rs Some by simp
    have e: "fast_step src cap st = andthen
       (if ?k = 15
        then if ?op + k + 32 > cap \<or> i + k + 32 > length src then Inr (Safe_literals ?s ?t k)
             else andthen (LZ4_wildCopy32 (Some src) (d_mem st) ?op i (?op + k)) (\<lambda>mem.
                  Inr (Next (?s\<lparr>d_ip := i + k, d_op := ?op + k, d_mem := mem\<rparr>)))
        else if i + 17 \<le> length src
             then andthen (LZ4_memcpy (Some src) (d_mem st) ?op i 16) (\<lambda>mem.
                  Inr (Next (?s\<lparr>d_ip := i + k, d_op := ?op + k, d_mem := mem\<rparr>)))
             else Inr (Safe_literals ?s ?t k))
       (\<lambda>g. case g of Next st \<Rightarrow> fast_match src cap ?t st | _ \<Rightarrow> Inr g)"
      unfolding fast_step_def ld andthen_simps fast_literals_def ll prod.case Some option.case by (simp add: op)
    consider "?k = 15" "?op + k + 32 > cap \<or> i + k + 32 > length src"
      | "?k = 15" "\<not> (?op + k + 32 > cap \<or> i + k + 32 > length src)"
      | "?k \<noteq> 15" "i + 17 \<le> length src" | "?k \<noteq> 15" "\<not> i + 17 \<le> length src" by linarith
    then show ?thesis
    proof cases
      case 1
      have "15 \<le> k" using lc(1) 1(1) Some by (auto simp: long_count_def andthen_eq_Inr)
      then show ?thesis using 1 hs i unfolding e rk by auto
    next
      case 2
      have "15 \<le> k" using lc(1) 2(1) Some by (auto simp: long_count_def andthen_eq_Inr)
      have "\<exists>mem n. LZ4_wildCopy32 (Some src) (d_mem st) (?op + 0) (i + 0) (?op + k) = Inr mem \<and> wrote src i (d_mem st) ?op n mem \<and> ?op + k \<le> ?op + n"
        by (rule wrote_wildCopy32 [OF wrote_start [of src i "d_mem st" ?op]]) (use 2 op(2) in auto)
      then obtain mem n where mem: "LZ4_wildCopy32 (Some src) (d_mem st) ?op i (?op + k) = Inr mem" "wrote src i (d_mem st) ?op n mem" "k \<le> n" by auto
      show ?thesis
        using fast_rest_ok [OF hs, of src n mem k ?t] mem 2 \<open>15 \<le> k\<close> unfolding e rk by simp
    next
      case 3
      have k: "k = ?k" "i = d_ip st + 1" using lc(1) 3(1) Some by (simp_all add: long_count_def)
      have "?k < 16" using unat_u8 [of "src ! d_ip st"] by simp
      then have k14: "k \<le> 14" using 3(1) k by linarith
      obtain mem where mem: "LZ4_memcpy (Some src) (d_mem st) (?op + 0) (i + 0) 16 = Inr mem" "wrote src i (d_mem st) ?op (0 + 16) mem"
        by (rule wrote_memcpy [OF wrote_start [of src i "d_mem st" ?op], where k = 16]) (use 3 room op(2) in auto)
      show ?thesis
        using fast_rest_ok [OF hs, of src 16 mem k ?t] mem 3 k14 room unfolding e rk by simp
    next
      case 4
      then show ?thesis using hs i unfolding e rk by auto
    qed
  qed
qed

text \<open>The rest of the reference behind a step.\<close>

definition ref_rest :: "bytes \<Rightarrow> nat \<Rightarrow> ref_next outcome \<Rightarrow> (int \<times> u8 option list) outcome" where
  "ref_rest src cap r = andthen r (\<lambda>r. case r of Ref_next ip out \<Rightarrow> ref_loop src cap ip out | Ref_end c out \<Rightarrow> Inr (c, out))"

lemma ref_loop_rest: "ref_loop src cap ip out = ref_rest src cap (ref_step src cap ip out)"
  by (simp add: ref_loop.simps [of src cap ip out] ref_rest_def)

lemma fast_loop_ok:
  "holds cap st out \<Longrightarrow> d_ip st < length src \<Longrightarrow> length out + 64 \<le> cap \<Longrightarrow>
    \<exists>g r. fast_loop src cap st = Inr g \<and> leaves src cap g r \<and> (\<forall>st. g \<noteq> Next st) \<and> ref_loop src cap (d_ip st) out = ref_rest src cap r"
proof (induction src cap st arbitrary: out rule: fast_loop.induct)
  case (1 src cap st)
  obtain g where g: "fast_step src cap st = Inr g" "leaves src cap g (ref_step src cap (d_ip st) out)"
    using fast_step_ok [OF 1(2-4)] by blast
  show ?case
  proof (cases "\<exists>st. g = Next st")
    case True
    then obtain st' where n: "g = Next st'" by blast
    then obtain out' where "ref_step src cap (d_ip st) out = Inr (Ref_next (d_ip st') out')" "holds cap st' out'" "d_ip st' < length src"
      "length out' + 64 \<le> cap" using g(2) by (auto simp: holds_def)
    then show ?thesis
      using 1(1) [OF g(1) n, of out'] g(1) n
      by (simp add: fast_loop.simps [of src cap st] ref_loop.simps [of src cap "d_ip st" out])
  next
    case False
    then have "fast_loop src cap st = Inr g" using g(1) by (cases g) (simp_all add: fast_loop.simps [of src cap st])
    then show ?thesis using g(2) False by (auto simp: ref_loop_rest [of src cap "d_ip st" out])
  qed
qed

lemma matches_ends:
  assumes "matches src cap g r"
  shows "\<exists>g'. (case g of Next st \<Rightarrow> safe_loop src cap st | _ \<Rightarrow> Inr g) = Inr g' \<and> ends cap g' (ref_rest src cap r)"
  using assms by (cases g) (auto simp: ref_rest_def dest: safe_loop_ok)

lemma resume_ok:
  assumes "leaves src cap g r" "\<forall>st. g \<noteq> Next st"
  shows "\<exists>g'. resume src cap g = Inr g' \<and> ends cap g' (ref_rest src cap r)"
proof -
  have "\<exists>g'. (case g of Safe_literals st token n \<Rightarrow> safe_literals src cap token n st | Safe_match st offset n \<Rightarrow> safe_match cap offset n st | _ \<Rightarrow> Inr g)
      = Inr g' \<and> matches src cap g' r"
  proof (cases g)
    case (Safe_literals st token k)
    then show ?thesis using assms(1) safe_literals_ok [of cap st _ src k token] by auto
  next
    case (Safe_match st offset m)
    then show ?thesis using assms(1) safe_match_ok [of cap st _ src m False offset] by auto
  qed (use assms in auto)
  then obtain g' where g': "(case g of Safe_literals st token n \<Rightarrow> safe_literals src cap token n st | Safe_match st offset n \<Rightarrow> safe_match cap offset n st | _ \<Rightarrow> Inr g)
      = Inr g'" "matches src cap g' r" by blast
  show ?thesis unfolding resume_def g'(1) andthen_simps by (rule matches_ends [OF g'(2)])
qed

section \<open>Property\<close>

text \<open>
  C8. On every input, for every output buffer, \<open>LZ4_decompress_safe_partial\<close> reads only its input, writes
  only its output, copies no ranges that overlap, ends, returns what the reference decoder returns, the
  position of an error included, and leaves the bytes in the buffer that the reference has.
\<close>

theorem lz4_decompress_refines:
  "\<exists>code out dst'. LZ4_decompress_safe_partial_c src dst (int (length dst)) (int (length dst)) = Inr (code, dst')
    \<and> lz4_reference src (length dst) = Inr (code, out) \<and> length dst' = length dst \<and> agrees out dst'"
proof (cases "dst = [] \<or> src = []")
  case True
  then show ?thesis
    by (auto simp: LZ4_decompress_safe_partial_c_def LZ4_decompress_generic_def lz4_reference_def agrees_def Let_def)
next
  case False
  let ?cap = "length dst" and ?st = "\<lparr>d_ip = 0, d_op = 0, d_mem = dst\<rparr>"
  have h: "holds ?cap ?st []" by (simp add: holds_def agrees_def)
  have ip: "d_ip ?st < length src" using False by simp
  have "\<exists>g. (if ?cap < 64 then safe_loop src ?cap ?st else andthen (fast_loop src ?cap ?st) (resume src ?cap)) = Inr g
      \<and> ends ?cap g (ref_loop src ?cap 0 [])"
  proof (cases "?cap < 64")
    case True
    then show ?thesis using safe_loop_ok [OF h ip] by simp
  next
    case False
    then obtain g r where g: "fast_loop src ?cap ?st = Inr g" "leaves src ?cap g r" "\<forall>st. g \<noteq> Next st" "ref_loop src ?cap 0 [] = ref_rest src ?cap r"
      using fast_loop_ok [OF h ip] by auto
    then show ?thesis using resume_ok [OF g(2,3)] False by simp
  qed
  then obtain g where g: "(if ?cap < 64 then safe_loop src ?cap ?st else andthen (fast_loop src ?cap ?st) (resume src ?cap)) = Inr g"
    "ends ?cap g (ref_loop src ?cap 0 [])" by blast
  have e: "LZ4_decompress_safe_partial_c src dst (int ?cap) (int ?cap) = (case g of Finished st \<Rightarrow> Inr (int (d_op st), d_mem st)
      | Output_error st \<Rightarrow> Inr (- int (d_ip st) - 1, d_mem st) | _ \<Rightarrow> Inl Hang)"
    using False unfolding LZ4_decompress_safe_partial_c_def LZ4_decompress_generic_def Let_def min.idem nat_int g(1) by simp
  show ?thesis using g(2) False unfolding e by (cases g) (auto simp: lz4_reference_def holds_def)
qed

end
