(* ===== verification/LZ4_Sequences.thy ===== *)
theory LZ4_Sequences
  imports LZ4_Safe
begin

text \<open>
  The format of LZ4: a sequence, which is a run of literals and a match, and the literals at the end, as
  bytes, and what the reference decoder makes of them.
\<close>

section \<open>The format\<close>

definition nib :: "nat \<Rightarrow> nat" where "nib n = min n 15"

text \<open>What follows a count that does not fit into four bits.\<close>

definition ext :: "nat \<Rightarrow> bytes" where
  "ext n = (if n < 15 then [] else replicate ((n - 15) div 255) 255 @ [of_nat ((n - 15) mod 255)])"

definition seq_head :: "bytes \<Rightarrow> nat \<Rightarrow> bytes" where
  "seq_head lits k = of_nat (nib (length lits) * 16 + nib k) # ext (length lits) @ lits"

definition seq_bytes :: "bytes \<Rightarrow> nat \<Rightarrow> nat \<Rightarrow> bytes" where
  "seq_bytes lits offset k = seq_head lits k @ [of_nat offset, of_nat (offset div 256)] @ ext k"

lemma length_ext: "length (ext n) = (n + 240) div 255"
proof (cases "n < 15")
  case False
  then obtain m where m: "n = m + 15" by (metis add.commute le_Suc_ex not_less)
  have "(m + 255) div 255 = m div 255 + 1" by (simp add: div_add_self2)
  then show ?thesis by (simp add: ext_def m)
qed (simp add: ext_def)

lemma length_seq_head [simp]: "length (seq_head lits k) = 1 + length (ext (length lits)) + length lits"
  by (simp add: seq_head_def)

lemma length_seq_bytes: "length (seq_bytes lits offset k) = length (seq_head lits k) + 2 + length (ext k)"
  by (simp add: seq_bytes_def)

section \<open>Counts\<close>

lemma read_more_255s:
  assumes "drop ip src = replicate q 255 @ [of_nat r] @ rest" and "r < 255"
    and "int ip + int q + 1 \<le> ilimit"
  shows "read_more src ilimit len ip = Inr (Some (len + q * 255 + r), ip + q + 1)"
  using assms
proof (induction q arbitrary: ip len)
  case 0
  have "unat (of_nat r :: u8) = r" using 0(2) by (simp add: unat_of_nat)
  moreover have "(of_nat r :: u8) \<noteq> 255"
  proof
    assume "(of_nat r :: u8) = 255"
    then have "unat (of_nat r :: u8) = unat (255 :: u8)" by (rule arg_cong)
    with calculation 0(2) show False by simp
  qed
  moreover have "load src ip = Inr (of_nat r)" using 0(1) by (intro load_drop) simp
  ultimately show ?case using 0 by (subst read_more.simps) simp
next
  case (Suc q)
  have d: "drop ip src = 255 # (replicate q 255 @ [of_nat r] @ rest)" using Suc.prems(1) by simp
  have "load src ip = Inr 255" using d by (rule load_drop)
  moreover have "drop (ip + 1) src = replicate q 255 @ [of_nat r] @ rest"
    using drop_record [of ip src "[255]"] d by simp
  then have "read_more src ilimit (len + 255) (ip + 1) = Inr (Some (len + 255 + q * 255 + r), ip + 1 + q + 1)"
    using Suc.prems by (intro Suc.IH) auto
  moreover have "unat (255 :: u8) = 255" by simp
  moreover have "\<not> int (ip + 1) > ilimit" using Suc.prems(3) by simp
  moreover have "len + 255 + q * 255 + r = len + Suc q * 255 + r" "ip + 1 + q + 1 = ip + Suc q + 1" by simp_all
  ultimately show ?case by (subst read_more.simps) (simp only: andthen_simps Let_def if_False if_True simp_thms)
qed

lemma long_count_ext:
  assumes d: "drop ip src = ext n @ rest" and limit: "15 \<le> n \<Longrightarrow> int ip + int (length (ext n)) \<le> ilimit"
  shows "long_count src (nib n) ip ilimit c = Inr (Some n, ip + length (ext n))"
proof (cases "n < 15")
  case True
  then show ?thesis by (simp add: long_count_def nib_def ext_def)
next
  case False
  then have e: "ext n = replicate ((n - 15) div 255) 255 @ [of_nat ((n - 15) mod 255)]" by (simp add: ext_def)
  have "read_more src ilimit 0 ip = Inr (Some (0 + (n - 15) div 255 * 255 + (n - 15) mod 255), ip + (n - 15) div 255 + 1)"
  proof (rule read_more_255s)
    show "drop ip src = replicate ((n - 15) div 255) 255 @ [of_nat ((n - 15) mod 255)] @ rest" using d e by simp
    show "int ip + int ((n - 15) div 255) + 1 \<le> ilimit" using limit False e by simp
  qed simp
  moreover have "\<not> int ip \<ge> ilimit" using limit False e by simp
  moreover have "15 + ((n - 15) div 255 * 255 + (n - 15) mod 255) = n" using False by simp
  ultimately show ?thesis using False by (simp add: long_count_def read_variable_length_def nib_def e)
qed

lemma unat_token: "a \<le> 15 \<Longrightarrow> b \<le> 15 \<Longrightarrow> unat (of_nat (a * 16 + b) :: u8) = a * 16 + b"
  by (simp add: unat_of_nat del: of_nat_add of_nat_mult)

lemma nib_le [simp]: "nib n \<le> 15"
  by (simp add: nib_def)

lemma readLE16_drop:
  assumes "drop p src = [of_nat v, of_nat (v div 256)] @ rest" and "v < 65536"
  shows "LZ4_readLE16 src p = Inr v"
proof -
  have "p + 2 \<le> length src" using arg_cong [OF assms(1), of length] by simp
  moreover have "v div 256 < 256" using assms(2) by simp
  ultimately show ?thesis using assms by (simp add: LZ4_readLE16_def unat_of_nat)
qed

section \<open>Decoding\<close>

text \<open>A sequence, with bytes for the literals at the end behind it and room in the output.\<close>

lemma ref_step_seq:
  assumes d: "drop ip src = seq_bytes lits offset k @ rest" and rest: "6 \<le> length rest"
    and room: "length out + length lits + k + 4 < cap"
    and offset: "offset \<le> length out + length lits" "offset < 65536"
  shows "ref_step src cap ip out = Inr (Ref_next (ip + length (seq_bytes lits offset k)) (lz_match offset (k + 4) (out @ map Some lits)))"
proof -
  let ?l = "length lits" and ?e = "length (ext (length lits))"
  define token where "token = nib ?l * 16 + nib k"
  have len: "length src = ip + (1 + ?e + ?l + 2 + length (ext k) + length rest)"
    using arg_cong [OF d, of length] by (simp add: length_seq_bytes)
  have d0: "drop ip src = of_nat token # ext ?l @ lits @ [of_nat offset, of_nat (offset div 256)] @ ext k @ rest"
    using d by (simp add: seq_bytes_def seq_head_def token_def)
  have d1: "drop (ip + 1) src = ext ?l @ lits @ [of_nat offset, of_nat (offset div 256)] @ ext k @ rest"
    using drop_record [of ip src "[of_nat token]"] d0 by simp
  have d2: "drop (ip + 1 + ?e) src = lits @ [of_nat offset, of_nat (offset div 256)] @ ext k @ rest"
    by (rule drop_record [OF d1])
  have d3: "drop (ip + 1 + ?e + ?l) src = [of_nat offset, of_nat (offset div 256)] @ ext k @ rest"
    by (rule drop_record [OF d2])
  have d4: "drop (ip + 1 + ?e + ?l + 2) src = ext k @ rest" using drop_record [OF d3] by simp
  have t: "unat (of_nat token :: u8) = token" unfolding token_def by (rule unat_token) simp_all
  have div: "token div 16 = nib ?l" and mod: "token mod 16 = nib k"
    using nib_le [of k] unfolding token_def by presburger+
  have c1: "long_count src (nib ?l) (ip + 1) (int (length src) - 15) True = Inr (Some ?l, ip + 1 + ?e)"
    by (rule long_count_ext [OF d1]) (use len in simp)
  have c2: "long_count src (nib k) (ip + 1 + ?e + ?l + 2) (int (length src) - 4) False
      = Inr (Some k, ip + 1 + ?e + ?l + 2 + length (ext k))"
    by (rule long_count_ext [OF d4]) (use len rest in simp)
  have le16: "LZ4_readLE16 src (ip + 1 + ?e + ?l) = Inr offset" by (rule readLE16_drop [OF d3 offset(2)])
  have k: "min (min ?l (length src - (ip + 1 + ?e))) (cap - length out) = ?l" using len room by simp
  have lits: "take ?l (drop (ip + 1 + ?e) src) = lits" using d2 by simp
  have lit: "ref_literals src cap token ?l (ip + 1 + ?e) out
      = Inr (Ref_next (ip + length (seq_bytes lits offset k)) (lz_match offset (k + 4) (out @ map Some lits)))"
  proof -
    have "0 < length rest" using rest by linarith
    then have full: "length (out @ map Some lits) \<noteq> cap" "\<not> ip + 1 + ?e + ?l + 2 \<ge> length src"
      using len room by (simp_all only: length_append length_map)
    have m: "min (k + 4) (cap - length (out @ map Some lits)) = k + 4" using room by simp
    have "ip + 1 + ?e + ?l + 2 + length (ext k) = ip + length (seq_bytes lits offset k)" by (simp add: length_seq_bytes)
    then show ?thesis
      unfolding ref_literals_def Let_def k lits ref_tail_def mod le16 andthen_simps c2
      using full room offset(1) by (simp add: ref_match_def m Let_def)
  qed
  show ?thesis unfolding ref_step_def load_drop [OF d0] andthen_simps t div c1 using lit by simp
qed

text \<open>The last literals: they fill the output, whatever is behind them, or they end the input.\<close>

lemma ref_step_last:
  assumes d: "drop ip src = seq_head lits 0 @ rest" and room: "length out + length lits \<le> cap"
    and full: "length out + length lits = cap \<or> rest = []"
  shows "ref_step src cap ip out = Inr (Ref_end (int (length out + length lits)) (out @ map Some lits))"
proof -
  let ?l = "length lits" and ?e = "length (ext (length lits))"
  define token where "token = nib ?l * 16"
  have len: "length src = ip + (1 + ?e + ?l + length rest)" using arg_cong [OF d, of length] by simp
  have d0: "drop ip src = of_nat token # ext ?l @ lits @ rest" using d by (simp add: seq_head_def token_def nib_def [of 0])
  have d1: "drop (ip + 1) src = ext ?l @ lits @ rest"
    using drop_record [of ip src "[of_nat token]"] d0 by simp
  have d2: "drop (ip + 1 + ?e) src = lits @ rest" by (rule drop_record [OF d1])
  have t: "unat (of_nat token :: u8) = token" using unat_token [of "nib ?l" 0] by (simp add: token_def)
  have div: "token div 16 = nib ?l" by (simp add: token_def)
  have c1: "long_count src (nib ?l) (ip + 1) (int (length src) - 15) True = Inr (Some ?l, ip + 1 + ?e)"
    by (rule long_count_ext [OF d1]) (use len in simp)
  have k: "min (min ?l (length src - (ip + 1 + ?e))) (cap - length out) = ?l" using len room by simp
  have lits: "take ?l (drop (ip + 1 + ?e) src) = lits" using d2 by simp
  have "length (out @ map Some lits) = cap \<or> ip + 1 + ?e + ?l + 2 \<ge> length src" using full len by auto
  then have "ref_literals src cap token ?l (ip + 1 + ?e) out = Inr (Ref_end (int (length out + length lits)) (out @ map Some lits))"
    unfolding ref_literals_def Let_def k lits by simp
  then show ?thesis unfolding ref_step_def load_drop [OF d0] andthen_simps t div c1 by simp
qed

section \<open>Streams\<close>

text \<open>\<open>bs\<close> stands for the first \<open>a\<close> bytes of \<open>s\<close>.\<close>

definition delivers :: "bytes \<Rightarrow> bytes \<Rightarrow> nat \<Rightarrow> bool" where
  "delivers s bs a \<longleftrightarrow> (\<forall>rest cap. 6 \<le> length rest \<longrightarrow> a < cap \<longrightarrow>
     ref_loop (bs @ rest) cap 0 [] = ref_loop (bs @ rest) cap (length bs) (map Some (take a s)))"

lemma delivers_start: "delivers s [] 0"
  by (simp add: delivers_def)

text \<open>\<open>n\<close> bytes at \<open>p\<close> are those at \<open>m\<close>.\<close>

definition common :: "bytes \<Rightarrow> nat \<Rightarrow> nat \<Rightarrow> nat \<Rightarrow> bool" where
  "common s m p n \<longleftrightarrow> (\<forall>j < n. s ! (m + j) = s ! (p + j))"

lemma lz_match_common:
  assumes "common s m p n" and "m < p" and "p + n \<le> length s"
  shows "lz_match (p - m) n (map Some (take p s)) = map Some (take (p + n) s)"
  using assms
proof (induction n)
  case (Suc n)
  then have ih: "lz_match (p - m) n (map Some (take p s)) = map Some (take (p + n) s)" by (simp add: common_def)
  have e: "s ! (m + n) = s ! (p + n)" using Suc.prems(1) by (simp add: common_def)
  have i: "min (length s) p + n - (p - m) = m + n" using Suc.prems by simp
  have "take (p + Suc n) s = take (p + n) s @ [s ! (p + n)]"
    using Suc.prems(3) by (simp add: take_Suc_conv_app_nth)
  then show ?case unfolding lz_match_snoc ih using Suc.prems e i by (simp add: add.commute [of n])
qed simp

lemma delivers_seq:
  assumes dl: "delivers s bs a" and a: "a \<le> p" and m: "m < p" "p - m < 65536"
    and c: "common s m p (k + 4)" and p: "p + k + 4 \<le> length s"
  shows "delivers s (bs @ seq_bytes (take (p - a) (drop a s)) (p - m) k) (p + k + 4)"
  unfolding delivers_def
proof (intro allI impI)
  fix rest :: bytes and cap assume rest: "6 \<le> length rest" and cap: "p + k + 4 < cap"
  let ?lits = "take (p - a) (drop a s)"
  let ?seq = "seq_bytes ?lits (p - m) k"
  have l: "length ?lits = p - a" using p by simp
  have t: "map Some (take a s) @ map Some ?lits = map Some (take p s)"
    using a by (simp flip: map_append take_add)
  have "ref_loop ((bs @ ?seq) @ rest) cap 0 [] = ref_loop ((bs @ ?seq) @ rest) cap (length bs) (map Some (take a s))"
    using dl rest cap a unfolding delivers_def append_assoc by simp
  also have "\<dots> = ref_loop ((bs @ ?seq) @ rest) cap (length bs + length ?seq) (lz_match (p - m) (k + 4) (map Some (take a s) @ map Some ?lits))"
    by (subst ref_loop.simps, subst ref_step_seq [where rest = rest and k = k and lits = ?lits and offset = "p - m"])
      (use rest cap a m p l in auto)
  also have "\<dots> = ref_loop ((bs @ ?seq) @ rest) cap (length (bs @ ?seq)) (map Some (take (p + k + 4) s))"
    unfolding t using lz_match_common [OF c m(1)] p by (simp add: add.assoc)
  finally show "ref_loop ((bs @ ?seq) @ rest) cap 0 [] = ref_loop ((bs @ ?seq) @ rest) cap (length (bs @ ?seq)) (map Some (take (p + k + 4) s))" .
qed

lemma delivers_last:
  assumes dl: "delivers s bs a" and a: "a + 5 \<le> length s \<or> bs = [] \<and> a = 0" and s: "s \<noteq> []"
    and cap: "length s \<le> cap" "length s = cap \<or> junk = []"
  shows "lz4_reference (bs @ seq_head (drop a s) 0 @ junk) cap = Inr (int (length s), map Some s)"
proof -
  let ?src = "bs @ seq_head (drop a s) 0 @ junk"
  have al: "a \<le> length s" using a by auto
  have "ref_loop ?src cap 0 [] = ref_loop ?src cap (length bs) (map Some (take a s))"
  proof (cases "bs = [] \<and> a = 0")
    case False
    then have "6 \<le> length (seq_head (drop a s) 0 @ junk)" "a < cap" using a cap by auto
    then show ?thesis using dl unfolding delivers_def by blast
  qed simp
  also have "\<dots> = Inr (int (length s), map Some s)"
    by (subst ref_loop.simps, subst ref_step_last [where rest = junk and lits = "drop a s"])
      (use al cap in \<open>auto simp flip: map_append\<close>)
  moreover have "0 < cap" using s cap(1) by (cases s) auto
  ultimately show ?thesis by (simp add: lz4_reference_def seq_head_def)
qed

end
