(* ===== verification/LZ4_Compress.thy ===== *)
theory LZ4_Compress
  imports LZ4_Decompress
begin

text \<open>
  The compressor of \<open>lz4.c\<close> as \<open>fstapi.c\<close> calls it: \<open>LZ4_compress_default\<close>, which is
  \<open>LZ4_compress_fast_extState\<close> on a stream state that was just initialised, and \<open>LZ4_compress_generic\<close> with
  \<open>noDict\<close>, \<open>noDictIssue\<close>, a table of 16-bit or of 32-bit indices, and an output that is limited or not.
  Pointers into the input and the output are offsets, indices in the table are offsets as well
  (\<open>startIndex\<close> is 0), and every access is checked, the copies that write past their end included. The
  machine is little-endian with 64 bits. The instances for dictionaries, for streams and for \<open>fillOutput\<close>
  are left out.
\<close>

section \<open>Constants\<close>

definition MINMATCH :: nat where "MINMATCH = 4"
definition LASTLITERALS :: nat where "LASTLITERALS = 5"
definition MFLIMIT :: nat where "MFLIMIT = 12"
definition LZ4_minLength :: nat where "LZ4_minLength = MFLIMIT + 1"
definition LZ4_64Klimit :: nat where "LZ4_64Klimit = 65536 + (MFLIMIT - 1)"
definition LZ4_skipTrigger :: nat where "LZ4_skipTrigger = 6"
definition LZ4_DISTANCE_MAX :: nat where "LZ4_DISTANCE_MAX = 65535"
definition LZ4_HASHLOG :: nat where "LZ4_HASHLOG = 12"
definition LZ4_MAX_INPUT_SIZE :: int where "LZ4_MAX_INPUT_SIZE = 0x7E000000"
definition LZ4_ACCELERATION_MAX :: int where "LZ4_ACCELERATION_MAX = 65537"

definition LZ4_compressBound :: "int \<Rightarrow> int" where
  "LZ4_compressBound isize = (if isize < 0 \<or> isize > LZ4_MAX_INPUT_SIZE then 0 else isize + isize div 255 + 16)"

section \<open>Reading\<close>

text \<open>A little-endian number.\<close>

primrec le_val :: "bytes \<Rightarrow> 'a::len word" where
  "le_val [] = 0"
| "le_val (b # bs) = ucast b OR push_bit 8 (le_val bs)"

definition LZ4_read16 :: "bytes \<Rightarrow> nat \<Rightarrow> 16 word outcome" where
  "LZ4_read16 src p = andthen (load_n src p 2) (\<lambda>bs. Inr (le_val bs))"

definition LZ4_read32 :: "bytes \<Rightarrow> nat \<Rightarrow> u32 outcome" where
  "LZ4_read32 src p = andthen (load_n src p 4) (\<lambda>bs. Inr (le_val bs))"

definition LZ4_read_ARCH :: "bytes \<Rightarrow> nat \<Rightarrow> u64 outcome" where
  "LZ4_read_ARCH src p = andthen (load_n src p 8) (\<lambda>bs. Inr (le_val bs))"

definition same :: "(bytes \<Rightarrow> nat \<Rightarrow> 'a outcome) \<Rightarrow> bytes \<Rightarrow> nat \<Rightarrow> nat \<Rightarrow> bool outcome" where
  "same read src p q = andthen (read src p) (\<lambda>a. andthen (read src q) (\<lambda>b. Inr (a = b)))"

text \<open>\<open>__builtin_ctzll(val) >> 3\<close>.\<close>

definition LZ4_NbCommonBytes :: "u64 \<Rightarrow> nat" where
  "LZ4_NbCommonBytes val = length (takeWhile (\<lambda>i. \<not> bit val i) [0..<64]) div 8"

section \<open>The length of a match\<close>

text \<open>The loop over words: where it stops, and whether a difference was found.\<close>

function count_words :: "bytes \<Rightarrow> nat \<Rightarrow> nat \<Rightarrow> nat \<Rightarrow> (bool \<times> nat \<times> nat) outcome" where
  "count_words src pIn pMatch pInLimit =
     (if pIn + 7 < pInLimit
      then andthen (LZ4_read_ARCH src pMatch) (\<lambda>a. andthen (LZ4_read_ARCH src pIn) (\<lambda>b.
           if a XOR b = 0 then count_words src (pIn + 8) (pMatch + 8) pInLimit
           else Inr (True, pIn + LZ4_NbCommonBytes (a XOR b), pMatch)))
      else Inr (False, pIn, pMatch))"
  by pat_completeness auto
termination
  by (relation "measure (\<lambda>(src, pIn, pMatch, pInLimit). pInLimit - pIn)") auto

declare count_words.simps [simp del]

definition LZ4_count :: "bytes \<Rightarrow> nat \<Rightarrow> nat \<Rightarrow> nat \<Rightarrow> nat outcome" where
  "LZ4_count src pStart pMatch pInLimit =
     andthen (count_words src pStart pMatch pInLimit) (\<lambda>(stop, pIn, pMatch).
       if stop then Inr (pIn - pStart)
       else andthen (if pIn + 3 < pInLimit then same LZ4_read32 src pMatch pIn else Inr False) (\<lambda>eq.
            let pIn = (if eq then pIn + 4 else pIn); pMatch = (if eq then pMatch + 4 else pMatch)
            in andthen (if pIn + 1 < pInLimit then same LZ4_read16 src pMatch pIn else Inr False) (\<lambda>eq.
            let pIn = (if eq then pIn + 2 else pIn); pMatch = (if eq then pMatch + 2 else pMatch)
            in andthen (if pIn < pInLimit then same load src pMatch pIn else Inr False) (\<lambda>eq.
               Inr ((if eq then pIn + 1 else pIn) - pStart)))))"

section \<open>The table\<close>

datatype tableType = byU32 | byU16

definition LZ4_hash4 :: "u32 \<Rightarrow> tableType \<Rightarrow> u32" where
  "LZ4_hash4 sequence tt =
     drop_bit (MINMATCH * 8 - (if tt = byU16 then LZ4_HASHLOG + 1 else LZ4_HASHLOG)) (sequence * 2654435761)"

definition LZ4_hash5 :: "u64 \<Rightarrow> tableType \<Rightarrow> u32" where
  "LZ4_hash5 sequence tt =
     (let hashLog = (if tt = byU16 then LZ4_HASHLOG + 1 else LZ4_HASHLOG)
      in ucast (drop_bit (64 - hashLog) (push_bit 24 sequence * (889523592379 :: u64))))"

definition LZ4_hashPosition :: "bytes \<Rightarrow> nat \<Rightarrow> tableType \<Rightarrow> nat outcome" where
  "LZ4_hashPosition src p tt =
     (if tt \<noteq> byU16 then andthen (LZ4_read_ARCH src p) (\<lambda>v. Inr (unat (LZ4_hash5 v tt)))
      else andthen (LZ4_read32 src p) (\<lambda>v. Inr (unat (LZ4_hash4 v tt))))"

definition LZ4_putIndexOnHash :: "nat \<Rightarrow> nat \<Rightarrow> u32 list \<Rightarrow> tableType \<Rightarrow> u32 list outcome" where
  "LZ4_putIndexOnHash idx h tbl tt =
     (if h < length tbl
      then Inr (tbl[h := (if tt = byU16 then ucast (of_nat idx :: 16 word) else of_nat idx)])
      else Inl Out_of_bounds)"

definition LZ4_getIndexOnHash :: "nat \<Rightarrow> u32 list \<Rightarrow> nat outcome" where
  "LZ4_getIndexOnHash h tbl = andthen (load tbl h) (\<lambda>i. Inr (unat i))"

text \<open>The table of \<open>LZ4_initStream\<close>: 16 KiB of zeros.\<close>

definition fresh_table :: "tableType \<Rightarrow> u32 list" where
  "fresh_table tt = replicate (if tt = byU16 then 8192 else 4096) 0"

section \<open>Finding a match\<close>

text \<open>
  The search from \<open>forwardIp\<close> on: the position and the match, or nothing where the end is reached, and
  the table.
\<close>

definition close_enough :: "tableType \<Rightarrow> nat \<Rightarrow> nat \<Rightarrow> bool" where
  "close_enough tt matchIndex current \<longleftrightarrow> tt = byU16 \<or> \<not> matchIndex + LZ4_DISTANCE_MAX < current"

function find_match ::
    "bytes \<Rightarrow> tableType \<Rightarrow> nat \<Rightarrow> nat \<Rightarrow> nat \<Rightarrow> nat \<Rightarrow> u32 list \<Rightarrow> ((nat \<times> nat) option \<times> u32 list) outcome" where
  "find_match src tt forwardIp step searchMatchNb forwardH tbl =
     andthen (LZ4_getIndexOnHash forwardH tbl) (\<lambda>matchIndex.
       let ip = forwardIp; forwardIp = forwardIp + step
       in if forwardIp + MFLIMIT > length src + 1 then Inr (None, tbl)
          else andthen (LZ4_hashPosition src forwardIp tt) (\<lambda>h.
               andthen (LZ4_putIndexOnHash ip forwardH tbl tt) (\<lambda>tbl.
               andthen (if close_enough tt matchIndex ip then same LZ4_read32 src matchIndex ip else Inr False) (\<lambda>found.
               if found then Inr (Some (ip, matchIndex), tbl)
               else find_match src tt forwardIp (searchMatchNb div 2 ^ LZ4_skipTrigger) (searchMatchNb + 1) h tbl))))"
  by pat_completeness auto
termination
  by (relation "measures [\<lambda>(src, tt, ip, step, nb, h, tbl). length src - ip,
      \<lambda>(src, tt, ip, step, nb, h, tbl). 64 - nb, \<lambda>(src, tt, ip, step, nb, h, tbl). if step = 0 then 1 else 0]")
    (auto simp: MFLIMIT_def LZ4_skipTrigger_def not_less)

declare find_match.simps [simp del]

text \<open>\<open>do { ip--; match--; } while (...)\<close>, behind the first comparison.\<close>

function catch_up :: "bytes \<Rightarrow> nat \<Rightarrow> nat \<Rightarrow> nat \<Rightarrow> (nat \<times> nat) outcome" where
  "catch_up src anchor ip match =
     (if ip > anchor \<and> match > 0
      then andthen (same load src (ip - 1) (match - 1)) (\<lambda>eq.
           if eq then catch_up src anchor (ip - 1) (match - 1) else Inr (ip, match))
      else Inr (ip, match))"
  by pat_completeness auto
termination
  by (relation "measure (\<lambda>(src, anchor, ip, match). ip)") auto

declare catch_up.simps [simp del]

definition caught_up :: "bytes \<Rightarrow> nat \<Rightarrow> nat \<Rightarrow> nat \<Rightarrow> (nat \<times> nat) outcome" where
  "caught_up src anchor ip match =
     andthen (if match > 0 then same load src (ip - 1) (match - 1) else Inr False) (\<lambda>eq.
       if eq then catch_up src anchor (ip - 1) (match - 1) else Inr (ip, match))"

section \<open>Writing\<close>

text \<open>\<open>for(; len >= 255 ; len-=255) *op++ = 255; *op++ = (BYTE)len\<close>.\<close>

function put_length :: "bytes \<Rightarrow> nat \<Rightarrow> nat \<Rightarrow> (bytes \<times> nat) outcome" where
  "put_length dst op len =
     (if len \<ge> 255 then andthen (store_n dst op [255]) (\<lambda>dst. put_length dst (op + 1) (len - 255))
      else andthen (store_n dst op [of_nat len]) (\<lambda>dst. Inr (dst, op + 1)))"
  by pat_completeness auto
termination
  by (relation "measure (\<lambda>(dst, op, len). len)") auto

text \<open>The same for a match, four bytes at a time.\<close>

function put_match_length :: "bytes \<Rightarrow> nat \<Rightarrow> nat \<Rightarrow> (bytes \<times> nat) outcome" where
  "put_match_length dst op matchCode =
     andthen (store_n dst op [255, 255, 255, 255]) (\<lambda>dst.
       if matchCode \<ge> 4 * 255 then put_match_length dst (op + 4) (matchCode - 4 * 255)
       else let op = op + matchCode div 255
            in andthen (store_n dst op [of_nat (matchCode mod 255)]) (\<lambda>dst. Inr (dst, op + 1)))"
  by pat_completeness auto
termination
  by (relation "measure (\<lambda>(dst, op, matchCode). matchCode)") auto

declare put_length.simps [simp del] put_match_length.simps [simp del]

section \<open>Sequences\<close>

text \<open>
  \<open>c_ip\<close> is \<open>anchor\<close> at the head of the main loop, where \<open>ip\<close> is one further, and \<open>ip\<close> at \<open>_next_match\<close>.
\<close>

record comp =
  c_ip :: nat
  c_op :: nat
  c_dst :: bytes
  c_tbl :: "u32 list"

datatype comp_goes =
    Search comp
  | Next_match comp nat nat
  | Last_literals comp
  | No_room comp

text \<open>The literals in front of a match at \<open>ip\<close>; the token is where \<open>op\<close> was.\<close>

definition put_literals :: "bytes \<Rightarrow> nat option \<Rightarrow> nat \<Rightarrow> nat \<Rightarrow> comp \<Rightarrow> comp_goes outcome" where
  "put_literals src olimit ip match st =
     (let anchor = c_ip st; litLength = ip - anchor; token = c_op st; op = token + 1
      in if olimit \<noteq> None \<and> op + litLength + (2 + 1 + LASTLITERALS) + litLength div 255 > the olimit then Inr (No_room st)
         else andthen (if litLength \<ge> 15
                       then andthen (store_n (c_dst st) token [15 * 16]) (\<lambda>dst. put_length dst op (litLength - 15))
                       else andthen (store_n (c_dst st) token [of_nat (litLength * 16)]) (\<lambda>dst. Inr (dst, op))) (\<lambda>(dst, op).
              andthen (LZ4_wildCopy8 (Some src) dst op anchor (op + litLength)) (\<lambda>dst.
              Inr (Next_match (st\<lparr>c_ip := ip, c_op := op + litLength, c_dst := dst\<rparr>) match token))))"

definition search_step :: "bytes \<Rightarrow> tableType \<Rightarrow> nat option \<Rightarrow> nat \<Rightarrow> comp \<Rightarrow> comp_goes outcome" where
  "search_step src tt olimit acceleration st =
     (let ip = c_ip st + 1
      in andthen (LZ4_hashPosition src ip tt) (\<lambda>h.
         andthen (find_match src tt ip 1 (acceleration * 2 ^ LZ4_skipTrigger) h (c_tbl st)) (\<lambda>(m, tbl).
         let st = st\<lparr>c_tbl := tbl\<rparr>
         in case m of
              None \<Rightarrow> Inr (Last_literals st)
            | Some (ip, match) \<Rightarrow>
                andthen (caught_up src (c_ip st) ip match) (\<lambda>(ip, match). put_literals src olimit ip match st))))"

text \<open>Offset and length of the match; false where there is no room for them.\<close>

definition put_match :: "bytes \<Rightarrow> nat option \<Rightarrow> nat \<Rightarrow> nat \<Rightarrow> comp \<Rightarrow> (bool \<times> comp) outcome" where
  "put_match src olimit match token st =
     (let ip = c_ip st; op = c_op st; offset = ip - match
      in andthen (store_n (c_dst st) op [of_nat offset, of_nat (offset div 256)]) (\<lambda>dst.
         let op = op + 2
         in andthen (LZ4_count src (ip + MINMATCH) (match + MINMATCH) (length src - LASTLITERALS)) (\<lambda>matchCode.
            let ip = ip + matchCode + MINMATCH
            in if olimit \<noteq> None \<and> op + (1 + LASTLITERALS) + (matchCode + 240) div 255 > the olimit then Inr (False, st\<lparr>c_ip := ip, c_op := op, c_dst := dst\<rparr>)
               else andthen (load dst token) (\<lambda>t.
                    andthen (if matchCode \<ge> 15
                             then andthen (store_n dst token [t + 15]) (\<lambda>dst. put_match_length dst op (matchCode - 15))
                             else andthen (store_n dst token [t + of_nat matchCode]) (\<lambda>dst. Inr (dst, op))) (\<lambda>(dst, op).
                    Inr (True, st\<lparr>c_ip := ip, c_op := op, c_dst := dst\<rparr>))))))"

text \<open>\<open>Fill table\<close> and \<open>Test next position\<close>.\<close>

definition test_next :: "bytes \<Rightarrow> tableType \<Rightarrow> comp \<Rightarrow> comp_goes outcome" where
  "test_next src tt st =
     (let ip = c_ip st
      in andthen (LZ4_hashPosition src (ip - 2) tt) (\<lambda>h.
         andthen (LZ4_putIndexOnHash (ip - 2) h (c_tbl st) tt) (\<lambda>tbl.
         andthen (LZ4_hashPosition src ip tt) (\<lambda>h.
         andthen (LZ4_getIndexOnHash h tbl) (\<lambda>matchIndex.
         andthen (LZ4_putIndexOnHash ip h tbl tt) (\<lambda>tbl.
         andthen (if close_enough tt matchIndex ip then same LZ4_read32 src matchIndex ip else Inr False) (\<lambda>found.
         if found
         then andthen (store_n (c_dst st) (c_op st) [0]) (\<lambda>dst.
              Inr (Next_match (st\<lparr>c_op := c_op st + 1, c_dst := dst, c_tbl := tbl\<rparr>) matchIndex (c_op st)))
         else Inr (Search (st\<lparr>c_tbl := tbl\<rparr>)))))))))"

definition match_step :: "bytes \<Rightarrow> tableType \<Rightarrow> nat option \<Rightarrow> nat \<Rightarrow> nat \<Rightarrow> comp \<Rightarrow> comp_goes outcome" where
  "match_step src tt olimit match token st =
     andthen (put_match src olimit match token st) (\<lambda>(room, st).
       if \<not> room then Inr (No_room st)
       else if c_ip st + MFLIMIT \<ge> length src + 1 then Inr (Last_literals st)
       else test_next src tt st)"

subsection \<open>The main loop\<close>

lemma find_match_ip: "find_match src tt ip step nb h tbl = Inr (Some (ip', m), tbl') \<Longrightarrow> ip \<le> ip'"
proof (induction src tt ip step nb h tbl rule: find_match.induct)
  case (1 src tt ip step nb h tbl)
  from "1.prems" show ?case
    by (subst (asm) find_match.simps) (auto simp: andthen_eq_Inr Let_def split: if_splits dest!: "1.IH")
qed

lemma catch_up_ip: "catch_up src anchor ip match = Inr (ip', m) \<Longrightarrow> anchor \<le> ip \<Longrightarrow> anchor \<le> ip'"
proof (induction src anchor ip match rule: catch_up.induct)
  case (1 src anchor ip match)
  show ?case
  proof (cases "ip > anchor \<and> match > 0")
    case True
    then obtain eq where eq: "same load src (ip - 1) (match - 1) = Inr eq"
      and r: "(if eq then catch_up src anchor (ip - 1) (match - 1) else Inr (ip, match)) = Inr (ip', m)"
      using "1.prems"(1) by (subst (asm) catch_up.simps) (simp only: if_True simp_thms andthen_eq_Inr, blast)
    from True have "anchor \<le> ip - 1" by linarith
    with r "1.IH" [OF True eq] "1.prems"(2) show ?thesis by (cases eq) auto
  next
    case False
    with "1.prems" show ?thesis by (subst (asm) catch_up.simps) auto
  qed
qed

lemma caught_up_ip: "caught_up src anchor ip match = Inr (ip', m) \<Longrightarrow> anchor < ip \<Longrightarrow> anchor \<le> ip'"
  by (auto simp: caught_up_def andthen_eq_Inr split: if_splits dest: catch_up_ip)

lemma put_literals_ip: "put_literals src olimit ip match st = Inr (Next_match st' m t) \<Longrightarrow> c_ip st' = ip"
  by (auto simp: put_literals_def andthen_eq_Inr Let_def split: if_splits)

lemma put_literals_not_search: "put_literals src olimit ip match st \<noteq> Inr (Search st')"
  by (auto simp: put_literals_def andthen_eq_Inr Let_def)

lemma search_step_not_search: "search_step src tt olimit acc st \<noteq> Inr (Search st')"
  by (auto simp: search_step_def put_literals_not_search andthen_eq_Inr Let_def split: option.splits)

lemma search_step_ip: "search_step src tt olimit acc st = Inr (Next_match st' m t) \<Longrightarrow> c_ip st \<le> c_ip st'"
  by (auto simp: search_step_def andthen_eq_Inr Let_def split: option.splits
      dest!: find_match_ip caught_up_ip put_literals_ip)

lemma put_match_ip: "put_match src olimit m t st = Inr (room, st') \<Longrightarrow> c_ip st < c_ip st'"
  by (auto simp: put_match_def andthen_eq_Inr Let_def MINMATCH_def split: if_splits)

lemma test_next_ip:
  "test_next src tt st = Inr (Search st') \<Longrightarrow> c_ip st' = c_ip st"
  "test_next src tt st = Inr (Next_match st' m t) \<Longrightarrow> c_ip st' = c_ip st"
  by (auto simp: test_next_def andthen_eq_Inr Let_def split: if_splits)

lemma match_step_ip:
  "match_step src tt olimit m t st = Inr (Search st') \<Longrightarrow> c_ip st < c_ip st' \<and> c_ip st' < length src"
  "match_step src tt olimit m t st = Inr (Next_match st' m' t') \<Longrightarrow> c_ip st < c_ip st' \<and> c_ip st' < length src"
  by (auto simp: match_step_def andthen_eq_Inr MFLIMIT_def split: option.splits if_splits dest!: put_match_ip test_next_ip)

function comp_loop :: "bytes \<Rightarrow> tableType \<Rightarrow> nat option \<Rightarrow> nat \<Rightarrow> comp_goes \<Rightarrow> comp_goes outcome" where
  "comp_loop src tt olimit acceleration g =
     (case g of
        Search st \<Rightarrow> andthen (search_step src tt olimit acceleration st) (comp_loop src tt olimit acceleration)
      | Next_match st match token \<Rightarrow> andthen (match_step src tt olimit match token st) (comp_loop src tt olimit acceleration)
      | _ \<Rightarrow> Inr g)"
  by pat_completeness auto
termination
proof (relation "measure (\<lambda>(src, tt, olimit, acceleration, g). case g of
    Search st \<Rightarrow> 2 * (length src - c_ip st) + 2 | Next_match st m t \<Rightarrow> 2 * (length src - c_ip st) + 1 | _ \<Rightarrow> 0)", goal_cases)
  case 1
  show ?case by simp
next
  case (2 src tt olimit acceleration g st g')
  then show ?case
    using search_step_not_search [of src tt olimit acceleration st] search_step_ip [of src tt olimit acceleration st]
    by (cases g') auto
next
  case (3 src tt olimit acceleration g st match token g')
  then show ?case
    using match_step_ip [of src tt olimit match token st] by (cases g') auto
qed

declare comp_loop.simps [simp del]

section \<open>A block\<close>

text \<open>From \<open>_last_literals\<close> on: the size of the output, 0 where there is no room.\<close>

definition put_last :: "bytes \<Rightarrow> nat option \<Rightarrow> comp \<Rightarrow> (int \<times> bytes) outcome" where
  "put_last src olimit st =
     (let anchor = c_ip st; op = c_op st; lastRun = length src - anchor
      in if olimit \<noteq> None \<and> op + lastRun + 1 + (lastRun + 255 - 15) div 255 > the olimit then Inr (0, c_dst st)
         else andthen (if lastRun \<ge> 15
                       then andthen (store_n (c_dst st) op [15 * 16]) (\<lambda>dst. put_length dst (op + 1) (lastRun - 15))
                       else andthen (store_n (c_dst st) op [of_nat (lastRun * 16)]) (\<lambda>dst. Inr (dst, op + 1))) (\<lambda>(dst, op).
              andthen (LZ4_memcpy (Some src) dst op anchor lastRun) (\<lambda>dst. Inr (int (op + lastRun), dst))))"

definition LZ4_compress_generic_validated :: "bytes \<Rightarrow> bytes \<Rightarrow> nat option \<Rightarrow> tableType \<Rightarrow> nat \<Rightarrow> (int \<times> bytes) outcome" where
  "LZ4_compress_generic_validated src dst olimit tt acceleration =
     (let st = \<lparr>c_ip = 0, c_op = 0, c_dst = dst, c_tbl = fresh_table tt\<rparr>
      in if length src < LZ4_minLength then put_last src olimit st
         else andthen (LZ4_hashPosition src 0 tt) (\<lambda>h.
              andthen (LZ4_putIndexOnHash 0 h (c_tbl st) tt) (\<lambda>tbl.
              andthen (comp_loop src tt olimit acceleration (Search (st\<lparr>c_tbl := tbl\<rparr>))) (\<lambda>g. case g of
                Last_literals st \<Rightarrow> put_last src olimit st
              | No_room st \<Rightarrow> Inr (0, c_dst st)
              | _ \<Rightarrow> Inl Hang))))"

definition LZ4_compress_generic :: "bytes \<Rightarrow> bytes \<Rightarrow> nat option \<Rightarrow> tableType \<Rightarrow> nat \<Rightarrow> (int \<times> bytes) outcome" where
  "LZ4_compress_generic src dst olimit tt acceleration =
     (if int (length src) > LZ4_MAX_INPUT_SIZE then Inr (0, dst)
      else if src = []
           then if olimit = Some 0 then Inr (0, dst) else andthen (store_n dst 0 [0]) (\<lambda>dst. Inr (1, dst))
      else LZ4_compress_generic_validated src dst olimit tt acceleration)"

definition LZ4_compress_fast :: "bytes \<Rightarrow> bytes \<Rightarrow> int \<Rightarrow> int \<Rightarrow> (int \<times> bytes) outcome" where
  "LZ4_compress_fast src dst maxOutputSize acceleration =
     (let acceleration = (if acceleration < 1 then 1 else acceleration);
          acceleration = (if acceleration > LZ4_ACCELERATION_MAX then LZ4_ACCELERATION_MAX else acceleration);
          tt = (if length src < LZ4_64Klimit then byU16 else byU32);
          olimit = (if maxOutputSize \<ge> LZ4_compressBound (int (length src)) then None else Some (nat maxOutputSize))
      in LZ4_compress_generic src dst olimit tt (nat acceleration))"

definition LZ4_compress_default_c :: "bytes \<Rightarrow> bytes \<Rightarrow> int \<Rightarrow> (int \<times> bytes) outcome" where
  "LZ4_compress_default_c src dst dstCapacity = LZ4_compress_fast src dst dstCapacity 1"

end
