(* ===== verification/LZ4_Match.thy ===== *)
theory LZ4_Match
  imports LZ4_Sequences LZ4_Compress
begin

text \<open>
  How the compressor finds matches: what a comparison of words says about the bytes, that
  \<open>LZ4_count\<close> counts exactly the bytes that agree, and that the table holds positions behind the
  current one, so that the search ends with a match in front of it and never leaves the input.
\<close>

section \<open>Words of bytes\<close>

lemma bit_le_val:
  "bit (le_val bs :: 'a::len word) i \<longleftrightarrow> i < LENGTH('a) \<and> i div 8 < length bs \<and> bit (bs ! (i div 8)) (i mod 8)"
proof (induction bs arbitrary: i)
  case (Cons b bs)
  show ?case
  proof (cases "i < 8")
    case True
    then show ?thesis by (auto simp: bit_or_iff bit_push_bit_iff bit_ucast_iff dest: bit_imp_le_length)
  next
    case False
    then have e: "i div 8 = Suc ((i - 8) div 8)" "i mod 8 = (i - 8) mod 8" by (simp_all add: le_div_geq le_mod_geq)
    have "\<not> bit b i" using False bit_imp_le_length [of b i] by auto
    then show ?thesis using False Cons.IH [of "i - 8"] e
      by (auto simp: bit_or_iff bit_push_bit_iff bit_ucast_iff)
  qed
qed simp

lemma xor_0_iff: "a XOR b = 0 \<longleftrightarrow> a = (b :: 'a::len word)"
  by (auto simp: bit_eq_iff bit_xor_iff)

lemma bit_xor_le_val:
  assumes "j < length bs" "length cs = length bs" "8 * length bs \<le> LENGTH('a)"
  shows "(\<forall>i < 8. \<not> bit (le_val bs XOR le_val cs :: 'a::len word) (8 * j + i)) \<longleftrightarrow> bs ! j = cs ! j"
proof -
  have "bit (le_val bs XOR le_val cs :: 'a word) (8 * j + i) \<longleftrightarrow> bit (bs ! j) i \<noteq> bit (cs ! j) i" if "i < 8" for i
  proof -
    have "8 * j + i < LENGTH('a)" using assms that by linarith
    then show ?thesis using assms that by (simp add: bit_xor_iff bit_le_val)
  qed
  then show ?thesis by (auto simp: bit_eq_iff dest: bit_imp_le_length)
qed

lemma le_val_eq:
  assumes "length cs = length bs" "8 * length bs \<le> LENGTH('a)"
  shows "(le_val bs :: 'a::len word) = le_val cs \<longleftrightarrow> bs = cs"
proof
  assume e: "(le_val bs :: 'a word) = le_val cs"
  show "bs = cs"
  proof (rule nth_equalityI)
    fix j assume "j < length bs"
    from bit_xor_le_val [OF this assms] e show "bs ! j = cs ! j" by simp
  qed (use assms in simp)
qed simp

text \<open>The number of zero bits at the end, in bytes, is the number of bytes that agree.\<close>

lemma NbCommonBytes:
  assumes "length bs = 8" "length cs = 8" and ne: "(le_val bs XOR le_val cs :: u64) \<noteq> 0"
  defines "k \<equiv> LZ4_NbCommonBytes (le_val bs XOR le_val cs)"
  shows "k < 8" "\<And>j. j < k \<Longrightarrow> bs ! j = cs ! j" "bs ! k \<noteq> cs ! k"
proof -
  let ?v = "le_val bs XOR le_val cs :: u64"
  define z where "z = length (takeWhile (\<lambda>i. \<not> bit ?v i) [0..<64])"
  have low: "\<not> bit ?v i" if "i < z" for i
  proof -
    have "[0..<64] ! i = i" "i < 64" using that length_takeWhile_le [of "\<lambda>i. \<not> bit ?v i" "[0..<64]"] by (simp_all add: z_def)
    moreover have "takeWhile (\<lambda>i. \<not> bit ?v i) [0..<64] ! i \<in> set (takeWhile (\<lambda>i. \<not> bit ?v i) [0..<64])"
      using that by (simp add: z_def)
    then have "\<not> bit ?v (takeWhile (\<lambda>i. \<not> bit ?v i) [0..<64] ! i)" by (rule set_takeWhileD [THEN conjunct2])
    ultimately show ?thesis using that takeWhile_nth [of i "\<lambda>i. \<not> bit ?v i" "[0..<64]"] by (simp add: z_def)
  qed
  obtain i where "bit ?v i" using ne by (auto simp: bit_eq_iff)
  then have "i < 64" "\<not> i < z" using bit_imp_le_length [of ?v i] low by auto
  then have z: "z < 64" by linarith
  then have at: "bit ?v z" using nth_length_takeWhile [of "\<lambda>i. \<not> bit ?v i" "[0..<64]"] by (simp add: z_def)
  have k: "k = z div 8" by (simp add: k_def LZ4_NbCommonBytes_def z_def)
  then show "k < 8" using z by simp
  show "bs ! j = cs ! j" if "j < k" for j
  proof -
    have "8 * j + i < z" if "i < 8" for i using that \<open>j < k\<close> k by presburger
    then show ?thesis using bit_xor_le_val [where 'a = 64, of j bs cs] low assms(1,2) that \<open>k < 8\<close> by simp
  qed
  have "8 * k + z mod 8 = z" using k by simp
  then show "bs ! k \<noteq> cs ! k"
    using bit_xor_le_val [where 'a = 64, of k bs cs] at assms(1,2) \<open>k < 8\<close> by (auto dest!: spec [where x = "z mod 8"])
qed

section \<open>Reading\<close>

lemma read_simps [simp]:
  "p + 2 \<le> length s \<Longrightarrow> LZ4_read16 s p = Inr (le_val (take 2 (drop p s)))"
  "p + 4 \<le> length s \<Longrightarrow> LZ4_read32 s p = Inr (le_val (take 4 (drop p s)))"
  "p + 8 \<le> length s \<Longrightarrow> LZ4_read_ARCH s p = Inr (le_val (take 8 (drop p s)))"
  by (simp_all add: LZ4_read16_def LZ4_read32_def LZ4_read_ARCH_def)

lemma take_common:
  "m + n \<le> length s \<Longrightarrow> p + n \<le> length s \<Longrightarrow> take n (drop m s) = take n (drop p s) \<longleftrightarrow> common s m p n"
  by (auto simp: common_def list_eq_iff_nth_eq)

lemma same_eq:
  assumes "m + n \<le> length s" "p + n \<le> length s"
  shows "n = 2 \<Longrightarrow> same LZ4_read16 s m p = Inr (common s m p n)"
    "n = 4 \<Longrightarrow> same LZ4_read32 s m p = Inr (common s m p n)"
    "n = 1 \<Longrightarrow> same load s m p = Inr (common s m p n)"
  using assms take_common [OF assms] by (auto simp: same_def le_val_eq common_def)

section \<open>Counting\<close>

text \<open>\<open>c\<close> is the number of bytes before \<open>lim\<close> that agree.\<close>

definition counted :: "bytes \<Rightarrow> nat \<Rightarrow> nat \<Rightarrow> nat \<Rightarrow> nat \<Rightarrow> bool" where
  "counted s m p lim c \<longleftrightarrow> p + c \<le> lim \<and> common s m p c \<and> (p + c < lim \<longrightarrow> s ! (m + c) \<noteq> s ! (p + c))"

lemma common_add: "common s m p (a + b) \<longleftrightarrow> common s m p a \<and> common s (m + a) (p + a) b"
proof
  show "common s m p a \<and> common s (m + a) (p + a) b" if "common s m p (a + b)"
    using that by (simp add: common_def add.assoc)
  show "common s m p (a + b)" if c: "common s m p a \<and> common s (m + a) (p + a) b"
    unfolding common_def
  proof (intro allI impI)
    fix j assume "j < a + b"
    then show "s ! (m + j) = s ! (p + j)"
      using c by (cases "j < a") (auto simp: common_def dest: spec [where x = "j - a"])
  qed
qed

lemma counted_add: "common s m p a \<Longrightarrow> counted s (m + a) (p + a) lim c \<Longrightarrow> counted s m p lim (a + c)"
  by (simp add: counted_def common_add add.assoc)

lemma counted_max: "counted s m p lim c \<Longrightarrow> common s m p k \<Longrightarrow> p + k \<le> lim \<Longrightarrow> k \<le> c"
proof (rule ccontr)
  assume c: "counted s m p lim c" "common s m p k" "p + k \<le> lim" "\<not> k \<le> c"
  then have "s ! (m + c) = s ! (p + c)" "p + c < lim" by (simp_all add: common_def)
  then show False using c(1) by (simp add: counted_def)
qed

lemma count_words_ok:
  assumes "m \<le> p" "p \<le> lim" "lim \<le> length s"
  shows "\<exists>stop p' m'. count_words s p m lim = Inr (stop, p', m') \<and> p \<le> p'
    \<and> (if stop then counted s m p lim (p' - p) else m' + p = m + p' \<and> p' \<le> lim \<and> lim \<le> p' + 7 \<and> common s m p (p' - p))"
  using assms
proof (induction s p m lim rule: count_words.induct)
  case (1 s p m lim)
  show ?case
  proof (cases "p + 7 < lim")
    case True
    let ?a = "take 8 (drop m s)" and ?b = "take 8 (drop p s)"
    have l: "m + 8 \<le> length s" "p + 8 \<le> length s" using 1(2-) True by linarith+
    show ?thesis
    proof (cases "(le_val ?a XOR le_val ?b :: u64) = 0")
      case zero: True
      then have "(le_val ?a :: u64) = le_val ?b" by (simp add: xor_0_iff)
      then have c: "common s m p 8" using le_val_eq [where 'a = 64, of ?b ?a] take_common [OF l] l by simp
      obtain stop p' m' where ih: "count_words s (p + 8) (m + 8) lim = Inr (stop, p', m')" "p + 8 \<le> p'"
        "if stop then counted s (m + 8) (p + 8) lim (p' - (p + 8))
         else m' + (p + 8) = m + 8 + p' \<and> p' \<le> lim \<and> lim \<le> p' + 7 \<and> common s (m + 8) (p + 8) (p' - (p + 8))"
        using "1.IH" [OF True, of "le_val ?a" "le_val ?b"] l zero 1(2-) True by auto
      have e: "p' - p = 8 + (p' - (p + 8))" using ih(2) by simp
      have "count_words s p m lim = Inr (stop, p', m')"
        using ih(1) True zero l by (subst count_words.simps) simp
      moreover have "counted s m p lim (p' - p)" if stop
        unfolding e by (rule counted_add [OF c]) (use ih(3) that in simp)
      moreover have "common s m p (p' - p)" if "\<not> stop"
        unfolding e common_add using c ih(3) that by simp
      ultimately show ?thesis using ih(2,3) by (cases stop) auto
    next
      case ne: False
      let ?k = "LZ4_NbCommonBytes (le_val ?a XOR le_val ?b)"
      have k: "?k < 8" "\<And>j. j < ?k \<Longrightarrow> ?a ! j = ?b ! j" "?a ! ?k \<noteq> ?b ! ?k"
        using NbCommonBytes [of ?a ?b] ne l by auto
      have "s ! (m + j) = s ! (p + j)" if "j < ?k" for j using k(2) [OF that] that k(1) l by simp
      moreover have "s ! (m + ?k) \<noteq> s ! (p + ?k)" using k(3) k(1) l by simp
      ultimately have "counted s m p lim ?k" using k(1) True by (simp add: counted_def common_def)
      moreover have "count_words s p m lim = Inr (True, p + ?k, m)" using True ne l by (subst count_words.simps) simp
      ultimately show ?thesis by auto
    qed
  next
    case False
    then have "count_words s p m lim = Inr (False, p, m)" by (subst count_words.simps) simp
    moreover have "lim \<le> p + 7" "common s m p 0" using False by (simp_all add: common_def)
    ultimately show ?thesis using 1(2-) by auto
  qed
qed

text \<open>The tail: four, two and one byte.\<close>

lemma counted_ex: "p \<le> lim \<Longrightarrow> \<exists>c. counted s m p lim c"
proof (induction "lim - p" arbitrary: m p)
  case 0
  then show ?case by (auto simp: counted_def common_def intro: exI [of _ 0])
next
  case (Suc n)
  show ?case
  proof (cases "s ! m = s ! p")
    case True
    have "lim - (p + 1) = n" "p + 1 \<le> lim" using Suc.hyps(2) by simp_all
    then obtain c where "counted s (m + 1) (p + 1) lim c" using Suc.hyps(1) [of "p + 1" "m + 1"] by blast
    then have "counted s m p lim (1 + c)" using True by (intro counted_add) (auto simp: common_def)
    then show ?thesis ..
  next
    case False
    then have "counted s m p lim 0" using Suc.prems by (simp add: counted_def common_def)
    then show ?thesis ..
  qed
qed

lemma tail_test:
  assumes c: "counted s m p lim c" and a: "a \<le> c" and m: "m \<le> p" "lim \<le> length s"
  shows "(if p + a + 3 < lim then same LZ4_read32 s (m + a) (p + a) else Inr False) = Inr (a + 4 \<le> c)"
    "(if p + a + 1 < lim then same LZ4_read16 s (m + a) (p + a) else Inr False) = Inr (a + 2 \<le> c)"
    "(if p + a < lim then same load s (m + a) (p + a) else Inr False) = Inr (a + 1 \<le> c)"
proof -
  have le: "p + c \<le> lim" using c by (simp add: counted_def)
  have common: "common s (m + a) (p + a) n \<longleftrightarrow> a + n \<le> c" if "p + a + n \<le> lim" for n
  proof
    assume "common s (m + a) (p + a) n"
    moreover have "common s m p a" using c a by (simp add: counted_def common_def)
    ultimately have "common s m p (a + n)" by (simp add: common_add)
    then show "a + n \<le> c" by (rule counted_max [OF c]) (use that in simp)
  next
    assume "a + n \<le> c"
    then have "common s m p (a + n)" using c by (simp add: counted_def common_def)
    then show "common s (m + a) (p + a) n" by (simp add: common_add)
  qed
  show "(if p + a + 3 < lim then same LZ4_read32 s (m + a) (p + a) else Inr False) = Inr (a + 4 \<le> c)"
    using same_eq(2) [of "m + a" 4 s "p + a"] common [of 4] m le by auto
  show "(if p + a + 1 < lim then same LZ4_read16 s (m + a) (p + a) else Inr False) = Inr (a + 2 \<le> c)"
    using same_eq(1) [of "m + a" 2 s "p + a"] common [of 2] m le by auto
  show "(if p + a < lim then same load s (m + a) (p + a) else Inr False) = Inr (a + 1 \<le> c)"
    using same_eq(3) [of "m + a" 1 s "p + a"] common [of 1] m le by auto
qed

lemma LZ4_count_ok:
  assumes "m \<le> p" "p \<le> lim" "lim \<le> length s"
  obtains c where "LZ4_count s p m lim = Inr c" "counted s m p lim c"
proof -
  obtain stop p' m' where w: "count_words s p m lim = Inr (stop, p', m')" "p \<le> p'"
    "if stop then counted s m p lim (p' - p) else m' + p = m + p' \<and> p' \<le> lim \<and> lim \<le> p' + 7 \<and> common s m p (p' - p)"
    using count_words_ok [OF assms] by blast
  show thesis
  proof (cases stop)
    case True
    then show ?thesis using w that by (simp add: LZ4_count_def)
  next
    case False
    then obtain c where c: "counted s m' p' lim c" using w(3) counted_ex [of p' lim s m'] by auto
    have m': "m' \<le> p'" "c \<le> 7" using w False assms(1) c by (auto simp: counted_def)
    define a1 :: nat where "a1 = (if 4 \<le> c then 4 else 0)"
    define a2 :: nat where "a2 = (if a1 + 2 \<le> c then a1 + 2 else a1)"
    have a: "a1 \<le> c" "a2 \<le> c" by (simp_all add: a1_def a2_def)
    note test = tail_test [OF c _ m'(1) assms(3)]
    have t1: "(if p' + 3 < lim then same LZ4_read32 s m' p' else Inr False) = Inr (4 \<le> c)"
      by (rule test(1) [OF le0, unfolded add_0 add_0_right])
    have e1: "(if 4 \<le> c then x + 4 else x) = x + a1" for x by (simp add: a1_def)
    have e2: "(if a1 + 2 \<le> c then x + a1 + 2 else x + a1) = x + a2" for x by (simp add: a2_def)
    have e3: "(if a2 + 1 \<le> c then p' + a2 + 1 else p' + a2) = p' + c"
      using m'(2) unfolding a2_def a1_def by (simp split: if_splits)
    have "LZ4_count s p m lim = Inr (p' + c - p)"
      unfolding LZ4_count_def w(1) andthen_simps prod.case if_not_P [OF False] Let_def t1 e1 test(2) [OF a(1)] e2 test(3) [OF a(2)] e3 ..
    moreover have e: "p' + c - p = (p' - p) + c" using w(2) by simp
    have "counted s m p lim (p' + c - p)"
      unfolding e by (rule counted_add) (use w False c in \<open>simp_all, metis add_diff_assoc add_diff_cancel_right' le_add_diff_inverse\<close>)
    ultimately show ?thesis by (rule that)
  qed
qed

section \<open>The table\<close>

text \<open>\<open>b\<close> bounds the positions in the table.\<close>

definition table_upto :: "tableType \<Rightarrow> nat \<Rightarrow> u32 list \<Rightarrow> bool" where
  "table_upto tt b tbl \<longleftrightarrow> length tbl = (if tt = byU16 then 8192 else 4096) \<and> (\<forall>i \<in> set tbl. unat i \<le> b)"

lemma table_upto_mono: "table_upto tt b tbl \<Longrightarrow> b \<le> b' \<Longrightarrow> table_upto tt b' tbl"
  by (auto simp: table_upto_def)

lemma table_upto_fresh: "table_upto tt 0 (fresh_table tt)"
  by (simp add: table_upto_def fresh_table_def)

text \<open>Positions that the table can hold: what the choice of the table guarantees.\<close>

definition indexable :: "tableType \<Rightarrow> nat \<Rightarrow> bool" where
  "indexable tt n \<longleftrightarrow> n < (if tt = byU16 then 65547 else 2 ^ 32)"

lemma hash_ok:
  assumes "p + 8 \<le> length s"
  obtains h where "LZ4_hashPosition s p tt = Inr h" "h < (if tt = byU16 then 8192 else 4096)"
proof (cases "tt = byU16")
  case True
  have "unat (LZ4_hash4 v byU16) < 8192" for v
  proof -
    have "unat (LZ4_hash4 v byU16) = unat (v * 2654435761) div 2 ^ 19"
      unfolding LZ4_hash4_def by (subst unat_drop_bit_eq) (simp add: MINMATCH_def LZ4_HASHLOG_def drop_bit_eq_div)
    then show ?thesis using unat_u32 [of "v * 2654435761"] by (simp add: less_mult_imp_div_less)
  qed
  then show ?thesis using that True assms by (simp add: LZ4_hashPosition_def)
next
  case False
  have "unat (LZ4_hash5 v tt) < 4096" for v
  proof -
    let ?x = "push_bit 24 v * (889523592379 :: u64)"
    have "unat (LZ4_hash5 v tt) = unat (drop_bit 52 ?x) mod 2 ^ 32"
      using False by (simp add: LZ4_hash5_def LZ4_HASHLOG_def Let_def unsigned_ucast_eq take_bit_eq_mod)
    also have "unat (drop_bit 52 ?x) = unat ?x div 2 ^ 52" by (subst unat_drop_bit_eq) (simp add: drop_bit_eq_div)
    also have "unat ?x div 2 ^ 52 mod 2 ^ 32 \<le> unat ?x div 2 ^ 52" by (rule mod_less_eq_dividend)
    also have "\<dots> < 4096" using unat_u64 [of ?x] by (simp add: less_mult_imp_div_less)
    finally show ?thesis .
  qed
  then show ?thesis using that False assms by (simp add: LZ4_hashPosition_def)
qed

lemma put_ok:
  assumes "table_upto tt b tbl" "h < (if tt = byU16 then 8192 else 4096)" "indexable tt n" "i + 12 \<le> n" "b \<le> i"
  obtains tbl' where "LZ4_putIndexOnHash i h tbl tt = Inr tbl'" "table_upto tt i tbl'"
proof -
  define v :: u32 where "v = (if tt = byU16 then ucast (of_nat i :: 16 word) else of_nat i)"
  have "unat v = i"
  proof (cases "tt = byU16")
    case True
    then have "i < 65536" using assms(3,4) by (simp add: indexable_def)
    then show ?thesis using True by (simp add: v_def unsigned_ucast_eq take_bit_eq_mod unat_of_nat)
  next
    case False
    then show ?thesis using assms(3,4) by (simp add: v_def indexable_def unat_of_nat)
  qed
  moreover have "\<forall>x \<in> set (tbl[h := v]). unat x \<le> i"
    using assms(1,5) calculation set_update_subset_insert [of tbl h v] by (fastforce simp: table_upto_def)
  ultimately have "table_upto tt i (tbl[h := v])" using assms(1) by (simp add: table_upto_def)
  moreover have "LZ4_putIndexOnHash i h tbl tt = Inr (tbl[h := v])"
    using assms(1,2) by (simp add: LZ4_putIndexOnHash_def table_upto_def v_def)
  ultimately show ?thesis by (rule that [rotated])
qed

lemma get_ok:
  assumes "table_upto tt b tbl" "h < (if tt = byU16 then 8192 else 4096)"
  obtains i where "LZ4_getIndexOnHash h tbl = Inr i" "i \<le> b"
proof -
  have "h < length tbl" using assms by (simp add: table_upto_def)
  then have "tbl ! h \<in> set tbl" "load tbl h = Inr (tbl ! h)" by simp_all
  then show ?thesis using that assms(1) by (simp add: LZ4_getIndexOnHash_def table_upto_def)
qed

section \<open>The search\<close>

text \<open>A match at \<open>m\<close> for the position \<open>p\<close>: in front of it, near enough, four bytes at least.\<close>

definition match_at :: "bytes \<Rightarrow> nat \<Rightarrow> nat \<Rightarrow> bool" where
  "match_at s m p \<longleftrightarrow> m < p \<and> p - m < 65536 \<and> p + 12 \<le> length s \<and> common s m p 4"

lemma candidate_ok:
  assumes "i < p" "p + 12 \<le> length s" "indexable tt (length s)"
  obtains f where "(if close_enough tt i p then same LZ4_read32 s i p else Inr False) = Inr f" "f \<Longrightarrow> match_at s i p"
proof (cases "close_enough tt i p")
  case True
  have "p - i < 65536" using True assms by (auto simp: close_enough_def LZ4_DISTANCE_MAX_def indexable_def)
  then show ?thesis using that True assms same_eq(2) [of i 4 s p] by (auto simp: match_at_def)
next
  case False
  then show ?thesis using that by simp
qed

lemma find_match_ok:
  assumes "0 < step" "64 \<le> nb" "h < (if tt = byU16 then 8192 else 4096)" "b < ip" "table_upto tt b tbl" "indexable tt (length s)"
  shows "\<exists>r tbl'. find_match s tt ip step nb h tbl = Inr (r, tbl')
    \<and> (case r of None \<Rightarrow> True | Some (p, m) \<Rightarrow> ip \<le> p \<and> match_at s m p \<and> table_upto tt p tbl')"
  using assms
proof (induction s tt ip step nb h tbl arbitrary: b rule: find_match.induct)
  case (1 s tt ip step nb h tbl)
  obtain i where i: "LZ4_getIndexOnHash h tbl = Inr i" "i \<le> b" using get_ok [OF "1.prems"(5,3)] .
  show ?case
  proof (cases "ip + step + MFLIMIT > length s + 1")
    case True
    then show ?thesis by (subst find_match.simps) (simp add: i)
  next
    case False
    then have l: "ip + step + 11 \<le> length s" by (simp add: MFLIMIT_def)
    obtain h' where h': "LZ4_hashPosition s (ip + step) tt = Inr h'" "h' < (if tt = byU16 then 8192 else 4096)"
      by (rule hash_ok [of "ip + step" s tt]) (use l in simp)
    obtain tbl' where t: "LZ4_putIndexOnHash ip h tbl tt = Inr tbl'" "table_upto tt ip tbl'"
      by (rule put_ok [OF "1.prems"(5,3,6), of ip]) (use l "1.prems"(1,4) in simp_all)
    obtain f where f: "(if close_enough tt i ip then same LZ4_read32 s i ip else Inr False) = Inr f" "f \<Longrightarrow> match_at s i ip"
      by (rule candidate_ok [of i ip s tt]) (use i l "1.prems"(1,4,6) in simp_all)
    have e: "find_match s tt ip step nb h tbl = (if f then Inr (Some (ip, i), tbl')
        else find_match s tt (ip + step) (nb div 2 ^ LZ4_skipTrigger) (nb + 1) h' tbl')"
      by (subst find_match.simps) (simp only: i(1) h'(1) t(1) f(1) andthen_simps Let_def if_not_P [OF False])
    show ?thesis
    proof (cases f)
      case True
      then show ?thesis unfolding e using f(2) t(2) by simp
    next
      case nf: False
      have "0 < nb div 2 ^ LZ4_skipTrigger" using "1.prems"(2) by (simp add: LZ4_skipTrigger_def div_greater_zero_iff)
      then obtain r tbl'' where "find_match s tt (ip + step) (nb div 2 ^ LZ4_skipTrigger) (nb + 1) h' tbl' = Inr (r, tbl'')"
        "case r of None \<Rightarrow> True | Some (p, m) \<Rightarrow> ip + step \<le> p \<and> match_at s m p \<and> table_upto tt p tbl''"
        using "1.IH" [OF i(1) refl refl False h'(1) t(1) f(1) nf _ _ h'(2) _ t(2) "1.prems"(6)] "1.prems"(1,2) by auto
      then show ?thesis unfolding e using nf by (auto split: option.splits)
    qed
  qed
qed

text \<open>Catching up takes \<open>b\<close> bytes in front of the match into it.\<close>

lemma catch_up_ok:
  assumes "a \<le> p" "m < p" "p \<le> length s" "common s m p n"
  shows "\<exists>p' m' b. catch_up s a p m = Inr (p', m') \<and> a \<le> p' \<and> p = p' + b \<and> m = m' + b \<and> common s m' p' (b + n)"
  using assms
proof (induction s a p m arbitrary: n rule: catch_up.induct)
  case (1 s a p m)
  show ?case
  proof (cases "p > a \<and> m > 0 \<and> s ! (m - 1) = s ! (p - 1)")
    case True
    have c: "common s (m - 1) (p - 1) (n + 1)"
      unfolding add.commute [of n] common_add using True "1.prems"(2,4) by (simp add: common_def)
    have t: "same load s (p - 1) (m - 1) = Inr True" using True "1.prems" by (simp add: same_def)
    have g: "p > a \<and> m > 0" "a \<le> p - 1" "m - 1 < p - 1" "p - 1 \<le> length s" using True "1.prems"(2,3) by linarith+
    from "1.IH" [OF g(1) t TrueI g(2-4) c] obtain p' m' b where
      r: "catch_up s a (p - 1) (m - 1) = Inr (p', m')" "a \<le> p'" "p - 1 = p' + b" "m - 1 = m' + b" "common s m' p' (b + (n + 1))"
      by blast
    have "catch_up s a p m = Inr (p', m')" using True t r(1) by (subst catch_up.simps) simp
    moreover have "p = p' + (b + 1)" "m = m' + (b + 1)" "b + (n + 1) = b + 1 + n" using r True by auto
    ultimately show ?thesis using r(2,5) by metis
  next
    case False
    then have "catch_up s a p m = Inr (p, m)" using "1.prems" by (subst catch_up.simps) (auto simp: same_def)
    then show ?thesis using "1.prems" by auto
  qed
qed

lemma caught_up_ok:
  assumes "a < p" "m < p" "p \<le> length s" "common s m p n"
  obtains p' m' b where "caught_up s a p m = Inr (p', m')" "a \<le> p'" "p = p' + b" "m = m' + b" "common s m' p' (b + n)"
proof (cases "m > 0 \<and> s ! (m - 1) = s ! (p - 1)")
  case True
  have c: "common s (m - 1) (p - 1) (n + 1)"
    unfolding add.commute [of n] common_add using True assms(2,4) by (simp add: common_def)
  have g: "a \<le> p - 1" "m - 1 < p - 1" "p - 1 \<le> length s" using True assms(1-3) by linarith+
  obtain p' m' b where r: "catch_up s a (p - 1) (m - 1) = Inr (p', m')" "a \<le> p'" "p - 1 = p' + b" "m - 1 = m' + b" "common s m' p' (b + (n + 1))"
    using catch_up_ok [OF g c] by blast
  show ?thesis
  proof (rule that)
    show "caught_up s a p m = Inr (p', m')" using True assms r(1) by (simp add: caught_up_def same_def)
    show "p = p' + (b + 1)" "m = m' + (b + 1)" using r True assms by auto
    show "common s m' p' (b + 1 + n)" using r(5) by (simp add: add.assoc add.commute [of n])
  qed (rule r(2))
next
  case False
  then have "caught_up s a p m = Inr (p, m)" using assms by (auto simp: caught_up_def same_def)
  then show ?thesis using that [of p m 0] assms by simp
qed

end
