(* ===== verification/LZ4_Roundtrip.thy ===== *)
theory LZ4_Roundtrip
  imports LZ4_Match
begin

text \<open>
  The compressor of \<open>lz4.c\<close>: it stays in its buffers, and what it returns is a stream of sequences that
  the decompressor takes back to the input.
\<close>

section \<open>Writing\<close>

definition starts :: "bytes \<Rightarrow> bytes \<Rightarrow> bool" where
  "starts dst bs \<longleftrightarrow> length bs \<le> length dst \<and> take (length bs) dst = bs"

lemma starts_Nil [simp]: "starts dst []"
  by (simp add: starts_def)

lemma starts_append: "starts dst (bs @ cs) \<Longrightarrow> starts dst bs"
  by (auto simp: starts_def dest: arg_cong [where f = "take (length bs)"])

lemma starts_nth: "starts dst (bs @ c # cs) \<Longrightarrow> load dst (length bs) = Inr c"
proof -
  assume s: "starts dst (bs @ c # cs)"
  then have "length bs < length dst" "take (length (bs @ c # cs)) dst ! length bs = (bs @ c # cs) ! length bs"
    by (auto simp: starts_def)
  then show ?thesis by (simp add: nth_append)
qed

lemma starts_store:
  assumes "starts dst bs" "length bs + length v \<le> length dst"
  obtains dst' where "store_n dst (length bs) v = Inr dst'" "length dst' = length dst" "starts dst' (bs @ v)"
  using assms by (auto simp: starts_def store_n_def intro!: that)

text \<open>The token is written twice, at last with the length of the match.\<close>

lemma starts_restore:
  assumes "starts dst (bs @ c # cs)"
  obtains dst' where "store_n dst (length bs) [c'] = Inr dst'" "length dst' = length dst" "starts dst' (bs @ c' # cs)"
proof -
  have l: "length bs + 1 + length cs \<le> length dst" using assms by (simp add: starts_def)
  have e: "bs @ c # cs = take (length bs + 1 + length cs) dst" using assms by (simp add: starts_def)
  have "bs = take (length bs) dst" using arg_cong [OF e, of "take (length bs)"] l by simp
  moreover have "cs = take (length cs) (drop (length bs + 1) dst)"
    using arg_cong [OF e, of "drop (length bs + 1)"] l by (simp add: drop_take)
  ultimately have "take (length (bs @ c' # cs)) (take (length bs) dst @ [c'] @ drop (length bs + 1) dst) = bs @ c' # cs"
    using l by (simp add: take_Cons')
  then show ?thesis using that l by (simp add: starts_def store_n_def)
qed

lemma put_length_ok:
  assumes "starts dst bs" "length bs + n div 255 + 1 \<le> length dst"
  shows "\<exists>dst'. put_length dst (length bs) n = Inr (dst', length bs + n div 255 + 1) \<and> length dst' = length dst
    \<and> starts dst' (bs @ replicate (n div 255) 255 @ [of_nat (n mod 255)])"
  using assms
proof (induction n arbitrary: bs dst rule: less_induct)
  case (less n)
  show ?case
  proof (cases "255 \<le> n")
    case True
    then have d: "n div 255 = Suc ((n - 255) div 255)" "n mod 255 = (n - 255) mod 255" by (simp_all add: le_div_geq le_mod_geq)
    obtain dst1 where 1: "store_n dst (length bs) [255] = Inr dst1" "length dst1 = length dst" "starts dst1 (bs @ [255])"
      by (rule starts_store [OF less.prems(1), of "[255]"]) (use less.prems d in auto)
    obtain dst' where 2: "put_length dst1 (length (bs @ [255])) (n - 255) = Inr (dst', length (bs @ [255]) + (n - 255) div 255 + 1)"
      "length dst' = length dst1" "starts dst' ((bs @ [255]) @ replicate ((n - 255) div 255) 255 @ [of_nat ((n - 255) mod 255)])"
      using less.IH [of "n - 255" dst1 "bs @ [255]"] True 1 less.prems(2) d by auto
    have "put_length dst (length bs) n = Inr (dst', length bs + n div 255 + 1)"
      using True 1(1) 2(1) d by (subst put_length.simps) simp
    then show ?thesis using 1(2) 2(2,3) d by simp
  next
    case False
    obtain dst1 where 1: "store_n dst (length bs) [of_nat n] = Inr dst1" "length dst1 = length dst" "starts dst1 (bs @ [of_nat n])"
      by (rule starts_store [OF less.prems(1), of "[of_nat n]"]) (use less.prems in auto)
    then show ?thesis using False by (subst put_length.simps) simp
  qed
qed

lemma put_match_length_ok:
  assumes "starts dst bs" "length bs + n div 255 + 4 \<le> length dst"
  shows "\<exists>dst'. put_match_length dst (length bs) n = Inr (dst', length bs + n div 255 + 1) \<and> length dst' = length dst
    \<and> starts dst' (bs @ replicate (n div 255) 255 @ [of_nat (n mod 255)])"
  using assms
proof (induction n arbitrary: bs dst rule: less_induct)
  case (less n)
  have four: "[255, 255, 255, 255] = replicate 4 (255 :: u8)" by (simp add: eval_nat_numeral)
  obtain dst1 where 1: "store_n dst (length bs) [255, 255, 255, 255] = Inr dst1" "length dst1 = length dst" "starts dst1 (bs @ replicate 4 255)"
    unfolding four by (rule starts_store [OF less.prems(1), of "replicate 4 255"]) (use less.prems in auto)
  show ?case
  proof (cases "1020 \<le> n")
    case True
    then obtain k where k: "n = k + 4 * 255" using le_Suc_ex [of 1020 n] by auto
    have d: "n div 255 = 4 + (n - 1020) div 255" "n mod 255 = (n - 1020) mod 255" unfolding k div_mult_self1 mod_mult_self1 by simp_all
    obtain dst' where 2: "put_match_length dst1 (length (bs @ replicate 4 255)) (n - 1020) = Inr (dst', length (bs @ replicate 4 255) + (n - 1020) div 255 + 1)"
      "length dst' = length dst1" "starts dst' ((bs @ replicate 4 255) @ replicate ((n - 1020) div 255) 255 @ [of_nat ((n - 1020) mod 255)])"
      using less.IH [of "n - 1020" dst1 "bs @ replicate 4 255"] True 1 less.prems(2) d by auto
    have "put_match_length dst (length bs) n = Inr (dst', length bs + n div 255 + 1)"
      using True 1(1) 2(1) d by (subst put_match_length.simps) simp
    then show ?thesis using 1(2) 2(2,3) d by (simp add: replicate_add)
  next
    case False
    then have q: "n div 255 \<le> 3" by simp
    have "replicate 4 (255 :: u8) = replicate (n div 255) 255 @ replicate (4 - n div 255) 255"
      using q by (simp flip: replicate_add)
    then have "starts dst1 (bs @ replicate (n div 255) 255)" using 1(3) by (metis append.assoc starts_append)
    then obtain dst2 where 2: "store_n dst1 (length (bs @ replicate (n div 255) 255)) [of_nat (n mod 255)] = Inr dst2" "length dst2 = length dst1"
      "starts dst2 ((bs @ replicate (n div 255) 255) @ [of_nat (n mod 255)])"
      by (rule starts_store [of dst1 _ "[of_nat (n mod 255)]"]) (use less.prems(2) 1(2) in auto)
    then show ?thesis using False 1 by (subst put_match_length.simps) (simp add: Let_def)
  qed
qed

text \<open>Token and literals, in front of a match or at the end.\<close>

lemma starts_wrote:
  assumes "starts dst bs" and w: "wrote src s dst (length bs) k dst'" and n: "n \<le> k" "length bs + n \<le> length dst" "s + n \<le> length src"
  shows "starts dst' (bs @ take n (drop s src))" "length dst' = length dst"
proof -
  show l: "length dst' = length dst" using w by (simp add: wrote_def)
  have "take (length bs) dst' = bs" using assms by (simp add: wrote_def starts_def)
  moreover have "take n (drop (length bs) dst') = take n (drop s src)"
    by (rule nth_equalityI) (use w n l in \<open>auto simp: wrote_def\<close>)
  ultimately show "starts dst' (bs @ take n (drop s src))" using n l by (simp add: starts_def take_add)
qed

lemma put_run_ok:
  assumes "starts dst bs" and "length bs + 1 + (n + 240) div 255 \<le> length dst"
  obtains dst' where "(if n \<ge> 15 then andthen (store_n dst (length bs) [15 * 16]) (\<lambda>dst. put_length dst (length bs + 1) (n - 15))
      else andthen (store_n dst (length bs) [of_nat (n * 16)]) (\<lambda>dst. Inr (dst, length bs + 1)))
      = Inr (dst', length bs + 1 + (n + 240) div 255)" "length dst' = length dst"
    "starts dst' (bs @ of_nat (nib n * 16) # ext n)"
proof (cases "n \<ge> 15")
  case True
  have x: "ext n = replicate ((n - 15) div 255) 255 @ [of_nat ((n - 15) mod 255)]" using True by (simp add: ext_def)
  then have q: "(n + 240) div 255 = (n - 15) div 255 + 1" using length_ext [of n] by simp
  obtain dst1 where 1: "store_n dst (length bs) [15 * 16] = Inr dst1" "length dst1 = length dst" "starts dst1 (bs @ [15 * 16])"
    by (rule starts_store [OF assms(1), of "[15 * 16]"]) (use assms in auto)
  obtain dst' where "put_length dst1 (length (bs @ [15 * 16])) (n - 15) = Inr (dst', length (bs @ [15 * 16 :: u8]) + (n - 15) div 255 + 1)"
    "length dst' = length dst1" "starts dst' ((bs @ [15 * 16]) @ replicate ((n - 15) div 255) 255 @ [of_nat ((n - 15) mod 255)])"
    using put_length_ok [OF 1(3), of "n - 15"] assms(2) 1(2) q by auto
  then show ?thesis using that True 1 q x by (simp add: nib_def)
next
  case False
  obtain dst1 where 1: "store_n dst (length bs) [of_nat (n * 16)] = Inr dst1" "length dst1 = length dst" "starts dst1 (bs @ [of_nat (n * 16)])"
    by (rule starts_store [OF assms(1), of "[of_nat (n * 16)]"]) (use assms in auto)
  then show ?thesis using that False by (simp add: nib_def ext_def)
qed

section \<open>States of the compressor\<close>

text \<open>\<open>L\<close> is the space that the checks speak of; without checks, the bound that is announced.\<close>

definition limits :: "bytes \<Rightarrow> nat option \<Rightarrow> nat \<Rightarrow> bool" where
  "limits s olimit L \<longleftrightarrow> (case olimit of None \<Rightarrow> L = length s + length s div 255 + 16 | Some l \<Rightarrow> L = l)"

text \<open>Everything in front of \<open>c_ip\<close> is in the stream.\<close>

definition at_head :: "bytes \<Rightarrow> nat \<Rightarrow> nat \<Rightarrow> comp \<Rightarrow> bool" where
  "at_head s D L st \<longleftrightarrow> length (c_dst st) = D \<and> (\<exists>bs. starts (c_dst st) bs \<and> length bs = c_op st
     \<and> delivers s bs (c_ip st) \<and> length bs \<le> c_ip st + c_ip st div 255
     \<and> (bs = [] \<and> c_ip st = 0 \<or> c_ip st + 5 \<le> length s \<and> length bs + 6 \<le> L))"

text \<open>Token and literals are written, the match at \<open>m\<close> is not; \<open>b\<close> bytes of it were caught up.\<close>

definition at_match :: "bytes \<Rightarrow> tableType \<Rightarrow> nat \<Rightarrow> nat \<Rightarrow> comp \<Rightarrow> nat \<Rightarrow> nat \<Rightarrow> bool" where
  "at_match s tt D L st m token \<longleftrightarrow> length (c_dst st) = D \<and> (\<exists>bs a b. length bs = token
     \<and> delivers s bs a \<and> length bs \<le> a + a div 255 \<and> a \<le> c_ip st
     \<and> starts (c_dst st) (bs @ seq_head (take (c_ip st - a) (drop a s)) 0)
     \<and> c_op st = length (bs @ seq_head (take (c_ip st - a) (drop a s)) 0) \<and> c_op st + 5 \<le> L
     \<and> m < c_ip st \<and> c_ip st - m < 65536 \<and> common s m (c_ip st) (4 + b) \<and> c_ip st + b + 12 \<le> length s
     \<and> table_upto tt (c_ip st + b) (c_tbl st))"

definition goes_ok :: "bytes \<Rightarrow> tableType \<Rightarrow> nat option \<Rightarrow> nat \<Rightarrow> nat \<Rightarrow> comp_goes \<Rightarrow> bool" where
  "goes_ok s tt olimit D L g = (case g of
     Search st \<Rightarrow> at_head s D L st \<and> table_upto tt (c_ip st) (c_tbl st) \<and> c_ip st + 12 \<le> length s
   | Next_match st m token \<Rightarrow> at_match s tt D L st m token
   | Last_literals st \<Rightarrow> at_head s D L st
   | No_room st \<Rightarrow> olimit \<noteq> None \<and> length (c_dst st) = D)"

lemma div_255_add: "a div 255 + b div 255 \<le> (a + b) div (255 :: nat)"
  by (simp add: div_add1_eq [of a b])

lemma div_240: "(n + 240) div 255 \<le> n div 255 + (1 :: nat)" "n < 15 \<Longrightarrow> (n + 240) div 255 = (0 :: nat)"
proof -
  have "(n + 240) div 255 \<le> (n + 255) div 255" by (rule div_le_mono) simp
  then show "(n + 240) div 255 \<le> n div 255 + (1 :: nat)" by (simp add: div_add_self2)
qed simp

lemma put_literals_ok:
  assumes head: "at_head s D L st" and L: "limits s olimit L" "L \<le> D"
    and p: "c_ip st \<le> p" "p + b + 12 \<le> length s" and m: "m < p" "p - m < 65536" "common s m p (4 + b)"
    and t: "table_upto tt (p + b) (c_tbl st)"
  shows "\<exists>g. put_literals s olimit p m st = Inr g \<and> goes_ok s tt olimit D L g"
proof -
  define a where "a = c_ip st"
  define l where "l = p - a"
  have al: "a + l = p" "a + l + 12 \<le> length s" using p by (simp_all add: a_def l_def)
  obtain bs where bs: "starts (c_dst st) bs" "length bs = c_op st" "delivers s bs a" "length bs \<le> a + a div 255"
    and D: "length (c_dst st) = D" using head by (auto simp: at_head_def a_def)
  show ?thesis
  proof (cases "olimit \<noteq> None \<and> c_op st + 1 + l + (2 + 1 + LASTLITERALS) + l div 255 > the olimit")
    case True
    then show ?thesis using D by (simp add: put_literals_def Let_def l_def a_def goes_ok_def)
  next
    case False
    have room: "length bs + l + l div 255 + 9 \<le> L"
    proof (cases olimit)
      case None
      have "a div 255 + l div 255 \<le> length s div 255"
        using div_255_add [of a l] div_le_mono [of "a + l" "length s" 255] al by linarith
      then show ?thesis using None L(1) bs(4) al by (simp add: limits_def)
    next
      case (Some x)
      then show ?thesis using False L(1) bs(2) by (simp add: limits_def LASTLITERALS_def)
    qed
    have e: "length bs + 1 + (l + 240) div 255 + l + 7 \<le> L" "length bs + 1 + (l + 240) div 255 + 8 \<le> L"
      using room div_240 [of l] by (cases "l < 15"; linarith)+
    obtain dst1 where 1: "(if l \<ge> 15 then andthen (store_n (c_dst st) (length bs) [15 * 16]) (\<lambda>dst. put_length dst (length bs + 1) (l - 15))
        else andthen (store_n (c_dst st) (length bs) [of_nat (l * 16)]) (\<lambda>dst. Inr (dst, length bs + 1)))
        = Inr (dst1, length bs + 1 + (l + 240) div 255)" "length dst1 = length (c_dst st)"
      "starts dst1 (bs @ of_nat (nib l * 16) # ext l)"
      by (rule put_run_ok [OF bs(1), of l]) (use e L(2) D in simp_all)
    define op where "op = length (bs @ of_nat (nib l * 16) # ext l)"
    have op: "op = length bs + 1 + (l + 240) div 255" by (simp add: op_def length_ext)
    have "\<exists>dst2 k. LZ4_wildCopy8 (Some s) dst1 (op + 0) (a + 0) (op + l) = Inr dst2 \<and> wrote s a dst1 op k dst2 \<and> op + l \<le> op + k"
      by (rule wrote_wildCopy8) (use e 1(2) D L(2) al in \<open>simp_all add: op\<close>)
    then obtain dst2 k where 2: "LZ4_wildCopy8 (Some s) dst1 op a (op + l) = Inr dst2" "wrote s a dst1 op k dst2" "l \<le> k" by auto
    have s2: "starts dst2 ((bs @ of_nat (nib l * 16) # ext l) @ take l (drop a s))" "length dst2 = D"
      using starts_wrote [OF 1(3) 2(2) [unfolded op_def] 2(3)] e 1(2) D L(2) al by (simp_all add: length_ext)
    define st' where "st' = st\<lparr>c_ip := p, c_op := op + l, c_dst := dst2\<rparr>"
    have put: "put_literals s olimit p m st = Inr (Next_match st' m (length bs))"
      unfolding put_literals_def Let_def a_def [symmetric] l_def [symmetric] bs(2) [symmetric] if_not_P [OF False [folded bs(2)]]
      by (simp only: 1(1) andthen_simps prod.case op [symmetric] 2(1) st'_def)
    have h: "bs @ seq_head (take l (drop a s)) 0 = (bs @ of_nat (nib l * 16) # ext l) @ take l (drop a s)"
      using al by (simp add: seq_head_def nib_def [of 0])
    have f: "c_ip st' = p" "c_dst st' = dst2" "c_tbl st' = c_tbl st" "c_op st' = op + l" by (simp_all add: st'_def)
    have len: "c_op st' = length (bs @ seq_head (take (c_ip st' - a) (drop a s)) 0)"
      unfolding f l_def [symmetric] h using al by (simp add: op_def)
    have s3: "starts (c_dst st') (bs @ seq_head (take (c_ip st' - a) (drop a s)) 0)"
      unfolding f l_def [symmetric] h by (rule s2(1))
    have "c_op st' + 5 \<le> L" using e(1) f(4) op by linarith
    then have "at_match s tt D L st' m (length bs)"
      unfolding at_match_def using bs(3,4) s2(2) m p t s3 len
      by (intro conjI exI [of _ bs] exI [of _ a] exI [of _ b]) (simp_all only: f a_def)
    then show ?thesis using put by (auto simp: goes_ok_def)
  qed
qed

lemma search_step_ok:
  assumes "at_head s D L st" "limits s olimit L" "L \<le> D" "0 < acc" "table_upto tt (c_ip st) (c_tbl st)" "c_ip st + 12 \<le> length s"
    and tt: "indexable tt (length s)"
  shows "\<exists>g. search_step s tt olimit acc st = Inr g \<and> goes_ok s tt olimit D L g"
proof -
  let ?ip = "c_ip st + 1"
  obtain h where h: "LZ4_hashPosition s ?ip tt = Inr h" "h < (if tt = byU16 then 8192 else 4096)"
    by (rule hash_ok [of ?ip s tt]) (use assms(6) in simp)
  obtain r tbl where f: "find_match s tt ?ip 1 (acc * 2 ^ LZ4_skipTrigger) h (c_tbl st) = Inr (r, tbl)"
    "case r of None \<Rightarrow> True | Some (p, m) \<Rightarrow> ?ip \<le> p \<and> match_at s m p \<and> table_upto tt p tbl"
    using find_match_ok [OF _ _ h(2) _ assms(5) tt, of 1 "acc * 2 ^ LZ4_skipTrigger" ?ip] assms(4) by (auto simp: LZ4_skipTrigger_def)
  have head: "at_head s D L (st\<lparr>c_tbl := tbl\<rparr>)" using assms(1) by (simp add: at_head_def)
  show ?thesis
  proof (cases r)
    case None
    then show ?thesis using h(1) f(1) head by (simp add: search_step_def Let_def goes_ok_def)
  next
    case (Some x)
    then obtain p m where r: "r = Some (p, m)" by (cases x) simp
    then have p: "?ip \<le> p" "match_at s m p" "table_upto tt p tbl" using f(2) by simp_all
    then have pm: "m < p" "p - m < 65536" "p + 12 \<le> length s" "common s m p 4" by (simp_all add: match_at_def)
    obtain p' m' b where c: "caught_up s (c_ip st) p m = Inr (p', m')" "c_ip st \<le> p'" "p = p' + b" "m = m' + b" "common s m' p' (b + 4)"
      by (rule caught_up_ok [of "c_ip st" p m s 4]) (use p(1) pm in simp_all)
    have "\<exists>g. put_literals s olimit p' m' (st\<lparr>c_tbl := tbl\<rparr>) = Inr g \<and> goes_ok s tt olimit D L g"
      by (rule put_literals_ok [OF head assms(2,3), where b = b]) (use c pm p(3) in \<open>simp_all add: add.commute\<close>)
    then show ?thesis using h(1) f(1) r c(1) by (simp add: search_step_def Let_def)
  qed
qed

lemma put_match_ok:
  assumes at: "at_match s tt D L st m token" and L: "limits s olimit L" "L \<le> D"
  shows "\<exists>room st'. put_match s olimit m token st = Inr (room, st') \<and> (\<not> room \<longrightarrow> olimit \<noteq> None \<and> length (c_dst st') = D)
    \<and> (room \<longrightarrow> at_head s D L st' \<and> 4 \<le> c_ip st' \<and> table_upto tt (c_ip st' - 4) (c_tbl st'))"
proof -
  define p where "p = c_ip st"
  obtain bs a b where D: "length (c_dst st) = D" and bs: "length bs = token" "delivers s bs a" "length bs \<le> a + a div 255" "a \<le> p"
    and st: "starts (c_dst st) (bs @ seq_head (take (p - a) (drop a s)) 0)" "c_op st = length (bs @ seq_head (take (p - a) (drop a s)) 0)" "c_op st + 5 \<le> L"
    and m: "m < p" "p - m < 65536" "common s m p (4 + b)" "p + b + 12 \<le> length s" and t: "table_upto tt (p + b) (c_tbl st)"
    using at unfolding at_match_def p_def by blast
  define l where "l = p - a"
  define lits where "lits = take l (drop a s)"
  have l: "length lits = l" "a + l = p" using bs(4) m(4) by (simp_all add: lits_def l_def)
  define off where "off = [of_nat (p - m), of_nat ((p - m) div 256) :: u8]"
  note st = st [folded l_def, folded lits_def]
  obtain dst1 where 1: "store_n (c_dst st) (c_op st) off = Inr dst1" "length dst1 = D" "starts dst1 ((bs @ seq_head lits 0) @ off)"
    using starts_store [OF st(1), of off] st(2,3) L(2) D by (auto simp: off_def)
  obtain c where c: "LZ4_count s (p + 4) (m + 4) (length s - 5) = Inr c" "counted s (m + 4) (p + 4) (length s - 5) c"
    by (rule LZ4_count_ok [of "m + 4" "p + 4" "length s - 5" s]) (use m in simp_all)
  have c1: "LZ4_count s (p + 4) (m + 4) (length s - LASTLITERALS) = Inr c" by (simp add: LASTLITERALS_def c(1))
  have bc: "b \<le> c" by (rule counted_max [OF c(2)]) (use m in \<open>simp_all add: common_add\<close>)
  have pc: "p + c + 4 + 5 \<le> length s" using c(2) m(4) unfolding counted_def by linarith
  have cm: "common s m p (c + 4)" using m(3) c(2) by (simp add: add.commute [of c] common_add counted_def)
  have op: "c_op st = length bs + 1 + (l + 240) div 255 + l" unfolding st(2) by (simp add: l length_ext)
  define st1 where "st1 dst op = st\<lparr>c_ip := p + c + MINMATCH, c_op := op, c_dst := dst\<rparr>" for dst op
  show ?thesis
  proof (cases "olimit \<noteq> None \<and> c_op st + 2 + (1 + LASTLITERALS) + (c + 240) div 255 > the olimit")
    case True
    have "put_match s olimit m token st = Inr (False, st1 dst1 (c_op st + 2))"
      unfolding put_match_def Let_def p_def [symmetric] MINMATCH_def LASTLITERALS_def off_def [symmetric] 1(1) andthen_simps c(1)
      using True by (simp add: LASTLITERALS_def st1_def MINMATCH_def)
    then show ?thesis using True 1(2) by (intro exI [of _ False] exI [of _ "st1 dst1 (c_op st + 2)"]) (simp add: st1_def)
  next
    case False
    have room: "c_op st + 2 + 6 + (c + 240) div 255 \<le> L"
    proof (cases olimit)
      case None
      have "a div 255 + l div 255 + c div 255 \<le> length s div 255"
        using div_255_add [of a l] div_255_add [of "a + l" c] div_le_mono [of "a + l + c" "length s" 255] pc l(2) by linarith
      then show ?thesis using None L(1) bs(3) pc l(2) op div_240(1) [of l] div_240(1) [of c] by (simp add: limits_def)
    next
      case (Some x)
      then show ?thesis using False L(1) by (simp add: limits_def LASTLITERALS_def)
    qed
    let ?t = "of_nat (nib l * 16) :: u8"
    have s1: "starts dst1 (bs @ ?t # ext l @ lits @ off)" using 1(3) l(1) by (simp add: seq_head_def nib_def [of 0])
    have tok: "load dst1 token = Inr ?t" using starts_nth [OF s1] bs(1) by simp
    obtain dst2 where 2: "(if c \<ge> 15 then andthen (store_n dst1 token [?t + 15]) (\<lambda>dst. put_match_length dst (c_op st + 2) (c - 15))
        else andthen (store_n dst1 token [?t + of_nat c]) (\<lambda>dst. Inr (dst, c_op st + 2))) = Inr (dst2, c_op st + 2 + (c + 240) div 255)"
      "length dst2 = D" "starts dst2 (bs @ seq_bytes lits (p - m) c)"
    proof -
      have e: "bs @ seq_bytes lits (p - m) c = (bs @ (?t + of_nat (nib c)) # ext l @ lits @ off) @ ext c"
        using l(1) by (simp add: seq_bytes_def seq_head_def off_def)
      have n: "length (bs @ (?t + of_nat (nib c)) # ext l @ lits @ off) = c_op st + 2" using l(1) op by (simp add: off_def length_ext)
      obtain dst3 where 3: "store_n dst1 token [?t + of_nat (nib c)] = Inr dst3" "length dst3 = D"
        "starts dst3 (bs @ (?t + of_nat (nib c)) # ext l @ lits @ off)"
        using starts_restore [OF s1, of "?t + of_nat (nib c)"] bs(1) 1(2) by auto
      show thesis
      proof (cases "c \<ge> 15")
        case True
        have x: "ext c = replicate ((c - 15) div 255) 255 @ [of_nat ((c - 15) mod 255)]" using True by (simp add: ext_def)
        then have q: "(c + 240) div 255 = (c - 15) div 255 + 1" using length_ext [of c] by simp
        obtain dst4 where "put_match_length dst3 (c_op st + 2) (c - 15) = Inr (dst4, c_op st + 2 + (c - 15) div 255 + 1)" "length dst4 = D"
          "starts dst4 ((bs @ (?t + of_nat (nib c)) # ext l @ lits @ off) @ replicate ((c - 15) div 255) 255 @ [of_nat ((c - 15) mod 255)])"
          using put_match_length_ok [OF 3(3), of "c - 15"] room q L(2) 3(2) unfolding n by auto
        moreover have "nib c = 15" using True by (simp add: nib_def)
        ultimately show ?thesis using that [of dst4] True 3(1) q by (simp only: e x) simp
      next
        case False
        then show ?thesis using that [of dst3] 3 by (simp add: e) (simp add: nib_def ext_def)
      qed
    qed
    let ?op = "c_op st + 2 + (c + 240) div 255"
    have "put_match s olimit m token st = Inr (True, st1 dst2 ?op)"
      unfolding put_match_def Let_def p_def [symmetric] MINMATCH_def off_def [symmetric] 1(1) andthen_simps c1 if_not_P [OF False] tok 2(1) prod.case
      by (simp add: st1_def MINMATCH_def)
    moreover have "at_head s D L (st1 dst2 ?op)"
    proof -
      have n: "length (bs @ seq_bytes lits (p - m) c) = ?op" by (simp add: length_seq_bytes length_ext l op)
      have dl: "delivers s (bs @ seq_bytes lits (p - m) c) (p + c + 4)"
        unfolding lits_def l_def by (rule delivers_seq [OF bs(2,4) m(1,2) cm]) (use pc in simp)
      have "a div 255 + l div 255 + c div 255 \<le> (p + c + 4) div 255"
        using div_255_add [of a l] div_255_add [of "a + l" c] div_le_mono [of "a + l + c" "p + c + 4" 255] l(2) by linarith
      moreover have "(c + 240) div 255 \<le> c + c div 255" using div_240 [of c] by (cases "c < 15") linarith+
      ultimately have "?op \<le> p + c + 4 + (p + c + 4) div 255" using op bs(3) l(2) div_240(1) [of l] by linarith
      then show ?thesis
        unfolding at_head_def st1_def using 2(2,3) n dl pc room
        by (intro conjI exI [of _ "bs @ seq_bytes lits (p - m) c"]) (simp_all add: MINMATCH_def)
    qed
    moreover have "table_upto tt (p + c) (c_tbl st)" using table_upto_mono [OF t] bc by simp
    ultimately show ?thesis by (intro exI [of _ True] exI [of _ "st1 dst2 ?op"]) (simp add: st1_def MINMATCH_def)
  qed
qed

lemma test_next_ok:
  assumes head: "at_head s D L st" and L: "L \<le> D" and ip: "4 \<le> c_ip st" "c_ip st + 12 \<le> length s"
    and t: "table_upto tt (c_ip st - 4) (c_tbl st)" and tt: "indexable tt (length s)"
  shows "\<exists>g. test_next s tt st = Inr g \<and> goes_ok s tt olimit D L g"
proof -
  let ?p = "c_ip st"
  obtain h1 where h1: "LZ4_hashPosition s (?p - 2) tt = Inr h1" "h1 < (if tt = byU16 then 8192 else 4096)"
    by (rule hash_ok [of "?p - 2" s tt]) (use ip in simp)
  obtain t1 where t1: "LZ4_putIndexOnHash (?p - 2) h1 (c_tbl st) tt = Inr t1" "table_upto tt (?p - 2) t1"
    by (rule put_ok [OF t h1(2) tt, of "?p - 2"]) (use ip in simp_all)
  obtain h2 where h2: "LZ4_hashPosition s ?p tt = Inr h2" "h2 < (if tt = byU16 then 8192 else 4096)"
    by (rule hash_ok [of ?p s tt]) (use ip in simp)
  obtain i where i: "LZ4_getIndexOnHash h2 t1 = Inr i" "i \<le> ?p - 2" using get_ok [OF t1(2) h2(2)] .
  obtain t2 where t2: "LZ4_putIndexOnHash ?p h2 t1 tt = Inr t2" "table_upto tt ?p t2"
    by (rule put_ok [OF t1(2) h2(2) tt, of ?p]) (use ip in simp_all)
  obtain f where f: "(if close_enough tt i ?p then same LZ4_read32 s i ?p else Inr False) = Inr f" "f \<Longrightarrow> match_at s i ?p"
    by (rule candidate_ok [of i ?p s tt]) (use i(2) ip tt in simp_all)
  have e: "test_next s tt st = (if f then andthen (store_n (c_dst st) (c_op st) [0]) (\<lambda>dst.
      Inr (Next_match (st\<lparr>c_op := c_op st + 1, c_dst := dst, c_tbl := t2\<rparr>) i (c_op st))) else Inr (Search (st\<lparr>c_tbl := t2\<rparr>)))"
    by (simp only: test_next_def Let_def h1(1) t1(1) h2(1) i(1) t2(1) f(1) andthen_simps)
  show ?thesis
  proof (cases f)
    case True
    obtain bs where bs: "starts (c_dst st) bs" "length bs = c_op st" "delivers s bs ?p" "length bs \<le> ?p + ?p div 255" "length bs + 6 \<le> L"
      and D: "length (c_dst st) = D" using head ip(1) by (auto simp: at_head_def)
    obtain dst where d: "store_n (c_dst st) (c_op st) [0] = Inr dst" "length dst = D" "starts dst (bs @ [0])"
      using starts_store [OF bs(1), of "[0]"] bs(2,5) D L by auto
    have h: "seq_head [] 0 = [0]" by (simp add: seq_head_def nib_def ext_def)
    have "match_at s i ?p" by (rule f(2) [OF True])
    then have "at_match s tt D L (st\<lparr>c_op := c_op st + 1, c_dst := dst, c_tbl := t2\<rparr>) i (c_op st)"
      unfolding at_match_def match_at_def using bs d t2(2)
      by (intro conjI exI [of _ bs] exI [of _ ?p] exI [of _ 0]) (simp_all add: h)
    then show ?thesis using True d(1) by (simp add: e goes_ok_def)
  next
    case False
    then show ?thesis using head t2(2) ip(2) by (simp add: e goes_ok_def at_head_def)
  qed
qed

lemma match_step_ok:
  assumes "at_match s tt D L st m token" "limits s olimit L" "L \<le> D" "indexable tt (length s)"
  shows "\<exists>g. match_step s tt olimit m token st = Inr g \<and> goes_ok s tt olimit D L g"
proof -
  obtain room st' where p: "put_match s olimit m token st = Inr (room, st')" "\<not> room \<Longrightarrow> olimit \<noteq> None \<and> length (c_dst st') = D"
    "room \<Longrightarrow> at_head s D L st' \<and> 4 \<le> c_ip st' \<and> table_upto tt (c_ip st' - 4) (c_tbl st')"
    using put_match_ok [OF assms(1-3)] by blast
  consider "\<not> room" | "room" "c_ip st' + MFLIMIT \<ge> length s + 1" | "room" "\<not> c_ip st' + MFLIMIT \<ge> length s + 1" by blast
  then show ?thesis
  proof cases
    case 3
    then show ?thesis using test_next_ok [OF _ assms(3) _ _ _ assms(4), of st' olimit] p(3) by (simp add: match_step_def p(1) MFLIMIT_def)
  qed (use p in \<open>auto simp: match_step_def goes_ok_def\<close>)
qed

lemma comp_loop_ok:
  assumes "goes_ok s tt olimit D L g" "limits s olimit L" "L \<le> D" "indexable tt (length s)" "0 < acc"
  shows "\<exists>g'. comp_loop s tt olimit acc g = Inr g' \<and> goes_ok s tt olimit D L g' \<and> (\<exists>st. g' = Last_literals st \<or> g' = No_room st)"
  using assms
proof (induction s tt olimit acc g rule: comp_loop.induct)
  case (1 s tt olimit acc g)
  show ?case
  proof (cases g)
    case (Search st)
    then obtain g' where g: "search_step s tt olimit acc st = Inr g'" "goes_ok s tt olimit D L g'"
      using search_step_ok [of s D L st olimit acc tt] "1.prems" by (auto simp: goes_ok_def)
    from "1.IH"(1) [OF Search g(1) g(2) "1.prems"(2-)] show ?thesis using Search g(1) by (subst comp_loop.simps) simp
  next
    case (Next_match st m token)
    then obtain g' where g: "match_step s tt olimit m token st = Inr g'" "goes_ok s tt olimit D L g'"
      using match_step_ok [of s tt D L st m token olimit] "1.prems" by (auto simp: goes_ok_def)
    from "1.IH"(2) [OF Next_match g(1) g(2) "1.prems"(2-)] show ?thesis using Next_match g(1) by (subst comp_loop.simps) simp
  qed (use "1.prems" in \<open>auto simp: comp_loop.simps\<close>)
qed

section \<open>A block\<close>

text \<open>\<open>z\<close> is a stream for \<open>s\<close>: sequences, and the literals at the end.\<close>

definition lz4_packs :: "bytes \<Rightarrow> bytes \<Rightarrow> bool" where
  "lz4_packs s z \<longleftrightarrow> (\<exists>bs a. z = bs @ seq_head (drop a s) 0 \<and> delivers s bs a \<and> (a + 5 \<le> length s \<or> bs = [] \<and> a = 0))"

lemma put_last_ok:
  assumes head: "at_head s D L st" and L: "limits s olimit L" "L \<le> D"
  obtains r d where "put_last s olimit st = Inr (r, d)" "length d = D"
    "r = 0 \<and> olimit \<noteq> None \<or> 0 < r \<and> r \<le> int L \<and> lz4_packs s (take (nat r) d)"
proof -
  define a where "a = c_ip st"
  define l where "l = length s - a"
  obtain bs where bs: "starts (c_dst st) bs" "length bs = c_op st" "delivers s bs a" "length bs \<le> a + a div 255"
    "bs = [] \<and> a = 0 \<or> a + 5 \<le> length s" and D: "length (c_dst st) = D" using head by (auto simp: at_head_def a_def)
  have al: "a + l = length s" using bs(5) by (auto simp: l_def)
  show thesis
  proof (cases "olimit \<noteq> None \<and> c_op st + l + 1 + (l + 255 - 15) div 255 > the olimit")
    case True
    then show ?thesis using that [of 0 "c_dst st"] D by (simp add: put_last_def Let_def l_def a_def)
  next
    case False
    have room: "length bs + l + 1 + (l + 240) div 255 \<le> L"
    proof (cases olimit)
      case None
      then show ?thesis using L(1) bs(4) al div_255_add [of a l] div_240(1) [of l] by (simp add: limits_def)
    next
      case (Some x)
      then show ?thesis using False L(1) bs(2) by (simp add: limits_def)
    qed
    obtain dst1 where 1: "(if l \<ge> 15 then andthen (store_n (c_dst st) (length bs) [15 * 16]) (\<lambda>dst. put_length dst (length bs + 1) (l - 15))
        else andthen (store_n (c_dst st) (length bs) [of_nat (l * 16)]) (\<lambda>dst. Inr (dst, length bs + 1)))
        = Inr (dst1, length bs + 1 + (l + 240) div 255)" "length dst1 = length (c_dst st)"
      "starts dst1 (bs @ of_nat (nib l * 16) # ext l)"
      by (rule put_run_ok [OF bs(1), of l]) (use room L(2) D in simp_all)
    let ?op = "length bs + 1 + (l + 240) div 255"
    have op: "?op = length (bs @ of_nat (nib l * 16) # ext l)" by (simp add: length_ext)
    have lits: "take l (drop a s) = drop a s" by (simp add: l_def)
    have fits: "length (bs @ of_nat (nib l * 16) # ext l) + length (drop a s) \<le> length dst1"
      using room 1(2) D L(2) by (simp add: length_ext l_def)
    obtain dst2 where w: "store_n dst1 ?op (drop a s) = Inr dst2" and 2: "length dst2 = D"
      "starts dst2 ((bs @ of_nat (nib l * 16) # ext l) @ drop a s)"
      using starts_store [OF 1(3) fits] 1(2) D unfolding op by metis
    have mem: "LZ4_memcpy (Some s) dst1 ?op a l = Inr dst2" using w al by (simp add: LZ4_memcpy_def lits)
    have "put_last s olimit st = Inr (int (?op + l), dst2)"
      unfolding put_last_def Let_def a_def [symmetric] l_def [symmetric] bs(2) [symmetric] if_not_P [OF False [folded bs(2)]] 1(1) andthen_simps prod.case mem ..
    moreover have h: "(bs @ of_nat (nib l * 16) # ext l) @ drop a s = bs @ seq_head (drop a s) 0"
      by (simp add: seq_head_def nib_def [of 0] l_def)
    have "take (?op + l) dst2 = bs @ seq_head (drop a s) 0"
      using 2(2) unfolding h op by (simp add: starts_def l_def length_ext add.assoc)
    then have "lz4_packs s (take (nat (int (?op + l))) dst2)"
      unfolding nat_int lz4_packs_def using bs(3,5) by auto
    ultimately show ?thesis using that 2(1) room by simp
  qed
qed

lemma generic_validated_ok:
  assumes L: "limits s olimit L" "L \<le> length dst" and tt: "indexable tt (length s)" and acc: "0 < acc"
  obtains r d where "LZ4_compress_generic_validated s dst olimit tt acc = Inr (r, d)" "length d = length dst"
    "r = 0 \<and> olimit \<noteq> None \<or> 0 < r \<and> r \<le> int L \<and> lz4_packs s (take (nat r) d)"
proof -
  let ?st = "\<lambda>tbl. \<lparr>c_ip = 0, c_op = 0, c_dst = dst, c_tbl = tbl\<rparr>"
  have head: "at_head s (length dst) L (?st tbl)" for tbl by (simp add: at_head_def delivers_start)
  show thesis
  proof (cases "length s < LZ4_minLength")
    case True
    then show ?thesis using put_last_ok [OF head L] that by (auto simp: LZ4_compress_generic_validated_def Let_def)
  next
    case False
    then have n: "13 \<le> length s" by (simp add: LZ4_minLength_def MFLIMIT_def)
    obtain h where h: "LZ4_hashPosition s 0 tt = Inr h" "h < (if tt = byU16 then 8192 else 4096)"
      by (rule hash_ok [of 0 s tt]) (use n in simp)
    obtain tbl where t: "LZ4_putIndexOnHash 0 h (fresh_table tt) tt = Inr tbl" "table_upto tt 0 tbl"
      by (rule put_ok [OF table_upto_fresh h(2) tt, of 0]) (use n in simp_all)
    have "goes_ok s tt olimit (length dst) L (Search (?st tbl))" using head t(2) n by (simp add: goes_ok_def)
    then obtain g st where g: "comp_loop s tt olimit acc (Search (?st tbl)) = Inr g" "goes_ok s tt olimit (length dst) L g"
      "g = Last_literals st \<or> g = No_room st" using comp_loop_ok [OF _ L tt acc] by blast
    have e: "LZ4_compress_generic_validated s dst olimit tt acc =
        (case g of Last_literals st \<Rightarrow> put_last s olimit st | No_room st \<Rightarrow> Inr (0, c_dst st) | _ \<Rightarrow> Inl Hang)"
      using False h(1) t(1) g(1) by (simp add: LZ4_compress_generic_validated_def Let_def)
    from g(3) show ?thesis
    proof
      assume g1: "g = Last_literals st"
      then have "at_head s (length dst) L st" using g(2) by (simp add: goes_ok_def)
      from put_last_ok [OF this L] show ?thesis using that by (auto simp: e g1)
    next
      assume "g = No_room st"
      then show ?thesis using that [of 0 "c_dst st"] g(2) by (simp add: e goes_ok_def)
    qed
  qed
qed

text \<open>What \<open>LZ4_compress_default\<close> does, for any input and any output.\<close>

lemma compress_default_ok:
  assumes cap: "cap \<le> int (length dst)"
  obtains r d where "LZ4_compress_default_c s dst cap = Inr (r, d)" "length d = length dst"
    "r = 0 \<and> \<not> (int (length s) \<le> LZ4_MAX_INPUT_SIZE \<and> LZ4_compressBound (int (length s)) \<le> cap)
      \<or> 0 < r \<and> r \<le> cap \<and> (s = [] \<or> lz4_packs s (take (nat r) d))"
proof -
  define n where "n = int (length s)"
  define tt where "tt = (if length s < LZ4_64Klimit then byU16 else byU32)"
  define olimit where "olimit = (if cap \<ge> LZ4_compressBound n then None else Some (nat cap))"
  have e: "LZ4_compress_default_c s dst cap = LZ4_compress_generic s dst olimit tt 1"
    by (simp add: LZ4_compress_default_c_def LZ4_compress_fast_def tt_def olimit_def n_def LZ4_ACCELERATION_MAX_def Let_def)
  consider "n > LZ4_MAX_INPUT_SIZE" | "n \<le> LZ4_MAX_INPUT_SIZE" "s = []" | "n \<le> LZ4_MAX_INPUT_SIZE" "s \<noteq> []" by linarith
  then show thesis
  proof cases
    case 1
    then show ?thesis using that [of 0 dst] by (simp add: e LZ4_compress_generic_def n_def)
  next
    case 2
    then have b: "LZ4_compressBound n = 16" by (simp add: n_def LZ4_compressBound_def LZ4_MAX_INPUT_SIZE_def)
    show ?thesis
    proof (cases "olimit = Some 0")
      case True
      then have "LZ4_compress_default_c s dst cap = Inr (0, dst)" unfolding e using 2 by (simp add: LZ4_compress_generic_def n_def)
      then show ?thesis using True that [of 0 dst] b by (auto simp: olimit_def n_def split: if_splits)
    next
      case False
      then have "1 \<le> cap" using b by (auto simp: olimit_def split: if_splits)
      moreover obtain d where "store_n dst 0 [0] = Inr d" "length d = length dst"
        using starts_store [of dst "[]" "[0]"] calculation cap by auto
      moreover have "LZ4_compress_default_c s dst cap = Inr (1, d)"
        unfolding e using 2 False calculation by (simp add: LZ4_compress_generic_def n_def)
      ultimately show ?thesis using that [of 1 d] 2 by simp
    qed
  next
    case 3
    define L where "L = (case olimit of None \<Rightarrow> length s + length s div 255 + 16 | Some l \<Rightarrow> l)"
    have b: "LZ4_compressBound n = int (length s + length s div 255 + 16)"
      using 3 by (simp add: LZ4_compressBound_def n_def zdiv_int)
    have L: "limits s olimit L" by (simp add: limits_def L_def split: option.split)
    have "0 \<le> cap \<or> olimit = Some 0" using b by (auto simp: olimit_def)
    then have le: "int L \<le> cap \<or> L = 0" "L \<le> length dst" using b cap by (auto simp: L_def olimit_def)
    have ix: "indexable tt (length s)" using 3(1) by (simp add: indexable_def tt_def n_def LZ4_64Klimit_def MFLIMIT_def LZ4_MAX_INPUT_SIZE_def)
    obtain r d where g: "LZ4_compress_generic_validated s dst olimit tt 1 = Inr (r, d)" "length d = length dst"
      "r = 0 \<and> olimit \<noteq> None \<or> 0 < r \<and> r \<le> int L \<and> lz4_packs s (take (nat r) d)"
      by (rule generic_validated_ok [OF L le(2) ix, of 1]) simp
    have "LZ4_compress_default_c s dst cap = Inr (r, d)" using 3 g(1) by (simp add: e LZ4_compress_generic_def n_def)
    then show ?thesis using that g(2,3) le(1) by (auto simp: olimit_def n_def split: if_splits)
  qed
qed

section \<open>Property\<close>

lemma lz4_packs_reference:
  assumes "lz4_packs s z" and "s \<noteq> []" and "length s \<le> cap" "length s = cap \<or> junk = []"
  shows "lz4_reference (z @ junk) cap = Inr (int (length s), map Some s)"
proof -
  obtain bs a where z: "z = bs @ seq_head (drop a s) 0" "delivers s bs a" "a + 5 \<le> length s \<or> bs = [] \<and> a = 0"
    using assms(1) unfolding lz4_packs_def by blast
  show ?thesis using delivers_last [OF z(2,3) assms(2-4)] by (simp add: z(1))
qed

lemma agrees_map_Some: "agrees (map Some s) dst \<Longrightarrow> length dst = length s \<Longrightarrow> dst = s"
  by (auto simp: agrees_def intro: nth_equalityI)

lemma lz4_packs_decompress:
  assumes "lz4_packs s z \<or> s = []" and "length dst = length s"
  shows "LZ4_decompress_safe_partial_c (z @ junk) dst (int (length s)) (int (length s)) = Inr (int (length s), s)"
proof -
  obtain code out dst' where d: "LZ4_decompress_safe_partial_c (z @ junk) dst (int (length dst)) (int (length dst)) = Inr (code, dst')"
    "lz4_reference (z @ junk) (length dst) = Inr (code, out)" "length dst' = length dst" "agrees out dst'"
    using lz4_decompress_refines by blast
  have "lz4_reference (z @ junk) (length s) = Inr (int (length s), map Some s)"
    using lz4_packs_reference [of s z "length s" junk] assms(1) by (cases "s = []") (auto simp: lz4_reference_def)
  then show ?thesis using d assms(2) agrees_map_Some [of s dst'] by simp
qed

text \<open>
  C7. For every input and every output buffer, \<open>LZ4_compress_default\<close> returns: it reads only the input
  and writes only the buffer, although its copies go past their end. It fails, with 0, only where less
  than \<open>LZ4_compressBound\<close> is offered or the input is too large. What it writes otherwise fits into the
  offered capacity, and \<open>LZ4_decompress_safe_partial\<close>, for the size of the input, gives the input back,
  whatever bytes are behind the stream.
\<close>

theorem lz4_roundtrip:
  assumes "cap \<le> int (length dst)"
  shows "\<exists>r d. LZ4_compress_default_c s dst cap = Inr (r, d) \<and> length d = length dst
    \<and> (r = 0 \<longrightarrow> int (length s) > LZ4_MAX_INPUT_SIZE \<or> cap < LZ4_compressBound (int (length s)))
    \<and> (r \<noteq> 0 \<longrightarrow> 0 < r \<and> r \<le> cap
        \<and> (\<forall>junk dst'. length dst' = length s \<longrightarrow>
             LZ4_decompress_safe_partial_c (take (nat r) d @ junk) dst' (int (length s)) (int (length s)) = Inr (int (length s), s)))"
proof -
  obtain r d where c: "LZ4_compress_default_c s dst cap = Inr (r, d)" "length d = length dst"
    "r = 0 \<and> \<not> (int (length s) \<le> LZ4_MAX_INPUT_SIZE \<and> LZ4_compressBound (int (length s)) \<le> cap)
      \<or> 0 < r \<and> r \<le> cap \<and> (s = [] \<or> lz4_packs s (take (nat r) d))"
    by (rule compress_default_ok [OF assms])
  show ?thesis by (rule exI [of _ r], rule exI [of _ d]) (use c lz4_packs_decompress in auto)
qed

lemma lz4_roundtrip_witness:
  "\<exists>r d. LZ4_compress_default_c (replicate 20 7) (replicate 40 0) 40 = Inr (r, d) \<and> 0 < r \<and> r \<le> 40
    \<and> LZ4_decompress_safe_partial_c (take (nat r) d @ [1, 2, 3]) (replicate 20 0) 20 20 = Inr (20, replicate 20 7)"
proof -
  have "LZ4_compressBound 20 = 36" by (simp add: LZ4_compressBound_def LZ4_MAX_INPUT_SIZE_def)
  then show ?thesis
    using lz4_roundtrip [of 40 "replicate 40 0" "replicate 20 7"] by (auto simp: LZ4_MAX_INPUT_SIZE_def)
qed

end
