(* ===== verification/Block_LZ4.thy ===== *)
theory Block_LZ4
  imports Block_FastLZ LZ4_Roundtrip
begin

text \<open>
  LZ4 inside a block: with the compressor and the decompressor of \<open>lz4.c\<close> in the places of the two
  arguments, what the round trip of a block asks of them holds.
\<close>

text \<open>
  The flush offers twice the length of a run and two bytes more, which is the announced bound at
  least for every run that it compresses at all.
\<close>

definition uses_lz4 :: "packers \<Rightarrow> unpackers \<Rightarrow> bool" where
  "uses_lz4 pk up \<longleftrightarrow>
     (\<forall>s. 32 < length s \<and> int (length s) \<le> LZ4_MAX_INPUT_SIZE \<longrightarrow>
        (\<exists>dmem cap r d. int (2 * length s + 2) \<le> cap \<and> cap \<le> int (length dmem)
           \<and> LZ4_compress_default_c s dmem cap = Inr (r, d) \<and> LZ4_compress_default pk s = take (nat r) d))
     \<and> (\<forall>s n. \<exists>mu rc out. length mu = n \<and> LZ4_decompress_safe_partial_c s mu (int n) (int n) = Inr (rc, out)
           \<and> LZ4_decompress_safe_partial up s n = (out, rc))"

lemma lz4_run:
  assumes u: "uses_lz4 pk up" and n: "32 < length s" "int (length s) \<le> LZ4_MAX_INPUT_SIZE"
  shows "lz4_packs s (LZ4_compress_default pk s)"
    "LZ4_decompress_safe_partial up (LZ4_compress_default pk s @ junk) (length s) = (s, int (length s))"
proof -
  obtain dmem cap r d where c: "int (2 * length s + 2) \<le> cap" "cap \<le> int (length dmem)"
    "LZ4_compress_default_c s dmem cap = Inr (r, d)" "LZ4_compress_default pk s = take (nat r) d"
    using u n unfolding uses_lz4_def by blast
  have "int (length s) div 255 \<le> int (length s)" by (simp add: zdiv_int [of _ 255, symmetric])
  then have "LZ4_compressBound (int (length s)) \<le> cap" using n c(1) by (simp add: LZ4_compressBound_def)
  moreover obtain r' d' where "LZ4_compress_default_c s dmem cap = Inr (r', d')"
    "r' = 0 \<and> \<not> (int (length s) \<le> LZ4_MAX_INPUT_SIZE \<and> LZ4_compressBound (int (length s)) \<le> cap)
      \<or> 0 < r' \<and> r' \<le> cap \<and> (s = [] \<or> lz4_packs s (take (nat r') d'))"
    by (rule compress_default_ok [OF c(2), of s])
  moreover have "s \<noteq> []" using n(1) by auto
  ultimately show p: "lz4_packs s (LZ4_compress_default pk s)"
    using c(3,4) n(2) by simp
  obtain mu rc out where "length mu = length s"
    "LZ4_decompress_safe_partial_c (LZ4_compress_default pk s @ junk) mu (int (length s)) (int (length s)) = Inr (rc, out)"
    "LZ4_decompress_safe_partial up (LZ4_compress_default pk s @ junk) (length s) = (out, rc)"
    using u unfolding uses_lz4_def by blast
  then show "LZ4_decompress_safe_partial up (LZ4_compress_default pk s @ junk) (length s) = (s, int (length s))"
    using lz4_packs_decompress [of s "LZ4_compress_default pk s" mu junk] p by auto
qed

lemma four_packed:
  assumes p: "fastpack xw" "fourpack xw" and pc: "pack_chain pk xw run = (d, h)" and nz: "h \<noteq> 0"
  shows "32 < length run" "d = LZ4_compress_default pk run" "h = of_nat (length run)"
  using assms by (auto simp: pack_chain_def Let_def split: if_splits)

lemma lz4_stored:
  assumes u: "uses_lz4 pk up" and p: "fastpack xw" "fourpack xw" and r: "int (length run) \<le> LZ4_MAX_INPUT_SIZE"
    and pc: "pack_chain pk xw run = (d, h)"
  shows "stored_as up (uint (ascii CHR ''4'')) run d h"
proof (cases "h = 0")
  case True
  have "length run = 0" if "d = LZ4_compress_default pk run" "of_nat (length run) = (0 :: u32)"
    using that(2) r by (simp add: LZ4_MAX_INPUT_SIZE_def flip: unat_eq_zero) (simp add: unat_of_nat)
  then have "d = run" using pc p True by (auto simp: pack_chain_def Let_def split: if_splits)
  then show ?thesis using True by (simp add: stored_as_def)
next
  case False
  note e = four_packed [OF p pc False]
  have "unat (of_nat (length run) :: u32) = length run" using r by (simp add: unat_of_nat LZ4_MAX_INPUT_SIZE_def)
  then show ?thesis using False e lz4_run(2) [OF u e(1) r] by (simp add: stored_as_def unpack_run_def)
qed

lemma lz4_same_bytes:
  assumes u: "uses_lz4 pk up" and p: "fastpack xw" "fourpack xw"
    and r: "int (length r1) \<le> LZ4_MAX_INPUT_SIZE" "int (length r2) \<le> LZ4_MAX_INPUT_SIZE"
    and pc: "pack_chain pk xw r1 = (d, h1)" "pack_chain pk xw r2 = (d, h2)" and nz: "h1 \<noteq> 0" "h2 \<noteq> 0"
  shows "h1 = h2"
proof -
  note e1 = four_packed [OF p pc(1) nz(1)] and e2 = four_packed [OF p pc(2) nz(2)]
  have z: "lz4_packs r1 d" "lz4_packs r2 d" using lz4_run(1) [OF u e1(1) r(1)] lz4_run(1) [OF u e2(1) r(2)] e1(2) e2(2) by simp_all
  let ?cap = "max (length r1) (length r2)"
  have "lz4_reference (d @ []) ?cap = Inr (int (length r1), map Some r1)" "lz4_reference (d @ []) ?cap = Inr (int (length r2), map Some r2)"
    by (rule lz4_packs_reference [OF z(1)], use e1(1) in auto)[1] (rule lz4_packs_reference [OF z(2)], use e2(1) in auto)
  then show ?thesis using e1(3) e2(3) by simp
qed

section \<open>Properties\<close>

text \<open>
  C36. In a block packed with LZ4 the round trip of blocks asks nothing of the compressor: when the two
  arguments are the modelled \<open>LZ4_compress_default\<close>, with the space that the flush offers, and the
  modelled \<open>LZ4_decompress_safe_partial\<close>, every stored run is unpacked as it was, with the code that
  the reader asks for, though the reader hands over bytes behind the stream.
\<close>

theorem lz4_packs_back:
  assumes "uses_lz4 pk up" and "fastpack xw" and "fourpack xw" and "no_clash pk xw m G"
    and small: "\<forall>t < m. int (length (run_of (valpos xw ! (4 * t + 1)) (G t))) \<le> LZ4_MAX_INPUT_SIZE"
  shows "packs_back up (uint (ascii CHR ''4'')) pk xw m G"
proof (rule packs_backI [OF assms(4)])
  show "case pack_chain pk xw (run_of (valpos xw ! (4 * t + 1)) (G t)) of (d, h) \<Rightarrow>
      stored_as up (uint (ascii CHR ''4'')) (run_of (valpos xw ! (4 * t + 1)) (G t)) d h" if "t < m" for t
    using lz4_stored [OF assms(1-3)] small that by (auto split: prod.split)
qed (use lz4_same_bytes [OF assms(1-3)] small in blast)

definition lz4_demo_packers :: packers where
  "lz4_demo_packers = plain_packers\<lparr>LZ4_compress_default := \<lambda>s.
     (case LZ4_compress_default_c s (replicate (2 * length s + 2) 0) (int (2 * length s + 2)) of
        Inl _ \<Rightarrow> [] | Inr (r, d) \<Rightarrow> take (nat r) d)\<rparr>"

definition lz4_demo_unpackers :: unpackers where
  "lz4_demo_unpackers = plain_unpackers\<lparr>LZ4_decompress_safe_partial := \<lambda>s n.
     (case LZ4_decompress_safe_partial_c s (replicate n 0) (int n) (int n) of
        Inl _ \<Rightarrow> ([], -1) | Inr (rc, out) \<Rightarrow> (out, rc))\<rparr>"

lemma uses_lz4_demo: "uses_lz4 lz4_demo_packers lz4_demo_unpackers"
  unfolding uses_lz4_def
proof (intro conjI allI impI)
  fix s :: bytes
  let ?dmem = "replicate (2 * length s + 2) 0 :: bytes" and ?cap = "int (2 * length s + 2)"
  have "?cap \<le> int (length ?dmem)" by simp
  then obtain r d where "LZ4_compress_default_c s ?dmem ?cap = Inr (r, d)" by (rule compress_default_ok)
  then show "\<exists>dmem cap r d. ?cap \<le> cap \<and> cap \<le> int (length dmem)
      \<and> LZ4_compress_default_c s dmem cap = Inr (r, d) \<and> LZ4_compress_default lz4_demo_packers s = take (nat r) d"
    by (intro exI [of _ ?dmem] exI [of _ ?cap] exI [of _ r] exI [of _ d]) (simp add: lz4_demo_packers_def)
next
  fix s :: bytes and n
  obtain rc out where "LZ4_decompress_safe_partial_c s (replicate n 0) (int n) (int n) = Inr (rc, out)"
    using lz4_decompress_refines [of s "replicate n 0"] by auto
  then show "\<exists>mu rc out. length mu = n \<and> LZ4_decompress_safe_partial_c s mu (int n) (int n) = Inr (rc, out)
      \<and> LZ4_decompress_safe_partial lz4_demo_unpackers s n = (out, rc)"
    by (intro exI [of _ "replicate n 0"] exI [of _ rc] exI [of _ out]) (simp add: lz4_demo_unpackers_def)
qed

lemma lz4_packs_back_witness:
  "packs_back lz4_demo_unpackers (uint (ascii CHR ''4'')) lz4_demo_packers
    (demo_block_writer\<lparr>fastpack := True, fourpack := True\<rparr>) 2 (\<lambda>_. [(0, [49])])"
proof (rule lz4_packs_back [OF uses_lz4_demo])
  have r: "run_of 1 [(0, [49])] = [2]" by code_simp
  have v: "valpos (demo_block_writer\<lparr>fastpack := True, fourpack := True\<rparr>) = [0, 1, 1, 0, 1, 1, 7, 0]"
    by (simp add: demo_block_writer_def)
  show "no_clash lz4_demo_packers (demo_block_writer\<lparr>fastpack := True, fourpack := True\<rparr>) 2 (\<lambda>_. [(0, [49])])"
    using r by (auto simp: no_clash_def v pack_chain_def less_2_cases_iff)
  show "\<forall>t<2. int (length (run_of (valpos (demo_block_writer\<lparr>fastpack := True, fourpack := True\<rparr>) ! (4 * t + 1)) [(0, [49])])) \<le> LZ4_MAX_INPUT_SIZE"
    using r by (auto simp: v less_2_cases_iff LZ4_MAX_INPUT_SIZE_def)
qed simp_all

end
