(* ===== verification/Iter_Blocks.thy ===== *)
theory Iter_Blocks
  imports Traversal_Order
begin

text \<open>
  \<open>fstReaderIterBlocks2\<close> of \<open>fstapi.c\<close> (lines 5031 to 6147) around the loops of the previous theory:
  the walk over the blocks of the file, the header of a value change block, its time table and its
  frame of initial values.

  The two allocations whose result is checked, for the time table and for the index, fail for the
  sizes from \<open>2 ^ 63\<close> on, which the C library refuses; all the others are taken to succeed. After a short read a local or fresh buffer keeps the bytes it had, taken
  from \<open>malloc_bytes\<close>.
\<close>

section \<open>Reading\<close>

definition u64_f :: "unpackers \<Rightarrow> fstReaderContext \<Rightarrow> u64 \<times> fstReaderContext" where
  "u64_f up xc = (let (v, f) = fstReaderUint64 (malloc_bytes up 8) (xc_f xc) in (v, xc\<lparr>xc_f := f\<rparr>))"

definition varint64_f :: "fstReaderContext \<Rightarrow> (u64 \<times> fstReaderContext) outcome" where
  "varint64_f xc = andthen (fstReaderVarint64 (xc_f xc)) (\<lambda>(v, f). Inr (v, xc\<lparr>xc_f := f\<rparr>))"

definition fill_f :: "unpackers \<Rightarrow> nat \<Rightarrow> fstReaderContext \<Rightarrow> bytes \<times> fstReaderContext" where
  "fill_f up n xc = (let (bs, xc) = read_f n xc in (bs @ drop (length bs) (malloc_bytes up n), xc))"

text \<open>
  A section stored in \<open>clen\<close> bytes, compressed when that is not its length \<open>uclen\<close>. A failing
  \<open>uncompress\<close> ends the program.
\<close>

definition section_f :: "unpackers \<Rightarrow> nat \<Rightarrow> nat \<Rightarrow> fstReaderContext \<Rightarrow> (bytes \<times> fstReaderContext) outcome" where
  "section_f up uclen clen xc =
     (if uclen = clen then Inr (fill_f up uclen xc)
      else let (cdata, xc) = fill_f up clen xc; (out, ok) = uncompress up cdata uclen
           in andthen (store_n (malloc_bytes up uclen) 0 out) (\<lambda>ucdata.
              if ok then Inr (ucdata, xc) else Inl (Exit_code 255)))"

section \<open>The time table\<close>

primrec time_items :: "nat \<Rightarrow> bytes \<Rightarrow> u64 \<Rightarrow> u64 list outcome" where
  "time_items 0 tpnt tpval = Inr []"
| "time_items (Suc n) tpnt tpval =
     andthen (fstGetVarint64 tpnt) (\<lambda>(val, skiplen).
     andthen (time_items n (drop skiplen tpnt) (tpval + val)) (\<lambda>ts. Inr ((tpval + val) # ts)))"

text \<open>
  The loop variable has 32 bits: below \<open>2 ^ 32\<close> items there are as many rounds, from there on it never reaches
  the number. As every round takes a byte at least, one round more than there are bytes then shows how the loop
  ends, with a read behind them.
\<close>

definition time_rounds :: "u64 \<Rightarrow> bytes \<Rightarrow> nat" where
  "time_rounds nitems ucdata = (if unat nitems < 2 ^ 32 then unat nitems else Suc (length ucdata))"

text \<open>
  The three numbers at the end of the block and the table before them. The result holds
  \<open>tsec_clen\<close>, \<open>tsec_nitems\<close> and the table; \<open>None\<close> leaves the walk over the blocks.
\<close>

definition read_times ::
    "unpackers \<Rightarrow> u64 \<Rightarrow> u64 \<Rightarrow> fstReaderContext \<Rightarrow> ((u64 \<times> u64 \<times> u64 list) option \<times> fstReaderContext) outcome" where
  "read_times up blkpos seclen xc =
     (let (rc, f, xc) = fstReaderFseeko xc (xc_f xc) (sint (blkpos + seclen - 24)) SEEK_SET; xc = xc\<lparr>xc_f := f\<rparr>
      in if rc \<noteq> 0 then Inr (None, xc)
         else let (uclen, xc) = u64_f up xc; (clen, xc) = u64_f up xc; (nitems, xc) = u64_f up xc
              in if clen > seclen \<or> 2 ^ 63 \<le> unat uclen then Inr (None, xc)
                 else andthen (section_f up (unat uclen) (unat clen) (seek_f (-24 - sint clen) SEEK_CUR xc)) (\<lambda>(ucdata, xc).
                      if nitems * 8 div 8 \<noteq> nitems then Inl (Report_abort ''TALOS-2023-1792'')
                      else andthen (time_items (time_rounds nitems ucdata) ucdata 0) (\<lambda>ts.
                             Inr (Some (clen, nitems, ts), xc))))"

section \<open>The frame\<close>

text \<open>One value of the frame, at \<open>sig_offs\<close>. A real is written with its identifier in one piece.\<close>

definition frame_value :: "sinks \<Rightarrow> u64 \<Rightarrow> u64 \<Rightarrow> bytes \<Rightarrow> u32 \<Rightarrow> u32 \<Rightarrow> u32 \<Rightarrow> trav \<Rightarrow> trav outcome" where
  "frame_value sk beg_tim uclen mu idx sig_offs n tr =
     (let p = unat sig_offs
      in if n = 0 then Inr tr
         else if n = 1
         then andthen (load mu p) (\<lambda>val.
              if sk_cb sk
              then andthen (set_buf [val, 0] tr) (\<lambda>tr. Inr (call (Change beg_tim (idx + 1) [val]) tr))
              else if sk_fv sk then put_line val idx tr else Inr tr)
         else andthen (load (signal_typs (tr_xc tr)) (unat idx)) (\<lambda>typ.
           if typ \<noteq> FST_VT_VCD_REAL
           then if sk_cb sk
                then if n > longest_signal_value_len (tr_xc tr) then Inl (Report_abort ''TALOS-2023-1797'')
                     else andthen (load_n mu p (unat n)) (\<lambda>v.
                          andthen (set_buf (v @ [0]) tr) (\<lambda>tr. Inr (call (Change beg_tim (idx + 1) v) tr)))
                else if sk_fv sk
                then andthen (put [ch_bp typ] tr) (\<lambda>tr.
                     if ucast (sig_offs + n) > uclen then Inl (Report_abort ''TALOS-2023-1793'')
                     else andthen (load_n mu p (unat n)) (\<lambda>v. andthen (put v tr) (put_line 32 idx)))
                else Inr tr
           else if sk_cb sk then andthen (load_n mu p 8) (\<lambda>v. trav_double sk beg_tim idx v tr)
                else if sk_fv sk
                then andthen (load_n mu p 8) (\<lambda>v.
                     let d = (if double_endian_match (tr_xc tr) then v else rev v);
                         s = c_lit ''r'' @ sk_fmt sk d @ [32] @ vcd_digits (idx + 1) @ [10]
                     in if length s < 64 then put s tr else Inl Out_of_bounds)
                else Inr tr))"

primrec frame_loop :: "sinks \<Rightarrow> u64 \<Rightarrow> u64 \<Rightarrow> bytes \<Rightarrow> nat list \<Rightarrow> u32 \<Rightarrow> trav \<Rightarrow> trav outcome" where
  "frame_loop sk beg_tim uclen mu [] sig_offs tr = Inr tr"
| "frame_loop sk beg_tim uclen mu (i # is) sig_offs tr =
     andthen (load (process_mask (tr_xc tr)) (i div 8)) (\<lambda>b.
     andthen (load (signal_lens (tr_xc tr)) i) (\<lambda>n.
     andthen (if b AND push_bit (i mod 8) 1 \<noteq> 0 then frame_value sk beg_tim uclen mu (of_nat i) sig_offs n tr
              else Inr tr)
       (frame_loop sk beg_tim uclen mu is (sig_offs + n))))"

definition on_xc :: "(fstReaderContext \<Rightarrow> fstReaderContext) \<Rightarrow> trav \<Rightarrow> trav" where
  "on_xc g tr = tr\<lparr>tr_xc := g (tr_xc tr)\<rparr>"

definition show_frame ::
    "unpackers \<Rightarrow> sinks \<Rightarrow> u64 \<Rightarrow> u64 \<Rightarrow> u64 \<Rightarrow> u64 \<Rightarrow> vcd_state \<Rightarrow> trav \<Rightarrow> (vcd_state \<times> trav) outcome" where
  "show_frame up sk beg_tim uclen clen maxh vs tr =
     andthen (if sk_fv sk
              then andthen (if beg_tim \<noteq> 0 then vcd_stamp beg_tim vs tr else Inr (vs, tr)) (\<lambda>(vs, tr).
                     vcd_activity beg_tim vs tr)
              else Inr (vs, tr)) (\<lambda>(vs, tr).
     andthen (section_f up (unat uclen) (unat clen) (tr_xc tr)) (\<lambda>(mu, xc).
     andthen (frame_loop sk beg_tim uclen mu [0..<unat maxh] 0 (tr\<lparr>tr_xc := xc\<rparr>)) (\<lambda>tr.
       Inr (vs, on_xc (seek_f (- sint clen) SEEK_CUR) tr))))"


section \<open>A block\<close>

text \<open>
  What goes from one block to the next: the arrays with a cell per handle and the output in
  \<open>it_tr\<close>, the tables of the index, and the counters.
\<close>

record iter =
  it_tr :: trav
  it_vs :: vcd_state
  it_ci :: chain_idx
  it_blkpos :: u64
  it_secnum :: u32
  it_skipped :: nat

text \<open>The end of a block, at \<open>block_err\<close>: whether the walk goes on.\<close>

definition block_end :: "u64 \<Rightarrow> iter \<Rightarrow> bool \<times> iter" where
  "block_end seclen it =
     (let secnum = it_secnum it + 1
      in if ucast secnum = vc_section_count (tr_xc (it_tr it)) then (False, it\<lparr>it_secnum := secnum\<rparr>)
         else (True, it\<lparr>it_secnum := secnum, it_blkpos := it_blkpos it + seclen\<rparr>))"

text \<open>From the frame on: the first block shows it, when its time or skipped blocks ask for it.\<close>

definition block_frame ::
    "unpackers \<Rightarrow> sinks \<Rightarrow> u64 \<Rightarrow> u64 list \<Rightarrow> iter \<Rightarrow> iter outcome" where
  "block_frame up sk beg_tim ts it =
     (let tr = on_xc (seek_f (sint (it_blkpos it + 32)) SEEK_SET) (it_tr it)
      in andthen (varint64_f (tr_xc tr)) (\<lambda>(uclen, xc).
         andthen (varint64_f xc) (\<lambda>(clen, xc).
         andthen (varint64_f xc) (\<lambda>(maxh, xc).
         let tr = tr\<lparr>tr_xc := xc\<rparr>
         in andthen (if it_secnum it = 0
                     then andthen (load ts 0) (\<lambda>t.
                          if beg_tim \<noteq> t \<or> it_skipped it \<noteq> 0
                          then show_frame up sk beg_tim uclen clen maxh (it_vs it) tr
                          else Inr (it_vs it, tr))
                     else Inr (it_vs it, tr)) (\<lambda>(vs, tr).
              Inr (it\<lparr>it_vs := vs, it_tr := on_xc (seek_f (sint clen) SEEK_CUR) tr\<rparr>))))))"

text \<open>
  The index behind the runs: the tag and the position of the runs, and the tables; \<open>None\<close> gives the
  block up.
\<close>

definition block_index_f ::
    "unpackers \<Rightarrow> int \<Rightarrow> u64 \<Rightarrow> u64 \<Rightarrow> iter \<Rightarrow> ((nat \<times> int \<times> chain_idx) option \<times> iter) outcome" where
  "block_index_f up sectype seclen tsec_clen it =
     andthen (varint64_f (tr_xc (it_tr it))) (\<lambda>(vc_maxhandle, xc).
     let vc_start = ftello (xc_f xc); (packtype, f) = fgetc (xc_f xc);
         indx_pntr = it_blkpos it + seclen - 24 - tsec_clen - 8;
         (chain_clen, xc) = u64_f up (seek_f (sint indx_pntr) SEEK_SET (xc\<lparr>xc_f := f\<rparr>));
         indx_pos = indx_pntr - chain_clen
     in if 2 ^ 63 \<le> unat chain_clen then Inr (None, it\<lparr>it_tr := (it_tr it)\<lparr>tr_xc := xc\<rparr>\<rparr>)
        else let (chain_cmem, xc) = fill_f up (unat chain_clen) (seek_f (sint indx_pos) SEEK_SET xc)
             in andthen (chain_index (sectype = 8) vc_maxhandle (indx_pos - of_nat vc_start) chain_cmem (it_ci it)) (\<lambda>ci.
                  Inr (map_option (\<lambda>ci. (vc_start, packtype, ci)) ci, it\<lparr>it_tr := (it_tr it)\<lparr>tr_xc := xc\<rparr>\<rparr>)))"

definition block_body ::
    "unpackers \<Rightarrow> sinks \<Rightarrow> int \<Rightarrow> u64 \<Rightarrow> u64 \<Rightarrow> u64 \<Rightarrow> u64 \<Rightarrow> u64 \<Rightarrow> u64 list \<Rightarrow> iter \<Rightarrow> (bool \<times> iter) outcome option" where
  "block_body up sk sectype seclen beg_tim memreq tsec_clen nitems ts it =
     (case andthen (block_frame up sk beg_tim ts it) (\<lambda>it.
           andthen (block_index_f up sectype seclen tsec_clen it) (\<lambda>(r, it).
             case r of
               None \<Rightarrow> Inr (None, it)
             | Some (vc_start, packtype, ci) \<Rightarrow>
                 let tr = (it_tr it)\<lparr>tr_mem := malloc_bytes up (unat memreq), tr_offs := 0, tr_mc := malloc_bytes up 16384,
                            tr_tc := replicate (unat (if nitems \<noteq> 0 then ucast nitems else 1 :: u32)) 0\<rparr>;
                     n = min (unat (ci_idx ci)) (unat (fstReaderContext.maxhandle (tr_xc tr)))
                 in andthen (load_runs up vc_start packtype ci [0..<n] tr) (\<lambda>tr.
                      Inr (Some (), it\<lparr>it_tr := tr, it_ci := ci\<rparr>)))) of
        Inl e \<Rightarrow> Some (Inl e)
      | Inr (None, it) \<Rightarrow> Some (Inr (block_end seclen it))
      | Inr (Some (), it) \<Rightarrow>
          (case trav_times sk ts [0..<unat nitems] (it_vs it) (it_tr it) of
             None \<Rightarrow> None
           | Some (Inl e) \<Rightarrow> Some (Inl e)
           | Some (Inr (vs, tr)) \<Rightarrow> Some (Inr (block_end seclen (it\<lparr>it_vs := vs, it_tr := tr\<rparr>)))))"

text \<open>One round of \<open>for(;;)\<close>: whether there is another, and the state.\<close>

definition iter_block :: "unpackers \<Rightarrow> sinks \<Rightarrow> iter \<Rightarrow> (bool \<times> iter) outcome option" where
  "iter_block up sk it =
     (let xc = seek_f (sint (it_blkpos it)) SEEK_SET (tr_xc (it_tr it));
          (sectype, f) = fgetc (xc_f xc); (seclen, xc) = u64_f up (xc\<lparr>xc_f := f\<rparr>);
          at = (\<lambda>xc. it\<lparr>it_tr := (it_tr it)\<lparr>tr_xc := xc\<rparr>, it_blkpos := it_blkpos it + 1\<rparr>);
          skip = (\<lambda>it. it\<lparr>it_blkpos := it_blkpos it + seclen\<rparr>)
      in if sectype = -1 \<or> sectype = uint FST_BL_SKIP then Some (Inr (False, it\<lparr>it_tr := (it_tr it)\<lparr>tr_xc := xc\<rparr>\<rparr>))
         else if sectype \<notin> {1, 5, 8} then Some (Inr (True, skip (at xc)))
         else if seclen = 0 then Some (Inr (False, at xc))
         else let (beg_tim, xc) = u64_f up xc; (end_tim, xc) = u64_f up xc
              in if limit_range_valid xc \<and> end_tim < limit_range_start xc
                 then Some (Inr (True, skip ((at xc)\<lparr>it_skipped := it_skipped it + 1\<rparr>)))
                 else if limit_range_valid xc \<and> beg_tim > limit_range_end xc then Some (Inr (False, at xc))
                 else let (memreq, xc) = u64_f up xc
                      in case read_times up (it_blkpos it + 1) seclen xc of
                           Inl e \<Rightarrow> Some (Inl e)
                         | Inr (None, xc) \<Rightarrow> Some (Inr (False, at xc))
                         | Inr (Some (tsec_clen, nitems, ts), xc) \<Rightarrow>
                             block_body up sk sectype seclen beg_tim (memreq + 66) tsec_clen nitems ts (at xc))"

text \<open>The walk need not end: \<open>None\<close> is a run for ever.\<close>

partial_function (option) iter_loop :: "unpackers \<Rightarrow> sinks \<Rightarrow> iter \<Rightarrow> iter outcome option" where
  "iter_loop up sk it =
     (case iter_block up sk it of
        None \<Rightarrow> None
      | Some (Inl e) \<Rightarrow> Some (Inl e)
      | Some (Inr (more_blocks, it')) \<Rightarrow> if more_blocks then iter_loop up sk it' else Some (Inr it'))"

definition iter_start :: "fstReaderContext \<Rightarrow> iter" where
  "iter_start xc =
     (let z = replicate (unat (fstReaderContext.maxhandle xc)) 0
      in \<lparr>it_tr = \<lparr>tr_xc = xc, tr_mem = [], tr_offs = 0, tr_mc = [], tr_scatter = z, tr_head = z, tr_left = z,
                   tr_tc = [], tr_events = []\<rparr>,
          it_vs = \<lparr>previous_time = -1, cur_blackout = 0, dumpvars_state = 0\<rparr>, it_ci = no_tables,
          it_blkpos = 0, it_secnum = 0, it_skipped = 0\<rparr>)"

text \<open>The code returned, the calls that were made and the context; a given file is \<open>writex_fd\<close>.\<close>

definition fstReaderIterBlocks2 ::
    "unpackers \<Rightarrow> sinks \<Rightarrow> rctx \<Rightarrow> (int \<times> event list \<times> rctx) outcome option" where
  "fstReaderIterBlocks2 up sk ctx =
     (case ctx of
        None \<Rightarrow> Some (Inr (0, [], None))
      | Some xc \<Rightarrow>
          (case iter_loop up sk (iter_start (if sk_fv sk then xc\<lparr>writex_fd := []\<rparr> else xc)) of
             None \<Rightarrow> None
           | Some (Inl e) \<Rightarrow> Some (Inl e)
           | Some (Inr it) \<Rightarrow>
               Some (andthen (if sk_fv sk then fstWritex (tr_xc (it_tr it)) [] else Inr (tr_xc (it_tr it))) (\<lambda>xc.
                       Inr (1, tr_events (it_tr it), Some xc)))))"

definition fstReaderIterBlocks :: "unpackers \<Rightarrow> sinks \<Rightarrow> rctx \<Rightarrow> (int \<times> event list \<times> rctx) outcome option" where
  "fstReaderIterBlocks up sk ctx = fstReaderIterBlocks2 up (sk\<lparr>sk_varlen := False\<rparr>) ctx"


section \<open>Lemmas\<close>

lemma seek_f_start: "seek_f (int k) SEEK_SET xc = xc\<lparr>xc_f := (xc_f xc)\<lparr>f_pos := k, f_eof := False\<rparr>\<rparr>"
  by (simp add: seek_f_def fstReaderFseeko_def fseeko_def Let_def)

lemma u64_f_bytes:
  assumes "drop (f_pos (xc_f xc)) (f_data (xc_f xc)) = be_loop 8 v @ rest"
  shows "u64_f up xc = (v, xc\<lparr>xc_f := (xc_f xc)\<lparr>f_pos := f_pos (xc_f xc) + 8\<rparr>\<rparr>)"
proof -
  have "take 8 (drop (f_pos (xc_f xc)) (f_data (xc_f xc))) = be_loop 8 v" unfolding assms by simp
  from fstReaderUint64_of_bytes [OF this] show ?thesis by (simp add: u64_f_def)
qed

text \<open>The times the deltas stand for.\<close>

primrec sums_from :: "u64 \<Rightarrow> u64 list \<Rightarrow> u64 list" where
  "sums_from t [] = []"
| "sums_from t (d # ds) = (t + d) # sums_from (t + d) ds"

lemma time_items_varints: "time_items (length ds) (concat (map varint ds) @ rest) t = Inr (sums_from t ds)"
  by (induction ds arbitrary: t) (simp_all add: v64.get_enc)

lemma fill_f_exact:
  assumes "drop (f_pos (xc_f xc)) (f_data (xc_f xc)) = a @ rest" and "length a = n" and "length (malloc_bytes up n) = n"
  shows "fill_f up n xc = (a, xc\<lparr>xc_f := (xc_f xc)\<lparr>f_pos := f_pos (xc_f xc) + n\<rparr>\<rparr>)"
proof -
  have "take n (drop (f_pos (xc_f xc)) (f_data (xc_f xc))) = a" using assms by simp
  then show ?thesis using assms(2,3) by (simp add: fill_f_def read_f_def fstFread_def fread_bytes_def Let_def)
qed

section \<open>Properties\<close>

text \<open>
  C13. The time table of a block is read back: what \<open>tchn_handle\<close> has collected, one varint per time
  change, is appended by the flush with its three numbers; the reader, at the end of the block,
  finds as many items, and the running sums of the distances as the times.
\<close>

theorem time_table_roundtrip:
  assumes "at_end (handle xw)" and "at_end (tchn_handle xw)" and "f_data (tchn_handle xw) = concat (map varint ds)"
    and "tchn_cnt xw = of_nat (length ds)" and "length ds < 2 ^ 32" and "length (f_data (tchn_handle xw)) < 2 ^ 62"
    and "\<And>d. compress2 pk 9 (f_data (tchn_handle xw)) = Some d \<Longrightarrow>
      uncompress up d (length (f_data (tchn_handle xw))) = (f_data (tchn_handle xw), True)"
    and "\<And>n. length (malloc_bytes up n) = n"
    and "f_data (xc_f xr) = f_data (handle (flush_times pk xw))" and "unat (blkpos + seclen) = length (f_data (xc_f xr))"
    and "length (f_data (xc_f xr)) < 2 ^ 62" and "length (f_data (tchn_handle xw)) \<le> unat seclen"
  shows "\<exists>clen xr'. read_times up blkpos seclen xr = Inr (Some (clen, of_nat (length ds), sums_from 0 ds), xr')"
proof -
  let ?t = "f_data (tchn_handle xw)" and ?N = "length (f_data (xc_f xr))"
  define packed where "packed = (case compress2 pk 9 ?t of Some d \<Rightarrow> if length d < length ?t then d else ?t | None \<Rightarrow> ?t)"
  have tl: "ftello (tchn_handle xw) = length ?t" using assms(2) by (simp add: ftello_def at_end_def)
  have tk: "take (length ?t) ?t = ?t" by simp
  have pl: "length packed \<le> length ?t" by (auto simp: packed_def split: option.split)
  define trailer where "trailer = be_loop 8 (of_nat (length ?t)) @ be_loop 8 (of_nat (length packed)) @ be_loop 8 (of_nat (length ds))"
  have uc: "(ucast (tchn_cnt xw) :: u64) = of_nat (length ds)"
    using assms(4,5) by (simp add: word_unat_eq_iff unat_ucast_64 unat_of_nat_32 of_nat_inverse [OF refl])
  have "f_data (handle (flush_times pk xw)) = f_data (handle xw) @ packed @ trailer"
    using assms(1) fstFwrite_at_end fstWriterUint64_at_end
    by (simp only: flush_times_def Let_def tl tk packed_def [symmetric] uc on_handle_def trailer_def) simp
  then have data: "f_data (xc_f xr) = f_data (handle xw) @ packed @ trailer" using assms(9) by simp
  have N: "?N = length (f_data (handle xw)) + length packed + 24" unfolding data by (simp add: trailer_def)
  let ?p = "length (f_data (handle xw))"
  have "unat (blkpos + seclen - 24) = ?N - 24" using assms(10) N by (simp add: unat_sub word_le_nat_alt)
  then have "blkpos + seclen - 24 = of_nat (?N - 24)" by (rule eq_of_unat)
  then have si: "sint (blkpos + seclen - 24) = int (?N - 24)" using sint_small(2) [of "?N - 24"] assms(11) by simp
  have N24: "?N - 24 = ?p + length packed" using N by simp
  let ?at = "\<lambda>p. xr\<lparr>xc_f := (xc_f xr)\<lparr>f_pos := p, f_eof := False\<rparr>\<rparr>"
  have seek: "fstReaderFseeko xr (xc_f xr) (sint (blkpos + seclen - 24)) SEEK_SET
    = (0, (xc_f xr)\<lparr>f_pos := ?N - 24, f_eof := False\<rparr>, xr)"
    by (simp add: si fstReaderFseeko_def fseeko_def Let_def)
  have rd: "u64_f up (?at p) = (v, ?at (p + 8))" if "drop p (f_data (xc_f xr)) = be_loop 8 v @ rest" for p v rest
    using u64_f_bytes [of "?at p" v rest up] that by simp
  have d1: "drop (?N - 24) (f_data (xc_f xr)) = be_loop 8 (of_nat (length ?t)) @ be_loop 8 (of_nat (length packed)) @ be_loop 8 (of_nat (length ds))"
    unfolding N24 data by (simp add: trailer_def)
  have d2: "drop (?N - 24 + 8) (f_data (xc_f xr)) = be_loop 8 (of_nat (length packed)) @ be_loop 8 (of_nat (length ds))"
    using drop_record [OF d1] by simp
  have d3: "drop (?N - 24 + 8 + 8) (f_data (xc_f xr)) = be_loop 8 (of_nat (length ds)) @ []"
    using drop_record [OF d2] by simp
  have u: "unat (of_nat (length ?t) :: u64) = length ?t" "unat (of_nat (length packed) :: u64) = length packed"
    "unat (of_nat (length ds) :: u64) = length ds"
    using assms(5,6) pl by (simp_all add: of_nat_inverse [OF refl])
  have ok: "\<not> (of_nat (length packed) > seclen \<or> 2 ^ 63 \<le> unat (of_nat (length ?t) :: u64))"
    using assms(6,12) pl u by (simp add: word_less_nat_alt)
  have sp: "sint (of_nat (length packed) :: u64) = int (length packed)" by (rule sint_small(2)) (use assms(6) pl in simp)
  have seek2: "seek_f (- 24 - sint (of_nat (length packed) :: u64)) SEEK_CUR (?at (?N - 24 + 8 + 8 + 8)) = ?at ?p"
    using N unfolding sp by (simp add: seek_f_def fstReaderFseeko_def fseeko_def Let_def nat_diff_distrib')
  have dp: "drop ?p (f_data (xc_f xr)) = packed @ trailer" unfolding data by simp
  have sec: "\<exists>xr'. section_f up (length ?t) (length packed) (?at ?p) = Inr (?t, xr')"
  proof (cases "length ?t = length packed")
    case True
    then have "packed = ?t" by (auto simp: packed_def split: option.splits if_splits)
    then show ?thesis using fill_f_exact [of "?at ?p" ?t trailer "length ?t" up] dp assms(8) by (simp add: section_f_def)
  next
    case False
    then have c: "compress2 pk 9 ?t = Some packed" by (auto simp: packed_def split: option.splits if_splits)
    have "fill_f up (length packed) (?at ?p) = (packed, ?at (?p + length packed))"
      using fill_f_exact [of "?at ?p" packed trailer "length packed" up] dp assms(8) by simp
    then show ?thesis
      using False assms(7) [OF c] assms(8) by (simp add: section_f_def store_n_def)
  qed
  then obtain xr' where xr': "section_f up (length ?t) (length packed) (?at ?p) = Inr (?t, xr')" by blast
  have ni: "(of_nat (length ds) :: u64) * 8 div 8 = of_nat (length ds)"
    using assms(5) u(3) by (simp add: word_unat_eq_iff unat_word_ariths unat_div)
  have ti: "time_items (time_rounds (of_nat (length ds)) ?t) ?t 0 = Inr (sums_from 0 ds)"
    using time_items_varints [of ds "[]" 0] assms(3,5) u(3) by (simp add: time_rounds_def)
  have "read_times up blkpos seclen xr = Inr (Some (of_nat (length packed), of_nat (length ds), sums_from 0 ds), xr')"
    using ok
    by (simp only: read_times_def Let_def seek prod.case rd [OF d1] rd [OF d2] rd [OF d3] u seek2 xr' andthen_simps ni ti)
      simp
  then show ?thesis by blast
qed


definition demo_times :: fstWriterContext where
  "demo_times = writer_zero\<lparr>tchn_handle := \<lparr>f_data = [5, 3], f_pos = 2, f_eof = False\<rparr>, tchn_cnt := 2\<rparr>"

lemma time_table_roundtrip_witness:
  "\<exists>clen xr'. read_times plain_unpackers 1 25
     (reader_zero\<lparr>xc_f := \<lparr>f_data = [5, 3] @ be_loop 8 2 @ be_loop 8 2 @ be_loop 8 2, f_pos = 0, f_eof = False\<rparr>\<rparr>)
   = Inr (Some (clen, 2, [5, 8]), xr')"
proof -
  let ?xr = "reader_zero\<lparr>xc_f := \<lparr>f_data = [5, 3] @ be_loop 8 2 @ be_loop 8 2 @ be_loop 8 2, f_pos = 0, f_eof = False\<rparr>\<rparr>"
  have v: "varint (5 :: u64) = [5]" "varint (3 :: u64) = [3]" by (simp_all add: varint_unfold)
  let ?h = "\<lparr>f_data = [5, 3], f_pos = Suc (Suc 0), f_eof = False\<rparr>"
  have h: "handle (flush_times plain_packers demo_times) = fstWriterUint64 2 (fstWriterUint64 2 (fstWriterUint64 2 ?h))"
    by (simp add: flush_times_def demo_times_def plain_packers_def writer_zero_def on_handle_def Let_def ftello_def
        fstFwrite_def fwrite_bytes_def new_file_def overlay_def)
  have "at_end ?h" by (simp add: at_end_def)
  then have f: "f_data (handle (flush_times plain_packers demo_times)) = f_data (xc_f ?xr)"
    unfolding h by (simp add: fstWriterUint64_at_end)
  have e: "at_end (handle demo_times)" "at_end (tchn_handle demo_times)"
    "f_data (tchn_handle demo_times) = concat (map varint [5, 3 :: u64])" "tchn_cnt demo_times = of_nat (length [5, 3 :: u64])"
    by (simp_all add: demo_times_def writer_zero_def at_end_def new_file_def v)
  have t: "f_data (tchn_handle demo_times) = [5, 3]" by (simp add: demo_times_def)
  have c: "compress2 plain_packers n s = None" for n s by (simp add: plain_packers_def)
  have "\<exists>clen xr'. read_times plain_unpackers 1 25 ?xr
    = Inr (Some (clen, of_nat (length [5, 3 :: u64]), sums_from 0 [5, 3]), xr')"
    by (rule time_table_roundtrip [OF e, where pk = plain_packers])
      (simp_all add: f t c plain_unpackers_def)
  then show ?thesis by simp
qed

end
