(* ===== verification/Rvat.thy ===== *)
theory Rvat
  imports Iter_Blocks
begin

text \<open>
  The value of a handle at a time: \<open>fstReaderGetValueFromHandleAtTime\<close> of \<open>fstapi.c\<close> (lines 6146 to
  6786). The context keeps the block of the last query, with its tables, the run of the last handle
  and the place the last query reached in it.

  Allocations are taken to succeed; what \<open>malloc\<close> returns is taken from \<open>malloc_bytes\<close>. A pointer
  that is null until it is used behind a flag is an empty list until then.
\<close>

section \<open>State\<close>

text \<open>The members of \<open>struct fstReaderContext\<close> that only these functions use, beside the others.\<close>

record rvat =
  rv_xc :: fstReaderContext
  rvat_data_valid :: bool
  rvat_time_table :: "u64 list"
  rvat_beg_tim :: u64
  rvat_end_tim :: u64
  rvat_frame_data :: bytes
  rvat_frame_maxhandle :: u64
  rvat_chain_table :: "u64 list"
  rvat_chain_table_lengths :: "u32 list"
  rvat_vc_maxhandle :: u64
  rvat_vc_start :: nat
  rvat_sig_offs :: "u32 list option"
  rvat_packtype :: int
  rvat_chain_len :: u32
  rvat_chain_mem :: "bytes option"
  rvat_chain_facidx :: u32
  rvat_chain_pos_tidx :: u32
  rvat_chain_pos_idx :: u32
  rvat_chain_pos_time :: u64
  rvat_chain_pos_valid :: bool

definition fstReaderDeallocateRvatData :: "rvat \<Rightarrow> rvat" where
  "fstReaderDeallocateRvatData rv =
     rv\<lparr>rvat_chain_mem := None, rvat_frame_data := [], rvat_time_table := [], rvat_chain_table := [],
        rvat_chain_table_lengths := [], rvat_data_valid := False\<rparr>"

text \<open>Where the value of each handle is in a frame: the sums of the widths before it.\<close>

primrec sig_offs_from :: "u32 \<Rightarrow> u32 list \<Rightarrow> u32 list" where
  "sig_offs_from cur_offs [] = []"
| "sig_offs_from cur_offs (n # ns) = cur_offs # sig_offs_from (cur_offs + n) ns"

definition rvat_offsets :: "rvat \<Rightarrow> rvat outcome" where
  "rvat_offsets rv =
     (let m = unat (fstReaderContext.maxhandle (rv_xc rv))
      in if rvat_sig_offs rv \<noteq> None then Inr rv
         else andthen (load_n (signal_lens (rv_xc rv)) 0 m) (\<lambda>ls.
                Inr (rv\<lparr>rvat_sig_offs := Some (sig_offs_from 0 ls)\<rparr>)))"

section \<open>The block of a time\<close>

text \<open>
  One round of the loop that looks for the block: it ends without one, goes on at another position,
  or ends with a block. At the last time of a block that is not the last time of the file the code
  looks at what follows; what it reads there is taken over as tag and length.
\<close>

datatype look = Look_none | Look_on u64 | Look_block u64 u64 int u64 u64

definition rvat_look :: "unpackers \<Rightarrow> u64 \<Rightarrow> u64 \<Rightarrow> fstReaderContext \<Rightarrow> look \<times> fstReaderContext" where
  "rvat_look up tim prev_blkpos xc =
     (let xc = seek_f (sint prev_blkpos) SEEK_SET xc;
          (sectype, f) = fgetc (xc_f xc); (seclen, xc) = u64_f up (xc\<lparr>xc_f := f\<rparr>)
      in if sectype = -1 \<or> sectype = uint FST_BL_SKIP \<or> seclen = 0 then (Look_none, xc)
         else let blkpos = prev_blkpos + 1
              in if sectype \<notin> {1, 5, 8} then (Look_on (blkpos + seclen), xc)
                 else let (beg_tim, xc) = u64_f up xc; (end_tim, xc) = u64_f up xc
                      in if beg_tim \<le> tim \<and> tim \<le> end_tim
                         then if tim = end_tim \<and> tim \<noteq> end_time xc
                              then let cached_pos = ftello (xc_f xc); xc = seek_f (sint blkpos) SEEK_SET xc;
                                       (sectype, f) = fgetc (xc_f xc); (seclen, xc) = u64_f up (xc\<lparr>xc_f := f\<rparr>);
                                       (beg_tim2, xc) = u64_f up xc; (end_tim2, xc) = u64_f up xc
                                   in if sectype \<notin> {1, 5, 8} \<or> seclen = 0 \<or> beg_tim2 \<noteq> tim
                                      then (Look_block prev_blkpos seclen sectype beg_tim end_tim, xc)
                                      else (Look_block blkpos seclen sectype beg_tim2 end_tim2, seek_f (int cached_pos) SEEK_SET xc)
                              else (Look_block blkpos seclen sectype beg_tim end_tim, xc)
                         else (Look_on (blkpos + seclen), xc))"

text \<open>The loop need not end: \<open>None\<close> is a run for ever. The inner option is the block, if there is one.\<close>

partial_function (option) rvat_find ::
    "unpackers \<Rightarrow> u64 \<Rightarrow> u64 \<Rightarrow> fstReaderContext \<Rightarrow> ((u64 \<times> u64 \<times> int \<times> u64 \<times> u64) option \<times> fstReaderContext) option" where
  "rvat_find up tim blkpos xc =
     (case rvat_look up tim blkpos xc of
        (Look_none, xc) \<Rightarrow> Some (None, xc)
      | (Look_on blkpos, xc) \<Rightarrow> rvat_find up tim blkpos xc
      | (Look_block blkpos seclen sectype beg_tim end_tim, xc) \<Rightarrow>
          Some (Some (blkpos, seclen, sectype, beg_tim, end_tim), xc))"

section \<open>The tables of the block\<close>

text \<open>The times, and \<open>tsec_clen\<close>.\<close>

definition rvat_times :: "unpackers \<Rightarrow> u64 \<Rightarrow> u64 \<Rightarrow> fstReaderContext \<Rightarrow> (u64 \<times> u64 list \<times> fstReaderContext) outcome" where
  "rvat_times up blkpos seclen xc =
     (let xc = seek_f (sint (blkpos + seclen - 24)) SEEK_SET xc;
          (uclen, xc) = u64_f up xc; (clen, xc) = u64_f up xc; (nitems, xc) = u64_f up xc
      in andthen (section_f up (unat uclen) (unat clen) (seek_f (-24 - sint clen) SEEK_CUR xc)) (\<lambda>(ucdata, xc).
         andthen (time_items (time_rounds nitems ucdata) ucdata 0) (\<lambda>ts. Inr (clen, ts, xc))))"

text \<open>The frame of initial values, and what follows it up to the runs.\<close>

definition rvat_frame :: "unpackers \<Rightarrow> u64 \<Rightarrow> rvat \<Rightarrow> rvat outcome" where
  "rvat_frame up blkpos rv =
     andthen (varint64_f (seek_f (sint (blkpos + 32)) SEEK_SET (rv_xc rv))) (\<lambda>(uclen, xc).
     andthen (varint64_f xc) (\<lambda>(clen, xc).
     andthen (varint64_f xc) (\<lambda>(maxh, xc).
     andthen (section_f up (unat uclen) (unat clen) xc) (\<lambda>(data, xc).
     andthen (varint64_f xc) (\<lambda>(vc_maxh, xc).
     let (packtype, f) = fgetc (xc_f xc)
     in Inr (rv\<lparr>rvat_frame_maxhandle := maxh, rvat_frame_data := data, rvat_vc_maxhandle := vc_maxh,
                rvat_vc_start := ftello (xc_f xc), rvat_packtype := packtype, rv_xc := xc\<lparr>xc_f := f\<rparr>\<rparr>))))))"

text \<open>
  The index: as for \<open>fstReaderIterBlocks2\<close>, with fresh tables and with no check of the number of
  handles without a run.
\<close>

definition rvat_zeros :: "u32 \<Rightarrow> chain_idx \<Rightarrow> chain_idx outcome" where
  "rvat_zeros loopcnt st =
     andthen (store_n (ci_table st) (unat (ci_idx st)) (replicate (unat loopcnt) 0)) (\<lambda>table.
       Inr (st\<lparr>ci_table := table, ci_idx := ci_idx st + loopcnt\<rparr>))"

definition rvat_item2 :: "bytes \<Rightarrow> chain_idx \<Rightarrow> (nat \<times> chain_idx) outcome" where
  "rvat_item2 pnt st =
     andthen (load pnt 0) (\<lambda>b.
       if b AND 1 \<noteq> 0
       then andthen (fstGetSVarint64 pnt) (\<lambda>(w, skiplen).
            let shval = signed_drop_bit 1 w
            in andthen (if sint shval > 0 then ci_position shval st
                        else if sint shval < 0
                        then ci_shared (ucast shval) (st\<lparr>ci_alias := ucast shval\<rparr>)
                        else ci_shared (ci_alias st) st) (\<lambda>st. Inr (skiplen, st)))
       else andthen (fstGetVarint32 pnt) (\<lambda>(val, skiplen).
            andthen (rvat_zeros (drop_bit 1 val) st) (\<lambda>st. Inr (skiplen, st))))"

definition rvat_item1 :: "bytes \<Rightarrow> chain_idx \<Rightarrow> (nat \<times> chain_idx) outcome" where
  "rvat_item1 pnt st =
     andthen (fstGetVarint32 pnt) (\<lambda>(val, skiplen).
       if val = 0
       then andthen (fstGetVarint32 (drop skiplen pnt)) (\<lambda>(val, skiplen2).
            andthen (ci_shared (- val) st) (\<lambda>st. Inr (skiplen + skiplen2, st)))
       else if val AND 1 \<noteq> 0
       then andthen (ci_position (ucast (drop_bit 1 val)) st) (\<lambda>st. Inr (skiplen, st))
       else andthen (rvat_zeros (drop_bit 1 val) st) (\<lambda>st. Inr (skiplen, st)))"

definition rvat_index :: "bool \<Rightarrow> u64 \<Rightarrow> u64 \<Rightarrow> bytes \<Rightarrow> chain_idx outcome" where
  "rvat_index dyn_alias2 vc_maxhandle vc_len chain_cmem =
     (let z = unat (vc_maxhandle + 1)
      in andthen (ci_loop (if dyn_alias2 then rvat_item2 else rvat_item1) (Suc (length chain_cmem)) chain_cmem
                   \<lparr>ci_table = replicate z 0, ci_lens = replicate z 0, ci_idx = 0, ci_pidx = 0, ci_pval = 0, ci_alias = 0\<rparr>)
           (ci_finish vc_len))"

definition rvat_chains :: "unpackers \<Rightarrow> int \<Rightarrow> u64 \<Rightarrow> u64 \<Rightarrow> u64 \<Rightarrow> rvat \<Rightarrow> rvat outcome" where
  "rvat_chains up sectype blkpos seclen tsec_clen rv =
     (let indx_pntr = blkpos + seclen - 24 - tsec_clen - 8;
          (chain_clen, xc) = u64_f up (seek_f (sint indx_pntr) SEEK_SET (rv_xc rv));
          indx_pos = indx_pntr - chain_clen;
          (chain_cmem, xc) = fill_f up (unat chain_clen) (seek_f (sint indx_pos) SEEK_SET xc)
      in andthen (rvat_index (sectype = 8) (rvat_vc_maxhandle rv) (indx_pos - of_nat (rvat_vc_start rv)) chain_cmem) (\<lambda>ci.
           Inr (rv\<lparr>rvat_chain_table := ci_table ci, rvat_chain_table_lengths := ci_lens ci, rv_xc := xc\<rparr>)))"

definition rvat_load :: "unpackers \<Rightarrow> (u64 \<times> u64 \<times> int \<times> u64 \<times> u64) \<Rightarrow> rvat \<Rightarrow> rvat outcome" where
  "rvat_load up blk rv =
     (let (blkpos, seclen, sectype, beg_tim, end_tim) = blk;
          rv = rv\<lparr>rvat_beg_tim := beg_tim, rvat_end_tim := end_tim\<rparr>;
          (_, xc) = u64_f up (rv_xc rv)
      in andthen (rvat_times up blkpos seclen xc) (\<lambda>(tsec_clen, ts, xc).
         andthen (rvat_frame up blkpos (rv\<lparr>rvat_time_table := ts, rv_xc := xc\<rparr>)) (\<lambda>rv.
         andthen (rvat_chains up sectype blkpos seclen tsec_clen rv) (\<lambda>rv.
           Inr (rv\<lparr>rvat_data_valid := True\<rparr>)))))"

section \<open>The value\<close>

text \<open>
  What a call leaves: the buffer, and whether it or a null pointer is returned. A double is printed
  with \<open>%.16g\<close>, with an \<open>r\<close> in front when it comes from a run and without when it comes from
  the frame.
\<close>

definition rvat_double :: "(bytes \<Rightarrow> bytes) \<Rightarrow> fstReaderContext \<Rightarrow> bytes \<Rightarrow> bytes \<Rightarrow> bytes \<Rightarrow> bytes outcome" where
  "rvat_double fmt xc prefix srcdata buf =
     store_n buf 0 (snprintf_buf 32 (prefix @ fmt (if double_endian_match xc then srcdata else rev srcdata)))"

definition fstExtractRvatDataFromFrame :: "(bytes \<Rightarrow> bytes) \<Rightarrow> rvat \<Rightarrow> u32 \<Rightarrow> bytes \<Rightarrow> (bool \<times> bytes) outcome" where
  "fstExtractRvatDataFromFrame fmt rv facidx buf =
     (if ucast facidx \<ge> rvat_frame_maxhandle rv then Inr (False, buf)
      else andthen (load (signal_lens (rv_xc rv)) (unat facidx)) (\<lambda>n.
           andthen (case rvat_sig_offs rv of None \<Rightarrow> Inl Null_deref | Some offs \<Rightarrow> load offs (unat facidx)) (\<lambda>p.
           andthen (if n = 1 then andthen (load (rvat_frame_data rv) (unat p)) (\<lambda>b. store_n buf 0 [b, 0])
                    else andthen (load (signal_typs (rv_xc rv)) (unat facidx)) (\<lambda>typ.
                         if typ \<noteq> FST_VT_VCD_REAL
                         then andthen (load_n (rvat_frame_data rv) (unat p) (unat n)) (\<lambda>v. store_n buf 0 (v @ [0]))
                         else andthen (load_n (rvat_frame_data rv) (unat p) 8) (\<lambda>v. rvat_double fmt (rv_xc rv) [] v buf)))
             (\<lambda>buf. Inr (True, buf)))))"

text \<open>Fetching the run of the handle; a compressed one with as many bytes as the index counts.\<close>

definition rvat_fetch :: "unpackers \<Rightarrow> u32 \<Rightarrow> rvat \<Rightarrow> rvat outcome" where
  "rvat_fetch up facidx rv =
     andthen (load (rvat_chain_table rv) (unat facidx)) (\<lambda>offs.
     let xc = seek_f (sint (of_nat (rvat_vc_start rv) + offs)) SEEK_SET (rv_xc rv)
     in andthen (fstReaderVarint32WithSkip (xc_f xc)) (\<lambda>(len, skiplen, f).
        andthen (load (rvat_chain_table_lengths rv) (unat facidx)) (\<lambda>clen.
        let xc = xc\<lparr>xc_f := f\<rparr>
        in andthen (if len \<noteq> 0
                    then let (mc, xc) = fill_f up (unat clen) xc;
                             (out, ok) = unpack_run up (rvat_packtype rv) mc (unat len)
                         in andthen (store_n (malloc_bytes up (unat len)) 0 out) (\<lambda>mu.
                              if ok then Inr (len, mu, xc) else Inl (Exit_code 255))
                    else let destlen = clen - of_nat skiplen;
                             (bs, xc) = read_f (unat (scast destlen :: u64)) xc
                         in andthen (store_n (malloc_bytes up (unat destlen)) 0 bs) (\<lambda>mu. Inr (destlen, mu, xc)))
             (\<lambda>(len, mu, xc). Inr (rv\<lparr>rv_xc := xc, rvat_chain_len := len, rvat_chain_mem := Some mu,
                                       rvat_chain_facidx := facidx\<rparr>)))))"

text \<open>
  The walk along the run: \<open>wk_i\<close> and \<open>wk_tidx\<close> are where it is, \<open>wk_iprev\<close> and \<open>wk_ptidx\<close> where the
  last record not after the time starts, \<open>wk_pvli\<close> its number and \<open>wk_pskip\<close> the length of that.
\<close>

record walk =
  wk_i :: u32
  wk_tidx :: u32
  wk_iprev :: u32
  wk_ptidx :: u32
  wk_pvli :: u32
  wk_pskip :: nat

definition rvat_step :: "u32 \<Rightarrow> bytes \<Rightarrow> u64 list \<Rightarrow> u64 \<Rightarrow> walk \<Rightarrow> (bool \<times> walk) outcome" where
  "rvat_step n mem ts tim w =
     andthen (fstGetVarint32 (drop (unat (wk_i w)) mem)) (\<lambda>(vli, skiplen).
     let tidx = wk_tidx w + rec_delta n vli
     in andthen (load ts (unat tidx)) (\<lambda>t.
        if t \<le> tim
        then Inr (True, \<lparr>wk_i = wk_i w + of_nat skiplen
                           + (if n = 1 then 0 else if vli AND 1 = 0 then (n + 7) div 8 else n),
                         wk_tidx = tidx, wk_iprev = wk_i w, wk_ptidx = wk_tidx w, wk_pvli = vli, wk_pskip = skiplen\<rparr>)
        else Inr (False, w)))"

text \<open>The loop need not end: \<open>None\<close> is a run for ever.\<close>

partial_function (option) rvat_walk ::
    "u32 \<Rightarrow> bytes \<Rightarrow> u64 list \<Rightarrow> u64 \<Rightarrow> u32 \<Rightarrow> walk \<Rightarrow> walk outcome option" where
  "rvat_walk n mem ts tim len w =
     (if wk_i w < len
      then (case rvat_step n mem ts tim w of
              Inl e \<Rightarrow> Some (Inl e)
            | Inr (go, w') \<Rightarrow> if go then rvat_walk n mem ts tim len w' else Some (Inr w'))
      else Some (Inr w))"

text \<open>The value of the record the walk stopped at.\<close>

definition rvat_value :: "(bytes \<Rightarrow> bytes) \<Rightarrow> fstReaderContext \<Rightarrow> u32 \<Rightarrow> u32 \<Rightarrow> bytes \<Rightarrow> walk \<Rightarrow> bytes \<Rightarrow> bytes outcome" where
  "rvat_value fmt xc facidx n mem w buf =
     (let vdata = unat (wk_iprev w) + wk_pskip w; packed = wk_pvli w AND 1 = 0
      in if n = 1 then store_n buf 0 [rec_char (wk_pvli w), 0]
         else andthen (load (signal_typs xc) (unat facidx)) (\<lambda>typ.
              if typ \<noteq> FST_VT_VCD_REAL
              then andthen (if packed then rec_digits (unat n) (drop vdata mem) else load_n mem vdata (unat n)) (\<lambda>v.
                     store_n buf 0 (v @ [0]))
              else andthen (if packed then rec_digits 8 (drop vdata mem) else load_n mem vdata 8) (\<lambda>v.
                     rvat_double fmt xc (c_lit ''r'') v buf)))"

text \<open>The walk with its start, and what is remembered of its end.\<close>

definition rvat_start :: "u64 \<Rightarrow> rvat \<Rightarrow> walk \<times> rvat" where
  "rvat_start tim rv =
     (let w = \<lparr>wk_i = 0, wk_tidx = 0, wk_iprev = rvat_chain_len rv, wk_ptidx = 0, wk_pvli = 0, wk_pskip = 0\<rparr>
      in if rvat_chain_pos_valid rv \<and> tim \<ge> rvat_chain_pos_time rv
         then (w\<lparr>wk_i := rvat_chain_pos_idx rv, wk_tidx := rvat_chain_pos_tidx rv\<rparr>, rv)
         else (w, rv\<lparr>rvat_chain_pos_time := rvat_beg_tim rv\<rparr>))"

definition rvat_run :: "(bytes \<Rightarrow> bytes) \<Rightarrow> u64 \<Rightarrow> u32 \<Rightarrow> bytes \<Rightarrow> rvat \<Rightarrow> (bool \<times> bytes \<times> rvat) outcome option" where
  "rvat_run fmt tim facidx buf rv =
     (let (w, rv) = rvat_start tim rv; mem = (case rvat_chain_mem rv of None \<Rightarrow> [] | Some mem \<Rightarrow> mem)
      in case load (signal_lens (rv_xc rv)) (unat facidx) of
           Inl e \<Rightarrow> Some (Inl e)
         | Inr n \<Rightarrow>
             (case rvat_walk n mem (rvat_time_table rv) tim (rvat_chain_len rv) w of
                None \<Rightarrow> None
              | Some r \<Rightarrow> Some (andthen r (\<lambda>w.
                  if wk_iprev w \<noteq> rvat_chain_len rv
                  then andthen (rvat_value fmt (rv_xc rv) facidx n mem w buf) (\<lambda>buf.
                         Inr (True, buf, rv\<lparr>rvat_chain_pos_tidx := wk_ptidx w, rvat_chain_pos_idx := wk_iprev w,
                                            rvat_chain_pos_time := tim, rvat_chain_pos_valid := True\<rparr>))
                  else andthen (fstExtractRvatDataFromFrame fmt rv facidx buf) (\<lambda>(ret, buf). Inr (ret, buf, rv))))))"

text \<open>From \<open>process_value\<close> on.\<close>

definition process_value ::
    "unpackers \<Rightarrow> (bytes \<Rightarrow> bytes) \<Rightarrow> u64 \<Rightarrow> u32 \<Rightarrow> bytes \<Rightarrow> rvat \<Rightarrow> (bool \<times> bytes \<times> rvat) outcome option" where
  "process_value up fmt tim facidx buf rv =
     (if ucast facidx > rvat_vc_maxhandle rv then Some (Inr (False, buf, rv))
      else let facidx = facidx - 1
           in case load (rvat_chain_table rv) (unat facidx) of
                Inl e \<Rightarrow> Some (Inl e)
              | Inr offs \<Rightarrow>
                  if offs = 0
                  then Some (andthen (fstExtractRvatDataFromFrame fmt rv facidx buf) (\<lambda>(ret, buf). Inr (ret, buf, rv)))
                  else let rv = (if facidx \<noteq> rvat_chain_facidx rv \<and> rvat_chain_mem rv \<noteq> None
                                 then rv\<lparr>rvat_chain_mem := None, rvat_chain_pos_valid := False\<rparr> else rv)
                       in case (if rvat_chain_mem rv = None then rvat_fetch up facidx rv else Inr rv) of
                            Inl e \<Rightarrow> Some (Inl e)
                          | Inr rv \<Rightarrow> rvat_run fmt tim facidx buf rv)"

text \<open>
  \<open>fstReaderGetValueFromHandleAtTime\<close> on a context and a buffer that are there. \<open>fmt\<close> is the text of a
  double.
\<close>

definition fstReaderGetValueFromHandleAtTime ::
    "unpackers \<Rightarrow> (bytes \<Rightarrow> bytes) \<Rightarrow> u64 \<Rightarrow> u32 \<Rightarrow> bytes \<Rightarrow> rvat \<Rightarrow> (bool \<times> bytes \<times> rvat) outcome option" where
  "fstReaderGetValueFromHandleAtTime up fmt tim facidx buf rv =
     (if facidx = 0 \<or> facidx > fstReaderContext.maxhandle (rv_xc rv) then Some (Inr (False, buf, rv))
      else case load (signal_lens (rv_xc rv)) (unat (facidx - 1)) of
             Inl e \<Rightarrow> Some (Inl e)
           | Inr n \<Rightarrow>
             if n = 0 then Some (Inr (False, buf, rv))
             else (case rvat_offsets rv of
                     Inl e \<Rightarrow> Some (Inl e)
                   | Inr rv \<Rightarrow>
                       if rvat_data_valid rv \<and> rvat_beg_tim rv \<le> tim \<and> tim \<le> rvat_end_tim rv
                       then process_value up fmt tim facidx buf rv
                       else let rv = (if rvat_data_valid rv then fstReaderDeallocateRvatData rv else rv)\<lparr>rvat_chain_pos_valid := False\<rparr>
                            in case rvat_find up tim 0 (rv_xc rv) of
                                 None \<Rightarrow> None
                               | Some (None, xc) \<Rightarrow> Some (Inr (False, buf, rv\<lparr>rv_xc := xc\<rparr>))
                               | Some (Some blk, xc) \<Rightarrow>
                                   (case rvat_load up blk (rv\<lparr>rv_xc := xc\<rparr>) of
                                      Inl e \<Rightarrow> Some (Inl e)
                                    | Inr rv \<Rightarrow> process_value up fmt tim facidx buf rv)))"

end
