(* ===== verification/Rvat_Walk.thy ===== *)
theory Rvat_Walk
  imports Rvat Block_Roundtrip
begin

text \<open>
  Queries on a loaded block: the walk along a run ends at the last change that is not after the time,
  whatever place an earlier query left it at.
\<close>

section \<open>The walk\<close>

text \<open>The changes up to a time, and where the walk is after them.\<close>

definition n_until :: "u64 list \<Rightarrow> u64 \<Rightarrow> nat \<Rightarrow> changes \<Rightarrow> nat" where
  "n_until ts tim b cs = length (takeWhile (\<lambda>(t, v). ts ! t \<le> tim) (at_times b cs))"

lemma n_until_simps [simp]:
  "n_until ts tim b [] = 0"
  "n_until ts tim b ((d, v) # cs) = (if ts ! (b + unat d) \<le> tim then Suc (n_until ts tim (b + unat d) cs) else 0)"
  by (simp_all add: n_until_def)

definition passed :: "u32 \<Rightarrow> nat \<Rightarrow> nat \<Rightarrow> changes \<Rightarrow> nat \<Rightarrow> walk \<Rightarrow> bool" where
  "passed n a b cs k w \<longleftrightarrow>
     (\<exists>cs1 c cs2. cs = cs1 @ c # cs2 \<and> length cs1 = k \<and> wk_iprev w = of_nat (a + length (enc_run n cs1))
        \<and> wk_ptidx w = of_nat (sum_from b cs1) \<and> wk_pvli w = rec_head n c \<and> wk_pskip w = length (varint (rec_head n c)))"

lemma passed_Cons:
  "passed n (a + length (enc_rec n (d, v))) (b + unat d) cs k w \<Longrightarrow> passed n a b ((d, v) # cs) (Suc k) w"
  unfolding passed_def
  by (elim exE conjE, rule_tac x = "(d, v) # cs1" in exI, rule_tac x = c in exI, rule_tac x = cs2 in exI)
    (simp add: sum_from_def add.assoc)

text \<open>The bytes of a record behind its number, as the walk counts them.\<close>

lemma skip_record:
  assumes "val_ok n v" and "n \<noteq> 0" and "unat n + 7 < 2 ^ 32" and "length (enc_rec n (d, v)) < 2 ^ 32"
  shows "of_nat (length (varint (rec_head n (d, v))))
    + (if n = 1 then 0 else if rec_head n (d, v) AND 1 = 0 then (n + 7) div 8 else n) = (of_nat (length (enc_rec n (d, v))) :: u32)"
proof (cases "n = 1")
  case True
  then show ?thesis by (simp add: enc_rec_def rec_head_def)
next
  case False
  have l: "length v = unat n" using assms(1,2) False by (simp add: val_ok_def)
  show ?thesis
  proof (cases "is_binary v")
    case True
    have "unat ((n + 7) div 8) = (unat n + 7) div 8" using assms(3) by (simp add: unat_div unat_word_ariths)
    then have "(n + 7) div 8 = of_nat ((unat n + 7) div 8)" by (rule eq_of_unat)
    then show ?thesis
      using True False assms(2) length_pack_bits [OF assms(3), of v] low_bit_1(1) [of d]
      by (simp add: enc_rec_def rec_head_def)
  next
    case 2: False
    then show ?thesis using False assms(2) l low_bit_1(2) [of d] by (simp add: enc_rec_def rec_head_def)
  qed
qed

lemma walk_run:
  assumes "mem = A @ enc_run n cs" and "recs_ok n cs" and "n \<noteq> 0" and "length mem < 2 ^ 32"
    and "\<forall>(t, v) \<in> set (at_times b cs). t < length ts" and "length ts < 2 ^ 32"
    and "wk_i w = of_nat (length A)" and "wk_tidx w = of_nat b"
  shows "\<exists>w'. rvat_walk n mem ts tim (of_nat (length mem)) w = Some (Inr w')
    \<and> (if n_until ts tim b cs = 0 then w' = w else passed n (length A) b cs (n_until ts tim b cs - 1) w')"
  using assms
proof (induction cs arbitrary: A b w)
  case Nil
  then show ?case by (subst rvat_walk.simps) simp
next
  case (Cons c cs)
  obtain d v where c: "c = (d, v)" by (cases c)
  have ok: "val_ok n v" "delta_ok n d" "recs_ok n cs" "unat n + 7 < 2 ^ 32" using Cons.prems(2) by (auto simp: c recs_ok_def)
  have t: "b + unat d < length ts" using Cons.prems(5) by (simp add: c)
  have lr: "0 < length (enc_rec n c)" by (rule length_enc_rec_pos)
  have lm: "length mem = length A + length (enc_rec n c) + length (enc_run n cs)" using Cons.prems(1) by simp
  have la: "unat (of_nat (length A) :: u32) = length A" by (rule unat_of_nat_32) (use lm Cons.prems(4) in simp)
  have lt: "wk_i w < of_nat (length mem)"
    using la lr lm Cons.prems(4,7) unat_of_nat_32 [of "length mem"] by (simp add: word_less_nat_alt)
  have dm: "drop (unat (wk_i w)) mem = enc_rec n c @ enc_run n cs" using Cons.prems(1,7) la by simp
  have get: "fstGetVarint32 (drop (unat (wk_i w)) mem) = Inr (rec_head n c, length (varint (rec_head n c)))"
    unfolding dm by (rule enc_rec_reads(1))
  have tx: "wk_tidx w + rec_delta n (rec_head n c) = of_nat (b + unat d)"
    using rec_delta_head [OF ok(2)] Cons.prems(8) by (simp add: c)
  have ut: "unat (of_nat (b + unat d) :: u32) = b + unat d" by (rule unat_of_nat_32) (use t Cons.prems(6) in simp)
  have ld: "load ts (unat (of_nat (b + unat d) :: u32)) = Inr (ts ! (b + unat d))" unfolding ut using t by simp
  define w1 where "w1 = \<lparr>wk_i = of_nat (length (A @ enc_rec n c)), wk_tidx = of_nat (b + unat d), wk_iprev = of_nat (length A),
    wk_ptidx = of_nat b, wk_pvli = rec_head n c, wk_pskip = length (varint (rec_head n c))\<rparr>"
  have sk: "wk_i w + of_nat (length (varint (rec_head n c)))
      + (if n = 1 then 0 else if rec_head n c AND 1 = 0 then (n + 7) div 8 else n) = of_nat (length (A @ enc_rec n c))"
  proof -
    have "of_nat (length (varint (rec_head n c)))
      + (if n = 1 then 0 else if rec_head n c AND 1 = 0 then (n + 7) div 8 else n) = (of_nat (length (enc_rec n c)) :: u32)"
      unfolding c by (rule skip_record [OF ok(1) Cons.prems(3) ok(4)]) (use lm Cons.prems(4) in \<open>simp add: c\<close>)
    then show ?thesis by (simp only: Cons.prems(7) add.assoc length_append of_nat_add)
  qed
  have step: "rvat_step n mem ts tim w = Inr (if ts ! (b + unat d) \<le> tim then (True, w1) else (False, w))"
    unfolding rvat_step_def get andthen_simps prod.case Let_def ld sk tx
    using Cons.prems(7,8) by (simp add: w1_def del: of_nat_add length_append)
  show ?case
  proof (cases "ts ! (b + unat d) \<le> tim")
    case False
    then show ?thesis using lt step by (subst rvat_walk.simps) (simp add: c)
  next
    case True
    have "mem = (A @ enc_rec n c) @ enc_run n cs" using Cons.prems(1) by simp
    moreover have "\<forall>(t, v) \<in> set (at_times (b + unat d) cs). t < length ts" using Cons.prems(5) by (simp add: c)
    ultimately obtain w' where w': "rvat_walk n mem ts tim (of_nat (length mem)) w1 = Some (Inr w')"
      "if n_until ts tim (b + unat d) cs = 0 then w' = w1
       else passed n (length (A @ enc_rec n c)) (b + unat d) cs (n_until ts tim (b + unat d) cs - 1) w'"
      using Cons.IH [of "A @ enc_rec n c" "b + unat d" w1] ok(3) Cons.prems(3,4,6) by (auto simp: w1_def)
    have "rvat_walk n mem ts tim (of_nat (length mem)) w = Some (Inr w')"
      using lt step True w'(1) by (subst rvat_walk.simps) simp
    moreover have "passed n (length A) b (c # cs) (n_until ts tim (b + unat d) cs) w'"
    proof (cases "n_until ts tim (b + unat d) cs = 0")
      case True
      then have "w' = w1" using w'(2) by simp
      then show ?thesis using True
        by (auto simp: passed_def w1_def c sum_from_def intro!: exI [of _ "[]"])
    next
      case False
      then show ?thesis using passed_Cons [of n "length A" d v b cs "n_until ts tim (b + unat d) cs - 1"] w'(2) by (simp add: c)
    qed
    ultimately show ?thesis using True by (auto simp: c)
  qed
qed


section \<open>The last change before a time\<close>

text \<open>Histories are kept newest first.\<close>

definition value_before :: "u64 list \<Rightarrow> u64 \<Rightarrow> (u32 \<times> bytes) list \<Rightarrow> bytes option" where
  "value_before ts tim hist = map_option snd (List.find (\<lambda>(t, v). ts ! unat t \<le> tim) hist)"

lemma find_last: "List.find P xs = (if filter P xs = [] then None else Some (last (filter P (rev xs))))"
proof -
  have "List.find P xs = (case filter P xs of [] \<Rightarrow> None | y # _ \<Rightarrow> Some y)" by (induction xs) auto
  then show ?thesis by (cases "filter P xs") (auto simp: rev_filter [symmetric])
qed

lemma map_snd_at_times: "map snd (at_times b cs) = map snd cs"
  by (induction b cs rule: at_times.induct) auto

lemma sorted_at_times: "(\<forall>(t, v) \<in> set (at_times b cs). b \<le> t) \<and> sorted (map fst (at_times b cs))"
proof (induction b cs rule: at_times.induct)
  case (2 b d v cs)
  then show ?case by fastforce
qed simp

lemma at_times_until:
  assumes "sorted ts" and "\<forall>(t, v) \<in> set (at_times b cs). t < length ts"
  shows "takeWhile (\<lambda>(t, v). ts ! t \<le> tim) (at_times b cs) = filter (\<lambda>(t, v). ts ! t \<le> tim) (at_times b cs)"
  using assms(2)
proof (induction b cs rule: at_times.induct)
  case (2 b d v cs)
  have later: "\<forall>(t, v) \<in> set (at_times (b + unat d) cs). ts ! (b + unat d) \<le> ts ! t"
    using sorted_at_times [of "b + unat d" cs] 2(2) assms(1) by (fastforce intro: sorted_nth_mono)
  show ?case
  proof (cases "ts ! (b + unat d) \<le> tim")
    case True
    then show ?thesis using 2 by simp
  next
    case False
    then have "\<forall>x \<in> set (at_times (b + unat d) cs). \<not> (case x of (t, v) \<Rightarrow> ts ! t \<le> tim)"
      using later by (auto intro: order_trans)
    then have "filter (\<lambda>(t, v). ts ! t \<le> tim) (at_times (b + unat d) cs) = []" by (intro filter_False)
    then show ?thesis using False by simp
  qed
qed simp

lemma value_before_nth:
  assumes "sorted ts" and "hist_fits (length ts) hist"
  defines "R \<equiv> rev (deltas hist)"
  shows "value_before ts tim hist = (if n_until ts tim 0 R = 0 then None else Some (snd (R ! (n_until ts tim 0 R - 1))))"
    and "n_until ts tim 0 R \<le> length R"
proof -
  let ?P = "\<lambda>(t, v). ts ! t \<le> tim" and ?Q = "\<lambda>(t :: u32, v). ts ! unat t \<le> tim" and ?xs = "at_times 0 R"
  have xs: "?xs = shown_of hist" using at_times_deltas assms(2) by (simp add: R_def hist_fits_def)
  have lt: "\<forall>(t, v) \<in> set ?xs. t < length ts" using assms(2) by (auto simp: xs shown_of_def hist_fits_def)
  have tw: "takeWhile ?P ?xs = filter ?P ?xs" by (rule at_times_until [OF assms(1) lt])
  have ln: "length ?xs = length R" using arg_cong [OF map_snd_at_times [of 0 R], of length] by simp
  show le: "n_until ts tim 0 R \<le> length R"
    using length_takeWhile_le [of ?P ?xs] ln by (simp add: n_until_def)
  have fq: "filter ?P ?xs = map (\<lambda>(t, v). (unat t, v)) (filter ?Q (rev hist))"
    unfolding xs shown_of_def by (simp add: filter_map comp_def split_def)
  have k: "n_until ts tim 0 R = length (filter ?Q (rev hist))" by (simp add: n_until_def tw fq)
  have k0: "filter ?Q hist = [] \<longleftrightarrow> n_until ts tim 0 R = 0" unfolding k by (simp add: rev_filter [symmetric])
  show "value_before ts tim hist = (if n_until ts tim 0 R = 0 then None else Some (snd (R ! (n_until ts tim 0 R - 1))))"
  proof (cases "n_until ts tim 0 R = 0")
    case True
    then show ?thesis using k0 find_last [of ?Q hist] by (simp add: value_before_def)
  next
    case False
    let ?k = "n_until ts tim 0 R"
    have ne: "filter ?Q (rev hist) \<noteq> []" using False k by auto
    have kk: "?k - 1 < length (takeWhile ?P ?xs)" using False by (simp add: n_until_def)
    have "snd (R ! (?k - 1)) = snd (?xs ! (?k - 1))"
      using False le ln map_snd_at_times [of 0 R] by (metis One_nat_def Suc_pred less_eq_Suc_le neq0_conv nth_map)
    also have "\<dots> = snd (takeWhile ?P ?xs ! (?k - 1))" using takeWhile_nth [OF kk] by simp
    also have "\<dots> = snd (last (takeWhile ?P ?xs))" using kk by (subst last_conv_nth) (auto simp: n_until_def)
    also have "\<dots> = snd (last (filter ?Q (rev hist)))" unfolding tw fq using ne by (simp add: last_map case_prod_beta)
    finally show ?thesis using False k0 find_last [of ?Q hist] by (simp add: value_before_def)
  qed
qed


section \<open>The value of a record\<close>

text \<open>The string in the buffer: a double as \<open>printf\<close> writes it, everything else as it is.\<close>

definition shown_text :: "(bytes \<Rightarrow> bytes) \<Rightarrow> fstReaderContext \<Rightarrow> u8 \<Rightarrow> u32 \<Rightarrow> bytes \<Rightarrow> bytes \<Rightarrow> bytes" where
  "shown_text fmt xc typ n prefix v =
     (if n \<noteq> 1 \<and> typ = FST_VT_VCD_REAL
      then snprintf_buf 32 (prefix @ fmt (if double_endian_match xc then v else rev v)) else v @ [0])"

definition in_buffer :: "bytes \<Rightarrow> bytes \<Rightarrow> bytes" where
  "in_buffer s buf = s @ drop (length s) buf"

lemma store_in_buffer: "length s \<le> length buf \<Longrightarrow> store_n buf 0 s = Inr (in_buffer s buf)"
  by (simp add: store_n_def in_buffer_def)

lemma value_reached:
  assumes mem: "drop (unat (wk_iprev w)) mem = enc_rec n (d, v) @ rest"
    and w: "wk_pvli w = rec_head n (d, v)" "wk_pskip w = length (varint (rec_head n (d, v)))"
    and ok: "val_ok n v" "delta_ok n d" "unat n + 7 < 2 ^ 32" "n \<noteq> 0"
    and ty: "unat facidx < length (signal_typs xc)" "n \<noteq> 1 \<and> signal_typs xc ! unat facidx = FST_VT_VCD_REAL \<longrightarrow> n = 8"
    and s_def: "s = shown_text fmt xc (signal_typs xc ! unat facidx) n (c_lit ''r'') (norm_val n v)"
    and room: "length s \<le> length buf"
  shows "rvat_value fmt xc facidx n mem w buf = Inr (in_buffer s buf)"
proof -
  note rv = rec_value_enc [OF ok(1-3), of rest, folded mem]
  have get: "fstGetVarint32 (drop (unat (wk_iprev w)) mem) = Inr (wk_pvli w, wk_pskip w)"
    unfolding mem w by (rule enc_rec_reads(1))
  show ?thesis
  proof (cases "n = 1")
    case True
    then have "[rec_char (wk_pvli w)] = norm_val n v" using rv by (auto simp: rec_value_def get)
    then have "s = [rec_char (wk_pvli w), 0]" using True by (simp add: s_def shown_text_def flip: append_Cons)
    then show ?thesis using True store_in_buffer [OF room] by (simp add: rvat_value_def)
  next
    case False
    let ?vd = "unat (wk_iprev w) + wk_pskip w" and ?get = "\<lambda>k. if wk_pvli w AND 1 = 0
      then rec_digits k (drop (unat (wk_iprev w) + wk_pskip w) mem) else load_n mem (unat (wk_iprev w) + wk_pskip w) k"
    have ld: "load_n (drop a mem) b k = Inr y \<Longrightarrow> k > 0 \<Longrightarrow> load_n mem (a + b) k = Inr y" for a b k y
      by (auto simp: load_n_def add.commute split: if_splits)
    have "0 < unat n" using ok(4) by (simp add: unat_gt_0)
    then have v: "?get (unat n) = Inr (norm_val n v)"
      using rv False ok(4) ld [of "unat (wk_iprev w)" "wk_pskip w"]
      by (auto simp: rec_value_def get andthen_eq_Inr add.commute split: if_splits)
    show ?thesis
    proof (cases "signal_typs xc ! unat facidx = FST_VT_VCD_REAL")
      case True
      then have n: "unat n = 8" using ty(2) False by simp
      have "s = snprintf_buf 32 (c_lit ''r'' @ fmt (if double_endian_match xc then norm_val n v else rev (norm_val n v)))"
        using True False by (simp add: s_def shown_text_def)
      then show ?thesis
        using v n True False ty(1) store_in_buffer [OF room]
        by (cases "wk_pvli w AND 1 = 0") (simp_all add: rvat_value_def rvat_double_def Let_def split del: if_split)
    next
      case 2: False
      then have "s = norm_val n v @ [0]" by (simp add: s_def shown_text_def)
      then show ?thesis
        using v 2 False ty(1) store_in_buffer [OF room]
        by (cases "wk_pvli w AND 1 = 0") (simp_all add: rvat_value_def Let_def)
    qed
  qed
qed


section \<open>Queries on a loaded block\<close>

abbreviation (input) chg :: "(u32 \<times> bytes) list \<Rightarrow> changes" where "chg hist \<equiv> rev (deltas hist)"

definition chain_tables :: "rvat \<Rightarrow> chain_idx" where
  "chain_tables rv = no_tables\<lparr>ci_table := rvat_chain_table rv, ci_lens := rvat_chain_table_lengths rv\<rparr>"

text \<open>The tables name the runs of the histories \<open>G\<close> of the first \<open>m\<close> handles.\<close>

definition block_loaded :: "unpackers \<Rightarrow> nat \<Rightarrow> (nat \<Rightarrow> (u32 \<times> bytes) list) \<Rightarrow> rvat \<Rightarrow> bool" where
  "block_loaded up m G rv \<longleftrightarrow>
     (let xc = rv_xc rv; lens = signal_lens xc; ts = rvat_time_table rv
      in rvat_data_valid rv \<and> unat (rvat_vc_maxhandle rv) = m \<and> m \<le> length lens \<and> m \<le> length (signal_typs xc) \<and> m < 2 ^ 31
         \<and> sorted ts \<and> length ts < 2 ^ 32
         \<and> (\<forall>x < m. hist_fits (length ts) (G x)
              \<and> (lens ! x \<noteq> 1 \<and> signal_typs xc ! x = FST_VT_VCD_REAL \<longrightarrow> lens ! x = 8)
              \<and> block_holds up (f_data (xc_f xc)) (rvat_vc_start rv) (rvat_packtype rv) (chain_tables rv) lens (length ts)
                  (\<lambda>x. chg (G x)) x))"

text \<open>The run that is kept, and the place in it.\<close>

definition place_ok :: "u32 \<Rightarrow> changes \<Rightarrow> u64 list \<Rightarrow> u32 \<Rightarrow> u32 \<Rightarrow> u64 \<Rightarrow> bool" where
  "place_ok n R ts idx tidx tim \<longleftrightarrow>
     (\<exists>cs1 c cs2. R = cs1 @ c # cs2 \<and> idx = of_nat (length (enc_run n cs1)) \<and> tidx = of_nat (sum_from 0 cs1)
        \<and> ts ! sum_from 0 (cs1 @ [c]) \<le> tim)"

definition cache_ok :: "nat \<Rightarrow> (nat \<Rightarrow> (u32 \<times> bytes) list) \<Rightarrow> rvat \<Rightarrow> bool" where
  "cache_ok m G rv \<longleftrightarrow>
     (case rvat_chain_mem rv of
        None \<Rightarrow> \<not> rvat_chain_pos_valid rv
      | Some mem \<Rightarrow>
          (let x = unat (rvat_chain_facidx rv); n = signal_lens (rv_xc rv) ! x
           in x < m \<and> G x \<noteq> [] \<and> mem = run_of n (G x) \<and> length mem < 2 ^ 32 \<and> rvat_chain_len rv = of_nat (length mem)
              \<and> (rvat_chain_pos_valid rv \<longrightarrow>
                   place_ok n (chg (G x)) (rvat_time_table rv) (rvat_chain_pos_idx rv) (rvat_chain_pos_tidx rv)
                     (rvat_chain_pos_time rv))))"

text \<open>What a query leaves alone.\<close>

definition same_block :: "rvat \<Rightarrow> rvat \<Rightarrow> bool" where
  "same_block rv rv' \<longleftrightarrow>
     (\<exists>f l cm fi pt pi tm pv. f_data f = f_data (xc_f (rv_xc rv))
        \<and> rv' = rv\<lparr>rv_xc := (rv_xc rv)\<lparr>xc_f := f\<rparr>, rvat_chain_len := l, rvat_chain_mem := cm, rvat_chain_facidx := fi,
                    rvat_chain_pos_tidx := pt, rvat_chain_pos_idx := pi, rvat_chain_pos_time := tm, rvat_chain_pos_valid := pv\<rparr>)"

lemma same_blockD:
  assumes "same_block rv rv'"
  shows "block_loaded up m G rv' = block_loaded up m G rv"
    and "fstExtractRvatDataFromFrame fmt rv' x buf = fstExtractRvatDataFromFrame fmt rv x buf"
    and "signal_lens (rv_xc rv') = signal_lens (rv_xc rv)" and "signal_typs (rv_xc rv') = signal_typs (rv_xc rv)"
    and "rvat_time_table rv' = rvat_time_table rv" and "rvat_beg_tim rv' = rvat_beg_tim rv" and "rvat_end_tim rv' = rvat_end_tim rv"
    and "fstReaderContext.maxhandle (rv_xc rv') = fstReaderContext.maxhandle (rv_xc rv)" and "rvat_sig_offs rv' = rvat_sig_offs rv"
    and "f_data (xc_f (rv_xc rv')) = f_data (xc_f (rv_xc rv))" and "rvat_data_valid rv' = rvat_data_valid rv"
    and "shown_text fmt (rv_xc rv') = shown_text fmt (rv_xc rv)"
  using assms
  by (auto simp: same_block_def block_loaded_def chain_tables_def fstExtractRvatDataFromFrame_def rvat_double_def Let_def
      shown_text_def [abs_def] cong: if_cong)

lemma same_block_refl: "same_block rv rv"
  unfolding same_block_def
  by (intro exI [of _ "xc_f (rv_xc rv)"] exI [of _ "rvat_chain_len rv"] exI [of _ "rvat_chain_mem rv"]
      exI [of _ "rvat_chain_facidx rv"] exI [of _ "rvat_chain_pos_tidx rv"] exI [of _ "rvat_chain_pos_idx rv"]
      exI [of _ "rvat_chain_pos_time rv"] exI [of _ "rvat_chain_pos_valid rv"]) simp

lemma same_block_trans: "same_block rv rv1 \<Longrightarrow> same_block rv1 rv2 \<Longrightarrow> same_block rv rv2"
  unfolding same_block_def by (elim exE conjE) (intro exI conjI; force)


lemma at_times_split: "at_times b (cs1 @ (d, v) # cs2) = at_times b cs1 @ (sum_from b (cs1 @ [(d, v)]), v) # at_times (sum_from b (cs1 @ [(d, v)])) cs2"
  by (simp add: at_times_append) (simp add: sum_from_def add.assoc)

lemma length_at_times [simp]: "length (at_times b cs) = length cs"
  using arg_cong [OF map_snd_at_times [of b cs], of length] by simp

text \<open>The record at a place: the bytes of its start, and the index before it.\<close>

definition stands :: "u32 \<Rightarrow> changes \<Rightarrow> u64 list \<Rightarrow> u64 \<Rightarrow> bytes \<Rightarrow> walk \<Rightarrow> bool" where
  "stands n R ts tim v w \<longleftrightarrow>
     (\<exists>cs1 d cs2. R = cs1 @ (d, v) # cs2 \<and> wk_iprev w = of_nat (length (enc_run n cs1)) \<and> wk_ptidx w = of_nat (sum_from 0 cs1)
        \<and> wk_pvli w = rec_head n (d, v) \<and> wk_pskip w = length (varint (rec_head n (d, v)))
        \<and> ts ! sum_from 0 (cs1 @ [(d, v)]) \<le> tim)"

lemma n_until_later:
  assumes "sorted ts" and "\<forall>(t, v) \<in> set (at_times 0 (cs0 @ cs)). t < length ts"
    and "cs0 = [] \<or> (\<exists>c cs2. cs = c # cs2 \<and> ts ! sum_from 0 (cs0 @ [c]) \<le> tim)"
  shows "n_until ts tim 0 (cs0 @ cs) = length cs0 + n_until ts tim (sum_from 0 cs0) cs"
proof (cases "cs0 = []")
  case False
  then obtain d v cs2 where c: "cs = (d, v) # cs2" and t: "ts ! sum_from 0 (cs0 @ [(d, v)]) \<le> tim"
    using assms(3) by (metis surj_pair)
  let ?j = "sum_from 0 (cs0 @ [(d, v)])"
  have "sorted (map fst (at_times 0 cs0 @ (?j, v) # at_times ?j cs2))"
    using sorted_at_times [of 0 "cs0 @ cs"] at_times_split [of 0 cs0 d v cs2] by (simp only: c)
  then have le: "\<forall>x \<in> set (at_times 0 cs0). fst x \<le> ?j" by (simp add: sorted_append)
  have "?j < length ts" using assms(2) unfolding c at_times_split by simp
  then have "\<forall>x \<in> set (at_times 0 cs0). case x of (t, v) \<Rightarrow> ts ! t \<le> tim"
    using le order_trans [OF sorted_nth_mono [OF assms(1)] t] by fastforce
  then show ?thesis by (simp add: n_until_def at_times_append takeWhile_append2)
qed (simp add: sum_from_def)

lemma walk_total:
  assumes ts: "sorted ts" "length ts < 2 ^ 32" and fits: "hist_fits (length ts) hist"
    and ok: "recs_ok n (chg hist)" "n \<noteq> 0" and mem: "length (run_of n hist) < 2 ^ 32"
    and split: "chg hist = cs0 @ cs" and w: "wk_i w = of_nat (length (enc_run n cs0))" "wk_tidx w = of_nat (sum_from 0 cs0)"
    and before: "cs0 = [] \<or> (\<exists>c cs2. cs = c # cs2 \<and> ts ! sum_from 0 (cs0 @ [c]) \<le> tim)"
  shows "\<exists>w'. rvat_walk n (run_of n hist) ts tim (of_nat (length (run_of n hist))) w = Some (Inr w')
    \<and> (case value_before ts tim hist of None \<Rightarrow> cs0 = [] \<and> w' = w | Some v \<Rightarrow> stands n (chg hist) ts tim v w')"
proof -
  let ?k = "n_until ts tim 0 (chg hist)" and ?b = "sum_from 0 cs0"
  have at: "\<forall>(t, v) \<in> set (at_times 0 (chg hist)). t < length ts"
    using at_times_deltas fits by (auto simp: hist_fits_def shown_of_def)
  then have lt: "\<forall>(t, v) \<in> set (at_times ?b cs). t < length ts" unfolding split at_times_append by simp
  have k: "?k = length cs0 + n_until ts tim ?b cs"
    unfolding split by (rule n_until_later [OF ts(1) _ before]) (use at in \<open>simp add: split\<close>)
  have run: "run_of n hist = enc_run n cs0 @ enc_run n cs" by (simp add: run_of_def split)
  have rc: "recs_ok n cs" using ok(1) by (auto simp: split recs_ok_def)
  obtain w' where w': "rvat_walk n (run_of n hist) ts tim (of_nat (length (run_of n hist))) w = Some (Inr w')"
    "if n_until ts tim ?b cs = 0 then w' = w else passed n (length (enc_run n cs0)) ?b cs (n_until ts tim ?b cs - 1) w'"
    using walk_run [OF run rc ok(2) mem lt ts(2) w] by blast
  note vb = value_before_nth [OF ts(1) fits]
  have "case value_before ts tim hist of None \<Rightarrow> cs0 = [] \<and> w' = w | Some v \<Rightarrow> stands n (chg hist) ts tim v w'"
  proof (cases "n_until ts tim ?b cs = 0")
    case True
    have "cs0 = []" using before True
    proof (elim disjE exE conjE)
      fix c cs2 assume c: "cs = c # cs2" "ts ! sum_from 0 (cs0 @ [c]) \<le> tim"
      obtain d v where "c = (d, v)" by (cases c)
      then show ?thesis using c True by (simp add: sum_from_def add.assoc)
    qed
    then show ?thesis using True k w'(2) vb(1) [of tim] by simp
  next
    case False
    then obtain cs1 d v cs2 where p: "cs = cs1 @ (d, v) # cs2" "length cs1 = n_until ts tim ?b cs - 1"
      "wk_iprev w' = of_nat (length (enc_run n cs0) + length (enc_run n cs1))" "wk_ptidx w' = of_nat (sum_from ?b cs1)"
      "wk_pvli w' = rec_head n (d, v)" "wk_pskip w' = length (varint (rec_head n (d, v)))"
      using w'(2) by (auto simp: passed_def)
    have k1: "?k - 1 = length (cs0 @ cs1)" "?k \<noteq> 0" using k p(2) False by simp_all
    have nth: "chg hist ! (?k - 1) = (d, v)"
      unfolding k1(1) unfolding split p(1) using nth_append_length [of "cs0 @ cs1" "(d, v)" cs2] by simp
    have j: "at_times 0 (chg hist) ! (?k - 1) = (sum_from 0 ((cs0 @ cs1) @ [(d, v)]), v)"
      unfolding k1(1) unfolding split p(1)
      using at_times_split [of 0 "cs0 @ cs1" d v cs2] nth_append_length [of "at_times 0 (cs0 @ cs1)"] by simp
    have "?k - 1 < length (takeWhile (\<lambda>(t, v). ts ! t \<le> tim) (at_times 0 (chg hist)))" using k1(2) by (simp add: n_until_def)
    then have "case at_times 0 (chg hist) ! (?k - 1) of (t, v) \<Rightarrow> ts ! t \<le> tim"
      using takeWhile_nth [of "?k - 1"] nth_mem set_takeWhileD by metis
    then have t: "ts ! sum_from 0 ((cs0 @ cs1) @ [(d, v)]) \<le> tim" unfolding j by simp
    have "value_before ts tim hist = Some v" using vb(1) [of tim] k1(2) nth by simp
    moreover have "stands n (chg hist) ts tim v w'"
      unfolding stands_def
      by (rule exI [of _ "cs0 @ cs1"], rule exI [of _ d], rule exI [of _ cs2])
        (use p t split in \<open>simp add: sum_from_def add.assoc\<close>)
    ultimately show ?thesis by simp
  qed
  with w'(1) show ?thesis by blast
qed


text \<open>Fetching a run.\<close>

definition keeps_run :: "(nat \<Rightarrow> (u32 \<times> bytes) list) \<Rightarrow> nat \<Rightarrow> rvat \<Rightarrow> bool" where
  "keeps_run G x rv \<longleftrightarrow>
     (let run = run_of (signal_lens (rv_xc rv) ! x) (G x)
      in rvat_chain_mem rv = Some run \<and> length run < 2 ^ 32 \<and> rvat_chain_len rv = of_nat (length run)
         \<and> rvat_chain_facidx rv = of_nat x)"

lemma stored_payload:
  assumes st: "stored_as up packtype run d h" and l: "length run < 2 ^ 32" "length (varint h @ d) < 2 ^ 31"
    and pos: "drop (f_pos (xc_f xc)) (f_data (xc_f xc)) = d @ rest" "length (varint h) \<le> length rest"
    and malloc: "\<And>k. length (malloc_bytes up k) = k"
  shows "\<exists>f. f_data f = f_data (xc_f xc) \<and>
    (if h \<noteq> 0 then let (mc, xc) = fill_f up (length (varint h @ d)) xc; (out, ok) = unpack_run up packtype mc (unat h)
       in andthen (store_n (malloc_bytes up (unat h)) 0 out) (\<lambda>mu. if ok then Inr (h, mu, xc) else Inl (Exit_code 255))
     else let destlen = of_nat (length (varint h @ d)) - of_nat (length (varint h));
              (bs, xc) = read_f (unat (scast (destlen :: u32) :: u64)) xc
       in andthen (store_n (malloc_bytes up (unat destlen)) 0 bs) (\<lambda>mu. Inr (destlen, mu, xc)))
    = Inr (of_nat (length run), run, xc\<lparr>xc_f := f\<rparr>)"
proof (cases "h = 0")
  case True
  then have d: "d = run" using st by (simp add: stored_as_def)
  have n: "of_nat (length (varint h @ d)) - of_nat (length (varint h)) = (of_nat (length run) :: u32)" by (simp add: d)
  have "unat (scast (of_nat (length run) :: u32) :: u64) = length run" by (rule scast_pos) (use l d in simp)
  then have "read_f (unat (scast (of_nat (length run) :: u32) :: u64)) xc
      = (run, xc\<lparr>xc_f := (xc_f xc)\<lparr>f_pos := f_pos (xc_f xc) + length run\<rparr>\<rparr>)"
    using read_f_eq [OF pos(1)] d by simp
  moreover have "unat (of_nat (length run) :: u32) = length run" by (rule unat_of_nat_32 [OF l(1)])
  ultimately show ?thesis
    using True malloc unfolding n
    by (intro exI [of _ "(xc_f xc)\<lparr>f_pos := f_pos (xc_f xc) + length run\<rparr>"]) (simp add: store_n_def)
next
  case False
  then have h: "unat h = length run"
    and up: "\<And>junk. length junk = length (varint h) \<Longrightarrow> unpack_run up packtype (d @ junk) (length run) = (run, True)"
    using st by (auto simp: stored_as_def)
  let ?n = "length (varint h @ d)" and ?junk = "take (length (varint h)) rest"
  have dr: "drop (f_pos (xc_f xc)) (f_data (xc_f xc)) = (d @ ?junk) @ drop (length (varint h)) rest" using pos(1) by simp
  have lj: "length (d @ ?junk) = ?n" using pos(2) by simp
  have rd: "fill_f up ?n xc = (d @ ?junk, xc\<lparr>xc_f := (xc_f xc)\<lparr>f_pos := f_pos (xc_f xc) + ?n\<rparr>\<rparr>)"
    by (rule fill_f_exact [OF dr lj malloc])
  have uj: "unpack_run up packtype (d @ ?junk) (length run) = (run, True)" using pos(2) by (intro up) simp
  have hr: "of_nat (length run) = h" unfolding h [symmetric] by simp
  show ?thesis
    using False malloc uj hr h
    by (intro exI [of _ "(xc_f xc)\<lparr>f_pos := f_pos (xc_f xc) + ?n\<rparr>"]) (simp add: rd [unfolded length_append] store_n_def Let_def)
qed

lemma rvat_fetch_ok:
  assumes bl: "block_loaded up m G rv" and x: "x < m" "G x \<noteq> []" and malloc: "\<And>k. length (malloc_bytes up k) = k"
  shows "\<exists>rv'. rvat_fetch up (of_nat x) rv = Inr rv' \<and> same_block rv rv' \<and> keeps_run G x rv'
    \<and> rvat_chain_pos_valid rv' = rvat_chain_pos_valid rv"
proof -
  let ?xc = "rv_xc rv" and ?n = "signal_lens (rv_xc rv) ! x" let ?run = "run_of ?n (G x)"
  have "stored_at up (f_data (xc_f ?xc)) (rvat_vc_start rv) (rvat_packtype rv) (chain_tables rv) x ?run"
    using bl x by (auto simp: block_loaded_def block_holds_def Let_def run_of_def)
  then obtain d h rest where s: "x < length (rvat_chain_table rv)" "x < length (rvat_chain_table_lengths rv)"
    "rvat_vc_start rv + unat (rvat_chain_table rv ! x) < 2 ^ 63" "stored_as up (rvat_packtype rv) ?run d h"
    "drop (rvat_vc_start rv + unat (rvat_chain_table rv ! x)) (f_data (xc_f ?xc)) = varint h @ d @ rest" "5 \<le> length rest"
    "length (varint h @ d) < 2 ^ 31" "rvat_chain_table_lengths rv ! x = of_nat (length (varint h @ d))"
    by (auto simp: stored_at_def chain_tables_def)
  have "m < 2 ^ 31" using bl by (simp add: block_loaded_def Let_def)
  then have ux: "unat (of_nat x :: u32) = x" using x(1) by (intro unat_of_nat_32) simp
  define k where "k = rvat_vc_start rv + unat (rvat_chain_table rv ! x)"
  have "of_nat (rvat_vc_start rv) + rvat_chain_table rv ! x = of_nat k" by (simp add: k_def)
  then have si: "sint (of_nat (rvat_vc_start rv) + rvat_chain_table rv ! x) = int k"
    using sint_small(2) [of k] s(3) by (simp add: k_def)
  define f where "f = (xc_f ?xc)\<lparr>f_pos := k, f_eof := False\<rparr>"
  have seek: "seek_f (sint (of_nat (rvat_vc_start rv) + rvat_chain_table rv ! x)) SEEK_SET ?xc = ?xc\<lparr>xc_f := f\<rparr>"
    unfolding si f_def by (rule seek_f_start)
  define f1 where "f1 = f\<lparr>f_pos := f_pos f + length (varint h)\<rparr>"
  have fd: "drop (f_pos f) (f_data f) = varint h @ d @ rest" using s(5) by (simp add: f_def k_def)
  then have rv: "fstReaderVarint32WithSkip f = Inr (h, length (varint h), f1)"
    using fstReaderVarint32_varint(2) by (simp add: f1_def)
  have p1: "drop (f_pos (xc_f (?xc\<lparr>xc_f := f1\<rparr>))) (f_data (xc_f (?xc\<lparr>xc_f := f1\<rparr>))) = d @ rest"
    using drop_record [OF fd] by (simp add: f1_def)
  have lr: "length ?run < 2 ^ 32"
    using s(4,7) unat_u32 [of h] by (auto simp: stored_as_def split: if_splits)
  have "length (varint h) \<le> length rest" using length_varint_32 [of h] s(6) by simp
  from stored_payload [OF s(4) lr s(7) p1 this malloc] obtain f2 where f2: "f_data f2 = f_data f1"
    "(if h \<noteq> 0 then let (mc, xc) = fill_f up (length (varint h @ d)) (?xc\<lparr>xc_f := f1\<rparr>); (out, ok) = unpack_run up (rvat_packtype rv) mc (unat h)
       in andthen (store_n (malloc_bytes up (unat h)) 0 out) (\<lambda>mu. if ok then Inr (h, mu, xc) else Inl (Exit_code 255))
     else let destlen = of_nat (length (varint h @ d)) - of_nat (length (varint h));
              (bs, xc) = read_f (unat (scast (destlen :: u32) :: u64)) (?xc\<lparr>xc_f := f1\<rparr>)
       in andthen (store_n (malloc_bytes up (unat destlen)) 0 bs) (\<lambda>mu. Inr (destlen, mu, xc)))
    = Inr (of_nat (length ?run), ?run, ?xc\<lparr>xc_f := f2\<rparr>)" by auto
  define rv' where "rv' = rv\<lparr>rv_xc := ?xc\<lparr>xc_f := f2\<rparr>, rvat_chain_len := of_nat (length ?run), rvat_chain_mem := Some ?run,
    rvat_chain_facidx := of_nat x\<rparr>"
  have un: "unat (of_nat (length (varint h @ d)) :: u32) = length (varint h @ d)" by (rule unat_of_nat_32) (use s(7) in simp)
  have "rvat_fetch up (of_nat x) rv = Inr rv'"
    unfolding rvat_fetch_def ux load_in [OF s(1)] load_in [OF s(2)] andthen_simps Let_def [of "seek_f _ _ _"] seek
    using rv f2(2) unfolding s(8) un by (simp add: rv'_def)
  moreover have "f_data f2 = f_data (xc_f ?xc)" using f2(1) by (simp add: f1_def f_def)
  then have "same_block rv rv'"
    unfolding same_block_def rv'_def
    by (intro exI [of _ f2] exI [of _ "of_nat (length ?run)"] exI [of _ "Some ?run"] exI [of _ "of_nat x"]
        exI [of _ "rvat_chain_pos_tidx rv"] exI [of _ "rvat_chain_pos_idx rv"] exI [of _ "rvat_chain_pos_time rv"]
        exI [of _ "rvat_chain_pos_valid rv"]) simp
  moreover have "keeps_run G x rv'" using lr by (simp add: keeps_run_def rv'_def)
  ultimately show ?thesis by (auto simp: rv'_def)
qed


text \<open>The walk of a query, from the place an earlier query left or from the start.\<close>

lemma start_place:
  assumes "cache_ok m G rv" and "keeps_run G x rv" and "x < m" and "m < 2 ^ 31" and "rvat_start tim rv = (w, rv1)"
  shows "\<exists>cs0 cs. chg (G x) = cs0 @ cs \<and> wk_i w = of_nat (length (enc_run (signal_lens (rv_xc rv) ! x) cs0))
      \<and> wk_tidx w = of_nat (sum_from 0 cs0)
      \<and> (cs0 = [] \<or> (\<exists>c cs2. cs = c # cs2 \<and> rvat_time_table rv ! sum_from 0 (cs0 @ [c]) \<le> tim))"
    and "wk_iprev w = rvat_chain_len rv"
    and "rv1 = (if rvat_chain_pos_valid rv \<and> rvat_chain_pos_time rv \<le> tim then rv else rv\<lparr>rvat_chain_pos_time := rvat_beg_tim rv\<rparr>)"
proof -
  have ux: "unat (of_nat x :: u32) = x" using assms(3,4) by (intro unat_of_nat_32) simp
  show "wk_iprev w = rvat_chain_len rv"
    "rv1 = (if rvat_chain_pos_valid rv \<and> rvat_chain_pos_time rv \<le> tim then rv else rv\<lparr>rvat_chain_pos_time := rvat_beg_tim rv\<rparr>)"
    using assms(5) by (auto simp: rvat_start_def Let_def split: if_splits)
  show "\<exists>cs0 cs. chg (G x) = cs0 @ cs \<and> wk_i w = of_nat (length (enc_run (signal_lens (rv_xc rv) ! x) cs0))
      \<and> wk_tidx w = of_nat (sum_from 0 cs0)
      \<and> (cs0 = [] \<or> (\<exists>c cs2. cs = c # cs2 \<and> rvat_time_table rv ! sum_from 0 (cs0 @ [c]) \<le> tim))"
  proof (cases "rvat_chain_pos_valid rv \<and> rvat_chain_pos_time rv \<le> tim")
    case True
    then have w: "wk_i w = rvat_chain_pos_idx rv" "wk_tidx w = rvat_chain_pos_tidx rv"
      using assms(5) by (auto simp: rvat_start_def Let_def)
    have "place_ok (signal_lens (rv_xc rv) ! x) (chg (G x)) (rvat_time_table rv) (rvat_chain_pos_idx rv)
        (rvat_chain_pos_tidx rv) (rvat_chain_pos_time rv)"
      using assms(1,2) True ux by (auto simp: cache_ok_def keeps_run_def Let_def)
    then obtain cs1 c cs2 where "chg (G x) = cs1 @ c # cs2"
      "rvat_chain_pos_idx rv = of_nat (length (enc_run (signal_lens (rv_xc rv) ! x) cs1))"
      "rvat_chain_pos_tidx rv = of_nat (sum_from 0 cs1)" "rvat_time_table rv ! sum_from 0 (cs1 @ [c]) \<le> rvat_chain_pos_time rv"
      unfolding place_ok_def by blast
    then show ?thesis using w True by (intro exI [of _ cs1] exI [of _ "c # cs2"]) auto
  next
    case False
    then have "wk_i w = 0" "wk_tidx w = 0" using assms(5) by (auto simp: rvat_start_def Let_def)
    then show ?thesis by (intro exI [of _ "[]"] exI [of _ "chg (G x)"]) (simp add: sum_from_def)
  qed
qed

lemma same_block_pos:
  "same_block rv (rv\<lparr>rvat_chain_pos_tidx := a, rvat_chain_pos_idx := b, rvat_chain_pos_time := c, rvat_chain_pos_valid := d\<rparr>)"
  unfolding same_block_def
  by (intro exI [of _ "xc_f (rv_xc rv)"] exI [of _ "rvat_chain_len rv"] exI [of _ "rvat_chain_mem rv"]
      exI [of _ "rvat_chain_facidx rv"] exI [of _ a] exI [of _ b] exI [of _ c] exI [of _ d]) simp

definition run_text :: "(bytes \<Rightarrow> bytes) \<Rightarrow> rvat \<Rightarrow> nat \<Rightarrow> bytes \<Rightarrow> bytes" where
  "run_text fmt rv x v =
     (let n = signal_lens (rv_xc rv) ! x
      in shown_text fmt (rv_xc rv) (signal_typs (rv_xc rv) ! x) n (c_lit ''r'') (norm_val n v))"

text \<open>
  The handle and the time a place was left for. A query with no change before it, of the same handle
  at a time before the last query, leaves a place that is later than the time it remembers.
\<close>

definition rvat_place :: "rvat \<Rightarrow> (nat \<times> u64) option" where
  "rvat_place rv = (if rvat_chain_pos_valid rv then Some (unat (rvat_chain_facidx rv), rvat_chain_pos_time rv) else None)"

definition sure :: "rvat \<Rightarrow> nat \<Rightarrow> u64 \<Rightarrow> (u32 \<times> bytes) list \<Rightarrow> bool" where
  "sure rv x tim hist \<longleftrightarrow>
     hist = [] \<or> value_before (rvat_time_table rv) tim hist \<noteq> None \<or> (\<forall>t. rvat_place rv = Some (x, t) \<longrightarrow> t \<le> tim)"

lemma rvat_run_ok:
  assumes bl: "block_loaded up m G rv" and co: "cache_ok m G rv" and kr: "keeps_run G x rv"
    and x: "x < m" "G x \<noteq> []" and n: "signal_lens (rv_xc rv) ! x \<noteq> 0"
    and room: "\<And>v. value_before (rvat_time_table rv) tim (G x) = Some v \<Longrightarrow> length (run_text fmt rv x v) \<le> length buf"
  shows "\<exists>rv'. rvat_run fmt tim (of_nat x) buf rv = Some
      (case value_before (rvat_time_table rv) tim (G x) of
         Some v \<Rightarrow> Inr (True, in_buffer (run_text fmt rv x v) buf, rv')
       | None \<Rightarrow> andthen (fstExtractRvatDataFromFrame fmt rv (of_nat x) buf) (\<lambda>(ret, buf). Inr (ret, buf, rv')))
    \<and> same_block rv rv' \<and> (sure rv x tim (G x) \<longrightarrow> cache_ok m G rv' \<and> rvat_place rv' \<in> {rvat_place rv, Some (x, tim)})"
proof -
  let ?n = "signal_lens (rv_xc rv) ! x" and ?ts = "rvat_time_table rv" let ?run = "run_of ?n (G x)"
  obtain w rv1 where st: "rvat_start tim rv = (w, rv1)" by fastforce
  have b: "x < length (signal_lens (rv_xc rv))" "x < length (signal_typs (rv_xc rv))" "m < 2 ^ 31" "sorted ?ts" "length ?ts < 2 ^ 32"
    "hist_fits (length ?ts) (G x)" "recs_ok ?n (chg (G x))"
    "?n \<noteq> 1 \<and> signal_typs (rv_xc rv) ! x = FST_VT_VCD_REAL \<longrightarrow> ?n = 8"
    using bl x by (auto simp: block_loaded_def block_holds_def Let_def)
  have ux: "unat (of_nat x :: u32) = x" using x(1) b(3) by (intro unat_of_nat_32) simp
  have k: "rvat_chain_mem rv = Some ?run" "length ?run < 2 ^ 32" "rvat_chain_len rv = of_nat (length ?run)"
    "rvat_chain_facidx rv = of_nat x"
    using kr by (auto simp: keeps_run_def Let_def)
  note sp = start_place [OF co kr x(1) b(3) st]
  define tm where "tm = (if rvat_chain_pos_valid rv \<and> rvat_chain_pos_time rv \<le> tim then rvat_chain_pos_time rv else rvat_beg_tim rv)"
  have rv1: "rv1 = rv\<lparr>rvat_chain_pos_time := tm\<rparr>"
    by (cases "rvat_chain_pos_valid rv \<and> rvat_chain_pos_time rv \<le> tim") (simp_all only: sp(3) tm_def if_True if_False, simp)
  have tm: "rvat_chain_pos_valid rv \<and> rvat_chain_pos_time rv \<le> tim \<longrightarrow> rv1 = rv" using sp(3) by simp
  obtain cs0 cs where p: "chg (G x) = cs0 @ cs" "wk_i w = of_nat (length (enc_run ?n cs0))" "wk_tidx w = of_nat (sum_from 0 cs0)"
    "cs0 = [] \<or> (\<exists>c cs2. cs = c # cs2 \<and> ?ts ! sum_from 0 (cs0 @ [c]) \<le> tim)"
    using sp(1) by blast
  obtain w' where w': "rvat_walk ?n ?run ?ts tim (of_nat (length ?run)) w = Some (Inr w')"
    "case value_before ?ts tim (G x) of None \<Rightarrow> cs0 = [] \<and> w' = w | Some v \<Rightarrow> stands ?n (chg (G x)) ?ts tim v w'"
    using walk_total [OF b(4,5,6,7) n k(2) p] by blast
  define rv2 where "rv2 = rv1\<lparr>rvat_chain_pos_tidx := wk_ptidx w', rvat_chain_pos_idx := wk_iprev w', rvat_chain_pos_time := tim,
    rvat_chain_pos_valid := True\<rparr>"
  have sb: "same_block rv rv1"
    using same_block_pos [of rv "rvat_chain_pos_valid rv" tm "rvat_chain_pos_idx rv" "rvat_chain_pos_tidx rv"] by (simp add: rv1)
  have f1: "rvat_chain_mem rv1 = Some ?run" "rv_xc rv1 = rv_xc rv" "rvat_time_table rv1 = ?ts" "rvat_chain_len rv1 = of_nat (length ?run)"
    using k(1,3) by (simp_all add: rv1)
  have f2: "fstExtractRvatDataFromFrame fmt rv1 (of_nat x) buf = fstExtractRvatDataFromFrame fmt rv (of_nat x) buf"
    by (rule same_blockD(2) [OF sb])
  have run: "rvat_run fmt tim (of_nat x) buf rv = Some (if wk_iprev w' \<noteq> of_nat (length ?run)
      then andthen (rvat_value fmt (rv_xc rv) (of_nat x) ?n ?run w' buf) (\<lambda>buf. Inr (True, buf, rv2))
      else andthen (fstExtractRvatDataFromFrame fmt rv (of_nat x) buf) (\<lambda>(ret, buf). Inr (ret, buf, rv1)))"
    using b(1) w'(1) by (simp add: rvat_run_def st f1 f2 ux rv2_def)
  show ?thesis
  proof (cases "value_before ?ts tim (G x)")
    case None
    then have e: "wk_iprev w' = of_nat (length ?run)" using w'(2) sp(2) k(3) by simp
    have "cache_ok m G rv1 \<and> rvat_place rv1 = rvat_place rv" if "sure rv x tim (G x)"
    proof (cases "rvat_chain_pos_valid rv")
      case True
      then have "rv1 = rv" using that None tm x(2) k(4) ux by (auto simp: sure_def rvat_place_def)
      then show ?thesis using co by simp
    next
      case False
      then show ?thesis using co by (auto simp: cache_ok_def rvat_place_def rv1 Let_def split: option.splits)
    qed
    then show ?thesis using run e None sb by auto
  next
    case (Some v)
    then have "stands ?n (chg (G x)) ?ts tim v w'" using w'(2) by simp
    then obtain cs1 d cs2 where s: "chg (G x) = cs1 @ (d, v) # cs2" "wk_iprev w' = of_nat (length (enc_run ?n cs1))"
      "wk_ptidx w' = of_nat (sum_from 0 cs1)" "wk_pvli w' = rec_head ?n (d, v)" "wk_pskip w' = length (varint (rec_head ?n (d, v)))"
      "?ts ! sum_from 0 (cs1 @ [(d, v)]) \<le> tim"
      unfolding stands_def by blast
    have r: "?run = enc_run ?n cs1 @ enc_rec ?n (d, v) @ enc_run ?n cs2" by (simp add: run_of_def s(1))
    have ui: "unat (wk_iprev w') = length (enc_run ?n cs1)" unfolding s(2) by (rule unat_of_nat_32) (use k(2) r in simp)
    have "length (enc_run ?n cs1) < length ?run" using length_enc_rec_pos [of ?n "(d, v)"] unfolding r by simp
    then have ne: "wk_iprev w' \<noteq> of_nat (length ?run)" using ui unat_of_nat_32 [OF k(2)] by auto
    have dr: "drop (unat (wk_iprev w')) ?run = enc_rec ?n (d, v) @ enc_run ?n cs2" unfolding ui r by simp
    have ok: "val_ok ?n v" "delta_ok ?n d" "unat ?n + 7 < 2 ^ 32" using b(7) by (auto simp: recs_ok_def s(1))
    have val: "rvat_value fmt (rv_xc rv) (of_nat x) ?n ?run w' buf = Inr (in_buffer (run_text fmt rv x v) buf)"
      by (rule value_reached [OF dr s(4,5) ok n])
        (use b(2,8) ux room [OF Some] in \<open>simp_all add: run_text_def Let_def\<close>)
    have "same_block rv rv2" using same_block_pos [of rv] by (simp add: rv2_def rv1)
    moreover have "cache_ok m G rv2" "rvat_place rv2 = Some (x, tim)"
      using k x ux s(1,2,3,6) by (auto simp: cache_ok_def rv2_def rv1 Let_def place_ok_def rvat_place_def)
    ultimately show ?thesis using run ne val Some by auto
  qed
qed


text \<open>What a query on a loaded block answers: the last change not after the time, or the frame.\<close>

definition rvat_answer :: "(bytes \<Rightarrow> bytes) \<Rightarrow> rvat \<Rightarrow> nat \<Rightarrow> u64 \<Rightarrow> (u32 \<times> bytes) list \<Rightarrow> bytes \<Rightarrow> (bool \<times> bytes) outcome" where
  "rvat_answer fmt rv x tim hist buf =
     (case value_before (rvat_time_table rv) tim hist of
        Some v \<Rightarrow> Inr (True, in_buffer (run_text fmt rv x v) buf)
      | None \<Rightarrow> fstExtractRvatDataFromFrame fmt rv (of_nat x) buf)"

definition roomy :: "(bytes \<Rightarrow> bytes) \<Rightarrow> rvat \<Rightarrow> nat \<Rightarrow> u64 \<Rightarrow> (u32 \<times> bytes) list \<Rightarrow> bytes \<Rightarrow> bool" where
  "roomy fmt rv x tim hist buf \<longleftrightarrow>
     (case value_before (rvat_time_table rv) tim hist of Some v \<Rightarrow> length (run_text fmt rv x v) \<le> length buf | None \<Rightarrow> True)"

lemma same_block_answer:
  assumes "same_block rv rv'"
  shows "rvat_answer fmt rv' x tim hist buf = rvat_answer fmt rv x tim hist buf"
    and "roomy fmt rv' x tim hist buf = roomy fmt rv x tim hist buf"
  using same_blockD [OF assms]
  by (simp_all add: rvat_answer_def roomy_def run_text_def Let_def cong: option.case_cong)

lemma keeps_run_cache: "keeps_run G x rv \<Longrightarrow> x < m \<Longrightarrow> m < 2 ^ 31 \<Longrightarrow> G x \<noteq> [] \<Longrightarrow> \<not> rvat_chain_pos_valid rv \<Longrightarrow> cache_ok m G rv"
  using unat_of_nat_32 [of x] by (simp add: keeps_run_def cache_ok_def Let_def)

lemma same_block_forget: "same_block rv (rv\<lparr>rvat_chain_mem := None, rvat_chain_pos_valid := False\<rparr>)"
  unfolding same_block_def
  by (intro exI [of _ "xc_f (rv_xc rv)"] exI [of _ "rvat_chain_len rv"] exI [of _ None]
      exI [of _ "rvat_chain_facidx rv"] exI [of _ "rvat_chain_pos_tidx rv"] exI [of _ "rvat_chain_pos_idx rv"]
      exI [of _ "rvat_chain_pos_time rv"] exI [of _ False]) simp

text \<open>The run of the handle is there when the walk starts.\<close>

lemma run_ready:
  assumes bl: "block_loaded up m G rv" and co: "cache_ok m G rv" and malloc: "\<And>k. length (malloc_bytes up k) = k"
    and x: "x < m" "G x \<noteq> []"
  defines "rv0 \<equiv> (if of_nat x \<noteq> rvat_chain_facidx rv \<and> rvat_chain_mem rv \<noteq> None
    then rv\<lparr>rvat_chain_mem := None, rvat_chain_pos_valid := False\<rparr> else rv)"
  shows "\<exists>rv1. (if rvat_chain_mem rv0 = None then rvat_fetch up (of_nat x) rv0 else Inr rv0) = Inr rv1
    \<and> same_block rv rv1 \<and> keeps_run G x rv1 \<and> cache_ok m G rv1
    \<and> (rv1 = rv \<or> \<not> rvat_chain_pos_valid rv1)"
proof (cases "rvat_chain_mem rv0 = None")
  case True
  have s0: "same_block rv rv0" using same_block_refl same_block_forget by (simp add: rv0_def)
  have np: "\<not> rvat_chain_pos_valid rv0" using co True by (auto simp: rv0_def cache_ok_def split: if_splits)
  have m: "m < 2 ^ 31" using bl by (simp add: block_loaded_def Let_def)
  obtain rv1 where 1: "rvat_fetch up (of_nat x) rv0 = Inr rv1" "same_block rv0 rv1" "keeps_run G x rv1"
    "rvat_chain_pos_valid rv1 = rvat_chain_pos_valid rv0"
    using rvat_fetch_ok [of up m G rv0 x] same_blockD(1) [OF s0] bl x malloc by blast
  have "cache_ok m G rv1" using keeps_run_cache [OF 1(3) x(1) m x(2)] 1(4) np by blast
  then show ?thesis using True 1 np same_block_trans [OF s0 1(2)] by (intro exI [of _ rv1]) simp
next
  case False
  then have c: "\<not> (of_nat x \<noteq> rvat_chain_facidx rv \<and> rvat_chain_mem rv \<noteq> None)" by (rule contrapos_nn) (simp add: rv0_def)
  then have e0: "rv0 = rv" by (simp only: rv0_def if_False)
  then have "rvat_chain_mem rv \<noteq> None" using False by simp
  with c e0 have e: "rv0 = rv" "of_nat x = rvat_chain_facidx rv" "rvat_chain_mem rv \<noteq> None" by simp_all
  have "x < m" "m < 2 ^ 31" using x bl by (simp_all add: block_loaded_def Let_def)
  then have "unat (rvat_chain_facidx rv) = x" unfolding e(2) [symmetric] by (intro unat_of_nat_32) simp
  then have "keeps_run G x rv" using co e(2,3) unfolding cache_ok_def keeps_run_def Let_def by (auto split: option.splits)
  then show ?thesis using False e(1) co same_block_refl by auto
qed

lemma process_value_ok:
  assumes bl: "block_loaded up m G rv" and co: "cache_ok m G rv" and malloc: "\<And>k. length (malloc_bytes up k) = k"
    and x: "x < m" and n: "signal_lens (rv_xc rv) ! x \<noteq> 0" and room: "roomy fmt rv x tim (G x) buf"
  shows "\<exists>rv'. process_value up fmt tim (of_nat (Suc x)) buf rv
      = Some (andthen (rvat_answer fmt rv x tim (G x) buf) (\<lambda>(ret, buf). Inr (ret, buf, rv')))
    \<and> same_block rv rv' \<and> (sure rv x tim (G x) \<longrightarrow>
        cache_ok m G rv' \<and> rvat_place rv' \<in> {rvat_place rv, None, Some (x, tim)})"
proof -
  have m: "m < 2 ^ 31" "unat (rvat_vc_maxhandle rv) = m" using bl by (simp_all add: block_loaded_def Let_def)
  have ux: "unat (of_nat x :: u32) = x" "unat (of_nat (Suc x) :: u32) = Suc x" by (intro unat_of_nat_32; use x m in simp)+
  have s1: "of_nat (Suc x) - 1 = (of_nat x :: u32)" by simp
  have le: "\<not> ucast (of_nat (Suc x) :: u32) > rvat_vc_maxhandle rv"
    using x m(2) ux(2) unat_ucast_64 [of "of_nat (Suc x)"] by (simp add: word_less_nat_alt del: of_nat_Suc)
  have bh: "block_holds up (f_data (xc_f (rv_xc rv))) (rvat_vc_start rv) (rvat_packtype rv) (chain_tables rv)
      (signal_lens (rv_xc rv)) (length (rvat_time_table rv)) (\<lambda>x. chg (G x)) x"
    using bl x by (auto simp: block_loaded_def Let_def)
  have tb: "load (rvat_chain_table rv) x = Inr (rvat_chain_table rv ! x)" "rvat_chain_table rv ! x = 0 \<longleftrightarrow> G x = []"
    using bh by (auto simp: block_holds_def stored_at_def chain_tables_def split: if_splits)
  show ?thesis
  proof (cases "G x = []")
    case True
    then have "value_before (rvat_time_table rv) tim (G x) = None" by (simp add: value_before_def)
    moreover have "process_value up fmt tim (of_nat (Suc x)) buf rv
        = Some (andthen (fstExtractRvatDataFromFrame fmt rv (of_nat x) buf) (\<lambda>(ret, buf). Inr (ret, buf, rv)))"
      using le tb True by (simp add: process_value_def s1 ux(1) del: of_nat_Suc)
    ultimately show ?thesis using co same_block_refl by (intro exI [of _ rv]) (simp add: rvat_answer_def)
  next
    case False
    obtain rv1 where 1: "(if rvat_chain_mem (if of_nat x \<noteq> rvat_chain_facidx rv \<and> rvat_chain_mem rv \<noteq> None
          then rv\<lparr>rvat_chain_mem := None, rvat_chain_pos_valid := False\<rparr> else rv) = None
        then rvat_fetch up (of_nat x) (if of_nat x \<noteq> rvat_chain_facidx rv \<and> rvat_chain_mem rv \<noteq> None
          then rv\<lparr>rvat_chain_mem := None, rvat_chain_pos_valid := False\<rparr> else rv)
        else Inr (if of_nat x \<noteq> rvat_chain_facidx rv \<and> rvat_chain_mem rv \<noteq> None
          then rv\<lparr>rvat_chain_mem := None, rvat_chain_pos_valid := False\<rparr> else rv)) = Inr rv1"
      "same_block rv rv1" "keeps_run G x rv1" "cache_ok m G rv1" "rv1 = rv \<or> \<not> rvat_chain_pos_valid rv1"
      using run_ready [OF bl co malloc x False] by blast
    note d = same_blockD [OF 1(2)] same_block_answer [OF 1(2)]
    have b1: "block_loaded up m G rv1" "signal_lens (rv_xc rv1) ! x \<noteq> 0" using bl n d by simp_all
    have "\<And>v. value_before (rvat_time_table rv1) tim (G x) = Some v \<Longrightarrow> length (run_text fmt rv1 x v) \<le> length buf"
      using room d(14) [of fmt x tim "G x" buf] by (simp add: roomy_def)
    from rvat_run_ok [OF b1(1) 1(4,3) x False b1(2) this] obtain rv' where 2: "rvat_run fmt tim (of_nat x) buf rv1 = Some
        (case value_before (rvat_time_table rv1) tim (G x) of
           Some v \<Rightarrow> Inr (True, in_buffer (run_text fmt rv1 x v) buf, rv')
         | None \<Rightarrow> andthen (fstExtractRvatDataFromFrame fmt rv1 (of_nat x) buf) (\<lambda>(ret, buf). Inr (ret, buf, rv')))"
      "same_block rv1 rv'" "sure rv1 x tim (G x) \<longrightarrow> cache_ok m G rv' \<and> rvat_place rv' \<in> {rvat_place rv1, Some (x, tim)}"
      by blast
    have "process_value up fmt tim (of_nat (Suc x)) buf rv = rvat_run fmt tim (of_nat x) buf rv1"
      using le tb False 1(1) by (simp only: process_value_def s1 ux(1) if_False tb(1) sum.case Let_def)
    also have "\<dots> = Some (andthen (rvat_answer fmt rv x tim (G x) buf) (\<lambda>(ret, buf). Inr (ret, buf, rv')))"
      unfolding 2(1) d(13) [symmetric] by (simp add: rvat_answer_def split: option.split)
    finally have p: "process_value up fmt tim (of_nat (Suc x)) buf rv
      = Some (andthen (rvat_answer fmt rv x tim (G x) buf) (\<lambda>(ret, buf). Inr (ret, buf, rv')))" .
    have pl: "rvat_place rv1 \<in> {rvat_place rv, None}" using 1(5) by (auto simp: rvat_place_def)
    then have "sure rv x tim (G x) \<longrightarrow> sure rv1 x tim (G x)" using d(5) by (auto simp: sure_def)
    then have "sure rv x tim (G x) \<longrightarrow> cache_ok m G rv' \<and> rvat_place rv' \<in> {rvat_place rv, None, Some (x, tim)}"
      using 2(3) pl by auto
    then show ?thesis using p same_block_trans [OF 1(2) 2(2)] by blast
  qed
qed

end
