(* ===== verification/Hier_Writer.thy ===== *)
theory Hier_Writer
  imports Writer_Context
begin

text \<open>
  The writer's side of the hierarchy (\<open>fstapi.c\<close>, lines 2350 to 2918): attributes, comments,
  source stems, enumeration tables, scopes and variables. Every operation appends the encoding of
  its items to the hierarchy file and keeps \<open>hier_file_len\<close> equal to the length of that file;
  \<open>fstWriterCreateVar\<close> also extends the geometry, the value position cells and the initial values.
\<close>

section \<open>Writing to the hierarchy file\<close>

definition hier_put :: "bytes \<Rightarrow> fstWriterContext \<Rightarrow> fstWriterContext" where
  "hier_put bs xc = xc\<lparr>hier_handle := fstFwrite bs (hier_handle xc)\<rparr>"

definition hier_len :: "nat \<Rightarrow> fstWriterContext \<Rightarrow> fstWriterContext" where
  "hier_len n xc = xc\<lparr>hier_file_len := hier_file_len xc + n\<rparr>"

text \<open>\<open>xc->hier_file_len += fstWriterVarint(xc->hier_handle, v)\<close>\<close>

definition hier_varint :: "u64 \<Rightarrow> fstWriterContext \<Rightarrow> fstWriterContext outcome" where
  "hier_varint v xc =
     andthen (fstWriterVarint v (hier_handle xc))
       (\<lambda>(n, h). Inr (hier_len n (xc\<lparr>hier_handle := h\<rparr>)))"

abbreviation (input) FST_ST_GEN_ATTRBEGIN :: u8 where "FST_ST_GEN_ATTRBEGIN \<equiv> 252"
abbreviation (input) FST_ST_GEN_ATTREND :: u8 where "FST_ST_GEN_ATTREND \<equiv> 253"
abbreviation (input) FST_ST_VCD_SCOPE :: u8 where "FST_ST_VCD_SCOPE \<equiv> 254"
abbreviation (input) FST_ST_VCD_UPSCOPE :: u8 where "FST_ST_VCD_UPSCOPE \<equiv> 255"

section \<open>Attributes\<close>

text \<open>
  \<open>FST_AT_MAX\<close> is 3, \<open>FST_AR_MAX\<close> and \<open>FST_PT_MAX\<close> are 3, \<open>FST_EV_MAX\<close> is 15 and
  \<open>FST_MT_UNKNOWN\<close> is 8; the lower bounds are 0.
\<close>

definition attr_clamp :: "u32 \<Rightarrow> int \<Rightarrow> u32 \<times> int" where
  "attr_clamp attrtype subtype =
     (let (attrtype, subtype) = (if attrtype > 3 then (0, 8) else (attrtype, subtype));
          clamp = (\<lambda>hi. if subtype < 0 \<or> subtype > hi then 0 else subtype)
      in (attrtype,
          if attrtype = 1 then clamp 3 else if attrtype = 2 then clamp 15
          else if attrtype = 3 then clamp 3 else subtype))"

definition fstWriterSetAttrBegin ::
    "wctx \<Rightarrow> u32 \<Rightarrow> int \<Rightarrow> bytes option \<Rightarrow> u64 \<Rightarrow> wctx outcome" where
  "fstWriterSetAttrBegin ctx attrtype subtype attrname arg =
     xc_set ctx (\<lambda>xc.
       let xc = hier_put [FST_ST_GEN_ATTRBEGIN] xc;
           (attrtype, subtype) = attr_clamp attrtype subtype;
           xc = hier_put [ucast attrtype] xc;
           xc = hier_put [word_of_int subtype] xc;
           xc = hier_put ((case attrname of None \<Rightarrow> [] | Some n \<Rightarrow> n) @ [0]) xc;
           xc = (case attrname of None \<Rightarrow> xc | Some n \<Rightarrow> hier_len (length n) xc);
           xc = hier_len 4 xc
       in hier_varint arg xc)"

definition fstWriterSetAttrEnd :: "wctx \<Rightarrow> wctx" where
  "fstWriterSetAttrEnd ctx = map_option (\<lambda>xc. hier_len 1 (hier_put [FST_ST_GEN_ATTREND] xc)) ctx"

text \<open>
  The first argument travels as the bytes of its varint in the name; the buffer is a C string, so
  the name ends at the first NUL.
\<close>

definition fstWriterSetAttrDoubleArgGeneric :: "wctx \<Rightarrow> int \<Rightarrow> u64 \<Rightarrow> u64 \<Rightarrow> wctx outcome" where
  "fstWriterSetAttrDoubleArgGeneric ctx typ arg1 arg2 =
     (case ctx of None \<Rightarrow> Inr None
      | Some xc \<Rightarrow>
        let buf = fstCopyVarint64ToRight [] arg1 @ (if arg1 \<noteq> 0 then [0] else [])
        in if length buf \<le> 11
           then fstWriterSetAttrBegin ctx 0 typ (Some (takeWhile (\<lambda>b. b \<noteq> 0) buf)) arg2
           else Inl Out_of_bounds)"

definition no_newlines :: "bytes \<Rightarrow> bytes" where
  "no_newlines s = map (\<lambda>b. if b = 10 \<or> b = 13 then 32 else b) s"

definition fstWriterSetAttrGeneric :: "wctx \<Rightarrow> bytes option \<Rightarrow> int \<Rightarrow> u64 \<Rightarrow> wctx outcome" where
  "fstWriterSetAttrGeneric ctx comm typ arg =
     (case comm of None \<Rightarrow> Inr ctx
      | Some s \<Rightarrow> fstWriterSetAttrBegin ctx 0 typ (Some (no_newlines s)) arg)"

text \<open>The codes of \<open>enum fstMiscType\<close>.\<close>

abbreviation (input) FST_MT_COMMENT :: int where "FST_MT_COMMENT \<equiv> 0"
abbreviation (input) FST_MT_ENVVAR :: int where "FST_MT_ENVVAR \<equiv> 1"
abbreviation (input) FST_MT_SUPVAR :: int where "FST_MT_SUPVAR \<equiv> 2"
abbreviation (input) FST_MT_PATHNAME :: int where "FST_MT_PATHNAME \<equiv> 3"
abbreviation (input) FST_MT_SOURCESTEM :: int where "FST_MT_SOURCESTEM \<equiv> 4"
abbreviation (input) FST_MT_SOURCEISTEM :: int where "FST_MT_SOURCEISTEM \<equiv> 5"
abbreviation (input) FST_MT_VALUELIST :: int where "FST_MT_VALUELIST \<equiv> 6"
abbreviation (input) FST_MT_ENUMTABLE :: int where "FST_MT_ENUMTABLE \<equiv> 7"

definition fstWriterSetComment :: "wctx \<Rightarrow> bytes option \<Rightarrow> wctx outcome" where
  "fstWriterSetComment ctx comm = fstWriterSetAttrGeneric ctx comm FST_MT_COMMENT 0"

definition fstWriterSetValueList :: "wctx \<Rightarrow> bytes option \<Rightarrow> wctx outcome" where
  "fstWriterSetValueList ctx vl = fstWriterSetAttrGeneric ctx vl FST_MT_VALUELIST 0"

definition fstWriterSetEnvVar :: "wctx \<Rightarrow> bytes option \<Rightarrow> wctx outcome" where
  "fstWriterSetEnvVar ctx envvar = fstWriterSetAttrGeneric ctx envvar FST_MT_ENVVAR 0"

section \<open>Source stems\<close>

text \<open>
  \<open>FST_PATH_HASHMASK\<close> is \<open>2^16 - 1\<close>. The lookup and the store through the returned pointer are
  \<open>find_or_set\<close>; \<open>realpath\<close> is the operating system's.
\<close>

definition fstWriterSetSourceStem_2 ::
    "(bytes \<Rightarrow> bytes option) \<Rightarrow> wctx \<Rightarrow> bytes option \<Rightarrow> u32 \<Rightarrow> u32 \<Rightarrow> int \<Rightarrow> wctx outcome" where
  "fstWriterSetSourceStem_2 realpath ctx path line use_realpath typ =
     (case ctx of None \<Rightarrow> Inr None
      | Some xc \<Rightarrow>
        (case path of None \<Rightarrow> Inr ctx
         | Some p \<Rightarrow>
           if p = [] then Inr ctx
           else andthen (find_or_set 0xFFFF (path_array xc) p (path_array_count xc + 1))
             (\<lambda>(old, base).
               case old of
                 Some sidx \<Rightarrow>
                   fstWriterSetAttrDoubleArgGeneric (Some (xc\<lparr>path_array := base\<rparr>)) typ
                     (ucast sidx) (ucast line)
               | None \<Rightarrow>
                   let xc = xc\<lparr>path_array := base, path_array_count := path_array_count xc + 1\<rparr>;
                       sidx = ucast (path_array_count xc);
                       rp = (if use_realpath \<noteq> 0 then realpath p else None)
                   in andthen (fstWriterSetAttrGeneric (Some xc)
                                (Some (case rp of Some r \<Rightarrow> r | None \<Rightarrow> p)) FST_MT_PATHNAME sidx)
                        (\<lambda>ctx. fstWriterSetAttrDoubleArgGeneric ctx typ sidx (ucast line)))))"

definition fstWriterSetSourceStem ::
    "(bytes \<Rightarrow> bytes option) \<Rightarrow> wctx \<Rightarrow> bytes option \<Rightarrow> u32 \<Rightarrow> u32 \<Rightarrow> wctx outcome" where
  "fstWriterSetSourceStem realpath ctx path line use_realpath =
     fstWriterSetSourceStem_2 realpath ctx path line use_realpath FST_MT_SOURCESTEM"

definition fstWriterSetSourceInstantiationStem ::
    "(bytes \<Rightarrow> bytes option) \<Rightarrow> wctx \<Rightarrow> bytes option \<Rightarrow> u32 \<Rightarrow> u32 \<Rightarrow> wctx outcome" where
  "fstWriterSetSourceInstantiationStem realpath ctx path line use_realpath =
     fstWriterSetSourceStem_2 realpath ctx path line use_realpath FST_MT_SOURCEISTEM"

section \<open>Enumeration tables\<close>

definition fstWriterCreateEnumTable ::
    "wctx \<Rightarrow> bytes option \<Rightarrow> u32 \<Rightarrow> u32 \<Rightarrow> bytes list option \<Rightarrow> bytes list option
      \<Rightarrow> (u32 \<times> wctx) outcome" where
  "fstWriterCreateEnumTable ctx name elem_count min_valbits literal_arr val_arr =
     (case (ctx, name, literal_arr, val_arr) of
        (Some xc, Some n, Some ls, Some vs) \<Rightarrow>
          if elem_count = 0 then Inr (0, ctx)
          else andthen (enum_attr_str n elem_count (unat min_valbits) ls vs) (\<lambda>attr_str.
            let h = max_enumhandle xc + 1
            in andthen (fstWriterSetAttrBegin (Some (xc\<lparr>max_enumhandle := h\<rparr>)) 0 FST_MT_ENUMTABLE
                         (Some attr_str) (ucast h))
                 (\<lambda>ctx. Inr (h, ctx)))
      | _ \<Rightarrow> Inr (0, ctx))"

definition fstWriterEmitEnumTableRef :: "wctx \<Rightarrow> u32 \<Rightarrow> wctx outcome" where
  "fstWriterEmitEnumTableRef ctx h =
     (if ctx \<noteq> None \<and> h \<noteq> 0 then fstWriterSetAttrBegin ctx 0 FST_MT_ENUMTABLE None (ucast h)
      else Inr ctx)"

section \<open>Scopes\<close>

text \<open>\<open>FST_ST_MAX\<close> is 21; \<open>fprintf\<close> writes both strings with their terminating NUL.\<close>

definition fstWriterSetScope :: "wctx \<Rightarrow> u32 \<Rightarrow> bytes option \<Rightarrow> bytes option \<Rightarrow> wctx" where
  "fstWriterSetScope ctx scopetype scopename scopecomp =
     map_option (\<lambda>xc.
       let xc = hier_put [FST_ST_VCD_SCOPE] xc;
           scopetype = (if scopetype > 21 then 0 else scopetype);
           xc = hier_put [ucast scopetype] xc;
           xc = hier_put ((case scopename of None \<Rightarrow> [] | Some n \<Rightarrow> n) @ [0]
                  @ (case scopecomp of None \<Rightarrow> [] | Some n \<Rightarrow> n) @ [0]) xc;
           xc = (case scopename of None \<Rightarrow> xc | Some n \<Rightarrow> hier_len (length n) xc);
           xc = (case scopecomp of None \<Rightarrow> xc | Some n \<Rightarrow> hier_len (length n) xc);
           xc = hier_len 4 xc
       in xc\<lparr>numscopes := numscopes xc + 1\<rparr>) ctx"

definition fstWriterSetUpscope :: "wctx \<Rightarrow> wctx" where
  "fstWriterSetUpscope ctx = map_option (\<lambda>xc. hier_len 1 (hier_put [FST_ST_VCD_UPSCOPE] xc)) ctx"

section \<open>Variables\<close>

text \<open>The reals of \<open>enum fstVarType\<close> are 3, 4, 20 and 29; \<open>FST_VT_GEN_STRING\<close> is 21.\<close>

definition var_is_real :: "u32 \<Rightarrow> bool" where
  "var_is_real vt \<longleftrightarrow> vt = 3 \<or> vt = 4 \<or> vt = 20 \<or> vt = 29"

definition var_len :: "u32 \<Rightarrow> u32 \<Rightarrow> u32" where
  "var_len vt n = (if var_is_real vt then 8 else if vt = 21 then 0 else n)"

text \<open>The buffer grows when the number of signals reaches the next million.\<close>

definition huge_break :: "fstWriterContext \<Rightarrow> fstWriterContext" where
  "huge_break xc =
     (if numsigs xc = next_huge_break xc \<and> fst_break_size xc < fst_huge_break_size xc
      then let xc = xc\<lparr>next_huge_break := next_huge_break xc + FST_ACTIVATE_HUGE_INC,
                       fst_break_size := fst_break_size xc + fst_orig_break_size xc,
                       fst_break_add_size := fst_break_add_size xc + fst_orig_break_add_size xc\<rparr>
           in xc\<lparr>vchg_alloc_siz := ucast (fst_break_size xc + fst_break_add_size xc)\<rparr>
      else xc)"

text \<open>The part for a variable that is no alias.\<close>

definition new_handle :: "bool \<Rightarrow> u32 \<Rightarrow> fstWriterContext \<Rightarrow> (u32 \<times> fstWriterContext) outcome" where
  "new_handle is_real n xc =
     andthen (fstWriterVarint (ucast (if n \<noteq> 0 then (if \<not> is_real then n else 0) else 0xFFFFFFFF :: u32))
               (geom_handle xc))
       (\<lambda>(_, geom).
         let xc = xc\<lparr>geom_handle := geom,
                     valpos := valpos xc @ [maxvalpos xc, n, 0, 0],
                     curval := curval xc @ (if \<not> is_real then replicate (unat n) (ascii CHR ''x'') else nan xc),
                     maxvalpos := maxvalpos xc + n,
                     maxhandle := maxhandle xc + 1\<rparr>
         in Inr (maxhandle xc, xc))"

definition fstWriterCreateVar ::
    "wctx \<Rightarrow> u32 \<Rightarrow> u32 \<Rightarrow> u32 \<Rightarrow> bytes option \<Rightarrow> u32 \<Rightarrow> (u32 \<times> wctx) outcome" where
  "fstWriterCreateVar ctx vt vd n nam aliasHandle =
     (case (ctx, nam) of
        (Some xc, Some nm) \<Rightarrow>
          let xc = (if valpos_mapped xc then fstDestroyMmaps xc else xc);
              xc = hier_put [ucast vt] xc;
              xc = hier_put [ucast vd] xc;
              xc = hier_put nm xc;
              xc = hier_put [0] xc;
              xc = hier_len (length nm + 3) xc;
              is_real = var_is_real vt;
              n = var_len vt n
          in andthen (hier_varint (ucast n) xc) (\<lambda>xc.
             let aliasHandle = (if aliasHandle > maxhandle xc then 0 else aliasHandle)
             in andthen (hier_varint (ucast aliasHandle) xc) (\<lambda>xc.
                let xc = huge_break (xc\<lparr>numsigs := numsigs xc + 1\<rparr>)
                in if aliasHandle = 0
                   then andthen (new_handle is_real n xc) (\<lambda>(h, xc). Inr (h, Some xc))
                   else Inr (aliasHandle, Some xc)))
      | _ \<Rightarrow> Inr (0, ctx))"

text \<open>\<open>FST_SDT_SVT_SHIFT_COUNT\<close> is 10, \<open>FST_SDT_ABS_MAX\<close> is 1023.\<close>

definition fstWriterCreateVar2 ::
    "wctx \<Rightarrow> u32 \<Rightarrow> u32 \<Rightarrow> u32 \<Rightarrow> bytes option \<Rightarrow> u32 \<Rightarrow> bytes option \<Rightarrow> u32 \<Rightarrow> u32
      \<Rightarrow> (u32 \<times> wctx) outcome" where
  "fstWriterCreateVar2 ctx vt vd n nam aliasHandle type svt sdt =
     andthen (fstWriterSetAttrGeneric ctx (Some (case type of Some t \<Rightarrow> t | None \<Rightarrow> [])) FST_MT_SUPVAR
               (ucast (push_bit 10 svt OR (sdt AND 1023))))
       (\<lambda>ctx. fstWriterCreateVar ctx vt vd n nam aliasHandle)"

section \<open>Items of the hierarchy\<close>

datatype hitem =
    HScope u8 bytes bytes
  | HUpscope
  | HAttrBegin u8 u8 bytes u64
  | HAttrEnd
  | HVar u8 u8 bytes u32 u32

fun hitem_bytes :: "hitem \<Rightarrow> bytes" where
  "hitem_bytes (HScope t n c) = [FST_ST_VCD_SCOPE, t] @ n @ [0] @ c @ [0]"
| "hitem_bytes HUpscope = [FST_ST_VCD_UPSCOPE]"
| "hitem_bytes (HAttrBegin t st n arg) = [FST_ST_GEN_ATTRBEGIN, t, st] @ n @ [0] @ varint arg"
| "hitem_bytes HAttrEnd = [FST_ST_GEN_ATTREND]"
| "hitem_bytes (HVar t d n l a) = [t, d] @ n @ [0] @ varint l @ varint a"

definition hier_bytes :: "hitem list \<Rightarrow> bytes" where
  "hier_bytes its = concat (map hitem_bytes its)"

lemma hier_bytes_simps [simp]:
  "hier_bytes [] = []" "hier_bytes (i # its) = hitem_bytes i @ hier_bytes its"
  "hier_bytes (xs @ ys) = hier_bytes xs @ hier_bytes ys"
  by (simp_all add: hier_bytes_def)

definition attr_item :: "u32 \<Rightarrow> int \<Rightarrow> bytes \<Rightarrow> u64 \<Rightarrow> hitem" where
  "attr_item a st n arg =
     (let (a', st') = attr_clamp a st in HAttrBegin (ucast a') (word_of_int st') n arg)"

text \<open>Appending bytes and counting them.\<close>

definition hier_add :: "bytes \<Rightarrow> fstWriterContext \<Rightarrow> fstWriterContext" where
  "hier_add bs xc = hier_len (length bs) (hier_put bs xc)"

lemma hier_put_put: "hier_put cs (hier_put bs xc) = hier_put (bs @ cs) xc"
  by (simp add: hier_put_def fstFwrite_twice)

lemma hier_len_len: "hier_len m (hier_len n xc) = hier_len (n + m) xc"
  by (simp add: hier_len_def)

lemma hier_put_len: "hier_put bs (hier_len n xc) = hier_len n (hier_put bs xc)"
  by (simp add: hier_put_def hier_len_def)

lemma hier_varint_eq: "hier_varint v xc = Inr (hier_len (length (varint v)) (hier_put (varint v) xc))"
  by (simp add: hier_varint_def fstWriterVarint_eq hier_put_def hier_len_def)

lemma hier_add_add: "hier_add cs (hier_add bs xc) = hier_add (bs @ cs) xc"
  by (simp add: hier_add_def hier_put_len hier_put_put hier_len_len)

lemma hier_add_Nil: "hier_add [] xc = xc"
  by (simp add: hier_add_def hier_len_def hier_put_def fstFwrite_def fwrite_bytes_def)

lemmas hier_norm = hier_put_put hier_put_len hier_len_len hier_varint_eq

definition hier_ok :: "fstWriterContext \<Rightarrow> bool" where
  "hier_ok xc \<longleftrightarrow> at_end (hier_handle xc) \<and> hier_file_len xc = length (f_data (hier_handle xc))"

lemma hier_add_ok:
  assumes "hier_ok xc"
  shows "hier_ok (hier_add bs xc)" and "f_data (hier_handle (hier_add bs xc)) = f_data (hier_handle xc) @ bs"
  using assms by (auto simp: hier_ok_def hier_add_def hier_len_def hier_put_def append_simps)

lemma hier_add_frame [simp]:
  "maxhandle (hier_add bs xc) = maxhandle xc" "max_enumhandle (hier_add bs xc) = max_enumhandle xc"
  "path_array (hier_add bs xc) = path_array xc" "path_array_count (hier_add bs xc) = path_array_count xc"
  "numscopes (hier_add bs xc) = numscopes xc" "numsigs (hier_add bs xc) = numsigs xc"
  "valpos (hier_add bs xc) = valpos xc" "curval (hier_add bs xc) = curval xc"
  "maxvalpos (hier_add bs xc) = maxvalpos xc" "geom_handle (hier_add bs xc) = geom_handle xc"
  "handle (hier_add bs xc) = handle xc" "nan (hier_add bs xc) = nan xc"
  by (simp_all add: hier_add_def hier_len_def hier_put_def)

lemma SetAttrBegin_eq:
  "fstWriterSetAttrBegin (Some xc) a st nm arg
    = Inr (Some (hier_add (hitem_bytes (attr_item a st (case nm of None \<Rightarrow> [] | Some n \<Rightarrow> n) arg)) xc))"
  by (cases nm)
    (simp_all add: fstWriterSetAttrBegin_def attr_item_def hier_norm hier_add_def Let_def
        eval_nat_numeral split: prod.split)

lemma SetAttrEnd_eq: "fstWriterSetAttrEnd (Some xc) = Some (hier_add (hitem_bytes HAttrEnd) xc)"
  by (simp add: fstWriterSetAttrEnd_def hier_add_def)

lemma SetUpscope_eq: "fstWriterSetUpscope (Some xc) = Some (hier_add (hitem_bytes HUpscope) xc)"
  by (simp add: fstWriterSetUpscope_def hier_add_def)

definition opt_str :: "bytes option \<Rightarrow> bytes" where
  "opt_str s = (case s of None \<Rightarrow> [] | Some n \<Rightarrow> n)"

lemma SetScope_eq:
  "fstWriterSetScope (Some xc) t n c
    = Some ((hier_add (hitem_bytes (HScope (ucast (if t > 21 then 0 else t)) (opt_str n) (opt_str c))) xc)
        \<lparr>numscopes := numscopes xc + 1\<rparr>)"
  by (cases n; cases c)
    (simp_all add: fstWriterSetScope_def hier_norm hier_add_def opt_str_def Let_def hier_len_def hier_put_def
        eval_nat_numeral fstFwrite_twice add.assoc)

lemma SetAttrGeneric_eq:
  "fstWriterSetAttrGeneric (Some xc) (Some s) typ arg
    = Inr (Some (hier_add (hitem_bytes (attr_item 0 typ (no_newlines s) arg)) xc))"
  by (simp add: fstWriterSetAttrGeneric_def SetAttrBegin_eq)

text \<open>A nonzero number has no zero byte in its varint, so it survives as a C string.\<close>

lemma varint_no_nul: "v \<noteq> 0 \<Longrightarrow> b \<in> set (varint (v :: u64)) \<Longrightarrow> b \<noteq> 0"
proof (induction v rule: varint_induct)
  case (step v)
  have high: "(ucast v OR 0x80 :: u8) \<noteq> 0"
  proof
    assume z: "(ucast v OR 0x80 :: u8) = 0"
    have "(ucast v OR 0x80 :: u8) AND 0x80 \<noteq> 0" by (rule low7_or_high) simp
    then show False by (simp only: z) simp
  qed
  have small: "(ucast v :: u8) \<noteq> 0" if "unat v < 128"
    using ucast_small(1) [OF that] step.prems(1) by (metis unat_eq_zero)
  have "drop_bit 7 v \<noteq> 0" if "128 \<le> unat v"
    using that by (simp add: drop_bit_7_eq_0_iff)
  then show ?case
    using step high small by (auto simp: varint_unfold [of v] not_less split: if_splits)
qed

lemma SetAttrDoubleArg_eq:
  "fstWriterSetAttrDoubleArgGeneric (Some xc) typ arg1 arg2
    = Inr (Some (hier_add (hitem_bytes (attr_item 0 typ (if arg1 = 0 then [] else varint arg1) arg2)) xc))"
proof (cases "arg1 = 0")
  case True
  then show ?thesis
    by (simp add: fstWriterSetAttrDoubleArgGeneric_def fstCopyVarint64ToRight_def SetAttrBegin_eq
        varint_unfold [of 0])
next
  case False
  have "takeWhile (\<lambda>b. b \<noteq> 0) (varint arg1 @ [0]) = varint arg1"
    using varint_no_nul [OF False] by (subst takeWhile_append2) auto
  then show ?thesis
    using False length_varint_64 [of arg1]
    by (simp add: fstWriterSetAttrDoubleArgGeneric_def fstCopyVarint64ToRight_def SetAttrBegin_eq)
qed

text \<open>A variable: its item, the counters, and for a new handle the geometry and the cells.\<close>

definition var_alias :: "fstWriterContext \<Rightarrow> u32 \<Rightarrow> u32" where
  "var_alias xc a = (if a > maxhandle xc then 0 else a)"

definition var_item :: "u32 \<Rightarrow> u32 \<Rightarrow> u32 \<Rightarrow> bytes \<Rightarrow> u32 \<Rightarrow> hitem" where
  "var_item vt vd n nm a = HVar (ucast vt) (ucast vd) nm (var_len vt n) a"

definition var_base :: "u32 \<Rightarrow> u32 \<Rightarrow> u32 \<Rightarrow> bytes \<Rightarrow> u32 \<Rightarrow> fstWriterContext \<Rightarrow> fstWriterContext" where
  "var_base vt vd n nm a xc =
     huge_break ((hier_add (hitem_bytes (var_item vt vd n nm (var_alias xc a)))
       (if valpos_mapped xc then fstDestroyMmaps xc else xc))\<lparr>numsigs := numsigs xc + 1\<rparr>)"

lemma varint_0_64: "varint (0 :: u64) = varint (0 :: u32)"
  using varint_ucast_32_64 [of 0] by simp

lemma CreateVar_eq:
  "fstWriterCreateVar (Some xc) vt vd n (Some nm) a
    = (if var_alias xc a = 0
       then andthen (new_handle (var_is_real vt) (var_len vt n) (var_base vt vd n nm a xc))
              (\<lambda>(h, xc). Inr (h, Some xc))
       else Inr (var_alias xc a, Some (var_base vt vd n nm a xc)))"
  unfolding fstWriterCreateVar_def prod.case option.case Let_def hier_norm andthen_simps
    var_base_def var_alias_def var_item_def hier_add_def hitem_bytes.simps
  by (cases "valpos_mapped xc")
    (simp_all add: hier_len_def hier_put_def fstDestroyMmaps_def varint_ucast_32_64 varint_0_64
      eval_nat_numeral add.assoc)

lemma new_handle_eq:
  "new_handle is_real n xc = Inr (maxhandle xc + 1,
     xc\<lparr>geom_handle := fstFwrite (varint (if n \<noteq> 0 then (if is_real then 0 else n) else 0xFFFFFFFF))
                          (geom_handle xc),
        valpos := valpos xc @ [maxvalpos xc, n, 0, 0],
        curval := curval xc @ (if is_real then nan xc else replicate (unat n) (ascii CHR ''x'')),
        maxvalpos := maxvalpos xc + n, maxhandle := maxhandle xc + 1\<rparr>)"
  by (simp add: new_handle_def fstWriterVarint_eq varint_ucast_32_64 Let_def)

lemma huge_break_frame [simp]:
  "maxhandle (huge_break xc) = maxhandle xc" "max_enumhandle (huge_break xc) = max_enumhandle xc"
  "path_array (huge_break xc) = path_array xc" "path_array_count (huge_break xc) = path_array_count xc"
  "hier_handle (huge_break xc) = hier_handle xc" "hier_file_len (huge_break xc) = hier_file_len xc"
  "numsigs (huge_break xc) = numsigs xc" "numscopes (huge_break xc) = numscopes xc"
  "valpos (huge_break xc) = valpos xc" "curval (huge_break xc) = curval xc"
  "maxvalpos (huge_break xc) = maxvalpos xc" "geom_handle (huge_break xc) = geom_handle xc"
  "nan (huge_break xc) = nan xc" "handle (huge_break xc) = handle xc"
  by (simp_all add: huge_break_def Let_def)

lemma var_base_frame [simp]:
  "maxhandle (var_base vt vd n nm a xc) = maxhandle xc"
  "max_enumhandle (var_base vt vd n nm a xc) = max_enumhandle xc"
  "path_array (var_base vt vd n nm a xc) = path_array xc"
  "path_array_count (var_base vt vd n nm a xc) = path_array_count xc"
  "numsigs (var_base vt vd n nm a xc) = numsigs xc + 1"
  "numscopes (var_base vt vd n nm a xc) = numscopes xc"
  "valpos (var_base vt vd n nm a xc) = valpos xc" "curval (var_base vt vd n nm a xc) = curval xc"
  "maxvalpos (var_base vt vd n nm a xc) = maxvalpos xc" "geom_handle (var_base vt vd n nm a xc) = geom_handle xc"
  "nan (var_base vt vd n nm a xc) = nan xc"
  by (simp_all add: var_base_def fstDestroyMmaps_def)

lemma var_base_ok:
  assumes "hier_ok xc"
  shows "hier_ok (var_base vt vd n nm a xc)"
    and "f_data (hier_handle (var_base vt vd n nm a xc))
      = f_data (hier_handle xc) @ hitem_bytes (var_item vt vd n nm (var_alias xc a))"
  using assms
  by (auto simp: hier_ok_def var_base_def hier_add_def hier_len_def hier_put_def fstDestroyMmaps_def append_simps)

section \<open>The specification of the hierarchy\<close>

text \<open>
  What the items depend on: the number of handles, the distinct paths in the order of their
  numbers, and the number of enumeration tables.
\<close>

record hstate =
  s_handles :: u32
  s_paths :: "bytes list"
  s_enums :: u32

definition path_nos :: "bytes list \<Rightarrow> bytes \<Rightarrow> u32 option" where
  "path_nos ps = map_of (zip ps (map of_nat [1..<Suc (length ps)]))"

datatype hier_op =
    Scope u32 "bytes option" "bytes option"
  | Upscope
  | Attr_begin u32 int "bytes option" u64
  | Attr_end
  | Comment bytes
  | Value_list bytes
  | Env_var bytes
  | Source_stem bytes u32 u32
  | Source_istem bytes u32 u32
  | Enum_table bytes u32 u32 "bytes list" "bytes list"
  | Enum_ref u32
  | Var u32 u32 u32 bytes u32
  | Var2 u32 u32 u32 bytes u32 "bytes option" u32 u32

definition no_handle :: "wctx outcome \<Rightarrow> (u32 \<times> wctx) outcome" where
  "no_handle r = andthen r (\<lambda>ctx. Inr (0, ctx))"

fun hier_step :: "(bytes \<Rightarrow> bytes option) \<Rightarrow> wctx \<Rightarrow> hier_op \<Rightarrow> (u32 \<times> wctx) outcome" where
  "hier_step rp ctx (Scope t n c) = Inr (0, fstWriterSetScope ctx t n c)"
| "hier_step rp ctx Upscope = Inr (0, fstWriterSetUpscope ctx)"
| "hier_step rp ctx (Attr_begin a st n arg) = no_handle (fstWriterSetAttrBegin ctx a st n arg)"
| "hier_step rp ctx Attr_end = Inr (0, fstWriterSetAttrEnd ctx)"
| "hier_step rp ctx (Comment s) = no_handle (fstWriterSetComment ctx (Some s))"
| "hier_step rp ctx (Value_list s) = no_handle (fstWriterSetValueList ctx (Some s))"
| "hier_step rp ctx (Env_var s) = no_handle (fstWriterSetEnvVar ctx (Some s))"
| "hier_step rp ctx (Source_stem p l u) = no_handle (fstWriterSetSourceStem rp ctx (Some p) l u)"
| "hier_step rp ctx (Source_istem p l u) = no_handle (fstWriterSetSourceInstantiationStem rp ctx (Some p) l u)"
| "hier_step rp ctx (Enum_table n c m ls vs) = fstWriterCreateEnumTable ctx (Some n) c m (Some ls) (Some vs)"
| "hier_step rp ctx (Enum_ref h) = no_handle (fstWriterEmitEnumTableRef ctx h)"
| "hier_step rp ctx (Var vt vd n nm a) = fstWriterCreateVar ctx vt vd n (Some nm) a"
| "hier_step rp ctx (Var2 vt vd n nm a ty svt sdt) = fstWriterCreateVar2 ctx vt vd n (Some nm) a ty svt sdt"

text \<open>The items of a source stem: the path the first time it is named, and the reference.\<close>

definition stem_items ::
    "(bytes \<Rightarrow> bytes option) \<Rightarrow> hstate \<Rightarrow> bytes \<Rightarrow> u32 \<Rightarrow> u32 \<Rightarrow> int \<Rightarrow> hitem list \<times> hstate" where
  "stem_items rp s p l u typ =
     (if p = [] then ([], s)
      else case path_nos (s_paths s) p of
        Some no \<Rightarrow> ([attr_item 0 typ (varint (ucast no :: u64)) (ucast l)], s)
      | None \<Rightarrow>
          let no = of_nat (length (s_paths s) + 1) :: u32;
              full = (if u \<noteq> 0 then (case rp p of Some r \<Rightarrow> r | None \<Rightarrow> p) else p)
          in ([attr_item 0 FST_MT_PATHNAME (no_newlines full) (ucast no),
               attr_item 0 typ (varint (ucast no :: u64)) (ucast l)],
              s\<lparr>s_paths := s_paths s @ [p]\<rparr>))"

definition var_items :: "hstate \<Rightarrow> u32 \<Rightarrow> u32 \<Rightarrow> u32 \<Rightarrow> bytes \<Rightarrow> u32 \<Rightarrow> hitem \<times> u32 \<times> hstate" where
  "var_items s vt vd n nm a =
     (let a = (if a > s_handles s then 0 else a)
      in if a = 0
         then (var_item vt vd n nm 0, s_handles s + 1, s\<lparr>s_handles := s_handles s + 1\<rparr>)
         else (var_item vt vd n nm a, a, s))"

fun hier_spec :: "(bytes \<Rightarrow> bytes option) \<Rightarrow> hstate \<Rightarrow> hier_op \<Rightarrow> hitem list \<times> u32 \<times> hstate" where
  "hier_spec rp s (Scope t n c) = ([HScope (ucast (if t > 21 then 0 else t)) (opt_str n) (opt_str c)], 0, s)"
| "hier_spec rp s Upscope = ([HUpscope], 0, s)"
| "hier_spec rp s (Attr_begin a st n arg) = ([attr_item a st (opt_str n) arg], 0, s)"
| "hier_spec rp s Attr_end = ([HAttrEnd], 0, s)"
| "hier_spec rp s (Comment c) = ([attr_item 0 FST_MT_COMMENT (no_newlines c) 0], 0, s)"
| "hier_spec rp s (Value_list c) = ([attr_item 0 FST_MT_VALUELIST (no_newlines c) 0], 0, s)"
| "hier_spec rp s (Env_var c) = ([attr_item 0 FST_MT_ENVVAR (no_newlines c) 0], 0, s)"
| "hier_spec rp s (Source_stem p l u) =
     (let (its, s') = stem_items rp s p l u FST_MT_SOURCESTEM in (its, 0, s'))"
| "hier_spec rp s (Source_istem p l u) =
     (let (its, s') = stem_items rp s p l u FST_MT_SOURCEISTEM in (its, 0, s'))"
| "hier_spec rp s (Enum_table n c m ls vs) =
     (if c = 0 then ([], 0, s)
      else ([attr_item 0 FST_MT_ENUMTABLE (case enum_attr_str n c (unat m) ls vs of Inr t \<Rightarrow> t | Inl _ \<Rightarrow> [])
               (ucast (s_enums s + 1))],
            s_enums s + 1, s\<lparr>s_enums := s_enums s + 1\<rparr>))"
| "hier_spec rp s (Enum_ref h) =
     (if h \<noteq> 0 then [attr_item 0 FST_MT_ENUMTABLE [] (ucast h)] else [], 0, s)"
| "hier_spec rp s (Var vt vd n nm a) = (let (i, h, s') = var_items s vt vd n nm a in ([i], h, s'))"
| "hier_spec rp s (Var2 vt vd n nm a ty svt sdt) =
     (let (i, h, s') = var_items s vt vd n nm a
      in ([attr_item 0 FST_MT_SUPVAR (no_newlines (opt_str ty)) (ucast (push_bit 10 svt OR (sdt AND 1023))), i],
          h, s'))"

fun hier_op_ok :: "hier_op \<Rightarrow> bool" where
  "hier_op_ok (Enum_table n c m ls vs) \<longleftrightarrow> (\<exists>t. enum_attr_str n c (unat m) ls vs = Inr t)"
| "hier_op_ok _ \<longleftrightarrow> True"

definition hier_rel :: "fstWriterContext \<Rightarrow> hstate \<Rightarrow> bool" where
  "hier_rel xc s \<longleftrightarrow>
     hier_ok xc \<and> maxhandle xc = s_handles s \<and> max_enumhandle xc = s_enums s
     \<and> path_array_count xc = of_nat (length (s_paths s))
     \<and> jdict_ok 0xFFFF (path_array xc) \<and> jmap 0xFFFF (path_array xc) = path_nos (s_paths s)"

lemma path_nos_new:
  assumes "path_nos ps p = None"
  shows "path_nos (ps @ [p]) = (path_nos ps)(p \<mapsto> of_nat (length ps + 1))"
proof -
  have up: "[1..<Suc (length (ps @ [p]))] = [1..<Suc (length ps)] @ [Suc (length ps)]" by simp
  have "zip (ps @ [p]) (map of_nat [1..<Suc (length (ps @ [p]))])
    = zip ps (map of_nat [1..<Suc (length ps)]) @ [(p, of_nat (length ps + 1) :: u32)]"
    unfolding up map_append by (subst zip_append) (simp_all del: upt_Suc)
  then have "path_nos (ps @ [p]) = [p \<mapsto> of_nat (length ps + 1)] ++ path_nos ps"
    unfolding path_nos_def by (simp only: map_of_append map_of.simps fst_conv snd_conv)
  with assms show ?thesis by (auto simp: map_add_def fun_eq_iff split: option.splits)
qed

lemma path_nos_nonzero:
  assumes "length ps < 2 ^ 32 - 1" and "path_nos ps p = Some no"
  shows "no \<noteq> 0"
proof -
  from assms(2) have "no \<in> set (map of_nat [1..<Suc (length ps)])"
    unfolding path_nos_def by (meson in_set_zipE map_of_SomeD)
  then obtain k where k: "no = of_nat k" "1 \<le> k" "k \<le> length ps" by auto
  then have "unat no = k"
    using assms(1) by (simp add: of_nat_inverse)
  with k(2) show ?thesis by auto
qed

lemma ucast_u32_u64_0 [simp]: "(ucast (w :: u32) :: u64) = 0 \<longleftrightarrow> w = 0"
proof
  assume "(ucast w :: u64) = 0"
  moreover have "unat (ucast w :: u64) = unat w"
    using unat_u32 [of w] by (simp add: unsigned_ucast_eq take_bit_nat_eq_self_iff)
  ultimately have "unat w = 0" by simp
  then show "w = 0" by (simp only: unat_eq_zero)
qed simp

lemma hier_rel_add:
  "hier_rel xc s \<Longrightarrow> hier_rel (hier_add bs xc) s
    \<and> f_data (hier_handle (hier_add bs xc)) = f_data (hier_handle xc) @ bs"
  using hier_add_ok [of xc bs] by (simp add: hier_rel_def)

text \<open>A source stem.\<close>

lemma SourceStem_eq:
  assumes rel: "hier_rel xc s" and room: "length (s_paths s) < 2 ^ 32 - 1"
  shows "\<exists>xc'. fstWriterSetSourceStem_2 rp (Some xc) (Some p) l u typ = Inr (Some xc')
    \<and> hier_rel xc' (snd (stem_items rp s p l u typ))
    \<and> f_data (hier_handle xc') = f_data (hier_handle xc) @ hier_bytes (fst (stem_items rp s p l u typ))"
proof (cases "p = []")
  case True
  then show ?thesis using rel by (simp add: fstWriterSetSourceStem_2_def stem_items_def)
next
  case False
  let ?no = "path_array_count xc + 1"
  have cnt: "path_array_count xc = of_nat (length (s_paths s))"
    and jd: "jdict_ok 0xFFFF (path_array xc)" "jmap 0xFFFF (path_array xc) = path_nos (s_paths s)"
    using rel by (simp_all add: hier_rel_def)
  have no: "?no = of_nat (length (s_paths s) + 1)" by (simp add: cnt)
  have no0: "?no \<noteq> 0"
  proof -
    have "unat (of_nat (length (s_paths s) + 1) :: u32) = length (s_paths s) + 1"
      using room by (intro of_nat_inverse) auto
    then show ?thesis unfolding no by (metis Suc_eq_plus1 nat.distinct(1) unat_0)
  qed
  obtain base where base: "find_or_set 0xFFFF (path_array xc) p ?no = Inr (path_nos (s_paths s) p, base)"
    "jdict_ok 0xFFFF base"
    "jmap 0xFFFF base = (if path_nos (s_paths s) p = None then (path_nos (s_paths s))(p \<mapsto> ?no) else path_nos (s_paths s))"
    using jd.ins [OF jd(1) no0, of p] jd(2) by auto
  show ?thesis
  proof (cases "path_nos (s_paths s) p")
    case (Some n)
    let ?xc = "xc\<lparr>path_array := base\<rparr>"
    have n0: "n \<noteq> 0" using path_nos_nonzero [OF room Some] .
    have r: "hier_rel ?xc s" using rel base Some by (simp add: hier_rel_def hier_ok_def)
    have "fstWriterSetSourceStem_2 rp (Some xc) (Some p) l u typ
      = fstWriterSetAttrDoubleArgGeneric (Some ?xc) typ (ucast n) (ucast l)"
      using False base(1) Some by (simp add: fstWriterSetSourceStem_2_def)
    then show ?thesis
      using False Some n0 hier_rel_add [OF r] by (simp add: SetAttrDoubleArg_eq stem_items_def)
  next
    case None
    let ?xc = "xc\<lparr>path_array := base, path_array_count := ?no\<rparr>"
    let ?full = "if u \<noteq> 0 then (case rp p of Some r \<Rightarrow> r | None \<Rightarrow> p) else p"
    let ?a = "hitem_bytes (attr_item 0 FST_MT_PATHNAME (no_newlines ?full) (ucast ?no))"
    let ?b = "hitem_bytes (attr_item 0 typ (varint (ucast ?no :: u64)) (ucast l))"
    have r: "hier_rel ?xc (s\<lparr>s_paths := s_paths s @ [p]\<rparr>)"
      using rel base None path_nos_new [OF None] no
      by (simp add: hier_rel_def hier_ok_def add.commute)
    have "fstWriterSetSourceStem_2 rp (Some xc) (Some p) l u typ
      = Inr (Some (hier_add ?b (hier_add ?a ?xc)))"
      using False base(1) None no0
      by (cases "u = 0"; cases "rp p")
        (simp_all add: fstWriterSetSourceStem_2_def Let_def SetAttrGeneric_eq SetAttrDoubleArg_eq)
    then show ?thesis
      using False None hier_rel_add [OF r, of "?a @ ?b"]
      by (simp add: stem_items_def Let_def hier_add_add no)
  qed
qed

text \<open>A variable.\<close>

lemma CreateVar_spec:
  assumes rel: "hier_rel xc s"
  shows "\<exists>xc'. fstWriterCreateVar (Some xc) vt vd n (Some nm) a
      = Inr (fst (snd (var_items s vt vd n nm a)), Some xc')
    \<and> hier_rel xc' (snd (snd (var_items s vt vd n nm a)))
    \<and> f_data (hier_handle xc') = f_data (hier_handle xc) @ hitem_bytes (fst (var_items s vt vd n nm a))"
proof -
  have al: "var_alias xc a = (if a > s_handles s then 0 else a)"
    using rel by (simp add: var_alias_def hier_rel_def)
  note base = var_base_ok [of xc vt vd n nm a]
  show ?thesis
  proof (cases "var_alias xc a = 0")
    case True
    then show ?thesis
      using rel base al
      by (auto simp: CreateVar_eq new_handle_eq var_items_def Let_def hier_rel_def hier_ok_def)
  next
    case False
    then show ?thesis
      using rel base al
      by (auto simp: CreateVar_eq var_items_def Let_def hier_rel_def hier_ok_def split: if_splits)
  qed
qed

lemma hier_step_spec:
  assumes rel: "hier_rel xc s" and ok: "hier_op_ok p" and room: "length (s_paths s) < 2 ^ 32 - 1"
  shows "\<exists>xc'. hier_step rp (Some xc) p = Inr (fst (snd (hier_spec rp s p)), Some xc')
    \<and> hier_rel xc' (snd (snd (hier_spec rp s p)))
    \<and> f_data (hier_handle xc') = f_data (hier_handle xc) @ hier_bytes (fst (hier_spec rp s p))"
proof -
  note add = hier_rel_add [OF rel]
  note gen = fstWriterSetComment_def fstWriterSetValueList_def fstWriterSetEnvVar_def
    SetAttrGeneric_eq SetAttrBegin_eq no_handle_def opt_str_def
  show ?thesis
  proof (cases p)
    case (Scope t n c)
    have "hier_rel (xc'\<lparr>numscopes := k\<rparr>) s \<longleftrightarrow> hier_rel xc' s" for xc' k
      by (simp add: hier_rel_def hier_ok_def)
    then show ?thesis using add by (simp add: Scope SetScope_eq)
  next
    case (Source_stem path l u)
    then show ?thesis
      using SourceStem_eq [OF rel room, of rp path l u FST_MT_SOURCESTEM]
      by (auto simp: fstWriterSetSourceStem_def no_handle_def split: prod.splits)
  next
    case (Source_istem path l u)
    then show ?thesis
      using SourceStem_eq [OF rel room, of rp path l u FST_MT_SOURCEISTEM]
      by (auto simp: fstWriterSetSourceInstantiationStem_def no_handle_def split: prod.splits)
  next
    case (Enum_table n c m ls vs)
    show ?thesis
    proof (cases "c = 0")
      case True
      then show ?thesis using rel by (simp add: Enum_table fstWriterCreateEnumTable_def)
    next
      case False
      obtain t where t: "enum_attr_str n c (unat m) ls vs = Inr t" using ok Enum_table by auto
      let ?xc = "xc\<lparr>max_enumhandle := max_enumhandle xc + 1\<rparr>"
      have "hier_rel ?xc (s\<lparr>s_enums := s_enums s + 1\<rparr>)" "max_enumhandle xc = s_enums s"
        using rel by (simp_all add: hier_rel_def hier_ok_def)
      then show ?thesis
        using False t hier_rel_add [of ?xc "s\<lparr>s_enums := s_enums s + 1\<rparr>"]
        by (simp add: Enum_table fstWriterCreateEnumTable_def SetAttrBegin_eq Let_def)
    qed
  next
    case (Var vt vd n nm a)
    then show ?thesis
      using CreateVar_spec [OF rel, of vt vd n nm a] by (auto split: prod.split)
  next
    case (Var2 vt vd n nm a ty svt sdt)
    let ?i = "attr_item 0 FST_MT_SUPVAR (no_newlines (opt_str ty)) (ucast (push_bit 10 svt OR (sdt AND 1023)))"
    let ?xc = "hier_add (hitem_bytes ?i) xc"
    have "hier_step rp (Some xc) p = fstWriterCreateVar (Some ?xc) vt vd n (Some nm) a"
      by (cases ty) (simp_all add: Var2 fstWriterCreateVar2_def SetAttrGeneric_eq opt_str_def)
    then show ?thesis
      using CreateVar_spec [of ?xc s vt vd n nm a] add [of "hitem_bytes ?i"]
      by (auto simp: Var2 split: prod.split)
  qed (use rel add in \<open>simp_all add: gen SetUpscope_eq SetAttrEnd_eq fstWriterEmitEnumTableRef_def\<close>)
qed

fun hier_run :: "(bytes \<Rightarrow> bytes option) \<Rightarrow> wctx \<Rightarrow> hier_op list \<Rightarrow> (u32 list \<times> wctx) outcome" where
  "hier_run rp ctx [] = Inr ([], ctx)"
| "hier_run rp ctx (p # ps) =
     andthen (hier_step rp ctx p) (\<lambda>(h, ctx'). andthen (hier_run rp ctx' ps) (\<lambda>(hs, ctx''). Inr (h # hs, ctx'')))"

fun hier_spec_run :: "(bytes \<Rightarrow> bytes option) \<Rightarrow> hstate \<Rightarrow> hier_op list \<Rightarrow> hitem list \<times> u32 list \<times> hstate" where
  "hier_spec_run rp s [] = ([], [], s)"
| "hier_spec_run rp s (p # ps) =
     (let (its, h, s1) = hier_spec rp s p; (its', hs, s2) = hier_spec_run rp s1 ps
      in (its @ its', h # hs, s2))"

lemma hier_spec_paths:
  "length (s_paths (snd (snd (hier_spec rp s p)))) \<le> length (s_paths s) + 1"
  by (cases p) (auto simp: stem_items_def var_items_def Let_def split: prod.splits option.splits if_splits)

lemma hier_run_spec:
  assumes "hier_rel xc s" and "\<forall>p \<in> set ps. hier_op_ok p" and "length (s_paths s) + length ps < 2 ^ 32 - 1"
  shows "\<exists>xc'. hier_run rp (Some xc) ps = Inr (fst (snd (hier_spec_run rp s ps)), Some xc')
    \<and> hier_rel xc' (snd (snd (hier_spec_run rp s ps)))
    \<and> f_data (hier_handle xc') = f_data (hier_handle xc) @ hier_bytes (fst (hier_spec_run rp s ps))"
  using assms
proof (induction ps arbitrary: xc s)
  case (Cons p ps)
  obtain xc1 where 1: "hier_step rp (Some xc) p = Inr (fst (snd (hier_spec rp s p)), Some xc1)"
    "hier_rel xc1 (snd (snd (hier_spec rp s p)))"
    "f_data (hier_handle xc1) = f_data (hier_handle xc) @ hier_bytes (fst (hier_spec rp s p))"
    using hier_step_spec [of xc s p rp] Cons.prems by auto
  have "length (s_paths (snd (snd (hier_spec rp s p)))) + length ps < 2 ^ 32 - 1"
    using hier_spec_paths [of rp s p] Cons.prems(3) by simp
  from Cons.IH [OF 1(2) _ this] obtain xc2 where
    "hier_run rp (Some xc1) ps = Inr (fst (snd (hier_spec_run rp (snd (snd (hier_spec rp s p))) ps)), Some xc2)"
    "hier_rel xc2 (snd (snd (hier_spec_run rp (snd (snd (hier_spec rp s p))) ps)))"
    "f_data (hier_handle xc2) = f_data (hier_handle xc1)
      @ hier_bytes (fst (hier_spec_run rp (snd (snd (hier_spec rp s p))) ps))"
    using Cons.prems(2) by auto
  with 1 show ?case by (auto split: prod.splits)
qed auto

definition hstate_init :: hstate where
  "hstate_init = \<lparr>s_handles = 0, s_paths = [], s_enums = 0\<rparr>"

lemma Create_hier_rel:
  "\<exists>xc. fstWriterCreate True True mi wt (Some n) u = Some xc \<and> hier_rel xc hstate_init
    \<and> f_data (hier_handle xc) = []"
  by (simp add: fstWriterCreate_def fstDetermineBreakSize_def fstWriterEmitHdrBytes_def on_handle_def Let_def
      hier_rel_def hier_ok_def writer_zero_def hstate_init_def jdict_ok_empty jmap_empty path_nos_def new_file_def at_end_def)

section \<open>Properties\<close>

text \<open>
  C14. Every sequence of hierarchy operations on a new writer (scopes, attributes, comments, source
  stems, enumeration tables, variables, aliases) returns the handles of the specification, in the
  order of creation, and leaves in the hierarchy file exactly the encodings of the specified items;
  \<open>hier_file_len\<close>, which the close routine trusts, is the length of that file. A path is written
  once and referred to by its number ever after; an alias of an unknown handle becomes a new one.
\<close>

theorem hierarchy_refines:
  assumes "\<forall>p \<in> set ps. hier_op_ok p" and "length ps < 2 ^ 32 - 1"
  shows "\<exists>xc xc'. fstWriterCreate True True mi wt (Some n) u = Some xc
    \<and> hier_run rp (Some xc) ps = Inr (fst (snd (hier_spec_run rp hstate_init ps)), Some xc')
    \<and> f_data (hier_handle xc') = hier_bytes (fst (hier_spec_run rp hstate_init ps))
    \<and> hier_file_len xc' = length (f_data (hier_handle xc'))
    \<and> maxhandle xc' = s_handles (snd (snd (hier_spec_run rp hstate_init ps)))"
proof -
  obtain xc where xc: "fstWriterCreate True True mi wt (Some n) u = Some xc" "hier_rel xc hstate_init"
    "f_data (hier_handle xc) = []"
    using Create_hier_rel by blast
  have "length (s_paths hstate_init) + length ps < 2 ^ 32 - 1"
    using assms(2) by (simp add: hstate_init_def)
  from hier_run_spec [OF xc(2) assms(1) this, of rp] xc show ?thesis
    by (auto simp: hier_rel_def hier_ok_def)
qed

lemma hierarchy_refines_witness:
  "\<exists>xc xc'. fstWriterCreate True True None [] (Some [97]) 1 = Some xc
    \<and> hier_run (\<lambda>_. None) (Some xc)
        [Scope 0 (Some [116]) None, Var 16 0 4 [97] 0, Var 16 0 4 [98] 1, Var 3 0 1 [99] 9, Upscope]
       = Inr ([0, 1, 1, 2, 0], Some xc')
    \<and> hier_file_len xc' = length (f_data (hier_handle xc'))"
proof -
  let ?ps = "[Scope 0 (Some [116]) None, Var 16 0 4 [97] 0, Var 16 0 4 [98] 1, Var 3 0 1 [99] 9, Upscope]"
  have "\<forall>p \<in> set ?ps. hier_op_ok p" "length ?ps < 2 ^ 32 - 1" by simp_all
  from hierarchy_refines [OF this, of None "[]" "[97]" 1 "\<lambda>_. None"]
  have "\<exists>xc xc'. fstWriterCreate True True None [] (Some [97]) 1 = Some xc
    \<and> hier_run (\<lambda>_. None) (Some xc) ?ps
      = Inr (fst (snd (hier_spec_run (\<lambda>_. None) hstate_init ?ps)), Some xc')
    \<and> hier_file_len xc' = length (f_data (hier_handle xc'))"
    by blast
  moreover have "fst (snd (hier_spec_run (\<lambda>_. None) hstate_init ?ps)) = [0, 1, 1, 2, 0]"
    by (simp add: var_items_def hstate_init_def)
  ultimately show ?thesis by (simp only:)
qed

end
