(* ===== verification/Writer_Close.thy ===== *)
theory Writer_Close
  imports Flush Hier_Writer
begin

text \<open>
  \<open>fstWriterClose\<close> of \<open>fstapi.c\<close> (lines 1932 to 2286): the last value change block, the geometry,
  dump activity and hierarchy sections, the final header, and the optional compression of the whole
  file. The second part states what each section appends to the file.

  \<open>gz\<close> gives the bytes that \<open>gzwrite\<close> of these chunks and \<open>gzclose\<close> put into the file, or \<open>None\<close>
  when \<open>gzdopen\<close> fails; \<open>junk\<close> is the contents of the copy buffer before the first read. \<open>malloc\<close> is taken
  to succeed. \<open>mm f n\<close> is what the first \<open>n\<close> bytes of a mapping of the file under the open stream \<open>f\<close> read as:
  the code does not flush the hierarchy stream before it maps the file for LZ4, so bytes that are still in the
  buffer of the stream are missing there, and nothing about \<open>mm\<close> is assumed here.
\<close>

section \<open>The last block\<close>

text \<open>Without any time change the current values become changes at time zero.\<close>

primrec clone_values :: "nat list \<Rightarrow> wctx \<Rightarrow> wctx outcome" where
  "clone_values [] ctx = Inr ctx"
| "clone_values (i # is) ctx =
     (case ctx of None \<Rightarrow> Inl Null_deref
      | Some xc \<Rightarrow>
          andthen (vm4ip xc (of_nat i) 0) (\<lambda>offs.
          andthen (fstWriterEmitValueChange ctx (of_nat i + 1) (drop (unat offs) (curval xc)))
            (clone_values is)))"

definition close_changes :: "packers \<Rightarrow> fstWriterContext \<Rightarrow> fstWriterContext outcome" where
  "close_changes pk xc =
     (if section_header_only xc \<and> section_header_truncpos xc \<noteq> 0 \<and> vchg_siz xc \<le> 1 \<and> \<not> is_initial_time xc
      then let xc = on_handle (\<lambda>h. fstFtruncate h (section_header_truncpos xc)) xc;
               xc = fstWriterFseeko (int (section_header_truncpos xc)) SEEK_SET xc
           in Inr (xc\<lparr>section_header_only := False\<rparr>)
      else let xc = xc\<lparr>skip_writing_section_hdr := True\<rparr>
           in if size_limit_locked xc then Inr xc
              else andthen (if is_initial_time xc
                            then andthen (fstWriterEmitTimeChange pk (Some xc) 0) (\<lambda>ctx.
                                 andthen (clone_values [0..<unat (maxhandle xc)] ctx) (\<lambda>ctx.
                                   case ctx of None \<Rightarrow> Inl Null_deref | Some xc \<Rightarrow> Inr xc))
                            else Inr xc)
                     (fstWriterFlushContextPrivate pk))"

section \<open>The sections behind it\<close>

text \<open>The tag replaces the placeholder; the position goes back to the end.\<close>

definition seal :: "u8 \<Rightarrow> nat \<Rightarrow> fstWriterContext \<Rightarrow> fstWriterContext" where
  "seal tag fixup_offs xc =
     fstWriterFseeko 0 SEEK_END (on_handle (fputc tag) (fstWriterFseeko (int fixup_offs) SEEK_SET xc))"

definition close_geom :: "packers \<Rightarrow> fstWriterContext \<Rightarrow> fstWriterContext" where
  "close_geom pk xc =
     (let tlen = ftello (geom_handle xc)
      in if tlen = 0 then xc
         else let tmem = take tlen (f_data (geom_handle xc));
                  packed = (case compress2 pk 9 tmem of
                              Some d \<Rightarrow> if length d < tlen then d else tmem
                            | None \<Rightarrow> tmem);
                  fixup_offs = ftello (handle xc);
                  xc = on_handle (\<lambda>h. fstFwrite packed (fstWriterUint64 (ucast (maxhandle xc))
                         (fstWriterUint64 (of_nat tlen) (fstWriterUint64 (of_nat (length packed) + 24)
                           (fputc FST_BL_SKIP h))))) xc
              in seal FST_BL_GEOM fixup_offs xc)"

primrec blackout_loop :: "nat \<Rightarrow> u64 \<Rightarrow> (u64 \<times> bool) list \<Rightarrow> cfile \<Rightarrow> cfile outcome" where
  "blackout_loop 0 cur_bl chain h = Inr h"
| "blackout_loop (Suc n) cur_bl chain h =
     (case chain of [] \<Rightarrow> Inl Null_deref
      | (tim, active) # next \<Rightarrow>
          andthen (fstWriterVarint (tim - cur_bl) (fputc (of_bool active) h)) (\<lambda>(_, h).
            blackout_loop n tim next h))"

definition close_blackouts :: "fstWriterContext \<Rightarrow> fstWriterContext outcome" where
  "close_blackouts xc =
     (if num_blackouts xc = 0 then Inr xc
      else let fixup_offs = ftello (handle xc);
               xc = on_handle (\<lambda>h. fstWriterUint64 0 (fputc FST_BL_SKIP h)) xc;
               bpos = fixup_offs + 1
           in andthen (fstWriterVarint (ucast (num_blackouts xc)) (handle xc)) (\<lambda>(_, h).
              andthen (blackout_loop (unat (num_blackouts xc)) 0 (blackout_head xc) h) (\<lambda>h.
              let xc = xc\<lparr>handle := h, blackout_head := drop (unat (num_blackouts xc)) (blackout_head xc)\<rparr>;
                  eos = ftello (handle xc);
                  xc = fstWriterFseeko (int bpos) SEEK_SET xc;
                  xc = on_handle (fstWriterUint64 (of_nat (eos - bpos))) xc
              in Inr (seal FST_BL_BLACKOUT fixup_offs xc))))"

definition FST_HDR_FOURPACK_DUO_SIZE :: nat where
  "FST_HDR_FOURPACK_DUO_SIZE = 4 * 1024 * 1024"

text \<open>The chunks that go through the copy buffer; a short read leaves the rest of it as it was.\<close>

function gz_chunks :: "bytes \<Rightarrow> nat \<Rightarrow> cfile \<Rightarrow> bytes list" where
  "gz_chunks mem n f =
     (if n = 0 then []
      else let k = min n FST_GZIO_LEN; (bs, _, f) = fstFread k f; mem = bs @ drop (length bs) mem
           in take k mem # gz_chunks mem (n - k) f)"
  by pat_completeness auto
termination
  by (relation "measure (\<lambda>(mem, n, f). n)") (auto simp: FST_GZIO_LEN_def)

declare gz_chunks.simps [simp del]

definition rewound :: "cfile \<Rightarrow> cfile" where
  "rewound f = snd (fseeko f 0 SEEK_SET)"

text \<open>
  The packed hierarchy, with the tag that says how it was packed. For LZ4 the length of the file, an
  \<open>fst_off_t\<close>, is narrowed to the \<open>int\<close> of \<open>LZ4_compressBound\<close> and \<open>LZ4_compress_default\<close>; these return 0
  for a negative one.
\<close>

type_synonym mapping = "cfile \<Rightarrow> nat \<Rightarrow> bytes outcome"

definition pack_hier ::
    "packers \<Rightarrow> (bytes list \<Rightarrow> bytes option) \<Rightarrow> mapping \<Rightarrow> bytes \<Rightarrow> fstWriterContext \<Rightarrow> (u8 \<times> cfile) outcome" where
  "pack_hier pk gz mm junk xc =
     (if \<not> fourpack xc
      then Inr (FST_BL_HIER,
             (case gz (gz_chunks junk (hier_file_len xc) (rewound (hier_handle xc))) of
                None \<Rightarrow> handle xc
              | Some z \<Rightarrow> fstFwrite z (handle xc)))
      else let srcSize = sint (of_nat (hier_file_len xc) :: u32)
           in andthen (if srcSize \<le> 0 then Inr [] else mm (hier_handle xc) (nat srcSize)) (\<lambda>hmem.
           let mem = (if srcSize < 0 then [] else LZ4_compress_default pk hmem)
           in if \<not> repack_on_close xc \<and> hier_file_len xc > FST_HDR_FOURPACK_DUO_SIZE
              then andthen (fstWriterVarint (of_nat (length mem)) (handle xc)) (\<lambda>(_, h).
                     Inr (FST_BL_HIER_LZ4DUO, fstFwrite (LZ4_compress_default pk mem) h))
              else Inr (FST_BL_HIER_LZ4, fstFwrite mem (handle xc))))"

definition close_hier ::
    "packers \<Rightarrow> (bytes list \<Rightarrow> bytes option) \<Rightarrow> mapping \<Rightarrow> bytes \<Rightarrow> fstWriterContext \<Rightarrow> fstWriterContext outcome" where
  "close_hier pk gz mm junk xc =
     (if \<not> compress_hier xc then Inr xc
      else let fixup_offs = ftello (handle xc);
               xc = on_handle (fputc FST_BL_SKIP) xc;
               hlen = ftello (handle xc);
               xc = on_handle (\<lambda>h. fstWriterUint64 (of_nat (hier_file_len xc)) (fstWriterUint64 0 h)) xc
           in andthen (pack_hier pk gz mm junk xc) (\<lambda>(tag, h).
              let xc = fstWriterFseeko 0 SEEK_END (xc\<lparr>handle := h\<rparr>);
                  eos = ftello (handle xc);
                  xc = fstWriterFseeko (int hlen) SEEK_SET xc;
                  xc = on_handle (fstWriterUint64 (of_nat (eos - hlen))) xc
              in Inr (seal tag fixup_offs xc)))"

section \<open>The whole file\<close>

text \<open>The copy under \<open>.pak\<close>, compressed as a whole.\<close>

definition repack :: "(bytes list \<Rightarrow> bytes option) \<Rightarrow> bytes \<Rightarrow> cfile \<Rightarrow> bytes" where
  "repack gz junk h =
     (let uclen = length (f_data h);
          fp = fstWriterUint64 (of_nat uclen) (fstWriterUint64 0 (fputc FST_BL_ZWRAPPER new_file));
          fp = (case gz (gz_chunks junk uclen (rewound h)) of
                  None \<Rightarrow> fp
                | Some z \<Rightarrow> fstFwrite z fp);
          fp = snd (fseeko fp 0 SEEK_END);
          offpnt = ftello fp;
          fp = fstWriterUint64 (of_nat (offpnt - 1)) (snd (fseeko fp 1 SEEK_SET))
      in f_data fp)"

text \<open>
  What is left on the disk: the file, and the hierarchy file unless it was unlinked. \<open>pak_ok\<close> says
  whether the copy can be opened.
\<close>

record closed =
  cl_file :: bytes
  cl_hier :: "bytes option"

definition fstWriterClose ::
    "packers \<Rightarrow> (bytes list \<Rightarrow> bytes option) \<Rightarrow> mapping \<Rightarrow> bytes \<Rightarrow> bool \<Rightarrow> wctx \<Rightarrow> closed option outcome" where
  "fstWriterClose pk gz mm junk pak_ok ctx =
     (case ctx of None \<Rightarrow> Inr None
      | Some xc \<Rightarrow>
        if already_in_close xc \<or> already_in_flush xc then Inr None
        else andthen (close_changes pk (xc\<lparr>already_in_close := True\<rparr>)) (\<lambda>xc.
             andthen (close_blackouts (close_geom pk (fstDestroyMmaps xc))) (\<lambda>xc.
             andthen (close_hier pk gz mm junk xc) (\<lambda>xc.
             let xc = update_header_counts xc
             in andthen (JenkinsFree (path_array xc) 0xFFFF) (\<lambda>_.
                Inr (Some \<lparr>cl_file = (if repack_on_close xc \<and> pak_ok then repack gz junk (handle xc)
                                      else f_data (handle xc)),
                          cl_hier = (if compress_hier xc then None else Some (f_data (hier_handle xc)))\<rparr>))))))"

end
