(* ===== verification/Hier_Reader.thy ===== *)
theory Hier_Reader
  imports Reader_Context Varint
begin

text \<open>
  The reader's side of the hierarchy (\<open>fstapi.c\<close>, lines 3924 to 4276): rebuilding the hierarchy
  file from its section, rewinding it, and the iterator over its items. Names longer than the
  buffers are cut; a name that the file ends in is a loop that never ends, since \<open>fgetc\<close> then
  returns -1 for ever.
\<close>

section \<open>Rebuilding the hierarchy file\<close>

text \<open>
  What is not in the program is an argument: \<open>gz\<close> gives the bytes \<open>gzread\<close> delivers from a
  position of the file on, or \<open>None\<close> when \<open>gzdopen\<close> fails, \<open>lz4\<close> the return value of
  \<open>LZ4_decompress_safe_partial\<close> and the bytes of its target, and \<open>fh_ok\<close> whether a temporary
  file can be made.
\<close>

text \<open>The copy loop: chunks of \<open>FST_GZIO_LEN\<close>, given up at the first short one.\<close>

function gz_copy :: "bytes \<Rightarrow> nat \<Rightarrow> cfile \<Rightarrow> bool \<times> cfile" where
  "gz_copy z uclen fh =
     (if uclen = 0 then (True, fh)
      else let n = min uclen FST_GZIO_LEN
           in if length z < n then (False, fh)
              else gz_copy (drop n z) (uclen - n) (fstFwrite (take n z) fh))"
  by pat_completeness auto
termination
  by (relation "measure (\<lambda>(z, uclen, fh). uclen)") (auto simp: FST_GZIO_LEN_def)

declare gz_copy.simps [simp del]

text \<open>A negative \<open>fst_off_t\<close> makes the loop condition false at once.\<close>

definition off_nat :: "u64 \<Rightarrow> nat" where
  "off_nat v = nat (sint v)"

text \<open>
  \<open>fread\<close> of \<open>n\<close> bytes into memory from \<open>malloc\<close>: what a short read leaves unread is what stood there, \<open>junk\<close> and
  zeros behind it. The sizes go to \<open>lz4\<close> as they are; that \<open>LZ4_decompress_safe_partial\<close> takes them as \<open>int\<close> is a matter
  of that argument.
\<close>

definition into_malloc :: "bytes \<Rightarrow> nat \<Rightarrow> bytes \<Rightarrow> bytes" where
  "into_malloc junk n bs = bs @ drop (length bs) (take n junk @ replicate (n - length junk) 0)"

lemma into_malloc_full [simp]: "length bs = n \<Longrightarrow> into_malloc junk n bs = bs"
  by (simp add: into_malloc_def)

definition fstReaderRecreateHierFile ::
    "(bytes \<Rightarrow> bytes option) \<Rightarrow> (bytes \<Rightarrow> nat \<Rightarrow> int \<times> bytes) \<Rightarrow> bool \<Rightarrow> bytes
      \<Rightarrow> fstReaderContext \<Rightarrow> (bool \<times> fstReaderContext) outcome" where
  "fstReaderRecreateHierFile gz lz4 fh_ok junk xc =
     (if xc_fh xc \<noteq> None then Inr (True, xc)
      else
        let offs_cache = ftello (xc_f xc);
            seek = (\<lambda>off xc. let (_, h, xc') = fstReaderFseeko xc (xc_f xc) off SEEK_SET in xc'\<lparr>xc_f := h\<rparr>);
            get64 = (\<lambda>xc. let (v, h) = fstReaderUint64 junk (xc_f xc) in (v, xc\<lparr>xc_f := h\<rparr>));
            back = (\<lambda>st xc. Inr (st, seek (int offs_cache) xc));
            xc = seek (int (hier_pos xc)) xc;
            (uclen, xc) = get64 xc
        in if contains_hier_section xc \<and> \<not> contains_hier_section_lz4 xc
           then (case gz (drop (f_pos (xc_f xc)) (f_data (xc_f xc))) of
                   None \<Rightarrow> Inr (False, xc)
                 | Some z \<Rightarrow>
                     if \<not> fh_ok then Inr (False, xc)
                     else let (st, fh) = gz_copy z (off_nat uclen) new_file
                          in back st (xc\<lparr>xc_fh := Some fh\<rparr>))
           else if contains_hier_section_lz4 xc \<and> \<not> contains_hier_section xc
           then let xc = seek (int (hier_pos xc) - 8) xc;
                    (sec, xc) = get64 xc;
                    clen = unat (sec - 16);
                    (uclen, xc) = get64 xc
                in if \<not> fh_ok then Inr (False, xc)
                   else let (bs, _, h) = fstFread clen (xc_f xc);
                            cmem = into_malloc junk clen bs;
                            xc = xc\<lparr>xc_f := h\<rparr>
                        in if contains_hier_section_lz4duo xc
                           then andthen (fstGetVarint64 cmem) (\<lambda>(uclen2, skiplen2).
                                  let (rc, ucmem2) = lz4 (drop skiplen2 cmem) (unat uclen2)
                                  in if of_int rc = uclen2
                                     then let (rc2, ucmem) = lz4 ucmem2 (unat uclen)
                                          in back (sint uclen = rc2 \<and> uclen \<noteq> 0)
                                               (xc\<lparr>xc_fh := Some (fstFwrite ucmem new_file)\<rparr>)
                                     else back False (xc\<lparr>xc_fh := Some new_file\<rparr>))
                           else let (rc, ucmem) = lz4 cmem (unat uclen)
                                in back (sint uclen = rc \<and> uclen \<noteq> 0)
                                     (xc\<lparr>xc_fh := Some (fstFwrite ucmem new_file)\<rparr>)
           else back False xc)"

definition fstReaderIterateHierRewind ::
    "(fstReaderContext \<Rightarrow> (bool \<times> fstReaderContext) outcome) \<Rightarrow> rctx \<Rightarrow> (bool \<times> rctx) outcome" where
  "fstReaderIterateHierRewind recreate ctx =
     (case ctx of None \<Rightarrow> Inr (False, None)
      | Some xc \<Rightarrow>
        andthen (if xc_fh xc = None then recreate xc else Inr (True, xc))
          (\<lambda>(st, xc). Inr (st, Some (xc\<lparr>do_rewind := True\<rparr>))))"

section \<open>The iterator\<close>

text \<open>\<open>struct fstHier\<close>; \<open>arg_from_name\<close> is set for source stems only.\<close>

datatype fstHier =
    H_scope (h_typ: u8) (h_name: bytes) (h_component: bytes)
  | H_upscope
  | H_attrbegin u8 u8 bytes u64 "u64 option"
  | H_attrend
  | H_var u8 u8 bytes u32 u32 bool

definition FST_ID_NAM_SIZ :: nat where "FST_ID_NAM_SIZ = 512"
definition FST_ID_NAM_ATTR_SIZ :: nat where "FST_ID_NAM_ATTR_SIZ = 69632"

text \<open>
  \<open>while((ch = fgetc(xc->fh))) { if(cl < siz) pnt[cl++] = ch; }\<close> over the bytes left in the file:
  what is kept, and the number of bytes read. \<open>cl\<close> below is the room left.
\<close>

fun name_loop :: "nat \<Rightarrow> bytes \<Rightarrow> (bytes \<times> nat) outcome" where
  "name_loop room [] = Inl Hang"
| "name_loop room (ch # r) =
     (if ch = 0 then Inr ([], 1)
      else andthen (name_loop (room - 1) r)
             (\<lambda>(s, n). Inr (if 0 < room then ch # s else s, Suc n)))"

definition read_name :: "nat \<Rightarrow> cfile \<Rightarrow> (bytes \<times> cfile) outcome" where
  "read_name siz f =
     andthen (name_loop siz (drop (f_pos f) (f_data f)))
       (\<lambda>(s, n). Inr (s, f\<lparr>f_pos := f_pos f + n\<rparr>))"

text \<open>\<open>x = fgetc(xc->fh)\<close> into an \<open>unsigned char\<close>.\<close>

definition fgetc_u8 :: "cfile \<Rightarrow> u8 \<times> cfile" where
  "fgetc_u8 f = (let (c, f') = fgetc f in (word_of_int c, f'))"

text \<open>The cases of the \<open>switch\<close> on the tag, from the byte behind the tag on.\<close>

definition hier_scope :: "cfile \<Rightarrow> (fstHier \<times> cfile) outcome" where
  "hier_scope f =
     (let (typ, f) = fgetc_u8 f
      in andthen (read_name FST_ID_NAM_SIZ f) (\<lambda>(name, f).
         andthen (read_name FST_ID_NAM_SIZ f) (\<lambda>(comp, f).
           Inr (H_scope typ name comp, f))))"

text \<open>
  For source stems the name is a number: \<open>fstGetVarint64\<close> on the attribute buffer, whose NUL is
  part of it.
\<close>

definition hier_attrbegin :: "cfile \<Rightarrow> (fstHier \<times> cfile) outcome" where
  "hier_attrbegin f =
     (let (typ, f) = fgetc_u8 f; (subtype, f) = fgetc_u8 f
      in andthen (read_name FST_ID_NAM_ATTR_SIZ f) (\<lambda>(name, f).
         andthen (fstReaderVarint64 f) (\<lambda>(arg, f).
           if typ = 0 \<and> (subtype = 4 \<or> subtype = 5)
           then andthen (fstGetVarint64 (name @ [0])) (\<lambda>(v, _).
                  Inr (H_attrbegin typ subtype name arg (Some v), f))
           else Inr (H_attrbegin typ subtype name arg None, f))))"

definition hier_var :: "u8 \<Rightarrow> u32 \<Rightarrow> cfile \<Rightarrow> (fstHier \<times> u32 \<times> cfile) outcome" where
  "hier_var tag cur_handle f =
     (let (dir, f) = fgetc_u8 f
      in andthen (read_name FST_ID_NAM_SIZ f) (\<lambda>(name, f).
         andthen (fstReaderVarint32 f) (\<lambda>(n, f).
           let n = (if tag = 18 then (n - 2) div 3 else n)
           in andthen (fstReaderVarint32 f) (\<lambda>(alias, f).
                if alias = 0
                then Inr (H_var tag dir name n (cur_handle + 1) False, cur_handle + 1, f)
                else Inr (H_var tag dir name n alias True, cur_handle, f)))))"

text \<open>\<open>FST_VT_SV_SHORTREAL\<close>, 29, is the last variable type of the \<open>switch\<close>.\<close>

definition hier_switch :: "int \<Rightarrow> u32 \<Rightarrow> cfile \<Rightarrow> (fstHier option \<times> u32 \<times> cfile) outcome" where
  "hier_switch tag cur_handle f =
     (if tag = 254 then andthen (hier_scope f) (\<lambda>(h, f). Inr (Some h, cur_handle, f))
      else if tag = 255 then Inr (Some H_upscope, cur_handle, f)
      else if tag = 252 then andthen (hier_attrbegin f) (\<lambda>(h, f). Inr (Some h, cur_handle, f))
      else if tag = 253 then Inr (Some H_attrend, cur_handle, f)
      else if 0 \<le> tag \<and> tag \<le> 29
      then andthen (hier_var (word_of_int tag) cur_handle f) (\<lambda>(h, cur, f). Inr (Some h, cur, f))
      else Inr (None, cur_handle, f))"

definition fstReaderIterateHier ::
    "(fstReaderContext \<Rightarrow> (bool \<times> fstReaderContext) outcome) \<Rightarrow> rctx
      \<Rightarrow> (fstHier option \<times> rctx) outcome" where
  "fstReaderIterateHier recreate ctx =
     (case ctx of None \<Rightarrow> Inr (None, None)
      | Some xc \<Rightarrow>
        andthen (if xc_fh xc = None then recreate xc else Inr (True, xc)) (\<lambda>(st, xc).
          if \<not> st then Inr (None, Some xc)
          else case xc_fh xc of
            None \<Rightarrow> Inl Null_deref
          | Some fh \<Rightarrow>
              let (xc, fh) =
                    (if do_rewind xc
                     then let xc = xc\<lparr>do_rewind := False, current_handle := 0\<rparr>;
                              (_, fh, xc) = fstReaderFseeko xc fh 0 SEEK_SET
                          in (xc, fh\<lparr>f_eof := False\<rparr>)
                     else (xc, fh))
              in if f_eof fh then Inr (None, Some (xc\<lparr>xc_fh := Some fh\<rparr>))
                 else let (tag, fh) = fgetc fh
                      in andthen (hier_switch tag (current_handle xc) fh) (\<lambda>(h, cur, fh).
                           Inr (h, Some (xc\<lparr>current_handle := cur, xc_fh := Some fh\<rparr>)))))"

text \<open>The client's loop: the items until the iterator returns null, at most \<open>fuel\<close> of them.\<close>

fun iterate_all ::
    "(fstReaderContext \<Rightarrow> (bool \<times> fstReaderContext) outcome) \<Rightarrow> nat \<Rightarrow> rctx
      \<Rightarrow> (fstHier list \<times> rctx) outcome" where
  "iterate_all recreate 0 ctx = Inl Hang"
| "iterate_all recreate (Suc fuel) ctx =
     andthen (fstReaderIterateHier recreate ctx) (\<lambda>(h, ctx).
       case h of None \<Rightarrow> Inr ([], ctx)
       | Some i \<Rightarrow> andthen (iterate_all recreate fuel ctx) (\<lambda>(is, ctx). Inr (i # is, ctx)))"

section \<open>Lemmas\<close>

lemma name_loop_cstr:
  "0 \<notin> set s \<Longrightarrow> name_loop room (s @ 0 # r) = Inr (take room s, length s + 1)"
proof (induction s arbitrary: room)
  case (Cons b s)
  then show ?case by (cases room) auto
qed simp

lemma name_loop_hang: "0 \<notin> set s \<Longrightarrow> name_loop room s = Inl Hang"
  by (induction s arbitrary: room) auto

lemma read_name_cstr:
  assumes "drop (f_pos f) (f_data f) = s @ 0 # r" and "0 \<notin> set s"
  shows "read_name siz f = Inr (take siz s, f\<lparr>f_pos := f_pos f + length s + 1\<rparr>)"
  using assms by (simp add: read_name_def name_loop_cstr)

lemma read_name_hang:
  assumes "0 \<notin> set (drop (f_pos f) (f_data f))"
  shows "read_name siz f = Inl Hang"
  using name_loop_hang [OF assms] by (simp add: read_name_def)

lemma fgetc_u8_Cons:
  assumes "drop (f_pos f) (f_data f) = b # r"
  shows "fgetc_u8 f = (b, f\<lparr>f_pos := f_pos f + 1\<rparr>)" and "fgetc f = (uint b, f\<lparr>f_pos := f_pos f + 1\<rparr>)"
proof -
  have lt: "f_pos f < length (f_data f)" using assms by (metis drop_eq_Nil leI list.distinct(1))
  moreover have "f_data f ! f_pos f = b" using assms lt by (metis Cons_nth_drop_Suc list.inject)
  ultimately show "fgetc f = (uint b, f\<lparr>f_pos := f_pos f + 1\<rparr>)"
    "fgetc_u8 f = (b, f\<lparr>f_pos := f_pos f + 1\<rparr>)"
    by (simp_all add: fgetc_def fgetc_u8_def)
qed

text \<open>Moving on in a file whose rest is known.\<close>

lemma drop_more: "drop p d = xs @ ys \<Longrightarrow> drop (p + length xs) d = ys"
  by (metis add.commute append_eq_conv_conj drop_drop)

lemma varint_scan_end: "\<exists>i. varint_scan (s @ [0]) = Inr i"
  by (induction s) auto

lemma fstGetVarint64_end: "\<exists>v n. fstGetVarint64 (s @ [0]) = Inr (v, n)"
  using varint_scan_end [of s] by (auto simp: fstGetVarint64_def)

definition name_number :: "bytes \<Rightarrow> u64" where
  "name_number s = (case fstGetVarint64 (s @ [0]) of Inr (v, _) \<Rightarrow> v | Inl _ \<Rightarrow> 0)"

lemma name_number_eq: "\<exists>n. fstGetVarint64 (s @ [0]) = Inr (name_number s, n)"
  using fstGetVarint64_end [of s] by (auto simp: name_number_def)

lemma hier_scope_bytes:
  assumes "drop (f_pos f) (f_data f) = [t] @ n @ [0] @ c @ [0] @ r" and "0 \<notin> set n" and "0 \<notin> set c"
  shows "hier_scope f = Inr (H_scope t (take FST_ID_NAM_SIZ n) (take FST_ID_NAM_SIZ c),
    f\<lparr>f_pos := f_pos f + (length n + length c + 3)\<rparr>)"
proof -
  let ?f1 = "f\<lparr>f_pos := f_pos f + 1\<rparr>"
  let ?f2 = "?f1\<lparr>f_pos := f_pos ?f1 + length n + 1\<rparr>"
  have 1: "drop (f_pos ?f1) (f_data ?f1) = n @ 0 # (c @ [0] @ r)"
    using drop_more [of "f_pos f" "f_data f" "[t]"] assms(1) by simp
  have 2: "drop (f_pos ?f2) (f_data ?f2) = c @ 0 # r"
    using drop_more [of "f_pos ?f1" "f_data ?f1" "n @ [0]"] 1 by simp
  show ?thesis
    using assms(1) read_name_cstr [OF 1 assms(2)] read_name_cstr [OF 2 assms(3)]
    by (simp add: hier_scope_def fgetc_u8_Cons(1) algebra_simps)
qed

lemma hier_attrbegin_bytes:
  assumes "drop (f_pos f) (f_data f) = [t, st] @ n @ [0] @ varint arg @ r" and "0 \<notin> set n"
  shows "hier_attrbegin f = Inr (H_attrbegin t st (take FST_ID_NAM_ATTR_SIZ n) arg
      (if t = 0 \<and> (st = 4 \<or> st = 5) then Some (name_number (take FST_ID_NAM_ATTR_SIZ n)) else None),
    f\<lparr>f_pos := f_pos f + (length n + 3 + length (varint arg))\<rparr>)"
proof -
  let ?f1 = "f\<lparr>f_pos := f_pos f + 1\<rparr>"
  let ?f2 = "?f1\<lparr>f_pos := f_pos ?f1 + 1\<rparr>"
  let ?f3 = "?f2\<lparr>f_pos := f_pos ?f2 + length n + 1\<rparr>"
  have 1: "drop (f_pos ?f1) (f_data ?f1) = st # n @ [0] @ varint arg @ r"
    using drop_more [of "f_pos f" "f_data f" "[t]"] assms(1) by simp
  have 2: "drop (f_pos ?f2) (f_data ?f2) = n @ 0 # (varint arg @ r)"
    using drop_more [of "f_pos ?f1" "f_data ?f1" "[st]"] 1 by simp
  have 3: "drop (f_pos ?f3) (f_data ?f3) = varint arg @ r"
    using drop_more [of "f_pos ?f2" "f_data ?f2" "n @ [0]"] 2 by simp
  obtain k where k: "fstGetVarint64 (take FST_ID_NAM_ATTR_SIZ n @ [0])
      = Inr (name_number (take FST_ID_NAM_ATTR_SIZ n), k)"
    using name_number_eq by blast
  have f1: "fgetc_u8 f = (t, ?f1)" using assms(1) by (simp add: fgetc_u8_Cons(1))
  have f2: "fgetc_u8 ?f1 = (st, ?f2)" using 1 by (simp add: fgetc_u8_Cons(1))
  show ?thesis
    unfolding hier_attrbegin_def f1 f2 prod.case Let_def read_name_cstr [OF 2 assms(2)] andthen_simps
      f64.get_enc [OF 3] k
    by (simp add: algebra_simps)
qed

lemma hier_var_bytes:
  assumes "drop (f_pos f) (f_data f) = [d] @ n @ [0] @ varint l @ varint a @ r" and "0 \<notin> set n"
  shows "hier_var tag cur f = Inr (H_var tag d (take FST_ID_NAM_SIZ n) (if tag = 18 then (l - 2) div 3 else l)
      (if a = 0 then cur + 1 else a) (a \<noteq> 0), if a = 0 then cur + 1 else cur,
    f\<lparr>f_pos := f_pos f + (length n + 2 + length (varint l) + length (varint a))\<rparr>)"
proof -
  let ?f1 = "f\<lparr>f_pos := f_pos f + 1\<rparr>"
  let ?f2 = "?f1\<lparr>f_pos := f_pos ?f1 + length n + 1\<rparr>"
  let ?f3 = "?f2\<lparr>f_pos := f_pos ?f2 + length (varint l)\<rparr>"
  have 1: "drop (f_pos ?f1) (f_data ?f1) = n @ 0 # (varint l @ varint a @ r)"
    using drop_more [of "f_pos f" "f_data f" "[d]"] assms(1) by simp
  have 2: "drop (f_pos ?f2) (f_data ?f2) = varint l @ varint a @ r"
    using drop_more [of "f_pos ?f1" "f_data ?f1" "n @ [0]"] 1 by simp
  have 3: "drop (f_pos ?f3) (f_data ?f3) = varint a @ r"
    using drop_more [of "f_pos ?f2" "f_data ?f2" "varint l"] 2 by simp
  have f1: "fgetc_u8 f = (d, ?f1)" using assms(1) by (simp add: fgetc_u8_Cons(1))
  show ?thesis
    unfolding hier_var_def f1 prod.case Let_def read_name_cstr [OF 1 assms(2)] andthen_simps
      f32.get_enc [OF 2] f32.get_enc [OF 3]
    by (simp add: algebra_simps)
qed

end
