(* ===== verification/Hier_Roundtrip.thy ===== *)
theory Hier_Roundtrip
  imports Hier_Writer Hier_Reader
begin

text \<open>
  The hierarchy from the writer's calls to the reader's items: what \<open>fstReaderIterateHier\<close> makes of
  the bytes of one item, the iteration over a whole file, and the composition of both sides.
\<close>

section \<open>Reading one item\<close>

text \<open>
  What the reader makes of an item: names cut to the reader's buffers, the number in the name of a
  source stem, the size of a port, and the handle, counted up for a variable that is no alias.
\<close>

fun item_view :: "u32 \<Rightarrow> hitem \<Rightarrow> fstHier \<times> u32" where
  "item_view cur (HScope t n c) = (H_scope t (take FST_ID_NAM_SIZ n) (take FST_ID_NAM_SIZ c), cur)"
| "item_view cur HUpscope = (H_upscope, cur)"
| "item_view cur (HAttrBegin t st n arg) =
     (H_attrbegin t st (take FST_ID_NAM_ATTR_SIZ n) arg
        (if t = 0 \<and> (st = 4 \<or> st = 5) then Some (name_number (take FST_ID_NAM_ATTR_SIZ n)) else None), cur)"
| "item_view cur HAttrEnd = (H_attrend, cur)"
| "item_view cur (HVar t d n l a) =
     (H_var t d (take FST_ID_NAM_SIZ n) (if t = 18 then (l - 2) div 3 else l)
        (if a = 0 then cur + 1 else a) (a \<noteq> 0),
      if a = 0 then cur + 1 else cur)"

fun items_view :: "u32 \<Rightarrow> hitem list \<Rightarrow> fstHier list" where
  "items_view cur [] = []"
| "items_view cur (i # is) = (let (v, cur') = item_view cur i in v # items_view cur' is)"

text \<open>Names are C strings; the variable type is one the reader's \<open>switch\<close> knows.\<close>

fun item_ok :: "hitem \<Rightarrow> bool" where
  "item_ok (HScope t n c) \<longleftrightarrow> 0 \<notin> set n \<and> 0 \<notin> set c"
| "item_ok (HAttrBegin t st n arg) \<longleftrightarrow> 0 \<notin> set n"
| "item_ok (HVar t d n l a) \<longleftrightarrow> 0 \<notin> set n \<and> t \<le> 29"
| "item_ok _ \<longleftrightarrow> True"

lemma var_tag:
  fixes t :: u8
  assumes "t \<le> 29"
  shows "0 \<le> uint t" "uint t \<le> 29" "uint t \<noteq> 252" "uint t \<noteq> 253" "uint t \<noteq> 254" "uint t \<noteq> 255"
  using assms by (simp_all add: word_le_def)

lemma hier_switch_item:
  assumes "drop (f_pos f) (f_data f) = hitem_bytes i @ r" and "item_ok i"
  shows "\<exists>tag. fgetc f = (tag, f\<lparr>f_pos := f_pos f + 1\<rparr>)
    \<and> hier_switch tag cur (f\<lparr>f_pos := f_pos f + 1\<rparr>)
      = Inr (Some (fst (item_view cur i)), snd (item_view cur i),
             f\<lparr>f_pos := f_pos f + length (hitem_bytes i)\<rparr>)"
proof -
  let ?f1 = "f\<lparr>f_pos := f_pos f + 1\<rparr>"
  obtain b bs where b: "hitem_bytes i = b # bs" by (cases i) auto
  have g: "fgetc f = (uint b, ?f1)" using assms(1) b by (simp add: fgetc_u8_Cons(2))
  have d: "drop (f_pos ?f1) (f_data ?f1) = bs @ r"
    using drop_more [of "f_pos f" "f_data f" "[b]"] assms(1) b by simp
  show ?thesis
  proof (cases i)
    case (HScope t n c)
    have "drop (f_pos ?f1) (f_data ?f1) = [t] @ n @ [0] @ c @ [0] @ r" using d b HScope by simp
    from hier_scope_bytes [OF this] have sc: "hier_scope ?f1 = Inr (fst (item_view cur i),
        f\<lparr>f_pos := f_pos f + length (hitem_bytes i)\<rparr>)"
      using HScope assms(2) by simp
    have "b = 254" using b HScope by simp
    then show ?thesis using g sc by (simp add: hier_switch_def HScope)
  next
    case HUpscope
    then show ?thesis using g b by (simp add: hier_switch_def)
  next
    case (HAttrBegin t st n arg)
    have "drop (f_pos ?f1) (f_data ?f1) = [t, st] @ n @ [0] @ varint arg @ r"
      using d b HAttrBegin by simp
    from hier_attrbegin_bytes [OF this] have at: "hier_attrbegin ?f1 = Inr (fst (item_view cur i),
        f\<lparr>f_pos := f_pos f + length (hitem_bytes i)\<rparr>)"
      using HAttrBegin assms(2) by simp
    have "b = 252" using b HAttrBegin by simp
    then show ?thesis using g at by (simp add: hier_switch_def HAttrBegin)
  next
    case HAttrEnd
    then show ?thesis using g b by (simp add: hier_switch_def)
  next
    case (HVar t dir n l a)
    have e: "drop (f_pos ?f1) (f_data ?f1) = [dir] @ n @ [0] @ varint l @ varint a @ r"
      using d b HVar by simp
    have ok: "0 \<notin> set n" "t \<le> 29" using HVar assms(2) by auto
    have bt: "b = t" using b HVar by simp
    have v: "hier_var t cur ?f1 = Inr (fst (item_view cur i), snd (item_view cur i),
        f\<lparr>f_pos := f_pos f + length (hitem_bytes i)\<rparr>)"
      using HVar hier_var_bytes [OF e ok(1), of t cur] by simp
    show ?thesis
      using g v var_tag [OF ok(2)] by (simp add: hier_switch_def bt HVar)
  qed
qed

section \<open>Iterating\<close>

definition reading :: "fstReaderContext \<Rightarrow> u32 \<Rightarrow> bytes \<Rightarrow> bool" where
  "reading xc cur rest \<longleftrightarrow> (\<exists>fh. xc_fh xc = Some fh \<and> \<not> f_eof fh \<and> drop (f_pos fh) (f_data fh) = rest)
     \<and> current_handle xc = cur \<and> \<not> do_rewind xc"

lemma IterateHier_item:
  assumes "reading xc cur (hitem_bytes i @ rest)" and "item_ok i"
  shows "\<exists>xc'. fstReaderIterateHier recreate (Some xc) = Inr (Some (fst (item_view cur i)), Some xc')
    \<and> reading xc' (snd (item_view cur i)) rest"
proof -
  obtain fh where fh: "xc_fh xc = Some fh" "\<not> f_eof fh" "drop (f_pos fh) (f_data fh) = hitem_bytes i @ rest"
    and cur: "current_handle xc = cur" "\<not> do_rewind xc"
    using assms(1) by (auto simp: reading_def)
  obtain tag where tag: "fgetc fh = (tag, fh\<lparr>f_pos := f_pos fh + 1\<rparr>)"
    "hier_switch tag cur (fh\<lparr>f_pos := f_pos fh + 1\<rparr>)
      = Inr (Some (fst (item_view cur i)), snd (item_view cur i),
             fh\<lparr>f_pos := f_pos fh + length (hitem_bytes i)\<rparr>)"
    using hier_switch_item [OF fh(3) assms(2)] by blast
  show ?thesis
    using fh cur tag drop_more [OF fh(3)]
    by (simp add: fstReaderIterateHier_def reading_def)
qed

lemma IterateHier_end:
  assumes "reading xc cur []"
  shows "\<exists>xc'. fstReaderIterateHier recreate (Some xc) = Inr (None, Some xc')"
  using assms by (auto simp: reading_def fstReaderIterateHier_def fgetc_def hier_switch_def)

lemma iterate_all_items:
  "reading xc cur (hier_bytes is) \<Longrightarrow> \<forall>i \<in> set is. item_ok i \<Longrightarrow> length is < fuel \<Longrightarrow>
    \<exists>ctx. iterate_all recreate fuel (Some xc) = Inr (items_view cur is, ctx)"
proof (induction "is" arbitrary: xc cur fuel)
  case Nil
  then obtain k where "fuel = Suc k" by (cases fuel) auto
  then show ?case using IterateHier_end [of xc cur recreate] Nil by auto
next
  case (Cons i "is")
  then obtain k where k: "fuel = Suc k" "length is < k" by (cases fuel) auto
  obtain xc1 where 1: "fstReaderIterateHier recreate (Some xc) = Inr (Some (fst (item_view cur i)), Some xc1)"
    "reading xc1 (snd (item_view cur i)) (hier_bytes is)"
    using IterateHier_item [of xc cur i "hier_bytes is" recreate] Cons.prems by auto
  obtain ctx where "iterate_all recreate k (Some xc1) = Inr (items_view (snd (item_view cur i)) is, ctx)"
    using Cons.IH [OF 1(2) _ k(2)] Cons.prems(2) by auto
  then show ?case using 1(1) k(1) by (simp add: split_beta)
qed

lemma reading_rewound:
  assumes "xc_fh xc = Some fh" and "do_rewind xc"
  shows "fstReaderIterateHier recreate (Some xc) = fstReaderIterateHier recreate
    (Some (xc\<lparr>do_rewind := False, current_handle := 0, xc_fh := Some (fh\<lparr>f_pos := 0, f_eof := False\<rparr>)\<rparr>))"
proof -
  have "fstReaderFseeko (xc\<lparr>do_rewind := False, current_handle := 0\<rparr>) fh 0 SEEK_SET
    = (0, fh\<lparr>f_pos := 0, f_eof := False\<rparr>, xc\<lparr>do_rewind := False, current_handle := 0\<rparr>)"
    by (simp add: fstReaderFseeko_def fseeko_def)
  then show ?thesis
    using assms by (simp add: fstReaderIterateHier_def Let_def) 
qed

text \<open>A tag the \<open>switch\<close> does not know ends the loop of the client, whatever follows it.\<close>

lemma IterateHier_unknown:
  assumes "reading xc cur (t # rest)" and "30 \<le> t" and "t < 252"
  shows "\<exists>xc'. fstReaderIterateHier recreate (Some xc) = Inr (None, Some xc')"
proof -
  obtain fh where fh: "xc_fh xc = Some fh" "\<not> f_eof fh" "drop (f_pos fh) (f_data fh) = t # rest" "\<not> do_rewind xc"
    using assms(1) by (auto simp: reading_def)
  have "fgetc fh = (uint t, fh\<lparr>f_pos := f_pos fh + 1\<rparr>)" using fh(3) by (simp add: fgetc_u8_Cons(2))
  moreover have "30 \<le> uint t \<and> uint t < 252" using assms(2,3) by (simp add: word_le_def word_less_def)
  ultimately show ?thesis using fh by (simp add: fstReaderIterateHier_def hier_switch_def)
qed

lemma iterate_all_until:
  "reading xc cur (hier_bytes is @ t # rest) \<Longrightarrow> \<forall>i \<in> set is. item_ok i \<Longrightarrow> 30 \<le> t \<Longrightarrow> t < 252
    \<Longrightarrow> length is < fuel \<Longrightarrow> \<exists>ctx. iterate_all recreate fuel (Some xc) = Inr (items_view cur is, ctx)"
proof (induction "is" arbitrary: xc cur fuel)
  case Nil
  then obtain k where "fuel = Suc k" by (cases fuel) auto
  then show ?case using IterateHier_unknown [of xc cur t rest recreate] Nil by auto
next
  case (Cons i "is")
  then obtain k where k: "fuel = Suc k" "length is < k" by (cases fuel) auto
  obtain xc1 where 1: "fstReaderIterateHier recreate (Some xc) = Inr (Some (fst (item_view cur i)), Some xc1)"
    "reading xc1 (snd (item_view cur i)) (hier_bytes is @ t # rest)"
    using IterateHier_item [of xc cur i "hier_bytes is @ t # rest" recreate] Cons.prems by auto
  obtain ctx where "iterate_all recreate k (Some xc1) = Inr (items_view (snd (item_view cur i)) is, ctx)"
    using Cons.IH [OF 1(2) _ Cons.prems(3,4) k(2)] Cons.prems(2) by auto
  then show ?case using 1(1) k(1) by (simp add: split_beta)
qed

section \<open>From the calls to the items\<close>

text \<open>Operations whose items the reader knows: C strings, and variable types up to 29.\<close>

definition str_ok :: "bytes option \<Rightarrow> bool" where
  "str_ok n \<longleftrightarrow> 0 \<notin> set (opt_str n)"

fun op_readable :: "hier_op \<Rightarrow> bool" where
  "op_readable (Scope t n c) \<longleftrightarrow> str_ok n \<and> str_ok c"
| "op_readable (Attr_begin a st n arg) \<longleftrightarrow> str_ok n"
| "op_readable (Comment c) \<longleftrightarrow> 0 \<notin> set c"
| "op_readable (Value_list c) \<longleftrightarrow> 0 \<notin> set c"
| "op_readable (Env_var c) \<longleftrightarrow> 0 \<notin> set c"
| "op_readable (Source_stem p l u) \<longleftrightarrow> 0 \<notin> set p"
| "op_readable (Source_istem p l u) \<longleftrightarrow> 0 \<notin> set p"
| "op_readable (Enum_table n c m ls vs) \<longleftrightarrow>
     (\<exists>t. enum_attr_str n c (unat m) ls vs = Inr t \<and> 0 \<notin> set t)"
| "op_readable (Var vt vd n nm a) \<longleftrightarrow> vt \<le> 29 \<and> 0 \<notin> set nm"
| "op_readable (Var2 vt vd n nm a ty svt sdt) \<longleftrightarrow> vt \<le> 29 \<and> 0 \<notin> set nm \<and> str_ok ty"
| "op_readable _ \<longleftrightarrow> True"

lemma op_readable_ok: "op_readable p \<Longrightarrow> hier_op_ok p"
  by (cases p) auto

lemma no_newlines_ok: "0 \<notin> set s \<Longrightarrow> 0 \<notin> set (no_newlines s)"
  by (auto simp: no_newlines_def split: if_splits)

lemma attr_item_ok: "0 \<notin> set n \<Longrightarrow> item_ok (attr_item a st n arg)"
  by (simp add: attr_item_def split: prod.split)

lemma varint_ucast_ok: "no \<noteq> 0 \<Longrightarrow> 0 \<notin> set (varint (ucast (no :: u32) :: u64))"
  using varint_no_nul [of "ucast no :: u64" 0] by auto

lemma stem_items_ok:
  assumes "length (s_paths s) < 2 ^ 32 - 1" and "0 \<notin> set p" and "\<forall>q r. rp q = Some r \<longrightarrow> 0 \<notin> set r"
    and "i \<in> set (fst (stem_items rp s p l u typ))"
  shows "item_ok i"
proof (cases "path_nos (s_paths s) p")
  case (Some no)
  then show ?thesis
    using assms path_nos_nonzero [OF assms(1) Some]
    by (auto simp: stem_items_def attr_item_ok varint_ucast_ok split: if_splits)
next
  case None
  let ?no = "of_nat (length (s_paths s) + 1) :: u32"
  have "unat ?no = length (s_paths s) + 1" using assms(1) by (intro of_nat_inverse) auto
  then have no: "?no \<noteq> 0" by (metis Suc_eq_plus1 nat.distinct(1) unat_0)
  have full: "0 \<notin> set (if u \<noteq> 0 then (case rp p of Some r \<Rightarrow> r | None \<Rightarrow> p) else p)"
    using assms(2,3) by (auto split: option.split)
  have "fst (stem_items rp s p l u typ) \<noteq> [] \<Longrightarrow> fst (stem_items rp s p l u typ) =
    [attr_item 0 FST_MT_PATHNAME (no_newlines (if u \<noteq> 0 then (case rp p of Some r \<Rightarrow> r | None \<Rightarrow> p) else p)) (ucast ?no),
     attr_item 0 typ (varint (ucast ?no :: u64)) (ucast l)]"
    using None unfolding stem_items_def Let_def by (cases "p = []") simp_all
  then show ?thesis
    using assms(4) attr_item_ok [OF no_newlines_ok [OF full]] attr_item_ok [OF varint_ucast_ok [OF no]]
    by (metis list.set_cases list.distinct(1) set_ConsD)
qed

lemma ucast_type: "(vt :: u32) \<le> 29 \<Longrightarrow> (ucast vt :: u8) \<le> 29"
  by (simp add: word_le_nat_alt unsigned_ucast_eq order_trans [OF take_bit_nat_less_eq_self])

lemma hier_spec_items_ok:
  assumes "op_readable p" and "length (s_paths s) < 2 ^ 32 - 1" and "\<forall>q r. rp q = Some r \<longrightarrow> 0 \<notin> set r"
    and "i \<in> set (fst (hier_spec rp s p))"
  shows "item_ok i"
proof (cases p)
  case (Source_stem path l u)
  then show ?thesis
    using assms stem_items_ok [of s path rp i l u FST_MT_SOURCESTEM] by (auto split: prod.splits)
next
  case (Source_istem path l u)
  then show ?thesis
    using assms stem_items_ok [of s path rp i l u FST_MT_SOURCEISTEM] by (auto split: prod.splits)
next
  case (Var vt vd n nm a)
  then show ?thesis
    using assms by (auto simp: var_items_def var_item_def Let_def ucast_type split: if_splits)
next
  case (Var2 vt vd n nm a ty svt sdt)
  then show ?thesis
    using assms
    by (auto simp: var_items_def var_item_def Let_def ucast_type str_ok_def attr_item_ok no_newlines_ok
        split: if_splits)
qed (use assms in \<open>auto simp: str_ok_def attr_item_ok no_newlines_ok split: if_splits\<close>)

lemma hier_spec_run_items_ok:
  assumes "\<forall>p \<in> set ps. op_readable p" and "length (s_paths s) + length ps < 2 ^ 32 - 1"
    and "\<forall>q r. rp q = Some r \<longrightarrow> 0 \<notin> set r"
  shows "\<forall>i \<in> set (fst (hier_spec_run rp s ps)). item_ok i"
  using assms
proof (induction ps arbitrary: s)
  case (Cons p ps)
  have "length (s_paths (snd (snd (hier_spec rp s p)))) + length ps < 2 ^ 32 - 1"
    using hier_spec_paths [of rp s p] Cons.prems(2) by simp
  from Cons.IH [OF _ this Cons.prems(3)] hier_spec_items_ok [of p s rp] Cons.prems show ?case
    by (auto split: prod.splits)
qed simp

section \<open>Handles\<close>

text \<open>The handles of the variables the reader reports, and those the writer returned.\<close>

fun read_handles :: "fstHier list \<Rightarrow> u32 list" where
  "read_handles [] = []"
| "read_handles (H_var t d n l h al # is) = h # read_handles is"
| "read_handles (_ # is) = read_handles is"

fun is_var :: "hier_op \<Rightarrow> bool" where
  "is_var (Var vt vd n nm a) = True"
| "is_var (Var2 vt vd n nm a ty svt sdt) = True"
| "is_var _ = False"

fun var_results :: "hier_op list \<Rightarrow> u32 list \<Rightarrow> u32 list" where
  "var_results (p # ps) (h # hs) = (if is_var p then h # var_results ps hs else var_results ps hs)"
| "var_results _ _ = []"

fun cur_after :: "u32 \<Rightarrow> hitem list \<Rightarrow> u32" where
  "cur_after cur [] = cur"
| "cur_after cur (i # is) = cur_after (snd (item_view cur i)) is"

lemma items_view_append: "items_view cur (xs @ ys) = items_view cur xs @ items_view (cur_after cur xs) ys"
  by (induction xs arbitrary: cur) (auto simp: split_beta)

lemma read_handles_append: "read_handles (xs @ ys) = read_handles xs @ read_handles ys"
  by (induction xs rule: read_handles.induct) auto

lemma attr_item_view [simp]:
  "snd (item_view cur (attr_item a st n arg)) = cur"
  "read_handles (fst (item_view cur (attr_item a st n arg)) # vs) = read_handles vs"
  by (simp_all add: attr_item_def split: prod.split)

lemma stem_items_view:
  "cur_after cur (fst (stem_items rp s p l u typ)) = cur
   \<and> read_handles (items_view cur (fst (stem_items rp s p l u typ))) = []
   \<and> s_handles (snd (stem_items rp s p l u typ)) = s_handles s"
  by (auto simp: stem_items_def Let_def split_beta split: option.split)

lemma var_items_view:
  "snd (item_view (s_handles s) (fst (var_items s vt vd n nm a)))
     = s_handles (snd (snd (var_items s vt vd n nm a)))
   \<and> read_handles (fst (item_view (s_handles s) (fst (var_items s vt vd n nm a))) # vs)
     = fst (snd (var_items s vt vd n nm a)) # read_handles vs"
  by (auto simp: var_items_def var_item_def Let_def)

lemma hier_spec_handles:
  "cur_after (s_handles s) (fst (hier_spec rp s p)) = s_handles (snd (snd (hier_spec rp s p)))
   \<and> read_handles (items_view (s_handles s) (fst (hier_spec rp s p)))
     = (if is_var p then [fst (snd (hier_spec rp s p))] else [])"
proof (cases p)
  case (Source_stem path l u)
  then show ?thesis
    using stem_items_view [of "s_handles s" rp s path l u FST_MT_SOURCESTEM] by (simp add: split_beta)
next
  case (Source_istem path l u)
  then show ?thesis
    using stem_items_view [of "s_handles s" rp s path l u FST_MT_SOURCEISTEM] by (simp add: split_beta)
next
  case (Var vt vd n nm a)
  then show ?thesis
    using var_items_view [of s vt vd n nm a "[]"] by (simp add: split_beta)
next
  case (Var2 vt vd n nm a ty svt sdt)
  then show ?thesis
    using var_items_view [of s vt vd n nm a "[]"] by (simp add: split_beta)
qed (auto simp: split_beta)

lemma hier_spec_run_handles:
  "read_handles (items_view (s_handles s) (fst (hier_spec_run rp s ps)))
    = var_results ps (fst (snd (hier_spec_run rp s ps)))"
proof (induction ps arbitrary: s)
  case (Cons p ps)
  show ?case
    using hier_spec_handles [of s rp p] Cons.IH [of "snd (snd (hier_spec rp s p))"]
    by (simp add: split_beta items_view_append read_handles_append)
qed simp

text \<open>The items of a sequence of calls, and the number of handles behind it.\<close>

lemma hier_spec_run_append:
  "hier_spec_run rp s (ps @ qs) =
     (let (its, hs, s1) = hier_spec_run rp s ps; (its', hs', s2) = hier_spec_run rp s1 qs
      in (its @ its', hs @ hs', s2))"
  by (induction ps arbitrary: s) (auto simp: split_beta)

lemma length_spec_results: "length (fst (snd (hier_spec_run rp s ps))) = length ps"
  by (induction ps arbitrary: s) (auto simp: split_beta)

lemma unat_Suc_le: "unat (x + 1 :: u32) \<le> Suc (unat x)"
  by (simp add: unat_word_ariths)

lemma hier_spec_counts:
  "unat (s_handles (snd (snd (hier_spec rp s p)))) \<le> unat (s_handles s) + 1"
  by (cases p) (auto simp: stem_items_def var_items_def Let_def unat_Suc_le intro: le_SucI split: prod.splits option.splits if_splits)

lemma hier_spec_run_counts:
  "unat (s_handles (snd (snd (hier_spec_run rp s ps)))) \<le> unat (s_handles s) + length ps"
proof (induction ps arbitrary: s)
  case (Cons p ps)
  show ?case
    using Cons.IH [of "snd (snd (hier_spec rp s p))"] hier_spec_counts [of rp s p] by (simp add: split_beta)
qed simp

section \<open>Properties\<close>

text \<open>
  C9. The hierarchy round trip: what a client hands to a new writer, in any order of scopes,
  attributes, comments, source stems, enumeration tables, variables and aliases, the reader's
  iterator gives back item by item and then ends, with names cut to its buffers; and the handle it
  reports for each variable is the one the writer returned when the variable was created.
\<close>

theorem hierarchy_roundtrip:
  assumes "\<forall>p \<in> set ps. op_readable p" and "length ps < 2 ^ 32 - 1"
    and "\<forall>q r. rp q = Some r \<longrightarrow> 0 \<notin> set r"
  shows "\<exists>xc xc' hs ctx vs. fstWriterCreate True True mi wt (Some n) u = Some xc
    \<and> hier_run rp (Some xc) ps = Inr (hs, Some xc')
    \<and> iterate_all recreate (Suc (length (f_data (hier_handle xc'))))
        (Some (xr\<lparr>xc_fh := Some (hier_handle xc'), do_rewind := True\<rparr>)) = Inr (vs, ctx)
    \<and> vs = items_view 0 (fst (hier_spec_run rp hstate_init ps))
    \<and> read_handles vs = var_results ps hs"
proof -
  let ?its = "fst (hier_spec_run rp hstate_init ps)"
  have len: "length (s_paths hstate_init) + length ps < 2 ^ 32 - 1"
    using assms(2) by (simp add: hstate_init_def)
  obtain xc where xc: "fstWriterCreate True True mi wt (Some n) u = Some xc" "hier_rel xc hstate_init"
    "f_data (hier_handle xc) = []"
    using Create_hier_rel by blast
  obtain xc' where run: "hier_run rp (Some xc) ps = Inr (fst (snd (hier_spec_run rp hstate_init ps)), Some xc')"
    "f_data (hier_handle xc') = hier_bytes ?its"
    using hier_run_spec [OF xc(2) _ len, of rp] assms(1) xc(3) op_readable_ok by auto
  let ?fh = "hier_handle xc'"
  let ?x0 = "xr\<lparr>xc_fh := Some ?fh, do_rewind := True\<rparr>"
  let ?xr = "?x0\<lparr>do_rewind := False, current_handle := 0, xc_fh := Some (?fh\<lparr>f_pos := 0, f_eof := False\<rparr>)\<rparr>"
  have r: "reading ?xr 0 (hier_bytes ?its)" using run(2) by (simp add: reading_def)
  have "length is \<le> length (hier_bytes is)" for "is"
  proof (induction "is")
    case (Cons i "is")
    then show ?case by (cases i) auto
  qed simp
  then have fuel: "length ?its < Suc (length (f_data ?fh))" using run(2) by (simp add: le_imp_less_Suc)
  obtain ctx where ctx: "iterate_all recreate (Suc (length (f_data ?fh))) (Some ?xr) = Inr (items_view 0 ?its, ctx)"
    using iterate_all_items [OF r _ fuel] hier_spec_run_items_ok [OF assms(1) len assms(3)] by blast
  have "fstReaderIterateHier recreate (Some ?x0) = fstReaderIterateHier recreate (Some ?xr)"
    by (rule reading_rewound) simp_all
  then have it: "iterate_all recreate (Suc (length (f_data ?fh))) (Some ?x0) = Inr (items_view 0 ?its, ctx)"
    using ctx unfolding iterate_all.simps by (simp only:)
  have hs: "read_handles (items_view 0 ?its) = var_results ps (fst (snd (hier_spec_run rp hstate_init ps)))"
    using hier_spec_run_handles [of hstate_init rp ps] by (simp add: hstate_init_def)
  show ?thesis
    by (intro exI conjI, rule xc(1), rule run(1), rule it, rule refl, rule hs)
qed

lemma hierarchy_roundtrip_witness:
  "\<exists>xc xc' hs ctx. fstWriterCreate True True None [] (Some [97]) 1 = Some xc
    \<and> hier_run (\<lambda>_. None) (Some xc) [Scope 0 (Some [116]) None, Var 16 0 4 [97] 0, Var 5 1 4 [98] 1, Upscope]
       = Inr (hs, Some xc')
    \<and> iterate_all (\<lambda>_. Inl Hang) (Suc (length (f_data (hier_handle xc'))))
        (Some (reader_zero\<lparr>xc_fh := Some (hier_handle xc'), do_rewind := True\<rparr>))
       = Inr ([H_scope 0 [116] [], H_var 16 0 [97] 4 1 False, H_var 5 1 [98] 4 1 True, H_upscope], ctx)"
proof -
  let ?ps = "[Scope 0 (Some [116]) None, Var 16 0 4 [97] 0, Var 5 1 4 [98] 1, Upscope]"
  have "\<forall>p \<in> set ?ps. op_readable p" "length ?ps < 2 ^ 32 - 1"
    "\<forall>q r. (\<lambda>_. None) q = Some r \<longrightarrow> 0 \<notin> set r"
    by (simp_all add: str_ok_def opt_str_def)
  from hierarchy_roundtrip [OF this, of None "[]" "[97]" 1 "\<lambda>_. Inl Hang" reader_zero]
  have "\<exists>xc xc' hs ctx. fstWriterCreate True True None [] (Some [97]) 1 = Some xc
    \<and> hier_run (\<lambda>_. None) (Some xc) ?ps = Inr (hs, Some xc')
    \<and> iterate_all (\<lambda>_. Inl Hang) (Suc (length (f_data (hier_handle xc'))))
        (Some (reader_zero\<lparr>xc_fh := Some (hier_handle xc'), do_rewind := True\<rparr>))
       = Inr (items_view 0 (fst (hier_spec_run (\<lambda>_. None) hstate_init ?ps)), ctx)"
    by blast
  moreover have "items_view 0 (fst (hier_spec_run (\<lambda>_. None) hstate_init ?ps))
    = [H_scope 0 [116] [], H_var 16 0 [97] 4 1 False, H_var 5 1 [98] 4 1 True, H_upscope]"
    by (simp add: var_items_def hstate_init_def var_item_def var_len_def var_is_real_def opt_str_def
        FST_ID_NAM_SIZ_def)
  ultimately show ?thesis by (simp only:)
qed

text \<open>
  C28. The eight FIRRTL variable types, 30 to 37, which \<open>fstapi.h\<close> declares, are accepted by the writer and
  unknown to the iterator. For any calls on a new writer with such a variable among them: all of them succeed,
  the variable gets a handle and it and every item declared behind it are in the hierarchy file; but a client
  that takes items until the iterator returns null gets exactly the items of the calls before the variable. It,
  and everything declared behind it, is lost.
\<close>

theorem firrtl_var_ends_iteration:
  assumes "\<forall>p \<in> set ps. op_readable p" and "30 \<le> vt" and "vt \<le> 37" and "\<forall>p \<in> set qs. hier_op_ok p"
    and "length ps + length qs + 1 < 2 ^ 32 - 1" and "\<forall>q r. rp q = Some r \<longrightarrow> 0 \<notin> set r"
  shows "\<exists>xc xc' hs hs' h i ctx. fstWriterCreate True True mi wt (Some nm) u = Some xc
    \<and> hier_run rp (Some xc) (ps @ Var vt vd n v a # qs) = Inr (hs @ h # hs', Some xc')
    \<and> length hs = length ps \<and> h \<noteq> 0
    \<and> f_data (hier_handle xc') = hier_bytes (fst (hier_spec_run rp hstate_init ps) @ i
        # fst (hier_spec_run rp (snd (snd (hier_spec_run rp hstate_init (ps @ [Var vt vd n v a])))) qs))
    \<and> iterate_all recreate (Suc (length (f_data (hier_handle xc'))))
        (Some (xr\<lparr>xc_fh := Some (hier_handle xc'), do_rewind := True\<rparr>))
      = Inr (items_view 0 (fst (hier_spec_run rp hstate_init ps)), ctx)"
proof -
  let ?q = "Var vt vd n v a" and ?its = "fst (hier_spec_run rp hstate_init ps)"
  define s where "s = snd (snd (hier_spec_run rp hstate_init ps))"
  obtain it h s1 where it: "var_items s vt vd n v a = (it, h, s1)" by (cases "var_items s vt vd n v a") auto
  obtain hs0 where spec: "hier_spec_run rp hstate_init (ps @ ?q # qs) = (?its @ it # fst (hier_spec_run rp s1 qs),
      fst (snd (hier_spec_run rp hstate_init ps)) @ h # fst (snd (hier_spec_run rp s1 qs)), hs0)"
    using it by (simp add: hier_spec_run_append s_def split_beta)
  have s1: "snd (snd (hier_spec_run rp hstate_init (ps @ [?q]))) = s1"
    using it by (simp add: hier_spec_run_append s_def split_beta)
  have tag: "hitem_bytes it = ucast vt # tl (hitem_bytes it)"
    using it by (auto simp: var_items_def var_item_def Let_def split: if_splits)
  have "unat vt < 256" using assms(3) by (simp add: word_le_nat_alt)
  then have "unat (ucast vt :: u8) = unat vt" by (simp add: unsigned_ucast_eq take_bit_nat_eq_self)
  then have t: "30 \<le> (ucast vt :: u8)" "(ucast vt :: u8) < 252"
    using assms(2,3) by (simp_all add: word_le_nat_alt word_less_nat_alt)
  have "unat (s_handles s) \<le> length ps"
    using hier_spec_run_counts [of rp hstate_init ps] by (simp add: s_def hstate_init_def)
  then have "unat (s_handles s + 1) = unat (s_handles s) + 1" using assms(5) by (simp add: unat_word_ariths)
  then have "s_handles s + 1 \<noteq> 0" by (metis Suc_eq_plus1 nat.distinct(1) unat_0)
  then have h: "h \<noteq> 0" using it by (auto simp: var_items_def Let_def split: if_splits)
  have len: "length (s_paths hstate_init) + length (ps @ ?q # qs) < 2 ^ 32 - 1"
    "length (s_paths hstate_init) + length ps < 2 ^ 32 - 1"
    using assms(5) by (simp_all add: hstate_init_def)
  have ok: "\<forall>p \<in> set (ps @ ?q # qs). hier_op_ok p" using assms(1,4) op_readable_ok by auto
  obtain xc where xc: "fstWriterCreate True True mi wt (Some nm) u = Some xc" "hier_rel xc hstate_init"
    "f_data (hier_handle xc) = []"
    using Create_hier_rel by blast
  obtain xc' where run: "hier_run rp (Some xc) (ps @ ?q # qs) = Inr (fst (snd (hier_spec_run rp hstate_init ps)) @ h
      # fst (snd (hier_spec_run rp s1 qs)), Some xc')"
    "f_data (hier_handle xc') = hier_bytes (?its @ it # fst (hier_spec_run rp s1 qs))"
    using hier_run_spec [OF xc(2) ok len(1), of rp] xc(3) spec by auto
  let ?fh = "hier_handle xc'"
  let ?x0 = "xr\<lparr>xc_fh := Some ?fh, do_rewind := True\<rparr>"
  let ?xr = "?x0\<lparr>do_rewind := False, current_handle := 0, xc_fh := Some (?fh\<lparr>f_pos := 0, f_eof := False\<rparr>)\<rparr>"
  have r: "reading ?xr 0 (hier_bytes ?its @ ucast vt # (tl (hitem_bytes it) @ hier_bytes (fst (hier_spec_run rp s1 qs))))"
    using run(2) tag by (simp add: reading_def)
  have "length is \<le> length (hier_bytes is)" for "is"
  proof (induction "is")
    case (Cons i "is")
    then show ?case by (cases i) auto
  qed simp
  then have "length ?its \<le> length (hier_bytes ?its)" .
  then have fuel: "length ?its < Suc (length (f_data ?fh))" using run(2) by simp
  obtain ctx where ctx: "iterate_all recreate (Suc (length (f_data ?fh))) (Some ?xr) = Inr (items_view 0 ?its, ctx)"
    using iterate_all_until [OF r _ t fuel] hier_spec_run_items_ok [OF assms(1) len(2) assms(6)] by blast
  have "fstReaderIterateHier recreate (Some ?x0) = fstReaderIterateHier recreate (Some ?xr)"
    by (rule reading_rewound) simp_all
  then have rd: "iterate_all recreate (Suc (length (f_data ?fh))) (Some ?x0) = Inr (items_view 0 ?its, ctx)"
    using ctx unfolding iterate_all.simps by (simp only:)
  show ?thesis
    unfolding s1
    by (intro exI conjI, rule xc(1), rule run(1), rule length_spec_results, rule h, rule run(2), rule rd)
qed

lemma firrtl_var_ends_iteration_witness:
  "\<exists>xc xc' hs hs' h ctx. fstWriterCreate True True None [] (Some [97]) 1 = Some xc
    \<and> hier_run (\<lambda>_. None) (Some xc) ([Scope 0 (Some [116]) None, Var 16 0 4 [97] 0] @ Var 30 0 8 [99] 0 # [Upscope])
        = Inr (hs @ h # hs', Some xc') \<and> h \<noteq> 0
    \<and> iterate_all (\<lambda>_. Inl Hang) (Suc (length (f_data (hier_handle xc'))))
        (Some (reader_zero\<lparr>xc_fh := Some (hier_handle xc'), do_rewind := True\<rparr>))
       = Inr ([H_scope 0 [116] [], H_var 16 0 [97] 4 1 False], ctx)"
proof -
  let ?ps = "[Scope 0 (Some [116]) None, Var 16 0 4 [97] 0]"
  have v: "items_view 0 (fst (hier_spec_run (\<lambda>_. None) hstate_init ?ps)) = [H_scope 0 [116] [], H_var 16 0 [97] 4 1 False]"
    by (simp add: var_items_def hstate_init_def var_item_def var_len_def var_is_real_def opt_str_def FST_ID_NAM_SIZ_def)
  have "\<forall>p \<in> set ?ps. op_readable p" "30 \<le> (30 :: u32)" "(30 :: u32) \<le> 37" "\<forall>p \<in> set [Upscope]. hier_op_ok p"
    "length ?ps + length [Upscope] + 1 < 2 ^ 32 - 1" "\<forall>q r. (\<lambda>_. None) q = Some r \<longrightarrow> 0 \<notin> set r"
    by (simp_all add: str_ok_def opt_str_def)
  from firrtl_var_ends_iteration [OF this, of None "[]" "[97]" 1 0 8 "[99]" 0 "\<lambda>_. Inl Hang" reader_zero]
  show ?thesis unfolding v by blast
qed

text \<open>
  A hierarchy file that ends inside a name hangs the iterator: at the end of the file
  \<open>fgetc\<close> returns -1, which the loop takes for one more character of the name.
\<close>

theorem truncated_name_hangs:
  assumes "xc_fh xr = Some fh" and "\<not> f_eof fh" and "\<not> do_rewind xr"
    and "drop (f_pos fh) (f_data fh) = 254 # t # nm" and "0 \<notin> set nm"
  shows "fstReaderIterateHier recreate (Some xr) = Inl Hang"
proof -
  let ?f1 = "fh\<lparr>f_pos := f_pos fh + 1\<rparr>"
  let ?f2 = "?f1\<lparr>f_pos := f_pos ?f1 + 1\<rparr>"
  have 1: "drop (f_pos ?f1) (f_data ?f1) = t # nm"
    using drop_more [of "f_pos fh" "f_data fh" "[254]"] assms(4) by simp
  have 2: "drop (f_pos ?f2) (f_data ?f2) = nm"
    using drop_more [of "f_pos ?f1" "f_data ?f1" "[t]"] 1 by simp
  have hang: "read_name siz ?f2 = Inl Hang" for siz
    using assms(5) 2 by (intro read_name_hang) simp
  have g: "fgetc fh = (uint (254 :: u8), ?f1)" "fgetc_u8 ?f1 = (t, ?f2)"
    using fgetc_u8_Cons(2) [OF assms(4)] fgetc_u8_Cons(1) [OF 1] by simp_all
  have "hier_scope ?f1 = Inl Hang" unfolding hier_scope_def g(2) prod.case Let_def hang by simp
  then show ?thesis using assms(1-3) g(1) by (simp add: fstReaderIterateHier_def hier_switch_def)
qed

lemma truncated_name_hangs_witness:
  "fstReaderIterateHier (\<lambda>_. Inl Hang) (Some (reader_zero\<lparr>xc_fh := Some (new_file\<lparr>f_data := [254, 0, 116, 111]\<rparr>)\<rparr>))
    = Inl Hang"
  using truncated_name_hangs [of "reader_zero\<lparr>xc_fh := Some (new_file\<lparr>f_data := [254, 0, 116, 111]\<rparr>)\<rparr>"
      "new_file\<lparr>f_data := [254, 0, 116, 111]\<rparr>" 0 "[116, 111]"]
  by (simp add: reader_zero_def new_file_def)

end
