(* ===== verification/Process_Hier.thy ===== *)
theory Process_Hier
  imports Hier_Roundtrip Vcd_Id
begin

text \<open>
  \<open>fstReaderProcessHier\<close> of \<open>fstapi.c\<close> (lines 4291 to 4583): one pass over the hierarchy file that
  rebuilds the width and the type of every handle and, when a file is given, writes the header of a
  VCD file. The second part shows what the pass makes of the items the writer puts down.
\<close>

section \<open>Tables of names\<close>

definition vartypes :: "bytes list" where
  "vartypes = map c_lit [''event'', ''integer'', ''parameter'', ''real'', ''real_parameter'', ''reg'', ''supply0'',
     ''supply1'', ''time'', ''tri'', ''triand'', ''trior'', ''trireg'', ''tri0'', ''tri1'', ''wand'', ''wire'', ''wor'',
     ''port'', ''sparray'', ''realtime'', ''string'', ''bit'', ''logic'', ''int'', ''shortint'', ''longint'', ''byte'',
     ''enum'', ''shortreal'']"

definition modtypes :: "bytes list" where
  "modtypes = map c_lit [''module'', ''task'', ''function'', ''begin'', ''fork'', ''generate'', ''struct'', ''union'',
     ''class'', ''interface'', ''package'', ''program'', ''vhdl_architecture'', ''vhdl_procedure'', ''vhdl_function'',
     ''vhdl_record'', ''vhdl_process'', ''vhdl_block'', ''vhdl_for_generate'', ''vhdl_if_generate'', ''vhdl_generate'',
     ''vhdl_package'']"

definition attrtypes :: "bytes list" where
  "attrtypes = map c_lit [''misc'', ''array'', ''enum'', ''class'']"

definition arraytypes :: "bytes list" where
  "arraytypes = map c_lit [''none'', ''unpacked'', ''packed'', ''sparse'']"

definition enumvaluetypes :: "bytes list" where
  "enumvaluetypes = map c_lit [''integer'', ''bit'', ''logic'', ''int'', ''shortint'', ''longint'', ''byte'',
     ''unsigned_integer'', ''unsigned_bit'', ''unsigned_logic'', ''unsigned_int'', ''unsigned_shortint'',
     ''unsigned_longint'', ''unsigned_byte'']"

definition packtypes :: "bytes list" where
  "packtypes = map c_lit [''none'', ''unpacked'', ''packed'', ''tagged_packed'']"

lemma table_sizes [simp]:
  "length vartypes = 30" "length modtypes = 22" "length attrtypes = 4" "length arraytypes = 4"
  "length enumvaluetypes = 14" "length packtypes = 4"
  by (simp_all add: vartypes_def modtypes_def attrtypes_def arraytypes_def enumvaluetypes_def packtypes_def)

section \<open>Formatted output\<close>

text \<open>\<open>%" PRId64 "\<close> of a 64-bit number, and \<open>%02x\<close> of an \<open>int\<close>.\<close>

definition dec_signed :: "u64 \<Rightarrow> bytes" where
  "dec_signed v = (if sint v < 0 then 45 # dec_str (nat (- sint v)) else dec_str (nat (sint v)))"

definition hex_digit :: "nat \<Rightarrow> u8" where
  "hex_digit k = of_nat (if k < 10 then 48 + k else 87 + k)"

fun hex_str :: "nat \<Rightarrow> bytes" where
  "hex_str n = (if n < 16 then [hex_digit n] else hex_str (n div 16) @ [hex_digit (n mod 16)])"

declare hex_str.simps [simp del]

definition hex_02 :: "int \<Rightarrow> bytes" where
  "hex_02 v = (let s = hex_str (unat (word_of_int v :: u32)) in replicate (2 - length s) 48 @ s)"

text \<open>The time scale as a factor and the letter in front of the unit.\<close>

definition time_dimension :: "8 word \<Rightarrow> nat \<times> bytes" where
  "time_dimension ts =
     (let t = sint ts
      in (if t \<in> {2, -1, -4, -7, -10, -13, -16, -19} then 100
          else if t \<in> {1, -2, -5, -8, -11, -14, -17, -20} then 10 else 1,
          if t \<in> {2, 1, 0} then []
          else if t \<in> {-1, -2, -3} then c_lit ''m''
          else if t \<in> {-4, -5, -6} then c_lit ''u''
          else if t \<in> {-10, -11, -12} then c_lit ''p''
          else if t \<in> {-13, -14, -15} then c_lit ''f''
          else if t \<in> {-16, -17, -18} then c_lit ''a''
          else if t \<in> {-19, -20, -21} then c_lit ''z''
          else c_lit ''n''))"

definition vcd_header :: "fstReaderContext \<Rightarrow> bytes" where
  "vcd_header xc =
     c_lit ''$date'' @ [10, 9] @ cstr (date xc) @ [10] @ c_lit ''$end'' @ [10]
     @ c_lit ''$version'' @ [10, 9] @ cstr (version xc) @ [10] @ c_lit ''$end'' @ [10]
     @ (if fstReaderContext.timezero xc \<noteq> 0
        then c_lit ''$timezero'' @ [10, 9] @ dec_signed (fstReaderContext.timezero xc) @ [10] @ c_lit ''$end'' @ [10]
        else [])
     @ (let (scale, dim) = time_dimension (timescale xc)
        in c_lit ''$timescale'' @ [10, 9] @ dec_str scale @ dim @ c_lit ''s'' @ [10] @ c_lit ''$end'' @ [10])"

section \<open>The pass over the items\<close>

text \<open>
  \<open>signal_lens\<close> and \<open>signal_typs\<close> are filled from the front, cell \<open>maxhandle\<close> next, in blocks of
  \<open>num_signal_dyn\<close> cells: the lists hold the cells that have been filled.
\<close>

record phier =
  ph_fh :: cfile
  ph_out :: bytes
  ph_max :: u32
  ph_alias :: u64
  ph_longest :: u32
  ph_lens :: "u32 list"
  ph_typs :: bytes
  ph_dyn :: u32

definition ph_print :: "bool \<Rightarrow> bytes \<Rightarrow> phier \<Rightarrow> phier" where
  "ph_print fv s st = (if fv then st\<lparr>ph_out := ph_out st @ s\<rparr> else st)"

definition ph_scope :: "bool \<Rightarrow> phier \<Rightarrow> phier outcome" where
  "ph_scope fv st =
     (let (scopetype, f) = fgetc (ph_fh st);
          scopetype = (if scopetype < 0 \<or> scopetype > 21 then 0 else scopetype)
      in andthen (read_name FST_ID_NAM_ATTR_SIZ f) (\<lambda>(str, f).
         andthen (read_name FST_ID_NAM_ATTR_SIZ f) (\<lambda>(comp, f).
         andthen (load modtypes (nat scopetype)) (\<lambda>m.
           Inr (ph_print fv (c_lit ''$scope '' @ m @ [32] @ str @ c_lit '' $end'' @ [10]) (st\<lparr>ph_fh := f\<rparr>))))))"

text \<open>The text of an attribute. Sources print the number that stands for their path.\<close>

definition attr_line :: "bytes \<Rightarrow> bytes \<Rightarrow> bytes \<Rightarrow> u64 \<Rightarrow> bytes" where
  "attr_line a s str arg =
     c_lit ''$attrbegin '' @ a @ [32] @ s @ [32] @ str @ [32] @ dec_signed arg @ c_lit '' $end'' @ [10]"

definition attr_text :: "int \<Rightarrow> int \<Rightarrow> bytes \<Rightarrow> u64 \<Rightarrow> bytes outcome" where
  "attr_text attrtype subtype str arg =
     (if attrtype = 1
      then andthen (load arraytypes (nat (if subtype < 0 \<or> subtype > 3 then 0 else subtype))) (\<lambda>s.
           andthen (load attrtypes 1) (\<lambda>a. Inr (attr_line a s str arg)))
      else if attrtype = 2
      then andthen (load enumvaluetypes (nat (if subtype < 0 \<or> subtype > 15 then 0 else subtype))) (\<lambda>s.
           andthen (load attrtypes 2) (\<lambda>a. Inr (attr_line a s str arg)))
      else if attrtype = 3
      then andthen (load packtypes (nat (if subtype < 0 \<or> subtype > 3 then 0 else subtype))) (\<lambda>s.
           andthen (load attrtypes 3) (\<lambda>a. Inr (attr_line a s str arg)))
      else if subtype = 0 then Inr (c_lit ''$comment'' @ [10, 9] @ str @ [10] @ c_lit ''$end'' @ [10])
      else andthen (load attrtypes 0) (\<lambda>a.
           if subtype = 4 \<or> subtype = 5
           then andthen (fstGetVarint64 (str @ [0])) (\<lambda>(sidx, _).
                  Inr (attr_line a (hex_02 subtype) (dec_signed sidx) arg))
           else Inr (attr_line a (hex_02 subtype) str arg)))"

definition ph_attrbegin :: "bool \<Rightarrow> bool \<Rightarrow> phier \<Rightarrow> phier outcome" where
  "ph_attrbegin fv ext st =
     (let (attrtype, f) = fgetc (ph_fh st); (subtype, f) = fgetc f
      in andthen (read_name FST_ID_NAM_ATTR_SIZ f) (\<lambda>(str, f).
         let str = (if str = [] then [34, 34] else str)
         in andthen (fstReaderVarint64 f) (\<lambda>(arg, f).
            let st = st\<lparr>ph_fh := f\<rparr>
            in if fv \<and> ext then andthen (attr_text attrtype subtype str arg) (\<lambda>s. Inr (ph_print fv s st))
               else Inr st)))"

definition var_line :: "u8 \<Rightarrow> u32 \<Rightarrow> u32 \<Rightarrow> bytes \<Rightarrow> bytes outcome" where
  "var_line vartype n h str =
     andthen (load vartypes (unat vartype)) (\<lambda>t.
     andthen (fstVcdID (replicate 16 0) h) (\<lambda>buf.
       Inr (c_lit ''$var '' @ t @ [32] @ dec_str (unat (if vartype \<noteq> 18 then n else (n - 2) div 3)) @ [32]
            @ cstr buf @ [32] @ str @ c_lit '' $end'' @ [10])))"

definition ph_print_var :: "bool \<Rightarrow> u8 \<Rightarrow> u32 \<Rightarrow> u32 \<Rightarrow> bytes \<Rightarrow> phier \<Rightarrow> phier outcome" where
  "ph_print_var fv vartype n h str st =
     (if fv then andthen (var_line vartype n h str) (\<lambda>s. Inr (ph_print fv s st)) else Inr st)"

definition tag_is_real :: "u8 \<Rightarrow> bool" where
  "tag_is_real t \<longleftrightarrow> t = 3 \<or> t = 4 \<or> t = 20 \<or> t = 29"

definition printed_len :: "u8 \<Rightarrow> u32 \<Rightarrow> u32" where
  "printed_len t n = (if tag_is_real t then if t \<noteq> 29 then 64 else 32 else n)"

text \<open>A new handle takes the next cell of both arrays, which double when they are full.\<close>

definition ph_new_var :: "bool \<Rightarrow> u8 \<Rightarrow> u32 \<Rightarrow> bytes \<Rightarrow> phier \<Rightarrow> phier outcome" where
  "ph_new_var fv t n str st =
     (let st = (if ph_max st = ph_dyn st then st\<lparr>ph_dyn := ph_dyn st * 2\<rparr> else st)
      in if \<not> ph_max st < ph_dyn st then Inl Out_of_bounds
         else let st = st\<lparr>ph_lens := ph_lens st @ [n],
                          ph_typs := ph_typs st @ [if tag_is_real t then 3 else t],
                          ph_longest := (if n > ph_longest st then n else ph_longest st)\<rparr>
              in andthen (ph_print_var fv t (printed_len t n) (ph_max st + 1) str st) (\<lambda>st.
                   Inr (st\<lparr>ph_max := ph_max st + 1\<rparr>)))"

text \<open>
  An alias of a real type stores that type in cell \<open>maxhandle\<close>, which belongs to the next new
  handle and is outside the array when the array is full.
\<close>

definition ph_alias_var :: "bool \<Rightarrow> u8 \<Rightarrow> u32 \<Rightarrow> u32 \<Rightarrow> bytes \<Rightarrow> phier \<Rightarrow> phier outcome" where
  "ph_alias_var fv t n h str st =
     (if tag_is_real t \<and> \<not> ph_max st < ph_dyn st then Inl Out_of_bounds
      else andthen (ph_print_var fv t (printed_len t n) h str st) (\<lambda>st.
             Inr (st\<lparr>ph_alias := ph_alias st + 1\<rparr>)))"

definition ph_var :: "bool \<Rightarrow> u8 \<Rightarrow> phier \<Rightarrow> phier outcome" where
  "ph_var fv t st =
     (let (_, f) = fgetc (ph_fh st)
      in andthen (read_name FST_ID_NAM_ATTR_SIZ f) (\<lambda>(str, f).
         andthen (fstReaderVarint32 f) (\<lambda>(n, f).
         andthen (fstReaderVarint32 f) (\<lambda>(alias, f).
           let st = st\<lparr>ph_fh := f\<rparr>
           in if alias = 0 then ph_new_var fv t n str st else ph_alias_var fv t n alias str st))))"

text \<open>A tag the \<open>switch\<close> does not know is skipped alone.\<close>

definition ph_item :: "bool \<Rightarrow> bool \<Rightarrow> phier \<Rightarrow> phier outcome" where
  "ph_item fv ext st =
     (let (tag, f) = fgetc (ph_fh st); st = st\<lparr>ph_fh := f\<rparr>
      in if tag = 254 then ph_scope fv st
         else if tag = 255 then Inr (ph_print fv (c_lit ''$upscope $end'' @ [10]) st)
         else if tag = 252 then ph_attrbegin fv ext st
         else if tag = 253 then Inr (if ext then ph_print fv (c_lit ''$attrend $end'' @ [10]) st else st)
         else if 0 \<le> tag \<and> tag \<le> 29 then ph_var fv (word_of_int tag) st
         else Inr st)"

partial_function (option) ph_loop :: "bool \<Rightarrow> bool \<Rightarrow> phier \<Rightarrow> phier outcome option" where
  "ph_loop fv ext st =
     (if f_eof (ph_fh st) then Some (Inr st)
      else case ph_item fv ext st of
             Inl e \<Rightarrow> Some (Inl e)
           | Inr st \<Rightarrow> ph_loop fv ext st)"

text \<open>
  The whole function: its result, the text, and the context. \<open>junk\<close> is what \<open>malloc\<close> returns. With
  no handle both arrays have one cell, which nothing has filled: the lists are empty.
\<close>

definition ph_start :: "bool \<Rightarrow> fstReaderContext \<Rightarrow> cfile \<Rightarrow> phier" where
  "ph_start fv xc fh =
     \<lparr>ph_fh = fh, ph_out = (if fv then vcd_header xc else []), ph_max = 0, ph_alias = 0,
      ph_longest = longest_signal_value_len xc, ph_lens = [], ph_typs = [], ph_dyn = 65536\<rparr>"

definition ph_finish :: "(nat \<Rightarrow> bytes) \<Rightarrow> phier \<Rightarrow> fstReaderContext \<Rightarrow> fstReaderContext" where
  "ph_finish junk st xc =
     xc\<lparr>xc_fh := Some (ph_fh st), fstReaderContext.maxhandle := ph_max st, num_alias := ph_alias st,
        longest_signal_value_len := ph_longest st, signal_lens := ph_lens st, signal_typs := ph_typs st,
        process_mask := replicate (unat (((if ph_max st \<noteq> 0 then ph_max st else 1) + 7) div 8)) 0,
        temp_signal_value_buf := junk (unat (ph_longest st + 1)),
        var_count := ucast (ph_max st) + ph_alias st\<rparr>"

definition fstReaderProcessHier ::
    "(fstReaderContext \<Rightarrow> (bool \<times> fstReaderContext) outcome) \<Rightarrow> (nat \<Rightarrow> bytes) \<Rightarrow> rctx \<Rightarrow> bool
      \<Rightarrow> (bool \<times> bytes \<times> rctx) outcome option" where
  "fstReaderProcessHier recreate junk ctx fv =
     (case ctx of None \<Rightarrow> Some (Inr (False, [], None))
      | Some xc \<Rightarrow>
        let xc = xc\<lparr>longest_signal_value_len := 32\<rparr>
        in (case (if xc_fh xc = None then recreate xc else Inr (True, xc)) of
              Inl e \<Rightarrow> Some (Inl e)
            | Inr (ok, xc) \<Rightarrow>
              if \<not> ok then Some (Inr (False, [], Some xc))
              else (case xc_fh xc of
                      None \<Rightarrow> Some (Inl Null_deref)
                    | Some fh \<Rightarrow>
                        let (_, fh, xc) = fstReaderFseeko xc fh 0 SEEK_SET
                        in (case ph_loop fv (use_vcd_extensions xc) (ph_start fv xc fh) of
                              None \<Rightarrow> None
                            | Some (Inl e) \<Rightarrow> Some (Inl e)
                            | Some (Inr st) \<Rightarrow>
                                Some (Inr (True, ph_out (ph_print fv (c_lit ''$enddefinitions $end'' @ [10]) st),
                                           Some (ph_finish junk st xc)))))))"

section \<open>What the pass makes of an item\<close>

definition shown :: "bytes outcome \<Rightarrow> bytes" where
  "shown r = (case r of Inr s \<Rightarrow> s | Inl _ \<Rightarrow> [])"

lemma shown_Inr [simp]: "shown (Inr s) = s"
  by (simp add: shown_def)

definition attr_str :: "bytes \<Rightarrow> bytes" where
  "attr_str n = (if n = [] then [34, 34] else take FST_ID_NAM_ATTR_SIZ n)"

fun item_line :: "bool \<Rightarrow> u32 \<Rightarrow> hitem \<Rightarrow> bytes" where
  "item_line ext cur (HScope t n c) =
     c_lit ''$scope '' @ modtypes ! (if t > 21 then 0 else unat t) @ [32] @ take FST_ID_NAM_ATTR_SIZ n
       @ c_lit '' $end'' @ [10]"
| "item_line ext cur HUpscope = c_lit ''$upscope $end'' @ [10]"
| "item_line ext cur (HAttrBegin t st n arg) =
     (if ext then shown (attr_text (uint t) (uint st) (attr_str n) arg) else [])"
| "item_line ext cur HAttrEnd = (if ext then c_lit ''$attrend $end'' @ [10] else [])"
| "item_line ext cur (HVar t d n l a) =
     shown (var_line t (printed_len t l) (if a = 0 then cur + 1 else a) (take FST_ID_NAM_ATTR_SIZ n))"

text \<open>An attribute the pass can print: the types 14 and 15 of an enumeration have no name.\<close>

fun printable :: "hitem \<Rightarrow> bool" where
  "printable (HAttrBegin t st n arg) \<longleftrightarrow> \<not> (t = 2 \<and> (st = 14 \<or> st = 15))"
| "printable _ \<longleftrightarrow> True"

lemma vcd_buf: "fstVcdID (replicate 16 0) h = Inr (vcd_digits h @ 0 # replicate (15 - length (vcd_digits h)) 0)"
  using length_vcd_digits [of h] by (simp add: fstVcdID_def store_n_def)

lemma cstr_vcd: "cstr (vcd_digits h @ 0 # r) = vcd_digits h"
proof -
  have "\<forall>b \<in> set (vcd_digits h). b \<noteq> 0" using vcd_digits_range [of _ h] by fastforce
  then show ?thesis unfolding cstr_def by (subst takeWhile_append2) auto
qed

lemma var_line_eq:
  assumes "t \<le> 29"
  shows "var_line t n h str = Inr (c_lit ''$var '' @ vartypes ! unat t @ [32]
    @ dec_str (unat (if t \<noteq> 18 then n else (n - 2) div 3)) @ [32] @ vcd_digits h @ [32] @ str @ c_lit '' $end'' @ [10])"
  using assms by (simp add: var_line_def vcd_buf cstr_vcd word_le_nat_alt)

lemma attr_text_ok:
  assumes "\<not> (t = 2 \<and> (st = 14 \<or> st = 15))"
  shows "\<exists>s. attr_text (uint (t :: u8)) (uint (st :: u8)) str arg = Inr s"
proof -
  obtain v k where v: "fstGetVarint64 (str @ [0]) = Inr (v, k)" using fstGetVarint64_end by blast
  have u2: "uint t = 2 \<Longrightarrow> t = 2" by (simp add: word_uint_eq_iff)
  have u: "uint st < 14" if "uint t = 2" "\<not> uint st > 15"
  proof -
    have "uint st \<noteq> 14" "uint st \<noteq> 15"
      using assms u2 [OF that(1)] by (auto simp: word_uint_eq_iff)
    then show ?thesis using that(2) by linarith
  qed
  show ?thesis
    using v u by (auto simp: attr_text_def nat_less_iff)
qed

text \<open>The effect of an item on everything but the file.\<close>

definition ph_skip :: "nat \<Rightarrow> phier \<Rightarrow> phier" where
  "ph_skip n st = st\<lparr>ph_fh := (ph_fh st)\<lparr>f_pos := f_pos (ph_fh st) + n\<rparr>\<rparr>"

fun ph_effect :: "hitem \<Rightarrow> phier \<Rightarrow> phier" where
  "ph_effect (HVar t d n l a) st =
     (if a = 0
      then st\<lparr>ph_lens := ph_lens st @ [l], ph_typs := ph_typs st @ [if tag_is_real t then 3 else t],
              ph_longest := (if l > ph_longest st then l else ph_longest st),
              ph_dyn := (if ph_max st = ph_dyn st then ph_dyn st * 2 else ph_dyn st), ph_max := ph_max st + 1\<rparr>
      else st\<lparr>ph_alias := ph_alias st + 1\<rparr>)"
| "ph_effect _ st = st"

text \<open>There is room for the item: in the arrays, and in the numbers that count them.\<close>

fun has_room :: "hitem \<Rightarrow> phier \<Rightarrow> bool" where
  "has_room (HVar t d n l a) st \<longleftrightarrow>
     (if a = 0 then ph_max st < (if ph_max st = ph_dyn st then ph_dyn st * 2 else ph_dyn st)
      else tag_is_real t \<longrightarrow> ph_max st < ph_dyn st)"
| "has_room _ st \<longleftrightarrow> True"

lemma ph_item_step:
  assumes d: "drop (f_pos (ph_fh st)) (f_data (ph_fh st)) = hitem_bytes i @ r" and ok: "item_ok i"
    and pr: "fv \<Longrightarrow> ext \<Longrightarrow> printable i" and room: "has_room i st"
  shows "ph_item fv ext st
    = Inr (ph_skip (length (hitem_bytes i)) (ph_effect i (ph_print fv (item_line ext (ph_max st) i) st)))"
proof -
  let ?f = "ph_fh st"
  let ?f1 = "?f\<lparr>f_pos := f_pos ?f + 1\<rparr>"
  obtain b bs where b: "hitem_bytes i = b # bs" by (cases i) auto
  have g: "fgetc ?f = (uint b, ?f1)" using d b by (simp add: fgetc_u8_Cons(2))
  have d1: "drop (f_pos ?f1) (f_data ?f1) = bs @ r"
    using drop_more [of "f_pos ?f" "f_data ?f" "[b]"] d b by simp
  show ?thesis
  proof (cases i)
    case (HScope t n c)
    let ?f2 = "?f1\<lparr>f_pos := f_pos ?f1 + 1\<rparr>"
    let ?f3 = "?f2\<lparr>f_pos := f_pos ?f2 + length n + 1\<rparr>"
    have 1: "drop (f_pos ?f1) (f_data ?f1) = t # n @ 0 # (c @ [0] @ r)" using d1 b HScope by simp
    have 2: "drop (f_pos ?f2) (f_data ?f2) = n @ 0 # (c @ [0] @ r)"
      using drop_more [of "f_pos ?f1" "f_data ?f1" "[t]"] 1 by simp
    have 3: "drop (f_pos ?f3) (f_data ?f3) = c @ 0 # r"
      using drop_more [of "f_pos ?f2" "f_data ?f2" "n @ [0]"] 2 by simp
    have n: "0 \<notin> set n" "0 \<notin> set c" using ok HScope by auto
    define k where "k = (if t > 21 then 0 else unat t)"
    have k: "load modtypes (nat (if uint t < 0 \<or> uint t > 21 then 0 else uint t)) = Inr (modtypes ! k)"
    proof -
      have "\<not> 21 < uint t \<Longrightarrow> unat t < 22" by (simp add: not_less) (simp flip: nat_uint_eq)
      then show ?thesis by (simp add: k_def word_less_def)
    qed
    have g1: "fgetc (ph_fh (st\<lparr>ph_fh := ?f1\<rparr>)) = (uint t, ?f2)" using fgetc_u8_Cons(2) [OF 1] by simp
    have "ph_scope fv (st\<lparr>ph_fh := ?f1\<rparr>)
      = Inr (ph_skip (length (hitem_bytes i)) (ph_effect i (ph_print fv (item_line ext (ph_max st) i) st)))"
      unfolding ph_scope_def HScope item_line.simps ph_effect.simps k_def [symmetric] g1 Let_def prod.case
        read_name_cstr [OF 2 n(1)] read_name_cstr [OF 3 n(2)] andthen_simps k
      by (cases st) (simp add: ph_print_def ph_skip_def)
    moreover have "b = 254" using b HScope by simp
    ultimately show ?thesis using g by (simp add: ph_item_def)
  next
    case HUpscope
    then show ?thesis using g b by (simp add: ph_item_def ph_print_def ph_skip_def)
  next
    case (HAttrBegin t st' n arg)
    let ?f2 = "?f1\<lparr>f_pos := f_pos ?f1 + 1\<rparr>"
    let ?f3 = "?f2\<lparr>f_pos := f_pos ?f2 + 1\<rparr>"
    let ?f4 = "?f3\<lparr>f_pos := f_pos ?f3 + length n + 1\<rparr>"
    have 1: "drop (f_pos ?f1) (f_data ?f1) = t # st' # n @ 0 # (varint arg @ r)" using d1 b HAttrBegin by simp
    have 2: "drop (f_pos ?f2) (f_data ?f2) = st' # n @ 0 # (varint arg @ r)"
      using drop_more [of "f_pos ?f1" "f_data ?f1" "[t]"] 1 by simp
    have 3: "drop (f_pos ?f3) (f_data ?f3) = n @ 0 # (varint arg @ r)"
      using drop_more [of "f_pos ?f2" "f_data ?f2" "[st']"] 2 by simp
    have 4: "drop (f_pos ?f4) (f_data ?f4) = varint arg @ r"
      using drop_more [of "f_pos ?f3" "f_data ?f3" "n @ [0]"] 3 by simp
    have n: "0 \<notin> set n" using ok HAttrBegin by simp
    have str: "(if take FST_ID_NAM_ATTR_SIZ n = [] then [34, 34] else take FST_ID_NAM_ATTR_SIZ n) = attr_str n"
      by (simp add: attr_str_def FST_ID_NAM_ATTR_SIZ_def)
    have tx: "fv \<Longrightarrow> ext \<Longrightarrow> \<exists>s. attr_text (uint t) (uint st') (attr_str n) arg = Inr s"
      using pr HAttrBegin by (intro attr_text_ok) simp
    have "ph_attrbegin fv ext (st\<lparr>ph_fh := ?f1\<rparr>)
      = Inr (ph_skip (length (hitem_bytes i)) (ph_effect i (ph_print fv (item_line ext (ph_max st) i) st)))"
      using fgetc_u8_Cons(2) [OF 1] fgetc_u8_Cons(2) [OF 2] read_name_cstr [OF 3 n] f64.get_enc [OF 4] tx str
      by (auto simp: ph_attrbegin_def HAttrBegin ph_print_def ph_skip_def algebra_simps)
    moreover have "b = 252" using b HAttrBegin by simp
    ultimately show ?thesis using g by (simp add: ph_item_def)
  next
    case HAttrEnd
    then show ?thesis using g b by (simp add: ph_item_def ph_print_def ph_skip_def)
  next
    case (HVar t dir n l a)
    let ?f2 = "?f1\<lparr>f_pos := f_pos ?f1 + 1\<rparr>"
    let ?f3 = "?f2\<lparr>f_pos := f_pos ?f2 + length n + 1\<rparr>"
    let ?f4 = "?f3\<lparr>f_pos := f_pos ?f3 + length (varint l)\<rparr>"
    have 1: "drop (f_pos ?f1) (f_data ?f1) = dir # n @ 0 # (varint l @ varint a @ r)" using d1 b HVar by simp
    have 2: "drop (f_pos ?f2) (f_data ?f2) = n @ 0 # (varint l @ varint a @ r)"
      using drop_more [of "f_pos ?f1" "f_data ?f1" "[dir]"] 1 by simp
    have 3: "drop (f_pos ?f3) (f_data ?f3) = varint l @ varint a @ r"
      using drop_more [of "f_pos ?f2" "f_data ?f2" "n @ [0]"] 2 by simp
    have 4: "drop (f_pos ?f4) (f_data ?f4) = varint a @ r"
      using drop_more [of "f_pos ?f3" "f_data ?f3" "varint l"] 3 by simp
    have n: "0 \<notin> set n" "t \<le> 29" using ok HVar by auto
    obtain s where s: "var_line t (printed_len t l) (if a = 0 then ph_max st + 1 else a) (take FST_ID_NAM_ATTR_SIZ n) = Inr s"
      unfolding var_line_eq [OF n(2)] by blast
    have "ph_var fv t (st\<lparr>ph_fh := ?f1\<rparr>)
      = Inr (ph_skip (length (hitem_bytes i)) (ph_effect i (ph_print fv (item_line ext (ph_max st) i) st)))"
      using fgetc_u8_Cons(2) [OF 1] read_name_cstr [OF 2 n(1)] f32.get_enc [OF 3] f32.get_enc [OF 4] s room
      by (cases "a = 0")
        (auto simp: ph_var_def HVar ph_new_var_def ph_alias_var_def ph_print_var_def ph_print_def ph_skip_def Let_def algebra_simps)
    moreover have "b = t" using b HVar by simp
    ultimately show ?thesis using g var_tag [OF n(2)] by (simp add: ph_item_def)
  qed
qed

section \<open>The whole pass\<close>

primrec scan :: "bool \<Rightarrow> bool \<Rightarrow> hitem list \<Rightarrow> phier \<Rightarrow> phier" where
  "scan fv ext [] st = st"
| "scan fv ext (i # is) st = scan fv ext is (ph_effect i (ph_print fv (item_line ext (ph_max st) i) st))"

primrec room_for :: "bool \<Rightarrow> bool \<Rightarrow> hitem list \<Rightarrow> phier \<Rightarrow> bool" where
  "room_for fv ext [] st \<longleftrightarrow> True"
| "room_for fv ext (i # is) st \<longleftrightarrow>
     has_room i st \<and> room_for fv ext is (ph_effect i (ph_print fv (item_line ext (ph_max st) i) st))"

text \<open>The variables that are no aliases, with their types and widths.\<close>

fun new_vars :: "hitem list \<Rightarrow> (u8 \<times> u32) list" where
  "new_vars [] = []"
| "new_vars (HVar t d n l a # is) = (if a = 0 then (t, l) # new_vars is else new_vars is)"
| "new_vars (_ # is) = new_vars is"

fun real_alias :: "hitem \<Rightarrow> bool" where
  "real_alias (HVar t d n l a) \<longleftrightarrow> a \<noteq> 0 \<and> tag_is_real t"
| "real_alias _ \<longleftrightarrow> False"

fun is_alias :: "hitem \<Rightarrow> bool" where
  "is_alias (HVar t d n l a) \<longleftrightarrow> a \<noteq> 0"
| "is_alias _ \<longleftrightarrow> False"

primrec item_lines :: "bool \<Rightarrow> u32 \<Rightarrow> hitem list \<Rightarrow> bytes" where
  "item_lines ext cur [] = []"
| "item_lines ext cur (i # is) = item_line ext cur i @ item_lines ext (snd (item_view cur i)) is"

lemma ph_effect_fh [simp]: "ph_fh (ph_effect i st) = ph_fh st"
  by (cases i) auto

lemma ph_print_frame [simp]:
  "ph_fh (ph_print fv s st) = ph_fh st" "ph_max (ph_print fv s st) = ph_max st" "ph_dyn (ph_print fv s st) = ph_dyn st"
  "ph_lens (ph_print fv s st) = ph_lens st" "ph_typs (ph_print fv s st) = ph_typs st"
  "ph_alias (ph_print fv s st) = ph_alias st" "ph_longest (ph_print fv s st) = ph_longest st"
  by (simp_all add: ph_print_def)

lemma scan_frame: "scan fv ext is (st\<lparr>ph_fh := f\<rparr>) = (scan fv ext is st)\<lparr>ph_fh := f\<rparr>"
proof (induction "is" arbitrary: st)
  case (Cons i "is")
  have "ph_effect i (ph_print fv s (st\<lparr>ph_fh := f\<rparr>)) = (ph_effect i (ph_print fv s st))\<lparr>ph_fh := f\<rparr>" for s
    by (cases st; cases i) (auto simp: ph_print_def)
  then show ?case using Cons.IH by simp
qed simp

lemma has_room_frame: "has_room i (st\<lparr>ph_fh := f\<rparr>) = has_room i st"
  by (cases i) auto

lemma room_for_frame: "room_for fv ext is (st\<lparr>ph_fh := f\<rparr>) = room_for fv ext is st"
proof (induction "is" arbitrary: st)
  case (Cons i "is")
  have "ph_effect i (ph_print fv s (st\<lparr>ph_fh := f\<rparr>)) = (ph_effect i (ph_print fv s st))\<lparr>ph_fh := f\<rparr>" for s
    by (cases st; cases i) (auto simp: ph_print_def)
  then show ?case using Cons.IH by (simp add: has_room_frame)
qed simp

lemma ph_loop_items:
  assumes "drop (f_pos (ph_fh st)) (f_data (ph_fh st)) = hier_bytes is" and "\<not> f_eof (ph_fh st)"
    and "\<forall>i \<in> set is. item_ok i" and "fv \<Longrightarrow> ext \<Longrightarrow> \<forall>i \<in> set is. printable i" and "room_for fv ext is st"
  shows "\<exists>f. ph_loop fv ext st = Some (Inr ((scan fv ext is st)\<lparr>ph_fh := f\<rparr>)) \<and> f_data f = f_data (ph_fh st)"
  using assms
proof (induction "is" arbitrary: st)
  case Nil
  let ?f = "(ph_fh st)\<lparr>f_eof := True\<rparr>"
  have "fgetc (ph_fh st) = (-1, ?f)" using Nil.prems(1) by (simp add: fgetc_def)
  then have "ph_item fv ext st = Inr (st\<lparr>ph_fh := ?f\<rparr>)" by (simp add: ph_item_def)
  moreover have "ph_loop fv ext (st\<lparr>ph_fh := ?f\<rparr>) = Some (Inr (st\<lparr>ph_fh := ?f\<rparr>))"
    by (subst ph_loop.simps) simp
  ultimately have "ph_loop fv ext st = Some (Inr (st\<lparr>ph_fh := ?f\<rparr>))"
    using Nil.prems(2) by (subst ph_loop.simps) simp
  then show ?case by (intro exI [of _ ?f]) simp
next
  case (Cons i "is")
  let ?n = "length (hitem_bytes i)"
  define st1 where "st1 = ph_effect i (ph_print fv (item_line ext (ph_max st) i) st)"
  let ?f = "(ph_fh st)\<lparr>f_pos := f_pos (ph_fh st) + ?n\<rparr>"
  have d: "drop (f_pos (ph_fh st)) (f_data (ph_fh st)) = hitem_bytes i @ hier_bytes is" using Cons.prems(1) by simp
  have it: "ph_item fv ext st = Inr (st1\<lparr>ph_fh := ?f\<rparr>)"
    using ph_item_step [OF d, of fv ext] Cons.prems(3-5) by (simp add: st1_def ph_skip_def)
  have "\<exists>f. ph_loop fv ext (st1\<lparr>ph_fh := ?f\<rparr>)
      = Some (Inr ((scan fv ext is (st1\<lparr>ph_fh := ?f\<rparr>))\<lparr>ph_fh := f\<rparr>)) \<and> f_data f = f_data (ph_fh (st1\<lparr>ph_fh := ?f\<rparr>))"
    by (rule Cons.IH) (use Cons.prems drop_more [OF d] in \<open>simp_all add: room_for_frame st1_def\<close>)
  then obtain f where "ph_loop fv ext (st1\<lparr>ph_fh := ?f\<rparr>) = Some (Inr ((scan fv ext is st1)\<lparr>ph_fh := f\<rparr>))"
    "f_data f = f_data (ph_fh st)"
    by (auto simp: scan_frame)
  moreover have "ph_loop fv ext st = ph_loop fv ext (st1\<lparr>ph_fh := ?f\<rparr>)"
    using Cons.prems(2) it by (subst ph_loop.simps) simp
  ultimately show ?case by (intro exI [of _ f]) (simp add: st1_def)
qed

text \<open>The numbers the pass arrives at.\<close>

lemma scan_results:
  "ph_lens (scan fv ext is st) = ph_lens st @ map snd (new_vars is)"
  "ph_typs (scan fv ext is st) = ph_typs st @ map (\<lambda>(t, l). if tag_is_real t then 3 else t) (new_vars is)"
  "ph_max (scan fv ext is st) = ph_max st + of_nat (length (new_vars is))"
  "ph_alias (scan fv ext is st) = ph_alias st + of_nat (length (filter is_alias is))"
  "ph_longest (scan fv ext is st) = fold max (map snd (new_vars is)) (ph_longest st)"
  "ph_out (scan fv ext is st) = ph_out st @ (if fv then item_lines ext (ph_max st) is else [])"
proof (induction "is" arbitrary: st)
  case (Cons i "is")
  { case 1 show ?case by (cases i) (auto simp: Cons.IH(1)) }
  { case 2 show ?case by (cases i) (auto simp: Cons.IH(2)) }
  { case 3 show ?case by (cases i) (auto simp: Cons.IH(3)) }
  { case 4 show ?case by (cases i) (auto simp: Cons.IH(4)) }
  { case 5 show ?case by (cases i) (auto simp: Cons.IH(5) max_def not_less) }
  { case 6 show ?case by (cases i) (auto simp: Cons.IH(6) ph_print_def) }
qed simp_all

definition vars_fit :: "hitem list \<Rightarrow> bool" where
  "vars_fit is \<longleftrightarrow> length (new_vars is) \<le> 2 ^ 30
     \<and> (length (new_vars is) < 65536 \<or> (\<forall>i \<in> set is. \<not> real_alias i))"

lemma room_for_items:
  assumes "unat (ph_max st) + length (new_vars is) \<le> 2 ^ 30" and "ph_max st \<le> ph_dyn st"
    and "65536 \<le> unat (ph_dyn st)" and "unat (ph_dyn st) \<le> 2 ^ 31"
    and "unat (ph_max st) + length (new_vars is) < 65536 \<or> (\<forall>i \<in> set is. \<not> real_alias i)"
  shows "room_for fv ext is st"
  using assms
proof (induction "is" arbitrary: st)
  case (Cons i "is")
  show ?case
  proof (cases "\<exists>t d n l. i = HVar t d n l 0")
    case False
    then have "new_vars (i # is) = new_vars is" "\<And>s. ph_max (ph_effect i (ph_print fv s st)) = ph_max st"
      "\<And>s. ph_dyn (ph_effect i (ph_print fv s st)) = ph_dyn st" by (cases i; auto)+
    moreover have "has_room i st"
      using False Cons.prems(3,5) by (cases i) (auto simp: word_less_nat_alt)
    ultimately show ?thesis using Cons.prems Cons.IH by auto
  next
    case True
    then obtain t d n l where i: "i = HVar t d n l 0" by blast
    let ?m = "ph_max st" and ?d = "if ph_max st = ph_dyn st then ph_dyn st * 2 else ph_dyn st"
    have m1: "unat (?m + 1) = Suc (unat ?m)"
      using Cons.prems(1) i unat_u32 [of ?m] by (simp add: unat_plus_if' )
    have d2: "unat (ph_dyn st * 2) = 2 * unat (ph_dyn st)" if "?m = ph_dyn st"
      using Cons.prems(1) i that by (simp add: unat_mult_lem [THEN iffD1])
    have lt: "unat ?m < unat ?d"
    proof (cases "?m = ph_dyn st")
      case True
      then show ?thesis using d2 [OF True] Cons.prems(3) by simp
    next
      case False
      then have "?m < ph_dyn st" using Cons.prems(2) by simp
      then show ?thesis using False by (simp add: word_less_nat_alt)
    qed
    have dl: "65536 \<le> unat ?d" "unat ?d \<le> 2 ^ 31" using Cons.prems(1,3,4) d2 i by auto
    show ?thesis
      unfolding i room_for.simps
      by (intro conjI Cons.IH)
        (use Cons.prems i m1 lt dl in \<open>auto simp: word_less_nat_alt word_le_nat_alt\<close>)
  qed
qed simp

end
