(* ===== verification/Reader_Open.thy ===== *)
theory Reader_Open
  imports Iter_Blocks Process_Hier
begin

text \<open>
  Opening a file for reading: \<open>fstReaderInit\<close> of \<open>fstapi.c\<close> (lines 4589 to 4898) with the removal of a
  compressed wrapper and the walk over the sections of the file, and \<open>fstReaderOpen\<close> (lines 4909 to
  4952).

  A walk that goes on for ever is \<open>None\<close>. Allocations are taken to succeed; what a short read leaves
  unread comes from \<open>malloc_bytes\<close>, and the text fields of the fresh context are zeros.
\<close>

section \<open>The sections of a file\<close>

record opening_st =
  op_xc :: fstReaderContext
  op_blkpos :: u64
  op_incomplete :: bool
  op_seen :: bool
  op_sections :: u64

definition on_op :: "(fstReaderContext \<Rightarrow> fstReaderContext) \<Rightarrow> opening_st \<Rightarrow> opening_st" where
  "on_op g op = op\<lparr>op_xc := g (op_xc op)\<rparr>"

definition byte_f :: "fstReaderContext \<Rightarrow> int \<times> fstReaderContext" where
  "byte_f xc = (let (c, f) = fgetc (xc_f xc) in (c, xc\<lparr>xc_f := f\<rparr>))"

text \<open>\<open>fstFread\<close> into a text field of the context, and the zero behind it.\<close>

definition text_f :: "nat \<Rightarrow> fstReaderContext \<Rightarrow> bytes \<times> fstReaderContext" where
  "text_f n xc = (let (bs, xc) = read_f n xc in (zero_padded n bs @ [0], xc))"

text \<open>The header. \<open>None\<close>: the bytes of the endian test are those of no machine.\<close>

definition init_hdr :: "unpackers \<Rightarrow> opening_st \<Rightarrow> opening_st option" where
  "init_hdr up op =
     (let xc = op_xc op;
          (st, xc) = u64_f up xc; (en, xc) = u64_f up xc;
          incomplete = (st = 0 \<and> en = 0);
          (dcheck, xc) = fill_f up 8 xc;
          match = (dcheck = FST_DOUBLE_ENDTEST);
          xc = xc\<lparr>start_time := st, end_time := en, double_endian_match := match\<rparr>
      in if \<not> match \<and> rev dcheck \<noteq> FST_DOUBLE_ENDTEST then None
         else let (mem, xc) = u64_f up xc; (scopes, xc) = u64_f up xc; (vars, xc) = u64_f up xc;
                  (handles, xc) = u64_f up xc; (sections, xc) = u64_f up xc;
                  (ts, xc) = byte_f xc;
                  (vers, xc) = text_f FST_HDR_SIM_VERSION_SIZE xc;
                  (dat, xc) = text_f FST_HDR_DATE_SIZE xc;
                  (ft, xc) = byte_f xc;
                  (tz, xc) = u64_f up xc
              in Some (op\<lparr>op_incomplete := incomplete, op_seen := True,
                    op_xc := xc\<lparr>mem_used_by_writer := mem, scope_count := scopes, var_count := vars,
                      fstReaderContext.maxhandle := ucast handles,
                      num_alias := vars - ucast (ucast handles :: u32), vc_section_count := sections,
                      timescale := word_of_int ts, version := vers, date := dat,
                      fstReaderContext.filetype := word_of_int ft, fstReaderContext.timezero := tz\<rparr>\<rparr>))"

text \<open>A value change block tells the times when the writer could not complete the header.\<close>

definition init_vcdata :: "unpackers \<Rightarrow> opening_st \<Rightarrow> opening_st" where
  "init_vcdata up op =
     (let op = (if op_incomplete op
                then let (bt, xc) = u64_f up (op_xc op); (et, xc) = u64_f up xc;
                         xc = xc\<lparr>end_time := et\<rparr>
                     in op\<lparr>op_xc := (if op_sections op = 0 then xc\<lparr>start_time := bt\<rparr> else xc)\<rparr>
                else op)
      in op\<lparr>op_sections := op_sections op + 1\<rparr>)"

text \<open>Width and type of each handle from its code, with the greatest width.\<close>

primrec geom_items :: "nat \<Rightarrow> bytes \<Rightarrow> u32 \<Rightarrow> (u32 list \<times> bytes \<times> u32) outcome" where
  "geom_items 0 pnt longest = Inr ([], [], longest)"
| "geom_items (Suc n) pnt longest =
     andthen (fstGetVarint32 pnt) (\<lambda>(val, skiplen).
       let (l, t, longest) =
             (if val \<noteq> 0
              then let l = (if val \<noteq> 0xFFFFFFFF then val else 0)
                   in (l, 16, if l > longest then l else longest)
              else (8, FST_VT_VCD_REAL, longest))
       in andthen (geom_items n (drop skiplen pnt) longest) (\<lambda>(ls, ts, longest). Inr (l # ls, t # ts, longest)))"

definition init_geom :: "unpackers \<Rightarrow> u64 \<Rightarrow> opening_st \<Rightarrow> opening_st outcome" where
  "init_geom up seclen op =
     (if op_incomplete op then Inr op
      else let clen = seclen - 24; (uclen, xc) = u64_f up (op_xc op); (handles, xc) = u64_f up xc;
               h = ucast handles :: u32
           in andthen (section_f up (unat uclen) (unat clen) xc) (\<lambda>(ucdata, xc).
              andthen (geom_items (unat h) ucdata 32) (\<lambda>(ls, ts, longest).
                Inr (op\<lparr>op_xc := xc\<lparr>contains_geom_section := True, fstReaderContext.maxhandle := h,
                       longest_signal_value_len := longest, signal_lens := ls, signal_typs := ts,
                       process_mask := replicate (unat ((h + 7) div 8)) 0,
                       temp_signal_value_buf := malloc_bytes up (unat (longest + 1))\<rparr>\<rparr>))))"

primrec blackout_items :: "nat \<Rightarrow> u64 \<Rightarrow> cfile \<Rightarrow> (u64 list \<times> bytes \<times> cfile) outcome" where
  "blackout_items 0 cur_bl f = Inr ([], [], f)"
| "blackout_items (Suc n) cur_bl f =
     (let (c, f) = fgetc f
      in andthen (fstReaderVarint64 f) (\<lambda>(delta, f).
         andthen (blackout_items n (cur_bl + delta) f) (\<lambda>(ts, acts, f).
           Inr ((cur_bl + delta) # ts, of_bool (c \<noteq> 0) # acts, f))))"

definition init_blackout :: "opening_st \<Rightarrow> opening_st outcome" where
  "init_blackout op =
     (let xc = op_xc op
      in andthen (fstReaderVarint32 (xc_f xc)) (\<lambda>(n, f).
         andthen (blackout_items (unat n) 0 f) (\<lambda>(ts, acts, f).
           Inr (op\<lparr>op_xc := xc\<lparr>xc_f := f, fstReaderContext.num_blackouts := n, blackout_times := Some ts,
                                 blackout_activity := Some acts\<rparr>\<rparr>))))"

definition init_hier :: "int \<Rightarrow> fstReaderContext \<Rightarrow> fstReaderContext" where
  "init_hier sectype xc =
     (let xc = xc\<lparr>hier_pos := ftello (xc_f xc)\<rparr>
      in if sectype = 4 then xc\<lparr>contains_hier_section := True\<rparr>
         else if sectype = 7 then xc\<lparr>contains_hier_section_lz4 := True, contains_hier_section_lz4duo := True\<rparr>
         else xc\<lparr>contains_hier_section_lz4 := True\<rparr>)"

text \<open>What a section means for the context. \<open>None\<close> leaves the walk.\<close>

definition init_section :: "unpackers \<Rightarrow> int \<Rightarrow> u64 \<Rightarrow> opening_st \<Rightarrow> opening_st option outcome" where
  "init_section up sectype seclen op =
     (if sectype = 0 then Inr (if op_seen op then Some op else init_hdr up op)
      else if sectype \<in> {1, 5, 8} then Inr (Some (init_vcdata up op))
      else if sectype = 3 then andthen (init_geom up seclen op) (\<lambda>op. Inr (Some op))
      else if sectype \<in> {4, 6, 7} then Inr (Some (on_op (init_hier sectype) op))
      else if sectype = 2 then andthen (init_blackout op) (\<lambda>op. Inr (Some op))
      else Inr (Some op))"

text \<open>One round of the loop: whether to go on.\<close>

definition init_block :: "unpackers \<Rightarrow> opening_st \<Rightarrow> (bool \<times> opening_st) outcome" where
  "init_block up op =
     (let op = on_op (seek_f (sint (op_blkpos op)) SEEK_SET) op;
          (sectype, xc) = byte_f (op_xc op);
          (seclen, xc) = u64_f up xc;
          op = op\<lparr>op_xc := xc\<rparr>
      in if sectype = -1 \<or> op_incomplete op \<and> seclen = 0 \<or> \<not> op_seen op \<and> sectype \<noteq> 0 then Inr (False, op)
         else let op = op\<lparr>op_blkpos := op_blkpos op + 1\<rparr>
              in andthen (init_section up sectype seclen op) (\<lambda>r.
                 case r of None \<Rightarrow> Inr (False, op)
                 | Some op \<Rightarrow> Inr (op_seen op, op\<lparr>op_blkpos := op_blkpos op + seclen\<rparr>)))"

partial_function (option) init_loop :: "unpackers \<Rightarrow> nat \<Rightarrow> opening_st \<Rightarrow> opening_st outcome option" where
  "init_loop up endfile op =
     (if \<not> sint (op_blkpos op) < int endfile then Some (Inr op)
      else case init_block up op of
             Inl e \<Rightarrow> Some (Inl e)
           | Inr (go_on, op) \<Rightarrow> if go_on then init_loop up endfile op else Some (Inr op))"

section \<open>The whole of it\<close>

text \<open>
  The wrapper is taken off by copying the file to a new one. \<open>gz\<close> gives the bytes \<open>gzread\<close> delivers
  from a position of the file on, \<open>tmp_ok\<close> says whether the new file can be opened. The result says
  whether the sections are to be walked; \<open>None\<close> stands for the early return.
\<close>

definition unwrap ::
    "unpackers \<Rightarrow> (bytes \<Rightarrow> bytes option) \<Rightarrow> bool \<Rightarrow> fstReaderContext \<Rightarrow> (bool \<times> fstReaderContext) option" where
  "unwrap up gz tmp_ok xc =
     (let (sectype, xc) = byte_f xc
      in if sectype \<noteq> 254 then Some (True, xc)
         else let (seclen, xc) = u64_f up xc; (uclen, xc) = u64_f up xc
              in if seclen = 0 \<or> \<not> tmp_ok then None
                 else let xc = seek_f 17 SEEK_SET xc;
                          (st, fcomp) = (case gz (drop (f_pos (xc_f xc)) (f_data (xc_f xc))) of
                                           None \<Rightarrow> (True, new_file)
                                         | Some z \<Rightarrow> gz_copy z (off_nat uclen) new_file)
                      in Some (st, xc\<lparr>xc_f := fcomp\<rparr>))"

definition fstReaderInit ::
    "unpackers \<Rightarrow> (bytes \<Rightarrow> bytes option) \<Rightarrow> bool
      \<Rightarrow> (fstReaderContext \<Rightarrow> (bool \<times> fstReaderContext) outcome)
      \<Rightarrow> fstReaderContext \<Rightarrow> (bool \<times> fstReaderContext) outcome option" where
  "fstReaderInit up gz tmp_ok recreate xc =
     (case unwrap up gz tmp_ok xc of
        None \<Rightarrow> Some (Inr (False, xc))
      | Some (False, xc) \<Rightarrow> Some (Inr (False, xc))
      | Some (True, xc) \<Rightarrow>
          let xc = seek_f 0 SEEK_END xc; endfile = ftello (xc_f xc)
          in (case init_loop up endfile
                     \<lparr>op_xc = xc, op_blkpos = 0, op_incomplete = False, op_seen = False, op_sections = 0\<rparr> of
                None \<Rightarrow> None
              | Some (Inl e) \<Rightarrow> Some (Inl e)
              | Some (Inr op) \<Rightarrow>
                  if \<not> op_seen op then Some (Inr (False, op_xc op))
                  else let xc = (op_xc op)\<lparr>vc_section_count := op_sections op\<rparr>
                       in if contains_geom_section xc then Some (Inr (True, xc))
                          else (case fstReaderProcessHier recreate (malloc_bytes up) (Some xc) False of
                                  None \<Rightarrow> None
                                | Some (Inl e) \<Rightarrow> Some (Inl e)
                                | Some (Inr (_, _, Some xc)) \<Rightarrow> Some (Inr (True, xc))
                                | Some (Inr (_, _, None)) \<Rightarrow> Some (Inl Null_deref))))"

text \<open>
  \<open>fstReaderOpen\<close>: the contents of the file and of the hierarchy file beside it, where they can be
  opened. \<open>recreate\<close> is \<open>fstReaderRecreateHierFile\<close> with the decompressors it uses.
\<close>

definition opened_file :: "bytes \<Rightarrow> cfile" where
  "opened_file d = \<lparr>f_data = d, f_pos = 0, f_eof = False\<rparr>"

definition fstReaderOpen ::
    "unpackers \<Rightarrow> (bytes \<Rightarrow> bytes option) \<Rightarrow> bool
      \<Rightarrow> (fstReaderContext \<Rightarrow> (bool \<times> fstReaderContext) outcome)
      \<Rightarrow> bytes option \<Rightarrow> bytes option \<Rightarrow> rctx outcome option" where
  "fstReaderOpen up gz tmp_ok recreate main hier =
     (case main of None \<Rightarrow> Some (Inr None)
      | Some d \<Rightarrow>
        (case fstReaderInit up gz tmp_ok recreate
                (reader_zero\<lparr>xc_f := opened_file d, xc_fh := map_option opened_file hier\<rparr>) of
           None \<Rightarrow> None
         | Some (Inl e) \<Rightarrow> Some (Inl e)
         | Some (Inr (rc, xc)) \<Rightarrow>
             Some (Inr (if rc \<and> vc_section_count xc \<noteq> 0 \<and> fstReaderContext.maxhandle xc \<noteq> 0
                           \<and> (xc_fh xc \<noteq> None \<or> contains_hier_section xc \<or> contains_hier_section_lz4 xc)
                        then Some (xc\<lparr>do_rewind := True\<rparr>) else None))))"

definition fstReaderOpenForUtilitiesOnly :: rctx where
  "fstReaderOpenForUtilitiesOnly = Some reader_zero"

end
