(* ===== verification/Declarations.thy ===== *)
theory Declarations
  imports Process_Hier
begin

text \<open>
  What the writer records of a declaration beside its item in the hierarchy: the code of its width
  in the geometry file and the cells of the handle. Both agree with the hierarchy, and so do the
  arrays \<open>fstReaderProcessHier\<close> rebuilds from it.
\<close>

section \<open>Declarations in the writer\<close>

definition geom_code :: "u8 \<times> u32 \<Rightarrow> u32" where
  "geom_code v = (let (t, l) = v in if l = 0 then 0xFFFFFFFF else if tag_is_real t then 0 else l)"

definition geom_bytes :: "(u8 \<times> u32) list \<Rightarrow> bytes" where
  "geom_bytes vs = concat (map (\<lambda>v. varint (geom_code v)) vs)"

definition decl_rel :: "fstWriterContext \<Rightarrow> (u8 \<times> u32) list \<Rightarrow> bool" where
  "decl_rel xc vs \<longleftrightarrow>
     at_end (geom_handle xc) \<and> f_data (geom_handle xc) = geom_bytes vs
     \<and> fstWriterContext.maxhandle xc = of_nat (length vs)
     \<and> length (valpos xc) = 4 * length vs \<and> (\<forall>i < length vs. valpos xc ! (4 * i + 1) = snd (vs ! i))"

definition decl_part :: "fstWriterContext \<Rightarrow> cfile \<times> u32 list \<times> u32" where
  "decl_part xc = (geom_handle xc, valpos xc, fstWriterContext.maxhandle xc)"

lemma decl_rel_part: "decl_part xc' = decl_part xc \<Longrightarrow> decl_rel xc' vs = decl_rel xc vs"
  by (simp add: decl_part_def decl_rel_def)

lemma hier_add_part: "decl_part (hier_add bs xc) = decl_part xc"
  by (simp add: decl_part_def)

lemma SourceStem_part:
  assumes "fstWriterSetSourceStem_2 rp (Some xc) (Some p) l u typ = Inr (Some xc')"
  shows "decl_part xc' = decl_part xc"
  using assms
  by (auto simp: fstWriterSetSourceStem_2_def andthen_eq_Inr Let_def SetAttrGeneric_eq SetAttrDoubleArg_eq
      hier_add_part decl_part_def split: if_splits option.splits prod.splits)

lemma hier_step_part:
  assumes "hier_step rp (Some xc) p = Inr (h, Some xc')" and "\<not> is_var p"
  shows "decl_part xc' = decl_part xc"
proof (cases p)
  case (Source_stem path l u)
  then show ?thesis
    using assms SourceStem_part [of rp xc path l u FST_MT_SOURCESTEM xc']
    by (auto simp: fstWriterSetSourceStem_def no_handle_def andthen_eq_Inr)
next
  case (Source_istem path l u)
  then show ?thesis
    using assms SourceStem_part [of rp xc path l u FST_MT_SOURCEISTEM xc']
    by (auto simp: fstWriterSetSourceInstantiationStem_def no_handle_def andthen_eq_Inr)
next
  case (Scope t n c)
  then show ?thesis using assms hier_add_part [of _ xc] by (auto simp: SetScope_eq decl_part_def)
next
  case (Enum_table n c m ls vs)
  then show ?thesis
    using assms
    by (auto simp: fstWriterCreateEnumTable_def andthen_eq_Inr Let_def SetAttrBegin_eq decl_part_def split: if_splits)
qed (use assms in \<open>auto simp: fstWriterSetComment_def fstWriterSetValueList_def fstWriterSetEnvVar_def SetUpscope_eq
    SetAttrEnd_eq SetAttrGeneric_eq SetAttrBegin_eq no_handle_def hier_add_part fstWriterEmitEnumTableRef_def
    split: if_splits\<close>)

text \<open>A variable.\<close>

lemma tag_is_real_ucast: "(vt :: u32) \<le> 29 \<Longrightarrow> tag_is_real (ucast vt) = var_is_real vt"
proof -
  assume "vt \<le> 29"
  then have u: "unat (ucast vt :: u8) = unat vt"
    by (simp add: word_le_nat_alt unsigned_ucast_eq take_bit_nat_eq_self_iff)
  show ?thesis by (simp only: tag_is_real_def var_is_real_def word_unat_eq_iff u) simp
qed

lemma geom_bytes_simps [simp]:
  "geom_bytes [] = []" "geom_bytes (v # vs) = varint (geom_code v) @ geom_bytes vs"
  "geom_bytes (us @ vs) = geom_bytes us @ geom_bytes vs"
  by (simp_all add: geom_bytes_def)

lemma new_vars_append: "new_vars (is @ js) = new_vars is @ new_vars js"
  by (induction "is" rule: new_vars.induct) auto

lemma new_vars_attr [simp]: "new_vars (attr_item a st n arg # is) = new_vars is"
  by (simp add: attr_item_def split: prod.split)

lemma decl_rel_new:
  assumes "decl_rel xc vs" and "vt \<le> 29"
    and "new_handle (var_is_real vt) n xc = Inr (h, xc')"
  shows "decl_rel xc' (vs @ [(ucast vt, n)])"
proof -
  have g: "(if n \<noteq> 0 then (if var_is_real vt then 0 else n) else 0xFFFFFFFF) = geom_code (ucast vt, n)"
    using tag_is_real_ucast [OF assms(2)] by (simp add: geom_code_def)
  have "xc' = xc\<lparr>geom_handle := fstFwrite (varint (geom_code (ucast vt, n))) (geom_handle xc),
        valpos := valpos xc @ [maxvalpos xc, n, 0, 0],
        curval := curval xc @ (if var_is_real vt then nan xc else replicate (unat n) (ascii CHR ''x'')),
        maxvalpos := maxvalpos xc + n, fstWriterContext.maxhandle := fstWriterContext.maxhandle xc + 1\<rparr>"
    using assms(3) unfolding new_handle_eq g by (auto split: if_splits)
  then show ?thesis
    using assms(1) by (auto simp: decl_rel_def append_simps nth_append less_Suc_eq algebra_simps)
qed

lemma CreateVar_decl:
  assumes "decl_rel xc vs" and "hier_rel xc s" and "vt \<le> 29"
    and "fstWriterCreateVar (Some xc) vt vd n (Some nm) a = Inr (h, Some xc')"
  shows "decl_rel xc' (vs @ new_vars [fst (var_items s vt vd n nm a)])"
proof -
  have al: "var_alias xc a = (if a > s_handles s then 0 else a)"
    using assms(2) by (simp add: var_alias_def hier_rel_def)
  have base: "decl_rel (var_base vt vd n nm a xc) vs"
    using assms(1) decl_rel_part [of "var_base vt vd n nm a xc" xc] by (simp add: decl_part_def)
  show ?thesis
  proof (cases "var_alias xc a = 0")
    case True
    then obtain x where "new_handle (var_is_real vt) (var_len vt n) (var_base vt vd n nm a xc) = Inr (x, xc')"
      using assms(4) by (auto simp: CreateVar_eq andthen_eq_Inr)
    from decl_rel_new [OF base assms(3) this] show ?thesis
      using True al by (auto simp: var_items_def var_item_def Let_def split: if_splits)
  next
    case False
    then show ?thesis
      using assms(4) base al by (auto simp: CreateVar_eq var_items_def var_item_def Let_def split: if_splits)
  qed
qed

lemma hier_step_decl:
  assumes "decl_rel xc vs" and rel: "hier_rel xc s" and "op_readable p"
    and st: "hier_step rp (Some xc) p = Inr (h, Some xc')"
  shows "decl_rel xc' (vs @ new_vars (fst (hier_spec rp s p)))"
proof (cases p)
  case (Var vt vd n nm a)
  then show ?thesis
    using CreateVar_decl [OF assms(1) rel, of vt vd n nm a h xc'] assms(3) st
    by (auto split: prod.split)
next
  case (Var2 vt vd n nm a ty svt sdt)
  let ?i = "attr_item 0 FST_MT_SUPVAR (no_newlines (opt_str ty)) (ucast (push_bit 10 svt OR (sdt AND 1023)))"
  let ?xc = "hier_add (hitem_bytes ?i) xc"
  have "hier_step rp (Some xc) p = fstWriterCreateVar (Some ?xc) vt vd n (Some nm) a"
    by (cases ty) (simp_all add: Var2 fstWriterCreateVar2_def SetAttrGeneric_eq opt_str_def)
  moreover have "decl_rel ?xc vs" using assms(1) decl_rel_part [OF hier_add_part] by simp
  ultimately show ?thesis
    using CreateVar_decl [of ?xc vs s vt vd n nm a h xc'] hier_rel_add [OF rel] assms(3) st Var2
    by (auto split: prod.split)
next
  case (Source_stem path l u)
  then have "new_vars (fst (hier_spec rp s p)) = []"
    by (auto simp: stem_items_def Let_def split: prod.splits option.splits if_splits)
  then show ?thesis using decl_rel_part [OF hier_step_part [OF st]] assms(1) Source_stem by simp
next
  case (Source_istem path l u)
  then have "new_vars (fst (hier_spec rp s p)) = []"
    by (auto simp: stem_items_def Let_def split: prod.splits option.splits if_splits)
  then show ?thesis using decl_rel_part [OF hier_step_part [OF st]] assms(1) Source_istem by simp
qed (use decl_rel_part [OF hier_step_part [OF st]] assms(1) in \<open>simp_all\<close>)

lemma hier_run_decl:
  assumes "hier_rel xc s" and "decl_rel xc vs" and "\<forall>p \<in> set ps. op_readable p"
    and "length (s_paths s) + length ps < 2 ^ 32 - 1" and "hier_run rp (Some xc) ps = Inr (hs, Some xc')"
  shows "decl_rel xc' (vs @ new_vars (fst (hier_spec_run rp s ps)))"
  using assms
proof (induction ps arbitrary: xc s vs hs)
  case (Cons p ps)
  obtain xc1 where 1: "hier_step rp (Some xc) p = Inr (fst (snd (hier_spec rp s p)), Some xc1)"
    "hier_rel xc1 (snd (snd (hier_spec rp s p)))"
    using hier_step_spec [of xc s p rp] Cons.prems op_readable_ok by auto
  have len: "length (s_paths (snd (snd (hier_spec rp s p)))) + length ps < 2 ^ 32 - 1"
    using hier_spec_paths [of rp s p] Cons.prems(4) by simp
  obtain hs' where r: "hier_run rp (Some xc1) ps = Inr (hs', Some xc')"
    using Cons.prems(5) 1(1) by (auto simp: andthen_eq_Inr)
  have d: "decl_rel xc1 (vs @ new_vars (fst (hier_spec rp s p)))"
    using hier_step_decl [OF Cons.prems(2,1) _ 1(1)] Cons.prems(3) by simp
  from Cons.IH [OF 1(2) d _ len r] Cons.prems(3) show ?case
    by (simp add: split_beta new_vars_append)
qed simp

lemma Create_decl_rel:
  "fstWriterCreate True True mi wt (Some n) u = Some xc \<Longrightarrow> decl_rel xc []"
  by (auto simp: fstWriterCreate_def fstDetermineBreakSize_def fstWriterEmitHdrBytes_def on_handle_def Let_def
      decl_rel_def writer_zero_def new_file_def at_end_def)

section \<open>The pass over a file of items\<close>

lemma ProcessHier_items:
  assumes "xc_fh xr = Some fh" and "f_data fh = hier_bytes is" and "\<forall>i \<in> set is. item_ok i" and "vars_fit is"
    and "fv \<Longrightarrow> use_vcd_extensions xr \<Longrightarrow> \<forall>i \<in> set is. printable i"
  shows "\<exists>xr'. fstReaderProcessHier recreate junk (Some xr) fv = Some (Inr (True,
      if fv then vcd_header xr @ item_lines (use_vcd_extensions xr) 0 is @ c_lit ''$enddefinitions $end'' @ [10] else [],
      Some xr'))
    \<and> fstReaderContext.maxhandle xr' = of_nat (length (new_vars is))
    \<and> signal_lens xr' = map snd (new_vars is)
    \<and> signal_typs xr' = map (\<lambda>(t, l). if tag_is_real t then 3 else t) (new_vars is)
    \<and> num_alias xr' = of_nat (length (filter is_alias is))
    \<and> longest_signal_value_len xr' = fold max (map snd (new_vars is)) 32"
proof -
  let ?x1 = "xr\<lparr>longest_signal_value_len := 32\<rparr>" and ?f0 = "fh\<lparr>f_pos := 0, f_eof := False\<rparr>"
  let ?ext = "use_vcd_extensions xr"
  define st0 where "st0 = ph_start fv ?x1 ?f0"
  have seek: "fstReaderFseeko ?x1 fh 0 SEEK_SET = (0, ?f0, ?x1)" by (simp add: fstReaderFseeko_def fseeko_def)
  have room: "room_for fv ?ext is st0"
    by (rule room_for_items) (use assms(4) in \<open>auto simp: vars_fit_def st0_def ph_start_def\<close>)
  have "\<exists>f. ph_loop fv ?ext st0 = Some (Inr ((scan fv ?ext is st0)\<lparr>ph_fh := f\<rparr>)) \<and> f_data f = f_data (ph_fh st0)"
    by (rule ph_loop_items) (use assms room in \<open>simp_all add: st0_def ph_start_def\<close>)
  then obtain f where f: "ph_loop fv ?ext st0 = Some (Inr ((scan fv ?ext is st0)\<lparr>ph_fh := f\<rparr>))" by blast
  have h: "vcd_header ?x1 = vcd_header xr" by (simp add: vcd_header_def)
  let ?st = "(scan fv ?ext is st0)\<lparr>ph_fh := f\<rparr>"
  have pr: "fstReaderProcessHier recreate junk (Some xr) fv
    = Some (Inr (True, ph_out (ph_print fv (c_lit ''$enddefinitions $end'' @ [10]) ?st), Some (ph_finish junk ?st ?x1)))"
    using assms(1) f seek by (simp add: fstReaderProcessHier_def st0_def Let_def)
  have out: "ph_out (ph_print fv (c_lit ''$enddefinitions $end'' @ [10]) ?st)
    = (if fv then vcd_header xr @ item_lines ?ext 0 is @ c_lit ''$enddefinitions $end'' @ [10] else [])"
    by (simp add: ph_print_def scan_results st0_def ph_start_def h)
  show ?thesis
    unfolding pr out
    by (intro exI [of _ "ph_finish junk ?st ?x1"])
      (simp add: ph_finish_def scan_results st0_def ph_start_def)
qed

section \<open>Properties\<close>

text \<open>
  C34. The types and widths of the handles: whatever is declared with the writer, in any order of
  scopes, attributes, variables and aliases, the pass over its hierarchy file ends, counts the
  writer's handles, and gives each of them the width the writer keeps for it; the real types all
  become \<open>FST_VT_VCD_REAL\<close> and every other type is kept. With a file to print to, the text is the
  header of the context, the lines of the items and the end mark.
\<close>

theorem process_hier_types:
  assumes "\<forall>p \<in> set ps. op_readable p" and "length ps < 2 ^ 32 - 1"
    and "\<forall>q r. rp q = Some r \<longrightarrow> 0 \<notin> set r" and "its = fst (hier_spec_run rp hstate_init ps)"
    and "vars_fit its" and "fv \<and> use_vcd_extensions xr \<longrightarrow> (\<forall>i \<in> set its. printable i)"
  shows "\<exists>xc xc' hs out xr'. fstWriterCreate True True mi wt (Some n) u = Some xc
    \<and> hier_run rp (Some xc) ps = Inr (hs, Some xc')
    \<and> fstReaderProcessHier recreate junk (Some (xr\<lparr>xc_fh := Some (hier_handle xc')\<rparr>)) fv
      = Some (Inr (True, out, Some xr'))
    \<and> fstReaderContext.maxhandle xr' = fstWriterContext.maxhandle xc'
    \<and> (\<forall>i < unat (fstWriterContext.maxhandle xc'). signal_lens xr' ! i = valpos xc' ! (4 * i + 1))
    \<and> signal_typs xr' = map (\<lambda>(t, l). if tag_is_real t then 3 else t) (new_vars its)
    \<and> out = (if fv then vcd_header xr @ item_lines (use_vcd_extensions xr) 0 its @ c_lit ''$enddefinitions $end'' @ [10]
              else [])"
proof -
  have len: "length (s_paths hstate_init) + length ps < 2 ^ 32 - 1" using assms(2) by (simp add: hstate_init_def)
  obtain xc where xc: "fstWriterCreate True True mi wt (Some n) u = Some xc" "hier_rel xc hstate_init"
    "f_data (hier_handle xc) = []"
    using Create_hier_rel by blast
  obtain xc' where run: "hier_run rp (Some xc) ps = Inr (fst (snd (hier_spec_run rp hstate_init ps)), Some xc')"
    "f_data (hier_handle xc') = hier_bytes its"
    using hier_run_spec [OF xc(2) _ len, of rp] assms(1,4) xc(3) op_readable_ok by auto
  have decl: "decl_rel xc' (new_vars its)"
    using hier_run_decl [OF xc(2) Create_decl_rel [OF xc(1)] assms(1) len run(1)] assms(4) by simp
  have big: "length (new_vars its) < 2 ^ 32" using assms(5) by (simp add: vars_fit_def)
  then have um: "unat (fstWriterContext.maxhandle xc') = length (new_vars its)"
    using decl by (simp add: decl_rel_def of_nat_inverse)
  let ?xr = "xr\<lparr>xc_fh := Some (hier_handle xc')\<rparr>"
  have h: "vcd_header ?xr = vcd_header xr" by (simp add: vcd_header_def)
  obtain xr' where r: "fstReaderProcessHier recreate junk (Some ?xr) fv = Some (Inr (True,
      if fv then vcd_header ?xr @ item_lines (use_vcd_extensions ?xr) 0 its @ c_lit ''$enddefinitions $end'' @ [10] else [],
      Some xr'))" "fstReaderContext.maxhandle xr' = of_nat (length (new_vars its))"
    "signal_lens xr' = map snd (new_vars its)"
    "signal_typs xr' = map (\<lambda>(t, l). if tag_is_real t then 3 else t) (new_vars its)"
    using ProcessHier_items [of ?xr "hier_handle xc'" its fv recreate junk] run(2) assms(5,6)
      hier_spec_run_items_ok [OF assms(1) len assms(3)] assms(4) by auto
  show ?thesis
  proof (intro exI conjI)
    show "hier_run rp (Some xc) ps = Inr (fst (snd (hier_spec_run rp hstate_init ps)), Some xc')" by (rule run(1))
    show "fstReaderProcessHier recreate junk (Some ?xr) fv = Some (Inr (True,
      if fv then vcd_header ?xr @ item_lines (use_vcd_extensions ?xr) 0 its @ c_lit ''$enddefinitions $end'' @ [10] else [],
      Some xr'))" by (rule r(1))
    show "\<forall>i < unat (fstWriterContext.maxhandle xc'). signal_lens xr' ! i = valpos xc' ! (4 * i + 1)"
      using decl r(3) um by (simp add: decl_rel_def)
    show "(if fv then vcd_header ?xr @ item_lines (use_vcd_extensions ?xr) 0 its @ c_lit ''$enddefinitions $end'' @ [10]
        else []) = (if fv then vcd_header xr @ item_lines (use_vcd_extensions xr) 0 its
        @ c_lit ''$enddefinitions $end'' @ [10] else [])" by (simp add: h)
  qed (use xc(1) r(2,4) decl in \<open>simp_all add: decl_rel_def\<close>)
qed

lemma process_hier_types_witness:
  "\<exists>xc xc' hs out xr'. fstWriterCreate True True None [] (Some [97]) 1 = Some xc
    \<and> hier_run (\<lambda>_. None) (Some xc) [Scope 0 (Some [116]) None, Var 5 0 4 [97] 0, Var 20 1 1 [98] 0, Upscope]
      = Inr (hs, Some xc')
    \<and> fstReaderProcessHier (\<lambda>_. Inl Hang) (\<lambda>n. replicate n 0) (Some (reader_zero\<lparr>xc_fh := Some (hier_handle xc')\<rparr>)) True
      = Some (Inr (True, out, Some xr'))
    \<and> fstReaderContext.maxhandle xr' = 2 \<and> signal_typs xr' = [5, 3]"
proof -
  let ?ps = "[Scope 0 (Some [116]) None, Var 5 0 4 [97] 0, Var 20 1 1 [98] 0, Upscope]"
  let ?its = "fst (hier_spec_run (\<lambda>_. None) hstate_init ?ps)"
  have nv: "new_vars ?its = [(5, 4), (20, 8)]"
    by (simp add: var_items_def hstate_init_def var_item_def var_len_def var_is_real_def)
  have "\<forall>p \<in> set ?ps. op_readable p" "length ?ps < 2 ^ 32 - 1" "\<forall>q r. (\<lambda>_. None) q = Some r \<longrightarrow> 0 \<notin> set r"
    by (simp_all add: str_ok_def opt_str_def)
  moreover have "vars_fit ?its" by (simp only: vars_fit_def nv) simp
  moreover have "True \<and> use_vcd_extensions reader_zero \<longrightarrow> (\<forall>i \<in> set ?its. printable i)" by (simp add: reader_zero_def)
  ultimately obtain xc xc' hs out xr' where r: "fstWriterCreate True True None [] (Some [97]) 1 = Some xc"
    "hier_run (\<lambda>_. None) (Some xc) ?ps = Inr (hs, Some xc')"
    "fstReaderProcessHier (\<lambda>_. Inl Hang) (\<lambda>n. replicate n 0) (Some (reader_zero\<lparr>xc_fh := Some (hier_handle xc')\<rparr>)) True
      = Some (Inr (True, out, Some xr'))"
    "fstReaderContext.maxhandle xr' = fstWriterContext.maxhandle xc'"
    "signal_typs xr' = map (\<lambda>(t, l). if tag_is_real t then 3 else t) (new_vars ?its)"
    using process_hier_types [of ?ps "\<lambda>_. None" ?its True reader_zero None "[]" "[97]" 1 "\<lambda>_. Inl Hang" "\<lambda>n. replicate n 0"]
    by blast
  have len: "length (s_paths hstate_init) + length ?ps < 2 ^ 32 - 1" by (simp add: hstate_init_def)
  have "hier_rel xc hstate_init" using Create_hier_rel [of None "[]" "[97]" 1] r(1) by auto
  from hier_run_decl [OF this Create_decl_rel [OF r(1)] _ len r(2)] have "decl_rel xc' (new_vars ?its)"
    by (simp add: str_ok_def opt_str_def)
  then have "fstWriterContext.maxhandle xc' = 2" unfolding nv by (simp add: decl_rel_def)
  moreover have "signal_typs xr' = [5, 3]" using r(5) unfolding nv by (simp add: tag_is_real_def)
  ultimately show ?thesis using r(1-4) by auto
qed

text \<open>
  \<open>FST_EV_REG\<close> and \<open>FST_EV_TIME\<close>, 14 and 15, pass the check against \<open>FST_EV_MAX\<close>, but the table
  of names has 14 entries: printing a hierarchy that starts with such an attribute reads past the
  end of \<open>enumvaluetypes\<close>.
\<close>

theorem enum_type_outside_table:
  assumes "xc_fh xr = Some fh" and "f_data fh = hitem_bytes (HAttrBegin 2 st n arg) @ r"
    and "st = 14 \<or> st = 15" and "0 \<notin> set n" and "use_vcd_extensions xr"
  shows "fstReaderProcessHier recreate junk (Some xr) True = Some (Inl Out_of_bounds)"
proof -
  let ?x1 = "xr\<lparr>longest_signal_value_len := 32\<rparr>" and ?f0 = "fh\<lparr>f_pos := 0, f_eof := False\<rparr>"
  let ?f1 = "fh\<lparr>f_pos := 1, f_eof := False\<rparr>" and ?f2 = "fh\<lparr>f_pos := 2, f_eof := False\<rparr>"
  let ?f3 = "fh\<lparr>f_pos := 3, f_eof := False\<rparr>" and ?f4 = "fh\<lparr>f_pos := length n + 4, f_eof := False\<rparr>"
  have seek: "fstReaderFseeko ?x1 fh 0 SEEK_SET = (0, ?f0, ?x1)" by (simp add: fstReaderFseeko_def fseeko_def)
  have d: "f_data fh = 252 # 2 # st # n @ 0 # varint arg @ r" using assms(2) by simp
  have g: "fgetc ?f0 = (252, ?f1)" "fgetc ?f1 = (2, ?f2)" "fgetc ?f2 = (uint st, ?f3)"
    by (simp_all add: fgetc_def d)
  have rn: "read_name FST_ID_NAM_ATTR_SIZ ?f3 = Inr (take FST_ID_NAM_ATTR_SIZ n, ?f4)"
    using read_name_cstr [of ?f3 n "varint arg @ r"] assms(4) by (simp add: d eval_nat_numeral)
  have va: "\<exists>f. fstReaderVarint64 ?f4 = Inr (arg, f)"
  proof -
    have "drop (f_pos ?f4) (f_data ?f4) = varint arg @ r"
      using drop_append [of "length n + 4" "[252, 2, st] @ n @ [0]" "varint arg @ r"] by (simp add: d)
    from f64.get_enc [OF this] show ?thesis by blast
  qed
  have at: "attr_text 2 (uint st) s arg = Inl Out_of_bounds" for s
    using assms(3) by (auto simp: attr_text_def load_def)
  have "ph_item True True (ph_start True ?x1 ?f0) = Inl Out_of_bounds"
    using va g rn at by (auto simp: ph_item_def ph_attrbegin_def ph_start_def Let_def)
  then have "ph_loop True True (ph_start True ?x1 ?f0) = Some (Inl Out_of_bounds)"
    by (subst ph_loop.simps) (simp add: ph_start_def)
  then show ?thesis using assms(1,5) seek by (simp add: fstReaderProcessHier_def Let_def)
qed

lemma enum_type_outside_table_witness:
  "fstReaderProcessHier (\<lambda>_. Inl Hang) (\<lambda>n. replicate n 0)
     (Some (reader_zero\<lparr>xc_fh := Some (new_file\<lparr>f_data := [252, 2, 14, 97, 0] @ varint (5 :: u64)\<rparr>),
        use_vcd_extensions := True\<rparr>)) True = Some (Inl Out_of_bounds)"
  by (rule enum_type_outside_table [where fh = "new_file\<lparr>f_data := [252, 2, 14, 97, 0] @ varint (5 :: u64)\<rparr>"
        and n = "[97]" and arg = 5 and r = "[]" and st = 14]) (simp_all add: new_file_def)

end
