(* ===== verification/Sections.thy ===== *)
theory Sections
  imports Writer_Close Reader_Open Declarations Block_Load
begin

text \<open>
  The sections behind the value change blocks, from \<open>fstWriterClose\<close> to \<open>fstReaderInit\<close>: what the
  writer appends for the geometry, the dump activity and the hierarchy, and what the walk of the
  reader takes from each section.
\<close>

section \<open>What the writer appends\<close>

text \<open>A section: the tag, the length with its own eight bytes, the payload.\<close>

definition section_bytes :: "u8 \<Rightarrow> bytes \<Rightarrow> bytes" where
  "section_bytes tag p = tag # be_loop 8 (of_nat (8 + length p)) @ p"

lemma length_section_bytes [simp]: "length (section_bytes tag p) = 9 + length p"
  by (simp add: section_bytes_def)

definition squeezed :: "packers \<Rightarrow> bytes \<Rightarrow> bytes" where
  "squeezed pk m =
     (case compress2 pk 9 m of Some d \<Rightarrow> if length d < length m then d else m | None \<Rightarrow> m)"

definition appended :: "bytes \<Rightarrow> fstWriterContext \<Rightarrow> fstWriterContext" where
  "appended bs xc = xc\<lparr>handle := \<lparr>f_data = f_data (handle xc) @ bs,
     f_pos = length (f_data (handle xc)) + length bs, f_eof = False\<rparr>\<rparr>"

lemma appended_end [simp]: "at_end (handle (appended bs xc))"
  by (simp add: appended_def at_end_def)

lemma appended_data [simp]: "f_data (handle (appended bs xc)) = f_data (handle xc) @ bs"
  by (simp add: appended_def)

lemma appended_frame [simp]:
  "geom_handle (appended bs xc) = geom_handle xc" "hier_handle (appended bs xc) = hier_handle xc"
  "hier_file_len (appended bs xc) = hier_file_len xc" "fstWriterContext.maxhandle (appended bs xc) = fstWriterContext.maxhandle xc"
  "fstWriterContext.num_blackouts (appended bs xc) = fstWriterContext.num_blackouts xc"
  "blackout_head (appended bs xc) = blackout_head xc" "compress_hier (appended bs xc) = compress_hier xc"
  "repack_on_close (appended bs xc) = repack_on_close xc" "fourpack (appended bs xc) = fourpack xc"
  "path_array (appended bs xc) = path_array xc" "hdr_counts (appended bs xc) h = hdr_counts xc h"
  "firsttime (appended bs xc) = firsttime xc" "curtime (appended bs xc) = curtime xc"
  "numscopes (appended bs xc) = numscopes xc" "numsigs (appended bs xc) = numsigs xc" "secnum (appended bs xc) = secnum xc"
  by (simp_all add: appended_def hdr_counts_def)

lemma seal_eq:
  assumes "f_data (handle xc) = A @ b # C" and "length A = offs"
  shows "seal tag offs xc
    = xc\<lparr>handle := \<lparr>f_data = A @ tag # C, f_pos = length A + 1 + length C, f_eof = False\<rparr>\<rparr>"
  using seek_write [of "[tag]" xc A "[b]" C offs] assms
  by (simp add: seal_def fputc_def [abs_def] fstFwrite_def [abs_def] fstWriterFseeko_def fseeko_def)

definition geom_payload :: "packers \<Rightarrow> fstWriterContext \<Rightarrow> bytes" where
  "geom_payload pk xc =
     (let g = f_data (geom_handle xc)
      in be_loop 8 (of_nat (length g)) @ be_loop 8 (ucast (fstWriterContext.maxhandle xc)) @ squeezed pk g)"

lemma close_geom_eq:
  assumes "at_end (handle xc)" and "at_end (geom_handle xc)" and "f_data (geom_handle xc) \<noteq> []"
  shows "close_geom pk xc = appended (section_bytes FST_BL_GEOM (geom_payload pk xc)) xc"
proof -
  let ?g = "f_data (geom_handle xc)" and ?d = "f_data (handle xc)"
  let ?body = "be_loop 8 (of_nat (length (squeezed pk ?g)) + 24) @ geom_payload pk xc"
  have tl: "ftello (geom_handle xc) = length ?g" using assms(2) by (simp add: ftello_def at_end_def)
  have sec: "section_bytes FST_BL_GEOM (geom_payload pk xc) = FST_BL_GEOM # ?body"
    by (simp add: section_bytes_def geom_payload_def Let_def add.commute)
  define xc1 where "xc1 = on_handle (\<lambda>h. fstFwrite (squeezed pk ?g) (fstWriterUint64 (ucast (fstWriterContext.maxhandle xc))
      (fstWriterUint64 (of_nat (length ?g)) (fstWriterUint64 (of_nat (length (squeezed pk ?g)) + 24)
        (fputc FST_BL_SKIP h))))) xc"
  have "f_data (handle xc1) = ?d @ FST_BL_SKIP # ?body"
    using assms(1)
    by (simp add: xc1_def on_handle_def append_simps fstWriterUint64_at_end geom_payload_def Let_def del: be_loop.simps)
  from seal_eq [OF this, of "length ?d" FST_BL_GEOM]
  have "seal FST_BL_GEOM (length ?d) xc1 = appended (FST_BL_GEOM # ?body) (xc1\<lparr>handle := handle xc\<rparr>)"
    by (simp add: appended_def del: be_loop.simps)
  moreover have "xc1\<lparr>handle := handle xc\<rparr> = xc" by (simp add: xc1_def on_handle_def)
  moreover have "close_geom pk xc = seal FST_BL_GEOM (ftello (handle xc)) xc1"
    using assms(3) by (simp add: close_geom_def tl Let_def xc1_def squeezed_def)
  moreover have "ftello (handle xc) = length ?d" using assms(1) by (simp add: ftello_def at_end_def)
  ultimately show ?thesis by (simp add: sec appended_def)
qed

text \<open>The dump activity as bytes.\<close>

fun blackout_bytes :: "u64 \<Rightarrow> (u64 \<times> bool) list \<Rightarrow> bytes" where
  "blackout_bytes cur [] = []"
| "blackout_bytes cur ((t, a) # bs) = [of_bool a] @ varint (t - cur) @ blackout_bytes t bs"

lemma blackout_loop_eq:
  "at_end h \<Longrightarrow> \<exists>h'. blackout_loop (length bs) cur bs h = Inr h' \<and> at_end h'
    \<and> f_data h' = f_data h @ blackout_bytes cur bs"
proof (induction bs arbitrary: cur h)
  case (Cons b bs)
  obtain t a where b: "b = (t, a)" by fastforce
  let ?h1 = "fstFwrite (varint (t - cur)) (fputc (of_bool a) h)"
  have 1: "at_end ?h1" "f_data ?h1 = f_data h @ [of_bool a] @ varint (t - cur)"
    using Cons.prems by (simp_all add: append_simps)
  obtain h' where "blackout_loop (length bs) t bs ?h1 = Inr h'" "at_end h'"
    "f_data h' = f_data ?h1 @ blackout_bytes t bs"
    using Cons.IH [OF 1(1)] by blast
  then show ?case unfolding b using 1(2) by (simp add: fstWriterVarint_eq)
qed simp

definition blackout_payload :: "(u64 \<times> bool) list \<Rightarrow> bytes" where
  "blackout_payload bs = varint (of_nat (length bs) :: u32) @ blackout_bytes 0 bs"

lemma close_blackouts_eq:
  assumes "at_end (handle xc)" and "length (blackout_head xc) < 2 ^ 32"
    and "fstWriterContext.num_blackouts xc = of_nat (length (blackout_head xc))"
  shows "\<exists>xc'. close_blackouts xc = Inr xc' \<and> xc' = (if blackout_head xc = [] then xc
    else (appended (section_bytes FST_BL_BLACKOUT (blackout_payload (blackout_head xc))) xc)\<lparr>blackout_head := []\<rparr>)"
proof (cases "blackout_head xc = []")
  case True
  then show ?thesis using assms(3) by (simp add: close_blackouts_def)
next
  case False
  let ?bs = "blackout_head xc" and ?d = "f_data (handle xc)"
  let ?n = "length ?bs"
  have un: "unat (of_nat ?n :: u32) = ?n" using assms(2) by (simp add: of_nat_inverse)
  have n0: "fstWriterContext.num_blackouts xc \<noteq> 0"
    using False assms(3) un by (metis length_0_conv unat_0)
  define h1 where "h1 = fstFwrite (varint (of_nat ?n :: u32)) (fstWriterUint64 0 (fputc FST_BL_SKIP (handle xc)))"
  have h1: "at_end h1" "f_data h1 = ?d @ FST_BL_SKIP # be_loop 8 0 @ varint (of_nat ?n :: u32)"
    using assms(1) by (simp_all add: h1_def append_simps fstWriterUint64_at_end del: be_loop.simps)
  obtain h2 where h2: "blackout_loop ?n 0 ?bs h1 = Inr h2" "at_end h2"
    "f_data h2 = ?d @ FST_BL_SKIP # be_loop 8 0 @ blackout_payload ?bs"
    using blackout_loop_eq [OF h1(1), of ?bs 0] h1(2) by (auto simp: blackout_payload_def simp del: be_loop.simps)
  let ?xc2 = "xc\<lparr>handle := h2, blackout_head := []\<rparr>" and ?p = "blackout_payload ?bs"
  have p2: "f_pos h2 = length ?d + 9 + length ?p" using h2(2,3) by (simp add: at_end_def)
  have len: "f_pos h2 - (length ?d + 1) = 8 + length ?p" using p2 by simp
  define xc3 where "xc3 = on_handle (fstFwrite (be_loop 8 (of_nat (8 + length ?p))))
    (fstWriterFseeko (int (length ?d + 1)) SEEK_SET ?xc2)"
  have "xc3 = ?xc2\<lparr>handle := \<lparr>f_data = (?d @ [FST_BL_SKIP]) @ be_loop 8 (of_nat (8 + length ?p)) @ ?p,
      f_pos = length ?d + 1 + 8, f_eof = False\<rparr>\<rparr>"
    unfolding xc3_def
    by (subst seek_write [where A = "?d @ [FST_BL_SKIP]" and B = "be_loop 8 0" and C = ?p])
      (simp_all add: h2(3) be_loop_8_not_Nil del: be_loop.simps)
  then have d3: "f_data (handle xc3) = ?d @ FST_BL_SKIP # be_loop 8 (of_nat (8 + length ?p)) @ ?p"
    "xc3\<lparr>handle := handle xc\<rparr> = xc\<lparr>blackout_head := []\<rparr>" by simp_all
  have pos: "ftello (handle xc) = length ?d" using assms(1) by (simp add: ftello_def at_end_def)
  have "close_blackouts xc = Inr (seal FST_BL_BLACKOUT (length ?d) xc3)"
    using n0 h2(1) len un pos [unfolded ftello_def]
    by (simp add: close_blackouts_def pos Let_def on_handle_def fstWriterVarint_eq varint_ucast_32_64 assms(3)
        h1_def xc3_def ftello_def fstWriterUint64_def [abs_def] del: be_loop.simps)
  moreover have "seal FST_BL_BLACKOUT (length ?d) xc3
    = (appended (section_bytes FST_BL_BLACKOUT ?p) xc)\<lparr>blackout_head := []\<rparr>"
    unfolding seal_eq [OF d3(1) refl]
    using d3(2) by (cases xc3; cases xc) (simp add: appended_def section_bytes_def del: be_loop.simps)
  ultimately show ?thesis using False by simp
qed

text \<open>A file in the pieces that go through the copy buffer, whatever the buffer held.\<close>

function chunked :: "bytes \<Rightarrow> bytes list" where
  "chunked d = (if d = [] then [] else take FST_GZIO_LEN d # chunked (drop FST_GZIO_LEN d))"
  by pat_completeness auto
termination
  by (relation "measure length") (auto simp: FST_GZIO_LEN_def)

declare chunked.simps [simp del]

lemma chunked_Nil [simp]: "chunked [] = []"
  by (simp add: chunked.simps [of "[]"])

lemma gz_chunks_0 [simp]: "gz_chunks mem 0 f = []"
  by (simp add: gz_chunks.simps [of mem 0])

lemma concat_chunked: "concat (chunked d) = d"
proof (induction d rule: chunked.induct)
  case (1 d)
  then show ?case by (cases "d = []") (simp_all add: chunked.simps [of d])
qed

lemma gz_chunks_all:
  "drop (f_pos f) (f_data f) = d \<Longrightarrow> length d = n \<Longrightarrow> gz_chunks junk n f = chunked d"
proof (induction d arbitrary: junk f n rule: chunked.induct)
  case (1 d)
  show ?case
  proof (cases "d = []")
    case True
    then show ?thesis using 1 by simp
  next
    case False
    let ?k = "min n FST_GZIO_LEN"
    have tk: "take ?k d = take FST_GZIO_LEN d" using 1(3) by (simp add: min_def)
    have len: "length (take FST_GZIO_LEN d) = ?k" using 1(3) by simp
    let ?f = "f\<lparr>f_pos := f_pos f + ?k\<rparr>"
    have rd: "fstFread ?k f = (take FST_GZIO_LEN d, 1, ?f)"
      unfolding fstFread_def fread_bytes_def 1(2) tk Let_def len using 1(3) by simp
    have dk: "drop ?k d = drop FST_GZIO_LEN d" using 1(3) by (simp add: min_def)
    have "drop (f_pos ?f) (f_data ?f) = drop FST_GZIO_LEN d"
      using arg_cong [OF 1(2), of "drop ?k"] dk by (simp add: add.commute)
    moreover have "length (drop FST_GZIO_LEN d) = n - ?k" using 1(3) by simp
    ultimately have "gz_chunks mem (n - ?k) ?f = chunked (drop FST_GZIO_LEN d)" for mem
      by (rule 1(1) [OF False])
    moreover have "take ?k (take FST_GZIO_LEN d @ drop (length (take FST_GZIO_LEN d)) junk) = take FST_GZIO_LEN d"
      by (simp only: len [symmetric] take_append) (simp add: min_def)
    ultimately show ?thesis
      using False 1(3) rd by (auto simp: chunked.simps [of d] gz_chunks.simps [of _ n] Let_def)
  qed
qed

text \<open>The packed hierarchy and its tag.\<close>

definition hier_packed ::
    "packers \<Rightarrow> (bytes list \<Rightarrow> bytes option) \<Rightarrow> fstWriterContext \<Rightarrow> u8 \<times> bytes" where
  "hier_packed pk gz xc =
     (let h = f_data (hier_handle xc); mem = LZ4_compress_default pk h
      in if \<not> fourpack xc then (FST_BL_HIER, case gz (chunked h) of None \<Rightarrow> [] | Some z \<Rightarrow> z)
         else if \<not> repack_on_close xc \<and> length h > FST_HDR_FOURPACK_DUO_SIZE
         then (FST_BL_HIER_LZ4DUO, varint (of_nat (length mem) :: u64) @ LZ4_compress_default pk mem)
         else (FST_BL_HIER_LZ4, mem))"

definition hier_payload ::
    "packers \<Rightarrow> (bytes list \<Rightarrow> bytes option) \<Rightarrow> fstWriterContext \<Rightarrow> bytes" where
  "hier_payload pk gz xc = be_loop 8 (of_nat (length (f_data (hier_handle xc)))) @ snd (hier_packed pk gz xc)"

text \<open>
  When a mapping of the hierarchy file shows all of the hierarchy: the stream holds nothing back, and its
  length is an \<open>int\<close>.
\<close>

definition hier_shown :: "mapping \<Rightarrow> fstWriterContext \<Rightarrow> bool" where
  "hier_shown mm xc \<longleftrightarrow>
     (fourpack xc \<longrightarrow> length (f_data (hier_handle xc)) < 2 ^ 31
        \<and> mm (hier_handle xc) (length (f_data (hier_handle xc))) = Inr (f_data (hier_handle xc)))"

lemma pack_hier_eq:
  assumes "at_end (handle xc)" and "hier_ok xc" and "hier_shown mm xc"
  shows "\<exists>h. pack_hier pk gz mm junk xc = Inr (fst (hier_packed pk gz xc), h)
    \<and> f_data h = f_data (handle xc) @ snd (hier_packed pk gz xc)"
proof -
  let ?h = "f_data (hier_handle xc)"
  have n: "hier_file_len xc = length ?h" using assms(2) by (simp add: hier_ok_def)
  have c: "gz_chunks junk (length ?h) (rewound (hier_handle xc)) = chunked ?h"
    by (rule gz_chunks_all) (simp_all add: rewound_def fseeko_def)
  show ?thesis
  proof (cases "fourpack xc")
    case True
    then have m: "length ?h < 2 ^ 31" "mm (hier_handle xc) (length ?h) = Inr ?h" using assms(3) by (simp_all add: hier_shown_def)
    then have "(if int (length ?h) \<le> 0 then Inr [] else mm (hier_handle xc) (nat (int (length ?h)))) = Inr ?h" by simp
    then show ?thesis
      using assms(1) True
      by (simp add: pack_hier_def hier_packed_def n sint_small(1) [OF m(1)] Let_def append_simps fstWriterVarint_eq del: int_zle_neg)
  next
    case False
    then show ?thesis using assms(1)
      by (auto simp: pack_hier_def hier_packed_def Let_def n c append_simps split: option.split)
  qed
qed

lemma close_hier_eq:
  assumes "at_end (handle xc)" and "hier_ok xc" and "compress_hier xc" and "hier_shown mm xc"
  shows "close_hier pk gz mm junk xc = Inr (appended (section_bytes (fst (hier_packed pk gz xc)) (hier_payload pk gz xc)) xc)"
proof -
  let ?d = "f_data (handle xc)" and ?p = "hier_payload pk gz xc" and ?t = "fst (hier_packed pk gz xc)"
  let ?h = "f_data (hier_handle xc)"
  have pos: "f_pos (handle xc) = length ?d" using assms(1) by (simp add: at_end_def)
  have n: "hier_file_len xc = length ?h" using assms(2) by (simp add: hier_ok_def)
  define h1 where "h1 = fstWriterUint64 (of_nat (length ?h)) (fstWriterUint64 0 (fputc FST_BL_SKIP (handle xc)))"
  define xc1 where "xc1 = xc\<lparr>handle := h1\<rparr>"
  have h1: "at_end h1" "f_data h1 = ?d @ FST_BL_SKIP # be_loop 8 0 @ be_loop 8 (of_nat (length ?h))"
    using assms(1) by (simp_all add: h1_def append_simps fstWriterUint64_at_end del: be_loop.simps)
  have same: "hier_packed pk gz xc1 = hier_packed pk gz xc" by (simp add: hier_packed_def xc1_def Let_def)
  obtain h2 where h2: "pack_hier pk gz mm junk xc1 = Inr (?t, h2)"
    "f_data h2 = ?d @ FST_BL_SKIP # be_loop 8 0 @ ?p"
    using pack_hier_eq [of xc1 mm pk gz junk] assms(2,4) h1 unfolding same
    by (auto simp: xc1_def hier_ok_def hier_shown_def hier_payload_def simp del: be_loop.simps)
  define h3 where "h3 = snd (fseeko h2 0 SEEK_END)"
  have h3: "f_data h3 = f_data h2" "f_pos h3 = length ?d + 9 + length ?p"
    by (simp_all add: h3_def fseeko_def h2(2))
  let ?xc3 = "xc\<lparr>handle := h3\<rparr>"
  define xc4 where "xc4 = on_handle (fstFwrite (be_loop 8 (of_nat (8 + length ?p))))
    (fstWriterFseeko (int (length ?d + 1)) SEEK_SET ?xc3)"
  have xc4: "xc4 = ?xc3\<lparr>handle := \<lparr>f_data = (?d @ [FST_BL_SKIP]) @ be_loop 8 (of_nat (8 + length ?p)) @ ?p,
      f_pos = length ?d + 1 + 8, f_eof = False\<rparr>\<rparr>"
    unfolding xc4_def
    by (subst seek_write [where A = "?d @ [FST_BL_SKIP]" and B = "be_loop 8 0" and C = ?p])
      (simp_all add: h3(1) h2(2) be_loop_8_not_Nil del: be_loop.simps)
  have p1: "f_pos (fputc FST_BL_SKIP (handle xc)) = length ?d + 1" by (simp add: fputc_def fwrite_bytes_def pos)
  have len: "f_pos h3 - (length ?d + 1) = 8 + length ?p" using h3(2) by simp
  have sk: "fstWriterFseeko 0 SEEK_END (xc1\<lparr>handle := h2\<rparr>) = ?xc3"
    by (simp add: fstWriterFseeko_def xc1_def h3_def fseeko_def)
  have on1: "on_handle (\<lambda>h. fstWriterUint64 (of_nat (hier_file_len (on_handle (fputc FST_BL_SKIP) xc))) (fstWriterUint64 0 h))
      (on_handle (fputc FST_BL_SKIP) xc) = xc1"
    by (simp add: on_handle_def xc1_def h1_def n)
  have "close_hier pk gz mm junk xc = Inr (seal ?t (length ?d) xc4)"
    unfolding close_hier_def Let_def on1 h2(1) andthen_simps prod.case sk xc4_def
    using assms(3) len pos p1 by (simp add: ftello_def on_handle_def fstWriterUint64_def del: be_loop.simps)
  moreover have "f_data (handle xc4) = ?d @ FST_BL_SKIP # be_loop 8 (of_nat (8 + length ?p)) @ ?p" unfolding xc4 by simp
  from seal_eq [OF this refl, of ?t] have "seal ?t (length ?d) xc4 = appended (section_bytes ?t ?p) xc"
    by (simp add: xc4 appended_def section_bytes_def del: be_loop.simps)
  ultimately show ?thesis by simp
qed

text \<open>All of it. \<open>packed_file\<close> is what the wrapper makes of a file.\<close>

definition closing_sections ::
    "packers \<Rightarrow> (bytes list \<Rightarrow> bytes option) \<Rightarrow> fstWriterContext \<Rightarrow> bytes" where
  "closing_sections pk gz xc =
     (if f_data (geom_handle xc) = [] then [] else section_bytes FST_BL_GEOM (geom_payload pk xc))
     @ (if blackout_head xc = [] then []
        else section_bytes FST_BL_BLACKOUT (blackout_payload (blackout_head xc)))
     @ (if compress_hier xc then section_bytes (fst (hier_packed pk gz xc)) (hier_payload pk gz xc) else [])"

definition packed_file :: "(bytes list \<Rightarrow> bytes option) \<Rightarrow> bytes \<Rightarrow> bytes" where
  "packed_file gz d =
     section_bytes FST_BL_ZWRAPPER
       (be_loop 8 (of_nat (length d)) @ (case gz (chunked d) of None \<Rightarrow> [] | Some z \<Rightarrow> z))"

lemma repack_eq: "repack gz junk h = packed_file gz (f_data h)"
proof -
  let ?d = "f_data h"
  let ?z = "case gz (chunked ?d) of None \<Rightarrow> [] | Some z \<Rightarrow> z"
  define fp where "fp = fstFwrite ?z (fstWriterUint64 (of_nat (length ?d)) (fstWriterUint64 0 (fputc FST_BL_ZWRAPPER new_file)))"
  have c: "gz_chunks junk (length ?d) (rewound h) = chunked ?d"
    by (rule gz_chunks_all) (simp_all add: rewound_def fseeko_def)
  have nn: "f_data new_file = []" by (simp add: new_file_def)
  have fd: "f_data fp = FST_BL_ZWRAPPER # be_loop 8 0 @ be_loop 8 (of_nat (length ?d)) @ ?z"
    by (simp add: fp_def append_simps fstWriterUint64_at_end nn del: be_loop.simps)
  have ol: "overlay (f_data fp) 1 (be_loop 8 (of_nat (16 + length ?z)))
    = FST_BL_ZWRAPPER # be_loop 8 (of_nat (16 + length ?z)) @ be_loop 8 (of_nat (length ?d)) @ ?z"
    unfolding fd by (simp add: overlay_in del: be_loop.simps)
  have "repack gz junk h = f_data (fstWriterUint64 (of_nat (length (f_data fp) - 1)) (fp\<lparr>f_pos := 1, f_eof := False\<rparr>))"
    by (cases "gz (chunked ?d)") (simp_all add: repack_def c fp_def Let_def fseeko_def ftello_def fstFwrite_def fwrite_bytes_def)
  also have "\<dots> = FST_BL_ZWRAPPER # be_loop 8 (of_nat (16 + length ?z)) @ be_loop 8 (of_nat (length ?d)) @ ?z"
    using ol by (simp add: fstWriterUint64_def fstFwrite_def fwrite_bytes_def be_loop_8_not_Nil fd del: be_loop.simps)
  finally show ?thesis by (simp add: packed_file_def section_bytes_def add.commute del: be_loop.simps)
qed

text \<open>What \<open>fstWriterClose\<close> relies on once the last block is written.\<close>

definition closable :: "fstWriterContext \<Rightarrow> hdr \<Rightarrow> bytes \<Rightarrow> bool" where
  "closable xc h rest \<longleftrightarrow>
     f_data (handle xc) = hdr_encode h @ rest \<and> at_end (handle xc) \<and> at_end (geom_handle xc) \<and> hier_ok xc
     \<and> length (blackout_head xc) < 2 ^ 32 \<and> fstWriterContext.num_blackouts xc = of_nat (length (blackout_head xc))
     \<and> jdict_ok 0xFFFF (path_array xc)"

lemma fstWriterClose_eq:
  assumes "\<not> already_in_close xc" and "\<not> already_in_flush xc"
    and ch: "close_changes pk (xc\<lparr>already_in_close := True\<rparr>) = Inr xc1" and ok: "closable xc1 h rest"
    and d: "d = hdr_encode (hdr_counts xc1 h) @ rest @ closing_sections pk gz xc1"
    and hs: "compress_hier xc1 \<Longrightarrow> hier_shown mm xc1"
  shows "fstWriterClose pk gz mm junk pak_ok (Some xc) = Inr (Some
    \<lparr>cl_file = (if repack_on_close xc1 \<and> pak_ok then packed_file gz d else d),
     cl_hier = (if compress_hier xc1 then None else Some (f_data (hier_handle xc1)))\<rparr>)"
proof -
  let ?g = "if f_data (geom_handle xc1) = [] then [] else section_bytes FST_BL_GEOM (geom_payload pk xc1)"
  let ?b = "if blackout_head xc1 = [] then [] else section_bytes FST_BL_BLACKOUT (blackout_payload (blackout_head xc1))"
  let ?h = "if compress_hier xc1 then section_bytes (fst (hier_packed pk gz xc1)) (hier_payload pk gz xc1) else []"
  define xd where "xd = fstDestroyMmaps xc1"
  define xg where "xg = close_geom pk xd"
  have fr: "handle xd = handle xc1" "geom_handle xd = geom_handle xc1" "hier_handle xd = hier_handle xc1"
    "hier_file_len xd = hier_file_len xc1" "blackout_head xd = blackout_head xc1" "compress_hier xd = compress_hier xc1"
    "fstWriterContext.maxhandle xd = fstWriterContext.maxhandle xc1" "fourpack xd = fourpack xc1"
    "fstWriterContext.num_blackouts xd = fstWriterContext.num_blackouts xc1" "repack_on_close xd = repack_on_close xc1"
    "path_array xd = path_array xc1" "hdr_counts xd h = hdr_counts xc1 h"
    by (simp_all add: xd_def fstDestroyMmaps_def hdr_counts_def)
  have gp: "geom_payload pk xd = geom_payload pk xc1" by (simp add: geom_payload_def fr)
  have xg: "xg = (if f_data (geom_handle xc1) = [] then xd else appended ?g xd)"
    using close_geom_eq [of xd pk] ok
    by (auto simp: xg_def closable_def fr gp close_geom_def ftello_def at_end_def)
  have xg': "at_end (handle xg)" "f_data (handle xg) = hdr_encode h @ rest @ ?g" "blackout_head xg = blackout_head xc1"
    "fstWriterContext.num_blackouts xg = fstWriterContext.num_blackouts xc1"
    "hier_handle xg = hier_handle xc1" "hier_file_len xg = hier_file_len xc1"
    "compress_hier xg = compress_hier xc1" "fourpack xg = fourpack xc1" "repack_on_close xg = repack_on_close xc1"
    "path_array xg = path_array xc1" "hdr_counts xg h = hdr_counts xc1 h"
    using ok unfolding xg closable_def by (simp_all add: fr)
  obtain xb where xb: "close_blackouts xg = Inr xb" "xb = (if blackout_head xc1 = [] then xg
      else (appended ?b xg)\<lparr>blackout_head := []\<rparr>)"
    using close_blackouts_eq [OF xg'(1)] ok by (auto simp: xg'(3,4) closable_def)
  have xb': "at_end (handle xb)" "f_data (handle xb) = hdr_encode h @ rest @ ?g @ ?b"
    "hier_handle xb = hier_handle xc1" "hier_file_len xb = hier_file_len xc1" "compress_hier xb = compress_hier xc1"
    "fourpack xb = fourpack xc1" "repack_on_close xb = repack_on_close xc1" "path_array xb = path_array xc1"
    "hdr_counts xb h = hdr_counts xc1 h"
    unfolding xb(2) using xg' by (simp_all add: hdr_counts_def)
  have hok: "hier_ok xb" using ok by (simp add: hier_ok_def closable_def xb')
  have pk: "hier_packed pk gz xb = hier_packed pk gz xc1" "hier_payload pk gz xb = hier_payload pk gz xc1"
    by (simp_all add: hier_packed_def hier_payload_def xb' Let_def)
  obtain xh where xh: "close_hier pk gz mm junk xb = Inr xh" "xh = (if compress_hier xc1 then appended ?h xb else xb)"
  proof -
    have "close_hier pk gz mm junk xb = Inr (if compress_hier xc1 then appended ?h xb else xb)"
    proof (cases "compress_hier xc1")
      case True
      then have "hier_shown mm xb" using hs by (simp add: hier_shown_def xb')
      then show ?thesis using True close_hier_eq [OF xb'(1) hok, of mm pk gz junk] unfolding pk by (simp add: xb'(5))
    next
      case False
      then show ?thesis by (simp add: close_hier_def xb'(5))
    qed
    then show ?thesis by (rule that) simp
  qed
  have xh': "f_data (handle xh) = hdr_encode h @ rest @ closing_sections pk gz xc1"
    "hier_handle xh = hier_handle xc1" "compress_hier xh = compress_hier xc1"
    "repack_on_close xh = repack_on_close xc1" "path_array xh = path_array xc1" "hdr_counts xh h = hdr_counts xc1 h"
    unfolding xh(2) closing_sections_def using xb' by simp_all
  have "hdr_is xh h (rest @ closing_sections pk gz xc1) (f_pos (handle xh))" by (simp add: hdr_is_def xh'(1))
  from update_header_counts_hdr [OF this]
  have up: "update_header_counts xh = xh\<lparr>handle := \<lparr>f_data = d, f_pos = 73, f_eof = False\<rparr>\<rparr>"
    by (simp add: xh'(6) d)
  have jf: "JenkinsFree (path_array xc1) 0xFFFF = Inr None"
    using ok by (auto simp: closable_def jdict_ok_def jtable_ok_def JenkinsFree_def split: option.splits)
  show ?thesis
    using assms(1,2) jf
    by (simp add: fstWriterClose_def ch xd_def [symmetric] xg_def [symmetric] xb(1) xh(1) up repack_eq xh' Let_def)
qed

section \<open>What the reader takes from a section\<close>

definition file_at :: "bytes \<Rightarrow> nat \<Rightarrow> cfile" where
  "file_at d p = \<lparr>f_data = d, f_pos = p, f_eof = False\<rparr>"

lemma file_at_simps [simp]:
  "f_data (file_at d p) = d" "f_pos (file_at d p) = p" "f_eof (file_at d p) = False"
  "(file_at d p)\<lparr>f_pos := q\<rparr> = file_at d q" "ftello (file_at d p) = p"
  by (simp_all add: file_at_def ftello_def)

lemma drop_at: "d = a @ b \<Longrightarrow> length a = p \<Longrightarrow> drop p d = b"
  by simp

lemma u64_at:
  assumes "xc_f xc = file_at d p" and "drop p d = be_loop 8 v @ r"
  shows "u64_f up xc = (v, xc\<lparr>xc_f := file_at d (p + 8)\<rparr>)"
  using u64_f_bytes [of xc v r up] assms by simp

lemma byte_at:
  assumes "xc_f xc = file_at d p" and "drop p d = b # r"
  shows "byte_f xc = (uint b, xc\<lparr>xc_f := file_at d (p + 1)\<rparr>)"
  using fgetc_u8_Cons(2) [of "xc_f xc" b r] assms by (simp add: byte_f_def)

lemma text_at:
  assumes "xc_f xc = file_at d p" and "drop p d = zero_padded n s @ r"
  shows "text_f n xc = (zero_padded n s @ [0], xc\<lparr>xc_f := file_at d (p + n)\<rparr>)"
proof -
  have "zero_padded n (zero_padded n s) = zero_padded n s" by (simp add: zero_padded_def)
  then show ?thesis
    using read_f_eq [of xc "zero_padded n s" r n] assms by (simp add: text_f_def)
qed

lemma fill_at:
  assumes "xc_f xc = file_at d p" and "drop p d = a @ r" and "length a = n" and "length (malloc_bytes up n) = n"
  shows "fill_f up n xc = (a, xc\<lparr>xc_f := file_at d (p + n)\<rparr>)"
  using fill_f_exact [of xc a r n up] assms by simp

text \<open>Behind the tag and the length of a section that starts at \<open>p\<close>.\<close>

definition entered :: "nat \<Rightarrow> opening_st \<Rightarrow> opening_st" where
  "entered p op = op\<lparr>op_xc := (op_xc op)\<lparr>xc_f := file_at (f_data (xc_f (op_xc op))) (p + 9)\<rparr>,
     op_blkpos := of_nat p + 1\<rparr>"

lemma init_block_section:
  assumes d: "f_data (xc_f (op_xc op)) = A @ section_bytes tag p @ B" and pos: "op_blkpos op = of_nat (length A)"
    and len: "length A + length p + 9 < 2 ^ 63" and tag: "op_seen op \<or> tag = 0"
  shows "init_block up op
    = andthen (init_section up (uint tag) (of_nat (8 + length p)) (entered (length A) op)) (\<lambda>r.
        case r of None \<Rightarrow> Inr (False, entered (length A) op)
        | Some op \<Rightarrow> Inr (op_seen op, op\<lparr>op_blkpos := op_blkpos op + of_nat (8 + length p)\<rparr>))"
proof -
  let ?d = "f_data (xc_f (op_xc op))"
  have sk: "seek_f (int (length A)) SEEK_SET (op_xc op) = (op_xc op)\<lparr>xc_f := file_at ?d (length A)\<rparr>"
    by (simp add: seek_f_start file_at_def)
  have si: "sint (op_blkpos op) = int (length A)" using pos len by (simp add: sint_small(2))
  have d1: "drop (length A) ?d = tag # be_loop 8 (of_nat (8 + length p)) @ p @ B"
    by (simp add: d section_bytes_def del: be_loop.simps of_nat_add)
  have d2: "drop (length A + 1) ?d = be_loop 8 (of_nat (8 + length p)) @ p @ B"
    by (rule drop_at [of _ "A @ [tag]"]) (simp_all add: d section_bytes_def del: be_loop.simps of_nat_add)
  let ?x0 = "(op_xc op)\<lparr>xc_f := file_at ?d (length A)\<rparr>"
  have b: "byte_f ?x0 = (uint tag, ?x0\<lparr>xc_f := file_at ?d (length A + 1)\<rparr>)"
    by (rule byte_at [OF _ d1]) simp
  have u: "u64_f up (?x0\<lparr>xc_f := file_at ?d (length A + 1)\<rparr>)
    = (of_nat (8 + length p), ?x0\<lparr>xc_f := file_at ?d (length A + 9)\<rparr>)"
    by (subst u64_at [OF _ d2]) (simp_all add: eval_nat_numeral)
  have nz: "(of_nat (8 + length p) :: u64) \<noteq> 0"
  proof
    assume "(of_nat (8 + length p) :: u64) = 0"
    then have "unat (of_nat (8 + length p) :: u64) = 0" by simp
    moreover have "unat (of_nat (8 + length p) :: u64) = 8 + length p" using len by (intro of_nat_inverse) simp_all
    ultimately show False by simp
  qed
  have ut: "uint tag \<noteq> -1" using uint_ge_0 [of tag] by linarith
  have t0: "uint tag = 0 \<longleftrightarrow> tag = 0" by (simp add: word_uint_eq_iff)
  have "on_op (seek_f (sint (op_blkpos op)) SEEK_SET) op = op\<lparr>op_xc := ?x0\<rparr>"
    by (simp add: on_op_def si sk)
  then show ?thesis
    using b u nz ut tag t0 unfolding entered_def
    by (auto simp: init_block_def pos Let_def simp del: of_nat_add)
qed

lemma init_loop_section:
  assumes d: "f_data (xc_f (op_xc op)) = A @ section_bytes tag p @ B" and pos: "op_blkpos op = of_nat (length A)"
    and len: "length A + length p + 9 < 2 ^ 63" and tag: "op_seen op \<or> tag = 0"
    and sec: "init_section up (uint tag) (of_nat (8 + length p)) (entered (length A) op) = Inr (Some op2)"
    and seen: "op_seen op2" and pos2: "op_blkpos op2 = of_nat (length A) + 1"
    and en: "endfile = length A + length p + 9 + length B"
  shows "init_loop up endfile op
    = init_loop up endfile (op2\<lparr>op_blkpos := of_nat (length (A @ section_bytes tag p))\<rparr>)"
proof -
  have si: "sint (op_blkpos op) = int (length A)" using pos len by (simp add: sint_small(2))
  have "op_blkpos op2 + of_nat (8 + length p) = of_nat (length (A @ section_bytes tag p))"
    by (simp add: pos2)
  then have "init_block up op = Inr (True, op2\<lparr>op_blkpos := of_nat (length (A @ section_bytes tag p))\<rparr>)"
    using init_block_section [OF d pos len tag, of up] sec seen by simp
  then show ?thesis using si en by (subst init_loop.simps) simp
qed

lemma init_loop_end:
  assumes "op_blkpos op = of_nat endfile" and "endfile < 2 ^ 63"
  shows "init_loop up endfile op = Some (Inr op)"
  using assms by (subst init_loop.simps) (simp add: sint_small(2))

end
