(* ===== verification/Block_Layout.thy ===== *)
theory Block_Layout
  imports Block_Roundtrip Sections
begin

text \<open>
  A value change block as bytes of the file: \<open>fstWriterFlushContextPrivate\<close> completes the section that
  \<open>fstWriterEmitSectionHeader\<close> opened, and opens the next one with the values the handles have then.
\<close>

section \<open>The parts of a block\<close>

definition packed_frame :: "packers \<Rightarrow> bytes \<Rightarrow> bytes" where
  "packed_frame pk mem = (case compress2 pk 4 mem of Some d \<Rightarrow> if length d < length mem then d else mem | None \<Rightarrow> mem)"

definition frame_part :: "packers \<Rightarrow> bytes \<Rightarrow> u32 \<Rightarrow> bytes" where
  "frame_part pk mem maxh =
     varint (of_nat (length mem) :: u64) @ varint (of_nat (length (packed_frame pk mem)) :: u64)
       @ varint (ucast maxh :: u64) @ packed_frame pk mem"

text \<open>The header of a section that is not yet complete; its length, its end and its memory are open.\<close>

definition open_header :: "u64 \<Rightarrow> u64 \<Rightarrow> bytes \<Rightarrow> bytes" where
  "open_header beg cur frame = FST_BL_SKIP # be_loop 8 0 @ be_loop 8 beg @ be_loop 8 cur @ be_loop 8 0 @ frame"

definition times_part :: "packers \<Rightarrow> bytes \<Rightarrow> u32 \<Rightarrow> bytes" where
  "times_part pk ts cnt =
     squeezed pk ts @ be_loop 8 (of_nat (length ts)) @ be_loop 8 (of_nat (length (squeezed pk ts))) @ be_loop 8 (ucast cnt)"

definition block_payload :: "u64 \<Rightarrow> u64 \<Rightarrow> u64 \<Rightarrow> bytes \<Rightarrow> u32 \<Rightarrow> u8 \<Rightarrow> bytes \<Rightarrow> bytes \<Rightarrow> bytes \<Rightarrow> bytes" where
  "block_payload beg fin memreq frame maxh pt runs index tsec =
     be_loop 8 beg @ be_loop 8 fin @ be_loop 8 memreq @ frame @ varint (ucast maxh :: u64) @ [pt] @ runs @ index
       @ be_loop 8 (of_nat (length index)) @ tsec"

section \<open>The pieces of the flush\<close>

lemma hashmask_31: "bit (flush_hashmask n) 31 \<longleftrightarrow> bit n 31"
  by (auto simp: flush_hashmask_def Let_def bit_simps dest: bit_imp_le_length)

lemma hashmask_ok: "unat n < 2 ^ 31 \<Longrightarrow> flush_hashmask n \<noteq> -1"
proof
  assume n: "unat n < 2 ^ 31" and e: "flush_hashmask n = -1"
  have "\<not> bit n 31" using n high_bit_31(1) [of n] by (simp add: is_alias_def)
  then have "\<not> bit (-1 :: u32) 31" using hashmask_31 [of n] e by simp
  then show False by simp
qed

definition frame_mem :: "fstWriterContext \<Rightarrow> bytes" where
  "frame_mem xc = take (unat (maxvalpos xc)) (curval xc)"

definition frame_there :: "fstWriterContext \<Rightarrow> bool" where
  "frame_there xc \<longleftrightarrow> unat (maxvalpos xc) \<le> length (curval xc) \<and> (maxvalpos xc \<noteq> 0 \<longrightarrow> curval_mapped xc)"

definition section_begun :: "packers \<Rightarrow> fstWriterContext \<Rightarrow> bytes" where
  "section_begun pk xc = open_header (if is_initial_time xc then firsttime xc else curtime xc) (curtime xc)
     (frame_part pk (frame_mem xc) (fstWriterContext.maxhandle xc))"

lemma fputc_write: "fputc b h = fstFwrite [b] h"
  by (simp add: fputc_def fstFwrite_def)

lemma Uint64_write: "fstWriterUint64 v h = fstFwrite (be_loop 8 v) h"
  by (simp add: fstWriterUint64_def)

lemma EmitSectionHeader_eq:
  assumes e: "at_end (handle xc)" and f: "frame_there xc"
  shows "fstWriterEmitSectionHeader (compress2 pk) xc
    = Inr (xc\<lparr>handle := fstFwrite (section_begun pk xc) (handle xc), section_start := length (f_data (handle xc)) + 1,
        section_header_only := True\<rparr>)"
proof -
  let ?mem = "frame_mem xc" and ?d = "f_data (handle xc)" and ?beg = "if is_initial_time xc then firsttime xc else curtime xc"
  have lm: "length ?mem = unat (maxvalpos xc)" using f by (simp add: frame_mem_def frame_there_def)
  have g: "(if unat (maxvalpos xc) = 0 then Inr [] else if curval_mapped xc then load_n (curval xc) 0 (unat (maxvalpos xc)) else Inl Null_deref)
    = (Inr ?mem :: bytes outcome)"
    using f by (auto simp: frame_there_def frame_mem_def load_n_def unat_eq_zero)
  have p: "(case (case compress2 pk 4 ?mem of None \<Rightarrow> None | Some d \<Rightarrow> if length d < unat (maxvalpos xc) then Some d else None) of
      None \<Rightarrow> ?mem | Some d \<Rightarrow> d) = packed_frame pk ?mem"
    unfolding lm [symmetric] packed_frame_def by (auto split: option.split)
  have mv: "(ucast (maxvalpos xc) :: u64) = of_nat (length ?mem)" unfolding lm by (simp add: word_unat_eq_iff unat_ucast_64)
  have tl: "ftello (fstFwrite [FST_BL_SKIP] (handle xc)) = length ?d + 1"
    using fstFwrite_at_end [OF e, of "[FST_BL_SKIP]"] by (simp add: ftello_def at_end_def)
  have bytes: "section_begun pk xc = [FST_BL_SKIP] @ be_loop 8 0 @ be_loop 8 ?beg @ be_loop 8 (curtime xc) @ be_loop 8 0
      @ varint (of_nat (length ?mem) :: u64) @ varint (of_nat (length (packed_frame pk ?mem)) :: u64)
      @ varint (ucast (fstWriterContext.maxhandle xc) :: u64) @ packed_frame pk ?mem"
    by (simp add: section_begun_def open_header_def frame_part_def del: be_loop.simps)
  show ?thesis
    unfolding fstWriterEmitSectionHeader_def Let_def g andthen_simps p fputc_write [abs_def] Uint64_write [abs_def] on_handle_def
    by (simp add: tl fstWriterVarint_eq fstFwrite_twice bytes mv del: be_loop.simps)
qed

lemma flush_times_eq:
  assumes "at_end (tchn_handle xc)"
  shows "flush_times pk xc = xc\<lparr>handle := fstFwrite (times_part pk (f_data (tchn_handle xc)) (tchn_cnt xc)) (handle xc),
    tchn_cnt := 0, tchn_idx := 0, tchn_handle := fstFtruncate (snd (fseeko (tchn_handle xc) 0 SEEK_SET)) 0\<rparr>"
proof -
  have "ftello (tchn_handle xc) = length (f_data (tchn_handle xc))" using assms by (simp add: ftello_def at_end_def)
  moreover have "take (length t) t = t" for t :: bytes by simp
  ultimately show ?thesis
    unfolding flush_times_def Let_def
    by (simp only: squeezed_def [symmetric])
      (simp add: Uint64_write fstFwrite_twice on_handle_def times_part_def del: be_loop.simps)
qed

lemma write_in:
  assumes "bs \<noteq> []" and "f_data h = A @ B @ C" and "f_pos h = length A" and "length B = length bs"
  shows "fstFwrite bs h = h\<lparr>f_data := A @ bs @ C, f_pos := length A + length bs\<rparr>"
  using assms by (simp add: fstFwrite_def fwrite_bytes_def overlay_in)

lemma seek_write_at:
  assumes "bs \<noteq> []" and "f_data h = A @ B @ C" and "length A = offset" and "length B = length bs"
  shows "fstFwrite bs (snd (fseeko h (int offset) SEEK_SET)) = \<lparr>f_data = A @ bs @ C, f_pos = offset + length bs, f_eof = False\<rparr>"
  using assms by (simp add: fseeko_def fstFwrite_def fwrite_bytes_def overlay_in)
text \<open>Two of the open fields of the header and the tag are filled in; the position returns to the end.\<close>

lemma flush_trailer_eq:
  assumes d: "f_data (handle xc) = pre @ open_header beg cur frame @ body" and e: "at_end (handle xc)"
    and s: "section_start xc = length pre + 1" and lim: "dump_size_limit xc = 0"
  defines "tot \<equiv> length (open_header beg cur frame @ body)"
  shows "flush_trailer memreq xc = xc\<lparr>handle := \<lparr>f_data = pre @ FST_BL_VCDATA_DYN_ALIAS2 # be_loop 8 (of_nat (tot - 1))
        @ be_loop 8 beg @ be_loop 8 (curtime xc) @ be_loop 8 memreq @ frame @ body, f_pos = length pre + tot, f_eof = False\<rparr>,
      section_header_truncpos := length pre + tot\<rparr>"
proof -
  have end0: "ftello (handle xc) = length pre + tot" using e d by (simp add: ftello_def at_end_def tot_def)
  have fs: "fstWriterFseeko (int k) SEEK_SET x = x\<lparr>handle := snd (fseeko (handle x) (int k) SEEK_SET)\<rparr>" for k x
    by (simp add: fstWriterFseeko_def fseeko_def)
  define h1 where "h1 = fstFwrite (be_loop 8 (of_nat (tot - 1))) (snd (fseeko (handle xc) (int (length pre + 1)) SEEK_SET))"
  have h1: "h1 = \<lparr>f_data = pre @ FST_BL_SKIP # be_loop 8 (of_nat (tot - 1)) @ be_loop 8 beg @ be_loop 8 cur @ be_loop 8 0 @ frame @ body,
      f_pos = length pre + 9, f_eof = False\<rparr>"
    unfolding h1_def
    by (subst seek_write_at [where A = "pre @ [FST_BL_SKIP]" and B = "be_loop 8 0" and C = "be_loop 8 beg @ be_loop 8 cur @ be_loop 8 0 @ frame @ body"])
      (simp_all add: d open_header_def be_loop_8_not_Nil del: be_loop.simps)
  have sk: "fseeko h1 8 SEEK_CUR = (0, h1\<lparr>f_pos := length pre + 17\<rparr>)" by (simp add: h1 fseeko_def)
  define h2 where "h2 = fstFwrite (be_loop 8 (curtime xc) @ be_loop 8 memreq) (h1\<lparr>f_pos := length pre + 17\<rparr>)"
  have h2: "h2 = \<lparr>f_data = pre @ FST_BL_SKIP # be_loop 8 (of_nat (tot - 1)) @ be_loop 8 beg @ be_loop 8 (curtime xc) @ be_loop 8 memreq @ frame @ body,
      f_pos = length pre + 33, f_eof = False\<rparr>"
    unfolding h2_def
    by (subst write_in [where A = "pre @ FST_BL_SKIP # be_loop 8 (of_nat (tot - 1)) @ be_loop 8 beg" and B = "be_loop 8 cur @ be_loop 8 0" and C = "frame @ body"])
      (simp_all add: h1 be_loop_8_not_Nil del: be_loop.simps)
  define h3 where "h3 = fstFwrite [FST_BL_VCDATA_DYN_ALIAS2] (snd (fseeko h2 (int (length pre)) SEEK_SET))"
  have h3: "h3 = \<lparr>f_data = pre @ FST_BL_VCDATA_DYN_ALIAS2 # be_loop 8 (of_nat (tot - 1)) @ be_loop 8 beg @ be_loop 8 (curtime xc)
      @ be_loop 8 memreq @ frame @ body, f_pos = length pre + 1, f_eof = False\<rparr>"
    unfolding h3_def
    by (subst seek_write_at [where A = pre and B = "[FST_BL_SKIP]"
          and C = "be_loop 8 (of_nat (tot - 1)) @ be_loop 8 beg @ be_loop 8 (curtime xc) @ be_loop 8 memreq @ frame @ body"])
      (simp_all add: h2 del: be_loop.simps)
  have sn: "length pre + tot - section_start xc = tot - 1" by (simp add: s)
  have x1: "on_handle (fstWriterUint64 (of_nat (tot - 1))) (fstWriterFseeko (int (section_start xc)) SEEK_SET xc) = xc\<lparr>handle := h1\<rparr>"
    by (simp only: on_handle_def fs Uint64_write h1_def s) simp
  have x2: "fstWriterFseeko 8 SEEK_CUR (xc\<lparr>handle := h1\<rparr>) = xc\<lparr>handle := h1\<lparr>f_pos := length pre + 17\<rparr>\<rparr>"
    by (simp add: fstWriterFseeko_def sk)
  have x3: "on_handle (\<lambda>h. fstWriterUint64 memreq (fstWriterUint64 (curtime xc) h)) (xc\<lparr>handle := h1\<lparr>f_pos := length pre + 17\<rparr>\<rparr>)
    = xc\<lparr>handle := h2\<rparr>"
    by (simp add: on_handle_def Uint64_write fstFwrite_twice h2_def del: be_loop.simps)
  have i1: "int (section_start (xc\<lparr>handle := h2\<rparr>)) - 1 = int (length pre)" by (simp add: s)
  have x4: "on_handle (fputc FST_BL_VCDATA_DYN_ALIAS2) (fstWriterFseeko (int (length pre)) SEEK_SET (xc\<lparr>handle := h2\<rparr>)) = xc\<lparr>handle := h3\<rparr>"
    by (simp only: on_handle_def fs fputc_write h3_def) simp
  have x5: "fstWriterFseeko (int (length pre + tot)) SEEK_SET (xc\<lparr>handle := h3\<rparr>)
    = xc\<lparr>handle := snd (fseeko h3 (int (length pre + tot)) SEEK_SET)\<rparr>" by (simp only: fs) simp
  have ss: "section_start (fstWriterFseeko (int (section_start xc)) SEEK_SET xc) = section_start xc" by (simp only: fs) simp
  have c2: "curtime (xc\<lparr>handle := h1\<lparr>f_pos := length pre + 17\<rparr>\<rparr>) = curtime xc" by simp
  have "flush_trailer memreq xc = xc\<lparr>handle := snd (fseeko h3 (int (length pre + tot)) SEEK_SET), section_header_truncpos := length pre + tot\<rparr>"
    unfolding flush_trailer_def Let_def end0 ss sn x1 x2 c2 x3 i1 x4 x5 by (simp add: lim)
  then show ?thesis by (simp add: h3 fseeko_def)
qed



lemma flush_runs:
  assumes h: "\<forall>t < m. handle_ok xc t (G t)" and w: "valpos_mapped xc" "length (vchg_mem xc) = unat (vchg_siz xc)"
    and m: "m < 2 ^ 30" and hm: "hm \<noteq> -1"
    and lay: "layout (items_of pk xc G m) 0 (\<lambda>_. None) 1 = (out, cs)"
  shows "\<exists>st H. flush_handles pk hm [0..<m] (flush_start xc) = Inr st \<and> flush_rel hm xc G m out cs H st
    \<and> cells_room [0..<m] (fl_xc st) \<and> run_cells [0..<m] (fl_xc st) = cs"
proof -
  have rel0: "flush_rel hm xc G 0 [] [] (\<lambda>_. None) (flush_start xc)"
    using jdict_ok_empty [OF hm] by (simp add: flush_rel_def flush_start_def jmap_empty fstFwrite_def fwrite_bytes_def)
  have "layout (map (\<lambda>t. item_of pk xc (valpos xc ! (4 * t + 1)) (G t)) [0..<0 + m]) 0 (\<lambda>_. None) (1 + length ([] :: bytes)) = (out, cs)"
    using lay by (simp add: items_of_def)
  from flush_handles_rel [OF rel0 _ w this] h obtain st H where
    st: "flush_handles pk hm [0..<m] (flush_start xc) = Inr st" "flush_rel hm xc G m out cs H st" by auto
  have x: "fl_xc st = xc\<lparr>handle := fstFwrite out (handle xc), curval := curval (fl_xc st), valpos := valpos (fl_xc st)\<rparr>"
    and l: "length cs = m" "length (valpos (fl_xc st)) = length (valpos xc)" "\<forall>t < m. valpos (fl_xc st) ! (4 * t + 2) = cs ! t"
    using st(2) unfolding flush_rel_def by blast+
  have vm: "valpos_mapped (fl_xc st)" by (subst x) (simp add: w)
  have "run_cells [0..<m] (fl_xc st) = cs" using l by (intro nth_equalityI) (simp_all add: run_cells_def)
  moreover have "cells_room [0..<m] (fl_xc st)" using h l(2) vm by (auto simp: cells_room_def handle_ok_def)
  ultimately show ?thesis using st by blast
qed

text \<open>The values of the handles after their histories.\<close>

definition last_values :: "fstWriterContext \<Rightarrow> (nat \<Rightarrow> (u32 \<times> bytes) list) \<Rightarrow> nat \<Rightarrow> bytes" where
  "last_values xw G m = foldl (\<lambda>cv t. checkpointed (valpos xw ! (4 * t)) (valpos xw ! (4 * t + 1)) (G t) cv) (curval xw) [0..<m]"

definition pack_type :: "fstWriterContext \<Rightarrow> u8" where
  "pack_type xw = (if fourpack xw then ascii CHR ''4'' else if fastpack xw then ascii CHR ''F'' else ascii CHR ''Z'')"

definition runs_length :: "fstWriterContext \<Rightarrow> (nat \<Rightarrow> (u32 \<times> bytes) list) \<Rightarrow> nat \<Rightarrow> nat" where
  "runs_length xw G m = sum_list (map (\<lambda>t. length (run_of (valpos xw ! (4 * t + 1)) (G t))) [0..<m])"

lemma JenkinsFree_ok: "jdict_ok hm h \<Longrightarrow> hm \<noteq> -1 \<Longrightarrow> JenkinsFree h hm = Inr None"
  by (auto simp: jdict_ok_def jtable_ok_def JenkinsFree_def split: option.splits)

text \<open>The places and the widths of the handles stay in their cells.\<close>

definition same_cells :: "u32 list \<Rightarrow> u32 list \<Rightarrow> bool" where
  "same_cells vp vs \<longleftrightarrow> length vp = length vs \<and> (\<forall>i. vp ! (4 * i) = vs ! (4 * i) \<and> vp ! (4 * i + 1) = vs ! (4 * i + 1))"

lemma cleared_cells: "same_cells (cleared is vs) vs"
proof (induction "is" arbitrary: vs)
  case (Cons t ts)
  have e: "4 * t + 2 \<noteq> 4 * i" "4 * t + 3 \<noteq> 4 * i" "4 * t + 2 \<noteq> 4 * i + 1" "4 * t + 3 \<noteq> 4 * i + 1" for i by presburger+
  have "cleared (t # ts) vs = cleared ts (if vs ! (4 * t + 2) = 0 then vs else vs[4 * t + 2 := 0, 4 * t + 3 := 0])"
    by (simp add: cleared_def)
  then show ?case using Cons.IH e by (auto simp: same_cells_def)
qed (simp add: cleared_def same_cells_def)

lemma flush_loops:
  assumes wr: "writer_ready nt xw m G" and m: "m = unat (fstWriterContext.maxhandle xw)"
    and b: "1 + length (block_runs pk xw G m) < 2 ^ 31" and hm: "hm \<noteq> -1"
  defines "xw1 \<equiv> xw\<lparr>already_in_flush := True, section_header_only := False,
    handle := fstFwrite (varint (ucast (fstWriterContext.maxhandle xw) :: u64) @ [pack_type xw]) (handle xw)\<rparr>"
  shows "\<exists>st vp. flush_handles pk hm [0..<m] (flush_start xw1) = Inr st \<and> JenkinsFree (fl_hash st) hm = Inr None
    \<and> fl_memreq st = of_nat (runs_length xw G m) \<and> length (last_values xw G m) = length (curval xw)
    \<and> ftello (handle (fl_xc st)) = length (f_data (handle xw)) + length (varint (ucast (fstWriterContext.maxhandle xw) :: u64))
        + 1 + length (block_runs pk xw G m)
    \<and> flush_index [0..<m] 0 0 0 ((fl_xc st)\<lparr>secnum := secnum (fl_xc st) + 1\<rparr>)
      = Inr (xw\<lparr>already_in_flush := True, section_header_only := False, secnum := secnum xw + 1, curval := last_values xw G m, valpos := vp,
          handle := fstFwrite (varint (ucast (fstWriterContext.maxhandle xw) :: u64) @ [pack_type xw] @ block_runs pk xw G m
            @ block_index pk xw G m) (handle xw)\<rparr>)
    \<and> same_cells vp (valpos xw)"
proof -
  obtain out cs where lay: "layout (items_of pk xw G m) 0 (\<lambda>_. None) 1 = (out, cs)" by fastforce
  then have br: "block_runs pk xw G m = out" "block_index pk xw G m = idx_enc cs 0 0 0"
    by (simp_all add: block_runs_def block_index_def)
  have w: "\<forall>t < m. handle_ok xw t (G t)" "valpos_mapped xw" "length (vchg_mem xw) = unat (vchg_siz xw)" "m < 2 ^ 30" "at_end (handle xw)"
    using wr by (auto simp: writer_ready_def)
  have "pack_chain pk xw1 = pack_chain pk xw" by (intro ext pack_chain_cong) (simp_all add: xw1_def)
  then have "items_of pk xw1 G m = items_of pk xw G m" by (simp add: items_of_def item_of_def [abs_def] xw1_def)
  then have lay1: "layout (items_of pk xw1 G m) 0 (\<lambda>_. None) 1 = (out, cs)" using lay by simp
  have w1: "\<forall>t < m. handle_ok xw1 t (G t)" "valpos_mapped xw1" "length (vchg_mem xw1) = unat (vchg_siz xw1)"
    using w by (simp_all add: xw1_def handle_ok_def)
  obtain st H where st: "flush_handles pk hm [0..<m] (flush_start xw1) = Inr st" "flush_rel hm xw1 G m out cs H st"
    "cells_room [0..<m] (fl_xc st)" "run_cells [0..<m] (fl_xc st) = cs"
    using flush_runs [OF w1 w(4) hm lay1] by blast
  have x: "fl_xc st = xw1\<lparr>handle := fstFwrite out (handle xw1), curval := curval (fl_xc st), valpos := valpos (fl_xc st)\<rparr>"
    and cv: "curval (fl_xc st) = last_values xw G m" and mr: "fl_memreq st = of_nat (runs_length xw G m)"
    and jd: "jdict_ok hm (fl_hash st)" and lv: "length (last_values xw G m) = length (curval xw)"
    using st(2) unfolding flush_rel_def by (auto simp: last_values_def runs_length_def xw1_def)
  have e1: "at_end (handle xw1)" "f_data (handle xw1) = f_data (handle xw) @ varint (ucast (fstWriterContext.maxhandle xw) :: u64) @ [pack_type xw]"
    using fstFwrite_at_end [OF w(5)] by (simp_all add: xw1_def)
  have hs: "handle (fl_xc st) = fstFwrite out (handle xw1)" by (subst x) simp
  have tl: "ftello (handle (fl_xc st)) = length (f_data (handle xw)) + length (varint (ucast (fstWriterContext.maxhandle xw) :: u64))
        + 1 + length out"
    using fstFwrite_at_end [OF e1(1), of out] e1(2) by (simp add: hs ftello_def at_end_def)
  let ?xs = "(fl_xc st)\<lparr>secnum := secnum (fl_xc st) + 1\<rparr>"
  have room: "cells_room [0..<m] ?xs" "run_cells [0..<m] ?xs = cs" using st(3,4) by (simp_all add: cells_room_def run_cells_def)
  have "flush_index [0..<m] 0 0 0 ?xs = Inr (?xs\<lparr>handle := fstFwrite (idx_enc cs 0 0 0) (handle ?xs),
      valpos := cleared [0..<m] (valpos ?xs)\<rparr>)"
    using flush_index_eq [OF room(1), of 0 0 0] w(4) by (simp add: room(2))
  also have "?xs\<lparr>handle := fstFwrite (idx_enc cs 0 0 0) (handle ?xs), valpos := cleared [0..<m] (valpos ?xs)\<rparr>
    = xw\<lparr>already_in_flush := True, section_header_only := False, secnum := secnum xw + 1, curval := last_values xw G m,
        valpos := cleared [0..<m] (valpos (fl_xc st)),
        handle := fstFwrite (varint (ucast (fstWriterContext.maxhandle xw) :: u64) @ [pack_type xw] @ out @ idx_enc cs 0 0 0) (handle xw)\<rparr>"
    by (subst (1 2 3) x) (simp add: cv hs xw1_def fstFwrite_twice)
  finally have fi: "flush_index [0..<m] 0 0 0 ?xs = Inr \<dots>" .
  have "same_cells (valpos (fl_xc st)) (valpos xw)"
  proof -
    have e: "4 * i \<noteq> 4 * t + 2" "4 * i + 1 \<noteq> 4 * t + 2" for i t :: nat by presburger+
    have "length (valpos (fl_xc st)) = length (valpos xw1)"
      "\<forall>j. (\<forall>t < m. j \<noteq> 4 * t + 2) \<longrightarrow> valpos (fl_xc st) ! j = valpos xw1 ! j"
      using st(2) unfolding flush_rel_def by blast+
    then show ?thesis using e by (simp add: same_cells_def xw1_def)
  qed
  then have "same_cells (cleared [0..<m] (valpos (fl_xc st))) (valpos xw)"
    using cleared_cells [of "[0..<m]" "valpos (fl_xc st)"] by (simp add: same_cells_def)
  then show ?thesis using st(1) JenkinsFree_ok [OF jd hm] mr lv tl fi unfolding br by blast
qed

text \<open>The flush up to the point where it opens the next section, if it does.\<close>

definition flushed_block :: "packers \<Rightarrow> fstWriterContext \<Rightarrow> (nat \<Rightarrow> (u32 \<times> bytes) list) \<Rightarrow> u64 \<Rightarrow> bytes \<Rightarrow> bytes" where
  "flushed_block pk xw G beg frame =
     (let maxh = fstWriterContext.maxhandle xw; m = unat maxh
      in block_payload beg (curtime xw) (of_nat (runs_length xw G m)) frame maxh (pack_type xw) (block_runs pk xw G m)
           (block_index pk xw G m) (times_part pk (f_data (tchn_handle xw)) (tchn_cnt xw)))"

definition flushed :: "fstWriterContext \<Rightarrow> (nat \<Rightarrow> (u32 \<times> bytes) list) \<Rightarrow> u32 list \<Rightarrow> bytes \<Rightarrow> fstWriterContext" where
  "flushed xw G vp d = xw\<lparr>already_in_flush := True, section_header_only := False, secnum := secnum xw + 1,
     curval := last_values xw G (unat (fstWriterContext.maxhandle xw)), valpos := vp, vchg_mem := [33], vchg_siz := 1,
     tchn_cnt := 0, tchn_idx := 0, tchn_handle := fstFtruncate (snd (fseeko (tchn_handle xw) 0 SEEK_SET)) 0,
     handle := \<lparr>f_data = d, f_pos = length d, f_eof = False\<rparr>, section_header_truncpos := length d\<rparr>"

lemma flush_to_trailer:
  assumes wr: "writer_ready nt xw (unat (fstWriterContext.maxhandle xw)) G"
    and begun: "f_data (handle xw) = pre @ open_header beg cur frame" "section_start xw = length pre + 1"
    and st: "1 < vchg_siz xw" "\<not> already_in_flush xw" "dump_size_limit xw = 0"
    and t: "at_end (tchn_handle xw)"
    and b: "1 + length (block_runs pk xw G (unat (fstWriterContext.maxhandle xw))) < 2 ^ 31"
  defines "d \<equiv> pre @ section_bytes FST_BL_VCDATA_DYN_ALIAS2 (flushed_block pk xw G beg frame)"
  shows "\<exists>vp. fstWriterFlushContextPrivate pk xw
      = andthen (if skip_writing_section_hdr xw then Inr (flushed xw G vp d)
                 else fstWriterEmitSectionHeader (compress2 pk) (flushed xw G vp d)) (\<lambda>xc. Inr (xc\<lparr>already_in_flush := False\<rparr>))
    \<and> length (last_values xw G (unat (fstWriterContext.maxhandle xw))) = length (curval xw) \<and> same_cells vp (valpos xw)"
proof -
  define m where "m = unat (fstWriterContext.maxhandle xw)"
  note wr' = wr [folded m_def] and b' = b [folded m_def]
  have m: "m < 2 ^ 30" "at_end (handle xw)" using wr' by (auto simp: writer_ready_def)
  let ?hm = "flush_hashmask (fstWriterContext.maxhandle xw)" and ?vm = "varint (ucast (fstWriterContext.maxhandle xw) :: u64)"
  have hm: "?hm \<noteq> -1" by (rule hashmask_ok) (use m(1) m_def in simp)
  define runs where "runs = block_runs pk xw G m"
  define index where "index = block_index pk xw G m"
  define tsec where "tsec = times_part pk (f_data (tchn_handle xw)) (tchn_cnt xw)"
  define lv where "lv = last_values xw G m"
  define xw1 where "xw1 = xw\<lparr>already_in_flush := True, section_header_only := False, handle := fstFwrite (?vm @ [pack_type xw]) (handle xw)\<rparr>"
  obtain st vp where fl: "flush_handles pk ?hm [0..<m] (flush_start xw1) = Inr st" "JenkinsFree (fl_hash st) ?hm = Inr None"
    "fl_memreq st = of_nat (runs_length xw G m)" "length lv = length (curval xw)"
    "ftello (handle (fl_xc st)) = length (f_data (handle xw)) + length ?vm + 1 + length runs"
    "flush_index [0..<m] 0 0 0 ((fl_xc st)\<lparr>secnum := secnum (fl_xc st) + 1\<rparr>)
      = Inr (xw\<lparr>already_in_flush := True, section_header_only := False, secnum := secnum xw + 1, curval := lv, valpos := vp,
          handle := fstFwrite (?vm @ [pack_type xw] @ runs @ index) (handle xw)\<rparr>)" "same_cells vp (valpos xw)"
    using flush_loops [OF wr' m_def b' hm] unfolding xw1_def runs_def index_def lv_def by blast
  define body where "body = ?vm @ [pack_type xw] @ runs @ index @ be_loop 8 (of_nat (length index)) @ tsec"
  define xw2 where "xw2 = xw\<lparr>already_in_flush := True, section_header_only := False, secnum := secnum xw + 1, curval := lv, valpos := vp,
    handle := fstFwrite (?vm @ [pack_type xw] @ runs @ index) (handle xw), vchg_mem := [33], vchg_siz := 1\<rparr>"
  define tch where "tch = fstFtruncate (snd (fseeko (tchn_handle xw) 0 SEEK_SET)) 0"
  define xw3 where "xw3 = xw2\<lparr>handle := fstFwrite body (handle xw), tchn_cnt := 0, tchn_idx := 0, tchn_handle := tch\<rparr>"
  have tl2: "ftello (handle xw2) = length (f_data (handle xw)) + length ?vm + 1 + length runs + length index"
    using fstFwrite_at_end [OF m(2), of "?vm @ [pack_type xw] @ runs @ index"] by (simp add: xw2_def ftello_def at_end_def)
  have ft: "flush_times pk (on_handle (fstWriterUint64 (of_nat (length index))) xw2) = xw3"
    using t
    by (subst flush_times_eq)
      (simp_all add: on_handle_def Uint64_write fstFwrite_twice xw2_def xw3_def body_def tsec_def tch_def del: be_loop.simps)
  define tot where "tot = length (open_header beg cur frame @ body)"
  define blk where "blk = FST_BL_VCDATA_DYN_ALIAS2 # be_loop 8 (of_nat (tot - 1)) @ be_loop 8 beg
        @ be_loop 8 (curtime xw) @ be_loop 8 (of_nat (runs_length xw G m)) @ frame @ body"
  have "length (open_header beg cur frame) = 33 + length frame" by (simp add: open_header_def)
  then have tot: "tot - 1 = 8 + (24 + length frame + length body)" "length blk = tot" by (simp_all add: tot_def blk_def)
  have d: "d = pre @ blk" "length d = length pre + tot"
    unfolding d_def section_bytes_def block_payload_def blk_def tot flushed_block_def Let_def m_def [symmetric]
    by (simp_all add: body_def runs_def index_def tsec_def add.assoc tot_def open_header_def del: be_loop.simps)
  have d3: "f_data (handle xw3) = pre @ open_header beg cur frame @ body" "at_end (handle xw3)" "section_start xw3 = length pre + 1"
    "dump_size_limit xw3 = 0" "curtime xw3 = curtime xw"
    using fstFwrite_at_end [OF m(2), of body] begun st by (simp_all add: xw3_def xw2_def)
  have tr: "flush_trailer (of_nat (runs_length xw G m)) xw3 = flushed xw G vp d"
    unfolding flush_trailer_eq [OF d3(1-4)] tot_def [symmetric] d3(5) blk_def [symmetric] d(1) [symmetric] d(2) [symmetric]
    by (simp add: flushed_def xw3_def xw2_def m_def [symmetric] lv_def tch_def)
  have sk: "skip_writing_section_hdr (flushed xw G vp d) = skip_writing_section_hdr xw" by (simp add: flushed_def)
  have en: "ftello (handle xw2) - ftello (handle (fl_xc st)) = length index" using tl2 fl(5) by simp
  have no: "\<not> (vchg_siz xw \<le> 1 \<or> already_in_flush xw)" using st(1,2) by auto
  let ?x0 = "xw\<lparr>already_in_flush := True, section_header_only := False\<rparr>"
  let ?pt = "if fourpack ?x0 then ascii CHR ''4'' else if fastpack ?x0 then ascii CHR ''F'' else ascii CHR ''Z''"
  have c1: "?x0\<lparr>handle := fputc ?pt (fstFwrite (varint (ucast (fstWriterContext.maxhandle ?x0) :: u64)) (handle ?x0))\<rparr> = xw1"
    by (simp add: xw1_def fputc_write fstFwrite_twice pack_type_def)
  have c2: "fstWriterContext.maxhandle xw1 = fstWriterContext.maxhandle xw" by (simp add: xw1_def)
  have "fstWriterFlushContextPrivate pk xw
      = andthen (if skip_writing_section_hdr xw then Inr (flushed xw G vp d)
                 else fstWriterEmitSectionHeader (compress2 pk) (flushed xw G vp d)) (\<lambda>xc. Inr (xc\<lparr>already_in_flush := False\<rparr>))"
    unfolding fstWriterFlushContextPrivate_def Let_def if_not_P [OF no] fstWriterVarint_eq andthen_simps prod.case c1 c2
      m_def [symmetric] fl(1) [unfolded flush_start_def] fl(2) fl(6) xw2_def [symmetric] en ft fl(3) tr sk ..
  then show ?thesis using fl(4,7) by (auto simp: lv_def m_def)
qed

section \<open>Properties\<close>

text \<open>
  C5. What the flush does to the file. The section that was opened, at \<open>pre\<close>, becomes a complete value
  change block: its tag, its length, its times, its memory, the frame from before, the runs and the
  index of the histories \<open>G\<close>, and the time table; behind it a new section is open, from the current
  time on, whose frame holds the last value of every handle. The flush always returns.
\<close>

theorem flush_block_layout:
  assumes wr: "writer_ready nt xw (unat (fstWriterContext.maxhandle xw)) G"
    and begun: "f_data (handle xw) = pre @ open_header beg cur frame" "section_start xw = length pre + 1"
    and st: "1 < vchg_siz xw" "\<not> already_in_flush xw" "dump_size_limit xw = 0" "\<not> skip_writing_section_hdr xw" "\<not> is_initial_time xw"
    and t: "at_end (tchn_handle xw)"
    and b: "1 + length (block_runs pk xw G (unat (fstWriterContext.maxhandle xw))) < 2 ^ 31"
    and f: "frame_there xw"
  shows "\<exists>xw'. fstWriterFlushContextPrivate pk xw = Inr xw'
    \<and> f_data (handle xw') = pre @ section_bytes FST_BL_VCDATA_DYN_ALIAS2 (flushed_block pk xw G beg frame)
        @ open_header (curtime xw) (curtime xw)
            (frame_part pk (take (unat (maxvalpos xw)) (last_values xw G (unat (fstWriterContext.maxhandle xw)))) (fstWriterContext.maxhandle xw))
    \<and> at_end (handle xw') \<and> section_start xw' = length pre + length (flushed_block pk xw G beg frame) + 10 \<and> \<not> already_in_flush xw'
    \<and> curval xw' = last_values xw G (unat (fstWriterContext.maxhandle xw)) \<and> vchg_mem xw' = [33] \<and> vchg_siz xw' = 1
    \<and> tchn_cnt xw' = 0 \<and> secnum xw' = secnum xw + 1"
proof -
  let ?lv = "last_values xw G (unat (fstWriterContext.maxhandle xw))"
  let ?d = "pre @ section_bytes FST_BL_VCDATA_DYN_ALIAS2 (flushed_block pk xw G beg frame)"
  obtain vp where fl: "fstWriterFlushContextPrivate pk xw
      = andthen (fstWriterEmitSectionHeader (compress2 pk) (flushed xw G vp ?d)) (\<lambda>xc. Inr (xc\<lparr>already_in_flush := False\<rparr>))"
    "length ?lv = length (curval xw)"
    using flush_to_trailer [OF wr begun st(1-3) t b] st(4) by auto
  let ?xw = "flushed xw G vp ?d"
  have e: "at_end (handle ?xw)" and fr: "frame_there ?xw"
    using f fl(2) by (simp_all add: flushed_def at_end_def frame_there_def)
  have begun: "section_begun pk ?xw = open_header (curtime xw) (curtime xw)
      (frame_part pk (take (unat (maxvalpos xw)) ?lv) (fstWriterContext.maxhandle xw))"
    using st(5) by (simp add: section_begun_def frame_mem_def flushed_def)
  have "fstWriterFlushContextPrivate pk xw = Inr (?xw\<lparr>handle := fstFwrite (section_begun pk ?xw) (handle ?xw),
      section_start := length ?d + 1, section_header_only := True, already_in_flush := False\<rparr>)"
    unfolding fl(1) EmitSectionHeader_eq [OF e fr] by (simp add: flushed_def)
  then show ?thesis
    using fstFwrite_at_end [OF e, of "section_begun pk ?xw"] unfolding begun by (simp add: flushed_def)
qed

text \<open>The last flush of a file, that opens no section behind the block.\<close>

lemma last_flush:
  assumes "writer_ready nt xw (unat (fstWriterContext.maxhandle xw)) G"
    and "f_data (handle xw) = pre @ open_header beg cur frame" "section_start xw = length pre + 1"
    and "1 < vchg_siz xw" "\<not> already_in_flush xw" "dump_size_limit xw = 0" "skip_writing_section_hdr xw"
    and "at_end (tchn_handle xw)"
    and "1 + length (block_runs pk xw G (unat (fstWriterContext.maxhandle xw))) < 2 ^ 31"
  obtains vp where "fstWriterFlushContextPrivate pk xw
    = Inr ((flushed xw G vp (pre @ section_bytes FST_BL_VCDATA_DYN_ALIAS2 (flushed_block pk xw G beg frame)))\<lparr>already_in_flush := False\<rparr>)"
    and "same_cells vp (valpos xw)"
  using flush_to_trailer [OF assms(1-6,8,9)] assms(7) by auto

text \<open>The two bits of the block's round trip, in a block that was begun at time 5.\<close>

definition demo_flush_writer :: fstWriterContext where
  "demo_flush_writer = demo_block_writer\<lparr>handle := \<lparr>f_data = 1 # open_header 5 5 [2, 2, 2, 120, 120], f_pos = 39, f_eof = False\<rparr>,
     section_start := 2, curtime := 9, maxvalpos := 2, is_initial_time := False,
     tchn_handle := \<lparr>f_data = [7], f_pos = 1, f_eof = False\<rparr>, tchn_cnt := 1\<rparr>"

lemma demo_flush:
  "writer_ready 1 demo_flush_writer 2 (\<lambda>_. [(0, [49])])"
  "block_runs plain_packers demo_flush_writer (\<lambda>_. [(0, [49])]) 2 = [0, 2]"
  "block_index plain_packers demo_flush_writer (\<lambda>_. [(0, [49])]) 2 = [3, 127]"
proof -
  have "pack_chain plain_packers demo_flush_writer = pack_chain plain_packers demo_block_writer"
    by (intro ext pack_chain_cong) (simp_all add: demo_flush_writer_def)
  then have i: "items_of plain_packers demo_flush_writer G 2 = items_of plain_packers demo_block_writer G 2" for G
    by (simp add: items_of_def item_of_def [abs_def] demo_flush_writer_def)
  have h: "handle_ok demo_flush_writer t H = handle_ok demo_block_writer t H" for t H
    by (simp add: handle_ok_def demo_flush_writer_def)
  have ix: "idx_enc [1, -1] 0 0 0 = [3, 127]" by code_simp
  show "block_runs plain_packers demo_flush_writer (\<lambda>_. [(0, [49])]) 2 = [0, 2]"
    "block_index plain_packers demo_flush_writer (\<lambda>_. [(0, [49])]) 2 = [3, 127]"
    using demo_layout by (simp_all only: block_runs_def block_index_def i ix)
  have "at_end (handle demo_flush_writer)" by (simp add: demo_flush_writer_def at_end_def open_header_def)
  then show "writer_ready 1 demo_flush_writer 2 (\<lambda>_. [(0, [49])])"
    using demo_writer_ready unfolding writer_ready_def h by (simp add: demo_flush_writer_def)
qed

lemma flush_block_layout_witness:
  "\<exists>xw'. fstWriterFlushContextPrivate plain_packers demo_flush_writer = Inr xw'
    \<and> f_data (handle xw') = [1] @ section_bytes FST_BL_VCDATA_DYN_ALIAS2
        (block_payload 5 9 2 [2, 2, 2, 120, 120] 2 90 [0, 2] [3, 127] (7 # be_loop 8 1 @ be_loop 8 1 @ be_loop 8 1))
        @ open_header 9 9 [2, 2, 2, 49, 49]"
proof -
  let ?G = "\<lambda>_ :: nat. [(0 :: u32, [49 :: u8])]"
  have f: "fstWriterContext.maxhandle demo_flush_writer = 2" "curtime demo_flush_writer = 9" "maxvalpos demo_flush_writer = 2"
    "f_data (tchn_handle demo_flush_writer) = [7]" "tchn_cnt demo_flush_writer = 1"
    by (simp_all add: demo_flush_writer_def demo_block_writer_def)
  have w: "section_start demo_flush_writer = 2" "1 < vchg_siz demo_flush_writer" "\<not> already_in_flush demo_flush_writer"
    "dump_size_limit demo_flush_writer = 0" "\<not> skip_writing_section_hdr demo_flush_writer" "\<not> is_initial_time demo_flush_writer"
    "at_end (tchn_handle demo_flush_writer)" "frame_there demo_flush_writer"
    by (simp_all add: demo_flush_writer_def demo_block_writer_def writer_zero_def at_end_def frame_there_def)
  have run: "run_of 1 [(0, [49])] = [2]" by code_simp
  have up: "[0..<2] = [0, 1 :: nat]" by (simp add: upt_rec)
  have lv: "last_values demo_flush_writer ?G 2 = [49, 49]" "runs_length demo_flush_writer ?G 2 = 2"
    by (simp_all add: last_values_def runs_length_def up demo_flush_writer_def demo_block_writer_def run checkpointed_def overlay_def norm_val_def)
  have pt: "pack_type demo_flush_writer = 90" by (simp add: pack_type_def demo_flush_writer_def demo_block_writer_def writer_zero_def ascii_def)
  have c: "compress2 plain_packers l s = None" for l s by (simp add: plain_packers_def)
  have tp: "times_part plain_packers [7] 1 = 7 # be_loop 8 1 @ be_loop 8 1 @ be_loop 8 1"
    by (simp add: times_part_def squeezed_def c del: be_loop.simps)
  have fp: "frame_part plain_packers [49, 49] 2 = [2, 2, 2, 49, 49]"
    by (simp add: frame_part_def packed_frame_def c varint_unfold)
  have "writer_ready 1 demo_flush_writer (unat (fstWriterContext.maxhandle demo_flush_writer)) ?G" using demo_flush(1) by (simp add: f)
  moreover have "f_data (handle demo_flush_writer) = [1] @ open_header 5 5 [2, 2, 2, 120, 120]" by (simp add: demo_flush_writer_def)
  ultimately show ?thesis
    using flush_block_layout [of 1 demo_flush_writer ?G "[1]" 5 5 "[2, 2, 2, 120, 120]" plain_packers] demo_flush(2)
    by (auto simp: flushed_block_def f w lv pt demo_flush(3) tp fp simp del: be_loop.simps)
qed

end
