(* ===== verification/File_Roundtrip.thy ===== *)
theory File_Roundtrip
  imports Sections
begin

text \<open>
  From \<open>fstWriterClose\<close> to \<open>fstReaderOpen\<close>: the effect of each section on the context of the reader,
  and the file as a whole. What the header, the geometry, the dump activity and the hierarchy section
  say comes back as the values the writer had.
\<close>

section \<open>The header\<close>

definition hdr_payload :: "hdr \<Rightarrow> bytes" where
  "hdr_payload h = drop 9 (hdr_encode h)"

lemma hdr_encode_section: "hdr_encode h = section_bytes 0 (hdr_payload h)" "length (hdr_payload h) = 321"
proof -
  have p: "hdr_payload h = be_loop 8 (h_start h) @ be_loop 8 (h_end h)
     @ FST_DOUBLE_ENDTEST @ be_loop 8 (h_mem h) @ be_loop 8 (h_scopes h) @ be_loop 8 (h_vars h)
     @ be_loop 8 (h_maxhandle h) @ be_loop 8 (h_sections h) @ [h_timescale h]
     @ zero_padded FST_HDR_SIM_VERSION_SIZE (h_version h) @ zero_padded FST_HDR_DATE_SIZE (h_date h)
     @ [h_filetype h] @ be_loop 8 (h_timezero h)"
    unfolding hdr_payload_def
    by (rule drop_at [of _ "0 # be_loop 8 329"]) (simp_all add: hdr_encode_def del: be_loop.simps)
  show "length (hdr_payload h) = 321" by (simp add: hdr_payload_def)
  then show "hdr_encode h = section_bytes 0 (hdr_payload h)"
    by (simp add: section_bytes_def del: be_loop.simps) (simp add: hdr_encode_def p del: be_loop.simps)
qed

text \<open>The fields of the context the header sets.\<close>

definition hdr_fields :: "hdr \<Rightarrow> fstReaderContext \<Rightarrow> fstReaderContext" where
  "hdr_fields h xc = xc\<lparr>start_time := h_start h, end_time := h_end h, double_endian_match := True,
     mem_used_by_writer := h_mem h, scope_count := h_scopes h, var_count := h_vars h,
     fstReaderContext.maxhandle := ucast (h_maxhandle h),
     num_alias := h_vars h - ucast (ucast (h_maxhandle h) :: u32), vc_section_count := h_sections h,
     timescale := h_timescale h,
     version := zero_padded FST_HDR_SIM_VERSION_SIZE (h_version h) @ [0],
     date := zero_padded FST_HDR_DATE_SIZE (h_date h) @ [0],
     fstReaderContext.filetype := h_filetype h, fstReaderContext.timezero := h_timezero h\<rparr>"

lemma init_hdr_bytes:
  assumes f: "xc_f (op_xc op) = file_at d 9" and d: "d = hdr_encode h @ r"
    and m: "\<And>n. length (malloc_bytes up n) = n"
  shows "init_hdr up op = Some (op\<lparr>op_incomplete := (h_start h = 0 \<and> h_end h = 0), op_seen := True,
    op_xc := (hdr_fields h (op_xc op))\<lparr>xc_f := file_at d 330\<rparr>\<rparr>)"
proof -
  have at:
    "drop 9 d = be_loop 8 (h_start h) @ drop 17 d"
    "drop 17 d = be_loop 8 (h_end h) @ drop 25 d"
    "drop 25 d = FST_DOUBLE_ENDTEST @ drop 33 d"
    "drop 33 d = be_loop 8 (h_mem h) @ drop 41 d"
    "drop 41 d = be_loop 8 (h_scopes h) @ drop 49 d"
    "drop 49 d = be_loop 8 (h_vars h) @ drop 57 d"
    "drop 57 d = be_loop 8 (h_maxhandle h) @ drop 65 d"
    "drop 65 d = be_loop 8 (h_sections h) @ drop 73 d"
    "drop 73 d = [h_timescale h] @ drop 74 d"
    "drop 74 d = zero_padded 128 (h_version h) @ drop 202 d"
    "drop 202 d = zero_padded 119 (h_date h) @ drop 321 d"
    "drop 321 d = [h_filetype h] @ drop 322 d"
    "drop 322 d = be_loop 8 (h_timezero h) @ drop 330 d"
    by (simp_all add: d hdr_encode_def hdr_sizes del: be_loop.simps)
  have w: "drop 73 d = h_timescale h # drop 74 d" "drop 321 d = h_filetype h # drop 322 d"
    using at(9,12) by simp_all
  show ?thesis
    using f
    by (simp add: init_hdr_def hdr_fields_def Let_def u64_at [OF _ at(1)] u64_at [OF _ at(2)] u64_at [OF _ at(4)]
        u64_at [OF _ at(5)] u64_at [OF _ at(6)] u64_at [OF _ at(7)] u64_at [OF _ at(8)] u64_at [OF _ at(13)]
        fill_at [OF _ at(3) length_endtest m] byte_at [OF _ w(1)] byte_at [OF _ w(2)]
        text_at [OF _ at(10)] text_at [OF _ at(11)] hdr_sizes del: be_loop.simps)
qed


section \<open>The state of the walk behind the header\<close>

definition walking :: "bytes \<Rightarrow> nat \<Rightarrow> nat \<Rightarrow> u64 \<Rightarrow> fstReaderContext \<Rightarrow> opening_st" where
  "walking d q p n x = \<lparr>op_xc = x\<lparr>xc_f := file_at d q\<rparr>, op_blkpos = of_nat p, op_incomplete = False,
     op_seen = True, op_sections = n\<rparr>"

lemma walking_simps [simp]:
  "op_xc (walking d q p n x) = x\<lparr>xc_f := file_at d q\<rparr>" "op_blkpos (walking d q p n x) = of_nat p"
  "op_incomplete (walking d q p n x) = False" "op_seen (walking d q p n x) = True"
  "op_sections (walking d q p n x) = n" "(walking d q p n x)\<lparr>op_blkpos := of_nat p'\<rparr> = walking d q p' n x"
  by (simp_all add: walking_def)

lemma walking_file [simp]: "walking d q p n (x\<lparr>xc_f := f\<rparr>) = walking d q p n x"
  by (simp add: walking_def)

lemma entered_walking: "entered p (walking d q p n x) = walking d (p + 9) (p + 1) n x"
  by (simp add: entered_def walking_def add.commute)

lemma walk_section:
  assumes d: "d = A @ section_bytes tag p @ B" and len: "length d < 2 ^ 63"
    and sec: "init_section up (uint tag) (of_nat (8 + length p)) (walking d (length A + 9) (length A + 1) n x)
      = Inr (Some (walking d q' (length A + 1) n' x'))"
  shows "init_loop up (length d) (walking d q (length A) n x)
    = init_loop up (length d) (walking d q' (length (A @ section_bytes tag p)) n' x')"
proof -
  let ?op = "walking d q (length A) n x" and ?op2 = "walking d q' (length A + 1) n' x'"
  have "init_section up (uint tag) (of_nat (8 + length p)) (entered (length A) ?op) = Inr (Some ?op2)"
    using sec by (simp add: entered_walking del: of_nat_add)
  then have "init_loop up (length d) ?op
    = init_loop up (length d) (?op2\<lparr>op_blkpos := of_nat (length (A @ section_bytes tag p))\<rparr>)"
    by (intro init_loop_section [where B = B]) (use d len in \<open>simp_all\<close>)
  then show ?thesis by (simp only: walking_simps)
qed

text \<open>Value change blocks are counted.\<close>

definition is_vc_tag :: "u8 \<Rightarrow> bool" where
  "is_vc_tag t \<longleftrightarrow> t = 1 \<or> t = 5 \<or> t = 8"

definition blocks_bytes :: "(u8 \<times> bytes) list \<Rightarrow> bytes" where
  "blocks_bytes bs = concat (map (\<lambda>(t, p). section_bytes t p) bs)"

lemma walk_blocks:
  "d = A @ blocks_bytes bs @ B \<Longrightarrow> length d < 2 ^ 63 \<Longrightarrow> \<forall>(t, p) \<in> set bs. is_vc_tag t
    \<Longrightarrow> \<exists>q'. init_loop up (length d) (walking d q (length A) n x)
      = init_loop up (length d) (walking d q' (length (A @ blocks_bytes bs)) (n + of_nat (length bs)) x)"
proof (induction bs arbitrary: A q n)
  case Nil
  then show ?case by (auto simp: blocks_bytes_def)
next
  case (Cons b bs)
  obtain t p where b: "b = (t, p)" by fastforce
  have vt: "uint t \<in> {1, 5, 8}"
    using Cons.prems(3) by (auto simp: b is_vc_tag_def)
  have d: "d = A @ section_bytes t p @ blocks_bytes bs @ B" using Cons.prems(1) by (simp add: b blocks_bytes_def)
  have "init_section up (uint t) (of_nat (8 + length p)) (walking d (length A + 9) (length A + 1) n x)
    = Inr (Some (walking d (length A + 9) (length A + 1) (n + 1) x))"
    using vt by (auto simp: init_section_def init_vcdata_def walking_def)
  note walk_section [OF d Cons.prems(2) this, of q]
  moreover obtain q' where "init_loop up (length d) (walking d (length A + 9) (length (A @ section_bytes t p)) (n + 1) x)
      = init_loop up (length d) (walking d q' (length ((A @ section_bytes t p) @ blocks_bytes bs)) (n + 1 + of_nat (length bs)) x)"
    using Cons.IH [of "A @ section_bytes t p"] d Cons.prems(2,3) by fastforce
  ultimately show ?case by (auto simp: b blocks_bytes_def add.assoc)
qed

section \<open>The geometry\<close>

definition geom_len :: "u8 \<times> u32 \<Rightarrow> u32" where
  "geom_len v = (if geom_code v = 0 then 8 else if geom_code v = 0xFFFFFFFF then 0 else geom_code v)"

definition geom_typ :: "u8 \<times> u32 \<Rightarrow> u8" where
  "geom_typ v = (if geom_code v = 0 then FST_VT_VCD_REAL else 16)"

definition geom_longest :: "(u8 \<times> u32) list \<Rightarrow> u32 \<Rightarrow> u32" where
  "geom_longest vs = fold (\<lambda>v m. if geom_code v \<noteq> 0 \<and> geom_len v > m then geom_len v else m) vs"

lemma geom_items_bytes:
  "geom_items (length vs) (geom_bytes vs @ r) m = Inr (map geom_len vs, map geom_typ vs, geom_longest vs m)"
proof (induction vs arbitrary: m)
  case Nil
  then show ?case by (simp add: geom_longest_def)
next
  case (Cons v vs)
  show ?case
    using Cons by (simp add: fstGetVarint32_varint geom_len_def geom_typ_def geom_longest_def Let_def)
qed

text \<open>What unpacks a section the way the writer packed it.\<close>

definition unpacks :: "unpackers \<Rightarrow> packers \<Rightarrow> bytes \<Rightarrow> bool" where
  "unpacks up pk m \<longleftrightarrow> (\<forall>z. compress2 pk 9 m = Some z \<longrightarrow> uncompress up z (length m) = (m, True))"

lemma section_f_squeezed:
  assumes "xc_f x = file_at d q" and "drop q d = squeezed pk m @ r" and "unpacks up pk m"
    and mal: "\<And>n. length (malloc_bytes up n) = n"
  shows "section_f up (length m) (length (squeezed pk m)) x
    = Inr (m, x\<lparr>xc_f := file_at d (q + length (squeezed pk m))\<rparr>)"
proof (cases "length m = length (squeezed pk m)")
  case True
  then have "squeezed pk m = m" by (auto simp: squeezed_def split: option.splits if_splits)
  then show ?thesis
    using fill_at [OF assms(1,2) refl mal] by (simp add: section_f_def)
next
  case False
  then have "uncompress up (squeezed pk m) (length m) = (m, True)"
    using assms(3) by (auto simp: unpacks_def squeezed_def split: option.splits if_splits)
  then show ?thesis
    using False fill_at [OF assms(1,2) refl mal] by (simp add: section_f_def store_n_def mal)
qed

lemma ucast_of_nat_32_64: "n < 2 ^ 32 \<Longrightarrow> (ucast (of_nat n :: u32) :: u64) = of_nat n"
  by (simp add: word_unat_eq_iff unat_ucast_64 unat_of_nat_32 of_nat_inverse [OF refl])

definition geom_fields :: "unpackers \<Rightarrow> (u8 \<times> u32) list \<Rightarrow> fstReaderContext \<Rightarrow> fstReaderContext" where
  "geom_fields up vs x = x\<lparr>contains_geom_section := True, fstReaderContext.maxhandle := of_nat (length vs),
     longest_signal_value_len := geom_longest vs 32, signal_lens := map geom_len vs, signal_typs := map geom_typ vs,
     process_mask := replicate (unat ((of_nat (length vs) + 7) div 8 :: u32)) 0,
     temp_signal_value_buf := malloc_bytes up (unat (geom_longest vs 32 + 1))\<rparr>"

lemma init_geom_walking:
  assumes at: "drop q d = geom_payload pk xc @ r" and len: "length d < 2 ^ 63" and rel: "decl_rel xc vs"
    and n: "length vs < 2 ^ 32" and z: "unpacks up pk (geom_bytes vs)" and gl: "length (geom_bytes vs) < 2 ^ 63"
    and mal: "\<And>n. length (malloc_bytes up n) = n"
  shows "init_geom up (of_nat (8 + length (geom_payload pk xc))) (walking d q p k x)
    = Inr (walking d (q + length (geom_payload pk xc)) p k (geom_fields up vs x))"
proof -
  let ?g = "geom_bytes vs" and ?x = "x\<lparr>xc_f := file_at d q\<rparr>"
  let ?s = "squeezed pk ?g"
  have p: "geom_payload pk xc = be_loop 8 (of_nat (length ?g)) @ be_loop 8 (of_nat (length vs)) @ ?s"
    using rel n by (simp add: geom_payload_def decl_rel_def Let_def ucast_of_nat_32_64 del: be_loop.simps)
  have a1: "drop q d = be_loop 8 (of_nat (length ?g)) @ be_loop 8 (of_nat (length vs)) @ ?s @ r"
    using at by (simp add: p del: be_loop.simps)
  have a2: "drop (q + 8) d = be_loop 8 (of_nat (length vs)) @ ?s @ r"
    using arg_cong [OF a1, of "drop 8"] by (simp add: add.commute del: be_loop.simps)
  have a3: "drop (q + 16) d = ?s @ r"
    using arg_cong [OF a2, of "drop 8"] by (simp add: add.commute del: be_loop.simps)
  have sl: "length ?s < 2 ^ 63" using arg_cong [OF a3, of length] len by simp
  have cl: "(of_nat (8 + length (geom_payload pk xc)) :: u64) - 24 = of_nat (length ?s)" by (simp add: p)
  have us: "unat (of_nat (length ?s) :: u64) = length ?s" "unat (of_nat (length ?g) :: u64) = length ?g"
    using sl gl by (simp_all add: of_nat_inverse)
  have h: "ucast (of_nat (length vs) :: u64) = (of_nat (length vs) :: u32)" by (rule ucast_of_nat_64_32)
  have uh: "unat (of_nat (length vs) :: u32) = length vs" using n by (simp add: of_nat_inverse)
  have sec: "section_f up (length ?g) (length ?s) (?x\<lparr>xc_f := file_at d (q + 16)\<rparr>)
    = Inr (?g, ?x\<lparr>xc_f := file_at d (q + 16 + length ?s)\<rparr>)"
    by (subst section_f_squeezed [OF _ a3 z mal]) simp_all
  have it: "geom_items (length vs) ?g 32 = Inr (map geom_len vs, map geom_typ vs, geom_longest vs 32)"
    using geom_items_bytes [of vs "[]" 32] by simp
  have u1: "u64_f up ?x = (of_nat (length ?g), ?x\<lparr>xc_f := file_at d (q + 8)\<rparr>)"
    by (rule u64_at [OF _ a1]) simp
  have u2: "u64_f up (?x\<lparr>xc_f := file_at d (q + 8)\<rparr>) = (of_nat (length vs), ?x\<lparr>xc_f := file_at d (q + 16)\<rparr>)"
    by (subst u64_at [OF _ a2]) simp_all
  show ?thesis
    unfolding init_geom_def cl walking_simps Let_def u1 u2 prod.case us h uh sec andthen_simps it
    by (simp add: walking_def geom_fields_def p add.assoc)
qed

section \<open>The dump activity\<close>

lemma blackout_items_bytes:
  "f_eof f = False \<Longrightarrow> drop (f_pos f) (f_data f) = blackout_bytes cur bs @ r
    \<Longrightarrow> blackout_items (length bs) cur f
      = Inr (map fst bs, map (\<lambda>b. of_bool (snd b)) bs, f\<lparr>f_pos := f_pos f + length (blackout_bytes cur bs)\<rparr>)"
proof (induction bs arbitrary: cur f)
  case (Cons b bs)
  obtain t a where b: "b = (t, a)" by fastforce
  have d: "drop (f_pos f) (f_data f) = of_bool a # varint (t - cur) @ blackout_bytes t bs @ r"
    using Cons.prems(2) by (simp add: b)
  have g: "fgetc f = (uint (of_bool a :: u8), f\<lparr>f_pos := f_pos f + 1\<rparr>)"
    using fgetc_u8_Cons(2) [OF d] by simp
  let ?f1 = "f\<lparr>f_pos := f_pos f + 1\<rparr>"
  have d1: "drop (f_pos ?f1) (f_data ?f1) = varint (t - cur) @ blackout_bytes t bs @ r"
    using arg_cong [OF d, of "drop 1"] by simp
  note v = fstReaderVarint64_varint [OF d1]
  let ?f2 = "f\<lparr>f_pos := f_pos f + 1 + length (varint (t - cur))\<rparr>"
  have d2: "drop (f_pos ?f2) (f_data ?f2) = blackout_bytes t bs @ r"
    using arg_cong [OF d1, of "drop (length (varint (t - cur)))"] by (simp add: add.commute add.left_commute)
  from Cons.IH [OF _ d2] Cons.prems(1) g v show ?case
    by (simp add: b add.assoc)
qed simp

definition blackout_fields :: "(u64 \<times> bool) list \<Rightarrow> fstReaderContext \<Rightarrow> fstReaderContext" where
  "blackout_fields bs x = x\<lparr>fstReaderContext.num_blackouts := of_nat (length bs), blackout_times := Some (map fst bs),
     blackout_activity := Some (map (\<lambda>b. of_bool (snd b)) bs)\<rparr>"

lemma init_blackout_walking:
  assumes at: "drop q d = blackout_payload bs @ r" and n: "length bs < 2 ^ 32"
  shows "\<exists>q'. init_blackout (walking d q p k x) = Inr (walking d q' p k (blackout_fields bs x))"
proof -
  let ?f = "file_at d q"
  have v: "fstReaderVarint32 ?f = Inr (of_nat (length bs), file_at d (q + length (varint (of_nat (length bs) :: u32))))"
    by (subst fstReaderVarint32_varint(1)) (use at in \<open>simp_all add: blackout_payload_def\<close>)
  let ?f1 = "file_at d (q + length (varint (of_nat (length bs) :: u32)))"
  have "drop (f_pos ?f1) (f_data ?f1) = blackout_bytes 0 bs @ r"
    using arg_cong [OF at, of "drop (length (varint (of_nat (length bs) :: u32)))"]
    by (simp add: blackout_payload_def add.commute)
  from blackout_items_bytes [OF _ this] v n show ?thesis
    by (cases x) (auto simp: init_blackout_def walking_def blackout_fields_def of_nat_inverse Let_def)
qed

section \<open>The hierarchy\<close>

lemma init_hier_walking:
  "on_op (init_hier t) (walking d q p k x)
    = walking d q p k (init_hier t (x\<lparr>xc_f := file_at d q\<rparr>))"
  by (simp add: on_op_def walking_def init_hier_def Let_def)

section \<open>The whole walk\<close>

definition hier_fields :: "int \<Rightarrow> bytes \<Rightarrow> nat \<Rightarrow> fstReaderContext \<Rightarrow> fstReaderContext" where
  "hier_fields t d q x = init_hier t (x\<lparr>xc_f := file_at d q\<rparr>)"

definition closed_fields ::
    "unpackers \<Rightarrow> packers \<Rightarrow> (bytes list \<Rightarrow> bytes option) \<Rightarrow> fstWriterContext \<Rightarrow> hdr \<Rightarrow> (u8 \<times> u32) list
      \<Rightarrow> bytes \<Rightarrow> nat \<Rightarrow> fstReaderContext \<Rightarrow> fstReaderContext" where
  "closed_fields up pk gz xc h vs d q x =
     (let x = geom_fields up vs (hdr_fields h x);
          x = (if blackout_head xc = [] then x else blackout_fields (blackout_head xc) x)
      in if compress_hier xc then hier_fields (uint (fst (hier_packed pk gz xc))) d q x else x)"

lemma hier_packed_tag: "uint (fst (hier_packed pk gz xc)) \<in> {4, 6, 7}"
  by (auto simp: hier_packed_def Let_def)

lemma walk_geom:
  assumes d: "d = A @ section_bytes FST_BL_GEOM (geom_payload pk xc) @ B" and len: "length d < 2 ^ 63"
    and rel: "decl_rel xc vs" and n: "length vs < 2 ^ 32" and z: "unpacks up pk (geom_bytes vs)"
    and gl: "length (geom_bytes vs) < 2 ^ 63" and mal: "\<And>n. length (malloc_bytes up n) = n"
  shows "\<exists>q'. init_loop up (length d) (walking d q (length A) k x)
    = init_loop up (length d) (walking d q' (length (A @ section_bytes FST_BL_GEOM (geom_payload pk xc))) k (geom_fields up vs x))"
proof -
  have "drop (length A + 9) d = geom_payload pk xc @ B"
    by (rule drop_at [of _ "A @ 3 # be_loop 8 (of_nat (8 + length (geom_payload pk xc)))"])
      (simp_all add: d section_bytes_def del: be_loop.simps)
  from init_geom_walking [OF this len rel n z gl mal]
  have "init_section up (uint (3 :: u8)) (of_nat (8 + length (geom_payload pk xc))) (walking d (length A + 9) (length A + 1) k x)
    = Inr (Some (walking d (length A + 9 + length (geom_payload pk xc)) (length A + 1) k (geom_fields up vs x)))"
    by (simp add: init_section_def)
  from walk_section [OF d len this] show ?thesis by blast
qed

lemma walk_blackouts:
  assumes d: "d = A @ section_bytes FST_BL_BLACKOUT (blackout_payload bs) @ B" and len: "length d < 2 ^ 63"
    and n: "length bs < 2 ^ 32"
  shows "\<exists>q'. init_loop up (length d) (walking d q (length A) k x)
    = init_loop up (length d) (walking d q' (length (A @ section_bytes FST_BL_BLACKOUT (blackout_payload bs))) k (blackout_fields bs x))"
proof -
  have "drop (length A + 9) d = blackout_payload bs @ B"
    by (rule drop_at [of _ "A @ 2 # be_loop 8 (of_nat (8 + length (blackout_payload bs)))"])
      (simp_all add: d section_bytes_def del: be_loop.simps)
  from init_blackout_walking [OF this n] obtain q' where
    "init_blackout (walking d (length A + 9) (length A + 1) k x) = Inr (walking d q' (length A + 1) k (blackout_fields bs x))"
    by blast
  then have "init_section up (uint (2 :: u8)) (of_nat (8 + length (blackout_payload bs))) (walking d (length A + 9) (length A + 1) k x)
    = Inr (Some (walking d q' (length A + 1) k (blackout_fields bs x)))"
    by (simp add: init_section_def)
  from walk_section [OF d len this] show ?thesis by blast
qed

lemma walk_hier:
  assumes d: "d = A @ section_bytes t p @ B" and len: "length d < 2 ^ 63" and t: "uint t \<in> {4, 6, 7}"
  shows "init_loop up (length d) (walking d q (length A) k x)
    = init_loop up (length d) (walking d (length A + 9) (length (A @ section_bytes t p)) k (hier_fields (uint t) d (length A + 9) x))"
proof -
  have "init_section up (uint t) (of_nat (8 + length p)) (walking d (length A + 9) (length A + 1) k x)
    = Inr (Some (walking d (length A + 9) (length A + 1) k (hier_fields (uint t) d (length A + 9) x)))"
    using t by (auto simp: init_section_def init_hier_walking hier_fields_def)
  from walk_section [OF d len this] show ?thesis .
qed

text \<open>What the sections of a file mean for the context of the reader, all of them.\<close>

lemma walk_closed:
  assumes d: "d = hdr_encode h @ blocks_bytes bs @ closing_sections pk gz xc" and len: "length d < 2 ^ 63"
    and tags: "\<forall>(t, p) \<in> set bs. is_vc_tag t" and times: "\<not> (h_start h = 0 \<and> h_end h = 0)"
    and rel: "decl_rel xc vs" and n: "vs \<noteq> []" "length vs < 2 ^ 32" and z: "unpacks up pk (geom_bytes vs)"
    and bl: "length (blackout_head xc) < 2 ^ 32" and mal: "\<And>n. length (malloc_bytes up n) = n"
  shows "\<exists>q hp. init_loop up (length d) \<lparr>op_xc = x\<lparr>xc_f := file_at d qs\<rparr>, op_blkpos = 0, op_incomplete = False,
        op_seen = False, op_sections = 0\<rparr>
      = Some (Inr (walking d q (length d) (of_nat (length bs)) (closed_fields up pk gz xc h vs d hp x)))
    \<and> (compress_hier xc \<longrightarrow> drop hp d = hier_payload pk gz xc
        \<and> (\<exists>A. d = A @ section_bytes (fst (hier_packed pk gz xc)) (hier_payload pk gz xc) \<and> hp = length A + 9))"
proof -
  let ?op = "\<lparr>op_xc = x\<lparr>xc_f := file_at d qs\<rparr>, op_blkpos = 0, op_incomplete = False, op_seen = False, op_sections = 0\<rparr>"
  let ?G = "section_bytes FST_BL_GEOM (geom_payload pk xc)" and ?bl = "blackout_head xc"
  let ?B = "if ?bl = [] then [] else section_bytes FST_BL_BLACKOUT (blackout_payload ?bl)"
  let ?t = "fst (hier_packed pk gz xc)"
  let ?H = "if compress_hier xc then section_bytes ?t (hier_payload pk gz xc) else []"
  have g0: "geom_bytes vs \<noteq> []" using n(1) by (cases vs) (simp_all add: varint_not_Nil)
  have gl: "length (geom_bytes vs) < 2 ^ 63"
  proof -
    have "length (geom_bytes vs) \<le> 5 * length vs" by (induction vs) (use length_varint_32 in \<open>auto intro: add_mono\<close>)
    then show ?thesis using n(2) by simp
  qed
  have cs: "closing_sections pk gz xc = ?G @ ?B @ ?H"
    using rel g0 by (simp add: closing_sections_def decl_rel_def)
  \<comment> \<open>the header\<close>
  let ?h0 = "hdr_encode h"
  have d0: "d = [] @ section_bytes 0 (hdr_payload h) @ blocks_bytes bs @ ?G @ ?B @ ?H"
    using d hdr_encode_section(1) [of h] cs by simp
  have e0: "entered 0 ?op = ?op\<lparr>op_xc := x\<lparr>xc_f := file_at d 9\<rparr>, op_blkpos := 1\<rparr>" by (simp add: entered_def)
  have "init_hdr up (entered 0 ?op) = Some (walking d 330 1 0 (hdr_fields h x))"
    by (subst init_hdr_bytes [OF _ d mal]) (use times in \<open>simp_all add: e0 walking_def hdr_fields_def\<close>)
  then have sec: "init_section up (uint (0 :: u8)) (of_nat (8 + length (hdr_payload h))) (entered (length ([] :: bytes)) ?op)
    = Inr (Some (walking d 330 1 0 (hdr_fields h x)))"
    by (simp add: init_section_def e0)
  have en: "length d = length ([] :: bytes) + length (hdr_payload h) + 9 + length (blocks_bytes bs @ ?G @ ?B @ ?H)"
    using arg_cong [OF d0, of length] by simp
  have "init_loop up (length d) ?op
    = init_loop up (length d) ((walking d 330 1 0 (hdr_fields h x))\<lparr>op_blkpos := of_nat (length ([] @ section_bytes 0 (hdr_payload h)))\<rparr>)"
    by (rule init_loop_section [OF _ _ _ _ sec _ _ en]) (use d0 len hdr_encode_section(2) [of h] in \<open>simp_all\<close>)
  then have l0: "init_loop up (length d) ?op = init_loop up (length d) (walking d 330 (length ?h0) 0 (hdr_fields h x))"
    by (simp only: walking_simps append_Nil hdr_encode_section(1) [symmetric])
  \<comment> \<open>the blocks, the geometry, the dump activity and the hierarchy\<close>
  obtain q1 where l1: "init_loop up (length d) (walking d 330 (length ?h0) 0 (hdr_fields h x))
    = init_loop up (length d) (walking d q1 (length (?h0 @ blocks_bytes bs)) (0 + of_nat (length bs)) (hdr_fields h x))"
    using walk_blocks [of d ?h0 bs "closing_sections pk gz xc"] d len tags by blast
  let ?A2 = "?h0 @ blocks_bytes bs" and ?k = "of_nat (length bs) :: u64"
  let ?x2 = "geom_fields up vs (hdr_fields h x)"
  have d2: "d = ?A2 @ ?G @ ?B @ ?H" by (simp add: d cs)
  obtain q2 where l2: "init_loop up (length d) (walking d q1 (length ?A2) ?k (hdr_fields h x))
    = init_loop up (length d) (walking d q2 (length (?A2 @ ?G)) ?k ?x2)"
    using walk_geom [OF d2 len rel n(2) z gl mal] by blast
  let ?A3 = "?A2 @ ?G" and ?x3 = "if ?bl = [] then ?x2 else blackout_fields ?bl ?x2"
  obtain q3 where l3: "init_loop up (length d) (walking d q2 (length ?A3) ?k ?x2)
    = init_loop up (length d) (walking d q3 (length (?A3 @ ?B)) ?k ?x3)"
    using walk_blackouts [of d ?A3 ?bl ?H up q2 ?k ?x2] d2 len bl by (cases "?bl = []") auto
  let ?A4 = "?A3 @ ?B" let ?hp = "length ?A4 + 9"
  let ?x4 = "if compress_hier xc then hier_fields (uint ?t) d ?hp ?x3 else ?x3"
  have d4: "d = ?A4 @ ?H" using d2 by simp
  obtain q4 where l4: "init_loop up (length d) (walking d q3 (length ?A4) ?k ?x3)
    = init_loop up (length d) (walking d q4 (length (?A4 @ ?H)) ?k ?x4)"
  proof (cases "compress_hier xc")
    case True
    then show ?thesis
      using walk_hier [of d ?A4 ?t "hier_payload pk gz xc" "[]"] d4 len hier_packed_tag that by auto
  next
    case False
    then show ?thesis using that [of q3] by simp
  qed
  have end_pos: "init_loop up (length d) (walking d q4 (length (?A4 @ ?H)) ?k ?x4) = Some (Inr (walking d q4 (length d) ?k ?x4))"
    unfolding d4 [symmetric] by (rule init_loop_end) (use len in \<open>simp_all\<close>)
  have cf: "closed_fields up pk gz xc h vs d ?hp x = ?x4" by (simp add: closed_fields_def Let_def)
  have "init_loop up (length d) ?op = Some (Inr (walking d q4 (length d) ?k (closed_fields up pk gz xc h vs d ?hp x)))"
    unfolding cf using l0 l1 l2 l3 l4 end_pos by simp
  moreover have "compress_hier xc \<longrightarrow> drop ?hp d = hier_payload pk gz xc
        \<and> (\<exists>A. d = A @ section_bytes ?t (hier_payload pk gz xc) \<and> ?hp = length A + 9)"
  proof (intro impI conjI)
    assume c: "compress_hier xc"
    show "\<exists>A. d = A @ section_bytes ?t (hier_payload pk gz xc) \<and> ?hp = length A + 9"
      using c d4 by (intro exI [of _ ?A4]) simp
    show "drop ?hp d = hier_payload pk gz xc"
      by (rule drop_at [of _ "?A4 @ ?t # be_loop 8 (of_nat (8 + length (hier_payload pk gz xc)))"])
        (use c d4 in \<open>simp_all add: section_bytes_def del: be_loop.simps\<close>)
  qed
  ultimately show ?thesis by blast
qed


section \<open>The wrapper\<close>

lemma gz_copy_all:
  "at_end f \<Longrightarrow> \<exists>f'. gz_copy d (length d) f = (True, f') \<and> f_data f' = f_data f @ d \<and> at_end f' \<and> f_eof f' = f_eof f"
proof (induction d arbitrary: f rule: chunked.induct)
  case (1 d)
  show ?case
  proof (cases "d = []")
    case True
    then show ?thesis using 1(2) by (simp add: gz_copy.simps)
  next
    case False
    let ?n = "min (length d) FST_GZIO_LEN"
    let ?f1 = "fstFwrite (take ?n d) f"
    have dr: "drop ?n d = drop FST_GZIO_LEN d" by (simp add: min_def)
    have len: "length d - ?n = length (drop FST_GZIO_LEN d)" by simp
    have f1: "at_end ?f1" "f_data ?f1 = f_data f @ take ?n d" "f_eof ?f1 = f_eof f"
      using 1(2) by (simp_all add: append_simps) (simp add: fstFwrite_def fwrite_bytes_def)
    have "gz_copy d (length d) f = gz_copy (drop FST_GZIO_LEN d) (length (drop FST_GZIO_LEN d)) ?f1"
      using False by (subst gz_copy.simps) (simp add: Let_def dr [symmetric] len [symmetric])
    with 1(1) [OF False f1(1)] f1(2,3) show ?thesis
      using append_take_drop_id [of FST_GZIO_LEN d] by (auto simp: min_def split: if_splits)
  qed
qed

lemma gz_copy_new: "gz_copy d (length d) new_file = (True, file_at d (length d))"
  using gz_copy_all [OF at_end_new_file, of d] by (auto simp: file_at_def at_end_def new_file_def)

lemma unwrap_plain:
  "unwrap up gunz ok (x\<lparr>xc_f := opened_file (hdr_encode h @ r)\<rparr>) = Some (True, x\<lparr>xc_f := file_at (hdr_encode h @ r) 1\<rparr>)"
proof -
  obtain s where s: "hdr_encode h @ r = 0 # s" by (simp add: hdr_encode_def)
  have "byte_f (x\<lparr>xc_f := opened_file (0 # s)\<rparr>) = (0, x\<lparr>xc_f := file_at (0 # s) 1\<rparr>)"
    by (subst byte_at [where p = 0 and d = "0 # s" and b = 0 and r = s]) (simp_all add: opened_file_def file_at_def)
  then show ?thesis unfolding s by (simp add: unwrap_def)
qed

lemma off_nat_of_nat: "n < 2 ^ 63 \<Longrightarrow> off_nat (of_nat n) = n"
  by (simp add: off_nat_def sint_small(2))

lemma unwrap_packed:
  assumes "gz (chunked d) = Some z" and "gunz z = Some d" and "length d < 2 ^ 63" and "length z < 2 ^ 63"
  shows "unwrap up gunz True (x\<lparr>xc_f := opened_file (packed_file gz d)\<rparr>) = Some (True, x\<lparr>xc_f := file_at d (length d)\<rparr>)"
proof -
  let ?p = "packed_file gz d" and ?n = "of_nat (length d) :: u64"
  have p: "?p = 254 # be_loop 8 (of_nat (16 + length z)) @ be_loop 8 ?n @ z"
    by (simp add: packed_file_def assms(1) section_bytes_def)
  have p1: "drop 1 ?p = be_loop 8 (of_nat (16 + length z)) @ be_loop 8 ?n @ z" by (simp add: p del: be_loop.simps)
  have p9: "drop 9 ?p = be_loop 8 ?n @ z"
    by (rule drop_at [of _ "254 # be_loop 8 (of_nat (16 + length z))"]) (simp_all add: p del: be_loop.simps)
  have p17: "drop 17 ?p = z"
    by (rule drop_at [of _ "254 # be_loop 8 (of_nat (16 + length z)) @ be_loop 8 ?n"]) (simp_all add: p del: be_loop.simps)
  let ?x = "x\<lparr>xc_f := opened_file ?p\<rparr>"
  have b: "byte_f ?x = (254, x\<lparr>xc_f := file_at ?p 1\<rparr>)"
    by (subst byte_at [where p = 0 and d = ?p and b = 254]) (simp_all add: opened_file_def file_at_def p)
  have u1: "u64_f up (x\<lparr>xc_f := file_at ?p 1\<rparr>) = (of_nat (16 + length z), x\<lparr>xc_f := file_at ?p 9\<rparr>)"
    by (subst u64_at [OF _ p1]) simp_all
  have u2: "u64_f up (x\<lparr>xc_f := file_at ?p 9\<rparr>) = (?n, x\<lparr>xc_f := file_at ?p 17\<rparr>)"
    by (subst u64_at [OF _ p9]) simp_all
  have sk: "seek_f 17 SEEK_SET (x\<lparr>xc_f := file_at ?p 17\<rparr>) = x\<lparr>xc_f := file_at ?p 17\<rparr>"
    by (simp add: seek_f_def fstReaderFseeko_def fseeko_def file_at_def)
  have nz: "(of_nat (16 + length z) :: u64) \<noteq> 0"
  proof
    assume "(of_nat (16 + length z) :: u64) = 0"
    then have "unat (of_nat (16 + length z) :: u64) = 0" by simp
    moreover have "unat (of_nat (16 + length z) :: u64) = 16 + length z" using assms(4) by (intro of_nat_inverse) simp_all
    ultimately show False by simp
  qed
  show ?thesis
    unfolding unwrap_def b u1 u2 sk prod.case Let_def using nz
    by (simp add: p17 assms(2) off_nat_of_nat [OF assms(3)] gz_copy_new del: of_nat_add)
qed


section \<open>Opening what was closed\<close>

lemma closed_fields_frame:
  "fstReaderContext.maxhandle (closed_fields up pk gz xc h vs d q x) = of_nat (length vs)"
  "contains_geom_section (closed_fields up pk gz xc h vs d q x)"
  "xc_fh (closed_fields up pk gz xc h vs d q x) = xc_fh x"
  "start_time (closed_fields up pk gz xc h vs d q x) = h_start h"
  "end_time (closed_fields up pk gz xc h vs d q x) = h_end h"
  "scope_count (closed_fields up pk gz xc h vs d q x) = h_scopes h"
  "var_count (closed_fields up pk gz xc h vs d q x) = h_vars h"
  "timescale (closed_fields up pk gz xc h vs d q x) = h_timescale h"
  "fstReaderContext.timezero (closed_fields up pk gz xc h vs d q x) = h_timezero h"
  "signal_lens (closed_fields up pk gz xc h vs d q x) = map geom_len vs"
  "signal_typs (closed_fields up pk gz xc h vs d q x) = map geom_typ vs"
  "double_endian_match (closed_fields up pk gz xc h vs d q x)"
  by (simp_all add: closed_fields_def Let_def hier_fields_def init_hier_def blackout_fields_def geom_fields_def hdr_fields_def)

lemma closed_fields_hier:
  "compress_hier xc \<Longrightarrow> contains_hier_section (closed_fields up pk gz xc h vs d q x) = (contains_hier_section x \<or> fst (hier_packed pk gz xc) = 4)"
  "compress_hier xc \<Longrightarrow> contains_hier_section_lz4 (closed_fields up pk gz xc h vs d q x)
    = (contains_hier_section_lz4 x \<or> fst (hier_packed pk gz xc) \<noteq> 4)"
  "compress_hier xc \<Longrightarrow> contains_hier_section_lz4duo (closed_fields up pk gz xc h vs d q x)
    = (contains_hier_section_lz4duo x \<or> fst (hier_packed pk gz xc) = 7)"
  "compress_hier xc \<Longrightarrow> hier_pos (closed_fields up pk gz xc h vs d q x) = q"
  using hier_packed_tag [of pk gz xc]
  by (auto simp: closed_fields_def Let_def hier_fields_def init_hier_def blackout_fields_def geom_fields_def hdr_fields_def word_uint_eq_iff)

lemma closed_fields_blackouts:
  "fstReaderContext.num_blackouts x = 0 \<Longrightarrow>
    fstReaderContext.num_blackouts (closed_fields up pk gz xc h vs d q x) = of_nat (length (blackout_head xc))"
  "blackout_head xc \<noteq> [] \<Longrightarrow> blackout_times (closed_fields up pk gz xc h vs d q x) = Some (map fst (blackout_head xc))"
  "blackout_head xc \<noteq> [] \<Longrightarrow> blackout_activity (closed_fields up pk gz xc h vs d q x)
    = Some (map (\<lambda>b. of_bool (snd b)) (blackout_head xc))"
  by (simp_all add: closed_fields_def Let_def hier_fields_def init_hier_def blackout_fields_def geom_fields_def hdr_fields_def)

lemma seek_end: "seek_f 0 SEEK_END (x\<lparr>xc_f := file_at d p\<rparr>) = x\<lparr>xc_f := file_at d (length d)\<rparr>"
  by (simp add: seek_f_def fstReaderFseeko_def fseeko_def file_at_def)

lemma open_walked:
  assumes "unwrap up gunz True (reader_zero\<lparr>xc_fh := map_option opened_file hf, xc_f := opened_file D\<rparr>)
      = Some (True, reader_zero\<lparr>xc_fh := map_option opened_file hf, xc_f := file_at d q\<rparr>)"
    and "init_loop up (length d) \<lparr>op_xc = reader_zero\<lparr>xc_fh := map_option opened_file hf, xc_f := file_at d (length d)\<rparr>,
        op_blkpos = 0, op_incomplete = False, op_seen = False, op_sections = 0\<rparr>
      = Some (Inr (walking d q' p k x))"
    and "k \<noteq> 0" and "contains_geom_section x" and "fstReaderContext.maxhandle x \<noteq> 0"
    and "xc_fh x \<noteq> None \<or> contains_hier_section x \<or> contains_hier_section_lz4 x"
  shows "fstReaderOpen up gunz True recreate (Some D) hf
    = Some (Inr (Some (x\<lparr>xc_f := file_at d q', vc_section_count := k, do_rewind := True\<rparr>)))"
proof -
  let ?x0 = "reader_zero\<lparr>xc_fh := map_option opened_file hf, xc_f := opened_file D\<rparr>"
  have eq: "reader_zero\<lparr>xc_f := opened_file D, xc_fh := map_option opened_file hf\<rparr> = ?x0" by simp
  have sk: "seek_f 0 SEEK_END (reader_zero\<lparr>xc_fh := map_option opened_file hf, xc_f := file_at d q\<rparr>)
    = reader_zero\<lparr>xc_fh := map_option opened_file hf, xc_f := file_at d (length d)\<rparr>"
    by (rule seek_end)
  have "fstReaderInit up gunz True recreate ?x0
    = Some (Inr (True, x\<lparr>xc_f := file_at d q', vc_section_count := k\<rparr>))"
    using assms(2,4) by (simp add: fstReaderInit_def assms(1) sk Let_def)
  then show ?thesis using assms(3,5,6) by (simp add: fstReaderOpen_def eq)
qed

text \<open>What gives back the packed hierarchy.\<close>

definition hier_unpacks ::
    "(bytes \<Rightarrow> bytes option) \<Rightarrow> (bytes \<Rightarrow> nat \<Rightarrow> int \<times> bytes) \<Rightarrow> packers \<Rightarrow> (bytes list \<Rightarrow> bytes option)
      \<Rightarrow> fstWriterContext \<Rightarrow> bool" where
  "hier_unpacks gunz lz4 pk gz xc \<longleftrightarrow>
     (let h = f_data (hier_handle xc); mem = LZ4_compress_default pk h
      in if \<not> fourpack xc then (\<exists>z. gz (chunked h) = Some z \<and> gunz z = Some h)
         else h \<noteq> [] \<and> lz4 mem (length h) = (int (length h), h)
            \<and> lz4 (LZ4_compress_default pk mem) (length mem) = (int (length mem), mem))"

lemma uint64_at: "drop p d = be_loop 8 v @ r \<Longrightarrow> fstReaderUint64 junk (file_at d p) = (v, file_at d (p + 8))"
  by (subst fstReaderUint64_of_bytes) (simp_all del: be_loop.simps)

lemma seek_at: "fstReaderFseeko y (file_at d p) (int k) SEEK_SET = (0, file_at d k, y)"
  by (simp add: fstReaderFseeko_def fseeko_def file_at_def)

lemma fread_at: "drop p d = a \<Longrightarrow> length a = n \<Longrightarrow> fstFread n (file_at d p) = (a, 1, file_at d (p + n))"
  by (simp add: fstFread_def fread_bytes_def file_at_def)

lemma recreate_closed:
  assumes d: "d = A @ section_bytes (fst (hier_packed pk gz xc)) (hier_payload pk gz xc)" and pos: "hier_pos x = length A + 9"
    and f: "xc_f x = file_at d q" and len: "length d < 2 ^ 63" and none: "xc_fh x = None"
    and tags: "contains_hier_section x = (fst (hier_packed pk gz xc) = 4)"
      "contains_hier_section_lz4 x = (fst (hier_packed pk gz xc) \<noteq> 4)"
      "contains_hier_section_lz4duo x = (fst (hier_packed pk gz xc) = 7)"
    and un: "hier_unpacks gunz lz4 pk gz xc" and small: "length (f_data (hier_handle xc)) < 2 ^ 63"
      "length (LZ4_compress_default pk (f_data (hier_handle xc))) < 2 ^ 63"
  shows "\<exists>x' fh. fstReaderRecreateHierFile gunz lz4 True junk x = Inr (True, x') \<and> xc_fh x' = Some fh
    \<and> f_data fh = f_data (hier_handle xc)"
proof -
  let ?h = "f_data (hier_handle xc)" and ?t = "fst (hier_packed pk gz xc)" and ?p = "snd (hier_packed pk gz xc)"
  let ?u = "of_nat (length ?h) :: u64" and ?hp = "length A + 9" and ?mem = "LZ4_compress_default pk (f_data (hier_handle xc))"
  have dd: "d = A @ ?t # be_loop 8 (of_nat (16 + length ?p)) @ be_loop 8 ?u @ ?p"
    by (simp add: d section_bytes_def hier_payload_def)
  have a0: "drop (length A + 1) d = be_loop 8 (of_nat (16 + length ?p)) @ be_loop 8 ?u @ ?p"
    by (rule drop_at [of _ "A @ [?t]"]) (simp_all add: dd del: be_loop.simps)
  have a1: "drop ?hp d = be_loop 8 ?u @ ?p"
    by (rule drop_at [of _ "A @ ?t # be_loop 8 (of_nat (16 + length ?p))"]) (simp_all add: dd del: be_loop.simps)
  have a2: "drop (length A + 17) d = ?p"
    by (rule drop_at [of _ "A @ ?t # be_loop 8 (of_nat (16 + length ?p)) @ be_loop 8 ?u"]) (simp_all add: dd del: be_loop.simps)
  have pl: "length ?p < 2 ^ 63" using len dd by simp
  have r0: "fstReaderUint64 junk (file_at d (length A + 1)) = (of_nat (16 + length ?p), file_at d ?hp)"
    by (subst uint64_at [OF a0]) simp
  have r1: "fstReaderUint64 junk (file_at d ?hp) = (?u, file_at d (length A + 17))"
    by (subst uint64_at [OF a1]) simp
  have s0: "fstReaderFseeko y (file_at d k) (1 + int (length A)) SEEK_SET = (0, file_at d (length A + 1), y)"
    "fstReaderFseeko y (file_at d k) (int (length A) + 9) SEEK_SET = (0, file_at d ?hp, y)" for y k
    using seek_at [of y d k "length A + 1"] seek_at [of y d k ?hp] by simp_all
  have cl: "unat (of_nat (length ?p) :: u64) = length ?p" using pl by (simp add: of_nat_inverse)
  have rd: "fstFread (length ?p) (file_at d (length A + 17)) = (?p, 1, file_at d (length A + 17 + length ?p))"
    by (rule fread_at [OF a2 refl])
  have su: "sint ?u = int (length ?h)" using small(1) by (simp add: sint_small(2))
  show ?thesis
  proof (cases "fourpack xc")
    case False
    then obtain z where z: "gz (chunked ?h) = Some z" "gunz z = Some ?h" using un by (auto simp: hier_unpacks_def Let_def)
    have t: "?t = 4" and p: "?p = z" using False z by (simp_all add: hier_packed_def Let_def)
    have "drop (length A + 17) d = z" using a2 p by simp
    then show ?thesis
      using z f none pos
      by (simp add: fstReaderRecreateHierFile_def tags t Let_def seek_at s0 r1 off_nat_of_nat [OF small(1)] gz_copy_new)
  next
    case True
    then have z: "?h \<noteq> []" "lz4 ?mem (length ?h) = (int (length ?h), ?h)"
      "lz4 (LZ4_compress_default pk ?mem) (length ?mem) = (int (length ?mem), ?mem)"
      using un by (auto simp: hier_unpacks_def Let_def)
    have u0: "?u \<noteq> 0" using su z(1) by auto
    have uu: "unat ?u = length ?h" "unat (of_nat (length ?mem) :: u64) = length ?mem"
      using small by (simp_all add: of_nat_inverse)
    have w: "f_data (fstFwrite ?h new_file) = ?h" by (simp add: append_simps) (simp add: new_file_def)
    show ?thesis
    proof (cases "?t = 7")
      case t: True
      then have p: "?p = varint (of_nat (length ?mem) :: u64) @ LZ4_compress_default pk ?mem"
        using True by (auto simp: hier_packed_def Let_def split: if_splits)
      have v: "fstGetVarint64 ?p = Inr (of_nat (length ?mem), length (varint (of_nat (length ?mem) :: u64)))"
        unfolding p by (simp add: fstGetVarint64_varint)
      have dv: "drop (length (varint (of_nat (length ?mem) :: u64))) ?p = LZ4_compress_default pk ?mem" by (simp add: p)
      show ?thesis
        by (simp add: fstReaderRecreateHierFile_def Let_def f none pos u0 su z(1,3) z(2) w uu tags t seek_at s0 r0 [unfolded Suc_eq_plus1 [symmetric]] r1 cl rd v dv)
    next
      case t: False
      then have p: "?p = ?mem" "?t = 6" using True by (auto simp: hier_packed_def Let_def split: if_splits)
      show ?thesis
        by (simp add: fstReaderRecreateHierFile_def Let_def f none pos u0 su z(1,2) w uu tags t seek_at s0 r0 [unfolded Suc_eq_plus1 [symmetric]] r1 cl rd [unfolded p(1)] p)
    qed
  qed
qed


section \<open>Properties\<close>

lemma close_open:
  assumes live: "\<not> already_in_close xc" "\<not> already_in_flush xc"
    and last: "close_changes pk (xc\<lparr>already_in_close := True\<rparr>) = Inr xc1"
    and ok: "closable xc1 h (blocks_bytes bs)" and tags: "\<forall>(t, p) \<in> set bs. is_vc_tag t" and bs: "bs \<noteq> []"
    and rel: "decl_rel xc1 vs" and vs: "vs \<noteq> []" "length vs < 2 ^ 32"
    and times: "firsttime xc1 \<noteq> 0 \<or> curtime xc1 \<noteq> 0"
    and d: "d = hdr_encode (hdr_counts xc1 h) @ blocks_bytes bs @ closing_sections pk gz xc1" "length d < 2 ^ 63"
    and mal: "\<And>n. length (malloc_bytes up n) = n" and z: "unpacks up pk (geom_bytes vs)"
    and hs: "compress_hier xc1 \<Longrightarrow> hier_shown mm xc1"
    and hz: "compress_hier xc1 \<Longrightarrow> hier_unpacks gunz lz4 pk gz xc1" and hl: "length (f_data (hier_handle xc1)) < 2 ^ 63"
      "length (LZ4_compress_default pk (f_data (hier_handle xc1))) < 2 ^ 63"
    and rp: "repack_on_close xc1 \<and> pak_ok \<Longrightarrow> \<exists>w. gz (chunked d) = Some w \<and> gunz w = Some d \<and> length w < 2 ^ 63"
  shows "\<exists>c xr fh xr'. fstWriterClose pk gz mm junk pak_ok (Some xc) = Inr (Some c)
    \<and> fstReaderOpen up gunz True recreate (Some (cl_file c)) (cl_hier c) = Some (Inr (Some xr))
    \<and> start_time xr = firsttime xc1 \<and> end_time xr = curtime xc1
    \<and> scope_count xr = ucast (numscopes xc1) \<and> var_count xr = ucast (numsigs xc1)
    \<and> fstReaderContext.maxhandle xr = fstWriterContext.maxhandle xc1
    \<and> timescale xr = h_timescale h \<and> fstReaderContext.timezero xr = h_timezero h
    \<and> signal_lens xr = map geom_len vs \<and> signal_typs xr = map geom_typ vs
    \<and> vc_section_count xr = of_nat (length bs)
    \<and> fstReaderContext.num_blackouts xr = of_nat (length (blackout_head xc1))
    \<and> (blackout_head xc1 \<noteq> [] \<longrightarrow> blackout_times xr = Some (map fst (blackout_head xc1))
        \<and> blackout_activity xr = Some (map (\<lambda>b. of_bool (snd b)) (blackout_head xc1)))
    \<and> fstReaderRecreateHierFile gunz lz4 True junk' xr = Inr (True, xr') \<and> xc_fh xr' = Some fh
    \<and> f_data fh = f_data (hier_handle xc1) \<and> f_data (xc_f xr) = d \<and> double_endian_match xr"
proof -
  define c where "c = \<lparr>cl_file = (if repack_on_close xc1 \<and> pak_ok then packed_file gz d else d),
     cl_hier = (if compress_hier xc1 then None else Some (f_data (hier_handle xc1)))\<rparr>"
  have close: "fstWriterClose pk gz mm junk pak_ok (Some xc) = Inr (Some c)"
    unfolding c_def by (rule fstWriterClose_eq [OF live last ok _ hs]) (simp_all add: d(1))
  let ?hf = "cl_hier c" and ?h = "hdr_counts xc1 h"
  let ?x = "reader_zero\<lparr>xc_fh := map_option opened_file ?hf\<rparr>"
  have bl: "length (blackout_head xc1) < 2 ^ 32" using ok by (simp add: closable_def)
  have nz: "\<not> (h_start ?h = 0 \<and> h_end ?h = 0)" using times by (simp add: hdr_counts_def)
  obtain q hp where walk: "init_loop up (length d) \<lparr>op_xc = ?x\<lparr>xc_f := file_at d (length d)\<rparr>, op_blkpos = 0,
        op_incomplete = False, op_seen = False, op_sections = 0\<rparr>
      = Some (Inr (walking d q (length d) (of_nat (length bs)) (closed_fields up pk gz xc1 ?h vs d hp ?x)))"
    and hier: "compress_hier xc1 \<Longrightarrow>
        \<exists>A. d = A @ section_bytes (fst (hier_packed pk gz xc1)) (hier_payload pk gz xc1) \<and> hp = length A + 9"
    using walk_closed [OF d tags nz rel vs z bl mal, where x = ?x and qs = "length d"] by blast
  let ?y = "closed_fields up pk gz xc1 ?h vs d hp ?x"
  obtain q0 where unw: "unwrap up gunz True (?x\<lparr>xc_f := opened_file (cl_file c)\<rparr>) = Some (True, ?x\<lparr>xc_f := file_at d q0\<rparr>)"
  proof (cases "repack_on_close xc1 \<and> pak_ok")
    case True
    then show ?thesis using rp unwrap_packed [where x = ?x and up = up] d(2) that by (auto simp: c_def)
  next
    case False
    then show ?thesis using unwrap_plain [where x = ?x and h = ?h and up = up and gunz = gunz and ok = True] that by (auto simp: c_def d(1))
  qed
  have bn: "(of_nat (length bs) :: u64) \<noteq> 0"
  proof -
    have "length bs \<le> length (blocks_bytes bs)"
      by (induction bs) (auto simp: blocks_bytes_def)
    then have "length bs < 2 ^ 63" using d by simp
    then have "unat (of_nat (length bs) :: u64) = length bs" by (simp add: of_nat_inverse)
    then show ?thesis using bs by auto
  qed
  have mh: "(of_nat (length vs) :: u32) \<noteq> 0"
    using vs unat_of_nat_32 [of "length vs"] by (metis length_0_conv unat_0)
  have src: "xc_fh ?y \<noteq> None \<or> contains_hier_section ?y \<or> contains_hier_section_lz4 ?y"
    by (cases "compress_hier xc1") (auto simp: closed_fields_frame closed_fields_hier c_def)
  define xr where "xr = ?y\<lparr>xc_f := file_at d q, vc_section_count := of_nat (length bs), do_rewind := True\<rparr>"
  have opens: "fstReaderOpen up gunz True recreate (Some (cl_file c)) ?hf = Some (Inr (Some xr))"
    unfolding xr_def
    by (rule open_walked [OF unw walk bn closed_fields_frame(2) _ src]) (use mh in \<open>simp add: closed_fields_frame\<close>)
  have "\<exists>xr' fh. fstReaderRecreateHierFile gunz lz4 True junk' xr = Inr (True, xr') \<and> xc_fh xr' = Some fh
    \<and> f_data fh = f_data (hier_handle xc1)"
  proof (cases "compress_hier xc1")
    case True
    then obtain A where A: "d = A @ section_bytes (fst (hier_packed pk gz xc1)) (hier_payload pk gz xc1)" "hp = length A + 9"
      using hier by blast
    show ?thesis
      by (rule recreate_closed [OF A(1), of xr q]) (use True A(2) d(2) hz hl in
          \<open>simp_all add: xr_def closed_fields_frame closed_fields_hier c_def reader_zero_def\<close>)
  next
    case False
    then show ?thesis
      by (simp add: fstReaderRecreateHierFile_def xr_def closed_fields_frame c_def opened_file_def)
  qed
  then obtain xr' fh where rec: "fstReaderRecreateHierFile gunz lz4 True junk' xr = Inr (True, xr')" "xc_fh xr' = Some fh"
    "f_data fh = f_data (hier_handle xc1)" by blast
  show ?thesis
    using close opens rec rel
    by (intro exI [of _ c] exI [of _ xr] exI [of _ fh] exI [of _ xr'])
      (simp add: xr_def closed_fields_frame closed_fields_blackouts hdr_counts_def decl_rel_def reader_zero_def file_at_def)
qed

text \<open>
  C4. A file that is closed can be opened: whatever blocks a writer has put behind its header,
  \<open>fstWriterClose\<close> leaves a file, packed as a whole or not, from which \<open>fstReaderOpen\<close> makes a context with
  the first and the last time of the writer, its counts, the width and the type of each handle as the
  geometry records them, the times the dump was switched off and on, and the number of blocks; and the
  hierarchy the reader rebuilds from it is the hierarchy the writer wrote, byte for byte. With LZ4 for the
  hierarchy (\<open>fourpack\<close>) this is under the condition \<open>hier_shown\<close>: the mapping that \<open>fstWriterClose\<close> makes of the
  hierarchy file shows all of it, and it is shorter than 2 GiB. The code itself does not see to that: it
  maps the file without a flush of the stream, so that items still in the buffer of the stream are lost, and it
  narrows the length to an \<open>int\<close>.
\<close>

theorem close_open_roundtrip:
  assumes live: "\<not> already_in_close xc" "\<not> already_in_flush xc"
    and last: "close_changes pk (xc\<lparr>already_in_close := True\<rparr>) = Inr xc1"
    and ok: "closable xc1 h (blocks_bytes bs)" and tags: "\<forall>(t, p) \<in> set bs. is_vc_tag t" and bs: "bs \<noteq> []"
    and rel: "decl_rel xc1 vs" and vs: "vs \<noteq> []" "length vs < 2 ^ 32"
    and times: "firsttime xc1 \<noteq> 0 \<or> curtime xc1 \<noteq> 0"
    and d: "d = hdr_encode (hdr_counts xc1 h) @ blocks_bytes bs @ closing_sections pk gz xc1" "length d < 2 ^ 63"
    and mal: "\<And>n. length (malloc_bytes up n) = n" and z: "unpacks up pk (geom_bytes vs)"
    and hs: "compress_hier xc1 \<Longrightarrow> hier_shown mm xc1"
    and hz: "compress_hier xc1 \<Longrightarrow> hier_unpacks gunz lz4 pk gz xc1" and hl: "length (f_data (hier_handle xc1)) < 2 ^ 63"
      "length (LZ4_compress_default pk (f_data (hier_handle xc1))) < 2 ^ 63"
    and rp: "repack_on_close xc1 \<and> pak_ok \<Longrightarrow> \<exists>w. gz (chunked d) = Some w \<and> gunz w = Some d \<and> length w < 2 ^ 63"
  shows "\<exists>c xr fh xr'. fstWriterClose pk gz mm junk pak_ok (Some xc) = Inr (Some c)
    \<and> fstReaderOpen up gunz True recreate (Some (cl_file c)) (cl_hier c) = Some (Inr (Some xr))
    \<and> start_time xr = firsttime xc1 \<and> end_time xr = curtime xc1
    \<and> scope_count xr = ucast (numscopes xc1) \<and> var_count xr = ucast (numsigs xc1)
    \<and> fstReaderContext.maxhandle xr = fstWriterContext.maxhandle xc1
    \<and> timescale xr = h_timescale h \<and> fstReaderContext.timezero xr = h_timezero h
    \<and> signal_lens xr = map geom_len vs \<and> signal_typs xr = map geom_typ vs
    \<and> vc_section_count xr = of_nat (length bs)
    \<and> fstReaderContext.num_blackouts xr = of_nat (length (blackout_head xc1))
    \<and> (blackout_head xc1 \<noteq> [] \<longrightarrow> blackout_times xr = Some (map fst (blackout_head xc1))
        \<and> blackout_activity xr = Some (map (\<lambda>b. of_bool (snd b)) (blackout_head xc1)))
    \<and> fstReaderRecreateHierFile gunz lz4 True junk' xr = Inr (True, xr') \<and> xc_fh xr' = Some fh
    \<and> f_data fh = f_data (hier_handle xc1)"
  using close_open [OF assms, where recreate = recreate and junk' = junk' and junk = junk] by blast

definition demo_blocks :: "(u8 \<times> bytes) list" where
  "demo_blocks = [(8, [1, 2])]"

definition demo_vars :: "(u8 \<times> u32) list" where
  "demo_vars = [(16, 4), (3, 8)]"

text \<open>A mapping that shows all the stream has been given.\<close>

definition shows_all :: mapping where
  "shows_all f n = load_n (f_data f) 0 n"

definition demo_closing :: fstWriterContext where
  "demo_closing = writer_zero\<lparr>
     handle := \<lparr>f_data = hdr_encode (initial_hdr []) @ blocks_bytes demo_blocks, f_pos = 341, f_eof = False\<rparr>,
     geom_handle := \<lparr>f_data = [4, 0], f_pos = 2, f_eof = False\<rparr>,
     hier_handle := \<lparr>f_data = [255], f_pos = 1, f_eof = False\<rparr>, hier_file_len := 1,
     valpos := [0, 4, 0, 0, 4, 8, 0, 0], fstWriterContext.maxhandle := 2, firsttime := 5, curtime := 9,
     size_limit_locked := True, compress_hier := True, fourpack := True, repack_on_close := True,
     blackout_head := [(6, False)], fstWriterContext.num_blackouts := 1\<rparr>"

lemma close_open_roundtrip_witness:
  "\<exists>c xr fh xr'. fstWriterClose plain_packers (\<lambda>cs. Some (concat cs)) shows_all [] True (Some demo_closing) = Inr (Some c)
    \<and> fstReaderOpen plain_unpackers Some True (\<lambda>_. Inl Hang) (Some (cl_file c)) (cl_hier c) = Some (Inr (Some xr))
    \<and> start_time xr = 5 \<and> end_time xr = 9 \<and> fstReaderContext.maxhandle xr = 2
    \<and> signal_lens xr = [4, 8] \<and> signal_typs xr = [16, 3] \<and> vc_section_count xr = 1
    \<and> blackout_times xr = Some [6]
    \<and> fstReaderRecreateHierFile Some (\<lambda>d n. (int (length d), d)) True [] xr = Inr (True, xr') \<and> xc_fh xr' = Some fh
    \<and> f_data fh = [255]"
proof -
  let ?x1 = "demo_closing\<lparr>already_in_close := True, skip_writing_section_hdr := True\<rparr>"
  let ?gz = "\<lambda>cs. Some (concat cs)"
  let ?d = "hdr_encode (hdr_counts ?x1 (initial_hdr [])) @ blocks_bytes demo_blocks @ closing_sections plain_packers ?gz ?x1"
  have live: "\<not> already_in_close demo_closing" "\<not> already_in_flush demo_closing"
    by (simp_all add: demo_closing_def writer_zero_def)
  have last: "close_changes plain_packers (demo_closing\<lparr>already_in_close := True\<rparr>) = Inr ?x1"
    by (simp add: close_changes_def demo_closing_def writer_zero_def Let_def)
  have ok: "closable ?x1 (initial_hdr []) (blocks_bytes demo_blocks)"
    by (simp add: closable_def demo_closing_def at_end_def hier_ok_def jdict_ok_empty writer_zero_def demo_blocks_def blocks_bytes_def)
  have tags: "\<forall>(t, p) \<in> set demo_blocks. is_vc_tag t" by (simp add: demo_blocks_def is_vc_tag_def)
  have gb: "geom_bytes demo_vars = [4, 0]"
    by (simp add: demo_vars_def geom_code_def tag_is_real_def varint.simps)
  have rel: "decl_rel ?x1 demo_vars"
    using gb by (simp add: decl_rel_def demo_closing_def at_end_def) (simp add: demo_vars_def less_Suc_eq numeral_eq_Suc)
  have hp: "hier_payload plain_packers ?gz ?x1 = be_loop 8 1 @ [255]"
    by (simp add: hier_payload_def hier_packed_def demo_closing_def plain_packers_def Let_def)
  have len: "length ?d < 2 ^ 63"
    by (simp add: closing_sections_def hp demo_blocks_def blocks_bytes_def)
      (simp add: demo_closing_def geom_payload_def blackout_payload_def squeezed_def plain_packers_def varint.simps)
  have hs: "hier_shown shows_all ?x1" by (simp add: hier_shown_def shows_all_def demo_closing_def)
  have un: "hier_unpacks Some (\<lambda>d n. (int (length d), d)) plain_packers ?gz ?x1"
    by (simp add: hier_unpacks_def demo_closing_def plain_packers_def Let_def)
  have z: "unpacks plain_unpackers plain_packers (geom_bytes demo_vars)"
    by (simp add: unpacks_def plain_packers_def)
  have fields: "firsttime ?x1 = 5" "curtime ?x1 = 9" "fstWriterContext.maxhandle ?x1 = 2" "blackout_head ?x1 = [(6, False)]"
    "f_data (hier_handle ?x1) = [255]"
    by (simp_all add: demo_closing_def)
  have small: "demo_blocks \<noteq> []" "demo_vars \<noteq> []" "length demo_vars < 2 ^ 32" "firsttime ?x1 \<noteq> 0 \<or> curtime ?x1 \<noteq> 0"
    "length (f_data (hier_handle ?x1)) < 2 ^ 63"
    "length (LZ4_compress_default plain_packers (f_data (hier_handle ?x1))) < 2 ^ 63"
    using fields(5) by (simp_all add: fields demo_blocks_def demo_vars_def plain_packers_def)
  have mal: "\<And>n. length (malloc_bytes plain_unpackers n) = n" by (simp add: plain_unpackers_def)
  have rp: "\<exists>w. ?gz (chunked ?d) = Some w \<and> Some w = Some ?d \<and> length w < 2 ^ 63"
    using len by (simp add: concat_chunked)
  have maps: "map geom_len demo_vars = [4, 8]" "map geom_typ demo_vars = [16, 3]" "length demo_blocks = 1"
    by (simp_all add: demo_vars_def demo_blocks_def geom_len_def geom_typ_def geom_code_def tag_is_real_def)
  show ?thesis
    using close_open_roundtrip [OF live last ok tags small(1) rel small(2,3,4) refl len mal z hs un small(5,6) rp,
        where pak_ok = True and junk = "[]" and junk' = "[]" and recreate = "\<lambda>_. Inl Hang"]
    unfolding fields maps by auto
qed

end
