(* ===== verification/Rvat_Load.thy ===== *)
theory Rvat_Load
  imports Rvat_Walk Block_Layout File_Roundtrip
begin

text \<open>
  Finding and loading the block of a time: from a file that holds the block as the flush wrote it, a
  query gets the tables the walk relies on.
\<close>

section \<open>The index\<close>

lemma rvat_zeros_eq: "ci_zeros vm n st = Inr st' \<Longrightarrow> rvat_zeros n st = Inr st'"
  by (auto simp: ci_zeros_def rvat_zeros_def split: if_splits)

lemma rvat_item2_eq:
  assumes "ci_item2 vm pnt st = Inr r"
  shows "rvat_item2 pnt st = Inr r"
proof -
  obtain b where b: "load pnt 0 = Inr b" using assms by (auto simp: ci_item2_def andthen_eq_Inr)
  show ?thesis
  proof (cases "b AND 1 = 0")
    case True
    then show ?thesis using assms b by (auto simp: ci_item2_def rvat_item2_def andthen_eq_Inr dest: rvat_zeros_eq)
  next
    case False
    then show ?thesis using assms b by (simp add: ci_item2_def rvat_item2_def)
  qed
qed

lemma rvat_loop_eq: "ci_loop (ci_item2 vm) k pnt st = Inr st' \<Longrightarrow> ci_loop rvat_item2 (Suc k) pnt st = Inr st'"
proof (induction k arbitrary: pnt st)
  case (Suc k)
  obtain skiplen st1 where 1: "ci_item2 vm pnt st = Inr (skiplen, st1)"
    "(if drop skiplen pnt = [] then Inr st1 else ci_loop (ci_item2 vm) k (drop skiplen pnt) st1) = Inr st'"
    using Suc.prems by (auto simp: andthen_eq_Inr)
  then show ?case
    using Suc.IH [of "drop skiplen pnt" st1] rvat_item2_eq [OF 1(1)] by (subst ci_loop.simps) (auto split: if_splits)
qed simp

lemma rvat_index_eq:
  assumes "chain_index True vm len cmem no_tables = Inr (Some ci)" and "vm \<noteq> 0"
  shows "rvat_index True vm len cmem = Inr ci"
proof -
  let ?z = "unat (vm + 1)"
  let ?st = "\<lparr>ci_table = replicate ?z 0, ci_lens = replicate ?z 0, ci_idx = 0, ci_pidx = 0, ci_pval = 0, ci_alias = 0\<rparr>"
  obtain st where st: "ci_loop (ci_item2 vm) (length cmem) cmem ?st = Inr st" "ci_finish len st = Inr ci"
    using assms
    by (auto simp: chain_index_def ci_alloc_def no_tables_def andthen_eq_Inr word_neq_0_conv split: if_splits)
  then show ?thesis using rvat_loop_eq [OF st(1)] by (simp add: rvat_index_def Let_def del: ci_loop.simps)
qed

section \<open>The parts of a block in the file\<close>

lemma section_f_stored:
  assumes "xc_f x = file_at d q" and "drop q d = s @ r" and "length s = length m \<Longrightarrow> s = m"
    and "length s \<noteq> length m \<Longrightarrow> uncompress up s (length m) = (m, True)"
    and mal: "\<And>n. length (malloc_bytes up n) = n"
  shows "section_f up (length m) (length s) x = Inr (m, x\<lparr>xc_f := file_at d (q + length s)\<rparr>)"
  using fill_at [OF assms(1,2) refl mal] assms(3,4) by (cases "length s = length m") (auto simp: section_f_def store_n_def mal)

lemma varint64_at:
  assumes "xc_f x = file_at d q" and "drop q d = varint (v :: u64) @ r"
  shows "varint64_f x = Inr (v, x\<lparr>xc_f := file_at d (q + length (varint v))\<rparr>)"
  using fstReaderVarint64_varint [of "xc_f x" v r] assms by (simp add: varint64_f_def)

lemma seek_f_at: "xc_f x = file_at d q \<Longrightarrow> seek_f (int k) SEEK_SET x = x\<lparr>xc_f := file_at d k\<rparr>"
  by (simp add: seek_f_start file_at_def)

text \<open>What the frame has to give back.\<close>

definition frame_unpacks :: "unpackers \<Rightarrow> packers \<Rightarrow> bytes \<Rightarrow> bool" where
  "frame_unpacks up pk m \<longleftrightarrow> (\<forall>z. compress2 pk 4 m = Some z \<longrightarrow> uncompress up z (length m) = (m, True))"

lemma rvat_times_ok:
  assumes f: "xc_f x = file_at d q" and at: "drop p d = times_part pk tb cnt @ post"
    and e: "unat (blkpos + seclen) = p + length (times_part pk tb cnt)" "p + length (times_part pk tb cnt) < 2 ^ 62"
    and tb: "tb = concat (map varint ds)" "unat cnt = length ds" and un: "unpacks up pk tb" and mal: "\<And>n. length (malloc_bytes up n) = n"
    and tl: "length tb < 2 ^ 62"
  shows "\<exists>q'. rvat_times up blkpos seclen x = Inr (of_nat (length (squeezed pk tb)), sums_from 0 ds, x\<lparr>xc_f := file_at d q'\<rparr>)"
proof -
  let ?s = "squeezed pk tb"
  have lt: "length (times_part pk tb cnt) = length ?s + 24" by (simp add: times_part_def)
  have sl: "length ?s \<le> length tb" by (auto simp: squeezed_def split: option.split)
  define k where "k = p + length ?s"
  have "unat (blkpos + seclen - 24) = k" using e(1) lt by (simp add: unat_sub word_le_nat_alt k_def)
  then have "blkpos + seclen - 24 = of_nat k" by (rule eq_of_unat)
  then have si: "sint (blkpos + seclen - 24) = int k" using sint_small(2) [of k] e(2) lt by (simp add: k_def)
  have a1: "drop k d = be_loop 8 (of_nat (length tb)) @ be_loop 8 (of_nat (length ?s)) @ be_loop 8 (ucast cnt) @ post"
    using drop_record [of p d ?s] at by (simp add: times_part_def k_def del: be_loop.simps)
  have a2: "drop (k + 8) d = be_loop 8 (of_nat (length ?s)) @ be_loop 8 (ucast cnt) @ post" using drop_record [OF a1] by simp
  have a3: "drop (k + 8 + 8) d = be_loop 8 (ucast cnt) @ post" using drop_record [OF a2] by simp
  have u: "unat (of_nat (length tb) :: u64) = length tb" "unat (of_nat (length ?s) :: u64) = length ?s" "unat (ucast cnt :: u64) = length ds"
    using tl sl tb(2) unat_ucast_64 [of cnt] by (simp_all add: of_nat_inverse [OF refl])
  have sp: "sint (of_nat (length ?s) :: u64) = int (length ?s)" by (rule sint_small(2)) (use tl sl in simp)
  have bk: "seek_f (- 24 - sint (of_nat (length ?s) :: u64)) SEEK_CUR (x\<lparr>xc_f := file_at d (k + 8 + 8 + 8)\<rparr>) = x\<lparr>xc_f := file_at d p\<rparr>"
    unfolding sp by (simp add: seek_f_def fstReaderFseeko_def fseeko_def Let_def k_def file_at_def nat_diff_distrib')
  have at': "drop p d = ?s @ (be_loop 8 (of_nat (length tb)) @ be_loop 8 (of_nat (length ?s)) @ be_loop 8 (ucast cnt) @ post)"
    using at by (simp add: times_part_def del: be_loop.simps)
  have sec: "section_f up (length tb) (length ?s) (x\<lparr>xc_f := file_at d p\<rparr>) = Inr (tb, x\<lparr>xc_f := file_at d (p + length ?s)\<rparr>)"
    using section_f_squeezed [OF _ at' un mal, of "x\<lparr>xc_f := file_at d p\<rparr>"] by simp
  have "length ds < 2 ^ 32" using tb(2) unat_u32 [of cnt] by simp
  then have ti: "time_items (time_rounds (ucast cnt) tb) tb 0 = Inr (sums_from 0 ds)"
    using time_items_varints [of ds "[]" 0] tb(1) u(3) by (simp add: time_rounds_def)
  have b1: "u64_f up (x\<lparr>xc_f := file_at d k\<rparr>) = (of_nat (length tb), x\<lparr>xc_f := file_at d (k + 8)\<rparr>)"
    using u64_at [OF _ a1, of "x\<lparr>xc_f := file_at d k\<rparr>"] by simp
  have b2: "u64_f up (x\<lparr>xc_f := file_at d (k + 8)\<rparr>) = (of_nat (length ?s), x\<lparr>xc_f := file_at d (k + 8 + 8)\<rparr>)"
    using u64_at [OF _ a2, of "x\<lparr>xc_f := file_at d (k + 8)\<rparr>"] by simp
  have b3: "u64_f up (x\<lparr>xc_f := file_at d (k + 8 + 8)\<rparr>) = (ucast cnt, x\<lparr>xc_f := file_at d (k + 8 + 8 + 8)\<rparr>)"
    using u64_at [OF _ a3, of "x\<lparr>xc_f := file_at d (k + 8 + 8)\<rparr>"] by simp
  show ?thesis
    unfolding rvat_times_def Let_def si seek_f_at [OF f] b1 b2 b3 prod.case bk u sec andthen_simps ti by blast
qed


lemma rvat_frame_ok:
  assumes f: "xc_f (rv_xc rv) = file_at d q" and at: "drop p d = frame_part pk mem fm @ varint (ucast m :: u64) @ pt # rest"
    and p: "sint (blkpos + 32) = int p" and un: "frame_unpacks up pk mem" and mal: "\<And>n. length (malloc_bytes up n) = n"
    and ml: "length mem < 2 ^ 62"
  defines "vs \<equiv> p + length (frame_part pk mem fm) + length (varint (ucast m :: u64))"
  shows "rvat_frame up blkpos rv = Inr (rv\<lparr>rvat_frame_maxhandle := ucast fm, rvat_frame_data := mem, rvat_vc_maxhandle := ucast m,
      rvat_vc_start := vs, rvat_packtype := uint pt, rv_xc := (rv_xc rv)\<lparr>xc_f := file_at d (vs + 1)\<rparr>\<rparr>)"
proof -
  let ?x = "rv_xc rv" and ?s = "packed_frame pk mem"
  let ?v1 = "varint (of_nat (length mem) :: u64)" and ?v2 = "varint (of_nat (length ?s) :: u64)" and ?v3 = "varint (ucast fm :: u64)"
    and ?v4 = "varint (ucast m :: u64)"
  have a1: "drop p d = ?v1 @ ?v2 @ ?v3 @ ?s @ ?v4 @ pt # rest" using at by (simp add: frame_part_def)
  have a2: "drop (p + length ?v1) d = ?v2 @ ?v3 @ ?s @ ?v4 @ pt # rest" by (rule drop_record [OF a1])
  have a3: "drop (p + length ?v1 + length ?v2) d = ?v3 @ ?s @ ?v4 @ pt # rest" by (rule drop_record [OF a2])
  have a4: "drop (p + length ?v1 + length ?v2 + length ?v3) d = ?s @ ?v4 @ pt # rest" by (rule drop_record [OF a3])
  have a5: "drop (p + length ?v1 + length ?v2 + length ?v3 + length ?s) d = ?v4 @ pt # rest" by (rule drop_record [OF a4])
  have a6: "drop vs d = pt # rest" using drop_record [OF a5] by (simp add: vs_def frame_part_def add.assoc)
  have sl: "length ?s \<le> length mem" by (auto simp: packed_frame_def split: option.split)
  have u: "unat (of_nat (length mem) :: u64) = length mem" "unat (of_nat (length ?s) :: u64) = length ?s"
    using ml sl by (simp_all add: of_nat_inverse [OF refl])
  let ?at = "\<lambda>q. ?x\<lparr>xc_f := file_at d q\<rparr>"
  have r1: "varint64_f (?at p) = Inr (of_nat (length mem), ?at (p + length ?v1))" using varint64_at [OF _ a1, of "?at p"] by simp
  have r2: "varint64_f (?at (p + length ?v1)) = Inr (of_nat (length ?s), ?at (p + length ?v1 + length ?v2))"
    using varint64_at [OF _ a2, of "?at (p + length ?v1)"] by simp
  have r3: "varint64_f (?at (p + length ?v1 + length ?v2)) = Inr (ucast fm, ?at (p + length ?v1 + length ?v2 + length ?v3))"
    using varint64_at [OF _ a3, of "?at (p + length ?v1 + length ?v2)"] by simp
  have eq: "length ?s = length mem \<Longrightarrow> ?s = mem" by (auto simp: packed_frame_def split: option.splits if_splits)
  have ne: "length ?s \<noteq> length mem \<Longrightarrow> uncompress up ?s (length mem) = (mem, True)"
    using un by (auto simp: packed_frame_def frame_unpacks_def split: option.splits if_splits)
  have r4: "section_f up (length mem) (length ?s) (?at (p + length ?v1 + length ?v2 + length ?v3))
    = Inr (mem, ?at (p + length ?v1 + length ?v2 + length ?v3 + length ?s))"
    using section_f_stored [OF _ a4 eq ne mal, of "?at (p + length ?v1 + length ?v2 + length ?v3)"] by simp
  have r5: "varint64_f (?at (p + length ?v1 + length ?v2 + length ?v3 + length ?s)) = Inr (ucast m, ?at vs)"
    using varint64_at [OF _ a5, of "?at (p + length ?v1 + length ?v2 + length ?v3 + length ?s)"]
    by (simp add: vs_def frame_part_def add.assoc)
  have r6: "fgetc (file_at d vs) = (uint pt, file_at d (vs + 1))" using fgetc_u8_Cons(2) [of "file_at d vs" pt rest] a6 by simp
  show ?thesis
    unfolding rvat_frame_def p seek_f_at [OF f] r1 andthen_simps prod.case r2 r3 u r4 r5 Let_def
    by (simp add: r6)
qed

lemma rvat_chains_ok:
  assumes f: "xc_f (rv_xc rv) = file_at d q" and at: "drop p d = idx @ be_loop 8 (of_nat (length idx)) @ rest"
    and e: "unat (blkpos + seclen) = p + length idx + 8 + clen + 24" "p + length idx + 8 + clen + 24 < 2 ^ 62"
    and vs: "rvat_vc_start rv + off = p" and ix: "rvat_index True (rvat_vc_maxhandle rv) (of_nat off) idx = Inr ci"
    and mal: "\<And>n. length (malloc_bytes up n) = n"
  shows "\<exists>q'. rvat_chains up 8 blkpos seclen (of_nat clen) rv = Inr (rv\<lparr>rvat_chain_table := ci_table ci,
      rvat_chain_table_lengths := ci_lens ci, rv_xc := (rv_xc rv)\<lparr>xc_f := file_at d q'\<rparr>\<rparr>)"
proof -
  let ?x = "rv_xc rv" let ?at = "\<lambda>q. ?x\<lparr>xc_f := file_at d q\<rparr>"
  define k where "k = p + length idx"
  have "blkpos + seclen = of_nat (k + 8 + clen + 24)" using eq_of_unat [OF e(1)] by (simp add: k_def)
  then have ip: "blkpos + seclen - 24 - of_nat clen - 8 = of_nat k" by simp
  have si: "sint (of_nat k :: u64) = int k" "sint (of_nat p :: u64) = int p"
    using sint_small(2) [of k] sint_small(2) [of p] e(2) by (simp_all add: k_def)
  have a2: "drop k d = be_loop 8 (of_nat (length idx)) @ rest" using drop_record [OF at] by (simp add: k_def)
  have r1: "u64_f up (?at k) = (of_nat (length idx), ?at (k + 8))" using u64_at [OF _ a2, of "?at k"] by simp
  have ui: "unat (of_nat (length idx) :: u64) = length idx" using e(2) by (simp add: of_nat_inverse [OF refl])
  have pos: "of_nat k - of_nat (length idx) = (of_nat p :: u64)" by (simp add: k_def)
  have r2: "fill_f up (length idx) (?at p) = (idx, ?at (p + length idx))"
    using fill_at [OF _ at refl mal, of "?at p"] by simp
  have s1: "seek_f (int k) SEEK_SET ?x = ?at k" "seek_f (int p) SEEK_SET (?at (k + 8)) = ?at p"
    using seek_f_at [OF f] seek_f_at [of "?at (k + 8)" d "k + 8"] by simp_all
  have off: "(of_nat p :: u64) - of_nat (rvat_vc_start rv) = of_nat off" using vs by auto
  show ?thesis
    unfolding rvat_chains_def Let_def ip si s1 r1 prod.case ui pos r2 off
    by (simp add: ix) blast
qed


text \<open>The block as a whole. \<open>runs_at\<close> is where its runs start, with the tag of the packer in front.\<close>

definition runs_at :: "nat \<Rightarrow> bytes \<Rightarrow> u32 \<Rightarrow> nat" where
  "runs_at p frame m = p + 33 + length frame + length (varint (ucast m :: u64))"

lemma block_in_file:
  assumes "drop p d = section_bytes tag (block_payload beg fin memreq frame m pt runs idx tsec) @ post"
  shows "drop (p + 9) d = be_loop 8 beg @ be_loop 8 fin @ be_loop 8 memreq @ frame @ varint (ucast m :: u64) @ pt # runs @ idx
      @ be_loop 8 (of_nat (length idx)) @ tsec @ post"
    and "drop (p + 33) d = frame @ varint (ucast m :: u64) @ pt # runs @ idx @ be_loop 8 (of_nat (length idx)) @ tsec @ post"
    and "drop (runs_at p frame m) d = pt # runs @ idx @ be_loop 8 (of_nat (length idx)) @ tsec @ post"
    and "drop (runs_at p frame m + 1 + length runs) d = idx @ be_loop 8 (of_nat (length idx)) @ tsec @ post"
    and "drop (runs_at p frame m + 1 + length runs + length idx + 8) d = tsec @ post"
    and "p + 9 + length (block_payload beg fin memreq frame m pt runs idx tsec)
      = runs_at p frame m + 1 + length runs + length idx + 8 + length tsec"
proof -
  let ?pay = "block_payload beg fin memreq frame m pt runs idx tsec" and ?vm = "varint (ucast m :: u64)"
  have "drop p d = (tag # be_loop 8 (of_nat (8 + length ?pay))) @ ?pay @ post"
    using assms by (simp add: section_bytes_def del: be_loop.simps)
  from drop_record [OF this] have 0: "drop (p + 9) d = ?pay @ post" by simp
  then show 1: "drop (p + 9) d = be_loop 8 beg @ be_loop 8 fin @ be_loop 8 memreq @ frame @ ?vm @ pt # runs @ idx
      @ be_loop 8 (of_nat (length idx)) @ tsec @ post"
    by (simp add: block_payload_def del: be_loop.simps)
  then have "drop (p + 9) d = (be_loop 8 beg @ be_loop 8 fin @ be_loop 8 memreq) @ frame @ ?vm @ pt # runs @ idx
      @ be_loop 8 (of_nat (length idx)) @ tsec @ post"
    by (simp del: be_loop.simps)
  from drop_record [OF this] show 2: "drop (p + 33) d = frame @ ?vm @ pt # runs @ idx @ be_loop 8 (of_nat (length idx)) @ tsec @ post"
    by (simp add: add.commute)
  then have "drop (p + 33) d = (frame @ ?vm) @ pt # runs @ idx @ be_loop 8 (of_nat (length idx)) @ tsec @ post" by simp
  from drop_record [OF this] show 3: "drop (runs_at p frame m) d = pt # runs @ idx @ be_loop 8 (of_nat (length idx)) @ tsec @ post"
    by (simp add: runs_at_def add.assoc)
  then have "drop (runs_at p frame m) d = (pt # runs) @ idx @ be_loop 8 (of_nat (length idx)) @ tsec @ post" by simp
  from drop_record [OF this] show 4: "drop (runs_at p frame m + 1 + length runs) d = idx @ be_loop 8 (of_nat (length idx)) @ tsec @ post"
    by (simp add: add.assoc)
  then have "drop (runs_at p frame m + 1 + length runs) d = (idx @ be_loop 8 (of_nat (length idx))) @ tsec @ post" by simp
  from drop_record [OF this] show "drop (runs_at p frame m + 1 + length runs + length idx + 8) d = tsec @ post"
    by (simp add: add.assoc)
  show "p + 9 + length ?pay = runs_at p frame m + 1 + length runs + length idx + 8 + length tsec"
    by (simp add: block_payload_def runs_at_def)
qed

lemma rvat_load_ok:
  assumes f: "xc_f (rv_xc rv) = file_at d q" and len: "length d < 2 ^ 62"
    and at: "drop p d = section_bytes FST_BL_VCDATA_DYN_ALIAS2 pay @ post"
    and pay: "pay = block_payload beg fin memreq (frame_part pk mem fm) m pt runs idx (times_part pk tb cnt)"
    and q: "q = p + 25"
    and ix: "chain_index True (ucast m) (of_nat (1 + length runs)) idx no_tables = Inr (Some ci)" "m \<noteq> 0"
    and tb: "tb = concat (map varint ds)" "unat cnt = length ds" "length tb < 2 ^ 62" "length mem < 2 ^ 62"
    and un: "unpacks up pk tb" "frame_unpacks up pk mem" and mal: "\<And>n. length (malloc_bytes up n) = n"
  shows "\<exists>q'. rvat_load up (of_nat p + 1, of_nat (8 + length pay), 8, beg, fin) rv = Inr (rv\<lparr>rvat_beg_tim := beg, rvat_end_tim := fin,
      rvat_time_table := sums_from 0 ds, rvat_frame_maxhandle := ucast fm, rvat_frame_data := mem, rvat_vc_maxhandle := ucast m,
      rvat_vc_start := runs_at p (frame_part pk mem fm) m, rvat_packtype := uint pt,
      rvat_chain_table := ci_table ci, rvat_chain_table_lengths := ci_lens ci, rvat_data_valid := True,
      rv_xc := (rv_xc rv)\<lparr>xc_f := file_at d q'\<rparr>\<rparr>)"
proof -
  let ?x = "rv_xc rv" and ?fr = "frame_part pk mem fm" and ?ts = "times_part pk tb cnt" let ?vs = "runs_at p ?fr m"
  note b = block_in_file [OF at [unfolded pay]]
  define tp where "tp = ?vs + 1 + length runs + length idx + 8"
  have b5: "drop tp d = ?ts @ post" using b(5) by (simp only: tp_def)
  have b6: "p + 9 + length pay = tp + length ?ts" using b(6) by (simp only: tp_def pay)
  have "drop tp d \<noteq> []" unfolding b5 by (simp add: times_part_def be_loop_8_not_Nil del: be_loop.simps)
  then have "tp < length d" by simp
  then have lt: "tp + length ?ts \<le> length d" using arg_cong [OF b5, of length] by simp
  have e: "unat ((of_nat p + 1 :: u64) + of_nat (8 + length pay)) = tp + length ?ts"
  proof -
    have "(of_nat p + 1 :: u64) + of_nat (8 + length pay) = of_nat (p + 9 + length pay)" by simp
    then have "(of_nat p + 1 :: u64) + of_nat (8 + length pay) = of_nat (tp + length ?ts)" by (simp only: b6)
    then show ?thesis using lt len by (simp add: of_nat_inverse)
  qed
  have lt62: "tp + length ?ts < 2 ^ 62" using lt len by simp
  have bp: "sint ((of_nat p + 1 :: u64) + 32) = int (p + 33)"
  proof -
    have "p + 33 < 2 ^ 63" using b6 lt62 unfolding tp_def runs_at_def by simp
    moreover have "(of_nat p + 1 :: u64) + 32 = of_nat (p + 33)" by simp
    ultimately show ?thesis using sint_small(2) [of "p + 33"] by (simp only:)
  qed
  have a25: "drop (p + 25) d = be_loop 8 memreq @ ?fr @ varint (ucast m :: u64) @ pt # runs @ idx @ be_loop 8 (of_nat (length idx)) @ ?ts @ post"
    using drop_record [of "p + 9" d "be_loop 8 beg @ be_loop 8 fin"] b(1) by (simp add: add.commute del: be_loop.simps)
  define rv1 where "rv1 = rv\<lparr>rvat_beg_tim := beg, rvat_end_tim := fin\<rparr>"
  have r0: "u64_f up (rv_xc rv1) = (memreq, ?x\<lparr>xc_f := file_at d (p + 33)\<rparr>)"
    using u64_at [OF f, of memreq] a25 q by (simp add: rv1_def)
  obtain q1 where r1: "rvat_times up (of_nat p + 1) (of_nat (8 + length pay)) (?x\<lparr>xc_f := file_at d (p + 33)\<rparr>)
      = Inr (of_nat (length (squeezed pk tb)), sums_from 0 ds, ?x\<lparr>xc_f := file_at d q1\<rparr>)"
    using rvat_times_ok [OF _ b5 e lt62 tb(1,2) un(1) mal tb(3), of "?x\<lparr>xc_f := file_at d (p + 33)\<rparr>" "p + 33"] by auto
  define rv2 where "rv2 = rv1\<lparr>rvat_time_table := sums_from 0 ds, rv_xc := ?x\<lparr>xc_f := file_at d q1\<rparr>\<rparr>"
  define rv3 where "rv3 = rv2\<lparr>rvat_frame_maxhandle := ucast fm, rvat_frame_data := mem, rvat_vc_maxhandle := ucast m,
      rvat_vc_start := ?vs, rvat_packtype := uint pt, rv_xc := ?x\<lparr>xc_f := file_at d (?vs + 1)\<rparr>\<rparr>"
  have vs: "p + 33 + length ?fr + length (varint (ucast m :: u64)) = ?vs" by (simp add: runs_at_def)
  have r2: "rvat_frame up (of_nat p + 1) rv2 = Inr rv3"
    using rvat_frame_ok [OF _ b(2) bp un(2) mal tb(4), of rv2 q1] unfolding vs by (simp add: rv2_def rv3_def)
  have cl: "length ?ts = length (squeezed pk tb) + 24" by (simp add: times_part_def)
  have e': "unat ((of_nat p + 1 :: u64) + of_nat (8 + length pay)) = ?vs + 1 + length runs + length idx + 8 + length (squeezed pk tb) + 24"
    "?vs + 1 + length runs + length idx + 8 + length (squeezed pk tb) + 24 < 2 ^ 62"
    using e lt62 by (simp_all add: tp_def cl)
  have ixr: "rvat_index True (rvat_vc_maxhandle rv3) (of_nat (1 + length runs)) idx = Inr ci"
  proof -
    have "(ucast m :: u64) \<noteq> 0" using ix(2) unat_ucast_64 [of m] by (metis unat_0 unat_eq_zero)
    then show ?thesis using rvat_index_eq [OF ix(1)] by (simp add: rv3_def)
  qed
  have "rvat_vc_start rv3 + (1 + length runs) = ?vs + 1 + length runs" by (simp add: rv3_def)
  from rvat_chains_ok [OF _ b(4) e' this ixr mal, of "?vs + 1"] obtain q2 where
    r3: "rvat_chains up 8 (of_nat p + 1) (of_nat (8 + length pay)) (of_nat (length (squeezed pk tb))) rv3
      = Inr (rv3\<lparr>rvat_chain_table := ci_table ci, rvat_chain_table_lengths := ci_lens ci, rv_xc := (rv_xc rv3)\<lparr>xc_f := file_at d q2\<rparr>\<rparr>)"
    by (auto simp: rv3_def)
  show ?thesis
    unfolding rvat_load_def prod.case Let_def rv1_def [symmetric] r0 r1 andthen_simps rv2_def [symmetric] r2 r3
    by (rule exI [of _ q2]) (simp add: rv3_def rv2_def rv1_def)
qed

end
