(* ===== verification/Rvat_Query.thy ===== *)
theory Rvat_Query
  imports Rvat_Load
begin

text \<open>
  The value at a time, on a whole file: a list of sections, some of them value change blocks as the
  flush writes them, and any sequence of queries.
\<close>

section \<open>Files of sections\<close>

text \<open>
  A block, by what the writer had when it was flushed: the context with the packing, the histories
  of the handles, the frame and its number of handles, the time distances.
\<close>

record vblock =
  vb_beg :: u64
  vb_fin :: u64
  vb_mem :: u64
  vb_frame :: bytes
  vb_fm :: u32
  vb_m :: u32
  vb_writer :: fstWriterContext
  vb_hist :: "nat \<Rightarrow> (u32 \<times> bytes) list"
  vb_dist :: "u64 list"

definition vb_times :: "vblock \<Rightarrow> u64 list" where
  "vb_times b = sums_from 0 (vb_dist b)"

definition vblock_payload :: "packers \<Rightarrow> vblock \<Rightarrow> bytes" where
  "vblock_payload pk b = block_payload (vb_beg b) (vb_fin b) (vb_mem b) (frame_part pk (vb_frame b) (vb_fm b)) (vb_m b)
     (pack_type (vb_writer b)) (block_runs pk (vb_writer b) (vb_hist b) (unat (vb_m b)))
     (block_index pk (vb_writer b) (vb_hist b) (unat (vb_m b)))
     (times_part pk (concat (map varint (vb_dist b))) (of_nat (length (vb_dist b))))"

datatype fsec = Other u8 bytes | Block vblock

definition sec_bytes :: "packers \<Rightarrow> fsec \<Rightarrow> bytes" where
  "sec_bytes pk s = (case s of Other tag p \<Rightarrow> section_bytes tag p
     | Block b \<Rightarrow> section_bytes FST_BL_VCDATA_DYN_ALIAS2 (vblock_payload pk b))"

definition file_bytes :: "packers \<Rightarrow> fsec list \<Rightarrow> bytes" where
  "file_bytes pk secs = concat (map (sec_bytes pk) secs)"

definition sec_plain :: "fsec \<Rightarrow> bool" where
  "sec_plain s \<longleftrightarrow> (case s of Other tag p \<Rightarrow> tag \<notin> {1, 5, 8, 255} | Block b \<Rightarrow> True)"

definition covers :: "u64 \<Rightarrow> fsec \<Rightarrow> bool" where
  "covers tim s \<longleftrightarrow> (case s of Other tag p \<Rightarrow> False | Block b \<Rightarrow> vb_beg b \<le> tim \<and> tim \<le> vb_fin b)"

text \<open>The block that serves a time.\<close>

definition block_for :: "u64 \<Rightarrow> fsec list \<Rightarrow> vblock option" where
  "block_for tim secs = (case List.find (covers tim) secs of Some (Block b) \<Rightarrow> Some b | _ \<Rightarrow> None)"

section \<open>Looking for the block\<close>

lemma u64_f_frame: "\<exists>f. snd (u64_f up xc) = xc\<lparr>xc_f := f\<rparr> \<and> f_data f = f_data (xc_f xc)"
  by (simp add: u64_f_def fstReaderUint64_def fstFread_def fread_bytes_def Let_def case_prod_beta)
    (rule exI [of _ "snd (snd (fstFread 8 (xc_f xc)))"], simp add: fstFread_def fread_bytes_def Let_def)

lemma head_at:
  assumes "xc_f x = file_at d q" and "drop p d = section_bytes tag pay @ post" and "length d < 2 ^ 62"
  shows "seek_f (sint (of_nat p :: u64)) SEEK_SET x = x\<lparr>xc_f := file_at d p\<rparr>"
    and "fgetc (file_at d p) = (uint tag, file_at d (p + 1))"
    and "u64_f up (x\<lparr>xc_f := file_at d (p + 1)\<rparr>) = (of_nat (8 + length pay), x\<lparr>xc_f := file_at d (p + 9)\<rparr>)"
    and "unat (of_nat (8 + length pay) :: u64) = 8 + length pay" and "p + 9 + length pay \<le> length d"
    and "drop (p + 9) d = pay @ post"
proof -
  have a0: "drop p d = tag # be_loop 8 (of_nat (8 + length pay)) @ pay @ post"
    using assms(2) by (simp add: section_bytes_def del: be_loop.simps)
  have a1: "drop (p + 1) d = be_loop 8 (of_nat (8 + length pay)) @ pay @ post" using drop_record [of p d "[tag]"] a0 by simp
  show "drop (p + 9) d = pay @ post" using drop_record [OF a1] by (simp add: add.commute)
  have "p < length d" using assms(2) by (metis append_is_Nil_conv drop_all leI length_0_conv length_section_bytes add_is_0 zero_neq_numeral)
  then show le: "p + 9 + length pay \<le> length d" using arg_cong [OF assms(2), of length] by simp
  then have "sint (of_nat p :: u64) = int p" using sint_small(2) [of p] assms(3) by simp
  then show "seek_f (sint (of_nat p :: u64)) SEEK_SET x = x\<lparr>xc_f := file_at d p\<rparr>" using seek_f_at [OF assms(1), of p] by (simp only:)
  show "fgetc (file_at d p) = (uint tag, file_at d (p + 1))" using fgetc_u8_Cons(2) [of "file_at d p"] a0 by simp
  show "u64_f up (x\<lparr>xc_f := file_at d (p + 1)\<rparr>) = (of_nat (8 + length pay), x\<lparr>xc_f := file_at d (p + 9)\<rparr>)"
    using u64_at [OF _ a1, of "x\<lparr>xc_f := file_at d (p + 1)\<rparr>"] by (simp add: add.commute)
  show "unat (of_nat (8 + length pay) :: u64) = 8 + length pay" by (rule of_nat_inverse [OF refl]) (use le assms(3) in simp)
qed

lemma look_head:
  assumes "xc_f x = file_at d q" and "drop p d = section_bytes tag pay @ post" and "length d < 2 ^ 62" and t: "tag \<noteq> 255"
  defines "n \<equiv> of_nat (8 + length pay) :: u64" and "x9 \<equiv> x\<lparr>xc_f := file_at d (p + 9)\<rparr>"
  shows "rvat_look up tim (of_nat p) x =
    (if uint tag \<notin> {1, 5, 8} then (Look_on (of_nat p + 1 + n), x9)
     else let (beg_tim, xc) = u64_f up x9; (end_tim, xc) = u64_f up xc
          in if beg_tim \<le> tim \<and> tim \<le> end_tim
             then if tim = end_tim \<and> tim \<noteq> end_time xc
                  then let cached_pos = ftello (xc_f xc); xc = seek_f (sint (of_nat p + 1 :: u64)) SEEK_SET xc;
                           (sectype, f) = fgetc (xc_f xc); (seclen, xc) = u64_f up (xc\<lparr>xc_f := f\<rparr>);
                           (beg_tim2, xc) = u64_f up xc; (end_tim2, xc) = u64_f up xc
                       in if sectype \<notin> {1, 5, 8} \<or> seclen = 0 \<or> beg_tim2 \<noteq> tim
                          then (Look_block (of_nat p) seclen sectype beg_tim end_tim, xc)
                          else (Look_block (of_nat p + 1) seclen sectype beg_tim2 end_tim2, seek_f (int cached_pos) SEEK_SET xc)
                  else (Look_block (of_nat p + 1) n (uint tag) beg_tim end_tim, xc)
             else (Look_on (of_nat p + 1 + n), xc))"
proof -
  note h = head_at [OF assms(1-3)]
  have ut: "uint tag \<noteq> -1" using uint_ge_0 [of tag] by linarith
  have un: "uint tag \<noteq> uint FST_BL_SKIP" using t by (auto simp: word_uint_eq_iff)
  have nz: "n \<noteq> 0" using h(4) unfolding n_def by (metis add_eq_0_iff_both_eq_0 unat_0 zero_neq_numeral)
  have xf: "xc_f (x\<lparr>xc_f := f\<rparr>) = f" "x\<lparr>xc_f := f, xc_f := g\<rparr> = x\<lparr>xc_f := g\<rparr>" for f g by simp_all
  have no: "\<not> (uint tag = -1 \<or> uint tag = uint FST_BL_SKIP \<or> n = 0)" using ut un nz by blast
  show ?thesis
    unfolding rvat_look_def h(1) Let_def xf h(2) prod.case h(3) n_def [symmetric] x9_def [symmetric] if_not_P [OF no] ..
qed

lemma look_on_pos: "(of_nat p + 1 + of_nat (8 + k) :: u64) = of_nat (p + 9 + k)"
  by simp

lemma look_other:
  assumes "xc_f x = file_at d q" and "drop p d = section_bytes tag pay @ post" and "length d < 2 ^ 62" and t: "tag \<notin> {1, 5, 8, 255}"
  shows "rvat_look up tim (of_nat p) x = (Look_on (of_nat (p + 9 + length pay)), x\<lparr>xc_f := file_at d (p + 9)\<rparr>)"
proof -
  have "tag \<noteq> 255" "uint tag \<notin> {1, 5, 8}" using t by (auto simp: word_uint_eq_iff)
  then show ?thesis using look_head [OF assms(1-3), of up tim] by (simp only: look_on_pos if_True not_False_eq_True)
qed

lemma look_times:
  assumes "drop p d = section_bytes tag (block_payload beg fin memreq frame m pt runs idx tsec) @ post"
  shows "u64_f up (x\<lparr>xc_f := file_at d (p + 9)\<rparr>) = (beg, x\<lparr>xc_f := file_at d (p + 17)\<rparr>)"
    and "u64_f up (x\<lparr>xc_f := file_at d (p + 17)\<rparr>) = (fin, x\<lparr>xc_f := file_at d (p + 25)\<rparr>)"
proof -
  note b = block_in_file(1) [OF assms]
  show "u64_f up (x\<lparr>xc_f := file_at d (p + 9)\<rparr>) = (beg, x\<lparr>xc_f := file_at d (p + 17)\<rparr>)"
    using u64_at [OF _ b, of "x\<lparr>xc_f := file_at d (p + 9)\<rparr>"] by (simp add: add.commute)
  show "u64_f up (x\<lparr>xc_f := file_at d (p + 17)\<rparr>) = (fin, x\<lparr>xc_f := file_at d (p + 25)\<rparr>)"
    using u64_at [OF _ drop_record [OF b], of "x\<lparr>xc_f := file_at d (p + 17)\<rparr>"] by (simp add: add.commute)
qed

lemma look_block:
  assumes "xc_f x = file_at d q" and "drop p d = section_bytes FST_BL_VCDATA_DYN_ALIAS2 pay @ post" and "length d < 2 ^ 62"
    and pay: "pay = block_payload beg fin memreq frame m pt runs idx tsec"
    and e: "beg \<le> tim \<and> tim \<le> fin \<longrightarrow> tim \<noteq> fin \<or> tim = end_time x"
  shows "rvat_look up tim (of_nat p) x =
    (if beg \<le> tim \<and> tim \<le> fin then Look_block (of_nat p + 1) (of_nat (8 + length pay)) 8 beg fin
     else Look_on (of_nat (p + 9 + length pay)), x\<lparr>xc_f := file_at d (p + 25)\<rparr>)"
proof -
  have t: "FST_BL_VCDATA_DYN_ALIAS2 \<noteq> 255" "\<not> uint FST_BL_VCDATA_DYN_ALIAS2 \<notin> {1, 5, 8}" "uint FST_BL_VCDATA_DYN_ALIAS2 = 8"
    by simp_all
  have e8: "((8 :: int) \<notin> {1, 5, 8}) = False" by simp
  have g: "\<not> (tim = fin \<and> tim \<noteq> end_time (x\<lparr>xc_f := file_at d (p + 25)\<rparr>))" if "beg \<le> tim \<and> tim \<le> fin"
    using e that by simp
  show ?thesis
    using g look_head [OF assms(1-3) t(1), of up tim]
    unfolding if_not_P [OF t(2)] look_times [OF assms(2) [unfolded pay]] Let_def prod.case look_on_pos t(3)
    by (cases "beg \<le> tim \<and> tim \<le> fin") (simp_all only: if_True if_False simp_thms e8)
qed


text \<open>The end of the file.\<close>

lemma look_end:
  assumes "xc_f x = file_at d q" and "length d < 2 ^ 62"
  shows "\<exists>f. rvat_look up tim (of_nat (length d)) x = (Look_none, x\<lparr>xc_f := f\<rparr>) \<and> f_data f = d"
proof -
  have "sint (of_nat (length d) :: u64) = int (length d)" using sint_small(2) [of "length d"] assms(2) by simp
  then have s: "seek_f (sint (of_nat (length d) :: u64)) SEEK_SET x = x\<lparr>xc_f := file_at d (length d)\<rparr>"
    using seek_f_at [OF assms(1), of "length d"] by (simp only:)
  have g: "fgetc (file_at d (length d)) = (-1, (file_at d (length d))\<lparr>f_eof := True\<rparr>)" by (simp add: fgetc_def)
  obtain v x' where u: "u64_f up (x\<lparr>xc_f := (file_at d (length d))\<lparr>f_eof := True\<rparr>\<rparr>) = (v, x')" by fastforce
  obtain f where f: "x' = x\<lparr>xc_f := f\<rparr>" "f_data f = d"
    using u64_f_frame [of up "x\<lparr>xc_f := (file_at d (length d))\<lparr>f_eof := True\<rparr>\<rparr>"] u by auto
  show ?thesis using s g u f by (intro exI [of _ f]) (simp add: rvat_look_def)
qed

text \<open>What is at the places of the file.\<close>

lemma find_walks:
  assumes "length d < 2 ^ 62" and "\<forall>s \<in> set secs. sec_plain s" and "drop p d = file_bytes pk secs" and "p \<le> length d"
    and "xc_f x = file_at d q"
    and e: "\<And>b. block_for tim secs = Some b \<Longrightarrow> tim \<noteq> vb_fin b \<or> tim = end_time x"
  shows "\<exists>f. f_data f = d \<and> (case block_for tim secs of
      None \<Rightarrow> rvat_find up tim (of_nat p) x = Some (None, x\<lparr>xc_f := f\<rparr>)
    | Some b \<Rightarrow> (\<exists>p' post. rvat_find up tim (of_nat p) x
          = Some (Some (of_nat p' + 1, of_nat (8 + length (vblock_payload pk b)), 8, vb_beg b, vb_fin b), x\<lparr>xc_f := f\<rparr>)
        \<and> f = file_at d (p' + 25) \<and> drop p' d = section_bytes FST_BL_VCDATA_DYN_ALIAS2 (vblock_payload pk b) @ post))"
  using assms(2-6)
proof (induction secs arbitrary: p q x)
  case Nil
  then have "p = length d" by (simp add: file_bytes_def)
  then show ?case
    using look_end [OF Nil.prems(4) assms(1), of up tim] by (subst rvat_find.simps) (auto simp: block_for_def)
next
  case (Cons s secs)
  have fb: "drop p d = sec_bytes pk s @ file_bytes pk secs" using Cons.prems(2) by (simp add: file_bytes_def)
  obtain tag pay where sp: "sec_bytes pk s = section_bytes tag pay" "\<And>t p. s = Other t p \<Longrightarrow> tag = t \<and> pay = p"
    "\<And>b. s = Block b \<Longrightarrow> tag = FST_BL_VCDATA_DYN_ALIAS2 \<and> pay = vblock_payload pk b"
    by (cases s) (simp_all add: sec_bytes_def)
  have at: "drop p d = section_bytes tag pay @ file_bytes pk secs" using fb sp(1) by simp
  have nx: "drop (p + 9 + length pay) d = file_bytes pk secs"
    using drop_record [OF at] by (simp add: add.assoc)
  have le: "p + 9 + length pay \<le> length d" by (rule head_at(5) [OF Cons.prems(4) at assms(1)])
  have on: ?case if l: "rvat_look up tim (of_nat p) x = (Look_on (of_nat (p + 9 + length pay)), x\<lparr>xc_f := file_at d q'\<rparr>)"
    and nc: "\<not> covers tim s" for q'
  proof -
    have xf: "x\<lparr>xc_f := f, xc_f := g\<rparr> = x\<lparr>xc_f := g\<rparr>" for f g by simp
    have bf: "block_for tim (s # secs) = block_for tim secs" using nc by (simp add: block_for_def)
    have eq: "rvat_find up tim (of_nat p) x = rvat_find up tim (of_nat (p + 9 + length pay)) (x\<lparr>xc_f := file_at d q'\<rparr>)"
      by (subst rvat_find.simps) (simp add: l del: of_nat_add)
    obtain f where f: "f_data f = d" "case block_for tim secs of
        None \<Rightarrow> rvat_find up tim (of_nat (p + 9 + length pay)) (x\<lparr>xc_f := file_at d q'\<rparr>) = Some (None, x\<lparr>xc_f := f\<rparr>)
      | Some b \<Rightarrow> (\<exists>p' post. rvat_find up tim (of_nat (p + 9 + length pay)) (x\<lparr>xc_f := file_at d q'\<rparr>)
            = Some (Some (of_nat p' + 1, of_nat (8 + length (vblock_payload pk b)), 8, vb_beg b, vb_fin b), x\<lparr>xc_f := f\<rparr>)
          \<and> f = file_at d (p' + 25) \<and> drop p' d = section_bytes FST_BL_VCDATA_DYN_ALIAS2 (vblock_payload pk b) @ post)"
    proof -
      have "\<forall>s \<in> set secs. sec_plain s" using Cons.prems(1) by simp
      moreover have "xc_f (x\<lparr>xc_f := file_at d q'\<rparr>) = file_at d q'" by simp
      moreover have "tim \<noteq> vb_fin b \<or> tim = end_time (x\<lparr>xc_f := file_at d q'\<rparr>)" if "block_for tim secs = Some b" for b
        using Cons.prems(5) [of b] that by (simp add: bf)
      ultimately show ?thesis using Cons.IH [OF _ nx le, of "x\<lparr>xc_f := file_at d q'\<rparr>" q'] that by (simp only: xf) blast
    qed
    show ?thesis unfolding bf eq using f by blast
  qed
  show ?case
  proof (cases s)
    case (Other t p0)
    then have "tag \<notin> {1, 5, 8, 255}" using Cons.prems(1) sp(2) by (simp add: sec_plain_def)
    from on [OF look_other [OF Cons.prems(4) at assms(1) this]] show ?thesis using Other by (simp add: covers_def)
  next
    case (Block b)
    then have tp: "tag = FST_BL_VCDATA_DYN_ALIAS2" "pay = vblock_payload pk b" using sp(3) by blast+
    note at' = at [unfolded tp(1)]
    have e: "vb_beg b \<le> tim \<and> tim \<le> vb_fin b \<longrightarrow> tim \<noteq> vb_fin b \<or> tim = end_time x"
    proof
      assume "vb_beg b \<le> tim \<and> tim \<le> vb_fin b"
      then have "block_for tim (s # secs) = Some b" using Block by (simp add: block_for_def covers_def)
      then show "tim \<noteq> vb_fin b \<or> tim = end_time x" by (rule Cons.prems(5))
    qed
    note l = look_block [OF Cons.prems(4) at' assms(1) tp(2) [unfolded vblock_payload_def] e, of up]
    show ?thesis
    proof (cases "vb_beg b \<le> tim \<and> tim \<le> vb_fin b")
      case False
      then show ?thesis using on [of "p + 25"] l Block by (simp add: covers_def)
    next
      case True
      then have "block_for tim (s # secs) = Some b" using Block by (simp add: block_for_def covers_def)
      moreover have "rvat_find up tim (of_nat p) x = Some (Some (of_nat p + 1, of_nat (8 + length pay), 8, vb_beg b, vb_fin b),
          x\<lparr>xc_f := file_at d (p + 25)\<rparr>)"
        using True by (subst rvat_find.simps) (simp add: l)
      ultimately show ?thesis using at' tp(2) by (intro exI [of _ "file_at d (p + 25)"]) auto
    qed
  qed
qed


section \<open>A block that can be loaded\<close>

definition vblock_ok :: "unpackers \<Rightarrow> packers \<Rightarrow> fstReaderContext \<Rightarrow> vblock \<Rightarrow> bool" where
  "vblock_ok up pk xc b \<longleftrightarrow>
     (let m = unat (vb_m b); w = vb_writer b; G = vb_hist b; ts = vb_times b; lens = signal_lens xc
      in writer_ready (length ts) w m G \<and> packs_back up (uint (pack_type w)) pk w m G
         \<and> 1 + length (block_runs pk w G m) < 2 ^ 31 \<and> m \<le> length lens \<and> m \<le> length (signal_typs xc)
         \<and> (\<forall>t < m. lens ! t = valpos w ! (4 * t + 1)
              \<and> (lens ! t \<noteq> 1 \<and> signal_typs xc ! t = FST_VT_VCD_REAL \<longrightarrow> lens ! t = 8))
         \<and> sorted ts \<and> length (concat (map varint (vb_dist b))) < 2 ^ 62
         \<and> unpacks up pk (concat (map varint (vb_dist b))) \<and> frame_unpacks up pk (vb_frame b)
         \<and> (\<forall>x < unat (vb_fm b). (\<Sum>n \<leftarrow> take (Suc x) lens. unat n) \<le> length (vb_frame b)) \<and> length (vb_frame b) < 2 ^ 32)"

definition loaded_for :: "unpackers \<Rightarrow> vblock \<Rightarrow> rvat \<Rightarrow> bool" where
  "loaded_for up b rv \<longleftrightarrow> block_loaded up (unat (vb_m b)) (vb_hist b) rv \<and> rvat_time_table rv = vb_times b
     \<and> rvat_beg_tim rv = vb_beg b \<and> rvat_end_tim rv = vb_fin b \<and> rvat_frame_data rv = vb_frame b
     \<and> rvat_frame_maxhandle rv = ucast (vb_fm b)"

lemma length_sums_from [simp]: "length (sums_from t ds) = length ds"
  by (induction ds arbitrary: t) auto

lemma load_block:
  assumes ok: "vblock_ok up pk (rv_xc rv) b" and f: "xc_f (rv_xc rv) = file_at d (p + 25)" and len: "length d < 2 ^ 62"
    and at: "drop p d = section_bytes FST_BL_VCDATA_DYN_ALIAS2 (vblock_payload pk b) @ post"
    and mal: "\<And>n. length (malloc_bytes up n) = n"
  shows "\<exists>rv'. rvat_load up (of_nat p + 1, of_nat (8 + length (vblock_payload pk b)), 8, vb_beg b, vb_fin b) rv = Inr rv'
    \<and> loaded_for up b rv' \<and> rvat_chain_mem rv' = rvat_chain_mem rv \<and> rvat_chain_pos_valid rv' = rvat_chain_pos_valid rv
    \<and> rvat_sig_offs rv' = rvat_sig_offs rv \<and> (\<exists>q. rv_xc rv' = (rv_xc rv)\<lparr>xc_f := file_at d q\<rparr>)"
proof -
  define m where "m = unat (vb_m b)"
  define w where "w = vb_writer b"
  define G where "G = vb_hist b"
  have o: "writer_ready (length (vb_times b)) w m G" "packs_back up (uint (pack_type w)) pk w m G"
    "1 + length (block_runs pk w G m) < 2 ^ 31" "m \<le> length (signal_lens (rv_xc rv))" "m \<le> length (signal_typs (rv_xc rv))"
    "\<forall>t < m. signal_lens (rv_xc rv) ! t = valpos w ! (4 * t + 1)"
    "\<forall>t < m. signal_lens (rv_xc rv) ! t \<noteq> 1 \<and> signal_typs (rv_xc rv) ! t = FST_VT_VCD_REAL \<longrightarrow> signal_lens (rv_xc rv) ! t = 8"
    "sorted (vb_times b)" "length (concat (map varint (vb_dist b))) < 2 ^ 62" "unpacks up pk (concat (map varint (vb_dist b)))"
    "frame_unpacks up pk (vb_frame b)" "length (vb_frame b) < 2 ^ 32"
    using ok by (simp_all add: vblock_ok_def Let_def m_def w_def G_def)
  obtain out cs where lay: "layout (items_of pk w G m) 0 (\<lambda>_. None) 1 = (out, cs)" by fastforce
  then have br: "block_runs pk w G m = out" "block_index pk w G m = idx_enc cs 0 0 0"
    by (simp_all add: block_runs_def block_index_def)
  have w: "\<forall>t < m. handle_ok w t (G t)" "\<forall>t < m. hist_fits (length (vb_times b)) (G t)" "valpos_mapped w"
    "length (vchg_mem w) = unat (vchg_siz w)" "length (vchg_mem w) < 2 ^ 30" "0 < m" "m < 2 ^ 30"
    "length (vb_times b) \<le> 2 ^ 28" "at_end (handle w)"
    using o(1) by (auto simp: writer_ready_def)
  have ob: "1 + length out < 2 ^ 31" using o(3) by (simp add: br)
  have "(7 :: u32) \<noteq> -1" by simp
  from flush_runs_index [OF w(1,3,4,6,7,9) this lay ob] obtain ci where
    ci: "chain_index True (of_nat m) (ucast (of_nat (1 + length out) :: u32)) (idx_enc cs 0 0 0) no_tables = Inr (Some ci)"
    "tables_of cs (of_nat (1 + length out)) ci" by blast
  have um: "(of_nat m :: u64) = ucast (vb_m b)" by (simp add: m_def word_unat_eq_iff unat_ucast_64 of_nat_inverse [OF refl])
  have ul: "(ucast (of_nat (1 + length out) :: u32) :: u64) = of_nat (1 + length out)" by (rule ucast_of_nat_32_64) (use ob in simp)
  have mz: "vb_m b \<noteq> 0" using w(6) by (auto simp: m_def unat_gt_0)
  have pay: "vblock_payload pk b = block_payload (vb_beg b) (vb_fin b) (vb_mem b) (frame_part pk (vb_frame b) (vb_fm b)) (vb_m b)
      (pack_type w) out (idx_enc cs 0 0 0) (times_part pk (concat (map varint (vb_dist b))) (of_nat (length (vb_dist b))))"
    by (simp add: vblock_payload_def m_def [symmetric] w_def [symmetric] G_def [symmetric] br)
  have cnt: "unat (of_nat (length (vb_dist b)) :: u32) = length (vb_dist b)"
    using w(8) by (intro unat_of_nat_32) (simp add: vb_times_def)
  have fl: "length (vb_frame b) < 2 ^ 62" using o(12) by simp
  from rvat_load_ok [OF f len at pay refl ci(1) [unfolded um ul] mz refl cnt o(9) fl o(10,11) mal] obtain q' rv' where
    1: "rvat_load up (of_nat p + 1, of_nat (8 + length (vblock_payload pk b)), 8, vb_beg b, vb_fin b) rv = Inr rv'"
    "rv' = rv\<lparr>rvat_beg_tim := vb_beg b, rvat_end_tim := vb_fin b,
      rvat_time_table := sums_from 0 (vb_dist b), rvat_frame_maxhandle := ucast (vb_fm b), rvat_frame_data := vb_frame b,
      rvat_vc_maxhandle := ucast (vb_m b), rvat_vc_start := runs_at p (frame_part pk (vb_frame b) (vb_fm b)) (vb_m b),
      rvat_packtype := uint (pack_type w), rvat_chain_table := ci_table ci, rvat_chain_table_lengths := ci_lens ci,
      rvat_data_valid := True, rv_xc := (rv_xc rv)\<lparr>xc_f := file_at d q'\<rparr>\<rparr>" by blast
  let ?vs = "runs_at p (frame_part pk (vb_frame b) (vb_fm b)) (vb_m b)"
  note bf = block_in_file [OF at [unfolded pay]]
  define tail where "tail = idx_enc cs 0 0 0 @ be_loop 8 (of_nat (length (idx_enc cs 0 0 0)))
      @ times_part pk (concat (map varint (vb_dist b))) (of_nat (length (vb_dist b))) @ post"
  have dr: "drop ?vs d = pack_type w # out @ tail" using bf(3) by (simp only: tail_def)
  have tl: "5 \<le> length tail" by (simp add: tail_def)
  have "?vs + 1 + length out \<le> length d"
  proof -
    have "drop (?vs + 1 + length out) d = tail" using bf(4) by (simp only: tail_def)
    then show ?thesis using tl by (cases "?vs + 1 + length out \<le> length d") auto
  qed
  then have vl: "?vs + 1 + length out < 2 ^ 63" using len by simp
  have m31: "m < 2 ^ 31" using w(7) by simp
  note agree = conjunct1 [OF o(2) [unfolded packs_back_def]] conjunct2 [OF o(2) [unfolded packs_back_def]]
  have bh: "\<forall>x < m. block_holds up d ?vs (uint (pack_type w)) ci (signal_lens (rv_xc rv)) (length (vb_times b)) (\<lambda>t. chg (G t)) x"
    by (intro allI impI layout_block_holds [OF w(1,2,8,5) lay ob m31 ci(2) agree(1) dr tl vl agree(2) o(6)])
  have "block_loaded up m G rv'"
    using w(2,8) o(4,5,7,8) m31 bh mz unat_ucast_64 [of "vb_m b"]
    by (auto simp: block_loaded_def 1(2) Let_def vb_times_def [symmetric] m_def block_holds_def stored_at_def chain_tables_def)
  then have "loaded_for up b rv'" by (simp add: loaded_for_def 1(2) m_def G_def vb_times_def)
  then show ?thesis using 1 by auto
qed

end
