(* ===== verification/Rvat_Answers.thy ===== *)
theory Rvat_Answers
  imports Rvat_Query
begin

text \<open>
  What the queries answer: a specification on the histories of the blocks of a file, and the theorem
  that any sequence of queries, whatever the cache holds between them, gives it.
\<close>

section \<open>The frame\<close>

lemma nth_sig_offs_from: "x < length ns \<Longrightarrow> sig_offs_from c ns ! x = c + sum_list (take x ns)"
  by (induction ns arbitrary: c x) (auto simp: nth_Cons add.assoc split: nat.split)

lemma length_sig_offs_from [simp]: "length (sig_offs_from c ns) = length ns"
  by (induction ns arbitrary: c) auto

lemma unat_sum_list: "(\<Sum>n \<leftarrow> ns. unat n) < 2 ^ 32 \<Longrightarrow> unat (sum_list ns :: u32) = (\<Sum>n \<leftarrow> ns. unat n)"
proof (induction ns)
  case (Cons n ns)
  then have "unat (sum_list ns) = (\<Sum>n \<leftarrow> ns. unat n)" by simp
  then show ?case using Cons.prems by (simp add: unat_add_lem [THEN iffD1])
qed simp

text \<open>The text of the value that a frame holds for the handle with number \<open>x\<close>.\<close>

definition frame_text :: "(bytes \<Rightarrow> bytes) \<Rightarrow> fstReaderContext \<Rightarrow> bytes \<Rightarrow> nat \<Rightarrow> bytes" where
  "frame_text fmt xc frame x =
     (let n = signal_lens xc ! x; p = (\<Sum>n \<leftarrow> take x (signal_lens xc). unat n)
      in shown_text fmt xc (signal_typs xc ! x) n [] (take (unat n) (drop p frame)))"

definition all_offs :: "fstReaderContext \<Rightarrow> u32 list" where
  "all_offs xc = sig_offs_from 0 (take (unat (fstReaderContext.maxhandle xc)) (signal_lens xc))"

lemma extract_ok:
  assumes x: "x < unat (fstReaderContext.maxhandle (rv_xc rv))" "unat (fstReaderContext.maxhandle (rv_xc rv)) \<le> length (signal_lens (rv_xc rv))"
    "x < length (signal_typs (rv_xc rv))"
    and offs: "rvat_sig_offs rv = Some (all_offs (rv_xc rv))" and ux: "unat (of_nat x :: u32) = x"
    and fr: "(\<Sum>n \<leftarrow> take (Suc x) (signal_lens (rv_xc rv)). unat n) \<le> length (rvat_frame_data rv)" "length (rvat_frame_data rv) < 2 ^ 32"
    and real: "signal_lens (rv_xc rv) ! x \<noteq> 1 \<and> signal_typs (rv_xc rv) ! x = FST_VT_VCD_REAL \<longrightarrow> signal_lens (rv_xc rv) ! x = 8"
    and mh: "rvat_frame_maxhandle rv = ucast (fm :: u32)" "x < unat fm"
    and room: "length (frame_text fmt (rv_xc rv) (rvat_frame_data rv) x) \<le> length buf"
  shows "fstExtractRvatDataFromFrame fmt rv (of_nat x) buf
    = Inr (True, in_buffer (frame_text fmt (rv_xc rv) (rvat_frame_data rv) x) buf)"
proof -
  let ?xc = "rv_xc rv" let ?n = "signal_lens ?xc ! x" and ?fr = "rvat_frame_data rv" and ?ls = "signal_lens ?xc"
  define p where "p = (\<Sum>n \<leftarrow> take x ?ls. unat n)"
  have xl: "x < length ?ls" using x by simp
  have s: "p + unat ?n \<le> length ?fr" using fr(1) xl by (simp add: p_def take_Suc_conv_app_nth)
  have "p < 2 ^ 32" using s fr(2) by linarith
  then have up: "unat (sum_list (take x ?ls)) = p" using unat_sum_list [of "take x ?ls"] by (simp add: p_def)
  have of: "load (all_offs ?xc) x = Inr (sum_list (take x ?ls))"
    using x(1,2) xl by (simp add: all_offs_def load_def nth_sig_offs_from min_def)
  have nm: "\<not> ucast (of_nat x :: u32) \<ge> rvat_frame_maxhandle rv"
    using mh ux by (simp add: word_le_nat_alt unat_ucast_64)
  have t: "load (signal_typs ?xc) x = Inr (signal_typs ?xc ! x)" "load ?ls x = Inr ?n" using x(3) xl by (simp_all add: load_def)
  let ?v = "take (unat ?n) (drop p ?fr)"
  have v: "load_n ?fr p (unat ?n) = Inr ?v" using s by (simp add: load_n_def)
  have ft: "frame_text fmt ?xc ?fr x = shown_text fmt ?xc (signal_typs ?xc ! x) ?n [] ?v"
    by (simp add: frame_text_def Let_def p_def)
  show ?thesis
  proof (cases "?n = 1")
    case True
    then have "p < length ?fr" using s by simp
    then have "load ?fr p = Inr (?fr ! p)" "?v = [?fr ! p]" using True by (simp_all add: load_def take_Suc_conv_app_nth hd_drop_conv_nth take_Suc)
    then show ?thesis using nm of offs ux t up True room ft store_in_buffer [of "[?fr ! p, 0]" buf]
      by (simp add: fstExtractRvatDataFromFrame_def shown_text_def)
  next
    case False
    show ?thesis
    proof (cases "signal_typs ?xc ! x = FST_VT_VCD_REAL")
      case True
      then have "?n = 8" using real False by simp
      then show ?thesis using nm of offs ux t up True room ft v store_in_buffer [of _ buf]
        by (simp add: fstExtractRvatDataFromFrame_def shown_text_def rvat_double_def)
    next
      case F: False
      then show ?thesis using nm of offs ux t up False room ft v store_in_buffer [of "?v @ [0]" buf]
        by (simp add: fstExtractRvatDataFromFrame_def shown_text_def)
    qed
  qed
qed

lemma extract_none:
  assumes "rvat_frame_maxhandle rv = ucast (fm :: u32)" "unat fm \<le> x" and ux: "unat (of_nat x :: u32) = x"
  shows "fstExtractRvatDataFromFrame fmt rv (of_nat x) buf = Inr (False, buf)"
  using assms by (simp add: fstExtractRvatDataFromFrame_def word_le_nat_alt unat_ucast_64)

section \<open>Looking from anywhere\<close>

lemma find_from_start: "f_data (xc_f x) = d \<Longrightarrow> rvat_find up tim 0 x = rvat_find up tim 0 (x\<lparr>xc_f := file_at d 0\<rparr>)"
proof -
  assume d: "f_data (xc_f x) = d"
  have "seek_f (sint (0 :: u64)) SEEK_SET x = seek_f (sint (0 :: u64)) SEEK_SET (x\<lparr>xc_f := file_at d 0\<rparr>)"
    using d seek_f_start [of 0 x] seek_f_start [of 0 "x\<lparr>xc_f := file_at d 0\<rparr>"] by (simp add: file_at_def)
  then have "rvat_look up tim 0 x = rvat_look up tim 0 (x\<lparr>xc_f := file_at d 0\<rparr>)" by (simp only: rvat_look_def)
  then show ?thesis by (subst (1 2) rvat_find.simps) simp
qed


section \<open>What a query should answer\<close>

text \<open>
  The value of a handle at a time in a file: nothing for a handle that does not exist, that has no
  width or that the block does not count, or for a time no block covers; otherwise the newest change
  in the block that is not after the time, or what the frame of the block holds.
\<close>

definition value_at :: "(bytes \<Rightarrow> bytes) \<Rightarrow> fstReaderContext \<Rightarrow> fsec list \<Rightarrow> u64 \<Rightarrow> u32 \<Rightarrow> bytes option" where
  "value_at fmt xc secs tim h =
     (let x = unat h - 1; n = signal_lens xc ! x
      in if h = 0 \<or> fstReaderContext.maxhandle xc < h \<or> n = 0 then None
         else case block_for tim secs of
                None \<Rightarrow> None
              | Some b \<Rightarrow>
                  if unat (vb_m b) \<le> x then None
                  else case value_before (vb_times b) tim (vb_hist b x) of
                         Some v \<Rightarrow> Some (shown_text fmt xc (signal_typs xc ! x) n (c_lit ''r'') (norm_val n v))
                       | None \<Rightarrow> if x < unat (vb_fm b) then Some (frame_text fmt xc (vb_frame b) x) else None)"

definition reply :: "bytes option \<Rightarrow> bytes \<Rightarrow> bool \<times> bytes" where
  "reply r buf = (case r of None \<Rightarrow> (False, buf) | Some s \<Rightarrow> (True, in_buffer s buf))"

type_synonym query = "u64 \<times> u32 \<times> bytes"

text \<open>
  What is asked of a query. Its buffer holds the answer.
\<close>

definition answer_fits :: "(bytes \<Rightarrow> bytes) \<Rightarrow> fstReaderContext \<Rightarrow> fsec list \<Rightarrow> query \<Rightarrow> bool" where
  "answer_fits fmt xc secs q \<longleftrightarrow>
     (case q of (tim, h, buf) \<Rightarrow> \<forall>s. value_at fmt xc secs tim h = Some s \<longrightarrow> length s \<le> length buf)"

text \<open>
  One block at most covers its time, and that time is not the last one of a block, unless it is the last one of
  the file. For the last time of an earlier block the code looks at the section behind it at a wrong
  place (\<open>fstapi.c\<close>, line 6272): what it answers there is the subject of \<open>Rvat_Faults\<close>.
\<close>

definition clear_of_ends :: "fstReaderContext \<Rightarrow> fsec list \<Rightarrow> u64 \<Rightarrow> bool" where
  "clear_of_ends xc secs tim \<longleftrightarrow>
     (\<forall>s \<in> set secs. covers tim s \<longrightarrow>
        (\<exists>b. s = Block b \<and> block_for tim secs = Some b \<and> (tim = vb_fin b \<longrightarrow> tim = end_time xc)))"

text \<open>
  It does not step back to a time before the first change of its handle in a block, after a query of that handle
  for a later time of the same block. \<open>past\<close> are the handles and the times of the queries before it. Such a step
  leaves a place in the run with an early time (\<open>fstapi.c\<close>, line 6623), from which queries behind it are
  answered wrongly: that, too, is shown in \<open>Rvat_Faults\<close>.
\<close>

definition no_step_back :: "fsec list \<Rightarrow> (u32 \<times> u64) set \<Rightarrow> u64 \<Rightarrow> u32 \<Rightarrow> bool" where
  "no_step_back secs past tim h \<longleftrightarrow>
     (\<forall>b. block_for tim secs = Some b \<longrightarrow>
        vb_hist b (unat h - 1) = [] \<or> value_before (vb_times b) tim (vb_hist b (unat h - 1)) \<noteq> None
        \<or> (\<forall>t. (h, t) \<in> past \<and> block_for t secs = Some b \<longrightarrow> t \<le> tim))"

definition query_ok :: "(bytes \<Rightarrow> bytes) \<Rightarrow> fstReaderContext \<Rightarrow> fsec list \<Rightarrow> (u32 \<times> u64) set \<Rightarrow> query \<Rightarrow> bool" where
  "query_ok fmt xc secs past q \<longleftrightarrow>
     (case q of (tim, h, buf) \<Rightarrow>
        answer_fits fmt xc secs q \<and> clear_of_ends xc secs tim \<and> no_step_back secs past tim h)"

lemmas query_ok_defs = query_ok_def answer_fits_def clear_of_ends_def no_step_back_def

primrec queries_ok :: "(bytes \<Rightarrow> bytes) \<Rightarrow> fstReaderContext \<Rightarrow> fsec list \<Rightarrow> (u32 \<times> u64) set \<Rightarrow> query list \<Rightarrow> bool" where
  "queries_ok fmt xc secs past [] \<longleftrightarrow> True"
| "queries_ok fmt xc secs past (q # qs) \<longleftrightarrow>
     query_ok fmt xc secs past q \<and> queries_ok fmt xc secs (insert (fst (snd q), fst q) past) qs"

primrec run_queries ::
    "unpackers \<Rightarrow> (bytes \<Rightarrow> bytes) \<Rightarrow> query list \<Rightarrow> rvat \<Rightarrow> ((bool \<times> bytes) list \<times> rvat) outcome option" where
  "run_queries up fmt [] rv = Some (Inr ([], rv))"
| "run_queries up fmt (q # qs) rv =
     (case q of (tim, h, buf) \<Rightarrow>
        case fstReaderGetValueFromHandleAtTime up fmt tim h buf rv of
          None \<Rightarrow> None
        | Some (Inl e) \<Rightarrow> Some (Inl e)
        | Some (Inr (ret, buf, rv)) \<Rightarrow>
            map_option (\<lambda>r. andthen r (\<lambda>(rs, rv). Inr ((ret, buf) # rs, rv))) (run_queries up fmt qs rv))"

section \<open>What the cache holds between queries\<close>

text \<open>The place was left by one of the queries of the block.\<close>

definition place_past :: "fsec list \<Rightarrow> vblock \<Rightarrow> (u32 \<times> u64) set \<Rightarrow> rvat \<Rightarrow> bool" where
  "place_past secs b past rv \<longleftrightarrow>
     (\<forall>x t. rvat_place rv = Some (x, t) \<longrightarrow> block_for t secs = Some b \<and> (\<exists>h. unat h = Suc x \<and> (h, t) \<in> past))"

definition rvat_inv :: "unpackers \<Rightarrow> packers \<Rightarrow> bytes \<Rightarrow> fsec list \<Rightarrow> fstReaderContext \<Rightarrow> (u32 \<times> u64) set \<Rightarrow> rvat \<Rightarrow> bool" where
  "rvat_inv up pk d secs xc past rv \<longleftrightarrow>
     (\<exists>f. rv_xc rv = xc\<lparr>xc_f := f\<rparr> \<and> f_data f = d)
     \<and> rvat_sig_offs rv \<in> {None, Some (all_offs xc)}
     \<and> (if rvat_data_valid rv
        then \<exists>b. Block b \<in> set secs \<and> loaded_for up b rv \<and> cache_ok (unat (vb_m b)) (vb_hist b) rv \<and> place_past secs b past rv
        else rvat_chain_mem rv = None)"

lemma same_block_loaded:
  assumes "same_block rv rv'"
  shows "loaded_for up b rv' = loaded_for up b rv" and "rvat_sig_offs rv' = rvat_sig_offs rv" and "rvat_data_valid rv' = rvat_data_valid rv"
    and "\<exists>f. rv_xc rv' = (rv_xc rv)\<lparr>xc_f := f\<rparr> \<and> f_data f = f_data (xc_f (rv_xc rv))"
  using assms same_blockD(1) [OF assms, of up "unat (vb_m b)" "vb_hist b"] by (auto simp: same_block_def loaded_for_def)

lemma frame_text_xc [simp]: "frame_text fmt (xc\<lparr>xc_f := f\<rparr>) = frame_text fmt xc" "all_offs (xc\<lparr>xc_f := f\<rparr>) = all_offs xc"
  "shown_text fmt (xc\<lparr>xc_f := f\<rparr>) = shown_text fmt xc"
  by (simp_all add: fun_eq_iff frame_text_def all_offs_def shown_text_def Let_def)

text \<open>The answer of a loaded block is the one that is specified.\<close>

lemma answer_spec:
  assumes xc: "rv_xc rv = xc\<lparr>xc_f := f\<rparr>" and offs: "rvat_sig_offs rv = Some (all_offs xc)" and lf: "loaded_for up b rv"
    and ok: "vblock_ok up pk xc b" and mx: "unat (fstReaderContext.maxhandle xc) \<le> length (signal_lens xc)"
    and h: "h \<noteq> 0" "h \<le> fstReaderContext.maxhandle xc" "signal_lens xc ! x \<noteq> 0" and xh: "unat h = Suc x" and x: "x < unat (vb_m b)"
    and bf: "block_for tim secs = Some b" and room: "\<And>s. value_at fmt xc secs tim h = Some s \<Longrightarrow> length s \<le> length buf"
  shows "rvat_answer fmt rv x tim (vb_hist b x) buf = Inr (reply (value_at fmt xc secs tim h) buf)"
    and "roomy fmt rv x tim (vb_hist b x) buf"
proof -
  let ?n = "signal_lens xc ! x"
  have l: "rvat_time_table rv = vb_times b" "rvat_frame_data rv = vb_frame b" "rvat_frame_maxhandle rv = ucast (vb_fm b)"
    using lf by (simp_all add: loaded_for_def)
  have o: "x < length (signal_typs xc)" "?n \<noteq> 1 \<and> signal_typs xc ! x = FST_VT_VCD_REAL \<longrightarrow> ?n = 8" "length (vb_frame b) < 2 ^ 32"
    using ok x by (auto simp: vblock_ok_def Let_def)
  have fr: "(\<Sum>n \<leftarrow> take (Suc x) (signal_lens xc). unat n) \<le> length (vb_frame b)" if "x < unat (vb_fm b)"
    using ok that by (auto simp: vblock_ok_def Let_def)
  have va: "value_at fmt xc secs tim h = (case value_before (vb_times b) tim (vb_hist b x) of
      Some v \<Rightarrow> Some (run_text fmt rv x v)
    | None \<Rightarrow> if x < unat (vb_fm b) then Some (frame_text fmt xc (vb_frame b) x) else None)"
    using h(1,3) leD [OF h(2)] xh x bf by (simp add: value_at_def Let_def run_text_def xc cong: option.case_cong)
  show "roomy fmt rv x tim (vb_hist b x) buf" using room va by (auto simp: roomy_def l split: option.splits)
  have xm: "x < unat (fstReaderContext.maxhandle xc)" using h(2) xh by (simp add: word_le_nat_alt)
  have ux: "unat (of_nat x :: u32) = x" using xh unsigned_less [of h, where ?'a = nat] by (intro unat_of_nat_32) simp
  show "rvat_answer fmt rv x tim (vb_hist b x) buf = Inr (reply (value_at fmt xc secs tim h) buf)"
  proof (cases "value_before (vb_times b) tim (vb_hist b x)")
    case (Some v)
    then show ?thesis by (simp add: rvat_answer_def l va reply_def)
  next
    case None
    show ?thesis
    proof (cases "x < unat (vb_fm b)")
      case True
      then have "length (frame_text fmt xc (vb_frame b) x) \<le> length buf" using room va None by simp
      then have "fstExtractRvatDataFromFrame fmt rv (of_nat x) buf
          = Inr (True, in_buffer (frame_text fmt (rv_xc rv) (rvat_frame_data rv) x) buf)"
        by (intro extract_ok [OF _ _ _ _ ux _ _ _ l(3) True])
          (use xm mx offs o fr True l in \<open>simp_all add: xc\<close>)
      then show ?thesis using None True by (simp add: rvat_answer_def l va reply_def xc)
    next
      case False
      then have "fstExtractRvatDataFromFrame fmt rv (of_nat x) buf = Inr (False, buf)"
        by (intro extract_none [OF l(3) _ ux]) simp
      then show ?thesis using None False by (simp add: rvat_answer_def l va reply_def)
    qed
  qed
qed


lemma rvat_inv_mono: "rvat_inv up pk d secs xc past rv \<Longrightarrow> past \<subseteq> past' \<Longrightarrow> rvat_inv up pk d secs xc past' rv"
  unfolding rvat_inv_def place_past_def by (auto split: if_splits) blast+

text \<open>A query on the block that is loaded.\<close>

lemma query_loaded:
  assumes inv: "rvat_inv up pk d secs xc past rv" and offs: "rvat_sig_offs rv = Some (all_offs xc)"
    and lf: "Block b \<in> set secs" "loaded_for up b rv" "cache_ok (unat (vb_m b)) (vb_hist b) rv" "place_past secs b past rv"
    and ok: "vblock_ok up pk xc b" and mx: "unat (fstReaderContext.maxhandle xc) \<le> length (signal_lens xc)"
    and mal: "\<And>n. length (malloc_bytes up n) = n"
    and h: "h \<noteq> 0" "h \<le> fstReaderContext.maxhandle xc" "signal_lens xc ! (unat h - 1) \<noteq> 0"
    and q: "query_ok fmt xc secs past (tim, h, buf)" and bf: "block_for tim secs = Some b"
  shows "\<exists>rv'. process_value up fmt tim h buf rv
      = Some (andthen (Inr (reply (value_at fmt xc secs tim h) buf)) (\<lambda>(ret, buf). Inr (ret, buf, rv')))
    \<and> rvat_inv up pk d secs xc (insert (h, tim) past) rv'"
proof -
  obtain f where f: "rv_xc rv = xc\<lparr>xc_f := f\<rparr>" "f_data f = d" using inv by (auto simp: rvat_inv_def)
  define x where "x = unat h - 1"
  have xh: "unat h = Suc x" using h(1) by (simp add: x_def unat_gt_0)
  have bl: "block_loaded up (unat (vb_m b)) (vb_hist b) rv" using lf(2) by (simp add: loaded_for_def)
  have dv: "rvat_data_valid rv" "unat (rvat_vc_maxhandle rv) = unat (vb_m b)" using bl by (simp_all add: block_loaded_def Let_def)
  show ?thesis
  proof (cases "x < unat (vb_m b)")
    case False
    then have "process_value up fmt tim h buf rv = Some (Inr (False, buf, rv))"
      using xh dv(2) by (simp add: process_value_def word_less_nat_alt unat_ucast_64)
    moreover have "value_at fmt xc secs tim h = None"
      using False bf xh by (simp add: value_at_def Let_def)
    ultimately show ?thesis using rvat_inv_mono [OF inv, of "insert (h, tim) past"]
      by (intro exI [of _ rv]) (auto simp: reply_def)
  next
    case True
    have room: "\<And>s. value_at fmt xc secs tim h = Some s \<Longrightarrow> length s \<le> length buf" using q by (simp add: query_ok_defs)
    have n: "signal_lens xc ! x \<noteq> 0" using h(3) by (simp add: x_def)
    note a = answer_spec [OF f(1) offs lf(2) ok mx h(1,2) n xh True bf room]
    have "sure rv x tim (vb_hist b x)"
    proof -
      have "rvat_time_table rv = vb_times b" using lf(2) by (simp add: loaded_for_def)
      moreover have "t \<le> tim" if later: "\<forall>t. (h, t) \<in> past \<and> block_for t secs = Some b \<longrightarrow> t \<le> tim" and pl: "rvat_place rv = Some (x, t)" for t
      proof -
        obtain h' where h': "unat h' = Suc x" "(h', t) \<in> past" "block_for t secs = Some b" using lf(4) pl by (auto simp: place_past_def)
        then have "h' = h" using xh by (simp add: word_unat_eq_iff)
        then show ?thesis using later h'(2,3) by blast
      qed
      ultimately show ?thesis using q bf by (auto simp: query_ok_defs sure_def x_def)
    qed
    moreover have "of_nat (Suc x) = h" unfolding xh [symmetric] by simp
    moreover have "signal_lens (rv_xc rv) ! x \<noteq> 0" using n by (simp add: f(1))
    ultimately obtain rv' where p: "process_value up fmt tim h buf rv
        = Some (andthen (rvat_answer fmt rv x tim (vb_hist b x) buf) (\<lambda>(ret, buf). Inr (ret, buf, rv')))"
      "same_block rv rv'" "cache_ok (unat (vb_m b)) (vb_hist b) rv'" "rvat_place rv' \<in> {rvat_place rv, None, Some (x, tim)}"
      using process_value_ok [OF bl lf(3) mal True _ a(2)] by metis
    note sl = same_block_loaded [OF p(2)]
    have pl: "place_past secs b (insert (h, tim) past) rv'"
      using p(4) lf(4) bf xh by (auto simp: place_past_def)
    have "\<exists>f. rv_xc rv' = xc\<lparr>xc_f := f\<rparr> \<and> f_data f = d" using sl(4) f by auto
    then have "rvat_inv up pk d secs xc (insert (h, tim) past) rv'"
      using pl lf(1,2) p(3) dv(1) offs unfolding rvat_inv_def sl(2,3) by (simp only: if_True sl(1) insert_iff simp_thms) blast
    then show ?thesis using p(1) a(1) by auto
  qed
qed

lemma query_offsets:
  assumes inv: "rvat_inv up pk d secs xc past rv" and mx: "unat (fstReaderContext.maxhandle xc) \<le> length (signal_lens xc)"
  shows "\<exists>rv1. rvat_offsets rv = Inr rv1 \<and> rvat_inv up pk d secs xc past rv1 \<and> rvat_sig_offs rv1 = Some (all_offs xc)"
proof (cases "rvat_sig_offs rv")
  case (Some o)
  then show ?thesis using inv by (auto simp: rvat_offsets_def rvat_inv_def Let_def)
next
  case None
  obtain f where f: "rv_xc rv = xc\<lparr>xc_f := f\<rparr>" "f_data f = d" using inv by (auto simp: rvat_inv_def)
  let ?rv = "rv\<lparr>rvat_sig_offs := Some (all_offs xc)\<rparr>"
  have "rvat_offsets rv = Inr ?rv" using None mx by (simp add: rvat_offsets_def Let_def f(1) load_n_def all_offs_def)
  moreover have "loaded_for up b ?rv = loaded_for up b rv" "cache_ok m G ?rv = cache_ok m G rv"
    "place_past secs b past ?rv = place_past secs b past rv" for b m G
    by (simp_all add: loaded_for_def block_loaded_def cache_ok_def chain_tables_def place_past_def rvat_place_def Let_def cong: option.case_cong)
  ultimately show ?thesis using inv by (auto simp: rvat_inv_def)
qed


text \<open>What the file and the context have to be.\<close>

definition rvat_file_ok :: "unpackers \<Rightarrow> packers \<Rightarrow> fstReaderContext \<Rightarrow> fsec list \<Rightarrow> bool" where
  "rvat_file_ok up pk xc secs \<longleftrightarrow>
     length (file_bytes pk secs) < 2 ^ 62 \<and> unat (fstReaderContext.maxhandle xc) \<le> length (signal_lens xc)
     \<and> (\<forall>s \<in> set secs. sec_plain s \<and> (case s of Other tag p \<Rightarrow> True | Block b \<Rightarrow> vblock_ok up pk xc b))"

lemma vblock_ok_xc [simp]: "vblock_ok up pk (xc\<lparr>xc_f := f\<rparr>) b = vblock_ok up pk xc b"
  by (simp add: vblock_ok_def)

lemma block_for_in: "block_for tim secs = Some b \<Longrightarrow> Block b \<in> set secs" "block_for tim secs = Some b \<Longrightarrow> covers tim (Block b)"
  by (auto simp: block_for_def find_Some_iff in_set_conv_nth split: option.splits fsec.splits)

text \<open>Loading the block of a time, from any state between queries.\<close>

lemma query_finds:
  assumes inv: "rvat_inv up pk (file_bytes pk secs) secs xc past rv" and fo: "rvat_file_ok up pk xc secs"
    and mal: "\<And>n. length (malloc_bytes up n) = n" and q: "query_ok fmt xc secs past (tim, h, buf)"
  defines "rv0 \<equiv> (if rvat_data_valid rv then fstReaderDeallocateRvatData rv else rv)\<lparr>rvat_chain_pos_valid := False\<rparr>"
  shows "\<exists>x. (case block_for tim secs of
      None \<Rightarrow> rvat_find up tim 0 (rv_xc rv0) = Some (None, x) \<and> rvat_inv up pk (file_bytes pk secs) secs xc past (rv0\<lparr>rv_xc := x\<rparr>)
    | Some b \<Rightarrow> \<exists>blk rv'. rvat_find up tim 0 (rv_xc rv0) = Some (Some blk, x) \<and> rvat_load up blk (rv0\<lparr>rv_xc := x\<rparr>) = Inr rv'
        \<and> rvat_inv up pk (file_bytes pk secs) secs xc past rv' \<and> rvat_sig_offs rv' = rvat_sig_offs rv
        \<and> loaded_for up b rv' \<and> cache_ok (unat (vb_m b)) (vb_hist b) rv' \<and> place_past secs b past rv')"
proof -
  let ?d = "file_bytes pk secs"
  obtain f where f: "rv_xc rv = xc\<lparr>xc_f := f\<rparr>" "f_data f = ?d" using inv by (auto simp: rvat_inv_def)
  have r0: "rv_xc rv0 = xc\<lparr>xc_f := f\<rparr>" "rvat_sig_offs rv0 = rvat_sig_offs rv" "\<not> rvat_data_valid rv0" "rvat_chain_mem rv0 = None"
    "\<not> rvat_chain_pos_valid rv0"
    using f(1) inv by (auto simp: rv0_def fstReaderDeallocateRvatData_def rvat_inv_def)
  have so: "rvat_sig_offs rv \<in> {None, Some (all_offs xc)}" using inv by (simp add: rvat_inv_def)
  have len: "length ?d < 2 ^ 62" and pl: "\<forall>s \<in> set secs. sec_plain s" using fo by (auto simp: rvat_file_ok_def)
  let ?x = "xc\<lparr>xc_f := file_at ?d 0\<rparr>"
  have find: "rvat_find up tim 0 (rv_xc rv0) = rvat_find up tim 0 ?x"
    using find_from_start [of "rv_xc rv0" ?d up tim] f(2) by (simp add: r0(1))
  have e: "tim \<noteq> vb_fin b \<or> tim = end_time ?x" if "block_for tim secs = Some b" for b
  proof -
    have "Block b \<in> set secs" "covers tim (Block b)" using that by (rule block_for_in)+
    moreover have "\<forall>s \<in> set secs. covers tim s \<longrightarrow> (\<exists>b. s = Block b \<and> (tim = vb_fin b \<longrightarrow> tim = end_time xc))"
      using q unfolding query_ok_defs prod.case by blast
    ultimately have "tim = vb_fin b \<longrightarrow> tim = end_time xc" by blast
    then show ?thesis by simp
  qed
  have d0: "drop 0 ?d = file_bytes pk secs" "0 \<le> length ?d" "xc_f ?x = file_at ?d 0" by simp_all
  obtain f' where w: "f_data f' = ?d" "case block_for tim secs of
      None \<Rightarrow> rvat_find up tim (of_nat 0) ?x = Some (None, ?x\<lparr>xc_f := f'\<rparr>)
    | Some b \<Rightarrow> (\<exists>p' post. rvat_find up tim (of_nat 0) ?x
          = Some (Some (of_nat p' + 1, of_nat (8 + length (vblock_payload pk b)), 8, vb_beg b, vb_fin b), ?x\<lparr>xc_f := f'\<rparr>)
        \<and> f' = file_at ?d (p' + 25) \<and> drop p' ?d = section_bytes FST_BL_VCDATA_DYN_ALIAS2 (vblock_payload pk b) @ post)"
    using find_walks [OF len pl d0 e, where up = up] by blast
  show ?thesis
  proof (cases "block_for tim secs")
    case None
    then have "rvat_find up tim 0 (rv_xc rv0) = Some (None, xc\<lparr>xc_f := f'\<rparr>)" using w(2) unfolding find by simp
    moreover have "rvat_inv up pk ?d secs xc past (rv0\<lparr>rv_xc := xc\<lparr>xc_f := f'\<rparr>\<rparr>)"
      using w(1) r0(2-5) so unfolding rvat_inv_def by (intro conjI exI [of _ f']) (simp_all add: rvat_place_def)
    ultimately show ?thesis using None by auto
  next
    case (Some b)
    then obtain p' post where p: "rvat_find up tim 0 ?x
          = Some (Some (of_nat p' + 1, of_nat (8 + length (vblock_payload pk b)), 8, vb_beg b, vb_fin b), xc\<lparr>xc_f := f'\<rparr>)"
      "f' = file_at ?d (p' + 25)" "drop p' ?d = section_bytes FST_BL_VCDATA_DYN_ALIAS2 (vblock_payload pk b) @ post"
      using w(2) by auto
    have b: "Block b \<in> set secs" using Some by (rule block_for_in(1))
    then have "vblock_ok up pk xc b" using fo by (auto simp: rvat_file_ok_def)
    then obtain rv' q' where l: "rvat_load up (of_nat p' + 1, of_nat (8 + length (vblock_payload pk b)), 8, vb_beg b, vb_fin b)
        (rv0\<lparr>rv_xc := xc\<lparr>xc_f := f'\<rparr>\<rparr>) = Inr rv'" "loaded_for up b rv'" "rvat_chain_mem rv' = None" "\<not> rvat_chain_pos_valid rv'"
      "rvat_sig_offs rv' = rvat_sig_offs rv" "rv_xc rv' = xc\<lparr>xc_f := file_at ?d q'\<rparr>"
      using load_block [OF _ _ len p(3) mal, of "rv0\<lparr>rv_xc := xc\<lparr>xc_f := f'\<rparr>\<rparr>"] r0 p(2) by auto
    have "cache_ok (unat (vb_m b)) (vb_hist b) rv'" using l(3,4) by (simp add: cache_ok_def)
    moreover have pp: "place_past secs b past rv'" using l(4) by (simp add: place_past_def rvat_place_def)
    moreover from calculation have "rvat_inv up pk ?d secs xc past rv'"
      using l(2-6) b so by (auto simp: rvat_inv_def)
    ultimately show ?thesis using l Some p(1) unfolding find by (intro exI [of _ "xc\<lparr>xc_f := f'\<rparr>"]) auto
  qed
qed

lemma query_answered:
  assumes inv: "rvat_inv up pk (file_bytes pk secs) secs xc past rv" and fo: "rvat_file_ok up pk xc secs"
    and mal: "\<And>n. length (malloc_bytes up n) = n" and q: "query_ok fmt xc secs past (tim, h, buf)"
  shows "\<exists>rv'. fstReaderGetValueFromHandleAtTime up fmt tim h buf rv
      = Some (Inr (fst (reply (value_at fmt xc secs tim h) buf), snd (reply (value_at fmt xc secs tim h) buf), rv'))
    \<and> rvat_inv up pk (file_bytes pk secs) secs xc (insert (h, tim) past) rv'"
proof -
  let ?d = "file_bytes pk secs"
  obtain f where f: "rv_xc rv = xc\<lparr>xc_f := f\<rparr>" using inv by (auto simp: rvat_inv_def)
  have mx: "unat (fstReaderContext.maxhandle xc) \<le> length (signal_lens xc)" using fo by (simp add: rvat_file_ok_def)
  have sub: "past \<subseteq> insert (h, tim) past" by blast
  have l: "load (signal_lens xc) (unat (h - 1)) = Inr (signal_lens xc ! (unat h - 1))" if "h \<noteq> 0" "h \<le> fstReaderContext.maxhandle xc"
  proof -
    have "0 < unat h" "unat h \<le> unat (fstReaderContext.maxhandle xc)" using that by (simp_all add: unat_gt_0 word_le_nat_alt)
    then have "unat h - 1 < length (signal_lens xc)" using mx by linarith
    then show ?thesis using that(1) by (simp add: load_def unat_minus_one)
  qed
  consider (no) "h = 0 \<or> h > fstReaderContext.maxhandle xc" | (nil) "h \<noteq> 0" "h \<le> fstReaderContext.maxhandle xc" "signal_lens xc ! (unat h - 1) = 0"
    | (yes) "h \<noteq> 0" "h \<le> fstReaderContext.maxhandle xc" "signal_lens xc ! (unat h - 1) \<noteq> 0" by force
  then show ?thesis
  proof cases
    case no
    then have "fstReaderGetValueFromHandleAtTime up fmt tim h buf rv = Some (Inr (False, buf, rv))" "value_at fmt xc secs tim h = None"
      by (auto simp: fstReaderGetValueFromHandleAtTime_def value_at_def f)
    then show ?thesis using rvat_inv_mono [OF inv sub] by (auto simp: reply_def)
  next
    case nil
    then have "load (signal_lens xc) (unat (h - 1)) = Inr 0" using l by simp
    then have "fstReaderGetValueFromHandleAtTime up fmt tim h buf rv = Some (Inr (False, buf, rv))" "value_at fmt xc secs tim h = None"
      using nil by (auto simp: fstReaderGetValueFromHandleAtTime_def value_at_def f Let_def)
    then show ?thesis using rvat_inv_mono [OF inv sub] by (auto simp: reply_def)
  next
    case yes
    then have n: "load (signal_lens xc) (unat (h - 1)) = Inr (signal_lens xc ! (unat h - 1))" by (intro l)
    obtain rv1 where o: "rvat_offsets rv = Inr rv1" "rvat_inv up pk ?d secs xc past rv1" "rvat_sig_offs rv1 = Some (all_offs xc)"
      using query_offsets [OF inv mx] by blast
    obtain f1 where f1: "rv_xc rv1 = xc\<lparr>xc_f := f1\<rparr>" using o(2) by (auto simp: rvat_inv_def)
    have start: "fstReaderGetValueFromHandleAtTime up fmt tim h buf rv =
        (if rvat_data_valid rv1 \<and> rvat_beg_tim rv1 \<le> tim \<and> tim \<le> rvat_end_tim rv1
         then process_value up fmt tim h buf rv1
         else let rv = (if rvat_data_valid rv1 then fstReaderDeallocateRvatData rv1 else rv1)\<lparr>rvat_chain_pos_valid := False\<rparr>
              in case rvat_find up tim 0 (rv_xc rv) of
                   None \<Rightarrow> None
                 | Some (None, xc) \<Rightarrow> Some (Inr (False, buf, rv\<lparr>rv_xc := xc\<rparr>))
                 | Some (Some blk, xc) \<Rightarrow>
                     (case rvat_load up blk (rv\<lparr>rv_xc := xc\<rparr>) of
                        Inl e \<Rightarrow> Some (Inl e)
                      | Inr rv \<Rightarrow> process_value up fmt tim h buf rv))"
      using yes n leD [OF yes(2)] by (simp add: fstReaderGetValueFromHandleAtTime_def f o(1))
    have vok: "vblock_ok up pk xc b" if "Block b \<in> set secs" for b using fo that by (auto simp: rvat_file_ok_def)
    have served: ?thesis if "fstReaderGetValueFromHandleAtTime up fmt tim h buf rv = process_value up fmt tim h buf rv2"
      "rvat_inv up pk ?d secs xc past rv2" "rvat_sig_offs rv2 = Some (all_offs xc)" "Block b \<in> set secs" "loaded_for up b rv2"
      "cache_ok (unat (vb_m b)) (vb_hist b) rv2" "place_past secs b past rv2" "block_for tim secs = Some b" for rv2 b
      using query_loaded [OF that(2-7) vok [OF that(4)] mx mal yes q that(8)] that(1)
      by (cases "reply (value_at fmt xc secs tim h) buf") auto
    show ?thesis
    proof (cases "rvat_data_valid rv1 \<and> rvat_beg_tim rv1 \<le> tim \<and> tim \<le> rvat_end_tim rv1")
      case True
      then obtain b where b: "Block b \<in> set secs" "loaded_for up b rv1" "cache_ok (unat (vb_m b)) (vb_hist b) rv1" "place_past secs b past rv1"
        using o(2) by (auto simp: rvat_inv_def)
      then have "covers tim (Block b)" using True by (simp add: loaded_for_def covers_def)
      then have "block_for tim secs = Some b" using q b(1) by (auto simp: query_ok_defs)
      then show ?thesis using served [OF _ o(2,3) b] True start by simp
    next
      case False
      define rv0 where "rv0 = (if rvat_data_valid rv1 then fstReaderDeallocateRvatData rv1 else rv1)\<lparr>rvat_chain_pos_valid := False\<rparr>"
      note st = start [unfolded if_not_P [OF False], folded rv0_def, unfolded Let_def]
      obtain x where x: "case block_for tim secs of
          None \<Rightarrow> rvat_find up tim 0 (rv_xc rv0) = Some (None, x) \<and> rvat_inv up pk ?d secs xc past (rv0\<lparr>rv_xc := x\<rparr>)
        | Some b \<Rightarrow> \<exists>blk rv'. rvat_find up tim 0 (rv_xc rv0) = Some (Some blk, x) \<and> rvat_load up blk (rv0\<lparr>rv_xc := x\<rparr>) = Inr rv'
            \<and> rvat_inv up pk ?d secs xc past rv' \<and> rvat_sig_offs rv' = rvat_sig_offs rv1
            \<and> loaded_for up b rv' \<and> cache_ok (unat (vb_m b)) (vb_hist b) rv' \<and> place_past secs b past rv'"
        using query_finds [OF o(2) fo mal q] unfolding rv0_def by blast
      show ?thesis
      proof (cases "block_for tim secs")
        case None
        then have "value_at fmt xc secs tim h = None" by (simp add: value_at_def Let_def)
        moreover have "fstReaderGetValueFromHandleAtTime up fmt tim h buf rv = Some (Inr (False, buf, rv0\<lparr>rv_xc := x\<rparr>))"
          using x None unfolding st by simp
        ultimately show ?thesis using x None rvat_inv_mono [OF _ sub] by (auto simp: reply_def)
      next
        case (Some b)
        then obtain blk rv' where b: "rvat_find up tim 0 (rv_xc rv0) = Some (Some blk, x)" "rvat_load up blk (rv0\<lparr>rv_xc := x\<rparr>) = Inr rv'"
          "rvat_inv up pk ?d secs xc past rv'" "rvat_sig_offs rv' = Some (all_offs xc)"
          "loaded_for up b rv'" "cache_ok (unat (vb_m b)) (vb_hist b) rv'" "place_past secs b past rv'"
          using x o(3) by auto
        show ?thesis using served [OF _ b(3,4) block_for_in(1) [OF Some] b(5-7) Some] b(1,2) unfolding st by simp
      qed
    qed
  qed
qed

text \<open>The context as \<open>fstReaderOpen\<close> leaves these members: all zero.\<close>

definition fresh_rvat :: "fstReaderContext \<Rightarrow> rvat" where
  "fresh_rvat xc = \<lparr>rv_xc = xc, rvat_data_valid = False, rvat_time_table = [], rvat_beg_tim = 0, rvat_end_tim = 0,
     rvat_frame_data = [], rvat_frame_maxhandle = 0, rvat_chain_table = [], rvat_chain_table_lengths = [],
     rvat_vc_maxhandle = 0, rvat_vc_start = 0, rvat_sig_offs = None, rvat_packtype = 0, rvat_chain_len = 0,
     rvat_chain_mem = None, rvat_chain_facidx = 0, rvat_chain_pos_tidx = 0, rvat_chain_pos_idx = 0,
     rvat_chain_pos_time = 0, rvat_chain_pos_valid = False\<rparr>"

lemma queries_answered:
  assumes "rvat_file_ok up pk xc secs" and "f_data (xc_f xc) = file_bytes pk secs"
    and "\<And>n. length (malloc_bytes up n) = n" and "queries_ok fmt xc secs {} qs"
  shows "\<exists>rv. run_queries up fmt qs (fresh_rvat xc)
    = Some (Inr (map (\<lambda>(tim, h, buf). reply (value_at fmt xc secs tim h) buf) qs, rv))"
proof -
  have run: "\<exists>rv'. run_queries up fmt qs rv = Some (Inr (map (\<lambda>(tim, h, buf). reply (value_at fmt xc secs tim h) buf) qs, rv'))"
    if "rvat_inv up pk (file_bytes pk secs) secs xc past rv" "queries_ok fmt xc secs past qs" for past rv
    using that
  proof (induction qs arbitrary: past rv)
    case (Cons q qs)
    obtain tim h buf where q: "q = (tim, h, buf)" by (cases q)
    obtain rv1 where 1: "fstReaderGetValueFromHandleAtTime up fmt tim h buf rv
        = Some (Inr (fst (reply (value_at fmt xc secs tim h) buf), snd (reply (value_at fmt xc secs tim h) buf), rv1))"
      "rvat_inv up pk (file_bytes pk secs) secs xc (insert (h, tim) past) rv1"
      using query_answered [OF Cons.prems(1) assms(1,3), of fmt tim h buf] Cons.prems(2) unfolding q by auto
    moreover obtain rv2 where "run_queries up fmt qs rv1
        = Some (Inr (map (\<lambda>(tim, h, buf). reply (value_at fmt xc secs tim h) buf) qs, rv2))"
      using Cons.IH [OF 1(2)] Cons.prems(2) by (auto simp: q)
    ultimately show ?case by (simp add: q)
  qed simp
  have "rvat_inv up pk (file_bytes pk secs) secs xc {} (fresh_rvat xc)"
    using assms(2) by (auto simp: rvat_inv_def rvat_place_def fresh_rvat_def intro!: exI [of _ "xc_f xc"])
  from run [OF this assms(4)] show ?thesis .
qed

text \<open>
  C3. A file of sections, some of them value change blocks as the flush lays them out, and a list of
  queries by \<open>fstReaderGetValueFromHandleAtTime\<close>, each with a buffer that holds its answer. As long as no query asks
  for the last time of a block that is not the last of the file (or for a time two blocks cover), and none steps back
  to before the first change of a handle in a block after a query of the same handle for a later time there, every
  one of them returns and answers what the histories say, whatever the queries before it have left in the
  context: the tables of a block, the run of a handle, the place in it. The queries left out are those the code goes
  wrong on (\<open>Rvat_Faults\<close>).
\<close>

theorem value_at_time:
  assumes "rvat_file_ok up pk xc secs" and "f_data (xc_f xc) = file_bytes pk secs"
    and "\<And>n. length (malloc_bytes up n) = n" and "queries_ok fmt xc secs {} qs"
  shows "\<exists>rv. run_queries up fmt qs (fresh_rvat xc)
    = Some (Inr (map (\<lambda>(tim, h, buf). reply (value_at fmt xc secs tim h) buf) qs, rv))"
  by (rule queries_answered [OF assms])

text \<open>Two bits that change at time 7 in a block from 5 to 9, the last of the file.\<close>

definition demo_vblock :: vblock where
  "demo_vblock = \<lparr>vb_beg = 5, vb_fin = 9, vb_mem = 2, vb_frame = [120, 120], vb_fm = 2, vb_m = 2,
     vb_writer = demo_block_writer, vb_hist = (\<lambda>_. [(0, [49])]), vb_dist = [7]\<rparr>"

definition demo_rvat_reader :: fstReaderContext where
  "demo_rvat_reader = (fstReaderContext.maxhandle_update (\<lambda>_. 2) demo_block_reader)\<lparr>end_time := 9,
     xc_f := file_at (file_bytes plain_packers [Other 0 [1], Block demo_vblock]) 0\<rparr>"

lemma demo_vblock_simps [simp]:
  "vb_m demo_vblock = 2" "vb_writer demo_vblock = demo_block_writer" "vb_hist demo_vblock = (\<lambda>_. [(0, [49])])"
  "vb_times demo_vblock = [7]" "vb_dist demo_vblock = [7]" "vb_frame demo_vblock = [120, 120]" "vb_fm demo_vblock = 2"
  "vb_beg demo_vblock = 5" "vb_fin demo_vblock = 9"
  by (simp_all add: demo_vblock_def vb_times_def)

lemma demo_file_ok: "rvat_file_ok plain_unpackers plain_packers demo_rvat_reader [Other 0 [1], Block demo_vblock]"
proof -
  have w: "writer_ready (length (vb_times demo_vblock)) demo_block_writer 2 (\<lambda>_. [(0, [49])])"
    using demo_writer_ready by (simp add: vb_times_def demo_vblock_def)
  have pt: "pack_type demo_block_writer = 90" by (simp add: pack_type_def demo_block_writer_def writer_zero_def ascii_def)
  have v: "varint (7 :: u64) = [7]" by (simp add: varint_unfold)
  have two: "(\<forall>x < 2. P x) \<longleftrightarrow> P 0 \<and> P (1 :: nat)" for P by (auto simp: less_2_cases_iff)
  have l: "signal_lens demo_rvat_reader = [1, 1]" "signal_typs demo_rvat_reader = [16, 16]" "valpos demo_block_writer = [0, 1, 1, 0, 1, 1, 7, 0]"
    by (simp_all add: demo_rvat_reader_def demo_block_reader_def demo_block_writer_def)
  have ix: "idx_enc [1, -1] 0 0 0 = [3, 127]" by code_simp
  have c: "compress2 plain_packers l s = None" for l s by (simp add: plain_packers_def)
  have "vblock_ok plain_unpackers plain_packers demo_rvat_reader demo_vblock"
    using w demo_packs_back unfolding vblock_ok_def Let_def demo_vblock_simps l
    by (simp add: pt demo_layout two v unpacks_def frame_unpacks_def c)
  moreover have "length (file_bytes plain_packers [Other 0 [1], Block demo_vblock]) < 2 ^ 62" 
    by (simp add: file_bytes_def sec_bytes_def length_section_bytes vblock_payload_def block_payload_def
        demo_layout(1) demo_layout(2) [unfolded ix] frame_part_def packed_frame_def times_part_def squeezed_def c varint_unfold
        del: be_loop.simps)
  ultimately show ?thesis by (simp add: rvat_file_ok_def sec_plain_def demo_rvat_reader_def demo_block_reader_def)
qed

lemma value_at_time_witness:
  "\<exists>rv. run_queries plain_unpackers id [(3, 1, [0, 0]), (6, 1, [0, 0]), (8, 1, [0, 0]), (6, 2, [0, 0]), (9, 2, [0, 0]), (9, 3, [0, 0])]
      (fresh_rvat demo_rvat_reader)
    = Some (Inr ([(False, [0, 0]), (True, [120, 0]), (True, [49, 0]), (True, [120, 0]), (True, [49, 0]), (False, [0, 0])], rv))"
proof -
  let ?secs = "[Other 0 [1], Block demo_vblock]"
  let ?qs = "[(3, 1, [0, 0]), (6, 1, [0, 0]), (8, 1, [0, 0]), (6, 2, [0, 0]), (9, 2, [0, 0]), (9, 3, [0, 0])] :: query list"
  have bf: "block_for tim ?secs = (if 5 \<le> tim \<and> tim \<le> 9 then Some demo_vblock else None)" for tim
    by (simp add: block_for_def covers_def)
  have l: "signal_lens demo_rvat_reader = [1, 1]" "fstReaderContext.maxhandle demo_rvat_reader = 2" "end_time demo_rvat_reader = 9"
    by (simp_all add: demo_rvat_reader_def demo_block_reader_def)
  have vb: "value_before [7] tim [(0, [49])] = (if 7 \<le> tim then Some [49] else None)" for tim
    by (simp add: value_before_def)
  have nb: "norm_1bit 49 = 49" by code_simp
  have v: "value_at id demo_rvat_reader ?secs 3 1 = None" "value_at id demo_rvat_reader ?secs 6 1 = Some [120, 0]"
    "value_at id demo_rvat_reader ?secs 8 1 = Some [49, 0]" "value_at id demo_rvat_reader ?secs 6 2 = Some [120, 0]"
    "value_at id demo_rvat_reader ?secs 9 2 = Some [49, 0]" "value_at id demo_rvat_reader ?secs 9 3 = None"
    by (simp_all add: value_at_def Let_def bf l vb norm_val_def nb shown_text_def frame_text_def)
  have q: "queries_ok id demo_rvat_reader ?secs {} ?qs"
    using v by (auto simp: query_ok_defs bf covers_def l vb)
  have d: "f_data (xc_f demo_rvat_reader) = file_bytes plain_packers ?secs" by (simp add: demo_rvat_reader_def file_at_def)
  have "\<And>n. length (malloc_bytes plain_unpackers n) = n" by (simp add: plain_unpackers_def)
  from value_at_time [OF demo_file_ok d this q] show ?thesis by (simp add: v reply_def in_buffer_def)
qed

end
