(* ===== verification/Rvat_Faults.thy ===== *)
theory Rvat_Faults
  imports Rvat_Answers
begin

text \<open>
  Where the queries do not answer what they should: at the last time of a block that is not the last
  of the file, and after a query from before the first change of a handle.
\<close>

section \<open>The last time of a block\<close>

lemma be_loop_head: "be_loop (Suc k) v = ucast (drop_bit (8 * k) v) # be_loop k v"
proof (induction k arbitrary: v)
  case 0
  have m: "(0xff :: u64) = mask 8" by (simp add: mask_eq_exp_minus_1)
  have "ucast (v AND 0xff) = (ucast v :: u8)" unfolding m by (rule bit_word_eqI) (auto simp: bit_simps)
  then show ?case by simp
next
  case (Suc k)
  have "be_loop (Suc (Suc k)) v = be_loop (Suc k) (drop_bit 8 v) @ [ucast (v AND 0xff)]" by (rule be_loop.simps(2))
  also have "\<dots> = ucast (drop_bit (8 * k) (drop_bit 8 v)) # be_loop k (drop_bit 8 v) @ [ucast (v AND 0xff)]"
    unfolding Suc.IH by (rule append_Cons)
  also have "be_loop k (drop_bit 8 v) @ [ucast (v AND 0xff)] = be_loop (Suc k) v" by (rule be_loop.simps(2) [symmetric])
  finally show ?case by (simp only: drop_bit_drop_bit mult_Suc_right add.commute)
qed


lemma be_loop_snoc: "be_loop 7 n @ [b] = be_loop 8 (push_bit 8 n OR ucast (b :: u8))" if "n < 2 ^ 56"
proof -
  have m: "(0xff :: u64) = mask 8" by (simp add: mask_eq_exp_minus_1)
  have "drop_bit 8 (push_bit 8 n OR ucast b) = n"
  proof (rule bit_word_eqI)
    fix k assume "k < LENGTH(64)"
    have "\<not> bit n k" if "56 \<le> k"
    proof -
      have "unat n < 2 ^ 56" using \<open>n < 2 ^ 56\<close> by (simp add: word_less_nat_alt)
      also have "(2 :: nat) ^ 56 \<le> 2 ^ k" using that by (rule power_increasing) simp
      finally have "\<not> bit (unat n) k" by (simp add: bit_iff_odd)
      then show ?thesis by (simp add: bit_unsigned_iff)
    qed
    then show "bit (drop_bit 8 (push_bit 8 n OR ucast b)) k = bit n k"
      using \<open>k < LENGTH(64)\<close> bit_imp_le_length [of b "8 + k"] by (cases "k < 56") (auto simp: bit_simps add.commute)
  qed
  moreover have "ucast ((push_bit 8 n OR ucast b) AND 0xff) = b"
    unfolding m by (rule bit_word_eqI) (auto simp: bit_simps)
  moreover have "(8 :: nat) = Suc 7" by simp
  ultimately show ?thesis by (simp only: be_loop.simps(2))
qed


text \<open>
  C38. A time that is the last of a block, and not the last of the file. \<open>fstReaderGetValueFromHandleAtTime\<close>
  means to look at the next section, whose block may begin at this time, but \<open>blkpos\<close> is behind the tag
  of the section it is at, so it reads the length of that section from its second byte on: no tag of a
  block, and a length that is 256 times too large. It then goes on with these, one byte too early in the
  file, whatever follows the block.
\<close>

theorem last_time_misread:
  assumes "xc_f x = file_at d q" and d: "drop p d = section_bytes FST_BL_VCDATA_DYN_ALIAS2 pay @ post" and len: "length d < 2 ^ 56"
    and pay: "pay = block_payload beg fin memreq frame m pt runs idx tsec"
    and t: "beg \<le> fin" "fin \<noteq> end_time x"
  shows "\<exists>f. rvat_find up fin (of_nat p) x
    = Some (Some (of_nat p, push_bit 8 (of_nat (8 + length pay)) OR drop_bit 56 beg, 0, beg, fin), x\<lparr>xc_f := f\<rparr>)"
proof -
  have l62: "length d < 2 ^ 62" using len by simp
  note h = head_at [OF assms(1,2) l62]
  let ?n = "of_nat (8 + length pay) :: u64" and ?b = "ucast (drop_bit 56 beg) :: u8"
  have n: "?n < 2 ^ 56" using h(4,5) len by (simp add: word_less_nat_alt)
  have bytes: "drop (p + 1) d = 0 # be_loop 8 (push_bit 8 ?n OR ucast ?b) @ be_loop 7 beg @ drop 8 (pay @ post)"
  proof -
    have n0: "drop_bit 56 ?n = 0"
    proof -
      have "unat ?n < 2 ^ 56" using n by (simp add: word_less_nat_alt)
      then have "unat (drop_bit 56 ?n) = 0" by (subst unat_drop_bit_eq) (simp only: drop_bit_eq_div div_less)
      then show ?thesis by (simp only: unat_eq_0)
    qed
    have "drop p d = [FST_BL_VCDATA_DYN_ALIAS2] @ be_loop 8 ?n @ pay @ post"
      using d by (simp add: section_bytes_def del: be_loop.simps)
    from drop_record [OF this] have "drop (p + 1) d = be_loop 8 ?n @ pay @ post" by simp
    also have "be_loop 8 ?n = 0 # be_loop 7 ?n" using be_loop_head [of 7 ?n] n0 by simp
    also have "pay @ post = be_loop 8 beg @ drop 8 (pay @ post)" unfolding pay block_payload_def by simp
    also have "be_loop 8 beg = ?b # be_loop 7 beg" using be_loop_head [of 7 beg] by simp
    finally show ?thesis using be_loop_snoc [OF n, of ?b] by (simp del: be_loop.simps)
  qed
  let ?x = "\<lambda>q. x\<lparr>xc_f := file_at d q\<rparr>" let ?s = "push_bit 8 ?n OR ucast ?b"
  have s: "seek_f (sint (of_nat p + 1 :: u64)) SEEK_SET (?x (p + 25)) = ?x (p + 1)"
  proof -
    have "sint (of_nat (p + 1) :: u64) = int (p + 1)" by (rule sint_small(2)) (use h(5) len in simp)
    then have "sint (of_nat p + 1 :: u64) = int (p + 1)" by (simp add: add.commute)
    then show ?thesis using seek_f_at [of "?x (p + 25)" d "p + 25" "p + 1"] by (simp only:) simp
  qed
  have g: "fgetc (file_at d (p + 1)) = (0, file_at d (p + 2))" using fgetc_u8_Cons(2) [of "file_at d (p + 1)"] bytes by simp
  have u: "u64_f up (?x (p + 2)) = (?s, ?x (p + 10))"
  proof -
    have "drop (p + 2) d = be_loop 8 ?s @ be_loop 7 beg @ drop 8 (pay @ post)"
      using drop_record [of "p + 1" d "[0]"] bytes by (simp del: be_loop.simps)
    from u64_at [OF _ this, of "?x (p + 2)" up] show ?thesis by simp
  qed
  obtain v1 f1 where u1: "u64_f up (?x (p + 10)) = (v1, x\<lparr>xc_f := f1\<rparr>)"
    using u64_f_frame [of up "?x (p + 10)"] by (cases "u64_f up (?x (p + 10))") auto
  obtain v2 f2 where u2: "u64_f up (x\<lparr>xc_f := f1\<rparr>) = (v2, x\<lparr>xc_f := f2\<rparr>)"
    using u64_f_frame [of up "x\<lparr>xc_f := f1\<rparr>"] by (cases "u64_f up (x\<lparr>xc_f := f1\<rparr>)") auto
  have "rvat_look up fin (of_nat p) x = (Look_block (of_nat p) ?s 0 beg fin, x\<lparr>xc_f := f2\<rparr>)"
  proof -
    have a: "FST_BL_VCDATA_DYN_ALIAS2 \<noteq> 255" "\<not> uint FST_BL_VCDATA_DYN_ALIAS2 \<notin> {1, 5, 8}" by simp_all
    have c: "beg \<le> fin \<and> fin \<le> fin" "fin = fin \<and> fin \<noteq> end_time (?x (p + 25))" "(0 :: int) \<notin> {1, 5, 8} \<or> b" for b
      using t by simp_all
    have xf: "xc_f (?x k) = file_at d k" "(?x k)\<lparr>xc_f := file_at d j\<rparr> = ?x j" for k j by simp_all
    show ?thesis
      unfolding look_head [OF assms(1,2) l62 a(1)] if_not_P [OF a(2)] look_times [OF d [unfolded pay]] Let_def prod.case
        if_P [OF c(1)] if_P [OF c(2)] s xf g u u1 u2 if_P [OF c(3)] ..
  qed
  moreover have "ucast ?b = drop_bit 56 beg" by (rule bit_word_eqI) (auto simp: bit_simps dest: bit_imp_le_length)
  ultimately show ?thesis by (intro exI [of _ f2], subst rvat_find.simps) simp
qed

text \<open>A block with nothing in it from 5 to 9, and the one from 9 on behind it: the query for 9 gets neither.\<close>

lemma last_time_misread_witness:
  defines "blk \<equiv> \<lambda>beg fin. section_bytes FST_BL_VCDATA_DYN_ALIAS2 (block_payload beg fin 0 [] 0 90 [] [] [])"
  shows "\<exists>f. rvat_find plain_unpackers 9 0 (reader_zero\<lparr>end_time := 20, xc_f := file_at (blk 5 9 @ blk 9 20) 0\<rparr>)
    = Some (Some (0, 42 * 256, 0, 5, 9), reader_zero\<lparr>end_time := 20, xc_f := f\<rparr>)"
proof -
  let ?p = "block_payload 5 9 0 [] 0 90 [] [] []" let ?x = "reader_zero\<lparr>end_time := 20, xc_f := file_at (blk 5 9 @ blk 9 20) 0\<rparr>"
  have l: "length (block_payload b e 0 [] 0 90 [] [] []) = 34" for b e by (simp add: block_payload_def varint_unfold del: be_loop.simps)
  have "length (blk 5 9 @ blk 9 20) < 2 ^ 56" by (simp add: blk_def length_section_bytes l)
  moreover have "drop 0 (blk 5 9 @ blk 9 20) = section_bytes FST_BL_VCDATA_DYN_ALIAS2 ?p @ blk 9 20" by (simp add: blk_def)
  ultimately obtain f where "rvat_find plain_unpackers 9 (of_nat 0) ?x
      = Some (Some (of_nat 0, push_bit 8 (of_nat (8 + length ?p)) OR drop_bit 56 5, 0, 5, 9), ?x\<lparr>xc_f := f\<rparr>)"
    using last_time_misread [of ?x "blk 5 9 @ blk 9 20" 0 0 ?p "blk 9 20" 5 9 0 "[]" 0 90 "[]" "[]" "[]" plain_unpackers] by auto
  moreover have "push_bit 8 (of_nat (8 + length ?p)) OR drop_bit 56 5 = (42 * 256 :: u64)" unfolding l by code_simp
  ultimately show ?thesis by (intro exI [of _ f]) simp
qed


section \<open>A stale place\<close>

lemma extract_pos:
  "fstExtractRvatDataFromFrame fmt (rv\<lparr>rvat_chain_pos_time := t\<rparr>) x buf = fstExtractRvatDataFromFrame fmt rv x buf"
  using same_blockD(2) [OF same_block_pos [of rv "rvat_chain_pos_valid rv" t "rvat_chain_pos_idx rv" "rvat_chain_pos_tidx rv"]] by simp

lemma run_from_frame:
  assumes n: "load (signal_lens (rv_xc rv)) (unat facidx) = Inr n" and st: "rvat_start tim rv = (w, rv1)"
    and mem: "rvat_chain_mem rv = Some mem"
    and wk: "rvat_walk n mem (rvat_time_table rv) tim (rvat_chain_len rv) w = Some (Inr w)"
  shows "rvat_run fmt tim facidx buf rv
    = Some (andthen (fstExtractRvatDataFromFrame fmt rv facidx buf) (\<lambda>(ret, buf). Inr (ret, buf, rv1)))"
proof -
  obtain t where r: "rv1 = rv\<lparr>rvat_chain_pos_time := t\<rparr>"
  proof (cases "rvat_chain_pos_valid rv \<and> rvat_chain_pos_time rv \<le> tim")
    case True
    then show ?thesis using st that [of "rvat_chain_pos_time rv"] by (simp add: rvat_start_def)
  next
    case False
    then show ?thesis using st by (intro that [of "rvat_beg_tim rv"]) (auto simp: rvat_start_def)
  qed
  have "wk_iprev w = rvat_chain_len rv" using st by (auto simp: rvat_start_def Let_def split: if_splits)
  then show ?thesis using assms by (simp add: rvat_run_def r extract_pos)
qed

text \<open>
  C37. A place is kept for a run of records: it is at the record \<open>(d, v)\<close>, behind the records \<open>cs1\<close>. A
  query for a time \<open>tim0\<close> before all changes resets the time of the place to the begin of the block,
  but not the place. A query after that, for a time \<open>tim1\<close> before that of the record, therefore
  starts its walk at the record, stops there at once, and answers the value of the frame, however many
  changes of \<open>cs1\<close> are before \<open>tim1\<close>.
\<close>

theorem stale_place:
  assumes n: "load (signal_lens (rv_xc rv)) (unat facidx) = Inr n" "n \<noteq> 0" and mem: "rvat_chain_mem rv = Some (enc_run n (cs1 @ (d, v) # cs2))"
    and len: "rvat_chain_len rv = of_nat (length (enc_run n (cs1 @ (d, v) # cs2)))" "length (enc_run n (cs1 @ (d, v) # cs2)) < 2 ^ 32"
    and ok: "recs_ok n (cs1 @ (d, v) # cs2)" "length (rvat_time_table rv) < 2 ^ 32"
      "\<forall>(t, v) \<in> set (at_times 0 (cs1 @ (d, v) # cs2)). t < length (rvat_time_table rv)"
    and place: "rvat_chain_pos_valid rv" "rvat_chain_pos_idx rv = of_nat (length (enc_run n cs1))"
      "rvat_chain_pos_tidx rv = of_nat (sum_from 0 cs1)"
    and t0: "tim0 < rvat_chain_pos_time rv" "\<forall>(t, v) \<in> set (at_times 0 (cs1 @ (d, v) # cs2)). tim0 < rvat_time_table rv ! t"
    and t1: "rvat_beg_tim rv \<le> tim1" "tim1 < rvat_time_table rv ! sum_from 0 (cs1 @ [(d, v)])"
  shows "\<exists>rv1 rv2. rvat_run fmt tim0 facidx buf0 rv
      = Some (andthen (fstExtractRvatDataFromFrame fmt rv facidx buf0) (\<lambda>(ret, buf). Inr (ret, buf, rv1)))
    \<and> rvat_run fmt tim1 facidx buf1 rv1
      = Some (andthen (fstExtractRvatDataFromFrame fmt rv facidx buf1) (\<lambda>(ret, buf). Inr (ret, buf, rv2)))"
proof -
  let ?R = "cs1 @ (d, v) # cs2" and ?ts = "rvat_time_table rv" let ?run = "enc_run n ?R"
  define w0 where "w0 = \<lparr>wk_i = 0, wk_tidx = 0, wk_iprev = rvat_chain_len rv, wk_ptidx = 0, wk_pvli = 0, wk_pskip = 0\<rparr>"
  define rv1 where "rv1 = rv\<lparr>rvat_chain_pos_time := rvat_beg_tim rv\<rparr>"
  have 1: "rvat_start tim0 rv = (w0, rv1)" using t0(1) by (simp add: rvat_start_def Let_def w0_def rv1_def not_le [symmetric])
  have "n_until ?ts tim0 0 ?R = 0"
  proof -
    obtain d0 v0 cs where R: "?R = (d0, v0) # cs" by (metis append_is_Nil_conv list.exhaust list.simps(3) surj_pair)
    then show ?thesis using t0(2) by (simp add: R not_le [symmetric])
  qed
  then have "rvat_walk n ?run ?ts tim0 (of_nat (length ?run)) w0 = Some (Inr w0)"
    using walk_run [of ?run "[]" n ?R 0 ?ts w0 tim0] ok n(2) len(2) by (auto simp: w0_def)
  from run_from_frame [OF n(1) 1 mem this [folded len(1)]] have a: "rvat_run fmt tim0 facidx buf0 rv
      = Some (andthen (fstExtractRvatDataFromFrame fmt rv facidx buf0) (\<lambda>(ret, buf). Inr (ret, buf, rv1)))" .
  define w1 where "w1 = w0\<lparr>wk_i := rvat_chain_pos_idx rv, wk_tidx := rvat_chain_pos_tidx rv\<rparr>"
  have 2: "rvat_start tim1 rv1 = (w1, rv1)" using place(1) t1(1) by (simp add: rvat_start_def Let_def w1_def w0_def rv1_def)
  have f: "load (signal_lens (rv_xc rv1)) (unat facidx) = Inr n" "rvat_chain_mem rv1 = Some ?run" "rvat_time_table rv1 = ?ts"
    "rvat_chain_len rv1 = of_nat (length ?run)"
    using n(1) mem len(1) by (simp_all add: rv1_def)
  have "n_until ?ts tim1 (sum_from 0 cs1) ((d, v) # cs2) = 0" using t1(2) by (simp add: sum_from_def add.assoc)
  moreover have "\<forall>(t, v) \<in> set (at_times (sum_from 0 cs1) ((d, v) # cs2)). t < length ?ts" using ok(3) by (simp add: at_times_append)
  moreover have "recs_ok n ((d, v) # cs2)" using ok(1) by (auto simp: recs_ok_def)
  ultimately have "rvat_walk n ?run ?ts tim1 (of_nat (length ?run)) w1 = Some (Inr w1)"
    using walk_run [of ?run "enc_run n cs1" n "(d, v) # cs2" "sum_from 0 cs1" ?ts w1 tim1] n(2) len(2) ok(2) place(2,3)
    by (auto simp: w1_def)
  then have "rvat_walk n ?run (rvat_time_table rv1) tim1 (rvat_chain_len rv1) w1 = Some (Inr w1)" by (simp only: f(3,4))
  from run_from_frame [OF f(1) 2 f(2) this] have "rvat_run fmt tim1 facidx buf1 rv1
      = Some (andthen (fstExtractRvatDataFromFrame fmt rv facidx buf1) (\<lambda>(ret, buf). Inr (ret, buf, rv1)))"
    by (simp add: rv1_def extract_pos)
  with a show ?thesis by blast
qed


text \<open>
  A bit that is \<open>x\<close> at first, changes to \<open>0\<close> at 6 and to \<open>1\<close> at 8, with the place of a query for 9.
  After a query for 5 the query for 7 answers \<open>x\<close>; without a place it answers \<open>0\<close>.
\<close>

definition demo_place :: rvat where
  "demo_place = (fresh_rvat (reader_zero\<lparr>signal_lens := [1], signal_typs := [16]\<rparr>))\<lparr>rvat_data_valid := True,
     rvat_time_table := [6, 8], rvat_beg_tim := 5, rvat_end_tim := 9, rvat_frame_data := [120], rvat_frame_maxhandle := 1,
     rvat_sig_offs := Some [0], rvat_chain_len := 2, rvat_chain_mem := Some [0, 6],
     rvat_chain_pos_idx := 1, rvat_chain_pos_time := 9, rvat_chain_pos_valid := True\<rparr>"

lemma stale_place_witness:
  "\<exists>rv1 rv2 rv3. rvat_run id 5 0 [0, 0] demo_place = Some (Inr (True, [120, 0], rv1))
    \<and> rvat_run id 7 0 [0, 0] rv1 = Some (Inr (True, [120, 0], rv2))
    \<and> rvat_run id 7 0 [0, 0] (demo_place\<lparr>rvat_chain_pos_valid := False\<rparr>) = Some (Inr (True, [48, 0], rv3))"
proof -
  have run: "enc_run 1 [(0, [48]), (1, [49])] = [0, 6]" "enc_run 1 [(0, [48])] = [0]" by code_simp+
  have ok: "recs_ok 1 [(0, [48]), (1, [49])]" by (simp add: recs_ok_def val_ok_def delta_ok_def)
  have fr: "fstExtractRvatDataFromFrame id demo_place 0 [0, 0] = Inr (True, [120, 0])"
    by (simp add: fstExtractRvatDataFromFrame_def demo_place_def fresh_rvat_def reader_zero_def store_n_def)
  obtain rv1 rv2 where "rvat_run id 5 0 [0, 0] demo_place = Some (andthen (fstExtractRvatDataFromFrame id demo_place 0 [0, 0]) (\<lambda>(ret, buf). Inr (ret, buf, rv1)))"
    "rvat_run id 7 0 [0, 0] rv1 = Some (andthen (fstExtractRvatDataFromFrame id demo_place 0 [0, 0]) (\<lambda>(ret, buf). Inr (ret, buf, rv2)))"
    using stale_place [of demo_place 0 1 "[(0, [48])]" 1 "[49]" "[]" 5 7 id "[0, 0]" "[0, 0]"] ok run
    by (auto simp: demo_place_def fresh_rvat_def sum_from_def)
  moreover have "\<exists>rv3. rvat_run id 7 0 [0, 0] (demo_place\<lparr>rvat_chain_pos_valid := False\<rparr>) = Some (Inr (True, [48, 0], rv3))"
  proof -
    have g: "fstGetVarint32 [0, 6] = Inr (0, 1)" "fstGetVarint32 [6] = Inr (6, 1)" "rec_delta 1 0 = 0" "rec_delta 1 6 = 1" "rec_char 0 = 48"
      by code_simp+
    show ?thesis
      by (simp add: rvat_run_def rvat_start_def Let_def demo_place_def fresh_rvat_def rvat_walk.simps rvat_step_def rvat_value_def g store_n_def)
  qed
  ultimately show ?thesis using fr by auto
qed

end
