(* ===== verification/Write_Query.thy ===== *)
theory Write_Query
  imports Rvat_Answers
begin

text \<open>
  From the writer to the queries: a writer that is closed with changes pending, the file it leaves,
  opened by \<open>fstReaderOpen\<close> and asked for values.
\<close>

section \<open>What a query depends on\<close>

definition alike :: "fstReaderContext \<Rightarrow> fstReaderContext \<Rightarrow> bool" where
  "alike x y \<longleftrightarrow> signal_lens x = signal_lens y \<and> signal_typs x = signal_typs y \<and> end_time x = end_time y
     \<and> fstReaderContext.maxhandle x = fstReaderContext.maxhandle y \<and> double_endian_match x = double_endian_match y"

lemma alike_value_at: "alike x y \<Longrightarrow> value_at fmt x secs tim h = value_at fmt y secs tim h"
proof -
  assume a: "alike x y"
  then have e: "signal_lens x = signal_lens y" "signal_typs x = signal_typs y" "fstReaderContext.maxhandle x = fstReaderContext.maxhandle y"
    by (simp_all add: alike_def)
  from a have t: "shown_text fmt x = shown_text fmt y" by (simp add: alike_def shown_text_def fun_eq_iff)
  then have f: "frame_text fmt x = frame_text fmt y" by (simp add: e frame_text_def Let_def fun_eq_iff)
  show ?thesis unfolding value_at_def e t f ..
qed

lemma alike_queries: "alike x y \<Longrightarrow> queries_ok fmt x secs past qs = queries_ok fmt y secs past qs"
proof (induction qs arbitrary: past)
  case (Cons q qs)
  have "end_time x = end_time y" using Cons.prems by (simp add: alike_def)
  then have "query_ok fmt x secs past q = query_ok fmt y secs past q"
    using alike_value_at [OF Cons.prems, of fmt secs] by (cases q) (simp add: query_ok_defs)
  then show ?case using Cons by simp
qed simp

lemma alike_vblock: "alike x y \<Longrightarrow> vblock_ok up pk x b = vblock_ok up pk y b"
  by (simp add: alike_def vblock_ok_def)

section \<open>The other sections\<close>

definition other :: "fsec \<Rightarrow> bool" where
  "other s \<longleftrightarrow> (case s of Other tag p \<Rightarrow> True | Block b \<Rightarrow> False)"

lemma find_none: "\<forall>x \<in> set xs. \<not> P x \<Longrightarrow> List.find P (xs @ ys @ zs) = List.find P (ys @ zs)"
  by (induction xs) auto

lemma find_none_behind: "\<forall>x \<in> set zs. \<not> P x \<Longrightarrow> List.find P (ys @ zs) = List.find P ys"
  by (induction ys) (auto simp: find_None_iff)

lemma other_not_covers: "other s \<Longrightarrow> \<not> covers tim s"
  by (simp add: other_def covers_def split: fsec.splits)

lemma block_for_between:
  assumes "\<forall>s \<in> set A. other s" and "\<forall>s \<in> set B. other s"
  shows "block_for tim (A @ secs @ B) = block_for tim secs"
proof -
  have "List.find (covers tim) (A @ secs @ B) = List.find (covers tim) secs"
    using assms other_not_covers by (subst find_none) (auto simp: find_none_behind)
  then show ?thesis by (simp add: block_for_def)
qed

lemma value_at_between:
  assumes "\<forall>s \<in> set A. other s" and "\<forall>s \<in> set B. other s"
  shows "value_at fmt xc (A @ secs @ B) tim h = value_at fmt xc secs tim h"
  unfolding value_at_def block_for_between [OF assms] ..

lemma queries_between:
  assumes "\<forall>s \<in> set A. other s" and "\<forall>s \<in> set B. other s"
  shows "queries_ok fmt xc (A @ secs @ B) past qs = queries_ok fmt xc secs past qs"
proof (induction qs arbitrary: past)
  case (Cons q qs)
  have "(\<forall>s \<in> set (A @ secs @ B). covers tim s \<longrightarrow> P s) \<longleftrightarrow> (\<forall>s \<in> set secs. covers tim s \<longrightarrow> P s)" for tim P
    using assms other_not_covers by auto
  then have "query_ok fmt xc (A @ secs @ B) past q = query_ok fmt xc secs past q"
    by (cases q) (simp only: query_ok_defs prod.case value_at_between [OF assms] block_for_between [OF assms])
  then show ?case using Cons.IH by simp
qed simp

text \<open>The sections of a closed file.\<close>

definition closing_secs :: "packers \<Rightarrow> (bytes list \<Rightarrow> bytes option) \<Rightarrow> fstWriterContext \<Rightarrow> fsec list" where
  "closing_secs pk gz xc =
     (if f_data (geom_handle xc) = [] then [] else [Other FST_BL_GEOM (geom_payload pk xc)])
     @ (if blackout_head xc = [] then [] else [Other FST_BL_BLACKOUT (blackout_payload (blackout_head xc))])
     @ (if compress_hier xc then [Other (fst (hier_packed pk gz xc)) (hier_payload pk gz xc)] else [])"

lemma closing_secs_bytes: "file_bytes pk (closing_secs pk gz xc) = closing_sections pk gz xc"
  by (simp add: closing_secs_def closing_sections_def file_bytes_def sec_bytes_def)

lemma closing_secs_plain: "s \<in> set (closing_secs pk gz xc) \<Longrightarrow> other s \<and> sec_plain s"
  using hier_packed_tag [of pk gz xc]
  by (auto simp: closing_secs_def other_def sec_plain_def word_uint_eq_iff split: if_splits)

definition closed_secs :: "packers \<Rightarrow> (bytes list \<Rightarrow> bytes option) \<Rightarrow> fstWriterContext \<Rightarrow> hdr \<Rightarrow> vblock list \<Rightarrow> fsec list" where
  "closed_secs pk gz xc h bs = [Other 0 (hdr_payload h)] @ map Block bs @ closing_secs pk gz xc"

lemma closed_secs_bytes:
  "file_bytes pk (closed_secs pk gz xc h bs) = hdr_encode h @ file_bytes pk (map Block bs) @ closing_sections pk gz xc"
  by (simp add: closed_secs_def file_bytes_def sec_bytes_def hdr_encode_section(1) [symmetric] closing_secs_bytes [unfolded file_bytes_def])

lemma closed_file_ok:
  assumes "\<forall>b \<in> set bs. vblock_ok up pk xr b" and "unat (fstReaderContext.maxhandle xr) \<le> length (signal_lens xr)"
    and "length (file_bytes pk (closed_secs pk gz xc h bs)) < 2 ^ 62"
  shows "rvat_file_ok up pk xr (closed_secs pk gz xc h bs)"
proof -
  have "(case s of Other tag p \<Rightarrow> True | Block b \<Rightarrow> vblock_ok up pk xr b) \<and> sec_plain s" if "s \<in> set (closed_secs pk gz xc h bs)" for s
  proof (cases "s \<in> set (closing_secs pk gz xc)")
    case True
    show ?thesis using closing_secs_plain [OF True] by (cases s) (simp_all add: other_def)
  next
    case False
    then show ?thesis using that assms(1) by (auto simp: closed_secs_def sec_plain_def)
  qed
  then show ?thesis using assms(2,3) by (simp add: rvat_file_ok_def)
qed

section \<open>The last block\<close>

text \<open>The block that closing the writer makes of what is pending.\<close>

definition pending_block :: "fstWriterContext \<Rightarrow> (nat \<Rightarrow> (u32 \<times> bytes) list) \<Rightarrow> u64 \<Rightarrow> bytes \<Rightarrow> u32 \<Rightarrow> u64 list \<Rightarrow> vblock" where
  "pending_block xc G beg fr fm dist = \<lparr>vb_beg = beg, vb_fin = curtime xc,
     vb_mem = of_nat (runs_length xc G (unat (fstWriterContext.maxhandle xc))), vb_frame = fr, vb_fm = fm,
     vb_m = fstWriterContext.maxhandle xc, vb_writer = xc, vb_hist = G, vb_dist = dist\<rparr>"

lemma pending_payload:
  assumes "f_data (tchn_handle xc) = concat (map varint dist)" and "tchn_cnt xc = of_nat (length dist)"
  shows "flushed_block pk (xc\<lparr>already_in_close := True, skip_writing_section_hdr := True\<rparr>) G beg (frame_part pk fr fm)
    = vblock_payload pk (pending_block xc G beg fr fm dist)"
proof -
  let ?xw = "xc\<lparr>already_in_close := True, skip_writing_section_hdr := True\<rparr>"
  have "pack_chain pk ?xw = pack_chain pk xc" by (intro ext pack_chain_cong) simp_all
  then have "items_of pk ?xw H k = items_of pk xc H k" for H k by (simp add: items_of_def item_of_def [abs_def])
  then have b: "block_runs pk ?xw H k = block_runs pk xc H k" "block_index pk ?xw H k = block_index pk xc H k" for H k
    by (simp_all add: block_runs_def block_index_def)
  have "pack_type ?xw = pack_type xc" "runs_length ?xw H k = runs_length xc H k" for H k
    by (simp_all add: pack_type_def runs_length_def)
  then show ?thesis using assms b by (simp add: flushed_block_def vblock_payload_def pending_block_def Let_def)
qed

lemma close_pending:
  fixes xc :: fstWriterContext
  assumes live: "\<not> already_in_flush xc" "\<not> is_initial_time xc" "\<not> size_limit_locked xc"
      "1 < vchg_siz xc" "dump_size_limit xc = 0"
    and open_: "f_data (handle xc) = pre @ open_header beg cur (frame_part pk fr fm)" "section_start xc = length pre + 1"
    and times: "at_end (tchn_handle xc)" "f_data (tchn_handle xc) = concat (map varint dist)" "tchn_cnt xc = of_nat (length dist)"
    and wr: "writer_ready nt xc (unat (fstWriterContext.maxhandle xc)) G"
    and b: "1 + length (block_runs pk xc G (unat (fstWriterContext.maxhandle xc))) < 2 ^ 31"
  obtains vp where "close_changes pk (xc\<lparr>already_in_close := True\<rparr>)
    = Inr ((flushed (xc\<lparr>already_in_close := True, skip_writing_section_hdr := True\<rparr>) G vp
        (pre @ section_bytes FST_BL_VCDATA_DYN_ALIAS2 (vblock_payload pk (pending_block xc G beg fr fm dist))))\<lparr>already_in_flush := False\<rparr>)"
    and "same_cells vp (valpos xc)"
proof -
  let ?xw = "xc\<lparr>already_in_close := True, skip_writing_section_hdr := True\<rparr>"
  have "pack_chain pk ?xw = pack_chain pk xc" by (intro ext pack_chain_cong) simp_all
  then have "items_of pk ?xw H k = items_of pk xc H k" for H k by (simp add: items_of_def item_of_def [abs_def])
  then have b': "1 + length (block_runs pk ?xw G (unat (fstWriterContext.maxhandle ?xw))) < 2 ^ 31" using b by (simp add: block_runs_def)
  have "handle_ok ?xw t H = handle_ok xc t H" for t H by (simp add: handle_ok_def)
  then have wr': "writer_ready nt ?xw (unat (fstWriterContext.maxhandle ?xw)) G" using wr by (simp add: writer_ready_def)
  obtain vp where v: "fstWriterFlushContextPrivate pk ?xw = Inr ((flushed ?xw G vp
      (pre @ section_bytes FST_BL_VCDATA_DYN_ALIAS2 (flushed_block pk ?xw G beg (frame_part pk fr fm))))\<lparr>already_in_flush := False\<rparr>)"
    "same_cells vp (valpos ?xw)"
    by (rule last_flush [OF wr', of pre beg cur "frame_part pk fr fm" pk]) (use open_ live times(1) b' in simp_all)
  have nv: "\<not> vchg_siz xc \<le> 1" using live(4) by (simp add: not_le)
  have "close_changes pk (xc\<lparr>already_in_close := True\<rparr>) = fstWriterFlushContextPrivate pk ?xw"
    using live(2,3) nv by (simp add: close_changes_def Let_def)
  then show ?thesis using v that pending_payload [OF times(2,3)] by simp
qed


section \<open>Properties\<close>

text \<open>The members of the context that is opened that count for a query.\<close>

definition reader_view :: "(u8 \<times> u32) list \<Rightarrow> u64 \<Rightarrow> fstReaderContext" where
  "reader_view vs fin = (fstReaderContext.maxhandle_update (\<lambda>_. of_nat (length vs)) reader_zero)\<lparr>signal_lens := map geom_len vs,
     signal_typs := map geom_typ vs, end_time := fin, double_endian_match := True\<rparr>"

text \<open>
  C1. From the writer to the answers. A writer has the blocks \<open>bs\<close> in its file and the histories \<open>G\<close>
  pending since the time \<open>beg\<close>. \<open>fstWriterClose\<close> flushes them and finishes the file, \<open>fstReaderOpen\<close> opens
  what is on the disk, and a list of queries by \<open>fstReaderGetValueFromHandleAtTime\<close> answers from the
  histories of all the blocks: the last change of the handle that is not after the time, or what the
  frame of its block holds. The queries are those of \<open>queries_ok\<close>: the buffer holds the answer, none is for the last
  time of a block before the last one (or for a time two blocks cover), and none steps back to before the first
  change of a handle in a block after a query of that handle for a later time there; on the others the code goes
  wrong (\<open>Rvat_Faults\<close>). When the hierarchy is packed by LZ4, the mapping of its file must show all of it
  (\<open>hier_shown\<close>), which the code does not see to.
\<close>

theorem write_close_query:
  assumes live: "\<not> already_in_close xc" "\<not> already_in_flush xc" "\<not> is_initial_time xc" "\<not> size_limit_locked xc"
      "1 < vchg_siz xc" "dump_size_limit xc = 0"
    and op: "closable xc h (file_bytes pk (map Block bs) @ open_header beg cur (frame_part pk fr fm))"
      "section_start xc = 331 + length (file_bytes pk (map Block bs))"
    and times: "at_end (tchn_handle xc)" "f_data (tchn_handle xc) = concat (map varint dist)" "tchn_cnt xc = of_nat (length dist)"
      "firsttime xc \<noteq> 0 \<or> curtime xc \<noteq> 0"
    and decl: "decl_rel xc vs" "vs \<noteq> []" "length vs < 2 ^ 32"
    and blocks: "all = bs @ [pending_block xc G beg fr fm dist]" "\<forall>b \<in> set all. vblock_ok up pk (reader_view vs (curtime xc)) b"
    and d: "d = hdr_encode (hdr_counts (xc\<lparr>secnum := secnum xc + 1\<rparr>) h) @ file_bytes pk (map Block all) @ closing_sections pk gz xc"
      "length d < 2 ^ 62"
    and mal: "\<And>n. length (malloc_bytes up n) = n" and z: "unpacks up pk (geom_bytes vs)"
    and hs: "compress_hier xc \<Longrightarrow> hier_shown mm xc"
    and hz: "compress_hier xc \<Longrightarrow> hier_unpacks gunz lz4 pk gz xc" and hl: "length (f_data (hier_handle xc)) < 2 ^ 63"
      "length (LZ4_compress_default pk (f_data (hier_handle xc))) < 2 ^ 63"
    and rp: "repack_on_close xc \<and> pak_ok \<Longrightarrow> \<exists>w. gz (chunked d) = Some w \<and> gunz w = Some d \<and> length w < 2 ^ 63"
    and q: "queries_ok fmt (reader_view vs (curtime xc)) (map Block all) {} qs"
  shows "\<exists>c xr rv. fstWriterClose pk gz mm junk pak_ok (Some xc) = Inr (Some c)
    \<and> fstReaderOpen up gunz True recreate (Some (cl_file c)) (cl_hier c) = Some (Inr (Some xr))
    \<and> run_queries up fmt qs (fresh_rvat xr) = Some (Inr (map (\<lambda>(tim, hnd, buf).
        reply (value_at fmt (reader_view vs (curtime xc)) (map Block all) tim hnd) buf) qs, rv))"
proof -
  let ?b = "pending_block xc G beg fr fm dist" and ?view = "reader_view vs (curtime xc)"
  let ?pre = "hdr_encode h @ file_bytes pk (map Block bs)"
  let ?xw = "xc\<lparr>already_in_close := True, skip_writing_section_hdr := True\<rparr>"
  let ?dd = "?pre @ section_bytes FST_BL_VCDATA_DYN_ALIAS2 (vblock_payload pk ?b)"
  have vb: "vblock_ok up pk ?view ?b" using blocks by simp
  obtain nt where wr: "writer_ready nt xc (unat (fstWriterContext.maxhandle xc)) G"
      "1 + length (block_runs pk xc G (unat (fstWriterContext.maxhandle xc))) < 2 ^ 31"
    using vb by (auto simp: vblock_ok_def pending_block_def Let_def)
  have pre: "f_data (handle xc) = ?pre @ open_header beg cur (frame_part pk fr fm)" "section_start xc = length ?pre + 1"
    using op hdr_encode_section [of h] by (simp_all add: closable_def)
  obtain vp where ch: "close_changes pk (xc\<lparr>already_in_close := True\<rparr>) = Inr ((flushed ?xw G vp ?dd)\<lparr>already_in_flush := False\<rparr>)"
    "same_cells vp (valpos xc)"
    by (rule close_pending [OF live(2-6) pre times(1-3) wr])
  define xc1 where "xc1 = (flushed ?xw G vp ?dd)\<lparr>already_in_flush := False\<rparr>"
  define bb where "bb = map (\<lambda>b. (FST_BL_VCDATA_DYN_ALIAS2, vblock_payload pk b)) all"
  have bb: "blocks_bytes bb = file_bytes pk (map Block all)"
    by (simp add: bb_def blocks_bytes_def file_bytes_def sec_bytes_def comp_def)
  have "?dd = hdr_encode h @ blocks_bytes bb" unfolding bb by (simp add: blocks(1) file_bytes_def sec_bytes_def)
  then have cl: "closable xc1 h (blocks_bytes bb)" using op(1) by (simp add: closable_def xc1_def flushed_def at_end_def hier_ok_def)
  have dr: "decl_rel xc1 vs" using decl(1) ch(2) by (simp add: decl_rel_def xc1_def flushed_def same_cells_def)
  have hp: "hier_packed pk gz xc1 = hier_packed pk gz xc" by (simp add: xc1_def flushed_def hier_packed_def Let_def)
  have pl: "geom_payload pk xc1 = geom_payload pk xc" "hier_payload pk gz xc1 = hier_payload pk gz xc"
    by (simp_all add: hp hier_payload_def) (simp_all add: xc1_def flushed_def geom_payload_def)
  have same: "firsttime xc1 = firsttime xc" "curtime xc1 = curtime xc" "hier_handle xc1 = hier_handle xc" "compress_hier xc1 = compress_hier xc"
    "repack_on_close xc1 = repack_on_close xc" "closing_sections pk gz xc1 = closing_sections pk gz xc"
    "hdr_counts xc1 h = hdr_counts (xc\<lparr>secnum := secnum xc + 1\<rparr>) h"
    by (simp_all add: closing_sections_def hp pl) (simp_all add: xc1_def flushed_def hdr_counts_def)
  have hu: "hier_unpacks gu l pk gz xc1 = hier_unpacks gu l pk gz xc" for gu l
    by (simp add: xc1_def flushed_def hier_unpacks_def Let_def)
  have hw: "hier_shown m xc1 = hier_shown m xc" for m by (simp add: xc1_def flushed_def hier_shown_def)
  have "\<forall>(t, p) \<in> set bb. is_vc_tag t" "bb \<noteq> []" by (auto simp: bb_def is_vc_tag_def blocks(1))
  from close_open [where gz = gz and up = up and gunz = gunz and ?lz4.0 = lz4 and pak_ok = pak_ok and junk' = "[]" and junk = junk and recreate = recreate, OF live(1,2) ch(1) [folded xc1_def] cl this dr decl(2,3), unfolded same hu hw bb,
      OF times(4) d(1) _ mal z hs hz hl rp] d(2) obtain c xr where r: "fstWriterClose pk gz mm junk pak_ok (Some xc) = Inr (Some c)"
    "fstReaderOpen up gunz True recreate (Some (cl_file c)) (cl_hier c) = Some (Inr (Some xr))"
    "end_time xr = curtime xc" "fstReaderContext.maxhandle xr = fstWriterContext.maxhandle xc1"
    "signal_lens xr = map geom_len vs" "signal_typs xr = map geom_typ vs" "f_data (xc_f xr) = d" "double_endian_match xr"
    by auto
  have al: "alike xr ?view" using r(3-6,8) dr by (simp add: alike_def reader_view_def decl_rel_def)
  let ?secs = "closed_secs pk gz xc (hdr_counts (xc\<lparr>secnum := secnum xc + 1\<rparr>) h) all"
  have fb: "file_bytes pk ?secs = d" by (simp add: closed_secs_bytes d(1))
  have "unat (fstReaderContext.maxhandle xr) \<le> length (signal_lens xr)"
    using r(4,5) dr decl(3) by (simp add: decl_rel_def unat_of_nat_32)
  then have fo: "rvat_file_ok up pk xr ?secs"
    using blocks(2) alike_vblock [OF al] d(2) fb by (intro closed_file_ok) simp_all
  have ot: "\<forall>s \<in> set [Other 0 (hdr_payload (hdr_counts (xc\<lparr>secnum := secnum xc + 1\<rparr>) h))]. other s" "\<forall>s \<in> set (closing_secs pk gz xc). other s"
    using closing_secs_plain by (auto simp: other_def)
  have "queries_ok fmt xr ?secs {} qs"
    using q unfolding closed_secs_def queries_between [OF ot] alike_queries [OF al] .
  from queries_answered [OF fo _ mal this] r(7) fb obtain rv where
    "run_queries up fmt qs (fresh_rvat xr) = Some (Inr (map (\<lambda>(tim, h, buf). reply (value_at fmt xr ?secs tim h) buf) qs, rv))" by auto
  then have "run_queries up fmt qs (fresh_rvat xr)
      = Some (Inr (map (\<lambda>(tim, h, buf). reply (value_at fmt ?view (map Block all) tim h) buf) qs, rv))"
    unfolding closed_secs_def value_at_between [OF ot] alike_value_at [OF al] .
  then show ?thesis using r(1,2) by blast
qed


text \<open>
  Two bits that change at time 7, pending in a section begun at time 5, closed at time 9; the file is
  not packed and the hierarchy stays in its own file.
\<close>

definition demo_pending :: fstWriterContext where
  "demo_pending = demo_flush_writer\<lparr>
     handle := \<lparr>f_data = hdr_encode (initial_hdr []) @ open_header 5 5 (frame_part plain_packers [120, 120] 2), f_pos = 368, f_eof = False\<rparr>,
     section_start := 331, geom_handle := \<lparr>f_data = [1, 1], f_pos = 2, f_eof = False\<rparr>, firsttime := 5\<rparr>"

lemma demo_pending_ready:
  "writer_ready 1 demo_pending 2 (\<lambda>_. [(0, [49])])" "packs_back plain_unpackers 90 plain_packers demo_pending 2 (\<lambda>_. [(0, [49])])"
  "block_runs plain_packers demo_pending (\<lambda>_. [(0, [49])]) 2 = [0, 2]"
  "block_index plain_packers demo_pending (\<lambda>_. [(0, [49])]) 2 = [3, 127]"
proof -
  have p: "pack_chain plain_packers demo_pending = pack_chain plain_packers demo_flush_writer"
    "pack_chain plain_packers demo_pending = pack_chain plain_packers demo_block_writer"
    by (intro ext pack_chain_cong; simp add: demo_pending_def demo_flush_writer_def)+
  have v: "valpos demo_pending = valpos demo_flush_writer" "valpos demo_pending = valpos demo_block_writer"
    by (simp_all add: demo_pending_def demo_flush_writer_def)
  then have i: "items_of plain_packers demo_pending G 2 = items_of plain_packers demo_flush_writer G 2"
    "items_of plain_packers demo_pending G 2 = items_of plain_packers demo_block_writer G 2" for G
    by (simp_all add: items_of_def item_of_def [abs_def] p(1)) (simp_all add: p [symmetric] )
  show "block_runs plain_packers demo_pending (\<lambda>_. [(0, [49])]) 2 = [0, 2]"
    "block_index plain_packers demo_pending (\<lambda>_. [(0, [49])]) 2 = [3, 127]"
    using demo_flush(2,3) by (simp_all add: block_runs_def block_index_def i(1))
  show "packs_back plain_unpackers 90 plain_packers demo_pending 2 (\<lambda>_. [(0, [49])])"
    using demo_packs_back by (simp add: packs_back_def i(2) p(2) v(2))
  have "handle_ok demo_pending t H = handle_ok demo_flush_writer t H" for t H by (simp add: handle_ok_def demo_pending_def)
  moreover have "length (hdr_encode (initial_hdr [])) = 330" using hdr_encode_section [of "initial_hdr []"] by simp
  then have "at_end (handle demo_pending)"
    by (simp add: demo_pending_def at_end_def open_header_def frame_part_def packed_frame_def plain_packers_def varint_unfold del: be_loop.simps)
  ultimately show "writer_ready 1 demo_pending 2 (\<lambda>_. [(0, [49])])"
    using demo_flush(1) unfolding writer_ready_def by (simp add: demo_pending_def)
qed


lemma demo_pending_fields:
  "fstWriterContext.maxhandle demo_pending = 2" "curtime demo_pending = 9" "firsttime demo_pending = 5" "valpos demo_pending = [0, 1, 1, 0, 1, 1, 7, 0]"
  "f_data (geom_handle demo_pending) = [1, 1]" "blackout_head demo_pending = []" "compress_hier demo_pending = False"
  "repack_on_close demo_pending = False" "f_data (hier_handle demo_pending) = []" "pack_type demo_pending = 90"
  by (simp_all add: demo_pending_def demo_flush_writer_def demo_block_writer_def writer_zero_def new_file_def pack_type_def ascii_def)

lemma write_close_query_witness:
  "\<exists>c xr rv. fstWriterClose plain_packers (\<lambda>_. None) shows_all [] False (Some demo_pending) = Inr (Some c)
    \<and> fstReaderOpen plain_unpackers Some True (\<lambda>_. Inl Hang) (Some (cl_file c)) (cl_hier c) = Some (Inr (Some xr))
    \<and> run_queries plain_unpackers id [(4, 1, [0, 0]), (6, 1, [0, 0]), (8, 1, [0, 0]), (9, 2, [0, 0])] (fresh_rvat xr)
      = Some (Inr ([(False, [0, 0]), (True, [120, 0]), (True, [49, 0]), (True, [49, 0])], rv))"
proof -
  let ?G = "\<lambda>_ :: nat. [(0 :: u32, [49 :: u8])]" and ?vs = "[(16, 1), (16, 1)] :: (u8 \<times> u32) list" and ?gz = "\<lambda>_ :: bytes list. None :: bytes option"
  let ?qs = "[(4, 1, [0, 0]), (6, 1, [0, 0]), (8, 1, [0, 0]), (9, 2, [0, 0])] :: query list"
  let ?b = "pending_block demo_pending ?G 5 [120, 120] 2 [7]" and ?view = "reader_view ?vs (curtime demo_pending)"
  let ?h = "hdr_counts (demo_pending\<lparr>secnum := secnum demo_pending + 1\<rparr>) (initial_hdr [])"
  let ?d = "hdr_encode ?h @ file_bytes plain_packers (map Block [?b]) @ closing_sections plain_packers ?gz demo_pending"
  note f = demo_pending_fields
  have b: "vb_m ?b = 2" "vb_writer ?b = demo_pending" "vb_hist ?b = ?G" "vb_times ?b = [7]" "vb_dist ?b = [7]"
    "vb_frame ?b = [120, 120]" "vb_fm ?b = 2" "vb_beg ?b = 5" "vb_fin ?b = 9"
    by (simp_all add: pending_block_def vb_times_def f)
  have r: "signal_lens ?view = [1, 1]" "signal_typs ?view = [16, 16]" "fstReaderContext.maxhandle ?view = 2" "end_time ?view = 9"
    by (simp_all add: reader_view_def f geom_len_def geom_typ_def geom_code_def tag_is_real_def)
  have v: "varint (7 :: u64) = [7]" by (simp add: varint_unfold)
  have two: "(\<forall>x < 2. P x) \<longleftrightarrow> P 0 \<and> P (1 :: nat)" for P by (auto simp: less_2_cases_iff)
  have c: "compress2 plain_packers l s = None" for l s by (simp add: plain_packers_def)
  have vok: "vblock_ok plain_unpackers plain_packers ?view ?b"
    unfolding vblock_ok_def Let_def b r
    using demo_pending_ready(1,2) by (simp add: f demo_pending_ready(3) two v unpacks_def frame_unpacks_def c)
  have lh: "length (hdr_encode h) = 330" for h using hdr_encode_section [of h] by simp
  have gb: "geom_bytes ?vs = [1, 1]" by (simp add: geom_code_def tag_is_real_def varint_unfold)
  have cs: "length (closing_sections plain_packers ?gz demo_pending) < 100"
    by (simp add: closing_sections_def f geom_payload_def squeezed_def c)
  have pay: "length (vblock_payload plain_packers ?b) < 1000"
    unfolding vblock_payload_def b by (simp add: f demo_pending_ready(3,4) block_payload_def frame_part_def packed_frame_def times_part_def squeezed_def c varint_unfold
        del: be_loop.simps)
  then have len: "length ?d < 2 ^ 62" using cs by (simp add: lh file_bytes_def sec_bytes_def)
  have nb: "norm_1bit 49 = 49" by code_simp
  have bf: "block_for tim (map Block [?b]) = (if 5 \<le> tim \<and> tim \<le> 9 then Some ?b else None)" for tim
    by (simp add: block_for_def covers_def b)
  have vb: "value_before [7] tim [(0, [49])] = (if 7 \<le> tim then Some [49] else None)" for tim by (simp add: value_before_def)
  have va: "value_at id ?view (map Block [?b]) 4 1 = None" "value_at id ?view (map Block [?b]) 6 1 = Some [120, 0]"
    "value_at id ?view (map Block [?b]) 8 1 = Some [49, 0]" "value_at id ?view (map Block [?b]) 9 2 = Some [49, 0]"
    unfolding value_at_def bf r by (simp_all add: Let_def b r vb norm_val_def nb shown_text_def frame_text_def)
  have q: "queries_ok id ?view (map Block [?b]) {} ?qs"
    unfolding queries_ok.simps query_ok_defs prod.case fst_conv snd_conv va bf by (simp add: covers_def b r vb)
  have live: "\<not> already_in_close demo_pending" "\<not> already_in_flush demo_pending" "\<not> is_initial_time demo_pending"
    "\<not> size_limit_locked demo_pending" "1 < vchg_siz demo_pending" "dump_size_limit demo_pending = 0"
    by (simp_all add: demo_pending_def demo_flush_writer_def demo_block_writer_def writer_zero_def)
  have times: "at_end (tchn_handle demo_pending)" "f_data (tchn_handle demo_pending) = concat (map varint [7 :: u64])"
    "tchn_cnt demo_pending = of_nat (length [7 :: u64])" "firsttime demo_pending \<noteq> 0 \<or> curtime demo_pending \<noteq> 0"
    "section_start demo_pending = 331 + length (file_bytes plain_packers (map Block []))"
    by (simp_all add: v f) (simp_all add: demo_pending_def demo_flush_writer_def at_end_def file_bytes_def)
  have cl: "closable demo_pending (initial_hdr []) (file_bytes plain_packers (map Block []) @ open_header 5 5 (frame_part plain_packers [120, 120] 2))"
    using demo_pending_ready(1)
    by (simp add: closable_def writer_ready_def)
      (simp add: demo_pending_def demo_flush_writer_def demo_block_writer_def writer_zero_def new_file_def at_end_def hier_ok_def jdict_ok_empty file_bytes_def)
  have dr: "decl_rel demo_pending ?vs"
    by (simp add: decl_rel_def f gb del: geom_bytes_simps) (simp add: demo_pending_def at_end_def less_Suc_eq numeral_eq_Suc)
  have mal: "\<And>n. length (malloc_bytes plain_unpackers n) = n" by (simp add: plain_unpackers_def)
  have z: "unpacks plain_unpackers plain_packers (geom_bytes ?vs)" by (simp add: unpacks_def c)
  have rest: "compress_hier demo_pending \<Longrightarrow> hier_shown shows_all demo_pending" "compress_hier demo_pending \<Longrightarrow> hier_unpacks Some (\<lambda>d n. (0, d)) plain_packers ?gz demo_pending"
    "length (f_data (hier_handle demo_pending)) < 2 ^ 63"
    "length (LZ4_compress_default plain_packers (f_data (hier_handle demo_pending))) < 2 ^ 63"
    "repack_on_close demo_pending \<and> False \<Longrightarrow> \<exists>w. ?gz (chunked ?d) = Some w \<and> Some w = Some ?d \<and> length w < 2 ^ 63"
    "[?b] = [] @ [?b]" "\<forall>b \<in> set [?b]. vblock_ok plain_unpackers plain_packers ?view b" "length ?vs < 2 ^ 32" "?vs \<noteq> []"
    using vok by (simp_all add: f plain_packers_def)
  show ?thesis
    using write_close_query [OF live cl times(5,1-4) dr rest(9,8,6,7) refl len mal z rest(1-5) q, where pak_ok = False and junk = "[]"
        and recreate = "\<lambda>_. Inl Hang"]
    by (simp only: list.map prod.case va [unfolded list.map]) (simp add: reply_def in_buffer_def del: run_queries.simps)
qed

end
