(* ===== verification/Open_Faults.thy ===== *)
theory Open_Faults
  imports File_Roundtrip
begin

text \<open>
  A file on which \<open>fstReaderOpen\<close> does not return: the walk of \<open>fstReaderInit\<close> over the sections adds the
  length of a section to its position in 64 bits, so that a length may lead back to a section it has
  already passed.
\<close>

section \<open>A walk that stays in a set of states\<close>

lemma init_loop_stuck:
  assumes closed: "\<And>op. op \<in> S \<Longrightarrow> sint (op_blkpos op) < int endfile
      \<and> (\<exists>op'. init_block up op = Inr (True, op') \<and> op' \<in> S)"
    and "op \<in> S"
  shows "init_loop up endfile op = None"
proof (rule ccontr)
  assume "init_loop up endfile op \<noteq> None"
  then obtain r where r: "init_loop up endfile op = Some r" by auto
  have "up = up \<and> endfile = endfile \<longrightarrow> op \<notin> S"
  proof (rule init_loop.raw_induct [where P = "\<lambda>up' en' op' y. up' = up \<and> en' = endfile \<longrightarrow> op' \<notin> S", OF _ r])
    fix f up' en' op' y
    assume ih: "\<And>up' en' op' y. f up' en' op' = Some y \<Longrightarrow> up' = up \<and> en' = endfile \<longrightarrow> op' \<notin> S"
      and s: "(if \<not> sint (op_blkpos op') < int en' then Some (Inr op')
        else case init_block up' op' of Inl e \<Rightarrow> Some (Inl e)
          | Inr (go_on, op) \<Rightarrow> if go_on then f up' en' op else Some (Inr op)) = Some y"
    show "up' = up \<and> en' = endfile \<longrightarrow> op' \<notin> S"
    proof (intro impI notI)
      assume e: "up' = up \<and> en' = endfile" and S: "op' \<in> S"
      obtain op2 where "init_block up op' = Inr (True, op2)" "op2 \<in> S" using closed [OF S] by blast
      then have "f up endfile op2 = Some y" using s e closed [OF S] by simp
      from ih [OF this] \<open>op2 \<in> S\<close> show False by simp
    qed
  qed
  with assms(2) show False by simp
qed

text \<open>A section that is neither the dump activity nor the geometry leaves the walk where it is.\<close>

lemma f_data_u64_f: "f_data (xc_f (snd (u64_f up xc))) = f_data (xc_f xc)"
  by (simp add: u64_f_def fstReaderUint64_def fstFread_def fread_bytes_def Let_def case_prod_beta)

lemma init_section_keeps:
  assumes "op_seen op" and "sectype \<notin> {2, 3}"
  shows "\<exists>op'. init_section up sectype seclen op = Inr (Some op')
    \<and> f_data (xc_f (op_xc op')) = f_data (xc_f (op_xc op)) \<and> op_seen op' \<and> op_blkpos op' = op_blkpos op"
  using assms by (auto simp: init_section_def init_vcdata_def init_hier_def on_op_def Let_def case_prod_beta f_data_u64_f)

lemma init_block_keeps:
  assumes "f_data (xc_f (op_xc op)) = d" and "drop p d = t # be_loop 8 v @ r" and "op_seen op"
    and "op_blkpos op = of_nat p" and "p < 2 ^ 63" and "v \<noteq> 0" and "t \<notin> {2, 3}"
  shows "\<exists>op'. init_block up op = Inr (True, op') \<and> f_data (xc_f (op_xc op')) = d \<and> op_seen op'
    \<and> op_blkpos op' = of_nat p + 1 + v"
proof -
  let ?x0 = "(op_xc op)\<lparr>xc_f := file_at d p\<rparr>"
  let ?op = "op\<lparr>op_xc := ?x0\<lparr>xc_f := file_at d (p + 9)\<rparr>, op_blkpos := of_nat p + 1\<rparr>"
  have sk: "on_op (seek_f (sint (op_blkpos op)) SEEK_SET) op = op\<lparr>op_xc := ?x0\<rparr>"
    using assms(1,4,5) by (simp add: on_op_def sint_small(2) seek_f_start file_at_def)
  have b: "byte_f ?x0 = (uint t, ?x0\<lparr>xc_f := file_at d (p + 1)\<rparr>)"
    by (rule byte_at [OF _ assms(2)]) simp
  have d1: "drop (p + 1) d = be_loop 8 v @ r" using assms(2) drop_record [of p d "[t]"] by simp
  have u: "u64_f up ((op_xc op)\<lparr>xc_f := file_at d (Suc p)\<rparr>) = (v, (op_xc op)\<lparr>xc_f := file_at d (p + 9)\<rparr>)"
    by (subst u64_at [OF _ d1]) (simp_all add: eval_nat_numeral)
  have ut: "uint t \<noteq> -1" using uint_ge_0 [of t] by linarith
  have tt: "uint t \<notin> {2, 3}" using assms(7) by (auto simp: word_uint_eq_iff)
  obtain op2 where 2: "init_section up (uint t) v ?op = Inr (Some op2)" "f_data (xc_f (op_xc op2)) = d" "op_seen op2"
    "op_blkpos op2 = of_nat p + 1"
    using init_section_keeps [of ?op "uint t" up v] assms(3) tt by auto
  have "init_block up op = Inr (True, op2\<lparr>op_blkpos := op_blkpos op2 + v\<rparr>)"
    using 2 assms(3,6) ut by (simp add: init_block_def sk [unfolded assms(4)] b u Let_def assms(4))
  with 2 show ?thesis by simp
qed

text \<open>Where the blocks of a file start.\<close>

lemma blocks_bytes_append: "blocks_bytes (bs @ cs) = blocks_bytes bs @ blocks_bytes cs"
  by (simp add: blocks_bytes_def)

lemma init_loop_goes_back:
  assumes d: "d = h0 @ blocks_bytes bs @ t # be_loop 8 (- of_nat (length (blocks_bytes cs) + 1)) @ rest"
    and bs: "bs = ps @ cs" and len: "length d < 2 ^ 63" and tags: "\<forall>(t, p) \<in> set bs. is_vc_tag t" and t: "t \<notin> {2, 3}"
    and op: "f_data (xc_f (op_xc op)) = d" "op_seen op" "op_blkpos op = of_nat (length h0)"
  shows "init_loop up (length d) op = None"
proof -
  define at where "at i = length (h0 @ blocks_bytes (take i bs))" for i
  define S :: "opening_st set" where "S = {op. f_data (xc_f (op_xc op)) = d \<and> op_seen op \<and> (\<exists>i \<le> length bs. op_blkpos op = of_nat (at i))}"
  have lt: "at i < length d" for i
  proof -
    have "blocks_bytes bs = blocks_bytes (take i bs) @ blocks_bytes (drop i bs)"
      by (simp flip: blocks_bytes_append)
    then show ?thesis by (simp add: at_def d del: be_loop.simps)
  qed
  have "init_loop up (length d) op = None"
  proof (rule init_loop_stuck [where S = S])
    fix op
    assume "op \<in> S"
    then obtain i where i: "i \<le> length bs" "op_blkpos op = of_nat (at i)" and o: "f_data (xc_f (op_xc op)) = d" "op_seen op"
      by (auto simp: S_def)
    have p63: "at i < 2 ^ 63" using lt [of i] len by simp
    show "sint (op_blkpos op) < int (length d) \<and> (\<exists>op'. init_block up op = Inr (True, op') \<and> op' \<in> S)"
    proof (cases "i = length bs")
      case True
      have dr: "drop (at i) d = t # be_loop 8 (- of_nat (length (blocks_bytes cs) + 1)) @ rest"
        by (rule drop_at [of _ "h0 @ blocks_bytes bs"]) (simp_all add: d at_def True del: be_loop.simps)
      have "at i = at (length ps) + length (blocks_bytes cs)" by (simp add: at_def True bs blocks_bytes_append)
      then have there: "of_nat (at i) + 1 + - of_nat (length (blocks_bytes cs) + 1) = (of_nat (at (length ps)) :: u64)" by simp
      have nz: "(- of_nat (length (blocks_bytes cs) + 1) :: u64) \<noteq> 0"
      proof -
        have "length (blocks_bytes cs) + 1 < 2 ^ 64" using len by (simp add: d bs blocks_bytes_append del: be_loop.simps)
        then have "unat (of_nat (length (blocks_bytes cs) + 1) :: u64) = length (blocks_bytes cs) + 1" by (intro of_nat_inverse) simp_all
        then show ?thesis by (metis Suc_eq_plus1 neg_equal_0_iff_equal unat_0 nat.distinct(1))
      qed
      obtain op' where "init_block up op = Inr (True, op')" "f_data (xc_f (op_xc op')) = d" "op_seen op'"
        "op_blkpos op' = of_nat (at (length ps))"
        using init_block_keeps [OF o(1) dr o(2) i(2) p63 nz t, of up] unfolding there by blast
      moreover have "length ps \<le> length bs" by (simp add: bs)
      ultimately show ?thesis using lt [of i] p63 by (auto simp: S_def i(2) sint_small(2))
    next
      case False
      obtain t' p where b: "bs ! i = (t', p)" by fastforce
      have split: "take (Suc i) bs = take i bs @ [(t', p)]" "bs = take i bs @ (t', p) # drop (Suc i) bs"
        using i(1) False b by (simp_all add: take_Suc_conv_app_nth id_take_nth_drop flip: b)
      have t': "t' \<notin> {2, 3}"
      proof -
        have "(t', p) \<in> set bs" using split(2) by (metis in_set_conv_decomp)
        then show ?thesis using tags by (auto simp: is_vc_tag_def)
      qed
      have dr: "drop (at i) d = t' # be_loop 8 (of_nat (8 + length p)) @ p @ blocks_bytes (drop (Suc i) bs)
          @ t # be_loop 8 (- of_nat (length (blocks_bytes cs) + 1)) @ rest"
      proof (rule drop_at [of _ "h0 @ blocks_bytes (take i bs)"])
        have "blocks_bytes bs = blocks_bytes (take i bs) @ section_bytes t' p @ blocks_bytes (drop (Suc i) bs)"
          by (subst split(2)) (simp add: blocks_bytes_def)
        then show "d = (h0 @ blocks_bytes (take i bs)) @ t' # be_loop 8 (of_nat (8 + length p)) @ p @ blocks_bytes (drop (Suc i) bs)
          @ t # be_loop 8 (- of_nat (length (blocks_bytes cs) + 1)) @ rest"
          by (simp add: d section_bytes_def del: be_loop.simps of_nat_add)
      qed (simp add: at_def)
      have "at (Suc i) = at i + 9 + length p" by (simp add: at_def split(1) blocks_bytes_def)
      then have on: "of_nat (at i) + 1 + of_nat (8 + length p) = (of_nat (at (Suc i)) :: u64)" by simp
      have nz: "(of_nat (8 + length p) :: u64) \<noteq> 0"
      proof -
        have "8 + length p < 2 ^ 64" using arg_cong [OF dr, of length] len by (simp del: be_loop.simps)
        then have "unat (of_nat (8 + length p) :: u64) = 8 + length p" by (intro of_nat_inverse) simp_all
        then show ?thesis by (metis add_eq_0_iff_both_eq_0 unat_0 zero_neq_numeral)
      qed
      obtain op' where "init_block up op = Inr (True, op')" "f_data (xc_f (op_xc op')) = d" "op_seen op'"
        "op_blkpos op' = of_nat (at (Suc i))"
        using init_block_keeps [OF o(1) dr o(2) i(2) p63 nz t', of up] unfolding on by blast
      moreover have "Suc i \<le> length bs" using i(1) False by simp
      ultimately show ?thesis using lt [of i] p63 by (auto simp: S_def i(2) sint_small(2))
    qed
  next
    have "op_blkpos op = of_nat (at 0)" using op(3) by (simp add: at_def blocks_bytes_def)
    then show "op \<in> S" using op(1,2) by (auto simp: S_def)
  qed
  then show ?thesis .
qed

section \<open>Properties\<close>

text \<open>
  C33. \<open>fstReaderOpen\<close> does not return on a file with a good header and any value change blocks, when a
  section behind them, of any kind but geometry and dump activity, announces a length of minus (one more than the
  length of the last blocks): the position is moved on by one and then back, in 64 bits, to a block that was passed
  before, and the walk of \<open>fstReaderInit\<close> goes round. With no blocks between, the length is \<open>2 ^ 64 - 1\<close>.
  Nothing is asked of what stands behind.
\<close>

theorem open_walks_in_a_circle:
  assumes "d = hdr_encode h @ blocks_bytes (ps @ cs) @ t # be_loop 8 (- of_nat (length (blocks_bytes cs) + 1)) @ rest"
    and "length d < 2 ^ 63" and "\<forall>(t, p) \<in> set (ps @ cs). is_vc_tag t" and "t \<notin> {2, 3}"
    and "\<And>n. length (malloc_bytes up n) = n"
  shows "fstReaderOpen up gz tmp_ok recreate (Some d) hf = None"
proof -
  let ?x = "reader_zero\<lparr>xc_fh := map_option opened_file hf\<rparr>" and ?h0 = "hdr_encode h"
  let ?tl = "blocks_bytes (ps @ cs) @ t # be_loop 8 (- of_nat (length (blocks_bytes cs) + 1)) @ rest"
  let ?op = "\<lparr>op_xc = ?x\<lparr>xc_f := file_at d (length d)\<rparr>, op_blkpos = 0, op_incomplete = False, op_seen = False, op_sections = 0\<rparr>"
  let ?op2 = "?op\<lparr>op_incomplete := (h_start h = 0 \<and> h_end h = 0), op_seen := True, op_blkpos := 1,
    op_xc := (hdr_fields h ?x)\<lparr>xc_f := file_at d 330\<rparr>\<rparr>"
  have d0: "d = [] @ section_bytes 0 (hdr_payload h) @ ?tl"
    using assms(1) hdr_encode_section(1) [of h] by simp
  have e0: "entered 0 ?op = ?op\<lparr>op_xc := ?x\<lparr>xc_f := file_at d 9\<rparr>, op_blkpos := 1\<rparr>" by (simp add: entered_def)
  have "init_hdr up (entered 0 ?op) = Some ?op2"
    by (subst init_hdr_bytes [OF _ assms(1) assms(5)]) (simp_all add: e0 hdr_fields_def)
  then have sec: "init_section up (uint (0 :: u8)) (of_nat (8 + length (hdr_payload h))) (entered (length ([] :: bytes)) ?op)
    = Inr (Some ?op2)"
    by (simp add: init_section_def e0)
  have en: "length d = length ([] :: bytes) + length (hdr_payload h) + 9 + length ?tl"
    using arg_cong [OF d0, of length] by simp
  have "init_loop up (length d) ?op
    = init_loop up (length d) (?op2\<lparr>op_blkpos := of_nat (length ([] @ section_bytes 0 (hdr_payload h)))\<rparr>)"
    by (rule init_loop_section [OF _ _ _ _ sec _ _ en]) (use d0 assms(2) hdr_encode_section(2) [of h] in \<open>simp_all\<close>)
  also have "\<dots> = None"
    by (rule init_loop_goes_back [OF assms(1) refl assms(2-4)]) (simp_all add: hdr_encode_section(1) [symmetric])
  finally have loop: "init_loop up (length d) ?op = None" .
  obtain q0 where unw: "unwrap up gz tmp_ok (?x\<lparr>xc_f := opened_file d\<rparr>) = Some (True, ?x\<lparr>xc_f := file_at d q0\<rparr>)"
    using unwrap_plain [where x = ?x and h = h and up = up and gunz = gz and ok = tmp_ok] assms(1) by auto
  have eq: "reader_zero\<lparr>xc_f := opened_file d, xc_fh := map_option opened_file hf\<rparr> = ?x\<lparr>xc_f := opened_file d\<rparr>" by simp
  have "fstReaderInit up gz tmp_ok recreate (?x\<lparr>xc_f := opened_file d\<rparr>) = None"
    unfolding fstReaderInit_def unw option.case prod.case bool.case Let_def seek_end using loop by simp
  then show ?thesis unfolding fstReaderOpen_def option.case eq by simp
qed

text \<open>Two blocks, and a hierarchy section that leads back to the second one.\<close>

lemma open_walks_in_a_circle_witness:
  "fstReaderOpen plain_unpackers Some True (\<lambda>_. Inl Hang)
     (Some (hdr_encode (initial_hdr []) @ section_bytes 8 [1, 2] @ section_bytes 8 [3] @ [4, 255, 255, 255, 255, 255, 255, 255, 245])) None
   = None"
proof -
  have b: "blocks_bytes ([(8, [1, 2])] @ [(8, [3])]) = section_bytes 8 [1, 2] @ section_bytes 8 [3]"
    "length (blocks_bytes [(8, [3])]) = 10"
    by (simp_all add: blocks_bytes_def)
  have e: "be_loop 8 (- of_nat (length (blocks_bytes [(8, [3])]) + 1)) @ [] = [255, 255, 255, 255, 255, 255, 255, 245]"
    unfolding b(2) by code_simp
  show ?thesis
    by (rule open_walks_in_a_circle [where ps = "[(8, [1, 2])]" and cs = "[(8, [3])]" and t = 4 and rest = "[]", unfolded e b(1)])
      (simp_all add: is_vc_tag_def plain_unpackers_def)
qed

end
