(* ===== verification/Demo_Program.thy ===== *)
theory Demo_Program
  imports Writer_Close
begin

text \<open>
  The program of the repository, \<open>main\<close> of \<open>src/fstdemo.c\<close>: five signals in one scope, a reset, a
  clock and some data, and the file is closed. Its messages are left out.
\<close>

section \<open>The parts of main\<close>

text \<open>The properties of the file; \<open>date\<close> is what \<open>strftime\<close> makes of the time.\<close>

definition demo_options :: "bytes \<Rightarrow> wctx \<Rightarrow> wctx" where
  "demo_options date ctx =
     (let ctx = fstWriterSetPackType ctx 2;
          ctx = fstWriterSetRepackOnClose ctx 1;
          ctx = fstWriterSetTimescale ctx (-9);
          ctx = fstWriterSetTimezero ctx 0;
          ctx = fstWriterSetDate ctx date
      in fstWriterSetVersion ctx (Some (c_lit ''FST Demo v1.0'')))"

record demo_handles =
  clk :: u32
  rst_n :: u32
  data :: u32
  valid :: u32
  ready :: u32

text \<open>The types are \<open>FST_VT_VCD_WIRE\<close>, 16, and the directions \<open>FST_VD_INPUT\<close>, 1, and \<open>FST_VD_OUTPUT\<close>, 2.\<close>

definition demo_signals :: "wctx \<Rightarrow> (demo_handles \<times> wctx) outcome" where
  "demo_signals ctx =
     (let ctx = fstWriterSetScope ctx 0 (Some (c_lit ''top'')) None
      in andthen (fstWriterCreateVar ctx 16 1 1 (Some (c_lit ''clk'')) 0) (\<lambda>(clk, ctx).
         andthen (fstWriterCreateVar ctx 16 1 1 (Some (c_lit ''rst_n'')) 0) (\<lambda>(rst_n, ctx).
         andthen (fstWriterCreateVar ctx 16 2 32 (Some (c_lit ''data'')) 0) (\<lambda>(data, ctx).
         andthen (fstWriterCreateVar ctx 16 2 1 (Some (c_lit ''valid'')) 0) (\<lambda>(valid, ctx).
         andthen (fstWriterCreateVar ctx 16 1 1 (Some (c_lit ''ready'')) 0) (\<lambda>(ready, ctx).
         Inr (\<lparr>clk = clk, rst_n = rst_n, data = data, valid = valid, ready = ready\<rparr>, fstWriterSetUpscope ctx)))))))"

text \<open>A string literal is an array that ends with a zero byte.\<close>

definition c_string :: "string \<Rightarrow> bytes" where
  "c_string s = c_lit s @ [0]"

definition demo_initial :: "packers \<Rightarrow> demo_handles \<Rightarrow> wctx \<Rightarrow> wctx outcome" where
  "demo_initial pk hs ctx =
     andthen (fstWriterEmitTimeChange pk ctx 0) (\<lambda>ctx.
     andthen (fstWriterEmitValueChange ctx (clk hs) (c_string ''0'')) (\<lambda>ctx.
     andthen (fstWriterEmitValueChange ctx (rst_n hs) (c_string ''0'')) (\<lambda>ctx.
     andthen (fstWriterEmitValueChange ctx (data hs) (c_string ''00000000'')) (\<lambda>ctx.
     andthen (fstWriterEmitValueChange ctx (valid hs) (c_string ''0'')) (\<lambda>ctx.
     fstWriterEmitValueChange ctx (ready hs) (c_string ''0''))))))"

definition demo_clock :: "packers \<Rightarrow> demo_handles \<Rightarrow> nat \<Rightarrow> wctx \<Rightarrow> wctx outcome" where
  "demo_clock pk hs i ctx =
     andthen (fstWriterEmitTimeChange pk ctx (of_nat (i * 5))) (\<lambda>ctx.
       fstWriterEmitValueChange ctx (clk hs) (c_string (if odd i then ''1'' else ''0'')))"

definition demo_reset :: "packers \<Rightarrow> demo_handles \<Rightarrow> nat \<Rightarrow> wctx \<Rightarrow> wctx outcome" where
  "demo_reset pk hs i ctx =
     andthen (demo_clock pk hs i ctx) (\<lambda>ctx.
       if i = 8 then fstWriterEmitValueChange ctx (rst_n hs) (c_string ''1'') else Inr ctx)"

definition demo_data :: "nat \<Rightarrow> bytes" where
  "demo_data i = map (\<lambda>b. if odd (i div 2 ^ b) then ascii CHR ''1'' else ascii CHR ''0'') (rev [0..<32]) @ [0]"

definition demo_normal :: "packers \<Rightarrow> demo_handles \<Rightarrow> nat \<Rightarrow> wctx \<Rightarrow> wctx outcome" where
  "demo_normal pk hs i ctx =
     andthen (demo_clock pk hs i ctx) (\<lambda>ctx.
       if i mod 20 = 0 \<and> i > 20
       then andthen (fstWriterEmitValueChange ctx (data hs) (demo_data i)) (\<lambda>ctx.
            andthen (fstWriterEmitValueChange ctx (valid hs) (c_string ''1'')) (\<lambda>ctx.
            fstWriterEmitValueChange ctx (ready hs) (c_string ''1'')))
       else if i mod 20 = 2
       then andthen (fstWriterEmitValueChange ctx (valid hs) (c_string ''0'')) (\<lambda>ctx.
            fstWriterEmitValueChange ctx (ready hs) (c_string ''0''))
       else Inr ctx)"

primrec in_turn :: "(nat \<Rightarrow> wctx \<Rightarrow> wctx outcome) \<Rightarrow> nat list \<Rightarrow> wctx \<Rightarrow> wctx outcome" where
  "in_turn f [] ctx = Inr ctx"
| "in_turn f (i # is) ctx = andthen (f i ctx) (in_turn f is)"

text \<open>What \<open>main\<close> returns, with what is on the disk then.\<close>

definition fstdemo_main ::
    "packers \<Rightarrow> (bytes list \<Rightarrow> bytes option) \<Rightarrow> mapping \<Rightarrow> bytes \<Rightarrow> bool \<Rightarrow> bool \<Rightarrow> bool \<Rightarrow> bytes list option \<Rightarrow> bytes \<Rightarrow> bytes
      \<Rightarrow> (int \<times> closed option) outcome" where
  "fstdemo_main pk gz mm junk pak_ok opened rest_ok meminfo walltime date =
     (let ctx = fstWriterCreate opened rest_ok meminfo walltime (Some (c_lit ''waveform.fst'')) 1
      in if ctx = None then Inr (1, None)
         else andthen (demo_signals (demo_options date ctx)) (\<lambda>(hs, ctx).
              andthen (demo_initial pk hs ctx) (\<lambda>ctx.
              andthen (in_turn (demo_reset pk hs) [0..<10] ctx) (\<lambda>ctx.
              andthen (in_turn (demo_normal pk hs) [10..<100] ctx) (\<lambda>ctx.
              andthen (fstWriterClose pk gz mm junk pak_ok ctx) (\<lambda>c. Inr (0, c)))))))"


section \<open>Its course\<close>

definition core :: "fstWriterContext \<Rightarrow> u32 list \<times> u32 \<times> u32 \<times> int \<times> bool \<times> bool \<times> bool \<times> bool \<times> u32" where
  "core xc = (valpos xc, fstWriterContext.maxhandle xc, maxvalpos xc, int (length (curval xc)), valpos_mapped xc, curval_mapped xc,
     is_initial_time xc, size_limit_locked xc, vchg_alloc_siz xc)"

definition sigs :: "fstWriterContext \<Rightarrow> u32 \<times> u32" where
  "sigs xc = (numsigs xc, next_huge_break xc)"

lemma core_steps [simp]:
  "core (fstWriterFseeko k w xc) = core xc" "core (on_handle f xc) = core xc" "core (hier_put bs xc) = core xc"
  "core (hier_len l xc) = core xc" "core (xc\<lparr>numsigs := a\<rparr>) = core xc"
  "core (xc\<lparr>numscopes := b\<rparr>) = core xc" "core (xc\<lparr>fastpack := c, fourpack := d\<rparr>) = core xc"
  "core (xc\<lparr>repack_on_close := c\<rparr>) = core xc" "core (xc\<lparr>timezero := t\<rparr>) = core xc"
  by (simp_all add: core_def fstWriterFseeko_def on_handle_def hier_put_def hier_len_def Let_def case_prod_beta)

lemma sigs_steps [simp]:
  "sigs (fstWriterFseeko k w xc) = sigs xc" "sigs (on_handle f xc) = sigs xc" "sigs (hier_put bs xc) = sigs xc"
  "sigs (hier_len l xc) = sigs xc" "sigs (xc\<lparr>numsigs := a\<rparr>) = (a, snd (sigs xc))"
  "sigs (xc\<lparr>numscopes := b\<rparr>) = sigs xc" "sigs (xc\<lparr>fastpack := c, fourpack := d\<rparr>) = sigs xc"
  "sigs (xc\<lparr>repack_on_close := c\<rparr>) = sigs xc" "sigs (xc\<lparr>timezero := t\<rparr>) = sigs xc"
  by (simp_all add: sigs_def fstWriterFseeko_def on_handle_def hier_put_def hier_len_def Let_def case_prod_beta)

lemma core_patch [simp]: "core (patch offs f xc) = core xc" "core (update_header_counts xc) = core xc"
  "sigs (patch offs f xc) = sigs xc" "sigs (update_header_counts xc) = sigs xc"
  by (simp_all add: patch_def update_header_counts_def Let_def)

lemma created_core:
  assumes "fstWriterCreate opened rest_ok meminfo walltime (Some nm) 1 = Some xc"
  shows "core xc = ([], 0, 0, 0, False, False, True, False, 2 ^ 27 + 2 ^ 22)" "sigs xc = (0, 1000000)"
  using assms
  by (auto simp: fstWriterCreate_def fstDetermineBreakSize_def writer_zero_def fstWriterEmitHdrBytes_def core_def sigs_def Let_def on_handle_def
      fstWriterFseeko_def case_prod_beta FST_BREAK_SIZE_def FST_BREAK_ADD_SIZE_def FST_ACTIVATE_HUGE_BREAK_def split: if_splits option.splits)

lemma options_core: "\<exists>xc'. demo_options date (Some xc) = Some xc' \<and> core xc' = core xc \<and> sigs xc' = sigs xc"
  by (simp add: demo_options_def Let_def fstWriterSetPackType_def fstWriterSetRepackOnClose_def fstWriterSetTimescale_def
      fstWriterSetTimezero_def fstWriterSetDate_def fstWriterSetVersion_def)

lemma scope_core: "\<exists>xc'. fstWriterSetScope (Some xc) t (Some n) c = Some xc' \<and> core xc' = core xc \<and> sigs xc' = sigs xc"
  by (simp add: fstWriterSetScope_def Let_def split: option.split)

lemma CreateVar_core:
  assumes "core xc = (vp, mh, mv, lc, False, False, i, l, al)" and "n \<noteq> 0" and "sigs xc = (k, hb)" "k + 1 \<noteq> hb"
  shows "\<exists>xc'. fstWriterCreateVar (Some xc) 16 vd n (Some nm) 0 = Inr (mh + 1, Some xc')
    \<and> core xc' = (vp @ [mv, n, 0, 0], mh + 1, mv + n, lc + uint n, False, False, i, l, al) \<and> sigs xc' = (k + 1, hb)"
proof -
  let ?b = "var_base 16 vd n nm 0 xc"
  have "\<not> valpos_mapped xc" using assms(1) by (simp add: core_def)
  moreover have "huge_break x = x" if "sigs x = (k + 1, hb)" for x using that assms(4) by (auto simp: huge_break_def sigs_def)
  moreover have "k = numsigs xc" using assms(3) by (simp add: sigs_def)
  ultimately have b: "core ?b = (vp, mh, mv, lc, False, False, i, l, al)" "sigs ?b = (k + 1, hb)"
    using assms(1,3) by (simp_all add: var_base_def hier_add_def)
  then have f: "valpos ?b = vp" "fstWriterContext.maxhandle ?b = mh" "maxvalpos ?b = mv" by (simp_all add: core_def)
  have "var_alias xc 0 = 0" "\<not> var_is_real 16" "var_len 16 n = n" by (simp_all add: var_alias_def var_is_real_def var_len_def)
  then show ?thesis using b assms(2) by (simp add: CreateVar_eq new_handle_eq f) (simp add: core_def sigs_def)
qed

text \<open>The state in which the signals are declared.\<close>

definition five_cells :: "u32 list" where
  "five_cells = [0, 1, 0, 0, 1, 1, 0, 0, 2, 32, 0, 0, 34, 1, 0, 0, 35, 1, 0, 0]"

lemma demo_signals_core:
  assumes "core xc = ([], 0, 0, 0, False, False, True, False, al)" "sigs xc = (0, 1000000)"
  shows "\<exists>xc'. demo_signals (Some xc) = Inr (\<lparr>clk = 1, rst_n = 2, data = 3, valid = 4, ready = 5\<rparr>, Some xc')
    \<and> core xc' = (five_cells, 5, 36, 36, False, False, True, False, al)"
proof -
  obtain x0 where 0: "fstWriterSetScope (Some xc) 0 (Some (c_lit ''top'')) None = Some x0"
    "core x0 = ([], 0, 0, 0, False, False, True, False, al)" "sigs x0 = (0, 1000000)"
    using scope_core [of xc 0 "c_lit ''top''" None] assms by auto
  obtain x1 where 1: "fstWriterCreateVar (Some x0) 16 1 1 (Some (c_lit ''clk'')) 0 = Inr (1, Some x1)"
    "core x1 = ([0, 1, 0, 0], 1, 1, 1, False, False, True, False, al)" "sigs x1 = (1, 1000000)"
    using CreateVar_core [OF 0(2) _ 0(3), of 1] by auto
  obtain x2 where 2: "fstWriterCreateVar (Some x1) 16 1 1 (Some (c_lit ''rst_n'')) 0 = Inr (2, Some x2)"
    "core x2 = ([0, 1, 0, 0, 1, 1, 0, 0], 2, 2, 2, False, False, True, False, al)" "sigs x2 = (2, 1000000)"
    using CreateVar_core [OF 1(2) _ 1(3), of 1] by auto
  obtain x3 where 3: "fstWriterCreateVar (Some x2) 16 2 32 (Some (c_lit ''data'')) 0 = Inr (3, Some x3)"
    "core x3 = ([0, 1, 0, 0, 1, 1, 0, 0, 2, 32, 0, 0], 3, 34, 34, False, False, True, False, al)" "sigs x3 = (3, 1000000)"
    using CreateVar_core [OF 2(2) _ 2(3), of 32] by auto
  obtain x4 where 4: "fstWriterCreateVar (Some x3) 16 2 1 (Some (c_lit ''valid'')) 0 = Inr (4, Some x4)"
    "core x4 = ([0, 1, 0, 0, 1, 1, 0, 0, 2, 32, 0, 0, 34, 1, 0, 0], 4, 35, 35, False, False, True, False, al)" "sigs x4 = (4, 1000000)"
    using CreateVar_core [OF 3(2) _ 3(3), of 1] by auto
  obtain x5 where 5: "fstWriterCreateVar (Some x4) 16 1 1 (Some (c_lit ''ready'')) 0 = Inr (5, Some x5)"
    "core x5 = (five_cells, 5, 36, 36, False, False, True, False, al)"
    using CreateVar_core [OF 4(2) _ 4(3), of 1] by (auto simp: five_cells_def)
  have "core (the (fstWriterSetUpscope (Some x5))) = core x5" by (simp add: fstWriterSetUpscope_def)
  then show ?thesis
    unfolding demo_signals_def Let_def 0(1) 1(1) 2(1) 3(1) 4(1) 5(1) andthen_simps prod.case
    using 5(2) by (simp add: fstWriterSetUpscope_def)
qed

text \<open>The state in which the values are emitted, with at most \<open>k\<close> bytes of changes.\<close>

definition emitting :: "nat \<Rightarrow> fstWriterContext \<Rightarrow> bool" where
  "emitting k xc \<longleftrightarrow> valpos_mapped xc \<and> \<not> is_initial_time xc \<and> fstWriterContext.maxhandle xc = 5 \<and> length (valpos xc) = 20
     \<and> valpos xc ! 1 = 1 \<and> valpos xc ! 5 = 1 \<and> valpos xc ! 9 = 32 \<and> unat (vchg_siz xc) \<le> k \<and> vchg_alloc_siz xc = 2 ^ 27 + 2 ^ 22"

lemma mapped_core:
  "core (fstWriterCreateMmaps xc) = (let (vp, mh, mv, lc, m, c, i, l, al) = core xc
     in (vp, mh, mv, lc, m \<or> mh \<noteq> 0, c \<or> mv \<noteq> 0, i, l, al))"
proof -
  let ?u = "fstWriterFseeko (int (ftello (handle xc))) SEEK_SET (update_header_counts xc)"
  have "core ?u = core xc" by simp
  moreover have "core (fstWriterCreateMmaps xc) = (let (vp, mh, mv, lc, m, c, i, l, al) = core ?u
     in (vp, mh, mv, lc, m \<or> mh \<noteq> 0, c \<or> mv \<noteq> 0, i, l, al))"
    unfolding fstWriterCreateMmaps_def Let_def by (simp add: core_def)
  ultimately show ?thesis by simp
qed

lemma first_time_emitting:
  assumes "core xc = (five_cells, 5, 36, 36, False, False, True, False, 2 ^ 27 + 2 ^ 22)"
  shows "\<exists>xc'. fstWriterEmitTimeChange pk (Some xc) tim = Inr (Some xc') \<and> emitting 1 xc'"
proof -
  let ?m = "(fstWriterCreateMmaps xc)\<lparr>firsttime := if vc_emitted (fstWriterCreateMmaps xc) then 0 else tim, curtime := 0, vchg_mem := [33], vchg_siz := 1\<rparr>"
  have nm: "\<not> valpos_mapped xc" "is_initial_time xc" "\<not> size_limit_locked xc" using assms by (simp_all add: core_def)
  have m: "core ?m = (five_cells, 5, 36, 36, True, True, True, False, 2 ^ 27 + 2 ^ 22)" "vchg_siz ?m = 1"
    using mapped_core [of xc] unfolding assms by (simp_all add: core_def five_cells_def)
  have "\<exists>x. fstWriterEmitSectionHeader (compress2 pk) ?m = Inr x \<and> core x = core ?m \<and> vchg_siz x = 1"
    using m by (simp add: core_def fstWriterEmitSectionHeader_def Let_def load_n_def fstWriterVarint_eq on_handle_def)
  then obtain x where x: "fstWriterEmitSectionHeader (compress2 pk) ?m = Inr x" "core x = core ?m" "vchg_siz x = 1" by blast
  have "\<exists>y. clear_cells x = Inr y \<and> emitting 1 (y\<lparr>is_initial_time := False\<rparr>)"
    using x(2,3) m(1) by (simp add: core_def clear_cells_def emitting_def five_cells_def upt_rec)
  then show ?thesis
    using nm x(1) by (auto simp: fstWriterEmitTimeChange_def first_time_def Let_def emit_time_def fstWriterVarint_eq emitting_def)
qed

lemma no_growth:
  assumes "emitting k xc" "k \<le> 100" "unat need \<le> 100"
  shows "vchg_grow need extra xc = xc"
proof -
  have "unat (vchg_siz xc + need) \<le> 200" using assms by (simp add: emitting_def unat_word_ariths)
  then show ?thesis using assms(1) by (simp add: vchg_grow_def emitting_def word_less_nat_alt)
qed

lemma emit_bit:
  assumes e: "emitting k xc" "k \<le> 90" and h: "h = 1 \<or> h = 2" and "v \<noteq> []"
  shows "\<exists>xc'. fstWriterEmitValueChange (Some xc) h v = Inr (Some xc') \<and> emitting (k + 10) xc'"
proof -
  have m: "emit_maps xc = xc" using e(1) by (simp add: emit_maps_def emitting_def)
  have g: "vchg_grow 11 1 xc = xc" by (rule no_growth [OF e(1)]) (use e(2) in simp_all)
  obtain b v' where v: "v = b # v'" using assms(4) by (cases v) auto
  have put: "\<exists>n. fstWriterUint32WithVarint32 p t v 1 xc = Inr (n, xc\<lparr>vchg_mem := take (unat (vchg_siz xc)) (vchg_mem xc) @ le32 p @ varint t @ [b]\<rparr>)
      \<and> unat n \<le> 10" for p t
  proof -
    have l: "length (varint t) \<le> 5" by (rule length_varint_32)
    then have "unat (of_nat (5 + length (varint t)) :: u32) \<le> 10" by (simp add: unsigned_of_nat take_bit_nat_eq_self del: of_nat_add)
    moreover have "unat (vchg_alloc_siz xc) = 138412032" using e(1) by (simp add: emitting_def)
    then have "unat (vchg_siz xc) + length (le32 p @ varint t @ [b]) \<le> unat (vchg_alloc_siz xc)"
      using l e by (simp add: emitting_def)
    ultimately show ?thesis
      by (simp add: fstWriterUint32WithVarint32_def v load_n_def vchg_put_def add.commute)
  qed
  have step: "fstWriterEmitValueChange (Some xc) h v
    = andthen (fstWriterUint32WithVarint32 (valpos xc ! (4 * unat (h - 1) + 2)) (tchn_idx xc - valpos xc ! (4 * unat (h - 1) + 3)) v 1 xc)
        (\<lambda>r. Inr (Some (vchg_link (h - 1) (vchg_siz xc) (fst r) (snd r))))"
    using e(1) h by (auto simp: fstWriterEmitValueChange_def m g vm4ip_def emitting_def andthen_assoc case_prod_beta)
  have siz: "unat (vchg_siz xc + n) \<le> k + 10" if "unat n \<le> 10" for n
    using that e by (simp add: emitting_def unat_word_ariths)
  obtain n x where n: "fstWriterUint32WithVarint32 (valpos xc ! (4 * unat (h - 1) + 2)) (tchn_idx xc - valpos xc ! (4 * unat (h - 1) + 3)) v 1 xc
    = Inr (n, xc\<lparr>vchg_mem := x\<rparr>)" "unat n \<le> 10" using put by blast
  have "emitting (k + 10) (vchg_link (h - 1) (vchg_siz xc) n (xc\<lparr>vchg_mem := x\<rparr>))"
    using e(1) h siz [OF n(2)] by (auto simp: emitting_def vchg_link_def)
  then show ?thesis unfolding step n(1) by simp
qed

lemma emit_data:
  assumes e: "emitting k xc" "k \<le> 100" and "length v < 32"
  shows "fstWriterEmitValueChange (Some xc) 3 v = Inl Out_of_bounds"
proof -
  have m: "emit_maps xc = xc" using e(1) by (simp add: emit_maps_def emitting_def)
  have g: "vchg_grow 42 32 xc = xc" by (rule no_growth [OF e]) simp
  show ?thesis
    using e assms(3) by (simp add: fstWriterEmitValueChange_def m g vm4ip_def emitting_def fstWriterUint32WithVarint32_def load_n_def)
qed

text \<open>
  C39. The demo program never gets past its start: \<open>data\<close> is 32 bits wide and its first value is the
  literal \<open>00000000\<close>, from which \<open>fstWriterEmitValueChange\<close> copies 32 bytes. Whatever the file, the memory,
  the date and the packers are, a run that can create the file reads outside the literal.
\<close>

theorem demo_reads_past_literal:
  "fstdemo_main pk gz mm junk pak_ok opened rest_ok meminfo walltime date
    = (if opened \<and> rest_ok then Inl Out_of_bounds else Inr (1, None))"
proof (cases "opened \<and> rest_ok")
  case False
  then show ?thesis by (auto simp: fstdemo_main_def fstWriterCreate_def Let_def)
next
  case True
  let ?hs = "\<lparr>clk = 1, rst_n = 2, data = 3, valid = 4, ready = 5\<rparr> :: demo_handles"
  obtain xc where c: "fstWriterCreate True True meminfo walltime (Some (c_lit ''waveform.fst'')) 1 = Some xc"
    by (auto simp: fstWriterCreate_def Let_def)
  obtain x1 where 1: "demo_options date (Some xc) = Some x1" "core x1 = core xc" "sigs x1 = sigs xc" using options_core by blast
  obtain x2 where 2: "demo_signals (Some x1) = Inr (?hs, Some x2)"
    "core x2 = (five_cells, 5, 36, 36, False, False, True, False, 2 ^ 27 + 2 ^ 22)"
    using demo_signals_core [of x1] 1(2,3) created_core [OF c] by auto
  obtain x3 where 3: "fstWriterEmitTimeChange pk (Some x2) 0 = Inr (Some x3)" "emitting 1 x3"
    using first_time_emitting [OF 2(2)] by blast
  have ne: "c_string s \<noteq> []" for s by (simp add: c_string_def)
  obtain x4 where 4: "fstWriterEmitValueChange (Some x3) 1 (c_string ''0'') = Inr (Some x4)" "emitting 11 x4"
    using emit_bit [OF 3(2) _ _ ne, of 1] by auto
  obtain x5 where 5: "fstWriterEmitValueChange (Some x4) 2 (c_string ''0'') = Inr (Some x5)" "emitting 21 x5"
    using emit_bit [OF 4(2) _ _ ne, of 2] by auto
  have "fstWriterEmitValueChange (Some x5) 3 (c_string ''00000000'') = Inl Out_of_bounds"
    by (rule emit_data [OF 5(2)]) (simp_all add: c_string_def c_lit_def)
  then have "demo_initial pk ?hs (Some x2) = Inl Out_of_bounds" by (simp add: demo_initial_def 3(1) 4(1) 5(1))
  then show ?thesis using True by (simp add: fstdemo_main_def c 1(1) 2(1))
qed

end
