(* ===== verification/Spec2Isabelle.thy ===== *)
theory Spec2Isabelle
  imports Block_LZ4 Rvat_Faults Write_Query Open_Faults Demo_Program
begin

text \<open>
  A model of the FST waveform library (\<open>src/include/libfst/fstapi.c\<close>), of the compressors FastLZ and
  LZ4 it ships (\<open>src/include/libfst/fastlz.c\<close>, \<open>src/include/libfst/lz4.c\<close>) and of the program that uses it (\<open>src/fstdemo.c\<close>), with the
  theorems that make them correct.

  \<^bold>\<open>The program.\<close> A writer is created (\<open>fstWriterCreate\<close>), is told the hierarchy of scopes and variables
  (\<open>fstWriterSetScope\<close>, \<open>fstWriterCreateVar\<close>, ...), and then gets value changes
  (\<open>fstWriterEmitValueChange\<close> and its variants) between time changes (\<open>fstWriterEmitTimeChange\<close>). The
  changes are collected in memory as one backward chain of records per handle. Now and then
  \<open>fstWriterFlushContextPrivate\<close> turns the chains into a value change block: forward runs of packed
  records, compressed, equal runs shared through a Jenkins hash table, an index of the runs and a
  table of the times. \<open>fstWriterClose\<close> appends the geometry, the dump activity and the hierarchy, and
  completes the header. The reader opens a file by a walk over its sections (\<open>fstReaderInit\<close>),
  iterates over the hierarchy (\<open>fstReaderIterateHier\<close>, \<open>fstReaderProcessHier\<close>), and hands on the value
  changes of the wanted handles in the order of time, to call-backs or as VCD text
  (\<open>fstReaderIterBlocks2\<close>), or answers what the value of one handle is at one time
  (\<open>fstReaderGetValueFromHandleAtTime\<close>), for which it keeps a block, a run and a place in the run.

  \<^bold>\<open>How the code is modelled.\<close> A C integer is a word of its width; a pointer into memory is an offset
  into the list of bytes of its object, and every access is checked against that list. A function
  that can read or write out of bounds, shift too far, overflow a signed integer, abort or loop for
  ever returns \<open>fault + value\<close> (\<open>Prelude\<close>, type \<open>outcome\<close>); a loop for which no bound is known in advance
  is a \<open>partial_function\<close> into \<open>option\<close>, whose \<open>None\<close> is the run that never ends. The structs of the writer
  and the reader are records with the field names of the code (\<open>Writer_Context\<close>, \<open>Reader_Context\<close>);
  a stream is its bytes, its position and its end-of-file flag (\<open>Stdio\<close>). Code outside the
  repository is an argument: zlib, \<open>realpath\<close>, the clock, the text \<open>printf\<close> makes of a double, and what a mapping of
  the hierarchy file shows while its stream is open (\<open>mapping\<close> in \<open>Writer_Close\<close>: the code does not flush the
  stream before). In the
  theories of the writer and the reader FastLZ and LZ4 are arguments as well (\<open>packers\<close> in \<open>Flush\<close>,
  \<open>unpackers\<close> in \<open>Traversal\<close>), so that these do not depend on a compressor. What a theorem asks of a
  decompressor is stated as a hypothesis: it gives back what the compressor was given. For FastLZ and
  for LZ4 it is proved (\<open>Block_FastLZ\<close>, \<open>Block_LZ4\<close>).

  \<^bold>\<open>The theories,\<close> in the order of their imports.

  \<^item> \<open>Prelude\<close>, \<open>Stdio\<close>: integers, faults, checked memory; \<open>fstFread\<close>, \<open>fstFwrite\<close>, 64-bit fields.
  \<^item> \<open>Varint\<close>: the numbers of variable length, with the locales \<open>codec\<close> (a decoder that inverts an
    encoder, in memory) and \<open>stream_codec\<close> (on a stream), each interpreted on the routines of the code.
  \<^item> \<open>Escape\<close>, \<open>Enum_Table\<close>, \<open>Vcd_Id\<close>: the utilities \<open>fstUtilityBinToEsc\<close> and \<open>fstUtilityEscToBin\<close>, in place
    too, the strings of enumeration tables, the identifiers of VCD files.
  \<^item> \<open>Jenkins\<close>: the hash table, against the locale \<open>dictionary\<close> (the first binding of a key stays), which
    is what the flush and \<open>fstWriterSetSourceStem_2\<close> rely on.
  \<^item> \<open>Writer_Context\<close>, \<open>Hier_Writer\<close>, \<open>Value_Change\<close>, \<open>Flush\<close>, \<open>Writer_Close\<close>: the writer. The setters of
    the header refine updates of an abstract header record; hierarchy operations refine the list of
    items; emissions refine a history per handle (\<open>chain_ok\<close>).
  \<^item> \<open>Reader_Context\<close>, \<open>Hier_Reader\<close>, \<open>Process_Hier\<close>, \<open>Declarations\<close>: the reader's context, its scope
    names (a stack of names), its process mask (locale \<open>handle_flags\<close>, a set of handles), the
    iterator over the hierarchy and the pass that prints the header of a VCD file.
  \<^item> \<open>Chain_Codec\<close>, \<open>Chain_Index\<close>, \<open>Traversal\<close>, \<open>Traversal_Order\<close>, \<open>Iter_Blocks\<close>: a block in the reader:
    records, index, the queues by time index, the walk over the blocks, times and frame.
  \<^item> \<open>Block\<close>, \<open>Block_Load\<close>, \<open>Block_Roundtrip\<close>: the runs and the index of a block from the loops of the
    flush to the calls of the reader.
  \<^item> \<open>Reader_Open\<close>, \<open>Sections\<close>, \<open>File_Roundtrip\<close>: from \<open>fstWriterClose\<close> to \<open>fstReaderOpen\<close>.
    \<open>Open_Faults\<close>: a file whose sections lead the walk of \<open>fstReaderOpen\<close> round for ever.
  \<^item> \<open>Block_Layout\<close>: what a flush does to the file, byte by byte.
  \<^item> \<open>Rvat\<close>: the value at a time; \<open>Rvat_Walk\<close> (the walk along a run and the place that is kept),
    \<open>Rvat_Load\<close> (the tables of a block), \<open>Rvat_Query\<close> (the search in a file of sections), \<open>Rvat_Answers\<close>
    (lists of queries against the histories) and \<open>Rvat_Faults\<close> (two queries that go wrong). The lists of
    queries that are answered rightly are those of \<open>queries_ok\<close>, which leaves out the two.
  \<^item> \<open>Write_Query\<close>: from the pending histories of a writer over \<open>fstWriterClose\<close> and \<open>fstReaderOpen\<close> to
    the answers of the reader.
  \<^item> \<open>Hier_Roundtrip\<close>: from the calls of the writer to the items of the iterator.
  \<^item> \<open>FastLZ\<close>, \<open>FastLZ_Roundtrip\<close>, \<open>Block_FastLZ\<close>: both levels of FastLZ, their streams as lists of
    tokens, and their use for the runs of a block.
  \<^item> \<open>LZ4_Decompress\<close>, \<open>LZ4_Copy\<close>, \<open>LZ4_Reference\<close>, \<open>LZ4_Safe\<close>: \<open>LZ4_decompress_safe_partial\<close>, its copies that
    write past their end, a decoder that appends byte by byte, and the proof that both agree.
  \<^item> \<open>LZ4_Compress\<close>, \<open>LZ4_Sequences\<close>, \<open>LZ4_Match\<close>, \<open>LZ4_Roundtrip\<close>, \<open>Block_LZ4\<close>: \<open>LZ4_compress_default\<close>, the format
    as the reference decoder reads it, the search for matches, the states of the compressor with the
    stream so far, and its use for the runs of a block.
  \<^item> \<open>Demo_Program\<close>: \<open>main\<close> of \<open>src/fstdemo.c\<close> over the model of the writer.

  \<^bold>\<open>What is shown.\<close> Round trips: records, indices, blocks, times, the hierarchy, the sections of a
  file, FastLZ, LZ4, escapes, tables, numbers. Refinements: chains to histories, hash table to
  dictionary, header to record, buffers to concatenation, scope buffer to stack, queries with their
  cache to the last change in a history. Bounds: the scratch
  pad of the flush, the output of FastLZ and of LZ4 and their announced growth, escape lengths. Behaviour on
  malformed or extreme input, where the code goes wrong: these are theorems as well, each on the
  code as it is.

  \<^bold>\<open>Bounds and fuel.\<close> Loops over bytes take as many rounds at most as there are bytes (\<open>ci_loop\<close>), the
  loops of FastLZ as the length of the input; both are exact, for each round takes a byte. The round
  trip of blocks is stated for less than \<open>2 ^ 30\<close> handles, at most \<open>2 ^ 28\<close> time indices and
  runs below 2 GiB, since the code keeps positions in 32 bits with a sign and shifts distances of
  one-bit values by four.

  \<^bold>\<open>Not modelled.\<close> The parts of \<open>lz4.c\<close> that nothing calls: dictionaries, streams, full blocks,
  \<open>fillOutput\<close>, machines that are not little-endian with 64 bits. Code that the build leaves out: the
  parallel writer, Judy arrays, removal of duplicate changes. Opening, mapping and removing files,
  \<open>/proc/meminfo\<close>, buffers of \<open>stdio\<close> (but for the hierarchy file, see above), failing allocations where the code does not look at the result.
  \<open>fstReaderClose\<close> and \<open>fstUtilityFreeEnumTable\<close>, which only release memory. The FIRRTL parser and the
  Scala project beside the library, which do not use it.
\<close>

end
